(* ===== verification/CleanQ_Prelude.thy ===== *)
theory CleanQ_Prelude
  imports Main "HOL-Library.Word"
begin

text \<open>
  What every component of the development shares: the C integer types as machine words, the
  result type of a C function that can get stuck, the collections of facts the component proofs
  draw on, and generic lemmas on words, lists and pointer chains.

  A C function that may abort, read or write memory it does not own, divide by zero or loop for
  ever is modelled by a function into \<open>'a cres\<close>: \<open>Inr r\<close> is an ordinary return with result \<open>r\<close>
  and \<open>Inl e\<close> names what went wrong. A theorem that an operation is safe says that its result is
  an \<open>Inr\<close>.
\<close>

unbundle bit_operations_syntax

section \<open>Machine types\<close>

type_synonym u8 = "8 word"
type_synonym u16 = "16 word"
type_synonym u32 = "32 word"
type_synonym u64 = "64 word"

text \<open>Addresses of C objects the code only compares and follows; 0 is \<open>NULL\<close>.\<close>

type_synonym addr = nat

section \<open>Results of C functions\<close>

datatype fault =
    Assert_Failed   \<comment> \<open>an \<open>assert\<close> fails\<close>
  | Bad_Memory      \<comment> \<open>a NULL, dangling or out-of-range access, or a call through NULL\<close>
  | Div_By_Zero
  | No_Return       \<comment> \<open>a loop that never ends\<close>

type_synonym 'a cres = "fault + 'a"

definition bindc :: "'a cres \<Rightarrow> ('a \<Rightarrow> 'b cres) \<Rightarrow> 'b cres" where
  "bindc r k = (case r of Inl e \<Rightarrow> Inl e | Inr x \<Rightarrow> k x)"

text \<open>The value of a loop defined in the option mode: \<open>None\<close> is a loop that does not end.\<close>

definition run_loop :: "'a cres option \<Rightarrow> 'a cres" where
  "run_loop r = (case r of None \<Rightarrow> Inl No_Return | Some x \<Rightarrow> x)"

text \<open>A read of \<open>a[i]\<close> and a write \<open>a[i] = v\<close> on an array of known length.\<close>

definition arr_get :: "'a list \<Rightarrow> nat \<Rightarrow> 'a cres" where
  "arr_get xs i = (if i < length xs then Inr (xs ! i) else Inl Bad_Memory)"

definition arr_set :: "'a list \<Rightarrow> nat \<Rightarrow> 'a \<Rightarrow> 'a list cres" where
  "arr_set xs i v = (if i < length xs then Inr (xs[i := v]) else Inl Bad_Memory)"

text \<open>A read through a pointer into a store.\<close>

definition deref :: "('p \<rightharpoonup> 'a) \<Rightarrow> 'p \<Rightarrow> 'a cres" where
  "deref m p = (case m p of None \<Rightarrow> Inl Bad_Memory | Some x \<Rightarrow> Inr x)"

named_theorems cres_simps "unfolding of results of C functions"

lemma bindc_Inr [simp, cres_simps]: "bindc (Inr x) k = k x"
  by (simp add: bindc_def)

lemma bindc_Inl [simp, cres_simps]: "bindc (Inl e) k = Inl e"
  by (simp add: bindc_def)

lemma bindc_eq_Inr [cres_simps]: "bindc r k = Inr y \<longleftrightarrow> (\<exists>x. r = Inr x \<and> k x = Inr y)"
  by (simp add: bindc_def split: sum.splits)

lemma bindc_assoc: "bindc (bindc r k) l = bindc r (\<lambda>x. bindc (k x) l)"
  by (simp add: bindc_def split: sum.splits)

lemma run_loop_Some [simp, cres_simps]: "run_loop (Some x) = x"
  by (simp add: run_loop_def)

lemma arr_get_in [simp]: "i < length xs \<Longrightarrow> arr_get xs i = Inr (xs ! i)"
  by (simp add: arr_get_def)

lemma arr_set_in [simp]: "i < length xs \<Longrightarrow> arr_set xs i v = Inr (xs[i := v])"
  by (simp add: arr_set_def)

lemma arr_get_out [simp]: "length xs \<le> i \<Longrightarrow> arr_get xs i = Inl Bad_Memory"
  by (simp add: arr_get_def)

lemma arr_set_out [simp]: "length xs \<le> i \<Longrightarrow> arr_set xs i v = Inl Bad_Memory"
  by (simp add: arr_set_def)

lemma deref_Some [simp]: "m p = Some x \<Longrightarrow> deref m p = Inr x"
  by (simp add: deref_def)

lemma deref_None [simp]: "m p = None \<Longrightarrow> deref m p = Inl Bad_Memory"
  by (simp add: deref_def)

section \<open>Following a chain of next pointers\<close>

text \<open>The first \<open>n\<close> nodes met from \<open>p\<close> when \<open>m\<close> gives each node's next pointer.\<close>

fun follow :: "('p \<Rightarrow> 'p) \<Rightarrow> 'p \<Rightarrow> nat \<Rightarrow> 'p list" where
  "follow m p 0 = []"
| "follow m p (Suc n) = p # follow m (m p) n"

lemma length_follow [simp]: "length (follow m p n) = n"
  by (induction n arbitrary: p) auto

lemma follow_cong: "(\<And>q. q \<in> set (follow m p n) \<Longrightarrow> m' q = m q) \<Longrightarrow> follow m' p n = follow m p n"
  by (induction n arbitrary: p) auto

lemma follow_upd [simp]: "q \<notin> set (follow m p n) \<Longrightarrow> follow (m(q := v)) p n = follow m p n"
  by (rule follow_cong) auto

section \<open>Lists with an optional element in each slot\<close>

lemma card_nonempty_update:
  assumes "i < length xs" "P (xs ! i)" "\<not> P v"
  shows "card {k. k < length xs \<and> P (xs[i := v] ! k)} = card {k. k < length xs \<and> P (xs ! k)} - 1"
proof -
  have "{k. k < length xs \<and> P (xs[i := v] ! k)} = {k. k < length xs \<and> P (xs ! k)} - {i}"
    using assms by (auto simp: nth_list_update)
  then show ?thesis using assms by simp
qed

lemma card_empty_update:
  assumes "i < length xs" "\<not> P (xs ! i)" "P v"
  shows "card {k. k < length xs \<and> P (xs[i := v] ! k)} = card {k. k < length xs \<and> P (xs ! k)} + 1"
proof -
  have "{k. k < length xs \<and> P (xs[i := v] ! k)} = insert i {k. k < length xs \<and> P (xs ! k)}"
    using assms by (auto simp: nth_list_update)
  then show ?thesis using assms by simp
qed

section \<open>Writing an array at computed positions\<close>

lemma length_fold_update [simp]: "length (fold (\<lambda>i t. t[pos i := f i]) xs t) = length t"
  by (induction xs arbitrary: t) auto

lemma fold_update_other: "j \<notin> pos ` set xs \<Longrightarrow> fold (\<lambda>i t. t[pos i := f i]) xs t ! j = t ! j"
  by (induction xs arbitrary: t) auto

lemma fold_update_at:
  "inj_on pos (set xs) \<Longrightarrow> i \<in> set xs \<Longrightarrow> pos i < length t \<Longrightarrow>
     fold (\<lambda>i t. t[pos i := f i]) xs t ! pos i = f i"
proof (induction xs arbitrary: t)
  case (Cons x xs)
  show ?case
  proof (cases "i \<in> set xs")
    case True
    then show ?thesis using Cons by simp
  next
    case False
    then have "i = x" "pos x \<notin> pos ` set xs"
      using Cons.prems by (auto simp: inj_on_def)
    then show ?thesis using Cons.prems by (simp add: fold_update_other)
  qed
qed simp

section \<open>Rings\<close>

text \<open>The \<open>n\<close> elements of a ring from position \<open>t\<close> on, in this order.\<close>

definition ring_contents :: "'a list \<Rightarrow> nat \<Rightarrow> nat \<Rightarrow> 'a list" where
  "ring_contents buf t n = map (\<lambda>i. buf ! ((t + i) mod length buf)) [0..<n]"

lemma length_ring_contents [simp]: "length (ring_contents buf t n) = n"
  by (simp add: ring_contents_def)

lemma ring_contents_0 [simp]: "ring_contents buf t 0 = []"
  by (simp add: ring_contents_def)

text \<open>Two positions of a ring are the same only if the distances are.\<close>

lemma ring_pos_inj:
  assumes "i < j" "j < (N :: nat)"
  shows "(t + i) mod N \<noteq> (t + j) mod N"
proof
  assume "(t + i) mod N = (t + j) mod N"
  then have "(t + j) mod N = (t + i) mod N" by simp
  then have "N dvd (t + j) - (t + i)" using assms by (subst (asm) mod_eq_dvd_iff_nat) auto
  then have "N \<le> j - i" using assms by (auto dest!: dvd_imp_le)
  then show False using assms by simp
qed

lemma ring_pos_step: "0 < n \<Longrightarrow> ((t + 1) mod N + (n - 1)) mod N = (t + n) mod (N :: nat)"
  by (simp only: mod_add_left_eq) simp

lemma ring_push:
  assumes "n < length buf"
  shows "ring_contents (buf[(t + n) mod length buf := b]) t (Suc n) = ring_contents buf t n @ [b]"
proof -
  have "(t + n) mod length buf \<noteq> (t + i) mod length buf" if "i < n" for i
    using ring_pos_inj [OF that assms, of t] by simp
  moreover have "(t + n) mod length buf < length buf" using assms by (intro mod_less_divisor) linarith
  ultimately show ?thesis by (simp add: ring_contents_def)
qed

text \<open>A write beyond the elements does not change them.\<close>

lemma ring_contents_update:
  assumes "n \<le> m" "m < length buf"
  shows "ring_contents (buf[(t + m) mod length buf := b]) t n = ring_contents buf t n"
proof -
  have "(t + m) mod length buf \<noteq> (t + i) mod length buf" if "i < n" for i
    using ring_pos_inj [of i m "length buf" t] that assms by simp
  then show ?thesis by (simp add: ring_contents_def)
qed

lemma ring_contents_update_first:
  assumes "0 < n" "n \<le> length buf" "t < length buf"
  shows "ring_contents (buf[t := b]) ((t + 1) mod length buf) (n - 1) =
    ring_contents buf ((t + 1) mod length buf) (n - 1)"
proof -
  have "0 < length buf" using assms(3) by linarith
  then have "((t + 1) mod length buf + (length buf - 1)) mod length buf = (t + length buf) mod length buf"
    by (rule ring_pos_step)
  also have "\<dots> = t" using assms(3) by simp
  finally have t: "((t + 1) mod length buf + (length buf - 1)) mod length buf = t" .
  have "n - 1 \<le> length buf - 1" "length buf - 1 < length buf" using assms by linarith+
  from ring_contents_update [OF this, of "(t + 1) mod length buf" b] show ?thesis
    by (simp only: t)
qed

lemma ring_pop:
  assumes "0 < n" "t < length buf"
  shows "ring_contents buf t n = buf ! t # ring_contents buf ((t + 1) mod length buf) (n - 1)"
proof -
  obtain m where n: "n = Suc m" using assms(1) by (cases n) auto
  show ?thesis using assms(2) unfolding n ring_contents_def
    by (subst map_upt_Suc) (simp add: mod_simps del: upt_Suc)
qed

text \<open>The whole ring from a position on is a rotation of the array.\<close>

lemma ring_contents_append:
  "ring_contents buf t (m + n) = ring_contents buf t m @ ring_contents buf (t + m) n"
  by (rule nth_equalityI) (auto simp: ring_contents_def nth_append add.assoc)

lemma ring_contents_rotate: "ring_contents buf t (length buf) = rotate t buf"
  by (rule nth_equalityI) (simp_all add: ring_contents_def nth_rotate)

lemma rotate_update:
  assumes "n < length buf"
  shows "rotate t (buf[(t + n) mod length buf := b]) = (rotate t buf)[n := b]"
proof (rule nth_equalityI)
  fix i assume "i < length (rotate t (buf[(t + n) mod length buf := b]))"
  then have i: "i < length buf" by simp
  then have lt: "(t + i) mod length buf < length buf" by (intro mod_less_divisor) linarith
  show "rotate t (buf[(t + n) mod length buf := b]) ! i = (rotate t buf)[n := b] ! i"
  proof (cases "i = n")
    case True
    then show ?thesis using i lt by (simp add: nth_rotate)
  next
    case False
    then have "(t + n) mod length buf \<noteq> (t + i) mod length buf"
      using ring_pos_inj [of i n "length buf" t] ring_pos_inj [of n i "length buf" t] assms i
      by (cases "i < n") auto
    then show ?thesis using i False by (simp add: nth_rotate)
  qed
qed simp

lemma rotate_next: "rotate ((t + 1) mod length buf) buf = rotate1 (rotate t buf)"
  by (simp add: rotate_conv_mod [symmetric])

section \<open>Words\<close>

text \<open>Masking with a power of two minus one is the remainder.\<close>

lemma unat_and_mask: "unat (x AND (2 ^ k - 1) :: 'a::len word) = unat x mod 2 ^ k"
proof -
  have "x AND (2 ^ k - 1) = take_bit k x"
    by (simp add: mask_eq_exp_minus_1 [symmetric] take_bit_eq_mask)
  then have "unat (x AND (2 ^ k - 1)) = take_bit k (unat x)"
    by (simp only: unsigned_take_bit_eq)
  then show ?thesis
    by (simp only: take_bit_nat_def)
qed

lemma mod_power_of_two_mod: "k \<le> n \<Longrightarrow> (a mod 2 ^ n) mod 2 ^ k = a mod (2 ^ k :: nat)"
  by (simp add: mod_mod_cancel le_imp_power_dvd)

lemma mod_power_of_two_small: "k \<le> n \<Longrightarrow> (a mod 2 ^ k) mod 2 ^ n = a mod (2 ^ k :: nat)"
proof (rule mod_less)
  assume "k \<le> n"
  have "a mod 2 ^ k < 2 ^ k" by simp
  also have "\<dots> \<le> 2 ^ n" using \<open>k \<le> n\<close> by (intro power_increasing) auto
  finally show "a mod 2 ^ k < 2 ^ n" .
qed

lemma mod_reach:
  assumes "j < (K :: nat)"
  obtains d where "(a + d) mod K = j"
proof -
  have "(a + (K - a mod K + j)) mod K = (a mod K + (K - a mod K) + j) mod K"
    by (metis add.assoc mod_add_left_eq)
  also have "\<dots> = (K + j) mod K" using assms by simp
  also have "\<dots> = j" using assms by simp
  finally show thesis by (rule that)
qed

text \<open>Masking with the size of a power-of-two array, at the width of the index.\<close>

lemma unat_and_size:
  fixes x :: "'a::len word" and s :: "'b::len word"
  assumes "unat s = 2 ^ k"
  shows "unat (x AND (ucast s - 1)) = unat x mod 2 ^ k"
proof -
  have "(ucast s :: 'a word) = of_nat (unat s)" by simp
  then have "(ucast s :: 'a word) = 2 ^ k" using assms by simp
  then show ?thesis by (simp only: unat_and_mask)
qed

text \<open>Widening keeps the value.\<close>

lemma unat_ucast_widen:
  fixes x :: "'a::len word"
  assumes "LENGTH('a) \<le> LENGTH('b::len)"
  shows "unat (ucast x :: 'b word) = unat x"
proof -
  have "unat x < 2 ^ LENGTH('a)" by (rule unsigned_less)
  also have "\<dots> \<le> 2 ^ LENGTH('b)" using assms by (intro power_increasing) auto
  finally show ?thesis by (simp add: unsigned_ucast_eq take_bit_nat_def)
qed

lemma unat_u16_bound: "unat (x :: u16) < 65536"
  using unsigned_less [of x, where 'a = nat] by simp

lemma unat_u64_bound: "unat (x :: u64) < 2 ^ 64"
  using unsigned_less [of x, where 'a = nat] by simp

section \<open>Interleavings\<close>

text \<open>Appending to an interleaving and to one of its parts.\<close>

lemma shuffles_append_left: "zs \<in> shuffles xs ys \<Longrightarrow> zs @ us \<in> shuffles (xs @ us) ys"
  by (induction zs arbitrary: xs ys) (auto simp: Cons_in_shuffles_iff)

lemma shuffles_append_right: "zs \<in> shuffles xs ys \<Longrightarrow> zs @ us \<in> shuffles xs (ys @ us)"
  using shuffles_append_left [of zs ys xs us] by (simp add: shuffles_commutes)

end
