(* ===== verification/CleanQ_Types.thy ===== *)
theory CleanQ_Types
  imports CleanQ_Prelude
begin

text \<open>
  The data of the public interface, \<open>lib/libcleanq/include/cleanq.h\<close>: the error values, the
  capability of a memory region and the descriptor of a buffer.
\<close>

section \<open>Error values\<close>

text \<open>
  \<open>errval_t\<close> is an enumeration whose first value is success. Two functions return integers that
  are not enumerators (\<open>udp_enqueue\<close> returns -1 and the port functions return negated errno
  values); \<open>Errval_Int\<close> holds such a value.
\<close>

datatype errval =
    CLEANQ_ERR_OK
  | CLEANQ_ERR_INIT_QUEUE
  | CLEANQ_ERR_BUFFER_ID
  | CLEANQ_ERR_BUFFER_NOT_IN_REGION
  | CLEANQ_ERR_BUFFER_ALREADY_IN_USE
  | CLEANQ_ERR_INVALID_BUFFER_ARGS
  | CLEANQ_ERR_INVALID_REGION_ID
  | CLEANQ_ERR_REGION_DESTROY
  | CLEANQ_ERR_INVALID_REGION_ARGS
  | CLEANQ_ERR_QUEUE_EMPTY
  | CLEANQ_ERR_QUEUE_FULL
  | CLEANQ_ERR_BUFFER_NOT_IN_USE
  | CLEANQ_ERR_MALLOC_FAIL
  | CLEANQ_ERR_UNKNOWN_FLAG
  | CLEANQ_ERR_UDP_WRONG_PORT
  | CLEANQ_ERR_IP_WRONG_IP
  | CLEANQ_ERR_IP_WRONG_PROTO
  | CLEANQ_ERR_IP_CHKSUM
  | Errval_Int int

definition err_is_ok :: "errval \<Rightarrow> bool" where
  "err_is_ok err \<longleftrightarrow> err = CLEANQ_ERR_OK"

definition err_is_fail :: "errval \<Rightarrow> bool" where
  "err_is_fail err \<longleftrightarrow> err \<noteq> CLEANQ_ERR_OK"

lemma err_is_ok_OK [simp]: "err_is_ok CLEANQ_ERR_OK"
  by (simp add: err_is_ok_def)

lemma err_is_fail_not_ok: "err_is_fail err \<longleftrightarrow> \<not> err_is_ok err"
  by (simp add: err_is_ok_def err_is_fail_def)

text \<open>The backends that come from Barrelfish return \<open>SYS_ERR_OK\<close>, the name the interface's
  comments give to the success value.\<close>

abbreviation SYS_ERR_OK :: errval where
  "SYS_ERR_OK \<equiv> CLEANQ_ERR_OK"

section \<open>Regions and buffers\<close>

type_synonym regionid = u32
type_synonym genoffset = u64

record capref =
  cap_vaddr :: u64
  cap_paddr :: u64
  cap_len :: u64

record cleanq_buf =
  b_offset :: genoffset
  b_length :: genoffset
  b_valid_data :: genoffset
  b_valid_length :: genoffset
  b_flags :: u64
  b_rid :: regionid

text \<open>The byte ranges a descriptor talks about, without wrap-around: the buffer lies inside a
  region of \<open>len\<close> bytes and the valid data lie inside the buffer.\<close>

definition buf_in_region :: "cleanq_buf \<Rightarrow> u64 \<Rightarrow> bool" where
  "buf_in_region b len \<longleftrightarrow>
     unat (b_offset b) + unat (b_length b) \<le> unat len \<and>
     unat (b_valid_data b) + unat (b_valid_length b) \<le> unat (b_length b)"

text \<open>Neither of the two sums the bounds check forms overflows 64 bits.\<close>

definition buf_no_wrap :: "cleanq_buf \<Rightarrow> bool" where
  "buf_no_wrap b \<longleftrightarrow>
     unat (b_offset b) + unat (b_length b) < 2 ^ 64 \<and>
     unat (b_valid_data b) + unat (b_valid_length b) < 2 ^ 64"

definition cap_no_wrap :: "capref \<Rightarrow> bool" where
  "cap_no_wrap c \<longleftrightarrow> unat (cap_paddr c) + unat (cap_len c) < 2 ^ 64"

end
