(* ===== verification/Slab.thy ===== *)
theory Slab
  imports CleanQ_Types
begin

text \<open>
  The slab allocator, \<open>lib/libcleanq/src/slab.c\<close> and \<open>slab.h\<close>. An allocator is a list of slabs;
  a slab is a header followed by equal blocks, and the free blocks of a slab are linked through
  their first word. The memory of the slabs is a store: the headers by address and the next
  pointer in each block. \<open>malloc\<close> belongs to the C library: an operation that may call it takes
  the address it returns (0 when there is no memory) as an argument.

  Contents: the operations as the code has them; the invariant of the slab list and the free
  lists; that every operation returns, keeps the invariant and changes the set of blocks in use
  as promised; the interface \<open>block_allocator\<close> that clients rely on, and its interpretation.
\<close>

section \<open>State\<close>

record slab_head =
  sh_next :: addr
  sh_total :: nat
  sh_free :: nat
  sh_blocks :: addr

text \<open>A refill function pointer is NULL or points to \<open>slab_default_refill\<close>.\<close>

datatype slab_refill_func = No_Refill | Default_Refill

record slab_allocator =
  slabs :: addr
  blocksize :: nat
  refill_func :: slab_refill_func
  slab_heads :: "addr \<rightharpoonup> slab_head"
  block_next :: "addr \<Rightarrow> addr"

definition SLAB_BLOCK_HDRSIZE :: nat where
  "SLAB_BLOCK_HDRSIZE = 8"

definition SLAB_REAL_BLOCKSIZE :: "nat \<Rightarrow> nat" where
  "SLAB_REAL_BLOCKSIZE bsz = (if bsz > SLAB_BLOCK_HDRSIZE then bsz else SLAB_BLOCK_HDRSIZE)"

text \<open>\<open>sizeof(struct slab_head)\<close> on a 64-bit machine: two pointers and two 32-bit counters.\<close>

definition sizeof_slab_head :: nat where
  "sizeof_slab_head = 24"

definition SLAB_STATIC_SIZE :: "nat \<Rightarrow> nat \<Rightarrow> nat" where
  "SLAB_STATIC_SIZE nblocks bsz = nblocks * SLAB_REAL_BLOCKSIZE bsz + sizeof_slab_head"

definition PAGE_SIZE :: nat where
  "PAGE_SIZE = 4096"

definition UINT32_MAX :: nat where
  "UINT32_MAX = 4294967295"

section \<open>Operations\<close>

definition slab_init :: "nat \<Rightarrow> slab_refill_func \<Rightarrow> slab_allocator" where
  "slab_init bsz refill =
     \<lparr>slabs = 0, blocksize = SLAB_REAL_BLOCKSIZE bsz, refill_func = refill,
      slab_heads = Map.empty, block_next = (\<lambda>_. 0)\<rparr>"

text \<open>The loop of \<open>slab_grow\<close> that links \<open>i\<close> consecutive blocks, the first at \<open>bh\<close>.\<close>

fun link_blocks :: "(addr \<Rightarrow> addr) \<Rightarrow> addr \<Rightarrow> nat \<Rightarrow> nat \<Rightarrow> (addr \<Rightarrow> addr)" where
  "link_blocks m bh bsz i =
     (if i > 1 then link_blocks (m(bh := bh + bsz)) (bh + bsz) bsz (i - 1) else m(bh := 0))"

declare link_blocks.simps [simp del]

definition slab_grow :: "slab_allocator \<Rightarrow> addr \<Rightarrow> nat \<Rightarrow> slab_allocator cres" where
  "slab_grow s buf buflen =
     (if \<not> buflen > sizeof_slab_head then Inl Assert_Failed
      else if blocksize s = 0 then Inl Div_By_Zero
      else let n = (buflen - sizeof_slab_head) div blocksize s;
               first = buf + sizeof_slab_head
           in if \<not> n \<le> UINT32_MAX then Inl Assert_Failed
              else if \<not> n > 0 then Inl Assert_Failed
              else Inr (s\<lparr>slab_heads := (slab_heads s)(buf \<mapsto>
                             \<lparr>sh_next = slabs s, sh_total = n, sh_free = n, sh_blocks = first\<rparr>),
                          block_next := link_blocks (block_next s) first (blocksize s) n,
                          slabs := buf\<rparr>))"

definition slab_refill_pages ::
  "slab_allocator \<Rightarrow> nat \<Rightarrow> addr \<Rightarrow> (errval \<times> slab_allocator) cres" where
  "slab_refill_pages s bytes buf =
     (if buf = 0 then Inr (CLEANQ_ERR_MALLOC_FAIL, s)
      else bindc (slab_grow s buf bytes) (\<lambda>s'. Inr (CLEANQ_ERR_OK, s')))"

definition slab_default_refill :: "slab_allocator \<Rightarrow> addr \<Rightarrow> (errval \<times> slab_allocator) cres" where
  "slab_default_refill s buf = slab_refill_pages s PAGE_SIZE buf"

text \<open>The loop that looks for a slab with a free block; 0 when there is none.\<close>

partial_function (option) find_free_slab ::
  "(addr \<rightharpoonup> slab_head) \<Rightarrow> addr \<Rightarrow> addr cres option" where
  "find_free_slab hs sh =
     (if sh = 0 then Some (Inr 0)
      else case hs sh of
             None \<Rightarrow> Some (Inl Bad_Memory)
           | Some h \<Rightarrow> if sh_free h = 0 then find_free_slab hs (sh_next h) else Some (Inr sh))"

text \<open>The end of \<open>slab_alloc\<close>: take the first free block of the slab at \<open>sh\<close> and zero it.\<close>

definition slab_take :: "slab_allocator \<Rightarrow> addr \<Rightarrow> (addr \<times> slab_allocator) cres" where
  "slab_take s sh =
     bindc (deref (slab_heads s) sh) (\<lambda>h.
       let bh = sh_blocks h in
       if \<not> bh \<noteq> 0 then Inl Assert_Failed
       else Inr (bh, s\<lparr>slab_heads := (slab_heads s)(sh \<mapsto>
                          h\<lparr>sh_blocks := block_next s bh, sh_free := sh_free h - 1\<rparr>),
                       block_next := (block_next s)(bh := 0)\<rparr>))"

definition slab_alloc :: "slab_allocator \<Rightarrow> addr \<Rightarrow> (addr \<times> slab_allocator) cres" where
  "slab_alloc s buf =
     bindc (run_loop (find_free_slab (slab_heads s) (slabs s))) (\<lambda>sh.
       if sh \<noteq> 0 then slab_take s sh
       else if refill_func s = No_Refill then Inr (0, s)
       else bindc (slab_default_refill s buf) (\<lambda>(err, s').
              if err_is_fail err then Inr (0, s')
              else bindc (run_loop (find_free_slab (slab_heads s') (slabs s'))) (\<lambda>sh'.
                     if sh' = 0 then Inr (0, s') else slab_take s' sh')))"

text \<open>The loop of \<open>slab_free\<close> that finds the slab a block belongs to.\<close>

partial_function (option) find_block_slab ::
  "(addr \<rightharpoonup> slab_head) \<Rightarrow> nat \<Rightarrow> addr \<Rightarrow> addr \<Rightarrow> addr cres option" where
  "find_block_slab hs bsz bh sh =
     (if sh = 0 then Some (Inr 0)
      else case hs sh of
             None \<Rightarrow> Some (Inl Bad_Memory)
           | Some h \<Rightarrow>
               if bh > sh \<and> bh < sh + sizeof_slab_head + bsz * sh_total h then Some (Inr sh)
               else find_block_slab hs bsz bh (sh_next h))"

definition slab_free :: "slab_allocator \<Rightarrow> addr \<Rightarrow> slab_allocator cres" where
  "slab_free s block =
     (if block = 0 then Inr s
      else bindc (run_loop (find_block_slab (slab_heads s) (blocksize s) block (slabs s))) (\<lambda>sh.
             if \<not> sh \<noteq> 0 then Inl Assert_Failed
             else bindc (deref (slab_heads s) sh) (\<lambda>h.
                    let fr = (sh_free h + 1) mod 2 ^ 32 in
                    if \<not> fr \<le> sh_total h then Inl Assert_Failed
                    else Inr (s\<lparr>slab_heads := (slab_heads s)(sh \<mapsto>
                                   h\<lparr>sh_blocks := block, sh_free := fr\<rparr>),
                                block_next := (block_next s)(block := sh_blocks h)\<rparr>))))"

partial_function (option) count_free :: "(addr \<rightharpoonup> slab_head) \<Rightarrow> addr \<Rightarrow> nat \<Rightarrow> nat cres option" where
  "count_free hs sh ret =
     (if sh = 0 then Some (Inr ret)
      else case hs sh of
             None \<Rightarrow> Some (Inl Bad_Memory)
           | Some h \<Rightarrow> count_free hs (sh_next h) ((ret + sh_free h) mod 2 ^ 64))"

definition slab_freecount :: "slab_allocator \<Rightarrow> nat cres" where
  "slab_freecount s = run_loop (count_free (slab_heads s) (slabs s) 0)"

section \<open>Invariant\<close>

text \<open>The slab list: the headers met from \<open>p\<close> until NULL.\<close>

fun slab_chain :: "(addr \<rightharpoonup> slab_head) \<Rightarrow> addr \<Rightarrow> addr list \<Rightarrow> bool" where
  "slab_chain hs p [] \<longleftrightarrow> p = 0"
| "slab_chain hs p (a # as) \<longleftrightarrow>
     p = a \<and> a \<noteq> 0 \<and> (case hs a of None \<Rightarrow> False | Some h \<Rightarrow> slab_chain hs (sh_next h) as)"

definition block_addrs :: "nat \<Rightarrow> addr \<Rightarrow> slab_head \<Rightarrow> addr set" where
  "block_addrs bsz a h = (\<lambda>i. a + sizeof_slab_head + i * bsz) ` {..<sh_total h}"

definition slab_range :: "nat \<Rightarrow> addr \<Rightarrow> slab_head \<Rightarrow> addr set" where
  "slab_range bsz a h = {a ..< a + sizeof_slab_head + bsz * sh_total h}"

definition free_list :: "slab_allocator \<Rightarrow> slab_head \<Rightarrow> addr list" where
  "free_list s h = follow (block_next s) (sh_blocks h) (sh_free h)"

text \<open>One slab: its counters agree with its free list, whose blocks are its own and distinct.\<close>

definition slab_ok :: "slab_allocator \<Rightarrow> addr \<Rightarrow> slab_head \<Rightarrow> bool" where
  "slab_ok s a h \<longleftrightarrow>
     sh_free h \<le> sh_total h \<and> sh_total h \<le> UINT32_MAX \<and>
     distinct (free_list s h) \<and> set (free_list s h) \<subseteq> block_addrs (blocksize s) a h"

definition slabs_disjoint :: "slab_allocator \<Rightarrow> bool" where
  "slabs_disjoint s \<longleftrightarrow>
     (\<forall>a h a' h'. slab_heads s a = Some h \<longrightarrow> slab_heads s a' = Some h' \<longrightarrow> a \<noteq> a' \<longrightarrow>
        slab_range (blocksize s) a h \<inter> slab_range (blocksize s) a' h' = {})"

definition slab_inv :: "slab_allocator \<Rightarrow> bool" where
  "slab_inv s \<longleftrightarrow>
     (\<exists>as. slab_chain (slab_heads s) (slabs s) as \<and> distinct as \<and> set as = dom (slab_heads s)) \<and>
     8 \<le> blocksize s \<and>
     (\<forall>a h. slab_heads s a = Some h \<longrightarrow> slab_ok s a h) \<and> slabs_disjoint s"

text \<open>The blocks handed out: blocks of a slab that are not on its free list.\<close>

definition live :: "slab_allocator \<Rightarrow> addr set" where
  "live s = {b. \<exists>a h. slab_heads s a = Some h \<and> b \<in> block_addrs (blocksize s) a h \<and>
                     b \<notin> set (free_list s h)}"

text \<open>Memory \<open>malloc\<close> returns is not NULL and disjoint from every slab already in the list.\<close>

definition fresh_memory :: "slab_allocator \<Rightarrow> addr \<Rightarrow> nat \<Rightarrow> bool" where
  "fresh_memory s buf len \<longleftrightarrow> buf \<noteq> 0 \<and>
     (\<forall>a h. slab_heads s a = Some h \<longrightarrow> slab_range (blocksize s) a h \<inter> {buf ..< buf + len} = {})"

section \<open>Lemmas on chains and free lists\<close>

lemma block_addrs_range: "0 < bsz \<Longrightarrow> b \<in> block_addrs bsz a h \<Longrightarrow> b \<in> slab_range bsz a h \<and> a < b"
  by (auto simp: block_addrs_def slab_range_def sizeof_slab_head_def mult.commute)

lemma slab_chain_upd:
  assumes "hs a = Some h" "sh_next h' = sh_next h"
  shows "slab_chain hs p as \<Longrightarrow> slab_chain (hs(a \<mapsto> h')) p as"
  using assms by (induction as arbitrary: p) (auto split: option.splits)

lemma slab_chain_new: "slab_chain hs p as \<Longrightarrow> b \<notin> set as \<Longrightarrow> slab_chain (hs(b \<mapsto> h)) p as"
  by (induction as arbitrary: p) (auto split: option.splits)

lemma slab_chain_in_dom: "slab_chain hs p as \<Longrightarrow> a \<in> set as \<Longrightarrow> a \<noteq> 0 \<and> (\<exists>h. hs a = Some h)"
  by (induction as arbitrary: p) (auto split: option.splits)

lemma find_free_slab_chain:
  "slab_chain hs p as \<Longrightarrow>
     (\<exists>a h. find_free_slab hs p = Some (Inr a) \<and> a \<noteq> 0 \<and> hs a = Some h \<and> 0 < sh_free h) \<or>
     (find_free_slab hs p = Some (Inr 0) \<and> (\<forall>a\<in>set as. \<forall>h. hs a = Some h \<longrightarrow> sh_free h = 0))"
proof (induction as arbitrary: p)
  case Nil
  then show ?case by (simp add: find_free_slab.simps)
next
  case (Cons a as)
  then obtain h where h: "hs a = Some h" "p = a" "a \<noteq> 0" "slab_chain hs (sh_next h) as"
    by (auto split: option.splits)
  show ?case
  proof (cases "sh_free h = 0")
    case True
    then have "find_free_slab hs p = find_free_slab hs (sh_next h)"
      using h by (subst find_free_slab.simps) simp
    then show ?thesis using Cons.IH [OF h(4)] h True by auto
  next
    case False
    then have "find_free_slab hs p = Some (Inr a)"
      using h by (subst find_free_slab.simps) simp
    then show ?thesis using h False by blast
  qed
qed

lemma find_block_slab_chain:
  assumes "hs a = Some h" "a < b" "b < a + sizeof_slab_head + bsz * sh_total h"
    and "\<And>c hc. hs c = Some hc \<Longrightarrow> c \<noteq> a \<Longrightarrow> \<not> (c < b \<and> b < c + sizeof_slab_head + bsz * sh_total hc)"
  shows "slab_chain hs p as \<Longrightarrow> a \<in> set as \<Longrightarrow> find_block_slab hs bsz b p = Some (Inr a)"
proof (induction as arbitrary: p)
  case (Cons c as)
  then obtain hc where c: "hs c = Some hc" "p = c" "c \<noteq> 0" "slab_chain hs (sh_next hc) as"
    by (auto split: option.splits)
  show ?case
  proof (cases "c = a")
    case True
    then show ?thesis using c assms(1-3) by (subst find_block_slab.simps) simp
  next
    case False
    then have "find_block_slab hs bsz b (sh_next hc) = Some (Inr a)"
      using Cons c by auto
    then show ?thesis using c assms(4) [OF c(1) False]
      by (subst find_block_slab.simps) auto
  qed
qed simp

lemma link_blocks_frame:
  "0 < n \<Longrightarrow> (\<And>i. i < n \<Longrightarrow> q \<noteq> bh + i * bsz) \<Longrightarrow> link_blocks m bh bsz n q = m q"
proof (induction n arbitrary: m bh)
  case (Suc n)
  have q: "q \<noteq> bh" using Suc.prems(2) [of 0] by simp
  show ?case
  proof (cases n)
    case 0
    then show ?thesis using q by (simp add: link_blocks.simps)
  next
    case (Suc k)
    have "q \<noteq> bh + bsz + i * bsz" if "i < n" for i
      using Suc.prems(2) [of "Suc i"] that by (simp add: algebra_simps)
    then have "link_blocks (m(bh := bh + bsz)) (bh + bsz) bsz n q = (m(bh := bh + bsz)) q"
      using Suc.IH Suc by simp
    then show ?thesis using q Suc by (subst link_blocks.simps) simp
  qed
qed simp

lemma follow_link_blocks:
  "0 < n \<Longrightarrow> 0 < bsz \<Longrightarrow>
     follow (link_blocks m bh bsz n) bh n = map (\<lambda>i. bh + i * bsz) [0..<n]"
proof (induction n arbitrary: m bh)
  case (Suc n)
  show ?case
  proof (cases n)
    case 0
    then show ?thesis by simp
  next
    case (Suc k)
    let ?m = "m(bh := bh + bsz)"
    let ?L = "link_blocks ?m (bh + bsz) bsz n"
    have "?L bh = ?m bh"
      using Suc Suc.prems by (intro link_blocks_frame) auto
    then have "follow ?L bh (Suc n) = bh # follow ?L (bh + bsz) n" by simp
    also have "\<dots> = bh # map (\<lambda>i. bh + bsz + i * bsz) [0..<n]"
      using Suc.IH Suc Suc.prems by simp
    also have "\<dots> = map (\<lambda>i. bh + i * bsz) [0..<Suc n]"
      by (subst map_upt_Suc) (simp add: algebra_simps)
    finally have "follow ?L bh (Suc n) = map (\<lambda>i. bh + i * bsz) [0..<Suc n]" .
    moreover have "link_blocks m bh bsz (Suc n) = ?L"
      using Suc by (subst link_blocks.simps) simp
    ultimately show ?thesis by (simp only:)
  qed
qed simp

section \<open>The operations keep the invariant\<close>

lemma slab_inv_init: "slab_inv (slab_init bsz refill)"
  by (auto simp: slab_inv_def slab_init_def slabs_disjoint_def SLAB_REAL_BLOCKSIZE_def
      SLAB_BLOCK_HDRSIZE_def intro!: exI [of _ "[]"])

lemma live_init [simp]: "live (slab_init bsz refill) = {}"
  by (simp add: live_def slab_init_def)

lemma slab_inv_okD: "slab_inv s \<Longrightarrow> slab_heads s a = Some h \<Longrightarrow> slab_ok s a h"
  by (simp add: slab_inv_def)

lemma slab_inv_disjoint:
  "slab_inv s \<Longrightarrow> slab_heads s a = Some h \<Longrightarrow> slab_heads s c = Some hc \<Longrightarrow> a \<noteq> c \<Longrightarrow>
     x \<in> slab_range (blocksize s) a h \<Longrightarrow> x \<notin> slab_range (blocksize s) c hc"
  unfolding slab_inv_def slabs_disjoint_def by (meson disjoint_iff)

lemma slab_inv_pos: "slab_inv s \<Longrightarrow> 0 < blocksize s"
  by (simp add: slab_inv_def)

lemma slab_inv_nonnull: "slab_inv s \<Longrightarrow> slab_heads s a = Some h \<Longrightarrow> a \<noteq> 0"
  unfolding slab_inv_def using slab_chain_in_dom by (metis domI)

lemma live_iff:
  assumes "slab_inv s" "slab_heads s a = Some h" "x \<in> block_addrs (blocksize s) a h"
  shows "x \<in> live s \<longleftrightarrow> x \<notin> set (free_list s h)"
proof -
  note r = block_addrs_range [OF slab_inv_pos [OF assms(1)]]
  have "c = a" if "slab_heads s c = Some hc" "x \<in> block_addrs (blocksize s) c hc" for c hc
    using slab_inv_disjoint [OF assms(1,2) that(1), of x] r [OF that(2)] r [OF assms(3)] by blast
  then show ?thesis using assms(2,3) by (fastforce simp: live_def)
qed

text \<open>Taking or returning one block \<open>b\<close> of the slab at \<open>a\<close> rewrites that slab's header and the
  block's next pointer, and nothing else.\<close>

definition set_block :: "slab_allocator \<Rightarrow> addr \<Rightarrow> slab_head \<Rightarrow> addr \<Rightarrow> addr \<Rightarrow> slab_allocator" where
  "set_block s a h' b v =
     s\<lparr>slab_heads := (slab_heads s)(a \<mapsto> h'), block_next := (block_next s)(b := v)\<rparr>"

lemma set_block_simps [simp]:
  "blocksize (set_block s a h' b v) = blocksize s" "slabs (set_block s a h' b v) = slabs s"
  "refill_func (set_block s a h' b v) = refill_func s"
  "slab_heads (set_block s a h' b v) = (slab_heads s)(a \<mapsto> h')"
  by (simp_all add: set_block_def)

lemma free_list_other:
  assumes inv: "slab_inv s" and a: "slab_heads s a = Some h"
    and b: "b \<in> block_addrs (blocksize s) a h"
    and c: "slab_heads s c = Some hc" "c \<noteq> a"
  shows "free_list (set_block s a h' b v) hc = free_list s hc"
proof -
  note r = block_addrs_range [OF slab_inv_pos [OF inv]]
  have "b \<notin> slab_range (blocksize s) c hc"
    using slab_inv_disjoint [OF inv a c(1)] r [OF b] c(2) by auto
  moreover have "set (free_list s hc) \<subseteq> slab_range (blocksize s) c hc"
    using slab_inv_okD [OF inv c(1)] r by (auto simp: slab_ok_def)
  ultimately have "b \<notin> set (free_list s hc)" by blast
  then show ?thesis by (simp add: free_list_def set_block_def)
qed

lemma set_block_inv:
  assumes inv: "slab_inv s" and a: "slab_heads s a = Some h"
    and b: "b \<in> block_addrs (blocksize s) a h"
    and h': "sh_next h' = sh_next h" "sh_total h' = sh_total h" "sh_free h' \<le> sh_total h"
    and fl: "distinct (free_list (set_block s a h' b v) h')"
      "set (free_list (set_block s a h' b v) h') \<subseteq> block_addrs (blocksize s) a h"
  shows "slab_inv (set_block s a h' b v)"
proof -
  let ?s' = "set_block s a h' b v"
  have ba: "block_addrs (blocksize s) a h' = block_addrs (blocksize s) a h"
    "slab_range (blocksize s) a h' = slab_range (blocksize s) a h"
    using h' by (simp_all add: block_addrs_def slab_range_def)
  obtain as where as: "slab_chain (slab_heads s) (slabs s) as" "distinct as"
    "set as = dom (slab_heads s)"
    using inv by (auto simp: slab_inv_def)
  have "slab_chain (slab_heads ?s') (slabs ?s') as"
    using slab_chain_upd [OF a h'(1) as(1)] by simp
  moreover have "set as = dom (slab_heads ?s')" using as a by auto
  moreover have "slab_ok ?s' c hc" if "slab_heads ?s' c = Some hc" for c hc
    using that free_list_other [OF inv a b, of c] slab_inv_okD [OF inv] slab_inv_okD [OF inv a]
      fl h' ba
    by (cases "c = a") (auto simp: slab_ok_def)
  moreover have "slabs_disjoint ?s'"
    using inv a ba by (auto simp: slab_inv_def slabs_disjoint_def split: if_splits)
  ultimately show ?thesis using inv as by (auto simp: slab_inv_def)
qed

lemma set_block_live:
  assumes inv: "slab_inv s" and a: "slab_heads s a = Some h"
    and b: "b \<in> block_addrs (blocksize s) a h"
    and tot: "sh_total h' = sh_total h"
    and inv': "slab_inv (set_block s a h' b v)"
  shows "live (set_block s a h' b v) = (live s - block_addrs (blocksize s) a h) \<union>
           (block_addrs (blocksize s) a h - set (free_list (set_block s a h' b v) h'))"
    (is "live ?s' = ?L")
proof -
  have ba: "block_addrs (blocksize s) a h' = block_addrs (blocksize s) a h"
    using tot by (simp add: block_addrs_def)
  have "x \<in> live ?s' \<longleftrightarrow> x \<in> ?L" for x
  proof (cases "x \<in> block_addrs (blocksize s) a h")
    case True
    then show ?thesis using live_iff [OF inv', of a h' x] ba by simp
  next
    case False
    have "x \<in> live ?s' \<longleftrightarrow> (\<exists>c hc. c \<noteq> a \<and> slab_heads s c = Some hc \<and>
            x \<in> block_addrs (blocksize s) c hc \<and> x \<notin> set (free_list ?s' hc))"
      using ba False by (auto simp: live_def)
    also have "\<dots> \<longleftrightarrow> x \<in> live s"
      unfolding live_def mem_Collect_eq
      by (metis (no_types, lifting) free_list_other [OF inv a b] a False option.inject)
    finally show ?thesis using False by simp
  qed
  then show ?thesis by blast
qed

lemma slab_take_spec:
  assumes inv: "slab_inv s" and a: "slab_heads s a = Some h" and free: "0 < sh_free h"
  obtains b s' where "slab_take s a = Inr (b, s')" "slab_inv s'" "b \<noteq> 0" "b \<notin> live s"
    "live s' = insert b (live s)" "blocksize s' = blocksize s" "refill_func s' = refill_func s"
proof -
  let ?b = "sh_blocks h"
  let ?h' = "h\<lparr>sh_blocks := block_next s ?b, sh_free := sh_free h - 1\<rparr>"
  let ?s' = "set_block s a ?h' ?b 0"
  have ok: "slab_ok s a h" using slab_inv_okD [OF inv a] .
  have fl: "free_list s h = ?b # follow (block_next s) (block_next s ?b) (sh_free h - 1)"
    using free by (cases "sh_free h") (simp_all add: free_list_def)
  then have b: "?b \<in> block_addrs (blocksize s) a h"
    and nin: "?b \<notin> set (follow (block_next s) (block_next s ?b) (sh_free h - 1))"
    using ok by (auto simp: slab_ok_def)
  have fl': "free_list ?s' ?h' = tl (free_list s h)"
    using nin fl by (simp add: free_list_def set_block_def)
  have b0: "?b \<noteq> 0"
    using block_addrs_range [OF slab_inv_pos [OF inv] b] by simp
  have d: "distinct (free_list ?s' ?h')" "set (free_list ?s' ?h') \<subseteq> block_addrs (blocksize s) a h"
    using ok fl unfolding fl' by (auto simp: slab_ok_def)
  have inv': "slab_inv ?s'"
    by (rule set_block_inv [OF inv a b _ _ _ d]) (use ok in \<open>auto simp: slab_ok_def\<close>)
  have "live ?s' = insert ?b (live s)"
    using set_block_live [OF inv a b _ inv'] live_iff [OF inv a] fl nin b unfolding fl' by auto
  moreover have "?b \<notin> live s"
    using live_iff [OF inv a b] fl by simp
  moreover have "slab_take s a = Inr (?b, ?s')"
    using a b0 by (simp add: slab_take_def Let_def set_block_def)
  ultimately show thesis using that inv' b0 by simp
qed

text \<open>A new slab of \<open>n\<close> blocks: every block of it is free and the other slabs are untouched.\<close>

definition new_head :: "slab_allocator \<Rightarrow> addr \<Rightarrow> nat \<Rightarrow> slab_head" where
  "new_head s buf n =
     \<lparr>sh_next = slabs s, sh_total = n, sh_free = n, sh_blocks = buf + sizeof_slab_head\<rparr>"

definition new_slab :: "slab_allocator \<Rightarrow> addr \<Rightarrow> nat \<Rightarrow> slab_allocator" where
  "new_slab s buf n =
     s\<lparr>slab_heads := (slab_heads s)(buf \<mapsto> new_head s buf n),
       block_next := link_blocks (block_next s) (buf + sizeof_slab_head) (blocksize s) n,
       slabs := buf\<rparr>"

lemma new_slab_simps [simp]:
  "blocksize (new_slab s buf n) = blocksize s" "refill_func (new_slab s buf n) = refill_func s"
  "slabs (new_slab s buf n) = buf"
  "slab_heads (new_slab s buf n) = (slab_heads s)(buf \<mapsto> new_head s buf n)"
  by (simp_all add: new_slab_def)

lemma new_head_simps [simp]:
  "sh_next (new_head s buf n) = slabs s" "sh_total (new_head s buf n) = n"
  "sh_free (new_head s buf n) = n"
  by (simp_all add: new_head_def)

lemma slab_grow_eq:
  assumes "0 < blocksize s" "sizeof_slab_head + blocksize s \<le> len" "len \<le> UINT32_MAX"
  defines "n \<equiv> (len - sizeof_slab_head) div blocksize s"
  shows "slab_grow s buf len = Inr (new_slab s buf n)" "0 < n" "n \<le> UINT32_MAX"
    "sizeof_slab_head + blocksize s * n \<le> len"
proof -
  show n: "0 < n" using assms by (simp add: div_greater_zero_iff)
  show max: "n \<le> UINT32_MAX"
    using assms(3) div_le_dividend [of "len - sizeof_slab_head" "blocksize s"]
    unfolding n_def by linarith
  have "blocksize s * n \<le> len - sizeof_slab_head"
    unfolding n_def using div_times_less_eq_dividend [of "len - sizeof_slab_head" "blocksize s"]
    by (simp add: mult.commute)
  then show "sizeof_slab_head + blocksize s * n \<le> len" using assms(2) by linarith
  show "slab_grow s buf len = Inr (new_slab s buf n)"
    using assms(1,2) n max
    by (simp add: slab_grow_def new_slab_def new_head_def Let_def n_def)
qed

lemma new_slab_free_list:
  "0 < n \<Longrightarrow> 0 < blocksize s \<Longrightarrow>
     free_list (new_slab s buf n) (new_head s buf n) =
       map (\<lambda>i. buf + sizeof_slab_head + i * blocksize s) [0..<n]"
  using follow_link_blocks [of n "blocksize s"]
  by (simp add: free_list_def new_slab_def new_head_def)

lemma new_slab_other_free_list:
  assumes inv: "slab_inv s" and n: "0 < n" and h: "slab_heads s a = Some h"
    and dj: "slab_range (blocksize s) a h \<inter> slab_range (blocksize s) buf (new_head s buf n) = {}"
  shows "free_list (new_slab s buf n) h = free_list s h"
proof -
  note pos = slab_inv_pos [OF inv]
  have "block_next (new_slab s buf n) q = block_next s q" if "q \<in> set (free_list s h)" for q
  proof -
    have "q \<in> slab_range (blocksize s) a h"
      using slab_inv_okD [OF inv h] that block_addrs_range [OF pos] by (auto simp: slab_ok_def)
    moreover have "buf + sizeof_slab_head + i * blocksize s \<in>
        slab_range (blocksize s) buf (new_head s buf n)" if "i < n" for i
      using block_addrs_range [OF pos, of _ buf "new_head s buf n"] that
      by (auto simp: block_addrs_def)
    ultimately show ?thesis
      using dj unfolding new_slab_def by (auto intro!: link_blocks_frame [OF n])
  qed
  then show ?thesis unfolding free_list_def by (rule follow_cong)
qed

lemma new_slab_inv:
  assumes inv: "slab_inv s" and n: "0 < n" "n \<le> UINT32_MAX" and buf: "buf \<noteq> 0"
    and dj: "\<And>a h. slab_heads s a = Some h \<Longrightarrow>
          slab_range (blocksize s) a h \<inter> slab_range (blocksize s) buf (new_head s buf n) = {}"
  shows "slab_inv (new_slab s buf n)" "live (new_slab s buf n) = live s"
proof -
  let ?s' = "new_slab s buf n" and ?h = "new_head s buf n"
  note pos = slab_inv_pos [OF inv] and fl = new_slab_free_list [OF n(1) slab_inv_pos [OF inv]]
  have newset: "set (free_list ?s' ?h) = block_addrs (blocksize s) buf ?h"
    unfolding fl by (auto simp: block_addrs_def)
  have new: "buf \<notin> dom (slab_heads s)"
    using dj [of buf] by (fastforce simp: slab_range_def sizeof_slab_head_def)
  note other = new_slab_other_free_list [OF inv n(1) _ dj]
  obtain as where as: "slab_chain (slab_heads s) (slabs s) as" "distinct as"
    "set as = dom (slab_heads s)"
    using inv by (auto simp: slab_inv_def)
  have "slab_chain (slab_heads ?s') (slabs ?s') (buf # as)"
    using slab_chain_new [OF as(1)] as(3) new buf by auto
  moreover have "distinct (buf # as)" "set (buf # as) = dom (slab_heads ?s')"
    using as new by auto
  moreover have "slab_ok ?s' c hc" if "slab_heads ?s' c = Some hc" for c hc
  proof (cases "c = buf")
    case True
    then have "hc = ?h" using that by simp
    then show ?thesis using True n newset pos unfolding slab_ok_def
      by (auto simp: fl distinct_map inj_on_def)
  next
    case False
    then show ?thesis using that slab_inv_okD [OF inv] other by (auto simp: slab_ok_def)
  qed
  moreover have "slabs_disjoint ?s'"
    using inv dj unfolding slab_inv_def slabs_disjoint_def
    by (auto split: if_splits)
  ultimately show "slab_inv ?s'" using inv unfolding slab_inv_def
    by (intro conjI exI [of _ "buf # as"]) auto
  have "x \<in> live ?s'" if "x \<in> live s" for x
  proof -
    from that obtain a h where "slab_heads s a = Some h" "x \<in> block_addrs (blocksize s) a h"
      "x \<notin> set (free_list s h)" by (auto simp: live_def)
    moreover from this have "a \<noteq> buf" using new by auto
    ultimately show ?thesis using other by (auto simp: live_def intro!: exI [of _ a])
  qed
  moreover have "x \<in> live s" if "x \<in> live ?s'" for x
    using that newset other by (auto simp: live_def split: if_splits)
  ultimately show "live ?s' = live s" by blast
qed

section \<open>What the operations do\<close>

text \<open>An allocator whose blocks fit a page: what \<open>slab_default_refill\<close> needs.\<close>

definition slab_wf :: "slab_allocator \<Rightarrow> bool" where
  "slab_wf s \<longleftrightarrow> slab_inv s \<and> sizeof_slab_head + blocksize s \<le> PAGE_SIZE"

definition malloc_ok :: "slab_allocator \<Rightarrow> addr \<Rightarrow> bool" where
  "malloc_ok s buf \<longleftrightarrow> buf = 0 \<or> fresh_memory s buf PAGE_SIZE"

lemma slab_wf_init: "bsz + sizeof_slab_head \<le> PAGE_SIZE \<Longrightarrow> slab_wf (slab_init bsz refill)"
  using slab_inv_init [of bsz refill]
  by (simp add: slab_wf_def slab_init_def SLAB_REAL_BLOCKSIZE_def SLAB_BLOCK_HDRSIZE_def
      sizeof_slab_head_def PAGE_SIZE_def)

text \<open>No operation changes the refill function.\<close>

lemma slab_take_refill_func: "slab_take s sh = Inr (p, s') \<Longrightarrow> refill_func s' = refill_func s"
  by (auto simp: slab_take_def bindc_eq_Inr Let_def split: if_splits)

lemma slab_default_refill_refill_func:
  "slab_default_refill s buf = Inr (err, s') \<Longrightarrow> refill_func s' = refill_func s"
  by (auto simp: slab_default_refill_def slab_refill_pages_def slab_grow_def bindc_eq_Inr Let_def
      split: if_splits)

lemma slab_alloc_refill_func:
  assumes "slab_alloc s buf = Inr (p, s')"
  shows "refill_func s' = refill_func s"
  using assms unfolding slab_alloc_def bindc_eq_Inr
  by (auto simp: bindc_eq_Inr split: if_splits
      dest!: slab_take_refill_func slab_default_refill_refill_func)

lemma slab_free_refill_func: "slab_free s p = Inr s' \<Longrightarrow> refill_func s' = refill_func s"
  by (auto simp: slab_free_def bindc_eq_Inr Let_def split: if_splits)

lemma slab_default_refill_spec:
  assumes wf: "slab_wf s" and m: "fresh_memory s buf PAGE_SIZE"
  obtains s' h where "slab_default_refill s buf = Inr (CLEANQ_ERR_OK, s')" "slab_inv s'"
    "live s' = live s" "slabs s' = buf" "slab_heads s' buf = Some h" "0 < sh_free h"
    "blocksize s' = blocksize s" "refill_func s' = refill_func s"
proof -
  have inv: "slab_inv s" and sz: "sizeof_slab_head + blocksize s \<le> PAGE_SIZE"
    using wf by (auto simp: slab_wf_def)
  let ?n = "(PAGE_SIZE - sizeof_slab_head) div blocksize s"
  have "PAGE_SIZE \<le> UINT32_MAX" by (simp add: PAGE_SIZE_def UINT32_MAX_def)
  note g = slab_grow_eq [OF slab_inv_pos [OF inv] sz this]
  have "slab_range (blocksize s) buf (new_head s buf ?n) \<subseteq> {buf ..< buf + PAGE_SIZE}"
    using g(4) by (auto simp: slab_range_def)
  then have dj: "slab_range (blocksize s) a h \<inter> slab_range (blocksize s) buf (new_head s buf ?n) = {}"
    if "slab_heads s a = Some h" for a h
    using m that unfolding fresh_memory_def by blast
  have buf: "buf \<noteq> 0" using m by (simp add: fresh_memory_def)
  note n = new_slab_inv [OF inv g(2,3) buf dj]
  have "slab_default_refill s buf = Inr (CLEANQ_ERR_OK, new_slab s buf ?n)"
    using g(1) buf by (simp add: slab_default_refill_def slab_refill_pages_def)
  then show thesis using n g(2) that [of _ "new_head s buf ?n"] by simp
qed

lemma find_free_slab_inv:
  assumes "slab_inv s"
  obtains a h where "run_loop (find_free_slab (slab_heads s) (slabs s)) = Inr a" "a \<noteq> 0"
      "slab_heads s a = Some h" "0 < sh_free h"
  | "run_loop (find_free_slab (slab_heads s) (slabs s)) = Inr 0"
      "\<forall>a h. slab_heads s a = Some h \<longrightarrow> sh_free h = 0"
proof -
  obtain as where as: "slab_chain (slab_heads s) (slabs s) as" "set as = dom (slab_heads s)"
    using assms by (auto simp: slab_inv_def)
  show thesis using find_free_slab_chain [OF as(1)]
  proof (elim disjE exE conjE)
    fix a h
    assume "find_free_slab (slab_heads s) (slabs s) = Some (Inr a)" "a \<noteq> 0"
      "slab_heads s a = Some h" "0 < sh_free h"
    then show thesis using that(1) by simp
  next
    assume "find_free_slab (slab_heads s) (slabs s) = Some (Inr 0)"
      "\<forall>a\<in>set as. \<forall>h. slab_heads s a = Some h \<longrightarrow> sh_free h = 0"
    then show thesis using that(2) as(2) by auto
  qed
qed

text \<open>\<open>slab_alloc\<close> returns a block nobody holds, or NULL when no block is free and none can be had.\<close>

lemma slab_alloc_spec:
  assumes wf: "slab_wf s" and m: "malloc_ok s buf"
  shows "\<exists>p s'. slab_alloc s buf = Inr (p, s') \<and> slab_wf s' \<and>
           (p = 0 \<and> s' = s \<and> (buf = 0 \<or> refill_func s = No_Refill) \<or>
            p \<noteq> 0 \<and> p \<notin> live s \<and> live s' = insert p (live s))"
proof -
  have inv: "slab_inv s" using wf by (simp add: slab_wf_def)
  show ?thesis
  proof (rule find_free_slab_inv [OF inv])
    fix a h
    assume a: "run_loop (find_free_slab (slab_heads s) (slabs s)) = Inr a" "a \<noteq> 0"
      "slab_heads s a = Some h" "0 < sh_free h"
    from slab_take_spec [OF inv a(3,4)] obtain b s' where
      "slab_take s a = Inr (b, s')" "slab_inv s'" "b \<noteq> 0" "b \<notin> live s"
      "live s' = insert b (live s)" "blocksize s' = blocksize s" by metis
    then show ?thesis using a wf by (simp add: slab_alloc_def slab_wf_def)
  next
    assume none: "run_loop (find_free_slab (slab_heads s) (slabs s)) = Inr 0"
    show ?thesis
    proof (cases "refill_func s = No_Refill \<or> buf = 0")
      case True
      then show ?thesis using none wf
        by (cases "refill_func s = No_Refill")
          (simp_all add: slab_alloc_def slab_default_refill_def slab_refill_pages_def err_is_fail_def)
    next
      case False
      with m have "fresh_memory s buf PAGE_SIZE" by (simp add: malloc_ok_def)
      from slab_default_refill_spec [OF wf this] obtain s1 h where
        s1: "slab_default_refill s buf = Inr (CLEANQ_ERR_OK, s1)" "slab_inv s1" "live s1 = live s"
          "slabs s1 = buf" "slab_heads s1 buf = Some h" "0 < sh_free h" "blocksize s1 = blocksize s"
        by metis
      have f: "run_loop (find_free_slab (slab_heads s1) (slabs s1)) = Inr buf"
        using s1(4,5,6) False by (simp add: find_free_slab.simps)
      from slab_take_spec [OF s1(2,5,6)] obtain b s' where
        "slab_take s1 buf = Inr (b, s')" "slab_inv s'" "b \<noteq> 0" "b \<notin> live s1"
        "live s' = insert b (live s1)" "blocksize s' = blocksize s1" by metis
      then show ?thesis using none False f s1 wf
        by (simp add: slab_alloc_def slab_wf_def err_is_fail_def)
    qed
  qed
qed

text \<open>\<open>slab_free\<close> finds the slab of any block in use and returns the block to it.\<close>

lemma slab_free_spec:
  assumes wf: "slab_wf s" and p: "p \<in> live s"
  shows "\<exists>s'. slab_free s p = Inr s' \<and> slab_wf s' \<and> live s' = live s - {p}"
proof -
  have inv: "slab_inv s" using wf by (simp add: slab_wf_def)
  note r = block_addrs_range [OF slab_inv_pos [OF inv]]
  obtain a h where a: "slab_heads s a = Some h" "p \<in> block_addrs (blocksize s) a h"
    "p \<notin> set (free_list s h)"
    using p by (auto simp: live_def)
  obtain as where as: "slab_chain (slab_heads s) (slabs s) as" "set as = dom (slab_heads s)"
    using inv by (auto simp: slab_inv_def)
  have p0: "p \<noteq> 0" using r [OF a(2)] by simp
  have "\<not> (c < p \<and> p < c + sizeof_slab_head + blocksize s * sh_total hc)"
    if "slab_heads s c = Some hc" "c \<noteq> a" for c hc
    using slab_inv_disjoint [OF inv a(1) that(1), of p] r [OF a(2)] that(2)
    by (auto simp: slab_range_def)
  then have found: "find_block_slab (slab_heads s) (blocksize s) p (slabs s) = Some (Inr a)"
    using find_block_slab_chain [OF a(1) _ _ _ as(1), of p "blocksize s"] r [OF a(2)] as(2) a(1)
    by (auto simp: slab_range_def)
  let ?h' = "h\<lparr>sh_blocks := p, sh_free := sh_free h + 1\<rparr>"
  let ?s' = "set_block s a ?h' p (sh_blocks h)"
  have ok: "slab_ok s a h" using slab_inv_okD [OF inv a(1)] .
  have fl: "free_list ?s' ?h' = p # free_list s h"
    using a(3) by (simp add: free_list_def set_block_def)
  have sub: "set (p # free_list s h) \<subseteq> block_addrs (blocksize s) a h" "distinct (p # free_list s h)"
    using ok a by (auto simp: slab_ok_def)
  have "card (set (p # free_list s h)) \<le> card (block_addrs (blocksize s) a h)"
    using sub by (intro card_mono) (auto simp: block_addrs_def)
  also have "\<dots> \<le> sh_total h"
    unfolding block_addrs_def using card_image_le [of "{..<sh_total h}"] by simp
  finally have lt: "sh_free h < sh_total h"
    using distinct_card [OF sub(2)] by (simp add: free_list_def)
  have inv': "slab_inv ?s'"
    by (rule set_block_inv [OF inv a(1,2)]) (use sub lt fl in auto)
  have "live ?s' = live s - {p}"
    using set_block_live [OF inv a(1,2) _ inv'] live_iff [OF inv a(1)] a fl by auto
  moreover have "slab_free s p = Inr ?s'"
    using found p0 slab_inv_nonnull [OF inv a(1)] a(1) lt ok
    by (simp add: slab_free_def set_block_def Let_def slab_ok_def UINT32_MAX_def)
  ultimately show ?thesis using inv' wf by (simp add: slab_wf_def)
qed

text \<open>The free blocks over all slabs, which \<open>slab_freecount\<close> adds up.\<close>

definition total_free :: "slab_allocator \<Rightarrow> nat" where
  "total_free s = (\<Sum>a\<in>dom (slab_heads s). sh_free (the (slab_heads s a)))"

lemma count_free_chain:
  "slab_chain hs p as \<Longrightarrow> ret + sum_list (map (\<lambda>a. sh_free (the (hs a))) as) < 2 ^ 64 \<Longrightarrow>
     count_free hs p ret = Some (Inr (ret + sum_list (map (\<lambda>a. sh_free (the (hs a))) as)))"
proof (induction as arbitrary: p ret)
  case Nil
  then show ?case by (simp add: count_free.simps)
next
  case (Cons a as)
  then obtain h where h: "hs a = Some h" "p = a" "a \<noteq> 0" "slab_chain hs (sh_next h) as"
    by (auto split: option.splits)
  have "count_free hs p ret = count_free hs (sh_next h) ((ret + sh_free h) mod 2 ^ 64)"
    using h by (subst count_free.simps) simp
  then show ?case using Cons.IH [OF h(4), of "ret + sh_free h"] Cons.prems(2) h(1)
    by (simp add: add.assoc)
qed

lemma slab_freecount_total:
  assumes "slab_inv s" "total_free s < 2 ^ 64"
  shows "slab_freecount s = Inr (total_free s)"
proof -
  obtain as where as: "slab_chain (slab_heads s) (slabs s) as" "distinct as"
    "set as = dom (slab_heads s)"
    using assms(1) by (auto simp: slab_inv_def)
  have "total_free s = sum_list (map (\<lambda>a. sh_free (the (slab_heads s a))) as)"
    using as(2,3) by (simp add: total_free_def sum_list_distinct_conv_sum_set)
  then show ?thesis using count_free_chain [OF as(1), of 0] assms(2)
    by (simp add: slab_freecount_def)
qed

section \<open>The interface of a block allocator\<close>

text \<open>
  What a client of an allocator relies on: an allocation returns, and its result is NULL or a block
  that was not in use; a block in use can be returned.
\<close>

locale block_allocator =
  fixes alloc :: "'s \<Rightarrow> 'm \<Rightarrow> (addr \<times> 's) cres"
    and dealloc :: "'s \<Rightarrow> addr \<Rightarrow> 's cres"
    and used :: "'s \<Rightarrow> addr set"
    and inv :: "'s \<Rightarrow> bool"
    and mem_ok :: "'s \<Rightarrow> 'm \<Rightarrow> bool"
  assumes alloc_law: "inv s \<Longrightarrow> mem_ok s m \<Longrightarrow>
      \<exists>p s'. alloc s m = Inr (p, s') \<and> inv s' \<and>
        (p = 0 \<and> s' = s \<or> p \<noteq> 0 \<and> p \<notin> used s \<and> used s' = insert p (used s))"
    and dealloc_law: "inv s \<Longrightarrow> p \<in> used s \<Longrightarrow>
      \<exists>s'. dealloc s p = Inr s' \<and> inv s' \<and> used s' = used s - {p}"
begin

lemma allocE:
  assumes "inv s" "mem_ok s m"
  obtains "alloc s m = Inr (0, s)"
  | p s' where "alloc s m = Inr (p, s')" "inv s'" "p \<noteq> 0" "p \<notin> used s" "used s' = insert p (used s)"
  using alloc_law [OF assms] by blast

lemma deallocE:
  assumes "inv s" "p \<in> used s"
  obtains s' where "dealloc s p = Inr s'" "inv s'" "used s' = used s - {p}"
  using dealloc_law [OF assms] by blast

lemma alloc_dealloc:
  assumes "inv s" "mem_ok s m" "alloc s m = Inr (p, s')" "p \<noteq> 0"
  shows "\<exists>s''. dealloc s' p = Inr s'' \<and> inv s'' \<and> used s'' = used s"
  using assms by (metis allocE deallocE Diff_insert_absorb Inr_inject fst_conv snd_conv insertI1)

lemma alloc_distinct:
  assumes "inv s" "mem_ok s m" "alloc s m = Inr (p, s')" "p \<noteq> 0"
    and "mem_ok s' m'" "alloc s' m' = Inr (q, s'')" "q \<noteq> 0"
  shows "p \<noteq> q"
  using assms by (metis allocE Inr_inject fst_conv snd_conv insertI1)

end

interpretation slab: block_allocator slab_alloc slab_free live slab_wf malloc_ok
proof
  fix s m assume "slab_wf s" "malloc_ok s m"
  then show "\<exists>p s'. slab_alloc s m = Inr (p, s') \<and> slab_wf s' \<and>
      (p = 0 \<and> s' = s \<or> p \<noteq> 0 \<and> p \<notin> live s \<and> live s' = insert p (live s))"
    using slab_alloc_spec by blast
next
  fix s p assume "slab_wf s" "p \<in> live s"
  then show "\<exists>s'. slab_free s p = Inr s' \<and> slab_wf s' \<and> live s' = live s - {p}"
    by (rule slab_free_spec)
qed

section \<open>Properties\<close>

text \<open>Allocation. On a well-formed allocator \<open>slab_alloc\<close> always returns. It returns
  NULL and changes nothing only when no memory can be had; otherwise it returns a block that was
  not in use, and exactly that block is in use afterwards. The allocator stays well-formed.\<close>

theorem slab_alloc_fresh_block:
  assumes "slab_wf s" "malloc_ok s buf"
  shows "\<exists>p s'. slab_alloc s buf = Inr (p, s') \<and> slab_wf s' \<and>
           (p = 0 \<and> s' = s \<and> (buf = 0 \<or> refill_func s = No_Refill) \<or>
            p \<noteq> 0 \<and> p \<notin> live s \<and> live s' = insert p (live s))"
  by (rule slab_alloc_spec [OF assms])

text \<open>An empty allocator and a page for it, on which the properties are evaluated.\<close>

definition demo_slab :: slab_allocator where
  "demo_slab = slab_init 48 Default_Refill"

lemma demo_slab_ok: "slab_wf demo_slab" "malloc_ok demo_slab 4096" "live demo_slab = {}"
  using slab_wf_init [of 48 Default_Refill]
  by (auto simp: demo_slab_def malloc_ok_def fresh_memory_def slab_init_def live_def
      sizeof_slab_head_def PAGE_SIZE_def)

theorem slab_alloc_fresh_block_witness:
  "slab_wf demo_slab \<and> malloc_ok demo_slab 4096 \<and>
   (\<exists>p s'. slab_alloc demo_slab 4096 = Inr (p, s') \<and> p \<noteq> 0 \<and> live s' = {p})"
proof -
  have "refill_func demo_slab = Default_Refill" by (simp add: demo_slab_def slab_init_def)
  then show ?thesis
    using slab_alloc_fresh_block [OF demo_slab_ok(1,2)] demo_slab_ok by auto
qed

text \<open>Property C29: round trip. A block that was allocated can be freed, and then exactly the blocks
  in use before the allocation are in use.\<close>

theorem slab_alloc_free_roundtrip:
  assumes "slab_wf s" "malloc_ok s buf" "slab_alloc s buf = Inr (p, s')" "p \<noteq> 0"
  shows "\<exists>s''. slab_free s' p = Inr s'' \<and> slab_wf s'' \<and> live s'' = live s"
  using assms by (rule slab.alloc_dealloc)

theorem slab_alloc_free_roundtrip_witness:
  "\<exists>p s' s''. slab_alloc demo_slab 4096 = Inr (p, s') \<and> p \<noteq> 0 \<and>
     slab_free s' p = Inr s'' \<and> live s'' = {}"
proof -
  have "refill_func demo_slab = Default_Refill" by (simp add: demo_slab_def slab_init_def)
  then obtain p s' where "slab_alloc demo_slab 4096 = Inr (p, s')" "p \<noteq> 0"
    using slab_alloc_spec [OF demo_slab_ok(1,2)] by auto
  then show ?thesis
    using slab_alloc_free_roundtrip [OF demo_slab_ok(1,2)] demo_slab_ok(3) by metis
qed

end
