(* ===== verification/Region_Pool.thy ===== *)
theory Region_Pool
  imports Slab
begin

text \<open>
  The pool of memory regions of a queue, \<open>lib/libcleanq/src/region_pool.c\<close>. The pool is an array
  of pointers to region descriptors whose length is a power of two; the descriptor of region
  \<open>id\<close> is in slot \<open>id & (size - 1)\<close>. Descriptors are blocks of a slab allocator. The array and
  the descriptors are an array of addresses and a store.

  Contents: the operations; the invariant of the pool; that every operation keeps it and what it
  does to the set of registered regions; the bounds check of a buffer.
\<close>

section \<open>State\<close>

record region =
  r_id :: regionid
  r_base_addr :: u64
  r_cap :: capref
  r_len :: u64

record region_pool =
  rp_size :: u16
  num_regions :: u16
  region_offset :: u64
  last_offset :: u16
  region_alloc :: slab_allocator
  rp_pool :: "addr list"
  rp_regions :: "addr \<rightharpoonup> region"

text \<open>What the C library answers to the allocation calls of one operation.\<close>

record libc =
  calloc_ok :: bool
  malloc_ret :: addr

definition INIT_POOL_SIZE :: u16 where
  "INIT_POOL_SIZE = 16"

text \<open>\<open>sizeof(struct region)\<close>: the identifier with its padding, the base address, the capability
  and the length.\<close>

definition sizeof_region :: nat where
  "sizeof_region = 48"

section \<open>Operations\<close>

text \<open>\<open>calloc\<close> may fail twice; \<open>rnd\<close> is the value \<open>rand\<close> returns.\<close>

definition region_pool_init :: "bool \<Rightarrow> bool \<Rightarrow> u32 \<Rightarrow> errval \<times> region_pool option" where
  "region_pool_init calloc1 calloc2 rnd =
     (if \<not> calloc1 then (CLEANQ_ERR_MALLOC_FAIL, None)
      else if \<not> calloc2 then (CLEANQ_ERR_MALLOC_FAIL, None)
      else (CLEANQ_ERR_OK, Some
        \<lparr>rp_size = INIT_POOL_SIZE, num_regions = 0, region_offset = ucast (drop_bit 12 rnd),
         last_offset = 0, region_alloc = slab_init sizeof_region Default_Refill,
         rp_pool = replicate (unat INIT_POOL_SIZE) 0, rp_regions = Map.empty\<rparr>))"

text \<open>The slot of a region identifier.\<close>

definition region_slot :: "region_pool \<Rightarrow> regionid \<Rightarrow> nat" where
  "region_slot p rid = unat (rid AND (ucast (rp_size p) - 1))"

text \<open>The loop of \<open>region_pool_grow\<close> that moves the descriptors to the array \<open>tmp\<close>.\<close>

fun grow_copy :: "region_pool \<Rightarrow> u16 \<Rightarrow> nat list \<Rightarrow> addr list \<Rightarrow> addr list cres" where
  "grow_copy p new_size [] tmp = Inr tmp"
| "grow_copy p new_size (i # is) tmp =
     bindc (arr_get (rp_pool p) i) (\<lambda>region.
     bindc (deref (rp_regions p) region) (\<lambda>r.
     bindc (arr_set tmp (unat (ucast (r_id r AND (ucast new_size - 1)) :: u16)) region)
       (grow_copy p new_size is)))"

definition region_pool_grow :: "libc \<Rightarrow> region_pool \<Rightarrow> (errval \<times> region_pool) cres" where
  "region_pool_grow env p =
     (let new_size = rp_size p * 2 in
      if \<not> calloc_ok env then Inr (CLEANQ_ERR_MALLOC_FAIL, p)
      else bindc (grow_copy p new_size [0..<unat (rp_size p)] (replicate (unat new_size) 0)) (\<lambda>tmp.
             Inr (CLEANQ_ERR_OK, p\<lparr>rp_pool := tmp, rp_size := new_size, last_offset := 0\<rparr>)))"

text \<open>The first loop of \<open>region_pool_add_region\<close>: is the memory already registered or does it
  overlap a registered region?\<close>

fun add_check :: "region_pool \<Rightarrow> capref \<Rightarrow> nat list \<Rightarrow> errval cres" where
  "add_check p cap [] = Inr CLEANQ_ERR_OK"
| "add_check p cap (i # is) =
     bindc (arr_get (rp_pool p) i) (\<lambda>tmp.
       if tmp = 0 then add_check p cap is
       else bindc (deref (rp_regions p) tmp) (\<lambda>r.
         if r_base_addr r = cap_paddr cap then Inr CLEANQ_ERR_INVALID_REGION_ARGS
         else if \<not> (cap_paddr cap + cap_len cap \<le> r_base_addr r \<or>
                    r_base_addr r + r_len r \<le> cap_paddr cap)
         then Inr CLEANQ_ERR_INVALID_REGION_ARGS
         else add_check p cap is))"

definition slot_index :: "region_pool \<Rightarrow> u16 \<Rightarrow> u16" where
  "slot_index p off =
     ucast ((region_offset p + ucast (num_regions p) + ucast off) AND (ucast (rp_size p) - 1))"

text \<open>The loop that looks for an empty slot; it returns the offset at which it stopped.\<close>

partial_function (option) find_slot :: "region_pool \<Rightarrow> u16 \<Rightarrow> u16 cres option" where
  "find_slot p off =
     (case arr_get (rp_pool p) (unat (slot_index p off)) of
        Inl e \<Rightarrow> Some (Inl e)
      | Inr q \<Rightarrow> if q = 0 then Some (Inr off) else find_slot p (off + 1))"

text \<open>Growing the pool when it is full, as both ways of adding a region begin.\<close>

definition grow_if_full :: "libc \<Rightarrow> region_pool \<Rightarrow> (errval \<times> region_pool) cres" where
  "grow_if_full env p =
     (if \<not> num_regions p < rp_size p then region_pool_grow env p else Inr (CLEANQ_ERR_OK, p))"

definition new_region :: "regionid \<Rightarrow> capref \<Rightarrow> region" where
  "new_region rid cap =
     \<lparr>r_id = rid, r_base_addr = cap_paddr cap, r_cap = cap, r_len = cap_len cap\<rparr>"

text \<open>\<open>rid\<close> is the content of \<open>*region_id\<close>, which an error leaves alone.\<close>

definition region_pool_add_region ::
  "libc \<Rightarrow> region_pool \<Rightarrow> capref \<Rightarrow> regionid \<Rightarrow> (errval \<times> regionid \<times> region_pool) cres" where
  "region_pool_add_region env p cap rid =
     bindc (add_check p cap [0..<unat (rp_size p)]) (\<lambda>chk.
     if err_is_fail chk then Inr (chk, rid, p)
     else bindc (grow_if_full env p) (\<lambda>(err, p1).
     if err_is_fail err then Inr (err, rid, p1)
     else let p2 = p1\<lparr>num_regions := num_regions p1 + 1\<rparr> in
     bindc (run_loop (find_slot p2 (last_offset p2))) (\<lambda>offset.
     let p3 = p2\<lparr>last_offset := offset\<rparr> in
     bindc (slab_alloc (region_alloc p3) (malloc_ret env)) (\<lambda>(region, sa).
     let p4 = p3\<lparr>region_alloc := sa\<rparr> in
     if region = 0 then Inr (CLEANQ_ERR_MALLOC_FAIL, rid, p4)
     else let new_id = ucast (region_offset p4 + ucast (num_regions p4) + ucast offset) in
     bindc (arr_set (rp_pool p4) (region_slot p4 new_id) region) (\<lambda>pl.
     Inr (err, new_id, p4\<lparr>rp_regions := (rp_regions p4)(region \<mapsto> new_region new_id cap),
                         rp_pool := pl\<rparr>))))))"

definition region_pool_add_region_with_id ::
  "libc \<Rightarrow> region_pool \<Rightarrow> capref \<Rightarrow> regionid \<Rightarrow> (errval \<times> region_pool) cres" where
  "region_pool_add_region_with_id env p cap rid =
     bindc (grow_if_full env p) (\<lambda>(err, p1).
     if err_is_fail err then Inr (err, p1)
     else bindc (arr_get (rp_pool p1) (region_slot p1 rid)) (\<lambda>region.
     if region \<noteq> 0 then Inr (CLEANQ_ERR_INVALID_REGION_ID, p1)
     else bindc (slab_alloc (region_alloc p1) (malloc_ret env)) (\<lambda>(region', sa).
     let p2 = p1\<lparr>region_alloc := sa\<rparr> in
     if region' = 0 then Inr (CLEANQ_ERR_MALLOC_FAIL, p2)
     else bindc (arr_set (rp_pool p2) (region_slot p2 rid) region') (\<lambda>pl.
     Inr (CLEANQ_ERR_OK, p2\<lparr>rp_regions := (rp_regions p2)(region' \<mapsto> new_region rid cap),
                           rp_pool := pl, num_regions := num_regions p2 + 1\<rparr>)))))"

text \<open>\<open>cap\<close> is the content of \<open>*cap\<close>, which an error leaves alone.\<close>

definition region_pool_remove_region ::
  "region_pool \<Rightarrow> regionid \<Rightarrow> capref \<Rightarrow> (errval \<times> capref \<times> region_pool) cres" where
  "region_pool_remove_region p rid cap =
     bindc (arr_get (rp_pool p) (region_slot p rid)) (\<lambda>region.
     if region = 0 then Inr (CLEANQ_ERR_INVALID_REGION_ID, cap, p)
     else bindc (deref (rp_regions p) region) (\<lambda>r.
     bindc (slab_free (region_alloc p) region) (\<lambda>sa.
     bindc (arr_set (rp_pool p) (region_slot p rid) 0) (\<lambda>pl.
     Inr (CLEANQ_ERR_OK, r_cap r,
          p\<lparr>region_alloc := sa, rp_regions := (rp_regions p)(region := None), rp_pool := pl,
            num_regions := num_regions p - 1\<rparr>)))))"

text \<open>The loop of \<open>region_pool_destroy\<close>.\<close>

fun destroy_loop :: "region_pool \<Rightarrow> capref \<Rightarrow> nat list \<Rightarrow> (errval \<times> region_pool) cres" where
  "destroy_loop p cap [] = Inr (CLEANQ_ERR_OK, p)"
| "destroy_loop p cap (i # is) =
     bindc (arr_get (rp_pool p) i) (\<lambda>region.
       if region = 0 then destroy_loop p cap is
       else bindc (deref (rp_regions p) region) (\<lambda>r.
            bindc (region_pool_remove_region p (r_id r) cap) (\<lambda>(err, cap', p').
              if err_is_fail err then Inr (err, p') else destroy_loop p' cap' is)))"

text \<open>The pool after the call; \<open>None\<close> once it has been freed. \<open>cap\<close> is an uninitialised local.\<close>

definition region_pool_destroy :: "region_pool \<Rightarrow> capref \<Rightarrow> (errval \<times> region_pool option) cres" where
  "region_pool_destroy p cap =
     (if num_regions p = 0 then Inr (CLEANQ_ERR_OK, None)
      else bindc (destroy_loop p cap [0..<unat (rp_size p)]) (\<lambda>(err, p').
             if err_is_fail err then Inr (err, Some p') else Inr (CLEANQ_ERR_OK, None)))"

definition region_pool_buffer_check_bounds :: "region_pool \<Rightarrow> cleanq_buf \<Rightarrow> bool cres" where
  "region_pool_buffer_check_bounds p b =
     bindc (arr_get (rp_pool p) (region_slot p (b_rid b))) (\<lambda>region.
     if region = 0 then Inr False
     else bindc (deref (rp_regions p) region) (\<lambda>r.
     if b_length b + b_offset b > r_len r \<or> b_valid_data b + b_valid_length b > b_length b
     then Inr False else Inr True))"

definition base_addr_of_region :: "region_pool \<Rightarrow> regionid \<Rightarrow> u64 cres" where
  "base_addr_of_region p rid =
     bindc (arr_get (rp_pool p) (region_slot p rid)) (\<lambda>region.
     if region = 0 then Inr 0
     else bindc (deref (rp_regions p) region) (\<lambda>r. Inr (r_base_addr r)))"

fun with_base_loop :: "region_pool \<Rightarrow> u64 \<Rightarrow> nat list \<Rightarrow> regionid cres" where
  "with_base_loop p base [] = Inr 0"
| "with_base_loop p base (i # is) =
     bindc (arr_get (rp_pool p) i) (\<lambda>region.
       if region = 0 then with_base_loop p base is
       else bindc (deref (rp_regions p) region) (\<lambda>r.
            if r_base_addr r = base then Inr (r_id r) else with_base_loop p base is))"

definition region_with_base_addr :: "region_pool \<Rightarrow> u64 \<Rightarrow> regionid cres" where
  "region_with_base_addr p base = with_base_loop p base [0..<unat (rp_size p)]"

section \<open>Invariant\<close>

lemma set_upt_below: "set [0..<n] \<subseteq> {..<n}"
  by auto

text \<open>The slots of the pool array that hold a descriptor.\<close>

definition used_slots :: "region_pool \<Rightarrow> nat set" where
  "used_slots p = {i. i < length (rp_pool p) \<and> rp_pool p ! i \<noteq> 0}"

text \<open>The pool with its array of \<open>2 ^ k\<close> slots: every descriptor is in the slot of its identifier
  and is a block of the allocator in use, and the counter counts the descriptors.\<close>

definition pool_inv_at :: "nat \<Rightarrow> region_pool \<Rightarrow> bool" where
  "pool_inv_at k p \<longleftrightarrow>
     4 \<le> k \<and> k \<le> 15 \<and> unat (rp_size p) = 2 ^ k \<and> length (rp_pool p) = 2 ^ k \<and>
     (\<forall>i\<in>used_slots p. \<exists>r. rp_regions p (rp_pool p ! i) = Some r \<and> unat (r_id r) mod 2 ^ k = i) \<and>
     slab_wf (region_alloc p) \<and> refill_func (region_alloc p) = Default_Refill \<and>
     (\<forall>i\<in>used_slots p. rp_pool p ! i \<in> live (region_alloc p)) \<and>
     unat (num_regions p) = card (used_slots p)"

definition pool_inv :: "region_pool \<Rightarrow> bool" where
  "pool_inv p \<longleftrightarrow> (\<exists>k. pool_inv_at k p)"

text \<open>The pool as the finite map from identifiers to regions that it stands for.\<close>

definition pool_map :: "region_pool \<Rightarrow> regionid \<rightharpoonup> region" where
  "pool_map p rid =
     (let i = region_slot p rid in
      if i < length (rp_pool p) \<and> rp_pool p ! i \<noteq> 0
      then case rp_regions p (rp_pool p ! i) of
             None \<Rightarrow> None
           | Some r \<Rightarrow> if r_id r = rid then Some r else None
      else None)"

lemma finite_used_slots [simp]: "finite (used_slots p)"
  by (rule finite_subset [of _ "{..<length (rp_pool p)}"]) (auto simp: used_slots_def)

lemma used_slots_range: "used_slots p \<subseteq> {..<length (rp_pool p)}"
  by (auto simp: used_slots_def)

lemma pool_inv_atD:
  assumes "pool_inv_at k p"
  shows "4 \<le> k" "k \<le> 15" "unat (rp_size p) = 2 ^ k" "length (rp_pool p) = 2 ^ k"
    "slab_wf (region_alloc p)" "unat (num_regions p) = card (used_slots p)"
    "refill_func (region_alloc p) = Default_Refill"
  using assms by (auto simp: pool_inv_at_def)

lemma pool_inv_atI:
  assumes "4 \<le> k" "k \<le> 15" "unat (rp_size p) = 2 ^ k" "length (rp_pool p) = 2 ^ k"
    "slab_wf (region_alloc p)" "unat (num_regions p) = card (used_slots p)"
    "refill_func (region_alloc p) = Default_Refill"
    and "\<And>i. i \<in> used_slots p \<Longrightarrow> \<exists>r. rp_regions p (rp_pool p ! i) = Some r \<and>
           unat (r_id r) mod 2 ^ k = i \<and> rp_pool p ! i \<in> live (region_alloc p)"
  shows "pool_inv_at k p"
  using assms unfolding pool_inv_at_def by blast

lemma pool_inv_at_slot:
  assumes "pool_inv_at k p" "i < 2 ^ k" "rp_pool p ! i \<noteq> 0"
  obtains r where "rp_regions p (rp_pool p ! i) = Some r" "unat (r_id r) mod 2 ^ k = i"
    "rp_pool p ! i \<in> live (region_alloc p)"
  using assms by (fastforce simp: pool_inv_at_def used_slots_def)

lemma region_slot_eq: "unat (rp_size p) = 2 ^ k \<Longrightarrow> region_slot p rid = unat rid mod 2 ^ k"
  by (simp add: region_slot_def unat_and_size)

lemma region_slot_bound: "pool_inv_at k p \<Longrightarrow> region_slot p rid < 2 ^ k"
  by (simp add: region_slot_eq pool_inv_atD(3))

lemma pool_map_eq:
  assumes "pool_inv_at k p"
  shows "pool_map p rid = Some r \<longleftrightarrow>
    rp_pool p ! region_slot p rid \<noteq> 0 \<and> rp_regions p (rp_pool p ! region_slot p rid) = Some r \<and>
    r_id r = rid"
  using region_slot_bound [OF assms] pool_inv_atD(4) [OF assms]
  by (auto simp: pool_map_def Let_def split: option.splits)

text \<open>A descriptor in any slot is what the map gives for its identifier.\<close>

lemma pool_map_slot:
  assumes inv: "pool_inv_at k p" and i: "i < 2 ^ k" "rp_pool p ! i \<noteq> 0"
  obtains r where "rp_regions p (rp_pool p ! i) = Some r" "pool_map p (r_id r) = Some r"
    "region_slot p (r_id r) = i"
proof -
  obtain r where "rp_regions p (rp_pool p ! i) = Some r" "unat (r_id r) mod 2 ^ k = i"
    using pool_inv_at_slot [OF inv i] by metis
  then show thesis using that i inv pool_inv_atD(3) [OF inv]
    by (simp add: pool_map_eq region_slot_eq)
qed

lemma pool_inv_at_size:
  assumes "pool_inv_at k p"
  shows "num_regions p < rp_size p \<longleftrightarrow> card (used_slots p) < 2 ^ k"
    "num_regions p = rp_size p \<longleftrightarrow> used_slots p = {..<2 ^ k}"
    "card (used_slots p) \<le> 2 ^ k"
proof -
  note d = pool_inv_atD [OF assms]
  show "num_regions p < rp_size p \<longleftrightarrow> card (used_slots p) < 2 ^ k"
    using d by (simp add: word_less_nat_alt)
  show "card (used_slots p) \<le> 2 ^ k"
    using card_mono [OF _ used_slots_range, of p] d(4) by simp
  have "num_regions p = rp_size p \<longleftrightarrow> card (used_slots p) = card {..<2 ^ k :: nat}"
    using d by (simp add: word_unat_eq_iff)
  also have "\<dots> \<longleftrightarrow> used_slots p = {..<2 ^ k}"
    using card_subset_eq [OF finite_lessThan used_slots_range, of p] d(4) by metis
  finally show "num_regions p = rp_size p \<longleftrightarrow> used_slots p = {..<2 ^ k}" .
qed

text \<open>A pool is created with no region.\<close>

lemma region_pool_init_inv:
  assumes "region_pool_init c1 c2 rnd = (err, Some p)"
  shows "err = CLEANQ_ERR_OK \<and> pool_inv_at 4 p \<and> pool_map p = Map.empty \<and> num_regions p = 0"
proof -
  have p: "err = CLEANQ_ERR_OK" "p = \<lparr>rp_size = INIT_POOL_SIZE, num_regions = 0,
      region_offset = ucast (drop_bit 12 rnd), last_offset = 0,
      region_alloc = slab_init sizeof_region Default_Refill,
      rp_pool = replicate (unat INIT_POOL_SIZE) 0, rp_regions = Map.empty\<rparr>"
    using assms by (auto simp: region_pool_init_def split: if_splits)
  have u: "used_slots p = {}" by (auto simp: used_slots_def p)
  have "slab_wf (slab_init sizeof_region Default_Refill)"
    by (rule slab_wf_init) (simp add: sizeof_region_def sizeof_slab_head_def PAGE_SIZE_def)
  then have "pool_inv_at 4 p" using u by (simp add: pool_inv_at_def p INIT_POOL_SIZE_def slab_init_def)
  moreover have "pool_map p = Map.empty" by (auto simp: pool_map_def Let_def p)
  ultimately show ?thesis using p by simp
qed

section \<open>Growing\<close>

definition grow_pos :: "region_pool \<Rightarrow> nat \<Rightarrow> nat \<Rightarrow> nat" where
  "grow_pos p k i = unat (r_id (the (rp_regions p (rp_pool p ! i)))) mod 2 ^ Suc k"

lemma grow_pos_mod:
  assumes "pool_inv_at k p" "i < 2 ^ k" "rp_pool p ! i \<noteq> 0"
  shows "grow_pos p k i mod 2 ^ k = i"
  using pool_inv_at_slot [OF assms] by (metis grow_pos_def mod_power_of_two_mod le_Suc_eq order_refl option.sel)

lemma grow_pos_bound [simp]: "grow_pos p k i < 2 ^ Suc k"
  by (simp add: grow_pos_def)

lemma grow_size: "pool_inv_at k p \<Longrightarrow> k < 15 \<Longrightarrow> unat (rp_size p * 2) = 2 ^ Suc k"
proof -
  assume "pool_inv_at k p" "k < 15"
  then have s: "unat (rp_size p) = 2 ^ k" "(2::nat) ^ k \<le> 2 ^ 14"
    using pool_inv_atD(3) power_increasing [of k 14 "2 :: nat"] by auto
  then have "unat (rp_size p) * unat (2 :: u16) < 2 ^ 16" by simp
  then have "unat (rp_size p * 2) = unat (rp_size p) * unat (2 :: u16)"
    by (subst unat_mult_lem [symmetric]) simp
  then show ?thesis using s by simp
qed

lemma grow_copy_fold:
  assumes inv: "pool_inv_at k p" and k: "k < 15" and full: "used_slots p = {..<2 ^ k}"
  shows "set is \<subseteq> {..<2 ^ k} \<Longrightarrow> length tmp = 2 ^ Suc k \<Longrightarrow>
    grow_copy p (rp_size p * 2) is tmp = Inr (fold (\<lambda>i t. t[grow_pos p k i := rp_pool p ! i]) is tmp)"
proof (induction "is" arbitrary: tmp)
  case (Cons i "is")
  then have i: "i < 2 ^ k" "rp_pool p ! i \<noteq> 0"
    using full by (auto simp: used_slots_def)
  obtain r where r: "rp_regions p (rp_pool p ! i) = Some r"
    using pool_inv_at_slot [OF inv i] by metis
  have "unat (ucast (r_id r AND (ucast (rp_size p * 2) - 1)) :: u16) =
      unat (r_id r AND (ucast (rp_size p * 2) - 1)) mod 2 ^ 16"
    by (simp add: unsigned_ucast_eq take_bit_nat_def)
  also have "\<dots> = unat (r_id r) mod 2 ^ Suc k mod 2 ^ 16"
    by (simp only: unat_and_size [OF grow_size [OF inv k]])
  also have "\<dots> = unat (r_id r) mod 2 ^ Suc k"
    using k by (intro mod_power_of_two_small) simp
  finally have "unat (ucast (r_id r AND (ucast (rp_size p * 2) - 1)) :: u16) = grow_pos p k i"
    using r by (simp add: grow_pos_def)
  then show ?case using Cons r i pool_inv_atD(4) [OF inv]
    by (simp add: grow_pos_def)
qed simp

text \<open>Growing a full pool doubles it and leaves the map it stands for alone.\<close>

lemma region_pool_grow_spec:
  assumes inv: "pool_inv_at k p" and k: "k < 15" and full: "used_slots p = {..<2 ^ k}"
    and env: "calloc_ok env"
  obtains p' where "region_pool_grow env p = Inr (CLEANQ_ERR_OK, p')" "pool_inv_at (Suc k) p'"
    "pool_map p' = pool_map p" "num_regions p' = num_regions p" "region_alloc p' = region_alloc p"
proof -
  let ?K = "2 ^ k :: nat" and ?pos = "grow_pos p k" and ?q = "\<lambda>i. rp_pool p ! i"
  define tmp where "tmp = fold (\<lambda>i t. t[?pos i := ?q i]) [0..<?K] (replicate (2 ^ Suc k) 0)"
  define p' where "p' = p\<lparr>rp_pool := tmp, rp_size := rp_size p * 2, last_offset := 0\<rparr>"
  note d = pool_inv_atD [OF inv]
  have nz: "?q i \<noteq> 0" if "i < ?K" for i using full that by (auto simp: used_slots_def)
  have "inj_on ?pos {..<?K}"
    using grow_pos_mod [OF inv _ nz] by (intro inj_on_inverseI [of _ "\<lambda>j. j mod ?K"]) auto
  then have inj: "inj_on ?pos (set [0..<?K])" by (simp add: atLeast_upt [symmetric] lessThan_atLeast0)
  have len: "length tmp = 2 ^ Suc k" by (simp add: tmp_def)
  have at: "tmp ! ?pos i = ?q i" if "i < ?K" for i
    unfolding tmp_def by (rule fold_update_at [OF inj]) (use that grow_pos_bound in auto)
  have other: "tmp ! j = 0" if "j \<notin> ?pos ` {..<?K}" "j < 2 ^ Suc k" for j
    unfolding tmp_def using that
    by (subst fold_update_other) (auto simp: lessThan_atLeast0)
  have used: "used_slots p' = ?pos ` {..<?K}"
  proof (rule set_eqI)
    fix j show "j \<in> used_slots p' \<longleftrightarrow> j \<in> ?pos ` {..<?K}"
      using at other [of j] nz len grow_pos_bound [of p k]
      by (cases "j \<in> ?pos ` {..<?K}") (auto simp: used_slots_def p'_def simp del: power_Suc)
  qed
  have size': "unat (rp_size p') = 2 ^ Suc k" using grow_size [OF inv k] by (simp add: p'_def)
  have "\<exists>r. rp_regions p' (rp_pool p' ! ?pos i) = Some r \<and> unat (r_id r) mod 2 ^ Suc k = ?pos i \<and>
      rp_pool p' ! ?pos i \<in> live (region_alloc p')" if "i < ?K" for i
    by (rule pool_inv_at_slot [OF inv that nz [OF that]])
      (use at [OF that] in \<open>simp add: p'_def grow_pos_def\<close>)
  moreover have "card (used_slots p') = ?K"
    unfolding used using inj by (simp add: card_image lessThan_atLeast0)
  ultimately have inv': "pool_inv_at (Suc k) p'"
    unfolding pool_inv_at_def used using size' d k len full by (auto simp: p'_def)
  have "pool_map p' rid = Some r \<longleftrightarrow> pool_map p rid = Some r" for rid r
  proof -
    define i where "i = unat rid mod ?K"
    have i: "i < ?K" "region_slot p rid = i" "region_slot p' rid mod ?K = i"
      "region_slot p' rid = unat rid mod 2 ^ Suc k" "region_slot p' rid < 2 ^ Suc k"
      using d(3) size' mod_power_of_two_mod [of k "Suc k" "unat rid"]
      by (simp_all add: i_def region_slot_eq del: power_Suc)
    obtain r' where r': "rp_regions p (?q i) = Some r'"
      using pool_inv_at_slot [OF inv i(1) nz [OF i(1)]] by metis
    show ?thesis
    proof (cases "region_slot p' rid \<in> ?pos ` {..<?K}")
      case True
      then have "tmp ! region_slot p' rid = ?q i"
        using at grow_pos_mod [OF inv _ nz] i(3) by auto
      then show ?thesis using i(2) nz [OF i(1)]
        by (simp add: pool_map_eq [OF inv] pool_map_eq [OF inv']) (simp add: p'_def)
    next
      case False
      moreover have "?pos i = region_slot p' rid" if "r_id r' = rid"
        using that r' i(4) by (simp add: grow_pos_def)
      ultimately have "r_id r' \<noteq> rid" using i(1) by (metis imageI lessThan_iff)
      then show ?thesis using other [OF False i(5)] r' i(2)
        by (simp add: pool_map_eq [OF inv] pool_map_eq [OF inv']) (auto simp: p'_def)
    qed
  qed
  then have "pool_map p' = pool_map p" by (metis ext not_Some_eq)
  moreover have "region_pool_grow env p = Inr (CLEANQ_ERR_OK, p')"
    using grow_copy_fold [OF inv k full, of "[0..<?K]" "replicate (2 ^ Suc k) 0"] env
      grow_size [OF inv k] d(3)
    by (simp add: region_pool_grow_def Let_def p'_def tmp_def lessThan_atLeast0)
  ultimately show thesis using that inv' by (simp add: p'_def)
qed

section \<open>Finding an empty slot\<close>

text \<open>What the search relies on: the array has \<open>2 ^ k\<close> slots, \<open>k\<close> at most 16.\<close>

lemma slot_index_eq:
  assumes "unat (rp_size p) = 2 ^ k" "k \<le> 16"
  shows "unat (slot_index p off) =
    (unat (region_offset p) + unat (num_regions p) + unat off) mod 2 ^ k"
proof -
  let ?x = "region_offset p + ucast (num_regions p) + ucast off"
  have "unat (slot_index p off) = unat (?x AND (ucast (rp_size p) - 1)) mod 2 ^ 16"
    by (simp add: slot_index_def unsigned_ucast_eq take_bit_nat_def)
  also have "\<dots> = unat ?x mod 2 ^ k mod 2 ^ 16"
    by (simp only: unat_and_size [OF assms(1)])
  also have "\<dots> = unat ?x mod 2 ^ 16 mod 2 ^ k"
    using assms(2) by (simp only: mod_power_of_two_small mod_power_of_two_mod)
  also have "\<dots> = unat ?x mod 2 ^ k" using assms(2) by (rule mod_power_of_two_mod)
  also have "unat ?x = (unat (region_offset p) + unat (num_regions p) + unat off) mod 2 ^ 64"
    by (simp add: unat_word_ariths unsigned_ucast_eq take_bit_nat_def mod_simps)
  also have "\<dots> mod 2 ^ k = (unat (region_offset p) + unat (num_regions p) + unat off) mod 2 ^ k"
    using assms(2) by (intro mod_power_of_two_mod) simp
  finally show ?thesis .
qed

lemma slot_index_add:
  assumes "unat (rp_size p) = 2 ^ k" "k \<le> 16"
  shows "unat (slot_index p (off + of_nat d)) =
    (unat (region_offset p) + unat (num_regions p) + unat off + d) mod 2 ^ k"
proof -
  have "unat (off + of_nat d) = (unat off + d) mod 2 ^ 16"
    by (simp add: unat_word_ariths unat_of_nat mod_simps)
  then show ?thesis
    using slot_index_eq [OF assms, of "off + of_nat d"] mod_power_of_two_mod [OF assms(2)]
    by (metis add.assoc mod_add_right_eq)
qed

text \<open>The search reaches every slot, so it returns as soon as one slot is empty.\<close>

lemma find_slot_within:
  assumes "unat (rp_size p) = 2 ^ k" "k \<le> 16" "length (rp_pool p) = 2 ^ k"
  shows "rp_pool p ! unat (slot_index p (off + of_nat d)) = 0 \<Longrightarrow>
    \<exists>off'. find_slot p off = Some (Inr off') \<and> rp_pool p ! unat (slot_index p off') = 0"
proof (induction d arbitrary: off)
  case 0
  then show ?case using assms
    by (subst find_slot.simps) (auto simp: slot_index_eq [OF assms(1,2)])
next
  case (Suc d)
  have in_range: "unat (slot_index p off) < length (rp_pool p)"
    using assms by (simp add: slot_index_eq)
  show ?case
  proof (cases "rp_pool p ! unat (slot_index p off) = 0")
    case True
    then show ?thesis using in_range by (subst find_slot.simps) auto
  next
    case False
    have "rp_pool p ! unat (slot_index p (off + 1 + of_nat d)) = 0"
      using Suc.prems by (simp add: add.assoc)
    from Suc.IH [OF this] False in_range show ?thesis by (subst find_slot.simps) auto
  qed
qed

lemma find_slot_empty:
  assumes "unat (rp_size p) = 2 ^ k" "k \<le> 16" "length (rp_pool p) = 2 ^ k"
    and "j < 2 ^ k" "rp_pool p ! j = 0"
  obtains off' where "find_slot p off = Some (Inr off')"
    "rp_pool p ! unat (slot_index p off') = 0"
proof -
  obtain d where "(unat (region_offset p) + unat (num_regions p) + unat off + d) mod 2 ^ k = j"
    using mod_reach [OF assms(4)] by metis
  then have "unat (slot_index p (off + of_nat d)) = j"
    using slot_index_add [OF assms(1,2)] by simp
  then show thesis using find_slot_within [OF assms(1-3), of off d] assms(5) that by metis
qed

section \<open>Inserting and deleting a descriptor\<close>

lemma pool_insert:
  assumes inv: "pool_inv_at k p" and slot: "rp_pool p ! region_slot p rid = 0"
    and rf: "refill_func sa = Default_Refill"
    and sa: "slab_wf sa" "q \<noteq> 0" "q \<notin> live (region_alloc p)" "live sa = insert q (live (region_alloc p))"
    and p': "rp_size p' = rp_size p" "rp_pool p' = (rp_pool p)[region_slot p rid := q]"
      "rp_regions p' = (rp_regions p)(q \<mapsto> r)" "region_alloc p' = sa"
      "num_regions p' = num_regions p + 1"
    and rid: "r_id r = rid"
  shows "pool_inv_at k p'" "pool_map p' = (pool_map p)(rid \<mapsto> r)" "pool_map p rid = None"
proof -
  let ?s = "region_slot p rid"
  note d = pool_inv_atD [OF inv] and s = region_slot_bound [OF inv, of rid]
  have fresh: "rp_pool p ! i \<noteq> q" if "i < 2 ^ k" for i
    using pool_inv_at_slot [OF inv that] sa by metis
  have used: "used_slots p' = insert ?s (used_slots p)" "?s \<notin> used_slots p"
    using s d(4) slot sa(2) by (auto simp: used_slots_def p' nth_list_update)
  have desc: "\<exists>r. rp_regions p' (rp_pool p' ! i) = Some r \<and> unat (r_id r) mod 2 ^ k = i \<and>
      rp_pool p' ! i \<in> live sa" if "i \<in> used_slots p'" for i
  proof (cases "i = ?s")
    case True
    then show ?thesis using s d(3,4) sa rid by (simp add: p' region_slot_eq)
  next
    case False
    then have i: "i < 2 ^ k" "rp_pool p ! i \<noteq> 0" using that used d(4) by (auto simp: used_slots_def)
    then show ?thesis using pool_inv_at_slot [OF inv i] False fresh [OF i(1)] sa
      by (metis p'(2,3) fun_upd_apply insertI2 nth_list_update_neq)
  qed
  have "card (used_slots p') \<le> 2 ^ k"
    using card_mono [OF _ used_slots_range, of p'] d(4) by (simp add: p')
  moreover have "(2::nat) ^ k \<le> 2 ^ 15" using d(2) by (intro power_increasing) auto
  ultimately have "unat (num_regions p) + unat (1 :: u16) < 2 ^ 16" using used d(6) by simp
  then have "unat (num_regions p') = card (used_slots p')"
    using used d(6) unat_add_lem [of "num_regions p" 1] by (simp add: p')
  then show inv': "pool_inv_at k p'"
    using d desc sa(1) rf by (intro pool_inv_atI) (simp_all add: p')
  have slot': "region_slot p' x = region_slot p x" for x by (simp add: region_slot_def p')
  have "pool_map p' x = Some y \<longleftrightarrow> ((pool_map p)(rid \<mapsto> r)) x = Some y" for x y
  proof (cases "region_slot p x = ?s")
    case True
    then show ?thesis using slot s d(4) sa(2) rid pool_map_eq [OF inv] pool_map_eq [OF inv', of x]
      by (auto simp: slot' p')
  next
    case False
    then show ?thesis using fresh [OF region_slot_bound [OF inv]] pool_map_eq [OF inv] pool_map_eq [OF inv', of x]
      by (auto simp: slot' p')
  qed
  then show "pool_map p' = (pool_map p)(rid \<mapsto> r)" by (metis ext not_Some_eq)
  show "pool_map p rid = None" using slot pool_map_eq [OF inv] by (metis not_Some_eq)
qed

lemma pool_delete:
  assumes inv: "pool_inv_at k p" and r: "pool_map p rid = Some r"
    and rf: "refill_func sa = Default_Refill"
    and sa: "slab_wf sa" "live sa = live (region_alloc p) - {rp_pool p ! region_slot p rid}"
    and p': "rp_size p' = rp_size p" "rp_pool p' = (rp_pool p)[region_slot p rid := 0]"
      "rp_regions p' = (rp_regions p)(rp_pool p ! region_slot p rid := None)" "region_alloc p' = sa"
      "num_regions p' = num_regions p - 1"
  shows "pool_inv_at k p'" "pool_map p' = (pool_map p)(rid := None)"
proof -
  let ?s = "region_slot p rid"
  let ?q = "rp_pool p ! ?s"
  note d = pool_inv_atD [OF inv] and s = region_slot_bound [OF inv, of rid]
  have q: "?q \<noteq> 0" "rp_regions p ?q = Some r" "r_id r = rid"
    using r pool_map_eq [OF inv] by auto
  have apart: "rp_pool p ! i \<noteq> ?q" if "i < 2 ^ k" "i \<noteq> ?s" for i
    using pool_map_slot [OF inv that(1)] that q by (metis option.sel)
  have used: "used_slots p' = used_slots p - {?s}" "?s \<in> used_slots p"
    using s d(4) q by (auto simp: used_slots_def p' nth_list_update)
  have desc: "\<exists>r. rp_regions p' (rp_pool p' ! i) = Some r \<and> unat (r_id r) mod 2 ^ k = i \<and>
      rp_pool p' ! i \<in> live sa" if "i \<in> used_slots p'" for i
  proof -
    have i: "i < 2 ^ k" "rp_pool p ! i \<noteq> 0" "i \<noteq> ?s"
      using that used d(4) by (auto simp: used_slots_def)
    then show ?thesis using pool_inv_at_slot [OF inv i(1,2)] apart [OF i(1,3)] sa
      by (metis p'(2,3) Diff_iff empty_iff fun_upd_apply insert_iff nth_list_update_neq)
  qed
  have "0 < unat (num_regions p)" using used d(6) card_gt_0_iff by fastforce
  then have "unat (num_regions p') = card (used_slots p')"
    using used d(6) unat_minus_one [of "num_regions p"] by (auto simp: p' simp flip: unat_gt_0)
  then show inv': "pool_inv_at k p'"
    using d desc sa(1) rf by (intro pool_inv_atI) (simp_all add: p')
  have slot': "region_slot p' x = region_slot p x" for x by (simp add: region_slot_def p')
  have "pool_map p' x = Some y \<longleftrightarrow> ((pool_map p)(rid := None)) x = Some y" for x y
  proof (cases "region_slot p x = ?s")
    case True
    then show ?thesis using s d(4) q pool_map_eq [OF inv, of x y] pool_map_eq [OF inv', of x y]
      by (auto simp: slot' p')
  next
    case False
    then show ?thesis using apart [OF region_slot_bound [OF inv]] pool_map_eq [OF inv, of x y] pool_map_eq [OF inv', of x y]
      by (auto simp: slot' p')
  qed
  then show "pool_map p' = (pool_map p)(rid := None)" by (metis ext not_Some_eq)
qed

section \<open>What the operations do\<close>

text \<open>The test of \<open>region_pool_add_region\<close> against one registered region.\<close>

definition conflicts :: "capref \<Rightarrow> region \<Rightarrow> bool" where
  "conflicts cap r \<longleftrightarrow> r_base_addr r = cap_paddr cap \<or>
     \<not> (cap_paddr cap + cap_len cap \<le> r_base_addr r \<or> r_base_addr r + r_len r \<le> cap_paddr cap)"

lemma add_check_eq:
  assumes inv: "pool_inv_at k p"
  shows "set is \<subseteq> {..<2 ^ k} \<Longrightarrow> add_check p cap is =
    Inr (if \<exists>i\<in>set is. \<exists>r. rp_pool p ! i \<noteq> 0 \<and> rp_regions p (rp_pool p ! i) = Some r \<and> conflicts cap r
         then CLEANQ_ERR_INVALID_REGION_ARGS else CLEANQ_ERR_OK)"
proof (induction "is")
  case (Cons i "is")
  show ?case
  proof (cases "rp_pool p ! i = 0")
    case True
    then show ?thesis using Cons pool_inv_atD(4) [OF inv] by simp
  next
    case False
    then obtain r where "rp_regions p (rp_pool p ! i) = Some r"
      using pool_inv_at_slot [OF inv] Cons.prems by (metis insert_subset lessThan_iff list.simps(15))
    then show ?thesis using Cons False pool_inv_atD(4) [OF inv]
      by (simp add: conflicts_def)
  qed
qed simp

text \<open>A property of some descriptor in the array is a property of some registered region.\<close>

lemma slot_ex_iff:
  assumes inv: "pool_inv_at k p"
  shows "(\<exists>i\<in>{..<2 ^ k}. \<exists>r. rp_pool p ! i \<noteq> 0 \<and> rp_regions p (rp_pool p ! i) = Some r \<and> P r) \<longleftrightarrow>
    (\<exists>r\<in>ran (pool_map p). P r)"
proof
  assume "\<exists>i\<in>{..<2 ^ k}. \<exists>r. rp_pool p ! i \<noteq> 0 \<and> rp_regions p (rp_pool p ! i) = Some r \<and> P r"
  then obtain i r where i: "i < 2 ^ k" "rp_pool p ! i \<noteq> 0" "rp_regions p (rp_pool p ! i) = Some r" "P r"
    by auto
  then show "\<exists>r\<in>ran (pool_map p). P r" using pool_map_slot [OF inv i(1,2)] by (metis option.sel ranI)
next
  assume "\<exists>r\<in>ran (pool_map p). P r"
  then obtain rid r where "pool_map p rid = Some r" "P r" by (auto simp: ran_def)
  then show "\<exists>i\<in>{..<2 ^ k}. \<exists>r. rp_pool p ! i \<noteq> 0 \<and> rp_regions p (rp_pool p ! i) = Some r \<and> P r"
    using pool_map_eq [OF inv] region_slot_bound [OF inv] by auto
qed

lemma add_check_spec:
  assumes inv: "pool_inv_at k p"
  shows "add_check p cap [0..<unat (rp_size p)] =
    Inr (if \<exists>r\<in>ran (pool_map p). conflicts cap r
         then CLEANQ_ERR_INVALID_REGION_ARGS else CLEANQ_ERR_OK)"
  using add_check_eq [OF inv, of "[0..<2 ^ k]" cap] slot_ex_iff [OF inv, of "conflicts cap"]
    pool_inv_atD(3) [OF inv] by (simp add: atLeast0LessThan)

text \<open>After \<open>grow_if_full\<close> there is room, unless the array cannot be had.\<close>

lemma grow_if_full_spec:
  assumes inv: "pool_inv_at k p" and room: "unat (num_regions p) < 32768"
  obtains "grow_if_full env p = Inr (CLEANQ_ERR_MALLOC_FAIL, p)" "\<not> calloc_ok env"
    "num_regions p = rp_size p"
  | k' p' where "grow_if_full env p = Inr (CLEANQ_ERR_OK, p')" "pool_inv_at k' p'"
    "pool_map p' = pool_map p" "region_alloc p' = region_alloc p" "num_regions p' < rp_size p'"
    "num_regions p' = num_regions p"
proof (cases "num_regions p < rp_size p")
  case True
  then show thesis using that(2) [of p k] inv by (simp add: grow_if_full_def)
next
  case False
  note z = pool_inv_at_size [OF inv] and d = pool_inv_atD [OF inv]
  have c: "card (used_slots p) = 2 ^ k" using False z by simp
  then have eq: "num_regions p = rp_size p" using d by (simp add: word_unat_eq_iff)
  show thesis
  proof (cases "calloc_ok env")
    case True
    have "(2::nat) ^ k < 2 ^ 15" using room c d(6) by simp
    then have k: "k < 15" by (rule power_less_imp_less_exp [rotated]) simp
    have full: "used_slots p = {..<2 ^ k}" using eq z by simp
    show thesis
    proof (rule region_pool_grow_spec [OF inv k full True])
      fix p' assume g: "region_pool_grow env p = Inr (CLEANQ_ERR_OK, p')" "pool_inv_at (Suc k) p'"
        "pool_map p' = pool_map p" "num_regions p' = num_regions p" "region_alloc p' = region_alloc p"
      have "card (used_slots p') = 2 ^ k" using pool_inv_atD(6) [OF g(2)] g(4) d(6) c by simp
      then have "num_regions p' < rp_size p'" by (simp add: pool_inv_at_size(1) [OF g(2)])
      then show thesis using that(2) g False by (simp add: grow_if_full_def)
    qed
  next
    case False': False
    then show thesis using that(1) eq False by (simp add: grow_if_full_def region_pool_grow_def Let_def)
  qed
qed

lemma empty_slot:
  assumes "pool_inv_at k p" "num_regions p < rp_size p"
  obtains j where "j < 2 ^ k" "rp_pool p ! j = 0"
proof -
  have "used_slots p \<noteq> {..<2 ^ k}" using assms pool_inv_at_size by auto
  then show thesis using that pool_inv_atD(4) [OF assms(1)] by (auto simp: used_slots_def)
qed

lemma new_id_slot:
  assumes "unat (rp_size p) = 2 ^ k" "k \<le> 16"
  shows "region_slot p (ucast (region_offset p + ucast (num_regions p) + ucast off)) =
    unat (slot_index p off)"
proof -
  let ?x = "region_offset p + ucast (num_regions p) + ucast off"
  have "region_slot p (ucast ?x) = unat (ucast ?x :: u32) mod 2 ^ k"
    using assms by (simp add: region_slot_eq)
  also have "\<dots> = unat ?x mod 2 ^ 32 mod 2 ^ k"
    by (simp add: unsigned_ucast_eq take_bit_nat_def)
  also have "\<dots> = unat ?x mod 2 ^ 16 mod 2 ^ k"
    using assms(2) by (simp only: mod_power_of_two_mod)
  also have "\<dots> = unat ?x mod 2 ^ k mod 2 ^ 16"
    using assms(2) by (simp only: mod_power_of_two_small mod_power_of_two_mod)
  also have "\<dots> = unat (?x AND (ucast (rp_size p) - 1)) mod 2 ^ 16"
    by (simp only: unat_and_size [OF assms(1)])
  also have "\<dots> = unat (slot_index p off)"
    by (simp add: slot_index_def unsigned_ucast_eq take_bit_nat_def)
  finally show ?thesis .
qed

text \<open>The slot and the identifier \<open>region_pool_add_region\<close> chooses when there is room.\<close>

lemma find_slot_id:
  assumes inv: "pool_inv_at k p" and room: "num_regions p < rp_size p"
  obtains off where "find_slot (p\<lparr>num_regions := n\<rparr>) off0 = Some (Inr off)"
    "rp_pool p ! region_slot p (ucast (region_offset p + ucast n + ucast off)) = 0"
proof -
  let ?p = "p\<lparr>num_regions := n\<rparr>"
  note d = pool_inv_atD [OF inv]
  obtain j where j: "j < 2 ^ k" "rp_pool p ! j = 0" using empty_slot [OF inv room] .
  have size: "unat (rp_size ?p) = 2 ^ k" "k \<le> 16" using d(2,3) by auto
  obtain off where off: "find_slot ?p off0 = Some (Inr off)" "rp_pool p ! unat (slot_index ?p off) = 0"
    using find_slot_empty [OF size, of j off0] d(4) j by auto
  moreover have "region_slot p x = region_slot ?p x" for x by (simp add: region_slot_def)
  ultimately show thesis using new_id_slot [OF size, of off] that by simp
qed

lemma region_pool_add_region_spec:
  assumes inv: "pool_inv_at k p" and room: "unat (num_regions p) < 32768"
    and m: "malloc_ok (region_alloc p) (malloc_ret env)"
  obtains "region_pool_add_region env p cap rid = Inr (CLEANQ_ERR_INVALID_REGION_ARGS, rid, p)"
      "\<exists>r\<in>ran (pool_map p). conflicts cap r"
  | "region_pool_add_region env p cap rid = Inr (CLEANQ_ERR_MALLOC_FAIL, rid, p)"
      "\<forall>r\<in>ran (pool_map p). \<not> conflicts cap r" "\<not> calloc_ok env" "num_regions p = rp_size p"
  | p' where "region_pool_add_region env p cap rid = Inr (CLEANQ_ERR_MALLOC_FAIL, rid, p')"
      "\<forall>r\<in>ran (pool_map p). \<not> conflicts cap r" "malloc_ret env = 0"
      "pool_map p' = pool_map p" "num_regions p' = num_regions p + 1"
      "card (used_slots p') = card (used_slots p)"
  | k' id p' where "region_pool_add_region env p cap rid = Inr (CLEANQ_ERR_OK, id, p')"
      "\<forall>r\<in>ran (pool_map p). \<not> conflicts cap r" "pool_inv_at k' p'"
      "pool_map p id = None" "pool_map p' = (pool_map p)(id \<mapsto> new_region id cap)"
      "num_regions p' = num_regions p + 1"
proof (cases "\<exists>r\<in>ran (pool_map p). conflicts cap r")
  case True
  then show thesis using that(1) add_check_spec [OF inv, of cap]
    by (simp add: region_pool_add_region_def err_is_fail_def)
next
  case False
  note chk = add_check_spec [OF inv, of cap]
  show thesis
  proof (rule grow_if_full_spec [OF inv room])
    assume "grow_if_full env p = Inr (CLEANQ_ERR_MALLOC_FAIL, p)" "\<not> calloc_ok env"
      "num_regions p = rp_size p"
    then show thesis using that(2) False chk
      by (simp add: region_pool_add_region_def err_is_fail_def)
  next
    fix k1 p1
    assume g: "grow_if_full env p = Inr (CLEANQ_ERR_OK, p1)" "pool_inv_at k1 p1"
      "pool_map p1 = pool_map p" "region_alloc p1 = region_alloc p" "num_regions p1 < rp_size p1"
      "num_regions p1 = num_regions p"
    note d = pool_inv_atD [OF g(2)]
    let ?p2 = "p1\<lparr>num_regions := num_regions p1 + 1\<rparr>"
    obtain off where off: "find_slot ?p2 (last_offset p1) = Some (Inr off)" and slot:
      "rp_pool p1 ! region_slot p1 (ucast (region_offset p1 + ucast (num_regions p1 + 1) + ucast off)) = 0"
      using find_slot_id [OF g(2,5)] by metis
    let ?id = "ucast (region_offset p1 + ucast (num_regions p1 + 1) + ucast off) :: u32"
    have wf: "slab_wf (region_alloc p1)" "malloc_ok (region_alloc p1) (malloc_ret env)"
      using d(5) m g(4) by auto
    from slab_alloc_spec [OF wf] obtain q sa where sa:
      "slab_alloc (region_alloc p1) (malloc_ret env) = Inr (q, sa)" "slab_wf sa"
      "q = 0 \<and> sa = region_alloc p1 \<and> (malloc_ret env = 0 \<or> refill_func (region_alloc p1) = No_Refill) \<or>
       q \<noteq> 0 \<and> q \<notin> live (region_alloc p1) \<and> live sa = insert q (live (region_alloc p1))"
      by blast
    have slots: "region_slot (p1\<lparr>num_regions := n, last_offset := x, region_alloc := y\<rparr>) i = region_slot p1 i"
      for n x y i by (simp add: region_slot_def)
    show thesis
    proof (cases "q = 0")
      case True
      let ?p3 = "p1\<lparr>num_regions := num_regions p1 + 1, last_offset := off, region_alloc := sa\<rparr>"
      have "region_pool_add_region env p cap rid = Inr (CLEANQ_ERR_MALLOC_FAIL, rid, ?p3)"
        using False chk g(1) off sa(1) True
        by (simp add: region_pool_add_region_def err_is_fail_def Let_def)
      moreover have "pool_map ?p3 = pool_map p1" by (simp add: pool_map_def fun_eq_iff region_slot_def Let_def)
      moreover have "card (used_slots ?p3) = card (used_slots p)"
        using d(6) pool_inv_atD(6) [OF inv] g(6) by (simp add: used_slots_def)
      ultimately show thesis using that(3) [of ?p3] False True sa(3) d(7) g by auto
    next
      case q: False
      let ?p4 = "p1\<lparr>num_regions := num_regions p1 + 1, last_offset := off, region_alloc := sa,
          rp_regions := (rp_regions p1)(q \<mapsto> new_region ?id cap),
          rp_pool := (rp_pool p1)[region_slot p1 ?id := q]\<rparr>"
      have "region_pool_add_region env p cap rid = Inr (CLEANQ_ERR_OK, ?id, ?p4)"
        using False chk g(1) off sa(1) q region_slot_bound [OF g(2)] d(4)
        by (simp add: region_pool_add_region_def err_is_fail_def Let_def slots)
      moreover have "refill_func sa = Default_Refill"
        using slab_alloc_refill_func [OF sa(1)] d(7) by simp
      note ins = pool_insert [OF g(2) slot this sa(2) q, where p' = ?p4 and r = "new_region ?id cap"]
      ultimately show thesis using that(4) [of ?id ?p4 k1] ins False sa(3) q g
        by (simp add: new_region_def)
    qed
  qed
qed

lemma region_pool_add_region_with_id_spec:
  assumes inv: "pool_inv_at k p" and room: "unat (num_regions p) < 32768"
    and m: "malloc_ok (region_alloc p) (malloc_ret env)"
  obtains "region_pool_add_region_with_id env p cap rid = Inr (CLEANQ_ERR_MALLOC_FAIL, p)"
      "\<not> calloc_ok env" "num_regions p = rp_size p"
  | k' p' err where "region_pool_add_region_with_id env p cap rid = Inr (err, p')"
      "err = CLEANQ_ERR_INVALID_REGION_ID \<and>
         (\<exists>r\<in>ran (pool_map p). region_slot p' (r_id r) = region_slot p' rid) \<or>
       err = CLEANQ_ERR_MALLOC_FAIL \<and> malloc_ret env = 0"
      "pool_inv_at k' p'" "pool_map p' = pool_map p"
  | k' p' where "region_pool_add_region_with_id env p cap rid = Inr (CLEANQ_ERR_OK, p')"
      "pool_inv_at k' p'" "pool_map p rid = None"
      "pool_map p' = (pool_map p)(rid \<mapsto> new_region rid cap)"
proof (rule grow_if_full_spec [OF inv room])
  assume "grow_if_full env p = Inr (CLEANQ_ERR_MALLOC_FAIL, p)" "\<not> calloc_ok env"
    "num_regions p = rp_size p"
  then show thesis using that(1) by (simp add: region_pool_add_region_with_id_def err_is_fail_def)
next
  fix k1 p1
  assume g: "grow_if_full env p = Inr (CLEANQ_ERR_OK, p1)" "pool_inv_at k1 p1"
    "pool_map p1 = pool_map p" "region_alloc p1 = region_alloc p"
  note d = pool_inv_atD [OF g(2)] and b = region_slot_bound [OF g(2), of rid]
  show thesis
  proof (cases "rp_pool p1 ! region_slot p1 rid = 0")
    case False
    then have "region_pool_add_region_with_id env p cap rid = Inr (CLEANQ_ERR_INVALID_REGION_ID, p1)"
      using g(1) b d(4) by (simp add: region_pool_add_region_with_id_def err_is_fail_def)
    moreover obtain r where "pool_map p1 (r_id r) = Some r" "region_slot p1 (r_id r) = region_slot p1 rid"
      using pool_map_slot [OF g(2) b False] by metis
    ultimately show thesis using that(2) [OF _ _ g(2,3)] g(3) by (metis ranI)
  next
    case True
    have wf: "slab_wf (region_alloc p1)" "malloc_ok (region_alloc p1) (malloc_ret env)"
      using d(5) m g(4) by auto
    from slab_alloc_spec [OF wf] obtain q sa where sa:
      "slab_alloc (region_alloc p1) (malloc_ret env) = Inr (q, sa)" "slab_wf sa"
      "q = 0 \<and> sa = region_alloc p1 \<and> (malloc_ret env = 0 \<or> refill_func (region_alloc p1) = No_Refill) \<or>
       q \<noteq> 0 \<and> q \<notin> live (region_alloc p1) \<and> live sa = insert q (live (region_alloc p1))"
      by blast
    have slots: "region_slot (p1\<lparr>region_alloc := y\<rparr>) i = region_slot p1 i" for y i
      by (simp add: region_slot_def)
    show thesis
    proof (cases "q = 0")
      case q0: True
      then have "region_pool_add_region_with_id env p cap rid = Inr (CLEANQ_ERR_MALLOC_FAIL, p1)"
        using True g(1) b d(4) sa by (simp add: region_pool_add_region_with_id_def err_is_fail_def)
      then show thesis using that(2) [OF _ _ g(2,3)] q0 sa(3) d(7) by auto
    next
      case q: False
      let ?p4 = "p1\<lparr>region_alloc := sa, rp_regions := (rp_regions p1)(q \<mapsto> new_region rid cap),
          rp_pool := (rp_pool p1)[region_slot p1 rid := q], num_regions := num_regions p1 + 1\<rparr>"
      have "region_pool_add_region_with_id env p cap rid = Inr (CLEANQ_ERR_OK, ?p4)"
        using True g(1) b d(4) sa(1) q
        by (simp add: region_pool_add_region_with_id_def err_is_fail_def Let_def slots)
      moreover have "refill_func sa = Default_Refill"
        using slab_alloc_refill_func [OF sa(1)] d(7) by simp
      note ins = pool_insert [OF g(2) True this sa(2) q, where p' = ?p4 and r = "new_region rid cap"]
      ultimately show thesis using that(3) [of ?p4 k1] ins sa(3) q g
        by (simp add: new_region_def)
    qed
  qed
qed

lemma region_pool_remove_region_spec:
  assumes inv: "pool_inv_at k p" and r: "pool_map p rid = Some r"
  obtains p' where "region_pool_remove_region p rid cap = Inr (CLEANQ_ERR_OK, r_cap r, p')"
    "pool_inv_at k p'" "pool_map p' = (pool_map p)(rid := None)"
    "used_slots p' = used_slots p - {region_slot p rid}" "rp_size p' = rp_size p"
proof -
  let ?q = "rp_pool p ! region_slot p rid"
  note d = pool_inv_atD [OF inv] and b = region_slot_bound [OF inv, of rid]
  have q: "?q \<noteq> 0" "rp_regions p ?q = Some r"
    using r pool_map_eq [OF inv] by auto
  have live: "?q \<in> live (region_alloc p)" using pool_inv_at_slot [OF inv b q(1)] by metis
  obtain sa where sa: "slab_free (region_alloc p) ?q = Inr sa" "slab_wf sa"
    "live sa = live (region_alloc p) - {?q}"
    using slab.deallocE [OF d(5) live] by metis
  let ?p' = "p\<lparr>region_alloc := sa, rp_regions := (rp_regions p)(?q := None),
      rp_pool := (rp_pool p)[region_slot p rid := 0], num_regions := num_regions p - 1\<rparr>"
  have eq: "region_pool_remove_region p rid cap = Inr (CLEANQ_ERR_OK, r_cap r, ?p')"
    using q b d(4) sa(1) by (simp add: region_pool_remove_region_def)
  have "refill_func sa = Default_Refill" using slab_free_refill_func [OF sa(1)] d(7) by simp
  note del = pool_delete [OF inv r this sa(2,3), where p' = ?p']
  have "used_slots ?p' = used_slots p - {region_slot p rid}"
    using b d(4) by (auto simp: used_slots_def nth_list_update)
  then show thesis using that eq del by simp
qed

text \<open>The lookups use the slot only: an identifier nobody was given stands for the region that has
  its slot.\<close>

lemma region_slot_alias:
  assumes "region_slot p rid = region_slot p rid'"
  shows "region_pool_remove_region p rid cap = region_pool_remove_region p rid' cap"
    "base_addr_of_region p rid = base_addr_of_region p rid'"
    "region_pool_buffer_check_bounds p (b\<lparr>b_rid := rid\<rparr>) =
     region_pool_buffer_check_bounds p (b\<lparr>b_rid := rid'\<rparr>)"
  using assms
  by (simp_all add: region_pool_remove_region_def base_addr_of_region_def
      region_pool_buffer_check_bounds_def cong: if_cong)

lemma region_pool_remove_region_none:
  assumes inv: "pool_inv_at k p" and "rp_pool p ! region_slot p rid = 0"
  shows "region_pool_remove_region p rid cap = Inr (CLEANQ_ERR_INVALID_REGION_ID, cap, p)"
  using assms region_slot_bound [OF inv, of rid] pool_inv_atD(4) [OF inv]
  by (simp add: region_pool_remove_region_def)

lemma destroy_loop_spec:
  "pool_inv_at k p \<Longrightarrow> set is \<subseteq> {..<2 ^ k} \<Longrightarrow>
     \<exists>p'. destroy_loop p cap is = Inr (CLEANQ_ERR_OK, p') \<and> pool_inv_at k p' \<and>
          used_slots p' = used_slots p - set is"
proof (induction "is" arbitrary: p cap)
  case (Cons i "is")
  note inv = Cons.prems(1) and d = pool_inv_atD [OF Cons.prems(1)]
  have i: "i < 2 ^ k" using Cons.prems(2) by simp
  show ?case
  proof (cases "rp_pool p ! i = 0")
    case True
    then have "i \<notin> used_slots p" by (simp add: used_slots_def)
    then show ?thesis using Cons.IH [OF inv, of cap] Cons.prems(2) True i d(4) by auto
  next
    case False
    obtain r where r: "rp_regions p (rp_pool p ! i) = Some r" "pool_map p (r_id r) = Some r"
      "region_slot p (r_id r) = i"
      using pool_map_slot [OF inv i False] by metis
    obtain p1 where p1: "region_pool_remove_region p (r_id r) cap = Inr (CLEANQ_ERR_OK, r_cap r, p1)"
      "pool_inv_at k p1" "used_slots p1 = used_slots p - {i}"
      using region_pool_remove_region_spec [OF inv r(2), of cap] r(3) by metis
    obtain p' where "destroy_loop p1 (r_cap r) is = Inr (CLEANQ_ERR_OK, p')" "pool_inv_at k p'"
      "used_slots p' = used_slots p1 - set is"
      using Cons.IH [OF p1(2), of "r_cap r"] Cons.prems(2) by auto
    then show ?thesis using False r p1 i d(4) by (auto simp: err_is_fail_def)
  qed
qed auto

lemma region_pool_destroy_spec:
  assumes "pool_inv_at k p"
  shows "region_pool_destroy p cap = Inr (CLEANQ_ERR_OK, None)"
  using destroy_loop_spec [OF assms set_upt_below, of cap] pool_inv_atD(3) [OF assms]
  by (auto simp: region_pool_destroy_def err_is_fail_def)

section \<open>Lookups\<close>

lemma check_bounds_known:
  assumes inv: "pool_inv_at k p" and r: "pool_map p (b_rid b) = Some r"
  shows "region_pool_buffer_check_bounds p b =
    Inr (b_length b + b_offset b \<le> r_len r \<and> b_valid_data b + b_valid_length b \<le> b_length b)"
  using r region_slot_bound [OF inv, of "b_rid b"] pool_inv_atD(4) [OF inv]
  by (auto simp: region_pool_buffer_check_bounds_def pool_map_eq [OF inv] not_le)

lemma check_bounds_returns:
  assumes inv: "pool_inv_at k p"
  shows "\<exists>ok. region_pool_buffer_check_bounds p b = Inr ok"
proof (cases "rp_pool p ! region_slot p (b_rid b) = 0")
  case True
  then show ?thesis using region_slot_bound [OF inv, of "b_rid b"] pool_inv_atD(4) [OF inv]
    by (intro exI [of _ False]) (simp add: region_pool_buffer_check_bounds_def)
next
  case False
  then obtain r where "rp_regions p (rp_pool p ! region_slot p (b_rid b)) = Some r"
    using pool_inv_at_slot [OF inv region_slot_bound [OF inv]] by metis
  then show ?thesis using False region_slot_bound [OF inv, of "b_rid b"] pool_inv_atD(4) [OF inv]
    by (auto simp: region_pool_buffer_check_bounds_def)
qed

lemma unat_add_le_iff:
  fixes a b c :: "'a::len word"
  assumes "unat a + unat b < 2 ^ LENGTH('a)"
  shows "a + b \<le> c \<longleftrightarrow> unat a + unat b \<le> unat c"
  using assms by (simp add: word_le_nat_alt unat_add_lem [THEN iffD1])

lemma check_bounds_in_region:
  assumes inv: "pool_inv_at k p" and r: "pool_map p (b_rid b) = Some r" and nw: "buf_no_wrap b"
  shows "region_pool_buffer_check_bounds p b = Inr (buf_in_region b (r_len r))"
proof -
  have "unat (b_length b) + unat (b_offset b) < 2 ^ LENGTH(64)"
    "unat (b_valid_data b) + unat (b_valid_length b) < 2 ^ LENGTH(64)"
    using nw by (simp_all add: buf_no_wrap_def)
  note this [THEN unat_add_le_iff]
  then show ?thesis unfolding check_bounds_known [OF inv r] buf_in_region_def
    by (simp only: add.commute [of "unat (b_length b)"])
qed

lemma base_addr_known:
  assumes inv: "pool_inv_at k p" and r: "pool_map p rid = Some r"
  shows "base_addr_of_region p rid = Inr (r_base_addr r)"
  using r region_slot_bound [OF inv, of rid] pool_inv_atD(4) [OF inv]
  by (auto simp: base_addr_of_region_def pool_map_eq [OF inv])

lemma with_base_loop_spec:
  assumes inv: "pool_inv_at k p"
  shows "set is \<subseteq> {..<2 ^ k} \<Longrightarrow>
    (\<exists>i\<in>set is. \<exists>r. rp_pool p ! i \<noteq> 0 \<and> rp_regions p (rp_pool p ! i) = Some r \<and>
       r_base_addr r = base \<and> with_base_loop p base is = Inr (r_id r)) \<or>
    (\<forall>i\<in>set is. \<forall>r. rp_pool p ! i \<noteq> 0 \<and> rp_regions p (rp_pool p ! i) = Some r \<longrightarrow> r_base_addr r \<noteq> base) \<and>
    with_base_loop p base is = Inr 0"
proof (induction "is")
  case (Cons i "is")
  have i: "i < 2 ^ k" "i < length (rp_pool p)" using Cons.prems pool_inv_atD(4) [OF inv] by auto
  show ?case
  proof (cases "rp_pool p ! i = 0")
    case True
    then show ?thesis using Cons i by simp
  next
    case False
    then obtain r where r: "rp_regions p (rp_pool p ! i) = Some r"
      using pool_inv_at_slot [OF inv i(1)] by metis
    show ?thesis
    proof (cases "r_base_addr r = base")
      case True
      then show ?thesis using False r i by simp
    next
      case neq: False
      then have "with_base_loop p base (i # is) = with_base_loop p base is"
        using False r i by simp
      then show ?thesis using Cons False r neq by simp
    qed
  qed
qed simp

text \<open>\<open>region_with_base_addr\<close> finds a region that starts there, or there is none and the
  result is 0.\<close>

lemma region_with_base_addr_spec:
  assumes inv: "pool_inv_at k p"
  shows "(\<exists>r. pool_map p (r_id r) = Some r \<and> r_base_addr r = base \<and>
            region_with_base_addr p base = Inr (r_id r)) \<or>
         (\<forall>r\<in>ran (pool_map p). r_base_addr r \<noteq> base) \<and> region_with_base_addr p base = Inr 0"
proof -
  have eq: "region_with_base_addr p base = with_base_loop p base [0..<2 ^ k]"
    using pool_inv_atD(3) [OF inv] by (simp add: region_with_base_addr_def)
  show ?thesis using with_base_loop_spec [OF inv set_upt_below, of base]
  proof (elim disjE bexE exE conjE)
    fix i r
    assume "i \<in> set [0..<2 ^ k]" "rp_pool p ! i \<noteq> 0" "rp_regions p (rp_pool p ! i) = Some r"
      "r_base_addr r = base" "with_base_loop p base [0..<2 ^ k] = Inr (r_id r)"
    then show ?thesis using eq pool_map_slot [OF inv, of i] by (auto intro!: disjI1 exI [of _ r])
  next
    assume "\<forall>i\<in>set [0..<2 ^ k]. \<forall>r. rp_pool p ! i \<noteq> 0 \<and> rp_regions p (rp_pool p ! i) = Some r \<longrightarrow>
        r_base_addr r \<noteq> base" and z: "with_base_loop p base [0..<2 ^ k] = Inr 0"
    then have "\<not> (\<exists>r\<in>ran (pool_map p). r_base_addr r = base)"
      by (subst slot_ex_iff [OF inv, symmetric]) auto
    then show ?thesis using eq z by auto
  qed
qed

section \<open>Registered memory does not overlap\<close>

definition mem_range :: "region \<Rightarrow> nat set" where
  "mem_range r = {unat (r_base_addr r) ..< unat (r_base_addr r) + unat (r_len r)}"

definition region_no_wrap :: "region \<Rightarrow> bool" where
  "region_no_wrap r \<longleftrightarrow> unat (r_base_addr r) + unat (r_len r) < 2 ^ 64"

definition regions_apart :: "region_pool \<Rightarrow> bool" where
  "regions_apart p \<longleftrightarrow>
     (\<forall>r\<in>ran (pool_map p). region_no_wrap r) \<and>
     (\<forall>a b r s. pool_map p a = Some r \<longrightarrow> pool_map p b = Some s \<longrightarrow> a \<noteq> b \<longrightarrow>
        mem_range r \<inter> mem_range s = {} \<and> r_base_addr r \<noteq> r_base_addr s)"

lemma not_conflicts_disjoint:
  assumes "\<not> conflicts cap r" "region_no_wrap r" "cap_no_wrap cap"
  shows "mem_range (new_region rid cap) \<inter> mem_range r = {} \<and>
    r_base_addr (new_region rid cap) \<noteq> r_base_addr r"
proof -
  have nw: "unat (cap_paddr cap) + unat (cap_len cap) < 2 ^ LENGTH(64)"
    "unat (r_base_addr r) + unat (r_len r) < 2 ^ LENGTH(64)"
    using assms by (simp_all add: cap_no_wrap_def region_no_wrap_def)
  have "cap_paddr cap + cap_len cap \<le> r_base_addr r \<or> r_base_addr r + r_len r \<le> cap_paddr cap"
    using assms(1) by (simp add: conflicts_def)
  then have "mem_range (new_region rid cap) \<inter> mem_range r = {}"
    unfolding unat_add_le_iff [OF nw(1)] unat_add_le_iff [OF nw(2)]
    by (auto simp: mem_range_def new_region_def)
  then show ?thesis using assms(1) by (auto simp: conflicts_def new_region_def)
qed

lemma regions_apart_insert:
  assumes apart: "regions_apart p" and ok: "\<forall>r\<in>ran (pool_map p). \<not> conflicts cap r" "cap_no_wrap cap"
    and p': "pool_map p' = (pool_map p)(rid \<mapsto> new_region rid cap)" and new: "pool_map p rid = None"
  shows "regions_apart p'"
proof -
  have dj: "mem_range (new_region rid cap) \<inter> mem_range r = {} \<and>
      r_base_addr (new_region rid cap) \<noteq> r_base_addr r" if "pool_map p a = Some r" for a r
    using not_conflicts_disjoint [OF _ _ ok(2), of r rid] ok(1) apart ranI [of "pool_map p", OF that]
    by (simp add: regions_apart_def)
  have "region_no_wrap r" if "r \<in> ran (pool_map p')" for r
    using that apart ok(2) new
    by (auto simp: p' regions_apart_def region_no_wrap_def cap_no_wrap_def new_region_def)
  moreover have "mem_range r \<inter> mem_range s = {} \<and> r_base_addr r \<noteq> r_base_addr s"
    if "pool_map p' a = Some r" "pool_map p' b = Some s" "a \<noteq> b" for a b r s
    using that dj [of a r] dj [of b s] apart
    by (auto simp: p' regions_apart_def split: if_splits)
  ultimately show ?thesis unfolding regions_apart_def by blast
qed

section \<open>Properties\<close>

lemma unat_32768: "unat (n :: u16) < 32768 \<longleftrightarrow> n < 32768"
  by (simp add: word_less_nat_alt)

text \<open>Property C4: adding a region refines an insertion into a finite map, for a pool that satisfies the invariant and
  has fewer than 32768 regions, and with an allocator that gives memory nobody else uses or none. The call returns.
  It refuses memory that conflicts with a registered region and changes nothing then; when it
  succeeds, and it does when memory can be had, the new identifier was unused, the map gains exactly that region and the
  invariant is kept; when memory runs out the map is unchanged and the caller's identifier is not written, and either
  the pool is as before (it could not grow) or it counts one region more than it has (there was no
  memory for the region), which breaks the invariant.\<close>

theorem region_pool_add_region_refines:
  assumes "pool_inv p" "num_regions p < 32768" "malloc_ok (region_alloc p) (malloc_ret env)"
  shows "\<exists>err id p'. region_pool_add_region env p cap rid = Inr (err, id, p') \<and>
    (if \<exists>r\<in>ran (pool_map p). conflicts cap r
     then err = CLEANQ_ERR_INVALID_REGION_ARGS \<and> p' = p \<and> id = rid
     else if calloc_ok env \<and> malloc_ret env \<noteq> 0 \<or> err = CLEANQ_ERR_OK
     then err = CLEANQ_ERR_OK \<and> pool_inv p' \<and> pool_map p id = None \<and>
          pool_map p' = (pool_map p)(id \<mapsto> new_region id cap) \<and> num_regions p' = num_regions p + 1
     else err = CLEANQ_ERR_MALLOC_FAIL \<and> pool_map p' = pool_map p \<and> id = rid \<and>
          (p' = p \<and> \<not> calloc_ok env \<and> num_regions p = rp_size p \<or>
           malloc_ret env = 0 \<and> num_regions p' = num_regions p + 1))"
proof -
  obtain k where inv: "pool_inv_at k p" using assms(1) by (auto simp: pool_inv_def)
  have room: "unat (num_regions p) < 32768" using assms(2) by (simp add: unat_32768)
  show ?thesis
    by (rule region_pool_add_region_spec [OF inv room assms(3), of cap rid])
      (auto simp: pool_inv_def)
qed

text \<open>A new pool.\<close>

definition demo_pool :: region_pool where
  "demo_pool = the (snd (region_pool_init True True 20480))"

definition demo_env :: libc where
  "demo_env = \<lparr>calloc_ok = True, malloc_ret = 4096\<rparr>"

definition demo_cap :: capref where
  "demo_cap = \<lparr>cap_vaddr = 0x10000, cap_paddr = 0x10000, cap_len = 0x4000\<rparr>"

lemma demo_pool_ok:
  "pool_inv_at 4 demo_pool" "pool_map demo_pool = Map.empty" "num_regions demo_pool = 0"
  using region_pool_init_inv [of True True 20480 CLEANQ_ERR_OK demo_pool]
  by (simp_all add: demo_pool_def region_pool_init_def)

lemma demo_pool_inv: "pool_inv demo_pool"
  using demo_pool_ok(1) by (auto simp: pool_inv_def)

lemma demo_pool_malloc: "malloc_ok (region_alloc demo_pool) x"
  by (auto simp: demo_pool_def region_pool_init_def slab_init_def malloc_ok_def fresh_memory_def)

theorem region_pool_add_region_refines_witness:
  "pool_inv demo_pool \<and> malloc_ok (region_alloc demo_pool) (malloc_ret demo_env) \<and>
   (\<exists>id p'. region_pool_add_region demo_env demo_pool demo_cap 0 = Inr (CLEANQ_ERR_OK, id, p') \<and>
      pool_map p' = [id \<mapsto> new_region id demo_cap])"
  using region_pool_add_region_refines [OF demo_pool_inv _ demo_pool_malloc, of demo_env demo_cap 0]
    demo_pool_inv demo_pool_malloc demo_pool_ok
  by (auto simp: demo_env_def)

text \<open>One region in the pool, under a chosen identifier or under one the pool chooses.\<close>

lemma demo_pool_add_with_id:
  obtains p where "region_pool_add_region_with_id demo_env demo_pool demo_cap 0x8000 = Inr (CLEANQ_ERR_OK, p)"
    "pool_inv p" "pool_map p = [0x8000 \<mapsto> new_region 0x8000 demo_cap]"
  by (rule region_pool_add_region_with_id_spec [OF demo_pool_ok(1), of demo_env demo_cap "0x8000"])
    (auto simp: demo_pool_ok demo_pool_malloc demo_env_def pool_inv_def)

lemma demo_pool_add:
  obtains id p' where "region_pool_add_region demo_env demo_pool demo_cap 0 = Inr (CLEANQ_ERR_OK, id, p')"
    "pool_inv p'" "pool_map p' = [id \<mapsto> new_region id demo_cap]"
  by (rule region_pool_add_region_spec [OF demo_pool_ok(1), of demo_env demo_cap 0])
    (auto simp: demo_pool_ok demo_pool_malloc demo_env_def pool_inv_def)

text \<open>Property C38: round trip. A region that was added can be removed under the identifier the pool
  gave it: the removal returns its capability and restores the map.\<close>

theorem region_pool_add_remove_roundtrip:
  assumes "pool_inv p" "num_regions p < 32768" "malloc_ok (region_alloc p) (malloc_ret env)"
    and "region_pool_add_region env p cap rid = Inr (CLEANQ_ERR_OK, nid, p')"
  shows "\<exists>p''. region_pool_remove_region p' nid c = Inr (CLEANQ_ERR_OK, cap, p'') \<and>
    pool_inv p'' \<and> pool_map p'' = pool_map p"
proof -
  obtain k where inv: "pool_inv_at k p" using assms(1) by (auto simp: pool_inv_def)
  have room: "unat (num_regions p) < 32768" using assms(2) by (simp add: unat_32768)
  obtain k' where k': "pool_inv_at k' p'" "pool_map p nid = None"
    "pool_map p' = (pool_map p)(nid \<mapsto> new_region nid cap)"
    by (rule region_pool_add_region_spec [OF inv room assms(3), of cap rid]) (use assms(4) in auto)
  then have "pool_map p' nid = Some (new_region nid cap)" by simp
  from region_pool_remove_region_spec [OF k'(1) this, of c] obtain p'' where
    "region_pool_remove_region p' nid c = Inr (CLEANQ_ERR_OK, cap, p'')" "pool_inv_at k' p''"
    "pool_map p'' = (pool_map p')(nid := None)"
    by (metis new_region_def region.select_convs(3))
  moreover have "(pool_map p')(nid := None) = pool_map p" using k' by (auto simp: fun_eq_iff)
  ultimately show ?thesis by (auto simp: pool_inv_def)
qed

theorem region_pool_add_remove_roundtrip_witness:
  "\<exists>id p' p''. region_pool_add_region demo_env demo_pool demo_cap 0 = Inr (CLEANQ_ERR_OK, id, p') \<and>
     region_pool_remove_region p' id demo_cap = Inr (CLEANQ_ERR_OK, demo_cap, p'') \<and>
     pool_map p'' = Map.empty"
proof -
  obtain id p' where a: "region_pool_add_region demo_env demo_pool demo_cap 0 = Inr (CLEANQ_ERR_OK, id, p')"
    by (rule demo_pool_add)
  then show ?thesis
    using region_pool_add_remove_roundtrip [OF demo_pool_inv _ demo_pool_malloc a] demo_pool_ok by auto
qed

text \<open>Registered regions never overlap. A successful \<open>region_pool_add_region\<close> keeps the
  registered memory ranges pairwise disjoint, provided the new range does not wrap around the
  64-bit address space.\<close>

theorem region_pool_add_region_apart:
  assumes "pool_inv p" "num_regions p < 32768" "malloc_ok (region_alloc p) (malloc_ret env)"
    and "regions_apart p" "cap_no_wrap cap"
    and "region_pool_add_region env p cap rid = Inr (CLEANQ_ERR_OK, nid, p')"
  shows "regions_apart p'"
proof -
  obtain k where inv: "pool_inv_at k p" using assms(1) by (auto simp: pool_inv_def)
  have room: "unat (num_regions p) < 32768" using assms(2) by (simp add: unat_32768)
  show ?thesis
    by (rule region_pool_add_region_spec [OF inv room assms(3), of cap rid])
      (use assms(4-6) regions_apart_insert in auto)
qed

theorem region_pool_add_region_apart_witness:
  "regions_apart demo_pool \<and>
   (\<exists>id p'. region_pool_add_region demo_env demo_pool demo_cap 0 = Inr (CLEANQ_ERR_OK, id, p') \<and>
      pool_map p' id \<noteq> None \<and> regions_apart p')"
proof -
  obtain id p' where a: "region_pool_add_region demo_env demo_pool demo_cap 0 = Inr (CLEANQ_ERR_OK, id, p')"
    "pool_map p' = [id \<mapsto> new_region id demo_cap]"
    by (rule demo_pool_add)
  have e: "regions_apart demo_pool" by (simp add: regions_apart_def demo_pool_ok)
  have "cap_no_wrap demo_cap" by (simp add: cap_no_wrap_def demo_cap_def)
  then have "regions_apart p'"
    using region_pool_add_region_apart [OF demo_pool_inv _ demo_pool_malloc e _ a(1)] demo_pool_ok by simp
  then show ?thesis using a e by auto
qed

text \<open>Property C1: the bounds check decides containment. For a registered region and a buffer none
  of whose ends wraps around 64 bits, the check says exactly whether the buffer lies in the region
  and the valid data lie in the buffer.\<close>

theorem check_bounds_decides_containment:
  assumes "pool_inv p" "pool_map p (b_rid b) = Some r" "buf_no_wrap b"
  shows "region_pool_buffer_check_bounds p b = Inr (buf_in_region b (r_len r))"
  using assms check_bounds_in_region by (auto simp: pool_inv_def)

definition demo_buf :: "regionid \<Rightarrow> cleanq_buf" where
  "demo_buf rid = \<lparr>b_offset = 2048, b_length = 2048, b_valid_data = 128, b_valid_length = 64,
                   b_flags = 0, b_rid = rid\<rparr>"

theorem check_bounds_decides_containment_witness:
  "\<exists>id p'. region_pool_add_region demo_env demo_pool demo_cap 0 = Inr (CLEANQ_ERR_OK, id, p') \<and>
     region_pool_buffer_check_bounds p' (demo_buf id) = Inr True"
proof -
  obtain id p' where a: "region_pool_add_region demo_env demo_pool demo_cap 0 = Inr (CLEANQ_ERR_OK, id, p')"
    "pool_inv p'" "pool_map p' = [id \<mapsto> new_region id demo_cap]"
    by (rule demo_pool_add)
  then have "pool_map p' (b_rid (demo_buf id)) = Some (new_region id demo_cap)"
    by (simp add: demo_buf_def)
  moreover have "buf_no_wrap (demo_buf id)" by (simp add: buf_no_wrap_def demo_buf_def)
  ultimately show ?thesis
    using check_bounds_decides_containment [OF a(2)] a(1)
    by (auto simp: buf_in_region_def demo_buf_def new_region_def demo_cap_def)
qed

text \<open>Without that restriction the check accepts buffers outside the region. Every
  non-empty length with the offset that makes the sum wrap to 0 passes, whatever the size of the
  region.\<close>

theorem check_bounds_accepts_wrapping_buffer:
  assumes "pool_inv p" "pool_map p rid = Some r" "len \<noteq> 0"
  shows "region_pool_buffer_check_bounds p
      \<lparr>b_offset = - len, b_length = len, b_valid_data = 0, b_valid_length = 0, b_flags = fl, b_rid = rid\<rparr>
      = Inr True \<and>
    \<not> buf_in_region
      \<lparr>b_offset = - len, b_length = len, b_valid_data = 0, b_valid_length = 0, b_flags = fl, b_rid = rid\<rparr>
      (r_len r)"
proof -
  obtain k where inv: "pool_inv_at k p" using assms(1) by (auto simp: pool_inv_def)
  have "(unat (- len) + unat len) mod 2 ^ 64 = 0"
    using unat_word_ariths(1) [of "- len" len] by simp
  then have "2 ^ 64 \<le> unat (- len) + unat len"
    using assms(3) by (intro dvd_imp_le) (auto simp: unat_gt_0 mod_eq_0_iff_dvd)
  moreover have "unat (r_len r) < 2 ^ 64" using unsigned_less [of "r_len r", where 'a = nat] by simp
  ultimately show ?thesis using check_bounds_known [OF inv] assms(2)
    by (simp add: buf_in_region_def)
qed

theorem check_bounds_accepts_wrapping_buffer_witness:
  "\<exists>id p'. region_pool_add_region demo_env demo_pool demo_cap 0 = Inr (CLEANQ_ERR_OK, id, p') \<and>
     region_pool_buffer_check_bounds p'
       \<lparr>b_offset = - 4096, b_length = 4096, b_valid_data = 0, b_valid_length = 0, b_flags = 0, b_rid = id\<rparr>
       = Inr True"
proof -
  obtain id p' where a: "region_pool_add_region demo_env demo_pool demo_cap 0 = Inr (CLEANQ_ERR_OK, id, p')"
    "pool_inv p'" "pool_map p' = [id \<mapsto> new_region id demo_cap]"
    by (rule demo_pool_add)
  then show ?thesis using check_bounds_accepts_wrapping_buffer [OF a(2), of id _ 4096 0] by auto
qed

text \<open>Identifiers are not compared. An identifier that was never given out but has the
  slot of a registered region removes that region.\<close>

theorem remove_region_by_unknown_id:
  assumes "pool_inv p" "pool_map p rid = Some r" "rid' \<noteq> rid" "region_slot p rid' = region_slot p rid"
  shows "pool_map p rid' = None \<and>
    (\<exists>p'. region_pool_remove_region p rid' c = Inr (CLEANQ_ERR_OK, r_cap r, p') \<and>
          pool_map p' = (pool_map p)(rid := None))"
proof -
  obtain k where inv: "pool_inv_at k p" using assms(1) by (auto simp: pool_inv_def)
  have "r_id r = rid" "rp_regions p (rp_pool p ! region_slot p rid) = Some r"
    using assms(2) pool_map_eq [OF inv] by auto
  then have "pool_map p rid' = None"
    using assms(3,4) by (simp add: pool_map_def Let_def)
  moreover have "region_pool_remove_region p rid' c = region_pool_remove_region p rid c"
    using assms(4) by (rule region_slot_alias)
  ultimately show ?thesis using region_pool_remove_region_spec [OF inv assms(2), of c] by metis
qed

lemma region_slot_add: "pool_inv_at k p \<Longrightarrow> region_slot p (rid + 0x10000) = region_slot p rid"
proof -
  assume inv: "pool_inv_at k p"
  have k: "k \<le> 32" "k \<le> 16" using pool_inv_atD(2) [OF inv] by auto
  have "unat (rid + 0x10000) = (unat rid + 2 ^ 16) mod 2 ^ 32" by (simp add: unat_word_ariths)
  then have "unat (rid + 0x10000) mod 2 ^ k = (unat rid + 2 ^ 16) mod 2 ^ k"
    using k(1) by (simp only: mod_power_of_two_mod)
  also have "\<dots> = unat rid mod 2 ^ k"
    using le_imp_power_dvd [OF k(2), of "2 :: nat"] by (metis mod_add_right_eq dvd_imp_mod_0 add_0_right)
  finally show ?thesis by (simp only: region_slot_eq [OF pool_inv_atD(3) [OF inv]])
qed

theorem remove_region_by_unknown_id_witness:
  "\<exists>id p' p''. region_pool_add_region demo_env demo_pool demo_cap 0 = Inr (CLEANQ_ERR_OK, id, p') \<and>
     pool_map p' (id + 0x10000) = None \<and>
     region_pool_remove_region p' (id + 0x10000) demo_cap = Inr (CLEANQ_ERR_OK, demo_cap, p'') \<and>
     pool_map p'' = Map.empty"
proof -
  obtain id p' where a: "region_pool_add_region demo_env demo_pool demo_cap 0 = Inr (CLEANQ_ERR_OK, id, p')"
    "pool_inv p'" "pool_map p' = [id \<mapsto> new_region id demo_cap]"
    by (rule demo_pool_add)
  then obtain k where k: "pool_inv_at k p'" by (auto simp: pool_inv_def)
  have "pool_map p' id = Some (new_region id demo_cap)" using a(3) by simp
  from remove_region_by_unknown_id [OF a(2) this, of "id + 0x10000" demo_cap]
  show ?thesis using a region_slot_add [OF k] by (simp add: new_region_def)
qed

text \<open>Destroying a pool frees every descriptor and the pool; it cannot fail.\<close>

theorem region_pool_destroy_succeeds:
  assumes "pool_inv p"
  shows "region_pool_destroy p cap = Inr (CLEANQ_ERR_OK, None)"
  using assms region_pool_destroy_spec by (auto simp: pool_inv_def)

theorem region_pool_destroy_succeeds_witness:
  "\<exists>id p'. region_pool_add_region demo_env demo_pool demo_cap 0 = Inr (CLEANQ_ERR_OK, id, p') \<and>
     region_pool_destroy p' demo_cap = Inr (CLEANQ_ERR_OK, None)"
proof -
  obtain id p' where a: "region_pool_add_region demo_env demo_pool demo_cap 0 = Inr (CLEANQ_ERR_OK, id, p')"
    "pool_inv p'"
    by (rule demo_pool_add)
  then show ?thesis using region_pool_destroy_succeeds [OF a(2)] by blast
qed

text \<open>The 16-bit size limits growth. A pool of 32768 slots cannot grow: the doubled size
  wraps to 0 and the first copied pointer is written outside the new array.\<close>

theorem region_pool_grow_overflows:
  assumes "rp_size p = 32768" "length (rp_pool p) = 32768" "calloc_ok env"
    and "rp_regions p (rp_pool p ! 0) = Some r"
  shows "region_pool_grow env p = Inl Bad_Memory"
proof -
  have n: "0 < unat (rp_size p)" "rp_size p * 2 = 0" using assms(1) by simp_all
  have g: "arr_get (rp_pool p) 0 = Inr (rp_pool p ! 0)" using assms(2) by simp
  show ?thesis using assms(3,4) g
    by (simp add: region_pool_grow_def n(2) upt_conv_Cons [OF n(1)])
qed

theorem region_pool_grow_overflows_witness:
  "region_pool_grow demo_env
     (demo_pool\<lparr>rp_size := 32768, rp_pool := replicate 32768 1, rp_regions := [1 \<mapsto> new_region 0 demo_cap]\<rparr>)
   = Inl Bad_Memory"
  by (rule region_pool_grow_overflows) (simp_all add: demo_env_def)

text \<open>A failed addition is counted. When the descriptor cannot be allocated the call
  reports the failure but the counter stays incremented, so it no longer counts the registered
  regions.\<close>

theorem add_region_out_of_memory_drifts:
  assumes "pool_inv p" "num_regions p < rp_size p" "malloc_ret env = 0"
    and "region_pool_add_region env p cap rid = Inr (CLEANQ_ERR_MALLOC_FAIL, rid', p')"
  shows "pool_map p' = pool_map p \<and> num_regions p' = num_regions p + 1 \<and> \<not> pool_inv p'"
proof -
  obtain k where inv: "pool_inv_at k p" using assms(1) by (auto simp: pool_inv_def)
  note d = pool_inv_atD [OF inv]
  have "unat (num_regions p) < 2 ^ k" using assms(2) d(3) by (simp add: word_less_nat_alt)
  also have "\<dots> \<le> 2 ^ 15" using d(2) by (intro power_increasing) auto
  finally have room: "unat (num_regions p) < 32768" by simp
  have m: "malloc_ok (region_alloc p) (malloc_ret env)" using assms(3) by (simp add: malloc_ok_def)
  have p': "pool_map p' = pool_map p" "num_regions p' = num_regions p + 1"
    "card (used_slots p') = card (used_slots p)"
    by (rule region_pool_add_region_spec [OF inv room m, of cap rid]; use assms(2,4) in auto)+
  have "\<not> pool_inv p'"
  proof
    assume "pool_inv p'"
    then have "unat (num_regions p + 1) = unat (num_regions p)"
      using p' d(6) pool_inv_atD(6) [of _ p'] by (auto simp: pool_inv_def)
    then show False by (simp add: word_unat_eq_iff [symmetric])
  qed
  then show ?thesis using p' by simp
qed

lemma demo_pool_out_of_memory:
  "region_pool_add_region (demo_env\<lparr>malloc_ret := 0\<rparr>) demo_pool demo_cap 7
     = Inr (CLEANQ_ERR_MALLOC_FAIL, 7, demo_pool\<lparr>num_regions := 1\<rparr>)"
proof -
  let ?p = "demo_pool\<lparr>num_regions := 1\<rparr>"
  have "slot_index ?p 0 = 6"
    by (simp add: slot_index_def demo_pool_def region_pool_init_def INIT_POOL_SIZE_def)
  then have f: "find_slot ?p 0 = Some (Inr 0)"
    by (subst find_slot.simps) (simp add: demo_pool_def region_pool_init_def INIT_POOL_SIZE_def)
  have a: "add_check demo_pool demo_cap [0..<unat (rp_size demo_pool)] = Inr CLEANQ_ERR_OK"
    using add_check_spec [OF demo_pool_ok(1)] demo_pool_ok(2) by simp
  have g: "grow_if_full e demo_pool = Inr (CLEANQ_ERR_OK, demo_pool)" for e
    by (simp add: grow_if_full_def demo_pool_def region_pool_init_def INIT_POOL_SIZE_def)
  have s: "slab_alloc (region_alloc demo_pool) 0 = Inr (0, region_alloc demo_pool)"
    by (simp add: demo_pool_def region_pool_init_def slab_init_def slab_alloc_def
        find_free_slab.simps slab_default_refill_def slab_refill_pages_def err_is_fail_def)
  have l: "last_offset demo_pool = 0" "num_regions demo_pool = 0"
    by (simp_all add: demo_pool_def region_pool_init_def)
  show ?thesis
    using a g f s l by (simp add: region_pool_add_region_def err_is_fail_def Let_def)
qed

theorem add_region_out_of_memory_drifts_witness:
  "\<exists>p'. region_pool_add_region (demo_env\<lparr>malloc_ret := 0\<rparr>) demo_pool demo_cap 7
          = Inr (CLEANQ_ERR_MALLOC_FAIL, 7, p') \<and>
        num_regions p' = 1 \<and> \<not> pool_inv p'"
  using add_region_out_of_memory_drifts [OF demo_pool_inv _ _ demo_pool_out_of_memory]
    demo_pool_out_of_memory
  by (simp add: demo_pool_def region_pool_init_def INIT_POOL_SIZE_def)
end
