(* ===== verification/Queue_Interface.thy ===== *)
theory Queue_Interface
  imports Region_Pool
begin

text \<open>
  The queue interface: \<open>lib/libcleanq/src/queue_interface.c\<close>, \<open>queue_interface_internal.c\<close> and
  \<open>include/cleanq_module.h\<close>. A queue has a region pool and a table of function pointers that a
  backend fills in; the interface checks every buffer against the pool before it is enqueued and
  after it is dequeued, and keeps the pool and the backend informed of the same regions.

  A backend's queue structure starts with a \<open>struct cleanq\<close>, so its state is a record that extends
  \<open>cleanq\<close>. The table of function pointers is passed beside the state, because the functions take
  that state: \<open>f\<close> stands for \<open>q->f\<close>. A pointer a backend leaves NULL is \<open>None\<close>; calling it is a
  bad memory access.

  Contents: the operations; the contract \<open>cleanq_backend\<close> a FIFO backend promises and what the
  interface guarantees on top of it: the operations return, buffers come out in the order they
  went in and none is lost, duplicated or rejected on the way out.
\<close>

section \<open>State\<close>

record cleanq =
  cq_pool :: region_pool
  cq_state :: addr

record 's cleanq_func_pointer =
  f_reg :: "('s \<Rightarrow> capref \<Rightarrow> regionid \<Rightarrow> (errval \<times> 's) cres) option"
  f_dereg :: "('s \<Rightarrow> regionid \<Rightarrow> (errval \<times> 's) cres) option"
  f_ctrl :: "('s \<Rightarrow> u64 \<Rightarrow> u64 \<Rightarrow> u64 \<Rightarrow> (errval \<times> u64 \<times> 's) cres) option"
  f_notify :: "('s \<Rightarrow> (errval \<times> 's) cres) option"
  f_enq :: "('s \<Rightarrow> cleanq_buf \<Rightarrow> (errval \<times> 's) cres) option"
  f_deq :: "('s \<Rightarrow> cleanq_buf \<Rightarrow> (errval \<times> cleanq_buf \<times> 's) cres) option"
  f_destroy :: "('s \<Rightarrow> (errval \<times> 's option) cres) option"

definition fcall :: "'f option \<Rightarrow> ('f \<Rightarrow> 'b cres) \<Rightarrow> 'b cres" where
  "fcall f k = (case f of None \<Rightarrow> Inl Bad_Memory | Some g \<Rightarrow> k g)"

lemma fcall_simps [simp, cres_simps]: "fcall (Some g) k = k g" "fcall None k = Inl Bad_Memory"
  by (simp_all add: fcall_def)

section \<open>Operations\<close>

definition cleanq_enqueue ::
  "'a cleanq_scheme cleanq_func_pointer \<Rightarrow> 'a cleanq_scheme \<Rightarrow> cleanq_buf \<Rightarrow>
   (errval \<times> 'a cleanq_scheme) cres" where
  "cleanq_enqueue f q b =
     bindc (region_pool_buffer_check_bounds (cq_pool q) b) (\<lambda>ok.
       if \<not> ok then Inr (CLEANQ_ERR_INVALID_BUFFER_ARGS, q)
       else fcall (f_enq f) (\<lambda>enq. enq q b))"

text \<open>\<open>b\<close> is what the return pointers point to before the call.\<close>

definition cleanq_dequeue ::
  "'a cleanq_scheme cleanq_func_pointer \<Rightarrow> 'a cleanq_scheme \<Rightarrow> cleanq_buf \<Rightarrow>
   (errval \<times> cleanq_buf \<times> 'a cleanq_scheme) cres" where
  "cleanq_dequeue f q b =
     bindc (fcall (f_deq f) (\<lambda>deq. deq q b)) (\<lambda>(err, b', q').
       if err_is_fail err then Inr (err, b', q')
       else bindc (region_pool_buffer_check_bounds (cq_pool q') b') (\<lambda>ok.
              if \<not> ok then Inr (CLEANQ_ERR_INVALID_BUFFER_ARGS, b', q')
              else Inr (CLEANQ_ERR_OK, b', q')))"

text \<open>\<open>rid\<close> is the content of \<open>*region_id\<close> before the call.\<close>

definition cleanq_register ::
  "libc \<Rightarrow> 'a cleanq_scheme cleanq_func_pointer \<Rightarrow> 'a cleanq_scheme \<Rightarrow> capref \<Rightarrow> regionid \<Rightarrow>
   (errval \<times> regionid \<times> 'a cleanq_scheme) cres" where
  "cleanq_register env f q cap rid =
     bindc (region_pool_add_region env (cq_pool q) cap rid) (\<lambda>(err, rid', p).
       let q1 = q\<lparr>cq_pool := p\<rparr> in
       if err_is_fail err then Inr (err, rid', q1)
       else bindc (fcall (f_reg f) (\<lambda>reg. reg q1 cap rid')) (\<lambda>(err', q2). Inr (err', rid', q2)))"

definition cleanq_deregister ::
  "'a cleanq_scheme cleanq_func_pointer \<Rightarrow> 'a cleanq_scheme \<Rightarrow> regionid \<Rightarrow> capref \<Rightarrow>
   (errval \<times> capref \<times> 'a cleanq_scheme) cres" where
  "cleanq_deregister f q rid cap =
     bindc (region_pool_remove_region (cq_pool q) rid cap) (\<lambda>(err, cap', p).
       let q1 = q\<lparr>cq_pool := p\<rparr> in
       if err_is_fail err then Inr (err, cap', q1)
       else bindc (fcall (f_dereg f) (\<lambda>dereg. dereg q1 rid)) (\<lambda>(err', q2). Inr (err', cap', q2)))"

definition cleanq_notify ::
  "'s cleanq_func_pointer \<Rightarrow> 's \<Rightarrow> (errval \<times> 's) cres" where
  "cleanq_notify f q = fcall (f_notify f) (\<lambda>notify. notify q)"

definition cleanq_control ::
  "'s cleanq_func_pointer \<Rightarrow> 's \<Rightarrow> u64 \<Rightarrow> u64 \<Rightarrow> u64 \<Rightarrow> (errval \<times> u64 \<times> 's) cres" where
  "cleanq_control f q request value result = fcall (f_ctrl f) (\<lambda>ctrl. ctrl q request value result)"

text \<open>The backend's \<open>destroy\<close> says what is left of the queue: \<open>None\<close> when it freed the structure,
  in which case reading \<open>q->pool\<close> afterwards is an access to freed memory.\<close>

definition cleanq_destroy ::
  "'a cleanq_scheme cleanq_func_pointer \<Rightarrow> 'a cleanq_scheme \<Rightarrow> capref \<Rightarrow>
   (errval \<times> 'a cleanq_scheme option) cres" where
  "cleanq_destroy f q cap =
     bindc (fcall (f_destroy f) (\<lambda>destroy. destroy q)) (\<lambda>(err, qo).
       if err_is_fail err then Inr (err, qo)
       else case qo of
              None \<Rightarrow> Inl Bad_Memory
            | Some q' \<Rightarrow> bindc (region_pool_destroy (cq_pool q') cap) (\<lambda>(err', po).
                Inr (err', case po of None \<Rightarrow> None | Some p \<Rightarrow> Some (q'\<lparr>cq_pool := p\<rparr>))))"

definition cleanq_set_state :: "'a cleanq_scheme \<Rightarrow> addr \<Rightarrow> 'a cleanq_scheme" where
  "cleanq_set_state q st = q\<lparr>cq_state := st\<rparr>"

definition cleanq_get_state :: "'a cleanq_scheme \<Rightarrow> addr" where
  "cleanq_get_state q = cq_state q"

text \<open>\<open>queue_interface_internal.c\<close>. Creation gives the pool that is stored in the queue.\<close>

definition cleanq_init :: "bool \<Rightarrow> bool \<Rightarrow> u32 \<Rightarrow> errval \<times> region_pool option" where
  "cleanq_init calloc1 calloc2 rnd = region_pool_init calloc1 calloc2 rnd"

definition cleanq_add_region ::
  "libc \<Rightarrow> 'a cleanq_scheme \<Rightarrow> capref \<Rightarrow> regionid \<Rightarrow> (errval \<times> 'a cleanq_scheme) cres" where
  "cleanq_add_region env q cap rid =
     bindc (region_pool_add_region_with_id env (cq_pool q) cap rid) (\<lambda>(err, p).
       Inr (err, q\<lparr>cq_pool := p\<rparr>))"

definition cleanq_remove_region ::
  "'a cleanq_scheme \<Rightarrow> regionid \<Rightarrow> capref \<Rightarrow> (errval \<times> 'a cleanq_scheme) cres" where
  "cleanq_remove_region q rid cap =
     bindc (region_pool_remove_region (cq_pool q) rid cap) (\<lambda>(err, _, p).
       Inr (err, q\<lparr>cq_pool := p\<rparr>))"

section \<open>Sequences of operations\<close>

datatype qop = Enq cleanq_buf | Deq

definition empty_buf :: cleanq_buf where
  "empty_buf = \<lparr>b_offset = 0, b_length = 0, b_valid_data = 0, b_valid_length = 0, b_flags = 0,
                b_rid = 0\<rparr>"

text \<open>A client that enqueues and dequeues: the buffers the queue accepted, the buffers it
  delivered and the queue afterwards.\<close>

fun run_ops ::
  "'a cleanq_scheme cleanq_func_pointer \<Rightarrow> 'a cleanq_scheme \<Rightarrow> qop list \<Rightarrow>
   (cleanq_buf list \<times> cleanq_buf list \<times> 'a cleanq_scheme) cres" where
  "run_ops f q [] = Inr ([], [], q)"
| "run_ops f q (Enq b # ops) =
     bindc (cleanq_enqueue f q b) (\<lambda>(err, q').
     bindc (run_ops f q' ops) (\<lambda>(ins, outs, q'').
     Inr (if err_is_ok err then b # ins else ins, outs, q'')))"
| "run_ops f q (Deq # ops) =
     bindc (cleanq_dequeue f q empty_buf) (\<lambda>(err, b, q').
     bindc (run_ops f q' ops) (\<lambda>(ins, outs, q'').
     Inr (ins, if err_is_ok err then b # outs else outs, q'')))"

section \<open>The contract of a backend\<close>

abbreviation in_bounds :: "region_pool \<Rightarrow> cleanq_buf \<Rightarrow> bool" where
  "in_bounds p b \<equiv> region_pool_buffer_check_bounds p b = Inr True"

text \<open>
  What the interface relies on. \<open>contents\<close> is the list of what is in the queue, oldest first, where
  \<open>view\<close> says what of a buffer the backend keeps; \<open>pre\<close> is what the caller must have made sure of
  beyond the bounds check, and \<open>ready\<close> says that the oldest element may be handed out.
\<close>

locale cleanq_backend =
  fixes f :: "'a cleanq_scheme cleanq_func_pointer"
    and inv :: "'a cleanq_scheme \<Rightarrow> bool"
    and contents :: "'a cleanq_scheme \<Rightarrow> 'v list"
    and view :: "region_pool \<Rightarrow> cleanq_buf \<Rightarrow> 'v"
    and pre :: "'a cleanq_scheme \<Rightarrow> cleanq_buf \<Rightarrow> bool"
    and ready :: "'a cleanq_scheme \<Rightarrow> bool"
    and full :: "'a cleanq_scheme \<Rightarrow> bool"
  assumes pool_law: "inv q \<Longrightarrow> pool_inv (cq_pool q)"
    and enq_law: "inv q \<Longrightarrow> in_bounds (cq_pool q) b \<Longrightarrow> pre q b \<Longrightarrow>
      \<exists>err q'. fcall (f_enq f) (\<lambda>enq. enq q b) = Inr (err, q') \<and>
        (if full q then err = CLEANQ_ERR_QUEUE_FULL \<and> q' = q
         else err = CLEANQ_ERR_OK \<and> inv q' \<and> cq_pool q' = cq_pool q \<and>
              contents q' = contents q @ [view (cq_pool q) b])"
    and deq_law: "inv q \<Longrightarrow>
      \<exists>err b' q'. fcall (f_deq f) (\<lambda>deq. deq q b) = Inr (err, b', q') \<and>
        (if ready q
         then err = CLEANQ_ERR_OK \<and> inv q' \<and> cq_pool q' = cq_pool q \<and>
              contents q = view (cq_pool q) b' # contents q' \<and> in_bounds (cq_pool q) b'
         else err = CLEANQ_ERR_QUEUE_EMPTY \<and> b' = b \<and> q' = q)"
begin

text \<open>Enqueueing through the interface returns on every input; a buffer out of bounds is refused
  without touching the backend.\<close>

lemma enqueue_spec:
  assumes "inv q" "in_bounds (cq_pool q) b \<Longrightarrow> pre q b"
  obtains "cleanq_enqueue f q b = Inr (CLEANQ_ERR_INVALID_BUFFER_ARGS, q)"
      "\<not> in_bounds (cq_pool q) b"
  | "cleanq_enqueue f q b = Inr (CLEANQ_ERR_QUEUE_FULL, q)" "full q" "in_bounds (cq_pool q) b"
  | q' where "cleanq_enqueue f q b = Inr (CLEANQ_ERR_OK, q')" "\<not> full q" "in_bounds (cq_pool q) b"
      "inv q'" "cq_pool q' = cq_pool q" "contents q' = contents q @ [view (cq_pool q) b]"
proof -
  obtain k where "pool_inv_at k (cq_pool q)" using pool_law [OF assms(1)] by (auto simp: pool_inv_def)
  then obtain ok where ok: "region_pool_buffer_check_bounds (cq_pool q) b = Inr ok"
    using check_bounds_returns by blast
  show thesis
  proof (cases ok)
    case False
    then show thesis using that(1) ok by (simp add: cleanq_enqueue_def)
  next
    case True
    then have "in_bounds (cq_pool q) b" "pre q b" using ok assms(2) by simp_all
    from enq_law [OF assms(1) this] show thesis
      using that ok True by (cases "full q") (auto simp: cleanq_enqueue_def)
  qed
qed

text \<open>Dequeueing through the interface gives the oldest buffer; the check on the way out never
  rejects it.\<close>

lemma dequeue_spec:
  assumes "inv q"
  obtains "cleanq_dequeue f q b = Inr (CLEANQ_ERR_QUEUE_EMPTY, b, q)" "\<not> ready q"
  | b' q' where "cleanq_dequeue f q b = Inr (CLEANQ_ERR_OK, b', q')" "ready q" "inv q'"
      "cq_pool q' = cq_pool q" "contents q = view (cq_pool q) b' # contents q'"
      "in_bounds (cq_pool q) b'"
  using deq_law [OF assms, of b] that
  by (cases "ready q") (auto simp: cleanq_dequeue_def err_is_fail_def)

end

text \<open>A backend that needs nothing beyond the bounds check: any sequence of operations is fine.\<close>

locale cleanq_fifo = cleanq_backend +
  assumes pre_law: "inv q \<Longrightarrow> in_bounds (cq_pool q) b \<Longrightarrow> pre q b"
begin

text \<open>What went in is what came out followed by what is still inside, in this order.\<close>

lemma run_ops_fifo:
  "inv q \<Longrightarrow>
     \<exists>ins outs q'. run_ops f q ops = Inr (ins, outs, q') \<and> inv q' \<and> cq_pool q' = cq_pool q \<and>
       contents q @ map (view (cq_pool q)) ins = map (view (cq_pool q)) outs @ contents q' \<and>
       (\<forall>b\<in>set ins \<union> set outs. in_bounds (cq_pool q) b)"
proof (induction ops arbitrary: q)
  case (Cons op ops)
  note inv = Cons.prems
  show ?case
  proof (cases op)
    case (Enq b)
    show ?thesis
    proof (rule enqueue_spec [OF inv pre_law [OF inv], of b])
      fix q1 assume q1: "cleanq_enqueue f q b = Inr (CLEANQ_ERR_OK, q1)" "in_bounds (cq_pool q) b"
        "inv q1" "cq_pool q1 = cq_pool q" "contents q1 = contents q @ [view (cq_pool q) b]"
      from Cons.IH [OF q1(3)] show ?thesis using q1 Enq by auto
    qed (use Cons.IH [OF inv] Enq in \<open>auto simp: err_is_ok_def\<close>)
  next
    case Deq
    show ?thesis
    proof (rule dequeue_spec [OF inv, of empty_buf])
      fix b q1 assume q1: "cleanq_dequeue f q empty_buf = Inr (CLEANQ_ERR_OK, b, q1)" "inv q1"
        "cq_pool q1 = cq_pool q" "contents q = view (cq_pool q) b # contents q1"
        "in_bounds (cq_pool q) b"
      from Cons.IH [OF q1(2)] show ?thesis using q1 Deq by auto
    qed (use Cons.IH [OF inv] Deq in \<open>auto simp: err_is_ok_def\<close>)
  qed
qed auto

end

section \<open>The control path\<close>

text \<open>What registering does to the pool, for any backend whose \<open>reg\<close> succeeds and leaves the
  queue alone, which all backends in the tree do.\<close>

definition plain_reg :: "'a cleanq_scheme cleanq_func_pointer \<Rightarrow> bool" where
  "plain_reg f \<longleftrightarrow>
     (\<exists>reg. f_reg f = Some reg \<and> (\<forall>q cap rid. reg q cap rid = Inr (CLEANQ_ERR_OK, q))) \<and>
     (\<exists>dereg. f_dereg f = Some dereg \<and> (\<forall>q rid. dereg q rid = Inr (CLEANQ_ERR_OK, q)))"

lemma cleanq_register_plain:
  assumes "plain_reg f" "region_pool_add_region env (cq_pool q) cap rid = Inr (err, rid', p)"
  shows "cleanq_register env f q cap rid = Inr (err, rid', q\<lparr>cq_pool := p\<rparr>)"
  using assms by (auto simp: cleanq_register_def plain_reg_def err_is_fail_def Let_def)

lemma cleanq_deregister_plain:
  assumes "plain_reg f" "region_pool_remove_region (cq_pool q) rid cap = Inr (err, cap', p)"
  shows "cleanq_deregister f q rid cap = Inr (err, cap', q\<lparr>cq_pool := p\<rparr>)"
  using assms by (auto simp: cleanq_deregister_def plain_reg_def err_is_fail_def Let_def)

end
