(* ===== verification/Queue_Dpdk.thy ===== *)
theory Queue_Dpdk
  imports Queue_Interface
begin

text \<open>
  The bridge between CleanQ and DPDK, \<open>lib/libcleanq/src/queue_dpdk.c\<close>: registering the memory of a
  mempool as a region, and turning an mbuf into a CleanQ buffer and back. The mempools and mbufs the
  functions read are stores that travel with the queue: a record that extends \<open>cleanq\<close>.

  Contents: the operations; that the two conversions are inverse to each other for mbufs of a
  registered mempool; the buffer an mbuf becomes; what deregistering a mempool does, including one
  that was never registered.
\<close>

section \<open>State\<close>

record rte_mempool_memhdr =
  mh_addr :: u64
  mh_len :: u64

record rte_mempool =
  mem_list :: "rte_mempool_memhdr list"

text \<open>The fields of \<open>struct rte_mbuf\<close> the queue code reads or writes. \<open>mb_hash\<close> is the first word of
  the union \<open>hash\<close>: the RSS hash, or the flow director's hash and identifier in its two halves.\<close>

record rte_mbuf =
  mb_pool :: addr
  buf_len :: u16
  data_off :: u16
  data_len :: u16
  pkt_len :: u32
  buf_iova :: u64
  mb_port :: u16
  refcnt :: u16
  ol_flags :: u64
  packet_type :: u32
  vlan_tci :: u16
  mb_hash :: u32
  nb_segs :: u16
  mb_next :: u64

record dpdk_queue = cleanq +
  mempools :: "addr \<rightharpoonup> rte_mempool"
  mbufs :: "u64 \<rightharpoonup> rte_mbuf"

section \<open>Operations\<close>

definition mempool_base_addr :: "rte_mempool \<Rightarrow> u64 cres" where
  "mempool_base_addr mp =
     (case mem_list mp of [] \<Rightarrow> Inl Bad_Memory | first_chunk # _ \<Rightarrow> Inr (mh_addr first_chunk))"

definition mempool_length :: "rte_mempool \<Rightarrow> u64" where
  "mempool_length mp = foldl (\<lambda>len chunk. len + mh_len chunk) 0 (mem_list mp)"

definition mempool_to_cap :: "rte_mempool \<Rightarrow> capref cres" where
  "mempool_to_cap mp =
     bindc (mempool_base_addr mp) (\<lambda>base_addr.
       Inr \<lparr>cap_vaddr = base_addr, cap_paddr = base_addr, cap_len = mempool_length mp\<rparr>)"

text \<open>\<open>rid\<close> is the uninitialised local that receives the identifier.\<close>

definition cleanq_register_mempool ::
  "libc \<Rightarrow> 'a cleanq_scheme cleanq_func_pointer \<Rightarrow> 'a cleanq_scheme \<Rightarrow> rte_mempool \<Rightarrow> regionid \<Rightarrow>
   (errval \<times> 'a cleanq_scheme) cres" where
  "cleanq_register_mempool env f q mp rid =
     bindc (mempool_to_cap mp) (\<lambda>cap.
     bindc (cleanq_register env f q cap rid) (\<lambda>(err, _, q'). Inr (err, q')))"

definition cleanq_deregister_mempool ::
  "'a cleanq_scheme cleanq_func_pointer \<Rightarrow> 'a cleanq_scheme \<Rightarrow> rte_mempool \<Rightarrow> capref \<Rightarrow>
   (errval \<times> 'a cleanq_scheme) cres" where
  "cleanq_deregister_mempool f q mp cap =
     bindc (mempool_base_addr mp) (\<lambda>base_addr.
     bindc (region_with_base_addr (cq_pool q) base_addr) (\<lambda>rid.
     bindc (cleanq_deregister f q rid cap) (\<lambda>(err, _, q'). Inr (err, q'))))"

definition mbuf_to_cleanq_buf :: "'a dpdk_queue_scheme \<Rightarrow> u64 \<Rightarrow> cleanq_buf cres" where
  "mbuf_to_cleanq_buf q mbuf =
     bindc (deref (mbufs q) mbuf) (\<lambda>mb.
     bindc (deref (mempools q) (mb_pool mb)) (\<lambda>mp.
     bindc (mempool_base_addr mp) (\<lambda>base_addr.
     bindc (region_with_base_addr (cq_pool q) base_addr) (\<lambda>rid.
     Inr \<lparr>b_offset = mbuf - base_addr, b_length = ucast (buf_len mb),
          b_valid_data = ucast (data_off mb), b_valid_length = ucast (data_len mb),
          b_flags = 0, b_rid = rid\<rparr>))))"

definition cleanq_buf_to_mbuf :: "'a dpdk_queue_scheme \<Rightarrow> cleanq_buf \<Rightarrow> u64 cres" where
  "cleanq_buf_to_mbuf q cqbuf =
     bindc (base_addr_of_region (cq_pool q) (b_rid cqbuf)) (\<lambda>base_addr.
     let mb = base_addr + b_offset cqbuf in
     if base_addr > 0
     then bindc (deref (mbufs q) mb) (\<lambda>m.
            if \<not> b_length cqbuf = ucast (buf_len m) then Inl Assert_Failed
            else if \<not> b_valid_data cqbuf = ucast (data_off m) then Inl Assert_Failed
            else if \<not> b_valid_length cqbuf = ucast (data_len m) then Inl Assert_Failed
            else Inr mb)
     else Inr mb)"

section \<open>Mbufs of a registered mempool\<close>

text \<open>The mbuf at \<open>a\<close> and the region of its mempool.\<close>

definition mbuf_of_region :: "'a dpdk_queue_scheme \<Rightarrow> u64 \<Rightarrow> rte_mbuf \<Rightarrow> region \<Rightarrow> bool" where
  "mbuf_of_region q a m r \<longleftrightarrow>
     mbufs q a = Some m \<and>
     (\<exists>mp c cs. mempools q (mb_pool m) = Some mp \<and> mem_list mp = c # cs \<and>
        mh_addr c = r_base_addr r) \<and>
     pool_map (cq_pool q) (r_id r) = Some r"

definition mbuf_buf :: "u64 \<Rightarrow> rte_mbuf \<Rightarrow> region \<Rightarrow> cleanq_buf" where
  "mbuf_buf a m r =
     \<lparr>b_offset = a - r_base_addr r, b_length = ucast (buf_len m), b_valid_data = ucast (data_off m),
      b_valid_length = ucast (data_len m), b_flags = 0, b_rid = r_id r\<rparr>"

lemma mbuf_to_cleanq_buf_eq:
  assumes inv: "pool_inv (cq_pool q)" and m: "mbuf_of_region q a m r"
  obtains r' where "mbuf_to_cleanq_buf q a = Inr (mbuf_buf a m r')" "mbuf_of_region q a m r'"
    "r_base_addr r' = r_base_addr r"
proof -
  obtain k where k: "pool_inv_at k (cq_pool q)" using inv by (auto simp: pool_inv_def)
  obtain mp c cs where mp: "mbufs q a = Some m" "mempools q (mb_pool m) = Some mp"
    "mem_list mp = c # cs" "mh_addr c = r_base_addr r" and r: "pool_map (cq_pool q) (r_id r) = Some r"
    using m by (auto simp: mbuf_of_region_def)
  have "r \<in> ran (pool_map (cq_pool q))" using r by (rule ranI)
  with region_with_base_addr_spec [OF k, of "mh_addr c"] obtain r' where
    r': "pool_map (cq_pool q) (r_id r') = Some r'" "r_base_addr r' = mh_addr c"
      "region_with_base_addr (cq_pool q) (mh_addr c) = Inr (r_id r')"
    using mp(4) by auto
  show thesis
    using that [of r'] mp r' by (simp add: mbuf_to_cleanq_buf_def mempool_base_addr_def mbuf_buf_def
        mbuf_of_region_def)
qed

lemma mbuf_to_cleanq_buf_apart:
  assumes "pool_inv (cq_pool q)" "regions_apart (cq_pool q)" "mbuf_of_region q a m r"
  shows "mbuf_to_cleanq_buf q a = Inr (mbuf_buf a m r)"
proof (rule mbuf_to_cleanq_buf_eq [OF assms(1,3)])
  fix r' assume c: "mbuf_to_cleanq_buf q a = Inr (mbuf_buf a m r')" and m': "mbuf_of_region q a m r'"
    and base: "r_base_addr r' = r_base_addr r"
  have r: "pool_map (cq_pool q) (r_id r) = Some r" "pool_map (cq_pool q) (r_id r') = Some r'"
    using assms(3) m' by (simp_all add: mbuf_of_region_def)
  have "r' = r" using base r assms(2) by (metis regions_apart_def option.sel)
  then show ?thesis using c by simp
qed

lemma cleanq_buf_to_mbuf_eq:
  assumes inv: "pool_inv (cq_pool q)" and m: "mbuf_of_region q a m r"
  shows "cleanq_buf_to_mbuf q (mbuf_buf a m r) = Inr a"
proof -
  obtain k where k: "pool_inv_at k (cq_pool q)" using inv by (auto simp: pool_inv_def)
  show ?thesis using m base_addr_known [OF k, of "r_id r" r]
    by (simp add: cleanq_buf_to_mbuf_def mbuf_buf_def mbuf_of_region_def Let_def)
qed

text \<open>The conversion of an mbuf that lies in its region is accepted by the bounds check.\<close>

lemma mbuf_buf_in_bounds:
  assumes inv: "pool_inv (cq_pool q)" and m: "mbuf_of_region q a m r"
    and fit: "unat (a - r_base_addr r) + unat (buf_len m) \<le> unat (r_len r)"
      "unat (data_off m) + unat (data_len m) \<le> unat (buf_len m)"
  shows "in_bounds (cq_pool q) (mbuf_buf a m r)"
proof -
  obtain k where k: "pool_inv_at k (cq_pool q)" using inv by (auto simp: pool_inv_def)
  have r: "pool_map (cq_pool q) (b_rid (mbuf_buf a m r)) = Some r"
    using m by (simp add: mbuf_of_region_def mbuf_buf_def)
  have u: "unat (ucast (x :: u16) :: u64) = unat x" for x by (simp add: unat_ucast_widen)
  have "buf_no_wrap (mbuf_buf a m r)" "buf_in_region (mbuf_buf a m r) (r_len r)"
    using fit unat_u16_bound [of "data_off m"] unat_u16_bound [of "data_len m"]
      unat_u64_bound [of "r_len r"]
    by (simp_all add: buf_no_wrap_def buf_in_region_def mbuf_buf_def u)
  then show ?thesis using check_bounds_in_region [OF k r] by simp
qed

section \<open>Deregistering a mempool\<close>

lemma deregister_mempool_eq:
  assumes "plain_reg f" "mem_list mp = c # cs"
    and "region_with_base_addr (cq_pool q) (mh_addr c) = Inr rid"
    and "region_pool_remove_region (cq_pool q) rid cap = Inr (err, cap', p)"
  shows "cleanq_deregister_mempool f q mp cap = Inr (err, q\<lparr>cq_pool := p\<rparr>)"
  using assms cleanq_deregister_plain [OF assms(1,4)]
  by (simp add: cleanq_deregister_mempool_def mempool_base_addr_def)

section \<open>Properties\<close>

text \<open>Property C13: round trip of an mbuf. For every mbuf whose mempool is registered, turning it into a
  CleanQ buffer and back gives the same mbuf, and none of the conversion's assertions fails.\<close>

theorem mbuf_roundtrip:
  assumes "pool_inv (cq_pool q)" "mbuf_of_region q a m r"
  shows "bindc (mbuf_to_cleanq_buf q a) (cleanq_buf_to_mbuf q) = Inr a"
  using mbuf_to_cleanq_buf_eq [OF assms] cleanq_buf_to_mbuf_eq [OF assms(1)] by (metis bindc_Inr)

text \<open>A queue whose pool holds one registered mempool, with one mbuf in it.\<close>

definition demo_mempool :: rte_mempool where
  "demo_mempool = \<lparr>mem_list = [\<lparr>mh_addr = 0x10000, mh_len = 0x3000\<rparr>, \<lparr>mh_addr = 0x13000, mh_len = 0x1000\<rparr>]\<rparr>"

definition demo_mbuf :: rte_mbuf where
  "demo_mbuf = \<lparr>mb_pool = 1, buf_len = 2176, data_off = 128, data_len = 64, pkt_len = 64,
     buf_iova = 0x10880, mb_port = 0, refcnt = 1, ol_flags = 0, packet_type = 0, vlan_tci = 0,
     mb_hash = 0, nb_segs = 1, mb_next = 0\<rparr>"

definition demo_dq :: "region_pool \<Rightarrow> dpdk_queue" where
  "demo_dq p = \<lparr>cq_pool = p, cq_state = 0, mempools = [1 \<mapsto> demo_mempool], mbufs = [0x10800 \<mapsto> demo_mbuf]\<rparr>"

lemma demo_mbuf_of_region:
  assumes "pool_map p = [rid \<mapsto> new_region rid demo_cap]"
  shows "mbuf_of_region (demo_dq p) 0x10800 demo_mbuf (new_region rid demo_cap)"
  using assms by (simp add: mbuf_of_region_def demo_dq_def demo_mbuf_def demo_mempool_def
      new_region_def demo_cap_def)

theorem mbuf_roundtrip_witness:
  "\<exists>id p. region_pool_add_region demo_env demo_pool demo_cap 0 = Inr (CLEANQ_ERR_OK, id, p) \<and>
     pool_inv p \<and> mbuf_of_region (demo_dq p) 0x10800 demo_mbuf (new_region id demo_cap) \<and>
     bindc (mbuf_to_cleanq_buf (demo_dq p) 0x10800) (cleanq_buf_to_mbuf (demo_dq p)) = Inr 0x10800"
proof -
  obtain id p where a: "region_pool_add_region demo_env demo_pool demo_cap 0 = Inr (CLEANQ_ERR_OK, id, p)"
    "pool_inv p" "pool_map p = [id \<mapsto> new_region id demo_cap]"
    by (rule demo_pool_add)
  have m: "mbuf_of_region (demo_dq p) 0x10800 demo_mbuf (new_region id demo_cap)"
    using a(3) by (rule demo_mbuf_of_region)
  have "pool_inv (cq_pool (demo_dq p))" using a(2) by (simp add: demo_dq_def)
  from mbuf_roundtrip [OF this m] show ?thesis using a m by blast
qed

text \<open>An mbuf that lies in its mempool's memory is always accepted. Its conversion names
  the region of its mempool and passes the bounds check that \<open>cleanq_enqueue\<close> makes.\<close>

theorem mbuf_conversion_in_bounds:
  assumes "pool_inv (cq_pool q)" "mbuf_of_region q a m r" "regions_apart (cq_pool q)"
    and "unat (a - r_base_addr r) + unat (buf_len m) \<le> unat (r_len r)"
    and "unat (data_off m) + unat (data_len m) \<le> unat (buf_len m)"
  shows "mbuf_to_cleanq_buf q a = Inr (mbuf_buf a m r) \<and> in_bounds (cq_pool q) (mbuf_buf a m r)"
  using mbuf_to_cleanq_buf_apart [OF assms(1,3,2)] mbuf_buf_in_bounds [OF assms(1,2,4,5)] by simp

theorem mbuf_conversion_in_bounds_witness:
  "\<exists>id p. region_pool_add_region demo_env demo_pool demo_cap 0 = Inr (CLEANQ_ERR_OK, id, p) \<and>
     mbuf_to_cleanq_buf (demo_dq p) 0x10800 =
       Inr \<lparr>b_offset = 0x800, b_length = 2176, b_valid_data = 128, b_valid_length = 64, b_flags = 0, b_rid = id\<rparr> \<and>
     in_bounds p
       \<lparr>b_offset = 0x800, b_length = 2176, b_valid_data = 128, b_valid_length = 64, b_flags = 0, b_rid = id\<rparr>"
proof -
  obtain id p where a: "region_pool_add_region demo_env demo_pool demo_cap 0 = Inr (CLEANQ_ERR_OK, id, p)"
    "pool_inv p" "pool_map p = [id \<mapsto> new_region id demo_cap]"
    by (rule demo_pool_add)
  have m: "mbuf_of_region (demo_dq p) 0x10800 demo_mbuf (new_region id demo_cap)"
    using a(3) by (rule demo_mbuf_of_region)
  have p: "pool_inv (cq_pool (demo_dq p))" "regions_apart (cq_pool (demo_dq p))"
    using a(2,3) by (auto simp: demo_dq_def regions_apart_def region_no_wrap_def new_region_def demo_cap_def
        split: if_splits)
  have b: "mbuf_buf 0x10800 demo_mbuf (new_region id demo_cap) =
      \<lparr>b_offset = 0x800, b_length = 2176, b_valid_data = 128, b_valid_length = 64, b_flags = 0, b_rid = id\<rparr>"
    by (simp add: mbuf_buf_def demo_mbuf_def new_region_def demo_cap_def)
  have "cq_pool (demo_dq p) = p" by (simp add: demo_dq_def)
  then show ?thesis using a(1) mbuf_conversion_in_bounds [OF p(1) m p(2)]
    by (simp add: b) (simp add: demo_mbuf_def new_region_def demo_cap_def)
qed

text \<open>Deregistering a mempool that was never registered is not refused. When some other
  region has slot 0 of the pool, that region is removed and the call reports success.\<close>

theorem deregister_unknown_mempool:
  assumes "plain_reg f" "pool_inv (cq_pool q)" "mem_list mp = c # cs"
    and "\<forall>r\<in>ran (pool_map (cq_pool q)). r_base_addr r \<noteq> mh_addr c"
    and "pool_map (cq_pool q) rid = Some r" "region_slot (cq_pool q) rid = region_slot (cq_pool q) 0"
  shows "\<exists>q'. cleanq_deregister_mempool f q mp cap = Inr (CLEANQ_ERR_OK, q') \<and>
    pool_map (cq_pool q') = (pool_map (cq_pool q))(rid := None)"
proof -
  obtain k where k: "pool_inv_at k (cq_pool q)" using assms(2) by (auto simp: pool_inv_def)
  have "region_with_base_addr (cq_pool q) (mh_addr c) = Inr 0"
    using region_with_base_addr_spec [OF k, of "mh_addr c"] assms(4) ranI by metis
  moreover obtain p where "region_pool_remove_region (cq_pool q) rid cap = Inr (CLEANQ_ERR_OK, r_cap r, p)"
    "pool_map p = (pool_map (cq_pool q))(rid := None)"
    using region_pool_remove_region_spec [OF k assms(5), of cap] by metis
  moreover have "region_pool_remove_region (cq_pool q) 0 cap = region_pool_remove_region (cq_pool q) rid cap"
    using region_slot_alias(1) assms(6) by metis
  ultimately show ?thesis using deregister_mempool_eq [OF assms(1,3)] by fastforce
qed

definition plain_f :: "'a cleanq_scheme cleanq_func_pointer" where
  "plain_f = \<lparr>f_reg = Some (\<lambda>q cap rid. Inr (CLEANQ_ERR_OK, q)), f_dereg = Some (\<lambda>q rid. Inr (CLEANQ_ERR_OK, q)),
     f_ctrl = None, f_notify = None, f_enq = None, f_deq = None, f_destroy = None\<rparr>"

theorem deregister_unknown_mempool_witness:
  "\<exists>p q'. region_pool_add_region_with_id demo_env demo_pool demo_cap 0x8000 = Inr (CLEANQ_ERR_OK, p) \<and>
     cleanq_deregister_mempool plain_f (demo_dq p) \<lparr>mem_list = [\<lparr>mh_addr = 0x90000, mh_len = 0x1000\<rparr>]\<rparr> demo_cap
       = Inr (CLEANQ_ERR_OK, q') \<and> pool_map (cq_pool q') = Map.empty"
proof -
  obtain p where a: "region_pool_add_region_with_id demo_env demo_pool demo_cap 0x8000 = Inr (CLEANQ_ERR_OK, p)"
    "pool_inv p" "pool_map p = [0x8000 \<mapsto> new_region 0x8000 demo_cap]"
    by (rule demo_pool_add_with_id)
  obtain k where k: "pool_inv_at k p" using a(2) by (auto simp: pool_inv_def)
  let ?mp = "\<lparr>mem_list = [\<lparr>mh_addr = 0x90000, mh_len = 0x1000\<rparr>]\<rparr>"
  have f: "plain_reg plain_f" by (simp add: plain_reg_def plain_f_def)
  have d: "cq_pool (demo_dq p) = p" by (simp add: demo_dq_def)
  have s: "region_slot p 0x8000 = region_slot p 0"
  proof -
    have "(2::nat) ^ k dvd 2 ^ 15" using pool_inv_atD(2) [OF k] by (intro le_imp_power_dvd)
    then have "(32768::nat) mod 2 ^ k = 0" by (simp add: mod_eq_0_iff_dvd)
    then show ?thesis by (simp add: region_slot_eq [OF pool_inv_atD(3) [OF k]])
  qed
  show ?thesis
    using deregister_unknown_mempool [OF f _ _ _ _ _, of "demo_dq p" ?mp _ _ "0x8000" "new_region 0x8000 demo_cap" demo_cap] a s
    by (simp add: d new_region_def demo_cap_def)
qed

end
