(* ===== verification/Ixgbe_Ring.thy ===== *)
theory Ixgbe_Ring
  imports Queue_Dpdk
begin

text \<open>
  What the transmit and the receive queue of \<open>drivers/net/ixgbe/ixgbe_cleanq.c\<close> share: the
  registration functions, the positions \<open>recl\<close> and \<open>tail\<close> of a descriptor ring and their test for
  a full ring, the mbufs the rings hold, and the account of what enters and leaves a ring that is
  overrun where that test misses.
\<close>

section \<open>Operations\<close>

definition ixgbe_cleanq_register ::
  "'a dpdk_queue_scheme \<Rightarrow> capref \<Rightarrow> regionid \<Rightarrow> (errval \<times> 'a dpdk_queue_scheme) cres" where
  "ixgbe_cleanq_register q cap region_id = Inr (CLEANQ_ERR_OK, q)"

definition ixgbe_cleanq_deregister ::
  "'a dpdk_queue_scheme \<Rightarrow> regionid \<Rightarrow> (errval \<times> 'a dpdk_queue_scheme) cres" where
  "ixgbe_cleanq_deregister q region_id = Inr (CLEANQ_ERR_OK, q)"

text \<open>The test for a full ring, in C's \<open>int\<close>.\<close>

definition ring_full :: "u16 \<Rightarrow> u16 \<Rightarrow> bool" where
  "ring_full recl tail \<longleftrightarrow> int (unat recl) - int (unat tail) - 1 = 0"

text \<open>Advancing a position.\<close>

definition ring_next :: "u16 \<Rightarrow> u16 \<Rightarrow> u16" where
  "ring_next nb i = (if i + 1 \<ge> nb then 0 else i + 1)"

section \<open>Positions\<close>

text \<open>The number of descriptors from \<open>recl\<close> up to \<open>tail\<close>.\<close>

definition in_flight :: "u16 \<Rightarrow> u16 \<Rightarrow> u16 \<Rightarrow> nat" where
  "in_flight nb recl tail = (unat tail + unat nb - unat recl) mod unat nb"

definition ring_ok :: "u16 \<Rightarrow> u16 \<Rightarrow> u16 \<Rightarrow> bool" where
  "ring_ok nb recl tail \<longleftrightarrow> 2 \<le> unat nb \<and> unat nb \<le> 4096 \<and> recl < nb \<and> tail < nb"

lemma ring_okD:
  assumes "ring_ok nb recl tail"
  shows "2 \<le> unat nb" "unat nb \<le> 4096" "unat recl < unat nb" "unat tail < unat nb"
  using assms by (simp_all add: ring_ok_def word_less_nat_alt)

lemma ring_next_unat:
  assumes "unat nb \<le> 4096" "unat i < unat nb"
  shows "unat (ring_next nb i) = (unat i + 1) mod unat nb"
proof -
  have "unat (i + 1) = unat i + 1"
    using assms unat_add_lem [of i 1] by simp
  moreover have "(unat i + 1) mod unat nb = (if unat nb \<le> unat i + 1 then 0 else unat i + 1)"
    using assms(2) by (cases "unat i + 1 = unat nb") auto
  ultimately show ?thesis by (simp add: ring_next_def word_le_nat_alt)
qed

lemma ring_next_less: "ring_ok nb recl tail \<Longrightarrow> i < nb \<Longrightarrow> ring_next nb i < nb"
  using ring_next_unat [of nb i] ring_okD [of nb recl tail]
  by (auto simp: word_less_nat_alt intro!: mod_less_divisor)

lemma in_flight_less: "ring_ok nb recl tail \<Longrightarrow> in_flight nb recl tail < unat nb"
  using ring_okD(1) [of nb recl tail] by (simp add: in_flight_def)

lemma in_flight_tail:
  assumes "ring_ok nb recl tail"
  shows "(unat recl + in_flight nb recl tail) mod unat nb = unat tail"
  using ring_okD [OF assms] by (simp add: in_flight_def mod_simps)

lemma in_flight_0: "ring_ok nb recl tail \<Longrightarrow> in_flight nb recl tail = 0 \<longleftrightarrow> recl = tail"
proof -
  assume ok: "ring_ok nb recl tail"
  have "recl = tail" if "in_flight nb recl tail = 0"
    using in_flight_tail [OF ok] that ring_okD [OF ok] by (simp add: word_unat_eq_iff)
  then show ?thesis using ring_okD [OF ok] by (auto simp: in_flight_def)
qed

lemma in_flight_push:
  assumes ok: "ring_ok nb recl tail" and lt: "in_flight nb recl tail + 1 < unat nb"
  shows "in_flight nb recl (ring_next nb tail) = in_flight nb recl tail + 1"
proof -
  note d = ring_okD [OF ok]
  have "in_flight nb recl (ring_next nb tail) = ((unat tail + 1) mod unat nb + (unat nb - unat recl)) mod unat nb"
    using d by (simp add: in_flight_def ring_next_unat)
  also have "\<dots> = (unat tail + (unat nb - unat recl) + 1) mod unat nb"
    by (simp only: mod_add_left_eq) (simp add: ac_simps)
  also have "\<dots> = (in_flight nb recl tail + 1) mod unat nb"
    using d by (simp add: in_flight_def mod_Suc_eq)
  finally show ?thesis using lt by simp
qed

lemma in_flight_pop:
  assumes ok: "ring_ok nb recl tail" and pos: "0 < in_flight nb recl tail"
  shows "in_flight nb (ring_next nb recl) tail = in_flight nb recl tail - 1"
proof -
  note d = ring_okD [OF ok]
  have ok': "ring_ok nb (ring_next nb recl) tail"
    using ok ring_next_less [OF ok] by (simp add: ring_ok_def)
  have "(unat recl + 1 + in_flight nb (ring_next nb recl) tail) mod unat nb =
      (unat recl + 1 + (in_flight nb recl tail - 1)) mod unat nb"
    using in_flight_tail [OF ok] in_flight_tail [OF ok'] d pos
    by (simp add: ring_next_unat mod_simps)
  then show ?thesis
    using ring_pos_inj [of "in_flight nb (ring_next nb recl) tail" "in_flight nb recl tail - 1" "unat nb" "unat recl + 1"]
      ring_pos_inj [of "in_flight nb recl tail - 1" "in_flight nb (ring_next nb recl) tail" "unat nb" "unat recl + 1"]
      in_flight_less [OF ok] in_flight_less [OF ok'] by (metis less_imp_diff_less linorder_neqE_nat)
qed

text \<open>The full test is right in every state but one: \<open>recl\<close> at the first and \<open>tail\<close> at the last
  descriptor.\<close>

definition wrap_gap :: "u16 \<Rightarrow> u16 \<Rightarrow> u16 \<Rightarrow> bool" where
  "wrap_gap nb recl tail \<longleftrightarrow> recl = 0 \<and> tail = nb - 1"

lemma ring_full_iff: "ring_full recl tail \<longleftrightarrow> unat recl = unat tail + 1"
  unfolding ring_full_def by linarith

lemma in_flight_full:
  assumes ok: "ring_ok nb recl tail"
  shows "in_flight nb recl tail + 1 = unat nb \<longleftrightarrow> ring_full recl tail \<or> wrap_gap nb recl tail"
proof -
  note d = ring_okD [OF ok]
  have last: "unat (nb - 1) = unat nb - 1"
    using d(1) by (intro unat_minus_one) auto
  show ?thesis
  proof (cases "unat recl \<le> unat tail")
    case True
    have "unat tail + unat nb - unat recl = unat tail - unat recl + unat nb" using True d by simp
    then have "in_flight nb recl tail = (unat tail - unat recl) mod unat nb"
      by (simp only: in_flight_def mod_add_self2)
    then have "in_flight nb recl tail = unat tail - unat recl" using d by simp
    moreover have "wrap_gap nb recl tail \<longleftrightarrow> unat recl = 0 \<and> unat tail = unat nb - 1"
      unfolding wrap_gap_def last [symmetric] by (auto simp: word_unat_eq_iff)
    ultimately show ?thesis using True d by (auto simp: ring_full_iff)
  next
    case False
    then have "in_flight nb recl tail = unat tail + unat nb - unat recl" using d
      by (simp add: in_flight_def)
    moreover have "recl \<noteq> 0" using False by auto
    ultimately show ?thesis using False d by (auto simp: ring_full_iff wrap_gap_def)
  qed
qed

section \<open>Mbufs in a ring\<close>

text \<open>An mbuf that lies in the region of its mempool, with its data inside its buffer.\<close>

definition mbuf_good :: "'a dpdk_queue_scheme \<Rightarrow> u64 \<Rightarrow> bool" where
  "mbuf_good q a \<longleftrightarrow>
     (\<exists>m r. mbuf_of_region q a m r \<and>
        unat (a - r_base_addr r) + unat (buf_len m) \<le> unat (r_len r) \<and>
        unat (data_off m) + unat (data_len m) \<le> unat (buf_len m))"


text \<open>Where the mbuf of a buffer is: what the rings keep of a buffer.\<close>

definition buf_addr :: "region_pool \<Rightarrow> cleanq_buf \<Rightarrow> u64" where
  "buf_addr p b =
     (case base_addr_of_region p (b_rid b) of Inl _ \<Rightarrow> 0 | Inr base \<Rightarrow> base + b_offset b)"

lemma cleanq_buf_to_mbuf_addr: "cleanq_buf_to_mbuf q b = Inr a \<Longrightarrow> buf_addr (cq_pool q) b = a"
  by (auto simp: cleanq_buf_to_mbuf_def buf_addr_def bindc_eq_Inr Let_def split: if_splits)

lemma mbuf_goodE:
  assumes inv: "pool_inv (cq_pool q)" "regions_apart (cq_pool q)" and a: "mbuf_good q a"
  obtains m r where "mbufs q a = Some m" "mbuf_to_cleanq_buf q a = Inr (mbuf_buf a m r)"
    "in_bounds (cq_pool q) (mbuf_buf a m r)" "buf_addr (cq_pool q) (mbuf_buf a m r) = a"
    "cleanq_buf_to_mbuf q (mbuf_buf a m r) = Inr a"
proof -
  obtain m r where m: "mbuf_of_region q a m r"
    "unat (a - r_base_addr r) + unat (buf_len m) \<le> unat (r_len r)"
    "unat (data_off m) + unat (data_len m) \<le> unat (buf_len m)"
    using a by (auto simp: mbuf_good_def)
  have "mbuf_to_cleanq_buf q a = Inr (mbuf_buf a m r)"
    by (rule mbuf_to_cleanq_buf_apart [OF inv m(1)])
  then show thesis
    using that m(1) mbuf_buf_in_bounds [OF inv(1) m] cleanq_buf_to_mbuf_addr [OF cleanq_buf_to_mbuf_eq [OF inv(1) m(1)]]
      cleanq_buf_to_mbuf_eq [OF inv(1) m(1)]
    by (auto simp: mbuf_of_region_def)
qed

section \<open>Overrunning a ring\<close>

text \<open>Where the elements of a ring are: \<open>all\<close> went in, \<open>outs\<close> came out, each element of \<open>lost\<close> is a block that an
  enqueue in the gap dropped, and \<open>inside\<close> is in the ring. What is inside is what went in last; the rest came out
  or was lost, both in order.\<close>

definition account :: "'v list \<Rightarrow> 'v list \<Rightarrow> 'v list list \<Rightarrow> 'v list \<Rightarrow> bool" where
  "account all outs lost inside \<longleftrightarrow> (\<exists>gone. all = gone @ inside \<and> gone \<in> shuffles outs (concat lost))"

lemma account_start: "account inside [] [] inside"
  by (simp add: account_def)

lemma account_push: "account all outs lost inside \<Longrightarrow> account (all @ [x]) outs lost (inside @ [x])"
  by (auto simp: account_def)

lemma account_pop: "account all outs lost (x # inside) \<Longrightarrow> account all (outs @ [x]) lost inside"
  using shuffles_append_left [of _ outs "concat lost" "[x]"] by (fastforce simp: account_def)

lemma account_lose: "account all outs lost inside \<Longrightarrow> account (all @ [x]) outs (lost @ [inside @ [x]]) []"
  using shuffles_append_right [of _ outs "concat lost" "inside @ [x]"] by (auto simp: account_def)

lemma account_no_loss: "account all outs [] inside \<longleftrightarrow> all = outs @ inside"
  by (auto simp: account_def shuffles_commutes [of _ "[]"])

text \<open>What an enqueue loses: in the gap the whole ring, with the new element.\<close>

definition overrun :: "bool \<Rightarrow> errval \<Rightarrow> 'v list \<Rightarrow> 'v list list" where
  "overrun gap err block = (if err_is_ok err \<and> gap then [block] else [])"

text \<open>A backend whose full test misses a full ring in the states \<open>gap\<close>: an enqueue there succeeds and leaves a ring
  that counts as empty. \<open>good\<close> is what the caller must make sure of in any state.\<close>

locale gap_backend = cleanq_backend f inv contents view pre ready full
  for f :: "'a cleanq_scheme cleanq_func_pointer" and inv :: "'a cleanq_scheme \<Rightarrow> bool" and contents :: "'a cleanq_scheme \<Rightarrow> 'v list"
    and view pre ready full +
  fixes gap :: "'a cleanq_scheme \<Rightarrow> bool" and good :: "'a cleanq_scheme \<Rightarrow> cleanq_buf \<Rightarrow> bool" and capacity :: "'a cleanq_scheme \<Rightarrow> nat"
  assumes good_pre: "good q b \<Longrightarrow> \<not> gap q \<Longrightarrow> pre q b"
    and gap_law: "inv q \<Longrightarrow> gap q \<Longrightarrow> good q b \<Longrightarrow>
      length (contents q) + 1 = capacity q \<and>
      (\<exists>q'. fcall (f_enq f) (\<lambda>enq. enq q b) = Inr (CLEANQ_ERR_OK, q') \<and> inv q' \<and> contents q' = [])"
begin

lemma overrun_capacity:
  assumes "inv q" "in_bounds (cq_pool q) b \<longrightarrow> good q b" "cleanq_enqueue f q b = Inr (err, q')"
    and "blk \<in> set (overrun (gap q) err (contents q @ [x]))"
  shows "length blk = capacity q"
proof -
  have "in_bounds (cq_pool q) b" "gap q" "blk = contents q @ [x]"
    using assms(3,4) by (auto simp: overrun_def cleanq_enqueue_def bindc_eq_Inr err_is_ok_def split: if_splits)
  then show ?thesis using gap_law [OF assms(1)] assms(2) by simp
qed

lemma enqueue_account:
  assumes inv: "inv q" and g: "in_bounds (cq_pool q) b \<longrightarrow> good q b" and e: "cleanq_enqueue f q b = Inr (err, q')"
    and acc: "account all outs lost (contents q)"
  shows "inv q' \<and> account (if err_is_ok err then all @ [view (cq_pool q) b] else all) outs (lost @ overrun (gap q) err (contents q @ [view (cq_pool q) b])) (contents q')"
proof (cases "gap q \<and> in_bounds (cq_pool q) b")
  case True
  then obtain q1 where "fcall (f_enq f) (\<lambda>enq. enq q b) = Inr (CLEANQ_ERR_OK, q1)" "inv q1" "contents q1 = []"
    using gap_law [OF inv] g by metis
  then show ?thesis using e True account_lose [OF acc] by (simp add: cleanq_enqueue_def overrun_def)
next
  case False
  then have "in_bounds (cq_pool q) b \<Longrightarrow> pre q b" using g good_pre by blast
  from inv this show ?thesis
    by (rule enqueue_spec) (use e inv acc False account_push [OF acc] in \<open>auto simp: overrun_def err_is_ok_def\<close>)
qed

lemma dequeue_account:
  assumes inv: "inv q" and e: "cleanq_dequeue f q b = Inr (err, b', q')" and acc: "account all outs lost (contents q)"
  shows "inv q' \<and> account all (if err_is_ok err then outs @ [view (cq_pool q) b'] else outs) lost (contents q')"
  by (rule dequeue_spec [OF inv, of b]) (use e inv acc account_pop in \<open>auto simp: err_is_ok_def\<close>)

end

end
