(* ===== verification/Ixgbe_Tx.thy ===== *)
theory Ixgbe_Tx
  imports Ixgbe_Ring
begin

text \<open>
  The transmit queue of the ixgbe driver as a CleanQ backend, \<open>drivers/net/ixgbe/ixgbe_cleanq.c\<close>:
  a descriptor ring shared with the network card and a software ring of mbufs. Software fills
  descriptors at \<open>tx_tail\<close> and takes mbufs back at \<open>tx_recl\<close>; the card reports completion by the
  descriptor-done bit of every \<open>tx_rs_thresh\<close>-th descriptor.

  Contents: the operations; the ring as the list of mbufs between \<open>tx_recl\<close> and \<open>tx_tail\<close>; the
  interpretation of the backend contract, with and without the state in which the full test misses; the steps of the
  card; the states in which that test misses and in which a buffer is handed back before the card has sent it.
\<close>

section \<open>State\<close>

text \<open>A descriptor: the read format. The write-back format overlays it, its \<open>status\<close> is the word
  \<open>olinfo_status\<close>.\<close>

record ixgbe_adv_tx_desc =
  buffer_addr :: u64
  cmd_type_len :: u32
  olinfo_status :: u32

abbreviation wb_status :: "ixgbe_adv_tx_desc \<Rightarrow> u32" where
  "wb_status d \<equiv> olinfo_status d"

record ixgbe_tx_entry =
  te_mbuf :: u64
  te_next_id :: u16
  te_last_id :: u16

record ixgbe_tx_queue = dpdk_queue +
  tx_ring :: "ixgbe_adv_tx_desc list"
  tx_sw_ring :: "ixgbe_tx_entry list"
  tdt_reg :: u32
  nb_tx_desc :: u16
  tx_tail :: u16
  tx_recl :: u16
  tx_rs_thresh :: u16
  nb_tx_used :: u16
  last_desc_cleaned :: u16
  nb_tx_free :: u16
  tx_next_dd :: u16
  tx_next_rs :: u16
  ctx_curr :: u32
  tx_free_thresh :: u16
  tx_queue_id :: u16
  tx_reg_idx :: u16
  tx_port_id :: u16
  pthresh :: u8
  hthresh :: u8
  wthresh :: u8
  tx_offloads :: u64
  tx_ops_set :: bool
  tx_deferred_start :: u8
  tx_using_ipsec :: bool
  tdt_reg_addr :: u32
  tx_ring_phys_addr :: u64

definition IXGBE_ADVTXD_STAT_DD :: u32 where
  "IXGBE_ADVTXD_STAT_DD = 0x00000001"

definition IXGBE_ADVTXD_DCMD_RS :: u32 where
  "IXGBE_ADVTXD_DCMD_RS = 0x08000000"

definition DCMD_DTYP_FLAGS :: u32 where
  "DCMD_DTYP_FLAGS = 0x00300000 OR 0x02000000 OR 0x20000000 OR 0x01000000"

definition IXGBE_ADVTXD_PAYLEN_SHIFT :: nat where
  "IXGBE_ADVTXD_PAYLEN_SHIFT = 14"

section \<open>Operations\<close>

definition rte_mbuf_data_iova :: "rte_mbuf \<Rightarrow> u64" where
  "rte_mbuf_data_iova mb = buf_iova mb + ucast (data_off mb)"

text \<open>Filling a descriptor from an mbuf.\<close>

definition tx_descriptor :: "rte_mbuf \<Rightarrow> ixgbe_adv_tx_desc" where
  "tx_descriptor mb =
     (let len = ucast (data_len mb) in
      \<lparr>buffer_addr = rte_mbuf_data_iova mb,
       cmd_type_len = DCMD_DTYP_FLAGS OR len,
       olinfo_status = push_bit IXGBE_ADVTXD_PAYLEN_SHIFT len\<rparr>)"

text \<open>The next descriptor with a status report, \<open>tx_rs_thresh\<close> further on.\<close>

definition next_thresh :: "ixgbe_tx_queue \<Rightarrow> u16 \<Rightarrow> u16" where
  "next_thresh txq i =
     (let i' = i + tx_rs_thresh txq in
      if i' \<ge> nb_tx_desc txq then tx_rs_thresh txq - 1 else i')"

definition ixgbe_tx_cleanq_enqueue ::
  "ixgbe_tx_queue \<Rightarrow> cleanq_buf \<Rightarrow> (errval \<times> ixgbe_tx_queue) cres" where
  "ixgbe_tx_cleanq_enqueue txq cqbuf =
     bindc (cleanq_buf_to_mbuf txq cqbuf) (\<lambda>mb.
     if ring_full (tx_recl txq) (tx_tail txq) then Inr (CLEANQ_ERR_QUEUE_FULL, txq)
     else
     bindc (arr_get (tx_sw_ring txq) (unat (tx_tail txq))) (\<lambda>txep.
     bindc (arr_set (tx_sw_ring txq) (unat (tx_tail txq)) (txep\<lparr>te_mbuf := mb\<rparr>)) (\<lambda>sw.
     bindc (deref (mbufs txq) mb) (\<lambda>m.
     let rs = (tx_tail txq = tx_next_rs txq);
         txdp = tx_descriptor m;
         txdp' = (if rs then txdp\<lparr>cmd_type_len := cmd_type_len txdp OR IXGBE_ADVTXD_DCMD_RS\<rparr> else txdp);
         next_rs = (if rs then next_thresh txq (tx_next_rs txq) else tx_next_rs txq);
         tail = ring_next (nb_tx_desc txq) (tx_tail txq)
     in bindc (arr_set (tx_ring txq) (unat (tx_tail txq)) txdp') (\<lambda>ring.
     Inr (CLEANQ_ERR_OK, txq\<lparr>tx_sw_ring := sw, tx_ring := ring, tx_next_rs := next_rs,
                            tx_tail := tail, tdt_reg := ucast tail\<rparr>))))))"

definition ixgbe_tx_cleanq_dequeue ::
  "ixgbe_tx_queue \<Rightarrow> cleanq_buf \<Rightarrow> (errval \<times> cleanq_buf \<times> ixgbe_tx_queue) cres" where
  "ixgbe_tx_cleanq_dequeue txq b =
     (if tx_recl txq = tx_tail txq then Inr (CLEANQ_ERR_QUEUE_EMPTY, b, txq)
      else
      bindc (arr_get (tx_ring txq) (unat (tx_next_dd txq))) (\<lambda>d.
      if wb_status d AND IXGBE_ADVTXD_STAT_DD = 0 then Inr (CLEANQ_ERR_QUEUE_EMPTY, b, txq)
      else
      bindc (arr_get (tx_sw_ring txq) (unat (tx_recl txq))) (\<lambda>txep.
      bindc (arr_set (tx_sw_ring txq) (unat (tx_recl txq)) (txep\<lparr>te_mbuf := 0\<rparr>)) (\<lambda>sw.
      let mb = te_mbuf txep;
          next_dd = (if tx_recl txq + 1 > tx_next_dd txq then next_thresh txq (tx_next_dd txq)
                     else tx_next_dd txq);
          recl = ring_next (nb_tx_desc txq) (tx_recl txq);
          txq' = txq\<lparr>tx_sw_ring := sw, tx_recl := recl, tx_next_dd := next_dd\<rparr>
      in bindc (mbuf_to_cleanq_buf txq' mb) (\<lambda>cqbuf. Inr (CLEANQ_ERR_OK, cqbuf, txq'))))))"

definition ixgbe_tx_f :: "ixgbe_tx_queue cleanq_func_pointer" where
  "ixgbe_tx_f =
     \<lparr>f_reg = Some ixgbe_cleanq_register, f_dereg = Some ixgbe_cleanq_deregister,
      f_ctrl = None, f_notify = None,
      f_enq = Some ixgbe_tx_cleanq_enqueue, f_deq = Some ixgbe_tx_cleanq_dequeue,
      f_destroy = None\<rparr>"

text \<open>The queue keeps its other fields; its function pointers become \<open>ixgbe_tx_f\<close>.\<close>

definition ixgbe_tx_cleanq_create ::
  "bool \<Rightarrow> bool \<Rightarrow> u32 \<Rightarrow> ixgbe_tx_queue \<Rightarrow> errval \<times> ixgbe_tx_queue" where
  "ixgbe_tx_cleanq_create calloc1 calloc2 rnd txq =
     (case cleanq_init calloc1 calloc2 rnd of
        (err, None) \<Rightarrow> (err, txq)
      | (err, Some p) \<Rightarrow> if err_is_fail err then (err, txq) else (CLEANQ_ERR_OK, txq\<lparr>cq_pool := p\<rparr>))"

text \<open>\<open>ixgbe_reset_tx_queue\<close> of \<open>ixgbe_rxtx.c\<close>: both rings and the positions. The two loops write
  every index below \<open>nb_tx_desc\<close> of the rings.\<close>

definition reset_entry :: "u16 \<Rightarrow> nat \<Rightarrow> ixgbe_tx_entry" where
  "reset_entry nb i =
     \<lparr>te_mbuf = 0, te_next_id = (if i + 1 = unat nb then 0 else of_nat (i + 1)), te_last_id = of_nat i\<rparr>"

definition ixgbe_reset_tx_queue :: "ixgbe_tx_queue \<Rightarrow> ixgbe_tx_queue cres" where
  "ixgbe_reset_tx_queue txq =
     (let nb = unat (nb_tx_desc txq) in
      if length (tx_ring txq) < nb \<or> length (tx_sw_ring txq) < nb then Inl Bad_Memory
      else Inr (txq\<lparr>
        tx_ring := replicate nb \<lparr>buffer_addr = 0, cmd_type_len = 0, olinfo_status = IXGBE_ADVTXD_STAT_DD\<rparr>
                     @ drop nb (tx_ring txq),
        tx_sw_ring := map (reset_entry (nb_tx_desc txq)) [0..<nb] @ drop nb (tx_sw_ring txq),
        tx_next_dd := tx_rs_thresh txq - 1, tx_next_rs := tx_rs_thresh txq - 1,
        tx_tail := 0, nb_tx_used := 0, tx_recl := 0,
        last_desc_cleaned := nb_tx_desc txq - 1, nb_tx_free := nb_tx_desc txq - 1, ctx_curr := 0\<rparr>))"

section \<open>The ring as a list of mbufs\<close>

definition tx_contents :: "ixgbe_tx_queue \<Rightarrow> u64 list" where
  "tx_contents q =
     ring_contents (map te_mbuf (tx_sw_ring q)) (unat (tx_recl q))
       (in_flight (nb_tx_desc q) (tx_recl q) (tx_tail q))"

definition tx_inv :: "ixgbe_tx_queue \<Rightarrow> bool" where
  "tx_inv q \<longleftrightarrow>
     ring_ok (nb_tx_desc q) (tx_recl q) (tx_tail q) \<and>
     unat (nb_tx_desc q) \<le> length (tx_ring q) \<and> length (tx_sw_ring q) = unat (nb_tx_desc q) \<and>
     0 < tx_rs_thresh q \<and> tx_rs_thresh q \<le> nb_tx_desc q \<and>
     tx_next_dd q < nb_tx_desc q \<and> tx_next_rs q < nb_tx_desc q \<and>
     pool_inv (cq_pool q) \<and> regions_apart (cq_pool q) \<and> (\<forall>a\<in>set (tx_contents q). mbuf_good q a)"

text \<open>What the caller of \<open>cleanq_enqueue\<close> must have made sure of, when the ring is not full and when the
  oldest mbuf can be taken back.\<close>

definition tx_pre :: "ixgbe_tx_queue \<Rightarrow> cleanq_buf \<Rightarrow> bool" where
  "tx_pre q b \<longleftrightarrow> \<not> wrap_gap (nb_tx_desc q) (tx_recl q) (tx_tail q) \<and>
     (\<exists>a. cleanq_buf_to_mbuf q b = Inr a \<and> mbuf_good q a)"

definition tx_full :: "ixgbe_tx_queue \<Rightarrow> bool" where
  "tx_full q \<longleftrightarrow> ring_full (tx_recl q) (tx_tail q)"

definition tx_ready :: "ixgbe_tx_queue \<Rightarrow> bool" where
  "tx_ready q \<longleftrightarrow> tx_recl q \<noteq> tx_tail q \<and>
     wb_status (tx_ring q ! unat (tx_next_dd q)) AND IXGBE_ADVTXD_STAT_DD \<noteq> 0"

section \<open>The contract\<close>

lemma tx_invD:
  assumes "tx_inv q"
  shows "ring_ok (nb_tx_desc q) (tx_recl q) (tx_tail q)"
    "unat (nb_tx_desc q) \<le> length (tx_ring q)" "length (tx_sw_ring q) = unat (nb_tx_desc q)"
    "unat (tx_tail q) < unat (nb_tx_desc q)" "unat (tx_recl q) < unat (nb_tx_desc q)"
    "unat (tx_next_dd q) < unat (nb_tx_desc q)"
    "pool_inv (cq_pool q)" "regions_apart (cq_pool q)"
  using assms by (simp_all add: tx_inv_def word_less_nat_alt ring_ok_def)

text \<open>The invariant with the positions of another state: what the operations re-establish.\<close>

lemma next_thresh_less:
  assumes "tx_inv q" "i < nb_tx_desc q"
  shows "next_thresh q i < nb_tx_desc q"
proof -
  have "0 < tx_rs_thresh q" "tx_rs_thresh q \<le> nb_tx_desc q" using assms(1) by (simp_all add: tx_inv_def)
  moreover from this have "tx_rs_thresh q - 1 < tx_rs_thresh q"
    by (simp add: word_less_nat_alt unat_minus_one unat_gt_0)
  ultimately show ?thesis by (auto simp: next_thresh_def Let_def)
qed

lemma mbuf_good_cong:
  assumes "cq_pool q' = cq_pool q" "mempools q' = mempools q" "mbufs q' = mbufs q"
  shows "mbuf_good q' a = mbuf_good q a"
  using assms by (simp add: mbuf_good_def mbuf_of_region_def)

lemma ixgbe_tx_enqueue_spec:
  assumes inv: "tx_inv q" and pre: "tx_pre q b" and nf: "\<not> tx_full q"
  obtains q' where "ixgbe_tx_cleanq_enqueue q b = Inr (CLEANQ_ERR_OK, q')" "tx_inv q'"
    "cq_pool q' = cq_pool q" "tx_contents q' = tx_contents q @ [buf_addr (cq_pool q) b]"
    "tdt_reg q' = ucast (tx_tail q')" "tx_recl q' = tx_recl q" "tx_next_dd q' = tx_next_dd q"
    "tx_tail q' = ring_next (nb_tx_desc q) (tx_tail q)"
    "\<And>i. i \<noteq> unat (tx_tail q) \<Longrightarrow> tx_ring q' ! i = tx_ring q ! i"
    "mempools q' = mempools q" "mbufs q' = mbufs q" "nb_tx_desc q' = nb_tx_desc q"
proof -
  note d = tx_invD [OF inv]
  let ?t = "unat (tx_tail q)" and ?n = "in_flight (nb_tx_desc q) (tx_recl q) (tx_tail q)"
  obtain a where a: "cleanq_buf_to_mbuf q b = Inr a" "mbuf_good q a" using pre by (auto simp: tx_pre_def)
  obtain m where m: "mbufs q a = Some m" using mbuf_goodE [OF d(7,8) a(2)] by metis
  have lt: "?n + 1 < unat (nb_tx_desc q)"
    using in_flight_full [OF d(1)] in_flight_less [OF d(1)] pre nf by (auto simp: tx_pre_def tx_full_def)
  define e where "e = (tx_sw_ring q ! ?t)\<lparr>te_mbuf := a\<rparr>"
  define desc where "desc = (let dd = tx_descriptor m in
    if tx_tail q = tx_next_rs q then dd\<lparr>cmd_type_len := cmd_type_len dd OR IXGBE_ADVTXD_DCMD_RS\<rparr> else dd)"
  define q' where "q' = q\<lparr>tx_sw_ring := (tx_sw_ring q)[?t := e], tx_ring := (tx_ring q)[?t := desc],
    tx_next_rs := (if tx_tail q = tx_next_rs q then next_thresh q (tx_next_rs q) else tx_next_rs q),
    tx_tail := ring_next (nb_tx_desc q) (tx_tail q),
    tdt_reg := ucast (ring_next (nb_tx_desc q) (tx_tail q))\<rparr>"
  have "\<not> ring_full (tx_recl q) (tx_tail q)" using nf by (simp add: tx_full_def)
  then have eq: "ixgbe_tx_cleanq_enqueue q b = Inr (CLEANQ_ERR_OK, q')"
    using a(1) m d(2-4) by (simp add: ixgbe_tx_cleanq_enqueue_def Let_def q'_def e_def desc_def)
  have c: "tx_contents q' = tx_contents q @ [a]"
    using ring_push [of ?n "map te_mbuf (tx_sw_ring q)" "unat (tx_recl q)" a] lt d(3)
      in_flight_tail [OF d(1)] in_flight_push [OF d(1) lt]
    by (simp add: tx_contents_def q'_def e_def map_update)
  have ok': "ring_ok (nb_tx_desc q) (tx_recl q) (ring_next (nb_tx_desc q) (tx_tail q))"
    using d(1) ring_next_less [OF d(1)] by (simp add: ring_ok_def)
  have "tx_next_rs q' < nb_tx_desc q"
    using inv next_thresh_less [OF inv] by (simp add: q'_def tx_inv_def)
  moreover have "mbuf_good q' x = mbuf_good q x" for x by (rule mbuf_good_cong) (simp_all add: q'_def)
  ultimately have "tx_inv q'"
    unfolding tx_inv_def c using inv ok' a(2) by (simp add: tx_inv_def) (simp add: q'_def)
  then show thesis
    using that eq c cleanq_buf_to_mbuf_addr [OF a(1)] by (simp add: q'_def)
qed

lemma ixgbe_tx_enqueue_full:
  assumes "tx_pre q b" "tx_full q"
  shows "ixgbe_tx_cleanq_enqueue q b = Inr (CLEANQ_ERR_QUEUE_FULL, q)"
  using assms by (auto simp: tx_pre_def tx_full_def ixgbe_tx_cleanq_enqueue_def)

lemma ixgbe_tx_dequeue_spec:
  assumes inv: "tx_inv q" and rd: "tx_ready q"
  obtains b' q' where "ixgbe_tx_cleanq_dequeue q b = Inr (CLEANQ_ERR_OK, b', q')" "tx_inv q'"
    "cq_pool q' = cq_pool q" "tx_contents q = buf_addr (cq_pool q) b' # tx_contents q'"
    "in_bounds (cq_pool q) b'" "cleanq_buf_to_mbuf q' b' = Inr (buf_addr (cq_pool q) b')"
    "mempools q' = mempools q" "mbufs q' = mbufs q" "nb_tx_desc q' = nb_tx_desc q"
proof -
  note d = tx_invD [OF inv]
  let ?r = "unat (tx_recl q)" and ?n = "in_flight (nb_tx_desc q) (tx_recl q) (tx_tail q)"
  let ?a = "te_mbuf (tx_sw_ring q ! ?r)"
  have pos: "0 < ?n" using rd in_flight_0 [OF d(1)] by (simp add: tx_ready_def)
  define q' where "q' = q\<lparr>tx_sw_ring := (tx_sw_ring q)[?r := (tx_sw_ring q ! ?r)\<lparr>te_mbuf := 0\<rparr>],
    tx_recl := ring_next (nb_tx_desc q) (tx_recl q),
    tx_next_dd := (if tx_recl q + 1 > tx_next_dd q then next_thresh q (tx_next_dd q) else tx_next_dd q)\<rparr>"
  let ?buf = "(map te_mbuf (tx_sw_ring q))"
  have next_r: "unat (ring_next (nb_tx_desc q) (tx_recl q)) = (?r + 1) mod unat (nb_tx_desc q)"
    using ring_next_unat ring_okD [OF d(1)] by simp
  have "tx_contents q' = ring_contents (?buf[?r := 0]) ((?r + 1) mod length ?buf) (?n - 1)"
    using in_flight_pop [OF d(1) pos] next_r d(3) by (simp add: tx_contents_def q'_def map_update)
  also have "\<dots> = ring_contents ?buf ((?r + 1) mod length ?buf) (?n - 1)"
    using in_flight_less [OF d(1)] d(3,5) by (intro ring_contents_update_first [OF pos]) auto
  finally have c: "tx_contents q = ?a # tx_contents q'"
    using ring_pop [OF pos, of ?r ?buf] d(3,5) by (simp add: tx_contents_def)
  have good: "mbuf_good q ?a" using inv c by (simp add: tx_inv_def)
  have same: "mbuf_good q' x = mbuf_good q x" for x by (rule mbuf_good_cong) (simp_all add: q'_def)
  have p: "cq_pool q' = cq_pool q" by (simp add: q'_def)
  obtain m r where m: "mbuf_to_cleanq_buf q' ?a = Inr (mbuf_buf ?a m r)"
    "in_bounds (cq_pool q) (mbuf_buf ?a m r)" "buf_addr (cq_pool q) (mbuf_buf ?a m r) = ?a"
    "cleanq_buf_to_mbuf q' (mbuf_buf ?a m r) = Inr ?a"
    using mbuf_goodE [of q' ?a] d(7,8) good same p by metis
  have eq: "ixgbe_tx_cleanq_dequeue q b = Inr (CLEANQ_ERR_OK, mbuf_buf ?a m r, q')"
    using rd d(2,3,5,6) m(1)
    by (simp add: ixgbe_tx_cleanq_dequeue_def tx_ready_def Let_def q'_def)
  have ok': "ring_ok (nb_tx_desc q) (ring_next (nb_tx_desc q) (tx_recl q)) (tx_tail q)"
    using d(1) ring_next_less [OF d(1)] by (simp add: ring_ok_def)
  have "tx_next_dd q' < nb_tx_desc q"
    using inv next_thresh_less [OF inv] by (simp add: q'_def tx_inv_def)
  moreover have "\<forall>x\<in>set (tx_contents q'). mbuf_good q x" using inv c by (simp add: tx_inv_def)
  ultimately have "tx_inv q'"
    unfolding tx_inv_def same using inv ok' by (simp add: tx_inv_def) (simp add: q'_def)
  then show thesis by (rule that [OF eq _ p]) (use c m in \<open>simp_all add: q'_def\<close>)
qed

lemma ixgbe_tx_dequeue_empty:
  assumes "tx_inv q" "\<not> tx_ready q"
  shows "ixgbe_tx_cleanq_dequeue q b = Inr (CLEANQ_ERR_QUEUE_EMPTY, b, q)"
  using assms tx_invD [OF assms(1)] by (auto simp: ixgbe_tx_cleanq_dequeue_def tx_ready_def)

interpretation tx: cleanq_backend ixgbe_tx_f tx_inv tx_contents buf_addr tx_pre tx_ready tx_full
proof unfold_locales
  fix q b assume a: "tx_inv q" "tx_pre q b"
  show "\<exists>err q'. fcall (f_enq ixgbe_tx_f) (\<lambda>enq. enq q b) = Inr (err, q') \<and>
      (if tx_full q then err = CLEANQ_ERR_QUEUE_FULL \<and> q' = q
       else err = CLEANQ_ERR_OK \<and> tx_inv q' \<and> cq_pool q' = cq_pool q \<and>
            tx_contents q' = tx_contents q @ [buf_addr (cq_pool q) b])"
  proof (cases "tx_full q")
    case True
    then show ?thesis using ixgbe_tx_enqueue_full [OF a(2)] by (simp add: ixgbe_tx_f_def)
  next
    case False
    then show ?thesis using ixgbe_tx_enqueue_spec [OF a] by (metis fcall_simps(1) ixgbe_tx_f_def
        cleanq_func_pointer.select_convs(5))
  qed
next
  fix q b assume a: "tx_inv q"
  show "\<exists>err b' q'. fcall (f_deq ixgbe_tx_f) (\<lambda>deq. deq q b) = Inr (err, b', q') \<and>
      (if tx_ready q
       then err = CLEANQ_ERR_OK \<and> tx_inv q' \<and> cq_pool q' = cq_pool q \<and>
            tx_contents q = buf_addr (cq_pool q) b' # tx_contents q' \<and> in_bounds (cq_pool q) b'
       else err = CLEANQ_ERR_QUEUE_EMPTY \<and> b' = b \<and> q' = q)"
  proof (cases "tx_ready q")
    case True
    then show ?thesis using ixgbe_tx_dequeue_spec [OF a True, of b] by (metis fcall_simps(1) ixgbe_tx_f_def
        cleanq_func_pointer.select_convs(6))
  next
    case False
    then show ?thesis using ixgbe_tx_dequeue_empty [OF a] by (simp add: ixgbe_tx_f_def)
  qed
qed (simp add: tx_inv_def)

text \<open>In the gap an enqueue is not refused, and the ring counts as empty afterwards.\<close>

definition tx_good :: "ixgbe_tx_queue \<Rightarrow> cleanq_buf \<Rightarrow> bool" where
  "tx_good q b \<longleftrightarrow> (\<exists>a. cleanq_buf_to_mbuf q b = Inr a \<and> mbuf_good q a)"

definition tx_gap :: "ixgbe_tx_queue \<Rightarrow> bool" where
  "tx_gap q \<longleftrightarrow> wrap_gap (nb_tx_desc q) (tx_recl q) (tx_tail q)"

lemma ixgbe_tx_enqueue_gap:
  assumes inv: "tx_inv q" and gap: "tx_gap q" and good: "tx_good q b"
  shows "length (tx_contents q) + 1 = unat (nb_tx_desc q)"
    "\<exists>q'. ixgbe_tx_cleanq_enqueue q b = Inr (CLEANQ_ERR_OK, q') \<and> tx_inv q' \<and> tx_contents q' = [] \<and> tx_recl q' = tx_tail q'"
proof -
  note d = tx_invD [OF inv]
  have n: "in_flight (nb_tx_desc q) (tx_recl q) (tx_tail q) + 1 = unat (nb_tx_desc q)"
    using in_flight_full [OF d(1)] gap by (simp add: tx_gap_def)
  then show "length (tx_contents q) + 1 = unat (nb_tx_desc q)" by (simp add: tx_contents_def)
  have t: "tx_recl q = 0" "tx_tail q = nb_tx_desc q - 1" using gap by (auto simp: tx_gap_def wrap_gap_def)
  have nf: "\<not> ring_full (tx_recl q) (tx_tail q)" by (simp add: ring_full_iff t)
  have z: "ring_next (nb_tx_desc q) (tx_tail q) = 0" by (simp add: ring_next_def t)
  obtain a where a: "cleanq_buf_to_mbuf q b = Inr a" "mbuf_good q a" using good by (auto simp: tx_good_def)
  obtain m where "mbufs q a = Some m" using mbuf_goodE [OF d(7,8) a(2)] by metis
  then have "\<exists>q'. ixgbe_tx_cleanq_enqueue q b = Inr (CLEANQ_ERR_OK, q') \<and> tx_recl q' = 0 \<and> tx_tail q' = 0 \<and>
      nb_tx_desc q' = nb_tx_desc q \<and> length (tx_ring q') = length (tx_ring q) \<and> length (tx_sw_ring q') = length (tx_sw_ring q) \<and>
      tx_rs_thresh q' = tx_rs_thresh q \<and> tx_next_dd q' = tx_next_dd q \<and> cq_pool q' = cq_pool q \<and>
      tx_next_rs q' = (if tx_tail q = tx_next_rs q then next_thresh q (tx_next_rs q) else tx_next_rs q)"
    using a(1) nf d(2-4) z t(1) by (simp add: ixgbe_tx_cleanq_enqueue_def Let_def)
  then obtain q' where q': "ixgbe_tx_cleanq_enqueue q b = Inr (CLEANQ_ERR_OK, q')" "tx_recl q' = 0" "tx_tail q' = 0"
    "nb_tx_desc q' = nb_tx_desc q" "length (tx_ring q') = length (tx_ring q)" "length (tx_sw_ring q') = length (tx_sw_ring q)"
    "tx_rs_thresh q' = tx_rs_thresh q" "tx_next_dd q' = tx_next_dd q" "cq_pool q' = cq_pool q"
    "tx_next_rs q' = (if tx_tail q = tx_next_rs q then next_thresh q (tx_next_rs q) else tx_next_rs q)" by blast
  have c: "tx_contents q' = []" by (simp add: tx_contents_def in_flight_def q')
  have "ring_ok (nb_tx_desc q) 0 0" using d(1) t(1) by (auto simp: ring_ok_def)
  moreover have "tx_next_rs q' < nb_tx_desc q" using inv next_thresh_less [OF inv] q'(10) by (simp add: tx_inv_def)
  ultimately have "tx_inv q'" unfolding tx_inv_def c using inv by (simp add: q'(2-9) tx_inv_def)
  then show "\<exists>q'. ixgbe_tx_cleanq_enqueue q b = Inr (CLEANQ_ERR_OK, q') \<and> tx_inv q' \<and> tx_contents q' = [] \<and> tx_recl q' = tx_tail q'"
    using q' c by auto
qed

interpretation tx_lossy: gap_backend ixgbe_tx_f tx_inv tx_contents buf_addr tx_pre tx_ready tx_full
  tx_gap tx_good "\<lambda>q. unat (nb_tx_desc q)"
proof unfold_locales
  fix q b assume "tx_inv q" "tx_gap q" "tx_good q b"
  from ixgbe_tx_enqueue_gap [OF this]
  show "length (tx_contents q) + 1 = unat (nb_tx_desc q) \<and>
      (\<exists>q'. fcall (f_enq ixgbe_tx_f) (\<lambda>enq. enq q b) = Inr (CLEANQ_ERR_OK, q') \<and> tx_inv q' \<and> tx_contents q' = [])"
    by (auto simp: ixgbe_tx_f_def)
qed (simp add: tx_pre_def tx_good_def tx_gap_def)

section \<open>The card\<close>

text \<open>Besides the driver, the card writes to the descriptor ring: it may write
  back a descriptor at any time. Nothing is assumed about which one or what it writes.\<close>

definition tx_hw_write :: "ixgbe_tx_queue \<Rightarrow> nat \<Rightarrow> ixgbe_adv_tx_desc \<Rightarrow> ixgbe_tx_queue" where
  "tx_hw_write q i d = q\<lparr>tx_ring := (tx_ring q)[i := d]\<rparr>"

text \<open>A run of the transmit queue: the driver enqueues, dequeues and the card writes, in any order.
  The state carries the mbufs accepted and the mbufs handed back so far.\<close>

inductive tx_run :: "ixgbe_tx_queue \<Rightarrow> ixgbe_tx_queue \<Rightarrow> u64 list \<Rightarrow> u64 list \<Rightarrow> bool" for q0 where
  start: "tx_run q0 q0 [] []"
| enqueue: "tx_run q0 q ins outs \<Longrightarrow> in_bounds (cq_pool q) b \<longrightarrow> tx_pre q b \<Longrightarrow>
    cleanq_enqueue ixgbe_tx_f q b = Inr (err, q') \<Longrightarrow>
    tx_run q0 q' (if err_is_ok err then ins @ [buf_addr (cq_pool q) b] else ins) outs"
| dequeue: "tx_run q0 q ins outs \<Longrightarrow> cleanq_dequeue ixgbe_tx_f q b = Inr (err, b', q') \<Longrightarrow>
    tx_run q0 q' ins (if err_is_ok err then outs @ [buf_addr (cq_pool q) b'] else outs)"
| card: "tx_run q0 q ins outs \<Longrightarrow> i < length (tx_ring q) \<Longrightarrow> tx_run q0 (tx_hw_write q i d) ins outs"

lemma tx_hw_write_inv:
  "tx_inv q \<Longrightarrow> tx_inv (tx_hw_write q i d)" "tx_contents (tx_hw_write q i d) = tx_contents q"
  "cq_pool (tx_hw_write q i d) = cq_pool q"
proof -
  have "mbuf_good (tx_hw_write q i d) = mbuf_good q"
    by (rule ext) (rule mbuf_good_cong; simp add: tx_hw_write_def)
  moreover show "tx_contents (tx_hw_write q i d) = tx_contents q"
    by (simp add: tx_contents_def tx_hw_write_def)
  ultimately show "tx_inv q \<Longrightarrow> tx_inv (tx_hw_write q i d)"
    by (simp add: tx_inv_def) (simp add: tx_hw_write_def)
qed (simp add: tx_hw_write_def)

lemma tx_run_fifo:
  assumes "tx_run q0 q ins outs" "tx_inv q0"
  shows "tx_inv q \<and> tx_contents q0 @ ins = outs @ tx_contents q"
  using assms
proof (induction rule: tx_run.induct)
  case (enqueue q ins outs b err q')
  then have inv: "tx_inv q" and eq: "tx_contents q0 @ ins = outs @ tx_contents q" by auto
  show ?case
    by (rule tx.enqueue_spec [OF inv, of b]) (use enqueue.hyps eq inv in \<open>auto simp: err_is_ok_def\<close>)
next
  case (dequeue q ins outs b err b' q')
  then have inv: "tx_inv q" and eq: "tx_contents q0 @ ins = outs @ tx_contents q" by auto
  show ?case
    by (rule tx.dequeue_spec [OF inv, of b]) (use dequeue.hyps eq inv in \<open>auto simp: err_is_ok_def\<close>)
qed (use tx_hw_write_inv in auto)

text \<open>Any calls, also in the gap, of a driver that enqueues only while fewer than \<open>n\<close> mbufs are in the ring. \<open>lost\<close>
  are the blocks of mbufs that were dropped.\<close>

inductive tx_calls :: "nat \<Rightarrow> ixgbe_tx_queue \<Rightarrow> ixgbe_tx_queue \<Rightarrow> u64 list \<Rightarrow> u64 list \<Rightarrow> u64 list list \<Rightarrow> bool" for n q0 where
  start: "tx_calls n q0 q0 [] [] []"
| enqueue: "tx_calls n q0 q ins outs lost \<Longrightarrow> length (tx_contents q) < n \<Longrightarrow> in_bounds (cq_pool q) b \<longrightarrow> tx_good q b \<Longrightarrow>
    cleanq_enqueue ixgbe_tx_f q b = Inr (err, q') \<Longrightarrow>
    tx_calls n q0 q' (if err_is_ok err then ins @ [buf_addr (cq_pool q) b] else ins) outs
      (lost @ overrun (tx_gap q) err (tx_contents q @ [buf_addr (cq_pool q) b]))"
| dequeue: "tx_calls n q0 q ins outs lost \<Longrightarrow> cleanq_dequeue ixgbe_tx_f q b = Inr (err, b', q') \<Longrightarrow>
    tx_calls n q0 q' ins (if err_is_ok err then outs @ [buf_addr (cq_pool q) b'] else outs) lost"
| card: "tx_calls n q0 q ins outs lost \<Longrightarrow> i < length (tx_ring q) \<Longrightarrow> tx_calls n q0 (tx_hw_write q i d) ins outs lost"

lemma tx_calls_size:
  "cleanq_enqueue ixgbe_tx_f q b = Inr (err, q') \<Longrightarrow> nb_tx_desc q' = nb_tx_desc q"
  "cleanq_dequeue ixgbe_tx_f q b = Inr (err, b', q') \<Longrightarrow> nb_tx_desc q' = nb_tx_desc q"
  by (auto simp: cleanq_enqueue_def cleanq_dequeue_def ixgbe_tx_f_def ixgbe_tx_cleanq_enqueue_def ixgbe_tx_cleanq_dequeue_def
      bindc_eq_Inr Let_def split: if_splits)

lemma tx_calls_account:
  assumes "tx_calls n q0 q ins outs lost" "tx_inv q0"
  shows "tx_inv q \<and> account (tx_contents q0 @ ins) outs lost (tx_contents q) \<and> nb_tx_desc q = nb_tx_desc q0 \<and>
    (\<forall>blk\<in>set lost. length blk = unat (nb_tx_desc q0)) \<and> (n < unat (nb_tx_desc q0) \<longrightarrow> lost = [])"
  using assms
proof (induction rule: tx_calls.induct)
  case start
  then show ?case by (simp add: account_start)
next
  case (enqueue q ins outs lost b err q')
  note ih = enqueue.IH [OF enqueue.prems]
  have i: "tx_inv q" "account (tx_contents q0 @ ins) outs lost (tx_contents q)" using ih by simp_all
  let ?new = "overrun (tx_gap q) err (tx_contents q @ [buf_addr (cq_pool q) b])"
  have "tx_inv q' \<and> account (tx_contents q0 @ (if err_is_ok err then ins @ [buf_addr (cq_pool q) b] else ins)) outs
      (lost @ ?new) (tx_contents q')"
    using tx_lossy.enqueue_account [OF i(1) enqueue.hyps(3,4) i(2)] by (cases "err_is_ok err") simp_all
  moreover have new: "length blk = unat (nb_tx_desc q0)" if "blk \<in> set ?new" for blk
    using tx_lossy.overrun_capacity [OF i(1) enqueue.hyps(3,4) that] ih by simp
  moreover have "?new = []" if "n < unat (nb_tx_desc q0)"
    using new [of "tx_contents q @ [buf_addr (cq_pool q) b]"] enqueue.hyps(2) that by (auto simp: overrun_def)
  ultimately show ?case using ih tx_calls_size(1) [OF enqueue.hyps(4)] by auto
next
  case (dequeue q ins outs lost b err b' q')
  then show ?case using tx_lossy.dequeue_account [OF _ dequeue.hyps(2)] tx_calls_size(2) [OF dequeue.hyps(2)] by auto
next
  case (card q ins outs lost i d)
  then show ?case using tx_hw_write_inv by (simp add: tx_hw_write_def)
qed

section \<open>Properties\<close>

text \<open>Property C2: the transmit ring keeps order, and when it loses mbufs. The driver enqueues good mbufs (of
  a registered mempool, with their data inside) and dequeues while the card writes descriptors at will. The ring stays
  well-formed. The mbufs accepted, after those inside at the start, are those gone followed by those still in the ring;
  the ones gone are those handed back, in order, mixed with those lost, in order. Mbufs are lost only by an
  enqueue in the one state in which the full test misses, with the oldest mbuf in the first and the free descriptor
  at the end of the ring, and then a whole ring of them. A driver that enqueues only while the ring holds
  fewer than \<open>nb_tx_desc - 1\<close> mbufs loses none and gets them back in the order in which it enqueued them.\<close>

theorem ixgbe_tx_fifo:
  assumes "tx_inv q0" "tx_calls n q0 q ins outs lost"
  shows "tx_inv q \<and>
    (\<exists>gone. tx_contents q0 @ ins = gone @ tx_contents q \<and> gone \<in> shuffles outs (concat lost)) \<and>
    (\<forall>blk\<in>set lost. length blk = unat (nb_tx_desc q0)) \<and>
    (n < unat (nb_tx_desc q0) \<longrightarrow> lost = [] \<and> tx_contents q0 @ ins = outs @ tx_contents q)"
  using tx_calls_account [OF assms(2,1)] account_no_loss by (auto simp: account_def [symmetric])

text \<open>A reset queue of four descriptors that reports status on every second one.\<close>

definition demo_txq :: "region_pool \<Rightarrow> ixgbe_tx_queue" where
  "demo_txq p =
     \<lparr>cq_pool = p, cq_state = 0, mempools = [1 \<mapsto> demo_mempool], mbufs = [0x10800 \<mapsto> demo_mbuf],
      tx_ring = replicate 4 \<lparr>buffer_addr = 0, cmd_type_len = 0, olinfo_status = 0\<rparr>,
      tx_sw_ring = replicate 4 \<lparr>te_mbuf = 0x10800, te_next_id = 0, te_last_id = 0\<rparr>,
      tdt_reg = 0, nb_tx_desc = 4, tx_tail = 3, tx_recl = 0, tx_rs_thresh = 2, nb_tx_used = 0,
      last_desc_cleaned = 0, nb_tx_free = 0, tx_next_dd = 1, tx_next_rs = 1, ctx_curr = 0,
      tx_free_thresh = 2, tx_queue_id = 0, tx_reg_idx = 0, tx_port_id = 0, pthresh = 0, hthresh = 0, wthresh = 0,
      tx_offloads = 0, tx_ops_set = True, tx_deferred_start = 0, tx_using_ipsec = False, tdt_reg_addr = 0x6018,
      tx_ring_phys_addr = 0\<rparr>"

lemma reset_tx_inv:
  assumes "ixgbe_reset_tx_queue q0 = Inr q" "unat (nb_tx_desc q0) \<le> length (tx_ring q0)"
    "length (tx_sw_ring q0) = unat (nb_tx_desc q0)" "2 \<le> unat (nb_tx_desc q0)" "unat (nb_tx_desc q0) \<le> 4096"
    "0 < tx_rs_thresh q0" "tx_rs_thresh q0 \<le> nb_tx_desc q0"
    "pool_inv (cq_pool q0)" "regions_apart (cq_pool q0)"
  shows "tx_inv q" "tx_contents q = []" "tx_recl q = 0" "tx_tail q = 0" "tx_next_dd q = tx_rs_thresh q0 - 1"
    "\<And>i. i < unat (nb_tx_desc q) \<Longrightarrow> wb_status (tx_ring q ! i) = IXGBE_ADVTXD_STAT_DD"
    "cq_pool q = cq_pool q0" "mempools q = mempools q0" "mbufs q = mbufs q0" "nb_tx_desc q = nb_tx_desc q0"
proof -
  have q: "q = q0\<lparr>
        tx_ring := replicate (unat (nb_tx_desc q0)) \<lparr>buffer_addr = 0, cmd_type_len = 0, olinfo_status = IXGBE_ADVTXD_STAT_DD\<rparr>
                     @ drop (unat (nb_tx_desc q0)) (tx_ring q0),
        tx_sw_ring := map (reset_entry (nb_tx_desc q0)) [0..<unat (nb_tx_desc q0)],
        tx_next_dd := tx_rs_thresh q0 - 1, tx_next_rs := tx_rs_thresh q0 - 1,
        tx_tail := 0, nb_tx_used := 0, tx_recl := 0,
        last_desc_cleaned := nb_tx_desc q0 - 1, nb_tx_free := nb_tx_desc q0 - 1, ctx_curr := 0\<rparr>"
    using assms(1-3) by (simp add: ixgbe_reset_tx_queue_def Let_def)
  have "tx_rs_thresh q0 - 1 < tx_rs_thresh q0"
    using assms(6) by (simp add: word_less_nat_alt unat_minus_one unat_gt_0)
  then have l: "tx_rs_thresh q0 - 1 < nb_tx_desc q0" using assms(7) by simp
  show c: "tx_contents q = []" by (simp add: q tx_contents_def in_flight_def)
  have "0 < nb_tx_desc q0" using assms(4) by (simp add: word_less_nat_alt)
  then show "tx_inv q" unfolding tx_inv_def c ring_ok_def using assms(4-9) l by (simp add: q)
  show "tx_recl q = 0" "tx_tail q = 0" "tx_next_dd q = tx_rs_thresh q0 - 1"
    "\<And>i. i < unat (nb_tx_desc q) \<Longrightarrow> wb_status (tx_ring q ! i) = IXGBE_ADVTXD_STAT_DD"
    "cq_pool q = cq_pool q0" "mempools q = mempools q0" "mbufs q = mbufs q0" "nb_tx_desc q = nb_tx_desc q0"
    by (simp_all add: q nth_append)
qed

lemma demo_txq_good:
  assumes "pool_map p = [rid \<mapsto> new_region rid demo_cap]"
    "cq_pool q = p" "mempools q = [1 \<mapsto> demo_mempool]" "mbufs q = [0x10800 \<mapsto> demo_mbuf]"
  shows "mbuf_good q 0x10800"
  unfolding mbuf_good_def
  by (rule exI [of _ demo_mbuf], rule exI [of _ "new_region rid demo_cap"])
    (use assms in \<open>simp add: mbuf_of_region_def demo_mbuf_def demo_mempool_def new_region_def demo_cap_def\<close>)

lemma demo_apart:
  assumes "pool_map p = [rid \<mapsto> new_region rid demo_cap]"
  shows "regions_apart p"
  using assms by (auto simp: regions_apart_def region_no_wrap_def new_region_def demo_cap_def split: if_splits)

lemma demo_txq_inv:
  assumes "pool_inv p" "pool_map p = [rid \<mapsto> new_region rid demo_cap]"
  shows "tx_inv (demo_txq p)"
proof -
  have good: "mbuf_good (demo_txq p) 0x10800"
    by (rule demo_txq_good [OF assms(2)]) (simp_all add: demo_txq_def)
  have "set (tx_contents (demo_txq p)) \<subseteq> {0x10800}"
    by (auto simp: tx_contents_def ring_contents_def demo_txq_def in_flight_def)
  then show ?thesis
    using good assms(1) demo_apart [OF assms(2)] by (auto simp: tx_inv_def ring_ok_def) (simp_all add: demo_txq_def)
qed

lemma demo_tx_reset:
  obtains p q b where "ixgbe_reset_tx_queue (demo_txq p) = Inr q" "tx_inv q" "tx_contents q = []"
    "tx_pre q b" "in_bounds (cq_pool q) b" "buf_addr (cq_pool q) b = 0x10800" "tx_rs_thresh q = 2"
    "tx_inv (demo_txq p)" "mbuf_good q 0x10800" "nb_tx_desc q = 4"
proof -
  obtain id p where a: "region_pool_add_region demo_env demo_pool demo_cap 0 = Inr (CLEANQ_ERR_OK, id, p)"
    "pool_inv p" "pool_map p = [id \<mapsto> new_region id demo_cap]"
    by (rule demo_pool_add)
  have "\<exists>q. ixgbe_reset_tx_queue (demo_txq p) = Inr q" by (simp add: ixgbe_reset_tx_queue_def demo_txq_def)
  then obtain q where q: "ixgbe_reset_tx_queue (demo_txq p) = Inr q" by blast
  have r: "tx_inv q" "tx_contents q = []" "tx_recl q = 0" "tx_tail q = 0" "cq_pool q = p"
    "mempools q = [1 \<mapsto> demo_mempool]" "mbufs q = [0x10800 \<mapsto> demo_mbuf]" "nb_tx_desc q = 4"
    using reset_tx_inv [OF q] a(2) demo_apart [OF a(3)] by (simp_all add: demo_txq_def)
  have good: "mbuf_good q 0x10800" using demo_txq_good [OF a(3) r(5-7)] .
  obtain m r' where b: "mbuf_to_cleanq_buf q 0x10800 = Inr (mbuf_buf 0x10800 m r')"
    "in_bounds (cq_pool q) (mbuf_buf 0x10800 m r')" "buf_addr (cq_pool q) (mbuf_buf 0x10800 m r') = 0x10800"
    "cleanq_buf_to_mbuf q (mbuf_buf 0x10800 m r') = Inr 0x10800"
    using mbuf_goodE [OF _ _ good] tx_invD(7,8) [OF r(1)] by metis
  have "tx_pre q (mbuf_buf 0x10800 m r')" using b(4) good r by (auto simp: tx_pre_def wrap_gap_def)
  moreover have "tx_rs_thresh q = 2" using q by (auto simp: ixgbe_reset_tx_queue_def demo_txq_def Let_def)
  moreover have "tx_inv (demo_txq p)" using demo_txq_inv [OF a(2,3)] .
  ultimately show thesis using that q r b good by blast
qed

theorem ixgbe_tx_fifo_witness:
  "\<exists>p q q'. ixgbe_reset_tx_queue (demo_txq p) = Inr q \<and> tx_inv q \<and> tx_calls 3 q q' [0x10800] [] [] \<and>
     tx_contents q' = [0x10800]"
proof -
  obtain p q b where r: "ixgbe_reset_tx_queue (demo_txq p) = Inr q" "tx_inv q" "tx_contents q = []"
    "tx_pre q b" "in_bounds (cq_pool q) b" "buf_addr (cq_pool q) b = 0x10800" "nb_tx_desc q = 4"
    by (rule demo_tx_reset)
  have "\<not> tx_full q" using r(1) by (auto simp: ixgbe_reset_tx_queue_def Let_def tx_full_def ring_full_def
        demo_txq_def)
  then obtain q' where e: "cleanq_enqueue ixgbe_tx_f q b = Inr (CLEANQ_ERR_OK, q')"
    using tx.enqueue_spec [OF r(2) r(4)] r(5) by metis
  have g: "tx_good q b" "\<not> tx_gap q" using r(4) by (simp_all add: tx_pre_def tx_good_def tx_gap_def)
  have "tx_calls 3 q q' [0x10800] [] []"
    using tx_calls.enqueue [OF tx_calls.start _ _ e, of 3] r(3,6) g by (simp add: overrun_def)
  then show ?thesis using ixgbe_tx_fifo [OF r(2)] r by fastforce
qed

text \<open>The full test misses a full ring. When the oldest mbuf is in the first descriptor
  and only the last descriptor is free, enqueueing a further mbuf is not refused and afterwards the
  ring counts as empty: every mbuf in it is lost.\<close>

theorem ixgbe_tx_full_ring_overrun:
  assumes "tx_inv q" "wrap_gap (nb_tx_desc q) (tx_recl q) (tx_tail q)"
    and "cleanq_buf_to_mbuf q b = Inr a" "mbuf_good q a"
  shows "length (tx_contents q) + 1 = unat (nb_tx_desc q) \<and>
    (\<exists>q'. ixgbe_tx_cleanq_enqueue q b = Inr (CLEANQ_ERR_OK, q') \<and> tx_contents q' = [] \<and>
       (\<forall>b. ixgbe_tx_cleanq_dequeue q' b = Inr (CLEANQ_ERR_QUEUE_EMPTY, b, q')))"
proof -
  have "tx_gap q" "tx_good q b" using assms(2-4) by (auto simp: tx_gap_def tx_good_def)
  from ixgbe_tx_enqueue_gap [OF assms(1) this] show ?thesis by (auto simp: ixgbe_tx_cleanq_dequeue_def)
qed

theorem ixgbe_tx_full_ring_overrun_witness:
  "\<exists>p b q'. tx_inv (demo_txq p) \<and> length (tx_contents (demo_txq p)) = 3 \<and>
     ixgbe_tx_cleanq_enqueue (demo_txq p) b = Inr (CLEANQ_ERR_OK, q') \<and> tx_contents q' = []"
proof -
  obtain id p where a: "region_pool_add_region demo_env demo_pool demo_cap 0 = Inr (CLEANQ_ERR_OK, id, p)"
    "pool_inv p" "pool_map p = [id \<mapsto> new_region id demo_cap]"
    by (rule demo_pool_add)
  have good: "mbuf_good (demo_txq p) 0x10800"
    by (rule demo_txq_good [OF a(3)]) (simp_all add: demo_txq_def)
  have inv: "tx_inv (demo_txq p)" by (rule demo_txq_inv [OF a(2,3)])
  have gap: "wrap_gap (nb_tx_desc (demo_txq p)) (tx_recl (demo_txq p)) (tx_tail (demo_txq p))"
    by (simp add: wrap_gap_def demo_txq_def)
  obtain m r where "cleanq_buf_to_mbuf (demo_txq p) (mbuf_buf 0x10800 m r) = Inr 0x10800"
    using mbuf_goodE [OF tx_invD(7,8) [OF inv] good] by metis
  from ixgbe_tx_full_ring_overrun [OF inv gap this good] show ?thesis
    using inv by (auto simp: demo_txq_def)
qed

text \<open>After a reset a buffer is handed back before the card has sent it. With a threshold of
  two or more the reset marks the threshold descriptor as done, so the first mbuf that is enqueued
  can be dequeued at once, without any step of the card.\<close>

theorem ixgbe_tx_reclaims_unsent:
  assumes "ixgbe_reset_tx_queue q0 = Inr q" "tx_inv q0" "2 \<le> tx_rs_thresh q0"
    and "tx_pre q b" "in_bounds (cq_pool q) b"
  shows "\<exists>q1 b' q2. cleanq_enqueue ixgbe_tx_f q b = Inr (CLEANQ_ERR_OK, q1) \<and>
    cleanq_dequeue ixgbe_tx_f q1 b0 = Inr (CLEANQ_ERR_OK, b', q2) \<and>
    buf_addr (cq_pool q) b' = buf_addr (cq_pool q) b"
proof -
  note d = tx_invD [OF assms(2)] and o = ring_okD [OF tx_invD(1) [OF assms(2)]]
  have th: "0 < tx_rs_thresh q0" "tx_rs_thresh q0 \<le> nb_tx_desc q0" using assms(2) by (simp_all add: tx_inv_def)
  note r = reset_tx_inv [OF assms(1) d(2,3) o(1,2) th d(7,8)]
  have nf: "\<not> tx_full q" by (simp add: tx_full_def ring_full_def r)
  obtain q1 where q1: "ixgbe_tx_cleanq_enqueue q b = Inr (CLEANQ_ERR_OK, q1)" "tx_inv q1"
    "cq_pool q1 = cq_pool q" "tx_contents q1 = tx_contents q @ [buf_addr (cq_pool q) b]"
    "tx_recl q1 = tx_recl q" "tx_next_dd q1 = tx_next_dd q" "tx_tail q1 = ring_next (nb_tx_desc q) (tx_tail q)"
    "\<And>i. i \<noteq> unat (tx_tail q) \<Longrightarrow> tx_ring q1 ! i = tx_ring q ! i"
    using ixgbe_tx_enqueue_spec [OF r(1) assms(4) nf] by metis
  have "unat (tx_rs_thresh q0 - 1) = unat (tx_rs_thresh q0) - 1"
    using th(1) by (intro unat_minus_one) auto
  then have dd: "unat (tx_next_dd q) < unat (nb_tx_desc q)" "unat (tx_next_dd q) \<noteq> 0"
    using tx_invD(6) [OF r(1)] assms(3) r(5) by (auto simp: word_le_nat_alt)
  have "tx_recl q1 \<noteq> tx_tail q1"
    using q1(4) r(2) in_flight_0 [OF tx_invD(1) [OF q1(2)]] by (auto simp: tx_contents_def)
  then have "tx_ready q1"
    using q1(6,8) dd r(4,6) by (simp add: tx_ready_def IXGBE_ADVTXD_STAT_DD_def)
  then obtain b' q2 where "cleanq_dequeue ixgbe_tx_f q1 b0 = Inr (CLEANQ_ERR_OK, b', q2)"
    "tx_contents q1 = buf_addr (cq_pool q1) b' # tx_contents q2"
    using tx.dequeue_spec [OF q1(2), of b0] by metis
  then show ?thesis using q1(1,3,4) r(2) assms(5) by (simp add: cleanq_enqueue_def ixgbe_tx_f_def)
qed

theorem ixgbe_tx_reclaims_unsent_witness:
  "\<exists>p q b q1 b' q2. ixgbe_reset_tx_queue (demo_txq p) = Inr q \<and> tx_pre q b \<and>
     cleanq_enqueue ixgbe_tx_f q b = Inr (CLEANQ_ERR_OK, q1) \<and>
     cleanq_dequeue ixgbe_tx_f q1 empty_buf = Inr (CLEANQ_ERR_OK, b', q2) \<and>
     buf_addr (cq_pool q) b' = 0x10800"
proof -
  obtain p q b where r: "ixgbe_reset_tx_queue (demo_txq p) = Inr q" "tx_pre q b" "in_bounds (cq_pool q) b"
    "buf_addr (cq_pool q) b = 0x10800" "tx_inv (demo_txq p)"
    by (rule demo_tx_reset)
  have "2 \<le> tx_rs_thresh (demo_txq p)" by (simp add: demo_txq_def)
  from ixgbe_tx_reclaims_unsent [OF r(1,5) this r(2,3), of empty_buf, unfolded r(4)]
  show ?thesis using r(1,2) by blast
qed

end
