(* ===== verification/Ixgbe_Ptype.thy ===== *)
theory Ixgbe_Ptype
  imports CleanQ_Prelude
begin

text \<open>
  The packet type of a received packet, \<open>ixgbe_rxd_pkt_info_to_pkt_type\<close> of
  \<open>drivers/net/ixgbe/ixgbe_cleanq.c\<close>, with the two tables of \<open>ixgbe_rxtx.c\<close> it reads. A table is the
  list of its designated initialisers, index and value; the other entries are 0.
\<close>

section \<open>Packet types\<close>

definition RTE_PTYPE_UNKNOWN :: u32 where "RTE_PTYPE_UNKNOWN = 0x00000000"
definition RTE_PTYPE_L2_ETHER :: u32 where "RTE_PTYPE_L2_ETHER = 0x00000001"
definition RTE_PTYPE_L3_IPV4 :: u32 where "RTE_PTYPE_L3_IPV4 = 0x00000010"
definition RTE_PTYPE_L3_IPV4_EXT :: u32 where "RTE_PTYPE_L3_IPV4_EXT = 0x00000030"
definition RTE_PTYPE_L3_IPV6 :: u32 where "RTE_PTYPE_L3_IPV6 = 0x00000040"
definition RTE_PTYPE_L3_IPV4_EXT_UNKNOWN :: u32 where "RTE_PTYPE_L3_IPV4_EXT_UNKNOWN = 0x00000090"
definition RTE_PTYPE_L3_IPV6_EXT :: u32 where "RTE_PTYPE_L3_IPV6_EXT = 0x000000c0"
definition RTE_PTYPE_L4_TCP :: u32 where "RTE_PTYPE_L4_TCP = 0x00000100"
definition RTE_PTYPE_L4_UDP :: u32 where "RTE_PTYPE_L4_UDP = 0x00000200"
definition RTE_PTYPE_L4_SCTP :: u32 where "RTE_PTYPE_L4_SCTP = 0x00000400"
definition RTE_PTYPE_TUNNEL_IP :: u32 where "RTE_PTYPE_TUNNEL_IP = 0x00001000"
definition RTE_PTYPE_TUNNEL_GRE :: u32 where "RTE_PTYPE_TUNNEL_GRE = 0x00002000"
definition RTE_PTYPE_TUNNEL_VXLAN :: u32 where "RTE_PTYPE_TUNNEL_VXLAN = 0x00003000"
definition RTE_PTYPE_INNER_L2_ETHER :: u32 where "RTE_PTYPE_INNER_L2_ETHER = 0x00010000"
definition RTE_PTYPE_INNER_L3_IPV4 :: u32 where "RTE_PTYPE_INNER_L3_IPV4 = 0x00100000"
definition RTE_PTYPE_INNER_L3_IPV4_EXT :: u32 where "RTE_PTYPE_INNER_L3_IPV4_EXT = 0x00200000"
definition RTE_PTYPE_INNER_L3_IPV6 :: u32 where "RTE_PTYPE_INNER_L3_IPV6 = 0x00300000"
definition RTE_PTYPE_INNER_L3_IPV6_EXT :: u32 where "RTE_PTYPE_INNER_L3_IPV6_EXT = 0x00500000"
definition RTE_PTYPE_INNER_L4_TCP :: u32 where "RTE_PTYPE_INNER_L4_TCP = 0x01000000"
definition RTE_PTYPE_INNER_L4_UDP :: u32 where "RTE_PTYPE_INNER_L4_UDP = 0x02000000"
definition RTE_PTYPE_INNER_L4_SCTP :: u32 where "RTE_PTYPE_INNER_L4_SCTP = 0x04000000"

text \<open>Ordinary packets.\<close>

definition ptype_table_init :: "(nat \<times> u32) list" where
  "ptype_table_init = [
    (0x00, RTE_PTYPE_L2_ETHER),
    (0x01, RTE_PTYPE_L2_ETHER OR RTE_PTYPE_L3_IPV4),
    (0x11, RTE_PTYPE_L2_ETHER OR RTE_PTYPE_L3_IPV4 OR RTE_PTYPE_L4_TCP),
    (0x21, RTE_PTYPE_L2_ETHER OR RTE_PTYPE_L3_IPV4 OR RTE_PTYPE_L4_UDP),
    (0x41, RTE_PTYPE_L2_ETHER OR RTE_PTYPE_L3_IPV4 OR RTE_PTYPE_L4_SCTP),
    (0x03, RTE_PTYPE_L2_ETHER OR RTE_PTYPE_L3_IPV4_EXT),
    (0x13, RTE_PTYPE_L2_ETHER OR RTE_PTYPE_L3_IPV4_EXT OR RTE_PTYPE_L4_TCP),
    (0x23, RTE_PTYPE_L2_ETHER OR RTE_PTYPE_L3_IPV4_EXT OR RTE_PTYPE_L4_UDP),
    (0x43, RTE_PTYPE_L2_ETHER OR RTE_PTYPE_L3_IPV4_EXT OR RTE_PTYPE_L4_SCTP),
    (0x04, RTE_PTYPE_L2_ETHER OR RTE_PTYPE_L3_IPV6),
    (0x14, RTE_PTYPE_L2_ETHER OR RTE_PTYPE_L3_IPV6 OR RTE_PTYPE_L4_TCP),
    (0x24, RTE_PTYPE_L2_ETHER OR RTE_PTYPE_L3_IPV6 OR RTE_PTYPE_L4_UDP),
    (0x44, RTE_PTYPE_L2_ETHER OR RTE_PTYPE_L3_IPV6 OR RTE_PTYPE_L4_SCTP),
    (0x0c, RTE_PTYPE_L2_ETHER OR RTE_PTYPE_L3_IPV6_EXT),
    (0x1c, RTE_PTYPE_L2_ETHER OR RTE_PTYPE_L3_IPV6_EXT OR RTE_PTYPE_L4_TCP),
    (0x2c, RTE_PTYPE_L2_ETHER OR RTE_PTYPE_L3_IPV6_EXT OR RTE_PTYPE_L4_UDP),
    (0x4c, RTE_PTYPE_L2_ETHER OR RTE_PTYPE_L3_IPV6_EXT OR RTE_PTYPE_L4_SCTP),
    (0x05, RTE_PTYPE_L2_ETHER OR RTE_PTYPE_L3_IPV4 OR RTE_PTYPE_TUNNEL_IP OR RTE_PTYPE_INNER_L3_IPV6),
    (0x15, RTE_PTYPE_L2_ETHER OR RTE_PTYPE_L3_IPV4 OR RTE_PTYPE_TUNNEL_IP OR RTE_PTYPE_INNER_L3_IPV6 OR RTE_PTYPE_INNER_L4_TCP),
    (0x25, RTE_PTYPE_L2_ETHER OR RTE_PTYPE_L3_IPV4 OR RTE_PTYPE_TUNNEL_IP OR RTE_PTYPE_INNER_L3_IPV6 OR RTE_PTYPE_INNER_L4_UDP),
    (0x45, RTE_PTYPE_L2_ETHER OR RTE_PTYPE_L3_IPV4 OR RTE_PTYPE_TUNNEL_IP OR RTE_PTYPE_INNER_L3_IPV6 OR RTE_PTYPE_INNER_L4_SCTP),
    (0x07, RTE_PTYPE_L2_ETHER OR RTE_PTYPE_L3_IPV4_EXT OR RTE_PTYPE_TUNNEL_IP OR RTE_PTYPE_INNER_L3_IPV6),
    (0x17, RTE_PTYPE_L2_ETHER OR RTE_PTYPE_L3_IPV4_EXT OR RTE_PTYPE_TUNNEL_IP OR RTE_PTYPE_INNER_L3_IPV6 OR RTE_PTYPE_INNER_L4_TCP),
    (0x27, RTE_PTYPE_L2_ETHER OR RTE_PTYPE_L3_IPV4_EXT OR RTE_PTYPE_TUNNEL_IP OR RTE_PTYPE_INNER_L3_IPV6 OR RTE_PTYPE_INNER_L4_UDP),
    (0x47, RTE_PTYPE_L2_ETHER OR RTE_PTYPE_L3_IPV4_EXT OR RTE_PTYPE_TUNNEL_IP OR RTE_PTYPE_INNER_L3_IPV6 OR RTE_PTYPE_INNER_L4_SCTP),
    (0x0d, RTE_PTYPE_L2_ETHER OR RTE_PTYPE_L3_IPV4 OR RTE_PTYPE_TUNNEL_IP OR RTE_PTYPE_INNER_L3_IPV6_EXT),
    (0x1d, RTE_PTYPE_L2_ETHER OR RTE_PTYPE_L3_IPV4 OR RTE_PTYPE_TUNNEL_IP OR RTE_PTYPE_INNER_L3_IPV6_EXT OR RTE_PTYPE_INNER_L4_TCP),
    (0x2d, RTE_PTYPE_L2_ETHER OR RTE_PTYPE_L3_IPV4 OR RTE_PTYPE_TUNNEL_IP OR RTE_PTYPE_INNER_L3_IPV6_EXT OR RTE_PTYPE_INNER_L4_UDP),
    (0x4d, RTE_PTYPE_L2_ETHER OR RTE_PTYPE_L3_IPV4 OR RTE_PTYPE_TUNNEL_IP OR RTE_PTYPE_INNER_L3_IPV6_EXT OR RTE_PTYPE_INNER_L4_SCTP),
    (0x0f, RTE_PTYPE_L2_ETHER OR RTE_PTYPE_L3_IPV4_EXT OR RTE_PTYPE_TUNNEL_IP OR RTE_PTYPE_INNER_L3_IPV6_EXT),
    (0x1f, RTE_PTYPE_L2_ETHER OR RTE_PTYPE_L3_IPV4_EXT OR RTE_PTYPE_TUNNEL_IP OR RTE_PTYPE_INNER_L3_IPV6_EXT OR RTE_PTYPE_INNER_L4_TCP),
    (0x2f, RTE_PTYPE_L2_ETHER OR RTE_PTYPE_L3_IPV4_EXT OR RTE_PTYPE_TUNNEL_IP OR RTE_PTYPE_INNER_L3_IPV6_EXT OR RTE_PTYPE_INNER_L4_UDP),
    (0x4f, RTE_PTYPE_L2_ETHER OR RTE_PTYPE_L3_IPV4_EXT OR RTE_PTYPE_TUNNEL_IP OR RTE_PTYPE_INNER_L3_IPV6_EXT OR RTE_PTYPE_INNER_L4_SCTP)]"

definition ptype_table :: "u32 list" where
  "ptype_table = map (\<lambda>i. case map_of ptype_table_init i of None \<Rightarrow> 0 | Some t \<Rightarrow> t) [0..<0x80]"

text \<open>Tunnelled packets.\<close>

definition ptype_table_tn_init :: "(nat \<times> u32) list" where
  "ptype_table_tn_init = [
    (0x00, RTE_PTYPE_L2_ETHER OR RTE_PTYPE_L3_IPV4_EXT_UNKNOWN OR RTE_PTYPE_TUNNEL_GRE OR RTE_PTYPE_INNER_L2_ETHER),
    (0x01, RTE_PTYPE_L2_ETHER OR RTE_PTYPE_L3_IPV4_EXT_UNKNOWN OR RTE_PTYPE_TUNNEL_GRE OR RTE_PTYPE_INNER_L2_ETHER OR RTE_PTYPE_INNER_L3_IPV4),
    (0x03, RTE_PTYPE_L2_ETHER OR RTE_PTYPE_L3_IPV4_EXT_UNKNOWN OR RTE_PTYPE_TUNNEL_GRE OR RTE_PTYPE_INNER_L2_ETHER OR RTE_PTYPE_INNER_L3_IPV4_EXT),
    (0x04, RTE_PTYPE_L2_ETHER OR RTE_PTYPE_L3_IPV4_EXT_UNKNOWN OR RTE_PTYPE_TUNNEL_GRE OR RTE_PTYPE_INNER_L2_ETHER OR RTE_PTYPE_INNER_L3_IPV6),
    (0x05, RTE_PTYPE_L2_ETHER OR RTE_PTYPE_L3_IPV4_EXT_UNKNOWN OR RTE_PTYPE_TUNNEL_GRE OR RTE_PTYPE_INNER_L2_ETHER OR RTE_PTYPE_INNER_L3_IPV4),
    (0x0c, RTE_PTYPE_L2_ETHER OR RTE_PTYPE_L3_IPV4_EXT_UNKNOWN OR RTE_PTYPE_TUNNEL_GRE OR RTE_PTYPE_INNER_L2_ETHER OR RTE_PTYPE_INNER_L3_IPV6_EXT),
    (0x0d, RTE_PTYPE_L2_ETHER OR RTE_PTYPE_L3_IPV4_EXT_UNKNOWN OR RTE_PTYPE_TUNNEL_GRE OR RTE_PTYPE_INNER_L2_ETHER OR RTE_PTYPE_INNER_L3_IPV4),
    (0x11, RTE_PTYPE_L2_ETHER OR RTE_PTYPE_L3_IPV4_EXT_UNKNOWN OR RTE_PTYPE_TUNNEL_GRE OR RTE_PTYPE_INNER_L2_ETHER OR RTE_PTYPE_INNER_L3_IPV4 OR RTE_PTYPE_INNER_L4_TCP),
    (0x14, RTE_PTYPE_L2_ETHER OR RTE_PTYPE_L3_IPV4_EXT_UNKNOWN OR RTE_PTYPE_TUNNEL_GRE OR RTE_PTYPE_INNER_L2_ETHER OR RTE_PTYPE_INNER_L3_IPV6 OR RTE_PTYPE_INNER_L4_TCP),
    (0x15, RTE_PTYPE_L2_ETHER OR RTE_PTYPE_L3_IPV4_EXT_UNKNOWN OR RTE_PTYPE_TUNNEL_GRE OR RTE_PTYPE_INNER_L2_ETHER OR RTE_PTYPE_INNER_L3_IPV4),
    (0x1c, RTE_PTYPE_L2_ETHER OR RTE_PTYPE_L3_IPV4_EXT_UNKNOWN OR RTE_PTYPE_TUNNEL_GRE OR RTE_PTYPE_INNER_L2_ETHER OR RTE_PTYPE_INNER_L3_IPV6_EXT OR RTE_PTYPE_INNER_L4_TCP),
    (0x1d, RTE_PTYPE_L2_ETHER OR RTE_PTYPE_L3_IPV4_EXT_UNKNOWN OR RTE_PTYPE_TUNNEL_GRE OR RTE_PTYPE_INNER_L2_ETHER OR RTE_PTYPE_INNER_L3_IPV4),
    (0x21, RTE_PTYPE_L2_ETHER OR RTE_PTYPE_L3_IPV4_EXT_UNKNOWN OR RTE_PTYPE_TUNNEL_GRE OR RTE_PTYPE_INNER_L2_ETHER OR RTE_PTYPE_INNER_L3_IPV4 OR RTE_PTYPE_INNER_L4_UDP),
    (0x24, RTE_PTYPE_L2_ETHER OR RTE_PTYPE_L3_IPV4_EXT_UNKNOWN OR RTE_PTYPE_TUNNEL_GRE OR RTE_PTYPE_INNER_L2_ETHER OR RTE_PTYPE_INNER_L3_IPV6 OR RTE_PTYPE_INNER_L4_UDP),
    (0x44, RTE_PTYPE_L2_ETHER OR RTE_PTYPE_L3_IPV4_EXT_UNKNOWN OR RTE_PTYPE_TUNNEL_GRE OR RTE_PTYPE_INNER_L2_ETHER OR RTE_PTYPE_INNER_L3_IPV6 OR RTE_PTYPE_INNER_L4_SCTP),
    (0x25, RTE_PTYPE_L2_ETHER OR RTE_PTYPE_L3_IPV4_EXT_UNKNOWN OR RTE_PTYPE_TUNNEL_GRE OR RTE_PTYPE_INNER_L2_ETHER OR RTE_PTYPE_INNER_L3_IPV4),
    (0x2c, RTE_PTYPE_L2_ETHER OR RTE_PTYPE_L3_IPV4_EXT_UNKNOWN OR RTE_PTYPE_TUNNEL_GRE OR RTE_PTYPE_INNER_L2_ETHER OR RTE_PTYPE_INNER_L3_IPV6_EXT OR RTE_PTYPE_INNER_L4_UDP),
    (0x4c, RTE_PTYPE_L2_ETHER OR RTE_PTYPE_L3_IPV4_EXT_UNKNOWN OR RTE_PTYPE_TUNNEL_GRE OR RTE_PTYPE_INNER_L2_ETHER OR RTE_PTYPE_INNER_L3_IPV6_EXT OR RTE_PTYPE_INNER_L4_SCTP),
    (0x2d, RTE_PTYPE_L2_ETHER OR RTE_PTYPE_L3_IPV4_EXT_UNKNOWN OR RTE_PTYPE_TUNNEL_GRE OR RTE_PTYPE_INNER_L2_ETHER OR RTE_PTYPE_INNER_L3_IPV4),
    (0x41, RTE_PTYPE_L2_ETHER OR RTE_PTYPE_L3_IPV4_EXT_UNKNOWN OR RTE_PTYPE_TUNNEL_GRE OR RTE_PTYPE_INNER_L2_ETHER OR RTE_PTYPE_INNER_L3_IPV4 OR RTE_PTYPE_INNER_L4_SCTP),
    (0x43, RTE_PTYPE_L2_ETHER OR RTE_PTYPE_L3_IPV4_EXT_UNKNOWN OR RTE_PTYPE_TUNNEL_GRE OR RTE_PTYPE_INNER_L2_ETHER OR RTE_PTYPE_INNER_L3_IPV4_EXT OR RTE_PTYPE_INNER_L4_SCTP),
    (0x13, RTE_PTYPE_L2_ETHER OR RTE_PTYPE_L3_IPV4_EXT_UNKNOWN OR RTE_PTYPE_TUNNEL_GRE OR RTE_PTYPE_INNER_L2_ETHER OR RTE_PTYPE_INNER_L3_IPV4_EXT OR RTE_PTYPE_INNER_L4_TCP),
    (0x23, RTE_PTYPE_L2_ETHER OR RTE_PTYPE_L3_IPV4_EXT_UNKNOWN OR RTE_PTYPE_TUNNEL_GRE OR RTE_PTYPE_INNER_L2_ETHER OR RTE_PTYPE_INNER_L3_IPV4_EXT OR RTE_PTYPE_INNER_L4_UDP),
    (0x80, RTE_PTYPE_L2_ETHER OR RTE_PTYPE_L3_IPV4_EXT_UNKNOWN OR RTE_PTYPE_L4_UDP OR RTE_PTYPE_TUNNEL_VXLAN OR RTE_PTYPE_INNER_L2_ETHER),
    (0x81, RTE_PTYPE_L2_ETHER OR RTE_PTYPE_L3_IPV4_EXT_UNKNOWN OR RTE_PTYPE_L4_UDP OR RTE_PTYPE_TUNNEL_VXLAN OR RTE_PTYPE_INNER_L2_ETHER OR RTE_PTYPE_INNER_L3_IPV4),
    (0x83, RTE_PTYPE_L2_ETHER OR RTE_PTYPE_L3_IPV4_EXT_UNKNOWN OR RTE_PTYPE_L4_UDP OR RTE_PTYPE_TUNNEL_VXLAN OR RTE_PTYPE_INNER_L2_ETHER OR RTE_PTYPE_INNER_L3_IPV4_EXT),
    (0x84, RTE_PTYPE_L2_ETHER OR RTE_PTYPE_L3_IPV4_EXT_UNKNOWN OR RTE_PTYPE_L4_UDP OR RTE_PTYPE_TUNNEL_VXLAN OR RTE_PTYPE_INNER_L2_ETHER OR RTE_PTYPE_INNER_L3_IPV6),
    (0x85, RTE_PTYPE_L2_ETHER OR RTE_PTYPE_L3_IPV4_EXT_UNKNOWN OR RTE_PTYPE_L4_UDP OR RTE_PTYPE_TUNNEL_VXLAN OR RTE_PTYPE_INNER_L2_ETHER OR RTE_PTYPE_INNER_L3_IPV4),
    (0x8c, RTE_PTYPE_L2_ETHER OR RTE_PTYPE_L3_IPV4_EXT_UNKNOWN OR RTE_PTYPE_L4_UDP OR RTE_PTYPE_TUNNEL_VXLAN OR RTE_PTYPE_INNER_L2_ETHER OR RTE_PTYPE_INNER_L3_IPV6_EXT),
    (0x8d, RTE_PTYPE_L2_ETHER OR RTE_PTYPE_L3_IPV4_EXT_UNKNOWN OR RTE_PTYPE_L4_UDP OR RTE_PTYPE_TUNNEL_VXLAN OR RTE_PTYPE_INNER_L2_ETHER OR RTE_PTYPE_INNER_L3_IPV4),
    (0x91, RTE_PTYPE_L2_ETHER OR RTE_PTYPE_L3_IPV4_EXT_UNKNOWN OR RTE_PTYPE_L4_UDP OR RTE_PTYPE_TUNNEL_VXLAN OR RTE_PTYPE_INNER_L2_ETHER OR RTE_PTYPE_INNER_L3_IPV4 OR RTE_PTYPE_INNER_L4_TCP),
    (0x94, RTE_PTYPE_L2_ETHER OR RTE_PTYPE_L3_IPV4_EXT_UNKNOWN OR RTE_PTYPE_L4_UDP OR RTE_PTYPE_TUNNEL_VXLAN OR RTE_PTYPE_INNER_L2_ETHER OR RTE_PTYPE_INNER_L3_IPV6 OR RTE_PTYPE_INNER_L4_TCP),
    (0x95, RTE_PTYPE_L2_ETHER OR RTE_PTYPE_L3_IPV4_EXT_UNKNOWN OR RTE_PTYPE_L4_UDP OR RTE_PTYPE_TUNNEL_VXLAN OR RTE_PTYPE_INNER_L2_ETHER OR RTE_PTYPE_INNER_L3_IPV4),
    (0x9c, RTE_PTYPE_L2_ETHER OR RTE_PTYPE_L3_IPV4_EXT_UNKNOWN OR RTE_PTYPE_L4_UDP OR RTE_PTYPE_TUNNEL_VXLAN OR RTE_PTYPE_INNER_L2_ETHER OR RTE_PTYPE_INNER_L3_IPV6_EXT OR RTE_PTYPE_INNER_L4_TCP),
    (0x9d, RTE_PTYPE_L2_ETHER OR RTE_PTYPE_L3_IPV4_EXT_UNKNOWN OR RTE_PTYPE_L4_UDP OR RTE_PTYPE_TUNNEL_VXLAN OR RTE_PTYPE_INNER_L2_ETHER OR RTE_PTYPE_INNER_L3_IPV4),
    (0xa1, RTE_PTYPE_L2_ETHER OR RTE_PTYPE_L3_IPV4_EXT_UNKNOWN OR RTE_PTYPE_L4_UDP OR RTE_PTYPE_TUNNEL_VXLAN OR RTE_PTYPE_INNER_L2_ETHER OR RTE_PTYPE_INNER_L3_IPV4 OR RTE_PTYPE_INNER_L4_UDP),
    (0xa4, RTE_PTYPE_L2_ETHER OR RTE_PTYPE_L3_IPV4_EXT_UNKNOWN OR RTE_PTYPE_L4_UDP OR RTE_PTYPE_TUNNEL_VXLAN OR RTE_PTYPE_INNER_L2_ETHER OR RTE_PTYPE_INNER_L3_IPV6 OR RTE_PTYPE_INNER_L4_UDP),
    (0xc4, RTE_PTYPE_L2_ETHER OR RTE_PTYPE_L3_IPV4_EXT_UNKNOWN OR RTE_PTYPE_L4_UDP OR RTE_PTYPE_TUNNEL_VXLAN OR RTE_PTYPE_INNER_L2_ETHER OR RTE_PTYPE_INNER_L3_IPV6 OR RTE_PTYPE_INNER_L4_SCTP),
    (0xa5, RTE_PTYPE_L2_ETHER OR RTE_PTYPE_L3_IPV4_EXT_UNKNOWN OR RTE_PTYPE_L4_UDP OR RTE_PTYPE_TUNNEL_VXLAN OR RTE_PTYPE_INNER_L2_ETHER OR RTE_PTYPE_INNER_L3_IPV4),
    (0xac, RTE_PTYPE_L2_ETHER OR RTE_PTYPE_L3_IPV4_EXT_UNKNOWN OR RTE_PTYPE_L4_UDP OR RTE_PTYPE_TUNNEL_VXLAN OR RTE_PTYPE_INNER_L2_ETHER OR RTE_PTYPE_INNER_L3_IPV6_EXT OR RTE_PTYPE_INNER_L4_UDP),
    (0xcc, RTE_PTYPE_L2_ETHER OR RTE_PTYPE_L3_IPV4_EXT_UNKNOWN OR RTE_PTYPE_L4_UDP OR RTE_PTYPE_TUNNEL_VXLAN OR RTE_PTYPE_INNER_L2_ETHER OR RTE_PTYPE_INNER_L3_IPV6_EXT OR RTE_PTYPE_INNER_L4_SCTP),
    (0xad, RTE_PTYPE_L2_ETHER OR RTE_PTYPE_L3_IPV4_EXT_UNKNOWN OR RTE_PTYPE_L4_UDP OR RTE_PTYPE_TUNNEL_VXLAN OR RTE_PTYPE_INNER_L2_ETHER OR RTE_PTYPE_INNER_L3_IPV4),
    (0xc1, RTE_PTYPE_L2_ETHER OR RTE_PTYPE_L3_IPV4_EXT_UNKNOWN OR RTE_PTYPE_L4_UDP OR RTE_PTYPE_TUNNEL_VXLAN OR RTE_PTYPE_INNER_L2_ETHER OR RTE_PTYPE_INNER_L3_IPV4 OR RTE_PTYPE_INNER_L4_SCTP),
    (0xc3, RTE_PTYPE_L2_ETHER OR RTE_PTYPE_L3_IPV4_EXT_UNKNOWN OR RTE_PTYPE_L4_UDP OR RTE_PTYPE_TUNNEL_VXLAN OR RTE_PTYPE_INNER_L2_ETHER OR RTE_PTYPE_INNER_L3_IPV4_EXT OR RTE_PTYPE_INNER_L4_SCTP),
    (0x93, RTE_PTYPE_L2_ETHER OR RTE_PTYPE_L3_IPV4_EXT_UNKNOWN OR RTE_PTYPE_L4_UDP OR RTE_PTYPE_TUNNEL_VXLAN OR RTE_PTYPE_INNER_L2_ETHER OR RTE_PTYPE_INNER_L3_IPV4_EXT OR RTE_PTYPE_INNER_L4_TCP),
    (0xa3, RTE_PTYPE_L2_ETHER OR RTE_PTYPE_L3_IPV4_EXT_UNKNOWN OR RTE_PTYPE_L4_UDP OR RTE_PTYPE_TUNNEL_VXLAN OR RTE_PTYPE_INNER_L2_ETHER OR RTE_PTYPE_INNER_L3_IPV4_EXT OR RTE_PTYPE_INNER_L4_UDP)]"

definition ptype_table_tn :: "u32 list" where
  "ptype_table_tn = map (\<lambda>i. case map_of ptype_table_tn_init i of None \<Rightarrow> 0 | Some t \<Rightarrow> t) [0..<0x100]"

section \<open>The conversion\<close>

definition IXGBE_RXDADV_PKTTYPE_ETQF :: u32 where "IXGBE_RXDADV_PKTTYPE_ETQF = 0x00008000"
definition IXGBE_PACKET_TYPE_SHIFT :: nat where "IXGBE_PACKET_TYPE_SHIFT = 4"
definition IXGBE_PACKET_TYPE_TUNNEL_BIT :: u32 where "IXGBE_PACKET_TYPE_TUNNEL_BIT = 0x1000"
definition IXGBE_PACKET_TYPE_MASK_TUNNEL :: u32 where "IXGBE_PACKET_TYPE_MASK_TUNNEL = 0xFF"
definition IXGBE_PACKET_TYPE_MASK_82599 :: u32 where "IXGBE_PACKET_TYPE_MASK_82599 = 0x7F"

definition ixgbe_rxd_pkt_info_to_pkt_type :: "u32 \<Rightarrow> u16 \<Rightarrow> u32 cres" where
  "ixgbe_rxd_pkt_info_to_pkt_type pkt_info ptype_mask =
     (if pkt_info AND IXGBE_RXDADV_PKTTYPE_ETQF \<noteq> 0 then Inr RTE_PTYPE_UNKNOWN
      else let info = drop_bit IXGBE_PACKET_TYPE_SHIFT pkt_info AND ucast ptype_mask in
        if info AND IXGBE_PACKET_TYPE_TUNNEL_BIT \<noteq> 0
        then arr_get ptype_table_tn (unat (info AND IXGBE_PACKET_TYPE_MASK_TUNNEL))
        else arr_get ptype_table (unat (info AND IXGBE_PACKET_TYPE_MASK_82599)))"

lemma length_ptype_tables [simp]: "length ptype_table = 128" "length ptype_table_tn = 256"
  by (simp_all add: ptype_table_def ptype_table_tn_def)

lemma unat_and_bound: "unat ((x :: 'a::len word) AND m) \<le> unat m"
  using word_and_le1 [of x m] by (simp add: word_le_nat_alt)

lemma pkt_type_returns: "\<exists>t. ixgbe_rxd_pkt_info_to_pkt_type pkt_info ptype_mask = Inr t"
proof -
  have "unat (x AND IXGBE_PACKET_TYPE_MASK_TUNNEL) < 256" "unat (x AND IXGBE_PACKET_TYPE_MASK_82599) < 128"
    for x :: u32
    using unat_and_bound [of x IXGBE_PACKET_TYPE_MASK_TUNNEL] unat_and_bound [of x IXGBE_PACKET_TYPE_MASK_82599]
    by (simp_all add: IXGBE_PACKET_TYPE_MASK_TUNNEL_def IXGBE_PACKET_TYPE_MASK_82599_def)
  then show ?thesis by (simp add: ixgbe_rxd_pkt_info_to_pkt_type_def Let_def)
qed

end
