(* ===== verification/Ixgbe_Rx.thy ===== *)
theory Ixgbe_Rx
  imports Ixgbe_Ring Ixgbe_Ptype
begin

text \<open>
  The receive queue of the ixgbe driver as a CleanQ backend, \<open>drivers/net/ixgbe/ixgbe_cleanq.c\<close>.
  Software hands empty mbufs to the card at \<open>rx_tail\<close>; the card fills them in order and writes the
  descriptors back; software takes the filled mbufs at \<open>rx_recl\<close> and turns the descriptor into the
  mbuf's metadata.

  Contents: the operations with the conversions of descriptor flags; the ring as the list of mbufs
  between \<open>rx_recl\<close> and \<open>rx_tail\<close>; the interpretation of the backend contract, with and without the state in which the full test misses; runs in which the
  card writes descriptors back; the checksum flags of a received packet.
\<close>

section \<open>State\<close>

text \<open>A descriptor is two 64-bit words. In the read format they are the addresses of the packet and
  the header buffer; the write-back format overlays them.\<close>

record ixgbe_adv_rx_desc =
  pkt_addr :: u64
  hdr_addr :: u64

definition wb_lo_dword :: "ixgbe_adv_rx_desc \<Rightarrow> u32" where
  "wb_lo_dword d = ucast (pkt_addr d)"

definition wb_rss :: "ixgbe_adv_rx_desc \<Rightarrow> u32" where
  "wb_rss d = ucast (drop_bit 32 (pkt_addr d))"

definition wb_ip_id :: "ixgbe_adv_rx_desc \<Rightarrow> u16" where
  "wb_ip_id d = ucast (drop_bit 32 (pkt_addr d))"

definition wb_csum :: "ixgbe_adv_rx_desc \<Rightarrow> u16" where
  "wb_csum d = ucast (drop_bit 48 (pkt_addr d))"

definition wb_status_error :: "ixgbe_adv_rx_desc \<Rightarrow> u32" where
  "wb_status_error d = ucast (hdr_addr d)"

definition wb_length :: "ixgbe_adv_rx_desc \<Rightarrow> u16" where
  "wb_length d = ucast (drop_bit 32 (hdr_addr d))"

definition wb_vlan :: "ixgbe_adv_rx_desc \<Rightarrow> u16" where
  "wb_vlan d = ucast (drop_bit 48 (hdr_addr d))"

record ixgbe_rx_queue = dpdk_queue +
  rx_ring :: "ixgbe_adv_rx_desc list"
  rx_sw_ring :: "u64 list"
  rdt_reg :: u32
  nb_rx_desc :: u16
  rx_tail :: u16
  rx_recl :: u16
  port_id :: u16
  crc_len :: u8
  pkt_type_mask :: u16
  vlan_flags :: u64
  rx_mb_pool :: addr
  rx_ring_phys_addr :: u64
  rdt_reg_addr :: u32
  rdh_reg_addr :: u32
  rx_sw_sc_ring :: "u64 list"
  rx_nb_avail :: u16
  rx_next_avail :: u16
  rx_free_trigger :: u16
  rx_free_thresh :: u16
  rx_stage :: "u64 list"
  nb_rx_hold :: u16
  pkt_first_seg :: u64
  pkt_last_seg :: u64
  rx_queue_id :: u16
  rx_reg_idx :: u16
  drop_en :: u8
  rx_deferred_start :: u8
  rx_offloads :: u64
  fake_mbuf :: u64

definition RTE_PKTMBUF_HEADROOM :: u16 where "RTE_PKTMBUF_HEADROOM = 128"
definition IXGBE_RXDADV_STAT_DD :: u32 where "IXGBE_RXDADV_STAT_DD = 0x01"
definition IXGBE_RXD_STAT_VP :: u32 where "IXGBE_RXD_STAT_VP = 0x08"
definition IXGBE_RXD_STAT_OUTERIPCS :: u32 where "IXGBE_RXD_STAT_OUTERIPCS = 0x100"
definition IXGBE_RXD_STAT_SECP :: u32 where "IXGBE_RXD_STAT_SECP = 0x20000"
definition IXGBE_RXDADV_ERR_OUTERIPER :: u32 where "IXGBE_RXDADV_ERR_OUTERIPER = 0x04000000"
definition IXGBE_RXDADV_LNKSEC_ERROR_BAD_SIG :: u32 where
  "IXGBE_RXDADV_LNKSEC_ERROR_BAD_SIG = 0x18000000"
definition IXGBE_ATR_HASH_MASK :: u16 where "IXGBE_ATR_HASH_MASK = 0x7fff"

definition PKT_RX_RSS_HASH :: u64 where "PKT_RX_RSS_HASH = 0x2"
definition PKT_RX_FDIR :: u64 where "PKT_RX_FDIR = 0x4"
definition PKT_RX_L4_CKSUM_BAD :: u64 where "PKT_RX_L4_CKSUM_BAD = 0x8"
definition PKT_RX_IP_CKSUM_BAD :: u64 where "PKT_RX_IP_CKSUM_BAD = 0x10"
definition PKT_RX_EIP_CKSUM_BAD :: u64 where "PKT_RX_EIP_CKSUM_BAD = 0x20"
definition PKT_RX_IP_CKSUM_GOOD :: u64 where "PKT_RX_IP_CKSUM_GOOD = 0x80"
definition PKT_RX_L4_CKSUM_GOOD :: u64 where "PKT_RX_L4_CKSUM_GOOD = 0x100"
definition PKT_RX_SEC_OFFLOAD :: u64 where "PKT_RX_SEC_OFFLOAD = 0x40000"
definition PKT_RX_SEC_OFFLOAD_FAILED :: u64 where "PKT_RX_SEC_OFFLOAD_FAILED = 0x80000"

section \<open>Conversions of descriptor fields\<close>

definition ip_rss_types_map :: "u64 list" where
  "ip_rss_types_map =
     [0, PKT_RX_RSS_HASH, PKT_RX_RSS_HASH, PKT_RX_RSS_HASH,
      0, PKT_RX_RSS_HASH, 0, PKT_RX_RSS_HASH,
      PKT_RX_RSS_HASH, 0, 0, 0,
      0, 0, 0, PKT_RX_FDIR]"

definition ixgbe_rxd_pkt_info_to_pkt_flags :: "u16 \<Rightarrow> u64 cres" where
  "ixgbe_rxd_pkt_info_to_pkt_flags pkt_info = arr_get ip_rss_types_map (unat (pkt_info AND 0xF))"

definition rx_desc_status_to_pkt_flags :: "u32 \<Rightarrow> u64 \<Rightarrow> u64" where
  "rx_desc_status_to_pkt_flags rx_status vlan =
     (if rx_status AND IXGBE_RXD_STAT_VP \<noteq> 0 then vlan else 0)"

definition error_to_pkt_flags_map :: "u64 list" where
  "error_to_pkt_flags_map =
     [PKT_RX_IP_CKSUM_GOOD OR PKT_RX_L4_CKSUM_GOOD,
      PKT_RX_IP_CKSUM_GOOD OR PKT_RX_L4_CKSUM_BAD,
      PKT_RX_IP_CKSUM_BAD OR PKT_RX_L4_CKSUM_GOOD,
      PKT_RX_IP_CKSUM_BAD OR PKT_RX_L4_CKSUM_BAD]"

definition rx_desc_error_to_pkt_flags :: "u32 \<Rightarrow> u64 cres" where
  "rx_desc_error_to_pkt_flags rx_status =
     bindc (arr_get error_to_pkt_flags_map (unat (drop_bit 30 rx_status AND 3))) (\<lambda>flags.
     let flags1 = (if rx_status AND IXGBE_RXD_STAT_OUTERIPCS \<noteq> 0 \<and>
                      rx_status AND IXGBE_RXDADV_ERR_OUTERIPER \<noteq> 0
                   then flags OR PKT_RX_EIP_CKSUM_BAD else flags);
         flags2 = (if rx_status AND IXGBE_RXD_STAT_SECP \<noteq> 0
                   then (let f = flags1 OR PKT_RX_SEC_OFFLOAD in
                         if rx_status AND IXGBE_RXDADV_LNKSEC_ERROR_BAD_SIG \<noteq> 0
                         then f OR PKT_RX_SEC_OFFLOAD_FAILED else f)
                   else flags1)
     in Inr flags2)"

section \<open>Operations\<close>

definition rte_mbuf_data_iova_default :: "rte_mbuf \<Rightarrow> u64" where
  "rte_mbuf_data_iova_default mb = buf_iova mb + ucast RTE_PKTMBUF_HEADROOM"

definition ixgbe_rx_cleanq_enqueue ::
  "ixgbe_rx_queue \<Rightarrow> cleanq_buf \<Rightarrow> (errval \<times> ixgbe_rx_queue) cres" where
  "ixgbe_rx_cleanq_enqueue rxq cqbuf =
     bindc (cleanq_buf_to_mbuf rxq cqbuf) (\<lambda>mb.
     if ring_full (rx_recl rxq) (rx_tail rxq) then Inr (CLEANQ_ERR_QUEUE_FULL, rxq)
     else
     bindc (deref (mbufs rxq) mb) (\<lambda>m.
     let m' = m\<lparr>mb_port := port_id rxq, refcnt := 1, data_off := RTE_PKTMBUF_HEADROOM\<rparr> in
     bindc (arr_set (rx_sw_ring rxq) (unat (rx_tail rxq)) mb) (\<lambda>sw.
     bindc (arr_set (rx_ring rxq) (unat (rx_tail rxq))
              \<lparr>pkt_addr = rte_mbuf_data_iova_default m', hdr_addr = 0\<rparr>) (\<lambda>ring.
     let tail = ring_next (nb_rx_desc rxq) (rx_tail rxq) in
     Inr (CLEANQ_ERR_OK, rxq\<lparr>mbufs := (mbufs rxq)(mb \<mapsto> m'), rx_sw_ring := sw, rx_ring := ring,
                            rx_tail := tail, rdt_reg := ucast tail\<rparr>)))))"

text \<open>The metadata of a received packet.\<close>

definition rx_fill_mbuf :: "ixgbe_rx_queue \<Rightarrow> ixgbe_adv_rx_desc \<Rightarrow> rte_mbuf \<Rightarrow> rte_mbuf cres" where
  "rx_fill_mbuf rxq rxdp m =
     (let status = wb_status_error rxdp;
          pkt_info = wb_lo_dword rxdp;
          len = wb_length rxdp - ucast (crc_len rxq);
          flags1 = rx_desc_status_to_pkt_flags status (vlan_flags rxq) in
      bindc (rx_desc_error_to_pkt_flags status) (\<lambda>err_flags.
      bindc (ixgbe_rxd_pkt_info_to_pkt_flags (ucast pkt_info)) (\<lambda>rss_flags.
      let pkt_flags = flags1 OR err_flags OR rss_flags in
      bindc (ixgbe_rxd_pkt_info_to_pkt_type pkt_info (pkt_type_mask rxq)) (\<lambda>ptype.
      let m1 = m\<lparr>data_len := len, pkt_len := ucast len, vlan_tci := wb_vlan rxdp,
                 ol_flags := pkt_flags, packet_type := ptype\<rparr> in
      Inr (if pkt_flags AND PKT_RX_RSS_HASH \<noteq> 0 then m1\<lparr>mb_hash := wb_rss rxdp\<rparr>
           else if pkt_flags AND PKT_RX_FDIR \<noteq> 0
           then m1\<lparr>mb_hash := ucast (wb_csum rxdp AND IXGBE_ATR_HASH_MASK) OR
                              push_bit 16 (ucast (wb_ip_id rxdp))\<rparr>
           else m1)))))"

definition ixgbe_rx_cleanq_dequeue ::
  "ixgbe_rx_queue \<Rightarrow> cleanq_buf \<Rightarrow> (errval \<times> cleanq_buf \<times> ixgbe_rx_queue) cres" where
  "ixgbe_rx_cleanq_dequeue rxq b =
     (if rx_recl rxq = rx_tail rxq then Inr (CLEANQ_ERR_QUEUE_EMPTY, b, rxq)
      else
      bindc (arr_get (rx_ring rxq) (unat (rx_recl rxq))) (\<lambda>rxdp.
      if wb_status_error rxdp AND IXGBE_RXDADV_STAT_DD = 0 then Inr (CLEANQ_ERR_QUEUE_EMPTY, b, rxq)
      else
      bindc (arr_get (rx_sw_ring rxq) (unat (rx_recl rxq))) (\<lambda>mb.
      bindc (arr_set (rx_sw_ring rxq) (unat (rx_recl rxq)) 0) (\<lambda>sw.
      bindc (deref (mbufs rxq) mb) (\<lambda>m.
      bindc (rx_fill_mbuf rxq rxdp m) (\<lambda>m'.
      let rxq' = rxq\<lparr>mbufs := (mbufs rxq)(mb \<mapsto> m'), rx_sw_ring := sw,
                     rx_recl := ring_next (nb_rx_desc rxq) (rx_recl rxq)\<rparr> in
      bindc (mbuf_to_cleanq_buf rxq' mb) (\<lambda>cqbuf. Inr (CLEANQ_ERR_OK, cqbuf, rxq'))))))))"

definition ixgbe_rx_f :: "ixgbe_rx_queue cleanq_func_pointer" where
  "ixgbe_rx_f =
     \<lparr>f_reg = Some ixgbe_cleanq_register, f_dereg = Some ixgbe_cleanq_deregister,
      f_ctrl = None, f_notify = None,
      f_enq = Some ixgbe_rx_cleanq_enqueue, f_deq = Some ixgbe_rx_cleanq_dequeue,
      f_destroy = None\<rparr>"

definition ixgbe_rx_cleanq_create ::
  "bool \<Rightarrow> bool \<Rightarrow> u32 \<Rightarrow> ixgbe_rx_queue \<Rightarrow> errval \<times> ixgbe_rx_queue" where
  "ixgbe_rx_cleanq_create calloc1 calloc2 rnd rxq =
     (case cleanq_init calloc1 calloc2 rnd of
        (err, None) \<Rightarrow> (err, rxq)
      | (err, Some p) \<Rightarrow> if err_is_fail err then (err, rxq) else (CLEANQ_ERR_OK, rxq\<lparr>cq_pool := p\<rparr>))"

section \<open>The ring as a list of mbufs\<close>

text \<open>The software ring may have more entries than there are descriptors, for the look-ahead of the
  bulk receive function; only the first \<open>nb_rx_desc\<close> belong to descriptors.\<close>

definition rx_contents :: "ixgbe_rx_queue \<Rightarrow> u64 list" where
  "rx_contents q =
     ring_contents (take (unat (nb_rx_desc q)) (rx_sw_ring q)) (unat (rx_recl q))
       (in_flight (nb_rx_desc q) (rx_recl q) (rx_tail q))"

text \<open>An mbuf in the ring: it lies in the region of its mempool and its data start after the head
  room.\<close>

definition rx_mbuf_ok :: "ixgbe_rx_queue \<Rightarrow> u64 \<Rightarrow> bool" where
  "rx_mbuf_ok q a \<longleftrightarrow>
     (\<exists>m r. mbuf_of_region q a m r \<and> data_off m = RTE_PKTMBUF_HEADROOM \<and>
        unat (a - r_base_addr r) + unat (buf_len m) \<le> unat (r_len r))"

text \<open>What the card promises of a descriptor it writes back: the packet fits behind the head
  room.\<close>

definition rx_len_ok :: "ixgbe_rx_queue \<Rightarrow> ixgbe_adv_rx_desc \<Rightarrow> u64 \<Rightarrow> bool" where
  "rx_len_ok q d a \<longleftrightarrow>
     (\<forall>m. mbufs q a = Some m \<longrightarrow>
        unat RTE_PKTMBUF_HEADROOM + unat (wb_length d - ucast (crc_len q)) \<le> unat (buf_len m))"

definition rx_desc_ok :: "ixgbe_rx_queue \<Rightarrow> ixgbe_adv_rx_desc \<Rightarrow> u64 \<Rightarrow> bool" where
  "rx_desc_ok q d a \<longleftrightarrow> wb_status_error d AND IXGBE_RXDADV_STAT_DD \<noteq> 0 \<longrightarrow> rx_len_ok q d a"

text \<open>The position of the \<open>j\<close>-th oldest mbuf, and its descriptor and entry.\<close>

definition rx_pos :: "ixgbe_rx_queue \<Rightarrow> nat \<Rightarrow> nat" where
  "rx_pos q j = (unat (rx_recl q) + j) mod unat (nb_rx_desc q)"

definition rx_slot_ok :: "ixgbe_rx_queue \<Rightarrow> nat \<Rightarrow> bool" where
  "rx_slot_ok q i \<longleftrightarrow> rx_desc_ok q (rx_ring q ! i) (rx_sw_ring q ! i)"

definition rx_inv :: "ixgbe_rx_queue \<Rightarrow> bool" where
  "rx_inv q \<longleftrightarrow>
     ring_ok (nb_rx_desc q) (rx_recl q) (rx_tail q) \<and>
     unat (nb_rx_desc q) \<le> length (rx_ring q) \<and> unat (nb_rx_desc q) \<le> length (rx_sw_ring q) \<and>
     pool_inv (cq_pool q) \<and> regions_apart (cq_pool q) \<and>
     (\<forall>a\<in>set (rx_contents q). rx_mbuf_ok q a) \<and>
     (\<forall>j<in_flight (nb_rx_desc q) (rx_recl q) (rx_tail q). rx_slot_ok q (rx_pos q j))"

definition rx_pre :: "ixgbe_rx_queue \<Rightarrow> cleanq_buf \<Rightarrow> bool" where
  "rx_pre q b \<longleftrightarrow> \<not> wrap_gap (nb_rx_desc q) (rx_recl q) (rx_tail q) \<and>
     (\<exists>a. cleanq_buf_to_mbuf q b = Inr a \<and> mbuf_good q a)"

definition rx_full :: "ixgbe_rx_queue \<Rightarrow> bool" where
  "rx_full q \<longleftrightarrow> ring_full (rx_recl q) (rx_tail q)"

definition rx_ready :: "ixgbe_rx_queue \<Rightarrow> bool" where
  "rx_ready q \<longleftrightarrow> rx_recl q \<noteq> rx_tail q \<and>
     wb_status_error (rx_ring q ! unat (rx_recl q)) AND IXGBE_RXDADV_STAT_DD \<noteq> 0"

section \<open>The contract\<close>

lemma rx_invD:
  assumes "rx_inv q"
  shows "ring_ok (nb_rx_desc q) (rx_recl q) (rx_tail q)"
    "unat (nb_rx_desc q) \<le> length (rx_ring q)" "unat (nb_rx_desc q) \<le> length (rx_sw_ring q)"
    "unat (rx_tail q) < unat (nb_rx_desc q)" "unat (rx_recl q) < unat (nb_rx_desc q)"
    "pool_inv (cq_pool q)" "regions_apart (cq_pool q)"
  using assms by (simp_all add: rx_inv_def word_less_nat_alt ring_ok_def)

text \<open>Writing the metadata of one mbuf leaves the other mbufs and the descriptors as good as they
  were.\<close>

lemma rx_frame:
  assumes "cq_pool q' = cq_pool q" "mempools q' = mempools q" "crc_len q' = crc_len q"
    and "mbufs q' = (mbufs q)(a \<mapsto> m')" "mbufs q a = Some m"
    and "mb_pool m' = mb_pool m" "buf_len m' = buf_len m"
    and "data_off m' = data_off m \<or> data_off m' = RTE_PKTMBUF_HEADROOM"
  shows "rx_mbuf_ok q x \<Longrightarrow> rx_mbuf_ok q' x" "rx_desc_ok q' d x = rx_desc_ok q d x"
proof -
  assume "rx_mbuf_ok q x"
  then obtain mx r where x: "mbuf_of_region q x mx r" "data_off mx = RTE_PKTMBUF_HEADROOM"
    "unat (x - r_base_addr r) + unat (buf_len mx) \<le> unat (r_len r)"
    by (auto simp: rx_mbuf_ok_def)
  show "rx_mbuf_ok q' x"
  proof (cases "x = a")
    case True
    then have "mx = m" using x(1) assms(5) by (simp add: mbuf_of_region_def)
    then show ?thesis unfolding rx_mbuf_ok_def
      by (intro exI [of _ m'] exI [of _ r])
        (use x assms True in \<open>auto simp: mbuf_of_region_def\<close>)
  next
    case False
    then show ?thesis unfolding rx_mbuf_ok_def
      by (intro exI [of _ mx] exI [of _ r]) (use x assms in \<open>auto simp: mbuf_of_region_def\<close>)
  qed
next
  show "rx_desc_ok q' d x = rx_desc_ok q d x"
    using assms by (cases "x = a") (simp_all add: rx_desc_ok_def rx_len_ok_def)
qed

lemma ixgbe_rx_enqueue_spec:
  assumes inv: "rx_inv q" and pre: "rx_pre q b" and nf: "\<not> rx_full q"
  obtains q' where "ixgbe_rx_cleanq_enqueue q b = Inr (CLEANQ_ERR_OK, q')" "rx_inv q'"
    "cq_pool q' = cq_pool q" "rx_contents q' = rx_contents q @ [buf_addr (cq_pool q) b]"
    "nb_rx_desc q' = nb_rx_desc q"
    "\<And>x. x \<noteq> buf_addr (cq_pool q) b \<Longrightarrow> mbuf_good q x \<Longrightarrow> mbuf_good q' x"
proof -
  note d = rx_invD [OF inv]
  let ?t = "unat (rx_tail q)" and ?n = "in_flight (nb_rx_desc q) (rx_recl q) (rx_tail q)"
  obtain a where a: "cleanq_buf_to_mbuf q b = Inr a" "mbuf_good q a" using pre by (auto simp: rx_pre_def)
  obtain m r where m: "mbufs q a = Some m" "mbuf_of_region q a m r"
    "unat (a - r_base_addr r) + unat (buf_len m) \<le> unat (r_len r)"
    using a(2) by (auto simp: mbuf_good_def mbuf_of_region_def)
  have lt: "?n + 1 < unat (nb_rx_desc q)"
    using in_flight_full [OF d(1)] in_flight_less [OF d(1)] pre nf by (auto simp: rx_pre_def rx_full_def)
  define m' where "m' = m\<lparr>mb_port := port_id q, refcnt := 1, data_off := RTE_PKTMBUF_HEADROOM\<rparr>"
  define desc where "desc = \<lparr>pkt_addr = rte_mbuf_data_iova_default m', hdr_addr = 0\<rparr>"
  define q' where "q' = q\<lparr>mbufs := (mbufs q)(a \<mapsto> m'), rx_sw_ring := (rx_sw_ring q)[?t := a],
    rx_ring := (rx_ring q)[?t := desc], rx_tail := ring_next (nb_rx_desc q) (rx_tail q),
    rdt_reg := ucast (ring_next (nb_rx_desc q) (rx_tail q))\<rparr>"
  have eq: "ixgbe_rx_cleanq_enqueue q b = Inr (CLEANQ_ERR_OK, q')"
    using a(1) m(1) d(2-4) nf
    by (simp add: ixgbe_rx_cleanq_enqueue_def Let_def q'_def m'_def desc_def rx_full_def)
  have n': "in_flight (nb_rx_desc q) (rx_recl q) (ring_next (nb_rx_desc q) (rx_tail q)) = ?n + 1"
    using in_flight_push [OF d(1) lt] .
  have pos_n: "rx_pos q ?n = ?t" using in_flight_tail [OF d(1)] by (simp add: rx_pos_def)
  have c: "rx_contents q' = rx_contents q @ [a]"
    using ring_push [of ?n "take (unat (nb_rx_desc q)) (rx_sw_ring q)" "unat (rx_recl q)" a] lt d(3) pos_n n'
    by (simp add: rx_contents_def q'_def rx_pos_def min_absorb2 take_update_swap)
  have fr: "rx_mbuf_ok q x \<Longrightarrow> rx_mbuf_ok q' x" "rx_desc_ok q' e x = rx_desc_ok q e x" for x e
    by (rule rx_frame [where a = a and m = m and m' = m']; simp add: q'_def m'_def m(1))+
  have new: "rx_mbuf_ok q' a" unfolding rx_mbuf_ok_def
    by (intro exI [of _ m'] exI [of _ r]) (use m(2,3) in \<open>simp add: q'_def m'_def mbuf_of_region_def\<close>)
  have slots: "rx_slot_ok q' (rx_pos q j)" if "j < ?n + 1" for j
  proof (cases "j = ?n")
    case True
    then show ?thesis using pos_n d(2-4)
      by (simp add: rx_slot_ok_def rx_desc_ok_def q'_def desc_def wb_status_error_def)
  next
    case False
    then have j: "j < ?n" using that by simp
    have "rx_pos q j \<noteq> ?t"
      using ring_pos_inj [OF j in_flight_less [OF d(1)], of "unat (rx_recl q)"] pos_n by (simp add: rx_pos_def)
    moreover have "rx_slot_ok q (rx_pos q j)" using inv j by (simp add: rx_inv_def)
    ultimately show ?thesis unfolding rx_slot_ok_def fr(2) by (simp add: q'_def)
  qed
  have ok': "ring_ok (nb_rx_desc q) (rx_recl q) (ring_next (nb_rx_desc q) (rx_tail q))"
    using d(1) ring_next_less [OF d(1)] by (simp add: ring_ok_def)
  have fields: "nb_rx_desc q' = nb_rx_desc q" "rx_recl q' = rx_recl q" "cq_pool q' = cq_pool q"
    "rx_tail q' = ring_next (nb_rx_desc q) (rx_tail q)" "length (rx_ring q') = length (rx_ring q)"
    "length (rx_sw_ring q') = length (rx_sw_ring q)" "rx_pos q' j = rx_pos q j" for j
    by (simp_all add: q'_def rx_pos_def)
  have "rx_inv q'" unfolding rx_inv_def fields c n'
    using inv ok' slots new fr(1) by (auto simp: rx_inv_def)
  moreover have "mbuf_good q' x" if "x \<noteq> a" "mbuf_good q x" for x
    using that by (auto simp: mbuf_good_def mbuf_of_region_def q'_def)
  ultimately show thesis using that eq c fields(1,3) cleanq_buf_to_mbuf_addr [OF a(1)] by simp
qed

lemma length_flag_maps [simp]: "length ip_rss_types_map = 16" "length error_to_pkt_flags_map = 4"
  by (simp_all add: ip_rss_types_map_def error_to_pkt_flags_map_def)

lemma rx_fill_mbuf_spec:
  obtains m' where "rx_fill_mbuf q d m = Inr m'" "data_len m' = wb_length d - ucast (crc_len q)"
    "pkt_len m' = ucast (data_len m')" "mb_pool m' = mb_pool m" "buf_len m' = buf_len m"
    "data_off m' = data_off m"
proof -
  have "unat (x AND 0xF) < 16" for x :: u16 using unat_and_bound [of x "0xF"] by simp
  then have rss: "\<exists>f. ixgbe_rxd_pkt_info_to_pkt_flags x = Inr f" for x
    by (simp add: ixgbe_rxd_pkt_info_to_pkt_flags_def)
  have "unat (x AND 3) < 4" for x :: u32 using unat_and_bound [of x 3] by simp
  then have err: "\<exists>f. rx_desc_error_to_pkt_flags x = Inr f" for x
    by (simp add: rx_desc_error_to_pkt_flags_def Let_def)
  obtain e where e: "rx_desc_error_to_pkt_flags (wb_status_error d) = Inr e" using err by blast
  obtain f where f: "ixgbe_rxd_pkt_info_to_pkt_flags (ucast (wb_lo_dword d)) = Inr f" using rss by blast
  obtain p where p: "ixgbe_rxd_pkt_info_to_pkt_type (wb_lo_dword d) (pkt_type_mask q) = Inr p"
    using pkt_type_returns by blast
  show thesis
    by (rule that, simp add: rx_fill_mbuf_def Let_def e f p) auto
qed

lemma ixgbe_rx_dequeue_spec:
  assumes inv: "rx_inv q" and rd: "rx_ready q"
  obtains b' q' where "ixgbe_rx_cleanq_dequeue q b = Inr (CLEANQ_ERR_OK, b', q')" "rx_inv q'"
    "cq_pool q' = cq_pool q" "rx_contents q = buf_addr (cq_pool q) b' # rx_contents q'"
    "in_bounds (cq_pool q) b'"
    "b_valid_length b' = ucast (wb_length (rx_ring q ! unat (rx_recl q)) - ucast (crc_len q))"
    "cleanq_buf_to_mbuf q' b' = Inr (buf_addr (cq_pool q) b')"
proof -
  note d = rx_invD [OF inv]
  let ?r = "unat (rx_recl q)" and ?n = "in_flight (nb_rx_desc q) (rx_recl q) (rx_tail q)"
  let ?a = "rx_sw_ring q ! ?r" and ?d = "rx_ring q ! ?r"
  have pos: "0 < ?n" using rd in_flight_0 [OF d(1)] by (simp add: rx_ready_def)
  have r0: "rx_pos q 0 = ?r" using d(5) by (simp add: rx_pos_def)
  let ?sw = "take (unat (nb_rx_desc q)) (rx_sw_ring q)"
  have sw: "length ?sw = unat (nb_rx_desc q)" using d(3) by simp
  have ca: "rx_contents q = ?a # ring_contents ?sw ((?r + 1) mod length ?sw) (?n - 1)"
    using ring_pop [OF pos, of ?r ?sw] d(3,5) by (simp add: rx_contents_def)
  then have "rx_mbuf_ok q ?a" using inv by (simp add: rx_inv_def)
  then obtain m r where m: "mbuf_of_region q ?a m r" "data_off m = RTE_PKTMBUF_HEADROOM"
    "unat (?a - r_base_addr r) + unat (buf_len m) \<le> unat (r_len r)" "mbufs q ?a = Some m"
    unfolding rx_mbuf_ok_def by (metis mbuf_of_region_def)
  obtain m' where m': "rx_fill_mbuf q ?d m = Inr m'" "data_len m' = wb_length ?d - ucast (crc_len q)"
    "mb_pool m' = mb_pool m" "buf_len m' = buf_len m" "data_off m' = data_off m"
    using rx_fill_mbuf_spec by metis
  define q' where "q' = q\<lparr>mbufs := (mbufs q)(?a \<mapsto> m'), rx_sw_ring := (rx_sw_ring q)[?r := 0],
    rx_recl := ring_next (nb_rx_desc q) (rx_recl q)\<rparr>"
  have fields: "nb_rx_desc q' = nb_rx_desc q" "rx_tail q' = rx_tail q" "cq_pool q' = cq_pool q"
    "rx_recl q' = ring_next (nb_rx_desc q) (rx_recl q)" "rx_ring q' = rx_ring q"
    "length (rx_sw_ring q') = length (rx_sw_ring q)" "mempools q' = mempools q"
    by (simp_all add: q'_def)
  have fr: "rx_mbuf_ok q x \<Longrightarrow> rx_mbuf_ok q' x" "rx_desc_ok q' e x = rx_desc_ok q e x" for x e
    by (rule rx_frame [where a = ?a and m = m and m' = m']; simp add: q'_def m' m)+
  have reg: "mbuf_of_region q' ?a m' r" using m(1) m'(3) by (simp add: mbuf_of_region_def q'_def)
  have "rx_slot_ok q (rx_pos q 0)" using inv pos by (simp add: rx_inv_def)
  then have "unat RTE_PKTMBUF_HEADROOM + unat (wb_length ?d - ucast (crc_len q)) \<le> unat (buf_len m)"
    using rd m(4) r0 by (simp add: rx_slot_ok_def rx_desc_ok_def rx_len_ok_def rx_ready_def)
  then have len: "unat (data_off m') + unat (data_len m') \<le> unat (buf_len m')" using m' m(2) by simp
  have p': "pool_inv (cq_pool q')" "regions_apart (cq_pool q')" using d(6,7) fields(3) by simp_all
  have b: "mbuf_to_cleanq_buf q' ?a = Inr (mbuf_buf ?a m' r)"
    "in_bounds (cq_pool q') (mbuf_buf ?a m' r)" "buf_addr (cq_pool q') (mbuf_buf ?a m' r) = ?a"
    using mbuf_to_cleanq_buf_apart [OF p' reg] mbuf_buf_in_bounds [OF p'(1) reg] m(3) m'(4) len
      cleanq_buf_to_mbuf_addr [OF cleanq_buf_to_mbuf_eq [OF p'(1) reg]] by simp_all
  have conv: "cleanq_buf_to_mbuf q' (mbuf_buf ?a m' r) = Inr ?a" by (rule cleanq_buf_to_mbuf_eq [OF p'(1) reg])
  have eq: "ixgbe_rx_cleanq_dequeue q b = Inr (CLEANQ_ERR_OK, mbuf_buf ?a m' r, q')"
    using rd d(2,3,5) m(4) m'(1) b(1)
    by (simp add: ixgbe_rx_cleanq_dequeue_def rx_ready_def Let_def q'_def)
  have n': "in_flight (nb_rx_desc q) (ring_next (nb_rx_desc q) (rx_recl q)) (rx_tail q) = ?n - 1"
    using in_flight_pop [OF d(1) pos] .
  have next_r: "unat (ring_next (nb_rx_desc q) (rx_recl q)) = (?r + 1) mod unat (nb_rx_desc q)"
    using ring_next_unat ring_okD [OF d(1)] by simp
  have "rx_contents q' = ring_contents (?sw[?r := 0]) ((?r + 1) mod length ?sw) (?n - 1)"
    using n' next_r sw by (simp add: rx_contents_def q'_def take_update_swap)
  also have "\<dots> = ring_contents ?sw ((?r + 1) mod length ?sw) (?n - 1)"
    using in_flight_less [OF d(1)] d(5) sw by (intro ring_contents_update_first [OF pos]) auto
  finally have c: "rx_contents q = ?a # rx_contents q'" using ca by simp
  have slots: "rx_slot_ok q' (rx_pos q' j)" if "j < ?n - 1" for j
  proof -
    have pj: "rx_pos q' j = rx_pos q (j + 1)"
      by (simp add: rx_pos_def fields next_r mod_simps)
    have "j + 1 < unat (nb_rx_desc q)" using that in_flight_less [OF d(1)] by linarith
    then have "rx_pos q (j + 1) \<noteq> ?r"
      using ring_pos_inj [of 0 "j + 1" "unat (nb_rx_desc q)" ?r] r0 by (auto simp: rx_pos_def)
    moreover have "rx_slot_ok q (rx_pos q (j + 1))" using inv that by (simp add: rx_inv_def)
    ultimately show ?thesis unfolding rx_slot_ok_def pj fr(2) by (simp add: q'_def)
  qed
  have ok': "ring_ok (nb_rx_desc q) (ring_next (nb_rx_desc q) (rx_recl q)) (rx_tail q)"
    using d(1) ring_next_less [OF d(1)] by (simp add: ring_ok_def)
  have "rx_inv q'" unfolding rx_inv_def fields n'
    using inv ok' slots fr(1) c by (auto simp: rx_inv_def fields)
  then show thesis by (rule that [OF eq]) (use c b fields(3) m'(2) conv in \<open>simp_all add: mbuf_buf_def\<close>)
qed

lemma ixgbe_rx_dequeue_empty:
  assumes "rx_inv q" "\<not> rx_ready q"
  shows "ixgbe_rx_cleanq_dequeue q b = Inr (CLEANQ_ERR_QUEUE_EMPTY, b, q)"
  using assms rx_invD [OF assms(1)] by (auto simp: ixgbe_rx_cleanq_dequeue_def rx_ready_def)

lemma ixgbe_rx_enqueue_full:
  assumes "rx_pre q b" "rx_full q"
  shows "ixgbe_rx_cleanq_enqueue q b = Inr (CLEANQ_ERR_QUEUE_FULL, q)"
  using assms by (auto simp: rx_pre_def rx_full_def ixgbe_rx_cleanq_enqueue_def)

interpretation rx: cleanq_backend ixgbe_rx_f rx_inv rx_contents buf_addr rx_pre rx_ready rx_full
proof unfold_locales
  fix q b assume a: "rx_inv q" "rx_pre q b"
  show "\<exists>err q'. fcall (f_enq ixgbe_rx_f) (\<lambda>enq. enq q b) = Inr (err, q') \<and>
      (if rx_full q then err = CLEANQ_ERR_QUEUE_FULL \<and> q' = q
       else err = CLEANQ_ERR_OK \<and> rx_inv q' \<and> cq_pool q' = cq_pool q \<and>
            rx_contents q' = rx_contents q @ [buf_addr (cq_pool q) b])"
  proof (cases "rx_full q")
    case True
    then show ?thesis using ixgbe_rx_enqueue_full [OF a(2)] by (simp add: ixgbe_rx_f_def)
  next
    case False
    then show ?thesis using ixgbe_rx_enqueue_spec [OF a] by (metis fcall_simps(1) ixgbe_rx_f_def
        cleanq_func_pointer.select_convs(5))
  qed
next
  fix q b assume a: "rx_inv q"
  show "\<exists>err b' q'. fcall (f_deq ixgbe_rx_f) (\<lambda>deq. deq q b) = Inr (err, b', q') \<and>
      (if rx_ready q
       then err = CLEANQ_ERR_OK \<and> rx_inv q' \<and> cq_pool q' = cq_pool q \<and>
            rx_contents q = buf_addr (cq_pool q) b' # rx_contents q' \<and> in_bounds (cq_pool q) b'
       else err = CLEANQ_ERR_QUEUE_EMPTY \<and> b' = b \<and> q' = q)"
  proof (cases "rx_ready q")
    case True
    then show ?thesis using ixgbe_rx_dequeue_spec [OF a True, of b] by (metis fcall_simps(1) ixgbe_rx_f_def
        cleanq_func_pointer.select_convs(6))
  next
    case False
    then show ?thesis using ixgbe_rx_dequeue_empty [OF a] by (simp add: ixgbe_rx_f_def)
  qed
qed (simp add: rx_inv_def)

text \<open>In the gap an enqueue is not refused, and the ring counts as empty afterwards.\<close>

definition rx_good :: "ixgbe_rx_queue \<Rightarrow> cleanq_buf \<Rightarrow> bool" where
  "rx_good q b \<longleftrightarrow> (\<exists>a. cleanq_buf_to_mbuf q b = Inr a \<and> mbuf_good q a)"

definition rx_gap :: "ixgbe_rx_queue \<Rightarrow> bool" where
  "rx_gap q \<longleftrightarrow> wrap_gap (nb_rx_desc q) (rx_recl q) (rx_tail q)"

lemma ixgbe_rx_enqueue_gap:
  assumes inv: "rx_inv q" and gap: "rx_gap q" and good: "rx_good q b"
  shows "length (rx_contents q) + 1 = unat (nb_rx_desc q)"
    "\<exists>q'. ixgbe_rx_cleanq_enqueue q b = Inr (CLEANQ_ERR_OK, q') \<and> rx_inv q' \<and> rx_contents q' = []"
proof -
  note d = rx_invD [OF inv]
  have n: "in_flight (nb_rx_desc q) (rx_recl q) (rx_tail q) + 1 = unat (nb_rx_desc q)"
    using in_flight_full [OF d(1)] gap by (simp add: rx_gap_def)
  then show "length (rx_contents q) + 1 = unat (nb_rx_desc q)" by (simp add: rx_contents_def)
  have t: "rx_recl q = 0" "rx_tail q = nb_rx_desc q - 1" using gap by (auto simp: rx_gap_def wrap_gap_def)
  have nf: "\<not> ring_full (rx_recl q) (rx_tail q)" by (simp add: ring_full_iff t)
  have z: "ring_next (nb_rx_desc q) (rx_tail q) = 0" by (simp add: ring_next_def t)
  obtain a where a: "cleanq_buf_to_mbuf q b = Inr a" "mbuf_good q a" using good by (auto simp: rx_good_def)
  obtain m where "mbufs q a = Some m" using mbuf_goodE [OF d(6,7) a(2)] by metis
  then have "\<exists>q'. ixgbe_rx_cleanq_enqueue q b = Inr (CLEANQ_ERR_OK, q') \<and> rx_recl q' = 0 \<and> rx_tail q' = 0 \<and>
      nb_rx_desc q' = nb_rx_desc q \<and> length (rx_ring q') = length (rx_ring q) \<and> length (rx_sw_ring q') = length (rx_sw_ring q) \<and>
      cq_pool q' = cq_pool q"
    using a(1) nf d(2-4) z t(1) by (simp add: ixgbe_rx_cleanq_enqueue_def Let_def)
  then obtain q' where q': "ixgbe_rx_cleanq_enqueue q b = Inr (CLEANQ_ERR_OK, q')" "rx_recl q' = 0" "rx_tail q' = 0"
    "nb_rx_desc q' = nb_rx_desc q" "length (rx_ring q') = length (rx_ring q)" "length (rx_sw_ring q') = length (rx_sw_ring q)"
    "cq_pool q' = cq_pool q" by blast
  have c: "rx_contents q' = []" "in_flight (nb_rx_desc q) 0 0 = 0" by (simp_all add: rx_contents_def in_flight_def q')
  have "ring_ok (nb_rx_desc q) 0 0" using d(1) t(1) by (auto simp: ring_ok_def)
  then have "rx_inv q'" unfolding rx_inv_def c using inv by (simp add: q'(2-7) c rx_inv_def)
  then show "\<exists>q'. ixgbe_rx_cleanq_enqueue q b = Inr (CLEANQ_ERR_OK, q') \<and> rx_inv q' \<and> rx_contents q' = []"
    using q'(1) c by auto
qed

interpretation rx_lossy: gap_backend ixgbe_rx_f rx_inv rx_contents buf_addr rx_pre rx_ready rx_full
  rx_gap rx_good "\<lambda>q. unat (nb_rx_desc q)"
proof unfold_locales
  fix q b assume "rx_inv q" "rx_gap q" "rx_good q b"
  from ixgbe_rx_enqueue_gap [OF this]
  show "length (rx_contents q) + 1 = unat (nb_rx_desc q) \<and>
      (\<exists>q'. fcall (f_enq ixgbe_rx_f) (\<lambda>enq. enq q b) = Inr (CLEANQ_ERR_OK, q') \<and> rx_inv q' \<and> rx_contents q' = [])"
    by (auto simp: ixgbe_rx_f_def)
qed (simp add: rx_pre_def rx_good_def rx_gap_def)

section \<open>The card\<close>

definition rx_hw_write :: "ixgbe_rx_queue \<Rightarrow> nat \<Rightarrow> ixgbe_adv_rx_desc \<Rightarrow> ixgbe_rx_queue" where
  "rx_hw_write q i d = q\<lparr>rx_ring := (rx_ring q)[i := d]\<rparr>"

text \<open>A run of the receive queue. The card may write back any descriptor as long as the packet it
  reports fits the mbuf in that slot.\<close>

inductive rx_run :: "ixgbe_rx_queue \<Rightarrow> ixgbe_rx_queue \<Rightarrow> u64 list \<Rightarrow> u64 list \<Rightarrow> bool" for q0 where
  start: "rx_run q0 q0 [] []"
| enqueue: "rx_run q0 q ins outs \<Longrightarrow> in_bounds (cq_pool q) b \<longrightarrow> rx_pre q b \<Longrightarrow>
    cleanq_enqueue ixgbe_rx_f q b = Inr (err, q') \<Longrightarrow>
    rx_run q0 q' (if err_is_ok err then ins @ [buf_addr (cq_pool q) b] else ins) outs"
| dequeue: "rx_run q0 q ins outs \<Longrightarrow> cleanq_dequeue ixgbe_rx_f q b = Inr (err, b', q') \<Longrightarrow>
    rx_run q0 q' ins (if err_is_ok err then outs @ [buf_addr (cq_pool q) b'] else outs)"
| card: "rx_run q0 q ins outs \<Longrightarrow> i < unat (nb_rx_desc q) \<Longrightarrow> rx_len_ok q d (rx_sw_ring q ! i) \<Longrightarrow>
    rx_run q0 (rx_hw_write q i d) ins outs"

lemma rx_hw_write_inv:
  assumes "rx_inv q" "i < unat (nb_rx_desc q)" "rx_len_ok q d (rx_sw_ring q ! i)"
  shows "rx_inv (rx_hw_write q i d)" "rx_contents (rx_hw_write q i d) = rx_contents q"
proof -
  let ?q = "rx_hw_write q i d"
  have fields: "nb_rx_desc ?q = nb_rx_desc q" "rx_tail ?q = rx_tail q" "cq_pool ?q = cq_pool q"
    "rx_recl ?q = rx_recl q" "rx_sw_ring ?q = rx_sw_ring q" "length (rx_ring ?q) = length (rx_ring q)"
    "mempools ?q = mempools q" "mbufs ?q = mbufs q" "crc_len ?q = crc_len q"
    by (simp_all add: rx_hw_write_def)
  show c: "rx_contents ?q = rx_contents q" by (simp add: rx_contents_def fields)
  have m: "rx_mbuf_ok ?q x = rx_mbuf_ok q x" "rx_desc_ok ?q e x = rx_desc_ok q e x" for x e
    by (simp_all add: rx_mbuf_ok_def mbuf_of_region_def rx_desc_ok_def rx_len_ok_def fields)
  have "rx_slot_ok ?q j" if "rx_slot_ok q j" for j
    using that assms(2,3) rx_invD(2) [OF assms(1)] unfolding rx_slot_ok_def m fields
    by (cases "j = i") (simp_all add: rx_hw_write_def rx_desc_ok_def)
  moreover have "rx_pos ?q j = rx_pos q j" for j by (simp add: rx_pos_def fields)
  ultimately show "rx_inv ?q" using assms(1) unfolding rx_inv_def c fields m by simp
qed

lemma rx_run_fifo:
  assumes "rx_run q0 q ins outs" "rx_inv q0"
  shows "rx_inv q \<and> rx_contents q0 @ ins = outs @ rx_contents q"
  using assms
proof (induction rule: rx_run.induct)
  case (enqueue q ins outs b err q')
  then have inv: "rx_inv q" and eq: "rx_contents q0 @ ins = outs @ rx_contents q" by auto
  show ?case
    by (rule rx.enqueue_spec [OF inv, of b]) (use enqueue.hyps eq inv in \<open>auto simp: err_is_ok_def\<close>)
next
  case (dequeue q ins outs b err b' q')
  then have inv: "rx_inv q" and eq: "rx_contents q0 @ ins = outs @ rx_contents q" by auto
  show ?case
    by (rule rx.dequeue_spec [OF inv, of b]) (use dequeue.hyps eq inv in \<open>auto simp: err_is_ok_def\<close>)
qed (use rx_hw_write_inv in auto)

text \<open>Any calls, also in the gap, of a driver that enqueues only while fewer than \<open>n\<close> mbufs are in the ring. \<open>lost\<close>
  are the blocks of mbufs that were dropped.\<close>

inductive rx_calls :: "nat \<Rightarrow> ixgbe_rx_queue \<Rightarrow> ixgbe_rx_queue \<Rightarrow> u64 list \<Rightarrow> u64 list \<Rightarrow> u64 list list \<Rightarrow> bool" for n q0 where
  start: "rx_calls n q0 q0 [] [] []"
| enqueue: "rx_calls n q0 q ins outs lost \<Longrightarrow> length (rx_contents q) < n \<Longrightarrow> in_bounds (cq_pool q) b \<longrightarrow> rx_good q b \<Longrightarrow>
    cleanq_enqueue ixgbe_rx_f q b = Inr (err, q') \<Longrightarrow>
    rx_calls n q0 q' (if err_is_ok err then ins @ [buf_addr (cq_pool q) b] else ins) outs
      (lost @ overrun (rx_gap q) err (rx_contents q @ [buf_addr (cq_pool q) b]))"
| dequeue: "rx_calls n q0 q ins outs lost \<Longrightarrow> cleanq_dequeue ixgbe_rx_f q b = Inr (err, b', q') \<Longrightarrow>
    rx_calls n q0 q' ins (if err_is_ok err then outs @ [buf_addr (cq_pool q) b'] else outs) lost"
| card: "rx_calls n q0 q ins outs lost \<Longrightarrow> i < unat (nb_rx_desc q) \<Longrightarrow> rx_len_ok q d (rx_sw_ring q ! i) \<Longrightarrow>
    rx_calls n q0 (rx_hw_write q i d) ins outs lost"

lemma rx_calls_size:
  "cleanq_enqueue ixgbe_rx_f q b = Inr (err, q') \<Longrightarrow> nb_rx_desc q' = nb_rx_desc q"
  "cleanq_dequeue ixgbe_rx_f q b = Inr (err, b', q') \<Longrightarrow> nb_rx_desc q' = nb_rx_desc q"
  by (auto simp: cleanq_enqueue_def cleanq_dequeue_def ixgbe_rx_f_def ixgbe_rx_cleanq_enqueue_def ixgbe_rx_cleanq_dequeue_def
      bindc_eq_Inr Let_def split: if_splits option.splits)

lemma rx_calls_account:
  assumes "rx_calls n q0 q ins outs lost" "rx_inv q0"
  shows "rx_inv q \<and> account (rx_contents q0 @ ins) outs lost (rx_contents q) \<and> nb_rx_desc q = nb_rx_desc q0 \<and>
    (\<forall>blk\<in>set lost. length blk = unat (nb_rx_desc q0)) \<and> (n < unat (nb_rx_desc q0) \<longrightarrow> lost = [])"
  using assms
proof (induction rule: rx_calls.induct)
  case start
  then show ?case by (simp add: account_start)
next
  case (enqueue q ins outs lost b err q')
  note ih = enqueue.IH [OF enqueue.prems]
  have i: "rx_inv q" "account (rx_contents q0 @ ins) outs lost (rx_contents q)" using ih by simp_all
  let ?new = "overrun (rx_gap q) err (rx_contents q @ [buf_addr (cq_pool q) b])"
  have "rx_inv q' \<and> account (rx_contents q0 @ (if err_is_ok err then ins @ [buf_addr (cq_pool q) b] else ins)) outs
      (lost @ ?new) (rx_contents q')"
    using rx_lossy.enqueue_account [OF i(1) enqueue.hyps(3,4) i(2)] by (cases "err_is_ok err") simp_all
  moreover have new: "length blk = unat (nb_rx_desc q0)" if "blk \<in> set ?new" for blk
    using rx_lossy.overrun_capacity [OF i(1) enqueue.hyps(3,4) that] ih by simp
  moreover have "?new = []" if "n < unat (nb_rx_desc q0)"
    using new [of "rx_contents q @ [buf_addr (cq_pool q) b]"] enqueue.hyps(2) that by (auto simp: overrun_def)
  ultimately show ?case using ih rx_calls_size(1) [OF enqueue.hyps(4)] by auto
next
  case (dequeue q ins outs lost b err b' q')
  then show ?case using rx_lossy.dequeue_account [OF _ dequeue.hyps(2)] rx_calls_size(2) [OF dequeue.hyps(2)] by auto
next
  case (card q ins outs lost i d)
  then show ?case using rx_hw_write_inv [OF _ card.hyps(2,3)] by (simp add: rx_hw_write_def)
qed

section \<open>Properties\<close>

text \<open>Property C3: the receive ring keeps order, and when it loses mbufs. The driver supplies good mbufs (of
  a registered mempool, with their data inside) and takes them back while the card writes descriptors back at any time,
  as long as the length it reports fits the mbuf in that place. The ring stays well-formed. The mbufs
  supplied, after those inside at the start, are those gone followed by those still in the ring; the ones gone are those
  taken back, in order, mixed with those lost, in order. Mbufs are lost only by an enqueue in the one state in
  which the full test misses, and then a whole ring of them. A driver that supplies mbufs only while the ring holds fewer
  than \<open>nb_rx_desc - 1\<close> loses none and gets them in the order in which it supplied them.\<close>

theorem ixgbe_rx_fifo:
  assumes "rx_inv q0" "rx_calls n q0 q ins outs lost"
  shows "rx_inv q \<and>
    (\<exists>gone. rx_contents q0 @ ins = gone @ rx_contents q \<and> gone \<in> shuffles outs (concat lost)) \<and>
    (\<forall>blk\<in>set lost. length blk = unat (nb_rx_desc q0)) \<and>
    (n < unat (nb_rx_desc q0) \<longrightarrow> lost = [] \<and> rx_contents q0 @ ins = outs @ rx_contents q)"
  using rx_calls_account [OF assms(2,1)] account_no_loss by (auto simp: account_def [symmetric])

text \<open>A queue of four descriptors, one of them with an mbuf the card has filled with 60 bytes.\<close>

definition demo_rxq :: "region_pool \<Rightarrow> ixgbe_rx_queue" where
  "demo_rxq p =
     \<lparr>cq_pool = p, cq_state = 0, mempools = [1 \<mapsto> demo_mempool], mbufs = [0x10800 \<mapsto> demo_mbuf],
      rx_ring = [\<lparr>pkt_addr = 0x10, hdr_addr = 0x0000003C00000001\<rparr>, \<lparr>pkt_addr = 0, hdr_addr = 0\<rparr>,
                 \<lparr>pkt_addr = 0, hdr_addr = 0\<rparr>, \<lparr>pkt_addr = 0, hdr_addr = 0\<rparr>],
      rx_sw_ring = [0x10800, 0, 0, 0],
      rdt_reg = 1, nb_rx_desc = 4, rx_tail = 1, rx_recl = 0, port_id = 0, crc_len = 0,
      pkt_type_mask = 0x7F, vlan_flags = 0, rx_mb_pool = 1, rx_ring_phys_addr = 0, rdt_reg_addr = 0x1018,
      rdh_reg_addr = 0x1010, rx_sw_sc_ring = [0, 0, 0, 0], rx_nb_avail = 0, rx_next_avail = 0,
      rx_free_trigger = 0, rx_free_thresh = 1, rx_stage = [], nb_rx_hold = 0, pkt_first_seg = 0,
      pkt_last_seg = 0, rx_queue_id = 0, rx_reg_idx = 0, drop_en = 0, rx_deferred_start = 0, rx_offloads = 0,
      fake_mbuf = 0\<rparr>"

lemma demo_rxq_inv:
  assumes "pool_inv p" "pool_map p = [rid \<mapsto> new_region rid demo_cap]"
  shows "rx_inv (demo_rxq p)" "rx_ready (demo_rxq p)" "rx_contents (demo_rxq p) = [0x10800]"
proof -
  let ?q = "demo_rxq p"
  show c: "rx_contents ?q = [0x10800]"
    by (simp add: rx_contents_def ring_contents_def demo_rxq_def in_flight_def)
  have "rx_mbuf_ok ?q 0x10800" unfolding rx_mbuf_ok_def
    by (rule exI [of _ demo_mbuf], rule exI [of _ "new_region rid demo_cap"])
      (use assms(2) in \<open>simp add: mbuf_of_region_def demo_rxq_def demo_mbuf_def demo_mempool_def
        new_region_def demo_cap_def RTE_PKTMBUF_HEADROOM_def\<close>)
  moreover have "rx_slot_ok ?q 0"
    by (simp add: rx_slot_ok_def rx_desc_ok_def rx_len_ok_def demo_rxq_def wb_length_def demo_mbuf_def
        RTE_PKTMBUF_HEADROOM_def)
  moreover have "regions_apart p"
    using assms(2) by (auto simp: regions_apart_def region_no_wrap_def new_region_def demo_cap_def split: if_splits)
  ultimately show "rx_inv ?q"
    using assms(1) unfolding rx_inv_def c
    by (simp add: ring_ok_def rx_pos_def in_flight_def) (simp add: demo_rxq_def)
  show "rx_ready ?q" by (simp add: rx_ready_def demo_rxq_def wb_status_error_def IXGBE_RXDADV_STAT_DD_def)
qed

theorem ixgbe_rx_fifo_witness:
  "\<exists>p q. rx_inv (demo_rxq p) \<and> rx_calls 3 (demo_rxq p) q [] [0x10800] [] \<and> rx_contents q = []"
proof -
  obtain id p where a: "pool_inv p" "pool_map p = [id \<mapsto> new_region id demo_cap]"
    by (rule demo_pool_add)
  note r = demo_rxq_inv [OF a]
  obtain b q where d: "cleanq_dequeue ixgbe_rx_f (demo_rxq p) empty_buf = Inr (CLEANQ_ERR_OK, b, q)"
    "rx_contents (demo_rxq p) = buf_addr (cq_pool (demo_rxq p)) b # rx_contents q"
    using rx.dequeue_spec [OF r(1), of empty_buf] r(2) by metis
  have run: "rx_calls 3 (demo_rxq p) q [] [0x10800] []"
    using rx_calls.dequeue [OF rx_calls.start d(1)] d(2) r(3) by simp
  from ixgbe_rx_fifo [OF r(1) run] have "rx_contents q = []" using r(3) by (simp add: demo_rxq_def)
  then show ?thesis using run r(1) by blast
qed

text \<open>What a received packet looks like. When the oldest descriptor is done, dequeueing
  through the interface succeeds and gives the mbuf that was put into that slot, with the length the
  card reported less the checksum bytes.\<close>

theorem ixgbe_rx_delivers_packet:
  assumes "rx_inv q" "rx_ready q"
  shows "\<exists>b' q'. cleanq_dequeue ixgbe_rx_f q b = Inr (CLEANQ_ERR_OK, b', q') \<and>
    buf_addr (cq_pool q) b' = rx_sw_ring q ! unat (rx_recl q) \<and>
    b_valid_length b' = ucast (wb_length (rx_ring q ! unat (rx_recl q)) - ucast (crc_len q)) \<and>
    rx_contents q' = tl (rx_contents q)"
proof (rule ixgbe_rx_dequeue_spec [OF assms, of b])
  fix b' q'
  assume d: "ixgbe_rx_cleanq_dequeue q b = Inr (CLEANQ_ERR_OK, b', q')"
    "cq_pool q' = cq_pool q" "rx_contents q = buf_addr (cq_pool q) b' # rx_contents q'"
    "in_bounds (cq_pool q) b'"
    "b_valid_length b' = ucast (wb_length (rx_ring q ! unat (rx_recl q)) - ucast (crc_len q))"
  let ?n = "in_flight (nb_rx_desc q) (rx_recl q) (rx_tail q)"
  have "length (rx_contents q) = ?n" by (simp add: rx_contents_def)
  then have "0 < ?n" using d(3) by simp
  from ring_pop [OF this, of "unat (rx_recl q)" "take (unat (nb_rx_desc q)) (rx_sw_ring q)"]
  have "hd (rx_contents q) = rx_sw_ring q ! unat (rx_recl q)"
    using rx_invD(3,5) [OF assms(1)] by (simp add: rx_contents_def)
  then show ?thesis using d by (simp add: cleanq_dequeue_def ixgbe_rx_f_def err_is_fail_def)
qed

theorem ixgbe_rx_delivers_packet_witness:
  "\<exists>p b q. rx_inv (demo_rxq p) \<and> rx_ready (demo_rxq p) \<and>
     cleanq_dequeue ixgbe_rx_f (demo_rxq p) empty_buf = Inr (CLEANQ_ERR_OK, b, q) \<and> b_valid_length b = 60"
proof -
  obtain id p where a: "pool_inv p" "pool_map p = [id \<mapsto> new_region id demo_cap]"
    by (rule demo_pool_add)
  note r = demo_rxq_inv [OF a]
  have "(ucast (wb_length (rx_ring (demo_rxq p) ! unat (rx_recl (demo_rxq p))) - ucast (crc_len (demo_rxq p))) :: u64) = 60"
    by (simp add: demo_rxq_def wb_length_def)
  then show ?thesis using ixgbe_rx_delivers_packet [OF r(1,2), of empty_buf] r by metis
qed

lemma err_bits:
  "drop_bit 30 (s :: u32) AND 3 = (if bit s 31 then 2 else 0) OR (if bit s 30 then 1 else 0)"
proof (rule bit_word_eqI)
  fix n assume n: "n < LENGTH(32)"
  show "bit (drop_bit 30 s AND 3) n = bit ((if bit s 31 then 2 else 0) OR (if bit s 30 then 1 else (0 :: u32))) n"
  proof (cases "n < 2")
    case True
    then have "n = 0 \<or> n = 1" by auto
    then show ?thesis by (auto simp: bit_simps)
  next
    case False
    then have "\<not> bit s (30 + n)" using bit_imp_le_length [of s "30 + n"] by auto
    then show ?thesis using False by (auto simp: bit_simps)
  qed
qed

lemma and_flag_iff: "(x :: u64) AND 2 ^ n \<noteq> 0 \<longleftrightarrow> bit x n"
  using and_exp_eq_0_iff_not_bit by auto

lemmas cksum_flag_iff =
  and_flag_iff [of _ 4, simplified] and_flag_iff [of _ 7, simplified]
  and_flag_iff [of _ 3, simplified] and_flag_iff [of _ 8, simplified]

lemmas pkt_flag_defs =
  PKT_RX_IP_CKSUM_BAD_def PKT_RX_IP_CKSUM_GOOD_def PKT_RX_L4_CKSUM_BAD_def PKT_RX_L4_CKSUM_GOOD_def
  PKT_RX_EIP_CKSUM_BAD_def PKT_RX_SEC_OFFLOAD_def PKT_RX_SEC_OFFLOAD_FAILED_def

text \<open>Checksum flags. The conversion of the descriptor's error bits returns for every
  status word; the IP checksum is flagged bad exactly when bit 31 is set and good otherwise, and the
  L4 checksum bad exactly when bit 30 is set and good otherwise.\<close>

theorem rx_checksum_flags:
  "\<exists>flags. rx_desc_error_to_pkt_flags status = Inr flags \<and>
     (flags AND PKT_RX_IP_CKSUM_BAD \<noteq> 0 \<longleftrightarrow> bit status 31) \<and>
     (flags AND PKT_RX_IP_CKSUM_GOOD \<noteq> 0 \<longleftrightarrow> \<not> bit status 31) \<and>
     (flags AND PKT_RX_L4_CKSUM_BAD \<noteq> 0 \<longleftrightarrow> bit status 30) \<and>
     (flags AND PKT_RX_L4_CKSUM_GOOD \<noteq> 0 \<longleftrightarrow> \<not> bit status 30)"
  unfolding rx_desc_error_to_pkt_flags_def err_bits
  by (cases "bit status 31"; cases "bit status 30")
    (auto simp: error_to_pkt_flags_map_def arr_get_def pkt_flag_defs cksum_flag_iff bit_simps Let_def)

end
