(* ===== verification/Ixgbe_Burst.thy ===== *)
theory Ixgbe_Burst
  imports Ixgbe_Tx Ixgbe_Rx
begin

text \<open>
  The burst functions an application calls, \<open>ixgbe_xmit_pkts_cleanq\<close> and \<open>ixgbe_recv_pkts_cleanq\<close> of
  \<open>drivers/net/ixgbe/ixgbe_rxtx.c\<close>, and the registration of mempools with a port's transmit queue,
  \<open>cleanq_pmd_ixgbe.c\<close>. The mempool belongs to \<open>librte_mempool\<close>: the mbufs a function frees are a
  list it returns, and the mbufs it is given by \<open>rte_mbuf_raw_alloc\<close> are a list it takes.

  Contents: the functions; that a burst that fits the ring is sent completely, that refilling the
  receive ring never meets a full ring, and that no mbuf is lost in either direction; what the
  queue number check of the registration lets through.
\<close>

section \<open>Transmitting\<close>

text \<open>The loop that takes back what the card is finished with: the mbufs passed to
  \<open>rte_pktmbuf_free_seg\<close>, in order.\<close>

partial_function (option) tx_drain ::
  "ixgbe_tx_queue \<Rightarrow> cleanq_buf \<Rightarrow> u64 list \<Rightarrow> (u64 list \<times> cleanq_buf \<times> ixgbe_tx_queue) cres option" where
  "tx_drain q b freed =
     (case cleanq_dequeue ixgbe_tx_f q b of
        Inl e \<Rightarrow> Some (Inl e)
      | Inr r \<Rightarrow>
          if err_is_ok (fst r)
          then case cleanq_buf_to_mbuf (snd (snd r)) (fst (snd r)) of
                 Inl e \<Rightarrow> Some (Inl e)
               | Inr mb \<Rightarrow> tx_drain (snd (snd r)) (fst (snd r)) (freed @ [mb])
          else Some (Inr (freed, fst (snd r), snd (snd r))))"

text \<open>The loop that enqueues the packets; \<open>nb_tx\<close> counts them.\<close>

fun tx_fill :: "ixgbe_tx_queue \<Rightarrow> u64 list \<Rightarrow> u16 \<Rightarrow> (u16 \<times> ixgbe_tx_queue) cres" where
  "tx_fill q [] nb_tx = Inr (nb_tx, q)"
| "tx_fill q (mb # mbs) nb_tx =
     bindc (mbuf_to_cleanq_buf q mb) (\<lambda>cqbuf.
     bindc (cleanq_enqueue ixgbe_tx_f q cqbuf) (\<lambda>(err, q').
       if err_is_fail err then Inr (nb_tx, q') else tx_fill q' mbs (nb_tx + 1)))"

text \<open>\<open>tx_pkts\<close> is the array of \<open>nb_pkts\<close> mbufs, \<open>cqbuf\<close> the uninitialised local.\<close>

definition ixgbe_xmit_pkts_cleanq ::
  "ixgbe_tx_queue \<Rightarrow> u64 list \<Rightarrow> cleanq_buf \<Rightarrow> (u16 \<times> u64 list \<times> ixgbe_tx_queue) cres" where
  "ixgbe_xmit_pkts_cleanq q tx_pkts cqbuf =
     bindc (run_loop (tx_drain q cqbuf [])) (\<lambda>(freed, _, q1).
     bindc (tx_fill q1 tx_pkts 0) (\<lambda>(nb_tx, q2).
     Inr (nb_tx, freed, q2)))"

section \<open>Receiving\<close>

definition nb_refill :: "ixgbe_rx_queue \<Rightarrow> int" where
  "nb_refill rxq =
     (let nb_bufs = int (unat (rx_recl rxq)) - int (unat (rx_tail rxq)) - 1 in
      if nb_bufs < 0 then nb_bufs + int (unat (nb_rx_desc rxq)) else nb_bufs)"

text \<open>Refilling: \<open>allocs\<close> is what \<open>rte_mbuf_raw_alloc\<close> returns from call to call, NULL once the list is
  used up. The result says whether an allocation failed, which mbufs went into the ring and which
  were given back with \<open>rte_mbuf_raw_free\<close>.\<close>

fun rx_refill ::
  "ixgbe_rx_queue \<Rightarrow> nat \<Rightarrow> u64 list \<Rightarrow> (bool \<times> u64 list \<times> u64 list \<times> ixgbe_rx_queue) cres" where
  "rx_refill q 0 allocs = Inr (False, [], [], q)"
| "rx_refill q (Suc n) [] = Inr (True, [], [], q)"
| "rx_refill q (Suc n) (mb # allocs) =
     (if mb = 0 then Inr (True, [], [], q)
      else
      bindc (mbuf_to_cleanq_buf q mb) (\<lambda>cqbuf.
      bindc (cleanq_enqueue ixgbe_rx_f q cqbuf) (\<lambda>(err, q').
        if err_is_fail err then Inr (False, [], [mb], q')
        else bindc (rx_refill q' n allocs) (\<lambda>(failed, ins, back, q'').
               Inr (failed, mb # ins, back, q'')))))"

fun rx_take :: "ixgbe_rx_queue \<Rightarrow> nat \<Rightarrow> cleanq_buf \<Rightarrow> (u64 list \<times> ixgbe_rx_queue) cres" where
  "rx_take q 0 cqbuf = Inr ([], q)"
| "rx_take q (Suc n) cqbuf =
     bindc (cleanq_dequeue ixgbe_rx_f q cqbuf) (\<lambda>(err, b, q').
       if err_is_fail err then Inr ([], q')
       else bindc (cleanq_buf_to_mbuf q' b) (\<lambda>mb.
            bindc (rx_take q' n b) (\<lambda>(pkts, q''). Inr (mb # pkts, q''))))"

text \<open>The result: the received packets (as many as the returned count), whether an allocation
  failed, the mbufs supplied and the mbufs given back.\<close>

definition ixgbe_recv_pkts_cleanq ::
  "ixgbe_rx_queue \<Rightarrow> u16 \<Rightarrow> u64 list \<Rightarrow> cleanq_buf \<Rightarrow>
   (u64 list \<times> bool \<times> u64 list \<times> u64 list \<times> ixgbe_rx_queue) cres" where
  "ixgbe_recv_pkts_cleanq q nb_pkts allocs cqbuf =
     bindc (rx_refill q (nat (nb_refill q)) allocs) (\<lambda>(failed, ins, back, q1).
     bindc (rx_take q1 (unat nb_pkts) cqbuf) (\<lambda>(rx_pkts, q2).
     Inr (rx_pkts, failed, ins, back, q2)))"

section \<open>Registering a mempool with a port\<close>

record rte_eth_dev =
  dev_unused :: bool
  dev_is_ixgbe :: bool
  nb_rx_queues :: u16
  dev_tx_queues :: "ixgbe_tx_queue list"

definition ENODEV :: int where "ENODEV = 19"
definition EINVAL :: int where "EINVAL = 22"
definition ENOTSUP :: int where "ENOTSUP = 95"

text \<open>The part the two functions share: the queue they act on, or the error they return.\<close>

definition pmd_tx_queue :: "rte_eth_dev list \<Rightarrow> u16 \<Rightarrow> u16 \<Rightarrow> (errval + ixgbe_tx_queue) cres" where
  "pmd_tx_queue devs port qid =
     (if \<not> unat port < length devs \<or> dev_unused (devs ! unat port) then Inr (Inl (Errval_Int (- ENODEV)))
      else let dev = devs ! unat port in
        if \<not> dev_is_ixgbe dev then Inr (Inl (Errval_Int (- ENOTSUP)))
        else if qid \<ge> nb_rx_queues dev then Inr (Inl (Errval_Int (- EINVAL)))
        else bindc (arr_get (dev_tx_queues dev) (unat qid)) (\<lambda>q. Inr (Inr q)))"

definition set_tx_queue :: "rte_eth_dev list \<Rightarrow> u16 \<Rightarrow> u16 \<Rightarrow> ixgbe_tx_queue \<Rightarrow> rte_eth_dev list" where
  "set_tx_queue devs port qid q =
     devs[unat port := (devs ! unat port)\<lparr>dev_tx_queues := (dev_tx_queues (devs ! unat port))[unat qid := q]\<rparr>]"

definition cleanq_pmd_ixgbe_tx_register ::
  "libc \<Rightarrow> rte_eth_dev list \<Rightarrow> u16 \<Rightarrow> u16 \<Rightarrow> rte_mempool \<Rightarrow> regionid \<Rightarrow> (errval \<times> rte_eth_dev list) cres" where
  "cleanq_pmd_ixgbe_tx_register env devs port qid mp rid =
     bindc (pmd_tx_queue devs port qid) (\<lambda>r. case r of
       Inl err \<Rightarrow> Inr (err, devs)
     | Inr q \<Rightarrow> bindc (cleanq_register_mempool env ixgbe_tx_f q mp rid) (\<lambda>(err, q').
         Inr (err, set_tx_queue devs port qid q')))"

definition cleanq_pmd_ixgbe_tx_deregister ::
  "rte_eth_dev list \<Rightarrow> u16 \<Rightarrow> u16 \<Rightarrow> rte_mempool \<Rightarrow> capref \<Rightarrow> (errval \<times> rte_eth_dev list) cres" where
  "cleanq_pmd_ixgbe_tx_deregister devs port qid mp cap =
     bindc (pmd_tx_queue devs port qid) (\<lambda>r. case r of
       Inl err \<Rightarrow> Inr (err, devs)
     | Inr q \<Rightarrow> bindc (cleanq_deregister_mempool ixgbe_tx_f q mp cap) (\<lambda>(err, q').
         Inr (err, set_tx_queue devs port qid q')))"

section \<open>Bursts keep every mbuf\<close>

definition tx_same_memory :: "ixgbe_tx_queue \<Rightarrow> ixgbe_tx_queue \<Rightarrow> bool" where
  "tx_same_memory q q' \<longleftrightarrow> cq_pool q' = cq_pool q \<and> mempools q' = mempools q \<and> mbufs q' = mbufs q \<and>
     nb_tx_desc q' = nb_tx_desc q"

lemma tx_same_memory_refl [simp]: "tx_same_memory q q"
  by (simp add: tx_same_memory_def)

lemma tx_same_memory_trans: "tx_same_memory q q' \<Longrightarrow> tx_same_memory q' q'' \<Longrightarrow> tx_same_memory q q''"
  by (simp add: tx_same_memory_def)

lemma tx_same_memory_good: "tx_same_memory q q' \<Longrightarrow> mbuf_good q' a = mbuf_good q a"
  by (rule mbuf_good_cong) (simp_all add: tx_same_memory_def)

lemma tx_drain_spec:
  "tx_inv q \<Longrightarrow> \<exists>fs b' q'. tx_drain q b freed = Some (Inr (freed @ fs, b', q')) \<and> tx_inv q' \<and>
     tx_contents q = fs @ tx_contents q' \<and> tx_same_memory q q' \<and> \<not> tx_ready q'"
proof (induction "length (tx_contents q)" arbitrary: q b freed rule: less_induct)
  case less
  show ?case
  proof (cases "tx_ready q")
    case False
    then have "cleanq_dequeue ixgbe_tx_f q b = Inr (CLEANQ_ERR_QUEUE_EMPTY, b, q)"
      using ixgbe_tx_dequeue_empty [OF less.prems] by (simp add: cleanq_dequeue_def ixgbe_tx_f_def err_is_fail_def)
    then have "tx_drain q b freed = Some (Inr (freed, b, q))"
      by (subst tx_drain.simps) (simp add: err_is_ok_def)
    then show ?thesis using less.prems False by simp
  next
    case True
    show ?thesis
    proof (rule ixgbe_tx_dequeue_spec [OF less.prems True, of b])
      fix b1 q1
      assume d: "ixgbe_tx_cleanq_dequeue q b = Inr (CLEANQ_ERR_OK, b1, q1)" "tx_inv q1"
        "cq_pool q1 = cq_pool q" "tx_contents q = buf_addr (cq_pool q) b1 # tx_contents q1"
        "in_bounds (cq_pool q) b1" "cleanq_buf_to_mbuf q1 b1 = Inr (buf_addr (cq_pool q) b1)"
        "mempools q1 = mempools q" "mbufs q1 = mbufs q" "nb_tx_desc q1 = nb_tx_desc q"
      let ?a = "buf_addr (cq_pool q) b1"
      have "cleanq_dequeue ixgbe_tx_f q b = Inr (CLEANQ_ERR_OK, b1, q1)"
        using d(1,3,5) by (simp add: cleanq_dequeue_def ixgbe_tx_f_def err_is_fail_def)
      then have step: "tx_drain q b freed = tx_drain q1 b1 (freed @ [?a])"
        using d(6) by (subst tx_drain.simps) simp
      have "length (tx_contents q1) < length (tx_contents q)" using d(4) by simp
      from less.hyps [OF this d(2), of b1 "freed @ [?a]"] obtain fs b' q' where
        r: "tx_drain q1 b1 (freed @ [?a]) = Some (Inr ((freed @ [?a]) @ fs, b', q'))" "tx_inv q'"
          "tx_contents q1 = fs @ tx_contents q'" "tx_same_memory q1 q'" "\<not> tx_ready q'"
        by blast
      have "tx_same_memory q q1" using d by (simp add: tx_same_memory_def)
      then show ?thesis using step r d(4) tx_same_memory_trans by (intro exI [of _ "?a # fs"]) auto
    qed
  qed
qed

lemma tx_enqueue_room:
  assumes inv: "tx_inv q" and a: "mbuf_good q a" and room: "length (tx_contents q) + 1 < unat (nb_tx_desc q)"
  obtains b q' where "mbuf_to_cleanq_buf q a = Inr b" "cleanq_enqueue ixgbe_tx_f q b = Inr (CLEANQ_ERR_OK, q')"
    "tx_inv q'" "tx_contents q' = tx_contents q @ [a]" "tx_same_memory q q'"
proof (rule mbuf_goodE [OF tx_invD(7,8) [OF inv] a])
  fix m r
  assume b: "mbuf_to_cleanq_buf q a = Inr (mbuf_buf a m r)" "in_bounds (cq_pool q) (mbuf_buf a m r)"
    "buf_addr (cq_pool q) (mbuf_buf a m r) = a" "cleanq_buf_to_mbuf q (mbuf_buf a m r) = Inr a"
  have "in_flight (nb_tx_desc q) (tx_recl q) (tx_tail q) + 1 < unat (nb_tx_desc q)"
    using room by (simp add: tx_contents_def)
  then have "\<not> tx_full q" "\<not> wrap_gap (nb_tx_desc q) (tx_recl q) (tx_tail q)"
    using in_flight_full [OF tx_invD(1) [OF inv]] by (auto simp: tx_full_def)
  then have nf: "\<not> tx_full q" "tx_pre q (mbuf_buf a m r)" using b(4) a by (auto simp: tx_pre_def)
  show thesis
  proof (rule ixgbe_tx_enqueue_spec [OF inv nf(2,1)])
    fix q' assume "ixgbe_tx_cleanq_enqueue q (mbuf_buf a m r) = Inr (CLEANQ_ERR_OK, q')" "tx_inv q'"
      "cq_pool q' = cq_pool q" "tx_contents q' = tx_contents q @ [buf_addr (cq_pool q) (mbuf_buf a m r)]"
      "mempools q' = mempools q" "mbufs q' = mbufs q" "nb_tx_desc q' = nb_tx_desc q"
    then show thesis using that b by (simp add: cleanq_enqueue_def ixgbe_tx_f_def tx_same_memory_def)
  qed
qed

lemma tx_fill_spec:
  "tx_inv q \<Longrightarrow> \<forall>a\<in>set pkts. mbuf_good q a \<Longrightarrow>
     length (tx_contents q) + length pkts < unat (nb_tx_desc q) \<Longrightarrow>
     \<exists>q'. tx_fill q pkts n = Inr (n + of_nat (length pkts), q') \<and> tx_inv q' \<and>
       tx_contents q' = tx_contents q @ pkts \<and> tx_same_memory q q'"
proof (induction pkts arbitrary: q n)
  case (Cons a pkts)
  show ?case
  proof (rule tx_enqueue_room [OF Cons.prems(1)])
    show "mbuf_good q a" "length (tx_contents q) + 1 < unat (nb_tx_desc q)" using Cons.prems by auto
    fix b q1
    assume s: "mbuf_to_cleanq_buf q a = Inr b" "cleanq_enqueue ixgbe_tx_f q b = Inr (CLEANQ_ERR_OK, q1)"
      "tx_inv q1" "tx_contents q1 = tx_contents q @ [a]" "tx_same_memory q q1"
    have "\<forall>x\<in>set pkts. mbuf_good q1 x" using Cons.prems(2) tx_same_memory_good [OF s(5)] by simp
    moreover have "length (tx_contents q1) + length pkts < unat (nb_tx_desc q1)"
      using Cons.prems(3) s(4,5) by (simp add: tx_same_memory_def)
    ultimately obtain q' where "tx_fill q1 pkts (n + 1) = Inr (n + 1 + of_nat (length pkts), q')" "tx_inv q'"
      "tx_contents q' = tx_contents q1 @ pkts" "tx_same_memory q1 q'"
      using Cons.IH [OF s(3), of "n + 1"] by blast
    then show ?thesis using s tx_same_memory_trans [OF s(5)]
      by (auto simp: err_is_fail_def add.assoc)
  qed
qed simp

section \<open>Refilling and receiving\<close>

text \<open>The number of mbufs to supply is the number of free descriptors: here the wrap-around is
  handled.\<close>

lemma nb_refill_arith:
  fixes r t n :: nat
  assumes "r < n" "t < n"
  shows "nat (let nb_bufs = int r - int t - 1 in if nb_bufs < 0 then nb_bufs + int n else nb_bufs) =
    (if r \<le> t then n - 1 - (t - r) else r - t - 1)"
  using assms by (simp add: Let_def nat_eq_iff)

lemma nb_refill_eq:
  assumes "ring_ok (nb_rx_desc q) (rx_recl q) (rx_tail q)"
  shows "nat (nb_refill q) + in_flight (nb_rx_desc q) (rx_recl q) (rx_tail q) + 1 = unat (nb_rx_desc q)"
proof -
  note d = ring_okD [OF assms]
  note n = nb_refill_arith [of "unat (rx_recl q)" "unat (nb_rx_desc q)" "unat (rx_tail q)", folded nb_refill_def]
  show ?thesis
  proof (cases "unat (rx_recl q) \<le> unat (rx_tail q)")
    case True
    have "unat (rx_tail q) + unat (nb_rx_desc q) - unat (rx_recl q) =
        unat (rx_tail q) - unat (rx_recl q) + unat (nb_rx_desc q)" using True d by simp
    then have "in_flight (nb_rx_desc q) (rx_recl q) (rx_tail q) =
        (unat (rx_tail q) - unat (rx_recl q)) mod unat (nb_rx_desc q)"
      by (simp only: in_flight_def mod_add_self2)
    then have "in_flight (nb_rx_desc q) (rx_recl q) (rx_tail q) = unat (rx_tail q) - unat (rx_recl q)"
      using d by simp
    then show ?thesis using True d n by simp
  next
    case False
    then have "in_flight (nb_rx_desc q) (rx_recl q) (rx_tail q) =
        unat (rx_tail q) + unat (nb_rx_desc q) - unat (rx_recl q)"
      using d by (simp add: in_flight_def)
    then show ?thesis using False d n by simp
  qed
qed

lemma rx_enqueue_room:
  assumes inv: "rx_inv q" and a: "mbuf_good q a" and room: "length (rx_contents q) + 1 < unat (nb_rx_desc q)"
  obtains b q' where "mbuf_to_cleanq_buf q a = Inr b" "cleanq_enqueue ixgbe_rx_f q b = Inr (CLEANQ_ERR_OK, q')"
    "rx_inv q'" "rx_contents q' = rx_contents q @ [a]" "nb_rx_desc q' = nb_rx_desc q"
    "\<And>x. x \<noteq> a \<Longrightarrow> mbuf_good q x \<Longrightarrow> mbuf_good q' x"
proof (rule mbuf_goodE [OF rx_invD(6,7) [OF inv] a])
  fix m r
  assume b: "mbuf_to_cleanq_buf q a = Inr (mbuf_buf a m r)" "in_bounds (cq_pool q) (mbuf_buf a m r)"
    "buf_addr (cq_pool q) (mbuf_buf a m r) = a" "cleanq_buf_to_mbuf q (mbuf_buf a m r) = Inr a"
  have "in_flight (nb_rx_desc q) (rx_recl q) (rx_tail q) + 1 < unat (nb_rx_desc q)"
    using room by (simp add: rx_contents_def)
  then have "\<not> rx_full q" "\<not> wrap_gap (nb_rx_desc q) (rx_recl q) (rx_tail q)"
    using in_flight_full [OF rx_invD(1) [OF inv]] by (auto simp: rx_full_def)
  then have nf: "\<not> rx_full q" "rx_pre q (mbuf_buf a m r)" using b(4) a by (auto simp: rx_pre_def)
  show thesis
  proof (rule ixgbe_rx_enqueue_spec [OF inv nf(2,1)])
    fix q' assume "ixgbe_rx_cleanq_enqueue q (mbuf_buf a m r) = Inr (CLEANQ_ERR_OK, q')" "rx_inv q'"
      "rx_contents q' = rx_contents q @ [buf_addr (cq_pool q) (mbuf_buf a m r)]"
      "nb_rx_desc q' = nb_rx_desc q"
      "\<And>x. x \<noteq> buf_addr (cq_pool q) (mbuf_buf a m r) \<Longrightarrow> mbuf_good q x \<Longrightarrow> mbuf_good q' x"
    then show thesis using that b by (simp add: cleanq_enqueue_def ixgbe_rx_f_def)
  qed
qed

lemma rx_refill_spec:
  "rx_inv q \<Longrightarrow> distinct allocs \<Longrightarrow> \<forall>a\<in>set allocs. a \<noteq> 0 \<longrightarrow> mbuf_good q a \<Longrightarrow>
     length (rx_contents q) + n < unat (nb_rx_desc q) \<Longrightarrow>
     \<exists>failed ins q'. rx_refill q n allocs = Inr (failed, ins, [], q') \<and> rx_inv q' \<and>
       rx_contents q' = rx_contents q @ ins \<and> length ins \<le> n \<and> (\<not> failed \<longrightarrow> length ins = n)"
proof (induction q n allocs rule: rx_refill.induct)
  case (3 q n a allocs)
  show ?case
  proof (cases "a = 0")
    case True
    then show ?thesis using "3.prems" by auto
  next
    case False
    show ?thesis
    proof (rule rx_enqueue_room [OF "3.prems"(1)])
      show "mbuf_good q a" "length (rx_contents q) + 1 < unat (nb_rx_desc q)" using "3.prems" False by auto
      fix b q1
      assume s: "mbuf_to_cleanq_buf q a = Inr b" "cleanq_enqueue ixgbe_rx_f q b = Inr (CLEANQ_ERR_OK, q1)"
        "rx_inv q1" "rx_contents q1 = rx_contents q @ [a]" "nb_rx_desc q1 = nb_rx_desc q"
        "\<And>x. x \<noteq> a \<Longrightarrow> mbuf_good q x \<Longrightarrow> mbuf_good q1 x"
      have "\<forall>x\<in>set allocs. x \<noteq> 0 \<longrightarrow> mbuf_good q1 x" using "3.prems"(2,3) s(6) by (metis distinct.simps(2) list.set_intros(2))
      moreover have "length (rx_contents q1) + n < unat (nb_rx_desc q1)" using "3.prems"(4) s(4,5) by simp
      ultimately obtain failed ins q' where "rx_refill q1 n allocs = Inr (failed, ins, [], q')" "rx_inv q'"
        "rx_contents q' = rx_contents q1 @ ins" "length ins \<le> n" "\<not> failed \<longrightarrow> length ins = n"
        using "3.IH" [OF False, of CLEANQ_ERR_OK q1] s "3.prems"(2) by (auto simp: err_is_fail_def)
      then show ?thesis using s False by (auto simp: err_is_fail_def)
    qed
  qed
qed auto

lemma rx_take_spec:
  "rx_inv q \<Longrightarrow> \<exists>pkts q'. rx_take q n b = Inr (pkts, q') \<and> rx_inv q' \<and>
     rx_contents q = pkts @ rx_contents q' \<and> length pkts \<le> n"
proof (induction n arbitrary: q b)
  case (Suc n)
  show ?case
  proof (cases "rx_ready q")
    case False
    then have "cleanq_dequeue ixgbe_rx_f q b = Inr (CLEANQ_ERR_QUEUE_EMPTY, b, q)"
      using ixgbe_rx_dequeue_empty [OF Suc.prems] by (simp add: cleanq_dequeue_def ixgbe_rx_f_def err_is_fail_def)
    then show ?thesis using Suc.prems by (simp add: err_is_fail_def)
  next
    case True
    show ?thesis
    proof (rule ixgbe_rx_dequeue_spec [OF Suc.prems True, of b])
      fix b1 q1
      assume d: "ixgbe_rx_cleanq_dequeue q b = Inr (CLEANQ_ERR_OK, b1, q1)" "rx_inv q1"
        "cq_pool q1 = cq_pool q" "rx_contents q = buf_addr (cq_pool q) b1 # rx_contents q1"
        "in_bounds (cq_pool q) b1" "cleanq_buf_to_mbuf q1 b1 = Inr (buf_addr (cq_pool q) b1)"
      have "cleanq_dequeue ixgbe_rx_f q b = Inr (CLEANQ_ERR_OK, b1, q1)"
        using d(1,3,5) by (simp add: cleanq_dequeue_def ixgbe_rx_f_def err_is_fail_def)
      then show ?thesis using Suc.IH [OF d(2), of b1] d(4,6) by (auto simp: err_is_fail_def)
    qed
  qed
qed simp

lemma recv_burst_spec:
  assumes "rx_inv q" "distinct allocs" "\<forall>a\<in>set allocs. a \<noteq> 0 \<longrightarrow> mbuf_good q a"
  shows "\<exists>pkts failed ins q'. ixgbe_recv_pkts_cleanq q nb_pkts allocs cqbuf = Inr (pkts, failed, ins, [], q') \<and>
    rx_inv q' \<and> rx_contents q @ ins = pkts @ rx_contents q' \<and> length pkts \<le> unat nb_pkts \<and>
    (\<not> failed \<longrightarrow> length (rx_contents q @ ins) + 1 = unat (nb_rx_desc q))"
proof -
  have n: "nat (nb_refill q) + length (rx_contents q) + 1 = unat (nb_rx_desc q)"
    using nb_refill_eq [OF rx_invD(1) [OF assms(1)]] by (simp add: rx_contents_def)
  then have "length (rx_contents q) + nat (nb_refill q) < unat (nb_rx_desc q)" by linarith
  from rx_refill_spec [OF assms this] obtain failed ins q1 where
    r: "rx_refill q (nat (nb_refill q)) allocs = Inr (failed, ins, [], q1)" "rx_inv q1"
      "rx_contents q1 = rx_contents q @ ins" "\<not> failed \<longrightarrow> length ins = nat (nb_refill q)"
    by blast
  obtain pkts q2 where "rx_take q1 (unat nb_pkts) cqbuf = Inr (pkts, q2)" "rx_inv q2"
    "rx_contents q1 = pkts @ rx_contents q2" "length pkts \<le> unat nb_pkts"
    using rx_take_spec [OF r(2)] by blast
  then show ?thesis using r n by (auto simp: ixgbe_recv_pkts_cleanq_def)
qed

section \<open>Properties\<close>

text \<open>Property C21: a burst that fits is sent completely and nothing is lost. Transmitting returns; when the
  packets fit into the ring beside what is in it, all of them are accepted, and the mbufs in the ring
  before followed by the packets are exactly the mbufs freed followed by the mbufs in the ring
  afterwards.\<close>

theorem xmit_burst_complete:
  assumes "tx_inv q" "\<forall>a\<in>set pkts. mbuf_good q a"
    and "length (tx_contents q) + length pkts < unat (nb_tx_desc q)"
  shows "\<exists>freed q'. ixgbe_xmit_pkts_cleanq q pkts cqbuf = Inr (of_nat (length pkts), freed, q') \<and>
    tx_inv q' \<and> tx_contents q @ pkts = freed @ tx_contents q'"
proof -
  obtain fs b1 q1 where d: "tx_drain q cqbuf [] = Some (Inr ([] @ fs, b1, q1))" "tx_inv q1"
    "tx_contents q = fs @ tx_contents q1" "tx_same_memory q q1"
    using tx_drain_spec [OF assms(1), of cqbuf "[]"] by blast
  have "\<forall>a\<in>set pkts. mbuf_good q1 a" using assms(2) tx_same_memory_good [OF d(4)] by simp
  moreover have "length (tx_contents q1) + length pkts < unat (nb_tx_desc q1)"
    using assms(3) d(3,4) by (simp add: tx_same_memory_def)
  ultimately obtain q' where "tx_fill q1 pkts 0 = Inr (0 + of_nat (length pkts), q')" "tx_inv q'"
    "tx_contents q' = tx_contents q1 @ pkts"
    using tx_fill_spec [OF d(2), of pkts 0] by blast
  then show ?thesis using d by (simp add: ixgbe_xmit_pkts_cleanq_def)
qed

theorem xmit_burst_complete_witness:
  "\<exists>p q q' freed. ixgbe_reset_tx_queue (demo_txq p) = Inr q \<and> tx_inv q \<and>
     ixgbe_xmit_pkts_cleanq q [0x10800] empty_buf = Inr (1, freed, q') \<and> freed @ tx_contents q' = [0x10800]"
proof -
  obtain p q and b :: cleanq_buf where r: "ixgbe_reset_tx_queue (demo_txq p) = Inr q" "tx_inv q" "tx_contents q = []"
    "mbuf_good q 0x10800" "nb_tx_desc q = 4"
    by (rule demo_tx_reset)
  from xmit_burst_complete [OF r(2), of "[0x10800]" empty_buf] obtain freed q' where
    "ixgbe_xmit_pkts_cleanq q [0x10800] empty_buf = Inr (1, freed, q')" "[0x10800] = freed @ tx_contents q'"
    using r(3-5) by auto
  then show ?thesis using r(1,2) by metis
qed

text \<open>Property C22: receiving loses no mbuf and never meets a full ring. When the allocator gives distinct
  good mbufs, receiving returns, no mbuf has to be given back, and the mbufs in the ring before
  followed by those supplied are exactly the packets returned followed by the mbufs in the ring
  afterwards. Unless an allocation failed, every free descriptor but one was supplied.\<close>

theorem recv_burst_conserves:
  assumes "rx_inv q" "distinct allocs" "\<forall>a\<in>set allocs. a \<noteq> 0 \<longrightarrow> mbuf_good q a"
  shows "\<exists>pkts failed ins q'. ixgbe_recv_pkts_cleanq q nb_pkts allocs cqbuf = Inr (pkts, failed, ins, [], q') \<and>
    rx_inv q' \<and> rx_contents q @ ins = pkts @ rx_contents q' \<and> length pkts \<le> unat nb_pkts \<and>
    (\<not> failed \<longrightarrow> length (rx_contents q @ ins) + 1 = unat (nb_rx_desc q))"
  by (rule recv_burst_spec [OF assms])

theorem recv_burst_conserves_witness:
  "\<exists>p pkts failed ins q'. rx_inv (demo_rxq p) \<and>
     ixgbe_recv_pkts_cleanq (demo_rxq p) 8 [] empty_buf = Inr (pkts, failed, ins, [], q') \<and>
     0x10800 # ins = pkts @ rx_contents q'"
proof -
  obtain id p where a: "pool_inv p" "pool_map p = [id \<mapsto> new_region id demo_cap]"
    by (rule demo_pool_add)
  note r = demo_rxq_inv [OF a]
  from recv_burst_conserves [OF r(1), of "[]" 8 empty_buf] show ?thesis using r(1,3) by auto
qed

text \<open>The queue number of a registration is checked against the number of receive queues. When a
  port has more receive queues than transmit queues, a number between the two passes the check and
  the transmit queue table is read beyond its end; when it has fewer, the existing transmit queues
  above that number are refused with -EINVAL.\<close>

theorem tx_register_checks_rx_queues:
  assumes "unat port < length devs" "\<not> dev_unused (devs ! unat port)" "dev_is_ixgbe (devs ! unat port)"
  shows "(length (dev_tx_queues (devs ! unat port)) \<le> unat qid \<and> qid < nb_rx_queues (devs ! unat port) \<longrightarrow>
      cleanq_pmd_ixgbe_tx_register env devs port qid mp rid = Inl Bad_Memory) \<and>
    (nb_rx_queues (devs ! unat port) \<le> qid \<longrightarrow>
      cleanq_pmd_ixgbe_tx_register env devs port qid mp rid = Inr (Errval_Int (- 22), devs))"
  using assms by (auto simp: cleanq_pmd_ixgbe_tx_register_def pmd_tx_queue_def Let_def EINVAL_def)

theorem tx_register_checks_rx_queues_witness:
  "\<exists>p. cleanq_pmd_ixgbe_tx_register demo_env
      [\<lparr>dev_unused = False, dev_is_ixgbe = True, nb_rx_queues = 2, dev_tx_queues = [demo_txq p]\<rparr>] 0 1 demo_mempool 0 =
    Inl Bad_Memory"
  using tx_register_checks_rx_queues [of 0
    "[\<lparr>dev_unused = False, dev_is_ixgbe = True, nb_rx_queues = 2, dev_tx_queues = [demo_txq demo_pool]\<rparr>]"
    1 demo_env demo_mempool 0]
  by auto

end
