(* ===== verification/Ixgbe_Setup.thy ===== *)
theory Ixgbe_Setup
  imports Ixgbe_Burst "HOL-Library.Multiset"
begin

text \<open>
  Setting up, releasing, starting and stopping the queues of a port,
  \<open>drivers/net/ixgbe/ixgbe_rxtx.c\<close>: the code that brings the rings of \<open>Ixgbe_Tx\<close> and \<open>Ixgbe_Rx\<close>
  into being and takes them down again. The build is the one with \<open>RTE_LIBCLEANQ\<close> and without
  \<open>RTE_IXGBE_INC_VECTOR\<close>; the choice of the burst function is modelled for both settings of the latter.

  A pointer in \<open>dev->data->tx_queues\<close> is NULL, points to a queue or points to a queue that has been
  freed. A software ring that is NULL is the empty list. What the functions free is in their result:
  the mbufs passed to \<open>rte_pktmbuf_free_seg\<close> and the blocks passed to \<open>rte_free\<close>.

  Contents: the operations; the outcome of a set-up for every configuration and every failing allocation, with a
  well-formed empty ring when all succeed; that stopping a queue frees each mbuf in it exactly once; which burst function
  a port ends up with; where an error path leaks or leaves a dangling pointer.
\<close>

section \<open>State\<close>

datatype ixgbe_mac_type =
    ixgbe_mac_unknown
  | ixgbe_mac_82598EB
  | ixgbe_mac_82599EB
  | ixgbe_mac_82599_vf
  | ixgbe_mac_X540
  | ixgbe_mac_X540_vf
  | ixgbe_mac_X550
  | ixgbe_mac_X550EM_x
  | ixgbe_mac_X550EM_a
  | ixgbe_mac_X550_vf
  | ixgbe_mac_X550EM_x_vf
  | ixgbe_mac_X550EM_a_vf
  | ixgbe_num_macs

datatype tx_burst = Xmit_Cleanq | Xmit_Vec | Xmit_Simple | Xmit_Full

datatype 'q slot = Null | Queue 'q | Dangling

datatype heap_block = Queue_Struct | Sw_Ring | Sc_Ring

datatype queue_state = Stopped | Started

record rte_eth_txconf =
  txc_pthresh :: u8
  txc_hthresh :: u8
  txc_wthresh :: u8
  txc_rs_thresh :: u16
  txc_free_thresh :: u16
  txc_deferred_start :: u8
  txc_offloads :: u64

record rte_eth_rxconf =
  rxc_free_thresh :: u16
  rxc_drop_en :: u8
  rxc_deferred_start :: u8
  rxc_offloads :: u64

record ixgbe_port =
  mac_type :: ixgbe_mac_type
  dev_port_id :: u16
  sriov_active :: u8
  def_pool_q_idx :: u16
  txmode_offloads :: u64
  rxmode_offloads :: u64
  security_ctx :: bool
  rx_bulk_alloc_allowed :: bool
  rx_vec_allowed :: bool
  port_tx_queues :: "ixgbe_tx_queue slot list"
  port_rx_queues :: "ixgbe_rx_queue slot list"
  tx_queue_state :: "queue_state list"
  rx_queue_state :: "queue_state list"
  tx_pkt_burst :: tx_burst
  tx_pkt_prepare :: bool

definition ENOMEM :: int where "ENOMEM = 12"
definition IXGBE_MIN_RING_DESC :: nat where "IXGBE_MIN_RING_DESC = 32"
definition IXGBE_MAX_RING_DESC :: nat where "IXGBE_MAX_RING_DESC = 4096"
definition IXGBE_TXD_ALIGN :: nat where "IXGBE_TXD_ALIGN = 128 div 16"
definition IXGBE_RXD_ALIGN :: nat where "IXGBE_RXD_ALIGN = 128 div 16"
definition RTE_PMD_IXGBE_TX_MAX_BURST :: nat where "RTE_PMD_IXGBE_TX_MAX_BURST = 32"
definition RTE_PMD_IXGBE_RX_MAX_BURST :: nat where "RTE_PMD_IXGBE_RX_MAX_BURST = 32"
definition RTE_IXGBE_TX_MAX_FREE_BUF_SZ :: nat where "RTE_IXGBE_TX_MAX_FREE_BUF_SZ = 64"
definition DEFAULT_TX_RS_THRESH :: u16 where "DEFAULT_TX_RS_THRESH = 32"
definition DEFAULT_TX_FREE_THRESH :: u16 where "DEFAULT_TX_FREE_THRESH = 32"
definition DEV_TX_OFFLOAD_SECURITY :: u64 where "DEV_TX_OFFLOAD_SECURITY = 0x00020000"
definition DEV_RX_OFFLOAD_KEEP_CRC :: u64 where "DEV_RX_OFFLOAD_KEEP_CRC = 0x00010000"

text \<open>What the allocators answer: whether \<open>rte_zmalloc_socket\<close> gives the queue and the software rings,
  the memory zone of the descriptors, with its address and whatever it contains, and what \<open>cleanq_init\<close>
  gets. The memory the mbufs and mempools live in is that of the process.\<close>

record 'd setup_env =
  zm_queue :: bool
  dma_zone :: "(u64 \<times> 'd list) option"
  zm_sw_ring :: bool
  zm_sc_ring :: bool
  cq_calloc1 :: bool
  cq_calloc2 :: bool
  cq_rnd :: u32
  proc_mempools :: "addr \<rightharpoonup> rte_mempool"
  proc_mbufs :: "u64 \<rightharpoonup> rte_mbuf"

section \<open>Transmit queues\<close>

definition ixgbe_is_vf :: "ixgbe_mac_type \<Rightarrow> bool" where
  "ixgbe_is_vf t \<longleftrightarrow>
     (case t of
        ixgbe_mac_82599_vf \<Rightarrow> True
      | ixgbe_mac_X540_vf \<Rightarrow> True
      | ixgbe_mac_X550_vf \<Rightarrow> True
      | ixgbe_mac_X550EM_x_vf \<Rightarrow> True
      | ixgbe_mac_X550EM_a_vf \<Rightarrow> True
      | _ \<Rightarrow> False)"

text \<open>The loop over the entries of a software ring: the mbufs it frees and the entries afterwards.\<close>

fun release_tx_entries :: "ixgbe_tx_entry list \<Rightarrow> u64 list \<times> ixgbe_tx_entry list" where
  "release_tx_entries [] = ([], [])"
| "release_tx_entries (e # es) =
     (let (freed, es') = release_tx_entries es in
      if te_mbuf e \<noteq> 0 then (te_mbuf e # freed, e\<lparr>te_mbuf := 0\<rparr> # es') else (freed, e # es'))"

definition ixgbe_tx_queue_release_mbufs :: "ixgbe_tx_queue \<Rightarrow> (u64 list \<times> ixgbe_tx_queue) cres" where
  "ixgbe_tx_queue_release_mbufs txq =
     (let nb = unat (nb_tx_desc txq) in
      if tx_sw_ring txq = [] then Inr ([], txq)
      else if length (tx_sw_ring txq) < nb then Inl Bad_Memory
      else let (freed, es) = release_tx_entries (take nb (tx_sw_ring txq)) in
           Inr (freed, txq\<lparr>tx_sw_ring := es @ drop nb (tx_sw_ring txq)\<rparr>))"

definition ixgbe_tx_free_swring :: "ixgbe_tx_queue \<Rightarrow> heap_block list" where
  "ixgbe_tx_free_swring txq = (if tx_sw_ring txq \<noteq> [] then [Sw_Ring] else [])"

definition ixgbe_tx_queue_release :: "ixgbe_tx_queue \<Rightarrow> (u64 list \<times> heap_block list) cres" where
  "ixgbe_tx_queue_release txq =
     (if tx_ops_set txq
      then bindc (ixgbe_tx_queue_release_mbufs txq) (\<lambda>(freed, txq').
           Inr (freed, ixgbe_tx_free_swring txq' @ [Queue_Struct]))
      else Inr ([], []))"

definition ixgbe_dev_tx_queue_release :: "ixgbe_tx_queue slot \<Rightarrow> (u64 list \<times> heap_block list) cres" where
  "ixgbe_dev_tx_queue_release txq =
     (case txq of Null \<Rightarrow> Inr ([], []) | Queue q \<Rightarrow> ixgbe_tx_queue_release q | Dangling \<Rightarrow> Inl Bad_Memory)"

text \<open>The choice of the burst function: \<open>inc_vector\<close> is the build option, \<open>primary\<close> the process type.
  Whether the vector function may be used is up to \<open>ixgbe_txq_vec_setup\<close>, which asks for a software ring.\<close>

definition ixgbe_set_tx_function ::
  "bool \<Rightarrow> bool \<Rightarrow> ixgbe_tx_queue \<Rightarrow> ixgbe_port \<Rightarrow> ixgbe_port" where
  "ixgbe_set_tx_function inc_vector primary txq dev =
     (let dev0 = dev\<lparr>tx_pkt_prepare := False, tx_pkt_burst := Xmit_Cleanq\<rparr> in
      if tx_offloads txq = 0 \<and> \<not> tx_using_ipsec txq \<and> RTE_PMD_IXGBE_TX_MAX_BURST \<le> unat (tx_rs_thresh txq)
      then let dev1 = dev0\<lparr>tx_pkt_prepare := False\<rparr> in
           if inc_vector \<and> unat (tx_rs_thresh txq) \<le> RTE_IXGBE_TX_MAX_FREE_BUF_SZ \<and>
              (\<not> primary \<or> tx_sw_ring txq \<noteq> [])
           then dev1\<lparr>tx_pkt_burst := Xmit_Vec\<rparr>
           else dev1\<lparr>tx_pkt_burst := Xmit_Simple\<rparr>
      else dev0\<lparr>tx_pkt_burst := Xmit_Full, tx_pkt_prepare := True\<rparr>)"

text \<open>The checks of \<open>ixgbe_dev_tx_queue_setup\<close>: the thresholds, or the refusal. The comparisons are in C's
  \<open>int\<close>.\<close>

definition tx_setup_thresholds :: "u16 \<Rightarrow> rte_eth_txconf \<Rightarrow> int + (u16 \<times> u16)" where
  "tx_setup_thresholds nb_desc conf =
     (let n = int (unat nb_desc);
          rs = (if txc_rs_thresh conf \<noteq> 0 then txc_rs_thresh conf else DEFAULT_TX_RS_THRESH);
          fr = (if txc_free_thresh conf \<noteq> 0 then txc_free_thresh conf else DEFAULT_TX_FREE_THRESH) in
      if unat nb_desc mod IXGBE_TXD_ALIGN \<noteq> 0 \<or> IXGBE_MAX_RING_DESC < unat nb_desc \<or>
         unat nb_desc < IXGBE_MIN_RING_DESC then Inl (- EINVAL)
      else if int (unat rs) \<ge> n - 2 then Inl (- EINVAL)
      else if rs > DEFAULT_TX_RS_THRESH then Inl (- EINVAL)
      else if int (unat fr) \<ge> n - 3 then Inl (- EINVAL)
      else if rs > fr then Inl (- EINVAL)
      else if unat nb_desc mod unat rs \<noteq> 0 then Inl (- EINVAL)
      else if rs > 1 \<and> txc_wthresh conf \<noteq> 0 then Inl (- EINVAL)
      else Inr (rs, fr))"

definition IXGBE_TDT :: "u16 \<Rightarrow> u32" where "IXGBE_TDT i = 0x06018 + ucast i * 0x40"
definition IXGBE_VFTDT :: "u16 \<Rightarrow> u32" where "IXGBE_VFTDT i = 0x02018 + 0x40 * ucast i"

definition dev_reg_idx :: "ixgbe_port \<Rightarrow> u16 \<Rightarrow> u16" where
  "dev_reg_idx dev queue_idx = (if sriov_active dev = 0 then queue_idx else def_pool_q_idx dev + queue_idx)"

text \<open>The zeroed structure.\<close>

definition zeroed_txq :: "ixgbe_adv_tx_desc setup_env \<Rightarrow> region_pool \<Rightarrow> ixgbe_tx_queue" where
  "zeroed_txq env p =
     \<lparr>cq_pool = p, cq_state = 0, mempools = proc_mempools env, mbufs = proc_mbufs env,
      tx_ring = [], tx_sw_ring = [], tdt_reg = 0, nb_tx_desc = 0, tx_tail = 0, tx_recl = 0, tx_rs_thresh = 0,
      nb_tx_used = 0, last_desc_cleaned = 0, nb_tx_free = 0, tx_next_dd = 0, tx_next_rs = 0, ctx_curr = 0,
      tx_free_thresh = 0, tx_queue_id = 0, tx_reg_idx = 0, tx_port_id = 0, pthresh = 0, hthresh = 0, wthresh = 0,
      tx_offloads = 0, tx_ops_set = False, tx_deferred_start = 0, tx_using_ipsec = False, tdt_reg_addr = 0,
      tx_ring_phys_addr = 0\<rparr>"

text \<open>The structure after the configuration has been copied into it, with its descriptor memory.\<close>

definition tx_configure ::
  "ixgbe_port \<Rightarrow> u16 \<Rightarrow> u16 \<Rightarrow> rte_eth_txconf \<Rightarrow> u16 \<Rightarrow> u16 \<Rightarrow> u64 \<Rightarrow> ixgbe_adv_tx_desc list \<Rightarrow>
   ixgbe_tx_queue \<Rightarrow> ixgbe_tx_queue" where
  "tx_configure dev queue_idx nb_desc conf rs fr iova descs txq =
     (let reg_idx = dev_reg_idx dev queue_idx in
      txq\<lparr>nb_tx_desc := nb_desc, tx_rs_thresh := rs, tx_free_thresh := fr,
         pthresh := txc_pthresh conf, hthresh := txc_hthresh conf, wthresh := txc_wthresh conf,
         tx_queue_id := queue_idx, tx_reg_idx := reg_idx, tx_port_id := dev_port_id dev,
         tx_offloads := txc_offloads conf OR txmode_offloads dev, tx_ops_set := True,
         tx_deferred_start := txc_deferred_start conf,
         tx_using_ipsec := (txmode_offloads dev AND DEV_TX_OFFLOAD_SECURITY \<noteq> 0),
         tdt_reg_addr := (if ixgbe_is_vf (mac_type dev) then IXGBE_VFTDT queue_idx else IXGBE_TDT reg_idx),
         tx_ring_phys_addr := iova, tx_ring := descs\<rparr>)"

definition zeroed_tx_entry :: ixgbe_tx_entry where
  "zeroed_tx_entry = \<lparr>te_mbuf = 0, te_next_id = 0, te_last_id = 0\<rparr>"

text \<open>The rest of the set-up, once the parameters are known to be good and an old queue has been
  released: the return value, the blocks freed and the port.\<close>

definition tx_setup_alloc ::
  "ixgbe_adv_tx_desc setup_env \<Rightarrow> ixgbe_port \<Rightarrow> u16 \<Rightarrow> u16 \<Rightarrow> rte_eth_txconf \<Rightarrow> u16 \<Rightarrow> u16 \<Rightarrow> region_pool \<Rightarrow>
   (int \<times> heap_block list \<times> ixgbe_port) cres" where
  "tx_setup_alloc env dev queue_idx nb_desc conf rs fr p0 =
     (if \<not> zm_queue env then Inr (- ENOMEM, [], dev)
      else case dma_zone env of
        None \<Rightarrow> bindc (ixgbe_tx_queue_release (zeroed_txq env p0)) (\<lambda>(_, blocks). Inr (- ENOMEM, blocks, dev))
      | Some (iova, descs) \<Rightarrow>
          let txq1 = tx_configure dev queue_idx nb_desc conf rs fr iova descs (zeroed_txq env p0) in
          if \<not> zm_sw_ring env
          then bindc (ixgbe_tx_queue_release txq1) (\<lambda>(_, blocks). Inr (- ENOMEM, blocks, dev))
          else let txq2 = txq1\<lparr>tx_sw_ring := replicate (unat nb_desc) zeroed_tx_entry\<rparr> in
            case ixgbe_tx_cleanq_create (cq_calloc1 env) (cq_calloc2 env) (cq_rnd env) txq2 of (err, txq3) \<Rightarrow>
              if err_is_fail err
              then bindc (ixgbe_tx_queue_release txq3) (\<lambda>(_, blocks). Inr (- ENOMEM, blocks, dev))
              else let dev1 = ixgbe_set_tx_function False True txq3 dev in
                   bindc (ixgbe_reset_tx_queue txq3) (\<lambda>txq4.
                   bindc (arr_set (port_tx_queues dev1) (unat queue_idx) (Queue txq4)) (\<lambda>qs.
                   Inr (0, [], dev1\<lparr>port_tx_queues := qs\<rparr>))))"

text \<open>The whole function: the return value, the mbufs and the blocks freed, and the port. \<open>p0\<close> stands for the
  pool pointer of the zeroed structure, which nothing reads before it is set.\<close>

definition ixgbe_dev_tx_queue_setup ::
  "ixgbe_adv_tx_desc setup_env \<Rightarrow> ixgbe_port \<Rightarrow> u16 \<Rightarrow> u16 \<Rightarrow> rte_eth_txconf \<Rightarrow> region_pool \<Rightarrow>
   (int \<times> u64 list \<times> heap_block list \<times> ixgbe_port) cres" where
  "ixgbe_dev_tx_queue_setup env dev queue_idx nb_desc conf p0 =
     (case tx_setup_thresholds nb_desc conf of
        Inl ret \<Rightarrow> Inr (ret, [], [], dev)
      | Inr (rs, fr) \<Rightarrow>
          bindc (arr_get (port_tx_queues dev) (unat queue_idx)) (\<lambda>old.
          bindc (ixgbe_dev_tx_queue_release old) (\<lambda>(freed, blocks).
          let dev1 = dev\<lparr>port_tx_queues := (port_tx_queues dev)[unat queue_idx := Null]\<rparr> in
          bindc (tx_setup_alloc env dev1 queue_idx nb_desc conf rs fr p0) (\<lambda>(ret, blocks', dev2).
          Inr (ret, freed, blocks @ blocks', dev2)))))"

section \<open>Receive queues\<close>

text \<open>Freeing the first \<open>nb_segs\<close> segments of a cluster; the next segment is read before each is freed.\<close>

fun free_cluster :: "nat \<Rightarrow> (u64 \<rightharpoonup> rte_mbuf) \<Rightarrow> u64 \<Rightarrow> u64 list cres" where
  "free_cluster 0 mem m = Inr []"
| "free_cluster (Suc n) mem m =
     bindc (deref mem m) (\<lambda>mb.
     bindc (free_cluster n mem (mb_next mb)) (\<lambda>freed. Inr (m # freed)))"

definition ixgbe_free_sc_cluster :: "(u64 \<rightharpoonup> rte_mbuf) \<Rightarrow> u64 \<Rightarrow> u64 list cres" where
  "ixgbe_free_sc_cluster mem m = bindc (deref mem m) (\<lambda>mb. free_cluster (unat (nb_segs mb)) mem m)"

fun release_rx_entries :: "u64 list \<Rightarrow> u64 list \<times> u64 list" where
  "release_rx_entries [] = ([], [])"
| "release_rx_entries (m # ms) =
     (let (freed, ms') = release_rx_entries ms in
      if m \<noteq> 0 then (m # freed, 0 # ms') else (freed, m # ms'))"

fun release_sc_entries :: "(u64 \<rightharpoonup> rte_mbuf) \<Rightarrow> u64 list \<Rightarrow> (u64 list \<times> u64 list) cres" where
  "release_sc_entries mem [] = Inr ([], [])"
| "release_sc_entries mem (m # ms) =
     bindc (if m \<noteq> 0 then ixgbe_free_sc_cluster mem m else Inr []) (\<lambda>freed.
     bindc (release_sc_entries mem ms) (\<lambda>(freed', ms'). Inr (freed @ freed', 0 # ms')))"

text \<open>The packets that wait in the stage.\<close>

definition release_stage :: "ixgbe_rx_queue \<Rightarrow> u64 list cres" where
  "release_stage rxq =
     (let from = unat (rx_next_avail rxq); n = unat (rx_nb_avail rxq) in
      if length (rx_stage rxq) < from + n then Inl Bad_Memory else Inr (take n (drop from (rx_stage rxq))))"

definition ixgbe_rx_queue_release_mbufs :: "ixgbe_rx_queue \<Rightarrow> (u64 list \<times> ixgbe_rx_queue) cres" where
  "ixgbe_rx_queue_release_mbufs rxq =
     (let nb = unat (nb_rx_desc rxq) in
      bindc (if rx_sw_ring rxq = [] then Inr ([], rxq)
             else if length (rx_sw_ring rxq) < nb then Inl Bad_Memory
             else let (freed, ms) = release_rx_entries (take nb (rx_sw_ring rxq)) in
                  bindc (if rx_nb_avail rxq \<noteq> 0 then release_stage rxq else Inr []) (\<lambda>staged.
                  Inr (freed @ staged, rxq\<lparr>rx_sw_ring := ms @ drop nb (rx_sw_ring rxq), rx_nb_avail := 0\<rparr>)))
        (\<lambda>(freed, rxq1).
      if rx_sw_sc_ring rxq1 = [] then Inr (freed, rxq1)
      else if length (rx_sw_sc_ring rxq1) < nb then Inl Bad_Memory
      else bindc (release_sc_entries (mbufs rxq1) (take nb (rx_sw_sc_ring rxq1))) (\<lambda>(freed', ms).
           Inr (freed @ freed', rxq1\<lparr>rx_sw_sc_ring := ms @ drop nb (rx_sw_sc_ring rxq1)\<rparr>))))"

definition ixgbe_rx_queue_release :: "ixgbe_rx_queue \<Rightarrow> (u64 list \<times> heap_block list) cres" where
  "ixgbe_rx_queue_release rxq =
     bindc (ixgbe_rx_queue_release_mbufs rxq) (\<lambda>(freed, rxq').
     Inr (freed, (if rx_sw_ring rxq' \<noteq> [] then [Sw_Ring] else []) @
                 (if rx_sw_sc_ring rxq' \<noteq> [] then [Sc_Ring] else []) @ [Queue_Struct]))"

definition ixgbe_dev_rx_queue_release :: "ixgbe_rx_queue slot \<Rightarrow> (u64 list \<times> heap_block list) cres" where
  "ixgbe_dev_rx_queue_release rxq =
     (case rxq of Null \<Rightarrow> Inr ([], []) | Queue q \<Rightarrow> ixgbe_rx_queue_release q | Dangling \<Rightarrow> Inl Bad_Memory)"

text \<open>Zero when the bulk receive function may be used. The first test keeps the divisor away from zero.\<close>

definition check_rx_burst_bulk_alloc_preconditions :: "ixgbe_rx_queue \<Rightarrow> int" where
  "check_rx_burst_bulk_alloc_preconditions rxq =
     (if \<not> RTE_PMD_IXGBE_RX_MAX_BURST \<le> unat (rx_free_thresh rxq) then - EINVAL
      else if \<not> rx_free_thresh rxq < nb_rx_desc rxq then - EINVAL
      else if \<not> nb_rx_desc rxq mod rx_free_thresh rxq = 0 then - EINVAL
      else 0)"

definition zeroed_rx_desc :: ixgbe_adv_rx_desc where
  "zeroed_rx_desc = \<lparr>pkt_addr = 0, hdr_addr = 0\<rparr>"

definition ixgbe_reset_rx_queue :: "bool \<Rightarrow> ixgbe_rx_queue \<Rightarrow> ixgbe_rx_queue cres" where
  "ixgbe_reset_rx_queue bulk_alloc rxq =
     (let nb = unat (nb_rx_desc rxq);
          len = unat (if bulk_alloc then nb_rx_desc rxq + of_nat RTE_PMD_IXGBE_RX_MAX_BURST else nb_rx_desc rxq) in
      if length (rx_ring rxq) < len \<or> nb < len \<and> length (rx_sw_ring rxq) < len then Inl Bad_Memory
      else Inr (rxq\<lparr>rx_ring := replicate len zeroed_rx_desc @ drop len (rx_ring rxq),
             rx_sw_ring := (if nb < len
                            then take nb (rx_sw_ring rxq) @ replicate (len - nb) (fake_mbuf rxq) @ drop len (rx_sw_ring rxq)
                            else rx_sw_ring rxq),
             rx_nb_avail := 0, rx_next_avail := 0, rx_free_trigger := rx_free_thresh rxq - 1,
             rx_tail := 0, nb_rx_hold := 0, pkt_first_seg := 0, pkt_last_seg := 0, rx_recl := 0\<rparr>))"

definition IXGBE_RDT :: "u16 \<Rightarrow> u32" where
  "IXGBE_RDT i = (if i < 64 then 0x01018 + ucast i * 0x40 else 0x0D018 + (ucast i - 64) * 0x40)"
definition IXGBE_RDH :: "u16 \<Rightarrow> u32" where
  "IXGBE_RDH i = (if i < 64 then 0x01010 + ucast i * 0x40 else 0x0D010 + (ucast i - 64) * 0x40)"
definition IXGBE_VFRDT :: "u16 \<Rightarrow> u32" where "IXGBE_VFRDT i = 0x01018 + 0x40 * ucast i"
definition IXGBE_VFRDH :: "u16 \<Rightarrow> u32" where "IXGBE_VFRDH i = 0x01010 + 0x40 * ucast i"

definition rx_pkt_type_mask :: "ixgbe_mac_type \<Rightarrow> u16" where
  "rx_pkt_type_mask t =
     (if t \<in> {ixgbe_mac_X550, ixgbe_mac_X550EM_x, ixgbe_mac_X550EM_a, ixgbe_mac_X550_vf,
              ixgbe_mac_X550EM_x_vf, ixgbe_mac_X550EM_a_vf}
      then 0x10FF else 0x7F)"

text \<open>The structure with the configuration and without memory. \<open>fake\<close> is the address of its member
  \<open>fake_mbuf\<close>.\<close>

definition rx_configure ::
  "ixgbe_adv_rx_desc setup_env \<Rightarrow> ixgbe_port \<Rightarrow> u16 \<Rightarrow> u16 \<Rightarrow> rte_eth_rxconf \<Rightarrow> addr \<Rightarrow> u64 \<Rightarrow> region_pool \<Rightarrow>
   ixgbe_rx_queue" where
  "rx_configure env dev queue_idx nb_desc conf mp fake p0 =
     \<lparr>cq_pool = p0, cq_state = 0, mempools = proc_mempools env, mbufs = proc_mbufs env,
      rx_ring = [], rx_sw_ring = [], rdt_reg = 0, nb_rx_desc = nb_desc, rx_tail = 0, rx_recl = 0,
      port_id = dev_port_id dev,
      crc_len = (if rxmode_offloads dev AND DEV_RX_OFFLOAD_KEEP_CRC \<noteq> 0 then 4 else 0),
      pkt_type_mask = rx_pkt_type_mask (mac_type dev), vlan_flags = 0, rx_mb_pool = mp, rx_ring_phys_addr = 0,
      rdt_reg_addr = 0, rdh_reg_addr = 0, rx_sw_sc_ring = [], rx_nb_avail = 0, rx_next_avail = 0,
      rx_free_trigger = 0, rx_free_thresh = rxc_free_thresh conf,
      rx_stage = replicate (2 * RTE_PMD_IXGBE_RX_MAX_BURST) 0, nb_rx_hold = 0, pkt_first_seg = 0, pkt_last_seg = 0,
      rx_queue_id = queue_idx, rx_reg_idx = dev_reg_idx dev queue_idx, drop_en = rxc_drop_en conf,
      rx_deferred_start = rxc_deferred_start conf, rx_offloads = rxc_offloads conf OR rxmode_offloads dev,
      fake_mbuf = fake\<rparr>"

text \<open>The registers and the descriptor memory, which is zeroed.\<close>

definition rx_attach_ring :: "ixgbe_port \<Rightarrow> u16 \<Rightarrow> u64 \<Rightarrow> ixgbe_adv_rx_desc list \<Rightarrow> ixgbe_rx_queue \<Rightarrow> ixgbe_rx_queue" where
  "rx_attach_ring dev queue_idx iova descs rxq =
     rxq\<lparr>rdt_reg_addr := (if ixgbe_is_vf (mac_type dev) then IXGBE_VFRDT queue_idx else IXGBE_RDT (rx_reg_idx rxq)),
         rdh_reg_addr := (if ixgbe_is_vf (mac_type dev) then IXGBE_VFRDH queue_idx else IXGBE_RDH (rx_reg_idx rxq)),
         rx_ring_phys_addr := iova, rx_ring := replicate (length descs) zeroed_rx_desc\<rparr>"

definition rte_is_power_of_2 :: "u32 \<Rightarrow> bool" where
  "rte_is_power_of_2 n \<longleftrightarrow> n \<noteq> 0 \<and> n AND (n - 1) = 0"

text \<open>From the software rings on: the queue is entered into the table before its pool is created, and
  the result of registering the mempool is not looked at.\<close>

definition rx_setup_rings ::
  "ixgbe_adv_rx_desc setup_env \<Rightarrow> libc \<Rightarrow> ixgbe_port \<Rightarrow> u16 \<Rightarrow> u16 \<Rightarrow> ixgbe_rx_queue \<Rightarrow> addr \<Rightarrow> regionid \<Rightarrow>
   (int \<times> heap_block list \<times> ixgbe_port) cres" where
  "rx_setup_rings env lenv dev queue_idx nb_desc rxq mp rid =
     (let len = unat (if rx_bulk_alloc_allowed dev then nb_desc + of_nat RTE_PMD_IXGBE_RX_MAX_BURST else nb_desc) in
      if \<not> zm_sw_ring env
      then bindc (ixgbe_rx_queue_release rxq) (\<lambda>(_, blocks). Inr (- ENOMEM, blocks, dev))
      else let rxq1 = rxq\<lparr>rx_sw_ring := replicate len 0\<rparr> in
        if \<not> zm_sc_ring env
        then bindc (ixgbe_rx_queue_release rxq1) (\<lambda>(_, blocks). Inr (- ENOMEM, blocks, dev))
        else let rxq2 = rxq1\<lparr>rx_sw_sc_ring := replicate len 0\<rparr>;
                 dev1 = (if \<not> rte_is_power_of_2 (ucast nb_desc) then dev\<lparr>rx_vec_allowed := False\<rparr> else dev) in
          bindc (arr_set (port_rx_queues dev1) (unat queue_idx) (Queue rxq2)) (\<lambda>_.
          case ixgbe_rx_cleanq_create (cq_calloc1 env) (cq_calloc2 env) (cq_rnd env) rxq2 of (err, rxq3) \<Rightarrow>
            if err_is_fail err
            then bindc (ixgbe_rx_queue_release rxq3) (\<lambda>(_, blocks).
                 Inr (- ENOMEM, blocks, dev1\<lparr>port_rx_queues := (port_rx_queues dev1)[unat queue_idx := Dangling]\<rparr>))
            else bindc (deref (mempools rxq3) mp) (\<lambda>pool.
                 bindc (cleanq_register_mempool lenv ixgbe_rx_f rxq3 pool rid) (\<lambda>(_, rxq4).
                 bindc (ixgbe_reset_rx_queue (rx_bulk_alloc_allowed dev1) rxq4) (\<lambda>rxq5.
                 Inr (0, [], dev1\<lparr>port_rx_queues := (port_rx_queues dev1)[unat queue_idx := Queue rxq5]\<rparr>))))))"

definition ixgbe_dev_rx_queue_setup ::
  "ixgbe_adv_rx_desc setup_env \<Rightarrow> libc \<Rightarrow> ixgbe_port \<Rightarrow> u16 \<Rightarrow> u16 \<Rightarrow> rte_eth_rxconf \<Rightarrow> addr \<Rightarrow> u64 \<Rightarrow> region_pool \<Rightarrow>
   regionid \<Rightarrow> (int \<times> u64 list \<times> heap_block list \<times> ixgbe_port) cres" where
  "ixgbe_dev_rx_queue_setup env lenv dev queue_idx nb_desc conf mp fake p0 rid =
     (if unat nb_desc mod IXGBE_RXD_ALIGN \<noteq> 0 \<or> IXGBE_MAX_RING_DESC < unat nb_desc \<or>
         unat nb_desc < IXGBE_MIN_RING_DESC then Inr (- EINVAL, [], [], dev)
      else
      bindc (arr_get (port_rx_queues dev) (unat queue_idx)) (\<lambda>old.
      bindc (ixgbe_dev_rx_queue_release old) (\<lambda>(freed, blocks).
      let dev1 = dev\<lparr>port_rx_queues := (port_rx_queues dev)[unat queue_idx := Null]\<rparr> in
      if \<not> zm_queue env then Inr (- ENOMEM, freed, blocks, dev1)
      else let rxq = rx_configure env dev1 queue_idx nb_desc conf mp fake p0 in
        case dma_zone env of
          None \<Rightarrow> bindc (ixgbe_rx_queue_release rxq) (\<lambda>(_, blocks'). Inr (- ENOMEM, freed, blocks @ blocks', dev1))
        | Some (iova, descs) \<Rightarrow>
            let rxq1 = rx_attach_ring dev1 queue_idx iova descs rxq in
            let dev2 = (if check_rx_burst_bulk_alloc_preconditions rxq1 \<noteq> 0
                        then dev1\<lparr>rx_bulk_alloc_allowed := False\<rparr> else dev1) in
            bindc (rx_setup_rings env lenv dev2 queue_idx nb_desc rxq1 mp rid) (\<lambda>(ret, blocks', dev3).
            Inr (ret, freed, blocks @ blocks', dev3)))))"

section \<open>Starting and stopping\<close>

text \<open>The functions talk to the card through registers: what they write is in their result, in order, and
  what they read is given as the successive values of the register.\<close>

definition IXGBE_TDH :: "u16 \<Rightarrow> u32" where "IXGBE_TDH i = 0x06010 + ucast i * 0x40"
definition IXGBE_TXDCTL :: "u16 \<Rightarrow> u32" where "IXGBE_TXDCTL i = 0x06028 + ucast i * 0x40"
definition IXGBE_RXDCTL :: "u16 \<Rightarrow> u32" where
  "IXGBE_RXDCTL i = (if i < 64 then 0x01028 + ucast i * 0x40 else 0x0D028 + (ucast i - 64) * 0x40)"
definition IXGBE_TXDCTL_ENABLE :: u32 where "IXGBE_TXDCTL_ENABLE = 0x02000000"
definition IXGBE_RXDCTL_ENABLE :: u32 where "IXGBE_RXDCTL_ENABLE = 0x02000000"
definition RTE_IXGBE_REGISTER_POLL_WAIT_10_MS :: nat where "RTE_IXGBE_REGISTER_POLL_WAIT_10_MS = 10"

text \<open>\<open>do v = read(); while (--poll_ms && !ready(v));\<close> with the first value at index \<open>i\<close>: what is left of
  \<open>poll_ms\<close> and the number of values read.\<close>

fun poll_register :: "nat \<Rightarrow> ('v \<Rightarrow> bool) \<Rightarrow> (nat \<Rightarrow> 'v) \<Rightarrow> nat \<Rightarrow> nat \<times> nat" where
  "poll_register 0 ready rd i = (0, i)"
| "poll_register (Suc n) ready rd i = (if n \<noteq> 0 \<and> \<not> ready (rd i) then poll_register n ready rd (Suc i) else (n, Suc i))"

definition queue_at :: "'q slot list \<Rightarrow> nat \<Rightarrow> 'q cres" where
  "queue_at qs i = bindc (arr_get qs i) (\<lambda>s. case s of Queue q \<Rightarrow> Inr q | _ \<Rightarrow> Inl Bad_Memory)"

text \<open>The result: the register writes, whether the time-out is logged, and the port. The function
  always returns zero.\<close>

definition ixgbe_dev_tx_queue_start ::
  "(nat \<Rightarrow> u32) \<Rightarrow> ixgbe_port \<Rightarrow> u16 \<Rightarrow> ((u32 \<times> u32) list \<times> bool \<times> ixgbe_port) cres" where
  "ixgbe_dev_tx_queue_start txdctl dev qid =
     bindc (queue_at (port_tx_queues dev) (unat qid)) (\<lambda>txq.
     let r = tx_reg_idx txq;
         polled = (if mac_type dev = ixgbe_mac_82599EB
                   then fst (poll_register RTE_IXGBE_REGISTER_POLL_WAIT_10_MS
                               (\<lambda>v. v AND IXGBE_TXDCTL_ENABLE \<noteq> 0) txdctl 1) = 0
                   else False) in
     bindc (arr_set (tx_queue_state dev) (unat qid) Started) (\<lambda>st.
     Inr ([(IXGBE_TDH r, 0), (IXGBE_TXDCTL r, txdctl 0 OR IXGBE_TXDCTL_ENABLE), (IXGBE_TDT r, ucast (tx_tail txq))],
          polled, dev\<lparr>tx_queue_state := st\<rparr>)))"

text \<open>\<open>ht\<close> are the values of the head and the tail register, read in pairs. The mbufs freed come first.\<close>

definition ixgbe_dev_tx_queue_stop ::
  "(nat \<Rightarrow> u32 \<times> u32) \<Rightarrow> (nat \<Rightarrow> u32) \<Rightarrow> ixgbe_port \<Rightarrow> u16 \<Rightarrow>
   (u64 list \<times> (u32 \<times> u32) list \<times> bool \<times> bool \<times> ixgbe_port) cres" where
  "ixgbe_dev_tx_queue_stop ht txdctl dev qid =
     bindc (queue_at (port_tx_queues dev) (unat qid)) (\<lambda>txq.
     let is599 = (mac_type dev = ixgbe_mac_82599EB);
         not_empty = (is599 \<and> fst (poll_register RTE_IXGBE_REGISTER_POLL_WAIT_10_MS (\<lambda>(h, t). h = t) ht 0) = 0);
         not_off = (is599 \<and> fst (poll_register RTE_IXGBE_REGISTER_POLL_WAIT_10_MS
                                  (\<lambda>v. v AND IXGBE_TXDCTL_ENABLE = 0) txdctl 1) = 0) in
     bindc (if tx_ops_set txq
            then bindc (ixgbe_tx_queue_release_mbufs txq) (\<lambda>(freed, txq1).
                 bindc (ixgbe_reset_tx_queue txq1) (\<lambda>txq2. Inr (freed, txq2)))
            else Inr ([], txq)) (\<lambda>(freed, txq').
     bindc (arr_set (tx_queue_state dev) (unat qid) Stopped) (\<lambda>st.
     Inr (freed, [(IXGBE_TXDCTL (tx_reg_idx txq), txdctl 0 AND NOT IXGBE_TXDCTL_ENABLE)], not_empty, not_off,
          dev\<lparr>port_tx_queues := (port_tx_queues dev)[unat qid := Queue txq'], tx_queue_state := st\<rparr>))))"

definition ixgbe_dev_rx_queue_start ::
  "(nat \<Rightarrow> u32) \<Rightarrow> ixgbe_port \<Rightarrow> u16 \<Rightarrow> ((u32 \<times> u32) list \<times> bool \<times> ixgbe_port) cres" where
  "ixgbe_dev_rx_queue_start rxdctl dev qid =
     bindc (queue_at (port_rx_queues dev) (unat qid)) (\<lambda>rxq.
     let r = rx_reg_idx rxq;
         polled = (fst (poll_register RTE_IXGBE_REGISTER_POLL_WAIT_10_MS
                          (\<lambda>v. v AND IXGBE_RXDCTL_ENABLE \<noteq> 0) rxdctl 1) = 0) in
     bindc (arr_set (rx_queue_state dev) (unat qid) Started) (\<lambda>st.
     Inr ([(IXGBE_RXDCTL r, rxdctl 0 OR IXGBE_RXDCTL_ENABLE), (IXGBE_RDH r, 0), (IXGBE_RDT r, ucast (rx_tail rxq))],
          polled, dev\<lparr>rx_queue_state := st\<rparr>)))"

definition ixgbe_dev_rx_queue_stop ::
  "(nat \<Rightarrow> u32) \<Rightarrow> ixgbe_port \<Rightarrow> u16 \<Rightarrow> (u64 list \<times> (u32 \<times> u32) list \<times> bool \<times> ixgbe_port) cres" where
  "ixgbe_dev_rx_queue_stop rxdctl dev qid =
     bindc (queue_at (port_rx_queues dev) (unat qid)) (\<lambda>rxq.
     let not_off = (fst (poll_register RTE_IXGBE_REGISTER_POLL_WAIT_10_MS
                          (\<lambda>v. v AND IXGBE_RXDCTL_ENABLE = 0) rxdctl 1) = 0) in
     bindc (ixgbe_rx_queue_release_mbufs rxq) (\<lambda>(freed, rxq1).
     bindc (ixgbe_reset_rx_queue (rx_bulk_alloc_allowed dev) rxq1) (\<lambda>rxq2.
     bindc (arr_set (rx_queue_state dev) (unat qid) Stopped) (\<lambda>st.
     Inr (freed, [(IXGBE_RXDCTL (rx_reg_idx rxq), rxdctl 0 AND NOT IXGBE_RXDCTL_ENABLE)], not_off,
          dev\<lparr>port_rx_queues := (port_rx_queues dev)[unat qid := Queue rxq2], rx_queue_state := st\<rparr>)))))"

section \<open>Rings with empty entries\<close>

text \<open>A ring seen from a position: its elements, then empty entries.\<close>

definition ring_idle :: "u64 list \<Rightarrow> nat \<Rightarrow> u64 list \<Rightarrow> bool" where
  "ring_idle buf r c \<longleftrightarrow> (\<exists>k. rotate r buf = c @ replicate k 0)"

lemma ring_idle_push:
  assumes "ring_idle buf r c" "length c < length buf"
  shows "ring_idle (buf[(r + length c) mod length buf := a]) r (c @ [a])"
proof -
  obtain k where k: "rotate r buf = c @ replicate k 0" using assms(1) by (auto simp: ring_idle_def)
  have "length (rotate r buf) = length c + k" unfolding k by simp
  then obtain k' where k': "k = Suc k'" using assms(2) by (cases k) auto
  have "rotate r (buf[(r + length c) mod length buf := a]) = (c @ [a]) @ replicate k' 0"
    unfolding rotate_update [OF assms(2)] k k' by simp
  then show ?thesis unfolding ring_idle_def by blast
qed

lemma ring_idle_pop:
  assumes "ring_idle buf r (a # c)" "r < length buf"
  shows "ring_idle (buf[r := 0]) ((r + 1) mod length buf) c"
proof -
  obtain k where k: "rotate r buf = (a # c) @ replicate k 0" using assms(1) by (auto simp: ring_idle_def)
  have pos: "0 < length buf" using assms(2) by linarith
  have "rotate ((r + 1) mod length buf) (buf[r := 0]) = rotate1 (rotate r (buf[r := 0]))"
    using rotate_next [of r "buf[r := 0]"] by simp
  also have "\<dots> = rotate1 ((rotate r buf)[0 := 0])" using rotate_update [OF pos, of r 0] assms(2) by simp
  also have "\<dots> = c @ replicate (Suc k) 0" unfolding k by (simp add: replicate_append_same)
  finally show ?thesis unfolding ring_idle_def by blast
qed

lemma mset_rotate: "mset (rotate n xs) = mset xs"
proof (induction n)
  case (Suc n)
  have "mset (rotate1 ys) = mset ys" for ys :: "'a list" by (cases ys) auto
  then show ?case using Suc by simp
qed simp

lemma ring_idle_mset:
  assumes "ring_idle buf r c" "0 \<notin> set c"
  shows "mset (filter (\<lambda>m. m \<noteq> 0) buf) = mset c"
proof -
  obtain k where k: "rotate r buf = c @ replicate k 0" using assms(1) by (auto simp: ring_idle_def)
  have "filter (\<lambda>m. m \<noteq> 0) c = c" using assms(2) by (intro filter_True) auto
  then have c: "filter_mset (\<lambda>m. m \<noteq> 0) (mset c) = mset c" by (simp only: mset_filter [symmetric])
  have "mset (rotate r buf) = mset (c @ replicate k 0)" unfolding k ..
  then have "mset buf = mset c + replicate_mset k 0" by (simp only: mset_rotate mset_append mset_replicate)
  then have "mset (filter (\<lambda>m. m \<noteq> 0) buf) = filter_mset (\<lambda>m. m \<noteq> 0) (mset c + replicate_mset k 0)"
    by (simp only: mset_filter)
  also have "\<dots> = mset c" unfolding filter_union_mset c by simp
  finally show ?thesis .
qed

lemma ring_idle_empty: "ring_idle (replicate n 0) r []"
proof -
  have "rotate r (replicate n 0) = replicate n (0 :: u64)" by (rule replicate_eqI) auto
  then show ?thesis by (auto simp: ring_idle_def)
qed

section \<open>Setting up a transmit queue\<close>

lemma tx_setup_thresholds_ok:
  assumes "tx_setup_thresholds nb conf = Inr (rs, fr)"
  shows "32 \<le> unat nb" "unat nb \<le> 4096" "0 < unat rs" "unat rs \<le> 32" "unat rs + 2 < unat nb"
    "unat rs \<le> unat fr" "unat fr + 3 < unat nb" "unat nb mod unat rs = 0" "rs > 1 \<longrightarrow> txc_wthresh conf = 0"
proof -
  have rs: "rs = (if txc_rs_thresh conf \<noteq> 0 then txc_rs_thresh conf else DEFAULT_TX_RS_THRESH)"
    and g: "\<not> (unat nb mod IXGBE_TXD_ALIGN \<noteq> 0 \<or> IXGBE_MAX_RING_DESC < unat nb \<or> unat nb < IXGBE_MIN_RING_DESC)"
      "\<not> int (unat rs) \<ge> int (unat nb) - 2" "\<not> rs > DEFAULT_TX_RS_THRESH" "\<not> int (unat fr) \<ge> int (unat nb) - 3"
      "\<not> rs > fr" "\<not> unat nb mod unat rs \<noteq> 0" "\<not> (rs > 1 \<and> txc_wthresh conf \<noteq> 0)"
    using assms by (auto simp: tx_setup_thresholds_def Let_def split: if_splits)
  have "rs \<noteq> 0" by (simp add: rs DEFAULT_TX_RS_THRESH_def)
  then show "0 < unat rs" by (simp add: unat_gt_0)
  show "unat rs \<le> 32" using g(3) by (simp add: DEFAULT_TX_RS_THRESH_def word_less_nat_alt)
  show "32 \<le> unat nb" "unat nb \<le> 4096" using g(1) by (simp_all add: IXGBE_MAX_RING_DESC_def IXGBE_MIN_RING_DESC_def)
  show "unat rs + 2 < unat nb" "unat fr + 3 < unat nb" using g(2,4) by linarith+
  show "unat rs \<le> unat fr" using g(5) by (simp add: word_less_nat_alt)
  show "unat nb mod unat rs = 0" "rs > 1 \<longrightarrow> txc_wthresh conf = 0" using g(6,7) by blast+
qed

lemma empty_pool_apart: "pool_map p = Map.empty \<Longrightarrow> regions_apart p"
  by (simp add: regions_apart_def)

text \<open>A memory zone, when the allocator gives one, is as large as the code asks for.\<close>

definition zone_sized :: "nat \<Rightarrow> 'd setup_env \<Rightarrow> bool" where
  "zone_sized n env \<longleftrightarrow> (\<forall>iova descs. dma_zone env = Some (iova, descs) \<longrightarrow> length descs = n)"

text \<open>What the allocators have to give for the set-up to succeed.\<close>

definition tx_env_ok :: "ixgbe_adv_tx_desc setup_env \<Rightarrow> bool" where
  "tx_env_ok env \<longleftrightarrow> zm_queue env \<and> zm_sw_ring env \<and> cq_calloc1 env \<and> cq_calloc2 env \<and>
     (\<exists>iova descs. dma_zone env = Some (iova, descs) \<and> length descs = IXGBE_MAX_RING_DESC)"

text \<open>The software ring of a reset queue, seen from \<open>tx_recl\<close>: the mbufs in the ring, then empty entries.\<close>

definition tx_idle :: "ixgbe_tx_queue \<Rightarrow> bool" where
  "tx_idle q \<longleftrightarrow> ring_idle (map te_mbuf (tx_sw_ring q)) (unat (tx_recl q)) (tx_contents q)"

text \<open>A queue as the set-up leaves it, and the reset after a stop.\<close>

definition tx_fresh :: "ixgbe_tx_queue \<Rightarrow> bool" where
  "tx_fresh q \<longleftrightarrow> tx_inv q \<and> tx_contents q = [] \<and> tx_idle q \<and> tx_ops_set q"

lemma tx_setup_alloc_ok:
  assumes th: "tx_setup_thresholds nb conf = Inr (rs, fr)" and env: "tx_env_ok env"
    and qi: "unat qi < length (port_tx_queues dev)"
  obtains q where "tx_setup_alloc env dev qi nb conf rs fr p0 =
      Inr (0, [], (ixgbe_set_tx_function False True q dev)\<lparr>port_tx_queues := (port_tx_queues dev)[unat qi := Queue q]\<rparr>)"
    "tx_fresh q" "nb_tx_desc q = nb" "tx_rs_thresh q = rs" "tx_free_thresh q = fr"
    "mbufs q = proc_mbufs env" "nb_tx_free q = nb - 1" "tx_next_dd q = rs - 1" "tx_next_rs q = rs - 1"
proof -
  note b = tx_setup_thresholds_ok [OF th]
  obtain iova descs where z: "dma_zone env = Some (iova, descs)" "length descs = 4096"
    using env by (auto simp: tx_env_ok_def IXGBE_MAX_RING_DESC_def)
  define q2 where "q2 = (tx_configure dev qi nb conf rs fr iova descs (zeroed_txq env p0))
      \<lparr>tx_sw_ring := replicate (unat nb) zeroed_tx_entry\<rparr>"
  obtain p where p: "region_pool_init (cq_calloc1 env) (cq_calloc2 env) (cq_rnd env) = (CLEANQ_ERR_OK, Some p)"
    using env by (auto simp: tx_env_ok_def region_pool_init_def)
  have pi: "pool_inv p" "pool_map p = Map.empty" using region_pool_init_inv [OF p] by (auto simp: pool_inv_def)
  let ?q3 = "q2\<lparr>cq_pool := p\<rparr>"
  have f: "nb_tx_desc ?q3 = nb" "tx_rs_thresh ?q3 = rs" "tx_ring ?q3 = descs"
    "tx_sw_ring ?q3 = replicate (unat nb) zeroed_tx_entry" "cq_pool ?q3 = p" "tx_free_thresh ?q3 = fr"
    "mbufs ?q3 = proc_mbufs env" "tx_ops_set ?q3"
    by (simp_all add: q2_def tx_configure_def zeroed_txq_def Let_def)
  have c: "ixgbe_tx_cleanq_create (cq_calloc1 env) (cq_calloc2 env) (cq_rnd env) q2 = (CLEANQ_ERR_OK, ?q3)"
    using p by (simp add: ixgbe_tx_cleanq_create_def cleanq_init_def err_is_fail_def)
  have "\<exists>q. ixgbe_reset_tx_queue ?q3 = Inr q"
    unfolding ixgbe_reset_tx_queue_def f Let_def using z(2) b(2) by simp
  then obtain q where q: "ixgbe_reset_tx_queue ?q3 = Inr q" by blast
  have "0 < tx_rs_thresh ?q3" "tx_rs_thresh ?q3 \<le> nb_tx_desc ?q3"
    unfolding f using b by (simp_all add: word_less_nat_alt word_le_nat_alt)
  note r = reset_tx_inv [OF q _ _ _ _ this]
  have inv: "tx_inv q" "tx_contents q = []" "tx_recl q = 0" "tx_next_dd q = rs - 1" "nb_tx_desc q = nb" "mbufs q = proc_mbufs env"
    using r [unfolded f] z(2) b(1,2) pi(1) empty_pool_apart [OF pi(2)] by simp_all
  have g: "tx_rs_thresh q = rs" "tx_free_thresh q = fr" "tx_ops_set q" "nb_tx_free q = nb - 1" "tx_next_rs q = rs - 1"
    "tx_offloads q = tx_offloads ?q3" "tx_using_ipsec q = tx_using_ipsec ?q3" "tx_rs_thresh q = tx_rs_thresh ?q3"
    "tx_sw_ring q = map (reset_entry nb) [0..<unat nb]"
    using q f z(2) b(2) by (auto simp: ixgbe_reset_tx_queue_def Let_def)
  have "map te_mbuf (tx_sw_ring q) = replicate (unat nb) 0"
    by (rule nth_equalityI) (simp_all add: g(9) reset_entry_def)
  then have "tx_idle q" using inv(2) by (simp add: tx_idle_def ring_idle_empty)
  moreover have "ixgbe_set_tx_function False True q dev = ixgbe_set_tx_function False True ?q3 dev"
    using g by (simp add: ixgbe_set_tx_function_def Let_def)
  moreover have "port_tx_queues (ixgbe_set_tx_function False True q dev) = port_tx_queues dev" for q
    by (simp add: ixgbe_set_tx_function_def Let_def)
  moreover have "zm_queue env" "zm_sw_ring env" using env by (simp_all add: tx_env_ok_def)
  ultimately show thesis using that [of q] inv g z(1) c q qi
    by (simp add: tx_fresh_def tx_setup_alloc_def Let_def q2_def [symmetric] err_is_fail_def)
qed

text \<open>When one of the allocators fails, the port is as it was.\<close>

lemma tx_setup_alloc_fails:
  assumes nb: "0 < unat nb" and zone: "zone_sized IXGBE_MAX_RING_DESC env" and env: "\<not> tx_env_ok env"
  shows "\<exists>blocks. tx_setup_alloc env dev qi nb conf rs fr p0 = Inr (- ENOMEM, blocks, dev)"
proof -
  have bare: "\<exists>x. ixgbe_tx_queue_release (q\<lparr>tx_sw_ring := []\<rparr>) = Inr x" for q
    by (simp add: ixgbe_tx_queue_release_def ixgbe_tx_queue_release_mbufs_def)
  have ring: "\<exists>x. ixgbe_tx_queue_release (q\<lparr>tx_sw_ring := replicate (unat nb) e\<rparr>) = Inr x" if "nb_tx_desc q = nb" for q e
    using that nb by (simp add: ixgbe_tx_queue_release_def ixgbe_tx_queue_release_mbufs_def Let_def split: prod.split)
  have create: "ixgbe_tx_cleanq_create c1 c2 rnd q = (CLEANQ_ERR_MALLOC_FAIL, q)" if "\<not> (c1 \<and> c2)" for c1 c2 rnd q
    using that by (auto simp: ixgbe_tx_cleanq_create_def cleanq_init_def region_pool_init_def)
  show ?thesis
  proof (cases "zm_queue env \<and> dma_zone env \<noteq> None")
    case False
    have "ixgbe_tx_queue_release (zeroed_txq env p0) = Inr ([], [])" by (simp add: ixgbe_tx_queue_release_def zeroed_txq_def)
    then show ?thesis using False by (cases "dma_zone env") (auto simp: tx_setup_alloc_def)
  next
    case True
    then obtain iova descs where z: "zm_queue env" "dma_zone env = Some (iova, descs)" by auto
    define q1 where "q1 = tx_configure dev qi nb conf rs fr iova descs (zeroed_txq env p0)"
    have q1: "nb_tx_desc q1 = nb" "q1\<lparr>tx_sw_ring := []\<rparr> = q1"
      by (simp_all add: q1_def tx_configure_def zeroed_txq_def Let_def)
    have "\<not> zm_sw_ring env \<or> \<not> (cq_calloc1 env \<and> cq_calloc2 env)"
      using env z zone by (auto simp: tx_env_ok_def zone_sized_def)
    then show ?thesis using bare [of q1] ring [OF q1(1), of zeroed_tx_entry] create z q1(2)
      by (auto simp: tx_setup_alloc_def Let_def q1_def [symmetric] err_is_fail_def)
  qed
qed

lemma release_tx_entries_eq:
  "release_tx_entries es = (filter (\<lambda>m. m \<noteq> 0) (map te_mbuf es), map (\<lambda>e. e\<lparr>te_mbuf := 0\<rparr>) es)"
proof (induction es)
  case (Cons e es)
  have "e\<lparr>te_mbuf := 0\<rparr> = e" if "te_mbuf e = 0" using that by simp
  then show ?case using Cons by (simp add: Let_def)
qed simp

lemma tx_release_mbufs_eq:
  assumes "length (tx_sw_ring q) = unat (nb_tx_desc q)"
  shows "ixgbe_tx_queue_release_mbufs q = Inr (filter (\<lambda>m. m \<noteq> 0) (map te_mbuf (tx_sw_ring q)),
    q\<lparr>tx_sw_ring := map (\<lambda>e. e\<lparr>te_mbuf := 0\<rparr>) (tx_sw_ring q)\<rparr>)"
  using assms by (simp add: ixgbe_tx_queue_release_mbufs_def release_tx_entries_eq Let_def)

text \<open>A slot the driver may release: empty or a queue with a ring.\<close>

definition tx_slot_ok :: "ixgbe_tx_queue slot \<Rightarrow> bool" where
  "tx_slot_ok s \<longleftrightarrow> s = Null \<or> (\<exists>q. s = Queue q \<and> tx_inv q)"

lemma tx_slot_release:
  assumes "tx_slot_ok s"
  obtains freed blocks where "ixgbe_dev_tx_queue_release s = Inr (freed, blocks)"
proof (cases s)
  case (Queue q)
  then have "length (tx_sw_ring q) = unat (nb_tx_desc q)" using assms tx_invD(3) by (auto simp: tx_slot_ok_def)
  then show thesis using that Queue
    by (cases "tx_ops_set q") (simp_all add: ixgbe_dev_tx_queue_release_def ixgbe_tx_queue_release_def tx_release_mbufs_eq)
qed (use that assms in \<open>auto simp: tx_slot_ok_def ixgbe_dev_tx_queue_release_def\<close>)

text \<open>The thresholds of a configuration, 32 for one that is zero, and the tests of the code on them. They are more
  than the rules that the comment before them and the guides give: the comment does not bound \<open>tx_rs_thresh\<close> by 32,
  and the guides name values up to 64.\<close>

definition tx_thresholds :: "rte_eth_txconf \<Rightarrow> nat \<times> nat" where
  "tx_thresholds conf =
     (if txc_rs_thresh conf = 0 then 32 else unat (txc_rs_thresh conf),
      if txc_free_thresh conf = 0 then 32 else unat (txc_free_thresh conf))"

definition tx_conf_valid :: "u16 \<Rightarrow> rte_eth_txconf \<Rightarrow> bool" where
  "tx_conf_valid nb conf \<longleftrightarrow>
     (case tx_thresholds conf of (rs, fr) \<Rightarrow>
        8 dvd unat nb \<and> 32 \<le> unat nb \<and> unat nb \<le> 4096 \<and>
        rs + 2 < unat nb \<and> fr + 3 < unat nb \<and> rs \<le> fr \<and> rs dvd unat nb \<and>
        rs \<le> 32 \<and> (1 < rs \<longrightarrow> txc_wthresh conf = 0))"

lemma tx_setup_thresholds_decides:
  "if tx_conf_valid nb conf
   then \<exists>rs fr. tx_setup_thresholds nb conf = Inr (rs, fr) \<and> tx_thresholds conf = (unat rs, unat fr)
   else tx_setup_thresholds nb conf = Inl (- EINVAL)"
proof -
  define rs where "rs = (if txc_rs_thresh conf \<noteq> 0 then txc_rs_thresh conf else DEFAULT_TX_RS_THRESH)"
  define fr where "fr = (if txc_free_thresh conf \<noteq> 0 then txc_free_thresh conf else DEFAULT_TX_FREE_THRESH)"
  have t: "tx_thresholds conf = (unat rs, unat fr)"
    by (simp add: tx_thresholds_def rs_def fr_def DEFAULT_TX_RS_THRESH_def DEFAULT_TX_FREE_THRESH_def)
  have g: "unat nb mod IXGBE_TXD_ALIGN \<noteq> 0 \<or> IXGBE_MAX_RING_DESC < unat nb \<or> unat nb < IXGBE_MIN_RING_DESC \<longleftrightarrow>
      \<not> (8 dvd unat nb \<and> 32 \<le> unat nb \<and> unat nb \<le> 4096)"
    by (auto simp: IXGBE_TXD_ALIGN_def IXGBE_MAX_RING_DESC_def IXGBE_MIN_RING_DESC_def dvd_eq_mod_eq_0)
  have c: "int (unat rs) \<ge> int (unat nb) - 2 \<longleftrightarrow> \<not> unat rs + 2 < unat nb"
    "int (unat fr) \<ge> int (unat nb) - 3 \<longleftrightarrow> \<not> unat fr + 3 < unat nb" by linarith+
  have w: "rs > DEFAULT_TX_RS_THRESH \<longleftrightarrow> \<not> unat rs \<le> 32" "rs > fr \<longleftrightarrow> \<not> unat rs \<le> unat fr" "rs > 1 \<longleftrightarrow> 1 < unat rs"
    by (auto simp: DEFAULT_TX_RS_THRESH_def word_less_nat_alt)
  show ?thesis
    unfolding tx_setup_thresholds_def rs_def [symmetric] fr_def [symmetric] Let_def tx_conf_valid_def t g c w
    by (auto simp: dvd_eq_mod_eq_0)
qed

section \<open>Properties of the set-up\<close>

text \<open>Property C30: setting up a transmit queue, for a queue index of the table whose slot is empty or has a well-formed
  queue. A configuration that fails one of the tests of the code returns -EINVAL and changes nothing. With any
  other, an old queue is released; when each allocator delivers, the call returns zero and the slot
  has an empty well-formed ring of the size and with the thresholds of the configuration and with
  empty entries; when one fails, the call returns -ENOMEM and the slot is empty. Every other slot is as before.\<close>

theorem tx_setup_outcome:
  assumes "unat qi < length (port_tx_queues dev)" "tx_slot_ok (port_tx_queues dev ! unat qi)"
    and "zone_sized IXGBE_MAX_RING_DESC env"
  shows "if \<not> tx_conf_valid nb conf
    then ixgbe_dev_tx_queue_setup env dev qi nb conf p0 = Inr (- EINVAL, [], [], dev)
    else if tx_env_ok env
    then \<exists>freed blocks dev' q. ixgbe_dev_tx_queue_setup env dev qi nb conf p0 = Inr (0, freed, blocks, dev') \<and>
      port_tx_queues dev' = (port_tx_queues dev)[unat qi := Queue q] \<and> tx_fresh q \<and>
      nb_tx_desc q = nb \<and> tx_thresholds conf = (unat (tx_rs_thresh q), unat (tx_free_thresh q))
    else \<exists>freed blocks. ixgbe_dev_tx_queue_setup env dev qi nb conf p0 =
      Inr (- ENOMEM, freed, blocks, dev\<lparr>port_tx_queues := (port_tx_queues dev)[unat qi := Null]\<rparr>)"
proof (cases "tx_conf_valid nb conf")
  case True
  then obtain rs fr where th: "tx_setup_thresholds nb conf = Inr (rs, fr)" "tx_thresholds conf = (unat rs, unat fr)"
    using tx_setup_thresholds_decides [of nb conf] by auto
  obtain freed blocks where r: "ixgbe_dev_tx_queue_release (port_tx_queues dev ! unat qi) = Inr (freed, blocks)"
    using tx_slot_release [OF assms(2)] .
  let ?dev = "dev\<lparr>port_tx_queues := (port_tx_queues dev)[unat qi := Null]\<rparr>"
  show ?thesis
  proof (cases "tx_env_ok env")
    case env: True
    have "unat qi < length (port_tx_queues ?dev)" using assms(1) by simp
    from tx_setup_alloc_ok [OF th(1) env this, of p0] obtain q where
      q: "tx_setup_alloc env ?dev qi nb conf rs fr p0 = Inr (0, [], (ixgbe_set_tx_function False True q ?dev)
          \<lparr>port_tx_queues := (port_tx_queues ?dev)[unat qi := Queue q]\<rparr>)"
        "tx_fresh q" "nb_tx_desc q = nb" "tx_rs_thresh q = rs" "tx_free_thresh q = fr"
      by metis
    show ?thesis using True env th r q assms(1) by (auto simp: ixgbe_dev_tx_queue_setup_def intro!: exI [of _ q])
  next
    case env: False
    have "0 < unat nb" using True by (simp add: tx_conf_valid_def split: prod.splits)
    from tx_setup_alloc_fails [OF this assms(3) env, of ?dev qi conf rs fr p0] obtain blocks' where
      "tx_setup_alloc env ?dev qi nb conf rs fr p0 = Inr (- ENOMEM, blocks', ?dev)" by blast
    then show ?thesis using True env th r assms(1) by (simp add: ixgbe_dev_tx_queue_setup_def)
  qed
next
  case False
  then show ?thesis using tx_setup_thresholds_decides [of nb conf] by (simp add: ixgbe_dev_tx_queue_setup_def)
qed

text \<open>A port with one empty transmit slot and allocators that deliver.\<close>

definition demo_port :: ixgbe_port where
  "demo_port = \<lparr>mac_type = ixgbe_mac_82599EB, dev_port_id = 0, sriov_active = 0, def_pool_q_idx = 0,
     txmode_offloads = 0, rxmode_offloads = 0, security_ctx = False, rx_bulk_alloc_allowed = True, rx_vec_allowed = True,
     port_tx_queues = [Null], port_rx_queues = [Null], tx_queue_state = [Stopped], rx_queue_state = [Stopped],
     tx_pkt_burst = Xmit_Full, tx_pkt_prepare = True\<rparr>"

definition demo_tx_env :: "ixgbe_adv_tx_desc setup_env" where
  "demo_tx_env = \<lparr>zm_queue = True,
     dma_zone = Some (0x80000, replicate IXGBE_MAX_RING_DESC \<lparr>buffer_addr = 7, cmd_type_len = 7, olinfo_status = 7\<rparr>),
     zm_sw_ring = True, zm_sc_ring = True, cq_calloc1 = True, cq_calloc2 = True, cq_rnd = 0,
     proc_mempools = [1 \<mapsto> demo_mempool], proc_mbufs = [0x10800 \<mapsto> demo_mbuf]\<rparr>"

definition demo_txconf :: rte_eth_txconf where
  "demo_txconf = \<lparr>txc_pthresh = 32, txc_hthresh = 0, txc_wthresh = 0, txc_rs_thresh = 32, txc_free_thresh = 32,
     txc_deferred_start = 0, txc_offloads = 0\<rparr>"

lemma demo_setup_ok:
  "unat (0 :: u16) < length (port_tx_queues demo_port)" "tx_slot_ok (port_tx_queues demo_port ! unat (0 :: u16))"
  "zone_sized IXGBE_MAX_RING_DESC demo_tx_env" "tx_env_ok demo_tx_env" "tx_conf_valid 1024 demo_txconf"
  by (simp_all add: demo_port_def tx_slot_ok_def tx_env_ok_def zone_sized_def demo_tx_env_def tx_conf_valid_def tx_thresholds_def
      demo_txconf_def)

theorem tx_setup_outcome_witness:
  "(\<exists>freed blocks dev' q. ixgbe_dev_tx_queue_setup demo_tx_env demo_port 0 1024 demo_txconf demo_pool = Inr (0, freed, blocks, dev') \<and>
     port_tx_queues dev' = [Queue q] \<and> tx_fresh q \<and> nb_tx_desc q = 1024) \<and>
   (\<exists>freed blocks. ixgbe_dev_tx_queue_setup (demo_tx_env\<lparr>zm_sw_ring := False\<rparr>) demo_port 0 1024 demo_txconf demo_pool =
     Inr (- ENOMEM, freed, blocks, demo_port))"
proof
  show "\<exists>freed blocks dev' q. ixgbe_dev_tx_queue_setup demo_tx_env demo_port 0 1024 demo_txconf demo_pool = Inr (0, freed, blocks, dev') \<and>
     port_tx_queues dev' = [Queue q] \<and> tx_fresh q \<and> nb_tx_desc q = 1024"
    using tx_setup_outcome [OF demo_setup_ok(1-3), of 1024 demo_txconf demo_pool] demo_setup_ok(4,5)
    by (auto simp: demo_port_def)
  have "zone_sized IXGBE_MAX_RING_DESC (demo_tx_env\<lparr>zm_sw_ring := False\<rparr>)" "\<not> tx_env_ok (demo_tx_env\<lparr>zm_sw_ring := False\<rparr>)"
    using demo_setup_ok(3) by (simp_all add: zone_sized_def tx_env_ok_def)
  moreover have "demo_port\<lparr>port_tx_queues := (port_tx_queues demo_port)[unat (0 :: u16) := Null]\<rparr> = demo_port"
    by (simp add: demo_port_def)
  ultimately show "\<exists>freed blocks. ixgbe_dev_tx_queue_setup (demo_tx_env\<lparr>zm_sw_ring := False\<rparr>) demo_port 0 1024 demo_txconf demo_pool =
     Inr (- ENOMEM, freed, blocks, demo_port)"
    using tx_setup_outcome [OF demo_setup_ok(1,2), of _ 1024 demo_txconf demo_pool] demo_setup_ok(5) by metis
qed

text \<open>The CleanQ burst function is never used for transmitting. Whatever the queue, the process
  and the build option, \<open>ixgbe_set_tx_function\<close> ends with the simple, the vector or the full-featured function
  of the unmodified driver, because the assignment of the CleanQ function is always overwritten.\<close>

theorem set_tx_function_drops_cleanq:
  "tx_pkt_burst (ixgbe_set_tx_function inc_vector primary txq dev) =
     (if tx_offloads txq \<noteq> 0 \<or> tx_using_ipsec txq \<or> unat (tx_rs_thresh txq) < 32 then Xmit_Full
      else if inc_vector \<and> unat (tx_rs_thresh txq) \<le> 64 \<and> (primary \<longrightarrow> tx_sw_ring txq \<noteq> []) then Xmit_Vec
      else Xmit_Simple)"
  by (auto simp: ixgbe_set_tx_function_def Let_def RTE_PMD_IXGBE_TX_MAX_BURST_def RTE_IXGBE_TX_MAX_FREE_BUF_SZ_def)

theorem set_tx_function_drops_cleanq_witness:
  "tx_pkt_burst (ixgbe_set_tx_function False True ((demo_txq demo_pool)\<lparr>tx_rs_thresh := 32\<rparr>) demo_port) = Xmit_Simple"
  using set_tx_function_drops_cleanq [of False True "(demo_txq demo_pool)\<lparr>tx_rs_thresh := 32\<rparr>" demo_port]
  by (simp add: demo_txq_def)

text \<open>When the memory zone cannot be had, the queue structure is not freed: its \<open>ops\<close> are not set yet, so
  releasing it does nothing.\<close>

theorem tx_setup_leaks_queue:
  assumes "tx_conf_valid nb conf" "port_tx_queues dev ! unat qi = Null" "unat qi < length (port_tx_queues dev)"
    and "zm_queue env" "dma_zone env = None"
  shows "\<exists>dev'. ixgbe_dev_tx_queue_setup env dev qi nb conf p0 = Inr (- ENOMEM, [], [], dev')"
proof -
  obtain rs fr where "tx_setup_thresholds nb conf = Inr (rs, fr)"
    using tx_setup_thresholds_decides [of nb conf] assms(1) by auto
  then show ?thesis using assms
    by (simp add: ixgbe_dev_tx_queue_setup_def ixgbe_dev_tx_queue_release_def tx_setup_alloc_def
        ixgbe_tx_queue_release_def zeroed_txq_def)
qed

section \<open>Stopping a transmit queue\<close>

lemma tx_idle_enqueue:
  assumes "tx_idle q" "tx_inv q" "tx_inv q'"
    and "tx_contents q' = tx_contents q @ [a]" "tx_recl q' = tx_recl q"
    and "map te_mbuf (tx_sw_ring q') = (map te_mbuf (tx_sw_ring q))[unat (tx_tail q) := a]" "nb_tx_desc q' = nb_tx_desc q"
  shows "tx_idle q'"
proof -
  note d = tx_invD [OF assms(2)]
  have "length (tx_contents q') < unat (nb_tx_desc q)"
    using in_flight_less [OF tx_invD(1) [OF assms(3)]] assms(7) by (simp add: tx_contents_def)
  then have n: "length (tx_contents q) < length (map te_mbuf (tx_sw_ring q))" using assms(4) d(3) by simp
  have "(unat (tx_recl q) + length (tx_contents q)) mod length (map te_mbuf (tx_sw_ring q)) = unat (tx_tail q)"
    using in_flight_tail [OF d(1)] d(3) by (simp add: tx_contents_def)
  then show ?thesis using ring_idle_push [OF _ n, of "unat (tx_recl q)" a] assms(1) by (simp add: tx_idle_def assms(4-6))
qed

lemma tx_idle_dequeue:
  assumes "tx_idle q" "tx_inv q"
    and "tx_contents q = a # tx_contents q'" "unat (tx_recl q') = (unat (tx_recl q) + 1) mod length (tx_sw_ring q)"
    and "map te_mbuf (tx_sw_ring q') = (map te_mbuf (tx_sw_ring q))[unat (tx_recl q) := 0]"
  shows "tx_idle q'"
  using ring_idle_pop [of "map te_mbuf (tx_sw_ring q)" "unat (tx_recl q)" a "tx_contents q'"] assms(1) tx_invD(3,5) [OF assms(2)]
  by (simp add: tx_idle_def assms(3-5))

lemma tx_enqueue_sw_ring:
  assumes "ixgbe_tx_cleanq_enqueue q b = Inr (CLEANQ_ERR_OK, q')"
  shows "map te_mbuf (tx_sw_ring q') = (map te_mbuf (tx_sw_ring q))[unat (tx_tail q) := buf_addr (cq_pool q) b]"
    "tx_recl q' = tx_recl q" "nb_tx_desc q' = nb_tx_desc q" "mbufs q' = mbufs q" "tx_ops_set q' = tx_ops_set q"
  using assms cleanq_buf_to_mbuf_addr [of q b]
  by (auto simp: ixgbe_tx_cleanq_enqueue_def bindc_eq_Inr Let_def arr_set_def map_update split: if_splits)

lemma tx_dequeue_sw_ring:
  assumes "ixgbe_tx_cleanq_dequeue q b = Inr (CLEANQ_ERR_OK, b', q')"
  shows "map te_mbuf (tx_sw_ring q') = (map te_mbuf (tx_sw_ring q))[unat (tx_recl q) := 0]"
    "tx_recl q' = ring_next (nb_tx_desc q) (tx_recl q)" "mbufs q' = mbufs q" "tx_ops_set q' = tx_ops_set q"
    "nb_tx_desc q' = nb_tx_desc q"
  using assms
  by (auto simp: ixgbe_tx_cleanq_dequeue_def bindc_eq_Inr Let_def arr_set_def map_update split: if_splits)

lemma cleanq_enqueue_OK: "cleanq_enqueue f q b = Inr (CLEANQ_ERR_OK, q') \<Longrightarrow> f_enq f = Some enq \<Longrightarrow> enq q b = Inr (CLEANQ_ERR_OK, q')"
  by (auto simp: cleanq_enqueue_def bindc_eq_Inr split: if_splits)

lemma cleanq_dequeue_OK:
  "cleanq_dequeue f q b = Inr (CLEANQ_ERR_OK, b', q') \<Longrightarrow> f_deq f = Some deq \<Longrightarrow> deq q b = Inr (CLEANQ_ERR_OK, b', q')"
  by (auto simp: cleanq_dequeue_def bindc_eq_Inr err_is_fail_def split: if_splits prod.splits)

definition tx_kept :: "ixgbe_tx_queue \<Rightarrow> ixgbe_tx_queue \<Rightarrow> bool" where
  "tx_kept q0 q \<longleftrightarrow> tx_idle q \<and> mbufs q = mbufs q0 \<and> tx_ops_set q = tx_ops_set q0 \<and> nb_tx_desc q = nb_tx_desc q0"

lemma tx_run_kept:
  assumes "tx_run q0 q ins outs" "tx_inv q0" "tx_idle q0"
  shows "tx_kept q0 q"
  using assms
proof (induction rule: tx_run.induct)
  case (enqueue q ins outs b err q')
  then have inv: "tx_inv q" and kept: "tx_kept q0 q" using tx_run_fifo by blast+
  show ?case
  proof (rule tx.enqueue_spec [OF inv, of b])
    fix q1 assume q1: "cleanq_enqueue ixgbe_tx_f q b = Inr (CLEANQ_ERR_OK, q1)" "tx_inv q1"
      "tx_contents q1 = tx_contents q @ [buf_addr (cq_pool q) b]"
    then have "q' = q1" using enqueue.hyps(3) by simp
    moreover have "ixgbe_tx_cleanq_enqueue q b = Inr (CLEANQ_ERR_OK, q1)"
      by (rule cleanq_enqueue_OK [OF q1(1)]) (simp add: ixgbe_tx_f_def)
    note s = tx_enqueue_sw_ring [OF this]
    have "tx_idle q1" using tx_idle_enqueue [OF _ inv q1(2,3) s(2,1,3)] kept by (simp add: tx_kept_def)
    ultimately show "tx_kept q0 q'" using kept s by (simp add: tx_kept_def)
  qed (use enqueue.hyps kept in auto)
next
  case (dequeue q ins outs b err b' q')
  then have inv: "tx_inv q" and kept: "tx_kept q0 q" using tx_run_fifo by blast+
  show ?case
  proof (rule tx.dequeue_spec [OF inv, of b])
    fix b1 q1 assume q1: "cleanq_dequeue ixgbe_tx_f q b = Inr (CLEANQ_ERR_OK, b1, q1)"
      "tx_contents q = buf_addr (cq_pool q) b1 # tx_contents q1"
    then have "q' = q1" using dequeue.hyps(2) by simp
    moreover have "ixgbe_tx_cleanq_dequeue q b = Inr (CLEANQ_ERR_OK, b1, q1)"
      by (rule cleanq_dequeue_OK [OF q1(1)]) (simp add: ixgbe_tx_f_def)
    note s = tx_dequeue_sw_ring [OF this]
    have "unat (tx_recl q1) = (unat (tx_recl q) + 1) mod length (tx_sw_ring q)"
      using s(2) ring_next_unat [of "nb_tx_desc q" "tx_recl q"] ring_okD [OF tx_invD(1) [OF inv]] tx_invD(3) [OF inv] by simp
    then have "tx_idle q1" using tx_idle_dequeue [OF _ inv q1(2) _ s(1)] kept by (simp add: tx_kept_def)
    ultimately show "tx_kept q0 q'" using kept s by (simp add: tx_kept_def)
  qed (use dequeue.hyps kept in auto)
next
  case (card q ins outs i d)
  then show ?case using tx_hw_write_inv(2) [of q i d]
    by (simp add: tx_kept_def tx_idle_def) (simp add: tx_hw_write_def)
qed (simp add: tx_kept_def)

lemma tx_release_frees:
  assumes "tx_inv q" "tx_idle q" "mbufs q 0 = None"
  shows "\<exists>freed. ixgbe_tx_queue_release_mbufs q =
      Inr (freed, q\<lparr>tx_sw_ring := map (\<lambda>e. e\<lparr>te_mbuf := 0\<rparr>) (tx_sw_ring q)\<rparr>) \<and> mset freed = mset (tx_contents q)"
proof -
  have "0 \<notin> set (tx_contents q)"
  proof
    assume "0 \<in> set (tx_contents q)"
    then have "mbuf_good q 0" using assms(1) by (simp add: tx_inv_def)
    then show False using assms(3) by (auto simp: mbuf_good_def mbuf_of_region_def)
  qed
  then have "mset (filter (\<lambda>m. m \<noteq> 0) (map te_mbuf (tx_sw_ring q))) = mset (tx_contents q)"
    using ring_idle_mset assms(2) by (simp only: tx_idle_def)
  then show ?thesis unfolding tx_release_mbufs_eq [OF tx_invD(3) [OF assms(1)]] by blast
qed

text \<open>Property C26: stopping a transmit queue frees every mbuf in it exactly once and loses none. From a queue
  that has just been set up or reset, after any run of enqueues, dequeues and steps of the card, stopping
  the queue returns; the mbufs it frees together with those handed back before are exactly the mbufs
  accepted, counted with multiplicity; the queue is again as the set-up leaves it.\<close>

theorem tx_stop_frees_each_once:
  assumes "tx_fresh q0" "mbufs q0 0 = None"
    and "tx_run q0 q ins outs" "port_tx_queues dev ! unat qid = Queue q" "unat qid < length (port_tx_queues dev)"
    and "unat qid < length (tx_queue_state dev)"
  shows "\<exists>freed writes ne no dev' q'. ixgbe_dev_tx_queue_stop ht txdctl dev qid = Inr (freed, writes, ne, no, dev') \<and>
    mset freed + mset outs = mset ins \<and> port_tx_queues dev' ! unat qid = Queue q' \<and> tx_fresh q' \<and>
    tx_queue_state dev' ! unat qid = Stopped"
proof -
  have fresh: "tx_inv q0" "tx_contents q0 = []" "tx_idle q0" "tx_ops_set q0" using assms(1) by (simp_all add: tx_fresh_def)
  have inv: "tx_inv q" "ins = outs @ tx_contents q" using tx_run_fifo [OF assms(3) fresh(1)] fresh(2) by auto
  have kept: "tx_idle q" "mbufs q 0 = None" "tx_ops_set q" using tx_run_kept [OF assms(3) fresh(1,3)] assms(2) fresh(4) by (simp_all add: tx_kept_def)
  note d = tx_invD [OF inv(1)]
  let ?q1 = "q\<lparr>tx_sw_ring := map (\<lambda>e. e\<lparr>te_mbuf := 0\<rparr>) (tx_sw_ring q)\<rparr>"
  obtain freed where f: "ixgbe_tx_queue_release_mbufs q = Inr (freed, ?q1)" "mset freed = mset (tx_contents q)"
    using tx_release_frees [OF inv(1) kept(1,2)] by blast
  have "\<exists>q'. ixgbe_reset_tx_queue ?q1 = Inr q'" using d(2,3) by (simp add: ixgbe_reset_tx_queue_def Let_def)
  then obtain q' where q': "ixgbe_reset_tx_queue ?q1 = Inr q'" by blast
  have t: "tx_inv q'" "tx_contents q' = []"
    using reset_tx_inv [OF q'] inv(1) ring_okD [OF d(1)] d by (simp_all add: tx_inv_def)
  have "tx_ops_set q'" and sw: "tx_sw_ring q' = map (reset_entry (nb_tx_desc q)) [0..<unat (nb_tx_desc q)]"
    using q' kept(3) d(2,3) by (auto simp: ixgbe_reset_tx_queue_def Let_def)
  moreover have "map te_mbuf (tx_sw_ring q') = replicate (unat (nb_tx_desc q)) 0"
    by (rule nth_equalityI) (simp_all add: sw reset_entry_def)
  ultimately have "tx_fresh q'" using t by (simp add: tx_fresh_def tx_idle_def ring_idle_empty)
  then show ?thesis using f q' assms(4-6) kept(3) inv(2)
    by (simp add: ixgbe_dev_tx_queue_stop_def queue_at_def Let_def)
qed

theorem tx_stop_frees_each_once_witness:
  "\<exists>q0 q dev freed writes ne no dev'. tx_contents q0 = [] \<and> tx_run q0 q [0x10800] [] \<and>
     ixgbe_dev_tx_queue_stop (\<lambda>_. (0, 0)) (\<lambda>_. 0) (demo_port\<lparr>port_tx_queues := [Queue q]\<rparr>) 0 = Inr (freed, writes, ne, no, dev') \<and>
     freed = [0x10800]"
proof -
  obtain p q b where r: "ixgbe_reset_tx_queue (demo_txq p) = Inr q" "tx_inv q" "tx_contents q = []"
    "tx_pre q b" "in_bounds (cq_pool q) b" "buf_addr (cq_pool q) b = 0x10800"
    by (rule demo_tx_reset)
  have f: "tx_recl q = 0" "tx_tail q = 0" "tx_ops_set q" "mbufs q = [0x10800 \<mapsto> demo_mbuf]" "tx_sw_ring q = map (reset_entry 4) [0..<4]"
    using r(1) by (auto simp: ixgbe_reset_tx_queue_def Let_def demo_txq_def)
  have "map te_mbuf (tx_sw_ring q) = replicate 4 0"
    by (rule nth_equalityI) (simp_all add: f(5) reset_entry_def)
  then have idle: "tx_idle q" using r(3) by (simp add: tx_idle_def ring_idle_empty)
  then have fresh: "tx_fresh q" using r(2,3) f(3) by (simp add: tx_fresh_def)
  have "\<not> tx_full q" by (simp add: tx_full_def ring_full_def f)
  then obtain q' where e: "cleanq_enqueue ixgbe_tx_f q b = Inr (CLEANQ_ERR_OK, q')"
    using tx.enqueue_spec [OF r(2) r(4)] r(5) by metis
  have run: "tx_run q q' [0x10800] []" using tx_run.enqueue [OF tx_run.start _ e] r(4,6) by simp
  let ?dev = "demo_port\<lparr>port_tx_queues := [Queue q']\<rparr>"
  have "mbufs q 0 = None" "port_tx_queues ?dev ! unat (0 :: u16) = Queue q'" "unat (0 :: u16) < length (port_tx_queues ?dev)"
    "unat (0 :: u16) < length (tx_queue_state ?dev)" by (simp_all add: f demo_port_def)
  from tx_stop_frees_each_once [OF fresh this(1) run this(2-4), of "\<lambda>_. (0, 0)" "\<lambda>_. 0"]
  obtain freed writes ne no dev' where s: "ixgbe_dev_tx_queue_stop (\<lambda>_. (0, 0)) (\<lambda>_. 0) ?dev 0 = Inr (freed, writes, ne, no, dev')"
    "mset freed = {#0x10800#}" by auto
  then have "freed = [0x10800]" by (cases freed) auto
  then show ?thesis using r(3) run s(1) by blast
qed

section \<open>Setting up a receive queue\<close>

lemma fresh_pool:
  assumes "region_pool_init c1 c2 rnd = (CLEANQ_ERR_OK, Some p)"
  shows "pool_inv p" "pool_map p = Map.empty" "num_regions p = 0" "num_regions p \<noteq> rp_size p"
    "malloc_ok (region_alloc p) x" "regions_apart p"
proof -
  show i: "pool_inv p" "pool_map p = Map.empty" "num_regions p = 0"
    using region_pool_init_inv [OF assms] by (auto simp: pool_inv_def)
  have "p = \<lparr>rp_size = INIT_POOL_SIZE, num_regions = 0, region_offset = ucast (drop_bit 12 rnd),
         last_offset = 0, region_alloc = slab_init sizeof_region Default_Refill,
         rp_pool = replicate (unat INIT_POOL_SIZE) 0, rp_regions = Map.empty\<rparr>"
    using assms by (auto simp: region_pool_init_def split: if_splits)
  then show "num_regions p \<noteq> rp_size p" "malloc_ok (region_alloc p) x"
    by (auto simp: INIT_POOL_SIZE_def slab_init_def malloc_ok_def fresh_memory_def)
  show "regions_apart p" using i(2) by (rule empty_pool_apart)
qed

text \<open>Registering the mempool with the pool of a new queue.\<close>

lemma register_mempool_fresh:
  assumes p: "region_pool_init c1 c2 rnd = (CLEANQ_ERR_OK, Some p)" and f: "plain_reg f"
    and cap: "mempool_to_cap mp = Inr cap" "cap_no_wrap cap" and m: "malloc_ret lenv \<noteq> 0" and q: "cq_pool q = p"
  obtains rid' p' where "cleanq_register_mempool lenv f q mp rid = Inr (CLEANQ_ERR_OK, q\<lparr>cq_pool := p'\<rparr>)" "pool_inv p'"
    "pool_map p' = [rid' \<mapsto> new_region rid' cap]" "regions_apart p'"
proof -
  note fp = fresh_pool [OF p]
  obtain k where k: "pool_inv_at k p" using fp(1) by (auto simp: pool_inv_def)
  have "unat (num_regions p) < 32768" using fp(3) by simp
  then obtain k' rid' p' where a: "region_pool_add_region lenv p cap rid = Inr (CLEANQ_ERR_OK, rid', p')" "pool_inv_at k' p'"
    "pool_map p' = [rid' \<mapsto> new_region rid' cap]"
    by (rule region_pool_add_region_spec [OF k _ fp(5), of lenv cap rid]) (use fp m in auto)
  have "regions_apart p'"
    using a(3) cap(2) by (auto simp: regions_apart_def region_no_wrap_def new_region_def cap_no_wrap_def split: if_splits)
  moreover have "cleanq_register_mempool lenv f q mp rid = Inr (CLEANQ_ERR_OK, q\<lparr>cq_pool := p'\<rparr>)"
    using cap(1) cleanq_register_plain [OF f, of lenv q cap rid] a(1) q by (simp add: cleanq_register_mempool_def)
  ultimately show thesis using that a by (auto simp: pool_inv_def)
qed

text \<open>Without memory the registration fails; a new pool has no region then either.\<close>

lemma slab_alloc_init_no_memory: "slab_alloc (slab_init bsz Default_Refill) 0 = Inr (0, slab_init bsz Default_Refill)"
  by (simp add: slab_alloc_def slab_init_def find_free_slab.simps slab_default_refill_def slab_refill_pages_def err_is_fail_def)

lemma register_mempool_no_memory:
  assumes p: "region_pool_init c1 c2 rnd = (CLEANQ_ERR_OK, Some p)" and f: "plain_reg f"
    and cap: "mempool_to_cap mp = Inr cap" and m: "malloc_ret lenv = 0" and q: "cq_pool q = p"
  obtains p' where "cleanq_register_mempool lenv f q mp rid = Inr (CLEANQ_ERR_MALLOC_FAIL, q\<lparr>cq_pool := p'\<rparr>)"
    "pool_map p' = Map.empty"
proof -
  note fp = fresh_pool [OF p]
  obtain k where k: "pool_inv_at k p" using fp(1) by (auto simp: pool_inv_def)
  have sl: "region_alloc p = slab_init sizeof_region Default_Refill"
    using p by (auto simp: region_pool_init_def split: if_splits)
  have lt: "num_regions p < rp_size p" using fp(3,4) word_gt_0 [of "rp_size p"] by auto
  have no: "region_pool_add_region lenv p cap rid \<noteq> Inr (CLEANQ_ERR_OK, rid', p')" for rid' p'
    using lt m by (auto simp: region_pool_add_region_def grow_if_full_def bindc_eq_Inr Let_def sl
        slab_alloc_init_no_memory err_is_fail_def split: if_splits)
  have "unat (num_regions p) < 32768" using fp(3) by simp
  then obtain p' where a: "region_pool_add_region lenv p cap rid = Inr (CLEANQ_ERR_MALLOC_FAIL, rid, p')" "pool_map p' = Map.empty"
    by (rule region_pool_add_region_spec [OF k _ fp(5), of lenv cap rid]) (use fp no in auto)
  have "cleanq_register_mempool lenv f q mp rid = Inr (CLEANQ_ERR_MALLOC_FAIL, q\<lparr>cq_pool := p'\<rparr>)"
    using cap cleanq_register_plain [OF f, of lenv q cap rid] a(1) q by (simp add: cleanq_register_mempool_def)
  then show thesis using that a(2) by blast
qed

lemma rx_plain_reg: "plain_reg ixgbe_rx_f"
  by (simp add: plain_reg_def ixgbe_rx_f_def ixgbe_cleanq_register_def ixgbe_cleanq_deregister_def)

definition rx_env_ok :: "ixgbe_adv_rx_desc setup_env \<Rightarrow> libc \<Rightarrow> bool" where
  "rx_env_ok env lenv \<longleftrightarrow> zm_queue env \<and> zm_sw_ring env \<and> zm_sc_ring env \<and> cq_calloc1 env \<and> cq_calloc2 env \<and>
     malloc_ret lenv \<noteq> 0 \<and>
     (\<exists>iova descs. dma_zone env = Some (iova, descs) \<and> length descs = IXGBE_MAX_RING_DESC + RTE_PMD_IXGBE_RX_MAX_BURST)"

definition rx_nb_valid :: "u16 \<Rightarrow> bool" where
  "rx_nb_valid nb \<longleftrightarrow> 8 dvd unat nb \<and> 32 \<le> unat nb \<and> unat nb \<le> 4096"

text \<open>The software ring seen from \<open>rx_recl\<close>, and nothing waiting elsewhere.\<close>

definition rx_idle :: "ixgbe_rx_queue \<Rightarrow> bool" where
  "rx_idle q \<longleftrightarrow>
     ring_idle (take (unat (nb_rx_desc q)) (rx_sw_ring q)) (unat (rx_recl q)) (rx_contents q) \<and>
     rx_nb_avail q = 0 \<and> unat (nb_rx_desc q) \<le> length (rx_sw_sc_ring q) \<and> set (rx_sw_sc_ring q) \<subseteq> {0}"

lemma rx_idleD:
  assumes "rx_idle q"
  shows "ring_idle (take (unat (nb_rx_desc q)) (rx_sw_ring q)) (unat (rx_recl q)) (rx_contents q)"
    "rx_nb_avail q = 0" "unat (nb_rx_desc q) \<le> length (rx_sw_sc_ring q)" "set (rx_sw_sc_ring q) \<subseteq> {0}"
  using assms by (simp_all add: rx_idle_def)

lemma rx_extra: "rx_nb_valid nb \<Longrightarrow> unat (nb + of_nat RTE_PMD_IXGBE_RX_MAX_BURST) = unat nb + 32"
  using unat_add_lem [of nb 32] by (simp add: rx_nb_valid_def RTE_PMD_IXGBE_RX_MAX_BURST_def)

text \<open>A queue as the set-up leaves it, and the reset after a stop.\<close>

definition rx_fresh :: "bool \<Rightarrow> ixgbe_rx_queue \<Rightarrow> bool" where
  "rx_fresh bulk q \<longleftrightarrow> rx_inv q \<and> rx_contents q = [] \<and> rx_idle q \<and> rx_nb_valid (nb_rx_desc q) \<and>
     unat (nb_rx_desc q) + 32 \<le> length (rx_ring q) \<and>
     length (rx_sw_ring q) = (if bulk then unat (nb_rx_desc q) + 32 else unat (nb_rx_desc q))"

lemma reset_rx_inv:
  assumes nb: "rx_nb_valid (nb_rx_desc q0)" and p: "pool_inv (cq_pool q0)" "regions_apart (cq_pool q0)"
    and ring: "unat (nb_rx_desc q0) + 32 \<le> length (rx_ring q0)"
    and sw: "length (rx_sw_ring q0) = (if bulk then unat (nb_rx_desc q0) + 32 else unat (nb_rx_desc q0))"
      "take (unat (nb_rx_desc q0)) (rx_sw_ring q0) = replicate (unat (nb_rx_desc q0)) 0"
    and sc: "unat (nb_rx_desc q0) \<le> length (rx_sw_sc_ring q0)" "set (rx_sw_sc_ring q0) \<subseteq> {0}"
  obtains q where "ixgbe_reset_rx_queue bulk q0 = Inr q" "rx_fresh bulk q"
    "nb_rx_desc q = nb_rx_desc q0" "cq_pool q = cq_pool q0" "mbufs q = mbufs q0" "mempools q = mempools q0"
proof -
  let ?nb = "unat (nb_rx_desc q0)"
  define len where "len = unat (if bulk then nb_rx_desc q0 + of_nat RTE_PMD_IXGBE_RX_MAX_BURST else nb_rx_desc q0)"
  have len: "len = (if bulk then ?nb + 32 else ?nb)" using rx_extra [OF nb] by (simp add: len_def)
  have g: "\<not> (length (rx_ring q0) < len \<or> ?nb < len \<and> length (rx_sw_ring q0) < len)" using ring sw(1) len by auto
  define sw' where "sw' = (if ?nb < len
      then take ?nb (rx_sw_ring q0) @ replicate (len - ?nb) (fake_mbuf q0) @ drop len (rx_sw_ring q0) else rx_sw_ring q0)"
  have sw': "?nb \<le> length sw'" "take ?nb sw' = replicate ?nb 0" "length sw' = length (rx_sw_ring q0)"
    using sw len by (auto simp: sw'_def)
  define q where "q = q0\<lparr>rx_ring := replicate len zeroed_rx_desc @ drop len (rx_ring q0), rx_sw_ring := sw',
      rx_nb_avail := 0, rx_next_avail := 0, rx_free_trigger := rx_free_thresh q0 - 1,
      rx_tail := 0, nb_rx_hold := 0, pkt_first_seg := 0, pkt_last_seg := 0, rx_recl := 0\<rparr>"
  have eq: "ixgbe_reset_rx_queue bulk q0 = Inr q"
    using g by (simp add: ixgbe_reset_rx_queue_def Let_def len_def [symmetric] q_def sw'_def)
  have n: "2 \<le> ?nb" "?nb \<le> 4096" "0 < nb_rx_desc q0" using nb by (simp_all add: rx_nb_valid_def word_less_nat_alt)
  have c: "rx_contents q = []" by (simp add: q_def rx_contents_def in_flight_def)
  have l: "?nb \<le> length (rx_ring q)" "?nb + 32 \<le> length (rx_ring q)" using ring len by (simp_all add: q_def)
  then have "rx_inv q" unfolding rx_inv_def c using n p sw'(1) by (simp add: q_def ring_ok_def in_flight_def)
  moreover have "rx_idle q" unfolding rx_idle_def c using sw'(2) sc by (simp add: q_def ring_idle_empty)
  moreover have "nb_rx_desc q = nb_rx_desc q0" "length (rx_sw_ring q) = length (rx_sw_ring q0)"
    by (simp_all add: q_def sw'(3))
  ultimately have "rx_fresh bulk q" using c l(2) nb sw(1) by (simp add: rx_fresh_def)
  then show thesis using that eq by (simp add: q_def)
qed

lemma release_rx_entries_eq: "release_rx_entries ms = (filter (\<lambda>m. m \<noteq> 0) ms, replicate (length ms) 0)"
  by (induction ms) (auto simp: Let_def)

lemma release_sc_entries_empty: "set ms \<subseteq> {0} \<Longrightarrow> release_sc_entries mem ms = Inr ([], replicate (length ms) 0)"
  by (induction ms) auto

lemma rx_release_mbufs_eq:
  assumes "unat (nb_rx_desc q) \<le> length (rx_sw_ring q)" "rx_idle q" "0 < unat (nb_rx_desc q)"
  obtains q' where "ixgbe_rx_queue_release_mbufs q = Inr (filter (\<lambda>m. m \<noteq> 0) (take (unat (nb_rx_desc q)) (rx_sw_ring q)), q')"
    "take (unat (nb_rx_desc q)) (rx_sw_ring q') = replicate (unat (nb_rx_desc q)) 0"
    "length (rx_sw_ring q') = length (rx_sw_ring q)" "length (rx_sw_sc_ring q') = length (rx_sw_sc_ring q)"
    "set (rx_sw_sc_ring q') \<subseteq> {0}" "nb_rx_desc q' = nb_rx_desc q" "cq_pool q' = cq_pool q" "rx_ring q' = rx_ring q"
proof -
  let ?nb = "unat (nb_rx_desc q)"
  have i: "rx_nb_avail q = 0" "?nb \<le> length (rx_sw_sc_ring q)" "set (rx_sw_sc_ring q) \<subseteq> {0}"
    using assms(2) by (simp_all add: rx_idle_def)
  let ?sc = "replicate ?nb 0 @ drop ?nb (rx_sw_sc_ring q)" and ?sw = "replicate ?nb 0 @ drop ?nb (rx_sw_ring q)"
  have ne: "rx_sw_ring q \<noteq> []" "rx_sw_sc_ring q \<noteq> []" using assms(1,3) i(2) by auto
  have "set (take ?nb (rx_sw_sc_ring q)) \<subseteq> {0}" using i(3) by (meson order_trans set_take_subset)
  note sc = release_sc_entries_empty [OF this]
  have "ixgbe_rx_queue_release_mbufs q = Inr (filter (\<lambda>m. m \<noteq> 0) (take ?nb (rx_sw_ring q)),
      q\<lparr>rx_sw_ring := ?sw, rx_nb_avail := 0, rx_sw_sc_ring := ?sc\<rparr>)"
    using ne assms(1) i(1,2) sc by (simp add: ixgbe_rx_queue_release_mbufs_def release_rx_entries_eq Let_def min_absorb2)
  moreover have "set ?sc \<subseteq> {0}" using i(3) by (auto dest!: in_set_dropD)
  ultimately show thesis using that assms(1) i(2) by auto
qed

definition rx_releasable :: "ixgbe_rx_queue slot \<Rightarrow> bool" where
  "rx_releasable s \<longleftrightarrow> s = Null \<or> (\<exists>q. s = Queue q \<and> rx_inv q \<and> rx_idle q)"

lemma rx_slot_release:
  assumes "rx_releasable s"
  obtains freed blocks where "ixgbe_dev_rx_queue_release s = Inr (freed, blocks)"
proof (cases s)
  case (Queue q)
  then have q: "rx_inv q" "rx_idle q" using assms by (auto simp: rx_releasable_def)
  have "0 < unat (nb_rx_desc q)" using rx_invD(4) [OF q(1)] by linarith
  with rx_invD(3) [OF q(1)] q(2) obtain freed q' where "ixgbe_rx_queue_release_mbufs q = Inr (freed, q')"
    by (rule rx_release_mbufs_eq)
  then show thesis using that Queue by (simp add: ixgbe_dev_rx_queue_release_def ixgbe_rx_queue_release_def)
qed (use that assms in \<open>auto simp: rx_releasable_def ixgbe_dev_rx_queue_release_def\<close>)

text \<open>A queue whose software rings are empty or zeroed can be released.\<close>

lemma rx_release_zeroed:
  assumes "rx_nb_avail q = 0" "rx_sw_ring q = [] \<or> (\<exists>n \<ge> unat (nb_rx_desc q). rx_sw_ring q = replicate n 0)"
    and "rx_sw_sc_ring q = [] \<or> (\<exists>n \<ge> unat (nb_rx_desc q). rx_sw_sc_ring q = replicate n 0)"
  obtains freed blocks where "ixgbe_rx_queue_release q = Inr (freed, blocks)"
proof -
  let ?nb = "unat (nb_rx_desc q)"
  have z: "release_sc_entries mem (replicate k 0) = Inr ([], replicate k 0)" for mem k
    by (rule release_sc_entries_empty [of "replicate k 0", simplified]) auto
  have "\<exists>x. ixgbe_rx_queue_release_mbufs q = Inr x"
    using assms by (auto simp: ixgbe_rx_queue_release_mbufs_def release_rx_entries_eq Let_def min_absorb1 z)
  then show thesis using that by (auto simp: ixgbe_rx_queue_release_def)
qed

text \<open>The outcomes of the second half of the set-up, for a queue that has no software rings yet.\<close>

lemma rx_setup_rings_no_rings:
  assumes nb: "rx_nb_valid nb" and env: "\<not> (zm_sw_ring env \<and> zm_sc_ring env)"
    and q: "nb_rx_desc rxq = nb" "rx_nb_avail rxq = 0" "rx_sw_ring rxq = []" "rx_sw_sc_ring rxq = []"
  obtains blocks where "rx_setup_rings env lenv dev qi nb rxq mp rid = Inr (- ENOMEM, blocks, dev)"
proof -
  define len where "len = unat (if rx_bulk_alloc_allowed dev then nb + of_nat RTE_PMD_IXGBE_RX_MAX_BURST else nb)"
  have len: "unat nb \<le> len" using rx_extra [OF nb] by (simp add: len_def)
  obtain f1 b1 where b1: "ixgbe_rx_queue_release rxq = Inr (f1, b1)" by (rule rx_release_zeroed [of rxq]) (use q in auto)
  obtain f2 b2 where b2: "ixgbe_rx_queue_release (rxq\<lparr>rx_sw_ring := replicate len 0\<rparr>) = Inr (f2, b2)"
    by (rule rx_release_zeroed [of "rxq\<lparr>rx_sw_ring := replicate len 0\<rparr>"]) (use q len in auto)
  show thesis using that b1 b2 env by (cases "zm_sw_ring env") (simp_all add: rx_setup_rings_def Let_def len_def [symmetric])
qed

lemma rx_setup_rings_no_pool:
  assumes nb: "rx_nb_valid nb" and env: "zm_sw_ring env" "zm_sc_ring env" "\<not> (cq_calloc1 env \<and> cq_calloc2 env)"
    and qi: "unat qi < length (port_rx_queues dev)" and q: "nb_rx_desc rxq = nb" "rx_nb_avail rxq = 0"
  obtains blocks dev' where "rx_setup_rings env lenv dev qi nb rxq mp rid = Inr (- ENOMEM, blocks, dev')"
    "port_rx_queues dev' = (port_rx_queues dev)[unat qi := Dangling]" "rx_queue_state dev' = rx_queue_state dev"
proof -
  define len where "len = unat (if rx_bulk_alloc_allowed dev then nb + of_nat RTE_PMD_IXGBE_RX_MAX_BURST else nb)"
  have len: "unat nb \<le> len" using rx_extra [OF nb] by (simp add: len_def)
  define q2 where "q2 = rxq\<lparr>rx_sw_ring := replicate len 0, rx_sw_sc_ring := replicate len 0\<rparr>"
  obtain freed blocks where b: "ixgbe_rx_queue_release q2 = Inr (freed, blocks)"
    by (rule rx_release_zeroed [of q2]) (use q len in \<open>auto simp: q2_def\<close>)
  define dev1 where "dev1 = (if \<not> rte_is_power_of_2 (ucast nb) then dev\<lparr>rx_vec_allowed := False\<rparr> else dev)"
  have d: "port_rx_queues dev1 = port_rx_queues dev" "rx_queue_state dev1 = rx_queue_state dev" by (simp_all add: dev1_def)
  have c: "ixgbe_rx_cleanq_create (cq_calloc1 env) (cq_calloc2 env) (cq_rnd env) q2 = (CLEANQ_ERR_MALLOC_FAIL, q2)"
    using env(3) by (auto simp: ixgbe_rx_cleanq_create_def cleanq_init_def region_pool_init_def)
  have "rx_setup_rings env lenv dev qi nb rxq mp rid =
      Inr (- ENOMEM, blocks, dev1\<lparr>port_rx_queues := (port_rx_queues dev1)[unat qi := Dangling]\<rparr>)"
    using qi env c b d
    by (simp add: rx_setup_rings_def Let_def len_def [symmetric] q2_def [symmetric] dev1_def [symmetric] err_is_fail_def)
  then show thesis using that d by simp
qed

lemma rx_setup_rings_unregistered:
  assumes nb: "rx_nb_valid nb" and env: "zm_sw_ring env" "zm_sc_ring env" "cq_calloc1 env" "cq_calloc2 env"
    and m: "malloc_ret lenv = 0" and qi: "unat qi < length (port_rx_queues dev)"
    and q: "nb_rx_desc rxq = nb" "unat nb + 32 \<le> length (rx_ring rxq)" "mempools rxq mp = Some pool"
    and cap: "mempool_to_cap pool = Inr cap"
  obtains q dev' where "rx_setup_rings env lenv dev qi nb rxq mp rid = Inr (0, [], dev')"
    "port_rx_queues dev' = (port_rx_queues dev)[unat qi := Queue q]" "rx_contents q = []"
    "nb_rx_desc q = nb" "pool_map (cq_pool q) = Map.empty" "mbufs q = mbufs rxq" "rx_queue_state dev' = rx_queue_state dev"
proof -
  define len where "len = unat (if rx_bulk_alloc_allowed dev then nb + of_nat RTE_PMD_IXGBE_RX_MAX_BURST else nb)"
  have len: "len = (if rx_bulk_alloc_allowed dev then unat nb + 32 else unat nb)" using rx_extra [OF nb] by (simp add: len_def)
  define q2 where "q2 = rxq\<lparr>rx_sw_ring := replicate len 0, rx_sw_sc_ring := replicate len 0\<rparr>"
  define dev1 where "dev1 = (if \<not> rte_is_power_of_2 (ucast nb) then dev\<lparr>rx_vec_allowed := False\<rparr> else dev)"
  have dev1: "port_rx_queues dev1 = port_rx_queues dev" "rx_bulk_alloc_allowed dev1 = rx_bulk_alloc_allowed dev"
    "rx_queue_state dev1 = rx_queue_state dev"
    by (simp_all add: dev1_def)
  obtain p where p: "region_pool_init (cq_calloc1 env) (cq_calloc2 env) (cq_rnd env) = (CLEANQ_ERR_OK, Some p)"
    using env by (auto simp: region_pool_init_def)
  let ?q3 = "q2\<lparr>cq_pool := p\<rparr>"
  have c: "ixgbe_rx_cleanq_create (cq_calloc1 env) (cq_calloc2 env) (cq_rnd env) q2 = (CLEANQ_ERR_OK, ?q3)"
    using p by (simp add: ixgbe_rx_cleanq_create_def cleanq_init_def err_is_fail_def)
  have "cq_pool ?q3 = p" by simp
  then obtain p' where r: "cleanq_register_mempool lenv ixgbe_rx_f ?q3 pool rid = Inr (CLEANQ_ERR_MALLOC_FAIL, ?q3\<lparr>cq_pool := p'\<rparr>)"
    "pool_map p' = Map.empty"
    using register_mempool_no_memory [OF p rx_plain_reg cap m, of ?q3 rid] by metis
  define q4 where "q4 = q2\<lparr>cq_pool := p'\<rparr>"
  have f: "nb_rx_desc q4 = nb" "rx_ring q4 = rx_ring rxq" "rx_sw_ring q4 = replicate len 0" "cq_pool q4 = p'" "mbufs q4 = mbufs rxq"
    using q(1) by (simp_all add: q4_def q2_def)
  have "\<exists>q5. ixgbe_reset_rx_queue (rx_bulk_alloc_allowed dev) q4 = Inr q5"
    unfolding ixgbe_reset_rx_queue_def f Let_def len_def [symmetric] using q(2) len by simp
  then obtain q5 where q5: "ixgbe_reset_rx_queue (rx_bulk_alloc_allowed dev) q4 = Inr q5" by blast
  have g: "nb_rx_desc q5 = nb" "cq_pool q5 = p'" "mbufs q5 = mbufs rxq" "rx_contents q5 = []"
    using q5 f by (auto simp: ixgbe_reset_rx_queue_def Let_def rx_contents_def in_flight_def split: if_splits)
  have "mempools ?q3 mp = Some pool" using q(3) by (simp add: q2_def)
  then have "rx_setup_rings env lenv dev qi nb rxq mp rid =
      Inr (0, [], dev1\<lparr>port_rx_queues := (port_rx_queues dev1)[unat qi := Queue q5]\<rparr>)"
    using env qi c r(1) q5 dev1
    by (simp add: rx_setup_rings_def Let_def len_def [symmetric] q2_def [symmetric] dev1_def [symmetric] err_is_fail_def q4_def)
  then show thesis using that g r(2) dev1 by simp
qed

lemma rx_setup_rings_ok:
  assumes env: "rx_env_ok env lenv" and nb: "rx_nb_valid nb" and qi: "unat qi < length (port_rx_queues dev)"
    and q: "nb_rx_desc rxq = nb" "unat nb + 32 \<le> length (rx_ring rxq)" "mempools rxq mp = Some pool"
    and cap: "mempool_to_cap pool = Inr cap" "cap_no_wrap cap"
  obtains q dev' rid' where "rx_setup_rings env lenv dev qi nb rxq mp rid = Inr (0, [], dev')"
    "port_rx_queues dev' = (port_rx_queues dev)[unat qi := Queue q]" "rx_fresh (rx_bulk_alloc_allowed dev') q"
    "nb_rx_desc q = nb" "pool_map (cq_pool q) = [rid' \<mapsto> new_region rid' cap]" "mbufs q = mbufs rxq"
    "mempools q = mempools rxq" "rx_queue_state dev' = rx_queue_state dev"
proof -
  define len where "len = unat (if rx_bulk_alloc_allowed dev then nb + of_nat RTE_PMD_IXGBE_RX_MAX_BURST else nb)"
  have len: "len = (if rx_bulk_alloc_allowed dev then unat nb + 32 else unat nb)" using rx_extra [OF nb] by (simp add: len_def)
  define q2 where "q2 = rxq\<lparr>rx_sw_ring := replicate len 0, rx_sw_sc_ring := replicate len 0\<rparr>"
  define dev1 where "dev1 = (if \<not> rte_is_power_of_2 (ucast nb) then dev\<lparr>rx_vec_allowed := False\<rparr> else dev)"
  have dev1: "port_rx_queues dev1 = port_rx_queues dev" "rx_bulk_alloc_allowed dev1 = rx_bulk_alloc_allowed dev"
    "rx_queue_state dev1 = rx_queue_state dev"
    by (simp_all add: dev1_def)
  obtain p where p: "region_pool_init (cq_calloc1 env) (cq_calloc2 env) (cq_rnd env) = (CLEANQ_ERR_OK, Some p)"
    using env by (auto simp: rx_env_ok_def region_pool_init_def)
  let ?q3 = "q2\<lparr>cq_pool := p\<rparr>"
  have c: "ixgbe_rx_cleanq_create (cq_calloc1 env) (cq_calloc2 env) (cq_rnd env) q2 = (CLEANQ_ERR_OK, ?q3)"
    using p by (simp add: ixgbe_rx_cleanq_create_def cleanq_init_def err_is_fail_def)
  have "malloc_ret lenv \<noteq> 0" "cq_pool ?q3 = p" using env by (simp_all add: rx_env_ok_def)
  then obtain rid' p' where r: "cleanq_register_mempool lenv ixgbe_rx_f ?q3 pool rid = Inr (CLEANQ_ERR_OK, ?q3\<lparr>cq_pool := p'\<rparr>)"
    "pool_inv p'" "pool_map p' = [rid' \<mapsto> new_region rid' cap]" "regions_apart p'"
    using register_mempool_fresh [OF p rx_plain_reg cap, of lenv ?q3 rid] by metis
  define q4 where "q4 = q2\<lparr>cq_pool := p'\<rparr>"
  have f: "nb_rx_desc q4 = nb" "rx_ring q4 = rx_ring rxq" "rx_sw_ring q4 = replicate len 0"
    "rx_sw_sc_ring q4 = replicate len 0" "cq_pool q4 = p'" "mbufs q4 = mbufs rxq"
    "mempools q4 = mempools rxq"
    using q(1) by (simp_all add: q4_def q2_def)
  obtain q5 where q5: "ixgbe_reset_rx_queue (rx_bulk_alloc_allowed dev) q4 = Inr q5" "rx_fresh (rx_bulk_alloc_allowed dev) q5"
    "nb_rx_desc q5 = nb" "cq_pool q5 = p'" "mbufs q5 = mbufs rxq"
    "mempools q5 = mempools rxq"
    by (rule reset_rx_inv [of q4 "rx_bulk_alloc_allowed dev", unfolded f])
      (use nb r q(2) len in auto)
  have "mempools ?q3 mp = Some pool" using q(3) by (simp add: q2_def)
  then have "rx_setup_rings env lenv dev qi nb rxq mp rid =
      Inr (0, [], dev1\<lparr>port_rx_queues := (port_rx_queues dev1)[unat qi := Queue q5]\<rparr>)"
    using env qi c r(1) q5(1) dev1
    by (simp add: rx_setup_rings_def Let_def len_def [symmetric] q2_def [symmetric] dev1_def [symmetric] rx_env_ok_def err_is_fail_def q4_def)
  then show thesis using that q5 r(3) dev1 by simp
qed

lemma rx_nb_tests:
  "unat nb mod IXGBE_RXD_ALIGN \<noteq> 0 \<or> IXGBE_MAX_RING_DESC < unat nb \<or> unat nb < IXGBE_MIN_RING_DESC \<longleftrightarrow> \<not> rx_nb_valid nb"
  by (auto simp: rx_nb_valid_def IXGBE_RXD_ALIGN_def IXGBE_MAX_RING_DESC_def IXGBE_MIN_RING_DESC_def dvd_eq_mod_eq_0)

text \<open>The set-up up to the software rings: either the first two allocators fail, or the second half decides.\<close>

lemma rx_setup_first_half:
  assumes "unat qi < length (port_rx_queues dev)" "rx_releasable (port_rx_queues dev ! unat qi)" "rx_nb_valid nb"
    and "zone_sized (IXGBE_MAX_RING_DESC + RTE_PMD_IXGBE_RX_MAX_BURST) env"
  obtains freed blocks where "\<not> (zm_queue env \<and> dma_zone env \<noteq> None)"
    "ixgbe_dev_rx_queue_setup env lenv dev qi nb conf mp fake p0 rid =
       Inr (- ENOMEM, freed, blocks, dev\<lparr>port_rx_queues := (port_rx_queues dev)[unat qi := Null]\<rparr>)"
  | freed blocks dev2 rxq where "zm_queue env" "dma_zone env \<noteq> None"
    "ixgbe_dev_rx_queue_setup env lenv dev qi nb conf mp fake p0 rid =
       bindc (rx_setup_rings env lenv dev2 qi nb rxq mp rid) (\<lambda>(ret, blocks', dev3). Inr (ret, freed, blocks @ blocks', dev3))"
    "port_rx_queues dev2 = (port_rx_queues dev)[unat qi := Null]" "rx_queue_state dev2 = rx_queue_state dev"
    "nb_rx_desc rxq = nb" "unat nb + 32 \<le> length (rx_ring rxq)" "mempools rxq = proc_mempools env" "mbufs rxq = proc_mbufs env"
    "rx_nb_avail rxq = 0" "rx_sw_ring rxq = []" "rx_sw_sc_ring rxq = []"
proof -
  obtain freed blocks where r: "ixgbe_dev_rx_queue_release (port_rx_queues dev ! unat qi) = Inr (freed, blocks)"
    using rx_slot_release [OF assms(2)] .
  let ?dev = "dev\<lparr>port_rx_queues := (port_rx_queues dev)[unat qi := Null]\<rparr>"
  let ?rxq = "rx_configure env ?dev qi nb conf mp fake p0"
  note call = ixgbe_dev_rx_queue_setup_def [of env lenv dev qi nb conf mp fake p0 rid, unfolded rx_nb_tests]
  obtain f1 b1 where b1: "ixgbe_rx_queue_release ?rxq = Inr (f1, b1)"
    by (rule rx_release_zeroed [of ?rxq]) (simp_all add: rx_configure_def)
  show thesis
  proof (cases "zm_queue env \<and> dma_zone env \<noteq> None")
    case False
    then have "\<exists>blocks'. ixgbe_dev_rx_queue_setup env lenv dev qi nb conf mp fake p0 rid = Inr (- ENOMEM, freed, blocks', ?dev)"
      using assms(1,3) r b1 by (cases "zm_queue env"; cases "dma_zone env") (simp_all add: call Let_def)
    then show thesis using that(1) False by blast
  next
    case True
    then obtain iova descs where z: "zm_queue env" "dma_zone env = Some (iova, descs)" by auto
    define rxq where "rxq = rx_attach_ring ?dev qi iova descs ?rxq"
    define dev2 where "dev2 = (if check_rx_burst_bulk_alloc_preconditions rxq \<noteq> 0 then ?dev\<lparr>rx_bulk_alloc_allowed := False\<rparr> else ?dev)"
    have "length descs = 4128"
      using assms(4) z(2) by (simp add: zone_sized_def IXGBE_MAX_RING_DESC_def RTE_PMD_IXGBE_RX_MAX_BURST_def)
    then have q: "nb_rx_desc rxq = nb" "unat nb + 32 \<le> length (rx_ring rxq)" "mempools rxq = proc_mempools env"
      "mbufs rxq = proc_mbufs env" "rx_nb_avail rxq = 0" "rx_sw_ring rxq = []" "rx_sw_sc_ring rxq = []"
      using assms(3) by (simp_all add: rxq_def rx_attach_ring_def rx_configure_def rx_nb_valid_def)
    have "ixgbe_dev_rx_queue_setup env lenv dev qi nb conf mp fake p0 rid =
       bindc (rx_setup_rings env lenv dev2 qi nb rxq mp rid) (\<lambda>(ret, blocks', dev3). Inr (ret, freed, blocks @ blocks', dev3))"
      using assms(1,3) r z by (simp add: call Let_def rxq_def [symmetric] dev2_def [symmetric])
    then show thesis using that(2) [of dev2 rxq freed blocks] z q by (simp add: dev2_def)
  qed
qed

text \<open>Property C32: setting up a receive queue, for a queue index of the table whose slot is empty or has a well-formed
  queue, and for a mempool with one block of memory that does not wrap around. A number of descriptors that is not a
  multiple of 8 between 32 and 4096 returns -EINVAL and changes nothing. Otherwise an old queue is released, every
  other slot is as before, and: when the structure, the descriptors or a software ring cannot be had, the call returns
  -ENOMEM and the slot is empty; when the memory for the region pool cannot be had, it returns
  -ENOMEM and the slot still points to the freed queue; when only the memory for registering the
  mempool is missing, it returns zero all the same and leaves a queue whose pool knows no region; and when every allocator
  delivers, it returns zero and the slot has an empty well-formed ring of that size, with empty entries and room for
  the look-ahead, and with the mempool registered as the only region of its pool.\<close>

theorem rx_setup_outcome:
  assumes "unat qi < length (port_rx_queues dev)" "rx_releasable (port_rx_queues dev ! unat qi)"
    and "zone_sized (IXGBE_MAX_RING_DESC + RTE_PMD_IXGBE_RX_MAX_BURST) env"
    and "proc_mempools env mp = Some pool" "mempool_to_cap pool = Inr cap" "cap_no_wrap cap"
  shows "if \<not> rx_nb_valid nb
    then ixgbe_dev_rx_queue_setup env lenv dev qi nb conf mp fake p0 rid = Inr (- EINVAL, [], [], dev)
    else \<exists>ret freed blocks dev' s. ixgbe_dev_rx_queue_setup env lenv dev qi nb conf mp fake p0 rid = Inr (ret, freed, blocks, dev') \<and>
      port_rx_queues dev' = (port_rx_queues dev)[unat qi := s] \<and> rx_queue_state dev' = rx_queue_state dev \<and>
      (if \<not> (zm_queue env \<and> dma_zone env \<noteq> None \<and> zm_sw_ring env \<and> zm_sc_ring env) then ret = - ENOMEM \<and> s = Null
       else if \<not> (cq_calloc1 env \<and> cq_calloc2 env) then ret = - ENOMEM \<and> s = Dangling
       else ret = 0 \<and> (\<exists>q. s = Queue q \<and> nb_rx_desc q = nb \<and> mbufs q = proc_mbufs env \<and> rx_contents q = [] \<and>
         (if malloc_ret lenv = 0 then pool_map (cq_pool q) = Map.empty
          else rx_fresh (rx_bulk_alloc_allowed dev') q \<and> (\<exists>rid'. pool_map (cq_pool q) = [rid' \<mapsto> new_region rid' cap]))))"
proof (cases "rx_nb_valid nb")
  case True
  show ?thesis
  proof (rule rx_setup_first_half [OF assms(1,2) True assms(3), of lenv conf mp fake p0 rid])
    fix freed blocks dev2 rxq
    assume z: "zm_queue env" "dma_zone env \<noteq> None"
      and call: "ixgbe_dev_rx_queue_setup env lenv dev qi nb conf mp fake p0 rid =
        bindc (rx_setup_rings env lenv dev2 qi nb rxq mp rid) (\<lambda>(ret, blocks', dev3). Inr (ret, freed, blocks @ blocks', dev3))"
      and d: "port_rx_queues dev2 = (port_rx_queues dev)[unat qi := Null]" "rx_queue_state dev2 = rx_queue_state dev"
      and q: "nb_rx_desc rxq = nb" "unat nb + 32 \<le> length (rx_ring rxq)" "mempools rxq = proc_mempools env"
        "mbufs rxq = proc_mbufs env" "rx_nb_avail rxq = 0" "rx_sw_ring rxq = []" "rx_sw_sc_ring rxq = []"
    have qi: "unat qi < length (port_rx_queues dev2)" using assms(1) d(1) by simp
    have mp: "mempools rxq mp = Some pool" using q(3) assms(4) by simp
    consider (rings) "\<not> (zm_sw_ring env \<and> zm_sc_ring env)"
      | (pool) "zm_sw_ring env" "zm_sc_ring env" "\<not> (cq_calloc1 env \<and> cq_calloc2 env)"
      | (reg) "zm_sw_ring env" "zm_sc_ring env" "cq_calloc1 env" "cq_calloc2 env" "malloc_ret lenv = 0"
      | (ok) "zm_sw_ring env" "zm_sc_ring env" "cq_calloc1 env" "cq_calloc2 env" "malloc_ret lenv \<noteq> 0"
      by blast
    then show ?thesis
    proof cases
      case rings
      from rx_setup_rings_no_rings [OF True this q(1,5-7)] obtain b where
        "rx_setup_rings env lenv dev2 qi nb rxq mp rid = Inr (- ENOMEM, b, dev2)" .
      then show ?thesis using True call d rings by auto
    next
      case pool
      from rx_setup_rings_no_pool [OF True pool qi q(1,5)] obtain b dev' where
        "rx_setup_rings env lenv dev2 qi nb rxq mp rid = Inr (- ENOMEM, b, dev')"
        "port_rx_queues dev' = (port_rx_queues dev2)[unat qi := Dangling]" "rx_queue_state dev' = rx_queue_state dev2" .
      then show ?thesis using True call d pool z by auto
    next
      case reg
      from rx_setup_rings_unregistered [OF True reg qi q(1,2) mp assms(5)] obtain q' dev' where
        "rx_setup_rings env lenv dev2 qi nb rxq mp rid = Inr (0, [], dev')"
        "port_rx_queues dev' = (port_rx_queues dev2)[unat qi := Queue q']" "rx_contents q' = []" "nb_rx_desc q' = nb"
        "pool_map (cq_pool q') = Map.empty" "mbufs q' = mbufs rxq" "rx_queue_state dev' = rx_queue_state dev2" .
      then show ?thesis using True call d reg z q(4) by auto
    next
      case ok
      then have "rx_env_ok env lenv" using z assms(3) by (auto simp: rx_env_ok_def zone_sized_def)
      from rx_setup_rings_ok [OF this True qi q(1,2) mp assms(5,6), of rid] obtain q' dev' rid' where
        s: "rx_setup_rings env lenv dev2 qi nb rxq mp rid = Inr (0, [], dev')"
        "port_rx_queues dev' = (port_rx_queues dev2)[unat qi := Queue q']" "rx_fresh (rx_bulk_alloc_allowed dev') q'"
        "nb_rx_desc q' = nb" "pool_map (cq_pool q') = [rid' \<mapsto> new_region rid' cap]" "mbufs q' = mbufs rxq"
        "rx_queue_state dev' = rx_queue_state dev2"
        by metis
      have "rx_contents q' = []" using s(3) by (simp add: rx_fresh_def)
      then show ?thesis using True call d ok z q(4) s by auto
    qed
  qed (use True in auto)
next
  case False
  then show ?thesis unfolding ixgbe_dev_rx_queue_setup_def rx_nb_tests by simp
qed

definition demo_rx_env :: "ixgbe_adv_rx_desc setup_env" where
  "demo_rx_env = \<lparr>zm_queue = True,
     dma_zone = Some (0x90000, replicate (IXGBE_MAX_RING_DESC + RTE_PMD_IXGBE_RX_MAX_BURST) \<lparr>pkt_addr = 7, hdr_addr = 7\<rparr>),
     zm_sw_ring = True, zm_sc_ring = True, cq_calloc1 = True, cq_calloc2 = True, cq_rnd = 0,
     proc_mempools = [1 \<mapsto> demo_mempool], proc_mbufs = [0x10800 \<mapsto> demo_mbuf]\<rparr>"

definition demo_rxconf :: rte_eth_rxconf where
  "demo_rxconf = \<lparr>rxc_free_thresh = 32, rxc_drop_en = 0, rxc_deferred_start = 0, rxc_offloads = 0\<rparr>"

lemma demo_rx_setup_ok:
  "unat (0 :: u16) < length (port_rx_queues demo_port)" "rx_releasable (port_rx_queues demo_port ! unat (0 :: u16))"
  "rx_env_ok demo_rx_env demo_env" "proc_mempools demo_rx_env 1 = Some demo_mempool" "mempool_to_cap demo_mempool = Inr demo_cap"
  "cap_no_wrap demo_cap" "rx_nb_valid 1024"
  "zone_sized (IXGBE_MAX_RING_DESC + RTE_PMD_IXGBE_RX_MAX_BURST) demo_rx_env"
  by (simp_all add: zone_sized_def demo_port_def rx_releasable_def rx_env_ok_def demo_rx_env_def demo_env_def mempool_to_cap_def
      mempool_base_addr_def mempool_length_def demo_mempool_def demo_cap_def cap_no_wrap_def rx_nb_valid_def)

theorem rx_setup_outcome_witness:
  "(\<exists>freed blocks dev' q. ixgbe_dev_rx_queue_setup demo_rx_env demo_env demo_port 0 1024 demo_rxconf 1 0 demo_pool 0 =
       Inr (0, freed, blocks, dev') \<and> port_rx_queues dev' = [Queue q] \<and>
     rx_fresh (rx_bulk_alloc_allowed dev') q \<and> nb_rx_desc q = 1024) \<and>
   (\<exists>freed blocks dev' q. ixgbe_dev_rx_queue_setup demo_rx_env (demo_env\<lparr>malloc_ret := 0\<rparr>) demo_port 0 1024 demo_rxconf 1 0 demo_pool 0 =
       Inr (0, freed, blocks, dev') \<and> port_rx_queues dev' = [Queue q] \<and> pool_map (cq_pool q) = Map.empty)"
proof
  note r = rx_setup_outcome [OF demo_rx_setup_ok(1,2,8,4-6), of 1024 _ demo_rxconf 0 demo_pool 0]
  have e: "zm_queue demo_rx_env \<and> dma_zone demo_rx_env \<noteq> None \<and> zm_sw_ring demo_rx_env \<and> zm_sc_ring demo_rx_env"
    "cq_calloc1 demo_rx_env \<and> cq_calloc2 demo_rx_env" "malloc_ret demo_env \<noteq> 0" "malloc_ret (demo_env\<lparr>malloc_ret := 0\<rparr>) = 0"
    "(port_rx_queues demo_port)[unat (0 :: u16) := s] = [s]" for s
    by (simp_all add: demo_rx_env_def demo_env_def demo_port_def)
  show "\<exists>freed blocks dev' q. ixgbe_dev_rx_queue_setup demo_rx_env demo_env demo_port 0 1024 demo_rxconf 1 0 demo_pool 0 =
       Inr (0, freed, blocks, dev') \<and> port_rx_queues dev' = [Queue q] \<and>
     rx_fresh (rx_bulk_alloc_allowed dev') q \<and> nb_rx_desc q = 1024"
    using r [of demo_env] demo_rx_setup_ok(7) e by auto
  show "\<exists>freed blocks dev' q. ixgbe_dev_rx_queue_setup demo_rx_env (demo_env\<lparr>malloc_ret := 0\<rparr>) demo_port 0 1024 demo_rxconf 1 0 demo_pool 0 =
       Inr (0, freed, blocks, dev') \<and> port_rx_queues dev' = [Queue q] \<and> pool_map (cq_pool q) = Map.empty"
    using r [of "demo_env\<lparr>malloc_ret := 0\<rparr>"] demo_rx_setup_ok(7) e by auto
qed

text \<open>When the pool of the new queue cannot be created, the queue is freed although the port already points to
  it: the call fails and the next set-up or release of this queue uses freed memory.\<close>

theorem rx_setup_leaves_dangling_queue:
  assumes "unat qi < length (port_rx_queues dev)" "port_rx_queues dev ! unat qi = Null" "rx_nb_valid nb"
    and "zm_queue env" "zm_sw_ring env" "zm_sc_ring env" "dma_zone env = Some (iova, descs)" "\<not> cq_calloc1 env"
  shows "\<exists>blocks dev'. ixgbe_dev_rx_queue_setup env lenv dev qi nb conf mp fake p0 rid = Inr (- ENOMEM, [], blocks, dev') \<and>
    port_rx_queues dev' ! unat qi = Dangling \<and>
    ixgbe_dev_rx_queue_setup env' lenv dev' qi nb conf mp fake p0 rid = Inl Bad_Memory"
proof -
  let ?dev = "dev\<lparr>port_rx_queues := (port_rx_queues dev)[unat qi := Null]\<rparr>"
  define rxq where "rxq = rx_attach_ring ?dev qi iova descs (rx_configure env ?dev qi nb conf mp fake p0)"
  define dev2 where "dev2 = (if check_rx_burst_bulk_alloc_preconditions rxq \<noteq> 0 then ?dev\<lparr>rx_bulk_alloc_allowed := False\<rparr> else ?dev)"
  define len where "len = unat (if rx_bulk_alloc_allowed dev2 then nb + of_nat RTE_PMD_IXGBE_RX_MAX_BURST else nb)"
  have len: "unat nb \<le> len" using rx_extra [OF assms(3)] by (simp add: len_def)
  define q2 where "q2 = rxq\<lparr>rx_sw_ring := replicate len 0, rx_sw_sc_ring := replicate len 0\<rparr>"
  have nb: "nb_rx_desc q2 = nb" "rx_nb_avail q2 = 0" "rx_recl q2 = 0" "rx_tail q2 = 0"
    "rx_sw_ring q2 = replicate len 0" "rx_sw_sc_ring q2 = replicate len 0"
    by (simp_all add: q2_def rxq_def rx_attach_ring_def rx_configure_def)
  have i: "rx_idle q2" using len unfolding rx_idle_def rx_contents_def nb by (auto simp: in_flight_def min_absorb1 ring_idle_empty)
  have "unat (nb_rx_desc q2) \<le> length (rx_sw_ring q2)" "0 < unat (nb_rx_desc q2)"
    using len assms(3) by (simp_all add: nb rx_nb_valid_def)
  then obtain q' freed where "ixgbe_rx_queue_release_mbufs q2 = Inr (freed, q')"
    using rx_release_mbufs_eq [OF _ i] by metis
  then obtain blocks where b: "ixgbe_rx_queue_release q2 = Inr (freed, blocks)" by (simp add: ixgbe_rx_queue_release_def)
  define dev1 where "dev1 = (if \<not> rte_is_power_of_2 (ucast nb) then dev2\<lparr>rx_vec_allowed := False\<rparr> else dev2)"
  have d: "port_rx_queues dev1 = (port_rx_queues dev)[unat qi := Null]" by (simp add: dev1_def dev2_def)
  have c: "ixgbe_rx_cleanq_create (cq_calloc1 env) (cq_calloc2 env) (cq_rnd env) q2 = (CLEANQ_ERR_MALLOC_FAIL, q2)"
    using assms(8) by (simp add: ixgbe_rx_cleanq_create_def cleanq_init_def region_pool_init_def)
  have "rx_setup_rings env lenv dev2 qi nb rxq mp rid =
      Inr (- ENOMEM, blocks, dev1\<lparr>port_rx_queues := (port_rx_queues dev1)[unat qi := Dangling]\<rparr>)"
    using assms(1,5,6) c b d
    by (simp add: rx_setup_rings_def Let_def len_def [symmetric] q2_def [symmetric] dev1_def [symmetric] err_is_fail_def)
  moreover have g: "\<not> (unat nb mod IXGBE_RXD_ALIGN \<noteq> 0 \<or> IXGBE_MAX_RING_DESC < unat nb \<or> unat nb < IXGBE_MIN_RING_DESC)"
    using assms(3) by (auto simp: rx_nb_valid_def IXGBE_RXD_ALIGN_def IXGBE_MAX_RING_DESC_def IXGBE_MIN_RING_DESC_def dvd_eq_mod_eq_0)
  ultimately show ?thesis
    using assms(1,2,4,7) d
    by (simp add: ixgbe_dev_rx_queue_setup_def ixgbe_dev_rx_queue_release_def Let_def rxq_def [symmetric] dev2_def [symmetric])
qed

section \<open>Stopping a receive queue\<close>

lemma rx_enqueue_sw_ring:
  assumes "ixgbe_rx_cleanq_enqueue q b = Inr (CLEANQ_ERR_OK, q')"
  shows "rx_sw_ring q' = (rx_sw_ring q)[unat (rx_tail q) := buf_addr (cq_pool q) b]"
    "rx_recl q' = rx_recl q" "nb_rx_desc q' = nb_rx_desc q" "rx_nb_avail q' = rx_nb_avail q"
    "rx_sw_sc_ring q' = rx_sw_sc_ring q" "length (rx_ring q') = length (rx_ring q)" "mbufs q 0 = None \<Longrightarrow> mbufs q' 0 = None"
  using assms cleanq_buf_to_mbuf_addr [of q b]
  by (auto simp: ixgbe_rx_cleanq_enqueue_def bindc_eq_Inr Let_def arr_set_def deref_def split: if_splits option.splits)

lemma rx_dequeue_sw_ring:
  assumes "ixgbe_rx_cleanq_dequeue q b = Inr (CLEANQ_ERR_OK, b', q')"
  shows "rx_sw_ring q' = (rx_sw_ring q)[unat (rx_recl q) := 0]"
    "rx_recl q' = ring_next (nb_rx_desc q) (rx_recl q)" "nb_rx_desc q' = nb_rx_desc q" "rx_nb_avail q' = rx_nb_avail q"
    "rx_sw_sc_ring q' = rx_sw_sc_ring q" "rx_ring q' = rx_ring q" "mbufs q 0 = None \<Longrightarrow> mbufs q' 0 = None"
  using assms
  by (auto simp: ixgbe_rx_cleanq_dequeue_def bindc_eq_Inr Let_def arr_set_def deref_def split: if_splits option.splits)

definition rx_kept :: "ixgbe_rx_queue \<Rightarrow> ixgbe_rx_queue \<Rightarrow> bool" where
  "rx_kept q0 q \<longleftrightarrow> rx_idle q \<and> mbufs q 0 = None \<and> nb_rx_desc q = nb_rx_desc q0 \<and>
     length (rx_ring q) = length (rx_ring q0) \<and> length (rx_sw_ring q) = length (rx_sw_ring q0)"

lemma rx_kept_enqueue:
  assumes kept: "rx_kept q0 q" and inv: "rx_inv q" "rx_inv q'"
    and c: "rx_contents q' = rx_contents q @ [buf_addr (cq_pool q) b]"
    and e: "ixgbe_rx_cleanq_enqueue q b = Inr (CLEANQ_ERR_OK, q')"
  shows "rx_kept q0 q'"
proof -
  have i: "rx_idle q" using kept by (simp add: rx_kept_def)
  note d = rx_invD [OF inv(1)] and s = rx_enqueue_sw_ring [OF e]
  let ?sw = "take (unat (nb_rx_desc q)) (rx_sw_ring q)"
  have len: "length ?sw = unat (nb_rx_desc q)" using d(3) by simp
  have "length (rx_contents q') < unat (nb_rx_desc q)"
    using in_flight_less [OF rx_invD(1) [OF inv(2)]] s(3) by (simp add: rx_contents_def)
  then have n: "length (rx_contents q) < length ?sw" using c len by simp
  have "(unat (rx_recl q) + length (rx_contents q)) mod length ?sw = unat (rx_tail q)"
    using in_flight_tail [OF d(1)] len by (simp add: rx_contents_def)
  then have "ring_idle (take (unat (nb_rx_desc q')) (rx_sw_ring q')) (unat (rx_recl q')) (rx_contents q')"
    using ring_idle_push [OF rx_idleD(1) [OF i] n, of "buf_addr (cq_pool q) b"]
    by (simp add: s(1-3) c take_update_swap)
  then have "rx_idle q'" unfolding rx_idle_def using rx_idleD(2-4) [OF i] s by simp
  then show ?thesis using kept s by (simp add: rx_kept_def)
qed

lemma rx_kept_dequeue:
  assumes kept: "rx_kept q0 q" and inv: "rx_inv q" and c: "rx_contents q = a # rx_contents q'"
    and e: "ixgbe_rx_cleanq_dequeue q b = Inr (CLEANQ_ERR_OK, b', q')"
  shows "rx_kept q0 q'"
proof -
  have i: "rx_idle q" using kept by (simp add: rx_kept_def)
  note d = rx_invD [OF inv] and s = rx_dequeue_sw_ring [OF e]
  have "unat (rx_recl q') = (unat (rx_recl q) + 1) mod unat (nb_rx_desc q)"
    using s(2) ring_next_unat [of "nb_rx_desc q" "rx_recl q"] ring_okD [OF d(1)] by simp
  then have "ring_idle (take (unat (nb_rx_desc q')) (rx_sw_ring q')) (unat (rx_recl q')) (rx_contents q')"
    using ring_idle_pop [OF rx_idleD(1) [OF i, unfolded c]] d(3,5)
    by (simp add: s(1,3) take_update_swap min_absorb2)
  then have "rx_idle q'" unfolding rx_idle_def using rx_idleD(2-4) [OF i] s by simp
  then show ?thesis using kept s by (simp add: rx_kept_def)
qed

lemma rx_run_kept:
  assumes "rx_run q0 q ins outs" "rx_inv q0" "rx_idle q0" "mbufs q0 0 = None"
  shows "rx_kept q0 q"
  using assms
proof (induction rule: rx_run.induct)
  case (enqueue q ins outs b err q')
  then have inv: "rx_inv q" and kept: "rx_kept q0 q" using rx_run_fifo by blast+
  show ?case
  proof (rule rx.enqueue_spec [OF inv, of b])
    fix q1 assume q1: "cleanq_enqueue ixgbe_rx_f q b = Inr (CLEANQ_ERR_OK, q1)" "rx_inv q1"
      "rx_contents q1 = rx_contents q @ [buf_addr (cq_pool q) b]"
    have "ixgbe_rx_cleanq_enqueue q b = Inr (CLEANQ_ERR_OK, q1)"
      by (rule cleanq_enqueue_OK [OF q1(1)]) (simp add: ixgbe_rx_f_def)
    then show "rx_kept q0 q'" using rx_kept_enqueue [OF kept inv q1(2,3)] enqueue.hyps(3) q1(1) by simp
  qed (use enqueue.hyps kept in auto)
next
  case (dequeue q ins outs b err b' q')
  then have inv: "rx_inv q" and kept: "rx_kept q0 q" using rx_run_fifo by blast+
  show ?case
  proof (rule rx.dequeue_spec [OF inv, of b])
    fix b1 q1 assume q1: "cleanq_dequeue ixgbe_rx_f q b = Inr (CLEANQ_ERR_OK, b1, q1)"
      "rx_contents q = buf_addr (cq_pool q) b1 # rx_contents q1"
    have "ixgbe_rx_cleanq_dequeue q b = Inr (CLEANQ_ERR_OK, b1, q1)"
      by (rule cleanq_dequeue_OK [OF q1(1)]) (simp add: ixgbe_rx_f_def)
    then show "rx_kept q0 q'" using rx_kept_dequeue [OF kept inv q1(2)] dequeue.hyps(2) q1(1) by simp
  qed (use dequeue.hyps kept in auto)
next
  case (card q ins outs i d)
  then have "rx_kept q0 q" by blast
  moreover have "rx_idle (rx_hw_write q i d) = rx_idle q" by (simp add: rx_idle_def rx_contents_def rx_hw_write_def)
  ultimately show ?case by (simp add: rx_kept_def) (simp add: rx_hw_write_def)
qed (simp add: rx_kept_def)

text \<open>Property C27: stopping a receive queue frees every mbuf in it exactly once and loses none. From a queue that
  has just been set up, after any run of enqueues, dequeues and steps of the card, stopping the queue
  returns; the mbufs it frees together with those taken back before are exactly the mbufs supplied, counted
  with multiplicity; the queue is again as the set-up leaves it.\<close>

theorem rx_stop_frees_each_once:
  assumes "rx_fresh (rx_bulk_alloc_allowed dev) q0" "mbufs q0 0 = None"
    and "rx_run q0 q ins outs" "port_rx_queues dev ! unat qid = Queue q" "unat qid < length (port_rx_queues dev)"
    and "unat qid < length (rx_queue_state dev)"
  shows "\<exists>freed writes no dev' q'. ixgbe_dev_rx_queue_stop rxdctl dev qid = Inr (freed, writes, no, dev') \<and>
    mset freed + mset outs = mset ins \<and> port_rx_queues dev' ! unat qid = Queue q' \<and>
    rx_fresh (rx_bulk_alloc_allowed dev') q' \<and> rx_queue_state dev' ! unat qid = Stopped"
proof -
  have fresh: "rx_inv q0" "rx_contents q0 = []" "rx_idle q0" "rx_nb_valid (nb_rx_desc q0)"
    "unat (nb_rx_desc q0) + 32 \<le> length (rx_ring q0)"
    "length (rx_sw_ring q0) = (if rx_bulk_alloc_allowed dev then unat (nb_rx_desc q0) + 32 else unat (nb_rx_desc q0))"
    using assms(1) by (simp_all add: rx_fresh_def)
  have inv: "rx_inv q" "ins = outs @ rx_contents q" using rx_run_fifo [OF assms(3) fresh(1)] fresh(2) by auto
  have kept: "rx_idle q" "mbufs q 0 = None" "nb_rx_desc q = nb_rx_desc q0" "length (rx_ring q) = length (rx_ring q0)"
    "length (rx_sw_ring q) = length (rx_sw_ring q0)"
    using rx_run_kept [OF assms(3) fresh(1,3) assms(2)] by (simp_all add: rx_kept_def)
  note d = rx_invD [OF inv(1)]
  have "0 \<notin> set (rx_contents q)"
  proof
    assume "0 \<in> set (rx_contents q)"
    then have "rx_mbuf_ok q 0" using inv(1) by (simp add: rx_inv_def)
    then show False using kept(2) by (auto simp: rx_mbuf_ok_def mbuf_of_region_def)
  qed
  then have m: "mset (filter (\<lambda>m. m \<noteq> 0) (take (unat (nb_rx_desc q)) (rx_sw_ring q))) = mset (rx_contents q)"
    using ring_idle_mset [OF rx_idleD(1) [OF kept(1)]] by blast
  have "0 < unat (nb_rx_desc q)" using d(4) by linarith
  with d(3) kept(1) obtain q1 where r: "ixgbe_rx_queue_release_mbufs q =
      Inr (filter (\<lambda>m. m \<noteq> 0) (take (unat (nb_rx_desc q)) (rx_sw_ring q)), q1)"
    "take (unat (nb_rx_desc q)) (rx_sw_ring q1) = replicate (unat (nb_rx_desc q)) 0"
    "length (rx_sw_ring q1) = length (rx_sw_ring q)" "length (rx_sw_sc_ring q1) = length (rx_sw_sc_ring q)"
    "set (rx_sw_sc_ring q1) \<subseteq> {0}" "nb_rx_desc q1 = nb_rx_desc q" "cq_pool q1 = cq_pool q" "rx_ring q1 = rx_ring q"
    by (rule rx_release_mbufs_eq)
  obtain q2 where q2: "ixgbe_reset_rx_queue (rx_bulk_alloc_allowed dev) q1 = Inr q2" "rx_fresh (rx_bulk_alloc_allowed dev) q2"
    by (rule reset_rx_inv [of q1 "rx_bulk_alloc_allowed dev"])
      (use fresh(4-6) kept d(6,7) r in \<open>auto simp: rx_idle_def\<close>)
  then show ?thesis using r(1) m assms(4-6) inv(2) by (simp add: ixgbe_dev_rx_queue_stop_def queue_at_def Let_def)
qed

lemma demo_rx_queue:
  obtains q and dev :: ixgbe_port and rid where "rx_fresh (rx_bulk_alloc_allowed dev) q" "port_rx_queues dev = [Queue q]" "rx_queue_state dev = [Stopped]"
    "pool_map (cq_pool q) = [rid \<mapsto> new_region rid demo_cap]" "mbufs q = [0x10800 \<mapsto> demo_mbuf]" "mempools q = [1 \<mapsto> demo_mempool]"
proof -
  define rxq where "rxq = rx_attach_ring demo_port 0 0x90000 (replicate 4128 \<lparr>pkt_addr = 7, hdr_addr = 7\<rparr>)
    (rx_configure demo_rx_env demo_port 0 1024 demo_rxconf 1 0 demo_pool)"
  have q: "nb_rx_desc rxq = 1024" "unat (1024 :: u16) + 32 \<le> length (rx_ring rxq)" "mempools rxq 1 = Some demo_mempool"
    "mbufs rxq = [0x10800 \<mapsto> demo_mbuf]" "mempools rxq = [1 \<mapsto> demo_mempool]"
    by (simp_all add: rxq_def rx_attach_ring_def rx_configure_def demo_rx_env_def)
  have p: "port_rx_queues demo_port = [Null]" "rx_queue_state demo_port = [Stopped]" by (simp_all add: demo_port_def)
  show thesis
    by (rule rx_setup_rings_ok [OF demo_rx_setup_ok(3,7,1) q(1-3) demo_rx_setup_ok(5,6), of 0])
      (use that q(4,5) p in auto)
qed

theorem rx_stop_frees_each_once_witness:
  "\<exists>q0 q dev freed writes no dev'. rx_contents q0 = [] \<and> rx_run q0 q [0x10800] [] \<and> port_rx_queues dev = [Queue q] \<and>
     ixgbe_dev_rx_queue_stop (\<lambda>_. 0) dev 0 = Inr (freed, writes, no, dev') \<and> freed = [0x10800]"
proof -
  obtain q and dev :: ixgbe_port and rid where q: "rx_fresh (rx_bulk_alloc_allowed dev) q" "port_rx_queues dev = [Queue q]" "rx_queue_state dev = [Stopped]"
    "pool_map (cq_pool q) = [rid \<mapsto> new_region rid demo_cap]" "mbufs q = [0x10800 \<mapsto> demo_mbuf]" "mempools q = [1 \<mapsto> demo_mempool]"
    by (rule demo_rx_queue)
  have f: "rx_inv q" "rx_contents q = []" "rx_nb_valid (nb_rx_desc q)" using q(1) by (simp_all add: rx_fresh_def)
  have good: "mbuf_good q 0x10800" unfolding mbuf_good_def
    by (rule exI [of _ demo_mbuf], rule exI [of _ "new_region rid demo_cap"])
      (use q(4-6) in \<open>simp add: mbuf_of_region_def demo_mbuf_def demo_mempool_def new_region_def demo_cap_def\<close>)
  have "length (rx_contents q) + 1 < unat (nb_rx_desc q)" using f(2,3) by (simp add: rx_nb_valid_def)
  then obtain b q' where e: "mbuf_to_cleanq_buf q 0x10800 = Inr b" "cleanq_enqueue ixgbe_rx_f q b = Inr (CLEANQ_ERR_OK, q')"
    "rx_contents q' = rx_contents q @ [0x10800]"
    using rx_enqueue_room [OF f(1) good] by metis
  obtain m r where b: "mbuf_to_cleanq_buf q 0x10800 = Inr (mbuf_buf 0x10800 m r)"
    "buf_addr (cq_pool q) (mbuf_buf 0x10800 m r) = 0x10800" "cleanq_buf_to_mbuf q (mbuf_buf 0x10800 m r) = Inr 0x10800"
    using mbuf_goodE [OF rx_invD(6,7) [OF f(1)] good] by metis
  have "in_flight (nb_rx_desc q) (rx_recl q) (rx_tail q) + 1 < unat (nb_rx_desc q)"
    using \<open>length (rx_contents q) + 1 < unat (nb_rx_desc q)\<close> by (simp add: rx_contents_def)
  then have "rx_pre q b" using in_flight_full [OF rx_invD(1) [OF f(1)]] b e(1) good by (auto simp: rx_pre_def)
  then have run: "rx_run q q' [0x10800] []" using rx_run.enqueue [OF rx_run.start _ e(2)] b(1,2) e(1) by simp
  let ?dev = "dev\<lparr>port_rx_queues := [Queue q']\<rparr>"
  have "rx_fresh (rx_bulk_alloc_allowed ?dev) q" "mbufs q 0 = None" "port_rx_queues ?dev ! unat (0 :: u16) = Queue q'"
    "unat (0 :: u16) < length (port_rx_queues ?dev)" "unat (0 :: u16) < length (rx_queue_state ?dev)"
    using q by simp_all
  from rx_stop_frees_each_once [OF this(1,2) run this(3-5), of "\<lambda>_. 0"]
  obtain freed writes no dev' where s: "ixgbe_dev_rx_queue_stop (\<lambda>_. 0) ?dev 0 = Inr (freed, writes, no, dev')"
    "mset freed = {#0x10800#}" by auto
  then have "freed = [0x10800]" by (cases freed) auto
  moreover have "port_rx_queues ?dev = [Queue q']" by simp
  ultimately show ?thesis using f(2) run s(1) by blast
qed

end
