(* ===== verification/Ixgbe_Simple_Tx.thy ===== *)
theory Ixgbe_Simple_Tx
  imports Ixgbe_Setup
begin

text \<open>
  The simple transmit function of the unmodified driver, \<open>ixgbe_xmit_pkts_simple\<close> of
  \<open>drivers/net/ixgbe/ixgbe_rxtx.c\<close>, with \<open>rte_pktmbuf_prefree_seg\<close> of \<open>lib/librte_mbuf/rte_mbuf.h\<close>. It is
  what CleanQ is compared with, and what a port without offloads ends up with (\<open>Ixgbe_Setup\<close>). It works on the same
  queue structure: it fills descriptors four at a time, asks for a status report at every \<open>tx_rs_thresh\<close>-th
  descriptor and gives mbufs back to their pools in batches of one pool each.

  The mempool belongs to \<open>librte_mempool\<close>: the calls of \<open>rte_mempool_put_bulk\<close> are a list of pools and mbufs
  in the result. Detaching an indirect mbuf is a parameter.

  Contents: the operations; a reference that puts one mbuf at a time; that the unrolled filling does what the
  reference does and that the CleanQ function leaves the same descriptors; that no mbuf is lost; in which
  configuration the function frees mbufs it has not sent.
\<close>

section \<open>Giving mbufs back\<close>

definition EXT_ATTACHED_MBUF :: u64 where "EXT_ATTACHED_MBUF = push_bit 61 1"
definition IND_ATTACHED_MBUF :: u64 where "IND_ATTACHED_MBUF = push_bit 62 1"

definition RTE_MBUF_DIRECT :: "rte_mbuf \<Rightarrow> bool" where
  "RTE_MBUF_DIRECT m \<longleftrightarrow> ol_flags m AND (IND_ATTACHED_MBUF OR EXT_ATTACHED_MBUF) = 0"

type_synonym mbuf_mem = "u64 \<rightharpoonup> rte_mbuf"

text \<open>The mbuf that may go back to its pool, or NULL while there are other references.\<close>

definition rte_pktmbuf_prefree_seg ::
  "(mbuf_mem \<Rightarrow> u64 \<Rightarrow> mbuf_mem cres) \<Rightarrow> mbuf_mem \<Rightarrow> u64 \<Rightarrow> (u64 option \<times> mbuf_mem) cres" where
  "rte_pktmbuf_prefree_seg detach mem a =
     bindc (deref mem a) (\<lambda>m.
     let m1 = (if refcnt m = 1 then m else m\<lparr>refcnt := refcnt m - 1\<rparr>) in
     if refcnt m = 1 \<or> refcnt m1 = 0
     then bindc (if \<not> RTE_MBUF_DIRECT m then detach (mem(a \<mapsto> m1)) a else Inr (mem(a \<mapsto> m1))) (\<lambda>mem1.
          bindc (deref mem1 a) (\<lambda>m2.
          let m3 = (if mb_next m2 \<noteq> 0 then m2\<lparr>mb_next := 0, nb_segs := 1\<rparr> else m2);
              m4 = (if refcnt m = 1 then m3 else m3\<lparr>refcnt := 1\<rparr>) in
          Inr (Some a, mem1(a \<mapsto> m4))))
     else Inr (None, mem(a \<mapsto> m1)))"

text \<open>The loop over the entries of one status block: \<open>free\<close> is the local array, \<open>puts\<close> the calls of
  \<open>rte_mempool_put_bulk\<close> so far.\<close>

definition put_bulk :: "mbuf_mem \<Rightarrow> u64 list \<Rightarrow> (addr \<times> u64 list) cres" where
  "put_bulk mem free = (case free of [] \<Rightarrow> Inl Bad_Memory | a # _ \<Rightarrow> bindc (deref mem a) (\<lambda>m. Inr (mb_pool m, free)))"

fun tx_free_loop ::
  "(mbuf_mem \<Rightarrow> u64 \<Rightarrow> mbuf_mem cres) \<Rightarrow> mbuf_mem \<Rightarrow> u64 list \<Rightarrow> u64 list \<Rightarrow> (addr \<times> u64 list) list \<Rightarrow>
   ((addr \<times> u64 list) list \<times> mbuf_mem) cres" where
  "tx_free_loop detach mem [] free puts =
     (if free \<noteq> [] then bindc (put_bulk mem free) (\<lambda>p. Inr (puts @ [p], mem)) else Inr (puts, mem))"
| "tx_free_loop detach mem (a # as) free puts =
     bindc (rte_pktmbuf_prefree_seg detach mem a) (\<lambda>(r, mem1).
     case r of
       None \<Rightarrow> tx_free_loop detach mem1 as free puts
     | Some m \<Rightarrow>
         bindc (if free = [] then Inr False
                else bindc (deref mem1 m) (\<lambda>x. bindc (deref mem1 (hd free)) (\<lambda>y. Inr (mb_pool x \<noteq> mb_pool y)))) (\<lambda>other.
         if RTE_IXGBE_TX_MAX_FREE_BUF_SZ \<le> length free \<or> other
         then bindc (put_bulk mem1 free) (\<lambda>p. tx_free_loop detach mem1 as [m] (puts @ [p]))
         else tx_free_loop detach mem1 as (free @ [m]) puts))"

text \<open>The number of descriptors freed, the calls of \<open>rte_mempool_put_bulk\<close> and the queue.\<close>

definition ixgbe_tx_free_bufs ::
  "(mbuf_mem \<Rightarrow> u64 \<Rightarrow> mbuf_mem cres) \<Rightarrow> ixgbe_tx_queue \<Rightarrow> (u16 \<times> (addr \<times> u64 list) list \<times> ixgbe_tx_queue) cres" where
  "ixgbe_tx_free_bufs detach txq =
     bindc (arr_get (tx_ring txq) (unat (tx_next_dd txq))) (\<lambda>d.
     if wb_status d AND IXGBE_ADVTXD_STAT_DD = 0 then Inr (0, [], txq)
     else let n = unat (tx_rs_thresh txq); first = unat (tx_next_dd txq) + 1 - n; sw = tx_sw_ring txq in
       if unat (tx_next_dd txq) + 1 < n \<or> length sw < first + n then Inl Bad_Memory
       else bindc (tx_free_loop detach (mbufs txq) (map te_mbuf (take n (drop first sw))) [] []) (\<lambda>(puts, mem).
            let next_dd = tx_next_dd txq + tx_rs_thresh txq in
            Inr (tx_rs_thresh txq, puts,
              txq\<lparr>mbufs := mem,
                  tx_sw_ring := take first sw @ map (\<lambda>e. e\<lparr>te_mbuf := 0\<rparr>) (take n (drop first sw)) @ drop (first + n) sw,
                  nb_tx_free := nb_tx_free txq + tx_rs_thresh txq,
                  tx_next_dd := (if next_dd \<ge> nb_tx_desc txq then tx_rs_thresh txq - 1 else next_dd)\<rparr>)))"

section \<open>Filling descriptors\<close>

text \<open>\<open>i\<close> is the index of the descriptor \<open>txdp\<close> points to.\<close>

definition tx1 :: "ixgbe_tx_queue \<Rightarrow> nat \<Rightarrow> u64 \<Rightarrow> ixgbe_tx_queue cres" where
  "tx1 txq i a =
     bindc (deref (mbufs txq) a) (\<lambda>m.
     bindc (arr_set (tx_ring txq) i (tx_descriptor m)) (\<lambda>ring. Inr (txq\<lparr>tx_ring := ring\<rparr>)))"

fun tx_each :: "ixgbe_tx_queue \<Rightarrow> nat \<Rightarrow> u64 list \<Rightarrow> ixgbe_tx_queue cres" where
  "tx_each txq i [] = Inr txq"
| "tx_each txq i (a # as) = bindc (tx1 txq i a) (\<lambda>txq'. tx_each txq' (Suc i) as)"

definition tx4 :: "ixgbe_tx_queue \<Rightarrow> nat \<Rightarrow> u64 list \<Rightarrow> ixgbe_tx_queue cres" where
  "tx4 txq i pkts = (if length pkts < 4 then Inl Bad_Memory else tx_each txq i (take 4 pkts))"

definition tx_entry :: "ixgbe_tx_queue \<Rightarrow> nat \<Rightarrow> u64 \<Rightarrow> ixgbe_tx_queue cres" where
  "tx_entry txq i a =
     bindc (arr_get (tx_sw_ring txq) i) (\<lambda>e.
     bindc (arr_set (tx_sw_ring txq) i (e\<lparr>te_mbuf := a\<rparr>)) (\<lambda>sw. Inr (txq\<lparr>tx_sw_ring := sw\<rparr>)))"

fun tx_entries :: "ixgbe_tx_queue \<Rightarrow> nat \<Rightarrow> u64 list \<Rightarrow> ixgbe_tx_queue cres" where
  "tx_entries txq i [] = Inr txq"
| "tx_entries txq i (a # as) = bindc (tx_entry txq i a) (\<lambda>txq'. tx_entries txq' (Suc i) as)"

text \<open>\<open>k\<close> rounds of four packets.\<close>

fun fill_main :: "ixgbe_tx_queue \<Rightarrow> nat \<Rightarrow> u64 list \<Rightarrow> nat \<Rightarrow> ixgbe_tx_queue cres" where
  "fill_main txq i pkts 0 = Inr txq"
| "fill_main txq i pkts (Suc k) =
     (if length pkts < 4 then Inl Bad_Memory
      else bindc (tx_entries txq i (take 4 pkts)) (\<lambda>txq1.
           bindc (tx4 txq1 i pkts) (\<lambda>txq2. fill_main txq2 (i + 4) (drop 4 pkts) k)))"

fun fill_rest :: "ixgbe_tx_queue \<Rightarrow> nat \<Rightarrow> u64 list \<Rightarrow> nat \<Rightarrow> ixgbe_tx_queue cres" where
  "fill_rest txq i pkts 0 = Inr txq"
| "fill_rest txq i pkts (Suc k) =
     (case pkts of
        [] \<Rightarrow> Inl Bad_Memory
      | a # as \<Rightarrow> bindc (tx_entry txq i a) (\<lambda>txq1. bindc (tx1 txq1 i a) (\<lambda>txq2. fill_rest txq2 (Suc i) as k)))"

definition ixgbe_tx_fill_hw_ring :: "ixgbe_tx_queue \<Rightarrow> u64 list \<Rightarrow> u16 \<Rightarrow> ixgbe_tx_queue cres" where
  "ixgbe_tx_fill_hw_ring txq pkts nb_pkts =
     (let mainpart = unat (ucast nb_pkts AND (NOT 3 :: u32));
          leftover = unat (ucast nb_pkts AND (3 :: u32));
          i = unat (tx_tail txq) in
      bindc (fill_main txq i pkts (mainpart div 4)) (\<lambda>txq1.
      if 0 < leftover then fill_rest txq1 (i + mainpart) (drop mainpart pkts) leftover else Inr txq1))"

text \<open>Asking for a status report at descriptor \<open>i\<close>.\<close>

definition tx_set_rs :: "ixgbe_tx_queue \<Rightarrow> u16 \<Rightarrow> ixgbe_tx_queue cres" where
  "tx_set_rs txq i =
     bindc (arr_get (tx_ring txq) (unat i)) (\<lambda>d.
     bindc (arr_set (tx_ring txq) (unat i) (d\<lparr>cmd_type_len := cmd_type_len d OR IXGBE_ADVTXD_DCMD_RS\<rparr>)) (\<lambda>ring.
     Inr (txq\<lparr>tx_ring := ring\<rparr>)))"

text \<open>Filling without wrapping round, from \<open>Fill H/W descriptor ring with mbuf data\<close> on.\<close>

definition tx_send_bottom :: "ixgbe_tx_queue \<Rightarrow> u64 list \<Rightarrow> u16 \<Rightarrow> ixgbe_tx_queue cres" where
  "tx_send_bottom txq pkts nb_pkts =
     bindc (ixgbe_tx_fill_hw_ring txq pkts nb_pkts) (\<lambda>txq1.
     let txq2 = txq1\<lparr>tx_tail := tx_tail txq1 + nb_pkts\<rparr> in
     bindc (if tx_next_rs txq2 < tx_tail txq2
            then bindc (tx_set_rs txq2 (tx_next_rs txq2)) (\<lambda>txq3.
                 let next_rs = tx_next_rs txq3 + tx_rs_thresh txq3 in
                 Inr (txq3\<lparr>tx_next_rs := (if next_rs \<ge> nb_tx_desc txq3 then tx_rs_thresh txq3 - 1 else next_rs)\<rparr>))
            else Inr txq2) (\<lambda>txq4.
     let tail = (if tx_tail txq4 \<ge> nb_tx_desc txq4 then 0 else tx_tail txq4) in
     Inr (txq4\<lparr>tx_tail := tail, tdt_reg := ucast tail\<rparr>)))"

text \<open>The top of the ring, up to its last descriptor: \<open>n\<close> packets.\<close>

definition tx_send_top :: "ixgbe_tx_queue \<Rightarrow> u64 list \<Rightarrow> u16 \<Rightarrow> ixgbe_tx_queue cres" where
  "tx_send_top txq pkts n =
     bindc (ixgbe_tx_fill_hw_ring txq pkts n) (\<lambda>txq1.
     bindc (tx_set_rs txq1 (tx_next_rs txq1)) (\<lambda>txq2.
     Inr (txq2\<lparr>tx_next_rs := tx_rs_thresh txq2 - 1, tx_tail := 0\<rparr>)))"

definition tx_send :: "ixgbe_tx_queue \<Rightarrow> u64 list \<Rightarrow> u16 \<Rightarrow> ixgbe_tx_queue cres" where
  "tx_send txq pkts nb_pkts =
     (let txq1 = txq\<lparr>nb_tx_free := nb_tx_free txq - nb_pkts\<rparr> in
      if unat (nb_tx_desc txq1) < unat (tx_tail txq1) + unat nb_pkts
      then let n = nb_tx_desc txq1 - tx_tail txq1 in
           bindc (tx_send_top txq1 pkts n) (\<lambda>txq2. tx_send_bottom txq2 (drop (unat n) pkts) (nb_pkts - n))
      else tx_send_bottom txq1 pkts nb_pkts)"

definition tx_xmit_pkts ::
  "(mbuf_mem \<Rightarrow> u64 \<Rightarrow> mbuf_mem cres) \<Rightarrow> ixgbe_tx_queue \<Rightarrow> u64 list \<Rightarrow> u16 \<Rightarrow>
   (u16 \<times> (addr \<times> u64 list) list \<times> ixgbe_tx_queue) cres" where
  "tx_xmit_pkts detach txq pkts nb_pkts =
     bindc (if nb_tx_free txq < tx_free_thresh txq
            then bindc (ixgbe_tx_free_bufs detach txq) (\<lambda>(_, puts, txq1). Inr (puts, txq1))
            else Inr ([], txq)) (\<lambda>(puts, txq1).
     let n = min (nb_tx_free txq1) nb_pkts in
     if n = 0 then Inr (0, puts, txq1)
     else bindc (tx_send txq1 pkts n) (\<lambda>txq2. Inr (n, puts, txq2)))"

text \<open>The loop over chunks of 32; \<open>nb_tx\<close> counts the packets sent so far. It runs at most as often as there are
  packets, which the last argument bounds.\<close>

fun xmit_chunks ::
  "nat \<Rightarrow> (mbuf_mem \<Rightarrow> u64 \<Rightarrow> mbuf_mem cres) \<Rightarrow> ixgbe_tx_queue \<Rightarrow> u64 list \<Rightarrow> u16 \<Rightarrow> u16 \<Rightarrow> (addr \<times> u64 list) list \<Rightarrow>
   (u16 \<times> (addr \<times> u64 list) list \<times> ixgbe_tx_queue) cres" where
  "xmit_chunks 0 detach txq pkts nb_tx nb_pkts puts = (if nb_pkts = 0 then Inr (nb_tx, puts, txq) else Inl No_Return)"
| "xmit_chunks (Suc fuel) detach txq pkts nb_tx nb_pkts puts =
     (if nb_pkts = 0 then Inr (nb_tx, puts, txq)
      else let n = min nb_pkts (of_nat RTE_PMD_IXGBE_TX_MAX_BURST) in
           bindc (tx_xmit_pkts detach txq (drop (unat nb_tx) pkts) n) (\<lambda>(ret, ps, txq').
           if ret < n then Inr (nb_tx + ret, puts @ ps, txq')
           else xmit_chunks fuel detach txq' pkts (nb_tx + ret) (nb_pkts - ret) (puts @ ps)))"

definition ixgbe_xmit_pkts_simple ::
  "(mbuf_mem \<Rightarrow> u64 \<Rightarrow> mbuf_mem cres) \<Rightarrow> ixgbe_tx_queue \<Rightarrow> u64 list \<Rightarrow> u16 \<Rightarrow>
   (u16 \<times> (addr \<times> u64 list) list \<times> ixgbe_tx_queue) cres" where
  "ixgbe_xmit_pkts_simple detach txq pkts nb_pkts =
     (if unat nb_pkts \<le> RTE_PMD_IXGBE_TX_MAX_BURST then tx_xmit_pkts detach txq pkts nb_pkts
      else xmit_chunks (unat nb_pkts) detach txq pkts 0 nb_pkts [])"

section \<open>Writing consecutive entries\<close>

text \<open>\<open>put_at f xs i bs\<close> writes \<open>f j (xs ! j) b\<close> to the entries \<open>j\<close> from \<open>i\<close> on.\<close>

fun put_at :: "(nat \<Rightarrow> 'a \<Rightarrow> 'b \<Rightarrow> 'a) \<Rightarrow> 'a list \<Rightarrow> nat \<Rightarrow> 'b list \<Rightarrow> 'a list" where
  "put_at f xs i [] = xs"
| "put_at f xs i (b # bs) = put_at f (xs[i := f i (xs ! i) b]) (Suc i) bs"

lemma length_put_at [simp]: "length (put_at f xs i bs) = length xs"
  by (induction f xs i bs rule: put_at.induct) simp_all

lemma put_at_append: "put_at f xs i (as @ bs) = put_at f (put_at f xs i as) (i + length as) bs"
  by (induction f xs i as rule: put_at.induct) simp_all

lemma nth_put_at:
  assumes "j < length xs"
  shows "put_at f xs i bs ! j = (if i \<le> j \<and> j < i + length bs then f j (xs ! j) (bs ! (j - i)) else xs ! j)"
  using assms
proof (induction f xs i bs rule: put_at.induct)
  case (2 f xs i b bs)
  then show ?case by (cases j i rule: linorder_cases) (auto simp: nth_Cons')
qed auto

lemma put_at_cong:
  assumes "\<And>j x b. i \<le> j \<Longrightarrow> j < i + length bs \<Longrightarrow> f j x b = g j x b"
  shows "put_at f xs i bs = put_at g xs i bs"
  by (rule nth_equalityI) (auto simp: nth_put_at assms)

definition set_mbuf :: "nat \<Rightarrow> ixgbe_tx_entry \<Rightarrow> u64 \<Rightarrow> ixgbe_tx_entry" where
  "set_mbuf j e a = e\<lparr>te_mbuf := a\<rparr>"

text \<open>The descriptor of the mbuf at an address, with a status report at the last entry of every block of
  \<open>rs\<close> entries.\<close>

definition plain_desc :: "mbuf_mem \<Rightarrow> nat \<Rightarrow> ixgbe_adv_tx_desc \<Rightarrow> u64 \<Rightarrow> ixgbe_adv_tx_desc" where
  "plain_desc mem j d a = tx_descriptor (the (mem a))"

definition report :: "ixgbe_adv_tx_desc \<Rightarrow> ixgbe_adv_tx_desc" where
  "report d = d\<lparr>cmd_type_len := cmd_type_len d OR IXGBE_ADVTXD_DCMD_RS\<rparr>"

definition block_desc :: "mbuf_mem \<Rightarrow> nat \<Rightarrow> nat \<Rightarrow> ixgbe_adv_tx_desc \<Rightarrow> u64 \<Rightarrow> ixgbe_adv_tx_desc" where
  "block_desc mem rs j d a =
     (let e = tx_descriptor (the (mem a)) in if j mod rs = rs - 1 then report e else e)"

section \<open>The unrolled filling\<close>

definition fill_at :: "ixgbe_tx_queue \<Rightarrow> nat \<Rightarrow> u64 list \<Rightarrow> ixgbe_tx_queue" where
  "fill_at q i as = q\<lparr>tx_sw_ring := put_at set_mbuf (tx_sw_ring q) i as,
                     tx_ring := put_at (plain_desc (mbufs q)) (tx_ring q) i as\<rparr>"

definition fits :: "ixgbe_tx_queue \<Rightarrow> nat \<Rightarrow> u64 list \<Rightarrow> bool" where
  "fits q i as \<longleftrightarrow> i + length as \<le> length (tx_ring q) \<and> i + length as \<le> length (tx_sw_ring q) \<and>
     (\<forall>a\<in>set as. mbufs q a \<noteq> None)"

lemma fits_fill [simp]: "fits (fill_at q i as) j bs = fits q j bs"
  by (simp add: fits_def fill_at_def)

lemma fits_append: "fits q i (as @ bs) \<longleftrightarrow> fits q i as \<and> fits q (i + length as) bs"
  by (auto simp: fits_def)

lemma fill_at_append: "fill_at q i (as @ bs) = fill_at (fill_at q i as) (i + length as) bs"
  by (simp add: fill_at_def put_at_append)

lemma tx_each_fill:
  "fits q i as \<Longrightarrow> tx_each q i as = Inr (q\<lparr>tx_ring := put_at (plain_desc (mbufs q)) (tx_ring q) i as\<rparr>)"
  by (induction q i as rule: tx_each.induct) (auto simp: fits_def tx1_def plain_desc_def)

lemma tx_entries_fill:
  "fits q i as \<Longrightarrow> tx_entries q i as = Inr (q\<lparr>tx_sw_ring := put_at set_mbuf (tx_sw_ring q) i as\<rparr>)"
  by (induction q i as rule: tx_entries.induct) (auto simp: fits_def tx_entry_def set_mbuf_def)

lemma fill_rest_at: "fits q i as \<Longrightarrow> fill_rest q i (as @ bs) (length as) = Inr (fill_at q i as)"
proof (induction as arbitrary: q i)
  case Nil
  then show ?case by (simp add: fill_at_def)
next
  case (Cons a as)
  from Cons.prems have "fits (fill_at q i [a]) (Suc i) as" by (simp add: fits_def fill_at_def)
  note Cons.IH [OF this]
  moreover have "fill_at (fill_at q i [a]) (Suc i) as = fill_at q i (a # as)"
    using fill_at_append [of q i "[a]" as] by simp
  moreover have "bindc (tx_entry q i a) (\<lambda>q1. tx1 q1 i a) = Inr (fill_at q i [a])"
    using Cons.prems by (auto simp: fits_def fill_at_def tx_entry_def tx1_def set_mbuf_def plain_desc_def)
  ultimately show ?case by (auto simp: bindc_assoc [symmetric])
qed

lemma fill_main_at:
  "length as = 4 * k \<Longrightarrow> fits q i as \<Longrightarrow> fill_main q i (as @ bs) k = Inr (fill_at q i as)"
proof (induction k arbitrary: q i as)
  case 0
  then show ?case by (simp add: fill_at_def)
next
  case (Suc k)
  define hs ts where "hs = take 4 as" and "ts = drop 4 as"
  have as: "as = hs @ ts" "length hs = 4" "length ts = 4 * k" using Suc.prems(1) by (auto simp: hs_def ts_def)
  have f: "fits q i hs" "fits (fill_at q i hs) (i + 4) ts"
    using Suc.prems(2) as fits_append [of q i hs ts] by (auto)
  have "fits (q\<lparr>tx_sw_ring := put_at set_mbuf (tx_sw_ring q) i hs\<rparr>) i hs" using f(1) by (simp add: fits_def)
  from tx_each_fill [OF this] have "bindc (tx_entries q i hs) (\<lambda>q1. tx4 q1 i (as @ bs)) = Inr (fill_at q i hs)"
    using as tx_entries_fill [OF f(1)] by (simp add: tx4_def fill_at_def)
  then show ?case
    using Suc.IH [OF as(3) f(2)] as fill_at_append [of q i hs ts] by (simp add: bindc_assoc [symmetric])
qed

text \<open>Packets in rounds of four and the rest one by one: the same as one after another.\<close>

lemma and_not_3: "unat (ucast (n :: u16) AND (NOT 3 :: u32)) = 4 * (unat n div 4)"
  "unat (ucast n AND (3 :: u32)) = unat n mod 4"
proof -
  have three: "(3 :: u32) = 2 ^ 2 - 1" by simp
  have w: "unat (ucast n :: u32) = unat n" by (rule unat_ucast_widen) simp
  show m: "unat (ucast n AND (3 :: u32)) = unat n mod 4" unfolding three unat_and_mask w by simp
  have "x AND NOT y = x - (x AND y)" for x y :: u32
    by (subst disjunctive_diff) (auto simp: bit_and_iff bit_or_iff bit_not_iff intro!: bit_word_eqI)
  then have "(ucast n AND NOT 3 :: u32) = ucast n - (ucast n AND 3)" .
  moreover have "(ucast n AND 3 :: u32) \<le> ucast n" by (rule word_and_le2)
  ultimately have "unat (ucast n AND (NOT 3 :: u32)) = unat n - unat n mod 4" using m w by (simp add: unat_sub)
  then show "unat (ucast n AND (NOT 3 :: u32)) = 4 * (unat n div 4)" by (simp add: minus_mod_eq_mult_div)
qed

lemma fill_hw_ring_at:
  assumes "length as = unat n" "fits q (unat (tx_tail q)) as"
  shows "ixgbe_tx_fill_hw_ring q (as @ bs) n = Inr (fill_at q (unat (tx_tail q)) as)"
proof -
  let ?i = "unat (tx_tail q)" and ?k = "unat n div 4"
  define hs ts where "hs = take (4 * ?k) as" and "ts = drop (4 * ?k) as"
  have as: "as = hs @ ts" "length hs = 4 * ?k" "length ts = unat n mod 4"
    using assms(1) by (auto simp: hs_def ts_def minus_mult_div_eq_mod)
  have f: "fits q ?i hs" "fits (fill_at q ?i hs) (?i + 4 * ?k) ts"
    using assms(2) as fits_append [of q ?i hs ts] by auto
  have "fill_main q ?i (as @ bs) ?k = Inr (fill_at q ?i hs)"
    using fill_main_at [OF as(2) f(1), of "ts @ bs"] as(1) by simp
  moreover have "drop (4 * ?k) (as @ bs) = ts @ bs" using as(1,2) by simp
  moreover have "fill_at (fill_at q ?i hs) (?i + 4 * ?k) ts = fill_at q ?i as"
    using as(1,2) fill_at_append [of q ?i hs ts] by simp
  moreover have "fill_at (fill_at q ?i hs) (?i + 4 * ?k) [] = fill_at q ?i hs"
    by (simp add: fill_at_def)
  ultimately show ?thesis
    using fill_rest_at [OF f(2), of bs] as(3)
    unfolding ixgbe_tx_fill_hw_ring_def and_not_3 Let_def by (cases "unat n mod 4 = 0") simp_all
qed

section \<open>A reference that sends one mbuf at a time\<close>

text \<open>The last entry of the block of \<open>rs\<close> entries that \<open>t\<close> is in.\<close>

definition block_end :: "nat \<Rightarrow> nat \<Rightarrow> nat" where
  "block_end rs t = t div rs * rs + (rs - 1)"

text \<open>The positions of a ring divided into blocks: the next status report is at the end of the block of the tail.\<close>

definition blocks_ok :: "ixgbe_tx_queue \<Rightarrow> bool" where
  "blocks_ok q \<longleftrightarrow>
     2 \<le> unat (nb_tx_desc q) \<and> unat (nb_tx_desc q) \<le> 4096 \<and> tx_tail q < nb_tx_desc q \<and>
     unat (nb_tx_desc q) \<le> length (tx_ring q) \<and> unat (nb_tx_desc q) \<le> length (tx_sw_ring q) \<and>
     0 < unat (tx_rs_thresh q) \<and> unat (tx_rs_thresh q) dvd unat (nb_tx_desc q) \<and>
     unat (tx_next_rs q) = block_end (unat (tx_rs_thresh q)) (unat (tx_tail q))"

definition tx_put :: "ixgbe_tx_queue \<Rightarrow> u64 \<Rightarrow> ixgbe_tx_queue" where
  "tx_put q a =
     (let t = unat (tx_tail q); rs = (tx_tail q = tx_next_rs q); d = tx_descriptor (the (mbufs q a)) in
      q\<lparr>tx_sw_ring := (tx_sw_ring q)[t := (tx_sw_ring q ! t)\<lparr>te_mbuf := a\<rparr>],
        tx_ring := (tx_ring q)[t := (if rs then report d else d)],
        tx_next_rs := (if rs then next_thresh q (tx_next_rs q) else tx_next_rs q),
        tx_tail := ring_next (nb_tx_desc q) (tx_tail q)\<rparr>)"

definition tx_puts :: "ixgbe_tx_queue \<Rightarrow> u64 list \<Rightarrow> ixgbe_tx_queue" where
  "tx_puts q as = foldl tx_put q as"

text \<open>Its effect, as long as it does not wrap round.\<close>

definition sent :: "ixgbe_tx_queue \<Rightarrow> u64 list \<Rightarrow> ixgbe_tx_queue" where
  "sent q as =
     (let t = unat (tx_tail q); rs = unat (tx_rs_thresh q); t' = (t + length as) mod unat (nb_tx_desc q) in
      q\<lparr>tx_sw_ring := put_at set_mbuf (tx_sw_ring q) t as,
        tx_ring := put_at (block_desc (mbufs q) rs) (tx_ring q) t as,
        tx_next_rs := of_nat (block_end rs t'), tx_tail := of_nat t'\<rparr>)"

lemma unat_of_nat_u16 [simp]: "n < 65536 \<Longrightarrow> unat (of_nat n :: u16) = n"
  by (simp add: unat_of_nat take_bit_nat_eq_self)

lemma block_end_bounds:
  assumes "0 < rs"
  shows "t \<le> block_end rs t" "block_end rs t < t + rs" "block_end rs t mod rs = rs - 1"
proof -
  have m: "t div rs * rs + t mod rs = t" "t mod rs < rs" using assms by simp_all
  show "t \<le> block_end rs t" "block_end rs t < t + rs" unfolding block_end_def using m by linarith+
  show "block_end rs t mod rs = rs - 1" using assms by (simp only: block_end_def mod_mult_self3) simp
qed

lemma block_end_unique:
  assumes "t \<le> j" "j < t + rs" "j mod rs = rs - 1"
  shows "j = block_end rs t"
proof -
  have rs: "0 < rs" using assms by linarith
  note b = block_end_bounds [OF rs, of t]
  show ?thesis
  proof (rule ccontr)
    assume ne: "j \<noteq> block_end rs t"
    obtain d where d: "j = block_end rs t + d \<or> block_end rs t = j + d" "0 < d" "d < rs"
      using ne b assms that [of "j - block_end rs t"] that [of "block_end rs t - j"]
      by (cases j "block_end rs t" rule: linorder_cases) auto
    have "(x + d) mod rs \<noteq> x mod rs" for x using ring_pos_inj [of 0 d rs x] d by auto
    then show False using d(1) b(3) assms(3) by metis
  qed
qed

lemma block_end_mult: "r < rs \<Longrightarrow> block_end rs (k * rs + r) = k * rs + (rs - 1)"
  by (simp add: block_end_def)

lemma block_end_step:
  assumes "0 < rs" "rs dvd nb" "t < nb"
  shows "t = block_end rs t \<Longrightarrow> block_end rs ((t + 1) mod nb) = (if t + rs < nb then t + rs else rs - 1)"
    "t \<noteq> block_end rs t \<Longrightarrow> block_end rs ((t + 1) mod nb) = block_end rs t" "block_end rs t < nb"
proof -
  define k r where "k = t div rs" and "r = t mod rs"
  obtain m where nb: "nb = m * rs" using assms(2) by (metis dvd_div_mult_self)
  have t: "t = k * rs + r" "r < rs" using assms(1) by (simp_all add: k_def r_def)
  have e: "block_end rs t = k * rs + (rs - 1)" unfolding t(1) by (rule block_end_mult [OF t(2)])
  have "k * rs < m * rs" using t(1) nb assms(3) by linarith
  then have k: "Suc k \<le> m" by simp
  then have le: "Suc k * rs \<le> nb" unfolding nb by (rule mult_le_mono1)
  then show "block_end rs t < nb" using e assms(1) by simp
  show "block_end rs ((t + 1) mod nb) = (if t + rs < nb then t + rs else rs - 1)" if "t = block_end rs t"
  proof (cases "Suc k < m")
    case True
    then have "Suc (Suc k) * rs \<le> nb" unfolding nb by (intro mult_le_mono1) simp
    moreover have t1: "t + 1 = Suc k * rs + 0" using that e assms(1) by simp
    ultimately have "(t + 1) mod nb = Suc k * rs + 0" "t + rs < nb" using that e assms(1) by simp_all
    then show ?thesis using block_end_mult [OF assms(1), of "Suc k"] that e assms(1) by (simp add: add.commute)
  next
    case False
    then have "nb = Suc k * rs" using k nb by (simp add: le_antisym)
    then have "t + 1 = nb" using that e assms(1) by simp
    then show ?thesis using assms(1) by (simp add: block_end_def)
  qed
  show "block_end rs ((t + 1) mod nb) = block_end rs t" if "t \<noteq> block_end rs t"
  proof -
    have r: "r + 1 < rs" using that e t by linarith
    then have "t + 1 < nb" using le t(1) by simp
    then show ?thesis using block_end_mult [OF r, of k] e t(1) by (simp add: add.assoc)
  qed
qed

lemma blocks_okD:
  assumes "blocks_ok q"
  shows "unat (nb_tx_desc q) \<le> 4096" "unat (tx_tail q) < unat (nb_tx_desc q)"
    "unat (nb_tx_desc q) \<le> length (tx_ring q)" "unat (nb_tx_desc q) \<le> length (tx_sw_ring q)"
    "0 < unat (tx_rs_thresh q)" "unat (tx_rs_thresh q) dvd unat (nb_tx_desc q)"
    "unat (tx_next_rs q) = block_end (unat (tx_rs_thresh q)) (unat (tx_tail q))"
    "unat (tx_next_rs q) < unat (nb_tx_desc q)" "unat (tx_rs_thresh q) \<le> unat (nb_tx_desc q)"
proof -
  show d: "unat (nb_tx_desc q) \<le> 4096" "unat (tx_tail q) < unat (nb_tx_desc q)"
    "unat (nb_tx_desc q) \<le> length (tx_ring q)" "unat (nb_tx_desc q) \<le> length (tx_sw_ring q)"
    "0 < unat (tx_rs_thresh q)" "unat (tx_rs_thresh q) dvd unat (nb_tx_desc q)"
    "unat (tx_next_rs q) = block_end (unat (tx_rs_thresh q)) (unat (tx_tail q))"
    using assms by (simp_all add: blocks_ok_def word_less_nat_alt)
  show "unat (tx_next_rs q) < unat (nb_tx_desc q)" using block_end_step(3) [OF d(5,6,2)] d(7) by simp
  show "unat (tx_rs_thresh q) \<le> unat (nb_tx_desc q)" using d(2,6) by (auto intro: dvd_imp_le)
qed

lemma next_thresh_unat:
  assumes "blocks_ok q" "unat i < unat (nb_tx_desc q)"
  shows "unat (next_thresh q i) =
    (if unat i + unat (tx_rs_thresh q) < unat (nb_tx_desc q) then unat i + unat (tx_rs_thresh q)
     else unat (tx_rs_thresh q) - 1)"
proof -
  note d = blocks_okD [OF assms(1)]
  have "unat (i + tx_rs_thresh q) = unat i + unat (tx_rs_thresh q)"
    using d(1,9) assms(2) unat_add_lem [of i "tx_rs_thresh q"] by simp
  moreover have "unat (tx_rs_thresh q - 1) = unat (tx_rs_thresh q) - 1"
    using d(5) by (intro unat_minus_one) auto
  ultimately show ?thesis by (simp add: next_thresh_def Let_def word_le_nat_alt not_less)
qed

lemma u16_of_unat: "unat w = n \<Longrightarrow> w = (of_nat n :: u16)"
  by auto

text \<open>Sending keeps the positions in step.\<close>

lemma sent_one:
  assumes "blocks_ok q"
  shows "tx_put q a = sent q [a]"
proof -
  note d = blocks_okD [OF assms]
  let ?t = "unat (tx_tail q)" and ?nb = "unat (nb_tx_desc q)" and ?rs = "unat (tx_rs_thresh q)"
  have "?t mod ?rs = ?rs - 1 \<longleftrightarrow> ?t = block_end ?rs ?t"
    using block_end_unique [of ?t ?t ?rs] block_end_bounds [OF d(5), of ?t] d(5) by (metis le_refl less_add_same_cancel1)
  then have rs: "?t mod ?rs = ?rs - 1 \<longleftrightarrow> tx_tail q = tx_next_rs q" using d(7) by (simp add: word_unat_eq_iff)
  have tail: "ring_next (nb_tx_desc q) (tx_tail q) = of_nat ((?t + 1) mod ?nb)"
    using ring_next_unat [OF d(1,2)] by (rule u16_of_unat)
  have "unat (if tx_tail q = tx_next_rs q then next_thresh q (tx_next_rs q) else tx_next_rs q) = block_end ?rs ((?t + 1) mod ?nb)"
    using next_thresh_unat [OF assms d(8)] block_end_step(1,2) [OF d(5,6,2)] d(7) by (auto simp: word_unat_eq_iff)
  then have "(if tx_tail q = tx_next_rs q then next_thresh q (tx_next_rs q) else tx_next_rs q) = of_nat (block_end ?rs ((?t + 1) mod ?nb))"
    by (rule u16_of_unat)
  then show ?thesis
    using tail rs by (simp add: tx_put_def sent_def Let_def set_mbuf_def block_desc_def)
qed

lemma sent_blocks:
  assumes "blocks_ok q"
  shows "blocks_ok (sent q as)"
proof -
  note d = blocks_okD [OF assms]
  define t' where "t' = (unat (tx_tail q) + length as) mod unat (nb_tx_desc q)"
  have t': "t' < unat (nb_tx_desc q)" using d(2) by (simp add: t'_def)
  then have "block_end (unat (tx_rs_thresh q)) t' < unat (nb_tx_desc q)" by (rule block_end_step(3) [OF d(5,6)])
  then show ?thesis using assms t' d(1) by (simp add: blocks_ok_def sent_def Let_def word_less_nat_alt flip: t'_def)
qed

lemma sent_Nil: "blocks_ok q \<Longrightarrow> sent q [] = q"
  by (auto simp: sent_def Let_def blocks_okD(2) dest: blocks_okD(7) [symmetric])

lemma sent_append:
  assumes "blocks_ok q" "unat (tx_tail q) + length as < unat (nb_tx_desc q)"
  shows "sent (sent q as) bs = sent q (as @ bs)"
proof -
  have "unat (of_nat (unat (tx_tail q) + length as) :: u16) = unat (tx_tail q) + length as"
    by (rule unat_of_nat_u16) (use assms(2) blocks_okD(1) [OF assms(1)] in linarith)
  then show ?thesis using assms(2) by (simp add: sent_def Let_def put_at_append add.assoc)
qed

text \<open>One by one or at once.\<close>

lemma tx_puts_sent:
  "blocks_ok q \<Longrightarrow> unat (tx_tail q) + length as \<le> unat (nb_tx_desc q) \<Longrightarrow> tx_puts q as = sent q as"
proof (induction as rule: rev_induct)
  case Nil
  then show ?case by (simp add: tx_puts_def sent_Nil)
next
  case (snoc a as)
  then have "tx_puts q (as @ [a]) = tx_put (sent q as) a" by (simp add: tx_puts_def)
  also have "\<dots> = sent (sent q as) [a]" by (rule sent_one [OF sent_blocks [OF snoc.prems(1)]])
  finally show ?case using sent_append [OF snoc.prems(1), of as "[a]"] snoc.prems(2) by simp
qed

section \<open>The simple function sends what the reference sends\<close>

text \<open>One status report at the end of the block, or none, for at most one block of packets.\<close>

lemma report_at_block_end:
  assumes "0 < rs" "length as \<le> rs" "block_end rs t < t + length as" "t + length as \<le> length ring"
  shows "(put_at (plain_desc mem) ring t as)[block_end rs t := report (put_at (plain_desc mem) ring t as ! block_end rs t)]
    = put_at (block_desc mem rs) ring t as" (is "?l[?e := _] = ?r")
proof (rule nth_equalityI)
  fix j assume j: "j < length (?l[?e := report (?l ! ?e)])"
  note b = block_end_bounds [OF assms(1), of t]
  have "j mod rs = rs - 1 \<longleftrightarrow> j = ?e" if "t \<le> j" "j < t + length as"
    using block_end_unique [of t j rs] b(3) that assms(2) by auto
  then show "?l[?e := report (?l ! ?e)] ! j = ?r ! j"
    using j b assms(3,4) by (auto simp: nth_list_update nth_put_at plain_desc_def block_desc_def Let_def)
qed simp

lemma no_report_before_block_end:
  assumes "0 < rs" "t + length as \<le> block_end rs t"
  shows "put_at (plain_desc mem) ring t as = put_at (block_desc mem rs) ring t as"
proof (rule put_at_cong)
  fix j x b assume j: "t \<le> j" "j < t + length as"
  then have "j mod rs \<noteq> rs - 1"
    using block_end_unique [of t j rs] block_end_bounds(2) [OF assms(1), of t] assms(2) by auto
  then show "plain_desc mem j x b = block_desc mem rs j x b" by (simp add: plain_desc_def block_desc_def Let_def)
qed

text \<open>Where the next report is after \<open>n\<close> packets of at most one block.\<close>

lemma block_end_add:
  assumes "0 < rs" "rs dvd nb" "t < nb" "n \<le> rs" "t + n \<le> nb"
  shows "block_end rs ((t + n) mod nb) =
    (if block_end rs t < t + n then if block_end rs t + rs < nb then block_end rs t + rs else rs - 1 else block_end rs t)"
proof -
  define k r where "k = t div rs" and "r = t mod rs"
  obtain m where nb: "nb = m * rs" using assms(2) by (metis dvd_div_mult_self)
  have t: "t = k * rs + r" "r < rs" using assms(1) by (simp_all add: k_def r_def)
  have e: "block_end rs t = k * rs + (rs - 1)" unfolding t(1) by (rule block_end_mult [OF t(2)])
  have sk: "Suc k * rs = k * rs + rs" by simp
  have "k * rs < m * rs" using t(1) nb assms(3) by linarith
  then have k: "Suc k \<le> m" by simp
  then have le: "Suc k * rs \<le> nb" unfolding nb by (rule mult_le_mono1)
  consider "t + n \<le> block_end rs t" | "block_end rs t < t + n" "Suc k = m" | "block_end rs t < t + n" "Suc k < m"
    using k by linarith
  then show ?thesis
  proof cases
    case 1
    then have "r + n < rs" "t + n < nb" using e t le sk by linarith+
    then show ?thesis using 1 block_end_mult [of "r + n" rs k] e t(1) by (simp add: add.assoc)
  next
    case 2
    then have "nb = k * rs + rs" using nb by auto
    then have "t + n = nb" "\<not> block_end rs t + rs < nb" using 2(1) e assms(1,5) by linarith+
    then show ?thesis using 2(1) assms(1) by (simp add: block_end_def)
  next
    case 3
    then have "Suc (Suc k) * rs \<le> nb" unfolding nb by (intro mult_le_mono1) simp
    then have le2: "k * rs + rs + rs \<le> nb" by simp
    obtain r' where r': "t + n = Suc k * rs + r'" "r' < rs"
      using 3(1) e t assms(1,4) sk that [of "t + n - Suc k * rs"] by simp
    then have "t + n < nb" "block_end rs t + rs < nb" using le2 e sk assms(1) by linarith+
    then show ?thesis using 3(1) block_end_mult [OF r'(2), of "Suc k"] r'(1) e sk assms(1) by simp
  qed
qed

lemma tx_set_rs_at:
  "unat i < length (tx_ring q) \<Longrightarrow>
   tx_set_rs q i = Inr (q\<lparr>tx_ring := (tx_ring q)[unat i := report (tx_ring q ! unat i)]\<rparr>)"
  by (simp add: tx_set_rs_def report_def)

lemma send_bottom_sent:
  assumes q: "blocks_ok q" and len: "length as = unat n" "length as \<le> unat (tx_rs_thresh q)"
    and t: "unat (tx_tail q) + length as \<le> unat (nb_tx_desc q)" and mem: "\<forall>a\<in>set as. mbufs q a \<noteq> None"
  shows "tx_send_bottom q (as @ bs) n = Inr ((sent q as)\<lparr>tdt_reg := ucast (tx_tail (sent q as))\<rparr>)"
proof -
  note d = blocks_okD [OF q]
  let ?t = "unat (tx_tail q)" and ?rs = "unat (tx_rs_thresh q)" and ?nb = "unat (nb_tx_desc q)"
  let ?fs = "put_at set_mbuf (tx_sw_ring q) ?t as" and ?fr = "put_at (plain_desc (mbufs q)) (tx_ring q) ?t as"
  have f: "fits q ?t as" using t d(3,4) mem by (simp add: fits_def)
  have tn: "unat (tx_tail q + n) = ?t + length as" using t d(1) len(1) unat_add_lem [of "tx_tail q" n] by simp
  define tail' where "tail' = (if nb_tx_desc q \<le> tx_tail q + n then 0 else tx_tail q + n)"
  have "unat tail' = (?t + length as) mod ?nb" using t tn by (auto simp: tail'_def word_le_nat_alt)
  then have tail': "tail' = of_nat ((?t + length as) mod ?nb)" by (rule u16_of_unat)
  have lt: "tx_next_rs q < tx_tail q + n \<longleftrightarrow> block_end ?rs ?t < ?t + length as"
    using tn d(7) by (simp add: word_less_nat_alt)
  note step = block_end_add [OF d(5,6,2) len(2) t]
  show ?thesis
  proof (cases "tx_next_rs q < tx_tail q + n")
    case True
    have "unat (next_thresh q (tx_next_rs q)) = block_end ?rs ((?t + length as) mod ?nb)"
      using next_thresh_unat [OF q d(8)] step True lt d(7) by simp
    then have rs': "next_thresh q (tx_next_rs q) = of_nat (block_end ?rs ((?t + length as) mod ?nb))" by (rule u16_of_unat)
    have "?fr[unat (tx_next_rs q) := report (?fr ! unat (tx_next_rs q))] = put_at (block_desc (mbufs q) ?rs) (tx_ring q) ?t as"
      using report_at_block_end [OF d(5) len(2), of ?t "tx_ring q" "mbufs q"] True lt t d(3,7) by simp
    moreover from this have "sent q as = q\<lparr>tx_sw_ring := ?fs,
        tx_ring := ?fr[unat (tx_next_rs q) := report (?fr ! unat (tx_next_rs q))],
        tx_next_rs := next_thresh q (tx_next_rs q), tx_tail := tail'\<rparr>"
      using rs' tail' by (simp add: sent_def Let_def)
    ultimately show ?thesis
      using True fill_hw_ring_at [OF len(1) f, of bs] d(3,8)
      by (simp add: tx_send_bottom_def fill_at_def Let_def tx_set_rs_at next_thresh_def tail'_def)
  next
    case False
    have "unat (tx_next_rs q) = block_end ?rs ((?t + length as) mod ?nb)" using step False lt d(7) by simp
    then have rs': "tx_next_rs q = of_nat (block_end ?rs ((?t + length as) mod ?nb))" by (rule u16_of_unat)
    have "?fr = put_at (block_desc (mbufs q) ?rs) (tx_ring q) ?t as"
      by (rule no_report_before_block_end [OF d(5)]) (use False lt in simp)
    then have "sent q as = q\<lparr>tx_sw_ring := ?fs, tx_ring := ?fr, tx_next_rs := tx_next_rs q, tx_tail := tail'\<rparr>"
      using tail' by (simp add: sent_def Let_def flip: rs')
    then show ?thesis
      using False fill_hw_ring_at [OF len(1) f, of bs]
      by (simp add: tx_send_bottom_def fill_at_def Let_def tail'_def)
  qed
qed

lemma send_top_sent:
  assumes q: "blocks_ok q" and len: "length as = unat n" "length as \<le> unat (tx_rs_thresh q)"
    and t: "unat (tx_tail q) + length as = unat (nb_tx_desc q)" and mem: "\<forall>a\<in>set as. mbufs q a \<noteq> None"
  shows "tx_send_top q (as @ bs) n = Inr (sent q as)"
proof -
  note d = blocks_okD [OF q]
  let ?t = "unat (tx_tail q)" and ?rs = "unat (tx_rs_thresh q)"
  let ?fs = "put_at set_mbuf (tx_sw_ring q) ?t as" and ?fr = "put_at (plain_desc (mbufs q)) (tx_ring q) ?t as"
  have f: "fits q ?t as" using t d(3,4) mem by (simp add: fits_def)
  have "unat (tx_rs_thresh q - 1) = block_end ?rs 0" 
    using d(5) unat_minus_one [of "tx_rs_thresh q"] unat_gt_0 [of "tx_rs_thresh q"] by (simp add: block_end_def)
  then have rs': "tx_rs_thresh q - 1 = of_nat (block_end ?rs 0)" by (rule u16_of_unat)
  have "?fr[unat (tx_next_rs q) := report (?fr ! unat (tx_next_rs q))] = put_at (block_desc (mbufs q) ?rs) (tx_ring q) ?t as"
    using report_at_block_end [OF d(5) len(2), of ?t "tx_ring q" "mbufs q"] t d(3,7,8) by simp
  moreover from this have "sent q as = q\<lparr>tx_sw_ring := ?fs,
      tx_ring := ?fr[unat (tx_next_rs q) := report (?fr ! unat (tx_next_rs q))],
      tx_next_rs := tx_rs_thresh q - 1, tx_tail := 0\<rparr>"
    using rs' t by (simp add: sent_def Let_def)
  ultimately show ?thesis
    using fill_hw_ring_at [OF len(1) f, of bs] d(3,8) by (simp add: tx_send_top_def fill_at_def tx_set_rs_at)
qed

lemma sent_keeps [simp]:
  "nb_tx_desc (sent q as) = nb_tx_desc q" "tx_rs_thresh (sent q as) = tx_rs_thresh q"
  "mbufs (sent q as) = mbufs q" "nb_tx_free (sent q as) = nb_tx_free q" "tx_next_dd (sent q as) = tx_next_dd q"
  "tx_free_thresh (sent q as) = tx_free_thresh q"
  by (simp_all add: sent_def Let_def)

lemma tx_puts_free: "tx_puts (q\<lparr>nb_tx_free := f\<rparr>) as = (tx_puts q as)\<lparr>nb_tx_free := f\<rparr>"
proof (induction as arbitrary: q)
  case (Cons a as)
  have "tx_put (q\<lparr>nb_tx_free := f\<rparr>) a = (tx_put q a)\<lparr>nb_tx_free := f\<rparr>"
    by (simp add: tx_put_def Let_def next_thresh_def)
  then show ?case using Cons by (simp add: tx_puts_def)
qed (simp add: tx_puts_def)

lemma tx_puts_append: "tx_puts q (as @ bs) = tx_puts (tx_puts q as) bs"
  by (simp add: tx_puts_def)

text \<open>Sending up to a block of packets: the packets one by one, then the tail register.\<close>

definition send_result :: "ixgbe_tx_queue \<Rightarrow> u64 list \<Rightarrow> ixgbe_tx_queue" where
  "send_result q as =
     (let q' = tx_puts q as in
      q'\<lparr>nb_tx_free := nb_tx_free q - of_nat (length as), tdt_reg := ucast (tx_tail q')\<rparr>)"

lemma tx_send_puts:
  assumes q: "blocks_ok q" and len: "length as = unat n" "length as \<le> unat (tx_rs_thresh q)"
    and mem: "\<forall>a\<in>set as. mbufs q a \<noteq> None"
  shows "tx_send q (as @ bs) n = Inr (send_result q as)"
proof -
  define q1 where "q1 = q\<lparr>nb_tx_free := nb_tx_free q - n\<rparr>"
  note d = blocks_okD [OF q]
  have q1: "blocks_ok q1" "tx_tail q1 = tx_tail q" "nb_tx_desc q1 = nb_tx_desc q" "mbufs q1 = mbufs q"
    "tx_rs_thresh q1 = tx_rs_thresh q" using q by (simp_all add: q1_def blocks_ok_def)
  have n: "of_nat (length as) = n" using len(1) by simp
  have res: "send_result q as = (tx_puts q1 as)\<lparr>tdt_reg := ucast (tx_tail (tx_puts q1 as))\<rparr>"
    by (simp add: send_result_def Let_def n q1_def tx_puts_free)
  show ?thesis
  proof (cases "unat (nb_tx_desc q) < unat (tx_tail q) + unat n")
    case False
    then have "tx_puts q1 as = sent q1 as" using tx_puts_sent [OF q1(1), of as] len(1) q1 by simp
    then show ?thesis
      using False res send_bottom_sent [OF q1(1) len(1), of bs] len mem q1 by (simp add: tx_send_def Let_def flip: q1_def)
  next
    case True
    define m where "m = nb_tx_desc q - tx_tail q"
    define hs ts where "hs = take (unat m) as" and "ts = drop (unat m) as"
    have m: "unat m = unat (nb_tx_desc q) - unat (tx_tail q)"
      unfolding m_def using d(2) by (intro unat_sub) (simp add: word_le_nat_alt)
    have as: "as = hs @ ts" "length hs = unat m" "length ts = unat n - unat m" "drop (unat m) (as @ bs) = ts @ bs"
      using len(1) m True by (auto simp: hs_def ts_def)
    have nm: "unat (n - m) = unat n - unat m" using True m by (intro unat_sub) (simp add: word_le_nat_alt)
    have top: "tx_send_top q1 (as @ bs) m = Inr (sent q1 hs)"
      using send_top_sent [OF q1(1) as(2), of "ts @ bs"] as len mem m d(2) q1 by simp
    have t0: "tx_tail (sent q1 hs) = 0" using as(2) m d(2) q1 by (simp add: sent_def Let_def)
    have q2: "blocks_ok (sent q1 hs)" using q1(1) by (rule sent_blocks)
    have ts: "length ts \<le> unat (tx_rs_thresh q)" "length ts \<le> unat (nb_tx_desc q)" using as len d(9) by simp_all
    have "tx_send_bottom (sent q1 hs) (ts @ bs) (n - m) =
        Inr ((sent (sent q1 hs) ts)\<lparr>tdt_reg := ucast (tx_tail (sent (sent q1 hs) ts))\<rparr>)"
      by (rule send_bottom_sent [OF q2]) (use as nm ts t0 q1 mem in auto)
    moreover have "sent (sent q1 hs) ts = tx_puts (sent q1 hs) ts" using tx_puts_sent [OF q2, of ts] t0 ts q1 by simp
    moreover have "sent q1 hs = tx_puts q1 hs" using tx_puts_sent [OF q1(1), of hs] as(2) m d(2) q1 by simp
    ultimately show ?thesis
      using True top res as(4) tx_puts_append [of q1 hs ts] as(1) q1 m_def by (simp add: tx_send_def Let_def flip: q1_def)
  qed
qed

section \<open>Giving back a block\<close>

text \<open>An mbuf that nobody else refers to and that holds its own data.\<close>

definition sole :: "mbuf_mem \<Rightarrow> u64 \<Rightarrow> bool" where
  "sole mem a \<longleftrightarrow> (case mem a of None \<Rightarrow> False | Some m \<Rightarrow> refcnt m = 1 \<and> RTE_MBUF_DIRECT m)"

text \<open>Freeing may cut an mbuf off from its next segment, and changes nothing else of it.\<close>

definition same_mbufs :: "mbuf_mem \<Rightarrow> mbuf_mem \<Rightarrow> bool" where
  "same_mbufs mem mem' \<longleftrightarrow> (\<forall>a. mem' a = mem a \<or> mem' a = map_option (\<lambda>m. m\<lparr>mb_next := 0, nb_segs := 1\<rparr>) (mem a))"

lemma same_mbufs_refl [simp]: "same_mbufs mem mem"
  by (simp add: same_mbufs_def)

lemma same_mbufs_trans:
  assumes "same_mbufs m1 m2" "same_mbufs m2 m3"
  shows "same_mbufs m1 m3"
  unfolding same_mbufs_def
proof
  fix a
  have "m2 a = m1 a \<or> m2 a = map_option (\<lambda>m. m\<lparr>mb_next := 0, nb_segs := 1\<rparr>) (m1 a)"
    "m3 a = m2 a \<or> m3 a = map_option (\<lambda>m. m\<lparr>mb_next := 0, nb_segs := 1\<rparr>) (m2 a)"
    using assms by (auto simp: same_mbufs_def)
  then show "m3 a = m1 a \<or> m3 a = map_option (\<lambda>m. m\<lparr>mb_next := 0, nb_segs := 1\<rparr>) (m1 a)"
    by (auto simp: option.map_comp comp_def)
qed

lemma same_mbufs_sole: "same_mbufs mem mem' \<Longrightarrow> sole mem' a = sole mem a"
  by (auto simp: same_mbufs_def sole_def RTE_MBUF_DIRECT_def split: option.splits dest!: spec [of _ a])

lemma same_mbufs_pool: "same_mbufs mem mem' \<Longrightarrow> map_option mb_pool (mem' a) = map_option mb_pool (mem a)"
  by (auto simp: same_mbufs_def option.map_comp comp_def dest!: spec [of _ a])

lemma prefree_sole:
  assumes "sole mem a"
  obtains mem' where "rte_pktmbuf_prefree_seg detach mem a = Inr (Some a, mem')" "same_mbufs mem mem'"
proof -
  obtain m where m: "mem a = Some m" "refcnt m = 1" "RTE_MBUF_DIRECT m"
    using assms by (auto simp: sole_def split: option.splits)
  show thesis
    by (rule that [of "mem(a \<mapsto> (if mb_next m \<noteq> 0 then m\<lparr>mb_next := 0, nb_segs := 1\<rparr> else m))"])
      (use m in \<open>auto simp: rte_pktmbuf_prefree_seg_def Let_def same_mbufs_def\<close>)
qed

text \<open>A call of \<open>rte_mempool_put_bulk\<close> that is right: at most 64 mbufs, all of the pool they are put into.\<close>

definition put_ok :: "mbuf_mem \<Rightarrow> addr \<times> u64 list \<Rightarrow> bool" where
  "put_ok mem p \<longleftrightarrow> snd p \<noteq> [] \<and> length (snd p) \<le> RTE_IXGBE_TX_MAX_FREE_BUF_SZ \<and>
     (\<forall>a\<in>set (snd p). map_option mb_pool (mem a) = Some (fst p))"

definition batch_ok :: "mbuf_mem \<Rightarrow> u64 list \<Rightarrow> bool" where
  "batch_ok mem free \<longleftrightarrow> length free \<le> RTE_IXGBE_TX_MAX_FREE_BUF_SZ \<and>
     (\<forall>a\<in>set free. mem a \<noteq> None \<and> map_option mb_pool (mem a) = map_option mb_pool (mem (hd free)))"

lemma batch_hd: "batch_ok mem free \<Longrightarrow> free \<noteq> [] \<Longrightarrow> \<exists>m. mem (hd free) = Some m"
  by (cases free) (auto simp: batch_ok_def)

lemma put_bulk_ok:
  assumes "batch_ok mem free" "free \<noteq> []"
  obtains p where "put_bulk mem free = Inr p" "put_ok mem p" "snd p = free"
proof -
  obtain m where m: "mem (hd free) = Some m" using batch_hd [OF assms] by blast
  show thesis
    by (rule that [of "(mb_pool m, free)"]) (use assms m in \<open>auto simp: put_bulk_def put_ok_def batch_ok_def neq_Nil_conv\<close>)
qed

lemma same_mbufs_ok:
  assumes "same_mbufs mem mem'"
  shows "put_ok mem' p = put_ok mem p" "batch_ok mem' free = batch_ok mem free"
proof -
  have "mem' a = None \<longleftrightarrow> mem a = None" for a
    using same_mbufs_pool [OF assms, of a] by (metis map_option_is_None)
  then show "put_ok mem' p = put_ok mem p" "batch_ok mem' free = batch_ok mem free"
    using same_mbufs_pool [OF assms] by (simp_all add: put_ok_def batch_ok_def)
qed

lemma tx_free_loop_spec:
  "\<lbrakk>\<forall>a\<in>set as. sole mem a; batch_ok mem free; \<forall>p\<in>set puts. put_ok mem p\<rbrakk> \<Longrightarrow>
   \<exists>puts' mem'. tx_free_loop detach mem as free puts = Inr (puts', mem') \<and> same_mbufs mem mem' \<and>
     concat (map snd puts') = concat (map snd puts) @ free @ as \<and> (\<forall>p\<in>set puts'. put_ok mem p)"
proof (induction as arbitrary: mem free puts)
  case Nil
  show ?case
  proof (cases "free = []")
    case False
    obtain p where "put_bulk mem free = Inr p" "put_ok mem p" "snd p = free"
      using put_bulk_ok [OF Nil.prems(2) False] by metis
    then show ?thesis using Nil.prems(3) False by auto
  qed (use Nil.prems in auto)
next
  case (Cons a as)
  obtain mem1 where m1: "rte_pktmbuf_prefree_seg detach mem a = Inr (Some a, mem1)" "same_mbufs mem mem1"
    using prefree_sole Cons.prems(1) by (metis list.set_intros(1))
  note s = same_mbufs_ok [OF m1(2)] same_mbufs_sole [OF m1(2)]
  have a: "sole mem1 a" "batch_ok mem1 free" using Cons.prems s by auto
  then obtain x where x: "mem1 a = Some x" by (auto simp: sole_def split: option.splits)
  have one: "batch_ok mem1 [a]" using x by (auto simp: batch_ok_def RTE_IXGBE_TX_MAX_FREE_BUF_SZ_def)
  let ?step = "\<lambda>f ps. \<exists>puts' mem'. tx_free_loop detach mem1 as f ps = Inr (puts', mem') \<and> same_mbufs mem1 mem' \<and>
     concat (map snd puts') = concat (map snd ps) @ f @ as \<and> (\<forall>p\<in>set puts'. put_ok mem1 p)"
  have IH: "?step f ps" if "batch_ok mem1 f" "\<forall>p\<in>set ps. put_ok mem1 p" for f ps
    by (rule Cons.IH) (use Cons.prems(1) s that in auto)
  show ?case
  proof (cases "free = []")
    case True
    with IH [OF one, of puts] show ?thesis
      using m1 s Cons.prems(3) same_mbufs_trans [OF m1(2)]
      by (auto simp: RTE_IXGBE_TX_MAX_FREE_BUF_SZ_def)
  next
    case False
    then obtain y where y: "mem1 (hd free) = Some y" using batch_hd [OF a(2)] by blast
    obtain p where p: "put_bulk mem1 free = Inr p" "put_ok mem1 p" "snd p = free"
      using put_bulk_ok [OF a(2) False] by metis
    show ?thesis
    proof (cases "RTE_IXGBE_TX_MAX_FREE_BUF_SZ \<le> length free \<or> mb_pool x \<noteq> mb_pool y")
      case True
      with IH [OF one, of "puts @ [p]"] show ?thesis
        using m1 s Cons.prems(3) same_mbufs_trans [OF m1(2)] p x y False by auto
    next
      case other: False
      then have "batch_ok mem1 (free @ [a])" using a(2) False x y by (auto simp: batch_ok_def)
      with IH [of "free @ [a]" puts] show ?thesis
        using m1 s Cons.prems(3) same_mbufs_trans [OF m1(2)] x y False other by auto
    qed
  qed
qed

section \<open>The ring of the simple function\<close>

text \<open>The oldest entry is the first of the block that ends at \<open>tx_next_dd\<close>; \<open>nb_tx_free\<close> counts the free entries,
  one of which is never used.\<close>

definition simple_head :: "ixgbe_tx_queue \<Rightarrow> nat" where
  "simple_head q = unat (tx_next_dd q) + 1 - unat (tx_rs_thresh q)"

definition simple_used :: "ixgbe_tx_queue \<Rightarrow> nat" where
  "simple_used q = unat (nb_tx_desc q) - 1 - unat (nb_tx_free q)"

definition simple_contents :: "ixgbe_tx_queue \<Rightarrow> u64 list" where
  "simple_contents q = ring_contents (map te_mbuf (tx_sw_ring q)) (simple_head q) (simple_used q)"

definition simple_inv :: "ixgbe_tx_queue \<Rightarrow> bool" where
  "simple_inv q \<longleftrightarrow> blocks_ok q \<and> length (tx_sw_ring q) = unat (nb_tx_desc q) \<and>
     tx_next_dd q < nb_tx_desc q \<and> unat (tx_next_dd q) mod unat (tx_rs_thresh q) = unat (tx_rs_thresh q) - 1 \<and>
     nb_tx_free q < nb_tx_desc q \<and>
     (simple_head q + simple_used q) mod unat (nb_tx_desc q) = unat (tx_tail q) \<and>
     RTE_PMD_IXGBE_TX_MAX_BURST \<le> unat (tx_rs_thresh q) \<and>
     unat (tx_free_thresh q) + unat (tx_rs_thresh q) \<le> unat (nb_tx_desc q) \<and>
     (\<forall>a\<in>set (simple_contents q). sole (mbufs q) a)"

lemma tx_put_keeps:
  "nb_tx_desc (tx_put q a) = nb_tx_desc q" "tx_rs_thresh (tx_put q a) = tx_rs_thresh q"
  "mbufs (tx_put q a) = mbufs q" "nb_tx_free (tx_put q a) = nb_tx_free q" "tx_next_dd (tx_put q a) = tx_next_dd q"
  "tx_free_thresh (tx_put q a) = tx_free_thresh q" "length (tx_sw_ring (tx_put q a)) = length (tx_sw_ring q)"
  "tdt_reg (tx_put q a) = tdt_reg q" "tx_recl (tx_put q a) = tx_recl q"
  by (simp_all add: tx_put_def Let_def)

lemma tx_puts_keeps [simp]:
  "nb_tx_desc (tx_puts q as) = nb_tx_desc q" "tx_rs_thresh (tx_puts q as) = tx_rs_thresh q"
  "mbufs (tx_puts q as) = mbufs q" "nb_tx_free (tx_puts q as) = nb_tx_free q"
  "tx_next_dd (tx_puts q as) = tx_next_dd q" "tx_free_thresh (tx_puts q as) = tx_free_thresh q"
  "length (tx_sw_ring (tx_puts q as)) = length (tx_sw_ring q)" "tx_recl (tx_puts q as) = tx_recl q"
  by (induction as arbitrary: q) (simp_all add: tx_puts_def tx_put_keeps)

lemma tx_puts_blocks: "blocks_ok q \<Longrightarrow> blocks_ok (tx_puts q as)"
  by (induction as arbitrary: q) (simp_all add: tx_puts_def sent_one sent_blocks)

text \<open>The reference appends its packets to the ring.\<close>

lemma tx_puts_contents:
  assumes "blocks_ok q" "length (tx_sw_ring q) = unat (nb_tx_desc q)"
    "(h + u) mod unat (nb_tx_desc q) = unat (tx_tail q)" "u + length as < unat (nb_tx_desc q)"
  shows "ring_contents (map te_mbuf (tx_sw_ring (tx_puts q as))) h (u + length as) =
      ring_contents (map te_mbuf (tx_sw_ring q)) h u @ as \<and>
    (h + (u + length as)) mod unat (nb_tx_desc q) = unat (tx_tail (tx_puts q as))"
  using assms
proof (induction as arbitrary: q u)
  case (Cons a as)
  note d = blocks_okD [OF Cons.prems(1)]
  let ?q = "tx_put q a"
  have ok: "blocks_ok ?q" using sent_one [OF Cons.prems(1)] sent_blocks [OF Cons.prems(1)] by simp
  have "unat (tx_tail ?q) = (unat (tx_tail q) + 1) mod unat (nb_tx_desc q)"
    using ring_next_unat [OF d(1,2)] by (simp add: tx_put_def Let_def)
  also have "\<dots> = (h + Suc u) mod unat (nb_tx_desc q)"
    unfolding Cons.prems(3) [symmetric] by (simp add: mod_simps)
  finally have tail: "(h + Suc u) mod unat (nb_tx_desc ?q) = unat (tx_tail ?q)" by (simp add: tx_put_keeps)
  have "map te_mbuf (tx_sw_ring ?q) =
      (map te_mbuf (tx_sw_ring q))[(h + u) mod length (map te_mbuf (tx_sw_ring q)) := a]"
    using Cons.prems(2,3) by (simp add: tx_put_def Let_def map_update)
  then have "ring_contents (map te_mbuf (tx_sw_ring ?q)) h (Suc u) = ring_contents (map te_mbuf (tx_sw_ring q)) h u @ [a]"
    using ring_push [of u "map te_mbuf (tx_sw_ring q)" h a] Cons.prems(2,4) by simp
  then show ?case
    using Cons.IH [OF ok, of "Suc u"] tail Cons.prems(2,4) by (simp add: tx_puts_def tx_put_keeps)
qed (simp add: tx_puts_def)

lemma simple_invD:
  assumes "simple_inv q"
  shows "blocks_ok q" "length (tx_sw_ring q) = unat (nb_tx_desc q)" "unat (tx_next_dd q) < unat (nb_tx_desc q)"
    "unat (tx_next_dd q) mod unat (tx_rs_thresh q) = unat (tx_rs_thresh q) - 1"
    "unat (nb_tx_free q) < unat (nb_tx_desc q)"
    "(simple_head q + simple_used q) mod unat (nb_tx_desc q) = unat (tx_tail q)"
    "RTE_PMD_IXGBE_TX_MAX_BURST \<le> unat (tx_rs_thresh q)"
    "unat (tx_free_thresh q) + unat (tx_rs_thresh q) \<le> unat (nb_tx_desc q)"
    "\<And>a. a \<in> set (simple_contents q) \<Longrightarrow> sole (mbufs q) a"
  using assms by (simp_all add: simple_inv_def word_less_nat_alt)

text \<open>The packets are appended, as long as there is room.\<close>

lemma send_result_spec:
  assumes inv: "simple_inv q" and as: "\<forall>a\<in>set as. sole (mbufs q) a" and room: "length as \<le> unat (nb_tx_free q)"
  shows "simple_inv (send_result q as)" "simple_contents (send_result q as) = simple_contents q @ as"
    "nb_tx_free (send_result q as) = nb_tx_free q - of_nat (length as)" "mbufs (send_result q as) = mbufs q"
proof -
  note d = simple_invD [OF inv] and b = blocks_okD [OF simple_invD(1) [OF inv]]
  let ?q = "send_result q as"
  have len: "unat (of_nat (length as) :: u16) = length as" using room b(1) d(5) by (intro unat_of_nat_u16) linarith
  have fr: "unat (nb_tx_free q - of_nat (length as)) = unat (nb_tx_free q) - length as"
    using room len by (subst unat_sub) (auto simp: word_le_nat_alt)
  have used: "simple_used ?q = simple_used q + length as" "simple_head ?q = simple_head q"
    using fr room d(5) by (simp_all add: simple_used_def simple_head_def send_result_def Let_def)
  have "simple_used q + length as < unat (nb_tx_desc q)" using room d(5) by (simp add: simple_used_def)
  note c = tx_puts_contents [OF d(1,2,6) this]
  then show con: "simple_contents ?q = simple_contents q @ as"
    by (simp add: simple_contents_def used) (simp add: send_result_def Let_def)
  show keep: "nb_tx_free ?q = nb_tx_free q - of_nat (length as)" "mbufs ?q = mbufs q"
    by (simp_all add: send_result_def Let_def)
  have "blocks_ok ?q" using tx_puts_blocks [OF d(1), of as] by (simp add: send_result_def Let_def blocks_ok_def)
  moreover have "(simple_head ?q + simple_used ?q) mod unat (nb_tx_desc q) = unat (tx_tail ?q)"
    unfolding used using c by (simp add: send_result_def Let_def)
  moreover have "nb_tx_free ?q < nb_tx_desc q" using keep fr d(5) by (simp add: word_less_nat_alt)
  ultimately show "simple_inv ?q"
    unfolding simple_inv_def con using inv as by (auto simp: simple_inv_def send_result_def Let_def)
qed

text \<open>The first block of a ring, and what remains when it is cleared.\<close>

lemma ring_first_block:
  assumes "h + n \<le> length buf"
  shows "ring_contents buf h n = take n (drop h buf)"
  by (rule nth_equalityI) (use assms in \<open>auto simp: ring_contents_def\<close>)

lemma ring_contents_cleared:
  assumes "h + n \<le> length buf" "n + k < length buf" "length mid = n"
  shows "ring_contents (take h buf @ mid @ drop (h + n) buf) ((h + n) mod length buf) k =
    ring_contents buf (h + n) k"
proof (rule nth_equalityI)
  fix i assume "i < length (ring_contents (take h buf @ mid @ drop (h + n) buf) ((h + n) mod length buf) k)"
  then have i: "i < k" by simp
  let ?j = "(h + n + i) mod length buf"
  have "?j \<noteq> h + j" if "j < n" for j
    using ring_pos_inj [of j "n + i" "length buf" h] that i assms by (simp add: add.assoc)
  then have j: "?j < h \<or> h + n \<le> ?j" by (metis add_diff_inverse_nat nat_add_left_cancel_less not_le)
  have lt: "?j < length buf" using assms i by (intro mod_less_divisor) linarith
  have len: "length (take h buf @ mid @ drop (h + n) buf) = length buf" using assms by simp
  have "(take h buf @ mid @ drop (h + n) buf) ! ?j = buf ! ?j"
    using j lt assms by (auto simp: nth_append)
  then show "ring_contents (take h buf @ mid @ drop (h + n) buf) ((h + n) mod length buf) k ! i =
      ring_contents buf (h + n) k ! i"
    using i len by (simp add: ring_contents_def mod_simps)
qed simp

lemma simple_head_step:
  assumes "simple_inv q"
  shows "simple_head q + unat (tx_rs_thresh q) = unat (tx_next_dd q) + 1"
    "unat (next_thresh q (tx_next_dd q)) < unat (nb_tx_desc q)"
    "unat (next_thresh q (tx_next_dd q)) mod unat (tx_rs_thresh q) = unat (tx_rs_thresh q) - 1"
    "unat (next_thresh q (tx_next_dd q)) + 1 - unat (tx_rs_thresh q) = (unat (tx_next_dd q) + 1) mod unat (nb_tx_desc q)"
proof -
  note d = simple_invD [OF assms] and b = blocks_okD [OF simple_invD(1) [OF assms]]
  let ?dd = "unat (tx_next_dd q)" and ?rs = "unat (tx_rs_thresh q)" and ?nb = "unat (nb_tx_desc q)"
  have e: "?dd = block_end ?rs ?dd" using d(4) b(5) by (intro block_end_unique) simp_all
  have "?rs - 1 \<le> ?dd" using d(4) mod_less_eq_dividend [of ?dd ?rs] by simp
  then show "simple_head q + ?rs = ?dd + 1" by (simp add: simple_head_def)
  have n: "unat (next_thresh q (tx_next_dd q)) = block_end ?rs ((?dd + 1) mod ?nb)"
    using next_thresh_unat [OF d(1,3)] block_end_step(1) [OF b(5,6) d(3) e] by simp
  have m: "(?dd + 1) mod ?nb < ?nb" using d(3) by simp
  then show "unat (next_thresh q (tx_next_dd q)) < ?nb" unfolding n by (rule block_end_step(3) [OF b(5,6)])
  show "unat (next_thresh q (tx_next_dd q)) mod ?rs = ?rs - 1" unfolding n by (rule block_end_bounds(3) [OF b(5)])
  have "?dd + 1 = (?dd div ?rs + 1) * ?rs" using e b(5) by (simp add: block_end_def)
  then have "?rs dvd ?dd + 1" by simp
  then have "?rs dvd (?dd + 1) mod ?nb" using b(6) by (rule dvd_mod)
  then have "(?dd + 1) mod ?nb div ?rs * ?rs = (?dd + 1) mod ?nb" by simp
  then show "unat (next_thresh q (tx_next_dd q)) + 1 - ?rs = (?dd + 1) mod ?nb"
    unfolding n using b(5) by (simp add: block_end_def)
qed

lemma free_bufs_spec:
  assumes inv: "simple_inv q" and few: "nb_tx_free q < tx_free_thresh q"
  obtains n puts q' where "ixgbe_tx_free_bufs detach q = Inr (n, puts, q')" "simple_inv q'"
    "simple_contents q = concat (map snd puts) @ simple_contents q'" "\<forall>p\<in>set puts. put_ok (mbufs q) p"
    "same_mbufs (mbufs q) (mbufs q')"
proof (cases "wb_status (tx_ring q ! unat (tx_next_dd q)) AND IXGBE_ADVTXD_STAT_DD = 0")
  case True
  then have "ixgbe_tx_free_bufs detach q = Inr (0, [], q)"
    using simple_invD(3) [OF inv] blocks_okD(3) [OF simple_invD(1) [OF inv]] by (simp add: ixgbe_tx_free_bufs_def)
  then show thesis by (rule that) (use inv in simp_all)
next
  case dd: False
  note d = simple_invD [OF inv] and b = blocks_okD [OF simple_invD(1) [OF inv]] and h = simple_head_step [OF inv]
  let ?rs = "unat (tx_rs_thresh q)" and ?nb = "unat (nb_tx_desc q)" and ?h = "simple_head q" and ?sw = "tx_sw_ring q"
  let ?buf = "map te_mbuf ?sw"
  define mid where "mid = map (\<lambda>e. e\<lparr>te_mbuf := 0\<rparr>) (take ?rs (drop ?h ?sw))"
  have le: "?h + ?rs \<le> length ?buf" using h(1) d(2,3) by simp
  have used: "?rs \<le> simple_used q" using few d(5,8) by (simp add: simple_used_def word_less_nat_alt)
  have first: "ring_contents ?buf ?h ?rs = map te_mbuf (take ?rs (drop ?h ?sw))"
    using ring_first_block [OF le] by (simp add: take_map drop_map)
  obtain k where k: "simple_used q = ?rs + k" using used by (auto simp: le_iff_add)
  have split: "simple_contents q = map te_mbuf (take ?rs (drop ?h ?sw)) @ ring_contents ?buf (?h + ?rs) k"
    using first by (simp add: simple_contents_def k ring_contents_append)
  have "\<forall>a\<in>set (map te_mbuf (take ?rs (drop ?h ?sw))). sole (mbufs q) a" using d(9) unfolding split by simp
  moreover have "batch_ok (mbufs q) []" by (simp add: batch_ok_def)
  ultimately obtain puts mem where fl: "tx_free_loop detach (mbufs q) (map te_mbuf (take ?rs (drop ?h ?sw))) [] [] = Inr (puts, mem)"
    "same_mbufs (mbufs q) mem" "concat (map snd puts) = map te_mbuf (take ?rs (drop ?h ?sw))" "\<forall>p\<in>set puts. put_ok (mbufs q) p"
    using tx_free_loop_spec [of "map te_mbuf (take ?rs (drop ?h ?sw))" "mbufs q" "[]" "[]" detach] by auto
  define q' where "q' = q\<lparr>mbufs := mem, tx_sw_ring := take ?h ?sw @ mid @ drop (?h + ?rs) ?sw,
    nb_tx_free := nb_tx_free q + tx_rs_thresh q, tx_next_dd := next_thresh q (tx_next_dd q)\<rparr>"
  have eq: "ixgbe_tx_free_bufs detach q = Inr (tx_rs_thresh q, puts, q')"
    using dd fl(1) d(3) b(3) h(1) le
    by (simp add: ixgbe_tx_free_bufs_def Let_def q'_def mid_def next_thresh_def simple_head_def)
  have "unat (nb_tx_free q) + ?rs < 2 ^ LENGTH(16)" using used d(5) b(1) by (simp add: simple_used_def)
  then have fr: "unat (nb_tx_free q + tx_rs_thresh q) = unat (nb_tx_free q) + ?rs" by (simp only: unat_add_lem)
  have used': "simple_used q' = k" using fr k by (simp add: simple_used_def q'_def)
  have head': "simple_head q' = (?h + ?rs) mod ?nb" using h(1,4) by (simp add: simple_head_def q'_def)
  have "?rs + k < length ?buf" using k d(2,5) by (simp add: simple_used_def)
  then have con: "simple_contents q' = ring_contents ?buf (?h + ?rs) k"
    using ring_contents_cleared [OF le, of k "map te_mbuf mid"] le d(2)
    by (simp add: simple_contents_def used' head') (simp add: q'_def mid_def take_map drop_map)
  have "blocks_ok q'" using d(1,2) le by (simp add: q'_def blocks_ok_def mid_def)
  moreover have "(simple_head q' + simple_used q') mod ?nb = unat (tx_tail q)"
    using d(6) by (simp add: used' head' k mod_simps add.assoc)
  moreover have "nb_tx_free q + tx_rs_thresh q < nb_tx_desc q"
    using fr used d(5) by (simp add: simple_used_def word_less_nat_alt)
  moreover have "\<forall>a\<in>set (simple_contents q'). sole mem a"
    using d(9) same_mbufs_sole [OF fl(2)] unfolding con split by simp
  moreover have "next_thresh q (tx_next_dd q) < nb_tx_desc q" using h(2) by (simp add: word_less_nat_alt)
  ultimately have "simple_inv q'"
    unfolding simple_inv_def using inv h(3) le d(2) by (simp add: simple_inv_def q'_def mid_def)
  with eq show thesis by (rule that) (use fl split con in \<open>simp_all add: q'_def\<close>)
qed

text \<open>What a call promises: \<open>ret\<close> packets taken, the mbufs in \<open>puts\<close> given back.\<close>

definition xmit_ok :: "ixgbe_tx_queue \<Rightarrow> u64 list \<Rightarrow> nat \<Rightarrow> nat \<Rightarrow> (addr \<times> u64 list) list \<Rightarrow> ixgbe_tx_queue \<Rightarrow> bool" where
  "xmit_ok q pkts n ret puts q' \<longleftrightarrow> ret \<le> n \<and> simple_inv q' \<and>
     simple_contents q @ take ret pkts = concat (map snd puts) @ simple_contents q' \<and>
     (\<forall>p\<in>set puts. put_ok (mbufs q) p) \<and> same_mbufs (mbufs q) (mbufs q') \<and> (ret < n \<longrightarrow> nb_tx_free q' = 0)"

lemma tx_xmit_pkts_spec:
  assumes inv: "simple_inv q" and n: "unat n \<le> length pkts" "unat n \<le> RTE_PMD_IXGBE_TX_MAX_BURST"
    and pkts: "\<forall>a\<in>set pkts. sole (mbufs q) a"
  obtains ret puts q' where "tx_xmit_pkts detach q pkts n = Inr (ret, puts, q')" "xmit_ok q pkts (unat n) (unat ret) puts q'"
proof -
  obtain puts q1 where q1: "(if nb_tx_free q < tx_free_thresh q
      then bindc (ixgbe_tx_free_bufs detach q) (\<lambda>(_, puts, txq1). Inr (puts, txq1)) else Inr ([], q)) = Inr (puts, q1)"
    "simple_inv q1" "simple_contents q = concat (map snd puts) @ simple_contents q1"
    "\<forall>p\<in>set puts. put_ok (mbufs q) p" "same_mbufs (mbufs q) (mbufs q1)"
  proof (cases "nb_tx_free q < tx_free_thresh q")
    case True
    show thesis by (rule free_bufs_spec [OF inv True, of detach]) (rule that; use True in simp)
  qed (use inv that in simp)
  define m as where "m = min (nb_tx_free q1) n" and "as = take (unat m) pkts"
  have m: "unat m = min (unat (nb_tx_free q1)) (unat n)" by (simp add: m_def min_def word_le_nat_alt)
  have as: "length as = unat m" "pkts = as @ drop (unat m) pkts" "\<forall>a\<in>set as. sole (mbufs q1) a"
    using n(1) m pkts same_mbufs_sole [OF q1(5)] by (auto simp: as_def dest: in_set_takeD)
  note r = send_result_spec [OF q1(2) as(3)]
  have mem: "\<forall>a\<in>set as. mbufs q1 a \<noteq> None" using as(3) by (auto simp: sole_def split: option.splits)
  have len: "length as \<le> unat (tx_rs_thresh q1)" using as(1) m n(2) simple_invD(7) [OF q1(2)] by simp
  have room: "length as \<le> unat (nb_tx_free q1)" using as(1) m by simp
  have send: "tx_send q1 pkts m = Inr (send_result q1 as)"
    using tx_send_puts [OF simple_invD(1) [OF q1(2)] as(1) len mem] as(2) by metis
  show thesis
  proof (cases "m = 0")
    case True
    then have "nb_tx_free q1 = 0 \<or> n = 0" by (auto simp: m_def min_def split: if_splits)
    then show thesis
      using that [of 0 puts q1] q1 True by (auto simp: tx_xmit_pkts_def xmit_ok_def Let_def m_def)
  next
    case False
    have eq: "tx_xmit_pkts detach q pkts n = Inr (m, puts, send_result q1 as)"
      using q1(1) send False by (simp add: tx_xmit_pkts_def Let_def m_def)
    have "nb_tx_free (send_result q1 as) = 0" if "unat m < unat n"
      using r(3) [OF room] as(1) that m by (auto simp: m_def min_def)
    then show thesis
      using that [OF eq] r [OF room] q1(3-5) m as_def by (simp add: xmit_ok_def)
  qed
qed

lemma xmit_ok_append:
  assumes "xmit_ok q pkts n n ps q1" "xmit_ok q1 (drop n pkts) m r ps' q'"
  shows "xmit_ok q pkts (n + m) (n + r) (ps @ ps') q'"
proof -
  have same: "same_mbufs (mbufs q) (mbufs q1)" "same_mbufs (mbufs q1) (mbufs q')"
    using assms by (simp_all add: xmit_ok_def)
  have "simple_contents q @ take n pkts = concat (map snd ps) @ simple_contents q1"
    "simple_contents q1 @ take r (drop n pkts) = concat (map snd ps') @ simple_contents q'"
    using assms by (simp_all add: xmit_ok_def)
  then have "simple_contents q @ take n pkts @ take r (drop n pkts) =
      concat (map snd ps) @ concat (map snd ps') @ simple_contents q'" by (metis append.assoc)
  then have "simple_contents q @ take (n + r) pkts = concat (map snd (ps @ ps')) @ simple_contents q'"
    by (simp add: take_add)
  then show ?thesis
    using assms same_mbufs_trans [OF same] same_mbufs_ok(1) [OF same(1)] by (auto simp: xmit_ok_def)
qed

lemma xmit_chunks_spec:
  assumes "simple_inv q" "length pkts \<le> 65535" "unat nb_tx + unat nb_pkts = length pkts" "unat nb_pkts \<le> fuel"
    "\<forall>a\<in>set pkts. sole (mbufs q) a"
  shows "\<exists>ret puts' q'. xmit_chunks fuel detach q pkts nb_tx nb_pkts puts = Inr (ret, puts @ puts', q') \<and>
    unat nb_tx \<le> unat ret \<and>
    xmit_ok q (drop (unat nb_tx) pkts) (unat nb_pkts) (unat ret - unat nb_tx) puts' q'"
  using assms
proof (induction fuel arbitrary: q nb_tx nb_pkts puts)
  case 0
  then have "nb_pkts = 0" by (simp add: unat_eq_zero)
  then show ?case using 0 by (auto simp: xmit_ok_def)
next
  case (Suc fuel)
  show ?case
  proof (cases "nb_pkts = 0")
    case True
    then show ?thesis using Suc.prems by (auto simp: xmit_ok_def)
  next
    case False
    define n where "n = min nb_pkts (of_nat RTE_PMD_IXGBE_TX_MAX_BURST)"
    have n: "unat n = min (unat nb_pkts) 32" "0 < unat n"
      using False by (auto simp: n_def min_def word_le_nat_alt RTE_PMD_IXGBE_TX_MAX_BURST_def unat_gt_0)
    have p1: "unat n \<le> length (drop (unat nb_tx) pkts)" "unat n \<le> RTE_PMD_IXGBE_TX_MAX_BURST"
      "\<forall>a\<in>set (drop (unat nb_tx) pkts). sole (mbufs q) a"
      using n Suc.prems(3,5) by (auto simp: RTE_PMD_IXGBE_TX_MAX_BURST_def dest: in_set_dropD)
    obtain ret ps q1 where x: "tx_xmit_pkts detach q (drop (unat nb_tx) pkts) n = Inr (ret, ps, q1)"
      "xmit_ok q (drop (unat nb_tx) pkts) (unat n) (unat ret) ps q1"
      using tx_xmit_pkts_spec [OF Suc.prems(1) p1] by metis
    have le: "unat ret \<le> unat n" "unat n \<le> unat nb_pkts" using x(2) n(1) by (auto simp: xmit_ok_def)
    have sum: "unat (nb_tx + ret) = unat nb_tx + unat ret"
      using le Suc.prems(2,3) unat_add_lem [of nb_tx ret] by simp
    have dif: "unat (nb_pkts - ret) = unat nb_pkts - unat ret"
      using le by (intro unat_sub) (simp add: word_le_nat_alt)
    show ?thesis
    proof (cases "ret < n")
      case True
      then have "xmit_chunks (Suc fuel) detach q pkts nb_tx nb_pkts puts = Inr (nb_tx + ret, puts @ ps, q1)"
        using x(1) False by (simp add: Let_def flip: n_def)
      moreover have "xmit_ok q (drop (unat nb_tx) pkts) (unat nb_pkts) (unat (nb_tx + ret) - unat nb_tx) ps q1"
        using x(2) True le sum by (simp add: xmit_ok_def word_less_nat_alt)
      ultimately show ?thesis using sum by force
    next
      case full: False
      then have "ret = n" using le by (simp add: word_less_nat_alt word_unat_eq_iff)
      have q1: "simple_inv q1" "same_mbufs (mbufs q) (mbufs q1)" using x(2) by (simp_all add: xmit_ok_def)
      have "\<exists>r puts' q'. xmit_chunks fuel detach q1 pkts (nb_tx + ret) (nb_pkts - ret) (puts @ ps) = Inr (r, (puts @ ps) @ puts', q') \<and>
          unat (nb_tx + ret) \<le> unat r \<and>
          xmit_ok q1 (drop (unat (nb_tx + ret)) pkts) (unat (nb_pkts - ret)) (unat r - unat (nb_tx + ret)) puts' q'"
        by (rule Suc.IH [OF q1(1) Suc.prems(2)])
          (use sum dif Suc.prems(3-5) le n(2) \<open>ret = n\<close> same_mbufs_sole [OF q1(2)] in auto)
      then obtain r puts' q' where r: "xmit_chunks fuel detach q1 pkts (nb_tx + ret) (nb_pkts - ret) (puts @ ps) = Inr (r, puts @ ps @ puts', q')"
        "unat (nb_tx + ret) \<le> unat r" "xmit_ok q1 (drop (unat (nb_tx + ret)) pkts) (unat (nb_pkts - ret)) (unat r - unat (nb_tx + ret)) puts' q'"
        by auto
      have "xmit_chunks (Suc fuel) detach q pkts nb_tx nb_pkts puts = Inr (r, puts @ (ps @ puts'), q')"
        using x(1) False full r(1) by (simp add: Let_def flip: n_def)
      moreover have "xmit_ok q (drop (unat nb_tx) pkts) (unat nb_pkts) (unat r - unat nb_tx) (ps @ puts') q'"
        using xmit_ok_append [of q "drop (unat nb_tx) pkts" "unat n" ps q1 "unat nb_pkts - unat n"
            "unat r - (unat nb_tx + unat n)" puts' q'] x(2) r(2,3) sum dif le \<open>ret = n\<close>
        by (simp add: add.commute)
      ultimately show ?thesis using sum r(2) by force
    qed
  qed
qed

text \<open>A queue that has been reset is in such a state, if its thresholds leave room for a block.\<close>

lemma reset_simple_inv:
  assumes "2 \<le> unat (nb_tx_desc q)" "unat (nb_tx_desc q) \<le> 4096" "unat (nb_tx_desc q) \<le> length (tx_ring q)"
    "length (tx_sw_ring q) = unat (nb_tx_desc q)" "RTE_PMD_IXGBE_TX_MAX_BURST \<le> unat (tx_rs_thresh q)"
    "unat (tx_rs_thresh q) dvd unat (nb_tx_desc q)" "unat (tx_free_thresh q) + unat (tx_rs_thresh q) \<le> unat (nb_tx_desc q)"
  shows "\<exists>q'. ixgbe_reset_tx_queue q = Inr q' \<and> simple_inv q' \<and> simple_contents q' = []"
proof -
  have rs: "0 < unat (tx_rs_thresh q)" using assms(5) by (simp add: RTE_PMD_IXGBE_TX_MAX_BURST_def)
  have m1: "unat (x - 1) = unat x - 1" if "0 < unat x" for x :: u16 using that unat_minus_one [of x] unat_gt_0 [of x] by simp
  have nb: "unat (nb_tx_desc q - 1) = unat (nb_tx_desc q) - 1" "unat (tx_rs_thresh q - 1) = unat (tx_rs_thresh q) - 1"
    using m1 assms(1) rs by auto
  obtain q' where q': "ixgbe_reset_tx_queue q = Inr q'" using assms(3,4) by (auto simp: ixgbe_reset_tx_queue_def Let_def)
  then have f: "nb_tx_desc q' = nb_tx_desc q" "tx_rs_thresh q' = tx_rs_thresh q" "tx_free_thresh q' = tx_free_thresh q"
    "tx_tail q' = 0" "tx_next_rs q' = tx_rs_thresh q - 1" "tx_next_dd q' = tx_rs_thresh q - 1"
    "nb_tx_free q' = nb_tx_desc q - 1" "length (tx_ring q') = length (tx_ring q)" "length (tx_sw_ring q') = length (tx_sw_ring q)"
    using assms(3,4) by (auto simp: ixgbe_reset_tx_queue_def Let_def)
  have used: "simple_used q' = 0" "simple_head q' = 0" using f nb rs by (simp_all add: simple_used_def simple_head_def)
  then have con: "simple_contents q' = []" by (simp add: simple_contents_def)
  have "simple_inv q'"
    unfolding simple_inv_def con blocks_ok_def using assms f nb rs used
    by (auto simp: word_less_nat_alt block_end_def)
  then show ?thesis using q' con by blast
qed

lemma xmit_simple_spec:
  assumes "simple_inv q" "length pkts \<le> 65535" "\<forall>a\<in>set pkts. sole (mbufs q) a"
  shows "\<exists>ret puts q'. ixgbe_xmit_pkts_simple detach q pkts (of_nat (length pkts)) = Inr (ret, puts, q') \<and>
    xmit_ok q pkts (length pkts) (unat ret) puts q'"
proof -
  let ?n = "of_nat (length pkts) :: u16"
  have n: "unat ?n = length pkts" using assms(2) by simp
  show ?thesis
  proof (cases "length pkts \<le> RTE_PMD_IXGBE_TX_MAX_BURST")
    case True
    then show ?thesis
      using tx_xmit_pkts_spec [OF assms(1) _ _ assms(3), of ?n detach] n by (metis ixgbe_xmit_pkts_simple_def order_refl)
  next
    case False
    then show ?thesis
      using xmit_chunks_spec [OF assms(1,2) _ _ assms(3), of 0 ?n "length pkts" detach "[]"] n
      by (auto simp: ixgbe_xmit_pkts_simple_def)
  qed
qed

section \<open>Properties\<close>

text \<open>Property C14: the simple transmit function loses no mbuf and frees none early. Take a well-formed queue (\<open>simple_inv\<close>)
  with blocks of at least 32 descriptors in which \<open>tx_free_thresh\<close> and \<open>tx_rs_thresh\<close> together do not exceed the ring, and mbufs, in the
  ring and offered, that nobody else refers to and that hold their own data. Then a call returns; the mbufs of the ring and then the packets
  taken are exactly the mbufs given back, in order, and those in the ring afterwards; each call of
  \<open>rte_mempool_put_bulk\<close> has at most 64 mbufs, all of that pool; and fewer packets are taken than were
  offered only if no descriptor is left. (The set-up accepts other thresholds too: \<open>xmit_simple_early_free\<close>.)\<close>

theorem xmit_simple_conserves:
  assumes "simple_inv q" "length pkts \<le> 65535" "\<forall>a\<in>set pkts. sole (mbufs q) a"
  shows "\<exists>ret puts q'. ixgbe_xmit_pkts_simple detach q pkts (of_nat (length pkts)) = Inr (ret, puts, q') \<and>
    simple_inv q' \<and> unat ret \<le> length pkts \<and>
    simple_contents q @ take (unat ret) pkts = concat (map snd puts) @ simple_contents q' \<and>
    (\<forall>p\<in>set puts. put_ok (mbufs q) p) \<and> (unat ret < length pkts \<longrightarrow> nb_tx_free q' = 0)"
  using xmit_simple_spec [OF assms, of detach] unfolding xmit_ok_def by blast

text \<open>A queue of 64 descriptors as set up, with both thresholds 32.\<close>

definition simple_demo :: "u16 \<Rightarrow> region_pool \<Rightarrow> ixgbe_tx_queue" where
  "simple_demo fr p = (demo_txq p)\<lparr>
     tx_ring := replicate 64 \<lparr>buffer_addr = 0, cmd_type_len = 0, olinfo_status = IXGBE_ADVTXD_STAT_DD\<rparr>,
     tx_sw_ring := map (reset_entry 64) [0..<64], nb_tx_desc := 64, tx_tail := 0, tx_recl := 0, tx_rs_thresh := 32,
     nb_tx_free := 63, tx_next_dd := 31, tx_next_rs := 31, tx_free_thresh := fr,
     mbufs := [0x10800 \<mapsto> demo_mbuf\<lparr>refcnt := 1, ol_flags := 0\<rparr>]\<rparr>"

lemma simple_demo_inv: "simple_inv (simple_demo 32 p)"
  by (simp add: simple_inv_def blocks_ok_def simple_demo_def demo_txq_def simple_contents_def simple_head_def
      simple_used_def block_end_def RTE_PMD_IXGBE_TX_MAX_BURST_def)

theorem xmit_simple_conserves_witness:
  "\<exists>ret puts q'. ixgbe_xmit_pkts_simple (\<lambda>mem a. Inr mem) (simple_demo 32 demo_pool) [0x10800, 0x10800] 2 = Inr (ret, puts, q') \<and>
     take (unat ret) [0x10800, 0x10800] = concat (map snd puts) @ simple_contents q'"
proof -
  have "\<forall>a\<in>set [0x10800, 0x10800]. sole (mbufs (simple_demo 32 demo_pool)) a"
    by (simp add: sole_def simple_demo_def RTE_MBUF_DIRECT_def)
  moreover have "simple_contents (simple_demo 32 demo_pool) = []"
    by (simp add: simple_contents_def simple_used_def simple_demo_def)
  ultimately show ?thesis
    using xmit_simple_conserves [OF simple_demo_inv, of "[0x10800, 0x10800]" demo_pool "\<lambda>mem a. Inr mem"] by auto
qed

text \<open>Enqueueing by the CleanQ function is one step of the reference.\<close>

lemma cleanq_enqueue_put:
  assumes "cleanq_enqueue ixgbe_tx_f q b = Inr (err, q')" "\<not> err_is_fail err" "cleanq_buf_to_mbuf q b = Inr a"
  shows "q' = (tx_put q a)\<lparr>tdt_reg := ucast (tx_tail (tx_put q a))\<rparr>"
proof -
  have "ixgbe_tx_cleanq_enqueue q b = Inr (err, q')"
    using assms(1,2) by (auto simp: cleanq_enqueue_def ixgbe_tx_f_def err_is_fail_def bindc_eq_Inr split: if_splits)
  moreover have "err \<noteq> CLEANQ_ERR_QUEUE_FULL" using assms(2) by (auto simp: err_is_fail_def)
  ultimately obtain m where "mbufs q a = Some m" "unat (tx_tail q) < length (tx_sw_ring q)" "unat (tx_tail q) < length (tx_ring q)"
    "\<not> ring_full (tx_recl q) (tx_tail q)"
    using assms(3) by (auto simp: ixgbe_tx_cleanq_enqueue_def bindc_eq_Inr arr_get_def arr_set_def deref_def Let_def
        split: if_splits option.splits)
  then show ?thesis
    using \<open>ixgbe_tx_cleanq_enqueue q b = Inr (err, q')\<close> assms(3)
    by (auto simp: ixgbe_tx_cleanq_enqueue_def tx_put_def Let_def report_def)
qed

lemma tx_puts_tdt: "tx_puts (q\<lparr>tdt_reg := r\<rparr>) as = (tx_puts q as)\<lparr>tdt_reg := r\<rparr>"
proof (induction as arbitrary: q)
  case (Cons a as)
  have "tx_put (q\<lparr>tdt_reg := r\<rparr>) a = (tx_put q a)\<lparr>tdt_reg := r\<rparr>"
    by (simp add: tx_put_def Let_def next_thresh_def)
  then show ?case using Cons by (simp add: tx_puts_def)
qed (simp add: tx_puts_def)

lemma tx_fill_puts:
  assumes "tx_inv q" "\<forall>a\<in>set pkts. mbuf_good q a" "length (tx_contents q) + length pkts < unat (nb_tx_desc q)" "pkts \<noteq> []"
  shows "tx_fill q pkts n =
    Inr (n + of_nat (length pkts), (tx_puts q pkts)\<lparr>tdt_reg := ucast (tx_tail (tx_puts q pkts))\<rparr>)"
  using assms
proof (induction pkts arbitrary: q n)
  case (Cons a pkts)
  show ?case
  proof (rule tx_enqueue_room [OF Cons.prems(1)])
    show good: "mbuf_good q a" and "length (tx_contents q) + 1 < unat (nb_tx_desc q)" using Cons.prems by auto
    fix b q1
    assume s: "mbuf_to_cleanq_buf q a = Inr b" "cleanq_enqueue ixgbe_tx_f q b = Inr (CLEANQ_ERR_OK, q1)"
      "tx_inv q1" "tx_contents q1 = tx_contents q @ [a]" "tx_same_memory q q1"
    have "cleanq_buf_to_mbuf q b = Inr a"
      using mbuf_goodE [OF tx_invD(7,8) [OF Cons.prems(1)] good] s(1) by (metis sum.inject(2))
    then have q1: "q1 = (tx_put q a)\<lparr>tdt_reg := ucast (tx_tail (tx_put q a))\<rparr>"
      using cleanq_enqueue_put [OF s(2)] by (simp add: err_is_fail_def)
    show ?thesis
    proof (cases "pkts = []")
      case True
      then show ?thesis using s(1,2) q1 by (simp add: tx_puts_def err_is_fail_def)
    next
      case False
      have "\<forall>x\<in>set pkts. mbuf_good q1 x" using Cons.prems(2) tx_same_memory_good [OF s(5)] by simp
      moreover have "length (tx_contents q1) + length pkts < unat (nb_tx_desc q1)"
        using Cons.prems(3) s(4,5) by (simp add: tx_same_memory_def)
      ultimately have "tx_fill q1 pkts (n + 1) = Inr (n + 1 + of_nat (length pkts),
          (tx_puts q1 pkts)\<lparr>tdt_reg := ucast (tx_tail (tx_puts q1 pkts))\<rparr>)"
        using Cons.IH [OF s(3) _ _ False] by blast
      moreover have "tx_puts q1 pkts = (tx_puts q (a # pkts))\<lparr>tdt_reg := ucast (tx_tail (tx_put q a))\<rparr>"
        unfolding q1 tx_puts_tdt by (simp add: tx_puts_def)
      ultimately show ?thesis using s(1,2) by (simp add: err_is_fail_def add.assoc)
    qed
  qed
qed simp

text \<open>Property C17: CleanQ and the simple function put the same on the wire. For a batch of at most one block
  that fits into the ring, filling descriptors one by one through the CleanQ interface and filling them four at a
  time end in the same descriptors, software ring, tail, tail register and position of the next status report;
  only the simple function counts free descriptors.\<close>

theorem cleanq_fills_like_simple:
  assumes "tx_inv q" "blocks_ok q" "\<forall>a\<in>set pkts. mbuf_good q a" "pkts \<noteq> []"
    "length (tx_contents q) + length pkts < unat (nb_tx_desc q)" "length pkts \<le> unat (tx_rs_thresh q)"
  shows "\<exists>q'. tx_fill q pkts 0 = Inr (of_nat (length pkts), q') \<and>
    tx_send q pkts (of_nat (length pkts)) = Inr (q'\<lparr>nb_tx_free := nb_tx_free q - of_nat (length pkts)\<rparr>)"
proof -
  have "length pkts \<le> 4096" using assms(6) blocks_okD(1,9) [OF assms(2)] by linarith
  then have "length pkts = unat (of_nat (length pkts) :: u16)" by simp
  moreover have "\<forall>a\<in>set pkts. mbufs q a \<noteq> None" using assms(3) by (auto simp: mbuf_good_def mbuf_of_region_def)
  ultimately have "tx_send q (pkts @ []) (of_nat (length pkts)) = Inr (send_result q pkts)"
    using assms(2,6) by (intro tx_send_puts)
  then show ?thesis
    using tx_fill_puts [OF assms(1,3,5,4), of 0] by (simp add: send_result_def Let_def)
qed

theorem cleanq_fills_like_simple_witness:
  "\<exists>p q q'. ixgbe_reset_tx_queue (demo_txq p) = Inr q \<and> tx_fill q [0x10800, 0x10800] 0 = Inr (2, q') \<and>
     tx_send q [0x10800, 0x10800] 2 = Inr (q'\<lparr>nb_tx_free := nb_tx_free q - 2\<rparr>)"
proof -
  obtain p q and b :: cleanq_buf where r: "ixgbe_reset_tx_queue (demo_txq p) = Inr q" "tx_inv q" "tx_contents q = []"
    "mbuf_good q 0x10800" "nb_tx_desc q = 4"
    by (rule demo_tx_reset)
  then have "tx_rs_thresh q = 2" "blocks_ok q"
    by (auto simp: ixgbe_reset_tx_queue_def demo_txq_def blocks_ok_def block_end_def)
  then show ?thesis
    using cleanq_fills_like_simple [of q "[0x10800, 0x10800]"] r by auto
qed

text \<open>The documented limits on the two thresholds, which set-up checks, do not keep the first block of descriptors apart
  from a scan that starts early: descriptors are marked done when the queue is reset. With 64 descriptors, 32
  and 60 are accepted; after four packets the next call frees them although the card has sent none, and goes on to the
  fifth entry, which is NULL.\<close>

definition early_conf :: rte_eth_txconf where
  "early_conf = demo_txconf\<lparr>txc_rs_thresh := 32, txc_free_thresh := 60, txc_wthresh := 0\<rparr>"

definition early_ring :: ixgbe_tx_queue where
  "early_ring = send_result (simple_demo 60 demo_pool) (replicate 4 0x10800)"

lemma early_blocks: "blocks_ok (simple_demo 60 demo_pool)"
  by (simp add: blocks_ok_def simple_demo_def demo_txq_def block_end_def)

lemma early_ring_rings:
  "tx_ring early_ring = put_at (block_desc (mbufs (simple_demo 60 demo_pool)) 32)
     (replicate 64 \<lparr>buffer_addr = 0, cmd_type_len = 0, olinfo_status = IXGBE_ADVTXD_STAT_DD\<rparr>) 0 (replicate 4 0x10800)"
  "tx_sw_ring early_ring = put_at set_mbuf (map (reset_entry 64) [0..<64]) 0 (replicate 4 0x10800)"
  using tx_puts_sent [OF early_blocks, of "replicate 4 0x10800"]
  by (simp_all add: early_ring_def send_result_def Let_def sent_def simple_demo_def)

lemma early_ring_fields:
  "wb_status (tx_ring early_ring ! 31) = IXGBE_ADVTXD_STAT_DD"
  "length (tx_ring early_ring) = 64" "length (tx_sw_ring early_ring) = 64"
  "map te_mbuf (take 32 (tx_sw_ring early_ring)) = [0x10800, 0x10800, 0x10800, 0x10800, 0] @ replicate 27 0"
  "nb_tx_free early_ring = 59" "tx_free_thresh early_ring = 60" "tx_next_dd early_ring = 31" "tx_rs_thresh early_ring = 32"
  "mbufs early_ring = [0x10800 \<mapsto> demo_mbuf\<lparr>refcnt := 1, ol_flags := 0\<rparr>]"
proof -
  show "map te_mbuf (take 32 (tx_sw_ring early_ring)) = [0x10800, 0x10800, 0x10800, 0x10800, 0] @ replicate 27 0"
    by (rule nth_equalityI)
      (auto simp: early_ring_rings nth_put_at nth_append nth_Cons' set_mbuf_def reset_entry_def)
qed (simp_all add: early_ring_rings nth_put_at,
     simp_all add: early_ring_def send_result_def Let_def simple_demo_def)

theorem xmit_simple_early_free:
  "tx_setup_thresholds 64 early_conf = Inr (32, 60) \<and>
   ixgbe_xmit_pkts_simple (\<lambda>mem a. Inr mem) (simple_demo 60 demo_pool) (replicate 4 0x10800) 4 = Inr (4, [], early_ring) \<and>
   ixgbe_xmit_pkts_simple (\<lambda>mem a. Inr mem) early_ring [0x10800] 1 = Inl Bad_Memory"
proof -
  let ?q = "simple_demo 60 demo_pool" and ?d = "\<lambda>mem (a :: u64). Inr mem :: mbuf_mem cres"
  have "tx_setup_thresholds 64 early_conf = Inr (32, 60)"
    by (simp add: tx_setup_thresholds_def early_conf_def demo_txconf_def Let_def DEFAULT_TX_RS_THRESH_def
        IXGBE_TXD_ALIGN_def IXGBE_MAX_RING_DESC_def IXGBE_MIN_RING_DESC_def)
  moreover have "tx_send ?q (replicate 4 0x10800 @ []) 4 = Inr early_ring" unfolding early_ring_def
    by (rule tx_send_puts [OF early_blocks]) (simp_all add: simple_demo_def)
  then have "ixgbe_xmit_pkts_simple ?d ?q (replicate 4 0x10800) 4 = Inr (4, [], early_ring)"
    by (simp add: ixgbe_xmit_pkts_simple_def tx_xmit_pkts_def RTE_PMD_IXGBE_TX_MAX_BURST_def Let_def)
       (simp add: simple_demo_def)
  moreover have "tx_free_loop ?d (mbufs early_ring) ([0x10800, 0x10800, 0x10800, 0x10800, 0] @ replicate 27 0) [] [] = Inl Bad_Memory"
    by (simp add: early_ring_fields rte_pktmbuf_prefree_seg_def RTE_MBUF_DIRECT_def demo_mbuf_def
        RTE_IXGBE_TX_MAX_FREE_BUF_SZ_def)
  then have "ixgbe_tx_free_bufs ?d early_ring = Inl Bad_Memory"
    by (simp add: ixgbe_tx_free_bufs_def early_ring_fields Let_def IXGBE_ADVTXD_STAT_DD_def)
  then have "ixgbe_xmit_pkts_simple ?d early_ring [0x10800] 1 = Inl Bad_Memory"
    by (simp add: ixgbe_xmit_pkts_simple_def tx_xmit_pkts_def early_ring_fields RTE_PMD_IXGBE_TX_MAX_BURST_def)
  ultimately show ?thesis by blast
qed

end
