(* ===== verification/Inet_Chksum.thy ===== *)
theory Inet_Chksum
  imports CleanQ_Prelude
begin

text \<open>
  The Internet checksum: the three versions of \<open>lwip_standard_chksum\<close> and \<open>inet_chksum\<close> in
  \<open>lib/libcleanq_udp/src/inet_chksum.c\<close> with the macros of \<open>inet_chksum.h\<close>, and the routines of
  \<open>lib/librte_net/rte_ip.h\<close> that the IP module calls, \<open>rte_raw_cksum\<close> and \<open>rte_ipv4_cksum\<close>.

  The pair of a pointer and a length is the address and the list of the bytes found there; the
  address matters only for its alignment. Memory is little endian.

  Contents: the routines; the one's complement sum as a number; that all routines compute it, each
  within the length its accumulator allows; the difference between the two routines that complement.
\<close>

section \<open>The routines\<close>

text \<open>A 16-bit and a 32-bit word in memory.\<close>

definition ld16 :: "u8 \<Rightarrow> u8 \<Rightarrow> u16" where
  "ld16 b0 b1 = ucast b0 + 256 * ucast b1"

definition ld32 :: "u8 \<Rightarrow> u8 \<Rightarrow> u8 \<Rightarrow> u8 \<Rightarrow> u32" where
  "ld32 b0 b1 b2 b3 = ucast (ld16 b0 b1) + 65536 * ucast (ld16 b2 b3)"

definition SWAP_BYTES_IN_WORD :: "u32 \<Rightarrow> u32" where
  "SWAP_BYTES_IN_WORD w = push_bit 8 (w AND 0xff) OR drop_bit 8 (w AND 0xff00)"

definition FOLD_U32T :: "u32 \<Rightarrow> u32" where
  "FOLD_U32T u = drop_bit 16 u + (u AND 0xffff)"

text \<open>\<open>htons\<close> and \<open>ntohs\<close> of \<open>arpa/inet.h\<close> on a little-endian machine.\<close>

definition htons :: "u16 \<Rightarrow> u16" where
  "htons x = push_bit 8 x OR drop_bit 8 x"

text \<open>The first version. \<open>lwip_htons\<close> stands for \<open>LWIP_PLATFORM_HTONS\<close>, which the tree does not define.\<close>

fun sum_octets :: "u32 \<Rightarrow> u8 list \<Rightarrow> u32 \<times> u8 list" where
  "sum_octets acc (b0 # b1 # bs) =
     sum_octets (acc + ucast (push_bit 8 (ucast b0) OR ucast b1 :: u16)) bs"
| "sum_octets acc bs = (acc, bs)"

definition lwip_standard_chksum_v1 :: "(u16 \<Rightarrow> u16) \<Rightarrow> u8 list \<Rightarrow> u16" where
  "lwip_standard_chksum_v1 lwip_htons data =
     (let (acc0, rest) = sum_octets 0 data;
          acc1 = (case rest of [] \<Rightarrow> acc0 | b # _ \<Rightarrow> acc0 + ucast (push_bit 8 (ucast b) :: u16));
          acc2 = drop_bit 16 acc1 + (acc1 AND 0xffff);
          acc3 = (if acc2 AND 0xffff0000 \<noteq> 0 then drop_bit 16 acc2 + (acc2 AND 0xffff) else acc2)
      in lwip_htons (ucast acc3))"

text \<open>The loop \<open>while (len > 1) { sum += *ps++; len -= 2; }\<close>: the sm and the bytes left over.\<close>

fun sum_words :: "u32 \<Rightarrow> u8 list \<Rightarrow> u32 \<times> u8 list" where
  "sum_words sm (b0 # b1 # bs) = sum_words (sm + ucast (ld16 b0 b1)) bs"
| "sum_words sm bs = (sm, bs)"

text \<open>The byte that comes before the first aligned word, if there is one, and the bytes behind it.\<close>

definition take_odd :: "bool \<Rightarrow> u8 list \<Rightarrow> u8 \<times> u8 list" where
  "take_odd od data = (case data of [] \<Rightarrow> (0, []) | b # bs \<Rightarrow> if od then (b, bs) else (0, data))"

definition hd0 :: "u8 list \<Rightarrow> u8" where
  "hd0 bs = (case bs of [] \<Rightarrow> 0 | b # _ \<Rightarrow> b)"

text \<open>The end of the second and the third version: add the end bytes, fold, swap if the address is odd.\<close>

definition finish_chksum :: "bool \<Rightarrow> u32 \<Rightarrow> u8 \<Rightarrow> u8 \<Rightarrow> u16" where
  "finish_chksum od sm t0 t1 =
     (let sum1 = FOLD_U32T (FOLD_U32T (sm + ucast (ld16 t0 t1)))
      in ucast (if od then SWAP_BYTES_IN_WORD sum1 else sum1))"

definition lwip_standard_chksum_v2 :: "u64 \<Rightarrow> u8 list \<Rightarrow> u16" where
  "lwip_standard_chksum_v2 dataptr data =
     (let od = (dataptr AND 1 \<noteq> 0);
          (t1, bs) = take_odd od data;
          (sm, rest) = sum_words 0 bs
      in finish_chksum od sm (hd0 rest) t1)"

text \<open>The third version adds eight bytes per round, with the carry added back.\<close>

definition add_carry :: "u32 \<Rightarrow> u32 \<Rightarrow> u32" where
  "add_carry sm w = (let tmp = sm + w in if tmp < sm then tmp + 1 else tmp)"

fun sum_long :: "u32 \<Rightarrow> u8 list \<Rightarrow> u32 \<times> u8 list" where
  "sum_long sm (b0 # b1 # b2 # b3 # b4 # b5 # b6 # b7 # bs) =
     sum_long (add_carry (add_carry sm (ld32 b0 b1 b2 b3)) (ld32 b4 b5 b6 b7)) bs"
| "sum_long sm bs = (sm, bs)"

text \<open>The word before the first address divisible by four.\<close>

definition sum_align4 :: "u64 \<Rightarrow> u8 list \<Rightarrow> u32 \<times> u8 list" where
  "sum_align4 ps bs =
     (case bs of b0 # b1 # bs' \<Rightarrow> if ps AND 3 \<noteq> 0 then (ucast (ld16 b0 b1), bs') else (0, bs)
               | _ \<Rightarrow> (0, bs))"

definition lwip_standard_chksum_v3 :: "u64 \<Rightarrow> u8 list \<Rightarrow> u16" where
  "lwip_standard_chksum_v3 dataptr data =
     (let od = (dataptr AND 1 \<noteq> 0);
          (t1, bs) = take_odd od data;
          ps = (if od \<and> data \<noteq> [] then dataptr + 1 else dataptr);
          (sum0, bs1) = sum_align4 ps bs;
          (sum1, bs2) = sum_long sum0 bs1;
          (sum2, rest) = sum_words (FOLD_U32T sum1) bs2
      in finish_chksum od sum2 (hd0 rest) t1)"

text \<open>\<open>LWIP_CHKSUM_ALGORITHM\<close> is 2. \<open>data\<close> is the memory from \<open>dataptr\<close> on; the length is a \<open>uint16_t\<close>.\<close>

definition inet_chksum :: "u64 \<Rightarrow> u8 list \<Rightarrow> u16 \<Rightarrow> u16" where
  "inet_chksum dataptr data len = NOT (lwip_standard_chksum_v2 dataptr (take (unat len) data))"

text \<open>The routines of \<open>rte_ip.h\<close>.\<close>

fun raw_cksum_long :: "u32 \<Rightarrow> u8 list \<Rightarrow> u32 \<times> u8 list" where
  "raw_cksum_long sm (b0 # b1 # b2 # b3 # b4 # b5 # b6 # b7 # bs) =
     raw_cksum_long (sm + ucast (ld16 b0 b1) + ucast (ld16 b2 b3) + ucast (ld16 b4 b5) + ucast (ld16 b6 b7)) bs"
| "raw_cksum_long sm bs = (sm, bs)"

definition rte_raw_cksum_sum :: "u8 list \<Rightarrow> u32 \<Rightarrow> u32" where
  "rte_raw_cksum_sum buf sm =
     (let (sum1, bs) = raw_cksum_long sm buf; (sum2, rest) = sum_words sum1 bs
      in case rest of [] \<Rightarrow> sum2 | b # _ \<Rightarrow> sum2 + ucast b)"

definition rte_raw_cksum_reduce :: "u32 \<Rightarrow> u16" where
  "rte_raw_cksum_reduce sm =
     (let sum1 = drop_bit 16 (sm AND 0xffff0000) + (sm AND 0xffff);
          sum2 = drop_bit 16 (sum1 AND 0xffff0000) + (sum1 AND 0xffff)
      in ucast sum2)"

definition rte_raw_cksum :: "u8 list \<Rightarrow> u16" where
  "rte_raw_cksum buf = rte_raw_cksum_reduce (rte_raw_cksum_sum buf 0)"

text \<open>\<open>ipv4_hdr\<close> is the memory from the header on, of which the size of \<open>struct ipv4_hdr\<close>, 20 bytes, is summed.\<close>

definition rte_ipv4_cksum :: "u8 list \<Rightarrow> u16" where
  "rte_ipv4_cksum ipv4_hdr =
     (let cksum = rte_raw_cksum (take 20 ipv4_hdr) in if cksum = 0xffff then cksum else NOT cksum)"

section \<open>The one's complement sum\<close>

text \<open>The bytes read as little-endian words, the last one padded with a zero byte, and added up.\<close>

fun le_sum :: "u8 list \<Rightarrow> nat" where
  "le_sum (b0 # b1 # bs) = unat b0 + 256 * unat b1 + le_sum bs"
| "le_sum [b] = unat b"
| "le_sum [] = 0"

text \<open>The 16-bit one's complement representation of a sum: end-around carries are added until it fits.
  Zero comes out only for zero.\<close>

definition ones_sum :: "nat \<Rightarrow> nat" where
  "ones_sum n = (if n = 0 then 0 else if n mod 65535 = 0 then 65535 else n mod 65535)"

text \<open>Two sums with the same representation.\<close>

definition same_sum :: "nat \<Rightarrow> nat \<Rightarrow> bool" where
  "same_sum m n \<longleftrightarrow> m mod 65535 = n mod 65535 \<and> (m = 0 \<longleftrightarrow> n = 0)"

lemma same_sum_refl [simp]: "same_sum n n"
  by (simp add: same_sum_def)

lemma same_sum_sym: "same_sum m n \<Longrightarrow> same_sum n m"
  by (simp add: same_sum_def)

lemma same_sum_trans [trans]: "same_sum k m \<Longrightarrow> same_sum m n \<Longrightarrow> same_sum k n"
  by (simp add: same_sum_def)

lemma same_sum_add: "same_sum k l \<Longrightarrow> same_sum m n \<Longrightarrow> same_sum (k + m) (l + n)"
  by (auto simp: same_sum_def intro: mod_add_cong)

lemma same_sum_mult: "same_sum m n \<Longrightarrow> same_sum (k * m) (k * n)"
  by (auto simp: same_sum_def intro: mod_mult_cong)

lemma same_sum_if: "same_sum m n \<Longrightarrow> same_sum (if c then k * m else m) (if c then k * n else n)"
  by (simp add: same_sum_mult)

lemma ones_sum_eqI: "n \<le> 65535 \<Longrightarrow> same_sum n m \<Longrightarrow> n = ones_sum m"
proof -
  assume "n \<le> 65535" "same_sum n m"
  moreover have "n < 65535 \<or> n = 65535" using \<open>n \<le> 65535\<close> by linarith
  ultimately show ?thesis by (auto simp: ones_sum_def same_sum_def)
qed

lemma ones_sum_le: "ones_sum n \<le> 65535"
  using mod_less_divisor [of 65535 n] by (auto simp: ones_sum_def)

lemma same_sum_ones_sum: "same_sum (ones_sum n) n"
  by (auto simp: ones_sum_def same_sum_def)

lemma unat_u8_bound: "unat (x :: u8) < 256"
  using unsigned_less [of x, where 'a = nat] by simp

lemma unat_u32_bound: "unat (x :: u32) < 2 ^ 32"
  using unsigned_less [of x, where 'a = nat] by simp

lemma unat_ld16: "unat (ld16 b0 b1) = unat b0 + 256 * unat b1"
proof -
  have b: "unat b0 < 256" "unat b1 < 256" by (rule unat_u8_bound)+
  have "unat (256 * ucast b1 :: u16) = 256 * unat b1"
    using b by (subst unat_mult_lem [THEN iffD1]) (simp_all add: unat_ucast_widen)
  then show ?thesis unfolding ld16_def
    using b by (subst unat_add_lem [THEN iffD1]) (simp_all add: unat_ucast_widen)
qed

lemma unat_ucast_ld16 [simp]: "unat (ucast (ld16 b0 b1) :: u32) = unat b0 + 256 * unat b1"
  by (simp add: unat_ucast_widen unat_ld16)

lemma ld16_bound: "unat b0 + 256 * unat b1 \<le> 65535" for b0 b1 :: u8
  using unat_u8_bound [of b0] unat_u8_bound [of b1] by linarith

lemma unat_ld32: "unat (ld32 b0 b1 b2 b3) = unat b0 + 256 * unat b1 + 65536 * (unat b2 + 256 * unat b3)"
proof -
  have b: "unat b0 + 256 * unat b1 \<le> 65535" "unat b2 + 256 * unat b3 \<le> 65535" by (rule ld16_bound)+
  have "unat (65536 * ucast (ld16 b2 b3) :: u32) = 65536 * (unat b2 + 256 * unat b3)"
    using b by (subst unat_mult_lem [THEN iffD1]) simp_all
  then show ?thesis unfolding ld32_def
    using b by (subst unat_add_lem [THEN iffD1]) simp_all
qed

lemma unat_drop_bit: "unat (drop_bit k x :: 'a::len word) = unat x div 2 ^ k"
  by (simp add: unat_drop_bit_eq drop_bit_nat_def)

lemma unat_and_ffff: "unat (x AND 0xffff :: u32) = unat x mod 65536"
  using unat_and_mask [of x 16] by simp

lemma drop_bit_upper_half: "drop_bit 16 (x AND 0xffff0000) = drop_bit 16 x" for x :: u32
proof -
  have m: "(0xffff0000 :: u32) = push_bit 16 (mask 16)" by (simp add: mask_eq_exp_minus_1 push_bit_eq_mult)
  show ?thesis unfolding m by (rule bit_word_eqI) (auto simp: bit_simps dest: bit_imp_le_length)
qed

lemma upper_half_zero: "x AND 0xffff0000 = 0 \<longleftrightarrow> unat x < 65536" for x :: u32
proof -
  have m: "(0xffff0000 :: u32) = push_bit 16 (mask 16)" by (simp add: mask_eq_exp_minus_1 push_bit_eq_mult)
  have "x AND 0xffff0000 = push_bit 16 (drop_bit 16 x)"
    unfolding m by (rule bit_word_eqI) (auto simp: bit_simps)
  then have "x AND 0xffff0000 = 0 \<longleftrightarrow> drop_bit 16 x = 0"
    by (metis drop_bit_upper_half drop_bit_of_0 push_bit_of_0)
  also have "\<dots> \<longleftrightarrow> unat (drop_bit 16 x) = 0" by (simp only: unat_eq_0)
  finally show ?thesis by (simp add: unat_drop_bit div_eq_0_iff)
qed

text \<open>Folding keeps the sum, and twice brings it into 16 bits.\<close>

lemma unat_FOLD: "unat (FOLD_U32T u) = unat u div 65536 + unat u mod 65536"
proof -
  have "unat u div 65536 < 65536" using unat_u32_bound [of u] by (simp add: div_less_iff_less_mult)
  moreover have "unat u mod 65536 < 65536" by simp
  ultimately show ?thesis unfolding FOLD_U32T_def
    by (subst unat_add_lem [THEN iffD1]) (simp_all add: unat_drop_bit unat_and_ffff)
qed

lemma fold_same_sum: "same_sum (n div 65536 + n mod 65536) n"
proof -
  have n: "n = 65535 * (n div 65536) + (n div 65536 + n mod 65536)"
    using div_mult_mod_eq [of n 65536] by linarith
  then have "n mod 65535 = (n div 65536 + n mod 65536) mod 65535"
    by (metis mod_mult_self4)
  moreover have "n div 65536 + n mod 65536 = 0 \<longleftrightarrow> n = 0" using n by auto
  ultimately show ?thesis by (simp add: same_sum_def)
qed

lemma fold_small:
  assumes "n \<le> 131070"
  shows "n div 65536 + n mod 65536 \<le> (65535 :: nat)"
proof -
  have "n = n div 65536 * 65536 + n mod 65536" by (rule div_mult_mod_eq [symmetric])
  moreover have "n mod 65536 < 65536" by (rule mod_less_divisor) simp
  moreover have "n div 65536 < 2" using assms by (simp add: div_less_iff_less_mult)
  ultimately show ?thesis using assms by linarith
qed

lemma FOLD_le: "unat (FOLD_U32T u) \<le> 131070"
proof -
  have "unat u div 65536 < 65536" using unat_u32_bound [of u] by (simp add: div_less_iff_less_mult)
  moreover have "unat u mod 65536 < 65536" by (rule mod_less_divisor) simp
  ultimately show ?thesis unfolding unat_FOLD by linarith
qed

lemma unat_FOLD_twice: "unat (FOLD_U32T (FOLD_U32T u)) = ones_sum (unat u)"
proof (rule ones_sum_eqI)
  show "unat (FOLD_U32T (FOLD_U32T u)) \<le> 65535"
    unfolding unat_FOLD [of "FOLD_U32T u"] by (rule fold_small [OF FOLD_le])
  show "same_sum (unat (FOLD_U32T (FOLD_U32T u))) (unat u)"
    unfolding unat_FOLD [of "FOLD_U32T u"] by (rule same_sum_trans [OF fold_same_sum]) (simp only: unat_FOLD fold_same_sum)
qed

section \<open>The loops\<close>

lemma unat_add_small: "unat x + unat y < 2 ^ 32 \<Longrightarrow> unat (x + y :: u32) = unat x + unat y"
  by (subst unat_add_lem [THEN iffD1]) simp_all

lemma sum_words_spec:
  "unat s + le_sum bs < 2 ^ 32 \<Longrightarrow> sum_words s bs = (s', r) \<Longrightarrow>
     unat s' + le_sum r = unat s + le_sum bs \<and> length r \<le> 1"
  by (induction s bs rule: sum_words.induct) (auto simp: unat_add_small)

lemma le_sum_hd0: "length r \<le> 1 \<Longrightarrow> le_sum r = unat (hd0 r)"
  by (cases r) (auto simp: hd0_def)

text \<open>The sum of the words in network order; read byte-swapped it is the same sum.\<close>

fun be_sum :: "u8 list \<Rightarrow> nat" where
  "be_sum (b0 # b1 # bs) = 256 * unat b0 + unat b1 + be_sum bs"
| "be_sum [b] = 256 * unat b"
| "be_sum [] = 0"

lemma same_sum_swap: "same_sum (256 * (256 * x + y)) (x + 256 * y)"
proof -
  have "256 * (256 * x + y) = 65535 * x + (x + 256 * y)" by simp
  then show ?thesis by (simp only: same_sum_def mod_mult_self4) auto
qed

lemma be_sum_swap: "same_sum (256 * be_sum bs) (le_sum bs)"
proof (induction bs rule: be_sum.induct)
  case (1 b0 b1 bs)
  from same_sum_add [OF same_sum_swap [of "unat b0" "unat b1"] 1] show ?case
    by (simp add: algebra_simps)
next
  case (2 b)
  show ?case using same_sum_swap [of "unat b" 0] by simp
qed simp

lemma le_sum_bound: "le_sum bs \<le> 65535 * ((length bs + 1) div 2)"
proof (induction bs rule: le_sum.induct)
  case (1 b0 b1 bs)
  then show ?case using ld16_bound [of b0 b1] by simp
next
  case (2 b)
  then show ?case using unat_u8_bound [of b] by simp
qed simp

lemma be_sum_bound: "be_sum bs \<le> 65535 * ((length bs + 1) div 2)"
proof (induction bs rule: be_sum.induct)
  case (1 b0 b1 bs)
  then show ?case using ld16_bound [of b1 b0] by simp
next
  case (2 b)
  then show ?case using unat_u8_bound [of b] by simp
qed simp

lemma octets_ld16: "push_bit 8 (ucast b0) OR ucast b1 = ld16 b1 b0"
proof -
  have "push_bit 8 (ucast b0) OR ucast b1 = push_bit 8 (ucast b0) + (ucast b1 :: u16)"
    by (rule disjunctive_add [symmetric]) (auto simp: bit_simps dest: bit_imp_le_length)
  then show ?thesis by (simp add: ld16_def push_bit_eq_mult)
qed

lemma sum_octets_spec:
  "unat s + be_sum bs < 2 ^ 32 \<Longrightarrow> sum_octets s bs = (s', r) \<Longrightarrow>
     unat s' + be_sum r = unat s + be_sum bs \<and> length r \<le> 1"
  by (induction s bs rule: sum_octets.induct) (auto simp: unat_add_small octets_ld16)

text \<open>Adding with the carry added back is addition of one's complement numbers of 32 bits.\<close>

lemma add_carry_same: "same_sum (unat (add_carry s w)) (unat s + unat w)"
proof (cases "unat s + unat w < 2 ^ 32")
  case True
  then have "unat (s + w) = unat s + unat w" by (rule unat_add_small)
  then show ?thesis by (simp add: add_carry_def Let_def word_less_nat_alt)
next
  case False
  have b: "unat s < 2 ^ 32" "unat w < 2 ^ 32" by (rule unat_u32_bound)+
  have t: "unat (s + w) = unat s + unat w - 2 ^ 32"
    using False b by (simp add: unat_word_ariths mod_if)
  then have lt: "s + w < s" using False b unfolding word_less_nat_alt by linarith
  have "unat (s + w + 1) = unat (s + w) + unat (1 :: u32)"
    using t b by (intro unat_add_small) simp
  then have v: "unat (add_carry s w) = unat s + unat w - (2 ^ 32 - 1)"
    using False lt t by (simp add: add_carry_def Let_def)
  have "unat s + unat w = 65535 * 65537 + unat (add_carry s w)" using v False by simp
  then have "(unat s + unat w) mod 65535 = unat (add_carry s w) mod 65535"
    by (metis mod_mult_self4)
  moreover have "0 < unat (add_carry s w)" unfolding v using False by simp
  moreover have "0 < unat s + unat w" using False by (intro gr0I) simp
  ultimately show ?thesis by (simp add: same_sum_def)
qed

lemma ld32_same: "same_sum (unat (ld32 b0 b1 b2 b3)) (le_sum [b0, b1, b2, b3])"
proof -
  have "65536 * (unat b2 + 256 * unat b3) = 65535 * (unat b2 + 256 * unat b3) + (unat b2 + 256 * unat b3)" by simp
  then have "same_sum (65536 * (unat b2 + 256 * unat b3)) (unat b2 + 256 * unat b3)"
    by (simp only: same_sum_def mod_mult_self4) auto
  from same_sum_add [OF same_sum_refl this, of "unat b0 + 256 * unat b1"] show ?thesis
    by (simp add: unat_ld32)
qed

lemma sum_long_spec:
  "sum_long s bs = (s', r) \<Longrightarrow> same_sum (unat s' + le_sum r) (unat s + le_sum bs) \<and> length r \<le> 7"
proof (induction s bs rule: sum_long.induct)
  case (1 s b0 b1 b2 b3 b4 b5 b6 b7 bs)
  let ?s1 = "add_carry s (ld32 b0 b1 b2 b3)"
  have a: "same_sum (unat (add_carry ?s1 (ld32 b4 b5 b6 b7))) (unat ?s1 + le_sum [b4, b5, b6, b7])"
    by (rule same_sum_trans [OF add_carry_same same_sum_add [OF same_sum_refl ld32_same]])
  have b: "same_sum (unat ?s1) (unat s + le_sum [b0, b1, b2, b3])"
    by (rule same_sum_trans [OF add_carry_same same_sum_add [OF same_sum_refl ld32_same]])
  have "same_sum (unat (add_carry ?s1 (ld32 b4 b5 b6 b7)) + le_sum bs)
    (unat s + le_sum [b0, b1, b2, b3] + le_sum [b4, b5, b6, b7] + le_sum bs)"
    by (rule same_sum_add [OF same_sum_trans [OF a same_sum_add [OF b same_sum_refl]] same_sum_refl])
  then have "same_sum (unat (add_carry ?s1 (ld32 b4 b5 b6 b7)) + le_sum bs)
    (unat s + le_sum (b0 # b1 # b2 # b3 # b4 # b5 # b6 # b7 # bs))"
    by (simp add: ac_simps)
  with 1 show ?case by (auto intro: same_sum_trans)
qed auto

lemma raw_cksum_long_spec:
  "unat s + le_sum bs < 2 ^ 32 \<Longrightarrow> raw_cksum_long s bs = (s', r) \<Longrightarrow>
     unat s' + le_sum r = unat s + le_sum bs"
  by (induction s bs rule: raw_cksum_long.induct) (auto simp: unat_add_small)

section \<open>Swapping bytes\<close>

definition swap16 :: "nat \<Rightarrow> nat" where
  "swap16 n = n mod 256 * 256 + n div 256"

lemma swap16_le: "n < 65536 \<Longrightarrow> swap16 n \<le> 65535"
  using mod_less_divisor [of 256 n] by (simp add: swap16_def div_less_iff_less_mult [of 256 n 256, simplified, symmetric])

lemma swap16_same: "same_sum (swap16 n) (256 * n)"
proof -
  have "256 * n = 256 * (256 * (n div 256) + n mod 256)" by simp
  then show ?thesis using same_sum_sym [OF same_sum_swap [of "n div 256" "n mod 256"]]
    by (simp add: swap16_def ac_simps)
qed

lemma ones_sum_swap16: "swap16 (ones_sum n) = ones_sum (256 * n)"
proof (rule ones_sum_eqI)
  show "swap16 (ones_sum n) \<le> 65535" using ones_sum_le [of n] by (intro swap16_le) linarith
  show "same_sum (swap16 (ones_sum n)) (256 * n)"
    by (rule same_sum_trans [OF swap16_same same_sum_mult [OF same_sum_ones_sum]])
qed

lemma ones_sum_cong: "same_sum m n \<Longrightarrow> ones_sum m = ones_sum n"
  by (auto simp: ones_sum_def same_sum_def)

lemma unat_SWAP: "unat w < 65536 \<Longrightarrow> unat (SWAP_BYTES_IN_WORD w) = swap16 (unat w)"
proof -
  assume w: "unat w < 65536"
  have m: "(0xff :: u32) = mask 8" "(0xff00 :: u32) = push_bit 8 (mask 8)"
    by (simp_all add: mask_eq_exp_minus_1 push_bit_eq_mult)
  have hi: "drop_bit 8 (w AND 0xff00) = drop_bit 8 w AND mask 8"
    unfolding m by (rule bit_word_eqI) (auto simp: bit_simps)
  have "SWAP_BYTES_IN_WORD w = push_bit 8 (w AND 0xff) + drop_bit 8 (w AND 0xff00)"
    unfolding SWAP_BYTES_IN_WORD_def m
    by (rule disjunctive_add [symmetric]) (auto simp: bit_simps)
  moreover have lo: "unat (w AND 0xff) = unat w mod 256" using unat_and_mask [of w 8] by simp
  have "unat (256 * (w AND 0xff)) = 256 * (unat w mod 256)"
    using lo by (subst unat_mult_lem [THEN iffD1]) simp_all
  then have "unat (push_bit 8 (w AND 0xff)) = 256 * (unat w mod 256)"
    by (simp add: push_bit_eq_mult mult.commute)
  moreover have "unat w div 256 < 256" using w by (simp add: div_less_iff_less_mult)
  then have "unat (drop_bit 8 (w AND 0xff00)) = unat w div 256"
    unfolding hi using unat_and_mask [of "drop_bit 8 w" 8] by (simp add: unat_drop_bit mask_eq_exp_minus_1)
  moreover have "256 * (unat w mod 256) + unat w div 256 < 2 ^ 32"
    using \<open>unat w div 256 < 256\<close> mod_less_divisor [of 256 "unat w"] by simp
  ultimately show ?thesis by (simp only: unat_add_small swap16_def mult.commute)
qed

section \<open>All routines compute the one's complement sum\<close>

lemma le_sum_Cons: "le_sum (b # bs) = unat b + be_sum bs"
proof (induction bs arbitrary: b rule: be_sum.induct)
  case (1 b0 b1 bs)
  then show ?case by simp
qed simp_all

text \<open>Read from an odd address the words straddle those of the data: the sum is byte-swapped.\<close>

lemma le_sum_shift: "same_sum (256 * (le_sum bs + 256 * unat b)) (le_sum (b # bs))"
proof -
  have r: "same_sum (65536 * k) k" for k
    using same_sum_swap [of k 0] by simp
  have "same_sum (256 * le_sum bs) (256 * (256 * be_sum bs))"
    by (rule same_sum_mult [OF same_sum_sym [OF be_sum_swap]])
  also have "256 * (256 * be_sum bs) = 65536 * be_sum bs" by simp
  also have "same_sum \<dots> (be_sum bs)" by (rule r)
  finally have "same_sum (256 * le_sum bs) (be_sum bs)" .
  from same_sum_add [OF this r [of "unat b"]] show ?thesis
    by (simp add: le_sum_Cons algebra_simps)
qed

lemma finish_chksum_spec:
  assumes "unat s + (unat t0 + 256 * unat t1) < 2 ^ 32"
  shows "unat (finish_chksum od s t0 t1) =
    ones_sum (if od then 256 * (unat s + (unat t0 + 256 * unat t1)) else unat s + (unat t0 + 256 * unat t1))"
proof -
  let ?n = "unat s + (unat t0 + 256 * unat t1)"
  let ?f = "FOLD_U32T (FOLD_U32T (s + ucast (ld16 t0 t1)))"
  have f: "unat ?f = ones_sum ?n" using assms by (simp only: unat_FOLD_twice unat_add_small unat_ucast_ld16)
  then have "unat ?f < 65536" using ones_sum_le [of ?n] by linarith
  then have "unat (SWAP_BYTES_IN_WORD ?f) = ones_sum (256 * ?n)" using f by (simp only: unat_SWAP ones_sum_swap16)
  then have "unat (if od then SWAP_BYTES_IN_WORD ?f else ?f) = ones_sum (if od then 256 * ?n else ?n)"
    using f by simp
  moreover have "ones_sum (if od then 256 * ?n else ?n) < 65536"
    using ones_sum_le [of "if od then 256 * ?n else ?n"] by linarith
  ultimately show ?thesis unfolding finish_chksum_def Let_def
    by (simp only: unsigned_ucast_eq take_bit_nat_def) simp
qed

text \<open>The unaligned first byte.\<close>

lemma take_odd_spec:
  assumes "take_odd od data = (t1, bs)"
  shows "same_sum (if od then 256 * (le_sum bs + 256 * unat t1) else le_sum bs + 256 * unat t1) (le_sum data)"
    and "length bs \<le> length data" and "length bs + (if t1 = 0 then 0 else 1) \<le> length data"
  using assms le_sum_shift by (auto simp: take_odd_def split: list.splits if_splits)

lemma lwip_v1_sum:
  assumes swaps: "\<And>x. unat (lwip_htons x) = swap16 (unat x)" and len: "length data \<le> 0x20000"
  shows "unat (lwip_standard_chksum_v1 lwip_htons data) = ones_sum (le_sum data)"
proof -
  have b: "be_sum data < 2 ^ 32" using be_sum_bound [of data] len by simp
  obtain acc r where l: "sum_octets 0 data = (acc, r)" by fastforce
  define acc1 where "acc1 = (case r of [] \<Rightarrow> acc | b # _ \<Rightarrow> acc + ucast (push_bit 8 (ucast b) :: u16))"
  have s: "unat acc + be_sum r = be_sum data" "length r \<le> 1"
    using sum_octets_spec [OF _ l] b by simp_all
  then have acc1: "unat acc1 = be_sum data"
    using b octets_ld16 [of _ 0] by (cases r) (auto simp: acc1_def unat_add_small)
  let ?f = "FOLD_U32T acc1"
  have "FOLD_U32T ?f = ?f" if "?f AND 0xffff0000 = 0"
    using that by (subst word_unat_eq_iff) (simp add: upper_half_zero unat_FOLD [of ?f])
  then have v: "lwip_standard_chksum_v1 lwip_htons data = lwip_htons (ucast (FOLD_U32T ?f))"
    by (simp add: lwip_standard_chksum_v1_def l Let_def acc1_def FOLD_U32T_def split: list.split)
  have "unat (FOLD_U32T ?f) = ones_sum (be_sum data)" by (simp add: unat_FOLD_twice acc1)
  moreover have "ones_sum (be_sum data) < 65536" using ones_sum_le [of "be_sum data"] by linarith
  ultimately have "unat (ucast (FOLD_U32T ?f) :: u16) = ones_sum (be_sum data)"
    by (simp only: unsigned_ucast_eq take_bit_nat_def) simp
  then show ?thesis
    by (simp only: v swaps ones_sum_swap16 ones_sum_cong [OF be_sum_swap])
qed

lemma lwip_v2_sum:
  assumes "length data \<le> 0x20000"
  shows "unat (lwip_standard_chksum_v2 a data) = ones_sum (le_sum data)"
proof -
  let ?od = "a AND 1 \<noteq> 0"
  obtain t1 bs where t: "take_odd ?od data = (t1, bs)" by fastforce
  obtain s r where l: "sum_words 0 bs = (s, r)" by fastforce
  have b: "le_sum bs + 256 * unat t1 < 2 ^ 32"
    using le_sum_bound [of bs] take_odd_spec(3) [OF t] assms unat_u8_bound [of t1]
    by (cases "t1 = 0") simp_all
  then have s: "unat s + le_sum r = le_sum bs" "length r \<le> 1" using sum_words_spec [OF _ l] by simp_all
  then have n: "unat s + (unat (hd0 r) + 256 * unat t1) = le_sum bs + 256 * unat t1"
    by (simp add: le_sum_hd0)
  have "lwip_standard_chksum_v2 a data = finish_chksum ?od s (hd0 r) t1"
    unfolding lwip_standard_chksum_v2_def Let_def t by (simp add: l)
  then show ?thesis
    using finish_chksum_spec [of s "hd0 r" t1 ?od] b
    by (simp only: n ones_sum_cong [OF take_odd_spec(1) [OF t]])
qed

lemma sum_align4_spec:
  "sum_align4 ps bs = (s, r) \<Longrightarrow> unat s + le_sum r = le_sum bs"
  by (auto simp: sum_align4_def split: list.splits if_splits)

lemma lwip_v3_sum: "unat (lwip_standard_chksum_v3 a data) = ones_sum (le_sum data)"
proof -
  let ?od = "a AND 1 \<noteq> 0"
  let ?ps = "if ?od \<and> data \<noteq> [] then a + 1 else a"
  obtain t1 bs where t: "take_odd ?od data = (t1, bs)" by fastforce
  obtain s0 bs1 where a: "sum_align4 ?ps bs = (s0, bs1)" by fastforce
  obtain s1 bs2 where b: "sum_long s0 bs1 = (s1, bs2)" by fastforce
  obtain s2 r where c: "sum_words (FOLD_U32T s1) bs2 = (s2, r)" by fastforce
  note long = sum_long_spec [OF b]
  have "length bs2 + 1 \<le> 8" using long by simp
  then have "(length bs2 + 1) div 2 \<le> 8 div 2" by (rule div_le_mono)
  then have small: "le_sum bs2 \<le> 262140" using le_sum_bound [of bs2] by simp
  then have w: "unat s2 + le_sum r = unat (FOLD_U32T s1) + le_sum bs2" "length r \<le> 1"
    using sum_words_spec [OF _ c] FOLD_le [of s1] by simp_all
  then have n: "unat s2 + (unat (hd0 r) + 256 * unat t1) = unat (FOLD_U32T s1) + le_sum bs2 + 256 * unat t1"
    by (simp add: le_sum_hd0)
  have fit: "unat (FOLD_U32T s1) + le_sum bs2 + 256 * unat t1 < 2 ^ 32"
    using small FOLD_le [of s1] unat_u8_bound [of t1] by simp
  have "same_sum (unat (FOLD_U32T s1) + le_sum bs2) (unat s1 + le_sum bs2)"
    by (rule same_sum_add) (simp_all add: unat_FOLD fold_same_sum)
  also have "same_sum \<dots> (unat s0 + le_sum bs1)" using long by simp
  also have "\<dots> = le_sum bs" by (rule sum_align4_spec [OF a])
  finally have s: "same_sum (unat (FOLD_U32T s1) + le_sum bs2 + 256 * unat t1) (le_sum bs + 256 * unat t1)"
    by (rule same_sum_add) simp
  have "same_sum (if ?od then 256 * (unat (FOLD_U32T s1) + le_sum bs2 + 256 * unat t1)
      else unat (FOLD_U32T s1) + le_sum bs2 + 256 * unat t1)
    (if ?od then 256 * (le_sum bs + 256 * unat t1) else le_sum bs + 256 * unat t1)"
    by (rule same_sum_if [OF s])
  from same_sum_trans [OF this take_odd_spec(1) [OF t]]
  have "ones_sum (if ?od then 256 * (unat (FOLD_U32T s1) + le_sum bs2 + 256 * unat t1)
      else unat (FOLD_U32T s1) + le_sum bs2 + 256 * unat t1) = ones_sum (le_sum data)"
    by (rule ones_sum_cong)
  moreover have "lwip_standard_chksum_v3 a data = finish_chksum ?od s2 (hd0 r) t1"
    unfolding lwip_standard_chksum_v3_def Let_def t prod.case a b c by simp
  ultimately show ?thesis
    using finish_chksum_spec [of s2 "hd0 r" t1 ?od] fit by (simp only: n)
qed

lemma rte_raw_cksum_sum:
  assumes "length data \<le> 0x20000"
  shows "unat (rte_raw_cksum data) = ones_sum (le_sum data)"
proof -
  have b: "le_sum data < 2 ^ 32" using le_sum_bound [of data] assms by simp
  obtain s1 bs where l: "raw_cksum_long 0 data = (s1, bs)" by fastforce
  obtain s2 r where w: "sum_words s1 bs = (s2, r)" by fastforce
  have n1: "unat s1 + le_sum bs = le_sum data" using raw_cksum_long_spec [OF _ l] b by simp
  then have n2: "unat s2 + le_sum r = le_sum data" "length r \<le> 1" using sum_words_spec [OF _ w] b by simp_all
  have n: "unat (rte_raw_cksum_sum data 0) = le_sum data"
    using n2 b by (cases r) (auto simp: rte_raw_cksum_sum_def l w unat_add_small unat_ucast_widen)
  have "rte_raw_cksum data = ucast (FOLD_U32T (FOLD_U32T (rte_raw_cksum_sum data 0)))"
    by (simp only: rte_raw_cksum_def rte_raw_cksum_reduce_def Let_def drop_bit_upper_half FOLD_U32T_def)
  moreover have "unat (FOLD_U32T (FOLD_U32T (rte_raw_cksum_sum data 0))) = ones_sum (le_sum data)"
    by (simp add: unat_FOLD_twice n)
  moreover have "ones_sum (le_sum data) < 65536" using ones_sum_le [of "le_sum data"] by linarith
  ultimately show ?thesis by (simp only: unsigned_ucast_eq take_bit_nat_def) simp
qed

section \<open>What a checksum routine promises\<close>

lemma le_sum_append: "even (length xs) \<Longrightarrow> le_sum (xs @ ys) = le_sum xs + le_sum ys"
  by (induction xs rule: le_sum.induct) auto

lemma le_sum_word: "even (length xs) \<Longrightarrow> le_sum (xs @ c0 # c1 # ys) = le_sum (xs @ 0 # 0 # ys) + unat (ld16 c0 c1)"
  by (simp add: le_sum_append unat_ld16)

lemma unat_NOT: "unat (NOT x :: u16) = 65535 - unat x"
proof -
  have "NOT x = 0xffff - x" by (simp add: not_eq_complement)
  moreover have "x \<le> 0xffff" using unat_u16_bound [of x] by (simp add: word_le_nat_alt)
  ultimately show ?thesis by (simp add: unat_sub)
qed

lemma mod_add_cancel: "(s + c) mod 65535 = (s + d) mod 65535 \<Longrightarrow> c mod 65535 = d mod (65535 :: nat)"
proof -
  assume "(s + c) mod 65535 = (s + d) mod 65535"
  then have "(65534 * s + (s + c)) mod 65535 = (65534 * s + (s + d)) mod 65535" by (rule mod_add_cong [OF refl])
  moreover have "65534 * s + (s + e) = 65535 * s + e" for e by simp
  ultimately show ?thesis by (simp only: mod_mult_self4)
qed

lemma mod_65535_cases:
  assumes "c \<le> 65535" "d \<le> 65535" "c mod 65535 = d mod (65535 :: nat)"
  shows "c = d \<or> {c, d} = {0, 65535}"
proof -
  have "c < 65535 \<or> c = 65535" "d < 65535 \<or> d = 65535" using assms(1,2) by linarith+
  then show ?thesis using assms(3) by auto
qed

lemma ld16_inj: "ld16 c0 c1 = ld16 d0 d1 \<Longrightarrow> c0 = d0 \<and> c1 = d1"
proof -
  assume "ld16 c0 c1 = ld16 d0 d1"
  then have "unat c0 + 256 * unat c1 = unat d0 + 256 * unat d1" by (metis unat_ld16)
  moreover have "unat e0 = (unat e0 + 256 * unat e1) mod 256" "unat e1 = (unat e0 + 256 * unat e1) div 256" for e0 e1 :: u8
    using unat_u8_bound [of e0] by simp_all
  ultimately have "unat c0 = unat d0" "unat c1 = unat d1" by metis+
  then show ?thesis by (simp add: word_unat_eq_iff)
qed

lemma ones_sum_inject: "ones_sum m = ones_sum n \<Longrightarrow> same_sum m n"
  using same_sum_trans [OF same_sum_sym [OF same_sum_ones_sum [of m]]] same_sum_ones_sum [of n] by simp

lemma ld16_zeros: "{unat x, unat y} = {0, 65535} \<Longrightarrow> {x, y} = {0, 0xffff :: u16}"
proof -
  assume "{unat x, unat y} = {0, 65535}"
  then have "unat ` {x, y} = unat ` {0, 0xffff :: u16}" by simp
  then show ?thesis by (subst (asm) inj_image_eq_iff) (simp_all add: inj_on_def word_unat_eq_iff)
qed

lemma sums_differ:
  assumes "(c0, c1) \<noteq> (d0, d1)" and z: "{ld16 c0 c1, ld16 d0 d1} \<noteq> {0, 0xffff}"
  shows "ones_sum (s + unat (ld16 c0 c1)) \<noteq> ones_sum (s + unat (ld16 d0 d1))"
proof
  assume "ones_sum (s + unat (ld16 c0 c1)) = ones_sum (s + unat (ld16 d0 d1))"
  then have "same_sum (s + unat (ld16 c0 c1)) (s + unat (ld16 d0 d1))" by (rule ones_sum_inject)
  then have m: "unat (ld16 c0 c1) mod 65535 = unat (ld16 d0 d1) mod 65535"
    unfolding same_sum_def by (elim conjE mod_add_cancel)
  have "unat (ld16 c0 c1) \<le> 65535" "unat (ld16 d0 d1) \<le> 65535" unfolding unat_ld16 by (rule ld16_bound)+
  from mod_65535_cases [OF this m] show False
  proof
    assume "unat (ld16 c0 c1) = unat (ld16 d0 d1)"
    then have "ld16 c0 c1 = ld16 d0 d1" by (rule word_unat_eq_iff [THEN iffD2])
    then show False using ld16_inj assms(1) by blast
  next
    assume "{unat (ld16 c0 c1), unat (ld16 d0 d1)} = {0, 65535}"
    from ld16_zeros [OF this] z show False by contradiction
  qed
qed

text \<open>A routine that computes the one's complement sum of up to \<open>lim\<close> bytes. What makes it useful: once
  the complement of the sum is stored in a word that was zero, the whole sums up to all ones, and
  changing one word is noticed unless the word changes between the two zeros of one's complement.\<close>

locale internet_sum =
  fixes chk :: "u8 list \<Rightarrow> u16" and lim :: nat
  assumes chk_law: "length data \<le> lim \<Longrightarrow> unat (chk data) = ones_sum (le_sum data)"
begin

lemma verifies:
  assumes "even (length xs)" "length (xs @ c0 # c1 # ys) \<le> lim"
    and c: "ld16 c0 c1 = NOT (chk (xs @ 0 # 0 # ys))"
  shows "chk (xs @ c0 # c1 # ys) = 0xffff"
proof -
  let ?s = "le_sum (xs @ 0 # 0 # ys)"
  have "unat (chk (xs @ 0 # 0 # ys)) = ones_sum ?s" using assms(2) by (intro chk_law) simp
  then have n: "le_sum (xs @ c0 # c1 # ys) = ?s + (65535 - ones_sum ?s)"
    using assms(1) by (simp add: le_sum_word [of xs c0] unat_NOT c)
  have "same_sum (?s + (65535 - ones_sum ?s)) (ones_sum ?s + (65535 - ones_sum ?s))"
    by (rule same_sum_add [OF same_sum_sym [OF same_sum_ones_sum] same_sum_refl])
  then have "same_sum 65535 (le_sum (xs @ c0 # c1 # ys))"
    using n ones_sum_le [of ?s] same_sum_sym by simp
  then have "65535 = ones_sum (le_sum (xs @ c0 # c1 # ys))" by (intro ones_sum_eqI) simp_all
  then have "unat (chk (xs @ c0 # c1 # ys)) = unat (0xffff :: u16)" using chk_law [OF assms(2)] by simp
  then show ?thesis by (simp only: word_unat_eq_iff)
qed

lemma detects:
  assumes "even (length xs)" "length (xs @ c0 # c1 # ys) \<le> lim" "(c0, c1) \<noteq> (d0, d1)"
    and z: "{ld16 c0 c1, ld16 d0 d1} \<noteq> {0, 0xffff}"
  shows "chk (xs @ c0 # c1 # ys) \<noteq> chk (xs @ d0 # d1 # ys)"
proof
  assume e: "chk (xs @ c0 # c1 # ys) = chk (xs @ d0 # d1 # ys)"
  have "unat (chk (xs @ c0 # c1 # ys)) = ones_sum (le_sum (xs @ c0 # c1 # ys))"
    "unat (chk (xs @ d0 # d1 # ys)) = ones_sum (le_sum (xs @ d0 # d1 # ys))"
    using assms(2) by (auto intro!: chk_law)
  then have "ones_sum (le_sum (xs @ c0 # c1 # ys)) = ones_sum (le_sum (xs @ d0 # d1 # ys))"
    by (simp only: e)
  then have "ones_sum (le_sum (xs @ 0 # 0 # ys) + unat (ld16 c0 c1)) = ones_sum (le_sum (xs @ 0 # 0 # ys) + unat (ld16 d0 d1))"
    by (simp only: le_sum_word [OF assms(1), of c0] le_sum_word [OF assms(1), of d0])
  then show False using sums_differ [OF assms(3) z] by blast
qed

end

interpretation lwip2: internet_sum "lwip_standard_chksum_v2 a" "0x20000" for a
  by unfold_locales (rule lwip_v2_sum)

interpretation lwip3: internet_sum "lwip_standard_chksum_v3 a" n for a n
  by unfold_locales (rule lwip_v3_sum)

interpretation rte_raw: internet_sum rte_raw_cksum "0x20000"
  by unfold_locales (rule rte_raw_cksum_sum)

section \<open>Headers\<close>

lemma unat_htons: "unat (htons x) = swap16 (unat x)"
proof -
  have "htons x = push_bit 8 x + drop_bit 8 x" unfolding htons_def
    by (rule disjunctive_add [symmetric]) (auto simp: bit_simps dest: bit_imp_le_length)
  also have "push_bit 8 x = push_bit 8 (x AND 0xff)"
  proof -
    have m: "(0xff :: u16) = mask 8" by (simp add: mask_eq_exp_minus_1)
    show ?thesis unfolding m by (rule bit_word_eqI) (auto simp: bit_simps dest: bit_imp_le_length)
  qed
  finally have e: "htons x = push_bit 8 (x AND 0xff) + drop_bit 8 x" .
  have "unat (x AND 0xff) = unat x mod 256" using unat_and_mask [of x 8] by simp
  then have "unat (256 * (x AND 0xff)) = 256 * (unat x mod 256)"
    by (subst unat_mult_lem [THEN iffD1]) simp_all
  then have p: "unat (push_bit 8 (x AND 0xff)) = 256 * (unat x mod 256)"
    by (simp add: push_bit_eq_mult mult.commute)
  have d: "unat (drop_bit 8 x) = unat x div 256" by (simp add: unat_drop_bit)
  have "unat x div 256 < 256" using unat_u16_bound [of x] by (simp add: div_less_iff_less_mult)
  then have "unat (push_bit 8 (x AND 0xff)) + unat (drop_bit 8 x) < 2 ^ LENGTH(16)"
    using mod_less_divisor [of 256 "unat x"] unfolding p d by simp
  then show ?thesis unfolding e using p d
    by (simp only: unat_add_lem [THEN iffD1] swap16_def mult.commute)
qed

text \<open>The checksum of \<open>rte_ipv4_cksum\<close> makes the header add up to all ones.\<close>

lemma ones_sum_all_ones_add: "ones_sum s = 65535 \<Longrightarrow> ones_sum (s + 65535) = 65535"
  by (auto simp: ones_sum_def split: if_splits)

lemma rte_ipv4_cksum_20:
  "length h = 20 \<Longrightarrow> rte_ipv4_cksum h = (if rte_raw_cksum h = 0xffff then rte_raw_cksum h else NOT (rte_raw_cksum h))"
  by (simp add: rte_ipv4_cksum_def Let_def)

lemma rte_ipv4_cksum_verifies:
  assumes "even (length xs)" and l: "length (xs @ c0 # c1 # ys) = 20"
    and c: "ld16 c0 c1 = rte_ipv4_cksum (xs @ 0 # 0 # ys)"
  shows "rte_raw_cksum (xs @ c0 # c1 # ys) = 0xffff"
proof -
  have l': "length (xs @ 0 # 0 # ys) = 20" "length (xs @ c0 # c1 # ys) \<le> 0x20000" using l by simp_all
  show ?thesis
  proof (cases "rte_raw_cksum (xs @ 0 # 0 # ys) = 0xffff")
    case False
    then show ?thesis using c by (intro rte_raw.verifies [OF assms(1) l'(2)]) (simp add: rte_ipv4_cksum_20 [OF l'(1)])
  next
    case True
    have "unat (rte_raw_cksum (xs @ 0 # 0 # ys)) = ones_sum (le_sum (xs @ 0 # 0 # ys))"
      using l' by (intro rte_raw_cksum_sum) simp
    then have "ones_sum (le_sum (xs @ 0 # 0 # ys)) = 65535" using True by simp
    moreover have "unat (ld16 c0 c1) = 65535" using c True by (simp add: rte_ipv4_cksum_20 [OF l'(1)])
    ultimately have "ones_sum (le_sum (xs @ c0 # c1 # ys)) = 65535"
      by (simp only: le_sum_word [OF assms(1), of c0] ones_sum_all_ones_add)
    then have "unat (rte_raw_cksum (xs @ c0 # c1 # ys)) = unat (0xffff :: u16)"
      using rte_raw_cksum_sum [OF l'(2)] by simp
    then show ?thesis by (simp only: word_unat_eq_iff)
  qed
qed

text \<open>Changing one word of a header changes its checksum, with the same exception.\<close>

lemma unat_rte_ipv4_cksum:
  assumes "length data = 20"
  shows "unat (rte_ipv4_cksum data) =
    (if ones_sum (le_sum data) = 65535 then 65535 else 65535 - ones_sum (le_sum data))"
proof -
  have s: "unat (rte_raw_cksum data) = ones_sum (le_sum data)" using assms by (intro rte_raw_cksum_sum) simp
  have "rte_raw_cksum data = 0xffff \<longleftrightarrow> unat (rte_raw_cksum data) = unat (0xffff :: u16)"
    by (simp only: word_unat_eq_iff)
  then have "rte_raw_cksum data = 0xffff \<longleftrightarrow> ones_sum (le_sum data) = 65535" using s by simp
  then show ?thesis by (simp add: rte_ipv4_cksum_20 [OF assms] unat_NOT s)
qed

lemma ones_sum_zero: "ones_sum n = 0 \<longleftrightarrow> n = 0"
  by (simp add: ones_sum_def)

lemma ones_sum_small_max: "n \<le> 65535 \<Longrightarrow> ones_sum n = 65535 \<Longrightarrow> n = 65535"
  by (metis ones_sum_eqI same_sum_refl)

lemma one_word_max_nat:
  assumes "ones_sum (s + c) = 0" "ones_sum (s + d) = 65535" "d \<le> 65535"
  shows "c = 0" "d = 65535"
proof -
  have "s = 0" and c: "c = 0" using assms(1) by (simp_all add: ones_sum_zero)
  then have "ones_sum d = 65535" using assms(2) by simp
  with assms(3) show "d = 65535" by (rule ones_sum_small_max)
  show "c = 0" by (rule c)
qed

lemma one_word_max:
  assumes "ones_sum (s + unat (ld16 c0 c1)) = 0" "ones_sum (s + unat (ld16 d0 d1)) = 65535"
  shows "ld16 c0 c1 = 0 \<and> ld16 d0 d1 = 0xffff"
proof -
  have "unat (ld16 d0 d1) \<le> 65535" unfolding unat_ld16 by (rule ld16_bound)
  note n = one_word_max_nat [OF assms this]
  have "unat (0xffff :: u16) = 65535" by simp
  then have "unat (ld16 d0 d1) = unat (0xffff :: u16)" by (simp only: n)
  moreover have "unat (ld16 c0 c1) = unat (0 :: u16)" by (simp only: n unat_0)
  ultimately show ?thesis by (simp only: word_unat_eq_iff simp_thms)
qed

lemma complement_cases:
  assumes "(if c = 65535 then 65535 else 65535 - c) = (if d = 65535 then 65535 else 65535 - (d :: nat))"
    and "c \<le> 65535" "d \<le> 65535"
  obtains "c = d" | "c = 0" "d = 65535" | "c = 65535" "d = 0"
proof (cases "c = 65535"; cases "d = 65535")
  assume "c \<noteq> 65535" "d \<noteq> 65535"
  then have "65535 - c = 65535 - d" using assms(1) by simp
  then show thesis using assms(2,3) by (intro that(1)) linarith
qed (use assms that in simp_all)

lemma rte_ipv4_cksum_detects:
  assumes "even (length xs)" "length (xs @ c0 # c1 # ys) = 20" "(c0, c1) \<noteq> (d0, d1)"
    and z: "{ld16 c0 c1, ld16 d0 d1} \<noteq> {0, 0xffff}"
  shows "rte_ipv4_cksum (xs @ c0 # c1 # ys) \<noteq> rte_ipv4_cksum (xs @ d0 # d1 # ys)"
proof
  let ?c = "ones_sum (le_sum (xs @ 0 # 0 # ys) + unat (ld16 c0 c1))"
  let ?d = "ones_sum (le_sum (xs @ 0 # 0 # ys) + unat (ld16 d0 d1))"
  assume e: "rte_ipv4_cksum (xs @ c0 # c1 # ys) = rte_ipv4_cksum (xs @ d0 # d1 # ys)"
  have "unat (rte_ipv4_cksum (xs @ c0 # c1 # ys)) = (if ?c = 65535 then 65535 else 65535 - ?c)"
    using unat_rte_ipv4_cksum [OF assms(2)] by (simp only: le_sum_word [OF assms(1), of c0])
  moreover have "length (xs @ d0 # d1 # ys) = 20" using assms(2) by simp
  from unat_rte_ipv4_cksum [OF this]
  have "unat (rte_ipv4_cksum (xs @ d0 # d1 # ys)) = (if ?d = 65535 then 65535 else 65535 - ?d)"
    by (simp only: le_sum_word [OF assms(1), of d0])
  ultimately have "(if ?c = 65535 then 65535 else 65535 - ?c) = (if ?d = 65535 then 65535 else 65535 - ?d)"
    by (simp only: e)
  from complement_cases [OF this ones_sum_le ones_sum_le] show False
  proof cases
    case 1
    then show False using sums_differ [OF assms(3) z] by blast
  next
    case 2
    then show False using one_word_max [OF 2] z by simp
  next
    case 3
    then show False using one_word_max [OF 3(2,1)] z by (simp add: insert_commute)
  qed
qed

text \<open>The two routines that complement differ only where the sum is the negative zero.\<close>

lemma rte_ipv4_cksum_inet:
  assumes "length data = 20"
  shows "rte_ipv4_cksum data = (if ones_sum (le_sum data) = 65535 then 0xffff else inet_chksum a data 20)"
proof -
  have l: "length data \<le> 0x20000" using assms by simp
  have "unat (rte_raw_cksum data) = unat (lwip_standard_chksum_v2 a data)"
    using l by (simp only: rte_raw_cksum_sum lwip_v2_sum)
  then have e: "rte_raw_cksum data = lwip_standard_chksum_v2 a data" by (simp only: word_unat_eq_iff)
  have "rte_raw_cksum data = 0xffff \<longleftrightarrow> unat (rte_raw_cksum data) = unat (0xffff :: u16)" by (simp only: word_unat_eq_iff)
  then have "rte_raw_cksum data = 0xffff \<longleftrightarrow> ones_sum (le_sum data) = 65535"
    using rte_raw_cksum_sum [OF l] by simp
  then show ?thesis using assms by (simp add: rte_ipv4_cksum_20 inet_chksum_def e)
qed

section \<open>Property\<close>

text \<open>Property C11: the checksum routines are interchangeable. For any data of fewer than 64k bytes at any
  address, aligned or not, the three versions of \<open>lwip_standard_chksum\<close>, the first with a \<open>htons\<close> that
  swaps bytes, and \<open>rte_raw_cksum\<close> give the same value, the one's complement sum of the 16-bit words;
  \<open>inet_chksum\<close>, called with the length of the data, gives its complement. For the 20 bytes of an IPv4 header
  \<open>rte_ipv4_cksum\<close> gives what \<open>inet_chksum\<close> gives, except 0xffff in place of 0.\<close>

theorem chksum_routines_agree:
  assumes "\<And>x. unat (lwip_htons x) = swap16 (unat x)" and "length data < 0x10000"
  shows "unat (lwip_standard_chksum_v1 lwip_htons data) = ones_sum (le_sum data) \<and>
    unat (lwip_standard_chksum_v2 a data) = ones_sum (le_sum data) \<and>
    unat (lwip_standard_chksum_v3 a data) = ones_sum (le_sum data) \<and>
    unat (rte_raw_cksum data) = ones_sum (le_sum data) \<and>
    unat (inet_chksum a data (of_nat (length data))) = 65535 - ones_sum (le_sum data) \<and>
    (length data = 20 \<longrightarrow>
       rte_ipv4_cksum data = (if inet_chksum a data 20 = 0 then 0xffff else inet_chksum a data 20))"
proof -
  have l: "length data \<le> 0x20000" using assms(2) by simp
  have "unat (of_nat (length data) :: u16) = length data" using assms(2) by (simp add: unat_of_nat)
  then have i: "unat (inet_chksum a data (of_nat (length data))) = 65535 - ones_sum (le_sum data)"
    using l by (simp only: inet_chksum_def unat_NOT lwip_v2_sum take_all order_refl)
  have "rte_ipv4_cksum data = (if inet_chksum a data 20 = 0 then 0xffff else inet_chksum a data 20)" if h: "length data = 20"
  proof -
    have "inet_chksum a data 20 = 0 \<longleftrightarrow> unat (inet_chksum a data 20) = 0" by (simp only: unat_eq_0)
    also have "\<dots> \<longleftrightarrow> ones_sum (le_sum data) = 65535"
      using ones_sum_le [of "le_sum data"] i unfolding h by (simp only: of_nat_numeral) linarith
    finally show ?thesis using rte_ipv4_cksum_inet [OF h, of a] by (simp only: simp_thms)
  qed
  then show ?thesis
    using lwip_v1_sum [OF assms(1) l] lwip_v2_sum [OF l] lwip_v3_sum [of a data] rte_raw_cksum_sum [OF l] i by blast
qed

text \<open>An IPv4 header, without its checksum, at an odd address.\<close>

theorem chksum_routines_agree_witness:
  "unat (lwip_standard_chksum_v2 7 [0x45, 0, 0, 28, 0, 3, 0, 0, 64, 17, 0, 0, 10, 0, 0, 1, 10, 0, 0, 2]) = 13209 \<and>
   lwip_standard_chksum_v1 htons [0x45, 0, 0, 28, 0, 3, 0, 0, 64, 17, 0, 0, 10, 0, 0, 1, 10, 0, 0, 2] =
     lwip_standard_chksum_v3 7 [0x45, 0, 0, 28, 0, 3, 0, 0, 64, 17, 0, 0, 10, 0, 0, 1, 10, 0, 0, 2] \<and>
   rte_ipv4_cksum [0x45, 0, 0, 28, 0, 3, 0, 0, 64, 17, 0, 0, 10, 0, 0, 1, 10, 0, 0, 2] =
     inet_chksum 7 [0x45, 0, 0, 28, 0, 3, 0, 0, 64, 17, 0, 0, 10, 0, 0, 1, 10, 0, 0, 2] 20"
proof -
  let ?h = "[0x45, 0, 0, 28, 0, 3, 0, 0, 64, 17, 0, 0, 10, 0, 0, 1, 10, 0, 0, 2] :: u8 list"
  have s: "ones_sum (le_sum ?h) = 13209" by (simp add: ones_sum_def)
  have l: "length ?h < 0x10000" "length ?h = 20" by simp_all
  note w = chksum_routines_agree [of htons ?h 7, OF unat_htons l(1), unfolded s l(2)]
  have "inet_chksum 7 ?h 20 \<noteq> 0" using w by auto
  then show ?thesis using w by (simp add: word_unat_eq_iff)
qed

end
