(* ===== verification/Packet_Headers.thy ===== *)
theory Packet_Headers
  imports Queue_Interface Inet_Chksum
begin

text \<open>
  The packet headers of \<open>lib/libcleanq_udp/include/cleanq_pkt_headers.h\<close> and the memory the packets
  lie in. A header is a record; since the structures are packed, its bytes in memory are its fields
  one after the other, each little endian. Fields in network order are stored swapped by the code,
  with \<open>htons\<close>.

  Contents: constants and headers with their bytes; memory as a map from addresses to bytes, with
  reading and writing of byte sequences; how writes and reads interact.
\<close>

section \<open>Constants and headers\<close>

definition NETIF_RXFLAG :: u64 where "NETIF_RXFLAG = 2 ^ 28"
definition NETIF_TXFLAG :: u64 where "NETIF_TXFLAG = 2 ^ 29"
definition UDP_PROT :: u8 where "UDP_PROT = 0"
definition TCP_PROT :: u8 where "TCP_PROT = 1"
definition ETHTYPE_IP :: u16 where "ETHTYPE_IP = 0x0800"
definition IP_DF :: u16 where "IP_DF = 0x4000"
definition IP_PROTO_UDP :: u8 where "IP_PROTO_UDP = 17"

abbreviation ETH_HLEN :: u64 where "ETH_HLEN \<equiv> 14"
abbreviation IP_HLEN :: u64 where "IP_HLEN \<equiv> 20"

datatype eth_addr = Eth_Addr u8 u8 u8 u8 u8 u8

record eth_hdr =
  eth_dest :: eth_addr
  eth_src :: eth_addr
  eth_type :: u16

record ip_hdr =
  ip_v_hl :: u8
  ip_tos :: u8
  ip_len :: u16
  ip_id :: u16
  ip_offset :: u16
  ip_ttl :: u8
  ip_proto :: u8
  ip_chksum :: u16
  ip_src :: u32
  ip_dest :: u32

record udp_hdr =
  udp_src :: u16
  udp_dest :: u16
  udp_len :: u16
  udp_chksum :: u16

text \<open>The bytes of a field and of a header.\<close>

definition st16 :: "u16 \<Rightarrow> u8 list" where
  "st16 v = [ucast v, ucast (drop_bit 8 v)]"

definition st32 :: "u32 \<Rightarrow> u8 list" where
  "st32 v = st16 (ucast v) @ st16 (ucast (drop_bit 16 v))"

fun mac_bytes :: "eth_addr \<Rightarrow> u8 list" where
  "mac_bytes (Eth_Addr a b c d e f) = [a, b, c, d, e, f]"

definition eth_bytes :: "eth_hdr \<Rightarrow> u8 list" where
  "eth_bytes h = mac_bytes (eth_dest h) @ mac_bytes (eth_src h) @ st16 (eth_type h)"

definition ip_bytes :: "ip_hdr \<Rightarrow> u8 list" where
  "ip_bytes h = [ip_v_hl h, ip_tos h] @ st16 (ip_len h) @ st16 (ip_id h) @ st16 (ip_offset h) @
     [ip_ttl h, ip_proto h] @ st16 (ip_chksum h) @ st32 (ip_src h) @ st32 (ip_dest h)"

definition udp_bytes :: "udp_hdr \<Rightarrow> u8 list" where
  "udp_bytes h = st16 (udp_src h) @ st16 (udp_dest h) @ st16 (udp_len h) @ st16 (udp_chksum h)"

text \<open>Reading a field from its bytes.\<close>

definition rd16 :: "u8 list \<Rightarrow> u16" where
  "rd16 bs = ld16 (bs ! 0) (bs ! 1)"

definition rd32 :: "u8 list \<Rightarrow> u32" where
  "rd32 bs = ld32 (bs ! 0) (bs ! 1) (bs ! 2) (bs ! 3)"

section \<open>Packet memory\<close>

text \<open>The addresses of the process; an access to an address that is not mapped is a bad access.\<close>

type_synonym pkt_mem = "u64 \<rightharpoonup> u8"

fun mem_read :: "pkt_mem \<Rightarrow> u64 \<Rightarrow> nat \<Rightarrow> u8 list cres" where
  "mem_read m a 0 = Inr []"
| "mem_read m a (Suc n) = bindc (deref m a) (\<lambda>b. bindc (mem_read m (a + 1) n) (\<lambda>bs. Inr (b # bs)))"

fun mem_write :: "pkt_mem \<Rightarrow> u64 \<Rightarrow> u8 list \<Rightarrow> pkt_mem cres" where
  "mem_write m a [] = Inr m"
| "mem_write m a (b # bs) = bindc (deref m a) (\<lambda>_. mem_write (m(a \<mapsto> b)) (a + 1) bs)"

text \<open>The regions a module knows, by region identifier modulo 64.\<close>

definition MAX_NUM_REGIONS :: nat where "MAX_NUM_REGIONS = 64"

record region_vaddr =
  rv_va :: u64
  rv_rid :: regionid

definition vaddr_slot :: "regionid \<Rightarrow> nat" where
  "vaddr_slot rid = unat rid mod MAX_NUM_REGIONS"

lemma vaddr_slot_less [simp]: "vaddr_slot rid < MAX_NUM_REGIONS"
  by (simp add: vaddr_slot_def MAX_NUM_REGIONS_def)

text \<open>Where the code takes the frame of a buffer to start: 128 bytes behind the valid data.\<close>

definition frame_addr :: "region_vaddr list \<Rightarrow> cleanq_buf \<Rightarrow> u64" where
  "frame_addr rs b = rv_va (rs ! vaddr_slot (b_rid b)) + b_offset b + b_valid_data b + 128"

section \<open>Bytes of fields\<close>

lemma length_st16 [simp]: "length (st16 v) = 2"
  by (simp add: st16_def)

lemma length_st32 [simp]: "length (st32 v) = 4"
  by (simp add: st32_def)

lemma length_mac_bytes [simp]: "length (mac_bytes a) = 6"
  by (cases a) simp

lemma length_eth_bytes [simp]: "length (eth_bytes h) = 14"
  by (simp add: eth_bytes_def)

lemma length_ip_bytes [simp]: "length (ip_bytes h) = 20"
  by (simp add: ip_bytes_def)

lemma length_udp_bytes [simp]: "length (udp_bytes h) = 8"
  by (simp add: udp_bytes_def)

lemma ld16_st16 [simp]: "ld16 (ucast v) (ucast (drop_bit 8 v)) = v"
proof -
  have "unat (ucast v :: u8) = unat v mod 256" by (simp add: unsigned_ucast_eq take_bit_nat_def)
  moreover have "unat v div 256 < 256" using unat_u16_bound [of v] by (simp add: div_less_iff_less_mult)
  then have "unat (ucast (drop_bit 8 v) :: u8) = unat v div 256"
    by (simp add: unsigned_ucast_eq take_bit_nat_def unat_drop_bit)
  ultimately have "unat (ld16 (ucast v) (ucast (drop_bit 8 v))) = unat v"
    by (simp add: unat_ld16)
  then show ?thesis by (simp only: word_unat_eq_iff)
qed

lemma rd16_st16 [simp]: "rd16 (st16 v) = v"
  by (simp add: rd16_def st16_def)

lemma rd32_halves: "rd32 (st16 x @ st16 y) = ucast x + 65536 * ucast y"
  by (simp add: rd32_def st16_def ld32_def)

lemma rd32_st32 [simp]: "rd32 (st32 v) = v"
proof -
  have d: "unat v div 65536 < 65536" using unat_u32_bound [of v] by (simp add: div_less_iff_less_mult)
  have "unat (ucast (ucast v :: u16) :: u32) = unat (ucast v :: u16)" by (rule unat_ucast_widen) simp
  also have "\<dots> = unat v mod 65536" by (simp add: unsigned_ucast_eq take_bit_nat_def)
  finally have lo: "unat (ucast (ucast v :: u16) :: u32) = unat v mod 65536" .
  have "unat (ucast (ucast (drop_bit 16 v) :: u16) :: u32) = unat (ucast (drop_bit 16 v) :: u16)"
    by (rule unat_ucast_widen) simp
  also have "\<dots> = unat v div 65536" using d by (simp add: unsigned_ucast_eq take_bit_nat_def unat_drop_bit)
  finally have hi: "unat (ucast (ucast (drop_bit 16 v) :: u16) :: u32) = unat v div 65536" .
  have e: "rd32 (st32 v) = ucast (ucast v :: u16) + 65536 * ucast (ucast (drop_bit 16 v) :: u16)"
    unfolding st32_def by (rule rd32_halves)
  have "unat (65536 * ucast (ucast (drop_bit 16 v) :: u16) :: u32) = 65536 * (unat v div 65536)"
    using unat_u32_bound [of v] by (subst unat_mult_lem [THEN iffD1]) (simp_all add: hi)
  then have "unat (rd32 (st32 v)) = unat v mod 65536 + 65536 * (unat v div 65536)"
    unfolding e using unat_u32_bound [of v] lo by (subst unat_add_small) simp_all
  then show ?thesis by (simp add: word_unat_eq_iff)
qed

section \<open>Reading and writing memory\<close>

definition mapped :: "pkt_mem \<Rightarrow> u64 \<Rightarrow> nat \<Rightarrow> bool" where
  "mapped m a n \<longleftrightarrow> (\<forall>i<n. m (a + of_nat i) \<noteq> None)"

text \<open>The \<open>n\<close> bytes from an address on, and memory with a sequence of bytes put there.\<close>

definition bytes_at :: "pkt_mem \<Rightarrow> u64 \<Rightarrow> nat \<Rightarrow> u8 list" where
  "bytes_at m a n = map (\<lambda>i. the (m (a + of_nat i))) [0..<n]"

definition put :: "pkt_mem \<Rightarrow> u64 \<Rightarrow> u8 list \<Rightarrow> pkt_mem" where
  "put m a bs = (\<lambda>x. if unat (x - a) < length bs then Some (bs ! unat (x - a)) else m x)"

lemma length_bytes_at [simp]: "length (bytes_at m a n) = n"
  by (simp add: bytes_at_def)

lemma nth_bytes_at [simp]: "i < n \<Longrightarrow> bytes_at m a n ! i = the (m (a + of_nat i))"
  by (simp add: bytes_at_def)

lemma bytes_at_0 [simp]: "bytes_at m a 0 = []"
  by (simp add: bytes_at_def)

lemma mapped_Suc: "mapped m a (Suc n) \<longleftrightarrow> m a \<noteq> None \<and> mapped m (a + 1) n"
  by (auto simp: mapped_def less_Suc_eq_0_disj add.assoc)

lemma bytes_at_Suc: "bytes_at m a (Suc n) = the (m a) # bytes_at m (a + 1) n"
  unfolding bytes_at_def by (subst map_upt_Suc) (simp add: add.assoc)

lemma mem_read_mapped: "mapped m a n \<Longrightarrow> mem_read m a n = Inr (bytes_at m a n)"
  by (induction n arbitrary: a) (auto simp: mapped_Suc bytes_at_Suc)

lemma put_Nil [simp]: "put m a [] = m"
  by (simp add: put_def)

lemma unat_diff_step:
  fixes x a :: u64
  assumes "x \<noteq> a"
  shows "unat (x - a) = Suc (unat (x - (a + 1)))"
proof -
  have "x - a \<noteq> 0" using assms by simp
  then have "unat (x - a) = Suc (unat (x - a - 1))" by (simp add: unat_minus_one unat_gt_0)
  then show ?thesis by (simp add: diff_diff_eq)
qed

lemma put_Cons:
  assumes "length bs < 2 ^ 64"
  shows "put m a (b # bs) = put (m(a \<mapsto> b)) (a + 1) bs"
proof
  fix x
  show "put m a (b # bs) x = put (m(a \<mapsto> b)) (a + 1) bs x"
  proof (cases "x = a")
    case True
    have "(a :: u64) - (a + 1) = - 1" by simp
    then have "unat (a - (a + 1)) = 2 ^ 64 - 1" by (simp add: unsigned_minus_1_eq_mask mask_nat_def)
    then show ?thesis using assms True by (simp add: put_def)
  next
    case False
    then show ?thesis by (simp add: put_def unat_diff_step)
  qed
qed

lemma mapped_upd [simp]: "mapped m a n \<Longrightarrow> mapped (m(c \<mapsto> b)) a n"
  by (simp add: mapped_def)

lemma mapped_put: "mapped m a n \<Longrightarrow> mapped (put m c bs) a n"
  by (simp add: mapped_def put_def)

lemma mem_write_mapped:
  "mapped m a (length bs) \<Longrightarrow> length bs \<le> 2 ^ 64 \<Longrightarrow> mem_write m a bs = Inr (put m a bs)"
proof (induction bs arbitrary: m a)
  case (Cons b bs)
  then have m: "mapped (m(a \<mapsto> b)) (a + 1) (length bs)" "length bs \<le> 2 ^ 64" and "m a \<noteq> None"
    by (simp_all add: mapped_Suc)
  then obtain y where "m a = Some y" by blast
  then have "mem_write m a (b # bs) = mem_write (m(a \<mapsto> b)) (a + 1) bs" by (simp only: mem_write.simps deref_Some bindc_Inr)
  also have "\<dots> = Inr (put (m(a \<mapsto> b)) (a + 1) bs)" by (rule Cons.IH [OF m])
  finally show ?case using Cons.prems(2) by (simp only: put_Cons length_Cons Suc_le_lessD)
qed simp

text \<open>Reading inside what was written.\<close>

lemma bytes_at_put:
  assumes "i + n \<le> length bs" "length bs < 2 ^ 64"
  shows "bytes_at (put m a bs) (a + of_nat i) n = take n (drop i bs)"
proof (rule nth_equalityI)
  fix j assume "j < length (bytes_at (put m a bs) (a + of_nat i) n)"
  then have j: "j < n" by simp
  have "unat (of_nat (i + j) :: u64) = i + j" using assms j by (simp add: unat_of_nat del: of_nat_add)
  moreover have "a + of_nat i + of_nat j - a = (of_nat (i + j) :: u64)" by simp
  ultimately show "bytes_at (put m a bs) (a + of_nat i) n ! j = take n (drop i bs) ! j"
    using assms j by (simp add: put_def)
qed (use assms in simp)

lemma bytes_at_put_same: "length bs < 2 ^ 64 \<Longrightarrow> bytes_at (put m a bs) a (length bs) = bs"
  using bytes_at_put [of 0 "length bs" bs m a] by simp

text \<open>Reading elsewhere.\<close>

definition apart :: "u64 \<Rightarrow> nat \<Rightarrow> u64 \<Rightarrow> nat \<Rightarrow> bool" where
  "apart a k c n \<longleftrightarrow> (\<forall>i<n. k \<le> unat (c + of_nat i - a))"

lemma bytes_at_put_apart: "apart a (length bs) c n \<Longrightarrow> bytes_at (put m a bs) c n = bytes_at m c n"
  unfolding bytes_at_def apart_def by (rule map_cong) (auto simp: put_def dest: leD)

lemma put_apart: "length bs \<le> unat (x - a) \<Longrightarrow> put m a bs x = m x"
  by (simp add: put_def)

lemma put_put_same: "length bs = length cs \<Longrightarrow> put (put m a bs) a cs = put m a cs"
  by (auto simp: put_def fun_eq_iff)

text \<open>Writing back what was there changes nothing.\<close>

lemma put_bytes_at:
  assumes "mapped m a n"
  shows "put m a (bytes_at m a n) = m"
proof
  fix x
  have "x = a + of_nat (unat (x - a))" by simp
  then show "put m a (bytes_at m a n) x = m x"
    using assms unfolding mapped_def put_def by (metis length_bytes_at nth_bytes_at option.collapse)
qed

lemma bytes_at_split: "bytes_at m a (k + n) = bytes_at m a k @ bytes_at m (a + of_nat k) n"
  unfolding bytes_at_def by (rule nth_equalityI) (auto simp: nth_append add.assoc simp flip: of_nat_add)

lemma mapped_sub: "mapped m a n \<Longrightarrow> k + l \<le> n \<Longrightarrow> mapped m (a + of_nat k) l"
  unfolding mapped_def by (auto simp: add.assoc simp flip: of_nat_add)

text \<open>Parts of a byte sequence, and a write into the middle of one.\<close>

lemma bytes_at_sub: "k + l \<le> n \<Longrightarrow> bytes_at m (a + of_nat k) l = take l (drop k (bytes_at m a n))"
  by (rule nth_equalityI) (auto simp: add.assoc simp flip: of_nat_add)

lemma unat_offset_diff:
  assumes "i < 2 ^ 64" "j < 2 ^ 64"
  shows "unat (of_nat j - of_nat i :: u64) = (if i \<le> j then j - i else 2 ^ 64 - (i - j))"
proof (cases "i \<le> j")
  case True
  then have e: "(of_nat j - of_nat i :: u64) = of_nat (j - i)" by simp
  have "unat (of_nat (j - i) :: u64) = j - i" using assms by (simp add: unat_of_nat del: of_nat_diff)
  then show ?thesis unfolding e using True by (simp only: if_True)
next
  case False
  have "(of_nat (2 ^ 64 - (i - j)) :: u64) = of_nat (2 ^ 64) - of_nat (i - j)"
    using assms False by (intro of_nat_diff) simp
  also have "\<dots> = of_nat j - of_nat i" using False by simp
  finally have e: "(of_nat j - of_nat i :: u64) = of_nat (2 ^ 64 - (i - j))" by simp
  have "unat (of_nat (2 ^ 64 - (i - j)) :: u64) = 2 ^ 64 - (i - j)"
    using assms False by (simp add: unat_of_nat del: of_nat_diff)
  then show ?thesis unfolding e using False by (simp only: if_False)
qed

lemma bytes_at_put_mid:
  assumes "i + length bs \<le> n" "n < 2 ^ 63"
  shows "bytes_at (put m (a + of_nat i) bs) a n =
    take i (bytes_at m a n) @ bs @ drop (i + length bs) (bytes_at m a n)"
proof (rule nth_equalityI)
  fix j assume "j < length (bytes_at (put m (a + of_nat i) bs) a n)"
  then have j: "j < n" by simp
  have d: "a + of_nat j - (a + of_nat i) = (of_nat j - of_nat i :: u64)" by simp
  have u: "unat (a + of_nat j - (a + of_nat i)) = (if i \<le> j then j - i else 2 ^ 64 - (i - j))"
    unfolding d using assms j by (intro unat_offset_diff) simp_all
  show "bytes_at (put m (a + of_nat i) bs) a n ! j =
    (take i (bytes_at m a n) @ bs @ drop (i + length bs) (bytes_at m a n)) ! j"
    using j assms unfolding nth_bytes_at [OF j] put_def u by (auto simp: nth_append)
qed (use assms in simp)

end
