(* ===== verification/Echo_Server.thy ===== *)
theory Echo_Server
  imports Ixgbe_Simple_Tx Packet_Headers
begin

text \<open>
  The echo server, \<open>lcore_main\<close> of \<open>src/main.c\<close> (the same text in \<open>benchmark_cleanq/main.c\<close> and
  \<open>benchmark_dpdk/main.c\<close>; \<open>benchmark_sosp/main.c\<close> leaves the ports as they are), with the functions of
  \<open>lib/librte_net/rte_ip.h\<close> and \<open>rte_ether.h\<close> it uses. A packet is the list of the bytes from \<open>rte_pktmbuf_mtod\<close> up to the end of the
  mbuf's buffer; an access behind it is a bad access.

  Contents: the handling of one packet, of a burst and of one round of a port; that the reply to a
  UDP packet is the packet with the addresses and ports exchanged and with checksums that verify; that the reply to the
  reply is the packet; that every mbuf received is sent or freed, exactly once; the packets for which the
  server reads beyond the buffer or computes a wrong checksum.
\<close>

section \<open>Bytes of a packet\<close>

definition pkt_slice :: "u8 list \<Rightarrow> nat \<Rightarrow> nat \<Rightarrow> u8 list cres" where
  "pkt_slice bs off n = (if off + n \<le> length bs then Inr (take n (drop off bs)) else Inl Bad_Memory)"

definition pkt_patch :: "u8 list \<Rightarrow> nat \<Rightarrow> u8 list \<Rightarrow> u8 list cres" where
  "pkt_patch bs off new =
     (if off + length new \<le> length bs then Inr (take off bs @ new @ drop (off + length new) bs) else Inl Bad_Memory)"

section \<open>Checksums\<close>

definition PKT_TX_TCP_SEG :: u64 where "PKT_TX_TCP_SEG = push_bit 50 1"

text \<open>The pseudo header; \<open>h\<close> are the bytes of \<open>struct ipv4_hdr\<close>.\<close>

definition ipv4_psd_header :: "u8 list \<Rightarrow> u64 \<Rightarrow> u8 list" where
  "ipv4_psd_header h ol =
     take 4 (drop 12 h) @ take 4 (drop 16 h) @ [0, h ! 9] @
     st16 (if ol AND PKT_TX_TCP_SEG \<noteq> 0 then 0 else htons (htons (rd16 (drop 2 h)) - 20))"

definition rte_ipv4_phdr_cksum :: "u8 list \<Rightarrow> u64 \<Rightarrow> u16" where
  "rte_ipv4_phdr_cksum h ol = rte_raw_cksum (ipv4_psd_header h ol)"

text \<open>The headers are at the offsets \<open>ip\<close> and \<open>l4\<close> of the packet.\<close>

definition rte_ipv4_udptcp_cksum :: "u8 list \<Rightarrow> nat \<Rightarrow> nat \<Rightarrow> u16 cres" where
  "rte_ipv4_udptcp_cksum bs ip l4 =
     bindc (pkt_slice bs ip 20) (\<lambda>h.
     let l3_len = unat (htons (rd16 (drop 2 h))) in
     if l3_len < 20 then Inr 0
     else bindc (pkt_slice bs l4 (l3_len - 20)) (\<lambda>d.
          let cksum = ucast (rte_raw_cksum d) + ucast (rte_ipv4_phdr_cksum h 0) :: u32;
              cksum1 = drop_bit 16 (cksum AND 0xffff0000) + (cksum AND 0xffff);
              cksum2 = NOT cksum1 AND 0xffff in
          Inr (ucast (if cksum2 = 0 then 0xffff else cksum2))))"

section \<open>One packet\<close>

fun is_same_ether_addr :: "u8 list \<Rightarrow> u8 list \<Rightarrow> bool" where
  "is_same_ether_addr (a # as) (b # bs) = (if a \<noteq> b then False else is_same_ether_addr as bs)"
| "is_same_ether_addr as bs = True"

definition echo_udp :: "bool \<Rightarrow> u8 list \<Rightarrow> nat \<Rightarrow> u8 list cres" where
  "echo_udp swap_ports bs udp =
     bindc (if swap_ports
            then bindc (pkt_slice bs udp 4) (\<lambda>p.
                 bindc (pkt_patch bs udp (drop 2 p)) (\<lambda>bs1. pkt_patch bs1 (udp + 2) (take 2 p)))
            else Inr bs) (\<lambda>bs1.
     bindc (pkt_patch bs1 (udp + 6) [0, 0]) (\<lambda>bs2.
     bindc (rte_ipv4_udptcp_cksum bs2 14 udp) (\<lambda>c.
     pkt_patch bs2 (udp + 6) (st16 c))))"

definition echo_ipv4 :: "bool \<Rightarrow> u32 \<Rightarrow> u8 list \<Rightarrow> u8 list cres" where
  "echo_ipv4 swap_ports ptype bs =
     bindc (pkt_slice bs 14 20) (\<lambda>h.
     let ip_hdr_len = (h ! 0 AND 0x0f) * 4 in
     bindc (pkt_patch bs (14 + 12) (take 4 (drop 16 h))) (\<lambda>bs1.
     bindc (pkt_patch bs1 (14 + 16) (take 4 (drop 12 h))) (\<lambda>bs2.
     bindc (pkt_patch bs2 (14 + 10) [0, 0]) (\<lambda>bs3.
     bindc (if ptype AND RTE_PTYPE_L4_UDP \<noteq> 0 then echo_udp swap_ports bs3 (14 + unat ip_hdr_len) else Inr bs3) (\<lambda>bs4.
     bindc (pkt_slice bs4 14 20) (\<lambda>h4.
     pkt_patch bs4 (14 + 10) (st16 (rte_ipv4_cksum h4))))))))"

text \<open>None for a packet that is freed, the new bytes of one that is sent.\<close>

definition echo_packet :: "bool \<Rightarrow> u8 list \<Rightarrow> u32 \<Rightarrow> u8 list \<Rightarrow> u8 list option cres" where
  "echo_packet swap_ports port_addr ptype bs =
     (if ptype AND RTE_PTYPE_L2_ETHER = 0 then Inr None
      else bindc (pkt_slice bs 0 14) (\<lambda>e.
           if is_same_ether_addr port_addr (take 6 e)
           then bindc (pkt_patch bs 6 (take 6 e)) (\<lambda>bs1.
                bindc (pkt_patch bs1 0 (take 6 (drop 6 e))) (\<lambda>bs2.
                bindc (if ptype AND RTE_PTYPE_L3_IPV4 \<noteq> 0 then echo_ipv4 swap_ports ptype bs2 else Inr bs2) (\<lambda>bs3.
                Inr (Some bs3))))
           else Inr None))"

section \<open>A burst and a round\<close>

text \<open>The bytes of each mbuf.\<close>

type_synonym pkt_data = "u64 \<rightharpoonup> u8 list"

text \<open>The loop over the packets received: the ones to send, in order, and the ones freed.\<close>

fun echo_burst ::
  "bool \<Rightarrow> u8 list \<Rightarrow> mbuf_mem \<Rightarrow> pkt_data \<Rightarrow> u64 list \<Rightarrow> (u64 list \<times> u64 list \<times> pkt_data) cres" where
  "echo_burst swap_ports port_addr mem data [] = Inr ([], [], data)"
| "echo_burst swap_ports port_addr mem data (a # as) =
     bindc (deref mem a) (\<lambda>m.
     bindc (deref data a) (\<lambda>bs.
     bindc (echo_packet swap_ports port_addr (packet_type m) bs) (\<lambda>r.
     case r of
       None \<Rightarrow> bindc (echo_burst swap_ports port_addr mem data as) (\<lambda>(tx, fr, data'). Inr (tx, a # fr, data'))
     | Some bs' \<Rightarrow> bindc (echo_burst swap_ports port_addr mem (data(a \<mapsto> bs')) as) (\<lambda>(tx, fr, data'). Inr (a # tx, fr, data')))))"

text \<open>One round of the loop for a port. \<open>tx_burst\<close> is the transmit function of the port: from the state and the packets it
  gives their number sent. The result is that state, the packets handed over, those freed and the bytes.\<close>

definition echo_round ::
  "('s \<Rightarrow> u64 list \<Rightarrow> (u16 \<times> 's) cres) \<Rightarrow> bool \<Rightarrow> u8 list \<Rightarrow> mbuf_mem \<Rightarrow> pkt_data \<Rightarrow> 's \<Rightarrow> u64 list \<Rightarrow>
   (u64 list \<times> u64 list \<times> pkt_data \<times> 's) cres" where
  "echo_round tx_burst swap_ports port_addr mem data s rx_bufs =
     (if rx_bufs = [] then Inr ([], [], data, s)
      else bindc (echo_burst swap_ports port_addr mem data rx_bufs) (\<lambda>(tx_bufs, freed, data').
           if tx_bufs = [] then Inr ([], freed, data', s)
           else bindc (tx_burst s tx_bufs) (\<lambda>(nb_tx, s').
                Inr (take (unat nb_tx) tx_bufs, freed @ drop (unat nb_tx) tx_bufs, data', s'))))"

section \<open>Frames\<close>

text \<open>A UDP packet in an Ethernet frame, by its parts: the addresses \<open>d\<close> and \<open>s\<close> of six bytes, the type, the ten bytes \<open>pre\<close> of
  the IP header up to its checksum \<open>ck\<close>, the addresses of four bytes, the ports, the length \<open>ul\<close>, the
  checksum \<open>uc\<close>, the payload and what follows in the buffer.\<close>

definition udp_frame :: "u8 list \<Rightarrow> u8 list \<Rightarrow> u8 list \<Rightarrow> u8 list \<Rightarrow> u16 \<Rightarrow> u8 list \<Rightarrow> u8 list \<Rightarrow> u8 list \<Rightarrow> u8 list \<Rightarrow>
    u8 list \<Rightarrow> u16 \<Rightarrow> u8 list \<Rightarrow> u8 list \<Rightarrow> u8 list" where
  "udp_frame d s et pre ck src dst sp dp ul uc payload rest =
     d @ s @ et @ (pre @ st16 ck @ src @ dst) @ (sp @ dp @ ul @ st16 uc @ payload) @ rest"

definition ip_head :: "u8 list \<Rightarrow> u16 \<Rightarrow> u8 list \<Rightarrow> u8 list \<Rightarrow> u8 list" where
  "ip_head pre ck src dst = pre @ st16 ck @ src @ dst"

definition udp_part :: "u8 list \<Rightarrow> u8 list \<Rightarrow> u8 list \<Rightarrow> u16 \<Rightarrow> u8 list \<Rightarrow> u8 list" where
  "udp_part sp dp ul uc payload = sp @ dp @ ul @ st16 uc @ payload"

text \<open>The lengths of the parts, a header without options and a length field that says what there is.\<close>

definition parts_ok :: "u8 list \<Rightarrow> u8 list \<Rightarrow> u8 list \<Rightarrow> u8 list \<Rightarrow> u8 list \<Rightarrow> u8 list \<Rightarrow> u8 list \<Rightarrow> u8 list \<Rightarrow> u8 list \<Rightarrow>
    u8 list \<Rightarrow> bool" where
  "parts_ok d s et pre src dst sp dp ul payload \<longleftrightarrow>
     length d = 6 \<and> length s = 6 \<and> length et = 2 \<and> length pre = 10 \<and> length src = 4 \<and> length dst = 4 \<and>
     length sp = 2 \<and> length dp = 2 \<and> length ul = 2 \<and> pre ! 0 = 0x45 \<and>
     unat (htons (rd16 (drop 2 pre))) = 28 + length payload"

text \<open>What the receiver of a packet checks.\<close>

definition ip_verifies :: "u8 list \<Rightarrow> bool" where
  "ip_verifies h \<longleftrightarrow> ones_sum (le_sum h) = 65535"

definition udp_verifies :: "u8 list \<Rightarrow> u8 list \<Rightarrow> bool" where
  "udp_verifies h d \<longleftrightarrow> ones_sum (le_sum (ipv4_psd_header h 0) + le_sum d) = 65535"

section \<open>Checksums of the parts\<close>

lemma slice_at: "pkt_slice (xs @ ys @ zs) (length xs) (length ys) = Inr ys"
  by (simp add: pkt_slice_def)

lemma patch_at: "length ys = length new \<Longrightarrow> pkt_patch (xs @ ys @ zs) (length xs) new = Inr (xs @ new @ zs)"
  by (simp add: pkt_patch_def)

definition l4_cksum :: "u8 list \<Rightarrow> u8 list \<Rightarrow> u16" where
  "l4_cksum h d =
     (let cksum = ucast (rte_raw_cksum d) + ucast (rte_ipv4_phdr_cksum h 0) :: u32;
          cksum1 = drop_bit 16 (cksum AND 0xffff0000) + (cksum AND 0xffff);
          cksum2 = NOT cksum1 AND 0xffff in
      ucast (if cksum2 = 0 then 0xffff else cksum2))"

lemma udptcp_cksum_parts:
  assumes "length e = 14" "length h = 20" "unat (htons (rd16 (drop 2 h))) = 20 + length d"
  shows "rte_ipv4_udptcp_cksum (e @ h @ d @ r) 14 34 = Inr (l4_cksum h d)"
  using slice_at [of e h "d @ r"] slice_at [of "e @ h" d r] assms
  by (simp add: rte_ipv4_udptcp_cksum_def l4_cksum_def Let_def)

lemma unat_NOT_u32: "unat (NOT x :: u32) = 2 ^ 32 - 1 - unat x"
proof -
  have "NOT x = 0xffffffff - x" by (simp add: not_eq_complement)
  moreover have "x \<le> 0xffffffff" using unat_u32_bound [of x] by (simp add: word_le_nat_alt)
  ultimately show ?thesis by (simp add: unat_sub)
qed

lemma length_psd [simp]: "length h = 20 \<Longrightarrow> length (ipv4_psd_header h ol) = 12"
  by (simp add: ipv4_psd_header_def)

text \<open>The checksum is the complement of the sum over the pseudo header and the data, with all ones for zero.\<close>

lemma l4_cksum_unat:
  assumes "length h = 20" "length d \<le> 65535"
  shows "unat (l4_cksum h d) =
    (let c = ones_sum (le_sum (ipv4_psd_header h 0) + le_sum d) in if c = 65535 then 65535 else 65535 - c)"
proof -
  let ?p = "ipv4_psd_header h 0"
  define c where "c = (ucast (rte_raw_cksum d) + ucast (rte_ipv4_phdr_cksum h 0) :: u32)"
  have r: "unat (rte_raw_cksum d) = ones_sum (le_sum d)" "unat (rte_ipv4_phdr_cksum h 0) = ones_sum (le_sum ?p)"
    using assms by (simp_all add: rte_raw_cksum_sum rte_ipv4_phdr_cksum_def)
  have le: "ones_sum (le_sum d) + ones_sum (le_sum ?p) \<le> 131070"
    using ones_sum_le [of "le_sum d"] ones_sum_le [of "le_sum ?p"] by linarith
  then have c: "unat c = ones_sum (le_sum d) + ones_sum (le_sum ?p)"
    unfolding c_def by (subst unat_add_small) (simp_all add: unat_ucast_widen r)
  have "same_sum (unat c) (le_sum d + le_sum ?p)" unfolding c by (intro same_sum_add same_sum_ones_sum)
  then have "same_sum (unat c div 65536 + unat c mod 65536) (le_sum ?p + le_sum d)"
    using same_sum_trans [OF fold_same_sum] by (simp add: add.commute)
  moreover have le1: "unat c div 65536 + unat c mod 65536 \<le> 65535" using le c by (intro fold_small) simp
  ultimately have f: "unat (FOLD_U32T c) = ones_sum (le_sum ?p + le_sum d)" unfolding unat_FOLD by (intro ones_sum_eqI)
  have n: "unat (NOT (FOLD_U32T c) AND 0xffff) = 65535 - ones_sum (le_sum ?p + le_sum d)"
  proof -
    have "(2 ^ 32 - 1 - k) mod 65536 = 65535 - k" if "k \<le> 65535" for k :: nat
    proof -
      have "2 ^ 32 - 1 - k = (65535 - k) + 65536 * 65535" using that by simp
      then have "(2 ^ 32 - 1 - k) mod 65536 = (65535 - k) mod 65536" by (simp only: mod_mult_self2)
      then show ?thesis by simp
    qed
    then show ?thesis unfolding unat_and_ffff unat_NOT_u32 f using ones_sum_le by blast
  qed
  have l4: "l4_cksum h d = ucast (if NOT (FOLD_U32T c) AND 0xffff = 0 then 0xffff else NOT (FOLD_U32T c) AND 0xffff)"
    by (simp only: l4_cksum_def Let_def c_def [symmetric] drop_bit_upper_half FOLD_U32T_def)
  have small: "unat (ucast x :: u16) = unat x" if "unat x \<le> 65535" for x :: u32
    using that by (simp add: unsigned_ucast_eq take_bit_nat_def)
  have z: "NOT (FOLD_U32T c) AND 0xffff = 0 \<longleftrightarrow> ones_sum (le_sum ?p + le_sum d) = 65535"
    using n ones_sum_le [of "le_sum ?p + le_sum d"] unat_eq_0 [of "NOT (FOLD_U32T c) AND 0xffff"] by linarith
  show ?thesis unfolding l4 using z n small [of "NOT (FOLD_U32T c) AND 0xffff"] by (simp add: Let_def)
qed

lemma l4_cksum_verifies:
  assumes "length h = 20" "even (length xs)" "length (xs @ st16 0 @ ys) \<le> 65535"
    "uc = l4_cksum h (xs @ st16 0 @ ys)"
  shows "udp_verifies h (xs @ st16 uc @ ys)"
proof -
  let ?s = "le_sum (ipv4_psd_header h 0) + le_sum (xs @ st16 0 @ ys)"
  have uc: "unat uc = (if ones_sum ?s = 65535 then 65535 else 65535 - ones_sum ?s)"
    using l4_cksum_unat [OF assms(1,3)] assms(4) by (simp add: Let_def)
  have "ld16 (ucast uc) (ucast (drop_bit 8 uc)) = uc" by simp
  then have n: "le_sum (ipv4_psd_header h 0) + le_sum (xs @ st16 uc @ ys) = ?s + unat uc"
    using le_sum_word [OF assms(2), of "ucast uc" "ucast (drop_bit 8 uc)" ys] by (simp add: st16_def)
  have "same_sum (?s + unat uc) (ones_sum ?s + unat uc)"
    by (intro same_sum_add same_sum_refl same_sum_sym [OF same_sum_ones_sum])
  moreover have "same_sum (ones_sum ?s + unat uc) 65535" using uc ones_sum_le [of ?s] by (auto simp: same_sum_def)
  ultimately have "same_sum 65535 (?s + unat uc)" using same_sum_trans same_sum_sym by blast
  then have "65535 = ones_sum (?s + unat uc)" by (intro ones_sum_eqI) simp_all
  then show ?thesis unfolding udp_verifies_def n by simp
qed

lemma length_ip_head [simp]:
  "length pre = 10 \<Longrightarrow> length src = 4 \<Longrightarrow> length dst = 4 \<Longrightarrow> length (ip_head pre ck src dst) = 20"
  by (simp add: ip_head_def)

lemma ip_cksum_verifies:
  assumes "length pre = 10" "length src = 4" "length dst = 4" "ck = rte_ipv4_cksum (ip_head pre 0 src dst)"
  shows "ip_verifies (ip_head pre ck src dst)"
proof -
  have "rte_raw_cksum (pre @ ucast ck # ucast (drop_bit 8 ck) # src @ dst) = 0xffff"
    by (rule rte_ipv4_cksum_verifies) (use assms in \<open>simp_all add: ip_head_def st16_def\<close>)
  then have "rte_raw_cksum (ip_head pre ck src dst) = 0xffff" by (simp add: ip_head_def st16_def)
  moreover have "unat (rte_raw_cksum (ip_head pre ck src dst)) = ones_sum (le_sum (ip_head pre ck src dst))"
    using assms(1-3) by (intro rte_raw_cksum_sum) simp
  ultimately show ?thesis by (simp add: ip_verifies_def)
qed

text \<open>Exchanging addresses and ports does not change the sums.\<close>

lemma ip_cksum_swap:
  assumes "length pre = 10" "length src = 4" "length dst = 4"
  shows "rte_ipv4_cksum (ip_head pre 0 dst src) = rte_ipv4_cksum (ip_head pre 0 src dst)"
proof -
  have "le_sum (ip_head pre 0 dst src) = le_sum (ip_head pre 0 src dst)"
    using assms by (simp add: ip_head_def le_sum_append)
  then have "unat (rte_ipv4_cksum (ip_head pre 0 dst src)) = unat (rte_ipv4_cksum (ip_head pre 0 src dst))"
    using assms by (simp add: unat_rte_ipv4_cksum)
  then show ?thesis by (simp only: word_unat_eq_iff)
qed

lemma psd_ip_head:
  assumes "length pre = 10" "length src = 4" "length dst = 4"
  shows "ipv4_psd_header (ip_head pre ck src dst) 0 = src @ dst @ [0, pre ! 9] @ st16 (htons (htons (rd16 (drop 2 pre)) - 20))"
  using assms by (simp add: ipv4_psd_header_def ip_head_def rd16_def nth_append)

lemma l4_cksum_swap:
  assumes "length pre = 10" "length src = 4" "length dst = 4" "length sp = 2" "length dp = 2"
    "length payload + 8 \<le> 65535" "length ul = 2"
  shows "l4_cksum (ip_head pre 0 dst src) (udp_part dp sp ul 0 payload) =
    l4_cksum (ip_head pre 0 src dst) (udp_part sp dp ul 0 payload)"
proof -
  have "le_sum (ipv4_psd_header (ip_head pre 0 dst src) 0) + le_sum (udp_part dp sp ul 0 payload) =
      le_sum (ipv4_psd_header (ip_head pre 0 src dst) 0) + le_sum (udp_part sp dp ul 0 payload)"
    using assms by (simp add: psd_ip_head udp_part_def le_sum_append del: le_sum.simps)
  then have "unat (l4_cksum (ip_head pre 0 dst src) (udp_part dp sp ul 0 payload)) =
      unat (l4_cksum (ip_head pre 0 src dst) (udp_part sp dp ul 0 payload))"
    using assms by (simp add: l4_cksum_unat udp_part_def)
  then show ?thesis by (simp only: word_unat_eq_iff)
qed

section \<open>The reply\<close>

lemma echo_udp_parts:
  assumes "length e = 14" "length h = 20" "length sp = 2" "length dp = 2" "length ul = 2"
    "unat (htons (rd16 (drop 2 h))) = 28 + length payload"
  shows "echo_udp True (e @ h @ udp_part sp dp ul uc payload @ rest) 34 =
    Inr (e @ h @ udp_part dp sp ul (l4_cksum h (udp_part dp sp ul 0 payload)) payload @ rest)"
proof -
  let ?tail = "ul @ st16 uc @ payload @ rest"
  have s: "pkt_slice (e @ h @ udp_part sp dp ul uc payload @ rest) 34 4 = Inr (sp @ dp)"
    using slice_at [of "e @ h" "sp @ dp" ?tail] assms by (simp add: udp_part_def)
  have p1: "pkt_patch (e @ h @ udp_part sp dp ul uc payload @ rest) 34 dp = Inr (e @ h @ dp @ dp @ ?tail)"
    using patch_at [of sp dp "e @ h" "dp @ ?tail"] assms by (simp add: udp_part_def)
  have p2: "pkt_patch (e @ h @ dp @ dp @ ?tail) 36 sp = Inr (e @ h @ dp @ sp @ ?tail)"
    using patch_at [of dp sp "e @ h @ dp" ?tail] assms by simp
  have p3: "pkt_patch (e @ h @ dp @ sp @ ?tail) 40 [0, 0] = Inr (e @ h @ udp_part dp sp ul 0 payload @ rest)"
    using patch_at [of "st16 uc" "[0, 0]" "e @ h @ dp @ sp @ ul" "payload @ rest"] assms
    by (simp add: udp_part_def st16_def)
  have c: "rte_ipv4_udptcp_cksum (e @ h @ udp_part dp sp ul 0 payload @ rest) 14 34 =
      Inr (l4_cksum h (udp_part dp sp ul 0 payload))"
    by (rule udptcp_cksum_parts) (use assms in \<open>simp_all add: udp_part_def\<close>)
  have p4: "pkt_patch (e @ h @ udp_part dp sp ul 0 payload @ rest) 40 (st16 x) = Inr (e @ h @ udp_part dp sp ul x payload @ rest)" for x
    using patch_at [of "st16 0" "st16 x" "e @ h @ dp @ sp @ ul" "payload @ rest"] assms by (simp add: udp_part_def)
  show ?thesis using assms(3) s p1 p2 p3 c p4 by (simp add: echo_udp_def)
qed

lemma udp_frame_parts:
  "udp_frame d s et pre ck src dst sp dp ul uc payload rest =
     (d @ s @ et) @ ip_head pre ck src dst @ udp_part sp dp ul uc payload @ rest"
  by (simp add: udp_frame_def ip_head_def udp_part_def)

lemma echo_ipv4_parts:
  assumes e: "length e = 14" and p: "parts_ok d s et pre src dst sp dp ul payload" and u: "ptype AND RTE_PTYPE_L4_UDP \<noteq> 0"
  shows "echo_ipv4 True ptype (e @ ip_head pre ck src dst @ udp_part sp dp ul uc payload @ rest) =
    Inr (e @ ip_head pre (rte_ipv4_cksum (ip_head pre 0 dst src)) dst src @
         udp_part dp sp ul (l4_cksum (ip_head pre 0 dst src) (udp_part dp sp ul 0 payload)) payload @ rest)"
proof -
  note l = p [unfolded parts_ok_def]
  let ?u = "udp_part sp dp ul uc payload @ rest"
  let ?v = "udp_part dp sp ul (l4_cksum (ip_head pre 0 dst src) (udp_part dp sp ul 0 payload)) payload @ rest"
  let ?h = "ip_head pre ck src dst"
  have s: "pkt_slice (e @ ?h @ ?u) 14 20 = Inr ?h" using slice_at [of e ?h ?u] e l by simp
  have p1: "pkt_patch (e @ ?h @ ?u) 26 dst = Inr (e @ ip_head pre ck dst dst @ ?u)"
    using patch_at [of src dst "e @ pre @ st16 ck" "dst @ ?u"] e l by (simp add: ip_head_def)
  have p2: "pkt_patch (e @ ip_head pre ck dst dst @ ?u) 30 src = Inr (e @ ip_head pre ck dst src @ ?u)"
    using patch_at [of dst src "e @ pre @ st16 ck @ dst" ?u] e l by (simp add: ip_head_def)
  have p3: "pkt_patch (e @ ip_head pre ck dst src @ ?u) 24 [0, 0] = Inr (e @ ip_head pre 0 dst src @ ?u)"
    using patch_at [of "st16 ck" "[0, 0]" "e @ pre" "dst @ src @ ?u"] e l by (simp add: ip_head_def st16_def)
  have "rd16 (drop 2 (ip_head pre 0 dst src)) = rd16 (drop 2 pre)" using l by (simp add: ip_head_def rd16_def nth_append)
  then have ud: "echo_udp True (e @ ip_head pre 0 dst src @ ?u) 34 = Inr (e @ ip_head pre 0 dst src @ ?v)"
    by (intro echo_udp_parts) (use e l in simp_all)
  have s4: "pkt_slice (e @ ip_head pre 0 dst src @ ?v) 14 20 = Inr (ip_head pre 0 dst src)"
    using slice_at [of e "ip_head pre 0 dst src" ?v] e l by simp
  have p5: "pkt_patch (e @ ip_head pre 0 dst src @ ?v) 24 (st16 x) = Inr (e @ ip_head pre x dst src @ ?v)" for x
    using patch_at [of "st16 0" "st16 x" "e @ pre" "dst @ src @ ?v"] e l by (simp add: ip_head_def)
  have h: "?h ! 0 = 0x45" "take 4 (drop 16 ?h) = dst" "take 4 (drop 12 ?h) = src"
    using l by (simp_all add: ip_head_def nth_append)
  show ?thesis unfolding echo_ipv4_def s bindc_Inr h Let_def using u p1 p2 p3 ud s4 p5 by simp
qed

lemma is_same_ether_addr_iff: "length a = length b \<Longrightarrow> is_same_ether_addr a b \<longleftrightarrow> a = b"
  by (induction a b rule: is_same_ether_addr.induct) auto

lemma echo_frame:
  assumes p: "parts_ok d s et pre src dst sp dp ul payload"
    and t: "ptype AND RTE_PTYPE_L2_ETHER \<noteq> 0" "ptype AND RTE_PTYPE_L3_IPV4 \<noteq> 0" "ptype AND RTE_PTYPE_L4_UDP \<noteq> 0"
  shows "echo_packet True d ptype (udp_frame d s et pre ck src dst sp dp ul uc payload rest) =
    Inr (Some (udp_frame s d et pre (rte_ipv4_cksum (ip_head pre 0 dst src)) dst src dp sp ul
      (l4_cksum (ip_head pre 0 dst src) (udp_part dp sp ul 0 payload)) payload rest))"
proof -
  note l = p [unfolded parts_ok_def]
  let ?r = "ip_head pre ck src dst @ udp_part sp dp ul uc payload @ rest"
  have s: "pkt_slice (d @ s @ et @ ?r) 0 14 = Inr (d @ s @ et)" using slice_at [of "[]" "d @ s @ et" ?r] l by simp
  have p1: "pkt_patch (d @ s @ et @ ?r) 6 d = Inr (d @ d @ et @ ?r)" using patch_at [of s d d "et @ ?r"] l by simp
  have p2: "pkt_patch (d @ d @ et @ ?r) 0 s = Inr (s @ d @ et @ ?r)" using patch_at [of d s "[]" "d @ et @ ?r"] l by simp
  have e: "length (s @ d @ et) = 14" using l by simp
  show ?thesis unfolding udp_frame_parts
    using t s p1 p2 echo_ipv4_parts [OF e p t(3), of ck uc rest] l
    by (simp add: echo_packet_def is_same_ether_addr_iff)
qed

section \<open>Properties\<close>

text \<open>Property C18: the reply to a UDP packet. A UDP packet to the port, without IP options and with a length field that
  agrees with its payload, is answered by the packet with the hardware addresses, the IP addresses and the
  ports exchanged and everything else but the checksums as it was; both checksums of the reply verify
  at the receiver, whatever they were in the packet.\<close>

theorem echo_udp_reply:
  assumes "parts_ok d s et pre src dst sp dp ul payload"
    and "ptype AND RTE_PTYPE_L2_ETHER \<noteq> 0" "ptype AND RTE_PTYPE_L3_IPV4 \<noteq> 0" "ptype AND RTE_PTYPE_L4_UDP \<noteq> 0"
  shows "\<exists>ck' uc'. echo_packet True d ptype (udp_frame d s et pre ck src dst sp dp ul uc payload rest) =
      Inr (Some (udp_frame s d et pre ck' dst src dp sp ul uc' payload rest)) \<and>
    ip_verifies (ip_head pre ck' dst src) \<and> udp_verifies (ip_head pre ck' dst src) (udp_part dp sp ul uc' payload)"
proof -
  note l = assms(1) [unfolded parts_ok_def]
  define ck' uc' where "ck' = rte_ipv4_cksum (ip_head pre 0 dst src)"
    and "uc' = l4_cksum (ip_head pre 0 dst src) (udp_part dp sp ul 0 payload)"
  have "28 + length payload \<le> 65535" using l unat_u16_bound [of "htons (rd16 (drop 2 pre))"] by linarith
  then have "udp_verifies (ip_head pre 0 dst src) ((dp @ sp @ ul) @ st16 uc' @ payload)"
    by (intro l4_cksum_verifies) (use l in \<open>simp_all add: uc'_def udp_part_def\<close>)
  then have "udp_verifies (ip_head pre ck' dst src) (udp_part dp sp ul uc' payload)"
    using l by (simp add: udp_verifies_def psd_ip_head udp_part_def)
  moreover have "ip_verifies (ip_head pre ck' dst src)"
    by (rule ip_cksum_verifies) (use l in \<open>simp_all add: ck'_def\<close>)
  ultimately show ?thesis using echo_frame [OF assms, of ck uc rest] ck'_def uc'_def by blast
qed

text \<open>A packet of four bytes from 10.0.0.1 port 7 to 10.0.0.2 port 8, its checksums zero.\<close>

definition demo_pre :: "u8 list" where
  "demo_pre = [0x45, 0, 0, 32, 0, 1, 0, 0, 64, 17]"

abbreviation demo_frame :: "u8 list \<Rightarrow> u8 list \<Rightarrow> u8 list \<Rightarrow> u8 list \<Rightarrow> u8 list \<Rightarrow> u8 list \<Rightarrow> u16 \<Rightarrow> u16 \<Rightarrow> u8 list" where
  "demo_frame d s src dst sp dp ck uc \<equiv> udp_frame d s [8, 0] demo_pre ck src dst sp dp [0, 12] uc [1, 2, 3, 4] [0, 0]"

lemma demo_parts:
  "parts_ok [2, 0, 0, 0, 0, 1] [2, 0, 0, 0, 0, 2] [8, 0] demo_pre [10, 0, 0, 1] [10, 0, 0, 2] [0, 7] [0, 8] [0, 12] [1, 2, 3, 4]"
  by (simp add: parts_ok_def demo_pre_def rd16_def ld16_def htons_def)

lemma udp_ptype:
  "(0x211 :: u32) AND RTE_PTYPE_L2_ETHER \<noteq> 0" "(0x211 :: u32) AND RTE_PTYPE_L3_IPV4 \<noteq> 0" "(0x211 :: u32) AND RTE_PTYPE_L4_UDP \<noteq> 0"
  by (simp_all add: RTE_PTYPE_L2_ETHER_def RTE_PTYPE_L3_IPV4_def RTE_PTYPE_L4_UDP_def)

theorem echo_udp_reply_witness:
  "\<exists>ck' uc'. echo_packet True [2, 0, 0, 0, 0, 1] 0x211
       (demo_frame [2, 0, 0, 0, 0, 1] [2, 0, 0, 0, 0, 2] [10, 0, 0, 1] [10, 0, 0, 2] [0, 7] [0, 8] 0 0) =
     Inr (Some (demo_frame [2, 0, 0, 0, 0, 2] [2, 0, 0, 0, 0, 1] [10, 0, 0, 2] [10, 0, 0, 1] [0, 8] [0, 7] ck' uc')) \<and>
     ip_verifies (ip_head demo_pre ck' [10, 0, 0, 2] [10, 0, 0, 1])"
  using echo_udp_reply [OF demo_parts udp_ptype, of 0 0 "[0, 0]"] by blast

text \<open>Property C28: the reply to the reply is the packet. When the checksums of a UDP packet are those the library
  computes, the server at the other end, given the reply, gives back the packet, byte for byte.\<close>

theorem echo_involution:
  assumes "parts_ok d s et pre src dst sp dp ul payload"
    and "ptype AND RTE_PTYPE_L2_ETHER \<noteq> 0" "ptype AND RTE_PTYPE_L3_IPV4 \<noteq> 0" "ptype AND RTE_PTYPE_L4_UDP \<noteq> 0"
    and "ck = rte_ipv4_cksum (ip_head pre 0 src dst)"
    and "uc = l4_cksum (ip_head pre 0 src dst) (udp_part sp dp ul 0 payload)"
  shows "\<exists>reply. echo_packet True d ptype (udp_frame d s et pre ck src dst sp dp ul uc payload rest) = Inr (Some reply) \<and>
    echo_packet True s ptype reply = Inr (Some (udp_frame d s et pre ck src dst sp dp ul uc payload rest))"
proof -
  note l = assms(1) [unfolded parts_ok_def]
  have q: "parts_ok s d et pre dst src dp sp ul payload" using assms(1) by (simp add: parts_ok_def)
  have "28 + length payload \<le> 65535" using l unat_u16_bound [of "htons (rd16 (drop 2 pre))"] by linarith
  then have uc: "l4_cksum (ip_head pre 0 dst src) (udp_part dp sp ul 0 payload) = uc"
    unfolding assms(6) by (intro l4_cksum_swap) (use l in simp_all)
  have ck: "rte_ipv4_cksum (ip_head pre 0 dst src) = ck" unfolding assms(5) by (intro ip_cksum_swap) (use l in simp_all)
  show ?thesis
    using echo_frame [OF assms(1-4), of ck uc rest] echo_frame [OF q assms(2-4), of ck uc rest] uc ck assms(5,6) by auto
qed

theorem echo_involution_witness:
  "\<exists>ck uc reply. echo_packet True [2, 0, 0, 0, 0, 1] 0x211
       (demo_frame [2, 0, 0, 0, 0, 1] [2, 0, 0, 0, 0, 2] [10, 0, 0, 1] [10, 0, 0, 2] [0, 7] [0, 8] ck uc) = Inr (Some reply) \<and>
     echo_packet True [2, 0, 0, 0, 0, 2] 0x211 reply =
       Inr (Some (demo_frame [2, 0, 0, 0, 0, 1] [2, 0, 0, 0, 0, 2] [10, 0, 0, 1] [10, 0, 0, 2] [0, 7] [0, 8] ck uc))"
  using echo_involution [OF demo_parts udp_ptype refl refl, of "[0, 0]"] by blast

section \<open>Packets the server can handle\<close>

text \<open>The header length field, in words, and the total length of a packet.\<close>

definition ihl :: "u8 list \<Rightarrow> nat" where
  "ihl bs = unat (bs ! 14 AND 0x0f)"

definition ip_total :: "u8 list \<Rightarrow> nat" where
  "ip_total bs = unat (htons (ld16 (bs ! 16) (bs ! 17)))"

text \<open>Everything the code looks at lies in the buffer.\<close>

definition echo_safe :: "u32 \<Rightarrow> u8 list \<Rightarrow> bool" where
  "echo_safe ptype bs \<longleftrightarrow>
     ptype AND RTE_PTYPE_L2_ETHER \<noteq> 0 \<longrightarrow> 14 \<le> length bs \<and>
     (ptype AND RTE_PTYPE_L3_IPV4 \<noteq> 0 \<longrightarrow> 34 \<le> length bs \<and>
      (ptype AND RTE_PTYPE_L4_UDP \<noteq> 0 \<longrightarrow> 5 \<le> ihl bs \<and> 14 + 4 * ihl bs + 8 \<le> length bs \<and>
         14 + 4 * ihl bs + (ip_total bs - 20) \<le> length bs))"

lemma slice_ok: "off + n \<le> length bs \<Longrightarrow> pkt_slice bs off n = Inr (take n (drop off bs))"
  by (simp add: pkt_slice_def)

lemma patch_ok:
  assumes "off + length new \<le> length bs"
  obtains bs' where "pkt_patch bs off new = Inr bs'" "length bs' = length bs"
    "\<And>i. i < off \<or> off + length new \<le> i \<Longrightarrow> i < length bs \<Longrightarrow> bs' ! i = bs ! i"
proof -
  show thesis
    by (rule that [of "take off bs @ new @ drop (off + length new) bs"])
      (use assms in \<open>auto simp: pkt_patch_def nth_append\<close>)
qed

lemma udptcp_cksum_returns:
  assumes "34 \<le> length bs" "l4 + (ip_total bs - 20) \<le> length bs"
  shows "\<exists>c. rte_ipv4_udptcp_cksum bs 14 l4 = Inr c"
proof -
  have "rd16 (drop 2 (take 20 (drop 14 bs))) = ld16 (bs ! 16) (bs ! 17)" using assms(1) by (simp add: rd16_def)
  then show ?thesis using assms by (simp add: rte_ipv4_udptcp_cksum_def slice_ok ip_total_def Let_def)
qed

lemma echo_udp_returns:
  assumes "34 \<le> u" "u + 8 \<le> length bs" "u + (ip_total bs - 20) \<le> length bs"
  shows "\<exists>bs'. echo_udp sw bs u = Inr bs' \<and> length bs' = length bs"
proof -
  obtain bs1 where b1: "(if sw then bindc (pkt_slice bs u 4) (\<lambda>p. bindc (pkt_patch bs u (drop 2 p)) (\<lambda>bs1. pkt_patch bs1 (u + 2) (take 2 p)))
      else Inr bs) = Inr bs1" "length bs1 = length bs" "\<And>i. i < 34 \<Longrightarrow> bs1 ! i = bs ! i"
  proof (cases sw)
    case True
    let ?p = "take 4 (drop u bs)"
    have "u + length (drop 2 ?p) \<le> length bs" using assms(2) by simp
    from patch_ok [OF this] obtain x where x: "pkt_patch bs u (drop 2 ?p) = Inr x" "length x = length bs"
      "\<And>i. i < u \<Longrightarrow> i < length bs \<Longrightarrow> x ! i = bs ! i" by metis
    have "u + 2 + length (take 2 ?p) \<le> length x" using assms(2) x(2) by simp
    from patch_ok [OF this] obtain y where y: "pkt_patch x (u + 2) (take 2 ?p) = Inr y" "length y = length x"
      "\<And>i. i < u + 2 \<Longrightarrow> i < length x \<Longrightarrow> y ! i = x ! i" by metis
    show thesis by (rule that [of y]) (use True x y assms slice_ok [of u 4 bs] in auto)
  qed (use that in auto)
  have "u + 6 + length [0, 0 :: u8] \<le> length bs1" using assms(2) b1(2) by simp
  from patch_ok [OF this] obtain bs2 where b2: "pkt_patch bs1 (u + 6) [0, 0] = Inr bs2" "length bs2 = length bs1"
    "\<And>i. i < u + 6 \<Longrightarrow> i < length bs1 \<Longrightarrow> bs2 ! i = bs1 ! i" by metis
  have "ip_total bs2 = ip_total bs" using b1 b2 assms(1,2) by (simp add: ip_total_def)
  then obtain c where c: "rte_ipv4_udptcp_cksum bs2 14 u = Inr c"
    using udptcp_cksum_returns [of bs2 u] assms b1(2) b2(2) by auto
  have "u + 6 + length (st16 c) \<le> length bs2" using assms(2) b1(2) b2(2) by simp
  from patch_ok [OF this] obtain bs3 where "pkt_patch bs2 (u + 6) (st16 c) = Inr bs3" "length bs3 = length bs2" by metis
  then show ?thesis using b1 b2 c by (simp add: echo_udp_def)
qed

lemma unat_ihl4: "unat ((x AND 0x0f) * 4 :: u8) = 4 * unat (x AND 0x0f)"
proof -
  have "unat (x AND 0x0f) < 16" using unat_and_mask [of x 4] by simp
  then have "unat (x AND 0x0f) * unat (4 :: u8) < 2 ^ LENGTH(8)" by simp
  then show ?thesis by (simp only: unat_mult_lem) simp
qed

lemma echo_ipv4_returns:
  assumes "34 \<le> length bs" "ptype AND RTE_PTYPE_L4_UDP \<noteq> 0 \<longrightarrow> 5 \<le> ihl bs \<and> 14 + 4 * ihl bs + 8 \<le> length bs \<and>
    14 + 4 * ihl bs + (ip_total bs - 20) \<le> length bs"
  shows "\<exists>bs'. echo_ipv4 sw ptype bs = Inr bs' \<and> length bs' = length bs"
proof -
  let ?h = "take 20 (drop 14 bs)"
  have h: "pkt_slice bs 14 20 = Inr ?h" "?h ! 0 = bs ! 14" using assms(1) by (simp_all add: slice_ok)
  have "26 + length (take 4 (drop 16 ?h)) \<le> length bs" using assms(1) by simp
  from patch_ok [OF this] obtain b1 where b1: "pkt_patch bs 26 (take 4 (drop 16 ?h)) = Inr b1" "length b1 = length bs"
    "\<And>i. i < 26 \<Longrightarrow> i < length bs \<Longrightarrow> b1 ! i = bs ! i" by metis
  have "30 + length (take 4 (drop 12 ?h)) \<le> length b1" using assms(1) b1(2) by simp
  from patch_ok [OF this] obtain b2 where b2: "pkt_patch b1 30 (take 4 (drop 12 ?h)) = Inr b2" "length b2 = length b1"
    "\<And>i. i < 30 \<Longrightarrow> i < length b1 \<Longrightarrow> b2 ! i = b1 ! i" by metis
  have "24 + length [0, 0 :: u8] \<le> length b2" using assms(1) b1(2) b2(2) by simp
  from patch_ok [OF this] obtain b3 where b3: "pkt_patch b2 24 [0, 0] = Inr b3" "length b3 = length b2"
    "\<And>i. i < 24 \<Longrightarrow> i < length b2 \<Longrightarrow> b3 ! i = b2 ! i" by metis
  have t: "ip_total b3 = ip_total bs" using b1 b2 b3 assms(1) by (simp add: ip_total_def)
  obtain b4 where b4: "(if ptype AND RTE_PTYPE_L4_UDP \<noteq> 0 then echo_udp sw b3 (14 + unat ((bs ! 14 AND 0x0f) * 4)) else Inr b3) = Inr b4"
    "length b4 = length b3"
  proof (cases "ptype AND RTE_PTYPE_L4_UDP \<noteq> 0")
    case True
    then show thesis
      using echo_udp_returns [of "14 + 4 * ihl bs" b3 sw] assms b1(2) b2(2) b3(2) t that
      by (auto simp: unat_ihl4 ihl_def)
  qed (use that in auto)
  have "24 + length (st16 x) \<le> length b4" for x using assms(1) b1(2) b2(2) b3(2) b4(2) by simp
  from patch_ok [OF this] obtain b5 where
    "pkt_patch b4 24 (st16 (rte_ipv4_cksum (take 20 (drop 14 b4)))) = Inr b5" "length b5 = length b4" by metis
  then show ?thesis
    using h b1 b2 b3 b4 assms(1) slice_ok [of 14 20 b4] unfolding echo_ipv4_def Let_def
    by (cases "ptype AND RTE_PTYPE_L4_UDP = 0") simp_all
qed

lemma echo_packet_returns:
  assumes "echo_safe ptype bs"
  shows "\<exists>r. echo_packet sw pa ptype bs = Inr r \<and> (\<forall>bs'. r = Some bs' \<longrightarrow> length bs' = length bs)"
proof (cases "ptype AND RTE_PTYPE_L2_ETHER = 0")
  case False
  then have len: "14 \<le> length bs" using assms by (simp add: echo_safe_def)
  let ?e = "take 14 bs"
  have e: "pkt_slice bs 0 14 = Inr ?e" using len slice_ok [of 0 14 bs] by simp
  have "6 + length (take 6 ?e) \<le> length bs" using len by simp
  from patch_ok [OF this] obtain b1 where b1: "pkt_patch bs 6 (take 6 ?e) = Inr b1" "length b1 = length bs"
    "\<And>i. i < 6 \<or> 6 + length (take 6 ?e) \<le> i \<Longrightarrow> i < length bs \<Longrightarrow> b1 ! i = bs ! i" by metis
  have "0 + length (take 6 (drop 6 ?e)) \<le> length b1" using len b1(2) by simp
  from patch_ok [OF this] obtain b2 where b2: "pkt_patch b1 0 (take 6 (drop 6 ?e)) = Inr b2" "length b2 = length b1"
    "\<And>i. i < 0 \<or> 0 + length (take 6 (drop 6 ?e)) \<le> i \<Longrightarrow> i < length b1 \<Longrightarrow> b2 ! i = b1 ! i" by metis
  have "\<exists>b3. (if ptype AND RTE_PTYPE_L3_IPV4 \<noteq> 0 then echo_ipv4 sw ptype b2 else Inr b2) = Inr b3 \<and> length b3 = length bs"
  proof (cases "ptype AND RTE_PTYPE_L3_IPV4 \<noteq> 0")
    case True
    then have "34 \<le> length bs" using assms False by (simp add: echo_safe_def)
    then have "ihl b2 = ihl bs" "ip_total b2 = ip_total bs" using b1 b2 by (simp_all add: ihl_def ip_total_def)
    then show ?thesis using echo_ipv4_returns [of b2 ptype sw] True False assms b1(2) b2(2) by (auto simp: echo_safe_def)
  qed (use b1 b2 in auto)
  then show ?thesis using False e b1 b2 by (auto simp: echo_packet_def)
qed (simp add: echo_packet_def)

section \<open>Accounting for mbufs\<close>

text \<open>Every mbuf of a burst is either sent or freed, in the order of the burst.\<close>

lemma echo_burst_parts:
  "echo_burst sw pa mem data as = Inr (tx, fr, data') \<Longrightarrow> mset tx + mset fr = mset as \<and> set tx \<subseteq> set as \<and> length tx \<le> length as"
proof (induction as arbitrary: data tx fr data')
  case (Cons a as)
  then obtain m bs r where r: "mem a = Some m" "data a = Some bs" "echo_packet sw pa (packet_type m) bs = Inr r"
    by (auto simp: bindc_eq_Inr deref_def split: option.splits)
  show ?case
  proof (cases r)
    case None
    then obtain fr' where "echo_burst sw pa mem data as = Inr (tx, fr', data')" "fr = a # fr'"
      using Cons.prems r by (auto simp: bindc_eq_Inr)
    with Cons.IH show ?thesis by fastforce
  next
    case (Some bs')
    then obtain tx' where "echo_burst sw pa mem (data(a \<mapsto> bs')) as = Inr (tx', fr, data')" "tx = a # tx'"
      using Cons.prems r by (auto simp: bindc_eq_Inr)
    with Cons.IH show ?thesis by fastforce
  qed
qed simp

lemma echo_burst_returns:
  assumes "distinct as" "\<forall>a\<in>set as. \<exists>m bs. mem a = Some m \<and> data a = Some bs \<and> echo_safe (packet_type m) bs"
  shows "\<exists>tx fr data'. echo_burst sw pa mem data as = Inr (tx, fr, data') \<and> (\<forall>a. a \<notin> set as \<longrightarrow> data' a = data a)"
  using assms
proof (induction as arbitrary: data)
  case (Cons a as)
  then obtain m bs where a: "mem a = Some m" "data a = Some bs" "echo_safe (packet_type m) bs" by auto
  obtain r where r: "echo_packet sw pa (packet_type m) bs = Inr r" using echo_packet_returns [OF a(3)] by blast
  show ?case
  proof (cases r)
    case None
    obtain tx fr data' where "echo_burst sw pa mem data as = Inr (tx, fr, data')" "\<forall>x. x \<notin> set as \<longrightarrow> data' x = data x"
      using Cons.IH [of data] Cons.prems by auto
    then show ?thesis using a r None by auto
  next
    case (Some bs')
    have "\<forall>x\<in>set as. \<exists>m bs. mem x = Some m \<and> (data(a \<mapsto> bs')) x = Some bs \<and> echo_safe (packet_type m) bs"
      using Cons.prems by auto
    moreover have "distinct as" using Cons.prems(1) by simp
    ultimately obtain tx fr data' where "echo_burst sw pa mem (data(a \<mapsto> bs')) as = Inr (tx, fr, data')"
      "\<forall>x. x \<notin> set as \<longrightarrow> data' x = (data(a \<mapsto> bs')) x"
      using Cons.IH by blast
    then show ?thesis using a r Some by auto
  qed
qed auto

section \<open>The server on a port\<close>

text \<open>The state of the process: the two rings of the port, which see the same mbufs, and the bytes of the
  packets. Transmitting uses the simple function (\<open>Ixgbe_Setup\<close>), receiving the CleanQ ring.\<close>

record echo_state =
  es_rxq :: ixgbe_rx_queue
  es_txq :: ixgbe_tx_queue
  es_data :: pkt_data

definition echo_tx_burst ::
  "(mbuf_mem \<Rightarrow> u64 \<Rightarrow> mbuf_mem cres) \<Rightarrow> ixgbe_tx_queue \<times> u64 list \<Rightarrow> u64 list \<Rightarrow> (u16 \<times> ixgbe_tx_queue \<times> u64 list) cres" where
  "echo_tx_burst detach s as =
     bindc (ixgbe_xmit_pkts_simple detach (fst s) as (of_nat (length as))) (\<lambda>(n, puts, q').
     Inr (n, q', snd s @ concat (map snd puts)))"

text \<open>The result: the mbufs taken from the pool, those given back to it, and the state.\<close>

definition BURST_SIZE :: u16 where "BURST_SIZE = 32"

definition echo_port_round ::
  "(mbuf_mem \<Rightarrow> u64 \<Rightarrow> mbuf_mem cres) \<Rightarrow> bool \<Rightarrow> u8 list \<Rightarrow> u64 list \<Rightarrow> cleanq_buf \<Rightarrow> echo_state \<Rightarrow>
   (u64 list \<times> u64 list \<times> echo_state) cres" where
  "echo_port_round detach sw pa allocs cqbuf st =
     bindc (ixgbe_recv_pkts_cleanq (es_rxq st) BURST_SIZE allocs cqbuf) (\<lambda>(rx_bufs, failed, ins, bk, rxq).
     bindc (echo_round (echo_tx_burst detach) sw pa (mbufs rxq) (es_data st) ((es_txq st)\<lparr>mbufs := mbufs rxq\<rparr>, []) rx_bufs)
       (\<lambda>(sent, freed, data, txq, txback).
     Inr (ins, bk @ freed @ txback, \<lparr>es_rxq = rxq\<lparr>mbufs := mbufs txq\<rparr>, es_txq = txq, es_data = data\<rparr>)))"

text \<open>Flags that do not mark an mbuf as attached to another one's data.\<close>

definition plain_flags :: "u64 \<Rightarrow> bool" where
  "plain_flags f \<longleftrightarrow> f AND (IND_ATTACHED_MBUF OR EXT_ATTACHED_MBUF) = 0"

definition echo_inv :: "echo_state \<Rightarrow> bool" where
  "echo_inv st \<longleftrightarrow> rx_inv (es_rxq st) \<and> simple_inv (es_txq st) \<and> mbufs (es_txq st) = mbufs (es_rxq st) \<and>
     plain_flags (vlan_flags (es_rxq st)) \<and> (\<forall>a\<in>set (rx_contents (es_rxq st)). sole (mbufs (es_rxq st)) a)"

definition echo_mbufs :: "echo_state \<Rightarrow> u64 list" where
  "echo_mbufs st = rx_contents (es_rxq st) @ simple_contents (es_txq st)"

lemma plain_flags_or: "plain_flags (f OR g) \<longleftrightarrow> plain_flags f \<and> plain_flags g"
  by (simp add: plain_flags_def bit.conj_disj_distrib2 or_eq_0_iff)

lemma sole_iff: "sole mem a \<longleftrightarrow> (\<exists>m. mem a = Some m \<and> refcnt m = 1 \<and> plain_flags (ol_flags m))"
  by (auto simp: sole_def RTE_MBUF_DIRECT_def plain_flags_def split: option.splits)

text \<open>Receiving leaves mbufs without other references as they are: the flags of a packet come from the
  tables and from the VLAN flags of the queue.\<close>

lemma error_flags_plain: "rx_desc_error_to_pkt_flags st = Inr f \<Longrightarrow> plain_flags f"
proof -
  assume f: "rx_desc_error_to_pkt_flags st = Inr f"
  have "plain_flags g" if "g \<in> set error_to_pkt_flags_map" for g
    using that by (auto simp: error_to_pkt_flags_map_def plain_flags_def PKT_RX_IP_CKSUM_GOOD_def PKT_RX_IP_CKSUM_BAD_def
        PKT_RX_L4_CKSUM_GOOD_def PKT_RX_L4_CKSUM_BAD_def IND_ATTACHED_MBUF_def EXT_ATTACHED_MBUF_def)
  moreover have "plain_flags PKT_RX_EIP_CKSUM_BAD" "plain_flags PKT_RX_SEC_OFFLOAD" "plain_flags PKT_RX_SEC_OFFLOAD_FAILED"
    by (simp_all add: plain_flags_def PKT_RX_EIP_CKSUM_BAD_def PKT_RX_SEC_OFFLOAD_def PKT_RX_SEC_OFFLOAD_FAILED_def
        IND_ATTACHED_MBUF_def EXT_ATTACHED_MBUF_def)
  ultimately show ?thesis
    using f by (auto simp: rx_desc_error_to_pkt_flags_def bindc_eq_Inr Let_def arr_get_def plain_flags_or split: if_splits)
qed

lemma rss_flags_plain: "ixgbe_rxd_pkt_info_to_pkt_flags i = Inr f \<Longrightarrow> plain_flags f"
proof -
  assume f: "ixgbe_rxd_pkt_info_to_pkt_flags i = Inr f"
  have "plain_flags g" if "g \<in> set ip_rss_types_map" for g
    using that by (auto simp: ip_rss_types_map_def plain_flags_def PKT_RX_RSS_HASH_def PKT_RX_FDIR_def
        IND_ATTACHED_MBUF_def EXT_ATTACHED_MBUF_def)
  then show ?thesis using f by (auto simp: ixgbe_rxd_pkt_info_to_pkt_flags_def arr_get_def split: if_splits)
qed

lemma rx_fill_mbuf_plain:
  assumes "rx_fill_mbuf q d m = Inr m'" "plain_flags (vlan_flags q)"
  shows "plain_flags (ol_flags m')" "refcnt m' = refcnt m"
proof -
  have "plain_flags (rx_desc_status_to_pkt_flags st (vlan_flags q))" for st
    using assms(2) by (simp add: rx_desc_status_to_pkt_flags_def plain_flags_def)
  then show "plain_flags (ol_flags m')" "refcnt m' = refcnt m"
    using assms(1) by (auto simp: rx_fill_mbuf_def Let_def bindc_eq_Inr plain_flags_or dest: error_flags_plain rss_flags_plain)
qed

lemma rx_enqueue_sole:
  assumes "cleanq_enqueue ixgbe_rx_f q b = Inr (err, q')"
  shows "vlan_flags q' = vlan_flags q \<and> (\<forall>a. sole (mbufs q) a \<longrightarrow> sole (mbufs q') a)"
proof -
  have "(err, q') = (CLEANQ_ERR_INVALID_BUFFER_ARGS, q) \<or> ixgbe_rx_cleanq_enqueue q b = Inr (err, q')"
    using assms by (auto simp: cleanq_enqueue_def ixgbe_rx_f_def bindc_eq_Inr split: if_splits)
  then show ?thesis
    by (auto simp: ixgbe_rx_cleanq_enqueue_def bindc_eq_Inr Let_def deref_def sole_iff split: if_splits option.splits)
qed

lemma rx_dequeue_sole:
  assumes "cleanq_dequeue ixgbe_rx_f q b = Inr (err, b', q')" "plain_flags (vlan_flags q)"
  shows "vlan_flags q' = vlan_flags q \<and> (\<forall>a. sole (mbufs q) a \<longrightarrow> sole (mbufs q') a)"
proof -
  have "\<exists>e c. ixgbe_rx_cleanq_dequeue q b = Inr (e, c, q')"
    using assms(1) by (auto simp: cleanq_dequeue_def ixgbe_rx_f_def bindc_eq_Inr split: if_splits)
  then show ?thesis using assms(2)
    by (auto simp: ixgbe_rx_cleanq_dequeue_def bindc_eq_Inr Let_def deref_def sole_iff rx_fill_mbuf_plain
        split: if_splits option.splits)
qed

lemma rx_refill_sole:
  "rx_refill q n allocs = Inr (failed, ins, bk, q') \<Longrightarrow>
   vlan_flags q' = vlan_flags q \<and> (\<forall>a. sole (mbufs q) a \<longrightarrow> sole (mbufs q') a) \<and> (\<exists>ys. allocs = ins @ ys)"
proof (induction q n allocs arbitrary: failed ins bk q' rule: rx_refill.induct)
  case (3 q n mb allocs)
  show ?case
  proof (cases "mb = 0")
    case False
    then obtain b err q1 where b: "mbuf_to_cleanq_buf q mb = Inr b" "cleanq_enqueue ixgbe_rx_f q b = Inr (err, q1)"
      using "3.prems" by (auto simp: bindc_eq_Inr)
    show ?thesis
      using "3.prems" "3.IH" [OF False, of err q1] False b rx_enqueue_sole [OF b(2)]
      by (cases "err_is_fail err") (fastforce simp: bindc_eq_Inr)+
  qed (use "3.prems" in auto)
qed auto

lemma rx_take_sole:
  "rx_take q n b = Inr (pkts, q') \<Longrightarrow> plain_flags (vlan_flags q) \<Longrightarrow>
   vlan_flags q' = vlan_flags q \<and> (\<forall>a. sole (mbufs q) a \<longrightarrow> sole (mbufs q') a)"
proof (induction n arbitrary: q b pkts q')
  case (Suc n)
  then obtain err b1 q1 where d: "cleanq_dequeue ixgbe_rx_f q b = Inr (err, b1, q1)" by (auto simp: bindc_eq_Inr)
  note s = rx_dequeue_sole [OF d Suc.prems(2)]
  show ?case
  proof (cases "err_is_fail err")
    case False
    then obtain ps where "rx_take q1 n b1 = Inr (ps, q')" using Suc.prems(1) d by (auto simp: bindc_eq_Inr)
    from Suc.IH [OF this] s Suc.prems(2) show ?thesis by auto
  qed (use Suc.prems d s in auto)
qed simp

text \<open>The two rings when the memory they share changes.\<close>

lemma rx_inv_same_mbufs:
  assumes "rx_inv q" "same_mbufs (mbufs q) mem"
  shows "rx_inv (q\<lparr>mbufs := mem\<rparr>)" "rx_contents (q\<lparr>mbufs := mem\<rparr>) = rx_contents q"
proof -
  let ?q = "q\<lparr>mbufs := mem\<rparr>"
  show c: "rx_contents ?q = rx_contents q" by (simp add: rx_contents_def)
  have eq: "mem a = mbufs q a \<or> mem a = map_option (\<lambda>m. m\<lparr>mb_next := 0, nb_segs := 1\<rparr>) (mbufs q a)" for a
    using assms(2) by (simp add: same_mbufs_def)
  have "rx_mbuf_ok ?q a" if "rx_mbuf_ok q a" for a
    using that eq [of a] unfolding rx_mbuf_ok_def mbuf_of_region_def by fastforce
  moreover have "rx_len_ok ?q d a" if "rx_len_ok q d a" for d a
    using that eq [of a] by (auto simp: rx_len_ok_def)
  ultimately show "rx_inv ?q"
    using assms(1) unfolding rx_inv_def c by (auto simp: rx_slot_ok_def rx_desc_ok_def rx_pos_def)
qed

lemma simple_inv_mem:
  assumes "simple_inv q" "\<And>a. sole (mbufs q) a \<Longrightarrow> sole mem a"
  shows "simple_inv (q\<lparr>mbufs := mem\<rparr>)" "simple_contents (q\<lparr>mbufs := mem\<rparr>) = simple_contents q"
proof -
  show c: "simple_contents (q\<lparr>mbufs := mem\<rparr>) = simple_contents q"
    by (simp add: simple_contents_def simple_head_def simple_used_def)
  then show "simple_inv (q\<lparr>mbufs := mem\<rparr>)"
    using assms unfolding simple_inv_def c by (simp add: blocks_ok_def simple_head_def simple_used_def)
qed

text \<open>What the allocator promises: distinct mbufs nobody refers to.\<close>

definition allocs_ok :: "echo_state \<Rightarrow> u64 list \<Rightarrow> bool" where
  "allocs_ok st allocs \<longleftrightarrow> distinct allocs \<and> (\<forall>a\<in>set allocs. a \<noteq> 0 \<longrightarrow> mbuf_good (es_rxq st) a) \<and>
     (\<forall>a\<in>set allocs. sole (mbufs (es_rxq st)) a)"

lemma recv_echo_spec:
  assumes inv: "echo_inv st" and al: "allocs_ok st allocs"
  obtains pkts failed ins rxq where
    "ixgbe_recv_pkts_cleanq (es_rxq st) n allocs b = Inr (pkts, failed, ins, [], rxq)" "rx_inv rxq"
    "rx_contents (es_rxq st) @ ins = pkts @ rx_contents rxq" "length pkts \<le> unat n"
    "plain_flags (vlan_flags rxq)" "\<And>a. sole (mbufs (es_rxq st)) a \<Longrightarrow> sole (mbufs rxq) a"
    "\<forall>a\<in>set pkts. sole (mbufs rxq) a" "\<forall>a\<in>set (rx_contents rxq). sole (mbufs rxq) a" "\<exists>ys. allocs = ins @ ys"
proof -
  have i: "rx_inv (es_rxq st)" "plain_flags (vlan_flags (es_rxq st))" "\<forall>a\<in>set (rx_contents (es_rxq st)). sole (mbufs (es_rxq st)) a"
    using inv by (simp_all add: echo_inv_def)
  obtain pkts failed ins rxq where r: "ixgbe_recv_pkts_cleanq (es_rxq st) n allocs b = Inr (pkts, failed, ins, [], rxq)"
    "rx_inv rxq" "rx_contents (es_rxq st) @ ins = pkts @ rx_contents rxq" "length pkts \<le> unat n"
    using recv_burst_spec [OF i(1), of allocs n b] al by (auto simp: allocs_ok_def)
  obtain q1 where q1: "rx_refill (es_rxq st) (nat (nb_refill (es_rxq st))) allocs = Inr (failed, ins, [], q1)"
    "rx_take q1 (unat n) b = Inr (pkts, rxq)"
    using r(1) by (auto simp: ixgbe_recv_pkts_cleanq_def bindc_eq_Inr)
  note s1 = rx_refill_sole [OF q1(1)]
  note s2 = rx_take_sole [OF q1(2)]
  have keep: "plain_flags (vlan_flags rxq)" "\<And>a. sole (mbufs (es_rxq st)) a \<Longrightarrow> sole (mbufs rxq) a"
    using s1 s2 i(2) by auto
  have "\<forall>a\<in>set (rx_contents (es_rxq st) @ ins). sole (mbufs rxq) a"
    using keep(2) i(3) s1 al by (auto simp: allocs_ok_def)
  then have "\<forall>a\<in>set pkts. sole (mbufs rxq) a" "\<forall>a\<in>set (rx_contents rxq). sole (mbufs rxq) a" unfolding r(3) by auto
  then show thesis using that r keep s1 by blast
qed

lemma echo_round_spec:
  assumes tx: "simple_inv q" and pk: "\<forall>a\<in>set pkts. sole (mbufs q) a" "length pkts \<le> 65535"
    and r: "echo_round (echo_tx_burst detach) sw pa mem data (q, []) pkts = Inr (snt, freed, data', q', txback)"
  shows "simple_inv q'" "same_mbufs (mbufs q) (mbufs q')"
    "mset (simple_contents q) + mset pkts = mset freed + mset txback + mset (simple_contents q')"
proof -
  have "simple_inv q' \<and> same_mbufs (mbufs q) (mbufs q') \<and>
    mset (simple_contents q) + mset pkts = mset freed + mset txback + mset (simple_contents q')"
  proof (cases "pkts = []")
    case True
    then show ?thesis using r tx by (auto simp: echo_round_def)
  next
    case False
    obtain tx fr d where b: "echo_burst sw pa mem data pkts = Inr (tx, fr, d)" using r False by (auto simp: echo_round_def bindc_eq_Inr)
    note parts = echo_burst_parts [OF b]
    show ?thesis
    proof (cases "tx = []")
      case True
      then show ?thesis using r b False parts assms(1) by (auto simp: echo_round_def)
    next
      case tx: False
      have "\<forall>a\<in>set tx. sole (mbufs q) a" "length tx \<le> 65535" using parts pk by auto
      then obtain ret puts q1 where x: "ixgbe_xmit_pkts_simple detach q tx (of_nat (length tx)) = Inr (ret, puts, q1)"
        "xmit_ok q tx (length tx) (unat ret) puts q1"
        using xmit_simple_spec [OF assms(1)] by blast
      have e: "q' = q1" "txback = concat (map snd puts)" "freed = fr @ drop (unat ret) tx"
        using r b False tx x(1) by (auto simp: echo_round_def echo_tx_burst_def)
      let ?t = "mset (take (unat ret) tx)" and ?d = "mset (drop (unat ret) tx)"
      have "mset tx = ?t + ?d" by (metis append_take_drop_id mset_append)
      then have "mset pkts = ?t + ?d + mset fr" using parts by simp
      then have "mset (simple_contents q) + mset pkts = mset freed + (mset (simple_contents q) + ?t)"
        by (simp add: e(3) union_ac)
      also have "mset (simple_contents q) + ?t = mset txback + mset (simple_contents q1)"
        using x(2) e(2) by (metis mset_append xmit_ok_def)
      finally show ?thesis using x(2) e(1) by (simp add: xmit_ok_def union_assoc)
    qed
  qed
  then show "simple_inv q'" "same_mbufs (mbufs q) (mbufs q')"
    "mset (simple_contents q) + mset pkts = mset freed + mset txback + mset (simple_contents q')" by blast+
qed

lemma echo_port_round_conserves:
  assumes inv: "echo_inv st" and al: "allocs_ok st allocs"
    and r: "echo_port_round detach sw pa allocs b st = Inr (ins, outs, st')"
  shows "echo_inv st'" "mset (echo_mbufs st) + mset ins = mset outs + mset (echo_mbufs st')"
proof -
  obtain pkts failed ins' rxq where rx: "ixgbe_recv_pkts_cleanq (es_rxq st) BURST_SIZE allocs b = Inr (pkts, failed, ins', [], rxq)"
    "rx_inv rxq" "rx_contents (es_rxq st) @ ins' = pkts @ rx_contents rxq" "length pkts \<le> unat BURST_SIZE"
    "plain_flags (vlan_flags rxq)" "\<And>a. sole (mbufs (es_rxq st)) a \<Longrightarrow> sole (mbufs rxq) a"
    "\<forall>a\<in>set pkts. sole (mbufs rxq) a" "\<forall>a\<in>set (rx_contents rxq). sole (mbufs rxq) a"
    by (rule recv_echo_spec [OF inv al, of BURST_SIZE b]) blast
  define q where "q = (es_txq st)\<lparr>mbufs := mbufs rxq\<rparr>"
  have q: "simple_inv q" "simple_contents q = simple_contents (es_txq st)" "mbufs q = mbufs rxq"
    using simple_inv_mem [of "es_txq st" "mbufs rxq"] inv rx(6) by (simp_all add: echo_inv_def q_def)
  obtain snt freed data txq txback where e:
    "echo_round (echo_tx_burst detach) sw pa (mbufs rxq) (es_data st) (q, []) pkts = Inr (snt, freed, data, txq, txback)"
    "ins = ins'" "outs = freed @ txback" "st' = \<lparr>es_rxq = rxq\<lparr>mbufs := mbufs txq\<rparr>, es_txq = txq, es_data = data\<rparr>"
    using r rx(1) by (auto simp: echo_port_round_def bindc_eq_Inr q_def)
  have "length pkts \<le> 65535" using rx(4) by (simp add: BURST_SIZE_def)
  note t = echo_round_spec [OF q(1) _ this e(1)]
  have t: "simple_inv txq" "same_mbufs (mbufs rxq) (mbufs txq)"
    "mset (simple_contents (es_txq st)) + mset pkts = mset freed + mset txback + mset (simple_contents txq)"
    using t rx(7) q by simp_all
  note c = rx_inv_same_mbufs [OF rx(2) t(2)]
  show "echo_inv st'"
    using c t(1) rx(5,8) same_mbufs_sole [OF t(2)] by (simp add: echo_inv_def e(4))
  have "mset (rx_contents (es_rxq st)) + mset ins' = mset pkts + mset (rx_contents rxq)" using rx(3) by (metis mset_append)
  moreover have "mset (echo_mbufs st) + mset ins = (mset (rx_contents (es_rxq st)) + mset ins') + mset (simple_contents (es_txq st))"
    by (simp add: echo_mbufs_def e(2) union_ac)
  ultimately have "mset (echo_mbufs st) + mset ins = mset (rx_contents rxq) + (mset (simple_contents (es_txq st)) + mset pkts)"
    by (simp only: union_ac)
  then show "mset (echo_mbufs st) + mset ins = mset outs + mset (echo_mbufs st')"
    unfolding t(3) using c(2) by (simp add: echo_mbufs_def e(3,4) union_ac)
qed

text \<open>A run of the server: rounds of the loop, and the card writing to the two descriptor rings and to packet memory
  at any time. \<open>ins\<close> are the mbufs taken from the pool, \<open>outs\<close> those given back.\<close>

inductive echo_run :: "(mbuf_mem \<Rightarrow> u64 \<Rightarrow> mbuf_mem cres) \<Rightarrow> bool \<Rightarrow> u8 list \<Rightarrow> echo_state \<Rightarrow> echo_state \<Rightarrow> u64 list \<Rightarrow> u64 list \<Rightarrow> bool"
  for detach sw pa st0 where
  start: "echo_run detach sw pa st0 st0 [] []"
| round: "echo_run detach sw pa st0 st ins outs \<Longrightarrow> allocs_ok st allocs \<Longrightarrow>
    echo_port_round detach sw pa allocs b st = Inr (ins', outs', st') \<Longrightarrow>
    echo_run detach sw pa st0 st' (ins @ ins') (outs @ outs')"
| card_rx: "echo_run detach sw pa st0 st ins outs \<Longrightarrow> i < unat (nb_rx_desc (es_rxq st)) \<Longrightarrow>
    rx_len_ok (es_rxq st) d (rx_sw_ring (es_rxq st) ! i) \<Longrightarrow>
    echo_run detach sw pa st0 (st\<lparr>es_rxq := rx_hw_write (es_rxq st) i d, es_data := data\<rparr>) ins outs"
| card_tx: "echo_run detach sw pa st0 st ins outs \<Longrightarrow>
    echo_run detach sw pa st0 (st\<lparr>es_txq := tx_hw_write (es_txq st) j e\<rparr>) ins outs"

lemma card_rx_inv:
  assumes "echo_inv st" "i < unat (nb_rx_desc (es_rxq st))" "rx_len_ok (es_rxq st) d (rx_sw_ring (es_rxq st) ! i)"
  shows "echo_inv (st\<lparr>es_rxq := rx_hw_write (es_rxq st) i d, es_data := data\<rparr>)"
    "echo_mbufs (st\<lparr>es_rxq := rx_hw_write (es_rxq st) i d, es_data := data\<rparr>) = echo_mbufs st"
proof -
  have "rx_inv (es_rxq st)" using assms(1) by (simp add: echo_inv_def)
  note r = rx_hw_write_inv [OF this assms(2,3)]
  have "mbufs (rx_hw_write (es_rxq st) i d) = mbufs (es_rxq st)" "vlan_flags (rx_hw_write (es_rxq st) i d) = vlan_flags (es_rxq st)"
    by (simp_all add: rx_hw_write_def)
  then show "echo_inv (st\<lparr>es_rxq := rx_hw_write (es_rxq st) i d, es_data := data\<rparr>)"
    "echo_mbufs (st\<lparr>es_rxq := rx_hw_write (es_rxq st) i d, es_data := data\<rparr>) = echo_mbufs st"
    using assms(1) r by (simp_all add: echo_inv_def echo_mbufs_def)
qed

lemma card_tx_inv:
  assumes "echo_inv st"
  shows "echo_inv (st\<lparr>es_txq := tx_hw_write (es_txq st) j e\<rparr>)"
    "echo_mbufs (st\<lparr>es_txq := tx_hw_write (es_txq st) j e\<rparr>) = echo_mbufs st"
proof -
  have c: "simple_contents (tx_hw_write q j e) = simple_contents q" for q
    by (simp add: tx_hw_write_def simple_contents_def simple_head_def simple_used_def)
  then show "echo_mbufs (st\<lparr>es_txq := tx_hw_write (es_txq st) j e\<rparr>) = echo_mbufs st" by (simp add: echo_mbufs_def)
  have "simple_inv (es_txq st)" using assms by (simp add: echo_inv_def)
  then have "simple_inv (tx_hw_write (es_txq st) j e)"
    unfolding simple_inv_def c by (simp add: tx_hw_write_def blocks_ok_def simple_head_def simple_used_def)
  then show "echo_inv (st\<lparr>es_txq := tx_hw_write (es_txq st) j e\<rparr>)"
    using assms by (simp add: echo_inv_def) (simp add: tx_hw_write_def)
qed

text \<open>Property C8: the echo server leaks no mbuf and frees none twice. In every run of the server on a port, in which the
  card writes descriptors and packets at any time, the mbufs in the two rings at the start and those taken from
  the pool are, as a multiset, those given back to the pool and those in the rings; and the rings stay
  well-formed. This puts the CleanQ receive ring, the handling of packets and the simple transmit function together.\<close>

theorem echo_server_conserves:
  assumes "echo_inv st0" "echo_run detach sw pa st0 st ins outs"
  shows "echo_inv st \<and> mset (echo_mbufs st0) + mset ins = mset outs + mset (echo_mbufs st)"
  using assms(2,1)
proof (induction rule: echo_run.induct)
  case (round st ins outs allocs b ins' outs' st')
  then have IH: "echo_inv st" "mset (echo_mbufs st0) + mset ins = mset outs + mset (echo_mbufs st)" by auto
  note s = echo_port_round_conserves [OF IH(1) round.hyps(2,3)]
  have "mset (echo_mbufs st0) + mset (ins @ ins') = mset outs + (mset (echo_mbufs st) + mset ins')"
    using IH(2) by (simp add: union_assoc [symmetric])
  then show ?case using s by (simp add: union_assoc)
qed (use card_rx_inv card_tx_inv in auto)

text \<open>A buffer in which the code stays whatever the type of the packet.\<close>

definition echo_fits :: "u8 list \<Rightarrow> bool" where
  "echo_fits bs \<longleftrightarrow> 34 \<le> length bs \<and> 5 \<le> ihl bs \<and> 14 + 4 * ihl bs + 8 \<le> length bs \<and>
     14 + 4 * ihl bs + (ip_total bs - 20) \<le> length bs"

lemma echo_fits_safe: "echo_fits bs \<Longrightarrow> echo_safe t bs"
  by (auto simp: echo_fits_def echo_safe_def)

lemma echo_round_returns:
  assumes "simple_inv q" "\<forall>a\<in>set pkts. sole (mbufs q) a" "length pkts \<le> 65535" "distinct pkts"
    "\<forall>a\<in>set pkts. \<exists>bs. data a = Some bs \<and> echo_fits bs"
  shows "\<exists>r. echo_round (echo_tx_burst detach) sw pa (mbufs q) data (q, []) pkts = Inr r"
proof -
  have "\<forall>a\<in>set pkts. \<exists>m bs. mbufs q a = Some m \<and> data a = Some bs \<and> echo_safe (packet_type m) bs"
    using assms(2,5) echo_fits_safe unfolding sole_iff by metis
  from echo_burst_returns [OF assms(4) this] obtain tx fr d where
    b: "echo_burst sw pa (mbufs q) data pkts = Inr (tx, fr, d)" by blast
  have "\<forall>a\<in>set tx. sole (mbufs q) a" "length tx \<le> 65535" using echo_burst_parts [OF b] assms(2,3) by auto
  from xmit_simple_spec [OF assms(1) this(2,1), of detach] show ?thesis
    using b by (auto simp: echo_round_def echo_tx_burst_def)
qed

lemma echo_port_round_returns:
  assumes "echo_inv st" "allocs_ok st allocs" "distinct (rx_contents (es_rxq st) @ allocs)"
    "\<forall>a\<in>set (rx_contents (es_rxq st) @ allocs). \<exists>bs. es_data st a = Some bs \<and> echo_fits bs"
  shows "\<exists>ins outs st'. echo_port_round detach sw pa allocs b st = Inr (ins, outs, st')"
proof -
  obtain pkts failed ins rxq where rx: "ixgbe_recv_pkts_cleanq (es_rxq st) BURST_SIZE allocs b = Inr (pkts, failed, ins, [], rxq)"
    "rx_contents (es_rxq st) @ ins = pkts @ rx_contents rxq" "length pkts \<le> unat BURST_SIZE"
    "\<And>a. sole (mbufs (es_rxq st)) a \<Longrightarrow> sole (mbufs rxq) a" "\<forall>a\<in>set pkts. sole (mbufs rxq) a"
    "\<exists>ys. allocs = ins @ ys"
    by (rule recv_echo_spec [OF assms(1,2), of BURST_SIZE b]) blast
  define q where "q = (es_txq st)\<lparr>mbufs := mbufs rxq\<rparr>"
  have q: "simple_inv q" "mbufs q = mbufs rxq"
    using simple_inv_mem [of "es_txq st" "mbufs rxq"] assms(1) rx(4) by (simp_all add: echo_inv_def q_def)
  obtain ys where ys: "allocs = ins @ ys" using rx(6) by blast
  have eq: "rx_contents (es_rxq st) @ allocs = pkts @ rx_contents rxq @ ys" using rx(2) ys by (metis append.assoc)
  have "distinct pkts" "set pkts \<subseteq> set (rx_contents (es_rxq st) @ allocs)"
    using assms(3) unfolding eq by auto
  then have "\<exists>r. echo_round (echo_tx_burst detach) sw pa (mbufs q) (es_data st) (q, []) pkts = Inr r"
    by (intro echo_round_returns) (use q rx(3,5) assms(4) in \<open>auto simp: BURST_SIZE_def\<close>)
  then show ?thesis using rx(1) q(2) by (auto simp: echo_port_round_def q_def)
qed

text \<open>A round of the server ends without a fault. When the bytes a packet claims to have lie in its buffer,
  as they do if the length field of its IP header is right, the round returns: it does not read or write
  outside a buffer, misses no mbuf and does not loop.\<close>

theorem echo_round_ends:
  assumes "echo_inv st" "allocs_ok st allocs" "distinct (rx_contents (es_rxq st) @ allocs)"
    "\<forall>a\<in>set (rx_contents (es_rxq st) @ allocs). \<exists>bs. es_data st a = Some bs \<and> echo_fits bs"
  shows "\<exists>ins outs st'. echo_port_round detach sw pa allocs b st = Inr (ins, outs, st')"
  by (rule echo_port_round_returns [OF assms])

text \<open>A port whose receive ring holds the packet above and whose transmit ring is empty.\<close>

definition demo_echo :: "region_pool \<Rightarrow> echo_state" where
  "demo_echo p = \<lparr>es_rxq = demo_rxq p, es_txq = simple_demo 32 p,
     es_data = [0x10800 \<mapsto> demo_frame [2, 0, 0, 0, 0, 1] [2, 0, 0, 0, 0, 2] [10, 0, 0, 1] [10, 0, 0, 2] [0, 7] [0, 8] 0 0]\<rparr>"

lemma demo_echo_ok:
  obtains p where "echo_inv (demo_echo p)" "allocs_ok (demo_echo p) []" "rx_contents (es_rxq (demo_echo p)) = [0x10800]"
    "simple_contents (es_txq (demo_echo p)) = []"
    "\<forall>a\<in>set (rx_contents (es_rxq (demo_echo p))). \<exists>bs. es_data (demo_echo p) a = Some bs \<and> echo_fits bs"
proof -
  obtain rid p where a: "pool_inv p" "pool_map p = [rid \<mapsto> new_region rid demo_cap]"
    by (rule demo_pool_add)
  note r = demo_rxq_inv [OF a]
  have f: "echo_fits (demo_frame [2, 0, 0, 0, 0, 1] [2, 0, 0, 0, 0, 2] [10, 0, 0, 1] [10, 0, 0, 2] [0, 7] [0, 8] 0 0)"
    by (simp add: echo_fits_def udp_frame_def demo_pre_def ihl_def ip_total_def ld16_def htons_def)
  have "sole (mbufs (demo_rxq p)) 0x10800" "mbufs (simple_demo 32 p) = mbufs (demo_rxq p)" "vlan_flags (demo_rxq p) = 0"
    by (simp_all add: sole_def demo_rxq_def simple_demo_def demo_mbuf_def RTE_MBUF_DIRECT_def)
  then show thesis
    using that [of p] r simple_demo_inv [of p] f
    by (simp add: demo_echo_def echo_inv_def allocs_ok_def plain_flags_def)
      (simp add: simple_contents_def simple_used_def simple_demo_def)
qed

theorem echo_round_ends_witness:
  "\<exists>p ins outs st'. echo_port_round (\<lambda>mem a. Inr mem) True [2, 0, 0, 0, 0, 1] [] empty_buf (demo_echo p) = Inr (ins, outs, st')"
proof -
  obtain p where p: "echo_inv (demo_echo p)" "allocs_ok (demo_echo p) []" "rx_contents (es_rxq (demo_echo p)) = [0x10800]"
    "\<forall>a\<in>set (rx_contents (es_rxq (demo_echo p))). \<exists>bs. es_data (demo_echo p) a = Some bs \<and> echo_fits bs"
    by (rule demo_echo_ok)
  from echo_round_ends [OF p(1,2), of "\<lambda>mem a. Inr mem" True "[2, 0, 0, 0, 0, 1]" empty_buf] p(3,4) show ?thesis by auto
qed

theorem echo_server_conserves_witness:
  "\<exists>p ins outs st. echo_run (\<lambda>mem a. Inr mem) True [2, 0, 0, 0, 0, 1] (demo_echo p) st ins outs \<and>
     {#0x10800#} + mset ins = mset outs + mset (echo_mbufs st)"
proof -
  obtain p where p: "echo_inv (demo_echo p)" "allocs_ok (demo_echo p) []" "rx_contents (es_rxq (demo_echo p)) = [0x10800]"
    "simple_contents (es_txq (demo_echo p)) = []"
    "\<forall>a\<in>set (rx_contents (es_rxq (demo_echo p))). \<exists>bs. es_data (demo_echo p) a = Some bs \<and> echo_fits bs"
    by (rule demo_echo_ok)
  then obtain ins outs st where
    r: "echo_port_round (\<lambda>mem a. Inr mem) True [2, 0, 0, 0, 0, 1] [] empty_buf (demo_echo p) = Inr (ins, outs, st)"
    using echo_port_round_returns [OF p(1,2), of "\<lambda>mem a. Inr mem" True "[2, 0, 0, 0, 0, 1]" empty_buf] by auto
  have run: "echo_run (\<lambda>mem a. Inr mem) True [2, 0, 0, 0, 0, 1] (demo_echo p) st ([] @ ins) ([] @ outs)"
    by (rule echo_run.round [OF echo_run.start p(2) r])
  from echo_server_conserves [OF p(1) run] show ?thesis using run p(3,4) by (auto simp: echo_mbufs_def)
qed

section \<open>Packets that go wrong\<close>

text \<open>The length in the IP header is believed: a packet of four bytes of payload that claims 1500 makes the server read
  behind the buffer.\<close>

theorem echo_overread:
  "echo_packet True [2, 0, 0, 0, 0, 1] 0x211
     (udp_frame [2, 0, 0, 0, 0, 1] [2, 0, 0, 0, 0, 2] [8, 0] [0x45, 0, 5, 220, 0, 1, 0, 0, 64, 17] 0 [10, 0, 0, 1] [10, 0, 0, 2]
        [0, 7] [0, 8] [0, 12] 0 [1, 2, 3, 4] [0, 0]) = Inl Bad_Memory"
  by code_simp

text \<open>A header with options: the checksum of the reply covers the first 20 bytes only, so the header verifies only if the words
  of the options add up to a multiple of 65535. For a packet that is not taken for UDP.\<close>

lemma echo_ipv4_other:
  assumes e: "length e = 14" and l: "length pre = 10" "length src = 4" "length dst = 4" and u: "ptype AND RTE_PTYPE_L4_UDP = 0"
  shows "echo_ipv4 sw ptype (e @ ip_head pre ck src dst @ r) =
    Inr (e @ ip_head pre (rte_ipv4_cksum (ip_head pre 0 dst src)) dst src @ r)"
proof -
  let ?h = "ip_head pre ck src dst"
  have s: "pkt_slice (e @ ip_head pre c x y @ r) 14 20 = Inr (ip_head pre c x y)" if "length x = 4" "length y = 4" for c x y
    using slice_at [of e "ip_head pre c x y" r] e l that by simp
  have p1: "pkt_patch (e @ ?h @ r) 26 dst = Inr (e @ ip_head pre ck dst dst @ r)"
    using patch_at [of src dst "e @ pre @ st16 ck" "dst @ r"] e l by (simp add: ip_head_def)
  have p2: "pkt_patch (e @ ip_head pre ck dst dst @ r) 30 src = Inr (e @ ip_head pre ck dst src @ r)"
    using patch_at [of dst src "e @ pre @ st16 ck @ dst" r] e l by (simp add: ip_head_def)
  have p3: "pkt_patch (e @ ip_head pre c dst src @ r) 24 (st16 x) = Inr (e @ ip_head pre x dst src @ r)" for c x
    using patch_at [of "st16 c" "st16 x" "e @ pre" "dst @ src @ r"] e l by (simp add: ip_head_def)
  have z: "[0, 0] = st16 0" by (simp add: st16_def)
  have h: "take 4 (drop 16 ?h) = dst" "take 4 (drop 12 ?h) = src" using l by (simp_all add: ip_head_def)
  show ?thesis unfolding echo_ipv4_def s [OF l(2,3)] bindc_Inr h Let_def z using u p1 p2 p3 s [OF l(3,2)] by simp
qed

lemma ones_sum_all_ones: "ones_sum n = 65535 \<longleftrightarrow> n \<noteq> 0 \<and> n mod 65535 = 0"
  using mod_less_divisor [of 65535 n] by (auto simp: ones_sum_def)

theorem echo_options_checksum:
  assumes "length e = 14" "length pre = 10" "length src = 4" "length dst = 4" "ptype AND RTE_PTYPE_L4_UDP = 0" "even (length opt)"
  shows "\<exists>h. echo_ipv4 sw ptype (e @ ip_head pre ck src dst @ opt @ rest) = Inr (e @ h @ opt @ rest) \<and>
    (ip_verifies (h @ opt) \<longleftrightarrow> le_sum opt mod 65535 = 0)"
proof -
  let ?h = "ip_head pre (rte_ipv4_cksum (ip_head pre 0 dst src)) dst src"
  have "ip_verifies ?h" by (rule ip_cksum_verifies [OF assms(2,4,3) refl])
  then have h: "le_sum ?h \<noteq> 0" "le_sum ?h mod 65535 = 0" unfolding ip_verifies_def ones_sum_all_ones by blast+
  have "even (length ?h)" using assms by simp
  then have sum: "le_sum (?h @ opt) = le_sum ?h + le_sum opt" by (rule le_sum_append)
  have "a + b \<noteq> 0 \<and> (a + b) mod k = 0 \<longleftrightarrow> b mod k = 0" if "a \<noteq> 0" "a mod k = 0" for a b k :: nat
    using that mod_add_left_eq [of a k b] by auto
  from this [OF h] have "ip_verifies (?h @ opt) \<longleftrightarrow> le_sum opt mod 65535 = 0"
    unfolding ip_verifies_def ones_sum_all_ones sum .
  with echo_ipv4_other [OF assms(1-5), of sw ck "opt @ rest"] show ?thesis by (rule conjI [THEN exI [of _ ?h]])
qed

section \<open>The packet types of the driver\<close>

text \<open>The server tests single bits of a packet type, whose layers are numbers of four bits.\<close>

definition layers_by_bits :: "u32 \<Rightarrow> bool" where
  "layers_by_bits t \<longleftrightarrow>
     (t AND RTE_PTYPE_L2_ETHER \<noteq> 0 \<longleftrightarrow> t AND 0xf = RTE_PTYPE_L2_ETHER) \<and>
     (t AND RTE_PTYPE_L3_IPV4 \<noteq> 0 \<longleftrightarrow>
        t AND 0xf0 \<in> {RTE_PTYPE_L3_IPV4, RTE_PTYPE_L3_IPV4_EXT, RTE_PTYPE_L3_IPV4_EXT_UNKNOWN}) \<and>
     (t AND RTE_PTYPE_L4_UDP \<noteq> 0 \<longleftrightarrow> t AND 0xf00 = RTE_PTYPE_L4_UDP)"

lemmas ptype_values = RTE_PTYPE_L2_ETHER_def RTE_PTYPE_L3_IPV4_def RTE_PTYPE_L3_IPV4_EXT_def RTE_PTYPE_L3_IPV6_def
  RTE_PTYPE_L3_IPV4_EXT_UNKNOWN_def RTE_PTYPE_L3_IPV6_EXT_def RTE_PTYPE_L4_TCP_def RTE_PTYPE_L4_UDP_def RTE_PTYPE_L4_SCTP_def
  RTE_PTYPE_TUNNEL_IP_def RTE_PTYPE_TUNNEL_GRE_def RTE_PTYPE_TUNNEL_VXLAN_def RTE_PTYPE_INNER_L2_ETHER_def
  RTE_PTYPE_INNER_L3_IPV4_def RTE_PTYPE_INNER_L3_IPV4_EXT_def RTE_PTYPE_INNER_L3_IPV6_def RTE_PTYPE_INNER_L3_IPV6_EXT_def
  RTE_PTYPE_INNER_L4_TCP_def RTE_PTYPE_INNER_L4_UDP_def RTE_PTYPE_INNER_L4_SCTP_def

lemma layers_init: "list_all (layers_by_bits \<circ> snd) ptype_table_init" "list_all (layers_by_bits \<circ> snd) ptype_table_tn_init"
  by (simp_all add: ptype_table_init_def ptype_table_tn_init_def layers_by_bits_def ptype_values)

lemma layers_table:
  assumes "list_all (layers_by_bits \<circ> snd) init" "t \<in> set (map (\<lambda>i. case map_of init i of None \<Rightarrow> 0 | Some t \<Rightarrow> t) is)"
  shows "layers_by_bits t"
proof -
  have "layers_by_bits 0" by (simp add: layers_by_bits_def ptype_values)
  then show ?thesis using assms by (fastforce simp: list_all_iff split: option.splits dest!: map_of_SomeD)
qed

theorem ixgbe_types_by_bits:
  assumes "ixgbe_rxd_pkt_info_to_pkt_type pkt_info ptype_mask = Inr t"
  shows "layers_by_bits t"
proof -
  have "t = 0 \<or> t \<in> set ptype_table \<or> t \<in> set ptype_table_tn"
    using assms by (auto simp: ixgbe_rxd_pkt_info_to_pkt_type_def RTE_PTYPE_UNKNOWN_def Let_def arr_get_def split: if_splits)
  moreover have "layers_by_bits 0" by (simp add: layers_by_bits_def ptype_values)
  ultimately show ?thesis
    using layers_table [OF layers_init(1), of t "[0..<0x80]"] layers_table [OF layers_init(2), of t "[0..<0x100]"]
    unfolding ptype_table_def ptype_table_tn_def by blast
qed

end
