(* ===== verification/Ixgbe_Bulk_Rx.thy ===== *)
theory Ixgbe_Bulk_Rx
  imports Ixgbe_Setup
begin

text \<open>
  The receive function of the unmodified driver, \<open>drivers/net/ixgbe/ixgbe_rxtx.c\<close>, which the CleanQ receive
  function stands in for: \<open>ixgbe_recv_pkts_bulk_alloc\<close>, which scans the ring eight descriptors at a time, keeps what
  the caller did not ask for in a stage and replaces mbufs in blocks of \<open>rx_free_thresh\<close>; and
  \<open>ixgbe_alloc_rx_queue_mbufs\<close>, which fills a ring before its first use. The other receive function is in
  \<open>Ixgbe_Single_Rx\<close>.

  The mempool belongs to \<open>librte_mempool\<close>: what \<open>rte_mempool_get_bulk\<close> and \<open>rte_mbuf_raw_alloc\<close> answer from call to call
  is an argument.

  Contents: the operations; the mbufs a queue holds in the order in which they will come out, and that the function
  hands them out in this order, none lost and none twice, also when an allocation fails; that the card always has
  the address of the mbuf of its descriptor; that a queue that is filled, run and released gives back what it holds.
\<close>

section \<open>Slices of arrays\<close>

text \<open>The loops that copy \<open>n\<close> pointers between arrays.\<close>

definition slice_get :: "'a list \<Rightarrow> nat \<Rightarrow> nat \<Rightarrow> 'a list cres" where
  "slice_get xs i n = (if i + n \<le> length xs then Inr (take n (drop i xs)) else Inl Bad_Memory)"

definition blit :: "'a list \<Rightarrow> nat \<Rightarrow> 'a list \<Rightarrow> 'a list" where
  "blit xs i ys = take i xs @ ys @ drop (i + length ys) xs"

definition slice_set :: "'a list \<Rightarrow> nat \<Rightarrow> 'a list \<Rightarrow> 'a list cres" where
  "slice_set xs i ys = (if i + length ys \<le> length xs then Inr (blit xs i ys) else Inl Bad_Memory)"

section \<open>Scanning the ring\<close>

definition LOOK_AHEAD :: nat where "LOOK_AHEAD = 8"

definition desc_done :: "ixgbe_adv_rx_desc \<Rightarrow> bool" where
  "desc_done d \<longleftrightarrow> wb_status_error d AND IXGBE_RXDADV_STAT_DD \<noteq> 0"

text \<open>Writing the metadata of a run of descriptors into their mbufs.\<close>

fun scan_translate ::
  "ixgbe_rx_queue \<Rightarrow> (u64 \<rightharpoonup> rte_mbuf) \<Rightarrow> (ixgbe_adv_rx_desc \<times> u64) list \<Rightarrow> (u64 \<rightharpoonup> rte_mbuf) cres" where
  "scan_translate rxq mem [] = Inr mem"
| "scan_translate rxq mem ((d, mb) # ds) =
     bindc (deref mem mb) (\<lambda>m.
     bindc (rx_fill_mbuf rxq d m) (\<lambda>m'. scan_translate rxq (mem(mb \<mapsto> m')) ds))"

text \<open>The rounds of the loop: \<open>pos\<close> is the index of the descriptor and the entry \<open>rxdp\<close> and \<open>rxep\<close> point to, \<open>i\<close> the
  loop variable.\<close>

fun scan_rounds :: "nat \<Rightarrow> ixgbe_rx_queue \<Rightarrow> nat \<Rightarrow> nat \<Rightarrow> nat \<Rightarrow> (nat \<times> ixgbe_rx_queue) cres" where
  "scan_rounds 0 rxq pos i nb_rx = Inr (nb_rx, rxq)"
| "scan_rounds (Suc k) rxq pos i nb_rx =
     bindc (slice_get (rx_ring rxq) pos LOOK_AHEAD) (\<lambda>s.
     bindc (slice_get (rx_sw_ring rxq) pos LOOK_AHEAD) (\<lambda>rxep.
     let nb_dd = length (takeWhile desc_done s) in
     bindc (scan_translate rxq (mbufs rxq) (take nb_dd (zip s rxep))) (\<lambda>mem.
     bindc (slice_set (rx_stage rxq) i rxep) (\<lambda>stage.
     let rxq1 = rxq\<lparr>mbufs := mem, rx_stage := stage\<rparr> in
     if nb_dd \<noteq> LOOK_AHEAD then Inr (nb_rx + nb_dd, rxq1)
     else scan_rounds k rxq1 (pos + LOOK_AHEAD) (i + LOOK_AHEAD) (nb_rx + nb_dd)))))"

definition ixgbe_rx_scan_hw_ring :: "ixgbe_rx_queue \<Rightarrow> (nat \<times> ixgbe_rx_queue) cres" where
  "ixgbe_rx_scan_hw_ring rxq =
     (let t = unat (rx_tail rxq) in
      bindc (arr_get (rx_ring rxq) t) (\<lambda>d.
      if \<not> desc_done d then Inr (0, rxq)
      else bindc (scan_rounds (RTE_PMD_IXGBE_RX_MAX_BURST div LOOK_AHEAD) rxq t 0 0) (\<lambda>(nb_rx, rxq1).
           bindc (slice_set (rx_sw_ring rxq1) t (replicate nb_rx 0)) (\<lambda>sw.
           Inr (nb_rx, rxq1\<lparr>rx_sw_ring := sw\<rparr>)))))"

section \<open>Replacing mbufs in blocks\<close>

definition rx_read_desc :: "rte_mbuf \<Rightarrow> ixgbe_adv_rx_desc" where
  "rx_read_desc m = \<lparr>pkt_addr = rte_mbuf_data_iova_default m, hdr_addr = 0\<rparr>"

fun init_bufs ::
  "u16 option \<Rightarrow> (u64 \<rightharpoonup> rte_mbuf) \<Rightarrow> ixgbe_adv_rx_desc list \<Rightarrow> nat \<Rightarrow> u64 list \<Rightarrow>
   ((u64 \<rightharpoonup> rte_mbuf) \<times> ixgbe_adv_rx_desc list) cres" where
  "init_bufs port mem ring i [] = Inr (mem, ring)"
| "init_bufs port mem ring i (mb # mbs) =
     bindc (deref mem mb) (\<lambda>m.
     let m1 = (case port of Some p \<Rightarrow> m\<lparr>mb_port := p\<rparr> | None \<Rightarrow> m);
         m2 = m1\<lparr>refcnt := 1, data_off := RTE_PKTMBUF_HEADROOM\<rparr> in
     bindc (arr_set ring i (rx_read_desc m2)) (\<lambda>ring'. init_bufs port (mem(mb \<mapsto> m2)) ring' (Suc i) mbs))"

text \<open>\<open>bulk\<close> is what \<open>rte_mempool_get_bulk\<close> answers: an error or \<open>rx_free_thresh\<close> mbufs.\<close>

definition ixgbe_rx_alloc_bufs :: "ixgbe_rx_queue \<Rightarrow> bool \<Rightarrow> u64 list option \<Rightarrow> (int \<times> ixgbe_rx_queue) cres" where
  "ixgbe_rx_alloc_bufs rxq reset_mbuf bulk =
     (let alloc_idx = unat (rx_free_trigger rxq - (rx_free_thresh rxq - 1)) in
      case bulk of
        None \<Rightarrow> Inr (- ENOMEM, rxq)
      | Some mbs \<Rightarrow>
          bindc (slice_set (rx_sw_ring rxq) alloc_idx mbs) (\<lambda>sw.
          bindc (slice_get sw alloc_idx (unat (rx_free_thresh rxq))) (\<lambda>rxep.
          bindc (init_bufs (if reset_mbuf then Some (port_id rxq) else None) (mbufs rxq) (rx_ring rxq) alloc_idx rxep)
            (\<lambda>(mem, ring).
          let trigger = rx_free_trigger rxq + rx_free_thresh rxq in
          Inr (0, rxq\<lparr>rx_sw_ring := sw, mbufs := mem, rx_ring := ring,
                      rx_free_trigger := (if trigger \<ge> nb_rx_desc rxq then rx_free_thresh rxq - 1 else trigger)\<rparr>)))))"

section \<open>Receiving\<close>

definition ixgbe_rx_fill_from_stage :: "ixgbe_rx_queue \<Rightarrow> u16 \<Rightarrow> (u64 list \<times> ixgbe_rx_queue) cres" where
  "ixgbe_rx_fill_from_stage rxq nb_pkts =
     (let n = min nb_pkts (rx_nb_avail rxq) in
      bindc (slice_get (rx_stage rxq) (unat (rx_next_avail rxq)) (unat n)) (\<lambda>pkts.
      Inr (pkts, rxq\<lparr>rx_nb_avail := rx_nb_avail rxq - n, rx_next_avail := rx_next_avail rxq + n\<rparr>)))"

text \<open>The answers of the mempool, from call to call; none are left when it is empty for good.\<close>

definition next_bulk :: "u64 list option list \<Rightarrow> u64 list option \<times> u64 list option list" where
  "next_bulk bulks = (case bulks of [] \<Rightarrow> (None, []) | b # bs \<Rightarrow> (b, bs))"

text \<open>Replacing mbufs when the tail has passed the trigger: whether there were none, in which case the \<open>nb_rx\<close> packets
  of the scan go back into the ring, the answers not yet used and the queue.\<close>

definition rx_replenish ::
  "ixgbe_rx_queue \<Rightarrow> u16 \<Rightarrow> u64 list option list \<Rightarrow> (bool \<times> u64 list option list \<times> ixgbe_rx_queue) cres" where
  "rx_replenish rxq nb_rx bulks =
     (if rx_tail rxq > rx_free_trigger rxq
      then let cur_free_trigger = rx_free_trigger rxq; (bulk, bulks') = next_bulk bulks in
        bindc (ixgbe_rx_alloc_bufs rxq True bulk) (\<lambda>(diag, rxq1).
        if diag \<noteq> 0
        then let tail = rx_tail rxq1 - nb_rx in
             bindc (slice_get (rx_stage rxq1) 0 (unat nb_rx)) (\<lambda>staged.
             bindc (slice_set (rx_sw_ring rxq1) (unat tail) staged) (\<lambda>sw.
             Inr (True, bulks', rxq1\<lparr>rx_nb_avail := 0, rx_tail := tail, rx_sw_ring := sw\<rparr>)))
        else Inr (False, bulks', rxq1\<lparr>rdt_reg := ucast cur_free_trigger\<rparr>))
      else Inr (False, bulks, rxq))"

text \<open>The result: the packets, what is added to \<open>rx_mbuf_alloc_failed\<close>, the answers not yet used and the queue.\<close>

definition rx_deliver ::
  "ixgbe_rx_queue \<Rightarrow> u16 \<Rightarrow> u64 list option list \<Rightarrow> (u64 list \<times> nat \<times> u64 list option list \<times> ixgbe_rx_queue) cres" where
  "rx_deliver rxq nb_pkts bulks =
     (if rx_nb_avail rxq \<noteq> 0
      then bindc (ixgbe_rx_fill_from_stage rxq nb_pkts) (\<lambda>(pkts, rxq'). Inr (pkts, 0, bulks, rxq'))
      else Inr ([], 0, bulks, rxq))"

definition rx_recv_pkts ::
  "ixgbe_rx_queue \<Rightarrow> u16 \<Rightarrow> u64 list option list \<Rightarrow> (u64 list \<times> nat \<times> u64 list option list \<times> ixgbe_rx_queue) cres" where
  "rx_recv_pkts rxq nb_pkts bulks =
     (if rx_nb_avail rxq \<noteq> 0
      then bindc (ixgbe_rx_fill_from_stage rxq nb_pkts) (\<lambda>(pkts, rxq'). Inr (pkts, 0, bulks, rxq'))
      else
      bindc (ixgbe_rx_scan_hw_ring rxq) (\<lambda>(nb_rx, rxq0).
      bindc (rx_replenish (rxq0\<lparr>rx_next_avail := 0, rx_nb_avail := of_nat nb_rx, rx_tail := rx_tail rxq0 + of_nat nb_rx\<rparr>)
               (of_nat nb_rx) bulks) (\<lambda>(failed, bulks', rxq1).
      if failed then Inr ([], unat (rx_free_thresh rxq1), bulks', rxq1)
      else rx_deliver (if rx_tail rxq1 \<ge> nb_rx_desc rxq1 then rxq1\<lparr>rx_tail := 0\<rparr> else rxq1) nb_pkts bulks')))"

text \<open>The loop over chunks of 32. Every round but the last takes at least one packet off \<open>nb_pkts\<close>, which bounds
  the rounds.\<close>

fun recv_chunks ::
  "nat \<Rightarrow> ixgbe_rx_queue \<Rightarrow> u16 \<Rightarrow> u64 list option list \<Rightarrow> (u64 list \<times> nat \<times> u64 list option list \<times> ixgbe_rx_queue) cres" where
  "recv_chunks 0 rxq nb_pkts bulks = (if nb_pkts = 0 then Inr ([], 0, bulks, rxq) else Inl No_Return)"
| "recv_chunks (Suc fuel) rxq nb_pkts bulks =
     (if nb_pkts = 0 then Inr ([], 0, bulks, rxq)
      else let n = min nb_pkts (of_nat RTE_PMD_IXGBE_RX_MAX_BURST) in
           bindc (rx_recv_pkts rxq n bulks) (\<lambda>(pkts, failed, bulks', rxq').
           let ret = of_nat (length pkts) in
           if ret < n then Inr (pkts, failed, bulks', rxq')
           else bindc (recv_chunks fuel rxq' (nb_pkts - ret) bulks') (\<lambda>(pkts', failed', bulks'', rxq'').
                Inr (pkts @ pkts', failed + failed', bulks'', rxq''))))"

definition ixgbe_recv_pkts_bulk_alloc ::
  "ixgbe_rx_queue \<Rightarrow> u16 \<Rightarrow> u64 list option list \<Rightarrow> (u64 list \<times> nat \<times> u64 list option list \<times> ixgbe_rx_queue) cres" where
  "ixgbe_recv_pkts_bulk_alloc rxq nb_pkts bulks =
     (if nb_pkts = 0 then Inr ([], 0, bulks, rxq)
      else if unat nb_pkts \<le> RTE_PMD_IXGBE_RX_MAX_BURST then rx_recv_pkts rxq nb_pkts bulks
      else recv_chunks (unat nb_pkts) rxq nb_pkts bulks)"

section \<open>Filling a ring\<close>

fun alloc_entries ::
  "ixgbe_rx_queue \<Rightarrow> nat \<Rightarrow> nat \<Rightarrow> u64 list \<Rightarrow> (int \<times> u64 list \<times> ixgbe_rx_queue) cres" where
  "alloc_entries rxq i 0 allocs = Inr (0, allocs, rxq)"
| "alloc_entries rxq i (Suc n) allocs =
     (case allocs of
        [] \<Rightarrow> Inr (- ENOMEM, [], rxq)
      | mb # allocs' \<Rightarrow>
          if mb = 0 then Inr (- ENOMEM, allocs', rxq)
          else
          bindc (deref (mbufs rxq) mb) (\<lambda>m.
          let m1 = m\<lparr>data_off := RTE_PKTMBUF_HEADROOM, mb_port := port_id rxq\<rparr> in
          bindc (arr_set (rx_ring rxq) i (rx_read_desc m1)) (\<lambda>ring.
          bindc (arr_set (rx_sw_ring rxq) i mb) (\<lambda>sw.
          alloc_entries (rxq\<lparr>mbufs := (mbufs rxq)(mb \<mapsto> m1), rx_ring := ring, rx_sw_ring := sw\<rparr>) (Suc i) n allocs'))))"

definition ixgbe_alloc_rx_queue_mbufs :: "ixgbe_rx_queue \<Rightarrow> u64 list \<Rightarrow> (int \<times> u64 list \<times> ixgbe_rx_queue) cres" where
  "ixgbe_alloc_rx_queue_mbufs rxq allocs = alloc_entries rxq 0 (unat (nb_rx_desc rxq)) allocs"

section \<open>Facts on slices\<close>

lemma length_blit [simp]: "i + length ys \<le> length xs \<Longrightarrow> length (blit xs i ys) = length xs"
  by (simp add: blit_def)

lemma nth_blit:
  assumes "i + length ys \<le> length xs" "j < length xs"
  shows "blit xs i ys ! j = (if i \<le> j \<and> j < i + length ys then ys ! (j - i) else xs ! j)"
  using assms by (auto simp: blit_def nth_append min_def)

lemma slice_get_in [simp]: "i + n \<le> length xs \<Longrightarrow> slice_get xs i n = Inr (take n (drop i xs))"
  by (simp add: slice_get_def)

lemma slice_set_in [simp]: "i + length ys \<le> length xs \<Longrightarrow> slice_set xs i ys = Inr (blit xs i ys)"
  by (simp add: slice_set_def)

lemma blit_same: "i + n \<le> length xs \<Longrightarrow> blit xs i (take n (drop i xs)) = xs"
  by (simp add: blit_def min_def) (metis append_take_drop_id drop_drop add.commute)

text \<open>Writing a slice back that was taken out before.\<close>

lemma blit_blit: "i + length ys \<le> length xs \<Longrightarrow> length zs = length ys \<Longrightarrow> blit (blit xs i ys) i zs = blit xs i zs"
  by (cases ys) (auto simp: blit_def min_def)

lemma slice_blit: "i + length ys \<le> length xs \<Longrightarrow> take (length ys) (drop i (blit xs i ys)) = ys"
  by (simp add: blit_def min_def)

lemma map_nth_slice: "i + n \<le> length xs \<Longrightarrow> map ((!) xs) [i..<i + n] = take n (drop i xs)"
  by (rule nth_equalityI) (auto simp: min_def)

section \<open>Writing metadata\<close>

text \<open>What translating a descriptor leaves alone.\<close>

definition mbuf_kept :: "rte_mbuf \<Rightarrow> rte_mbuf \<Rightarrow> bool" where
  "mbuf_kept m m' \<longleftrightarrow> buf_iova m' = buf_iova m \<and> data_off m' = data_off m \<and> mb_pool m' = mb_pool m \<and>
     buf_len m' = buf_len m \<and> refcnt m' = refcnt m"

lemma mbuf_kept_refl [simp]: "mbuf_kept m m"
  by (simp add: mbuf_kept_def)

lemma rx_fill_mbuf_kept: "rx_fill_mbuf q d m = Inr m' \<Longrightarrow> mbuf_kept m m'"
  by (auto simp: rx_fill_mbuf_def Let_def bindc_eq_Inr mbuf_kept_def)

lemma rx_fill_mbuf_returns: "\<exists>m'. rx_fill_mbuf q d m = Inr m'"
  using rx_fill_mbuf_spec by metis

text \<open>The translation reads only the configuration of the queue.\<close>

lemma rx_fill_mbuf_config:
  "rx_fill_mbuf (q\<lparr>mbufs := mem, rx_stage := st\<rparr>) d m = rx_fill_mbuf q d m"
  "rx_fill_mbuf (q\<lparr>rx_sw_ring := sw, rx_ring := ring, mbufs := mem\<rparr>) d m = rx_fill_mbuf q d m"
  by (simp_all add: rx_fill_mbuf_def)

lemma scan_translate_config: "scan_translate (q\<lparr>mbufs := mem', rx_stage := st\<rparr>) mem ds = scan_translate q mem ds"
  by (induction ds arbitrary: mem) (auto simp: rx_fill_mbuf_config)

lemma scan_translate_append:
  "scan_translate q mem (xs @ ys) = bindc (scan_translate q mem xs) (\<lambda>mem'. scan_translate q mem' ys)"
proof (induction xs arbitrary: mem)
  case (Cons da xs)
  then show ?case by (cases da) (simp add: bindc_assoc fun_upd_def)
qed simp

definition rx_mem_kept :: "(u64 \<rightharpoonup> rte_mbuf) \<Rightarrow> (u64 \<rightharpoonup> rte_mbuf) \<Rightarrow> bool" where
  "rx_mem_kept mem mem' \<longleftrightarrow> (\<forall>a m. mem a = Some m \<longrightarrow> (\<exists>m'. mem' a = Some m' \<and> mbuf_kept m m'))"

lemma rx_mem_keptE:
  assumes "rx_mem_kept mem mem'" "mem a = Some m"
  obtains m' where "mem' a = Some m'" "mbuf_kept m m'"
  using assms by (auto simp: rx_mem_kept_def)

lemma rx_mem_kept_refl [simp]: "rx_mem_kept mem mem"
  by (simp add: rx_mem_kept_def)

lemma rx_mem_kept_upd:
  assumes "rx_mem_kept (mem(a \<mapsto> m')) mem'" "mem a = Some m" "mbuf_kept m m'"
  shows "rx_mem_kept mem mem'"
  unfolding rx_mem_kept_def
proof (intro allI impI)
  fix x y assume xy: "mem x = Some y"
  define z where "z = (if x = a then m' else y)"
  have "(mem(a \<mapsto> m')) x = Some z" using xy by (simp add: z_def)
  then obtain y' where y': "mem' x = Some y'" "mbuf_kept z y'" by (rule rx_mem_keptE [OF assms(1)])
  moreover have "mbuf_kept y z" using assms(2,3) xy by (auto simp: z_def)
  ultimately show "\<exists>y'. mem' x = Some y' \<and> mbuf_kept y y'" by (auto simp: mbuf_kept_def)
qed

lemma scan_translate_spec:
  "\<forall>a\<in>snd ` set ds. \<exists>m. mem a = Some m \<Longrightarrow> distinct (map snd ds) \<Longrightarrow>
     \<exists>mem'. scan_translate q mem ds = Inr mem' \<and> rx_mem_kept mem mem' \<and>
       (\<forall>a. a \<notin> snd ` set ds \<longrightarrow> mem' a = mem a) \<and>
       (\<forall>(d, a)\<in>set ds. \<exists>m m'. mem a = Some m \<and> rx_fill_mbuf q d m = Inr m' \<and> mem' a = Some m')"
proof (induction ds arbitrary: mem)
  case (Cons da ds)
  obtain d a where da: "da = (d, a)" by (cases da)
  obtain m where m: "mem a = Some m" using Cons.prems da by auto
  obtain m' where m': "rx_fill_mbuf q d m = Inr m'" using rx_fill_mbuf_returns by blast
  let ?mem = "mem(a \<mapsto> m')"
  have new: "a \<notin> snd ` set ds" "distinct (map snd ds)" using Cons.prems(2) da by auto
  have "\<forall>x\<in>snd ` set ds. \<exists>m. ?mem x = Some m" using Cons.prems(1) by auto
  from Cons.IH [OF this new(2)] obtain mem' where i: "scan_translate q ?mem ds = Inr mem'"
    "rx_mem_kept ?mem mem'" "\<forall>x. x \<notin> snd ` set ds \<longrightarrow> mem' x = ?mem x"
    "\<forall>(e, x)\<in>set ds. \<exists>m m'. ?mem x = Some m \<and> rx_fill_mbuf q e m = Inr m' \<and> mem' x = Some m'"
    by blast
  have "scan_translate q mem (da # ds) = Inr mem'" using m m' i(1) by (simp add: da)
  moreover have "rx_mem_kept mem mem'" by (rule rx_mem_kept_upd [OF i(2) m rx_fill_mbuf_kept [OF m']])
  moreover have "\<forall>x. x \<notin> snd ` set (da # ds) \<longrightarrow> mem' x = mem x" using i(3) by (simp add: da)
  moreover have "mem' a = Some m'" using i(3) new(1) by simp
  moreover have "\<exists>m m'. mem x = Some m \<and> rx_fill_mbuf q e m = Inr m' \<and> mem' x = Some m'" if "(e, x) \<in> set ds" for e x
  proof -
    have "x \<noteq> a" using that new(1) by force
    then show ?thesis using i(4) that by fastforce
  qed
  ultimately show ?case using m m' by (intro exI [of _ mem']) (auto simp: da)
qed simp

section \<open>The scan\<close>

text \<open>How many descriptors the card has finished from \<open>pos\<close> on.\<close>

definition done_run :: "ixgbe_rx_queue \<Rightarrow> nat \<Rightarrow> nat" where
  "done_run q pos = length (takeWhile desc_done (drop pos (rx_ring q)))"

lemma takeWhile_of_take: "takeWhile P (take n xs) = take n (takeWhile P xs)"
  by (induction xs arbitrary: n) (auto simp: take_Cons split: nat.splits)

lemma done_run_step:
  assumes "done_run q pos \<ge> n"
  shows "done_run q pos = n + done_run q (pos + n)"
proof -
  let ?xs = "drop pos (rx_ring q)"
  have "desc_done (?xs ! j)" if "j < n" for j
    using that assms set_takeWhileD [OF nth_mem, of j desc_done ?xs] takeWhile_nth [of j desc_done ?xs]
    by (simp add: done_run_def)
  then have "\<forall>x\<in>set (take n ?xs). desc_done x" by (auto simp: in_set_conv_nth)
  then have "takeWhile desc_done ?xs = take n ?xs @ takeWhile desc_done (drop n ?xs)"
    by (metis append_take_drop_id takeWhile_append2)
  moreover have "n \<le> length ?xs" using assms unfolding done_run_def by (metis le_trans length_takeWhile_le)
  ultimately show ?thesis by (simp add: done_run_def min_def add.commute)
qed

lemma takeWhile_slice: "length (takeWhile desc_done (take n (drop pos (rx_ring q)))) = min n (done_run q pos)"
  by (simp add: takeWhile_of_take done_run_def min.commute)

lemma done_run_at: "j < done_run q pos \<Longrightarrow> desc_done (rx_ring q ! (pos + j))"
  using set_takeWhileD [OF nth_mem, of j desc_done "drop pos (rx_ring q)"]
    takeWhile_nth [of j desc_done "drop pos (rx_ring q)"] length_takeWhile_le [of desc_done "drop pos (rx_ring q)"]
  by (simp add: done_run_def)

lemma done_run_le: "done_run q pos \<le> length (rx_ring q) - pos"
  using length_takeWhile_le [of desc_done "drop pos (rx_ring q)"] by (simp add: done_run_def)

text \<open>The run ends at the latest at a descriptor that is not done.\<close>

lemma done_run_stop:
  assumes "\<not> desc_done (rx_ring q ! e)" "pos \<le> e"
  shows "pos + done_run q pos \<le> e"
  using done_run_at [of "e - pos" q pos] assms by (cases "e - pos < done_run q pos") auto

text \<open>The finished descriptors from \<open>pos\<close> on with their mbufs.\<close>

definition done_pairs :: "ixgbe_rx_queue \<Rightarrow> nat \<Rightarrow> nat \<Rightarrow> (ixgbe_adv_rx_desc \<times> u64) list" where
  "done_pairs q pos n = take n (zip (drop pos (rx_ring q)) (drop pos (rx_sw_ring q)))"

lemma done_pairs_append: "done_pairs q pos (m + n) = done_pairs q pos m @ done_pairs q (pos + m) n"
  by (simp add: done_pairs_def take_add drop_zip add.commute)

lemma done_pairs_slice:
  "n \<le> k \<Longrightarrow> take n (zip (take k (drop pos (rx_ring q))) (take k (drop pos (rx_sw_ring q)))) = done_pairs q pos n"
  by (simp add: done_pairs_def take_zip [symmetric])

lemma take_prefix: "take k xs = take k ys \<Longrightarrow> n \<le> k \<Longrightarrow> take n xs = take n ys"
  by (metis min.absorb1 take_take)

lemma scan_rounds_spec:
  assumes "pos + 8 * k \<le> length (rx_ring q)" "pos + 8 * k \<le> length (rx_sw_ring q)" "i + 8 * k \<le> length (rx_stage q)"
    and "n = min (8 * k) (done_run q pos)" "scan_translate q (mbufs q) (done_pairs q pos n) = Inr mem"
  shows "\<exists>stage. scan_rounds k q pos i nb = Inr (nb + n, q\<lparr>mbufs := mem, rx_stage := stage\<rparr>) \<and>
    length stage = length (rx_stage q) \<and> take i stage = take i (rx_stage q) \<and>
    take n (drop i stage) = take n (drop pos (rx_sw_ring q))"
  using assms
proof (induction k arbitrary: q pos i n nb)
  case 0
  then show ?case by (intro exI [of _ "rx_stage q"]) (simp add: done_pairs_def)
next
  case (Suc k)
  let ?n = "min 8 (done_run q pos)"
  let ?blk = "take 8 (drop pos (rx_sw_ring q))"
  let ?st = "blit (rx_stage q) i ?blk"
  have len: "length ?blk = 8" "pos + 8 \<le> length (rx_ring q)" "pos + 8 \<le> length (rx_sw_ring q)"
    "i + 8 \<le> length (rx_stage q)" using Suc.prems by auto
  have n: "n = ?n + (n - ?n)" using Suc.prems(4) by auto
  obtain mem1 where mem1: "scan_translate q (mbufs q) (done_pairs q pos ?n) = Inr mem1"
    "scan_translate q mem1 (done_pairs q (pos + ?n) (n - ?n)) = Inr mem"
    using Suc.prems(5) by (subst (asm) n) (auto simp: done_pairs_append scan_translate_append bindc_eq_Inr)
  let ?q = "q\<lparr>mbufs := mem1, rx_stage := ?st\<rparr>"
  have st: "length ?st = length (rx_stage q)" "take i ?st = take i (rx_stage q)" "take 8 (drop i ?st) = ?blk"
    using len by (simp_all add: blit_def min_def)
  have step: "scan_rounds (Suc k) q pos i nb =
    (if ?n \<noteq> 8 then Inr (nb + ?n, ?q) else scan_rounds k ?q (pos + 8) (i + 8) (nb + ?n))"
    using len mem1(1) by (simp add: LOOK_AHEAD_def takeWhile_slice done_pairs_slice Let_def)
  show ?case
  proof (cases "?n = 8")
    case False
    then have "n = ?n" using Suc.prems(4) by auto
    then have "mem1 = mem" using mem1(2) by (simp add: done_pairs_def)
    moreover have "n \<le> 8" using \<open>n = ?n\<close> by linarith
    then have "take n (drop i ?st) = take n (drop pos (rx_sw_ring q))" by (rule take_prefix [OF st(3)])
    moreover have "scan_rounds (Suc k) q pos i nb = Inr (nb + ?n, ?q)" unfolding step by (rule if_P [OF False])
    then have "scan_rounds (Suc k) q pos i nb = Inr (nb + n, ?q)" by (simp only: \<open>n = ?n\<close> [symmetric])
    ultimately show ?thesis using st(1,2) by blast
  next
    case True
    have run: "done_run q pos = 8 + done_run q (pos + 8)" using True by (intro done_run_step) simp
    have n8: "n = 8 + (n - 8)" "n - 8 = min (8 * k) (done_run ?q (pos + 8))"
      using Suc.prems(4) run by (auto simp: done_run_def)
    have "scan_translate ?q (mbufs ?q) (done_pairs ?q (pos + 8) (n - 8)) = Inr mem"
      using mem1(2) True by (simp add: scan_translate_config done_pairs_def)
    moreover have "pos + 8 + 8 * k \<le> length (rx_ring ?q)" "pos + 8 + 8 * k \<le> length (rx_sw_ring ?q)"
      "i + 8 + 8 * k \<le> length (rx_stage ?q)" using Suc.prems(1-3) st(1) by simp_all
    ultimately obtain stage where
      r: "scan_rounds k ?q (pos + 8) (i + 8) (nb + 8) = Inr (nb + 8 + (n - 8), ?q\<lparr>mbufs := mem, rx_stage := stage\<rparr>)"
        "length stage = length ?st" "take (i + 8) stage = take (i + 8) ?st"
        "take (n - 8) (drop (i + 8) stage) = take (n - 8) (drop (pos + 8) (rx_sw_ring q))"
      using Suc.IH [of "pos + 8" ?q "i + 8" "n - 8" "nb + 8", OF _ _ _ n8(2)] by auto
    have "take i stage = take i ?st" by (rule take_prefix [OF r(3)]) simp
    then have "take i stage = take i (rx_stage q)" using st(2) by simp
    moreover have "take 8 (drop i stage) = take 8 (drop i ?st)" using r(3) by (simp only: take_drop add.commute)
    then have "take 8 (drop i stage) = ?blk" using st(3) by simp
    then have "take n (drop i stage) = take n (drop pos (rx_sw_ring q))"
      using r(4) by (subst (1 2) n8(1)) (simp add: take_add add.commute)
    ultimately show ?thesis using r(1,2) st(1) step True n8(1) by (intro exI [of _ stage]) simp
  qed
qed

section \<open>The mbufs a queue holds\<close>

text \<open>The first entry of the block that is replaced next.\<close>

definition bulk_start :: "ixgbe_rx_queue \<Rightarrow> nat" where
  "bulk_start q = unat (rx_free_trigger q) + 1 - unat (rx_free_thresh q)"

text \<open>The entries with an mbuf, in the order in which the card uses them: from the tail to the end of the ring, then
  from its beginning to the block that is replaced next.\<close>

definition bulk_entries :: "ixgbe_rx_queue \<Rightarrow> nat list" where
  "bulk_entries q = [unat (rx_tail q)..<unat (nb_rx_desc q)] @ [0..<bulk_start q]"

definition bulk_staged :: "ixgbe_rx_queue \<Rightarrow> u64 list" where
  "bulk_staged q = take (unat (rx_nb_avail q)) (drop (unat (rx_next_avail q)) (rx_stage q))"

definition bulk_held :: "ixgbe_rx_queue \<Rightarrow> u64 list" where
  "bulk_held q = bulk_staged q @ map ((!) (rx_sw_ring q)) (bulk_entries q)"

text \<open>The configuration: the conditions the driver checks, the size the set-up allows, and the descriptors behind the
  ring, which are never done.\<close>

definition bulk_config :: "ixgbe_rx_queue \<Rightarrow> bool" where
  "bulk_config q \<longleftrightarrow>
     check_rx_burst_bulk_alloc_preconditions q = 0 \<and> unat (nb_rx_desc q) \<le> IXGBE_MAX_RING_DESC \<and>
     unat (nb_rx_desc q) + RTE_PMD_IXGBE_RX_MAX_BURST \<le> length (rx_ring q) \<and>
     unat (nb_rx_desc q) + RTE_PMD_IXGBE_RX_MAX_BURST \<le> length (rx_sw_ring q) \<and>
     length (rx_stage q) = 2 * RTE_PMD_IXGBE_RX_MAX_BURST \<and>
     \<not> desc_done (rx_ring q ! unat (nb_rx_desc q))"

text \<open>An entry with an mbuf: its descriptor is done or has the address of its data.\<close>

definition bulk_entry_ok :: "ixgbe_rx_queue \<Rightarrow> nat \<Rightarrow> bool" where
  "bulk_entry_ok q i \<longleftrightarrow> (\<exists>m. mbufs q (rx_sw_ring q ! i) = Some m \<and> data_off m = RTE_PKTMBUF_HEADROOM \<and>
     (desc_done (rx_ring q ! i) \<or> rx_ring q ! i = rx_read_desc m))"

text \<open>The state between a scan and the replacement of mbufs: the tail may have left the block.\<close>

definition bulk_ok :: "ixgbe_rx_queue \<Rightarrow> bool" where
  "bulk_ok q \<longleftrightarrow>
     bulk_config q \<and>
     unat (rx_free_thresh q) dvd unat (rx_free_trigger q) + 1 \<and> unat (rx_free_trigger q) < unat (nb_rx_desc q) \<and>
     bulk_start q \<le> unat (rx_tail q) \<and> unat (rx_tail q) \<le> unat (nb_rx_desc q) \<and>
     unat (rx_tail q) \<le> unat (rx_free_trigger q) + unat (rx_free_thresh q) \<and>
     (\<forall>i\<in>set (bulk_entries q). bulk_entry_ok q i) \<and>
     (\<forall>i. bulk_start q \<le> i \<and> i < unat (rx_tail q) \<longrightarrow> rx_sw_ring q ! i = 0) \<and>
     unat (rx_next_avail q) + unat (rx_nb_avail q) \<le> length (rx_stage q) \<and>
     (\<forall>a\<in>set (bulk_staged q). mbufs q a \<noteq> None) \<and>
     distinct (bulk_held q) \<and> 0 \<notin> set (bulk_held q)"

definition bulk_inv :: "ixgbe_rx_queue \<Rightarrow> bool" where
  "bulk_inv q \<longleftrightarrow> bulk_ok q \<and> unat (rx_tail q) \<le> unat (rx_free_trigger q)"

lemma bulk_configD:
  assumes "bulk_config q"
  shows "32 \<le> unat (rx_free_thresh q)" "unat (rx_free_thresh q) < unat (nb_rx_desc q)"
    "unat (rx_free_thresh q) dvd unat (nb_rx_desc q)" "unat (nb_rx_desc q) \<le> 4096"
    "unat (nb_rx_desc q) + 32 \<le> length (rx_ring q)" "unat (nb_rx_desc q) + 32 \<le> length (rx_sw_ring q)"
    "length (rx_stage q) = 64" "\<not> desc_done (rx_ring q ! unat (nb_rx_desc q))"
proof -
  have c: "RTE_PMD_IXGBE_RX_MAX_BURST \<le> unat (rx_free_thresh q)" "rx_free_thresh q < nb_rx_desc q"
    "nb_rx_desc q mod rx_free_thresh q = 0"
    using assms by (auto simp: bulk_config_def check_rx_burst_bulk_alloc_preconditions_def EINVAL_def split: if_splits)
  show "32 \<le> unat (rx_free_thresh q)" "unat (rx_free_thresh q) < unat (nb_rx_desc q)"
    using c by (simp_all add: RTE_PMD_IXGBE_RX_MAX_BURST_def word_less_nat_alt)
  have "unat (nb_rx_desc q mod rx_free_thresh q) = 0" unfolding c(3) by simp
  then show "unat (rx_free_thresh q) dvd unat (nb_rx_desc q)" by (simp add: unat_mod_distrib dvd_eq_mod_eq_0)
qed (use assms in \<open>simp_all add: bulk_config_def IXGBE_MAX_RING_DESC_def RTE_PMD_IXGBE_RX_MAX_BURST_def\<close>)

lemma bulk_config_cong:
  assumes "nb_rx_desc q' = nb_rx_desc q" "rx_free_thresh q' = rx_free_thresh q"
    "length (rx_ring q') = length (rx_ring q)" "length (rx_sw_ring q') = length (rx_sw_ring q)"
    "length (rx_stage q') = length (rx_stage q)"
    "rx_ring q' ! unat (nb_rx_desc q) = rx_ring q ! unat (nb_rx_desc q)"
  shows "bulk_config q' = bulk_config q"
  unfolding bulk_config_def check_rx_burst_bulk_alloc_preconditions_def assms ..

lemma bulk_okD:
  assumes "bulk_ok q"
  shows "bulk_config q" "unat (rx_free_thresh q) dvd unat (rx_free_trigger q) + 1"
    "unat (rx_free_trigger q) < unat (nb_rx_desc q)"
    "bulk_start q + unat (rx_free_thresh q) = unat (rx_free_trigger q) + 1"
    "bulk_start q \<le> unat (rx_tail q)" "unat (rx_tail q) \<le> unat (nb_rx_desc q)"
    "\<And>i. i \<in> set (bulk_entries q) \<Longrightarrow> bulk_entry_ok q i"
    "\<And>i. bulk_start q \<le> i \<Longrightarrow> i < unat (rx_tail q) \<Longrightarrow> rx_sw_ring q ! i = 0"
    "unat (rx_next_avail q) + unat (rx_nb_avail q) \<le> length (rx_stage q)"
    "\<And>a. a \<in> set (bulk_staged q) \<Longrightarrow> mbufs q a \<noteq> None"
    "distinct (bulk_held q)" "0 \<notin> set (bulk_held q)"
  using assms by (auto simp: bulk_ok_def bulk_start_def dest: dvd_imp_le)

text \<open>Two blocks are a whole number of blocks apart.\<close>

lemma block_room:
  assumes "T dvd f + 1" "T dvd N" "f < (N :: nat)"
  shows "f + 1 = N \<or> f + T < N"
proof -
  obtain a where a: "f + 1 = T * a" using assms(1) by blast
  obtain b where b: "N = T * b" using assms(2) by blast
  have "a \<le> b" using a b assms(3) by (metis Suc_eq_plus1 less_eq_Suc_le mult_le_cancel1 not_gr_zero mult_0 not_less_zero)
  show ?thesis
  proof (cases "a = b")
    case False
    then have "T * (a + 1) \<le> T * b" using \<open>a \<le> b\<close> by (intro mult_le_mono2) simp
    then show ?thesis using a b by simp
  qed (use a b in simp)
qed

section \<open>Handing out the stage\<close>

lemma bulk_stage_simps [simp]:
  "bulk_entries (q\<lparr>rx_nb_avail := a, rx_next_avail := b\<rparr>) = bulk_entries q"
  "bulk_start (q\<lparr>rx_nb_avail := a, rx_next_avail := b\<rparr>) = bulk_start q"
  "bulk_entry_ok (q\<lparr>rx_nb_avail := a, rx_next_avail := b\<rparr>) i = bulk_entry_ok q i"
  "bulk_config (q\<lparr>rx_nb_avail := a, rx_next_avail := b\<rparr>) = bulk_config q"
  by (simp_all add: bulk_entries_def bulk_start_def bulk_entry_ok_def bulk_config_def
      check_rx_burst_bulk_alloc_preconditions_def)

lemma fill_from_stage_spec:
  assumes "bulk_ok q"
  obtains pkts q' where "ixgbe_rx_fill_from_stage q nb = Inr (pkts, q')"
    "pkts = take (min (unat nb) (unat (rx_nb_avail q))) (bulk_staged q)"
    "length pkts = min (unat nb) (unat (rx_nb_avail q))"
    "pkts @ bulk_held q' = bulk_held q" "bulk_ok q'" "rx_tail q' = rx_tail q" "rx_free_trigger q' = rx_free_trigger q"
    "mbufs q' = mbufs q" "rx_free_thresh q' = rx_free_thresh q"
proof -
  note d = bulk_okD [OF assms] and c = bulk_configD [OF bulk_okD(1) [OF assms]]
  define n where "n = min nb (rx_nb_avail q)"
  define q' where "q' = q\<lparr>rx_nb_avail := rx_nb_avail q - n, rx_next_avail := rx_next_avail q + n\<rparr>"
  have n: "unat n = min (unat nb) (unat (rx_nb_avail q))" by (simp add: n_def min_def word_le_nat_alt)
  have "n \<le> rx_nb_avail q" by (simp add: n_def)
  then have av: "unat (rx_nb_avail q - n) = unat (rx_nb_avail q) - unat n" by (rule unat_sub)
  have lim: "unat n \<le> unat (rx_nb_avail q)" using n by simp
  have "unat (rx_next_avail q) + unat n < 2 ^ LENGTH(16)" using d(9) c(7) lim by simp
  then have nx: "unat (rx_next_avail q + n) = unat (rx_next_avail q) + unat n" by (rule unat_add_lem [THEN iffD1])
  let ?pkts = "take (unat n) (drop (unat (rx_next_avail q)) (rx_stage q))"
  have "ixgbe_rx_fill_from_stage q nb = Inr (?pkts, q')"
    using d(9) lim by (simp add: ixgbe_rx_fill_from_stage_def n_def [symmetric] q'_def Let_def)
  moreover have pk: "?pkts = take (unat n) (bulk_staged q)" using lim by (simp add: bulk_staged_def min_def)
  moreover have "length ?pkts = unat n" using d(9) lim by simp
  moreover have st: "bulk_staged q = ?pkts @ bulk_staged q'"
    using take_add [of "unat n" "unat (rx_nb_avail q) - unat n" "drop (unat (rx_next_avail q)) (rx_stage q)"] lim av nx
    by (simp add: bulk_staged_def q'_def add.commute)
  have held: "bulk_held q = ?pkts @ bulk_held q'" unfolding bulk_held_def st by (simp add: q'_def)
  moreover have "bulk_ok q'"
  proof -
    have "\<forall>a\<in>set (bulk_staged q'). mbufs q' a \<noteq> None" using d(10) st by (simp add: q'_def)
    moreover have "distinct (bulk_held q')" "0 \<notin> set (bulk_held q')" using d(11,12) held by auto
    moreover have "unat (rx_next_avail q') + unat (rx_nb_avail q') \<le> length (rx_stage q')"
      using d(9) lim av nx by (simp add: q'_def)
    ultimately show ?thesis using assms by (simp add: bulk_ok_def q'_def)
  qed
  ultimately show thesis by (intro that [of ?pkts q']) (simp_all add: q'_def n)
qed

section \<open>Scanning keeps what the queue holds\<close>

text \<open>The queue after a scan that found \<open>n\<close> packets, as \<open>rx_recv_pkts\<close> leaves it.\<close>

definition scanned :: "ixgbe_rx_queue \<Rightarrow> nat \<Rightarrow> (u64 \<rightharpoonup> rte_mbuf) \<Rightarrow> u64 list \<Rightarrow> ixgbe_rx_queue" where
  "scanned q n mem stage =
     q\<lparr>mbufs := mem, rx_stage := stage, rx_sw_ring := blit (rx_sw_ring q) (unat (rx_tail q)) (replicate n 0),
       rx_next_avail := 0, rx_nb_avail := of_nat n, rx_tail := rx_tail q + of_nat n\<rparr>"

definition scan_found :: "ixgbe_rx_queue \<Rightarrow> nat" where
  "scan_found q = min 32 (done_run q (unat (rx_tail q)))"

lemma bulk_entry_range: "i \<in> set (bulk_entries q) \<longleftrightarrow> unat (rx_tail q) \<le> i \<and> i < unat (nb_rx_desc q) \<or> i < bulk_start q"
  by (auto simp: bulk_entries_def)

lemma scan_found_bounds:
  assumes "bulk_inv q"
  shows "scan_found q \<le> 32" "unat (rx_tail q) + scan_found q \<le> unat (nb_rx_desc q)"
    "unat (rx_tail q) + scan_found q < 65536"
    "unat (rx_tail q + of_nat (scan_found q)) = unat (rx_tail q) + scan_found q" "unat (of_nat (scan_found q) :: u16) = scan_found q"
proof -
  note d = bulk_okD [of q] and c = bulk_configD [OF bulk_okD(1)]
  have ok: "bulk_ok q" using assms by (simp add: bulk_inv_def)
  show le: "scan_found q \<le> 32" by (simp add: scan_found_def)
  show N: "unat (rx_tail q) + scan_found q \<le> unat (nb_rx_desc q)"
    using done_run_stop [OF c(8) [OF ok] d(6) [OF ok]] by (simp add: scan_found_def)
  then show "unat (rx_tail q) + scan_found q < 65536" using c(4) [OF ok] by simp
  have n: "unat (of_nat (scan_found q) :: u16) = scan_found q" using le by (simp add: unat_of_nat)
  then have "unat (rx_tail q) + unat (of_nat (scan_found q) :: u16) < 2 ^ LENGTH(16)" using N c(4) [OF ok] by simp
  then have "unat (rx_tail q + of_nat (scan_found q)) = unat (rx_tail q) + unat (of_nat (scan_found q) :: u16)"
    by (rule unat_add_lem [THEN iffD1])
  then show "unat (rx_tail q + of_nat (scan_found q)) = unat (rx_tail q) + scan_found q"
    "unat (of_nat (scan_found q) :: u16) = scan_found q" using n by simp_all
qed

text \<open>The descriptors a scan takes and their mbufs, which are the next ones the queue holds.\<close>

lemma done_pairs_nth:
  assumes "pos + n \<le> length (rx_ring q)" "pos + n \<le> length (rx_sw_ring q)"
  shows "done_pairs q pos n = map (\<lambda>i. (rx_ring q ! i, rx_sw_ring q ! i)) [pos..<pos + n]"
  by (rule nth_equalityI) (use assms in \<open>auto simp: done_pairs_def\<close>)

lemma bulk_entries_split:
  assumes "unat (rx_tail q) + n \<le> unat (nb_rx_desc q)"
  shows "bulk_entries q = [unat (rx_tail q)..<unat (rx_tail q) + n] @
    [unat (rx_tail q) + n..<unat (nb_rx_desc q)] @ [0..<bulk_start q]"
  using upt_add_eq_append [of "unat (rx_tail q)" "unat (rx_tail q) + n" "unat (nb_rx_desc q) - (unat (rx_tail q) + n)"] assms
  by (simp add: bulk_entries_def)

lemma scan_held:
  assumes inv: "bulk_inv q" and empty: "rx_nb_avail q = 0" and n: "n = scan_found q"
    and st: "take n stage = take n (drop (unat (rx_tail q)) (rx_sw_ring q))"
  shows "bulk_held (scanned q n mem stage) = bulk_held q"
    "bulk_staged (scanned q n mem stage) = map ((!) (rx_sw_ring q)) [unat (rx_tail q)..<unat (rx_tail q) + n]"
    "map ((!) (rx_sw_ring (scanned q n mem stage))) (bulk_entries (scanned q n mem stage)) =
       map ((!) (rx_sw_ring q)) ([unat (rx_tail q) + n..<unat (nb_rx_desc q)] @ [0..<bulk_start q])"
proof -
  let ?t = "unat (rx_tail q)" and ?N = "unat (nb_rx_desc q)" and ?q = "scanned q n mem stage"
  have ok: "bulk_ok q" using inv by (simp add: bulk_inv_def)
  note d = bulk_okD [OF ok] and c = bulk_configD [OF bulk_okD(1) [OF ok]] and b = scan_found_bounds [OF inv, folded n]
  have t: "unat (rx_tail ?q) = ?t + n" using b(4) by (simp add: scanned_def)
  have "bulk_staged ?q = take n stage" using b(5) by (simp add: bulk_staged_def scanned_def)
  also have "\<dots> = map ((!) (rx_sw_ring q)) [?t..<?t + n]" unfolding st using b(2) c(6) by (intro map_nth_slice [symmetric]) simp
  finally show staged: "bulk_staged ?q = map ((!) (rx_sw_ring q)) [?t..<?t + n]" .
  have es: "bulk_entries ?q = [?t + n..<?N] @ [0..<bulk_start q]"
    unfolding bulk_entries_def t by (simp add: scanned_def bulk_start_def)
  have sw: "rx_sw_ring ?q ! i = rx_sw_ring q ! i" if "i < ?t \<or> ?t + n \<le> i \<and> i < ?N" for i
    using that b(2) c(6) d(6) nth_blit [of ?t "replicate n 0" "rx_sw_ring q" i] by (auto simp: scanned_def)
  have "bulk_start q \<le> ?t" by (rule d(5))
  then show rest: "map ((!) (rx_sw_ring ?q)) (bulk_entries ?q) = map ((!) (rx_sw_ring q)) ([?t + n..<?N] @ [0..<bulk_start q])"
    unfolding es by (intro map_cong) (auto simp: sw)
  show "bulk_held ?q = bulk_held q"
    unfolding bulk_held_def rest staged bulk_entries_split [OF b(2)] using empty by (simp add: bulk_staged_def)
qed

lemma scan_ok:
  assumes inv: "bulk_inv q" and empty: "rx_nb_avail q = 0" and n: "n = scan_found q"
    and st: "take n stage = take n (drop (unat (rx_tail q)) (rx_sw_ring q))" "length stage = length (rx_stage q)"
    and mem: "rx_mem_kept (mbufs q) mem"
  shows "bulk_ok (scanned q n mem stage)"
proof -
  let ?t = "unat (rx_tail q)" and ?N = "unat (nb_rx_desc q)" and ?q = "scanned q n mem stage"
  have ok: "bulk_ok q" and tF: "?t \<le> unat (rx_free_trigger q)" using inv by (simp_all add: bulk_inv_def)
  note d = bulk_okD [OF ok] and c = bulk_configD [OF bulk_okD(1) [OF ok]] and b = scan_found_bounds [OF inv, folded n]
  note h = scan_held [OF inv empty n st(1), of mem]
  have t: "unat (rx_tail ?q) = ?t + n" using b(4) by (simp add: scanned_def)
  have start: "bulk_start ?q = bulk_start q" by (simp add: scanned_def bulk_start_def)
  have "length (rx_sw_ring ?q) = length (rx_sw_ring q)" using b(2) c(6) by (simp add: scanned_def)
  then have "bulk_config ?q" using d(1) st(2) bulk_config_cong [of ?q q] by (simp add: scanned_def)
  moreover have "?t + n \<le> unat (rx_free_trigger q) + unat (rx_free_thresh q)" using tF b(1) c(1) by linarith
  moreover have sw: "rx_sw_ring ?q ! i = (if ?t \<le> i \<and> i < ?t + n then 0 else rx_sw_ring q ! i)" if "i < ?N" for i
    using that b(2) c(6) by (auto simp: scanned_def nth_blit)
  have "bulk_entry_ok ?q i" if "i \<in> set (bulk_entries ?q)" for i
  proof -
    have i: "?t + n \<le> i \<and> i < ?N \<or> i < bulk_start q"
      using that t by (auto simp: bulk_entry_range start) (simp_all add: scanned_def)
    then have "bulk_entry_ok q i" "rx_sw_ring ?q ! i = rx_sw_ring q ! i"
      using d(5,6) sw [of i] by (auto intro!: d(7) simp: bulk_entry_range)
    then show ?thesis using mem
      by (auto simp: bulk_entry_ok_def scanned_def rx_read_desc_def rte_mbuf_data_iova_default_def mbuf_kept_def
          elim!: rx_mem_keptE)
  qed
  moreover have "rx_sw_ring ?q ! i = 0" if "bulk_start q \<le> i" "i < ?t + n" for i
    using that d(8) [of i] b(2) sw [of i] by simp
  moreover have "mbufs ?q a \<noteq> None" if a: "a \<in> set (bulk_staged ?q)" for a
  proof -
    obtain i where "a = rx_sw_ring q ! i" "i \<in> set (bulk_entries q)"
      using a b(2) unfolding h(2) by (auto simp: bulk_entry_range)
    then obtain m where "mbufs q a = Some m" using d(7) by (auto simp: bulk_entry_ok_def)
    then show ?thesis by (rule rx_mem_keptE [OF mem]) (simp add: scanned_def)
  qed
  moreover have "unat (rx_next_avail ?q) + unat (rx_nb_avail ?q) \<le> length (rx_stage ?q)"
    using b(1,5) c(7) st(2) by (simp add: scanned_def)
  ultimately show ?thesis using d(2,3,5,11,12) b(2) unfolding bulk_ok_def start t h(1) by (simp add: scanned_def)
qed

text \<open>What a scan does: it writes the metadata of the packets it finds and moves them to the stage.\<close>

lemma scan_spec:
  assumes inv: "bulk_inv q" and empty: "rx_nb_avail q = 0" and n: "n = scan_found q"
  obtains q0 mem stage where "ixgbe_rx_scan_hw_ring q = Inr (n, q0)"
    "q0\<lparr>rx_next_avail := 0, rx_nb_avail := of_nat n, rx_tail := rx_tail q0 + of_nat n\<rparr> = scanned q n mem stage"
    "take n stage = take n (drop (unat (rx_tail q)) (rx_sw_ring q))" "length stage = length (rx_stage q)"
    "rx_mem_kept (mbufs q) mem"
    "\<And>i. unat (rx_tail q) \<le> i \<Longrightarrow> i < unat (rx_tail q) + n \<Longrightarrow>
       \<exists>m m'. mbufs q (rx_sw_ring q ! i) = Some m \<and> rx_fill_mbuf q (rx_ring q ! i) m = Inr m' \<and>
         mem (rx_sw_ring q ! i) = Some m'"
proof -
  let ?t = "unat (rx_tail q)" and ?ds = "done_pairs q (unat (rx_tail q)) n"
  have ok: "bulk_ok q" using inv by (simp add: bulk_inv_def)
  note d = bulk_okD [OF ok] and c = bulk_configD [OF bulk_okD(1) [OF ok]] and b = scan_found_bounds [OF inv, folded n]
  have tN: "?t < unat (nb_rx_desc q)" using inv d(3) by (simp add: bulk_inv_def)
  have ds: "?ds = map (\<lambda>i. (rx_ring q ! i, rx_sw_ring q ! i)) [?t..<?t + n]"
    using b(2) c(5,6) by (intro done_pairs_nth) simp_all
  have "map snd ?ds = map ((!) (rx_sw_ring q)) [?t..<?t + n]" unfolding ds by simp
  then have dist: "distinct (map snd ?ds)"
    using d(11) unfolding bulk_held_def bulk_entries_split [OF b(2)] by simp
  have "\<forall>a\<in>snd ` set ?ds. \<exists>m. mbufs q a = Some m"
    unfolding ds using b(2) d(7) by (fastforce simp: bulk_entry_range bulk_entry_ok_def)
  from scan_translate_spec [OF this dist, of q] obtain mem where mem: "scan_translate q (mbufs q) ?ds = Inr mem"
    "rx_mem_kept (mbufs q) mem"
    "\<forall>(e, a)\<in>set ?ds. \<exists>m m'. mbufs q a = Some m \<and> rx_fill_mbuf q e m = Inr m' \<and> mem a = Some m'"
    by blast
  have fills: "\<exists>m m'. mbufs q (rx_sw_ring q ! i) = Some m \<and> rx_fill_mbuf q (rx_ring q ! i) m = Inr m' \<and>
      mem (rx_sw_ring q ! i) = Some m'" if "?t \<le> i" "i < ?t + n" for i
    using mem(3) that unfolding ds by fastforce
  have run: "desc_done (rx_ring q ! ?t) \<longleftrightarrow> n \<noteq> 0"
  proof
    assume "n \<noteq> 0" then show "desc_done (rx_ring q ! ?t)" using done_run_at [of 0 q ?t] n by (simp add: scan_found_def)
  next
    assume "desc_done (rx_ring q ! ?t)"
    then have "done_run q ?t \<noteq> 0" using c(5) tN by (simp add: done_run_def Cons_nth_drop_Suc [symmetric])
    then show "n \<noteq> 0" using n by (simp add: scan_found_def)
  qed
  show thesis
  proof (cases "n = 0")
    case True
    have "ixgbe_rx_scan_hw_ring q = Inr (n, q)"
      using run True tN c(5) by (simp add: ixgbe_rx_scan_hw_ring_def Let_def)
    moreover have "q\<lparr>rx_next_avail := 0, rx_nb_avail := of_nat n, rx_tail := rx_tail q + of_nat n\<rparr> =
        scanned q n (mbufs q) (rx_stage q)"
      using True by (simp add: scanned_def blit_def)
    ultimately show thesis by (rule that) (use True in simp_all)
  next
    case False
    have "?t + 8 * 4 \<le> length (rx_ring q)" "?t + 8 * 4 \<le> length (rx_sw_ring q)" "0 + 8 * 4 \<le> length (rx_stage q)"
      using c tN by simp_all
    from scan_rounds_spec [OF this _ mem(1), of 0] obtain stage where
      r: "scan_rounds 4 q ?t 0 0 = Inr (n, q\<lparr>mbufs := mem, rx_stage := stage\<rparr>)" "length stage = length (rx_stage q)"
        "take n stage = take n (drop ?t (rx_sw_ring q))"
      using n by (auto simp: scan_found_def)
    let ?q0 = "q\<lparr>mbufs := mem, rx_stage := stage, rx_sw_ring := blit (rx_sw_ring q) ?t (replicate n 0)\<rparr>"
    have "ixgbe_rx_scan_hw_ring q = Inr (n, ?q0)"
      using run False tN c(5,6) b(2) r(1)
      by (simp add: ixgbe_rx_scan_hw_ring_def Let_def RTE_PMD_IXGBE_RX_MAX_BURST_def LOOK_AHEAD_def)
    moreover have "?q0\<lparr>rx_next_avail := 0, rx_nb_avail := of_nat n, rx_tail := rx_tail ?q0 + of_nat n\<rparr> =
        scanned q n mem stage" by (simp add: scanned_def)
    ultimately show thesis by (rule that) (use r mem(2) fills in simp_all)
  qed
qed

section \<open>Replacing a block\<close>

lemma blit_Cons: "i + Suc (length ys) \<le> length xs \<Longrightarrow> blit (xs[i := y]) (Suc i) ys = blit xs i (y # ys)"
  by (simp add: blit_def take_Suc_conv_app_nth)

lemma init_bufs_spec:
  "\<forall>a\<in>set mbs. \<exists>m. mem a = Some m \<Longrightarrow> distinct mbs \<Longrightarrow> i + length mbs \<le> length ring \<Longrightarrow>
     \<exists>mem'. init_bufs port mem ring i mbs = Inr (mem', blit ring i (map (\<lambda>a. rx_read_desc (the (mem a))) mbs)) \<and>
       (\<forall>a. a \<notin> set mbs \<longrightarrow> mem' a = mem a) \<and>
       (\<forall>a\<in>set mbs. \<exists>m. mem' a = Some m \<and> data_off m = RTE_PKTMBUF_HEADROOM \<and> refcnt m = 1 \<and>
          rx_read_desc m = rx_read_desc (the (mem a)))"
proof (induction mbs arbitrary: mem ring i)
  case Nil
  then show ?case by (simp add: blit_def)
next
  case (Cons a mbs)
  obtain m where m: "mem a = Some m" using Cons.prems by auto
  define m1 where "m1 = (case port of Some p \<Rightarrow> m\<lparr>mb_port := p\<rparr> | None \<Rightarrow> m)\<lparr>refcnt := 1, data_off := RTE_PKTMBUF_HEADROOM\<rparr>"
  have m1: "rx_read_desc m1 = rx_read_desc m" "data_off m1 = RTE_PKTMBUF_HEADROOM" "refcnt m1 = 1"
    by (simp_all add: m1_def rx_read_desc_def rte_mbuf_data_iova_default_def split: option.split)
  let ?mem = "mem(a \<mapsto> m1)" and ?ring = "ring[i := rx_read_desc m1]"
  have a: "a \<notin> set mbs" "distinct mbs" using Cons.prems(2) by auto
  have "\<forall>x\<in>set mbs. \<exists>m. ?mem x = Some m" "Suc i + length mbs \<le> length ?ring" using Cons.prems by auto
  from Cons.IH [OF this(1) a(2) this(2)] obtain mem' where
    i: "init_bufs port ?mem ?ring (Suc i) mbs = Inr (mem', blit ?ring (Suc i) (map (\<lambda>x. rx_read_desc (the (?mem x))) mbs))"
      "\<forall>x. x \<notin> set mbs \<longrightarrow> mem' x = ?mem x"
      "\<forall>x\<in>set mbs. \<exists>m. mem' x = Some m \<and> data_off m = RTE_PKTMBUF_HEADROOM \<and> refcnt m = 1 \<and>
          rx_read_desc m = rx_read_desc (the (?mem x))"
    by blast
  have same: "map (\<lambda>x. rx_read_desc (the (?mem x))) mbs = map (\<lambda>x. rx_read_desc (the (mem x))) mbs"
    using a(1) by (intro map_cong) auto
  have "blit ?ring (Suc i) (map (\<lambda>x. rx_read_desc (the (mem x))) mbs) =
      blit ring i (map (\<lambda>x. rx_read_desc (the (mem x))) (a # mbs))"
    using Cons.prems(3) m m1(1) by (simp add: blit_Cons)
  then have "init_bufs port mem ring i (a # mbs) =
      Inr (mem', blit ring i (map (\<lambda>x. rx_read_desc (the (mem x))) (a # mbs)))"
    using i(1) m Cons.prems(3) unfolding same by (simp add: m1_def [symmetric] Let_def)
  moreover have "mem' a = Some m1" using i(2) a(1) by simp
  moreover have "\<exists>m. mem' x = Some m \<and> data_off m = RTE_PKTMBUF_HEADROOM \<and> refcnt m = 1 \<and>
      rx_read_desc m = rx_read_desc (the (mem x))" if "x \<in> set mbs" for x
  proof -
    have "x \<noteq> a" using that a(1) by auto
    then show ?thesis using bspec [OF i(3) that] by simp
  qed
  ultimately show ?case using i(2) m m1 by (intro exI [of _ mem']) simp
qed

text \<open>The trigger after a replacement: the block behind the old one, and then the entries with an mbuf are the old ones
  and those of the block.\<close>

lemma next_trigger:
  fixes q :: ixgbe_rx_queue
  assumes ok: "bulk_ok q" and past: "unat (rx_free_trigger q) < unat (rx_tail q)"
    and F': "F' = (if rx_free_trigger q + rx_free_thresh q \<ge> nb_rx_desc q then rx_free_thresh q - 1
                   else rx_free_trigger q + rx_free_thresh q)"
    and t': "t' = (if nb_rx_desc q \<le> rx_tail q then 0 else rx_tail q)"
  shows "unat (rx_free_thresh q) dvd unat F' + 1" "unat F' < unat (nb_rx_desc q)" "unat t' \<le> unat F'"
    "unat F' + 1 - unat (rx_free_thresh q) \<le> unat t'"
    "[unat t'..<unat (nb_rx_desc q)] @ [0..<unat F' + 1 - unat (rx_free_thresh q)] =
       bulk_entries q @ [bulk_start q..<bulk_start q + unat (rx_free_thresh q)]"
    "\<And>i. unat F' + 1 - unat (rx_free_thresh q) \<le> i \<Longrightarrow> i < unat t' \<Longrightarrow>
       bulk_start q + unat (rx_free_thresh q) \<le> i \<and> i < unat (rx_tail q)"
proof -
  note d = bulk_okD [OF ok] and c = bulk_configD [OF bulk_okD(1) [OF ok]]
  let ?s = "bulk_start q" and ?T = "unat (rx_free_thresh q)" and ?F = "unat (rx_free_trigger q)" and ?N = "unat (nb_rx_desc q)"
  have lim: "unat (rx_tail q) \<le> ?F + ?T" using ok by (simp add: bulk_ok_def)
  have "?F + ?T < 2 ^ LENGTH(16)" using d(3) c(2,4) by simp
  then have sum: "unat (rx_free_trigger q + rx_free_thresh q) = ?F + ?T" by (rule unat_add_lem [THEN iffD1])
  have one: "unat (rx_free_thresh q - 1) = ?T - 1" using c(1) by (intro unat_minus_one) auto
  have split: "[0..<?s] @ [?s..<?s + ?T] = [0..<?s + ?T]" by (rule upt_add_eq_append [symmetric]) simp
  consider (mid) "?F + ?T < ?N" | (last) "?F + 1 = ?N" using block_room [OF d(2) c(3) d(3)] by auto
  then have "?T dvd unat F' + 1 \<and> unat F' < ?N \<and> unat t' \<le> unat F' \<and> unat F' + 1 - ?T \<le> unat t' \<and>
    [unat t'..<?N] @ [0..<unat F' + 1 - ?T] = bulk_entries q @ [?s..<?s + ?T] \<and>
    (\<forall>i. unat F' + 1 - ?T \<le> i \<longrightarrow> i < unat t' \<longrightarrow> ?s + ?T \<le> i \<and> i < unat (rx_tail q))"
  proof cases
    case mid
    then have F: "unat F' = ?F + ?T" using sum by (simp add: F' word_le_nat_alt)
    have t: "t' = rx_tail q" using mid lim by (simp add: t' word_le_nat_alt)
    have dv: "?T dvd unat F' + 1" using dvd_add [OF d(2) dvd_refl] unfolding F by (simp add: ac_simps)
    have e: "unat F' + 1 - ?T = ?s + ?T" unfolding F using d(4) by linarith
    have b: "unat F' < ?N" "unat t' \<le> unat F'" "?s + ?T \<le> unat t'" unfolding F t using mid lim past d(4) by linarith+
    have "[unat t'..<?N] @ [0..<?s + ?T] = bulk_entries q @ [?s..<?s + ?T]"
      unfolding bulk_entries_def t split [symmetric] by simp
    then show ?thesis unfolding e using dv b by (simp add: t)
  next
    case last
    then have tN: "unat (rx_tail q) = ?N" using past d(6) by simp
    then have t: "t' = 0" by (simp add: t' word_le_nat_alt)
    have "?N \<le> ?F + ?T" using last c(1) by linarith
    then have F: "unat F' = ?T - 1" using sum one by (simp add: F' word_le_nat_alt)
    have e: "unat F' + 1 = ?T" unfolding F using c(1) by linarith
    have sN: "?s + ?T = ?N" using d(4) last by linarith
    have "[0..<?N] = bulk_entries q @ [?s..<?N]"
      unfolding bulk_entries_def tN sN [symmetric] split [symmetric] by simp
    moreover have "unat F' < ?N" using e c(2) by linarith
    ultimately show ?thesis unfolding e sN t by simp
  qed
  then show "?T dvd unat F' + 1" "unat F' < ?N" "unat t' \<le> unat F'" "unat F' + 1 - ?T \<le> unat t'"
    "[unat t'..<?N] @ [0..<unat F' + 1 - ?T] = bulk_entries q @ [?s..<?s + ?T]"
    "\<And>i. unat F' + 1 - ?T \<le> i \<Longrightarrow> i < unat t' \<Longrightarrow> ?s + ?T \<le> i \<and> i < unat (rx_tail q)"
    by blast+
qed

text \<open>The queue after a replacement, with the register written and the tail wrapped.\<close>

definition replaced :: "ixgbe_rx_queue \<Rightarrow> u64 list \<Rightarrow> (u64 \<rightharpoonup> rte_mbuf) \<Rightarrow> ixgbe_rx_queue" where
  "replaced q mbs mem =
     q\<lparr>rx_sw_ring := blit (rx_sw_ring q) (bulk_start q) mbs, mbufs := mem,
       rx_ring := blit (rx_ring q) (bulk_start q) (map (\<lambda>a. rx_read_desc (the (mbufs q a))) mbs),
       rx_free_trigger := (if rx_free_trigger q + rx_free_thresh q \<ge> nb_rx_desc q then rx_free_thresh q - 1
                           else rx_free_trigger q + rx_free_thresh q),
       rdt_reg := ucast (rx_free_trigger q), rx_tail := (if nb_rx_desc q \<le> rx_tail q then 0 else rx_tail q)\<rparr>"

lemma replaced_ok:
  assumes ok: "bulk_ok q" and past: "unat (rx_free_trigger q) < unat (rx_tail q)"
    and mbs: "length mbs = unat (rx_free_thresh q)" "\<forall>a\<in>set mbs. mbufs q a \<noteq> None" "distinct (bulk_held q @ mbs)"
      "0 \<notin> set mbs"
    and mem: "\<forall>a. a \<notin> set mbs \<longrightarrow> mem a = mbufs q a"
      "\<forall>a\<in>set mbs. \<exists>m. mem a = Some m \<and> data_off m = RTE_PKTMBUF_HEADROOM \<and> refcnt m = 1 \<and>
          rx_read_desc m = rx_read_desc (the (mbufs q a))"
  shows "bulk_inv (replaced q mbs mem)" "bulk_held (replaced q mbs mem) = bulk_held q @ mbs"
    "bulk_staged (replaced q mbs mem) = bulk_staged q"
proof -
  note d = bulk_okD [OF ok] and c = bulk_configD [OF bulk_okD(1) [OF ok]]
  note nt = next_trigger [OF ok past refl refl]
  let ?s = "bulk_start q" and ?T = "unat (rx_free_thresh q)" and ?N = "unat (nb_rx_desc q)" and ?q = "replaced q mbs mem"
  have sT: "?s + ?T \<le> ?N" "?s + ?T \<le> unat (rx_tail q)" using d(3,4) past by linarith+
  have f: "nb_rx_desc ?q = nb_rx_desc q" "rx_free_thresh ?q = rx_free_thresh q" "rx_stage ?q = rx_stage q"
    "rx_next_avail ?q = rx_next_avail q" "rx_nb_avail ?q = rx_nb_avail q" "mbufs ?q = mem"
    by (simp_all add: replaced_def)
  have start: "bulk_start ?q = unat (rx_free_trigger ?q) + 1 - ?T" by (simp add: bulk_start_def f)
  have es: "bulk_entries ?q = bulk_entries q @ [?s..<?s + ?T]"
    unfolding bulk_entries_def start f using nt(5) by (simp add: replaced_def bulk_entries_def)
  have len: "?s + length mbs \<le> length (rx_sw_ring q)" "?s + length mbs \<le> length (rx_ring q)"
    using sT mbs(1) c(5,6) by simp_all
  have sw: "rx_sw_ring ?q ! i = (if ?s \<le> i \<and> i < ?s + ?T then mbs ! (i - ?s) else rx_sw_ring q ! i)"
    and ring: "rx_ring ?q ! i = (if ?s \<le> i \<and> i < ?s + ?T then rx_read_desc (the (mbufs q (mbs ! (i - ?s)))) else rx_ring q ! i)"
    if "i \<le> ?N" for i
    using that len mbs(1) c(5,6) by (simp_all add: replaced_def nth_blit) auto
  have out: "\<not> (?s \<le> i \<and> i < ?s + ?T) \<and> i < ?N" if "i \<in> set (bulk_entries q)" for i
    using that sT by (auto simp: bulk_entry_range)
  show staged: "bulk_staged ?q = bulk_staged q" by (simp add: bulk_staged_def f)
  have "map ((!) (rx_sw_ring ?q)) [?s..<?s + ?T] = mbs"
    by (rule nth_equalityI) (use mbs(1) sT sw in auto)
  moreover have same: "rx_sw_ring ?q ! i = rx_sw_ring q ! i" "rx_ring ?q ! i = rx_ring q ! i"
    if "i \<in> set (bulk_entries q)" for i
    using out [OF that] sw [of i] ring [of i] by auto
  then have "map ((!) (rx_sw_ring ?q)) (bulk_entries q) = map ((!) (rx_sw_ring q)) (bulk_entries q)" by simp
  ultimately show held: "bulk_held ?q = bulk_held q @ mbs" unfolding bulk_held_def staged es by simp
  have "bulk_config ?q"
    using d(1) len mbs(1) sT ring [of ?N] bulk_config_cong [of ?q q] by (simp add: f) (simp add: replaced_def)
  moreover have "bulk_entry_ok ?q i" if "i \<in> set (bulk_entries ?q)" for i
  proof (cases "i \<in> set (bulk_entries q)")
    case True
    have "rx_sw_ring q ! i \<in> set (bulk_held q)" using True by (simp add: bulk_held_def)
    then have "rx_sw_ring q ! i \<notin> set mbs" using mbs(3) by auto
    then show ?thesis using d(7) [OF True] same [OF True] mem(1) by (simp add: bulk_entry_ok_def f)
  next
    case False
    then have i: "?s \<le> i" "i < ?s + ?T" using that es by auto
    then have "mbs ! (i - ?s) \<in> set mbs" using mbs(1) by simp
    then show ?thesis using mem(2) i sT by (fastforce simp: bulk_entry_ok_def sw ring f)
  qed
  moreover have "rx_sw_ring ?q ! i = 0" if "bulk_start ?q \<le> i" "i < unat (rx_tail ?q)" for i
  proof -
    have "?s + ?T \<le> i" "i < unat (rx_tail q)" using nt(6) [of i] that unfolding start by (simp_all add: replaced_def)
    then show ?thesis using sw [of i] d(6) d(8) [of i] by simp
  qed
  moreover have "\<forall>a\<in>set (bulk_staged ?q). mbufs ?q a \<noteq> None"
  proof
    fix a assume "a \<in> set (bulk_staged ?q)"
    then have "a \<in> set (bulk_staged q)" "a \<notin> set mbs" using mbs(3) unfolding staged by (auto simp: bulk_held_def)
    then show "mbufs ?q a \<noteq> None" using d(10) mem(1) by (simp add: f)
  qed
  moreover have "?T dvd unat (rx_free_trigger ?q) + 1" "unat (rx_free_trigger ?q) < ?N"
    "unat (rx_tail ?q) \<le> unat (rx_free_trigger ?q)" "bulk_start ?q \<le> unat (rx_tail ?q)"
    unfolding start using nt(1-4) by (simp_all add: replaced_def)
  ultimately show "bulk_inv ?q"
    unfolding bulk_inv_def bulk_ok_def held using mbs(3,4) d(9,12) by (simp add: f)
qed

lemma alloc_spec:
  assumes ok: "bulk_ok q" and past: "unat (rx_free_trigger q) < unat (rx_tail q)"
    and mbs: "length mbs = unat (rx_free_thresh q)" "\<forall>a\<in>set mbs. mbufs q a \<noteq> None" "distinct (bulk_held q @ mbs)"
      "0 \<notin> set mbs"
  obtains q' mem where "ixgbe_rx_alloc_bufs q True (Some mbs) = Inr (0, q')"
    "(if rx_tail q' \<ge> nb_rx_desc q' then q'\<lparr>rdt_reg := ucast (rx_free_trigger q), rx_tail := 0\<rparr>
      else q'\<lparr>rdt_reg := ucast (rx_free_trigger q)\<rparr>) = replaced q mbs mem"
    "bulk_inv (replaced q mbs mem)" "bulk_held (replaced q mbs mem) = bulk_held q @ mbs"
    "bulk_staged (replaced q mbs mem) = bulk_staged q" "\<And>a. a \<notin> set mbs \<Longrightarrow> mem a = mbufs q a"
    "\<And>a. mbufs q a \<noteq> None \<Longrightarrow> mem a \<noteq> None"
proof -
  note d = bulk_okD [OF ok] and c = bulk_configD [OF bulk_okD(1) [OF ok]]
  let ?s = "bulk_start q" and ?T = "unat (rx_free_thresh q)"
  have one: "unat (rx_free_thresh q - 1) = ?T - 1" using c(1) by (intro unat_minus_one) auto
  have "rx_free_thresh q - 1 \<le> rx_free_trigger q" unfolding word_le_nat_alt one using d(4) by linarith
  then have "unat (rx_free_trigger q - (rx_free_thresh q - 1)) = unat (rx_free_trigger q) - unat (rx_free_thresh q - 1)"
    by (rule unat_sub)
  then have idx: "unat (rx_free_trigger q - (rx_free_thresh q - 1)) = ?s"
    unfolding one bulk_start_def using c(1) by linarith
  have len: "?s + length mbs \<le> length (rx_sw_ring q)" "?s + length mbs \<le> length (rx_ring q)"
    using d(3,4) mbs(1) c(5,6) by simp_all
  have valid: "\<forall>a\<in>set mbs. \<exists>m. mbufs q a = Some m" using mbs(2) by auto
  have "distinct mbs" using mbs(3) by simp
  from init_bufs_spec [OF valid this len(2), of "Some (port_id q)"] obtain mem where
    mem: "init_bufs (Some (port_id q)) (mbufs q) (rx_ring q) ?s mbs =
        Inr (mem, blit (rx_ring q) ?s (map (\<lambda>a. rx_read_desc (the (mbufs q a))) mbs))"
      "\<forall>a. a \<notin> set mbs \<longrightarrow> mem a = mbufs q a"
      "\<forall>a\<in>set mbs. \<exists>m. mem a = Some m \<and> data_off m = RTE_PKTMBUF_HEADROOM \<and> refcnt m = 1 \<and>
          rx_read_desc m = rx_read_desc (the (mbufs q a))"
    by blast
  define q' where "q' = q\<lparr>rx_sw_ring := blit (rx_sw_ring q) ?s mbs, mbufs := mem,
       rx_ring := blit (rx_ring q) ?s (map (\<lambda>a. rx_read_desc (the (mbufs q a))) mbs),
       rx_free_trigger := (if rx_free_trigger q + rx_free_thresh q \<ge> nb_rx_desc q then rx_free_thresh q - 1
                           else rx_free_trigger q + rx_free_thresh q)\<rparr>"
  have "?s + ?T \<le> length (blit (rx_sw_ring q) ?s mbs)" using len(1) mbs(1) by simp
  then have "ixgbe_rx_alloc_bufs q True (Some mbs) = Inr (0, q')"
    using mem(1) len(1) slice_blit [OF len(1)] mbs(1)
    by (simp add: ixgbe_rx_alloc_bufs_def idx q'_def Let_def)
  moreover have "(if rx_tail q' \<ge> nb_rx_desc q' then q'\<lparr>rdt_reg := ucast (rx_free_trigger q), rx_tail := 0\<rparr>
      else q'\<lparr>rdt_reg := ucast (rx_free_trigger q)\<rparr>) = replaced q mbs mem"
    by (simp add: q'_def replaced_def)
  moreover have "mem a \<noteq> None" if "mbufs q a \<noteq> None" for a using mem(2,3) that by (cases "a \<in> set mbs") auto
  ultimately show thesis using replaced_ok [OF ok past mbs mem(2,3)] mem(2) by (intro that [of q' mem]) simp_all
qed

section \<open>One call\<close>

text \<open>When the mempool has nothing, the packets go back from the stage into the ring.\<close>

lemma rewind_ok:
  assumes inv: "bulk_inv q" and empty: "rx_nb_avail q = 0" and n: "n = scan_found q"
    and st: "take n stage = take n (drop (unat (rx_tail q)) (rx_sw_ring q))" "length stage = length (rx_stage q)"
    and mem: "rx_mem_kept (mbufs q) mem"
    and q': "q' = (scanned q n mem stage)\<lparr>rx_nb_avail := 0, rx_tail := rx_tail (scanned q n mem stage) - of_nat n,
      rx_sw_ring := blit (rx_sw_ring (scanned q n mem stage)) (unat (rx_tail q)) (take n stage)\<rparr>"
  shows "bulk_inv q'" "bulk_held q' = bulk_held q" "mbufs q' = mem"
proof -
  let ?t = "unat (rx_tail q)"
  have ok: "bulk_ok q" and tF: "?t \<le> unat (rx_free_trigger q)" using inv by (simp_all add: bulk_inv_def)
  note d = bulk_okD [OF ok] and c = bulk_configD [OF bulk_okD(1) [OF ok]] and b = scan_found_bounds [OF inv, folded n]
  have room: "?t + n \<le> length (rx_sw_ring q)" using b(2) c(6) by linarith
  then have "blit (blit (rx_sw_ring q) ?t (replicate n 0)) ?t (take n stage) = rx_sw_ring q"
    unfolding st(1) by (subst blit_blit) (simp_all add: blit_same)
  then have q'2: "q' = q\<lparr>mbufs := mem, rx_stage := stage, rx_next_avail := 0, rx_nb_avail := 0\<rparr>"
    unfolding q' by (simp add: scanned_def)
  have es: "bulk_entries q' = bulk_entries q" "bulk_start q' = bulk_start q" "bulk_config q' = bulk_config q"
    using st(2) by (simp_all add: q'2 bulk_entries_def bulk_start_def bulk_config_def check_rx_burst_bulk_alloc_preconditions_def)
  have none: "bulk_staged q' = []" "bulk_staged q = []" using empty by (simp_all add: bulk_staged_def q'2)
  show held: "bulk_held q' = bulk_held q" unfolding bulk_held_def none es by (simp add: q'2)
  show "mbufs q' = mem" by (simp add: q'2)
  have "bulk_entry_ok q' i" if "i \<in> set (bulk_entries q)" for i
    using d(7) [OF that] mem
    by (auto simp: bulk_entry_ok_def q'2 rx_read_desc_def rte_mbuf_data_iova_default_def mbuf_kept_def elim!: rx_mem_keptE)
  then show "bulk_inv q'" using ok tF unfolding bulk_inv_def bulk_ok_def es held none by (simp add: q'2)
qed

text \<open>The end of a call: what is in the stage, if anything.\<close>

lemma deliver_spec:
  assumes inv: "bulk_inv q"
  obtains pkts q' where
    "rx_deliver q nb rest = Inr (pkts, 0, rest, q')"
    "pkts = take (unat nb) (bulk_staged q)" "pkts @ bulk_held q' = bulk_held q" "bulk_inv q'" "mbufs q' = mbufs q"
    "rx_free_thresh q' = rx_free_thresh q"
proof (cases "rx_nb_avail q = 0")
  case True
  then have "bulk_staged q = []" by (simp add: bulk_staged_def)
  then show thesis using True inv by (intro that [of "[]" q]) (simp_all add: rx_deliver_def)
next
  case False
  have ok: "bulk_ok q" using inv by (simp add: bulk_inv_def)
  have len: "length (bulk_staged q) = unat (rx_nb_avail q)" using bulk_okD(9) [OF ok] by (simp add: bulk_staged_def)
  show thesis
  proof (rule fill_from_stage_spec [OF ok, of nb])
    fix pkts q'
    assume a: "ixgbe_rx_fill_from_stage q nb = Inr (pkts, q')"
      "pkts = take (min (unat nb) (unat (rx_nb_avail q))) (bulk_staged q)"
      "pkts @ bulk_held q' = bulk_held q" "bulk_ok q'" "rx_tail q' = rx_tail q" "rx_free_trigger q' = rx_free_trigger q"
      "mbufs q' = mbufs q" "rx_free_thresh q' = rx_free_thresh q"
    have "pkts = take (unat nb) (bulk_staged q)" unfolding a(2) using len by (metis take_all_iff take_take order_refl)
    then show thesis using a inv False by (intro that [of pkts q']) (simp_all add: bulk_inv_def rx_deliver_def)
  qed
qed

text \<open>The mbufs of a sequence of answers, and what the mempool promises of them: they come in blocks of the size asked
  for, are in nobody else's hands and none comes twice.\<close>

definition bulk_mbs :: "u64 list option list \<Rightarrow> u64 list" where
  "bulk_mbs bulks = concat (map (\<lambda>b. case b of None \<Rightarrow> [] | Some mbs \<Rightarrow> mbs) bulks)"

lemma bulk_mbs_simps [simp]:
  "bulk_mbs [] = []" "bulk_mbs (None # bs) = bulk_mbs bs" "bulk_mbs (Some mbs # bs) = mbs @ bulk_mbs bs"
  "bulk_mbs (bs @ cs) = bulk_mbs bs @ bulk_mbs cs"
  by (simp_all add: bulk_mbs_def)

definition bulks_ok :: "ixgbe_rx_queue \<Rightarrow> u64 list option list \<Rightarrow> bool" where
  "bulks_ok q bulks \<longleftrightarrow>
     (\<forall>mbs. Some mbs \<in> set bulks \<longrightarrow> length mbs = unat (rx_free_thresh q)) \<and>
     (\<forall>a\<in>set (bulk_mbs bulks). mbufs q a \<noteq> None) \<and> distinct (bulk_held q @ bulk_mbs bulks) \<and> 0 \<notin> set (bulk_mbs bulks)"

lemma bulks_ok_first:
  assumes "bulks_ok q bulks" "next_bulk bulks = (Some mbs, rest)"
  shows "bulks = Some mbs # rest" "length mbs = unat (rx_free_thresh q)" "\<forall>a\<in>set mbs. mbufs q a \<noteq> None"
    "distinct (bulk_held q @ mbs)" "0 \<notin> set mbs"
proof -
  show b: "bulks = Some mbs # rest" using assms(2) by (simp add: next_bulk_def split: list.splits)
  show "length mbs = unat (rx_free_thresh q)" "\<forall>a\<in>set mbs. mbufs q a \<noteq> None" "distinct (bulk_held q @ mbs)" "0 \<notin> set mbs"
    using assms(1) unfolding b by (auto simp: bulks_ok_def)
qed

lemma next_bulk_none: "next_bulk bulks = (None, rest) \<Longrightarrow> \<exists>used. bulks = used @ rest \<and> bulk_mbs used = []"
  by (cases bulks) (auto simp: next_bulk_def intro: exI [of _ "[None]"])

text \<open>The metadata a scan owes the packets it finds.\<close>

definition scan_filled :: "ixgbe_rx_queue \<Rightarrow> (u64 \<rightharpoonup> rte_mbuf) \<Rightarrow> bool" where
  "scan_filled q mem \<longleftrightarrow>
     (\<forall>i. unat (rx_tail q) \<le> i \<and> i < unat (rx_tail q) + scan_found q \<longrightarrow>
        (\<exists>m m'. mbufs q (rx_sw_ring q ! i) = Some m \<and> rx_fill_mbuf q (rx_ring q ! i) m = Inr m' \<and>
           mem (rx_sw_ring q ! i) = Some m'))"

text \<open>The outcome of one call when the stage is empty: the packets found, or nothing when mbufs were needed and there
  were none.\<close>

definition recv_outcome ::
  "ixgbe_rx_queue \<Rightarrow> u16 \<Rightarrow> u64 list option list \<Rightarrow> u64 list \<Rightarrow> nat \<Rightarrow> u64 list option list \<Rightarrow> ixgbe_rx_queue \<Rightarrow> bool" where
  "recv_outcome q nb bulks pkts f rest q' \<longleftrightarrow>
     (\<exists>used. bulks = used @ rest \<and> pkts @ bulk_held q' = bulk_held q @ bulk_mbs used) \<and>
     bulk_inv q' \<and> rx_free_thresh q' = rx_free_thresh q \<and> (\<forall>a. mbufs q a \<noteq> None \<longrightarrow> mbufs q' a \<noteq> None) \<and>
     (if f = 0
      then pkts = take (unat nb) (map ((!) (rx_sw_ring q)) [unat (rx_tail q)..<unat (rx_tail q) + scan_found q]) \<and>
           scan_filled q (mbufs q')
      else pkts = [] \<and> unat (rx_free_trigger q) < unat (rx_tail q) + scan_found q \<and> fst (next_bulk bulks) = None)"

lemma rx_deliver_outcome:
  assumes inv: "bulk_inv q1"
    and q1: "bulk_held q1 = bulk_held q @ bulk_mbs used" "bulks = used @ rest" "rx_free_thresh q1 = rx_free_thresh q"
      "\<And>a. mbufs q a \<noteq> None \<Longrightarrow> mbufs q1 a \<noteq> None" "scan_filled q (mbufs q1)"
      "bulk_staged q1 = map ((!) (rx_sw_ring q)) [unat (rx_tail q)..<unat (rx_tail q) + scan_found q]"
  shows "\<exists>pkts q'. rx_deliver q1 nb rest = Inr (pkts, 0, rest, q') \<and> recv_outcome q nb bulks pkts 0 rest q'"
proof (rule deliver_spec [OF inv, of nb rest])
  fix pkts q'
  assume "rx_deliver q1 nb rest = Inr (pkts, 0, rest, q')" "pkts = take (unat nb) (bulk_staged q1)"
    "pkts @ bulk_held q' = bulk_held q1" "bulk_inv q'" "mbufs q' = mbufs q1" "rx_free_thresh q' = rx_free_thresh q1"
  then show ?thesis using q1 by (intro exI [of _ pkts] exI [of _ q']) (auto simp: recv_outcome_def)
qed

text \<open>The three ways a call goes on after a scan.\<close>

lemma recv_stay:
  assumes inv: "bulk_inv q" and empty: "rx_nb_avail q = 0" and n: "n = scan_found q"
    and st: "take n stage = take n (drop (unat (rx_tail q)) (rx_sw_ring q))"
    and q1: "q1 = scanned q n mem stage" "bulk_ok q1" "\<not> rx_tail q1 > rx_free_trigger q1"
    and mem: "scan_filled q mem" "\<And>a. mbufs q a \<noteq> None \<Longrightarrow> mem a \<noteq> None"
  shows "rx_replenish q1 nb_rx bulks = Inr (False, bulks, q1)" "\<not> nb_rx_desc q1 \<le> rx_tail q1"
    "\<exists>pkts q'. rx_deliver q1 nb bulks = Inr (pkts, 0, bulks, q') \<and> recv_outcome q nb bulks pkts 0 bulks q'"
proof -
  note h = scan_held [OF inv empty n st, of mem, folded q1(1)]
  have le: "unat (rx_tail q1) \<le> unat (rx_free_trigger q1)" using q1(3) by (simp add: word_less_nat_alt)
  then have inv1: "bulk_inv q1" using q1(2) by (simp add: bulk_inv_def)
  have f: "rx_free_thresh q1 = rx_free_thresh q" "mbufs q1 = mem" by (simp_all add: q1(1) scanned_def)
  show "rx_replenish q1 nb_rx bulks = Inr (False, bulks, q1)" using q1(3) by (simp add: rx_replenish_def)
  show "\<not> nb_rx_desc q1 \<le> rx_tail q1" using le bulk_okD(3) [OF q1(2)] by (simp add: word_le_nat_alt)
  show "\<exists>pkts q'. rx_deliver q1 nb bulks = Inr (pkts, 0, bulks, q') \<and> recv_outcome q nb bulks pkts 0 bulks q'"
    by (rule rx_deliver_outcome [OF inv1, where used = "[]"]) (use h f mem n in simp_all)
qed

lemma recv_none:
  assumes inv: "bulk_inv q" and empty: "rx_nb_avail q = 0" and n: "n = scan_found q"
    and st: "take n stage = take n (drop (unat (rx_tail q)) (rx_sw_ring q))" "length stage = length (rx_stage q)"
    and mem: "rx_mem_kept (mbufs q) mem" "\<And>a. mbufs q a \<noteq> None \<Longrightarrow> mem a \<noteq> None"
    and q1: "q1 = scanned q n mem stage" "rx_tail q1 > rx_free_trigger q1" "next_bulk bulks = (None, rest)"
  shows "\<exists>q2. rx_replenish q1 (of_nat n) bulks = Inr (True, rest, q2) \<and>
    recv_outcome q nb bulks [] (unat (rx_free_thresh q2)) rest q2"
proof -
  let ?t = "unat (rx_tail q)"
  have ok: "bulk_ok q" using inv by (simp add: bulk_inv_def)
  note c = bulk_configD [OF bulk_okD(1) [OF ok]] and b = scan_found_bounds [OF inv, folded n]
  define q2 where "q2 = q1\<lparr>rx_nb_avail := 0, rx_tail := rx_tail q1 - of_nat n,
    rx_sw_ring := blit (rx_sw_ring q1) ?t (take n stage)\<rparr>"
  have r: "bulk_inv q2" "bulk_held q2 = bulk_held q" "mbufs q2 = mem"
    by (rule rewind_ok [OF inv empty n st mem(1), of q2]; simp add: q2_def q1(1))+
  obtain used where u: "bulks = used @ rest" "bulk_mbs used = []" using next_bulk_none [OF q1(3)] by blast
  have f: "unat (rx_tail q1 - of_nat n) = ?t" "rx_stage q1 = stage" "rx_free_thresh q2 = rx_free_thresh q"
    by (simp_all add: q1(1) q2_def scanned_def)
  have len: "n \<le> length stage" "?t + n \<le> length (rx_sw_ring q1)" "length (take n stage) = n"
    using b(1,2) c(6,7) st(2) by (simp_all add: q1(1) scanned_def)
  have al: "ixgbe_rx_alloc_bufs q1 True None = Inr (- ENOMEM, q1)" by (simp add: ixgbe_rx_alloc_bufs_def)
  have "rx_replenish q1 (of_nat n) bulks = Inr (True, rest, q2)"
    using q1(2,3) al len b(5) f by (simp add: rx_replenish_def Let_def ENOMEM_def q2_def)
  moreover have "unat (rx_free_thresh q2) \<noteq> 0" using c(1) f by simp
  moreover have "unat (rx_free_trigger q) < ?t + scan_found q"
    using q1(2) b(4) n by (simp add: word_less_nat_alt q1(1) scanned_def)
  ultimately show ?thesis using r u mem(2) q1(3) f by (auto simp: recv_outcome_def)
qed

lemma recv_some:
  assumes inv: "bulk_inv q" and empty: "rx_nb_avail q = 0" and n: "n = scan_found q" and bulks: "bulks_ok q bulks"
    and st: "take n stage = take n (drop (unat (rx_tail q)) (rx_sw_ring q))"
    and q1: "q1 = scanned q n mem stage" "bulk_ok q1" "rx_tail q1 > rx_free_trigger q1" "next_bulk bulks = (Some mbs, rest)"
    and mem: "scan_filled q mem" "\<And>a. mbufs q a \<noteq> None \<Longrightarrow> mem a \<noteq> None"
  obtains q2 pkts q' where "rx_replenish q1 (of_nat n) bulks = Inr (False, rest, q2)"
    "rx_deliver (if rx_tail q2 \<ge> nb_rx_desc q2 then q2\<lparr>rx_tail := 0\<rparr> else q2) nb rest = Inr (pkts, 0, rest, q')"
    "recv_outcome q nb bulks pkts 0 rest q'"
proof -
  let ?t = "unat (rx_tail q)"
  note m = bulks_ok_first [OF bulks q1(4)] and h = scan_held [OF inv empty n st, of mem, folded q1(1)]
  have f: "rx_free_thresh q1 = rx_free_thresh q" "mbufs q1 = mem" by (simp_all add: q1(1) scanned_def)
  have v: "\<forall>a\<in>set mbs. mbufs q1 a \<noteq> None" "distinct (bulk_held q1 @ mbs)" "length mbs = unat (rx_free_thresh q1)"
    using m mem(2) f h(1) by simp_all
  have past: "unat (rx_free_trigger q1) < unat (rx_tail q1)" using q1(3) by (simp add: word_less_nat_alt)
  show thesis
  proof (rule alloc_spec [OF q1(2) past v(3,1,2) m(5)])
    fix q2 :: ixgbe_rx_queue and mem2
    let ?q3 = "replaced q1 mbs mem2" and ?q2 = "q2\<lparr>rdt_reg := ucast (rx_free_trigger q1)\<rparr>"
    assume al: "ixgbe_rx_alloc_bufs q1 True (Some mbs) = Inr (0, q2)"
      "(if rx_tail q2 \<ge> nb_rx_desc q2 then q2\<lparr>rdt_reg := ucast (rx_free_trigger q1), rx_tail := 0\<rparr> else ?q2) = ?q3"
      and r: "bulk_inv ?q3" "bulk_held ?q3 = bulk_held q1 @ mbs" "bulk_staged ?q3 = bulk_staged q1"
        "\<And>a. a \<notin> set mbs \<Longrightarrow> mem2 a = mbufs q1 a" "\<And>a. mbufs q1 a \<noteq> None \<Longrightarrow> mem2 a \<noteq> None"
    have m3: "mbufs ?q3 = mem2" "rx_free_thresh ?q3 = rx_free_thresh q" using f by (simp_all add: replaced_def)
    have fresh: "rx_sw_ring q ! i \<notin> set mbs" if "?t \<le> i" "i < ?t + n" for i
    proof -
      have "rx_sw_ring q ! i \<in> set (bulk_staged q1)" using that unfolding h(2) by simp
      then show ?thesis using v(2) by (auto simp: bulk_held_def)
    qed
    have "scan_filled q mem2" using mem(1) fresh r(4) f(2) n by (simp add: scan_filled_def)
    then obtain pkts q' where "rx_deliver ?q3 nb rest = Inr (pkts, 0, rest, q')" "recv_outcome q nb bulks pkts 0 rest q'"
      using rx_deliver_outcome [OF r(1), of q "[Some mbs]" bulks rest nb] r(2,3,5) h(1,2) m(1) m3 mem(2) f n by auto
    moreover have "(if rx_tail ?q2 \<ge> nb_rx_desc ?q2 then ?q2\<lparr>rx_tail := 0\<rparr> else ?q2) = ?q3" using al(2) by simp
    moreover have "rx_replenish q1 (of_nat n) bulks = Inr (False, rest, ?q2)"
      using q1(3,4) al(1) by (simp add: rx_replenish_def Let_def)
    ultimately show thesis by (intro that [of ?q2 pkts q']) simp_all
  qed
qed

lemma rx_recv_empty_stage:
  assumes inv: "bulk_inv q" and empty: "rx_nb_avail q = 0" and bulks: "bulks_ok q bulks"
  shows "\<exists>pkts f rest q'. rx_recv_pkts q nb bulks = Inr (pkts, f, rest, q') \<and> recv_outcome q nb bulks pkts f rest q'"
proof -
  let ?t = "unat (rx_tail q)"
  define n where "n = scan_found q"
  show ?thesis
  proof (rule scan_spec [OF inv empty n_def])
    fix q0 mem stage
    let ?q1 = "scanned q n mem stage"
    assume scan: "ixgbe_rx_scan_hw_ring q = Inr (n, q0)"
      "q0\<lparr>rx_next_avail := 0, rx_nb_avail := of_nat n, rx_tail := rx_tail q0 + of_nat n\<rparr> = ?q1"
      and st: "take n stage = take n (drop ?t (rx_sw_ring q))" "length stage = length (rx_stage q)"
      and mem: "rx_mem_kept (mbufs q) mem"
      and fill: "\<And>i. ?t \<le> i \<Longrightarrow> i < ?t + n \<Longrightarrow>
         \<exists>m m'. mbufs q (rx_sw_ring q ! i) = Some m \<and> rx_fill_mbuf q (rx_ring q ! i) m = Inr m' \<and>
           mem (rx_sw_ring q ! i) = Some m'"
    have ok1: "bulk_ok ?q1" by (rule scan_ok [OF inv empty n_def st mem])
    have filled: "scan_filled q mem" using fill by (simp add: scan_filled_def n_def)
    have keep: "mem a \<noteq> None" if "mbufs q a \<noteq> None" for a using that mem by (auto elim: rx_mem_keptE)
    have call: "rx_recv_pkts q nb bulks = bindc (rx_replenish ?q1 (of_nat n) bulks) (\<lambda>(failed, bulks', q2).
        if failed then Inr ([], unat (rx_free_thresh q2), bulks', q2)
        else rx_deliver (if rx_tail q2 \<ge> nb_rx_desc q2 then q2\<lparr>rx_tail := 0\<rparr> else q2) nb bulks')"
      using scan empty by (simp add: rx_recv_pkts_def)
    consider (stay) "\<not> rx_tail ?q1 > rx_free_trigger ?q1"
      | (none) rest where "rx_tail ?q1 > rx_free_trigger ?q1" "next_bulk bulks = (None, rest)"
      | (some) mbs rest where "rx_tail ?q1 > rx_free_trigger ?q1" "next_bulk bulks = (Some mbs, rest)"
      by (cases "next_bulk bulks") (metis option.exhaust)
    then show ?thesis
    proof cases
      case stay
      note s = recv_stay [OF inv empty n_def st(1) refl ok1 stay filled keep]
      obtain pkts q' where "rx_deliver ?q1 nb bulks = Inr (pkts, 0, bulks, q')" "recv_outcome q nb bulks pkts 0 bulks q'"
        using s(3) [of nb bulks] by blast
      moreover have "rx_recv_pkts q nb bulks = rx_deliver ?q1 nb bulks" unfolding call using s(1,2) by simp
      ultimately show ?thesis by metis
    next
      case none
      from recv_none [OF inv empty n_def st mem keep refl none, of nb] show ?thesis unfolding call by auto
    next
      case some
      show ?thesis by (rule recv_some [OF inv empty n_def bulks st(1) refl ok1 some filled keep, of nb]) (auto simp: call)
    qed
  qed
qed

section \<open>No mbuf is lost\<close>

text \<open>What every call keeps: the packets and then the mbufs the queue holds are what it held before and then what the
  mempool gave.\<close>

definition recv_kept ::
  "ixgbe_rx_queue \<Rightarrow> u64 list option list \<Rightarrow> u64 list \<Rightarrow> u64 list option list \<Rightarrow> ixgbe_rx_queue \<Rightarrow> bool" where
  "recv_kept q bulks pkts rest q' \<longleftrightarrow>
     (\<exists>used. bulks = used @ rest \<and> pkts @ bulk_held q' = bulk_held q @ bulk_mbs used) \<and> bulk_inv q' \<and> bulks_ok q' rest"

lemma bulks_ok_rest:
  assumes "bulks_ok q (used @ rest)" "pkts @ bulk_held q' = bulk_held q @ bulk_mbs used"
    "rx_free_thresh q' = rx_free_thresh q" "\<forall>a. mbufs q a \<noteq> None \<longrightarrow> mbufs q' a \<noteq> None"
  shows "bulks_ok q' rest"
proof -
  have "distinct ((bulk_held q @ bulk_mbs used) @ bulk_mbs rest)" using assms(1) by (simp add: bulks_ok_def)
  then have "distinct (bulk_held q' @ bulk_mbs rest)" unfolding assms(2) [symmetric] by simp
  then show ?thesis using assms(1,3,4) by (auto simp: bulks_ok_def)
qed

lemma rx_recv_kept:
  assumes inv: "bulk_inv q" and bulks: "bulks_ok q bulks"
  shows "\<exists>pkts f rest q'. rx_recv_pkts q nb bulks = Inr (pkts, f, rest, q') \<and> recv_kept q bulks pkts rest q' \<and>
    length pkts \<le> unat nb"
proof (cases "rx_nb_avail q = 0")
  case True
  obtain pkts f rest q' where r: "rx_recv_pkts q nb bulks = Inr (pkts, f, rest, q')" "recv_outcome q nb bulks pkts f rest q'"
    using rx_recv_empty_stage [OF inv True bulks] by blast
  then obtain used where u: "bulks = used @ rest" "pkts @ bulk_held q' = bulk_held q @ bulk_mbs used"
    by (auto simp: recv_outcome_def)
  have "bulks_ok q' rest"
    by (rule bulks_ok_rest [OF bulks [unfolded u(1)] u(2)]) (use r(2) in \<open>simp_all add: recv_outcome_def\<close>)
  moreover have "length pkts \<le> unat nb" using r(2) by (auto simp: recv_outcome_def split: if_splits)
  ultimately show ?thesis using r u by (auto simp: recv_kept_def recv_outcome_def)
next
  case False
  have call: "rx_recv_pkts q nb bulks = rx_deliver q nb bulks" using False by (simp add: rx_recv_pkts_def rx_deliver_def)
  show ?thesis
  proof (rule deliver_spec [OF inv, of nb bulks])
    fix pkts q'
    assume a: "rx_deliver q nb bulks = Inr (pkts, 0, bulks, q')" "pkts = take (unat nb) (bulk_staged q)"
      "pkts @ bulk_held q' = bulk_held q" "bulk_inv q'" "mbufs q' = mbufs q" "rx_free_thresh q' = rx_free_thresh q"
    have "bulks_ok q' bulks" using bulks_ok_rest [of q "[]" bulks pkts q'] bulks a by simp
    then have "recv_kept q bulks pkts bulks q'" unfolding recv_kept_def using a(3,4) by (auto intro!: exI [of _ "[]"])
    moreover have "length pkts \<le> unat nb" unfolding a(2) by simp
    ultimately show ?thesis unfolding call a(1) by blast
  qed
qed

lemma recv_kept_trans:
  assumes "recv_kept q bulks pkts rest q1" "recv_kept q1 rest pkts' rest' q2"
  shows "recv_kept q bulks (pkts @ pkts') rest' q2"
proof -
  obtain u where u: "bulks = u @ rest" "pkts @ bulk_held q1 = bulk_held q @ bulk_mbs u" using assms(1) by (auto simp: recv_kept_def)
  obtain v where v: "rest = v @ rest'" "pkts' @ bulk_held q2 = bulk_held q1 @ bulk_mbs v" using assms(2) by (auto simp: recv_kept_def)
  have "(pkts @ pkts') @ bulk_held q2 = (pkts @ bulk_held q1) @ bulk_mbs v" using v(2) by simp
  also have "\<dots> = bulk_held q @ bulk_mbs (u @ v)" unfolding u(2) by simp
  finally show ?thesis using assms(2) u(1) v(1) unfolding recv_kept_def by (auto intro!: exI [of _ "u @ v"])
qed

lemma recv_chunks_kept:
  "bulk_inv q \<Longrightarrow> bulks_ok q bulks \<Longrightarrow> unat nb \<le> fuel \<Longrightarrow>
     \<exists>pkts f rest q'. recv_chunks fuel q nb bulks = Inr (pkts, f, rest, q') \<and> recv_kept q bulks pkts rest q' \<and>
       length pkts \<le> unat nb"
proof (induction fuel arbitrary: q nb bulks)
  case 0
  then have "nb = 0" by (simp add: unat_eq_0)
  then show ?case using 0 by (auto simp: recv_kept_def intro!: exI [of _ "[]"])
next
  case (Suc fuel)
  let ?n = "min nb (of_nat RTE_PMD_IXGBE_RX_MAX_BURST)"
  show ?case
  proof (cases "nb = 0")
    case True
    then show ?thesis using Suc.prems by (auto simp: recv_kept_def intro!: exI [of _ "[]"])
  next
    case False
    obtain pkts f rest q1 where r: "rx_recv_pkts q ?n bulks = Inr (pkts, f, rest, q1)"
      "recv_kept q bulks pkts rest q1" "length pkts \<le> unat ?n"
      using rx_recv_kept [OF Suc.prems(1,2), of ?n] by blast
    have le: "unat ?n \<le> unat nb" by (simp add: word_le_nat_alt [symmetric])
    then have "length pkts < 2 ^ LENGTH(16)" using r(3) unat_u16_bound [of nb] by simp
    then have ret: "unat (of_nat (length pkts) :: u16) = length pkts" by (simp add: unat_of_nat)
    show ?thesis
    proof (cases "(of_nat (length pkts) :: u16) < ?n")
      case True
      then show ?thesis using False r le by (auto simp: Let_def)
    next
      case more: False
      then have len: "length pkts = unat ?n" using r(3) ret by (simp add: word_less_nat_alt)
      have pos: "0 < unat ?n" using False by (simp add: unat_gt_0 min_def RTE_PMD_IXGBE_RX_MAX_BURST_def)
      have "(of_nat (length pkts) :: u16) \<le> nb" using len le by (simp add: word_le_nat_alt ret)
      then have sub: "unat (nb - of_nat (length pkts)) = unat nb - length pkts" using unat_sub ret by metis
      have "unat (nb - of_nat (length pkts)) \<le> fuel" using sub pos len Suc.prems(3) by linarith
      moreover have "bulk_inv q1" "bulks_ok q1 rest" using r(2) by (simp_all add: recv_kept_def)
      ultimately obtain pkts' f' rest' q2 where i: "recv_chunks fuel q1 (nb - of_nat (length pkts)) rest = Inr (pkts', f', rest', q2)"
        "recv_kept q1 rest pkts' rest' q2" "length pkts' \<le> unat nb - length pkts"
        using Suc.IH sub by metis
      have "recv_chunks (Suc fuel) q nb bulks = Inr (pkts @ pkts', f + f', rest', q2)"
        using False r(1) more i(1) by (auto simp: Let_def)
      moreover have "length (pkts @ pkts') \<le> unat nb" using i(3) len le by simp
      ultimately show ?thesis using recv_kept_trans [OF r(2) i(2)] by blast
    qed
  qed
qed

lemma bulk_alloc_kept:
  assumes "bulk_inv q" "bulks_ok q bulks"
  shows "\<exists>pkts f rest q'. ixgbe_recv_pkts_bulk_alloc q nb bulks = Inr (pkts, f, rest, q') \<and>
    recv_kept q bulks pkts rest q' \<and> length pkts \<le> unat nb"
proof -
  consider "nb = 0" | "nb \<noteq> 0" "unat nb \<le> RTE_PMD_IXGBE_RX_MAX_BURST" | "\<not> unat nb \<le> RTE_PMD_IXGBE_RX_MAX_BURST"
    by blast
  then show ?thesis
  proof cases
    case 1
    then show ?thesis using assms by (auto simp: ixgbe_recv_pkts_bulk_alloc_def recv_kept_def intro!: exI [of _ "[]"])
  next
    case 2
    then show ?thesis using rx_recv_kept [OF assms, of nb] by (simp add: ixgbe_recv_pkts_bulk_alloc_def)
  next
    case 3
    then have "nb \<noteq> 0" by auto
    then show ?thesis using 3 recv_chunks_kept [OF assms order_refl, of nb] by (simp add: ixgbe_recv_pkts_bulk_alloc_def)
  qed
qed

lemma bulk_recv_found:
  assumes "bulk_inv q" "rx_nb_avail q = 0" "bulks_ok q bulks" "fst (next_bulk bulks) \<noteq> None" "0 < nb" "unat nb \<le> 32"
  shows "\<exists>rest q'. ixgbe_recv_pkts_bulk_alloc q nb bulks =
      Inr (take (unat nb) (map ((!) (rx_sw_ring q)) [unat (rx_tail q)..<unat (rx_tail q) + scan_found q]), 0, rest, q') \<and>
    scan_filled q (mbufs q')"
proof -
  obtain pkts f rest q' where r: "rx_recv_pkts q nb bulks = Inr (pkts, f, rest, q')" "recv_outcome q nb bulks pkts f rest q'"
    using rx_recv_empty_stage [OF assms(1-3)] by blast
  then have "f = 0" using assms(4) by (auto simp: recv_outcome_def split: if_splits)
  moreover have "ixgbe_recv_pkts_bulk_alloc q nb bulks = rx_recv_pkts q nb bulks"
    using assms(5,6) by (auto simp: ixgbe_recv_pkts_bulk_alloc_def RTE_PMD_IXGBE_RX_MAX_BURST_def)
  ultimately show ?thesis using r by (simp add: recv_outcome_def)
qed

section \<open>Filling a ring for the first time\<close>

definition filled :: "ixgbe_rx_queue \<Rightarrow> nat \<Rightarrow> u64 list \<Rightarrow> ixgbe_rx_queue \<Rightarrow> bool" where
  "filled q i mbs q' \<longleftrightarrow>
     (\<exists>mem ring sw. q' = q\<lparr>mbufs := mem, rx_ring := ring, rx_sw_ring := sw\<rparr> \<and>
        sw = blit (rx_sw_ring q) i mbs \<and> length ring = length (rx_ring q) \<and>
        (\<forall>j < length ring. j < i \<or> i + length mbs \<le> j \<longrightarrow> ring ! j = rx_ring q ! j) \<and>
        (\<forall>a. a \<notin> set mbs \<longrightarrow> mem a = mbufs q a) \<and>
        (\<forall>j < length mbs. \<exists>m. mem (mbs ! j) = Some m \<and> data_off m = RTE_PKTMBUF_HEADROOM \<and> ring ! (i + j) = rx_read_desc m))"

lemma alloc_entries_spec:
  "length mbs = n \<Longrightarrow> distinct mbs \<Longrightarrow> 0 \<notin> set mbs \<Longrightarrow> \<forall>a\<in>set mbs. mbufs q a \<noteq> None \<Longrightarrow>
     i + n \<le> length (rx_ring q) \<Longrightarrow> i + n \<le> length (rx_sw_ring q) \<Longrightarrow>
     \<exists>q'. alloc_entries q i n (mbs @ rest) = Inr (0, rest, q') \<and> filled q i mbs q'"
proof (induction n arbitrary: mbs q i)
  case 0
  then show ?case by (auto simp: filled_def blit_def intro!: exI [of _ "mbufs q"] exI [of _ "rx_ring q"])
next
  case (Suc n)
  obtain a as where mbs: "mbs = a # as" "length as = n" using Suc.prems(1) by (cases mbs) auto
  obtain m where m: "mbufs q a = Some m" "a \<noteq> 0" using Suc.prems(3,4) mbs by auto
  define m1 where "m1 = m\<lparr>data_off := RTE_PKTMBUF_HEADROOM, mb_port := port_id q\<rparr>"
  define q1 where "q1 = q\<lparr>mbufs := (mbufs q)(a \<mapsto> m1), rx_ring := (rx_ring q)[i := rx_read_desc m1],
    rx_sw_ring := (rx_sw_ring q)[i := a]\<rparr>"
  have new: "a \<notin> set as" "distinct as" "0 \<notin> set as" using Suc.prems(2,3) mbs by auto
  have "\<forall>x\<in>set as. mbufs q1 x \<noteq> None" "Suc i + n \<le> length (rx_ring q1)" "Suc i + n \<le> length (rx_sw_ring q1)"
    using Suc.prems mbs by (auto simp: q1_def)
  from Suc.IH [OF mbs(2) new(2,3) this] obtain q' where
    i: "alloc_entries q1 (Suc i) n (as @ rest) = Inr (0, rest, q')" "filled q1 (Suc i) as q'" by blast
  have step: "alloc_entries q i (Suc n) (mbs @ rest) = Inr (0, rest, q')"
    using i(1) m Suc.prems(5,6) by (simp add: mbs(1) m1_def [symmetric] q1_def [symmetric])
  obtain mem ring where f: "q' = q1\<lparr>mbufs := mem, rx_ring := ring, rx_sw_ring := blit (rx_sw_ring q1) (Suc i) as\<rparr>"
    "length ring = length (rx_ring q1)"
    "\<forall>j < length ring. j < Suc i \<or> Suc i + length as \<le> j \<longrightarrow> ring ! j = rx_ring q1 ! j"
    "\<forall>x. x \<notin> set as \<longrightarrow> mem x = mbufs q1 x"
    "\<forall>j < length as. \<exists>m. mem (as ! j) = Some m \<and> data_off m = RTE_PKTMBUF_HEADROOM \<and> ring ! (Suc i + j) = rx_read_desc m"
    using i(2) by (auto simp: filled_def)
  have "blit (rx_sw_ring q1) (Suc i) as = blit (rx_sw_ring q) i mbs"
    using Suc.prems(6) mbs by (simp add: q1_def blit_Cons)
  then have "q' = q\<lparr>mbufs := mem, rx_ring := ring, rx_sw_ring := blit (rx_sw_ring q) i mbs\<rparr>"
    unfolding f(1) by (simp add: q1_def)
  moreover have "length ring = length (rx_ring q)" using f(2) by (simp add: q1_def)
  moreover have "\<forall>j < length ring. j < i \<or> i + length mbs \<le> j \<longrightarrow> ring ! j = rx_ring q ! j"
    using f(3) mbs(1) by (auto simp: q1_def)
  moreover have "\<forall>x. x \<notin> set mbs \<longrightarrow> mem x = mbufs q x" using f(4) mbs(1) by (simp add: q1_def)
  moreover have "\<exists>m. mem (mbs ! j) = Some m \<and> data_off m = RTE_PKTMBUF_HEADROOM \<and> ring ! (i + j) = rx_read_desc m"
    if "j < length mbs" for j
  proof (cases j)
    case 0
    have "ring ! i = rx_read_desc m1" using f(2,3) Suc.prems(5) by (simp add: q1_def)
    then show ?thesis using 0 f(4) new(1) by (simp add: mbs(1) q1_def m1_def)
  next
    case (Suc k)
    then show ?thesis using f(5) that mbs(1) by auto
  qed
  ultimately show ?case using step unfolding filled_def by blast
qed

text \<open>A queue as the set-up leaves it: memory for the ring and the entries behind it.\<close>

definition bulk_memory :: "ixgbe_rx_queue \<Rightarrow> bool" where
  "bulk_memory q \<longleftrightarrow>
     check_rx_burst_bulk_alloc_preconditions q = 0 \<and> unat (nb_rx_desc q) \<le> IXGBE_MAX_RING_DESC \<and>
     unat (nb_rx_desc q) + RTE_PMD_IXGBE_RX_MAX_BURST \<le> length (rx_ring q) \<and>
     unat (nb_rx_desc q) + RTE_PMD_IXGBE_RX_MAX_BURST \<le> length (rx_sw_ring q) \<and>
     length (rx_stage q) = 2 * RTE_PMD_IXGBE_RX_MAX_BURST"

lemma not_done_read [simp]: "\<not> desc_done (rx_read_desc m)"
  by (simp add: desc_done_def rx_read_desc_def wb_status_error_def)

lemma not_done_zeroed [simp]: "\<not> desc_done zeroed_rx_desc"
  by (simp add: desc_done_def zeroed_rx_desc_def wb_status_error_def)

lemma reset_bulk:
  assumes "bulk_memory q"
  obtains q1 where "ixgbe_reset_rx_queue True q = Inr q1" "bulk_config q1"
    "nb_rx_desc q1 = nb_rx_desc q" "rx_free_thresh q1 = rx_free_thresh q" "rx_tail q1 = 0" "rx_nb_avail q1 = 0"
    "rx_next_avail q1 = 0" "rx_free_trigger q1 = rx_free_thresh q - 1" "mbufs q1 = mbufs q" "rx_sw_sc_ring q1 = rx_sw_sc_ring q"
proof -
  let ?N = "unat (nb_rx_desc q)"
  have N: "?N \<le> 4096" using assms by (simp add: bulk_memory_def IXGBE_MAX_RING_DESC_def)
  then have "?N + unat (32 :: u16) < 2 ^ LENGTH(16)" by simp
  then have "unat (nb_rx_desc q + 32) = ?N + unat (32 :: u16)" by (rule unat_add_lem [THEN iffD1])
  then have len: "unat (nb_rx_desc q + 32) = ?N + 32" by simp
  define q1 where "q1 = q\<lparr>rx_ring := replicate (?N + 32) zeroed_rx_desc @ drop (?N + 32) (rx_ring q),
     rx_sw_ring := take ?N (rx_sw_ring q) @ replicate 32 (fake_mbuf q) @ drop (?N + 32) (rx_sw_ring q),
     rx_nb_avail := 0, rx_next_avail := 0, rx_free_trigger := rx_free_thresh q - 1,
     rx_tail := 0, nb_rx_hold := 0, pkt_first_seg := 0, pkt_last_seg := 0, rx_recl := 0\<rparr>"
  have b: "?N + 32 \<le> length (rx_ring q)" "?N + 32 \<le> length (rx_sw_ring q)"
    using assms by (simp_all add: bulk_memory_def RTE_PMD_IXGBE_RX_MAX_BURST_def)
  have "ixgbe_reset_rx_queue True q = Inr q1"
    using b by (simp add: ixgbe_reset_rx_queue_def Let_def RTE_PMD_IXGBE_RX_MAX_BURST_def len q1_def)
  moreover have "check_rx_burst_bulk_alloc_preconditions q1 = check_rx_burst_bulk_alloc_preconditions q"
    by (simp add: check_rx_burst_bulk_alloc_preconditions_def q1_def)
  then have "bulk_config q1"
    using assms b unfolding bulk_config_def bulk_memory_def
    by (simp add: q1_def nth_append RTE_PMD_IXGBE_RX_MAX_BURST_def)
  ultimately show thesis by (intro that [of q1]) (simp_all add: q1_def)
qed

lemma filled_bulk:
  assumes cfg: "bulk_config q" "rx_tail q = 0" "rx_nb_avail q = 0" "rx_next_avail q = 0"
      "rx_free_trigger q = rx_free_thresh q - 1"
    and mbs: "length mbs = unat (nb_rx_desc q)" "distinct mbs" "0 \<notin> set mbs"
    and fl: "filled q 0 mbs q'"
  shows "bulk_inv q'" "bulk_held q' = mbs" "\<And>a. a \<notin> set mbs \<Longrightarrow> mbufs q' a = mbufs q a"
    "\<And>i. i < unat (nb_rx_desc q) \<Longrightarrow> \<not> desc_done (rx_ring q' ! i)"
    "nb_rx_desc q' = nb_rx_desc q" "rx_free_thresh q' = rx_free_thresh q" "rx_tail q' = 0" "rx_nb_avail q' = 0"
    "rx_sw_sc_ring q' = rx_sw_sc_ring q"
proof -
  note c = bulk_configD [OF cfg(1)]
  let ?N = "unat (nb_rx_desc q)"
  obtain mem ring where f: "q' = q\<lparr>mbufs := mem, rx_ring := ring, rx_sw_ring := blit (rx_sw_ring q) 0 mbs\<rparr>"
    "length ring = length (rx_ring q)" "\<forall>j < length ring. ?N \<le> j \<longrightarrow> ring ! j = rx_ring q ! j"
    "\<forall>a. a \<notin> set mbs \<longrightarrow> mem a = mbufs q a"
    "\<forall>j < ?N. \<exists>m. mem (mbs ! j) = Some m \<and> data_off m = RTE_PKTMBUF_HEADROOM \<and> ring ! j = rx_read_desc m"
    using fl mbs(1) by (auto simp: filled_def)
  have sw: "rx_sw_ring q' ! i = mbs ! i" if "i < ?N" for i
    using that mbs(1) c(6) by (simp add: f(1) nth_blit)
  have one: "unat (rx_free_thresh q - 1) = unat (rx_free_thresh q) - 1" using c(1) by (intro unat_minus_one) auto
  have start: "bulk_start q' = 0" using c(1) one cfg(5) by (simp add: bulk_start_def f(1))
  have es: "bulk_entries q' = [0..<?N]" using cfg(2) start by (simp add: bulk_entries_def f(1))
  have staged: "bulk_staged q' = []" using cfg(3) by (simp add: bulk_staged_def f(1))
  show held: "bulk_held q' = mbs"
    unfolding bulk_held_def staged es by (rule nth_equalityI) (use mbs(1) sw in auto)
  have "bulk_config q'"
    using cfg(1) f(2,3) c(5,6) mbs(1) bulk_config_cong [of q' q] by (simp add: f(1))
  moreover have "bulk_entry_ok q' i" if "i < ?N" for i
    using that f(5) sw [OF that] by (auto simp: bulk_entry_ok_def f(1))
  moreover have "unat (rx_free_trigger q') + 1 = unat (rx_free_thresh q')" using one c(1) cfg(5) by (simp add: f(1))
  moreover have "rx_tail q' = 0" "rx_nb_avail q' = 0" "rx_next_avail q' = 0" "nb_rx_desc q' = nb_rx_desc q"
    "rx_free_thresh q' = rx_free_thresh q" using cfg by (simp_all add: f(1))
  ultimately show "bulk_inv q'"
    using c(2) mbs unfolding bulk_inv_def bulk_ok_def held staged es start by simp
  show "\<not> desc_done (rx_ring q' ! i)" if "i < ?N" for i using that f(5) by (force simp: f(1))
  show "mbufs q' a = mbufs q a" if "a \<notin> set mbs" for a using that f(4) by (simp add: f(1))
qed (use cfg fl in \<open>auto simp: filled_def\<close>)

lemma bulk_starts:
  assumes "bulk_memory q" "length mbs = unat (nb_rx_desc q)" "distinct mbs" "0 \<notin> set mbs" "\<forall>a\<in>set mbs. mbufs q a \<noteq> None"
  obtains q1 q2 where "ixgbe_reset_rx_queue True q = Inr q1"
    "ixgbe_alloc_rx_queue_mbufs q1 (mbs @ rest) = Inr (0, rest, q2)" "bulk_inv q2" "bulk_held q2 = mbs"
    "\<And>a. a \<notin> set mbs \<Longrightarrow> mbufs q2 a = mbufs q a" "\<And>i. i < unat (nb_rx_desc q) \<Longrightarrow> \<not> desc_done (rx_ring q2 ! i)"
    "nb_rx_desc q2 = nb_rx_desc q" "rx_free_thresh q2 = rx_free_thresh q" "rx_tail q2 = 0" "rx_nb_avail q2 = 0"
    "rx_sw_sc_ring q2 = rx_sw_sc_ring q"
proof (rule reset_bulk [OF assms(1)])
  fix q1
  assume r: "ixgbe_reset_rx_queue True q = Inr q1" "bulk_config q1"
    "nb_rx_desc q1 = nb_rx_desc q" "rx_free_thresh q1 = rx_free_thresh q" "rx_tail q1 = 0" "rx_nb_avail q1 = 0"
    "rx_next_avail q1 = 0" "rx_free_trigger q1 = rx_free_thresh q - 1" "mbufs q1 = mbufs q" "rx_sw_sc_ring q1 = rx_sw_sc_ring q"
  note c = bulk_configD [OF r(2)]
  have "0 + unat (nb_rx_desc q1) \<le> length (rx_ring q1)" "0 + unat (nb_rx_desc q1) \<le> length (rx_sw_ring q1)"
    using c by simp_all
  then obtain q2 where a: "alloc_entries q1 0 (unat (nb_rx_desc q1)) (mbs @ rest) = Inr (0, rest, q2)" "filled q1 0 mbs q2"
    using alloc_entries_spec [of mbs "unat (nb_rx_desc q1)" q1 0 rest] assms(2-5) r(3,9) by auto
  have "rx_free_trigger q1 = rx_free_thresh q1 - 1" "length mbs = unat (nb_rx_desc q1)" using r assms(2) by simp_all
  note f = filled_bulk [OF r(2,5,6,7) this assms(3,4) a(2)]
  show thesis
    by (rule that [of q1 q2]) (use r(1) a(1) f r(3,4,9,10) in \<open>simp_all add: ixgbe_alloc_rx_queue_mbufs_def\<close>)
qed

section \<open>The card and runs of a queue\<close>

text \<open>The card writes back a descriptor of its own: the queue holds what it held.\<close>

lemma card_writes_back:
  assumes inv: "bulk_inv q" and i: "i \<in> set (bulk_entries q)" and d: "desc_done d"
  shows "bulk_inv (q\<lparr>rx_ring := (rx_ring q)[i := d]\<rparr>)" "bulk_held (q\<lparr>rx_ring := (rx_ring q)[i := d]\<rparr>) = bulk_held q"
proof -
  let ?q = "q\<lparr>rx_ring := (rx_ring q)[i := d]\<rparr>"
  have ok: "bulk_ok q" and tF: "unat (rx_tail q) \<le> unat (rx_free_trigger q)" using inv by (simp_all add: bulk_inv_def)
  note o = bulk_okD [OF ok] and c = bulk_configD [OF bulk_okD(1) [OF ok]]
  have iN: "i < unat (nb_rx_desc q)" using i o(3,5) tF by (auto simp: bulk_entry_range)
  have es: "bulk_entries ?q = bulk_entries q" "bulk_start ?q = bulk_start q" "bulk_staged ?q = bulk_staged q"
    by (simp_all add: bulk_entries_def bulk_start_def bulk_staged_def)
  show held: "bulk_held ?q = bulk_held q" unfolding bulk_held_def es by simp
  have "bulk_config ?q" using o(1) iN bulk_config_cong [of ?q q] by simp
  moreover have "bulk_entry_ok ?q j" if "j \<in> set (bulk_entries q)" for j
    using o(7) [OF that] d iN c(5) by (cases "j = i") (auto simp: bulk_entry_ok_def)
  ultimately show "bulk_inv ?q" using ok tF unfolding bulk_inv_def bulk_ok_def es held by simp
qed

text \<open>Runs: the card finishes packets and the application receives, in any order. \<open>given\<close> is what the mempool gave and
  \<open>out\<close> what the application got, since the beginning.\<close>

inductive bulk_run :: "ixgbe_rx_queue \<Rightarrow> u64 list \<Rightarrow> u64 list \<Rightarrow> ixgbe_rx_queue \<Rightarrow> bool" for q where
  run_start: "bulk_run q [] [] q"
| run_card: "bulk_run q given out q1 \<Longrightarrow> i \<in> set (bulk_entries q1) \<Longrightarrow> desc_done d \<Longrightarrow>
    bulk_run q given out (q1\<lparr>rx_ring := (rx_ring q1)[i := d]\<rparr>)"
| run_recv: "bulk_run q given out q1 \<Longrightarrow> bulks_ok q1 (used @ rest) \<Longrightarrow>
    ixgbe_recv_pkts_bulk_alloc q1 nb (used @ rest) = Inr (pkts, f, rest, q2) \<Longrightarrow>
    bulk_run q (given @ bulk_mbs used) (out @ pkts) q2"

lemma bulk_run_keeps:
  "bulk_run q given out q' \<Longrightarrow> bulk_inv q \<Longrightarrow> bulk_inv q' \<and> out @ bulk_held q' = bulk_held q @ given"
proof (induction rule: bulk_run.induct)
  case (run_card given out q1 i d)
  then show ?case using card_writes_back [OF _ run_card.hyps(2,3)] by simp
next
  case (run_recv given out q1 used rest nb pkts f q2)
  then have q1: "bulk_inv q1" "out @ bulk_held q1 = bulk_held q @ given" by simp_all
  obtain u where u: "used @ rest = u @ rest" "pkts @ bulk_held q2 = bulk_held q1 @ bulk_mbs u" "bulk_inv q2"
    using bulk_alloc_kept [OF q1(1) run_recv.hyps(2), of nb] run_recv.hyps(3) by (auto simp: recv_kept_def)
  then have "(out @ pkts) @ bulk_held q2 = (out @ bulk_held q1) @ bulk_mbs used" by simp
  then show ?case using u(3) q1(2) by simp
qed simp

section \<open>Releasing a queue\<close>

lemma release_sc_empty: "release_sc_entries mem (replicate n 0) = Inr ([], replicate n 0)"
  by (induction n) auto

text \<open>The entries of the software ring that are not NULL are those with an mbuf.\<close>

lemma sw_ring_mbufs:
  assumes inv: "bulk_inv q"
  shows "mset (filter (\<lambda>m. m \<noteq> 0) (take (unat (nb_rx_desc q)) (rx_sw_ring q))) =
    mset (map ((!) (rx_sw_ring q)) (bulk_entries q))"
proof -
  let ?t = "unat (rx_tail q)" and ?N = "unat (nb_rx_desc q)" and ?s = "bulk_start q" and ?sw = "rx_sw_ring q"
  have ok: "bulk_ok q" and tF: "?t \<le> unat (rx_free_trigger q)" using inv by (simp_all add: bulk_inv_def)
  note d = bulk_okD [OF ok] and c = bulk_configD [OF bulk_okD(1) [OF ok]]
  have tN: "?t \<le> ?N" "?s \<le> ?t" using d(5,6) by simp_all
  have "[0..<?N] = [0..<?s] @ [?s..<?t] @ [?t..<?N]"
    using tN upt_add_eq_append [of 0 ?s "?N - ?s"] upt_add_eq_append [of ?s ?t "?N - ?t"] by simp
  moreover have "take ?N ?sw = map ((!) ?sw) [0..<?N]"
    using c(6) map_nth_slice [of 0 ?N ?sw] by simp
  ultimately have all: "take ?N ?sw = map ((!) ?sw) [0..<?s] @ map ((!) ?sw) [?s..<?t] @ map ((!) ?sw) [?t..<?N]" by simp
  have "filter (\<lambda>m. m \<noteq> 0) (map ((!) ?sw) [?s..<?t]) = []" using d(8) by (auto simp: filter_empty_conv)
  moreover have "filter (\<lambda>m. m \<noteq> 0) (map ((!) ?sw) xs) = map ((!) ?sw) xs" if "set xs \<subseteq> set (bulk_entries q)" for xs
    using that d(12) by (intro filter_True) (force simp: bulk_held_def)
  ultimately show ?thesis unfolding all bulk_entries_def by (simp add: add.commute)
qed

lemma release_bulk:
  assumes inv: "bulk_inv q" and sc: "rx_sw_sc_ring q = replicate k 0" "unat (nb_rx_desc q) \<le> k"
  shows "\<exists>freed q'. ixgbe_rx_queue_release_mbufs q = Inr (freed, q') \<and> mset freed = mset (bulk_held q)"
proof -
  let ?N = "unat (nb_rx_desc q)" and ?sw = "rx_sw_ring q"
  have ok: "bulk_ok q" using inv by (simp add: bulk_inv_def)
  note d = bulk_okD [OF ok] and c = bulk_configD [OF bulk_okD(1) [OF ok]]
  let ?freed = "filter (\<lambda>m. m \<noteq> 0) (take ?N ?sw) @ bulk_staged q"
  have "(if rx_nb_avail q \<noteq> 0 then release_stage q else Inr []) = Inr (bulk_staged q)"
    using d(9) by (auto simp: release_stage_def bulk_staged_def)
  moreover have "take ?N (replicate k (0 :: u64)) = replicate ?N 0" using sc(2) by (simp add: min_def)
  moreover have "?sw \<noteq> []" "k \<noteq> 0" using c(2,6) sc(2) by auto
  ultimately have "\<exists>q'. ixgbe_rx_queue_release_mbufs q = Inr (?freed @ [], q')"
    using c(6) sc unfolding ixgbe_rx_queue_release_mbufs_def Let_def release_rx_entries_eq
    by (simp add: release_sc_empty)
  moreover have "mset ?freed = mset (bulk_held q)" using sw_ring_mbufs [OF inv] by (simp add: bulk_held_def)
  ultimately show ?thesis by auto
qed

section \<open>Properties\<close>

text \<open>Property C23: whatever the mempool answers, a call of the bulk receive function returns, gives at most as many
  packets as asked for, and loses nothing: the packets it returns and then the mbufs the queue holds, in the order in
  which they will come out, are the mbufs the queue held before and then those the mempool gave. A failed allocation
  therefore leaves every packet in place, and the queue stays well-formed: every descriptor of the card is done or has
  the address of the mbuf in its entry.\<close>

theorem bulk_recv_conserves:
  assumes "bulk_inv q" "bulks_ok q bulks"
  shows "\<exists>pkts f used rest q'. ixgbe_recv_pkts_bulk_alloc q nb bulks = Inr (pkts, f, rest, q') \<and>
    bulks = used @ rest \<and> pkts @ bulk_held q' = bulk_held q @ bulk_mbs used \<and> length pkts \<le> unat nb \<and> bulk_inv q'"
  using bulk_alloc_kept [OF assms, of nb] unfolding recv_kept_def by blast

text \<open>Property C25: what one call of the bulk receive function for at most 32 packets returns, in a well-formed queue whose stage is empty
  and when the mempool's next answer is not a failure. The function looks at the descriptors from the tail on, at most 32
  and not beyond the end of the ring, up to the first that is not done (\<open>scan_found\<close> is their number). It returns
  the mbufs of these in order, cut off at the number of packets asked for, and each of the packets found, returned or kept in the stage, has
  the metadata of its descriptor. Finished descriptors behind the end of the ring are left for a later call.\<close>

theorem bulk_recv_ready:
  assumes "bulk_inv q" "rx_nb_avail q = 0" "bulks_ok q bulks" "fst (next_bulk bulks) \<noteq> None" "0 < nb" "unat nb \<le> 32"
  shows "\<exists>rest q'. ixgbe_recv_pkts_bulk_alloc q nb bulks =
      Inr (take (unat nb) (map ((!) (rx_sw_ring q)) [unat (rx_tail q)..<unat (rx_tail q) + scan_found q]), 0, rest, q') \<and>
    (\<forall>i. unat (rx_tail q) \<le> i \<and> i < unat (rx_tail q) + scan_found q \<longrightarrow>
       (\<exists>m m'. mbufs q (rx_sw_ring q ! i) = Some m \<and> rx_fill_mbuf q (rx_ring q ! i) m = Inr m' \<and>
          mbufs q' (rx_sw_ring q ! i) = Some m'))"
  using bulk_recv_found [OF assms] unfolding scan_filled_def .

text \<open>Property C15: a ring that has been reset and filled with mbufs, and is then used by the card and the application
  in any order, gives its mbufs out in the order in which it got them: what the application has received and then
  what the queue holds is what it was filled with and then what the mempool gave.\<close>

theorem bulk_run_fifo:
  assumes "bulk_memory q" "length mbs = unat (nb_rx_desc q)" "distinct mbs" "0 \<notin> set mbs" "\<forall>a\<in>set mbs. mbufs q a \<noteq> None"
    and "ixgbe_reset_rx_queue True q = Inr q1" "ixgbe_alloc_rx_queue_mbufs q1 mbs = Inr (ret, [], q2)"
    and "bulk_run q2 given out q'"
  shows "ret = 0 \<and> out @ bulk_held q' = mbs @ given \<and> bulk_inv q'"
proof (rule bulk_starts [OF assms(1-5), of "[]"])
  fix q1' q2'
  assume s: "ixgbe_reset_rx_queue True q = Inr q1'" "ixgbe_alloc_rx_queue_mbufs q1' (mbs @ []) = Inr (0, [], q2')"
    "bulk_inv q2'" "bulk_held q2' = mbs"
  then have "q2' = q2" "ret = 0" using assms(6,7) by simp_all
  then show ?thesis using bulk_run_keeps [OF assms(8)] s(3,4) by simp
qed

text \<open>Releasing the mbufs of a queue in the middle of its work frees each mbuf it holds, in the ring or in the stage,
  exactly once.\<close>

theorem bulk_release_frees_held:
  assumes "bulk_inv q" "rx_sw_sc_ring q = replicate k 0" "unat (nb_rx_desc q) \<le> k"
  shows "\<exists>freed q'. ixgbe_rx_queue_release_mbufs q = Inr (freed, q') \<and> mset freed = mset (bulk_held q) \<and> distinct freed"
proof -
  obtain freed q' where f: "ixgbe_rx_queue_release_mbufs q = Inr (freed, q')" "mset freed = mset (bulk_held q)"
    using release_bulk [OF assms] by blast
  have "distinct (bulk_held q)" using assms(1) by (simp add: bulk_inv_def bulk_ok_def)
  then have "distinct freed" using f(2) by (metis mset_eq_imp_distinct_iff)
  then show ?thesis using f by blast
qed

section \<open>A concrete queue\<close>

text \<open>64 descriptors that are replaced in blocks of 32, and mbufs at the addresses 1 to 96.\<close>

definition demo_bulk_q :: ixgbe_rx_queue where
  "demo_bulk_q =
     \<lparr>cq_pool = demo_pool, cq_state = 0, mempools = Map.empty,
      mbufs = (\<lambda>a. if 0 < a \<and> a \<le> 96 then Some demo_mbuf else None),
      rx_ring = replicate 96 zeroed_rx_desc, rx_sw_ring = replicate 96 0, rdt_reg = 0, nb_rx_desc = 64, rx_tail = 0, rx_recl = 0,
      port_id = 0, crc_len = 0, pkt_type_mask = 0x7F, vlan_flags = 0, rx_mb_pool = 1, rx_ring_phys_addr = 0,
      rdt_reg_addr = 0, rdh_reg_addr = 0, rx_sw_sc_ring = replicate 96 0, rx_nb_avail = 0, rx_next_avail = 0,
      rx_free_trigger = 0, rx_free_thresh = 32, rx_stage = replicate 64 0, nb_rx_hold = 0, pkt_first_seg = 0,
      pkt_last_seg = 0, rx_queue_id = 0, rx_reg_idx = 0, drop_en = 0, rx_deferred_start = 0, rx_offloads = 0, fake_mbuf = 97\<rparr>"

definition demo_mbs :: "nat \<Rightarrow> nat \<Rightarrow> u64 list" where
  "demo_mbs i j = map of_nat [i..<j]"

lemma unat_demo: "n < 97 \<Longrightarrow> unat (of_nat n :: u64) = n"
  by (simp add: unat_of_nat)

lemma demo_mbs_facts:
  assumes "0 < i" "j \<le> 97" "k \<le> 97"
  shows "length (demo_mbs i j) = j - i" "distinct (demo_mbs i j)" "0 \<notin> set (demo_mbs i j)"
    "\<forall>a\<in>set (demo_mbs i j). mbufs demo_bulk_q a \<noteq> None"
    "set (demo_mbs i j) \<inter> set (demo_mbs j k) = {}"
proof -
  have inj: "inj_on (of_nat :: nat \<Rightarrow> u64) {..<97}" by (rule inj_onI) (metis unat_demo lessThan_iff)
  show "length (demo_mbs i j) = j - i" by (simp add: demo_mbs_def)
  show "distinct (demo_mbs i j)"
    unfolding demo_mbs_def distinct_map using assms by (auto intro!: inj_on_subset [OF inj])
  show "0 \<notin> set (demo_mbs i j)"
  proof
    assume "0 \<in> set (demo_mbs i j)"
    then obtain n where "n \<in> {i..<j}" "(of_nat n :: u64) = 0" by (force simp: demo_mbs_def)
    then show False using unat_demo [of n] assms by simp
  qed
  show "\<forall>a\<in>set (demo_mbs i j). mbufs demo_bulk_q a \<noteq> None"
  proof
    fix a assume "a \<in> set (demo_mbs i j)"
    then obtain n where "n \<in> {i..<j}" "a = of_nat n" by (auto simp: demo_mbs_def)
    then have "0 < a \<and> a \<le> 96" using unat_demo [of n] assms by (simp add: word_less_nat_alt word_le_nat_alt)
    then show "mbufs demo_bulk_q a \<noteq> None" by (simp add: demo_bulk_q_def)
  qed
  show "set (demo_mbs i j) \<inter> set (demo_mbs j k) = {}"
  proof (rule ccontr)
    assume "\<not> ?thesis"
    then obtain m n where "m \<in> {i..<j}" "n \<in> {j..<k}" "(of_nat m :: u64) = of_nat n" by (force simp: demo_mbs_def)
    then show False using unat_demo [of m] unat_demo [of n] assms by simp
  qed
qed

lemma demo_bulk_memory: "bulk_memory demo_bulk_q"
proof -
  have "(64 :: u16) mod 32 = 0" by simp
  then show ?thesis
    by (simp add: bulk_memory_def demo_bulk_q_def check_rx_burst_bulk_alloc_preconditions_def
        RTE_PMD_IXGBE_RX_MAX_BURST_def IXGBE_MAX_RING_DESC_def)
qed

text \<open>The queue, filled with the first 64 mbufs, and with the first packet received by the card.\<close>

definition demo_bulk_filled :: "ixgbe_rx_queue cres" where
  "demo_bulk_filled =
     bindc (ixgbe_reset_rx_queue True demo_bulk_q) (\<lambda>q1.
     bindc (ixgbe_alloc_rx_queue_mbufs q1 (demo_mbs 1 65)) (\<lambda>(_, _, q2). Inr q2))"

definition demo_packet :: ixgbe_adv_rx_desc where
  "demo_packet = \<lparr>pkt_addr = 0x210, hdr_addr = 0x4000000003\<rparr>"

lemma demo_packet_done [simp]: "desc_done demo_packet"
  by (simp add: desc_done_def demo_packet_def wb_status_error_def IXGBE_RXDADV_STAT_DD_def)

lemma demo_bulk_start:
  obtains q1 q2 where "ixgbe_reset_rx_queue True demo_bulk_q = Inr q1"
    "ixgbe_alloc_rx_queue_mbufs q1 (demo_mbs 1 65) = Inr (0, [], q2)" "demo_bulk_filled = Inr q2"
    "bulk_inv q2" "bulk_held q2 = demo_mbs 1 65" "bulks_ok q2 [Some (demo_mbs 65 97)]" "rx_nb_avail q2 = 0" "rx_tail q2 = 0"
    "nb_rx_desc q2 = 64" "\<not> desc_done (rx_ring q2 ! 1)" "bulk_entries q2 = [0..<64]" "rx_sw_sc_ring q2 = replicate 96 0"
proof -
  have u: "unat (nb_rx_desc demo_bulk_q) = 64" by (simp add: demo_bulk_q_def)
  note f = demo_mbs_facts [of 1 65 97] and g = demo_mbs_facts [of 65 97 97]
  have len: "length (demo_mbs 1 65) = unat (nb_rx_desc demo_bulk_q)" using f(1) u by simp
  show thesis
  proof (rule bulk_starts [OF demo_bulk_memory len, of "[]"])
    show "distinct (demo_mbs 1 65)" "0 \<notin> set (demo_mbs 1 65)" "\<forall>a\<in>set (demo_mbs 1 65). mbufs demo_bulk_q a \<noteq> None"
      using f(2-4) by simp_all
    fix q1 q2
    assume s: "ixgbe_reset_rx_queue True demo_bulk_q = Inr q1"
      "ixgbe_alloc_rx_queue_mbufs q1 (demo_mbs 1 65 @ []) = Inr (0, [], q2)" "bulk_inv q2" "bulk_held q2 = demo_mbs 1 65"
      "\<And>a. a \<notin> set (demo_mbs 1 65) \<Longrightarrow> mbufs q2 a = mbufs demo_bulk_q a"
      "\<And>i. i < unat (nb_rx_desc demo_bulk_q) \<Longrightarrow> \<not> desc_done (rx_ring q2 ! i)"
      "nb_rx_desc q2 = nb_rx_desc demo_bulk_q" "rx_free_thresh q2 = rx_free_thresh demo_bulk_q" "rx_tail q2 = 0"
      "rx_nb_avail q2 = 0" "rx_sw_sc_ring q2 = rx_sw_sc_ring demo_bulk_q"
    have n: "nb_rx_desc q2 = 64" "unat (rx_free_thresh q2) = 32" using s(7,8) by (simp_all add: demo_bulk_q_def)
    have "mbufs q2 a \<noteq> None" if "a \<in> set (demo_mbs 65 97)" for a
    proof -
      have "a \<notin> set (demo_mbs 1 65)" using f(5) that by auto
      then show ?thesis using s(5) g(4) that by simp
    qed
    then have "bulks_ok q2 [Some (demo_mbs 65 97)]"
      using f(2,5) g(1-3) s(4) n(2) by (simp add: bulks_ok_def)
    moreover have "length (bulk_staged q2) = 0" using s(10) by (simp add: bulk_staged_def)
    then have "length (bulk_entries q2) = 64" using s(4) f(1) by (auto simp: bulk_held_def dest: arg_cong [of _ _ length])
    then have "bulk_entries q2 = [0..<64]" using n(1) s(9) by (simp add: bulk_entries_def)
    ultimately show thesis
      by (intro that [of q1 q2]) (use s n f in \<open>simp_all add: demo_bulk_filled_def demo_bulk_q_def\<close>)
  qed
qed

text \<open>The packets found when the first descriptors are done and the next is not.\<close>

lemma done_run_eq:
  assumes "\<And>j. j < n \<Longrightarrow> desc_done (rx_ring q ! (pos + j))" "\<not> desc_done (rx_ring q ! (pos + n))" "pos + n < length (rx_ring q)"
  shows "done_run q pos = n"
proof -
  have "pos + done_run q pos \<le> pos + n" by (rule done_run_stop [OF assms(2)]) simp
  moreover have "\<not> done_run q pos < n"
  proof
    assume lt: "done_run q pos < n"
    then have "\<not> desc_done (drop pos (rx_ring q) ! done_run q pos)"
      using assms(3) unfolding done_run_def by (intro nth_length_takeWhile) simp
    then show False using assms(1) [OF lt] assms(3) by simp
  qed
  ultimately show ?thesis by simp
qed

text \<open>The filled queue after the card has received one packet.\<close>

lemma demo_bulk_packet:
  obtains q1 q2 q3 where "ixgbe_reset_rx_queue True demo_bulk_q = Inr q1"
    "ixgbe_alloc_rx_queue_mbufs q1 (demo_mbs 1 65) = Inr (0, [], q2)" "demo_bulk_filled = Inr q2"
    "q3 = q2\<lparr>rx_ring := (rx_ring q2)[0 := demo_packet]\<rparr>" "0 \<in> set (bulk_entries q2)"
    "bulk_inv q3" "bulk_held q3 = demo_mbs 1 65" "bulks_ok q3 [Some (demo_mbs 65 97)]" "rx_nb_avail q3 = 0" "rx_tail q3 = 0"
    "scan_found q3 = 1" "rx_sw_ring q3 ! 0 = 1" "rx_sw_sc_ring q3 = replicate 96 0" "nb_rx_desc q3 = 64"
proof (rule demo_bulk_start)
  fix q1 q2
  assume s: "ixgbe_reset_rx_queue True demo_bulk_q = Inr q1"
    "ixgbe_alloc_rx_queue_mbufs q1 (demo_mbs 1 65) = Inr (0, [], q2)" "demo_bulk_filled = Inr q2"
    "bulk_inv q2" "bulk_held q2 = demo_mbs 1 65" "bulks_ok q2 [Some (demo_mbs 65 97)]" "rx_nb_avail q2 = 0" "rx_tail q2 = 0"
    "nb_rx_desc q2 = 64" "\<not> desc_done (rx_ring q2 ! 1)" "bulk_entries q2 = [0..<64]" "rx_sw_sc_ring q2 = replicate 96 0"
  let ?q3 = "q2\<lparr>rx_ring := (rx_ring q2)[0 := demo_packet]\<rparr>"
  have e: "0 \<in> set (bulk_entries q2)" using s(11) by simp
  note w = card_writes_back [OF s(4) e demo_packet_done]
  have "bulk_config q2" using s(4) by (simp add: bulk_inv_def bulk_ok_def)
  then have len: "96 \<le> length (rx_ring q2)" using bulk_configD(5) s(9) by fastforce
  then have "0 < length (rx_ring q2)" by linarith
  then have "(rx_ring q2)[0 := demo_packet] ! 0 = demo_packet" by (rule nth_list_update_eq)
  then have "done_run ?q3 0 = 1" using len s(10) by (intro done_run_eq) auto
  then have found: "scan_found ?q3 = 1" using s(8) by (simp add: scan_found_def)
  have "bulk_staged q2 = []" using s(7) by (simp add: bulk_staged_def)
  then have "map ((!) (rx_sw_ring q2)) [0..<64] = demo_mbs 1 65" using s(5,11) by (simp add: bulk_held_def)
  then have "map ((!) (rx_sw_ring q2)) [0..<64] ! 0 = demo_mbs 1 65 ! 0" by simp
  then have "rx_sw_ring q2 ! 0 = 1" by (simp add: demo_mbs_def del: upt_Suc)
  moreover have "bulks_ok ?q3 [Some (demo_mbs 65 97)]" using s(6) w(2) by (simp add: bulks_ok_def)
  ultimately show thesis using s e w found by (intro that [of q1 q2 ?q3]) simp_all
qed

theorem bulk_recv_conserves_witness:
  "\<exists>q. demo_bulk_filled = Inr q \<and>
     (\<exists>pkts f used rest q'. ixgbe_recv_pkts_bulk_alloc (q\<lparr>rx_ring := (rx_ring q)[0 := demo_packet]\<rparr>) 40 [Some (demo_mbs 65 97)] =
         Inr (pkts, f, rest, q') \<and>
       [Some (demo_mbs 65 97)] = used @ rest \<and> pkts @ bulk_held q' = demo_mbs 1 65 @ bulk_mbs used \<and> length pkts \<le> 40 \<and>
       bulk_inv q')"
proof (rule demo_bulk_packet)
  fix q1 q2 q3
  assume "demo_bulk_filled = Inr q2" "q3 = q2\<lparr>rx_ring := (rx_ring q2)[0 := demo_packet]\<rparr>"
    "bulk_inv q3" "bulk_held q3 = demo_mbs 1 65" "bulks_ok q3 [Some (demo_mbs 65 97)]"
  then show ?thesis using bulk_recv_conserves [of q3 "[Some (demo_mbs 65 97)]" 40] by (intro exI [of _ q2]) simp
qed

theorem bulk_recv_ready_witness:
  "\<exists>q. demo_bulk_filled = Inr q \<and>
     (\<exists>rest q' m m'. ixgbe_recv_pkts_bulk_alloc (q\<lparr>rx_ring := (rx_ring q)[0 := demo_packet]\<rparr>) 32 [Some (demo_mbs 65 97)] =
         Inr ([1], 0, rest, q') \<and> mbufs q 1 = Some m \<and>
       rx_fill_mbuf (q\<lparr>rx_ring := (rx_ring q)[0 := demo_packet]\<rparr>) demo_packet m = Inr m' \<and> mbufs q' 1 = Some m')"
proof (rule demo_bulk_packet)
  fix q1 q2 q3
  assume s: "demo_bulk_filled = Inr q2" "q3 = q2\<lparr>rx_ring := (rx_ring q2)[0 := demo_packet]\<rparr>"
    "bulk_inv q3" "bulks_ok q3 [Some (demo_mbs 65 97)]" "rx_nb_avail q3 = 0" "rx_tail q3 = 0" "scan_found q3 = 1"
    "rx_sw_ring q3 ! 0 = 1" "nb_rx_desc q3 = 64"
  have "bulk_config q3" using s(3) by (simp add: bulk_inv_def bulk_ok_def)
  then have "96 \<le> length (rx_ring q3)" using bulk_configD(5) s(9) by fastforce
  then have "96 \<le> length (rx_ring q2)" using s(2) by simp
  then have "0 < length (rx_ring q2)" by linarith
  then have d: "rx_ring q3 ! 0 = demo_packet" using s(2) nth_list_update_eq [of 0 "rx_ring q2" demo_packet] by simp
  have "\<exists>rest q'. ixgbe_recv_pkts_bulk_alloc q3 32 [Some (demo_mbs 65 97)] = Inr ([1], 0, rest, q') \<and>
      (\<exists>m m'. mbufs q3 1 = Some m \<and> rx_fill_mbuf q3 demo_packet m = Inr m' \<and> mbufs q' 1 = Some m')"
    using bulk_recv_ready [of q3 "[Some (demo_mbs 65 97)]" 32] s(3-8) d by (fastforce simp: next_bulk_def)
  then show ?thesis using s(1,2) by fastforce
qed

theorem bulk_run_fifo_witness:
  "\<exists>q2 q' rest f pkts. demo_bulk_filled = Inr q2 \<and>
     ixgbe_recv_pkts_bulk_alloc (q2\<lparr>rx_ring := (rx_ring q2)[0 := demo_packet]\<rparr>) 32 [Some (demo_mbs 65 97)] = Inr (pkts, f, rest, q') \<and>
     (\<exists>used. pkts @ bulk_held q' = demo_mbs 1 65 @ bulk_mbs used) \<and> bulk_inv q'"
proof (rule demo_bulk_packet)
  fix q1 q2 q3
  assume s: "ixgbe_reset_rx_queue True demo_bulk_q = Inr q1"
    "ixgbe_alloc_rx_queue_mbufs q1 (demo_mbs 1 65) = Inr (0, [], q2)" "demo_bulk_filled = Inr q2"
    "q3 = q2\<lparr>rx_ring := (rx_ring q2)[0 := demo_packet]\<rparr>" "0 \<in> set (bulk_entries q2)"
    "bulk_inv q3" "bulks_ok q3 [Some (demo_mbs 65 97)]"
  obtain pkts f rest q' where r: "ixgbe_recv_pkts_bulk_alloc q3 32 [Some (demo_mbs 65 97)] = Inr (pkts, f, rest, q')"
    "recv_kept q3 [Some (demo_mbs 65 97)] pkts rest q'"
    using bulk_alloc_kept [OF s(6,7)] by blast
  then obtain used where u: "[Some (demo_mbs 65 97)] = used @ rest" by (auto simp: recv_kept_def)
  have "bulk_run q2 ([] @ bulk_mbs used) ([] @ pkts) q'"
    by (rule run_recv [where rest = rest and nb = 32 and f = f, OF run_card [OF run_start s(5) demo_packet_done]])
      (use s(4,7) r(1) u in simp_all)
  then have "bulk_run q2 (bulk_mbs used) pkts q'" by simp
  from bulk_run_fifo [OF demo_bulk_memory _ _ _ _ s(1,2) this] demo_mbs_facts [of 1 65 97]
  have "pkts @ bulk_held q' = demo_mbs 1 65 @ bulk_mbs used \<and> bulk_inv q'" by (simp add: demo_bulk_q_def)
  then show ?thesis using s(3,4) r(1) by blast
qed

end
