(* ===== verification/Ixgbe_Single_Rx.thy ===== *)
theory Ixgbe_Single_Rx
  imports Ixgbe_Bulk_Rx
begin

text \<open>
  \<open>ixgbe_recv_pkts\<close> of \<open>drivers/net/ixgbe/ixgbe_rxtx.c\<close>, the receive function that replaces each mbuf as it takes it,
  and the functions that report on the descriptors of a queue. \<open>rte_mbuf_raw_alloc\<close> belongs to \<open>librte_mbuf\<close>: what it
  returns from call to call is an argument.

  Contents: the operations; that the function hands packets out in order, that the ring stays full, also when an
  allocation fails, and that the card never gets the whole ring; how exact the reports are, and what they say of a
  queue that is run by the CleanQ functions.
\<close>

section \<open>Receiving\<close>

text \<open>The function that replaces one mbuf at a time. \<open>allocs\<close> is what \<open>rte_mbuf_raw_alloc\<close> returns, NULL once it is
  used up. The loop: the packets, \<open>nb_hold\<close>, whether an allocation failed, the mbufs not used, \<open>rx_id\<close> and the queue.\<close>

fun recv_each ::
  "nat \<Rightarrow> ixgbe_rx_queue \<Rightarrow> u16 \<Rightarrow> u16 \<Rightarrow> u64 list \<Rightarrow> (u64 list \<times> u16 \<times> bool \<times> u64 list \<times> u16 \<times> ixgbe_rx_queue) cres" where
  "recv_each 0 rxq rx_id nb_hold allocs = Inr ([], nb_hold, False, allocs, rx_id, rxq)"
| "recv_each (Suc n) rxq rx_id nb_hold allocs =
     bindc (arr_get (rx_ring rxq) (unat rx_id)) (\<lambda>rxd.
     if \<not> desc_done rxd then Inr ([], nb_hold, False, allocs, rx_id, rxq)
     else case allocs of
       [] \<Rightarrow> Inr ([], nb_hold, True, [], rx_id, rxq)
     | nmb # allocs' \<Rightarrow>
         if nmb = 0 then Inr ([], nb_hold, True, allocs', rx_id, rxq)
         else
         bindc (arr_get (rx_sw_ring rxq) (unat rx_id)) (\<lambda>rxm.
         bindc (arr_set (rx_sw_ring rxq) (unat rx_id) nmb) (\<lambda>sw.
         bindc (deref (mbufs rxq) nmb) (\<lambda>nm.
         bindc (arr_set (rx_ring rxq) (unat rx_id) (rx_read_desc nm)) (\<lambda>ring.
         bindc (deref (mbufs rxq) rxm) (\<lambda>m.
         let m1 = m\<lparr>data_off := RTE_PKTMBUF_HEADROOM, nb_segs := 1, mb_next := 0, mb_port := port_id rxq\<rparr> in
         bindc (rx_fill_mbuf rxq rxd m1) (\<lambda>m2.
         let rx_id' = (if rx_id + 1 = nb_rx_desc rxq then 0 else rx_id + 1);
             rxq1 = rxq\<lparr>rx_sw_ring := sw, rx_ring := ring, mbufs := (mbufs rxq)(rxm \<mapsto> m2)\<rparr> in
         bindc (recv_each n rxq1 rx_id' (nb_hold + 1) allocs') (\<lambda>(pkts, r). Inr (rxm # pkts, r)))))))))"

definition ixgbe_recv_pkts ::
  "ixgbe_rx_queue \<Rightarrow> u16 \<Rightarrow> u64 list \<Rightarrow> (u64 list \<times> bool \<times> u64 list \<times> ixgbe_rx_queue) cres" where
  "ixgbe_recv_pkts rxq nb_pkts allocs =
     bindc (recv_each (unat nb_pkts) rxq (rx_tail rxq) 0 allocs) (\<lambda>(pkts, held, failed, allocs', rx_id, rxq1).
     let nb_hold = held + nb_rx_hold rxq1;
         rxq2 = rxq1\<lparr>rx_tail := rx_id\<rparr> in
     Inr (pkts, failed, allocs',
          if nb_hold > rx_free_thresh rxq2
          then rxq2\<lparr>rdt_reg := ucast (if rx_id = 0 then nb_rx_desc rxq2 - 1 else rx_id - 1), nb_rx_hold := 0\<rparr>
          else rxq2\<lparr>nb_rx_hold := nb_hold\<rparr>))"

section \<open>Reports on descriptors\<close>

definition IXGBE_RXQ_SCAN_INTERVAL :: nat where "IXGBE_RXQ_SCAN_INTERVAL = 4"
definition RTE_ETH_RX_DESC_AVAIL :: int where "RTE_ETH_RX_DESC_AVAIL = 0"
definition RTE_ETH_RX_DESC_DONE :: int where "RTE_ETH_RX_DESC_DONE = 1"
definition RTE_ETH_RX_DESC_UNAVAIL :: int where "RTE_ETH_RX_DESC_UNAVAIL = 2"
definition RTE_ETH_TX_DESC_FULL :: int where "RTE_ETH_TX_DESC_FULL = 0"
definition RTE_ETH_TX_DESC_DONE :: int where "RTE_ETH_TX_DESC_DONE = 1"

text \<open>The loop, with \<open>at\<close> the index of the descriptor \<open>rxdp\<close> points to. It looks at a descriptor only while \<open>desc\<close> is
  below the size of the ring and adds four each time.\<close>

function count_loop :: "ixgbe_rx_queue \<Rightarrow> nat \<Rightarrow> nat \<Rightarrow> nat cres" where
  "count_loop rxq desc at =
     (if desc < unat (nb_rx_desc rxq)
      then bindc (arr_get (rx_ring rxq) at) (\<lambda>d.
           if \<not> desc_done d then Inr desc
           else let desc' = desc + IXGBE_RXQ_SCAN_INTERVAL;
                    at' = at + IXGBE_RXQ_SCAN_INTERVAL in
                count_loop rxq desc'
                  (if unat (rx_tail rxq) + desc' \<ge> unat (nb_rx_desc rxq)
                   then unat (rx_tail rxq) + desc' - unat (nb_rx_desc rxq) else at'))
      else Inr desc)"
  by pat_completeness auto

termination count_loop
  by (relation "measure (\<lambda>(rxq, desc, at). unat (nb_rx_desc rxq) - desc)") (auto simp: IXGBE_RXQ_SCAN_INTERVAL_def)

declare count_loop.simps [simp del]

definition ixgbe_dev_rx_queue_count :: "ixgbe_port \<Rightarrow> u16 \<Rightarrow> nat cres" where
  "ixgbe_dev_rx_queue_count dev qid =
     bindc (queue_at (port_rx_queues dev) (unat qid)) (\<lambda>rxq. count_loop rxq 0 (unat (rx_tail rxq)))"

text \<open>The descriptor \<open>offset\<close> places after the tail.\<close>

definition rx_desc_at :: "ixgbe_rx_queue \<Rightarrow> u16 \<Rightarrow> ixgbe_adv_rx_desc cres" where
  "rx_desc_at rxq offset =
     (let desc = unat (rx_tail rxq) + unat offset in
      arr_get (rx_ring rxq) (if desc \<ge> unat (nb_rx_desc rxq) then desc - unat (nb_rx_desc rxq) else desc))"

definition ixgbe_dev_rx_descriptor_done :: "ixgbe_rx_queue \<Rightarrow> u16 \<Rightarrow> bool cres" where
  "ixgbe_dev_rx_descriptor_done rxq offset =
     (if offset \<ge> nb_rx_desc rxq then Inr False
      else bindc (rx_desc_at rxq offset) (\<lambda>d. Inr (desc_done d)))"

text \<open>The difference is taken in 32 bits without sign.\<close>

definition ixgbe_dev_rx_descriptor_status :: "ixgbe_rx_queue \<Rightarrow> u16 \<Rightarrow> int cres" where
  "ixgbe_dev_rx_descriptor_status rxq offset =
     (if offset \<ge> nb_rx_desc rxq then Inr (- EINVAL)
      else if (ucast offset :: u32) \<ge> ucast (nb_rx_desc rxq) - ucast (nb_rx_hold rxq) then Inr RTE_ETH_RX_DESC_UNAVAIL
      else bindc (rx_desc_at rxq offset) (\<lambda>d.
           Inr (if desc_done d then RTE_ETH_RX_DESC_DONE else RTE_ETH_RX_DESC_AVAIL)))"

text \<open>The index of the next descriptor that is taken to have the report bit.\<close>

definition tx_status_index :: "ixgbe_tx_queue \<Rightarrow> u16 \<Rightarrow> nat" where
  "tx_status_index txq offset =
     (let rs = unat (tx_rs_thresh txq); nb = unat (nb_tx_desc txq);
          desc = (unat (tx_tail txq) + unat offset + rs - 1) div rs * rs in
      if desc \<ge> nb then if desc - nb \<ge> nb then desc - nb - nb else desc - nb else desc)"

definition ixgbe_dev_tx_descriptor_status :: "ixgbe_tx_queue \<Rightarrow> u16 \<Rightarrow> int cres" where
  "ixgbe_dev_tx_descriptor_status txq offset =
     (if offset \<ge> nb_tx_desc txq then Inr (- EINVAL)
      else if tx_rs_thresh txq = 0 then Inl Div_By_Zero
      else bindc (arr_get (tx_ring txq) (tx_status_index txq offset)) (\<lambda>d.
           Inr (if wb_status d AND IXGBE_ADVTXD_STAT_DD \<noteq> 0 then RTE_ETH_TX_DESC_DONE else RTE_ETH_TX_DESC_FULL)))"

section \<open>The ring of mbufs\<close>

text \<open>The mbufs of the ring from a position on, in the order in which the card uses them.\<close>

definition single_ring :: "ixgbe_rx_queue \<Rightarrow> u16 \<Rightarrow> u64 list" where
  "single_ring q i = rotate (unat i) (take (unat (nb_rx_desc q)) (rx_sw_ring q))"

definition single_entry_ok :: "ixgbe_rx_queue \<Rightarrow> nat \<Rightarrow> bool" where
  "single_entry_ok q i \<longleftrightarrow> (\<exists>m. mbufs q (rx_sw_ring q ! i) = Some m \<and>
     (desc_done (rx_ring q ! i) \<or> rx_ring q ! i = rx_read_desc m))"

text \<open>Well-formed at position \<open>i\<close>: every descriptor has an mbuf, all different, and is done or has its address.\<close>

definition single_ok :: "ixgbe_rx_queue \<Rightarrow> u16 \<Rightarrow> bool" where
  "single_ok q i \<longleftrightarrow>
     unat i < unat (nb_rx_desc q) \<and> unat (nb_rx_desc q) \<le> IXGBE_MAX_RING_DESC \<and>
     unat (nb_rx_desc q) \<le> length (rx_ring q) \<and> unat (nb_rx_desc q) \<le> length (rx_sw_ring q) \<and>
     distinct (single_ring q i) \<and> (\<forall>j < unat (nb_rx_desc q). single_entry_ok q j)"

text \<open>What \<open>rte_mbuf_raw_alloc\<close> promises: mbufs that are in nobody else's hands, none of them twice.\<close>

definition allocs_ok :: "ixgbe_rx_queue \<Rightarrow> u16 \<Rightarrow> u64 list \<Rightarrow> bool" where
  "allocs_ok q i allocs \<longleftrightarrow> distinct (single_ring q i @ allocs) \<and> 0 \<notin> set allocs \<and> (\<forall>a\<in>set allocs. mbufs q a \<noteq> None)"

lemma rotate_replace:
  assumes "i < length buf"
  shows "rotate i buf = buf ! i # tl (rotate i buf)"
    "rotate ((i + 1) mod length buf) (buf[i := b]) = tl (rotate i buf) @ [b]"
proof -
  have ne: "0 < length buf" using assms by linarith
  then have hd: "rotate i buf ! 0 = buf ! i" using assms by (simp add: nth_rotate)
  have "rotate i buf \<noteq> []" using ne by simp
  then obtain x xs where xs: "rotate i buf = x # xs" by (cases "rotate i buf") auto
  then show "rotate i buf = buf ! i # tl (rotate i buf)" using hd by simp
  have "rotate i (buf[i := b]) = b # xs" using rotate_update [OF ne, of i b] assms xs by simp
  moreover have "rotate ((i + 1) mod length buf) (buf[i := b]) = rotate1 (rotate i (buf[i := b]))"
    using rotate_next [of i "buf[i := b]"] by simp
  ultimately show "rotate ((i + 1) mod length buf) (buf[i := b]) = tl (rotate i buf) @ [b]" using xs by simp
qed

lemma ring_step:
  fixes i n :: u16
  assumes "unat i < unat n"
  shows "unat (if i + 1 = n then 0 else i + 1) = (unat i + 1) mod unat n"
proof -
  have "unat i + 1 < 2 ^ LENGTH(16)" using assms unat_u16_bound [of n] by simp
  then have s: "unat (i + 1) = unat i + 1" using unat_add_lem [of i 1] by simp
  show ?thesis
  proof (cases "i + 1 = n")
    case True
    then have "unat n = unat i + 1" using s by simp
    then show ?thesis using True by simp
  next
    case False
    then have "unat i + 1 \<noteq> unat n" using s by (metis word_unat_eq_iff)
    then show ?thesis using False s assms by simp
  qed
qed

text \<open>The queue after a packet has been taken at \<open>i\<close> and replaced by \<open>a\<close>.\<close>

definition taken :: "ixgbe_rx_queue \<Rightarrow> u16 \<Rightarrow> u64 \<Rightarrow> rte_mbuf \<Rightarrow> rte_mbuf \<Rightarrow> ixgbe_rx_queue" where
  "taken q i a nm m =
     q\<lparr>rx_sw_ring := (rx_sw_ring q)[unat i := a], rx_ring := (rx_ring q)[unat i := rx_read_desc nm],
       mbufs := (mbufs q)(rx_sw_ring q ! unat i \<mapsto> m)\<rparr>"

lemma taken_ok:
  assumes ok: "single_ok q i" and al: "allocs_ok q i (a # as)"
    and nm: "mbufs q a = Some nm" and i': "i' = (if i + 1 = nb_rx_desc q then 0 else i + 1)"
  shows "single_ok (taken q i a nm m) i'" "allocs_ok (taken q i a nm m) i' as"
    "single_ring q i @ [a] = rx_sw_ring q ! unat i # single_ring (taken q i a nm m) i'"
    "unat i' = (unat i + 1) mod unat (nb_rx_desc q)"
proof -
  let ?N = "unat (nb_rx_desc q)" and ?q = "taken q i a nm m" and ?buf = "take (unat (nb_rx_desc q)) (rx_sw_ring q)"
  let ?x = "rx_sw_ring q ! unat i"
  have N: "unat i < ?N" "?N \<le> length (rx_ring q)" "?N \<le> length (rx_sw_ring q)" "?N \<le> IXGBE_MAX_RING_DESC"
    using ok by (simp_all add: single_ok_def)
  have len: "length ?buf = ?N" "?buf ! unat i = ?x" using N(1,3) by simp_all
  show ii: "unat i' = (unat i + 1) mod ?N" unfolding i' by (rule ring_step [OF N(1)])
  have sw: "take ?N (rx_sw_ring ?q) = ?buf[unat i := a]" by (simp add: taken_def take_update_swap)
  have nb: "nb_rx_desc ?q = nb_rx_desc q" by (simp add: taken_def)
  have lt: "unat i < length ?buf" using N(1) len(1) by simp
  have r: "single_ring q i = ?x # tl (single_ring q i)" "single_ring ?q i' = tl (single_ring q i) @ [a]"
    unfolding single_ring_def nb sw ii
    using rotate_replace(1) [OF lt] rotate_replace(2) [OF lt, of a] unfolding len by simp_all
  then show keep: "single_ring q i @ [a] = ?x # single_ring ?q i'" by (metis append_Cons)
  have dist: "distinct ((single_ring q i @ [a]) @ as)" using al by (simp add: allocs_ok_def)
  then have d2: "distinct (single_ring ?q i' @ as)" "?x \<notin> set as" "?x \<notin> set (single_ring ?q i')" unfolding keep by simp_all
  then have xa: "?x \<noteq> a" unfolding r(2) by auto
  have "single_entry_ok ?q j" if j: "j < ?N" for j
  proof (cases "j = unat i")
    case True
    then show ?thesis using j N nm xa by (simp add: single_entry_ok_def taken_def)
  next
    case False
    have "distinct ?buf" using ok by (simp add: single_ok_def single_ring_def)
    moreover have "j < length ?buf" using j len(1) by simp
    ultimately have "?buf ! j \<noteq> ?buf ! unat i" using nth_eq_iff_index_eq lt False by blast
    then have "rx_sw_ring q ! j \<noteq> ?x" using j N(1) by simp
    then show ?thesis using ok j False by (simp add: single_ok_def single_entry_ok_def taken_def)
  qed
  moreover have "unat i' < ?N" unfolding ii using N(1) by (intro mod_less_divisor) linarith
  ultimately show "single_ok ?q i'" using N d2(1) by (simp add: single_ok_def nb) (simp add: taken_def)
  show "allocs_ok ?q i' as" using al d2 by (auto simp: allocs_ok_def taken_def)
qed

section \<open>One call\<close>

text \<open>The metadata of a packet received with descriptor \<open>d\<close>.\<close>

definition single_filled :: "ixgbe_rx_queue \<Rightarrow> ixgbe_adv_rx_desc \<Rightarrow> rte_mbuf \<Rightarrow> bool" where
  "single_filled q d m' \<longleftrightarrow> desc_done d \<and>
     (\<exists>m. rx_fill_mbuf q d (m\<lparr>data_off := RTE_PKTMBUF_HEADROOM, nb_segs := 1, mb_next := 0, mb_port := port_id q\<rparr>) = Inr m')"

text \<open>What the loop leaves when it starts at \<open>i\<close> and stops at \<open>i'\<close>.\<close>

definition each_outcome ::
  "ixgbe_rx_queue \<Rightarrow> u16 \<Rightarrow> nat \<Rightarrow> u64 list \<Rightarrow> u64 list \<Rightarrow> bool \<Rightarrow> u64 list \<Rightarrow> u16 \<Rightarrow> ixgbe_rx_queue \<Rightarrow> bool" where
  "each_outcome q i n allocs pkts failed rest i' q' \<longleftrightarrow>
     (\<exists>used. allocs = used @ rest \<and> length used = length pkts \<and> pkts @ single_ring q' i' = single_ring q i @ used) \<and>
     single_ok q' i' \<and> allocs_ok q' i' rest \<and> length pkts \<le> n \<and>
     unat i' = (unat i + length pkts) mod unat (nb_rx_desc q) \<and>
     (\<exists>sw ring mem. q' = q\<lparr>rx_sw_ring := sw, rx_ring := ring, mbufs := mem\<rparr>) \<and>
     (length pkts = n \<or> \<not> desc_done (rx_ring q' ! unat i') \<or> failed) \<and>
     (failed \<longrightarrow> rest = [] \<and> desc_done (rx_ring q' ! unat i') \<and> length pkts < n) \<and>
     (\<forall>a. a \<notin> set (single_ring q i @ allocs) \<longrightarrow> mbufs q' a = mbufs q a) \<and>
     (\<forall>j. (\<forall>l < length pkts. j \<noteq> (unat i + l) mod unat (nb_rx_desc q)) \<longrightarrow> rx_ring q' ! j = rx_ring q ! j) \<and>
     (n \<le> unat (nb_rx_desc q) \<longrightarrow>
        (\<forall>j < length pkts. \<exists>m'. mbufs q' (pkts ! j) = Some m' \<and>
           single_filled q (rx_ring q ! ((unat i + j) mod unat (nb_rx_desc q))) m'))"

lemma each_outcome_filled:
  assumes "each_outcome q i n allocs pkts failed rest i' q'" "n \<le> unat (nb_rx_desc q)" "j < length pkts"
  shows "\<exists>m'. mbufs q' (pkts ! j) = Some m' \<and> single_filled q (rx_ring q ! ((unat i + j) mod unat (nb_rx_desc q))) m'"
  using assms unfolding each_outcome_def by blast

lemma each_outcome_nothing:
  assumes "single_ok q i" "allocs_ok q i allocs" "n = 0 \<or> \<not> desc_done (rx_ring q ! unat i) \<or> failed"
    "failed \<longrightarrow> allocs = [] \<and> desc_done (rx_ring q ! unat i) \<and> n \<noteq> 0"
  shows "each_outcome q i n allocs [] failed allocs i q"
proof -
  have "unat i < unat (nb_rx_desc q)" using assms(1) by (simp add: single_ok_def)
  moreover have "\<exists>sw ring mem. q = q\<lparr>rx_sw_ring := sw, rx_ring := ring, mbufs := mem\<rparr>"
    by (intro exI [of _ "rx_sw_ring q"] exI [of _ "rx_ring q"] exI [of _ "mbufs q"]) simp
  ultimately show ?thesis using assms by (auto simp: each_outcome_def)
qed

lemma each_outcome_step:
  assumes ok: "single_ok q i" and al: "allocs_ok q i (a # as)" and d: "desc_done (rx_ring q ! unat i)"
    and nm: "mbufs q a = Some nm" and i': "i' = (if i + 1 = nb_rx_desc q then 0 else i + 1)"
    and m: "single_filled q (rx_ring q ! unat i) m"
    and rec: "each_outcome (taken q i a nm m) i' n as pkts failed rest i'' q'"
  shows "each_outcome q i (Suc n) (a # as) (rx_sw_ring q ! unat i # pkts) failed rest i'' q'"
proof -
  let ?N = "unat (nb_rx_desc q)" and ?q = "taken q i a nm m" and ?x = "rx_sw_ring q ! unat i"
  note t = taken_ok(1-3) [OF ok al nm i', of m] taken_ok(4) [OF ok al nm i']
  have N: "unat i < ?N" "?N \<le> length (rx_ring q)" using ok by (simp_all add: single_ok_def)
  have nb: "nb_rx_desc ?q = nb_rx_desc q" by (simp add: taken_def)
  obtain used where u: "as = used @ rest" "length used = length pkts" "pkts @ single_ring q' i'' = single_ring ?q i' @ used"
    using rec by (auto simp: each_outcome_def)
  have "(?x # pkts) @ single_ring q' i'' = (?x # single_ring ?q i') @ used" using u(3) by simp
  also have "\<dots> = single_ring q i @ a # used" unfolding t(3) [symmetric] by simp
  finally have keep: "\<exists>used. a # as = used @ rest \<and> length used = length (?x # pkts) \<and>
      (?x # pkts) @ single_ring q' i'' = single_ring q i @ used"
    using u(1,2) by (intro exI [of _ "a # used"]) simp
  have idx: "unat i'' = (unat i + length (?x # pkts)) mod ?N"
    using rec t(4) nb by (simp add: each_outcome_def mod_simps)
  have sub: "set (single_ring ?q i' @ as) \<subseteq> set (single_ring q i @ a # as)" using t(3) by (metis (no_types, lifting)
        append_Cons append_Nil append_assoc list.set_intros(2) subsetI)
  have "distinct ((single_ring q i @ [a]) @ as)" using al by (simp add: allocs_ok_def)
  then have out: "?x \<notin> set (single_ring ?q i' @ as)" unfolding t(3) by simp
  then have x: "mbufs q' ?x = Some m" using rec by (simp add: each_outcome_def taken_def)
  have frame: "mbufs q' b = mbufs q b" if "b \<notin> set (single_ring q i @ a # as)" for b
  proof -
    have "?x \<in> set (single_ring q i @ [a])" unfolding t(3) by simp
    then have "b \<noteq> ?x" using that by auto
    moreover have "b \<notin> set (single_ring ?q i' @ as)" using that sub by blast
    ultimately show ?thesis using rec by (simp add: each_outcome_def taken_def)
  qed
  have fill: "\<exists>m'. mbufs q' ((?x # pkts) ! j) = Some m' \<and> single_filled q (rx_ring q ! ((unat i + j) mod ?N)) m'"
    if le: "Suc n \<le> ?N" and j: "j < length (?x # pkts)" for j
  proof (cases j)
    case 0
    then show ?thesis using x m N(1) by simp
  next
    case (Suc k)
    have "length pkts \<le> n" using rec by (simp add: each_outcome_def)
    then have k: "k < length pkts" "Suc k < ?N" using le j Suc by simp_all
    moreover have "\<forall>j < length pkts. \<exists>m'. mbufs q' (pkts ! j) = Some m' \<and> single_filled ?q (rx_ring ?q ! ((unat i' + j) mod ?N)) m'"
      using rec le nb by (simp add: each_outcome_def)
    ultimately obtain m' where m': "mbufs q' (pkts ! k) = Some m'"
      "single_filled ?q (rx_ring ?q ! ((unat i' + k) mod ?N)) m'"
      by blast
    have pos: "(unat i' + k) mod ?N = (unat i + Suc k) mod ?N" unfolding t(4) by (simp add: mod_simps)
    moreover have "(unat i + Suc k) mod ?N \<noteq> unat i" using ring_pos_inj [of 0 "Suc k" ?N "unat i"] k(2) N(1) by auto
    ultimately have "rx_ring ?q ! ((unat i' + k) mod ?N) = rx_ring q ! ((unat i + Suc k) mod ?N)" by (simp add: taken_def)
    moreover have "single_filled ?q e y = single_filled q e y" for e y
      by (simp add: single_filled_def taken_def rx_fill_mbuf_config)
    ultimately show ?thesis using m' Suc by simp
  qed
  have untouched: "rx_ring q' ! j = rx_ring q ! j" if j: "\<forall>l < length (?x # pkts). j \<noteq> (unat i + l) mod ?N" for j
  proof -
    have "j \<noteq> unat i" using j [rule_format, of 0] N(1) by simp
    moreover have "j \<noteq> (unat i' + l) mod ?N" if "l < length pkts" for l
      using j [rule_format, of "Suc l"] that t(4) by (simp add: mod_simps)
    ultimately show ?thesis using rec nb by (simp add: each_outcome_def taken_def)
  qed
  have "\<exists>sw ring mem. q' = q\<lparr>rx_sw_ring := sw, rx_ring := ring, mbufs := mem\<rparr>"
    using rec by (auto simp: each_outcome_def taken_def)
  moreover have "single_ok q' i''" "allocs_ok q' i'' rest" "failed \<longrightarrow> rest = [] \<and> desc_done (rx_ring q' ! unat i'')"
    using rec unfolding each_outcome_def by blast+
  moreover have "length pkts \<le> n" "failed \<longrightarrow> length pkts < n" "length pkts = n \<or> \<not> desc_done (rx_ring q' ! unat i'') \<or> failed"
    using rec unfolding each_outcome_def by blast+
  then have "length (?x # pkts) \<le> Suc n" "failed \<longrightarrow> length (?x # pkts) < Suc n" "length (?x # pkts) = Suc n \<or> \<not> desc_done (rx_ring q' ! unat i'') \<or> failed"
    by simp_all
  ultimately show ?thesis unfolding each_outcome_def using keep idx frame fill untouched by blast
qed

lemma recv_each_spec:
  "single_ok q i \<Longrightarrow> allocs_ok q i allocs \<Longrightarrow>
     \<exists>pkts failed rest i' q'. recv_each n q i h allocs = Inr (pkts, h + of_nat (length pkts), failed, rest, i', q') \<and>
       each_outcome q i n allocs pkts failed rest i' q'"
proof (induction n arbitrary: q i h allocs)
  case 0
  then show ?case using each_outcome_nothing [OF 0, of 0 False] by auto
next
  case (Suc n)
  let ?d = "rx_ring q ! unat i" and ?x = "rx_sw_ring q ! unat i"
  have N: "unat i < length (rx_ring q)" "unat i < length (rx_sw_ring q)" "unat i < unat (nb_rx_desc q)"
    using Suc.prems(1) by (simp_all add: single_ok_def)
  consider (idle) "\<not> desc_done ?d" | (none) "desc_done ?d" "allocs = []" | (some) a as where "desc_done ?d" "allocs = a # as"
    by (cases allocs) auto
  then show ?case
  proof cases
    case idle
    then show ?thesis using each_outcome_nothing [OF Suc.prems, of "Suc n" False] N by auto
  next
    case none
    then show ?thesis using each_outcome_nothing [OF Suc.prems, of "Suc n" True] N by auto
  next
    case some
    obtain nm where nm: "mbufs q a = Some nm" "a \<noteq> 0" using Suc.prems(2) some(2) by (auto simp: allocs_ok_def)
    obtain m where m: "mbufs q ?x = Some m" using Suc.prems(1) N(3) by (auto simp: single_ok_def single_entry_ok_def)
    let ?m1 = "m\<lparr>data_off := RTE_PKTMBUF_HEADROOM, nb_segs := 1, mb_next := 0, mb_port := port_id q\<rparr>"
    obtain m2 where m2: "rx_fill_mbuf q ?d ?m1 = Inr m2" using rx_fill_mbuf_returns by blast
    define i' where "i' = (if i + 1 = nb_rx_desc q then 0 else i + 1)"
    note al = Suc.prems(2) [unfolded some(2)]
    note t = taken_ok(1,2) [OF Suc.prems(1) al nm(1) i'_def, of m2]
    obtain pkts failed rest i'' q' where
      r: "recv_each n (taken q i a nm m2) i' (h + 1) as = Inr (pkts, h + 1 + of_nat (length pkts), failed, rest, i'', q')"
        "each_outcome (taken q i a nm m2) i' n as pkts failed rest i'' q'"
      using Suc.IH [OF t, of "h + 1"] by blast
    have "recv_each (Suc n) q i h allocs = Inr (?x # pkts, h + of_nat (length (?x # pkts)), failed, rest, i'', q')"
      using some N nm m m2 r(1) by (simp add: i'_def [symmetric] taken_def [symmetric] Let_def add.assoc)
    moreover have "single_filled q ?d m2" using some(1) m2 by (auto simp: single_filled_def)
    then have "each_outcome q i (Suc n) allocs (?x # pkts) failed rest i'' q'"
      unfolding some(2) by (rule each_outcome_step [OF Suc.prems(1) al some(1) nm(1) i'_def _ r(2)])
    ultimately show ?thesis by blast
  qed
qed

section \<open>The whole function\<close>

text \<open>The invariant between calls. The tail register trails the tail by one more than the number of descriptors held back,
  so that what the card may use never includes the descriptor at the tail.\<close>

definition single_inv :: "ixgbe_rx_queue \<Rightarrow> bool" where
  "single_inv q \<longleftrightarrow>
     single_ok q (rx_tail q) \<and> nb_rx_hold q \<le> rx_free_thresh q \<and> rx_free_thresh q < nb_rx_desc q \<and>
     unat (rdt_reg q) < unat (nb_rx_desc q) \<and>
     (unat (rdt_reg q) + 1 + unat (nb_rx_hold q)) mod unat (nb_rx_desc q) = unat (rx_tail q)"

lemma single_ok_fields:
  "single_ok (q\<lparr>rx_tail := t, rdt_reg := r, nb_rx_hold := h\<rparr>) i = single_ok q i"
  "single_ok (q\<lparr>rx_tail := t, nb_rx_hold := h\<rparr>) i = single_ok q i"
  "single_ring (q\<lparr>rx_tail := t, rdt_reg := r, nb_rx_hold := h\<rparr>) i = single_ring q i"
  "single_ring (q\<lparr>rx_tail := t, nb_rx_hold := h\<rparr>) i = single_ring q i"
  by (simp_all add: single_ok_def single_entry_ok_def single_ring_def)

text \<open>The register after the descriptors up to \<open>i\<close> have been given back.\<close>

lemma rdt_before:
  fixes i n :: u16
  assumes "unat i < unat n"
  shows "unat (ucast (if i = 0 then n - 1 else i - 1) :: u32) < unat n"
    "(unat (ucast (if i = 0 then n - 1 else i - 1) :: u32) + 1) mod unat n = unat i"
proof -
  have n: "unat (n - 1) = unat n - 1" using assms by (intro unat_minus_one) auto
  have i: "unat (i - 1) = unat i - 1" if "i \<noteq> 0" by (rule unat_minus_one [OF that])
  have w: "unat (ucast x :: u32) = unat x" for x :: u16 by (rule unat_ucast_widen) simp
  have "unat i \<noteq> 0" if "i \<noteq> 0" using that by (simp add: unat_eq_0)
  then show "unat (ucast (if i = 0 then n - 1 else i - 1) :: u32) < unat n"
    "(unat (ucast (if i = 0 then n - 1 else i - 1) :: u32) + 1) mod unat n = unat i"
    using assms n i by (auto simp: w)
qed

lemma recv_single_spec:
  assumes inv: "single_inv q" and al: "allocs_ok q (rx_tail q) allocs" and nb: "unat nb + unat (rx_free_thresh q) < 65536"
  obtains pkts failed rest q1 i' q' where "ixgbe_recv_pkts q nb allocs = Inr (pkts, failed, rest, q')"
    "each_outcome q (rx_tail q) (unat nb) allocs pkts failed rest i' q1"
    "rx_tail q' = i'" "single_ring q' i' = single_ring q1 i'" "single_inv q'" "mbufs q' = mbufs q1" "rx_ring q' = rx_ring q1"
proof -
  let ?N = "unat (nb_rx_desc q)"
  have ok: "single_ok q (rx_tail q)" using inv by (simp add: single_inv_def)
  obtain pkts failed rest i' q1 where
    r: "recv_each (unat nb) q (rx_tail q) 0 allocs = Inr (pkts, of_nat (length pkts), failed, rest, i', q1)"
      and o: "each_outcome q (rx_tail q) (unat nb) allocs pkts failed rest i' q1"
    using recv_each_spec [OF ok al, of "unat nb" 0] by auto
  obtain sw ring mem where q1: "q1 = q\<lparr>rx_sw_ring := sw, rx_ring := ring, mbufs := mem\<rparr>"
    using o by (auto simp: each_outcome_def)
  have ok1: "single_ok q1 i'" and len: "length pkts \<le> unat nb" and t: "unat i' = (unat (rx_tail q) + length pkts) mod ?N"
    using o by (simp_all add: each_outcome_def)
  have f: "nb_rx_hold q1 = nb_rx_hold q" "rx_free_thresh q1 = rx_free_thresh q" "nb_rx_desc q1 = nb_rx_desc q"
    "rdt_reg q1 = rdt_reg q" by (simp_all add: q1)
  define hold where "hold = (of_nat (length pkts) :: u16) + nb_rx_hold q"
  have hq: "unat (nb_rx_hold q) \<le> unat (rx_free_thresh q)" using inv by (simp add: single_inv_def word_le_nat_alt)
  have "length pkts < 65536" using len nb by simp
  then have k: "unat (of_nat (length pkts) :: u16) = length pkts" by (simp add: unat_of_nat)
  have "unat (of_nat (length pkts) :: u16) + unat (nb_rx_hold q) < 2 ^ LENGTH(16)" using k len nb hq by simp
  then have "unat (of_nat (length pkts) + nb_rx_hold q) = unat (of_nat (length pkts) :: u16) + unat (nb_rx_hold q)"
    by (rule unat_add_lem [THEN iffD1])
  then have h: "unat hold = length pkts + unat (nb_rx_hold q)" by (simp add: hold_def k)
  have iN: "unat i' < ?N" using ok1 f(3) by (simp add: single_ok_def)
  define q' where "q' = (if hold > rx_free_thresh q
     then q1\<lparr>rx_tail := i', rdt_reg := ucast (if i' = 0 then nb_rx_desc q - 1 else i' - 1), nb_rx_hold := 0\<rparr>
     else q1\<lparr>rx_tail := i', nb_rx_hold := hold\<rparr>)"
  have call: "ixgbe_recv_pkts q nb allocs = Inr (pkts, failed, rest, q')"
    using r f by (simp add: ixgbe_recv_pkts_def Let_def hold_def q'_def)
  have "single_inv q'"
  proof (cases "hold > rx_free_thresh q")
    case True
    then show ?thesis using ok1 f iN rdt_before [OF iN] inv
      by (simp add: single_inv_def q'_def single_ok_fields)
  next
    case False
    have "(unat (rdt_reg q) + 1 + (length pkts + unat (nb_rx_hold q))) mod ?N =
        ((unat (rdt_reg q) + 1 + unat (nb_rx_hold q)) mod ?N + length pkts) mod ?N"
      by (simp add: mod_simps algebra_simps)
    also have "\<dots> = unat i'" unfolding t using inv by (simp add: single_inv_def)
    finally show ?thesis using False ok1 f h inv
      by (simp add: single_inv_def q'_def single_ok_fields word_less_nat_alt word_le_nat_alt)
  qed
  moreover have "rx_tail q' = i'" "single_ring q' i' = single_ring q1 i'" "mbufs q' = mbufs q1" "rx_ring q' = rx_ring q1"
    by (simp_all add: q'_def single_ok_fields)
  ultimately show thesis using that [OF call o] by blast
qed

section \<open>Counting finished descriptors\<close>

text \<open>The descriptor \<open>j\<close> places after the tail, round the ring, is done.\<close>

definition done_after :: "ixgbe_rx_queue \<Rightarrow> nat \<Rightarrow> bool" where
  "done_after q j \<longleftrightarrow> desc_done (rx_ring q ! ((unat (rx_tail q) + j) mod unat (nb_rx_desc q)))"

text \<open>The first \<open>c\<close> descriptors from the tail on are done, and no other.\<close>

definition done_exactly :: "ixgbe_rx_queue \<Rightarrow> nat \<Rightarrow> bool" where
  "done_exactly q c \<longleftrightarrow> c \<le> unat (nb_rx_desc q) \<and> (\<forall>j < unat (nb_rx_desc q). done_after q j \<longleftrightarrow> j < c)"

lemma count_loop_spec:
  assumes t: "unat (rx_tail q) < unat (nb_rx_desc q)" and len: "unat (nb_rx_desc q) \<le> length (rx_ring q)"
    and mult: "unat (nb_rx_desc q) = 4 * n" and e: "e \<le> n"
    and at: "at = (unat (rx_tail q) + 4 * e) mod unat (nb_rx_desc q) \<or> e = n"
  shows "\<exists>k \<ge> e. k \<le> n \<and> count_loop q (4 * e) at = Inr (4 * k) \<and> (\<forall>j. e \<le> j \<and> j < k \<longrightarrow> done_after q (4 * j)) \<and>
    (k = n \<or> \<not> done_after q (4 * k))"
  using e at
proof (induction "n - e" arbitrary: e at rule: less_induct)
  case less
  let ?N = "unat (nb_rx_desc q)" and ?t = "unat (rx_tail q)"
  show ?case
  proof (cases "e = n")
    case True
    then have "count_loop q (4 * e) at = Inr (4 * n)" using mult by (subst count_loop.simps) simp
    moreover have "\<forall>j. e \<le> j \<and> j < n \<longrightarrow> done_after q (4 * j)" using True by linarith
    ultimately show ?thesis using True by (intro exI [of _ n]) simp
  next
    case False
    then have lt: "4 * e < ?N" and a: "at = (?t + 4 * e) mod ?N" using less.prems mult by simp_all
    have "at < ?N" unfolding a using t by (intro mod_less_divisor) linarith
    then have get: "arr_get (rx_ring q) at = Inr (rx_ring q ! at)" using len by simp
    have dd: "desc_done (rx_ring q ! at) \<longleftrightarrow> done_after q (4 * e)" by (simp add: a done_after_def)
    show ?thesis
    proof (cases "done_after q (4 * e)")
      case no: False
      then have "count_loop q (4 * e) at = Inr (4 * e)" using lt get dd by (subst count_loop.simps) simp
      moreover have "\<forall>j. e \<le> j \<and> j < e \<longrightarrow> done_after q (4 * j)" by linarith
      ultimately show ?thesis using no less.prems(1) by (intro exI [of _ e]) simp
    next
      case more: True
      let ?at = "if ?t + 4 * Suc e \<ge> ?N then ?t + 4 * Suc e - ?N else at + 4"
      have step: "count_loop q (4 * e) at = count_loop q (4 * Suc e) ?at"
        using lt get dd more by (subst count_loop.simps) (simp add: IXGBE_RXQ_SCAN_INTERVAL_def Let_def add.commute)
      have "?at = (?t + 4 * Suc e) mod ?N \<or> Suc e = n"
      proof (cases "?t + 4 * Suc e \<ge> ?N")
        case wrap: True
        have "e < n" using lt mult by simp
        then have "4 * Suc e \<le> ?N" unfolding mult by simp
        then have "?t + 4 * Suc e - ?N < ?N" using t wrap by linarith
        then show ?thesis using wrap by (auto simp: le_mod_geq)
      next
        case False
        then show ?thesis using a by simp
      qed
      moreover have "n - Suc e < n - e" "Suc e \<le> n" using lt mult by linarith+
      ultimately obtain k where k: "Suc e \<le> k" "k \<le> n" "count_loop q (4 * Suc e) ?at = Inr (4 * k)"
        "\<forall>j. Suc e \<le> j \<and> j < k \<longrightarrow> done_after q (4 * j)" "k = n \<or> \<not> done_after q (4 * k)"
        using less.hyps by blast
      have "\<forall>j. e \<le> j \<and> j < k \<longrightarrow> done_after q (4 * j)"
        using k(4) more by (metis Suc_leI le_neq_implies_less)
      then show ?thesis using k step by (intro exI [of _ k]) simp
    qed
  qed
qed

lemma done_exactly_rounded:
  assumes "done_exactly q c" "unat (nb_rx_desc q) = 4 * n" "k \<le> n" "0 < n"
    and "\<And>j. j < k \<Longrightarrow> done_after q (4 * j)" "k = n \<or> \<not> done_after q (4 * k)"
  shows "4 * k = (c + 3) div 4 * 4"
proof -
  have c: "c \<le> 4 * n" "\<And>j. j < n \<Longrightarrow> done_after q (4 * j) \<longleftrightarrow> 4 * j < c" using assms(1,2) by (simp_all add: done_exactly_def)
  have "c \<le> 4 * k" using c assms(3,6) by (metis le_neq_implies_less not_le)
  moreover have "4 * k < c + 4"
  proof (cases k)
    case (Suc m)
    then have "4 * m < c" using c(2) [of m] assms(3) assms(5) [of m] by simp
    then show ?thesis using Suc by simp
  qed simp
  ultimately have "(c + 3) div 4 = k" by linarith
  then show ?thesis by simp
qed

section \<open>Which descriptor reports on transmission\<close>

lemma tx_status_index_multiple:
  assumes "0 < unat (tx_rs_thresh q)" "unat (tx_rs_thresh q) dvd unat (nb_tx_desc q)"
  shows "unat (tx_rs_thresh q) dvd tx_status_index q offset"
  using assms by (auto simp: tx_status_index_def Let_def intro!: dvd_diff_nat)

lemma tx_status_index_bound:
  assumes rs: "0 < unat (tx_rs_thresh q)" "unat (tx_rs_thresh q) dvd unat (nb_tx_desc q)"
    and "tx_tail q < nb_tx_desc q" "offset < nb_tx_desc q"
  shows "tx_status_index q offset < unat (nb_tx_desc q)"
proof -
  let ?rs = "unat (tx_rs_thresh q)" and ?nb = "unat (nb_tx_desc q)"
  obtain k where k: "?nb = ?rs * k" using rs(2) by blast
  have lt: "unat (tx_tail q) + unat offset + 1 \<le> 2 * ?nb - 1" "0 < ?nb" using assms(3,4) by (simp_all add: word_less_nat_alt)
  let ?m = "(unat (tx_tail q) + unat offset + ?rs - 1) div ?rs"
  have "unat (tx_tail q) + unat offset + ?rs - 1 < ?rs * (2 * k) + ?rs" using lt rs(1) k by simp
  then have "?m < 2 * k + 1" using rs(1) by (simp add: less_mult_imp_div_less algebra_simps)
  then have "?m * ?rs \<le> 2 * k * ?rs" by (intro mult_le_mono1) simp
  then have "?m * ?rs \<le> 2 * ?nb" using k by (simp add: ac_simps)
  then show ?thesis using lt(2) by (auto simp: tx_status_index_def Let_def)
qed

section \<open>The two receive functions agree\<close>

text \<open>What a descriptor says of its packet, and nothing else, decides these fields.\<close>

definition packet_data :: "rte_mbuf \<Rightarrow> u16 \<times> u32 \<times> u16 \<times> u64 \<times> u32" where
  "packet_data m = (data_len m, pkt_len m, vlan_tci m, ol_flags m, packet_type m)"

lemma packet_data_same: "rx_fill_mbuf q d m = Inr m' \<Longrightarrow> rx_fill_mbuf q d n = Inr n' \<Longrightarrow> packet_data m' = packet_data n'"
  by (auto simp: rx_fill_mbuf_def Let_def bindc_eq_Inr packet_data_def)

lemma done_run_ge:
  assumes "\<And>j. j < n \<Longrightarrow> desc_done (rx_ring q ! (pos + j))" "pos + n \<le> length (rx_ring q)"
  shows "n \<le> done_run q pos"
proof (rule ccontr)
  assume "\<not> n \<le> done_run q pos"
  then have lt: "done_run q pos < n" by simp
  then have "\<not> desc_done (drop pos (rx_ring q) ! done_run q pos)"
    using assms(2) unfolding done_run_def by (intro nth_length_takeWhile) simp
  then show False using assms(1) [OF lt] assms(2) lt by simp
qed

text \<open>A ring without holes is well-formed for both functions.\<close>

lemma bulk_single_ok:
  assumes inv: "bulk_inv q" and empty: "rx_nb_avail q = 0" and full: "bulk_start q = unat (rx_tail q)"
  shows "single_ok q (rx_tail q)"
    "single_ring q (rx_tail q) = map ((!) (rx_sw_ring q)) ([unat (rx_tail q)..<unat (nb_rx_desc q)] @ [0..<unat (rx_tail q)])"
proof -
  let ?t = "unat (rx_tail q)" and ?N = "unat (nb_rx_desc q)"
  have ok: "bulk_ok q" and tF: "?t \<le> unat (rx_free_trigger q)" using inv by (simp_all add: bulk_inv_def)
  note d = bulk_okD [OF ok] and c = bulk_configD [OF bulk_okD(1) [OF ok]]
  have tN: "?t < ?N" using tF d(3) by simp
  let ?buf = "take ?N (rx_sw_ring q)"
  have len: "length ?buf = ?N" using c(6) by simp
  have "rotate ?t ?buf = drop ?t ?buf @ take ?t ?buf" using tN len by (simp add: rotate_drop_take)
  moreover have "take ?t ?buf = map ((!) (rx_sw_ring q)) [0..<?t]" using tN c(6) map_nth_slice [of 0 ?t "rx_sw_ring q"] by (simp add: min_def)
  moreover have "drop ?t ?buf = map ((!) (rx_sw_ring q)) [?t..<?N]"
    using tN c(6) map_nth_slice [of ?t "?N - ?t" "rx_sw_ring q"] by (simp add: drop_take)
  ultimately show r: "single_ring q (rx_tail q) = map ((!) (rx_sw_ring q)) ([?t..<?N] @ [0..<?t])" by (simp add: single_ring_def)
  have "bulk_staged q = []" using empty by (simp add: bulk_staged_def)
  then have "distinct (single_ring q (rx_tail q))" using d(11) unfolding r bulk_held_def bulk_entries_def full by simp
  moreover have "single_entry_ok q j" if "j < ?N" for j
    using d(7) [of j] that tN full by (cases "j < ?t") (auto simp: bulk_entry_range bulk_entry_ok_def single_entry_ok_def)
  ultimately show "single_ok q (rx_tail q)" using tN c by (simp add: single_ok_def IXGBE_MAX_RING_DESC_def)
qed

lemma recv_pkts_each:
  assumes "recv_each (unat nb) q (rx_tail q) 0 allocs = Inr (pkts, h, failed, rest, i', q1)"
  shows "\<exists>q'. ixgbe_recv_pkts q nb allocs = Inr (pkts, failed, rest, q') \<and> mbufs q' = mbufs q1"
  using assms by (simp add: ixgbe_recv_pkts_def Let_def)

text \<open>How many packets the loop takes from a ring that it does not go round, with enough mbufs.\<close>

lemma each_outcome_count:
  assumes o: "each_outcome q i (unat nb) allocs pkts failed rest i' q'"
    and room: "unat i + unat nb < unat (nb_rx_desc q)" "unat (nb_rx_desc q) \<le> length (rx_ring q)" "unat nb \<le> length allocs"
  shows "\<not> failed" "length pkts = min (unat nb) (done_run q (unat i))"
proof -
  let ?N = "unat (nb_rx_desc q)" and ?k = "length pkts"
  obtain used where u: "allocs = used @ rest" "length used = ?k" using o by (auto simp: each_outcome_def)
  have k: "?k \<le> unat nb" and f: "failed \<longrightarrow> rest = [] \<and> ?k < unat nb" using o by (auto simp: each_outcome_def)
  then show nf: "\<not> failed" using u room(3) by auto
  have dn: "desc_done (rx_ring q ! (unat i + j))" if "j < ?k" for j
    using each_outcome_filled [OF o _ that] that k room(1) by (auto simp: single_filled_def)
  show "?k = min (unat nb) (done_run q (unat i))"
  proof (cases "?k = unat nb")
    case True
    then have "unat nb \<le> done_run q (unat i)" using dn room by (intro done_run_ge) auto
    then show ?thesis using True by simp
  next
    case False
    have i': "unat i' = (unat i + ?k) mod ?N" using o by (simp add: each_outcome_def)
    then have ik: "unat i' = unat i + ?k" using k room(1) by simp
    have "\<not> desc_done (rx_ring q' ! unat i')" using o nf False unfolding each_outcome_def by blast
    moreover have "rx_ring q' ! unat i' = rx_ring q ! unat i'"
    proof -
      have "\<forall>l < ?k. unat i' \<noteq> (unat i + l) mod ?N" using ik k room(1) by simp
      then show ?thesis using o unfolding each_outcome_def by blast
    qed
    ultimately have "done_run q (unat i) = ?k" using dn ik k room by (intro done_run_eq) auto
    then show ?thesis using k by simp
  qed
qed

section \<open>Properties\<close>

text \<open>Property C24: the receive function that replaces mbufs one by one keeps its ring full and in order. Whatever
  \<open>rte_mbuf_raw_alloc\<close> gives, a call returns at most as many packets as asked for; the packets and then the ring, from
  the new tail on, are the old ring and then the mbufs that were used, one per packet. It stops early only at a
  descriptor that is not done or for want of an mbuf, and then the packet stays in the ring. The tail register keeps
  trailing the tail by one more than the descriptors held back.\<close>

theorem single_recv_conserves:
  assumes "single_inv q" "allocs_ok q (rx_tail q) allocs" "unat nb + unat (rx_free_thresh q) < 65536"
  shows "\<exists>pkts failed used rest q'. ixgbe_recv_pkts q nb allocs = Inr (pkts, failed, rest, q') \<and>
    allocs = used @ rest \<and> length used = length pkts \<and> length pkts \<le> unat nb \<and>
    pkts @ single_ring q' (rx_tail q') = single_ring q (rx_tail q) @ used \<and> single_inv q' \<and>
    (length pkts = unat nb \<or> \<not> desc_done (rx_ring q' ! unat (rx_tail q')) \<or> failed \<and> rest = [])"
proof (rule recv_single_spec [OF assms])
  fix pkts failed rest q1 i' q'
  assume r: "ixgbe_recv_pkts q nb allocs = Inr (pkts, failed, rest, q')"
    "each_outcome q (rx_tail q) (unat nb) allocs pkts failed rest i' q1"
    "rx_tail q' = i'" "single_ring q' i' = single_ring q1 i'" "single_inv q'" "rx_ring q' = rx_ring q1"
  obtain used where "allocs = used @ rest" "length used = length pkts"
    "pkts @ single_ring q1 i' = single_ring q (rx_tail q) @ used"
    using r(2) unfolding each_outcome_def by blast
  moreover have "length pkts \<le> unat nb" using r(2) by (simp add: each_outcome_def)
  moreover have "length pkts = unat nb \<or> \<not> desc_done (rx_ring q1 ! unat i') \<or> failed \<and> rest = []"
    using r(2) unfolding each_outcome_def by blast
  ultimately show ?thesis using r(1,3-6) by (intro exI [of _ pkts] exI [of _ failed] exI [of _ used] exI [of _ rest] exI [of _ q']) simp
qed

text \<open>Property C16: where the two receive functions agree. Take a well-formed ring in which every descriptor has an mbuf (the tail is
  where the next block to be replaced starts) and whose stage is empty, with a tail more than 32 descriptors before the end of the
  ring, and a mempool that gives each function the mbufs it asks for. Then a call for one to 32 packets
  returns the same packets in the same order, with the same lengths, VLAN tags, flags and packet types, from
  the function that works in blocks as from the one that works one by one. (Near the end of the ring they differ: the one stops there, the
  other goes on at the beginning; and so they do when an allocation fails.)\<close>

theorem bulk_like_single:
  assumes "bulk_inv q" "rx_nb_avail q = 0" "bulk_start q = unat (rx_tail q)" "bulks_ok q bulks" "fst (next_bulk bulks) \<noteq> None"
    and "allocs_ok q (rx_tail q) allocs" "unat nb \<le> length allocs" "0 < nb" "unat nb \<le> 32"
    and "unat (rx_tail q) + 32 < unat (nb_rx_desc q)"
  shows "\<exists>pkts rest1 q1 rest2 q2. ixgbe_recv_pkts_bulk_alloc q nb bulks = Inr (pkts, 0, rest1, q1) \<and>
    ixgbe_recv_pkts q nb allocs = Inr (pkts, False, rest2, q2) \<and>
    (\<forall>p\<in>set pkts. \<exists>m1 m2. mbufs q1 p = Some m1 \<and> mbufs q2 p = Some m2 \<and> packet_data m1 = packet_data m2)"
proof -
  let ?t = "unat (rx_tail q)" and ?N = "unat (nb_rx_desc q)" and ?k = "min (unat nb) (done_run q (unat (rx_tail q)))"
  note s = bulk_single_ok [OF assms(1-3)]
  have lenN: "?N \<le> length (rx_ring q)" using s(1) by (simp add: single_ok_def)
  obtain pkts failed rest2 i' q2 where
    r: "recv_each (unat nb) q (rx_tail q) 0 allocs = Inr (pkts, 0 + of_nat (length pkts), failed, rest2, i', q2)"
      and o: "each_outcome q (rx_tail q) (unat nb) allocs pkts failed rest2 i' q2"
    using recv_each_spec [OF s(1) assms(6), of "unat nb" 0] by blast
  have "?t + unat nb < ?N" using assms(9,10) by simp
  note cnt = each_outcome_count [OF o this lenN assms(7)]
  have kN: "?t + ?k \<le> ?N" using assms(9,10) by simp
  obtain used where "pkts @ single_ring q2 i' = single_ring q (rx_tail q) @ used" using o unfolding each_outcome_def by blast
  then have "take ?k (pkts @ single_ring q2 i') = take ?k (single_ring q (rx_tail q) @ used)" by simp
  then have "pkts = take ?k (map ((!) (rx_sw_ring q)) [?t..<?N])" using cnt(2) kN by (simp add: s(2))
  then have pk: "pkts = map ((!) (rx_sw_ring q)) [?t..<?t + ?k]" using kN by (simp add: take_map)
  obtain rest1 q1 where b: "ixgbe_recv_pkts_bulk_alloc q nb bulks =
      Inr (take (unat nb) (map ((!) (rx_sw_ring q)) [?t..<?t + scan_found q]), 0, rest1, q1)" "scan_filled q (mbufs q1)"
    using bulk_recv_found [OF assms(1,2,4,5,8,9)] by blast
  have "take (unat nb) [?t..<?t + scan_found q] = [?t..<?t + ?k]" using assms(9) by (auto simp: scan_found_def min_def)
  then have "ixgbe_recv_pkts_bulk_alloc q nb bulks = Inr (pkts, 0, rest1, q1)" using b(1) pk by (simp add: take_map)
  moreover obtain q' where "ixgbe_recv_pkts q nb allocs = Inr (pkts, False, rest2, q')" "mbufs q' = mbufs q2"
    using recv_pkts_each [OF r] cnt(1) by auto
  moreover have "\<exists>m1 m2. mbufs q1 (rx_sw_ring q ! (?t + j)) = Some m1 \<and> mbufs q2 (rx_sw_ring q ! (?t + j)) = Some m2 \<and>
      packet_data m1 = packet_data m2" if j: "j < ?k" for j
  proof -
    have "j < scan_found q" using j assms(9) by (simp add: scan_found_def)
    then obtain m m1 where "rx_fill_mbuf q (rx_ring q ! (?t + j)) m = Inr m1" "mbufs q1 (rx_sw_ring q ! (?t + j)) = Some m1"
      using b(2) [unfolded scan_filled_def, rule_format, of "?t + j"] by auto
    moreover have "unat nb \<le> ?N" "j < length pkts" using assms(9,10) j cnt(2) by simp_all
    then obtain m2 where "mbufs q2 (pkts ! j) = Some m2" "single_filled q (rx_ring q ! ((?t + j) mod ?N)) m2"
      using each_outcome_filled [OF o] by blast
    ultimately show ?thesis using j kN pk by (auto simp: single_filled_def intro: packet_data_same)
  qed
  then have "\<forall>p\<in>set pkts. \<exists>m1 m2. mbufs q1 p = Some m1 \<and> mbufs q2 p = Some m2 \<and> packet_data m1 = packet_data m2"
    unfolding pk by (auto simp: le_iff_add)
  ultimately show ?thesis by auto
qed

text \<open>Property C31: what the count of finished receive descriptors is. For a queue whose tail is in the ring and whose
  size is one the set-up allows, and whatever the ring contains, the function looks only at descriptors of the ring and
  ends. It probes every fourth descriptor from the tail on, round the ring, and returns four times the number of done ones up to
  the first that is not, or the size of the ring. So when the done descriptors are the \<open>c\<close> from the tail on
  and no others, it returns \<open>c\<close> rounded up to a multiple of four. (A queue that CleanQ runs
  has its packets elsewhere: \<open>cleanq_reports_miss_packets\<close>.)\<close>

theorem rx_queue_count_rounds:
  assumes "queue_at (port_rx_queues dev) (unat qid) = Inr q" "unat (rx_tail q) < unat (nb_rx_desc q)"
    "unat (nb_rx_desc q) \<le> length (rx_ring q)" "IXGBE_RXD_ALIGN dvd unat (nb_rx_desc q)"
  shows "\<exists>k. ixgbe_dev_rx_queue_count dev qid = Inr (4 * k) \<and> 4 * k \<le> unat (nb_rx_desc q) \<and> (\<forall>j < k. done_after q (4 * j)) \<and>
    (4 * k = unat (nb_rx_desc q) \<or> \<not> done_after q (4 * k)) \<and>
    (\<forall>c. done_exactly q c \<longrightarrow> 4 * k = (c + 3) div 4 * 4)"
proof -
  have "(4 :: nat) dvd IXGBE_RXD_ALIGN" by (simp add: IXGBE_RXD_ALIGN_def)
  then have "4 dvd unat (nb_rx_desc q)" using assms(4) by (rule dvd_trans)
  then obtain n where n: "unat (nb_rx_desc q) = 4 * n" by blast
  then have pos: "0 < n" using assms(2) by simp
  obtain k where k: "k \<le> n" "count_loop q 0 (unat (rx_tail q)) = Inr (4 * k)" "\<And>j. j < k \<Longrightarrow> done_after q (4 * j)"
    "k = n \<or> \<not> done_after q (4 * k)"
    using count_loop_spec [OF assms(2,3) n, of 0 "unat (rx_tail q)"] assms(2) by auto
  then show ?thesis using assms(1) n done_exactly_rounded [OF _ n k(1) pos k(3,4)]
    by (intro exI [of _ k]) (auto simp: ixgbe_dev_rx_queue_count_def)
qed

text \<open>A queue of eight descriptors with the mbufs 1 to 8, which replaces mbufs one by one. The card has received three
  packets, the last at the beginning of the ring.\<close>

definition demo_single_q :: ixgbe_rx_queue where
  "demo_single_q = demo_bulk_q\<lparr>
     rx_ring := [demo_packet, rx_read_desc demo_mbuf, rx_read_desc demo_mbuf, rx_read_desc demo_mbuf,
                 rx_read_desc demo_mbuf, rx_read_desc demo_mbuf, demo_packet, demo_packet],
     rx_sw_ring := [1, 2, 3, 4, 5, 6, 7, 8], rdt_reg := 5, nb_rx_desc := 8, rx_tail := 6, rx_free_thresh := 4\<rparr>"

lemma less_8: "(j :: nat) < 8 \<longleftrightarrow> j = 0 \<or> j = 1 \<or> j = 2 \<or> j = 3 \<or> j = 4 \<or> j = 5 \<or> j = 6 \<or> j = 7"
  by linarith

lemma demo_single_inv: "single_inv demo_single_q" "allocs_ok demo_single_q 6 [9, 10]"
proof -
  have u: "unat (nb_rx_desc demo_single_q) = 8" "rx_tail demo_single_q = 6" by (simp_all add: demo_single_q_def)
  have "single_ring demo_single_q 6 = [7, 8, 1, 2, 3, 4, 5, 6]"
    by (simp add: single_ring_def u) (simp add: demo_single_q_def rotate_drop_take)
  moreover have "\<forall>j < 8. single_entry_ok demo_single_q j"
    unfolding less_8 by (auto simp: single_entry_ok_def demo_single_q_def demo_bulk_q_def)
  ultimately show "single_inv demo_single_q" "allocs_ok demo_single_q 6 [9, 10]"
    unfolding single_inv_def single_ok_def allocs_ok_def u
    by (simp_all add: IXGBE_MAX_RING_DESC_def) (simp_all add: demo_single_q_def demo_bulk_q_def)
qed

theorem single_recv_conserves_witness:
  "\<exists>pkts failed used rest q'. ixgbe_recv_pkts demo_single_q 32 [9, 10] = Inr (pkts, failed, rest, q') \<and>
    [9, 10] = used @ rest \<and> length used = length pkts \<and> length pkts \<le> 32 \<and>
    pkts @ single_ring q' (rx_tail q') = single_ring demo_single_q 6 @ used \<and> single_inv q' \<and>
    (length pkts = 32 \<or> \<not> desc_done (rx_ring q' ! unat (rx_tail q')) \<or> failed \<and> rest = [])"
  using single_recv_conserves [OF demo_single_inv(1), of "[9, 10]" 32] demo_single_inv(2)
  by (simp add: demo_single_q_def)

theorem bulk_like_single_witness:
  "\<exists>q. demo_bulk_filled = Inr q \<and>
     (\<exists>pkts rest1 q1 rest2 q2.
        ixgbe_recv_pkts_bulk_alloc (q\<lparr>rx_ring := (rx_ring q)[0 := demo_packet]\<rparr>) 32 [Some (demo_mbs 65 97)] = Inr (pkts, 0, rest1, q1) \<and>
        ixgbe_recv_pkts (q\<lparr>rx_ring := (rx_ring q)[0 := demo_packet]\<rparr>) 32 (demo_mbs 65 97) = Inr (pkts, False, rest2, q2))"
proof (rule demo_bulk_packet)
  fix q1 q2 q3
  assume s: "demo_bulk_filled = Inr q2" "q3 = q2\<lparr>rx_ring := (rx_ring q2)[0 := demo_packet]\<rparr>"
    "bulk_inv q3" "bulks_ok q3 [Some (demo_mbs 65 97)]" "rx_nb_avail q3 = 0" "rx_tail q3 = 0" "nb_rx_desc q3 = 64"
  have start: "bulk_start q3 = unat (rx_tail q3)"
    using s(3,6) by (simp add: bulk_inv_def bulk_ok_def)
  have "bulk_staged q3 = []" using s(5) by (simp add: bulk_staged_def)
  then have "single_ring q3 (rx_tail q3) = bulk_held q3"
    using bulk_single_ok(2) [OF s(3,5) start] start by (simp add: bulk_held_def bulk_entries_def)
  then have "allocs_ok q3 (rx_tail q3) (demo_mbs 65 97)" using s(4) by (simp add: allocs_ok_def bulks_ok_def)
  from bulk_like_single [OF s(3,5) start s(4) _ this, of 32] show ?thesis
    using s(1,2,6,7) demo_mbs_facts(1) [of 65 97 97] by (intro exI [of _ q2]) (auto simp: next_bulk_def)
qed

theorem rx_queue_count_rounds_witness:
  "ixgbe_dev_rx_queue_count (demo_port\<lparr>port_rx_queues := [Queue demo_single_q]\<rparr>) 0 = Inr 4"
proof -
  have q: "queue_at (port_rx_queues (demo_port\<lparr>port_rx_queues := [Queue demo_single_q]\<rparr>)) (unat (0 :: u16)) = Inr demo_single_q"
    by (simp add: queue_at_def)
  have u: "unat (nb_rx_desc demo_single_q) = 8" "unat (rx_tail demo_single_q) = 6" by (simp_all add: demo_single_q_def)
  have three: "done_exactly demo_single_q 3"
    unfolding done_exactly_def done_after_def u less_8 by (auto simp: demo_single_q_def)
  have len: "unat (nb_rx_desc demo_single_q) \<le> length (rx_ring demo_single_q)" unfolding u by (simp add: demo_single_q_def)
  have al: "IXGBE_RXD_ALIGN dvd unat (nb_rx_desc demo_single_q)" unfolding u by (simp add: IXGBE_RXD_ALIGN_def)
  have "unat (rx_tail demo_single_q) < unat (nb_rx_desc demo_single_q)" unfolding u by simp
  from rx_queue_count_rounds [OF q this len al] obtain k where k:
    "ixgbe_dev_rx_queue_count (demo_port\<lparr>port_rx_queues := [Queue demo_single_q]\<rparr>) 0 = Inr (4 * k)"
    "\<forall>c. done_exactly demo_single_q c \<longrightarrow> 4 * k = (c + 3) div 4 * 4"
    by blast
  have "4 * k = 4" using k(2) [rule_format, OF three] by simp
  then show ?thesis using k(1) by simp
qed

text \<open>The reports look at the tail. In a queue that the CleanQ functions run, the tail is where software puts empty
  mbufs, and the packets are elsewhere: here a packet is ready, and the next dequeue delivers it, but the count is 0 and
  the first descriptor is reported as not done.\<close>

theorem cleanq_reports_miss_packets:
  "\<exists>p b q. rx_inv (demo_rxq p) \<and> cleanq_dequeue ixgbe_rx_f (demo_rxq p) empty_buf = Inr (CLEANQ_ERR_OK, b, q) \<and>
     ixgbe_dev_rx_queue_count (demo_port\<lparr>port_rx_queues := [Queue (demo_rxq p)]\<rparr>) 0 = Inr 0 \<and>
     ixgbe_dev_rx_descriptor_done (demo_rxq p) 0 = Inr False \<and>
     ixgbe_dev_rx_descriptor_status (demo_rxq p) 0 = Inr RTE_ETH_RX_DESC_AVAIL"
proof -
  obtain id p where a: "pool_inv p" "pool_map p = [id \<mapsto> new_region id demo_cap]" by (rule demo_pool_add)
  note r = demo_rxq_inv [OF a]
  obtain b q where "cleanq_dequeue ixgbe_rx_f (demo_rxq p) empty_buf = Inr (CLEANQ_ERR_OK, b, q)"
    using rx.dequeue_spec [OF r(1), of empty_buf] r(2) by metis
  moreover have nd: "arr_get (rx_ring (demo_rxq p)) 1 = Inr zeroed_rx_desc"
    by (simp add: demo_rxq_def zeroed_rx_desc_def arr_get_def)
  have u: "unat (nb_rx_desc (demo_rxq p)) = 4" "unat (rx_tail (demo_rxq p)) = 1" "nb_rx_desc (demo_rxq p) = 4"
    "nb_rx_hold (demo_rxq p) = 0" by (simp_all add: demo_rxq_def)
  have "count_loop (demo_rxq p) 0 1 = Inr 0" using nd u by (subst count_loop.simps) simp
  then have "ixgbe_dev_rx_queue_count (demo_port\<lparr>port_rx_queues := [Queue (demo_rxq p)]\<rparr>) 0 = Inr 0"
    using u by (simp add: ixgbe_dev_rx_queue_count_def queue_at_def)
  moreover have "rx_desc_at (demo_rxq p) 0 = Inr zeroed_rx_desc" using nd u by (simp add: rx_desc_at_def)
  then have "ixgbe_dev_rx_descriptor_done (demo_rxq p) 0 = Inr False"
    "ixgbe_dev_rx_descriptor_status (demo_rxq p) 0 = Inr RTE_ETH_RX_DESC_AVAIL"
    using u by (simp_all add: ixgbe_dev_rx_descriptor_done_def ixgbe_dev_rx_descriptor_status_def)
  ultimately show ?thesis using r(1) by blast
qed

text \<open>The report on transmission means to look at the next descriptor with the report bit, but the transmit functions
  set this bit at the last descriptor of a block of \<open>tx_rs_thresh\<close>, and the function looks at the first.\<close>

theorem tx_status_never_at_report:
  assumes "1 < unat (tx_rs_thresh q)" "unat (tx_rs_thresh q) dvd unat (nb_tx_desc q)" "unat (tx_rs_thresh q) dvd r + 1"
  shows "tx_status_index q offset \<noteq> r"
proof
  assume "tx_status_index q offset = r"
  then have "unat (tx_rs_thresh q) dvd r" using tx_status_index_multiple [of q offset] assms(1,2) by simp
  then have "unat (tx_rs_thresh q) dvd (r + 1) - r" using assms(3) by (intro dvd_diff_nat) auto
  then show False using assms(1) by simp
qed

text \<open>The card has reported the first block of two as sent, and a transmission would free it, but its first descriptor,
  one place after the tail, is reported as full.\<close>

theorem tx_status_full_when_done:
  "\<exists>q. arr_get (tx_ring q) (unat (tx_next_dd q)) = Inr \<lparr>buffer_addr = 0, cmd_type_len = 0, olinfo_status = IXGBE_ADVTXD_STAT_DD\<rparr> \<and>
     (unat (tx_tail q) + 1) mod unat (nb_tx_desc q) = 0 \<and> 0 < unat (tx_next_dd q) \<and>
     ixgbe_dev_tx_descriptor_status q 1 = Inr RTE_ETH_TX_DESC_FULL"
proof -
  let ?e = "\<lparr>buffer_addr = 0, cmd_type_len = 0, olinfo_status = 0\<rparr> :: ixgbe_adv_tx_desc"
  let ?q = "(demo_txq demo_pool)\<lparr>tx_ring := [?e, ?e\<lparr>olinfo_status := IXGBE_ADVTXD_STAT_DD\<rparr>, ?e, ?e]\<rparr>"
  have "tx_status_index ?q 1 = 0" by (simp add: tx_status_index_def demo_txq_def)
  then have "ixgbe_dev_tx_descriptor_status ?q 1 = Inr RTE_ETH_TX_DESC_FULL"
    by (simp add: ixgbe_dev_tx_descriptor_status_def demo_txq_def word_le_nat_alt)
  moreover have "arr_get (tx_ring ?q) (unat (tx_next_dd ?q)) =
      Inr \<lparr>buffer_addr = 0, cmd_type_len = 0, olinfo_status = IXGBE_ADVTXD_STAT_DD\<rparr>"
    by (simp add: demo_txq_def arr_get_def)
  ultimately show ?thesis by (intro exI [of _ ?q]) (simp add: demo_txq_def)
qed

end
