(* ===== verification/Ipc_Queue.thy ===== *)
theory Ipc_Queue
  imports Queue_Interface
begin

text \<open>
  The inter-process backend, \<open>lib/libcleanq/src/backends/ipc/ipcq.c\<close>: two processes share two
  frames of memory, one for each direction. A frame starts with an acknowledgement the reader
  writes, followed by a ring of descriptors the writer fills; a descriptor carries a sequence number
  that tells the reader whether it is new. Registering a region sends a command through the same
  ring, which the other end executes when it dequeues.

  An endpoint's record holds its view of both frames. \<open>peer\<close> is what the other endpoint sees after
  an operation, so that two endpoints make steps on shared memory.

  Contents: the operations; the invariant \<open>chan_ok\<close> of one direction and its list of messages; that
  dequeueing ends; that the queue is FIFO over all interleavings of the two processes, including a
  writer that is stopped while it fills a descriptor; that a region is known at the other end before
  the first buffer in it arrives.
\<close>

section \<open>State\<close>

definition CMD_REG :: u64 where "CMD_REG = 1"
definition CMD_DEREG :: u64 where "CMD_DEREG = 2"
definition IPCQ_DEFAULT_SIZE :: nat where "IPCQ_DEFAULT_SIZE = 64"

text \<open>\<open>struct desc\<close>: the six fields of a buffer, the sequence number and the command.\<close>

record ipc_desc =
  d_buf :: cleanq_buf
  d_seq :: u64
  d_cmd :: u64

record ipc_frame =
  fr_ack :: u64
  fr_descs :: "ipc_desc list"

record ipcq = cleanq +
  slots :: u64
  rx_seq :: u64
  tx_seq :: u64
  rx_frame :: ipc_frame
  tx_frame :: ipc_frame

text \<open>The functions the application wants called when the other end registers a region.\<close>

record ipcq_func_pointer =
  cb_reg :: "(ipcq \<Rightarrow> capref \<Rightarrow> regionid \<Rightarrow> (errval \<times> ipcq) cres) option"
  cb_dereg :: "(ipcq \<Rightarrow> regionid \<Rightarrow> (errval \<times> ipcq) cres) option"

section \<open>Operations\<close>

definition ipc_index :: "u64 \<Rightarrow> u64 \<Rightarrow> nat cres" where
  "ipc_index sq n = (if n = 0 then Inl Div_By_Zero else Inr (unat (sq mod n)))"

definition ipcq_can_read :: "ipcq \<Rightarrow> bool cres" where
  "ipcq_can_read q =
     bindc (ipc_index (rx_seq q) (slots q)) (\<lambda>tail.
     bindc (arr_get (fr_descs (rx_frame q)) tail) (\<lambda>d.
     Inr (\<not> d_seq d < rx_seq q)))"

definition ipcq_can_write :: "ipcq \<Rightarrow> bool" where
  "ipcq_can_write q \<longleftrightarrow> \<not> slots q \<le> tx_seq q - fr_ack (tx_frame q)"

definition ipcq_enqueue_internal :: "ipcq \<Rightarrow> cleanq_buf \<Rightarrow> u64 \<Rightarrow> (errval \<times> ipcq) cres" where
  "ipcq_enqueue_internal q b cmd =
     bindc (ipc_index (tx_seq q) (slots q)) (\<lambda>head.
       if \<not> ipcq_can_write q then Inr (CLEANQ_ERR_QUEUE_FULL, q)
       else bindc (arr_set (fr_descs (tx_frame q)) head \<lparr>d_buf = b, d_seq = tx_seq q, d_cmd = cmd\<rparr>) (\<lambda>ds.
            Inr (SYS_ERR_OK, q\<lparr>tx_frame := (tx_frame q)\<lparr>fr_descs := ds\<rparr>, tx_seq := tx_seq q + 1\<rparr>)))"

definition ipcq_enqueue :: "ipcq \<Rightarrow> cleanq_buf \<Rightarrow> (errval \<times> ipcq) cres" where
  "ipcq_enqueue q b = ipcq_enqueue_internal q b 0"

definition ipc_reg ::
  "libc \<Rightarrow> ipcq_func_pointer \<Rightarrow> ipcq \<Rightarrow> capref \<Rightarrow> regionid \<Rightarrow> (errval \<times> ipcq) cres" where
  "ipc_reg env f q cap rid =
     bindc (cleanq_add_region env q cap rid) (\<lambda>(err, q').
       if err_is_fail err then Inr (SYS_ERR_OK, q')
       else bindc (fcall (cb_reg f) (\<lambda>reg. reg q' cap rid)) (\<lambda>(err', q''). Inr (SYS_ERR_OK, q'')))"

text \<open>\<open>cap\<close> is the uninitialised local the removed region's capability is stored to.\<close>

definition ipc_dereg ::
  "ipcq_func_pointer \<Rightarrow> ipcq \<Rightarrow> regionid \<Rightarrow> capref \<Rightarrow> (errval \<times> ipcq) cres" where
  "ipc_dereg f q rid cap =
     bindc (cleanq_remove_region q rid cap) (\<lambda>(err, q').
       if err_is_fail err then Inr (SYS_ERR_OK, q')
       else bindc (fcall (cb_dereg f) (\<lambda>dereg. dereg q' rid)) (\<lambda>(err', q''). Inr (SYS_ERR_OK, q'')))"

text \<open>\<open>q->rx_seq++; q->rx_seq_ack->value = q->rx_seq\<close>\<close>

definition ipc_ack :: "ipcq \<Rightarrow> ipcq" where
  "ipc_ack q = q\<lparr>rx_seq := rx_seq q + 1, rx_frame := (rx_frame q)\<lparr>fr_ack := rx_seq q + 1\<rparr>\<rparr>"

text \<open>Executing a command: the capability is rebuilt from the message, where the address is both the
  virtual and the physical one.\<close>

definition ipc_command ::
  "libc \<Rightarrow> ipcq_func_pointer \<Rightarrow> ipcq \<Rightarrow> ipc_desc \<Rightarrow> capref \<Rightarrow> ipcq cres" where
  "ipc_command env f q d cap =
     (if d_cmd d = CMD_REG
      then bindc (ipc_reg env f q \<lparr>cap_vaddr = b_offset (d_buf d), cap_paddr = b_offset (d_buf d),
                                   cap_len = b_length (d_buf d)\<rparr> (b_rid (d_buf d))) (\<lambda>(err, q'). Inr q')
      else bindc (ipc_dereg f q (b_rid (d_buf d)) cap) (\<lambda>(err, q'). Inr q'))"

text \<open>The recursion of \<open>ipcq_dequeue\<close> executes the commands at the front of the ring. \<open>env s\<close> is what
  the C library answers while the message with sequence number \<open>s\<close> is handled.\<close>

partial_function (option) ipcq_dequeue_loop ::
  "(u64 \<Rightarrow> libc) \<Rightarrow> ipcq_func_pointer \<Rightarrow> capref \<Rightarrow> ipcq \<Rightarrow> cleanq_buf \<Rightarrow>
   (errval \<times> cleanq_buf \<times> ipcq) cres option" where
  "ipcq_dequeue_loop env f cap q b =
     (case ipcq_can_read q of
        Inl e \<Rightarrow> Some (Inl e)
      | Inr can_read \<Rightarrow>
          if \<not> can_read then Some (Inr (CLEANQ_ERR_QUEUE_EMPTY, b, q)) else
          let d = fr_descs (rx_frame q) ! unat (rx_seq q mod slots q) in
          if d_cmd d \<noteq> 0
          then case ipc_command (env (rx_seq q)) f q d cap of
                 Inl e \<Rightarrow> Some (Inl e)
               | Inr q' \<Rightarrow> ipcq_dequeue_loop env f cap (ipc_ack q') (b\<lparr>b_rid := b_rid (d_buf d)\<rparr>)
          else Some (Inr (SYS_ERR_OK, d_buf d, ipc_ack q)))"

definition ipcq_dequeue ::
  "(u64 \<Rightarrow> libc) \<Rightarrow> ipcq_func_pointer \<Rightarrow> capref \<Rightarrow> ipcq \<Rightarrow> cleanq_buf \<Rightarrow>
   (errval \<times> cleanq_buf \<times> ipcq) cres" where
  "ipcq_dequeue env f cap q b = run_loop (ipcq_dequeue_loop env f cap q b)"

text \<open>The two functions that send a command first spin until there is room. The room is made by the
  other process; on memory nobody else writes, the spin never ends.\<close>

definition ipcq_register :: "ipcq \<Rightarrow> capref \<Rightarrow> regionid \<Rightarrow> (errval \<times> ipcq) cres" where
  "ipcq_register q cap rid =
     (if \<not> ipcq_can_write q then Inl No_Return
      else ipcq_enqueue_internal q
             \<lparr>b_offset = cap_vaddr cap, b_length = cap_len cap, b_valid_data = 0, b_valid_length = 0,
              b_flags = 0, b_rid = rid\<rparr> CMD_REG)"

definition ipcq_deregister :: "ipcq \<Rightarrow> regionid \<Rightarrow> (errval \<times> ipcq) cres" where
  "ipcq_deregister q rid =
     (if \<not> ipcq_can_write q then Inl No_Return
      else ipcq_enqueue_internal q (empty_buf\<lparr>b_rid := rid\<rparr>) CMD_DEREG)"

text \<open>\<open>free\<close> leaves nothing of the queue; the frames belong to the system.\<close>

definition ipcq_destroy :: "ipcq \<Rightarrow> (errval \<times> ipcq option) cres" where
  "ipcq_destroy q = Inr (SYS_ERR_OK, None)"

definition ipcq_f :: "(u64 \<Rightarrow> libc) \<Rightarrow> ipcq_func_pointer \<Rightarrow> capref \<Rightarrow> ipcq cleanq_func_pointer" where
  "ipcq_f env f cap =
     \<lparr>f_reg = Some ipcq_register, f_dereg = Some ipcq_deregister, f_ctrl = None, f_notify = None,
      f_enq = Some ipcq_enqueue, f_deq = Some (ipcq_dequeue env f cap), f_destroy = None\<rparr>"

text \<open>What \<open>mmap\<close> returned: the code tests for NULL, a failure gives \<open>MAP_FAILED\<close>.\<close>

datatype ipc_mapping = Map_Null | Map_Failed | Mapped ipc_frame

definition zero_desc :: ipc_desc where
  "zero_desc = \<lparr>d_buf = empty_buf, d_seq = 0, d_cmd = 0\<rparr>"

definition init_frame :: "bool \<Rightarrow> ipc_frame \<Rightarrow> ipc_frame" where
  "init_frame clear fr =
     \<lparr>fr_ack = 0, fr_descs = if clear then replicate (IPCQ_DEFAULT_SIZE - 1) zero_desc else fr_descs fr\<rparr>"

text \<open>The result of \<open>cleanq_init\<close> is not looked at: without its memory the queue has no pool, and the
  first use of the pool is an access through NULL. Such a queue is the result \<open>None\<close> with success.\<close>

definition ipcq_create ::
  "bool \<Rightarrow> int \<Rightarrow> int \<Rightarrow> ipc_mapping \<Rightarrow> ipc_mapping \<Rightarrow> bool \<Rightarrow> bool \<Rightarrow> bool \<Rightarrow> u32 \<Rightarrow>
   (errval \<times> ipcq option) cres" where
  "ipcq_create calloc0 fd_send fd_recv tx_map rx_map clear calloc1 calloc2 rnd =
     (if \<not> calloc0 then Inl Assert_Failed
      else if \<not> (fd_send \<noteq> 0 \<and> fd_recv \<noteq> 0) then Inl Assert_Failed
      else if tx_map = Map_Null then Inr (CLEANQ_ERR_MALLOC_FAIL, None)
      else if rx_map = Map_Null then Inr (CLEANQ_ERR_MALLOC_FAIL, None)
      else case (tx_map, rx_map) of
             (Mapped tx, Mapped rx) \<Rightarrow>
               (case cleanq_init calloc1 calloc2 rnd of
                  (err, None) \<Rightarrow> Inr (SYS_ERR_OK, None)
                | (err, Some p) \<Rightarrow> Inr (SYS_ERR_OK, Some
                    \<lparr>cq_pool = p, cq_state = 0, slots = of_nat (IPCQ_DEFAULT_SIZE - 1), rx_seq = 1, tx_seq = 1,
                     rx_frame = init_frame clear rx, tx_frame = init_frame clear tx\<rparr>))
           | _ \<Rightarrow> Inl Bad_Memory)"

section \<open>One direction\<close>

text \<open>The messages of a frame that the reader, at \<open>rx\<close>, has not taken and the writer, at \<open>tx\<close>, has
  published.\<close>

definition messages :: "ipc_frame \<Rightarrow> u64 \<Rightarrow> u64 \<Rightarrow> ipc_desc list" where
  "messages fr rx tx = map (\<lambda>s. fr_descs fr ! (s mod 63)) [unat rx..<unat tx]"

text \<open>The acknowledgement never runs ahead of the reader nor the writer more than a ring ahead of the
  acknowledgement; an unread slot carries its own sequence number and every slot an old one.\<close>

definition chan_ok :: "ipc_frame \<Rightarrow> u64 \<Rightarrow> u64 \<Rightarrow> bool" where
  "chan_ok fr rx tx \<longleftrightarrow>
     length (fr_descs fr) = 63 \<and>
     unat (fr_ack fr) \<le> unat rx \<and> unat rx \<le> unat tx \<and> unat tx \<le> unat (fr_ack fr) + 63 \<and>
     (\<forall>s. unat rx \<le> s \<and> s < unat tx \<longrightarrow> unat (d_seq (fr_descs fr ! (s mod 63))) = s) \<and>
     (\<forall>i < 63. unat (d_seq (fr_descs fr ! i)) < unat tx)"

lemma chan_okD:
  assumes "chan_ok fr rx tx"
  shows "length (fr_descs fr) = 63" "unat (fr_ack fr) \<le> unat rx" "unat rx \<le> unat tx"
    "unat tx \<le> unat (fr_ack fr) + 63"
    "\<And>s. unat rx \<le> s \<Longrightarrow> s < unat tx \<Longrightarrow> unat (d_seq (fr_descs fr ! (s mod 63))) = s"
    "\<And>i. i < 63 \<Longrightarrow> unat (d_seq (fr_descs fr ! i)) < unat tx"
  using assms by (simp_all add: chan_ok_def)

lemma ipc_index_63 [simp]: "ipc_index sq 63 = Inr (unat sq mod 63)"
  by (simp add: ipc_index_def unat_mod_distrib)

lemma mod_window: "s < t \<Longrightarrow> t < s + N \<Longrightarrow> s mod N \<noteq> t mod (N :: nat)"
  using ring_pos_inj [of 0 "t - s" N s] by simp

text \<open>The slot at the writer's position holds no unread message as long as there is room.\<close>

lemma write_slot_free:
  assumes "chan_ok fr rx tx" "unat tx < unat (fr_ack fr) + 63" "unat rx \<le> s" "s < unat tx"
  shows "s mod 63 \<noteq> unat tx mod 63"
  using chan_okD(2) [OF assms(1)] assms(2-4) by (intro mod_window) linarith+

lemma chan_can_read:
  assumes "chan_ok (rx_frame q) (rx_seq q) tx" "slots q = 63"
  shows "ipcq_can_read q = Inr (rx_seq q < tx)"
proof -
  note d = chan_okD [OF assms(1)]
  let ?i = "unat (rx_seq q) mod 63"
  have "d_seq (fr_descs (rx_frame q) ! ?i) < rx_seq q \<longleftrightarrow> \<not> rx_seq q < tx"
  proof (cases "rx_seq q < tx")
    case True
    then show ?thesis using d(5) [of "unat (rx_seq q)"] by (simp add: word_less_nat_alt)
  next
    case False
    then show ?thesis using d(3) d(6) [of ?i] by (simp add: word_less_nat_alt)
  qed
  then show ?thesis using assms(2) d(1) by (simp add: ipcq_can_read_def)
qed

lemma chan_can_write:
  assumes "chan_ok (tx_frame q) rx (tx_seq q)" "slots q = 63"
  shows "ipcq_can_write q \<longleftrightarrow> unat (tx_seq q) < unat (fr_ack (tx_frame q)) + 63"
proof -
  have "fr_ack (tx_frame q) \<le> tx_seq q"
    using chan_okD(2,3) [OF assms(1)] by (simp add: word_le_nat_alt)
  then show ?thesis using assms(2) by (auto simp: ipcq_can_write_def word_le_nat_alt unat_sub)
qed

lemma chan_write:
  assumes ok: "chan_ok fr rx tx" and room: "unat tx < unat (fr_ack fr) + 63" and nw: "unat tx + 1 < 2 ^ 64"
    and d: "d_seq d = tx" and fr': "fr' = fr\<lparr>fr_descs := (fr_descs fr)[unat tx mod 63 := d]\<rparr>"
  shows "chan_ok fr' rx (tx + 1)" "messages fr' rx (tx + 1) = messages fr rx tx @ [d]"
proof -
  note c = chan_okD [OF ok]
  have u: "unat (tx + 1) = unat tx + 1" using nw by (simp add: unat_word_ariths)
  have old: "fr_descs fr' ! (s mod 63) = fr_descs fr ! (s mod 63)" if "unat rx \<le> s" "s < unat tx" for s
    using write_slot_free [OF ok room that] by (simp add: fr')
  have new: "fr_descs fr' ! (unat tx mod 63) = d" using c(1) by (simp add: fr')
  show "messages fr' rx (tx + 1) = messages fr rx tx @ [d]"
    using c(3) old new by (auto simp: messages_def u)
  have "unat (d_seq (fr_descs fr' ! (s mod 63))) = s" if "unat rx \<le> s" "s < unat tx + 1" for s
    using that old c(5) new d by (cases "s = unat tx") auto
  moreover have "unat (d_seq (fr_descs fr' ! i)) < unat tx + 1" if "i < 63" for i
    using that c(1) c(6) [OF that] d by (auto simp: fr' nth_list_update)
  ultimately show "chan_ok fr' rx (tx + 1)" using c room by (simp add: chan_ok_def u fr')
qed

text \<open>A descriptor that is filled but not yet published changes nothing for the reader.\<close>

lemma chan_fill:
  assumes ok: "chan_ok fr rx tx" and room: "unat tx < unat (fr_ack fr) + 63"
    and d: "d_seq d = d_seq (fr_descs fr ! (unat tx mod 63))"
    and fr': "fr' = fr\<lparr>fr_descs := (fr_descs fr)[unat tx mod 63 := d]\<rparr>"
  shows "chan_ok fr' rx tx" "messages fr' rx tx = messages fr rx tx"
proof -
  note c = chan_okD [OF ok]
  have old: "fr_descs fr' ! (s mod 63) = fr_descs fr ! (s mod 63)" if "unat rx \<le> s" "s < unat tx" for s
    using write_slot_free [OF ok room that] by (simp add: fr')
  then show "messages fr' rx tx = messages fr rx tx" by (simp add: messages_def)
  have "unat (d_seq (fr_descs fr' ! i)) < unat tx" if "i < 63" for i
    using c(1) c(6) [OF that] d by (cases "i = unat tx mod 63") (simp_all add: fr')
  then show "chan_ok fr' rx tx" using c old by (simp add: chan_ok_def fr')
qed

lemma chan_read:
  assumes ok: "chan_ok fr rx tx" and lt: "rx < tx" and fr': "fr' = fr\<lparr>fr_ack := rx + 1\<rparr>"
  shows "chan_ok fr' (rx + 1) tx" "messages fr rx tx = fr_descs fr ! (unat rx mod 63) # messages fr' (rx + 1) tx"
    "unat (rx + 1) = unat rx + 1"
proof -
  note c = chan_okD [OF ok]
  have l: "unat rx < unat tx" using lt by (simp add: word_less_nat_alt)
  then show u: "unat (rx + 1) = unat rx + 1"
    using unat_u64_bound [of tx] by (simp add: unat_word_ariths)
  then show "chan_ok fr' (rx + 1) tx" using c l by (simp add: chan_ok_def fr')
  show "messages fr rx tx = fr_descs fr ! (unat rx mod 63) # messages fr' (rx + 1) tx"
    using l by (simp add: messages_def u upt_conv_Cons fr')
qed

section \<open>One endpoint\<close>

text \<open>The buffers among the messages; the others are commands.\<close>

definition data :: "ipc_desc list \<Rightarrow> cleanq_buf list" where
  "data ms = map d_buf (filter (\<lambda>d. d_cmd d = 0) ms)"

lemma data_simps [simp]:
  "data [] = []" "data (d # ms) = (if d_cmd d = 0 then d_buf d # data ms else data ms)"
  "data (ms @ ms') = data ms @ data ms'"
  by (simp_all add: data_def)

lemma enqueue_internal_full:
  "slots q = 63 \<Longrightarrow> \<not> ipcq_can_write q \<Longrightarrow> ipcq_enqueue_internal q b cmd = Inr (CLEANQ_ERR_QUEUE_FULL, q)"
  by (simp add: ipcq_enqueue_internal_def)

lemma enqueue_internal_spec:
  assumes ok: "chan_ok (tx_frame q) rx (tx_seq q)" "slots q = 63" and w: "ipcq_can_write q"
    and nw: "unat (tx_seq q) + 1 < 2 ^ 64"
  obtains fr where "ipcq_enqueue_internal q b cmd = Inr (CLEANQ_ERR_OK, q\<lparr>tx_frame := fr, tx_seq := tx_seq q + 1\<rparr>)"
    "chan_ok fr rx (tx_seq q + 1)"
    "messages fr rx (tx_seq q + 1) =
       messages (tx_frame q) rx (tx_seq q) @ [\<lparr>d_buf = b, d_seq = tx_seq q, d_cmd = cmd\<rparr>]"
proof -
  let ?d = "\<lparr>d_buf = b, d_seq = tx_seq q, d_cmd = cmd\<rparr>"
  let ?fr = "(tx_frame q)\<lparr>fr_descs := (fr_descs (tx_frame q))[unat (tx_seq q) mod 63 := ?d]\<rparr>"
  have "ipcq_enqueue_internal q b cmd = Inr (CLEANQ_ERR_OK, q\<lparr>tx_frame := ?fr, tx_seq := tx_seq q + 1\<rparr>)"
    using w ok(2) chan_okD(1) [OF ok(1)] by (simp add: ipcq_enqueue_internal_def)
  then show thesis
    using that chan_write [OF ok(1) chan_can_write [OF ok, THEN iffD1, OF w] nw, of ?d ?fr] by simp
qed

text \<open>The functions the application supplies may fail but leave the queue alone.\<close>

definition plain_callbacks :: "ipcq_func_pointer \<Rightarrow> bool" where
  "plain_callbacks f \<longleftrightarrow>
     (\<exists>reg. cb_reg f = Some reg \<and> (\<forall>q cap rid. \<exists>err. reg q cap rid = Inr (err, q))) \<and>
     (\<exists>dereg. cb_dereg f = Some dereg \<and> (\<forall>q rid. \<exists>err. dereg q rid = Inr (err, q)))"

lemma ipc_command_pool:
  assumes "plain_callbacks f" "ipc_command env f q d cap = Inr q'"
  obtains p where "q' = q\<lparr>cq_pool := p\<rparr>"
proof -
  obtain reg dereg where "cb_reg f = Some reg" "\<And>q cap rid. \<exists>err. reg q cap rid = Inr (err, q)"
    "cb_dereg f = Some dereg" "\<And>q rid. \<exists>err. dereg q rid = Inr (err, q)"
    using assms(1) by (auto simp: plain_callbacks_def)
  then have "\<exists>p. q' = q\<lparr>cq_pool := p\<rparr>"
    using assms(2) unfolding ipc_command_def ipc_reg_def ipc_dereg_def cleanq_add_region_def cleanq_remove_region_def
    by (auto simp: bindc_eq_Inr split: if_splits) (metis Pair_inject Inr_inject)+
  then show thesis using that by blast
qed

text \<open>One round of dequeueing, on a frame in order.\<close>

lemma dequeue_loop_unfold:
  assumes "chan_ok (rx_frame q) (rx_seq q) tx" "slots q = 63"
  shows "ipcq_dequeue_loop env f cap q b =
    (if rx_seq q < tx
     then let d = fr_descs (rx_frame q) ! (unat (rx_seq q) mod 63) in
          if d_cmd d = 0 then Some (Inr (SYS_ERR_OK, d_buf d, ipc_ack q))
          else case ipc_command (env (rx_seq q)) f q d cap of
                 Inl e \<Rightarrow> Some (Inl e)
               | Inr q' \<Rightarrow> ipcq_dequeue_loop env f cap (ipc_ack q') (b\<lparr>b_rid := b_rid (d_buf d)\<rparr>)
     else Some (Inr (CLEANQ_ERR_QUEUE_EMPTY, b, q)))"
  using chan_can_read [OF assms] assms(2)
  by (subst ipcq_dequeue_loop.simps) (simp add: unat_mod_distrib Let_def)

lemma ipc_ack_eq:
  "ipc_ack (q\<lparr>cq_pool := p\<rparr>) =
     q\<lparr>cq_pool := p, rx_frame := (rx_frame q)\<lparr>fr_ack := rx_seq q + 1\<rparr>, rx_seq := rx_seq q + 1\<rparr>"
  "ipc_ack q =
     q\<lparr>cq_pool := cq_pool q, rx_frame := (rx_frame q)\<lparr>fr_ack := rx_seq q + 1\<rparr>, rx_seq := rx_seq q + 1\<rparr>"
  by (simp_all add: ipc_ack_def)

text \<open>What dequeueing has done: the reader moved on, past commands only or past commands and one
  buffer, and its pool may have changed.\<close>

definition dequeued :: "u64 \<Rightarrow> ipcq \<Rightarrow> errval \<Rightarrow> cleanq_buf \<Rightarrow> ipcq \<Rightarrow> bool" where
  "dequeued tx q err b' q' \<longleftrightarrow>
     (\<exists>p fr rx. q' = q\<lparr>cq_pool := p, rx_frame := fr, rx_seq := rx\<rparr> \<and> chan_ok fr rx tx \<and>
        (if err = CLEANQ_ERR_QUEUE_EMPTY
         then data (messages (rx_frame q) (rx_seq q) tx) = [] \<and> data (messages fr rx tx) = []
         else err = CLEANQ_ERR_OK \<and>
              data (messages (rx_frame q) (rx_seq q) tx) = b' # data (messages fr rx tx)))"

lemma dequeued_after_command:
  assumes "dequeued tx q1 err b' q'" "q1 = q\<lparr>cq_pool := p, rx_frame := fr, rx_seq := rx\<rparr>"
    "data (messages (rx_frame q) (rx_seq q) tx) = data (messages fr rx tx)"
  shows "dequeued tx q err b' q'"
proof -
  obtain p' fr' rx' where "q' = q1\<lparr>cq_pool := p', rx_frame := fr', rx_seq := rx'\<rparr>" "chan_ok fr' rx' tx"
    "if err = CLEANQ_ERR_QUEUE_EMPTY
     then data (messages (rx_frame q1) (rx_seq q1) tx) = [] \<and> data (messages fr' rx' tx) = []
     else err = CLEANQ_ERR_OK \<and> data (messages (rx_frame q1) (rx_seq q1) tx) = b' # data (messages fr' rx' tx)"
    using assms(1) unfolding dequeued_def by blast
  then show ?thesis unfolding dequeued_def using assms(2,3)
    by (intro exI [of _ p'] exI [of _ fr'] exI [of _ rx']) (simp split: if_splits)
qed

text \<open>Dequeueing ends: it executes the commands up to the first buffer.\<close>

lemma dequeue_loop_spec:
  assumes f: "plain_callbacks f"
  shows "chan_ok (rx_frame q) (rx_seq q) tx \<Longrightarrow> slots q = 63 \<Longrightarrow>
    \<exists>r. ipcq_dequeue_loop env f cap q b = Some r \<and>
      (\<forall>err b' q'. r = Inr (err, b', q') \<longrightarrow> dequeued tx q err b' q')"
proof (induction "length (messages (rx_frame q) (rx_seq q) tx)" arbitrary: q b rule: less_induct)
  case less
  note unfold = dequeue_loop_unfold [OF less.prems, of env f cap b]
  show ?case
  proof (cases "rx_seq q < tx")
    case False
    then have "messages (rx_frame q) (rx_seq q) tx = []" by (simp add: messages_def word_less_nat_alt)
    then show ?thesis using less.prems unfold False
      by (auto simp: dequeued_def intro!: exI [of _ "cq_pool q"] exI [of _ "rx_frame q"] exI [of _ "rx_seq q"])
  next
    case True
    define d where "d = fr_descs (rx_frame q) ! (unat (rx_seq q) mod 63)"
    define fr where "fr = (rx_frame q)\<lparr>fr_ack := rx_seq q + 1\<rparr>"
    note rd = chan_read [OF less.prems(1) True fr_def, folded d_def]
    consider (buffer) "d_cmd d = 0" | (fault) e where "d_cmd d \<noteq> 0" "ipc_command (env (rx_seq q)) f q d cap = Inl e"
      | (cmd) q1 where "d_cmd d \<noteq> 0" "ipc_command (env (rx_seq q)) f q d cap = Inr q1"
      by (cases "ipc_command (env (rx_seq q)) f q d cap") auto
    then show ?thesis
    proof cases
      case buffer
      then show ?thesis using unfold True rd ipc_ack_eq(2) [of q, folded fr_def]
        by (auto simp: dequeued_def Let_def d_def intro!: exI [of _ "cq_pool q"] exI [of _ fr] exI [of _ "rx_seq q + 1"])
    next
      case fault
      then show ?thesis using unfold True by (simp add: Let_def d_def)
    next
      case cmd
      obtain p where q1: "q1 = q\<lparr>cq_pool := p\<rparr>" using ipc_command_pool [OF f cmd(2)] .
      have a: "ipc_ack q1 = q\<lparr>cq_pool := p, rx_frame := fr, rx_seq := rx_seq q + 1\<rparr>"
        by (simp add: q1 ipc_ack_eq fr_def)
      have "length (messages fr (rx_seq q + 1) tx) < length (messages (rx_frame q) (rx_seq q) tx)"
        using rd(2) by simp
      then have "length (messages (rx_frame (ipc_ack q1)) (rx_seq (ipc_ack q1)) tx) <
          length (messages (rx_frame q) (rx_seq q) tx)" by (simp add: a)
      from less.hyps [OF this, of "b\<lparr>b_rid := b_rid (d_buf d)\<rparr>"] show ?thesis
        using rd(1,2) less.prems(2) unfold True cmd dequeued_after_command [OF _ a]
        by (auto simp: a Let_def d_def [symmetric])
    qed
  qed
qed

section \<open>Two endpoints\<close>

text \<open>What the other endpoint sees of the memory an operation of this one has written.\<close>

definition peer :: "ipcq \<Rightarrow> ipcq \<Rightarrow> ipcq" where
  "peer q q' = q'\<lparr>rx_frame := tx_frame q, tx_frame := rx_frame q\<rparr>"

definition ipc_ok :: "ipcq \<Rightarrow> ipcq \<Rightarrow> bool" where
  "ipc_ok a b \<longleftrightarrow> slots a = 63 \<and> slots b = 63 \<and> rx_frame b = tx_frame a \<and> rx_frame a = tx_frame b \<and>
     chan_ok (tx_frame a) (rx_seq b) (tx_seq a) \<and> chan_ok (tx_frame b) (rx_seq a) (tx_seq b)"

text \<open>The buffers on their way from \<open>a\<close> to \<open>b\<close>.\<close>

definition in_transit :: "ipcq \<Rightarrow> ipcq \<Rightarrow> cleanq_buf list" where
  "in_transit a b = data (messages (tx_frame a) (rx_seq b) (tx_seq a))"

lemma ipc_ok_sym: "ipc_ok a b \<longleftrightarrow> ipc_ok b a"
  by (auto simp: ipc_ok_def)

text \<open>A writer that was stopped while it fills the descriptor at its position: any of the fields may
  be written, the sequence number is not.\<close>

definition ipcq_fill :: "ipcq \<Rightarrow> cleanq_buf \<Rightarrow> u64 \<Rightarrow> ipcq" where
  "ipcq_fill q b cmd =
     (let i = unat (tx_seq q mod slots q); ds = fr_descs (tx_frame q) in
      q\<lparr>tx_frame := (tx_frame q)\<lparr>fr_descs := ds[i := (ds ! i)\<lparr>d_buf := b, d_cmd := cmd\<rparr>]\<rparr>\<rparr>)"

text \<open>Finishing the interrupted call has the effect of the whole call.\<close>

lemma enqueue_after_fill:
  "slots q \<noteq> 0 \<Longrightarrow> length (fr_descs (tx_frame q)) = unat (slots q) \<Longrightarrow> ipcq_can_write q \<Longrightarrow>
   ipcq_enqueue_internal (ipcq_fill q b' cmd') b cmd = ipcq_enqueue_internal q b cmd"
  by (simp add: ipcq_enqueue_internal_def ipcq_fill_def Let_def ipcq_can_write_def ipc_index_def
      unat_mod_distrib unat_gt_0)

text \<open>What one endpoint can do. \<open>Sent\<close> and \<open>Took\<close> are the buffers put into and taken out of a ring; a
  buffer that the receiving interface refuses has been taken out. The sequence numbers do not wrap
  around, which takes \<open>2 ^ 64\<close> messages.\<close>

datatype ipc_event = Sent cleanq_buf | Took cleanq_buf | Silent

inductive ipc_step :: "ipcq_func_pointer \<Rightarrow> ipcq \<Rightarrow> ipc_event \<Rightarrow> ipcq \<Rightarrow> bool" for f where
  enqueue: "cleanq_enqueue (ipcq_f env f cap) q b = Inr (err, q') \<Longrightarrow> unat (tx_seq q) + 1 < 2 ^ 64 \<Longrightarrow>
    ipc_step f q (if err = CLEANQ_ERR_OK then Sent b else Silent) q'"
| dequeue: "cleanq_dequeue (ipcq_f env f cap) q b = Inr (err, b', q') \<Longrightarrow>
    ipc_step f q (if err = CLEANQ_ERR_QUEUE_EMPTY then Silent else Took b') q'"
| register: "cleanq_register env' (ipcq_f env f cap') q cap rid = Inr (err, rid', q') \<Longrightarrow>
    unat (tx_seq q) + 1 < 2 ^ 64 \<Longrightarrow> ipc_step f q Silent q'"
| deregister: "cleanq_deregister (ipcq_f env f cap') q rid cap = Inr (err, cap'', q') \<Longrightarrow>
    unat (tx_seq q) + 1 < 2 ^ 64 \<Longrightarrow> ipc_step f q Silent q'"
| fill: "ipcq_can_write q \<Longrightarrow> ipc_step f q Silent (ipcq_fill q b cmd)"

fun sent :: "ipc_event \<Rightarrow> cleanq_buf list" where
  "sent (Sent b) = [b]"
| "sent _ = []"

fun took :: "ipc_event \<Rightarrow> cleanq_buf list" where
  "took (Took b) = [b]"
| "took _ = []"

text \<open>The two processes take turns in any order; \<open>ins\<close> are the buffers \<open>a\<close> sent and \<open>outs\<close> those \<open>b\<close> took.\<close>

inductive ipc_run ::
  "ipcq_func_pointer \<Rightarrow> ipcq_func_pointer \<Rightarrow> ipcq \<Rightarrow> ipcq \<Rightarrow> ipcq \<Rightarrow> ipcq \<Rightarrow> cleanq_buf list \<Rightarrow> cleanq_buf list \<Rightarrow> bool"
  for f g a0 b0 where
  start: "ipc_run f g a0 b0 a0 b0 [] []"
| left: "ipc_run f g a0 b0 a b ins outs \<Longrightarrow> ipc_step f a ev a' \<Longrightarrow>
    ipc_run f g a0 b0 a' (peer a' b) (ins @ sent ev) outs"
| right: "ipc_run f g a0 b0 a b ins outs \<Longrightarrow> ipc_step g b ev b' \<Longrightarrow>
    ipc_run f g a0 b0 (peer b' a) b' ins (outs @ took ev)"

section \<open>Every step keeps the channels\<close>

text \<open>The four kinds of change a step makes.\<close>

lemma ipc_ok_pool: "ipc_ok a b \<Longrightarrow> ipc_ok (a\<lparr>cq_pool := p\<rparr>) b"
  "in_transit (a\<lparr>cq_pool := p\<rparr>) b = in_transit a b" "in_transit b (a\<lparr>cq_pool := p\<rparr>) = in_transit b a"
  by (simp_all add: ipc_ok_def in_transit_def)

lemma ipc_ok_same: "ipc_ok a b \<Longrightarrow> peer a b = b"
  by (simp add: ipc_ok_def peer_def)

lemma ipc_ok_send:
  assumes ok: "ipc_ok a b" and nw: "unat (tx_seq a) + 1 < 2 ^ 64"
    and e: "ipcq_enqueue_internal a x cmd = Inr (err, a')"
  shows "ipc_ok a' (peer a' b) \<and> in_transit (peer a' b) a' = in_transit b a \<and>
    (if err = CLEANQ_ERR_OK
     then in_transit a' (peer a' b) = in_transit a b @ (if cmd = 0 then [x] else [])
     else err = CLEANQ_ERR_QUEUE_FULL \<and> a' = a)"
proof (cases "ipcq_can_write a")
  case False
  then show ?thesis using ok e enqueue_internal_full [of a x cmd] ipc_ok_same [OF ok] by (auto simp: ipc_ok_def)
next
  case True
  have c: "chan_ok (tx_frame a) (rx_seq b) (tx_seq a)" "slots a = 63" using ok by (auto simp: ipc_ok_def)
  obtain fr where fr: "a' = a\<lparr>tx_frame := fr, tx_seq := tx_seq a + 1\<rparr>" "err = CLEANQ_ERR_OK"
    "chan_ok fr (rx_seq b) (tx_seq a + 1)"
    "messages fr (rx_seq b) (tx_seq a + 1) =
       messages (tx_frame a) (rx_seq b) (tx_seq a) @ [\<lparr>d_buf = x, d_seq = tx_seq a, d_cmd = cmd\<rparr>]"
    using enqueue_internal_spec [OF c True nw, of x cmd] e by (metis Inr_inject Pair_inject)
  then show ?thesis using ok by (simp add: ipc_ok_def peer_def in_transit_def)
qed

lemma ipc_ok_receive:
  assumes ok: "ipc_ok a b" and a': "a' = a\<lparr>cq_pool := p, rx_frame := fr, rx_seq := rx\<rparr>"
    and c: "chan_ok fr rx (tx_seq b)"
  shows "ipc_ok a' (peer a' b)" "in_transit a' (peer a' b) = in_transit a b"
    "in_transit (peer a' b) a' = data (messages fr rx (tx_seq b))"
  using ok c by (simp_all add: a' ipc_ok_def peer_def in_transit_def)

lemma ipc_ok_fill:
  assumes ok: "ipc_ok a b" and w: "ipcq_can_write a"
  shows "ipc_ok (ipcq_fill a x cmd) (peer (ipcq_fill a x cmd) b)"
    "in_transit (ipcq_fill a x cmd) (peer (ipcq_fill a x cmd) b) = in_transit a b"
    "in_transit (peer (ipcq_fill a x cmd) b) (ipcq_fill a x cmd) = in_transit b a"
proof -
  have c: "chan_ok (tx_frame a) (rx_seq b) (tx_seq a)" "slots a = 63" using ok by (auto simp: ipc_ok_def)
  note room = chan_can_write [OF c, THEN iffD1, OF w]
  define fr where "fr = tx_frame (ipcq_fill a x cmd)"
  have "chan_ok fr (rx_seq b) (tx_seq a)" "messages fr (rx_seq b) (tx_seq a) = messages (tx_frame a) (rx_seq b) (tx_seq a)"
    using chan_fill [OF c(1) room, of "(fr_descs (tx_frame a) ! (unat (tx_seq a) mod 63))\<lparr>d_buf := x, d_cmd := cmd\<rparr>"] c(2)
    by (simp_all add: fr_def ipcq_fill_def Let_def unat_mod_distrib)
  moreover have "ipcq_fill a x cmd = a\<lparr>tx_frame := fr\<rparr>" by (simp add: fr_def ipcq_fill_def Let_def)
  ultimately show "ipc_ok (ipcq_fill a x cmd) (peer (ipcq_fill a x cmd) b)"
    "in_transit (ipcq_fill a x cmd) (peer (ipcq_fill a x cmd) b) = in_transit a b"
    "in_transit (peer (ipcq_fill a x cmd) b) (ipcq_fill a x cmd) = in_transit b a"
    using ok by (simp_all add: ipc_ok_def peer_def in_transit_def)
qed

lemma register_enqueues:
  assumes "ipcq_register q cap rid = Inr (err, q')"
  obtains x where "ipcq_enqueue_internal q x CMD_REG = Inr (err, q')"
  using assms that by (auto simp: ipcq_register_def split: if_splits)

lemma deregister_enqueues:
  assumes "ipcq_deregister q rid = Inr (err, q')"
  obtains x where "ipcq_enqueue_internal q x CMD_DEREG = Inr (err, q')"
  using assms that by (auto simp: ipcq_deregister_def split: if_splits)

text \<open>What a step of \<open>a\<close> that sends \<open>s\<close> and takes \<open>t\<close> keeps.\<close>

definition keeps :: "ipcq \<Rightarrow> ipcq \<Rightarrow> ipcq \<Rightarrow> cleanq_buf list \<Rightarrow> cleanq_buf list \<Rightarrow> bool" where
  "keeps a b a' s t \<longleftrightarrow> ipc_ok a' (peer a' b) \<and> in_transit a' (peer a' b) = in_transit a b @ s \<and>
     in_transit b a = t @ in_transit (peer a' b) a'"

lemma keeps_pool:
  assumes "ipc_ok a b"
  shows "keeps a b (a\<lparr>cq_pool := p\<rparr>) [] []"
  using ipc_ok_pool(1) [OF assms, of p] ipc_ok_same [OF ipc_ok_pool(1) [OF assms, of p]]
  by (simp add: keeps_def ipc_ok_pool)

lemma keeps_same: "ipc_ok a b \<Longrightarrow> keeps a b a [] []"
  by (simp add: keeps_def ipc_ok_same)

lemma keeps_command:
  assumes ok: "ipc_ok a b" and nw: "unat (tx_seq a) + 1 < 2 ^ 64" and cmd: "cmd \<noteq> 0"
    and e: "ipcq_enqueue_internal (a\<lparr>cq_pool := p\<rparr>) x cmd = Inr (err, a')"
  shows "keeps a b a' [] []"
proof -
  have nw': "unat (tx_seq (a\<lparr>cq_pool := p\<rparr>)) + 1 < 2 ^ 64" using nw by simp
  from ipc_ok_send [OF ipc_ok_pool(1) [OF ok, of p] nw' e] show ?thesis
    using cmd keeps_pool [OF ok, of p] by (auto simp: keeps_def ipc_ok_pool split: if_splits)
qed

lemma keeps_enqueue:
  assumes ok: "ipc_ok a b" and nw: "unat (tx_seq a) + 1 < 2 ^ 64"
    and e: "cleanq_enqueue (ipcq_f env f cap) a x = Inr (err, a')"
  shows "keeps a b a' (if err = CLEANQ_ERR_OK then [x] else []) []"
proof -
  consider "a' = a" "err = CLEANQ_ERR_INVALID_BUFFER_ARGS" | "ipcq_enqueue_internal a x 0 = Inr (err, a')"
    using e by (auto simp: cleanq_enqueue_def bindc_eq_Inr ipcq_f_def ipcq_enqueue_def split: if_splits)
  then show ?thesis
  proof cases
    case 2
    from ipc_ok_send [OF ok nw this] show ?thesis using keeps_same [OF ok] by (auto simp: keeps_def split: if_splits)
  qed (use keeps_same [OF ok] in simp)
qed

lemma keeps_dequeue:
  assumes f: "plain_callbacks f" and ok: "ipc_ok a b"
    and e: "cleanq_dequeue (ipcq_f env f cap) a x = Inr (err, x', a')"
  shows "keeps a b a' [] (if err = CLEANQ_ERR_QUEUE_EMPTY then [] else [x'])"
proof -
  obtain err0 where d: "ipcq_dequeue env f cap a x = Inr (err0, x', a')"
    "err0 = CLEANQ_ERR_QUEUE_EMPTY \<longleftrightarrow> err = CLEANQ_ERR_QUEUE_EMPTY"
    using e by (auto simp: cleanq_dequeue_def bindc_eq_Inr ipcq_f_def err_is_fail_def split: if_splits)
  have c: "chan_ok (rx_frame a) (rx_seq a) (tx_seq b)" "slots a = 63" using ok by (auto simp: ipc_ok_def)
  from dequeue_loop_spec [OF f this, of env cap x] d(1) have "dequeued (tx_seq b) a err0 x' a'"
    by (auto simp: ipcq_dequeue_def)
  then obtain p fr rx where q: "a' = a\<lparr>cq_pool := p, rx_frame := fr, rx_seq := rx\<rparr>" "chan_ok fr rx (tx_seq b)"
    "data (messages (rx_frame a) (rx_seq a) (tx_seq b)) =
      (if err0 = CLEANQ_ERR_QUEUE_EMPTY then [] else [x']) @ data (messages fr rx (tx_seq b))"
    unfolding dequeued_def by (auto split: if_splits)
  moreover have "in_transit b a = data (messages (rx_frame a) (rx_seq a) (tx_seq b))"
    using ok by (simp add: in_transit_def ipc_ok_def)
  ultimately show ?thesis using ipc_ok_receive [OF ok q(1,2)] d(2) by (simp add: keeps_def)
qed

lemma keeps_control:
  assumes ok: "ipc_ok a b" and nw: "unat (tx_seq a) + 1 < 2 ^ 64"
    and e: "cleanq_register env' (ipcq_f env f cap') a cap rid = Inr (err, rid', a') \<or>
      cleanq_deregister (ipcq_f env f cap') a rid cap = Inr (err, cap'', a')"
  shows "keeps a b a' [] []"
proof -
  obtain p where "a' = a\<lparr>cq_pool := p\<rparr> \<or> ipcq_register (a\<lparr>cq_pool := p\<rparr>) cap rid' = Inr (err, a') \<or>
      ipcq_deregister (a\<lparr>cq_pool := p\<rparr>) rid = Inr (err, a')"
    using e by (auto simp: cleanq_register_def cleanq_deregister_def bindc_eq_Inr ipcq_f_def Let_def
        split: if_splits)
  then consider "a' = a\<lparr>cq_pool := p\<rparr>" | x where "ipcq_enqueue_internal (a\<lparr>cq_pool := p\<rparr>) x CMD_REG = Inr (err, a')"
    | x where "ipcq_enqueue_internal (a\<lparr>cq_pool := p\<rparr>) x CMD_DEREG = Inr (err, a')"
    by (metis register_enqueues deregister_enqueues)
  then show ?thesis
  proof cases
    case 2
    from keeps_command [OF ok nw _ this] show ?thesis by (simp add: CMD_REG_def)
  next
    case 3
    from keeps_command [OF ok nw _ this] show ?thesis by (simp add: CMD_DEREG_def)
  qed (use keeps_pool [OF ok, of p] in simp)
qed

lemma ipc_step_keeps:
  assumes f: "plain_callbacks f" and ok: "ipc_ok a b" and st: "ipc_step f a ev a'"
  shows "keeps a b a' (sent ev) (took ev)"
  using st
proof cases
  case (enqueue env cap x err)
  then show ?thesis using keeps_enqueue [OF ok enqueue(3,2)] by (simp split: if_splits)
next
  case (dequeue env cap x err x')
  then show ?thesis using keeps_dequeue [OF f ok dequeue(2)] by (simp split: if_splits)
next
  case (register env' env cap' cap rid err rid')
  then show ?thesis using keeps_control [OF ok register(3) disjI1] by simp
next
  case (deregister env cap' rid cap err cap'')
  then show ?thesis using keeps_control [OF ok deregister(3) disjI2] by simp
next
  case (fill x cmd)
  then show ?thesis using ipc_ok_fill [OF ok, of x cmd] by (simp add: keeps_def)
qed

section \<open>Creating the two ends\<close>

lemma chan_ok_new: "chan_ok (init_frame True fr) 1 1" "messages fr' 1 1 = []"
  by (simp_all add: chan_ok_def messages_def init_frame_def IPCQ_DEFAULT_SIZE_def zero_desc_def)

lemma ipcq_create_pair:
  assumes "ipcq_create c0 fs fr (Mapped m1) (Mapped m2) True c1 c2 rnd = Inr (err, Some a)"
    and "ipcq_create c0' fs' fr' (Mapped m2') (Mapped m1') True c1' c2' rnd' = Inr (err', Some b)"
  shows "ipc_ok a b" "in_transit a b = []" "in_transit b a = []"
proof -
  have "init_frame True m = init_frame True m1" for m by (simp add: init_frame_def)
  then show "ipc_ok a b" "in_transit a b = []" "in_transit b a = []"
    using assms chan_ok_new
    by (auto simp: ipcq_create_def ipc_ok_def in_transit_def IPCQ_DEFAULT_SIZE_def split: if_splits prod.splits option.splits)
      (simp add: init_frame_def)
qed

text \<open>An endpoint as it is created, and callbacks that do nothing.\<close>

definition demo_ipcq :: "region_pool \<Rightarrow> ipcq" where
  "demo_ipcq p =
     (let fr = init_frame True \<lparr>fr_ack = 0, fr_descs = []\<rparr> in
      \<lparr>cq_pool = p, cq_state = 0, slots = 63, rx_seq = 1, tx_seq = 1, rx_frame = fr, tx_frame = fr\<rparr>)"

definition demo_callbacks :: ipcq_func_pointer where
  "demo_callbacks = \<lparr>cb_reg = Some (\<lambda>q cap rid. Inr (CLEANQ_ERR_OK, q)),
                     cb_dereg = Some (\<lambda>q rid. Inr (CLEANQ_ERR_OK, q))\<rparr>"

lemma demo_callbacks_plain: "plain_callbacks demo_callbacks"
  by (simp add: plain_callbacks_def demo_callbacks_def)

lemma demo_ipcq_ok: "ipc_ok (demo_ipcq p) (demo_ipcq p')"
  "messages (tx_frame (demo_ipcq p)) (rx_seq (demo_ipcq p')) (tx_seq (demo_ipcq p)) = []"
  using chan_ok_new by (simp_all add: demo_ipcq_def ipc_ok_def Let_def)

section \<open>A region reaches the other end before its buffers\<close>

text \<open>A pool that has room for a region, and memory for it.\<close>

definition pool_ready :: "libc \<Rightarrow> region_pool \<Rightarrow> bool" where
  "pool_ready env p \<longleftrightarrow> pool_inv p \<and> unat (num_regions p) < 32768 \<and>
     malloc_ok (region_alloc p) (malloc_ret env) \<and> malloc_ret env \<noteq> 0 \<and> calloc_ok env"

text \<open>The region as the other end learns it: the physical address is replaced by the virtual one.\<close>

definition sent_cap :: "capref \<Rightarrow> capref" where
  "sent_cap cap = cap\<lparr>cap_paddr := cap_vaddr cap\<rparr>"

definition reg_message :: "capref \<Rightarrow> regionid \<Rightarrow> u64 \<Rightarrow> ipc_desc" where
  "reg_message cap rid sq =
     \<lparr>d_buf = \<lparr>b_offset = cap_vaddr cap, b_length = cap_len cap, b_valid_data = 0, b_valid_length = 0,
               b_flags = 0, b_rid = rid\<rparr>, d_seq = sq, d_cmd = CMD_REG\<rparr>"

lemma ipc_command_reg:
  assumes f: "plain_callbacks f" and p: "pool_ready env (cq_pool q)" "pool_map (cq_pool q) = Map.empty"
  obtains p' where "ipc_command env f q (reg_message cap rid sq) c = Inr (q\<lparr>cq_pool := p'\<rparr>)" "pool_inv p'"
    "pool_map p' = [rid \<mapsto> new_region rid (sent_cap cap)]"
proof -
  obtain k where k: "pool_inv_at k (cq_pool q)" using p(1) by (auto simp: pool_ready_def pool_inv_def)
  obtain p' where p': "region_pool_add_region_with_id env (cq_pool q) (sent_cap cap) rid = Inr (CLEANQ_ERR_OK, p')"
    "pool_inv p'" "pool_map p' = [rid \<mapsto> new_region rid (sent_cap cap)]"
    by (rule region_pool_add_region_with_id_spec [OF k, of env "sent_cap cap" rid])
      (use p in \<open>auto simp: pool_ready_def pool_inv_def\<close>)
  obtain reg where "cb_reg f = Some reg" "\<And>q cap rid. \<exists>err. reg q cap rid = Inr (err, q)"
    using f by (auto simp: plain_callbacks_def)
  moreover from this(2) obtain err where "reg (q\<lparr>cq_pool := p'\<rparr>) (sent_cap cap) rid = Inr (err, q\<lparr>cq_pool := p'\<rparr>)"
    by blast
  moreover have "\<lparr>cap_vaddr = cap_vaddr cap, cap_paddr = cap_vaddr cap, cap_len = cap_len cap\<rparr> = sent_cap cap"
    by (simp add: sent_cap_def)
  ultimately have "ipc_command env f q (reg_message cap rid sq) c = Inr (q\<lparr>cq_pool := p'\<rparr>)"
    using p'(1) by (simp add: ipc_command_def reg_message_def ipc_reg_def cleanq_add_region_def err_is_fail_def)
  then show thesis using that p'(2,3) by blast
qed

text \<open>The receiving end with a registration and a buffer waiting.\<close>

lemma dequeue_after_reg:
  assumes f: "plain_callbacks f" and ok: "chan_ok (rx_frame q) (rx_seq q) tx" "slots q = 63"
    and m: "messages (rx_frame q) (rx_seq q) tx = [reg_message cap rid s1, \<lparr>d_buf = x, d_seq = s2, d_cmd = 0\<rparr>]"
    and p: "pool_ready (env (rx_seq q)) (cq_pool q)" "pool_map (cq_pool q) = Map.empty"
  obtains q' where "ipcq_dequeue env f c q y = Inr (CLEANQ_ERR_OK, x, q')" "pool_inv (cq_pool q')"
    "pool_map (cq_pool q') = [rid \<mapsto> new_region rid (sent_cap cap)]"
proof -
  define fr1 where "fr1 = (rx_frame q)\<lparr>fr_ack := rx_seq q + 1\<rparr>"
  have "rx_seq q < tx"
  proof (rule ccontr)
    assume "\<not> rx_seq q < tx"
    then show False using m by (simp add: messages_def word_less_nat_alt)
  qed
  note r1 = chan_read [OF ok(1) this fr1_def] and lt = this
  have d1: "fr_descs (rx_frame q) ! (unat (rx_seq q) mod 63) = reg_message cap rid s1"
    "messages fr1 (rx_seq q + 1) tx = [\<lparr>d_buf = x, d_seq = s2, d_cmd = 0\<rparr>]" using r1(2) m by simp_all
  obtain p' where p': "ipc_command (env (rx_seq q)) f q (reg_message cap rid s1) c = Inr (q\<lparr>cq_pool := p'\<rparr>)"
    "pool_inv p'" "pool_map p' = [rid \<mapsto> new_region rid (sent_cap cap)]"
    using ipc_command_reg [OF f p] .
  define q1 where "q1 = ipc_ack (q\<lparr>cq_pool := p'\<rparr>)"
  have q1: "rx_frame q1 = fr1" "rx_seq q1 = rx_seq q + 1" "slots q1 = 63" "cq_pool q1 = p'"
    using ok(2) by (simp_all add: q1_def ipc_ack_eq fr1_def)
  have lt1: "rx_seq q1 < tx" using d1(2) q1(2) by (cases "rx_seq q + 1 < tx") (simp_all add: messages_def word_less_nat_alt)
  have d2: "fr_descs (rx_frame q1) ! (unat (rx_seq q1) mod 63) = \<lparr>d_buf = x, d_seq = s2, d_cmd = 0\<rparr>"
    using chan_read(2) [OF r1(1) lt1 [unfolded q1(2)] refl] d1(2) by (simp add: q1)
  have "ipcq_dequeue_loop env f c q y = ipcq_dequeue_loop env f c q1 (y\<lparr>b_rid := b_rid (d_buf (reg_message cap rid s1))\<rparr>)"
    using dequeue_loop_unfold [OF ok, of env f c y] lt d1(1) p'(1)
    by (simp add: Let_def q1_def) (simp add: reg_message_def CMD_REG_def)
  also have "\<dots> = Some (Inr (CLEANQ_ERR_OK, x, ipc_ack q1))"
    using dequeue_loop_unfold [of q1 tx env f c] r1(1) lt1 d2 by (simp add: q1 Let_def)
  finally show thesis using that [of "ipc_ack q1"] p'(2,3) by (simp add: ipcq_dequeue_def ipc_ack_def q1(4))
qed

lemma in_bounds_region:
  assumes "pool_inv p" "pool_map p (b_rid b) = Some r" "buf_no_wrap b"
  shows "in_bounds p b \<longleftrightarrow> buf_in_region b (r_len r)"
  using assms check_bounds_in_region by (auto simp: pool_inv_def)

text \<open>The sending end: what a successful registration put into the pool and into the ring.\<close>

lemma register_sends:
  assumes r: "cleanq_register env (ipcq_f env1 f c) a cap rid0 = Inr (CLEANQ_ERR_OK, rid, a1)"
    and p: "pool_ready env (cq_pool a)" and ok: "chan_ok (tx_frame a) rx (tx_seq a)" "slots a = 63"
    and nw: "unat (tx_seq a) + 1 < 2 ^ 64"
  obtains p' fr where "a1 = a\<lparr>cq_pool := p', tx_frame := fr, tx_seq := tx_seq a + 1\<rparr>" "pool_inv p'"
    "pool_map p' rid = Some (new_region rid cap)" "chan_ok fr rx (tx_seq a + 1)"
    "messages fr rx (tx_seq a + 1) = messages (tx_frame a) rx (tx_seq a) @ [reg_message cap rid (tx_seq a)]"
proof -
  obtain k where k: "pool_inv_at k (cq_pool a)" using p by (auto simp: pool_ready_def pool_inv_def)
  have "\<exists>p'. region_pool_add_region env (cq_pool a) cap rid0 = Inr (CLEANQ_ERR_OK, rid, p') \<and>
      ipcq_register (a\<lparr>cq_pool := p'\<rparr>) cap rid = Inr (CLEANQ_ERR_OK, a1)"
    using r by (auto simp: cleanq_register_def bindc_eq_Inr ipcq_f_def Let_def err_is_fail_def split: if_splits)
  then obtain p' where a: "region_pool_add_region env (cq_pool a) cap rid0 = Inr (CLEANQ_ERR_OK, rid, p')"
    "ipcq_register (a\<lparr>cq_pool := p'\<rparr>) cap rid = Inr (CLEANQ_ERR_OK, a1)" by blast
  have m: "unat (num_regions (cq_pool a)) < 32768" "malloc_ok (region_alloc (cq_pool a)) (malloc_ret env)"
    using p by (simp_all add: pool_ready_def)
  have p': "pool_inv p' \<and> pool_map p' rid = Some (new_region rid cap)"
    by (rule region_pool_add_region_spec [OF k m, of cap rid0]) (use a(1) in \<open>auto simp: pool_inv_def\<close>)
  let ?q = "a\<lparr>cq_pool := p'\<rparr>"
  have w: "ipcq_can_write ?q" using a(2) by (simp add: ipcq_register_def split: if_splits)
  have c: "chan_ok (tx_frame ?q) rx (tx_seq ?q)" "slots ?q = 63" "unat (tx_seq ?q) + 1 < 2 ^ 64"
    using ok nw by simp_all
  show thesis
    by (rule enqueue_internal_spec [OF c(1,2) w c(3), of "d_buf (reg_message cap rid 0)" CMD_REG])
      (rule that [of _ p'], use a(2) w p' in \<open>simp_all add: ipcq_register_def reg_message_def\<close>)
qed

lemma enqueue_sends:
  assumes e: "cleanq_enqueue (ipcq_f env1 f c) a x = Inr (CLEANQ_ERR_OK, a')"
    and ok: "chan_ok (tx_frame a) rx (tx_seq a)" "slots a = 63" and nw: "unat (tx_seq a) + 1 < 2 ^ 64"
  obtains fr where "a' = a\<lparr>tx_frame := fr, tx_seq := tx_seq a + 1\<rparr>" "chan_ok fr rx (tx_seq a + 1)"
    "messages fr rx (tx_seq a + 1) =
       messages (tx_frame a) rx (tx_seq a) @ [\<lparr>d_buf = x, d_seq = tx_seq a, d_cmd = 0\<rparr>]"
    "in_bounds (cq_pool a) x"
proof -
  have i: "ipcq_enqueue_internal a x 0 = Inr (CLEANQ_ERR_OK, a')" "in_bounds (cq_pool a) x"
    using e by (auto simp: cleanq_enqueue_def bindc_eq_Inr ipcq_f_def ipcq_enqueue_def split: if_splits)
  then have "ipcq_can_write a" using enqueue_internal_full [OF ok(2)] by force
  from enqueue_internal_spec [OF ok this nw, of x 0] show thesis using that i by (metis Inr_inject Pair_inject)
qed

lemma demo_pool_ready: "pool_ready demo_env demo_pool"
  using demo_pool_inv demo_pool_malloc by (simp add: pool_ready_def demo_pool_ok demo_env_def)

text \<open>One end registers a region and sends a buffer in it.\<close>

lemma demo_ipc_send:
  obtains id a1 a2 where
    "cleanq_register demo_env (ipcq_f (\<lambda>s. demo_env) demo_callbacks demo_cap) (demo_ipcq demo_pool) demo_cap 0 =
      Inr (CLEANQ_ERR_OK, id, a1)"
    "cleanq_enqueue (ipcq_f (\<lambda>s. demo_env) demo_callbacks demo_cap) a1 (demo_buf id) = Inr (CLEANQ_ERR_OK, a2)"
    "tx_seq (demo_ipcq demo_pool) = 1" "tx_seq a1 = 2"
proof -
  let ?fr = "\<lparr>fr_ack = 0, fr_descs = replicate 63 zero_desc\<rparr>" and ?F = "ipcq_f (\<lambda>s. demo_env) demo_callbacks demo_cap"
  have q: "demo_ipcq p = \<lparr>cq_pool = p, cq_state = 0, slots = 63, rx_seq = 1, tx_seq = 1, rx_frame = ?fr, tx_frame = ?fr\<rparr>" for p
    by (simp add: demo_ipcq_def init_frame_def IPCQ_DEFAULT_SIZE_def Let_def)
  obtain id p where a: "region_pool_add_region demo_env demo_pool demo_cap 0 = Inr (CLEANQ_ERR_OK, id, p)"
    "pool_inv p" "pool_map p = [id \<mapsto> new_region id demo_cap]"
    by (rule demo_pool_add)
  have "\<exists>a1. cleanq_register demo_env ?F (demo_ipcq demo_pool) demo_cap 0 = Inr (CLEANQ_ERR_OK, id, a1) \<and>
      cq_pool a1 = p \<and> tx_seq a1 = 2 \<and> slots a1 = 63 \<and> fr_ack (tx_frame a1) = 0 \<and> length (fr_descs (tx_frame a1)) = 63"
    using a(1) by (simp add: cleanq_register_def ipcq_f_def q err_is_fail_def ipcq_register_def ipcq_can_write_def
        ipcq_enqueue_internal_def word_le_nat_alt)
  then obtain a1 where a1: "cleanq_register demo_env ?F (demo_ipcq demo_pool) demo_cap 0 = Inr (CLEANQ_ERR_OK, id, a1)"
    "cq_pool a1 = p" "tx_seq a1 = 2" "slots a1 = 63" "fr_ack (tx_frame a1) = 0" "length (fr_descs (tx_frame a1)) = 63"
    by blast
  have "in_bounds p (demo_buf id)"
    using in_bounds_region [OF a(2), of "demo_buf id"] a(3)
    by (simp add: demo_buf_def buf_no_wrap_def buf_in_region_def new_region_def demo_cap_def)
  then have "\<exists>a2. cleanq_enqueue ?F a1 (demo_buf id) = Inr (CLEANQ_ERR_OK, a2)"
    using a1(2-6) by (simp add: cleanq_enqueue_def ipcq_f_def ipcq_enqueue_def ipcq_enqueue_internal_def ipcq_can_write_def
        word_le_nat_alt)
  then show thesis using that a1(1,3) q by fastforce
qed

section \<open>Properties\<close>

text \<open>Property C5: the inter-process queue is FIFO. Whatever the two processes do and in whatever order,
  the buffers one end sent (after those in transit before) are exactly the buffers the other end took
  followed by those still in transit, in this order; this includes a sender that is interrupted while
  it fills a descriptor.\<close>

theorem ipc_fifo:
  assumes "plain_callbacks f" "plain_callbacks g" "ipc_ok a0 b0" "ipc_run f g a0 b0 a b ins outs"
  shows "ipc_ok a b \<and> in_transit a0 b0 @ ins = outs @ in_transit a b"
  using assms(4)
proof (induction rule: ipc_run.induct)
  case start
  then show ?case using assms(3) by simp
next
  case (left a b ins outs ev a')
  then show ?case using ipc_step_keeps [OF assms(1) _ left(2), of b] by (auto simp: keeps_def)
next
  case (right a b ins outs ev b')
  then show ?case using ipc_step_keeps [OF assms(2) _ right(2), of a] ipc_ok_sym [of a b] ipc_ok_sym [of b' "peer b' a"]
    by (auto simp: keeps_def)
qed

theorem ipc_fifo_witness:
  "\<exists>id a1 a2 b. cleanq_register demo_env (ipcq_f (\<lambda>s. demo_env) demo_callbacks demo_cap) (demo_ipcq demo_pool) demo_cap 0 =
       Inr (CLEANQ_ERR_OK, id, a1) \<and>
     ipc_run demo_callbacks demo_callbacks (demo_ipcq demo_pool) (demo_ipcq demo_pool) a2 b [demo_buf id] [] \<and>
     in_transit a2 b = [demo_buf id]"
proof -
  let ?q = "demo_ipcq demo_pool"
  obtain id a1 a2 where r: "cleanq_register demo_env (ipcq_f (\<lambda>s. demo_env) demo_callbacks demo_cap) ?q demo_cap 0 = Inr (CLEANQ_ERR_OK, id, a1)"
    "cleanq_enqueue (ipcq_f (\<lambda>s. demo_env) demo_callbacks demo_cap) a1 (demo_buf id) = Inr (CLEANQ_ERR_OK, a2)"
    "tx_seq ?q = 1" "tx_seq a1 = 2"
    by (rule demo_ipc_send)
  have "ipc_step demo_callbacks ?q Silent a1" using ipc_step.register [OF r(1)] r(3) by simp
  from ipc_run.left [OF ipc_run.start this] have "ipc_run demo_callbacks demo_callbacks ?q ?q a1 (peer a1 ?q) [] []" by simp
  moreover have "ipc_step demo_callbacks a1 (Sent (demo_buf id)) a2" using ipc_step.enqueue [OF r(2)] r(4) by simp
  ultimately have run: "ipc_run demo_callbacks demo_callbacks ?q ?q a2 (peer a2 (peer a1 ?q)) [demo_buf id] []"
    using ipc_run.left by fastforce
  have "in_transit ?q ?q = []" using demo_ipcq_ok(2) [of demo_pool demo_pool] by (simp add: in_transit_def)
  with ipc_fifo [OF demo_callbacks_plain demo_callbacks_plain demo_ipcq_ok(1) run] run r(1) show ?thesis by auto
qed

text \<open>Property C39: dequeueing from the inter-process queue never loops for ever, although it calls itself
  after every command. Unless a command accesses memory it should not, it says that the queue is empty
  exactly when no buffer is in transit and otherwise gives the oldest one.\<close>

theorem ipc_dequeue_ends:
  assumes "plain_callbacks g" "ipc_ok a b"
  shows "\<exists>r. ipcq_dequeue_loop env g cap b x = Some r \<and> (\<forall>err x' b'. r = Inr (err, x', b') \<longrightarrow>
    (if in_transit a b = [] then err = CLEANQ_ERR_QUEUE_EMPTY
     else err = CLEANQ_ERR_OK \<and> x' = hd (in_transit a b)))"
proof -
  have c: "chan_ok (rx_frame b) (rx_seq b) (tx_seq a)" "slots b = 63" "rx_frame b = tx_frame a"
    using assms(2) by (auto simp: ipc_ok_def)
  from dequeue_loop_spec [OF assms(1) c(1,2), of env cap x] show ?thesis
    by (auto simp: dequeued_def in_transit_def c(3) split: if_splits)
qed

theorem ipc_dequeue_ends_witness:
  "\<exists>r. ipcq_dequeue_loop (\<lambda>s. demo_env) demo_callbacks demo_cap (demo_ipcq demo_pool) empty_buf = Some r"
  using ipc_dequeue_ends [OF demo_callbacks_plain demo_ipcq_ok(1)] by blast

text \<open>A region is known at the other end before the first buffer in it arrives. When one end
  registers a region and enqueues a buffer in it, the next dequeue at the other end executes the
  registration and delivers exactly that buffer, which passes the bounds check there.\<close>

theorem ipc_region_before_buffer:
  assumes "plain_callbacks g" "ipc_ok a b" "messages (tx_frame a) (rx_seq b) (tx_seq a) = []"
    and "unat (tx_seq a) + 2 < 2 ^ 64" "pool_ready env (cq_pool a)"
    and "pool_ready (env' (rx_seq b)) (cq_pool b)" "pool_map (cq_pool b) = Map.empty"
    and r: "cleanq_register env (ipcq_f env1 f c) a cap rid0 = Inr (CLEANQ_ERR_OK, rid, a1)"
    and e: "cleanq_enqueue (ipcq_f env1 f c) a1 x = Inr (CLEANQ_ERR_OK, a2)"
    and x: "b_rid x = rid" "buf_no_wrap x"
  shows "\<exists>b'. cleanq_dequeue (ipcq_f env' g c') (peer a2 b) y = Inr (CLEANQ_ERR_OK, x, b') \<and>
    pool_map (cq_pool b') = [rid \<mapsto> new_region rid (sent_cap cap)]"
proof -
  have c: "chan_ok (tx_frame a) (rx_seq b) (tx_seq a)" "slots a = 63" "slots b = 63" using assms(2) by (auto simp: ipc_ok_def)
  have nw: "unat (tx_seq a) + 1 < 2 ^ 64" "unat (tx_seq a + 1) + 1 < 2 ^ 64" using assms(4) by (simp_all add: unat_word_ariths)
  obtain p' fr where s: "a1 = a\<lparr>cq_pool := p', tx_frame := fr, tx_seq := tx_seq a + 1\<rparr>" "pool_inv p'"
    "pool_map p' rid = Some (new_region rid cap)" "chan_ok fr (rx_seq b) (tx_seq a + 1)"
    "messages fr (rx_seq b) (tx_seq a + 1) = [reg_message cap rid (tx_seq a)]"
    using register_sends [OF r assms(5) c(1,2) nw(1)] assms(3) by (metis append_Nil)
  have s1: "chan_ok (tx_frame a1) (rx_seq b) (tx_seq a1)" "slots a1 = 63" "unat (tx_seq a1) + 1 < 2 ^ 64"
    using s nw c by simp_all
  obtain fr2 where u: "a2 = a1\<lparr>tx_frame := fr2, tx_seq := tx_seq a1 + 1\<rparr>" "chan_ok fr2 (rx_seq b) (tx_seq a1 + 1)"
    "messages fr2 (rx_seq b) (tx_seq a1 + 1) =
       messages (tx_frame a1) (rx_seq b) (tx_seq a1) @ [\<lparr>d_buf = x, d_seq = tx_seq a1, d_cmd = 0\<rparr>]"
    "in_bounds (cq_pool a1) x"
    using enqueue_sends [OF e s1] .
  have "in_bounds p' x" using u(4) s(1) by simp
  then have ir: "buf_in_region x (cap_len cap)"
    using in_bounds_region [of p' x] s(2,3) x by (simp add: new_region_def)
  obtain b' where b': "ipcq_dequeue env' g c' (peer a2 b) y = Inr (CLEANQ_ERR_OK, x, b')" "pool_inv (cq_pool b')"
    "pool_map (cq_pool b') = [rid \<mapsto> new_region rid (sent_cap cap)]"
    by (rule dequeue_after_reg [OF assms(1), of "peer a2 b" "tx_seq a1 + 1" cap rid "tx_seq a" x "tx_seq a1" env' c' y])
      (use u s c assms(6,7) in \<open>simp_all add: peer_def\<close>)
  have "in_bounds (cq_pool b') x"
    using in_bounds_region [of "cq_pool b'" x] b'(2,3) x ir by (simp add: new_region_def sent_cap_def)
  then show ?thesis using b' by (auto simp: cleanq_dequeue_def ipcq_f_def err_is_fail_def)
qed

theorem ipc_region_before_buffer_witness:
  "\<exists>id a1 a2 b'. cleanq_register demo_env (ipcq_f (\<lambda>s. demo_env) demo_callbacks demo_cap) (demo_ipcq demo_pool) demo_cap 0 =
       Inr (CLEANQ_ERR_OK, id, a1) \<and>
     cleanq_enqueue (ipcq_f (\<lambda>s. demo_env) demo_callbacks demo_cap) a1 (demo_buf id) = Inr (CLEANQ_ERR_OK, a2) \<and>
     cleanq_dequeue (ipcq_f (\<lambda>s. demo_env) demo_callbacks demo_cap) (peer a2 (demo_ipcq demo_pool)) empty_buf =
       Inr (CLEANQ_ERR_OK, demo_buf id, b')"
proof -
  obtain id a1 a2 where r: "cleanq_register demo_env (ipcq_f (\<lambda>s. demo_env) demo_callbacks demo_cap) (demo_ipcq demo_pool) demo_cap 0 =
       Inr (CLEANQ_ERR_OK, id, a1)"
    "cleanq_enqueue (ipcq_f (\<lambda>s. demo_env) demo_callbacks demo_cap) a1 (demo_buf id) = Inr (CLEANQ_ERR_OK, a2)"
    "tx_seq (demo_ipcq demo_pool) = 1"
    by (rule demo_ipc_send)
  have "\<exists>b'. cleanq_dequeue (ipcq_f (\<lambda>s. demo_env) demo_callbacks demo_cap) (peer a2 (demo_ipcq demo_pool)) empty_buf =
       Inr (CLEANQ_ERR_OK, demo_buf id, b') \<and> pool_map (cq_pool b') = [id \<mapsto> new_region id (sent_cap demo_cap)]"
    by (rule ipc_region_before_buffer [OF demo_callbacks_plain demo_ipcq_ok _ _ _ _ r(1,2)])
      (simp_all add: r(3) demo_ipcq_def Let_def demo_pool_ready demo_pool_ok demo_buf_def buf_no_wrap_def)
  then show ?thesis using r by blast
qed

end
