(* ===== verification/Ipc_Echo.thy ===== *)
theory Ipc_Echo
  imports Ipc_Queue
begin

text \<open>
  The test programs of the inter-process queue, \<open>lib/libcleanq/test/echo.c\<close> and the function
  \<open>test_enqueue_dequeue\<close> of \<open>lib/libcleanq/test/main.c\<close>: one process sends buffers, the other takes
  each one and sends it back.

  The two programs are state machines whose steps are the calls they make into the library, so that
  the other process may run between any two calls; a process may also be stopped while it fills a
  descriptor.

  Contents: the programs; what a step of the echo process keeps; that every buffer the first process
  sent is accounted for, in order, where the echo process drops a buffer when the ring back is full
  (\<open>echo_drops_when_full\<close>);
  that nothing is dropped as long as at most 62 buffers are out; that the test gets back exactly
  the buffers it sent.
\<close>

section \<open>The echo process\<close>

definition ipc_echo_reg :: "ipcq \<Rightarrow> capref \<Rightarrow> regionid \<Rightarrow> (errval \<times> ipcq) cres" where
  "ipc_echo_reg q cap rid = Inr (SYS_ERR_OK, q)"

definition ipc_echo_dereg :: "ipcq \<Rightarrow> regionid \<Rightarrow> (errval \<times> ipcq) cres" where
  "ipc_echo_dereg q rid = Inr (SYS_ERR_OK, q)"

definition ipc_echo_callbacks :: ipcq_func_pointer where
  "ipc_echo_callbacks = \<lparr>cb_reg = Some ipc_echo_reg, cb_dereg = Some ipc_echo_dereg\<rparr>"

text \<open>Where the process is: before the call that dequeues, before the call that enqueues, or gone by
  \<open>exit(1)\<close>. \<open>ec_buf\<close> are the locals the buffer is returned to; they keep their contents from round to
  round.\<close>

datatype ipc_echo_pc = Polling | Echoing | Exited

record ipc_echo =
  ec_pc :: ipc_echo_pc
  ec_buf :: cleanq_buf
  ec_queue :: ipcq

text \<open>The start of \<open>main\<close>, with the results of the system calls as for \<open>ipcq_create\<close>.\<close>

definition ipc_echo_main ::
  "bool \<Rightarrow> int \<Rightarrow> int \<Rightarrow> ipc_mapping \<Rightarrow> ipc_mapping \<Rightarrow> bool \<Rightarrow> bool \<Rightarrow> u32 \<Rightarrow> cleanq_buf \<Rightarrow> ipc_echo option cres" where
  "ipc_echo_main calloc0 fd_send fd_recv tx_map rx_map calloc1 calloc2 rnd locals =
     bindc (ipcq_create calloc0 fd_send fd_recv tx_map rx_map True calloc1 calloc2 rnd) (\<lambda>(err, q).
       if \<not> err_is_ok err then Inl Assert_Failed
       else Inr (map_option (\<lambda>q. \<lparr>ec_pc = Polling, ec_buf = locals, ec_queue = q\<rparr>) q))"

text \<open>The body of the loop, up to and from the call that enqueues.\<close>

definition ipc_echo_step :: "(u64 \<Rightarrow> libc) \<Rightarrow> capref \<Rightarrow> ipc_echo \<Rightarrow> ipc_echo cres" where
  "ipc_echo_step env cap st =
     (case ec_pc st of
        Polling \<Rightarrow>
          bindc (cleanq_dequeue (ipcq_f env ipc_echo_callbacks cap) (ec_queue st) (ec_buf st)) (\<lambda>(err, b, q).
          Inr \<lparr>ec_pc = if err_is_fail err
                        then if err = CLEANQ_ERR_QUEUE_EMPTY then Polling else Exited
                        else Echoing,
               ec_buf = b, ec_queue = q\<rparr>)
      | Echoing \<Rightarrow>
          bindc (cleanq_enqueue (ipcq_f env ipc_echo_callbacks cap) (ec_queue st) (ec_buf st)) (\<lambda>(err, q).
          Inr \<lparr>ec_pc = if err_is_fail err
                        then if err = CLEANQ_ERR_QUEUE_FULL then Polling else Exited
                        else Polling,
               ec_buf = ec_buf st, ec_queue = q\<rparr>)
      | Exited \<Rightarrow> Inr st)"

section \<open>The test process\<close>

definition NUM_BUFS :: nat where "NUM_BUFS = 64"
definition BUF_SIZE :: nat where "BUF_SIZE = 2048"

text \<open>The two loops of \<open>test_enqueue_dequeue\<close>; \<open>Failed\<close> is \<open>exit(1)\<close>.\<close>

datatype tester_pc = Sending | Receiving | Finished | Failed

record tester =
  ts_pc :: tester_pc
  ts_i :: nat
  ts_buf :: cleanq_buf
  num_tx :: u32
  num_rx :: u32
  ts_queue :: ipcq

definition tester_start :: "cleanq_buf \<Rightarrow> ipcq \<Rightarrow> tester" where
  "tester_start locals q =
     \<lparr>ts_pc = Sending, ts_i = 0, ts_buf = locals, num_tx = 0, num_rx = 0, ts_queue = q\<rparr>"

text \<open>The arguments of the call that enqueues.\<close>

definition test_buf :: "regionid \<Rightarrow> nat \<Rightarrow> cleanq_buf" where
  "test_buf rid i =
     \<lparr>b_offset = of_nat (i * BUF_SIZE), b_length = of_nat BUF_SIZE, b_valid_data = 0,
      b_valid_length = of_nat BUF_SIZE, b_flags = 0, b_rid = rid\<rparr>"

text \<open>The end of a round of either loop: \<open>i++\<close> and the test of the loop. After \<open>i--\<close> the same round is
  made again.\<close>

definition tester_next :: "tester_pc \<Rightarrow> tester \<Rightarrow> tester" where
  "tester_next pc t =
     (if Suc (ts_i t) < NUM_BUFS div 2 then t\<lparr>ts_i := Suc (ts_i t)\<rparr> else t\<lparr>ts_i := 0, ts_pc := pc\<rparr>)"

definition tester_step ::
  "(u64 \<Rightarrow> libc) \<Rightarrow> ipcq_func_pointer \<Rightarrow> capref \<Rightarrow> regionid \<Rightarrow> tester \<Rightarrow> tester cres" where
  "tester_step env f cap rid t =
     (case ts_pc t of
        Sending \<Rightarrow>
          bindc (cleanq_enqueue (ipcq_f env f cap) (ts_queue t) (test_buf rid (ts_i t))) (\<lambda>(err, q).
          let t' = t\<lparr>ts_queue := q\<rparr> in
          Inr (if err_is_fail err
               then if err = CLEANQ_ERR_QUEUE_FULL then t' else t'\<lparr>ts_pc := Failed\<rparr>
               else tester_next Receiving (t'\<lparr>num_tx := num_tx t + 1\<rparr>)))
      | Receiving \<Rightarrow>
          bindc (cleanq_dequeue (ipcq_f env f cap) (ts_queue t) (ts_buf t)) (\<lambda>(err, b, q).
          let t' = t\<lparr>ts_queue := q, ts_buf := b\<rparr> in
          Inr (if err_is_fail err
               then if err = CLEANQ_ERR_QUEUE_EMPTY then t' else t'\<lparr>ts_pc := Failed\<rparr>
               else tester_next Finished (t'\<lparr>num_rx := num_rx t + 1\<rparr>)))
      | _ \<Rightarrow> Inr t)"

section \<open>The two processes\<close>

text \<open>The buffer the echo process has in its hands, and the one it lets go of in a step without
  sending it.\<close>

definition ec_held :: "ipc_echo \<Rightarrow> cleanq_buf list" where
  "ec_held e = (if ec_pc e = Polling then [] else [ec_buf e])"

definition ec_lost :: "ipc_echo \<Rightarrow> ipc_echo \<Rightarrow> cleanq_buf list" where
  "ec_lost e e' =
     (if ec_pc e = Echoing \<and> ec_pc e' = Polling \<and> ec_queue e' = ec_queue e then [ec_buf e] else [])"

text \<open>What a process sees after a step of the other one.\<close>

definition ec_peer :: "ipcq \<Rightarrow> ipc_echo \<Rightarrow> ipc_echo" where
  "ec_peer a e = e\<lparr>ec_queue := peer a (ec_queue e)\<rparr>"

text \<open>A step of the echo process: a call, or part of filling a descriptor.\<close>

inductive echo_moves :: "ipc_echo \<Rightarrow> ipc_echo \<Rightarrow> bool" where
  call: "ec_pc e \<noteq> Exited \<Longrightarrow> unat (tx_seq (ec_queue e)) + 1 < 2 ^ 64 \<Longrightarrow> ipc_echo_step env cap e = Inr e' \<Longrightarrow>
    echo_moves e e'"
| filling: "ec_pc e = Echoing \<Longrightarrow> ipcq_can_write (ec_queue e) \<Longrightarrow>
    echo_moves e (e\<lparr>ec_queue := ipcq_fill (ec_queue e) x cmd\<rparr>)"

text \<open>Any client, which may also register and deregister regions, that never has more than \<open>n\<close> buffers
  out. \<open>ins\<close> are the buffers it sent, \<open>outs\<close> those it took and \<open>lost\<close> those the echo process dropped.\<close>

inductive echo_run ::
  "nat \<Rightarrow> ipcq_func_pointer \<Rightarrow> ipcq \<Rightarrow> ipc_echo \<Rightarrow> ipcq \<Rightarrow> ipc_echo \<Rightarrow>
   cleanq_buf list \<Rightarrow> cleanq_buf list \<Rightarrow> cleanq_buf list \<Rightarrow> bool"
  for n f a0 e0 where
  start: "echo_run n f a0 e0 a0 e0 [] [] []"
| client: "echo_run n f a0 e0 a e ins outs lost \<Longrightarrow> ipc_step f a ev a' \<Longrightarrow>
    length (ins @ sent ev) \<le> length outs + n \<Longrightarrow>
    echo_run n f a0 e0 a' (ec_peer a' e) (ins @ sent ev) (outs @ took ev) lost"
| echo: "echo_run n f a0 e0 a e ins outs lost \<Longrightarrow> echo_moves e e' \<Longrightarrow>
    echo_run n f a0 e0 (peer (ec_queue e') a) e' ins outs (lost @ ec_lost e e')"

text \<open>The test process as the client.\<close>

inductive tester_run ::
  "ipcq_func_pointer \<Rightarrow> regionid \<Rightarrow> tester \<Rightarrow> ipc_echo \<Rightarrow> tester \<Rightarrow> ipc_echo \<Rightarrow> bool"
  for f rid t0 e0 where
  start: "tester_run f rid t0 e0 t0 e0"
| tester: "tester_run f rid t0 e0 t e \<Longrightarrow> unat (tx_seq (ts_queue t)) + 1 < 2 ^ 64 \<Longrightarrow>
    tester_step env f cap rid t = Inr t' \<Longrightarrow> tester_run f rid t0 e0 t' (ec_peer (ts_queue t') e)"
| filling: "tester_run f rid t0 e0 t e \<Longrightarrow> ts_pc t = Sending \<Longrightarrow> ipcq_can_write (ts_queue t) \<Longrightarrow>
    q = ipcq_fill (ts_queue t) x cmd \<Longrightarrow> tester_run f rid t0 e0 (t\<lparr>ts_queue := q\<rparr>) (ec_peer q e)"
| echo: "tester_run f rid t0 e0 t e \<Longrightarrow> echo_moves e e' \<Longrightarrow>
    tester_run f rid t0 e0 (t\<lparr>ts_queue := peer (ec_queue e') (ts_queue t)\<rparr>) e'"

inductive_cases echo_movesE: "echo_moves e e'"

section \<open>What a step of the echo process keeps\<close>

lemma ipc_echo_plain: "plain_callbacks ipc_echo_callbacks"
  by (simp add: plain_callbacks_def ipc_echo_callbacks_def ipc_echo_reg_def ipc_echo_dereg_def)

lemma peer_fields [simp]:
  "rx_seq (peer a q) = rx_seq q" "tx_seq (peer a q) = tx_seq q" "cq_pool (peer a q) = cq_pool q"
  "tx_frame (peer a q) = rx_frame a" "rx_frame (peer a q) = tx_frame a" "slots (peer a q) = slots q"
  by (simp_all add: peer_def)

lemma ec_peer_fields [simp]:
  "ec_queue (ec_peer a e) = peer a (ec_queue e)" "ec_held (ec_peer a e) = ec_held e"
  by (simp_all add: ec_peer_def ec_held_def)

text \<open>An enqueue through the interface that succeeded has moved the writer on.\<close>

lemma enqueue_changes:
  assumes "ipc_ok q a" "unat (tx_seq q) + 1 < 2 ^ 64" "cleanq_enqueue (ipcq_f env f cap) q x = Inr (err, q')"
  shows "if err = CLEANQ_ERR_OK then tx_seq q' = tx_seq q + 1 else q' = q"
  using assms(3)
  by (auto simp: cleanq_enqueue_def bindc_eq_Inr ipcq_f_def ipcq_enqueue_def ipcq_enqueue_internal_def split: if_splits)

lemma echo_call_keeps:
  assumes ok: "ipc_ok (ec_queue e) a" and pc: "ec_pc e \<noteq> Exited" and nw: "unat (tx_seq (ec_queue e)) + 1 < 2 ^ 64"
    and st: "ipc_echo_step env cap e = Inr e'"
  obtains s t where "keeps (ec_queue e) a (ec_queue e') s t" "ec_held e @ t = s @ ec_lost e e' @ ec_held e'"
proof (cases "ec_pc e")
  case Polling
  then obtain err b q where d: "cleanq_dequeue (ipcq_f env ipc_echo_callbacks cap) (ec_queue e) (ec_buf e) = Inr (err, b, q)"
    "e' = \<lparr>ec_pc = if err_is_fail err then if err = CLEANQ_ERR_QUEUE_EMPTY then Polling else Exited else Echoing,
           ec_buf = b, ec_queue = q\<rparr>"
    using st by (auto simp: ipc_echo_step_def bindc_eq_Inr)
  from keeps_dequeue [OF ipc_echo_plain ok d(1)] show thesis
    by (rule that [of "[]", unfolded d(2) ipc_echo.simps])
      (use Polling in \<open>auto simp: d(2) ec_held_def ec_lost_def err_is_fail_def\<close>)
next
  case Echoing
  then obtain err q where d: "cleanq_enqueue (ipcq_f env ipc_echo_callbacks cap) (ec_queue e) (ec_buf e) = Inr (err, q)"
    "e' = \<lparr>ec_pc = if err_is_fail err then if err = CLEANQ_ERR_QUEUE_FULL then Polling else Exited else Polling,
           ec_buf = ec_buf e, ec_queue = q\<rparr>"
    using st by (auto simp: ipc_echo_step_def bindc_eq_Inr)
  have "q \<noteq> ec_queue e" if "err = CLEANQ_ERR_OK"
    using enqueue_changes [OF ok nw d(1)] that by auto
  moreover have "q = ec_queue e" if "err \<noteq> CLEANQ_ERR_OK"
    using enqueue_changes [OF ok nw d(1)] that by simp
  ultimately show thesis
    using keeps_enqueue [OF ok nw d(1)] that [of "if err = CLEANQ_ERR_OK then [ec_buf e] else []" "[]"] Echoing
    by (auto simp: d(2) ec_held_def ec_lost_def err_is_fail_def split: if_splits)
qed (use pc in simp)

lemma echo_moves_keeps:
  assumes ok: "ipc_ok a (ec_queue e)" and st: "echo_moves e e'"
  obtains s t where "keeps (ec_queue e) a (ec_queue e') s t" "ec_held e @ t = s @ ec_lost e e' @ ec_held e'"
  using st
proof cases
  case (call env cap)
  show thesis using echo_call_keeps [OF _ call] ok that by (auto simp: ipc_ok_sym [of a])
next
  case (filling x cmd)
  have ok': "ipc_ok (ec_queue e) a" using ok by (simp add: ipc_ok_sym)
  from ipc_ok_fill [OF ok' filling(3), of x cmd] filling(1,2) show thesis
    by (intro that [of "[]" "[]"]) (simp_all add: keeps_def ec_held_def ec_lost_def)
qed

section \<open>Every buffer is accounted for\<close>

text \<open>The client's view: the buffers it sent are those the echo process has let go of, the one in its
  hands and those on their way to it; the ones let go of are those sent back and those lost.\<close>

definition accounted :: "ipcq \<Rightarrow> ipc_echo \<Rightarrow> cleanq_buf list \<Rightarrow> cleanq_buf list \<Rightarrow> cleanq_buf list \<Rightarrow> bool" where
  "accounted a e ins outs lost \<longleftrightarrow> ipc_ok a (ec_queue e) \<and>
     (\<exists>gone. ins = gone @ ec_held e @ in_transit a (ec_queue e) \<and>
             gone \<in> shuffles (outs @ in_transit (ec_queue e) a) lost)"

lemma accounted_client:
  assumes f: "plain_callbacks f" and acc: "accounted a e ins outs lost" and st: "ipc_step f a ev a'"
  shows "accounted a' (ec_peer a' e) (ins @ sent ev) (outs @ took ev) lost"
  using acc ipc_step_keeps [OF f _ st, of "ec_queue e"] by (auto simp: accounted_def keeps_def)

lemma accounted_echo:
  assumes acc: "accounted a e ins outs lost" and st: "echo_moves e e'"
  shows "accounted (peer (ec_queue e') a) e' ins outs (lost @ ec_lost e e')"
proof -
  let ?q = "ec_queue e" and ?q' = "ec_queue e'"
  obtain gone where g: "ipc_ok a ?q" "ins = gone @ ec_held e @ in_transit a ?q"
    "gone \<in> shuffles (outs @ in_transit ?q a) lost"
    using acc by (auto simp: accounted_def)
  obtain s t where k: "keeps ?q a ?q' s t" "ec_held e @ t = s @ ec_lost e e' @ ec_held e'"
    using echo_moves_keeps [OF g(1) st] .
  have "ins = (gone @ s @ ec_lost e e') @ ec_held e' @ in_transit (peer ?q' a) ?q'"
    using g(2) k by (metis append.assoc keeps_def)
  moreover have "gone @ s @ ec_lost e e' \<in> shuffles (outs @ in_transit ?q' (peer ?q' a)) (lost @ ec_lost e e')"
    using shuffles_append_right [OF shuffles_append_left [OF g(3), of s], of "ec_lost e e'"] k(1)
    by (simp add: keeps_def)
  ultimately show ?thesis using k(1) ipc_ok_sym by (auto simp: accounted_def keeps_def)
qed

section \<open>Nothing is lost while few buffers are out\<close>

text \<open>On the way back there are only buffers, and the client acknowledges every one it takes; before
  the first one the acknowledgement is one behind.\<close>

definition only_data :: "ipc_frame \<Rightarrow> u64 \<Rightarrow> u64 \<Rightarrow> bool" where
  "only_data fr rx tx \<longleftrightarrow> (\<forall>m \<in> set (messages fr rx tx). d_cmd m = 0) \<and> unat rx \<le> unat (fr_ack fr) + 1"

lemma only_data_length:
  assumes "only_data fr rx tx"
  shows "length (data (messages fr rx tx)) = unat tx - unat rx"
  using assms by (simp add: only_data_def data_def filter_id_conv [THEN iffD2]) (simp add: messages_def)

lemma only_data_room:
  assumes c: "chan_ok (tx_frame q) rx (tx_seq q)" "slots q = 63" and o: "only_data (tx_frame q) rx (tx_seq q)"
    and n: "length (data (messages (tx_frame q) rx (tx_seq q))) < 62"
  shows "ipcq_can_write q"
  using chan_can_write [OF c] only_data_length [OF o] n o by (auto simp: only_data_def)

lemma dequeue_only_data:
  assumes c: "chan_ok (rx_frame q) (rx_seq q) tx" "slots q = 63" and o: "only_data (rx_frame q) (rx_seq q) tx"
    and d: "cleanq_dequeue (ipcq_f env f cap) q b = Inr (err, b', q')"
  obtains "q' = q" "b' = b" "err = CLEANQ_ERR_QUEUE_EMPTY"
  | "q' = ipc_ack q" "only_data (rx_frame q') (rx_seq q') tx" "err \<noteq> CLEANQ_ERR_QUEUE_EMPTY"
    "in_bounds (cq_pool q) b' \<Longrightarrow> err = CLEANQ_ERR_OK"
proof (cases "rx_seq q < tx")
  case True
  let ?d = "fr_descs (rx_frame q) ! (unat (rx_seq q) mod 63)"
  note rd = chan_read [OF c(1) True refl]
  have z: "d_cmd ?d = 0" using o rd(2) by (simp add: only_data_def)
  then have "ipcq_dequeue env f cap q b = Inr (CLEANQ_ERR_OK, d_buf ?d, ipc_ack q)"
    using dequeue_loop_unfold [OF c, of env f cap b] True by (simp add: ipcq_dequeue_def Let_def)
  then have "q' = ipc_ack q" "err \<noteq> CLEANQ_ERR_QUEUE_EMPTY" "in_bounds (cq_pool q) b' \<Longrightarrow> err = CLEANQ_ERR_OK"
    using d by (auto simp: cleanq_dequeue_def ipcq_f_def err_is_fail_def bindc_eq_Inr ipc_ack_def split: if_splits)
  moreover have "only_data (rx_frame (ipc_ack q)) (rx_seq (ipc_ack q)) tx"
    using o rd(2,3) by (simp add: only_data_def ipc_ack_def)
  ultimately show thesis using that(2) by blast
next
  case False
  then have "ipcq_dequeue env f cap q b = Inr (CLEANQ_ERR_QUEUE_EMPTY, b, q)"
    using dequeue_loop_unfold [OF c, of env f cap b] by (simp add: ipcq_dequeue_def)
  then show thesis using d that(1) by (simp add: cleanq_dequeue_def ipcq_f_def err_is_fail_def)
qed

text \<open>The other calls of a client leave what it reads alone.\<close>

lemma enqueue_internal_rx:
  "ipcq_enqueue_internal q x cmd = Inr (err, q') \<Longrightarrow> rx_frame q' = rx_frame q \<and> rx_seq q' = rx_seq q \<and> cq_pool q' = cq_pool q"
  by (auto simp: ipcq_enqueue_internal_def bindc_eq_Inr split: if_splits)

lemma ipc_step_only_data:
  assumes st: "ipc_step f q ev q'" and c: "chan_ok (rx_frame q) (rx_seq q) tx" "slots q = 63"
    and o: "only_data (rx_frame q) (rx_seq q) tx"
  shows "only_data (rx_frame q') (rx_seq q') tx"
  using st
proof cases
  case (enqueue env cap b err)
  then have "rx_frame q' = rx_frame q \<and> rx_seq q' = rx_seq q"
    by (auto simp: cleanq_enqueue_def bindc_eq_Inr ipcq_f_def ipcq_enqueue_def dest: enqueue_internal_rx split: if_splits)
  then show ?thesis using o by simp
next
  case (dequeue env cap b err b')
  show ?thesis using dequeue_only_data [OF c o dequeue(2)] o by metis
next
  case (register env' env cap' cap rid err rid')
  then have "rx_frame q' = rx_frame q \<and> rx_seq q' = rx_seq q"
    by (auto simp: cleanq_register_def bindc_eq_Inr ipcq_f_def Let_def
        elim!: register_enqueues dest!: enqueue_internal_rx split: if_splits)
  then show ?thesis using o by simp
next
  case (deregister env cap' rid cap err cap'')
  then have "rx_frame q' = rx_frame q \<and> rx_seq q' = rx_seq q"
    by (auto simp: cleanq_deregister_def bindc_eq_Inr ipcq_f_def Let_def
        elim!: deregister_enqueues dest!: enqueue_internal_rx split: if_splits)
  then show ?thesis using o by simp
next
  case (fill b cmd)
  then show ?thesis using o by (simp add: ipcq_fill_def Let_def)
qed

text \<open>The invariant of the two processes when nothing has been lost: \<open>out\<close> are the buffers the client
  has not got back, oldest first.\<close>

definition echo_inv :: "ipcq \<Rightarrow> ipc_echo \<Rightarrow> cleanq_buf list \<Rightarrow> bool" where
  "echo_inv a e out \<longleftrightarrow> ipc_ok a (ec_queue e) \<and>
     only_data (tx_frame (ec_queue e)) (rx_seq a) (tx_seq (ec_queue e)) \<and>
     out = in_transit (ec_queue e) a @ ec_held e @ in_transit a (ec_queue e)"

lemma echo_inv_client:
  assumes f: "plain_callbacks f" and inv: "echo_inv a e out" and st: "ipc_step f a ev a'"
  obtains out' where "echo_inv a' (ec_peer a' e) out'" "out @ sent ev = took ev @ out'"
proof -
  let ?q = "ec_queue e"
  have c: "ipc_ok a ?q" "slots a = 63" "chan_ok (rx_frame a) (rx_seq a) (tx_seq ?q)" "rx_frame a = tx_frame ?q"
    "only_data (rx_frame a) (rx_seq a) (tx_seq ?q)"
    using inv by (auto simp: echo_inv_def ipc_ok_def)
  have k: "keeps a ?q a' (sent ev) (took ev)" by (rule ipc_step_keeps [OF f c(1) st])
  have "only_data (rx_frame a') (rx_seq a') (tx_seq ?q)" by (rule ipc_step_only_data [OF st c(3,2,5)])
  then show thesis using k inv
    by (intro that [of "in_transit (peer a' ?q) a' @ ec_held e @ in_transit a' (peer a' ?q)"])
      (auto simp: keeps_def echo_inv_def)
qed

lemma enqueue_internal_ack:
  assumes "chan_ok (tx_frame q) rx (tx_seq q)" "slots q = 63" "ipcq_can_write q" "unat (tx_seq q) + 1 < 2 ^ 64"
  obtains fr where "ipcq_enqueue_internal q b cmd = Inr (CLEANQ_ERR_OK, q\<lparr>tx_frame := fr, tx_seq := tx_seq q + 1\<rparr>)"
    "fr_ack fr = fr_ack (tx_frame q)"
    "messages fr rx (tx_seq q + 1) = messages (tx_frame q) rx (tx_seq q) @ [\<lparr>d_buf = b, d_seq = tx_seq q, d_cmd = cmd\<rparr>]"
proof -
  obtain fr where fr: "ipcq_enqueue_internal q b cmd = Inr (CLEANQ_ERR_OK, q\<lparr>tx_frame := fr, tx_seq := tx_seq q + 1\<rparr>)"
    "messages fr rx (tx_seq q + 1) = messages (tx_frame q) rx (tx_seq q) @ [\<lparr>d_buf = b, d_seq = tx_seq q, d_cmd = cmd\<rparr>]"
    using enqueue_internal_spec [OF assms] .
  moreover have "fr_ack (tx_frame q') = fr_ack (tx_frame q)" if "ipcq_enqueue_internal q b cmd = Inr (err, q')" for err q'
    using that by (auto simp: ipcq_enqueue_internal_def bindc_eq_Inr split: if_splits)
  from this [OF fr(1)] have "fr_ack fr = fr_ack (tx_frame q)" by simp
  ultimately show thesis using that by blast
qed

lemma echo_call_only_data:
  assumes ok: "ipc_ok (ec_queue e) a" and nw: "unat (tx_seq (ec_queue e)) + 1 < 2 ^ 64"
    and st: "ipc_echo_step env cap e = Inr e'"
    and o: "only_data (tx_frame (ec_queue e)) (rx_seq a) (tx_seq (ec_queue e))"
  shows "only_data (tx_frame (ec_queue e')) (rx_seq a) (tx_seq (ec_queue e'))"
proof -
  let ?q = "ec_queue e"
  have c: "chan_ok (tx_frame ?q) (rx_seq a) (tx_seq ?q)" "chan_ok (rx_frame ?q) (rx_seq ?q) (tx_seq a)" "slots ?q = 63"
    using ok by (auto simp: ipc_ok_def)
  show ?thesis
  proof (cases "ec_pc e")
    case Polling
    then obtain b err0 where d: "ipcq_dequeue env ipc_echo_callbacks cap ?q (ec_buf e) = Inr (err0, b, ec_queue e')"
      using st by (auto simp: ipc_echo_step_def bindc_eq_Inr cleanq_dequeue_def ipcq_f_def split: if_splits)
    from dequeue_loop_spec [OF ipc_echo_plain c(2,3), of env cap "ec_buf e"] d
    have "dequeued (tx_seq a) ?q err0 b (ec_queue e')" by (auto simp: ipcq_dequeue_def)
    then show ?thesis using o by (auto simp: dequeued_def)
  next
    case Echoing
    then consider "ec_queue e' = ?q" | err where "ipcq_enqueue_internal ?q (ec_buf e) 0 = Inr (err, ec_queue e')"
      using st by (auto simp: ipc_echo_step_def bindc_eq_Inr cleanq_enqueue_def ipcq_f_def ipcq_enqueue_def split: if_splits)
    then show ?thesis
    proof cases
      case 2
      show ?thesis
      proof (cases "ipcq_can_write ?q")
        case True
        obtain fr where w: "ipcq_enqueue_internal ?q (ec_buf e) 0 =
            Inr (CLEANQ_ERR_OK, ?q\<lparr>tx_frame := fr, tx_seq := tx_seq ?q + 1\<rparr>)" "fr_ack fr = fr_ack (tx_frame ?q)"
          "messages fr (rx_seq a) (tx_seq ?q + 1) =
            messages (tx_frame ?q) (rx_seq a) (tx_seq ?q) @ [\<lparr>d_buf = ec_buf e, d_seq = tx_seq ?q, d_cmd = 0\<rparr>]"
          using enqueue_internal_ack [OF c(1,3) True nw] .
        then show ?thesis using 2 o by (auto simp: only_data_def)
      qed (use 2 o enqueue_internal_full [OF c(3)] in simp)
    qed (use o in simp)
  qed (use st o in \<open>simp add: ipc_echo_step_def\<close>)
qed

lemma fill_only_data:
  assumes ok: "ipc_ok q a" and w: "ipcq_can_write q" and o: "only_data (tx_frame q) (rx_seq a) (tx_seq q)"
  shows "only_data (tx_frame (ipcq_fill q x cmd)) (rx_seq a) (tx_seq (ipcq_fill q x cmd))"
proof -
  have c: "chan_ok (tx_frame q) (rx_seq a) (tx_seq q)" "slots q = 63" using ok by (auto simp: ipc_ok_def)
  from chan_fill(2) [OF c(1) chan_can_write [OF c, THEN iffD1, OF w] _ refl,
      of "(fr_descs (tx_frame q) ! (unat (tx_seq q) mod 63))\<lparr>d_buf := x, d_cmd := cmd\<rparr>"]
  show ?thesis using o c(2) by (simp add: only_data_def ipcq_fill_def Let_def unat_mod_distrib)
qed

text \<open>With a buffer in its hands and at most 61 others on their way, the echo process finds room.\<close>

lemma echo_moves_no_loss:
  assumes inv: "echo_inv a e out" and n: "length out \<le> 62" and st: "echo_moves e e'"
  shows "ec_lost e e' = []"
proof (rule ccontr)
  let ?q = "ec_queue e"
  assume l: "ec_lost e e' \<noteq> []"
  then have pc: "ec_pc e = Echoing" "ec_pc e' = Polling" "ec_queue e' = ?q" by (auto simp: ec_lost_def split: if_splits)
  have c: "chan_ok (tx_frame ?q) (rx_seq a) (tx_seq ?q)" "slots ?q = 63" "only_data (tx_frame ?q) (rx_seq a) (tx_seq ?q)"
    using inv by (auto simp: echo_inv_def ipc_ok_def)
  have "length (in_transit ?q a) < 62" using inv n pc(1) by (simp add: echo_inv_def ec_held_def)
  then have w: "ipcq_can_write ?q" using only_data_room [OF c] by (simp add: in_transit_def)
  from st show False
  proof cases
    case (call env cap)
    with pc obtain err where d: "cleanq_enqueue (ipcq_f env ipc_echo_callbacks cap) ?q (ec_buf e) = Inr (err, ?q)"
      "err = CLEANQ_ERR_OK \<or> err = CLEANQ_ERR_QUEUE_FULL"
      by (auto simp: ipc_echo_step_def bindc_eq_Inr err_is_fail_def split: if_splits)
    have "ipc_ok ?q a" using inv ipc_ok_sym by (auto simp: echo_inv_def)
    from enqueue_changes [OF this call(2) d(1)] d(2) have "err = CLEANQ_ERR_QUEUE_FULL" by auto
    with d(1) have full: "ipcq_enqueue_internal ?q (ec_buf e) 0 = Inr (CLEANQ_ERR_QUEUE_FULL, ?q)"
      by (simp add: cleanq_enqueue_def bindc_eq_Inr ipcq_f_def ipcq_enqueue_def split: if_splits)
    show False by (rule enqueue_internal_spec [OF c(1,2) w call(2), of "ec_buf e" 0]) (use full in simp)
  qed (use pc in simp)
qed

lemma echo_inv_echo:
  assumes inv: "echo_inv a e out" and n: "length out \<le> 62" and st: "echo_moves e e'"
  shows "echo_inv (peer (ec_queue e') a) e' out" "ec_lost e e' = []"
proof -
  let ?q = "ec_queue e" and ?q' = "ec_queue e'"
  show l: "ec_lost e e' = []" by (rule echo_moves_no_loss [OF assms])
  have ok: "ipc_ok a ?q" "ipc_ok ?q a" using inv ipc_ok_sym by (auto simp: echo_inv_def)
  obtain s t where k: "keeps ?q a ?q' s t" "ec_held e @ t = s @ ec_held e'"
    using echo_moves_keeps [OF ok(1) st] l by auto
  have "only_data (tx_frame ?q') (rx_seq a) (tx_seq ?q')"
    using st by cases (use inv ok echo_call_only_data fill_only_data in \<open>auto simp: echo_inv_def\<close>)
  moreover have "out = in_transit ?q' (peer ?q' a) @ ec_held e' @ in_transit (peer ?q' a) ?q'"
    using inv k by (auto simp: echo_inv_def keeps_def)
  ultimately show "echo_inv (peer ?q' a) e' out" using k(1) ipc_ok_sym by (auto simp: echo_inv_def keeps_def)
qed

section \<open>The test\<close>

text \<open>How many buffers the test has sent and how many it got back.\<close>

fun tester_sent :: "tester_pc \<Rightarrow> nat \<Rightarrow> nat" where
  "tester_sent Sending i = i"
| "tester_sent _ i = NUM_BUFS div 2"

fun tester_got :: "tester_pc \<Rightarrow> nat \<Rightarrow> nat" where
  "tester_got Receiving i = i"
| "tester_got Finished i = NUM_BUFS div 2"
| "tester_got _ i = 0"

definition tester_inv :: "regionid \<Rightarrow> tester \<Rightarrow> ipc_echo \<Rightarrow> bool" where
  "tester_inv rid t e \<longleftrightarrow>
     (let s = tester_sent (ts_pc t) (ts_i t); g = tester_got (ts_pc t) (ts_i t) in
      ts_pc t \<noteq> Failed \<and> ts_i t < NUM_BUFS div 2 \<and>
      echo_inv (ts_queue t) e (map (test_buf rid) [g..<s]) \<and>
      num_tx t = of_nat s \<and> num_rx t = of_nat g \<and> (0 < g \<longrightarrow> ts_buf t = test_buf rid (g - 1)) \<and>
      (\<forall>i < NUM_BUFS div 2. in_bounds (cq_pool (ts_queue t)) (test_buf rid i)))"

lemma tester_next_queue [simp]: "ts_queue (tester_next pc t) = ts_queue t"
  by (simp add: tester_next_def)

lemma half_bufs: "NUM_BUFS div 2 = 32"
  by (simp add: NUM_BUFS_def)

lemma tester_inv_echo:
  assumes inv: "tester_inv rid t e" and st: "echo_moves e e'"
  shows "tester_inv rid (t\<lparr>ts_queue := peer (ec_queue e') (ts_queue t)\<rparr>) e'"
proof -
  let ?out = "map (test_buf rid) [tester_got (ts_pc t) (ts_i t)..<tester_sent (ts_pc t) (ts_i t)]"
  have i: "echo_inv (ts_queue t) e ?out" using inv by (simp add: tester_inv_def Let_def)
  have "ts_i t < 32" using inv by (simp add: tester_inv_def Let_def half_bufs)
  then have "length ?out \<le> 62" by (cases "ts_pc t") (simp_all add: half_bufs)
  from echo_inv_echo(1) [OF i this st] inv show ?thesis by (simp add: tester_inv_def Let_def)
qed

lemma tester_inv_filling:
  assumes f: "plain_callbacks f" and inv: "tester_inv rid t e" and w: "ipcq_can_write (ts_queue t)"
    and q: "q = ipcq_fill (ts_queue t) x cmd"
  shows "tester_inv rid (t\<lparr>ts_queue := q\<rparr>) (ec_peer q e)"
proof -
  let ?out = "map (test_buf rid) [tester_got (ts_pc t) (ts_i t)..<tester_sent (ts_pc t) (ts_i t)]"
  have i: "echo_inv (ts_queue t) e ?out" using inv by (simp add: tester_inv_def Let_def)
  have "ipc_step f (ts_queue t) Silent q" unfolding q by (rule ipc_step.fill [OF w])
  from echo_inv_client [OF f i this] have "echo_inv q (ec_peer q e) ?out" by auto
  moreover have "cq_pool q = cq_pool (ts_queue t)" by (simp add: q ipcq_fill_def Let_def)
  ultimately show ?thesis using inv by (simp add: tester_inv_def Let_def)
qed

lemma tester_inv_sending:
  assumes f: "plain_callbacks f" and inv: "tester_inv rid t e" and pc: "ts_pc t = Sending"
    and nw: "unat (tx_seq (ts_queue t)) + 1 < 2 ^ 64" and st: "tester_step env f cap rid t = Inr t'"
  shows "tester_inv rid t' (ec_peer (ts_queue t') e)"
proof -
  let ?q = "ts_queue t" and ?x = "test_buf rid (ts_i t)"
  have i: "echo_inv ?q e (map (test_buf rid) [0..<ts_i t])" "ts_i t < NUM_BUFS div 2" "in_bounds (cq_pool ?q) ?x"
    using inv pc by (simp_all add: tester_inv_def Let_def)
  then have ok: "ipc_ok ?q (ec_queue e)" by (simp add: echo_inv_def)
  obtain err q where d: "cleanq_enqueue (ipcq_f env f cap) ?q ?x = Inr (err, q)" "ts_queue t' = q"
    "t' = (if err_is_fail err
           then if err = CLEANQ_ERR_QUEUE_FULL then t\<lparr>ts_queue := q\<rparr> else t\<lparr>ts_queue := q, ts_pc := Failed\<rparr>
           else tester_next Receiving (t\<lparr>ts_queue := q, num_tx := num_tx t + 1\<rparr>))"
    using st pc by (auto simp: tester_step_def bindc_eq_Inr Let_def)
  have s: "ipcq_enqueue_internal ?q ?x 0 = Inr (err, q)" using d(1) i(3)
    by (simp add: cleanq_enqueue_def ipcq_f_def ipcq_enqueue_def)
  have r: "err = CLEANQ_ERR_OK \<or> err = CLEANQ_ERR_QUEUE_FULL" "cq_pool q = cq_pool ?q"
    using ipc_ok_send [OF ok nw s] enqueue_internal_rx [OF s] by (simp_all split: if_splits)
  have "ipc_step f ?q (if err = CLEANQ_ERR_OK then Sent ?x else Silent) q" by (rule ipc_step.enqueue [OF d(1) nw])
  then have inv': "echo_inv q (ec_peer q e) (map (test_buf rid) [0..<ts_i t] @ (if err = CLEANQ_ERR_OK then [?x] else []))"
    using echo_inv_client [OF f i(1)] by (cases "err = CLEANQ_ERR_OK") fastforce+
  show ?thesis
  proof (cases "err = CLEANQ_ERR_OK")
    case True
    then have t': "t' = tester_next Receiving (t\<lparr>ts_queue := q, num_tx := num_tx t + 1\<rparr>)"
      using d(3) by (simp add: err_is_fail_def)
    from inv' True have "echo_inv q (ec_peer q e) (map (test_buf rid) [0..<Suc (ts_i t)])" by simp
    moreover have "Suc (ts_i t) < NUM_BUFS div 2 \<or> NUM_BUFS div 2 = Suc (ts_i t)" using i(2) by linarith
    ultimately show ?thesis using inv pc r(2)
      by (elim disjE) (simp_all add: t' tester_next_def tester_inv_def Let_def add.commute)
  next
    case False
    then have "t' = t\<lparr>ts_queue := q\<rparr>" using r(1) d(3) by (simp add: err_is_fail_def)
    then show ?thesis using inv inv' pc False r(2) by (simp add: tester_inv_def Let_def)
  qed
qed

lemma tester_inv_receiving:
  assumes f: "plain_callbacks f" and inv: "tester_inv rid t e" and pc: "ts_pc t = Receiving"
    and st: "tester_step env f cap rid t = Inr t'"
  shows "tester_inv rid t' (ec_peer (ts_queue t') e)"
proof -
  let ?q = "ts_queue t" and ?n = "NUM_BUFS div 2"
  have i: "echo_inv ?q e (map (test_buf rid) [ts_i t..<?n])" "ts_i t < ?n" "in_bounds (cq_pool ?q) (test_buf rid (ts_i t))"
    using inv pc by (simp_all add: tester_inv_def Let_def)
  then have c: "chan_ok (rx_frame ?q) (rx_seq ?q) (tx_seq (ec_queue e))" "slots ?q = 63"
    "only_data (rx_frame ?q) (rx_seq ?q) (tx_seq (ec_queue e))" "peer ?q (ec_queue e) = ec_queue e"
    by (auto simp: echo_inv_def ipc_ok_def peer_def)
  obtain err b q where d: "cleanq_dequeue (ipcq_f env f cap) ?q (ts_buf t) = Inr (err, b, q)" "ts_queue t' = q"
    "t' = (if err_is_fail err
           then if err = CLEANQ_ERR_QUEUE_EMPTY then t\<lparr>ts_queue := q, ts_buf := b\<rparr>
                else t\<lparr>ts_queue := q, ts_buf := b, ts_pc := Failed\<rparr>
           else tester_next Finished (t\<lparr>ts_queue := q, ts_buf := b, num_rx := num_rx t + 1\<rparr>))"
    using st pc by (auto simp: tester_step_def bindc_eq_Inr Let_def)
  have step: "ipc_step f ?q (if err = CLEANQ_ERR_QUEUE_EMPTY then Silent else Took b) q" by (rule ipc_step.dequeue [OF d(1)])
  show ?thesis
  proof (rule dequeue_only_data [OF c(1-3) d(1)])
    assume "q = ?q" "b = ts_buf t" "err = CLEANQ_ERR_QUEUE_EMPTY"
    then have "t' = t" using d(3) by (simp add: err_is_fail_def)
    then show ?thesis using inv c(4) by (simp add: ec_peer_def)
  next
    assume q: "q = ipc_ack ?q" "err \<noteq> CLEANQ_ERR_QUEUE_EMPTY" "in_bounds (cq_pool ?q) b \<Longrightarrow> err = CLEANQ_ERR_OK"
    obtain out' where o: "echo_inv q (ec_peer q e) out'" "map (test_buf rid) [ts_i t..<?n] = b # out'"
      using echo_inv_client [OF f i(1) step] q(2) by auto
    then have b: "b = test_buf rid (ts_i t)" "out' = map (test_buf rid) [Suc (ts_i t)..<?n]"
      using i(2) by (simp_all add: upt_conv_Cons)
    then have t': "t' = tester_next Finished (t\<lparr>ts_queue := q, ts_buf := b, num_rx := num_rx t + 1\<rparr>)"
      using q(3) i(3) d(3) by (simp add: err_is_fail_def)
    have "Suc (ts_i t) < ?n \<or> ?n = Suc (ts_i t)" using i(2) by linarith
    then show ?thesis using inv pc o(1) b q(1)
      by (elim disjE) (simp_all add: t' tester_next_def tester_inv_def Let_def add.commute ipc_ack_def)
  qed
qed

lemma tester_run_inv:
  assumes f: "plain_callbacks f" and inv: "tester_inv rid t0 e0" and run: "tester_run f rid t0 e0 t e"
  shows "tester_inv rid t e"
  using run
proof induction
  case (tester t e env cap t')
  have "echo_inv (ts_queue t) e (map (test_buf rid) [tester_got (ts_pc t) (ts_i t)..<tester_sent (ts_pc t) (ts_i t)])"
    using tester.IH by (simp add: tester_inv_def Let_def)
  then have "ec_peer (ts_queue t) e = e" by (simp add: echo_inv_def ec_peer_def ipc_ok_def peer_def)
  moreover have "t' = t" if "ts_pc t = Finished \<or> ts_pc t = Failed" using tester.hyps(3) that by (auto simp: tester_step_def)
  ultimately show ?case using tester tester_inv_sending [OF f] tester_inv_receiving [OF f]
    by (cases "ts_pc t") auto
qed (use inv f tester_inv_echo tester_inv_filling in auto)

section \<open>A full ring back\<close>

text \<open>With the ring back full the echo process lets go of the buffer in its hands and polls for the next
  one: nobody has the buffer any more.\<close>

lemma echo_drops_when_full:
  assumes "ec_pc e = Echoing" "slots (ec_queue e) = 63" "\<not> ipcq_can_write (ec_queue e)"
    and "in_bounds (cq_pool (ec_queue e)) (ec_buf e)"
  shows "\<exists>e'. ipc_echo_step env cap e = Inr e' \<and> ec_queue e' = ec_queue e \<and> ec_held e' = [] \<and> ec_lost e e' = [ec_buf e]"
  using assms enqueue_internal_full [OF assms(2,3)]
  by (simp add: ipc_echo_step_def cleanq_enqueue_def ipcq_f_def ipcq_enqueue_def err_is_fail_def ec_held_def ec_lost_def)

section \<open>Starting the two processes\<close>

text \<open>The echo process creates and clears the frames; the test process maps them the other way round
  and does not clear them.\<close>

lemma echo_started:
  assumes e: "ipc_echo_main c0 fs fr (Mapped m1) (Mapped m2) c1 c2 rnd locals = Inr (Some e)"
    and a: "ipcq_create c0' fs' fr' (Mapped (rx_frame (ec_queue e))) (Mapped (tx_frame (ec_queue e))) False c1' c2' rnd' =
      Inr (err, Some a)"
  shows "echo_inv a e []"
proof -
  let ?new = "\<lparr>fr_ack = 0, fr_descs = replicate 63 zero_desc\<rparr>"
  have same: "init_frame True m = ?new" "init_frame False ?new = ?new" for m
    by (simp_all add: init_frame_def IPCQ_DEFAULT_SIZE_def)
  have "ec_pc e = Polling" "rx_frame (ec_queue e) = ?new" "tx_frame (ec_queue e) = ?new" "slots (ec_queue e) = 63"
    "rx_seq (ec_queue e) = 1" "tx_seq (ec_queue e) = 1"
    using e by (auto simp: ipc_echo_main_def bindc_eq_Inr ipcq_create_def same IPCQ_DEFAULT_SIZE_def
        split: if_splits prod.splits option.splits)
  moreover from this have "rx_frame a = ?new" "tx_frame a = ?new" "slots a = 63" "rx_seq a = 1" "tx_seq a = 1"
    using a by (auto simp: ipcq_create_def same IPCQ_DEFAULT_SIZE_def split: if_splits prod.splits option.splits)
  ultimately show ?thesis using chan_ok_new [unfolded same]
    by (simp add: echo_inv_def ipc_ok_def in_transit_def only_data_def ec_held_def)
qed

lemma echo_run_inv:
  assumes f: "plain_callbacks f" and n: "n \<le> 62" and inv: "echo_inv a0 e0 []" and run: "echo_run n f a0 e0 a e ins outs lost"
  shows "lost = [] \<and> length ins \<le> length outs + 62 \<and> (\<exists>out. echo_inv a e out \<and> ins = outs @ out)"
  using run
proof induction
  case (client a e ins outs lost ev a')
  obtain out where o: "echo_inv a e out" "ins = outs @ out" using client.IH by blast
  obtain out' where "echo_inv a' (ec_peer a' e) out'" "out @ sent ev = took ev @ out'"
    using echo_inv_client [OF f o(1) client.hyps(2)] .
  then show ?case using o(2) client n by auto
next
  case (echo a e ins outs lost e')
  obtain out where o: "echo_inv a e out" "ins = outs @ out" using echo.IH by blast
  moreover have "length out \<le> 62" using o(2) echo.IH by simp
  ultimately show ?case using echo_inv_echo [OF o(1) _ echo.hyps(2)] echo.IH by auto
qed (use inv in simp)

lemma echo_run_accounted:
  assumes f: "plain_callbacks f" and acc: "accounted a0 e0 [] [] []" and run: "echo_run n f a0 e0 a e ins outs lost"
  shows "accounted a e ins outs lost"
  using run by induction (use acc accounted_client [OF f] accounted_echo in auto)

section \<open>A test on concrete memory\<close>

definition demo_ipc_echo :: ipc_echo where
  "demo_ipc_echo = \<lparr>ec_pc = Polling, ec_buf = empty_buf, ec_queue = demo_ipcq demo_pool\<rparr>"

definition test_cap :: capref where
  "test_cap = \<lparr>cap_vaddr = 0x10000, cap_paddr = 0x10000, cap_len = 0x20000\<rparr>"

lemma demo_echo_started:
  "ipc_echo_main True 1 1 (Mapped fr) (Mapped fr) True True 20480 empty_buf = Inr (Some demo_ipc_echo)"
  "ipcq_create True 1 1 (Mapped (rx_frame (ec_queue demo_ipc_echo))) (Mapped (tx_frame (ec_queue demo_ipc_echo))) False True True 20480 =
     Inr (CLEANQ_ERR_OK, Some (demo_ipcq demo_pool))"
  by (simp_all add: ipc_echo_main_def demo_ipc_echo_def ipcq_create_def demo_ipcq_def cleanq_init_def demo_pool_def
      region_pool_init_def init_frame_def IPCQ_DEFAULT_SIZE_def Let_def)

lemma test_buf_in_region:
  assumes "i < NUM_BUFS"
  shows "buf_no_wrap (test_buf rid i)" "buf_in_region (test_buf rid i) 0x20000"
  using assms by (simp_all add: test_buf_def BUF_SIZE_def NUM_BUFS_def buf_no_wrap_def buf_in_region_def unat_word_ariths
      unat_of_nat)

lemma demo_test_registered:
  obtains rid a1 where
    "cleanq_register demo_env (ipcq_f (\<lambda>s. demo_env) demo_callbacks demo_cap) (demo_ipcq demo_pool) test_cap 0 =
       Inr (CLEANQ_ERR_OK, rid, a1)"
    "tx_seq a1 = 2" "\<And>i. i < NUM_BUFS \<Longrightarrow> in_bounds (cq_pool a1) (test_buf rid i)"
    "\<exists>a2. cleanq_enqueue (ipcq_f (\<lambda>s. demo_env) demo_callbacks demo_cap) a1 (test_buf rid 0) = Inr (CLEANQ_ERR_OK, a2)"
proof -
  let ?fr = "\<lparr>fr_ack = 0, fr_descs = replicate 63 zero_desc\<rparr>" and ?F = "ipcq_f (\<lambda>s. demo_env) demo_callbacks demo_cap"
  have q: "demo_ipcq p = \<lparr>cq_pool = p, cq_state = 0, slots = 63, rx_seq = 1, tx_seq = 1, rx_frame = ?fr, tx_frame = ?fr\<rparr>" for p
    by (simp add: demo_ipcq_def init_frame_def IPCQ_DEFAULT_SIZE_def Let_def)
  obtain rid p where a: "region_pool_add_region demo_env demo_pool test_cap 0 = Inr (CLEANQ_ERR_OK, rid, p)"
    "pool_inv p" "pool_map p = [rid \<mapsto> new_region rid test_cap]"
    by (rule region_pool_add_region_spec [OF demo_pool_ok(1), of demo_env test_cap 0])
      (auto simp: demo_pool_ok demo_pool_malloc demo_env_def pool_inv_def)
  have "\<exists>a1. cleanq_register demo_env ?F (demo_ipcq demo_pool) test_cap 0 = Inr (CLEANQ_ERR_OK, rid, a1) \<and>
      cq_pool a1 = p \<and> tx_seq a1 = 2 \<and> slots a1 = 63 \<and> fr_ack (tx_frame a1) = 0 \<and> length (fr_descs (tx_frame a1)) = 63"
    using a(1) by (simp add: cleanq_register_def ipcq_f_def q err_is_fail_def ipcq_register_def ipcq_can_write_def
        ipcq_enqueue_internal_def word_le_nat_alt)
  then obtain a1 where a1: "cleanq_register demo_env ?F (demo_ipcq demo_pool) test_cap 0 = Inr (CLEANQ_ERR_OK, rid, a1)"
    "cq_pool a1 = p" "tx_seq a1 = 2" "slots a1 = 63" "fr_ack (tx_frame a1) = 0" "length (fr_descs (tx_frame a1)) = 63"
    by blast
  have b: "in_bounds p (test_buf rid i)" if "i < NUM_BUFS" for i
    using in_bounds_region [OF a(2), of "test_buf rid i"] a(3) test_buf_in_region [OF that, of rid]
    by (simp add: new_region_def test_cap_def) (simp add: test_buf_def)
  then have "\<exists>a2. cleanq_enqueue ?F a1 (test_buf rid 0) = Inr (CLEANQ_ERR_OK, a2)"
    using a1(2-6) b [of 0] by (simp add: NUM_BUFS_def cleanq_enqueue_def ipcq_f_def ipcq_enqueue_def ipcq_enqueue_internal_def
        ipcq_can_write_def word_le_nat_alt)
  then show thesis using that a1(1-3) b by simp
qed

text \<open>The test process registers its memory and sends a buffer, the echo process takes it.\<close>

lemma demo_echo_run:
  obtains rid a1 e1 a e where
    "\<And>n. echo_run n demo_callbacks (demo_ipcq demo_pool) demo_ipc_echo a1 e1 [] [] []"
    "\<And>i. i < NUM_BUFS \<Longrightarrow> in_bounds (cq_pool a1) (test_buf rid i)"
    "echo_run 62 demo_callbacks (demo_ipcq demo_pool) demo_ipc_echo a e [test_buf rid 0] [] []"
    "ec_held e = [test_buf rid 0]" "tx_seq a1 = 2"
    "\<exists>a2. cleanq_enqueue (ipcq_f (\<lambda>s. demo_env) demo_callbacks demo_cap) a1 (test_buf rid 0) = Inr (CLEANQ_ERR_OK, a2)"
proof -
  let ?F = "ipcq_f (\<lambda>s. demo_env) demo_callbacks demo_cap" and ?q = "demo_ipcq demo_pool" and ?e = demo_ipc_echo
  obtain rid a1 a2 where r: "cleanq_register demo_env ?F ?q test_cap 0 = Inr (CLEANQ_ERR_OK, rid, a1)"
    "tx_seq a1 = 2" "\<And>i. i < NUM_BUFS \<Longrightarrow> in_bounds (cq_pool a1) (test_buf rid i)"
    "cleanq_enqueue ?F a1 (test_buf rid 0) = Inr (CLEANQ_ERR_OK, a2)"
    using demo_test_registered by metis
  have s: "tx_seq ?q = 1" "ec_pc ?e = Polling" "ec_queue ?e = ?q" "ec_buf ?e = empty_buf"
    by (simp_all add: demo_ipcq_def demo_ipc_echo_def Let_def)
  have "ipc_step demo_callbacks ?q Silent a1" using ipc_step.register [OF r(1)] s(1) by simp
  then have r1: "echo_run n demo_callbacks ?q ?e a1 (ec_peer a1 ?e) [] [] []" for n
    using echo_run.client [OF echo_run.start, of demo_callbacks ?q Silent a1 n] by simp
  have "ipc_step demo_callbacks a1 (Sent (test_buf rid 0)) a2" using ipc_step.enqueue [OF r(4)] r(2) by simp
  from echo_run.client [OF r1 this]
  have r2: "echo_run 62 demo_callbacks ?q ?e a2 (ec_peer a2 (ec_peer a1 ?e)) [test_buf rid 0] [] []" by simp
  have n: "0 < NUM_BUFS" by (simp add: NUM_BUFS_def)
  obtain b' where d: "cleanq_dequeue (ipcq_f (\<lambda>s. demo_env) ipc_echo_callbacks demo_cap) (peer a2 ?q) empty_buf =
      Inr (CLEANQ_ERR_OK, test_buf rid 0, b')"
    using ipc_region_before_buffer [OF ipc_echo_plain demo_ipcq_ok _ _ _ _ r(1,4)] test_buf_in_region(1) [OF n, of rid]
    by (force simp: s(1) demo_ipcq_def Let_def demo_pool_ready demo_pool_ok test_buf_def)
  define e where "e = \<lparr>ec_pc = Echoing, ec_buf = test_buf rid 0, ec_queue = b'\<rparr>"
  let ?e2 = "ec_peer a2 (ec_peer a1 ?e)"
  have e2: "ec_queue ?e2 = peer a2 ?q" "ec_pc ?e2 = Polling" "ec_buf ?e2 = empty_buf" "tx_seq (ec_queue ?e2) = 1"
    using s by (simp_all add: ec_peer_def peer_def)
  then have "ipc_echo_step (\<lambda>s. demo_env) demo_cap ?e2 = Inr e" using d by (simp add: ipc_echo_step_def e_def err_is_fail_def)
  then have "echo_moves ?e2 e" by (rule echo_moves.call [rotated 2]) (use s e2 in simp_all)
  moreover have "ec_lost ?e2 e = []" using e2 by (simp add: ec_lost_def)
  ultimately have "echo_run 62 demo_callbacks ?q ?e (peer b' a2) e [test_buf rid 0] [] []"
    using echo_run.echo [OF r2, of e] by (simp add: e_def)
  then show thesis using that [OF r1 r(3) _ _ r(2)] r(4) by (auto simp: e_def ec_held_def)
qed

section \<open>Properties\<close>

text \<open>Property C10: the echo process accounts for every buffer. It and any client run in any order after
  both are started. The buffers the client sent are, in order, those the echo process has let go of,
  the one in its hands and those on their way to it; the ones it let go of are the ones sent back,
  in order, mixed with the ones it dropped. It drops none as long as the client never has more
  than 62 buffers out, and then the client gets its buffers back in the order it sent them.\<close>

theorem ipc_echo_accounts:
  assumes "plain_callbacks f"
    and "ipc_echo_main c0 fs fr (Mapped m1) (Mapped m2) c1 c2 rnd locals = Inr (Some e0)"
    and "ipcq_create c0' fs' fr' (Mapped (rx_frame (ec_queue e0))) (Mapped (tx_frame (ec_queue e0))) False c1' c2' rnd' =
      Inr (err, Some a0)"
    and "echo_run n f a0 e0 a e ins outs lost"
  shows "(\<exists>gone. ins = gone @ ec_held e @ in_transit a (ec_queue e) \<and>
            gone \<in> shuffles (outs @ in_transit (ec_queue e) a) lost) \<and>
    (n \<le> 62 \<longrightarrow> lost = [] \<and>
       ins = outs @ in_transit (ec_queue e) a @ ec_held e @ in_transit a (ec_queue e))"
proof -
  have i: "echo_inv a0 e0 []" by (rule echo_started [OF assms(2,3)])
  then have "accounted a0 e0 [] [] []" by (simp add: accounted_def echo_inv_def)
  from echo_run_accounted [OF assms(1) this assms(4)] echo_run_inv [OF assms(1) _ i assms(4)] show ?thesis
    by (auto simp: accounted_def echo_inv_def)
qed

theorem ipc_echo_accounts_witness:
  "\<exists>rid a e. echo_run 62 demo_callbacks (demo_ipcq demo_pool) demo_ipc_echo a e [test_buf rid 0] [] [] \<and>
     ec_held e = [test_buf rid 0] \<and> in_transit a (ec_queue e) = [] \<and> in_transit (ec_queue e) a = []"
proof -
  obtain rid a e where r: "echo_run 62 demo_callbacks (demo_ipcq demo_pool) demo_ipc_echo a e [test_buf rid 0] [] []"
    "ec_held e = [test_buf rid 0]"
    by (rule demo_echo_run)
  have "[test_buf rid 0] = in_transit (ec_queue e) a @ [test_buf rid 0] @ in_transit a (ec_queue e)"
    using ipc_echo_accounts [OF demo_callbacks_plain demo_echo_started r(1)] r(2) by simp
  then have "in_transit (ec_queue e) a = []" "in_transit a (ec_queue e) = []"
    by (cases "in_transit (ec_queue e) a"; simp)+
  then show ?thesis using r by blast
qed

text \<open>Property C20: the test gets back what it sent. After any run of the two processes in which no buffer was
  sent, \<open>test_enqueue_dequeue\<close> on a registered region of 32 buffers never fails, whatever the order of
  the steps of the two processes. At any moment the buffers that are not back are exactly
  those after the last one it got, in order, the counters say how many were sent and how many came back, and the
  last buffer it got is the one that was next; at the end all 32 are back and none is in transit.\<close>

theorem ipc_test_gets_back:
  assumes "plain_callbacks f"
    and "ipc_echo_main c0 fs fr (Mapped m1) (Mapped m2) c1 c2 rnd locals = Inr (Some e0)"
    and "ipcq_create c0' fs' fr' (Mapped (rx_frame (ec_queue e0))) (Mapped (tx_frame (ec_queue e0))) False c1' c2' rnd' =
      Inr (err, Some a0)"
    and "echo_run 0 f a0 e0 a1 e1 [] [] lost"
    and "\<And>i. i < NUM_BUFS div 2 \<Longrightarrow> in_bounds (cq_pool a1) (test_buf rid i)"
    and "tester_run f rid (tester_start locals' a1) e1 t e"
    and "s = tester_sent (ts_pc t) (ts_i t)" "g = tester_got (ts_pc t) (ts_i t)"
  shows "ts_pc t \<noteq> Failed \<and>
    in_transit (ec_queue e) (ts_queue t) @ ec_held e @ in_transit (ts_queue t) (ec_queue e) = map (test_buf rid) [g..<s] \<and>
    num_tx t = of_nat s \<and> num_rx t = of_nat g \<and> (0 < g \<longrightarrow> ts_buf t = test_buf rid (g - 1))"
proof -
  have "echo_inv a1 e1 []"
    using echo_run_inv [OF assms(1) _ echo_started [OF assms(2,3)] assms(4)] by simp
  then have "tester_inv rid (tester_start locals' a1) e1"
    using assms(5) by (simp add: tester_inv_def tester_start_def half_bufs)
  from tester_run_inv [OF assms(1) this assms(6)] show ?thesis
    by (simp add: tester_inv_def echo_inv_def Let_def assms(7,8))
qed

theorem ipc_test_gets_back_witness:
  "\<exists>rid a1 e1 t e. echo_run 0 demo_callbacks (demo_ipcq demo_pool) demo_ipc_echo a1 e1 [] [] [] \<and>
     tester_run demo_callbacks rid (tester_start empty_buf a1) e1 t e \<and> ts_pc t = Sending \<and>
     in_transit (ec_queue e) (ts_queue t) @ ec_held e @ in_transit (ts_queue t) (ec_queue e) = [test_buf rid 0] \<and>
     num_tx t = 1 \<and> num_rx t = 0"
proof -
  obtain rid a1 e1 a2 where r: "echo_run 0 demo_callbacks (demo_ipcq demo_pool) demo_ipc_echo a1 e1 [] [] []"
    "\<And>i. i < NUM_BUFS \<Longrightarrow> in_bounds (cq_pool a1) (test_buf rid i)" "tx_seq a1 = 2"
    "cleanq_enqueue (ipcq_f (\<lambda>s. demo_env) demo_callbacks demo_cap) a1 (test_buf rid 0) = Inr (CLEANQ_ERR_OK, a2)"
    using demo_echo_run by metis
  define t where "t = (tester_start empty_buf a1)\<lparr>ts_queue := a2, num_tx := 1, ts_i := 1\<rparr>"
  have "tester_step (\<lambda>s. demo_env) demo_callbacks demo_cap rid (tester_start empty_buf a1) = Inr t"
    using r(4) by (simp add: tester_step_def tester_start_def t_def err_is_fail_def tester_next_def half_bufs)
  moreover have "unat (tx_seq (ts_queue (tester_start empty_buf a1))) + 1 < 2 ^ 64" by (simp add: tester_start_def r(3))
  ultimately obtain e where run: "tester_run demo_callbacks rid (tester_start empty_buf a1) e1 t e"
    using tester_run.tester [OF tester_run.start] by blast
  have b: "in_bounds (cq_pool a1) (test_buf rid i)" if "i < NUM_BUFS div 2" for i
    using r(2) [of i] that by (simp add: NUM_BUFS_def)
  have t: "ts_pc t = Sending" "ts_i t = 1" by (simp_all add: t_def tester_start_def)
  have "in_transit (ec_queue e) (ts_queue t) @ ec_held e @ in_transit (ts_queue t) (ec_queue e) = [test_buf rid 0] \<and>
      num_tx t = 1 \<and> num_rx t = 0"
    using ipc_test_gets_back [OF demo_callbacks_plain demo_echo_started r(1) b run refl refl] t by simp
  then show ?thesis using r(1) run t(1) by blast
qed

end
