(* ===== verification/Debug_Chunks.thy ===== *)
theory Debug_Chunks
  imports Slab
begin

text \<open>
  The chunk lists of the debugging queue, \<open>lib/libcleanq/src/backends/debug/cleanq_debug_module.c\<close>. For
  every region the queue keeps a doubly linked list of the chunks of memory its client owns. Enqueueing
  a buffer cuts it out of a chunk (\<open>remove_split_buffer\<close>), dequeueing one puts it back
  (\<open>insert_merge_buffer\<close>).

  The nodes live in a store: a pointer to a node that was freed has no entry, so a dangling access is a
  bad memory access. The functions take the pointer to the first node, which is a member of the region,
  and return it.

  Contents: the two functions; segments of doubly linked lists; that cutting removes exactly the bytes
  of the buffer from what is owned and that putting back adds exactly these bytes, for the arguments
  the queue calls them with; the case in which the test of the lower boundary is wrong.
\<close>

section \<open>The store\<close>

record memory_ele =
  me_offset :: u64
  me_length :: u64
  me_next :: addr
  me_prev :: addr

record chunk_mem =
  eles :: "addr \<rightharpoonup> memory_ele"
  ele_alloc :: slab_allocator

definition rd :: "chunk_mem \<Rightarrow> addr \<Rightarrow> memory_ele cres" where
  "rd m p = deref (eles m) p"

definition wr :: "chunk_mem \<Rightarrow> addr \<Rightarrow> (memory_ele \<Rightarrow> memory_ele) \<Rightarrow> chunk_mem cres" where
  "wr m p f = bindc (rd m p) (\<lambda>e. Inr (m\<lparr>eles := (eles m)(p \<mapsto> f e)\<rparr>))"

text \<open>\<open>slab_alloc\<close> with the assertion that follows it and the initialisation of the node; \<open>mret\<close> is what
  \<open>malloc\<close> returns if the allocator asks for memory.\<close>

definition ele_new :: "chunk_mem \<Rightarrow> addr \<Rightarrow> memory_ele \<Rightarrow> (addr \<times> chunk_mem) cres" where
  "ele_new m mret e =
     bindc (slab_alloc (ele_alloc m) mret) (\<lambda>(p, a).
       if \<not> p \<noteq> 0 then Inl Assert_Failed
       else Inr (p, m\<lparr>ele_alloc := a, eles := (eles m)(p \<mapsto> e)\<rparr>))"

definition ele_free :: "chunk_mem \<Rightarrow> addr \<Rightarrow> chunk_mem cres" where
  "ele_free m p = bindc (slab_free (ele_alloc m) p) (\<lambda>a. Inr (m\<lparr>ele_alloc := a, eles := (eles m)(p := None)\<rparr>))"

text \<open>\<open>if (p != NULL) { ... }\<close> around a write to \<open>*p\<close>, and the write of \<open>prev->next\<close>, or of the region's
  pointer when there is no previous node.\<close>

definition wr_opt :: "chunk_mem \<Rightarrow> addr \<Rightarrow> (memory_ele \<Rightarrow> memory_ele) \<Rightarrow> chunk_mem cres" where
  "wr_opt m p f = (if p \<noteq> 0 then wr m p f else Inr m)"

definition set_succ :: "chunk_mem \<Rightarrow> addr \<Rightarrow> addr \<Rightarrow> addr \<Rightarrow> (addr \<times> chunk_mem) cres" where
  "set_succ m head prev n =
     (if prev \<noteq> 0 then bindc (wr m prev (\<lambda>p. p\<lparr>me_next := n\<rparr>)) (\<lambda>m'. Inr (head, m')) else Inr (n, m))"

section \<open>Operations\<close>

definition buffer_in_bounds :: "u64 \<Rightarrow> u64 \<Rightarrow> u64 \<Rightarrow> u64 \<Rightarrow> bool" where
  "buffer_in_bounds offset_b1 len_b1 offset_b2 len_b2 \<longleftrightarrow>
     offset_b2 \<le> offset_b1 \<and> len_b1 \<le> len_b2 \<and> offset_b1 + len_b1 \<le> offset_b2 + len_b2"

text \<open>The buffer is at the beginning of the chunk.\<close>

definition cut_beginning ::
  "chunk_mem \<Rightarrow> addr \<Rightarrow> addr \<Rightarrow> memory_ele \<Rightarrow> u64 \<Rightarrow> (addr \<times> chunk_mem) cres" where
  "cut_beginning m head buffer e len =
     bindc (wr m buffer (\<lambda>e. e\<lparr>me_offset := me_offset e + len, me_length := me_length e - len\<rparr>)) (\<lambda>m1.
     if me_length e - len = 0 then
       bindc (set_succ m1 head (me_prev e) (me_next e)) (\<lambda>(head', m2).
       bindc (wr_opt m2 (me_next e) (\<lambda>n. n\<lparr>me_prev := me_prev e\<rparr>)) (\<lambda>m3.
       bindc (ele_free m3 buffer) (\<lambda>m4. Inr (head', m4))))
     else Inr (head, m1))"

text \<open>The buffer is at the end of the chunk.\<close>

definition cut_end ::
  "chunk_mem \<Rightarrow> addr \<Rightarrow> addr \<Rightarrow> memory_ele \<Rightarrow> u64 \<Rightarrow> (addr \<times> chunk_mem) cres" where
  "cut_end m head buffer e len =
     bindc (wr m buffer (\<lambda>e. e\<lparr>me_length := me_length e - len\<rparr>)) (\<lambda>m1.
     if me_length e - len = 0 then
       bindc (if me_prev e \<noteq> 0 then wr m1 buffer (\<lambda>e. e\<lparr>me_prev := me_next e\<rparr>) else Inr m1) (\<lambda>m2.
       bindc (rd m2 buffer) (\<lambda>e2.
       bindc (wr_opt m2 (me_next e2) (\<lambda>n. n\<lparr>me_prev := me_prev e2\<rparr>)) (\<lambda>m3.
       bindc (ele_free m3 buffer) (\<lambda>m4. Inr (head, m4)))))
     else Inr (head, m1))"

text \<open>The buffer is inside the chunk: the chunk becomes the half before it, a new node the half after.\<close>

definition cut_middle ::
  "chunk_mem \<Rightarrow> addr \<Rightarrow> addr \<Rightarrow> memory_ele \<Rightarrow> u64 \<Rightarrow> u64 \<Rightarrow> addr \<Rightarrow> (addr \<times> chunk_mem) cres" where
  "cut_middle m head buffer e off len mret =
     (let old_len = me_length e; blen = off - me_offset e in
      bindc (wr m buffer (\<lambda>e. e\<lparr>me_length := blen\<rparr>)) (\<lambda>m1.
      bindc (ele_new m1 mret \<lparr>me_offset = me_offset e + blen + len, me_length = old_len - blen - len,
                              me_next = me_next e, me_prev = buffer\<rparr>) (\<lambda>(after, m2).
      bindc (wr_opt m2 (me_next e) (\<lambda>n. n\<lparr>me_prev := after\<rparr>)) (\<lambda>m3.
      bindc (wr m3 buffer (\<lambda>e. e\<lparr>me_next := after\<rparr>)) (\<lambda>m4. Inr (head, m4))))))"

definition remove_split_buffer ::
  "chunk_mem \<Rightarrow> addr \<Rightarrow> addr \<Rightarrow> u64 \<Rightarrow> u64 \<Rightarrow> addr \<Rightarrow> (addr \<times> chunk_mem) cres" where
  "remove_split_buffer m head buffer off len mret =
     bindc (rd m buffer) (\<lambda>e.
       if me_offset e = off then cut_beginning m head buffer e len
       else if me_offset e + me_length e = off + len then cut_end m head buffer e len
       else cut_middle m head buffer e off len mret)"

text \<open>Putting a buffer back behind \<open>buffer\<close>. The first test of the code adds \<open>length\<close> of the new buffer,
  not of the chunk, to the chunk's offset.\<close>

definition insert_after ::
  "chunk_mem \<Rightarrow> addr \<Rightarrow> addr \<Rightarrow> memory_ele \<Rightarrow> u64 \<Rightarrow> u64 \<Rightarrow> addr \<Rightarrow> (addr \<times> chunk_mem) cres" where
  "insert_after m head buffer e off len mret =
     (if me_offset e + len = off then
        bindc (wr m buffer (\<lambda>e. e\<lparr>me_length := me_length e + len\<rparr>)) (\<lambda>m1.
        if me_next e = 0 then Inr (head, m1)
        else bindc (rd m1 (me_next e)) (\<lambda>n.
          if me_offset e + (me_length e + len) = me_offset n then
            bindc (wr m1 buffer (\<lambda>e. e\<lparr>me_length := me_length e + me_length n\<rparr>)) (\<lambda>m2.
            bindc (if me_next n \<noteq> 0
                   then bindc (wr m2 buffer (\<lambda>e. e\<lparr>me_next := me_next n\<rparr>)) (\<lambda>m3.
                        bindc (rd m3 (me_next n)) (\<lambda>nn.
                        wr m3 (me_next nn) (\<lambda>x. x\<lparr>me_prev := buffer\<rparr>)))
                   else Inr m2) (\<lambda>m4.
            bindc (ele_free m4 (me_next e)) (\<lambda>m5. Inr (head, m5))))
          else Inr (head, m1)))
      else
        bindc (if me_next e \<noteq> 0 then bindc (rd m (me_next e)) (\<lambda>n. Inr (me_offset n = off + len)) else Inr False)
          (\<lambda>higher.
        if higher
        then bindc (wr m (me_next e) (\<lambda>n. n\<lparr>me_offset := off, me_length := me_length n + len\<rparr>)) (\<lambda>m1. Inr (head, m1))
        else if me_next e = 0 \<and> me_offset e + me_length e = off
        then bindc (wr m buffer (\<lambda>e. e\<lparr>me_length := me_length e + len\<rparr>)) (\<lambda>m1. Inr (head, m1))
        else
          bindc (ele_new m mret \<lparr>me_offset = off, me_length = len, me_next = me_next e, me_prev = buffer\<rparr>) (\<lambda>(ele, m1).
          bindc (wr_opt m1 (me_next e) (\<lambda>n. n\<lparr>me_prev := ele\<rparr>)) (\<lambda>m2.
          bindc (wr m2 buffer (\<lambda>e. e\<lparr>me_next := ele\<rparr>)) (\<lambda>m3. Inr (head, m3))))))"

definition insert_before ::
  "chunk_mem \<Rightarrow> addr \<Rightarrow> addr \<Rightarrow> memory_ele \<Rightarrow> u64 \<Rightarrow> u64 \<Rightarrow> addr \<Rightarrow> (addr \<times> chunk_mem) cres" where
  "insert_before m head buffer e off len mret =
     bindc (if me_prev e \<noteq> 0
            then bindc (rd m (me_prev e)) (\<lambda>p. Inr (me_offset p + me_length p = off)) else Inr False) (\<lambda>lower.
     if me_offset e = off + len then
       bindc (wr m buffer (\<lambda>e. e\<lparr>me_length := me_length e + len, me_offset := off\<rparr>)) (\<lambda>m1.
       if lower then
         bindc (wr m1 (me_prev e) (\<lambda>p. p\<lparr>me_length := me_length p + (me_length e + len), me_next := me_next e\<rparr>)) (\<lambda>m2.
         bindc (wr_opt m2 (me_next e) (\<lambda>n. n\<lparr>me_prev := me_prev e\<rparr>)) (\<lambda>m3.
         bindc (ele_free m3 buffer) (\<lambda>m4. Inr (head, m4))))
       else Inr (head, m1))
     else if lower then
       bindc (wr m (me_prev e) (\<lambda>p. p\<lparr>me_length := me_length p + (if len = 0 then 2048 else 0) + len\<rparr>)) (\<lambda>m1. Inr (head, m1))
     else
       bindc (ele_new m mret \<lparr>me_offset = off, me_length = len, me_next = buffer, me_prev = me_prev e\<rparr>) (\<lambda>(ele, m1).
       bindc (set_succ m1 head (me_prev e) ele) (\<lambda>(head', m2).
       bindc (wr m2 buffer (\<lambda>e. e\<lparr>me_prev := ele\<rparr>)) (\<lambda>m3. Inr (head', m3)))))"

definition insert_merge_buffer ::
  "chunk_mem \<Rightarrow> addr \<Rightarrow> addr \<Rightarrow> u64 \<Rightarrow> u64 \<Rightarrow> addr \<Rightarrow> (addr \<times> chunk_mem) cres" where
  "insert_merge_buffer m head buffer off len mret =
     (if \<not> buffer \<noteq> 0 then Inl Assert_Failed
      else bindc (rd m buffer) (\<lambda>e.
        if me_offset e + me_length e \<le> off then insert_after m head buffer e off len mret
        else insert_before m head buffer e off len mret))"

section \<open>Segments of doubly linked lists\<close>

definition first :: "addr list \<Rightarrow> addr \<Rightarrow> addr" where
  "first xs n = (case xs of [] \<Rightarrow> n | x # _ \<Rightarrow> x)"

definition final :: "addr \<Rightarrow> addr list \<Rightarrow> addr" where
  "final p xs = (if xs = [] then p else last xs)"

lemma first_simps [simp]: "first [] n = n" "first (x # xs) n = x" "first (xs @ ys) n = first xs (first ys n)"
  by (simp_all add: first_def split: list.splits)

lemma final_simps [simp]: "final p [] = p" "final p (x # xs) = final x xs" "final p (xs @ ys) = final (final p xs) ys"
  by (simp_all add: final_def)

text \<open>The nodes \<open>xs\<close>, linked in this order, with the node \<open>p\<close> before and \<open>n\<close> after them.\<close>

fun dls :: "(addr \<rightharpoonup> memory_ele) \<Rightarrow> addr \<Rightarrow> addr list \<Rightarrow> addr \<Rightarrow> bool" where
  "dls E p [] n \<longleftrightarrow> True"
| "dls E p (x # xs) n \<longleftrightarrow> (\<exists>e. E x = Some e \<and> me_prev e = p \<and> me_next e = first xs n) \<and> dls E x xs n"

lemma dls_append [simp]: "dls E p (xs @ ys) n \<longleftrightarrow> dls E p xs (first ys n) \<and> dls E (final p xs) ys n"
  by (induction xs arbitrary: p) auto

lemma dls_cong: "(\<And>x. x \<in> set xs \<Longrightarrow> E' x = E x) \<Longrightarrow> dls E' p xs n = dls E p xs n"
  by (induction xs arbitrary: p) auto

lemma dls_upd [simp]: "x \<notin> set xs \<Longrightarrow> dls (E(x := v)) p xs n = dls E p xs n"
  by (rule dls_cong) auto

lemma dls_dom: "dls E p xs n \<Longrightarrow> x \<in> set xs \<Longrightarrow> \<exists>e. E x = Some e"
  by (induction xs arbitrary: p) auto

text \<open>Setting the next pointer of the last node of a segment and the previous pointer of the first.\<close>

definition set_next :: "(addr \<rightharpoonup> memory_ele) \<Rightarrow> addr list \<Rightarrow> addr \<Rightarrow> (addr \<rightharpoonup> memory_ele)" where
  "set_next E xs n = (if xs = [] then E else E(last xs := map_option (\<lambda>e. e\<lparr>me_next := n\<rparr>) (E (last xs))))"

definition set_prev :: "(addr \<rightharpoonup> memory_ele) \<Rightarrow> addr list \<Rightarrow> addr \<Rightarrow> (addr \<rightharpoonup> memory_ele)" where
  "set_prev E xs p = (if xs = [] then E else E(hd xs := map_option (\<lambda>e. e\<lparr>me_prev := p\<rparr>) (E (hd xs))))"

lemma set_next_simps [simp]:
  "set_next E [] n = E"
  "set_next E (xs @ [b]) n = E(b := map_option (\<lambda>e. e\<lparr>me_next := n\<rparr>) (E b))"
  "x \<notin> set xs \<Longrightarrow> set_next E xs n x = E x"
  by (auto simp: set_next_def)

lemma set_prev_simps [simp]:
  "set_prev E [] p = E"
  "set_prev E (b # xs) p = E(b := map_option (\<lambda>e. e\<lparr>me_prev := p\<rparr>) (E b))"
  "x \<notin> set xs \<Longrightarrow> set_prev E xs p x = E x"
  by (auto simp: set_prev_def)

lemma set_next_set_prev:
  "set xs \<inter> set ys = {} \<Longrightarrow> set_prev (set_next E xs n) ys p = set_next (set_prev E ys p) xs n"
proof -
  assume d: "set xs \<inter> set ys = {}"
  then have "xs = [] \<or> ys = [] \<or> last xs \<noteq> hd ys" by (metis disjoint_iff hd_in_set last_in_set)
  then show ?thesis by (auto simp: set_next_def set_prev_def fun_upd_twist)
qed

lemma dls_set_next:
  assumes "dls E p xs n" "distinct xs"
  shows "dls (set_next E xs n') p xs n'"
proof (cases xs rule: rev_cases)
  case (snoc zs b)
  then have "dls (E(b := v)) p zs b = dls E p zs b" for v using assms(2) by simp
  then show ?thesis using assms snoc by auto
qed simp

lemma dls_set_prev:
  assumes "dls E p xs n" "distinct xs"
  shows "dls (set_prev E xs p') p' xs n"
  using assms by (cases xs) auto

lemma dls_set_next_other: "set xs \<inter> set zs = {} \<Longrightarrow> dls (set_next E zs n') p xs n = dls E p xs n"
  by (rule dls_cong) (metis disjoint_iff set_next_simps(3))

lemma dls_set_prev_other: "set xs \<inter> set zs = {} \<Longrightarrow> dls (set_prev E zs p') p xs n = dls E p xs n"
  by (rule dls_cong) (metis disjoint_iff set_prev_simps(3))

text \<open>The chunks of a list of nodes, as offset and length.\<close>

definition chunk :: "(addr \<rightharpoonup> memory_ele) \<Rightarrow> addr \<Rightarrow> nat \<times> nat" where
  "chunk E x = (case E x of None \<Rightarrow> (0, 0) | Some e \<Rightarrow> (unat (me_offset e), unat (me_length e)))"

lemma chunk_set_next [simp]: "chunk (set_next E xs n) x = chunk E x"
  by (auto simp: chunk_def set_next_def split: option.splits)

lemma chunk_set_prev [simp]: "chunk (set_prev E xs p) x = chunk E x"
  by (auto simp: chunk_def set_prev_def split: option.splits)

lemma chunk_upd [simp]: "x \<noteq> y \<Longrightarrow> chunk (E(y := v)) x = chunk E x"
  "chunk (E(y \<mapsto> e)) y = (unat (me_offset e), unat (me_length e))"
  by (simp_all add: chunk_def)

lemma map_chunk_upd [simp]: "y \<notin> set xs \<Longrightarrow> map (chunk (E(y := v))) xs = map (chunk E) xs"
  by (auto simp: chunk_def)

section \<open>Well-formed lists and the four changes\<close>

text \<open>\<open>head\<close> points to the list of the nodes \<open>ns\<close>, which are blocks of the allocator in use.\<close>

definition list_ok :: "chunk_mem \<Rightarrow> addr \<Rightarrow> addr list \<Rightarrow> bool" where
  "list_ok m head ns \<longleftrightarrow> distinct ns \<and> 0 \<notin> set ns \<and> head = first ns 0 \<and> dls (eles m) 0 ns 0 \<and>
     set ns \<subseteq> live (ele_alloc m) \<and> slab_wf (ele_alloc m) \<and> refill_func (ele_alloc m) = Default_Refill"

text \<open>The list with nodes \<open>ns\<close> has become one with chunks \<open>cs\<close>; the nodes of other lists are as before.\<close>

definition becomes :: "chunk_mem \<Rightarrow> addr list \<Rightarrow> (nat \<times> nat) list \<Rightarrow> addr \<Rightarrow> chunk_mem \<Rightarrow> bool" where
  "becomes m ns cs head m' \<longleftrightarrow>
     (\<exists>ns'. list_ok m' head ns' \<and> map (chunk (eles m')) ns' = cs \<and>
        set ns' \<inter> (live (ele_alloc m) - set ns) = {}) \<and>
     (\<forall>x\<in>live (ele_alloc m) - set ns. x \<in> live (ele_alloc m') \<and> eles m' x = eles m x)"

lemma list_okD:
  assumes "list_ok m head (xs @ b # ys)"
  obtains e where "eles m b = Some e" "me_prev e = final 0 xs" "me_next e = first ys 0"
    "dls (eles m) 0 xs b" "dls (eles m) b ys 0"
    "distinct xs" "distinct ys" "b \<notin> set xs" "b \<notin> set ys" "set xs \<inter> set ys = {}" "0 \<notin> set xs" "0 \<notin> set ys" "b \<noteq> 0"
  using assms that by (auto simp: list_ok_def)

lemma final_zero: "0 \<notin> set xs \<Longrightarrow> final 0 xs = 0 \<longleftrightarrow> xs = []"
  by (cases xs rule: rev_cases) auto

lemma first_zero: "0 \<notin> set xs \<Longrightarrow> first xs 0 = 0 \<longleftrightarrow> xs = []"
  by (cases xs) auto

text \<open>The conditional writes to a neighbour.\<close>

lemma wr_opt_prev:
  assumes "0 \<notin> set ys" "dls (eles m) p ys q"
  shows "wr_opt m (first ys 0) (\<lambda>n. n\<lparr>me_prev := v\<rparr>) = Inr (m\<lparr>eles := set_prev (eles m) ys v\<rparr>)"
  using assms by (cases ys) (auto simp: wr_opt_def wr_def rd_def)

lemma set_succ_spec:
  assumes "0 \<notin> set xs" "dls (eles m) p xs q"
  shows "set_succ m (first xs h) (final 0 xs) n = Inr (first xs n, m\<lparr>eles := set_next (eles m) xs n\<rparr>)"
proof (cases xs rule: rev_cases)
  case (snoc zs c)
  then show ?thesis using assms by (cases zs) (auto simp: set_succ_def wr_def rd_def set_next_def)
qed (simp add: set_succ_def)

text \<open>A node changes its chunk.\<close>

lemma becomes_modify:
  assumes ok: "list_ok m head (xs @ b # ys)" and e: "eles m b = Some e"
    and e': "me_prev e' = me_prev e" "me_next e' = me_next e"
  shows "becomes m (xs @ b # ys)
    (map (chunk (eles m)) xs @ (unat (me_offset e'), unat (me_length e')) # map (chunk (eles m)) ys)
    head (m\<lparr>eles := (eles m)(b \<mapsto> e')\<rparr>)"
  unfolding becomes_def
  by (intro conjI exI [of _ "xs @ b # ys"]) (use ok e e' in \<open>auto simp: list_ok_def\<close>)

text \<open>A node is unlinked and freed.\<close>

lemma becomes_unlink:
  assumes ok: "list_ok m head (xs @ b # ys)" and E: "\<And>x. x \<noteq> b \<Longrightarrow> E x = eles m x"
    and fr: "slab_free (ele_alloc m) b = Inr a"
  shows "becomes m (xs @ b # ys) (map (chunk (eles m)) (xs @ ys)) (first (xs @ ys) 0)
    (m\<lparr>ele_alloc := a, eles := (set_prev (set_next E xs (first ys 0)) ys (final 0 xs))(b := None)\<rparr>)"
proof -
  have d: "dls (eles m) 0 xs b" "dls (eles m) b ys 0" "distinct xs" "distinct ys"
    "b \<notin> set xs" "b \<notin> set ys" "set xs \<inter> set ys = {}"
    using ok by (auto simp: list_ok_def)
  have b: "b \<in> live (ele_alloc m)" "slab_wf (ele_alloc m)" using ok by (auto simp: list_ok_def)
  obtain a' where "slab_free (ele_alloc m) b = Inr a'" "slab_wf a'" "live a' = live (ele_alloc m) - {b}"
    using slab.deallocE [OF b(2,1)] .
  then have a: "slab_wf a" "live a = live (ele_alloc m) - {b}" using fr by auto
  have "refill_func a = Default_Refill" using slab_free_refill_func [OF fr] ok by (simp add: list_ok_def)
  have E': "dls E 0 xs b" "dls E b ys 0" using d E by (metis dls_cong)+
  let ?E = "set_prev (set_next E xs (first ys 0)) ys (final 0 xs)"
  have "dls ?E 0 xs (first ys 0)"
    using dls_set_next [OF E'(1) d(3)] dls_set_prev_other [of xs ys] d(7) by auto
  moreover have "dls ?E (final 0 xs) ys 0"
    using dls_set_prev [OF _ d(4), of "set_next E xs (first ys 0)" b 0] dls_set_next_other [of ys xs E] E'(2) d(7)
    by (simp add: Int_commute)
  ultimately have "dls (?E(b := None)) 0 (xs @ ys) 0" using d(5,6) by simp
  moreover have "map (chunk (?E(b := None))) (xs @ ys) = map (chunk (eles m)) (xs @ ys)"
  proof (rule map_cong)
    fix x assume "x \<in> set (xs @ ys)"
    then have x: "x \<noteq> b" using d(5,6) by auto
    then have "chunk E x = chunk (eles m) x" using E by (simp add: chunk_def)
    then show "chunk (?E(b := None)) x = chunk (eles m) x" using x by simp
  qed simp
  ultimately show ?thesis unfolding becomes_def
    by (intro conjI exI [of _ "xs @ ys"]) (use ok d a E \<open>refill_func a = Default_Refill\<close> in \<open>auto simp: list_ok_def\<close>)
qed

text \<open>A new node is linked in between two segments.\<close>

lemma becomes_link:
  assumes ok: "list_ok m head (xs @ ys)" and al: "slab_alloc (ele_alloc m) mret = Inr (c, a)" "c \<noteq> 0"
    and m: "malloc_ok (ele_alloc m) mret" and e: "me_prev e = final 0 xs" "me_next e = first ys 0"
  shows "becomes m (xs @ ys) (map (chunk (eles m)) xs @ (unat (me_offset e), unat (me_length e)) # map (chunk (eles m)) ys)
    (first (xs @ c # ys) 0) (m\<lparr>ele_alloc := a, eles := set_prev (set_next ((eles m)(c \<mapsto> e)) xs c) ys c\<rparr>)"
proof -
  have d: "dls (eles m) 0 xs (first ys 0)" "dls (eles m) (final 0 xs) ys 0" "distinct xs" "distinct ys"
    "set xs \<inter> set ys = {}" "set (xs @ ys) \<subseteq> live (ele_alloc m)" "slab_wf (ele_alloc m)"
    using ok by (auto simp: list_ok_def)
  have a: "slab_wf a" "c \<notin> live (ele_alloc m)" "live a = insert c (live (ele_alloc m))"
    using slab.allocE [OF d(7) m] al by auto
  have "refill_func a = Default_Refill" using slab_alloc_refill_func [OF al(1)] ok by (simp add: list_ok_def)
  have c: "c \<notin> set xs" "c \<notin> set ys" using a(2) d(6) by auto
  let ?F = "(eles m)(c \<mapsto> e)" and ?E = "set_prev (set_next ((eles m)(c \<mapsto> e)) xs c) ys c"
  have E0: "dls ?F 0 xs (first ys 0)" "dls ?F (final 0 xs) ys 0" using d c by simp_all
  have "dls ?E 0 xs c" using dls_set_next [OF E0(1) d(3)] dls_set_prev_other [of xs ys] d(5) by auto
  moreover have "dls ?E c ys 0"
    using dls_set_prev [OF _ d(4), of "set_next ?F xs c" "final 0 xs" 0] dls_set_next_other [of ys xs ?F] E0(2) d(5)
    by (simp add: Int_commute)
  moreover have "?E c = Some e" using c by simp
  ultimately have "dls ?E 0 (xs @ c # ys) 0" using e by simp
  moreover have "map (chunk ?E) (xs @ c # ys) =
      map (chunk (eles m)) xs @ (unat (me_offset e), unat (me_length e)) # map (chunk (eles m)) ys"
    using c by simp (metis chunk_upd(1))
  moreover have "?E x = eles m x" if "x \<in> live (ele_alloc m) - set (xs @ ys)" for x using that a(2) by auto
  ultimately show ?thesis unfolding becomes_def
    by (intro conjI exI [of _ "xs @ c # ys"]) (use ok d c a al(2) \<open>refill_func a = Default_Refill\<close> in \<open>auto simp: list_ok_def\<close>)
qed

section \<open>Cutting a buffer out\<close>

text \<open>The pieces of the chunk \<open>(bo, bl)\<close> around the buffer \<open>(o, l)\<close>.\<close>

definition cut :: "nat \<times> nat \<Rightarrow> nat \<times> nat \<Rightarrow> (nat \<times> nat) list" where
  "cut c b = filter (\<lambda>(_, l). 0 < l)
     [(fst c, fst b - fst c), (fst b + snd b, fst c + snd c - (fst b + snd b))]"

definition contains :: "nat \<times> nat \<Rightarrow> nat \<times> nat \<Rightarrow> bool" where
  "contains c b \<longleftrightarrow> fst c \<le> fst b \<and> fst b + snd b \<le> fst c + snd c"

lemma ele_new_spec:
  assumes "slab_wf (ele_alloc m)" "refill_func (ele_alloc m) = Default_Refill"
    and "malloc_ok (ele_alloc m) mret" "mret \<noteq> 0"
  obtains c a where "slab_alloc (ele_alloc m) mret = Inr (c, a)" "c \<noteq> 0" "c \<notin> live (ele_alloc m)"
    "\<forall>e. ele_new m mret e = Inr (c, m\<lparr>ele_alloc := a, eles := (eles m)(c \<mapsto> e)\<rparr>)"
  using slab_alloc_spec [OF assms(1,3)] assms(2,4) that by (auto simp: ele_new_def)

lemma unat_sub_le: "unat b \<le> unat a \<Longrightarrow> unat (a - b) = unat a - unat (b :: u64)"
  by (simp add: unat_sub word_le_nat_alt)

lemma unat_add_less: "unat a + unat b < 2 ^ 64 \<Longrightarrow> unat (a + b) = unat a + unat (b :: u64)"
  by (simp add: unat_word_ariths)

text \<open>Unlinking and freeing a node, as the code does it after changing its chunk.\<close>

lemma unlink_spec:
  assumes ok: "list_ok m head (xs @ b # ys)"
  obtains a where "slab_free (ele_alloc m) b = Inr a"
    "bindc (set_succ (m\<lparr>eles := (eles m)(b \<mapsto> e')\<rparr>) head (final 0 xs) (first ys 0)) (\<lambda>(head', m2).
     bindc (wr_opt m2 (first ys 0) (\<lambda>n. n\<lparr>me_prev := final 0 xs\<rparr>)) (\<lambda>m3.
     bindc (ele_free m3 b) (\<lambda>m4. Inr (head', m4)))) =
     Inr (first (xs @ ys) 0, m\<lparr>ele_alloc := a,
       eles := (set_prev (set_next ((eles m)(b \<mapsto> e')) xs (first ys 0)) ys (final 0 xs))(b := None)\<rparr>)"
proof -
  obtain e where l: "dls (eles m) 0 xs b" "dls (eles m) b ys 0" "0 \<notin> set xs" "0 \<notin> set ys"
    "b \<notin> set xs" "b \<notin> set ys" "set xs \<inter> set ys = {}" "eles m b = Some e"
    by (rule list_okD [OF ok])
  have b: "b \<in> live (ele_alloc m)" "slab_wf (ele_alloc m)" "head = first xs b" using ok by (auto simp: list_ok_def)
  obtain a where a: "slab_free (ele_alloc m) b = Inr a" using slab.deallocE [OF b(2,1)] by metis
  define m1 where "m1 = m\<lparr>eles := (eles m)(b \<mapsto> e')\<rparr>"
  define m2 where "m2 = m1\<lparr>eles := set_next (eles m1) xs (first ys 0)\<rparr>"
  have "dls (eles m1) 0 xs b" "dls (eles m2) b ys 0"
    using l by (simp_all add: m1_def m2_def dls_set_next_other Int_commute)
  from set_succ_spec [OF l(3) this(1), of b "first ys 0"] wr_opt_prev [OF l(4) this(2), of "final 0 xs"]
  show thesis using that a b(3)
    by (simp add: m1_def [symmetric] m2_def [symmetric] ele_free_def) (simp add: m1_def m2_def)
qed

lemma cut_beginning_spec:
  assumes ok: "list_ok m head (xs @ b # ys)" and e: "eles m b = Some e"
    and c: "unat len \<le> unat (me_length e)" "0 < unat len" "unat (me_offset e) + unat (me_length e) < 2 ^ 64"
  shows "\<exists>head' m'. cut_beginning m head b e len = Inr (head', m') \<and>
    becomes m (xs @ b # ys) (map (chunk (eles m)) xs @
      cut (unat (me_offset e), unat (me_length e)) (unat (me_offset e), unat len) @ map (chunk (eles m)) ys) head' m'"
proof -
  have l: "me_prev e = final 0 xs" "me_next e = first ys 0" using list_okD [OF ok] e by (metis option.inject)+
  define e' where "e' = e\<lparr>me_offset := me_offset e + len, me_length := me_length e - len\<rparr>"
  have w: "wr m b (\<lambda>e. e\<lparr>me_offset := me_offset e + len, me_length := me_length e - len\<rparr>) =
      Inr (m\<lparr>eles := (eles m)(b \<mapsto> e')\<rparr>)"
    using e by (simp add: wr_def rd_def e'_def)
  note u = unat_sub_le [OF c(1)]
  show ?thesis
  proof (cases "me_length e - len = 0")
    case False
    then have "0 < unat (me_length e - len)" by (simp add: unat_gt_0)
    moreover have "unat (me_offset e + len) = unat (me_offset e) + unat len" using c by (simp add: unat_add_less)
    ultimately have "cut (unat (me_offset e), unat (me_length e)) (unat (me_offset e), unat len) =
        [(unat (me_offset e'), unat (me_length e'))]" using u c by (auto simp: cut_def e'_def)
    then show ?thesis using becomes_modify [OF ok e, of e'] w False by (auto simp: cut_beginning_def e'_def)
  next
    case True
    then have k: "cut (unat (me_offset e), unat (me_length e)) (unat (me_offset e), unat len) = []"
      using u c by (simp add: cut_def)
    show ?thesis
      by (rule unlink_spec [OF ok, of e'])
        (use becomes_unlink [OF ok, of "(eles m)(b \<mapsto> e')"] k True w l in \<open>simp add: cut_beginning_def\<close>)
  qed
qed

lemma list_ok_modify:
  assumes "list_ok m head (xs @ b # ys)" "eles m b = Some e" "me_prev e' = me_prev e" "me_next e' = me_next e"
  shows "list_ok (m\<lparr>eles := (eles m)(b \<mapsto> e')\<rparr>) head (xs @ b # ys)"
  using assms by (auto simp: list_ok_def)

lemma becomes_from:
  assumes "becomes m1 ns cs head m'" "\<And>x. x \<notin> set ns \<Longrightarrow> eles m1 x = eles m x" "ele_alloc m1 = ele_alloc m"
  shows "becomes m ns cs head m'"
  using assms by (auto simp: becomes_def)

text \<open>Linking a new node behind \<open>b\<close>, as the code does it.\<close>

lemma link_after_spec:
  assumes ok: "list_ok m head (xs @ b # ys)" and m: "malloc_ok (ele_alloc m) mret" "mret \<noteq> 0"
    and e: "me_prev e = b" "me_next e = first ys 0"
  shows "\<exists>m'. bindc (ele_new m mret e) (\<lambda>(c, m2).
      bindc (wr_opt m2 (first ys 0) (\<lambda>n. n\<lparr>me_prev := c\<rparr>)) (\<lambda>m3.
      bindc (wr m3 b (\<lambda>e. e\<lparr>me_next := c\<rparr>)) (\<lambda>m4. Inr (head, m4)))) = Inr (head, m') \<and>
    becomes m (xs @ b # ys) (map (chunk (eles m)) (xs @ [b]) @ (unat (me_offset e), unat (me_length e)) # map (chunk (eles m)) ys)
      head m'"
proof -
  obtain eb where l: "dls (eles m) b ys 0" "0 \<notin> set ys" "b \<notin> set ys" "eles m b = Some eb"
    by (rule list_okD [OF ok])
  have h: "head = first xs b" "slab_wf (ele_alloc m)" "refill_func (ele_alloc m) = Default_Refill" "set (xs @ b # ys) \<subseteq> live (ele_alloc m)"
    using ok by (auto simp: list_ok_def)
  obtain c a where n: "slab_alloc (ele_alloc m) mret = Inr (c, a)" "c \<noteq> 0" "c \<notin> live (ele_alloc m)"
    "\<forall>e. ele_new m mret e = Inr (c, m\<lparr>ele_alloc := a, eles := (eles m)(c \<mapsto> e)\<rparr>)"
    by (rule ele_new_spec [OF h(2,3) m])
  then have c: "c \<notin> set xs" "c \<noteq> b" "c \<notin> set ys" using h(4) by auto
  define m2 where "m2 = m\<lparr>ele_alloc := a, eles := (eles m)(c \<mapsto> e)\<rparr>"
  have "dls (eles m2) b ys 0" using l c by (simp add: m2_def)
  note p = wr_opt_prev [OF l(2) this, of c]
  have eb: "set_prev (eles m2) ys c b = Some eb" using l c by (simp add: m2_def)
  have "list_ok m head ((xs @ [b]) @ ys)" using ok by simp
  note bl = becomes_link [OF this n(1,2) m(1), of e]
  have "set_prev (set_next (eles m2) (xs @ [b]) c) ys c = (set_prev (eles m2) ys c)(b \<mapsto> eb\<lparr>me_next := c\<rparr>)"
    using set_next_set_prev [of "xs @ [b]" ys "eles m2" c c] ok eb by (simp add: list_ok_def)
  then show ?thesis using n(4) p eb bl e h(1)
    by (simp add: m2_def [symmetric] wr_def rd_def) (simp add: m2_def)
qed

lemma cut_end_spec:
  assumes ok: "list_ok m head (xs @ b # ys)" and e: "eles m b = Some e"
    and c: "unat len < unat (me_length e)" "0 < unat len" "unat (me_offset e) + unat (me_length e) = unat off + unat len"
  shows "\<exists>head' m'. cut_end m head b e len = Inr (head', m') \<and>
    becomes m (xs @ b # ys) (map (chunk (eles m)) xs @
      cut (unat (me_offset e), unat (me_length e)) (unat off, unat len) @ map (chunk (eles m)) ys) head' m'"
proof -
  have u: "unat (me_length e - len) = unat (me_length e) - unat len" using c(1) by (intro unat_sub_le) simp
  have "me_length e - len \<noteq> 0"
  proof
    assume "me_length e - len = 0"
    then have "unat (me_length e - len) = 0" by simp
    then show False using u c(1) by linarith
  qed
  moreover have "cut (unat (me_offset e), unat (me_length e)) (unat off, unat len) =
      [(unat (me_offset e), unat (me_length e - len))]" using u c by (auto simp: cut_def)
  ultimately show ?thesis using becomes_modify [OF ok e, of "e\<lparr>me_length := me_length e - len\<rparr>"] e
    by (simp add: cut_end_def wr_def rd_def)
qed

lemma cut_middle_spec:
  assumes ok: "list_ok m head (xs @ b # ys)" and e: "eles m b = Some e"
    and m: "malloc_ok (ele_alloc m) mret" "mret \<noteq> 0"
    and c: "unat (me_offset e) < unat off" "unat off + unat len < unat (me_offset e) + unat (me_length e)"
      "unat (me_offset e) + unat (me_length e) < 2 ^ 64"
  shows "\<exists>head' m'. cut_middle m head b e off len mret = Inr (head', m') \<and>
    becomes m (xs @ b # ys) (map (chunk (eles m)) xs @
      cut (unat (me_offset e), unat (me_length e)) (unat off, unat len) @ map (chunk (eles m)) ys) head' m'"
proof -
  let ?bl = "off - me_offset e"
  have l: "me_next e = first ys 0" using list_okD [OF ok] e by (metis option.inject)
  have u: "unat ?bl = unat off - unat (me_offset e)" using c(1) by (intro unat_sub_le) simp
  have o: "me_offset e + ?bl = off" by simp
  have u1: "unat (off + len) = unat off + unat len" using c by (intro unat_add_less) linarith
  have "unat (me_length e - ?bl) = unat (me_length e) - unat ?bl" using u c by (intro unat_sub_le) linarith
  then have u2: "unat (me_length e - ?bl - len) = unat (me_length e) - unat ?bl - unat len"
    using u c by (subst unat_sub_le) linarith+
  define m1 where "m1 = m\<lparr>eles := (eles m)(b \<mapsto> e\<lparr>me_length := ?bl\<rparr>)\<rparr>"
  let ?e = "\<lparr>me_offset = me_offset e + ?bl + len, me_length = me_length e - ?bl - len, me_next = me_next e, me_prev = b\<rparr>"
  have ok1: "list_ok m1 head (xs @ b # ys)" unfolding m1_def by (rule list_ok_modify [OF ok e]) simp_all
  have m1: "malloc_ok (ele_alloc m1) mret" using m by (simp add: m1_def)
  have d: "b \<notin> set xs" "b \<notin> set ys" using ok by (auto simp: list_ok_def)
  have cs: "map (chunk (eles m1)) (xs @ [b]) @ (unat (me_offset ?e), unat (me_length ?e)) # map (chunk (eles m1)) ys =
      map (chunk (eles m)) xs @ cut (unat (me_offset e), unat (me_length e)) (unat off, unat len) @ map (chunk (eles m)) ys"
    using u u1 u2 c d o by (simp add: m1_def cut_def)
  obtain m' where r: "bindc (ele_new m1 mret ?e) (\<lambda>(c, m2).
      bindc (wr_opt m2 (first ys 0) (\<lambda>n. n\<lparr>me_prev := c\<rparr>)) (\<lambda>m3.
      bindc (wr m3 b (\<lambda>e. e\<lparr>me_next := c\<rparr>)) (\<lambda>m4. Inr (head, m4)))) = Inr (head, m')"
    "becomes m1 (xs @ b # ys) (map (chunk (eles m1)) (xs @ [b]) @ (unat (me_offset ?e), unat (me_length ?e)) # map (chunk (eles m1)) ys) head m'"
    using link_after_spec [OF ok1 m1 m(2), of ?e] l by auto
  have "wr m b (\<lambda>e. e\<lparr>me_length := ?bl\<rparr>) = Inr m1" using e by (simp add: wr_def rd_def m1_def)
  then have "cut_middle m head b e off len mret = Inr (head, m')"
    using r(1) l by (simp add: cut_middle_def Let_def)
  moreover have "becomes m (xs @ b # ys) (map (chunk (eles m)) xs @
      cut (unat (me_offset e), unat (me_length e)) (unat off, unat len) @ map (chunk (eles m)) ys) head m'"
    using becomes_from [OF r(2) [unfolded cs], of m] by (auto simp: m1_def)
  ultimately show ?thesis by blast
qed

text \<open>Cutting a buffer that lies in the chunk: the chunk is replaced by the pieces around the buffer.\<close>

lemma remove_split_buffer_spec:
  assumes ok: "list_ok m head (xs @ b # ys)" and m: "malloc_ok (ele_alloc m) mret" "mret \<noteq> 0"
    and c: "contains (chunk (eles m) b) (unat off, unat len)" "0 < unat len"
      "fst (chunk (eles m) b) + snd (chunk (eles m) b) < 2 ^ 64"
  shows "\<exists>head' m'. remove_split_buffer m head b off len mret = Inr (head', m') \<and>
    becomes m (xs @ b # ys) (map (chunk (eles m)) xs @ cut (chunk (eles m) b) (unat off, unat len) @ map (chunk (eles m)) ys)
      head' m'"
proof -
  obtain e where e: "eles m b = Some e" using list_okD [OF ok] by metis
  have ch: "chunk (eles m) b = (unat (me_offset e), unat (me_length e))" using e by (simp add: chunk_def)
  have i: "unat (me_offset e) \<le> unat off" "unat off + unat len \<le> unat (me_offset e) + unat (me_length e)"
    "unat (me_offset e) + unat (me_length e) < 2 ^ 64"
    using c by (simp_all add: ch contains_def)
  have eq: "me_offset e + me_length e = off + len \<longleftrightarrow> unat (me_offset e) + unat (me_length e) = unat off + unat len"
    using i by (simp add: word_unat_eq_iff unat_add_less)
  consider "me_offset e = off" | "me_offset e \<noteq> off" "me_offset e + me_length e = off + len"
    | "me_offset e \<noteq> off" "me_offset e + me_length e \<noteq> off + len" by blast
  then show ?thesis
  proof cases
    case 1
    then show ?thesis using cut_beginning_spec [OF ok e, of len] i c(2) e by (simp add: remove_split_buffer_def rd_def ch)
  next
    case 2
    have "unat (me_offset e) \<noteq> unat off" using 2 by (simp add: word_unat_eq_iff)
    then show ?thesis using 2 cut_end_spec [OF ok e, of len off] i c(2) e eq by (simp add: remove_split_buffer_def rd_def ch)
  next
    case 3
    have "unat (me_offset e) \<noteq> unat off" using 3 by (simp add: word_unat_eq_iff)
    then show ?thesis using 3 cut_middle_spec [OF ok e m, of off len] i e eq by (simp add: remove_split_buffer_def rd_def ch)
  qed
qed

section \<open>Putting a buffer back\<close>

text \<open>The chunks up to and including \<open>c\<close> when the buffer \<open>n\<close> is put in front of \<open>c\<close>, behind the chunks \<open>ps\<close>:
  joined with a neighbour it touches.\<close>

definition join_before :: "(nat \<times> nat) list \<Rightarrow> nat \<times> nat \<Rightarrow> nat \<times> nat \<Rightarrow> (nat \<times> nat) list" where
  "join_before ps n c =
     (let p = last ps; lower = ps \<noteq> [] \<and> fst p + snd p = fst n; higher = fst n + snd n = fst c in
      if higher \<and> lower then butlast ps @ [(fst p, snd p + (snd n + snd c))]
      else if higher then ps @ [(fst n, snd n + snd c)]
      else if lower then butlast ps @ [(fst p, snd p + snd n), c]
      else ps @ [n, c])"

text \<open>Linking a new node in front of \<open>b\<close>, as the code does it.\<close>

lemma link_before_spec:
  assumes ok: "list_ok m head (xs @ b # ys)" and m: "malloc_ok (ele_alloc m) mret" "mret \<noteq> 0"
    and e: "me_prev e = final 0 xs" "me_next e = b"
  shows "\<exists>head' m'. bindc (ele_new m mret e) (\<lambda>(c, m1).
      bindc (set_succ m1 head (final 0 xs) c) (\<lambda>(head', m2).
      bindc (wr m2 b (\<lambda>e. e\<lparr>me_prev := c\<rparr>)) (\<lambda>m3. Inr (head', m3)))) = Inr (head', m') \<and>
    becomes m (xs @ b # ys) (map (chunk (eles m)) xs @ (unat (me_offset e), unat (me_length e)) # map (chunk (eles m)) (b # ys))
      head' m'"
proof -
  obtain eb where l: "dls (eles m) 0 xs b" "0 \<notin> set xs" "b \<notin> set xs" "eles m b = Some eb"
    by (rule list_okD [OF ok])
  have h: "head = first xs b" "slab_wf (ele_alloc m)" "refill_func (ele_alloc m) = Default_Refill" "set (xs @ b # ys) \<subseteq> live (ele_alloc m)"
    using ok by (auto simp: list_ok_def)
  obtain c a where n: "slab_alloc (ele_alloc m) mret = Inr (c, a)" "c \<noteq> 0" "c \<notin> live (ele_alloc m)"
    "\<forall>e. ele_new m mret e = Inr (c, m\<lparr>ele_alloc := a, eles := (eles m)(c \<mapsto> e)\<rparr>)"
    by (rule ele_new_spec [OF h(2,3) m])
  then have c: "c \<notin> set xs" "c \<noteq> b" using h(4) by auto
  define m1 where "m1 = m\<lparr>ele_alloc := a, eles := (eles m)(c \<mapsto> e)\<rparr>"
  have "dls (eles m1) 0 xs b" using l c by (simp add: m1_def)
  note s = set_succ_spec [OF l(2) this, of b c]
  have "set_next (eles m1) xs c b = Some eb" using l c by (simp add: m1_def)
  then show ?thesis using n(4) s becomes_link [OF ok n(1,2) m(1), of e] e h(1)
    by (simp add: m1_def [symmetric] wr_def rd_def) (simp add: m1_def)
qed

text \<open>The buffer closes the gap between two chunks: the first takes over the second, which is unlinked.\<close>

lemma join_both_spec:
  assumes ok: "list_ok m head ((zs @ [p]) @ b # ys)" and e: "eles m b = Some e" "eles m p = Some ep"
  shows "\<exists>m'. bindc (wr (m\<lparr>eles := (eles m)(b \<mapsto> e')\<rparr>) p (\<lambda>p. p\<lparr>me_length := me_length p + k, me_next := first ys 0\<rparr>)) (\<lambda>m2.
      bindc (wr_opt m2 (first ys 0) (\<lambda>n. n\<lparr>me_prev := p\<rparr>)) (\<lambda>m3.
      bindc (ele_free m3 b) (\<lambda>m4. Inr (head, m4)))) = Inr (head, m') \<and>
    becomes m ((zs @ [p]) @ b # ys) (map (chunk (eles m)) zs @ (unat (me_offset ep), unat (me_length ep + k)) # map (chunk (eles m)) ys) head m'"
proof -
  obtain l: "dls (eles m) b ys 0" "0 \<notin> set ys" "b \<notin> set (zs @ [p])" "b \<notin> set ys" "set (zs @ [p]) \<inter> set ys = {}"
    "distinct (zs @ [p])" "me_prev ep = final 0 zs" "me_next ep = b"
    using ok e by (auto simp: list_ok_def)
  define m0 where "m0 = m\<lparr>eles := (eles m)(p \<mapsto> ep\<lparr>me_length := me_length ep + k\<rparr>)\<rparr>"
  have ok0: "list_ok m0 head ((zs @ [p]) @ b # ys)"
    using list_ok_modify [of m head zs p "b # ys" ep] ok e(2) by (simp add: m0_def)
  have b: "b \<in> live (ele_alloc m0)" "slab_wf (ele_alloc m0)" using ok0 by (auto simp: list_ok_def)
  obtain a where a: "slab_free (ele_alloc m0) b = Inr a" using slab.deallocE [OF b(2,1)] by metis
  define m2 where "m2 = m\<lparr>eles := set_next ((eles m0)(b \<mapsto> e')) (zs @ [p]) (first ys 0)\<rparr>"
  define m' where "m' = m0\<lparr>ele_alloc := a, eles := (set_prev (eles m2) ys p)(b := None)\<rparr>"
  have w: "wr (m\<lparr>eles := (eles m)(b \<mapsto> e')\<rparr>) p (\<lambda>p. p\<lparr>me_length := me_length p + k, me_next := first ys 0\<rparr>) = Inr m2"
    using l(3) e(2) by (simp add: wr_def rd_def m2_def m0_def fun_upd_twist)
  have "dls (eles m2) b ys 0"
    using l by (simp add: m2_def m0_def dls_set_next_other Int_commute)
  note o = wr_opt_prev [OF l(2) this, of p]
  have f: "ele_free (m2\<lparr>eles := set_prev (eles m2) ys p\<rparr>) b = Inr m'"
    using a by (simp add: ele_free_def m'_def m2_def m0_def)
  have h: "head = first ((zs @ [p]) @ ys) 0" using ok by (simp add: list_ok_def)
  have cs: "map (chunk (eles m0)) ((zs @ [p]) @ ys) =
      map (chunk (eles m)) zs @ (unat (me_offset ep), unat (me_length ep + k)) # map (chunk (eles m)) ys"
    using l(5,6) by (auto simp: m0_def chunk_def)
  have "becomes m0 ((zs @ [p]) @ b # ys) (map (chunk (eles m0)) ((zs @ [p]) @ ys)) head m'"
    using becomes_unlink [OF ok0 _ a, of "(eles m0)(b \<mapsto> e')"] h by (simp add: m'_def m2_def)
  then have "becomes m ((zs @ [p]) @ b # ys) (map (chunk (eles m0)) ((zs @ [p]) @ ys)) head m'"
    by (rule becomes_from) (auto simp: m0_def)
  then show ?thesis unfolding cs using w o f by simp
qed

text \<open>The test whether the previous chunk ends where the buffer starts.\<close>

lemma lower_test_spec:
  assumes ok: "list_ok m head (xs @ b # ys)" and e: "eles m b = Some e"
    and p: "xs \<noteq> [] \<Longrightarrow> fst (chunk (eles m) (last xs)) + snd (chunk (eles m) (last xs)) \<le> unat off"
  shows "(if me_prev e \<noteq> 0 then bindc (rd m (me_prev e)) (\<lambda>p. Inr (me_offset p + me_length p = off)) else Inr False) =
    Inr (xs \<noteq> [] \<and> fst (last (map (chunk (eles m)) xs)) + snd (last (map (chunk (eles m)) xs)) = unat off)"
proof (cases xs rule: rev_cases)
  case Nil
  then show ?thesis using ok e by (auto simp: list_ok_def)
next
  case (snoc zs q)
  then obtain ep where ep: "eles m q = Some ep" "me_prev e = q" "q \<noteq> 0" using ok e by (auto simp: list_ok_def)
  then have "unat (me_offset ep) + unat (me_length ep) \<le> unat off" using p snoc by (simp add: chunk_def)
  then have "unat (me_offset ep + me_length ep) = unat (me_offset ep) + unat (me_length ep)"
    using unat_u64_bound [of off] by (intro unat_add_less) linarith
  then show ?thesis using snoc ep by (auto simp: rd_def word_unat_eq_iff chunk_def)
qed

lemma insert_before_spec:
  assumes ok: "list_ok m head (xs @ b # ys)" and e: "eles m b = Some e"
    and m: "malloc_ok (ele_alloc m) mret" "mret \<noteq> 0"
    and c: "0 < unat len" "unat off + unat len \<le> unat (me_offset e)" "unat (me_offset e) + unat (me_length e) < 2 ^ 64"
    and p: "xs \<noteq> [] \<Longrightarrow> fst (chunk (eles m) (last xs)) + snd (chunk (eles m) (last xs)) \<le> unat off"
  shows "\<exists>head' m'. insert_before m head b e off len mret = Inr (head', m') \<and>
    becomes m (xs @ b # ys) (join_before (map (chunk (eles m)) xs) (unat off, unat len) (chunk (eles m) b) @ map (chunk (eles m)) ys)
      head' m'"
proof -
  have l: "me_prev e = final 0 xs" "me_next e = first ys 0" "0 \<notin> set xs" using ok e by (auto simp: list_ok_def)
  have cb: "chunk (eles m) b = (unat (me_offset e), unat (me_length e))" using e by (simp add: chunk_def)
  have u: "unat (off + len) = unat off + unat len" using c by (intro unat_add_less) linarith
  have hi: "me_offset e = off + len \<longleftrightarrow> unat off + unat len = fst (chunk (eles m) b)"
    by (auto simp: word_unat_eq_iff u cb)
  define lower where "lower \<longleftrightarrow> xs \<noteq> [] \<and> fst (last (map (chunk (eles m)) xs)) + snd (last (map (chunk (eles m)) xs)) = unat off"
  note lo = lower_test_spec [OF ok e p, folded lower_def]
  define e' where "e' = e\<lparr>me_length := me_length e + len, me_offset := off\<rparr>"
  have w: "wr m b (\<lambda>e. e\<lparr>me_length := me_length e + len, me_offset := off\<rparr>) = Inr (m\<lparr>eles := (eles m)(b \<mapsto> e')\<rparr>)"
    using e by (simp add: wr_def rd_def e'_def)
  have ul: "unat (me_length e + len) = unat len + unat (me_length e)" if "unat off + unat len = unat (me_offset e)"
    using that c by (subst unat_add_less) linarith+
  consider (both) "me_offset e = off + len" "lower" | (higher) "me_offset e = off + len" "\<not> lower"
    | (lower) "me_offset e \<noteq> off + len" "lower" | (new) "me_offset e \<noteq> off + len" "\<not> lower" by blast
  then show ?thesis
  proof cases
    case both
    then obtain zs q ep where q: "xs = zs @ [q]" "eles m q = Some ep" "unat (me_offset ep) + unat (me_length ep) = unat off"
      using ok by (cases xs rule: rev_cases) (auto simp: lower_def list_ok_def chunk_def)
    have "unat (me_length ep + (me_length e + len)) = unat (me_length ep) + (unat len + unat (me_length e))"
      using ul both(1) hi cb q(3) c by (subst unat_add_less) auto
    then show ?thesis
      using join_both_spec [OF ok [unfolded q(1)] e q(2), of e' "me_length e + len"] both lo w l q hi e
      by (auto simp: insert_before_def join_before_def lower_def [symmetric] Let_def chunk_def)
  next
    case higher
    have "becomes m (xs @ b # ys) (map (chunk (eles m)) xs @ (unat off, unat len + unat (me_length e)) # map (chunk (eles m)) ys)
        head (m\<lparr>eles := (eles m)(b \<mapsto> e')\<rparr>)"
      using becomes_modify [OF ok e, of e'] ul higher hi cb by (simp add: e'_def)
    then show ?thesis using higher lo w hi cb
      by (auto simp: insert_before_def join_before_def lower_def Let_def)
  next
    case lower
    then obtain zs q ep where q: "xs = zs @ [q]" "eles m q = Some ep" "unat (me_offset ep) + unat (me_length ep) = unat off"
      using ok by (cases xs rule: rev_cases) (auto simp: lower_def list_ok_def chunk_def)
    let ?f = "ep\<lparr>me_length := me_length ep + len\<rparr>"
    have "len \<noteq> 0" using c(1) by auto
    have "unat (me_length ep + len) = unat (me_length ep) + unat len"
      using q(3) c unat_u64_bound [of "me_offset e"] by (intro unat_add_less) linarith
    moreover have "list_ok m head (zs @ q # b # ys)" using ok q(1) by simp
    note becomes_modify [OF this q(2), of ?f]
    ultimately show ?thesis using lower lo q l hi cb \<open>len \<noteq> 0\<close>
      by (auto simp: insert_before_def join_before_def lower_def Let_def wr_def rd_def chunk_def)
  next
    case new
    then show ?thesis using link_before_spec [OF ok m, of "\<lparr>me_offset = off, me_length = len, me_next = b, me_prev = me_prev e\<rparr>"] lo l hi cb
      by (auto simp: insert_before_def join_before_def lower_def Let_def)
  qed
qed

lemma insert_last_spec:
  assumes ok: "list_ok m head (xs @ [b])" and e: "eles m b = Some e"
    and m: "malloc_ok (ele_alloc m) mret" "mret \<noteq> 0"
    and c: "unat (me_offset e) + unat (me_length e) \<le> unat off" "unat off + unat len < 2 ^ 64"
    and sane: "unat (me_offset e) + unat len = unat off \<Longrightarrow> me_length e = len"
  shows "\<exists>head' m'. insert_after m head b e off len mret = Inr (head', m') \<and>
    becomes m (xs @ [b]) (map (chunk (eles m)) xs @
      (if unat (me_offset e) + unat (me_length e) = unat off then [(unat (me_offset e), unat (me_length e) + unat len)]
       else [chunk (eles m) b, (unat off, unat len)])) head' m'"
proof -
  have l: "me_next e = 0" using ok e by (auto simp: list_ok_def)
  have cb: "chunk (eles m) b = (unat (me_offset e), unat (me_length e))" using e by (simp add: chunk_def)
  have eq1: "me_offset e + len = off \<longleftrightarrow> unat (me_offset e) + unat len = unat off"
    using c by (simp add: word_unat_eq_iff unat_add_less)
  have eq2: "me_offset e + me_length e = off \<longleftrightarrow> unat (me_offset e) + unat (me_length e) = unat off"
    using c by (simp add: word_unat_eq_iff unat_add_less)
  have ul: "unat (me_length e + len) = unat (me_length e) + unat len" using c by (intro unat_add_less) linarith
  have grow: "becomes m (xs @ [b]) (map (chunk (eles m)) xs @ [(unat (me_offset e), unat (me_length e) + unat len)]) head
      (m\<lparr>eles := (eles m)(b \<mapsto> e\<lparr>me_length := me_length e + len\<rparr>)\<rparr>)"
    using becomes_modify [OF ok e, of "e\<lparr>me_length := me_length e + len\<rparr>"] ul by simp
  show ?thesis
  proof (cases "unat (me_offset e) + unat (me_length e) = unat off")
    case True
    then show ?thesis using grow l e eq1 eq2 by (auto simp: insert_after_def wr_def rd_def)
  next
    case False
    then have "me_offset e + len \<noteq> off" using eq1 sane by auto
    then show ?thesis
      using False eq2 l cb link_after_spec [OF ok m, of "\<lparr>me_offset = off, me_length = len, me_next = 0, me_prev = b\<rparr>"]
      by (auto simp: insert_after_def)
  qed
qed

section \<open>What is owned\<close>

text \<open>The bytes of a list of chunks; the chunks are in order, apart and not empty.\<close>

definition bytes :: "nat \<times> nat \<Rightarrow> nat set" where
  "bytes c = {fst c ..< fst c + snd c}"

definition owned :: "(nat \<times> nat) list \<Rightarrow> nat set" where
  "owned cs = (\<Union>c\<in>set cs. bytes c)"

definition ordered :: "(nat \<times> nat) list \<Rightarrow> bool" where
  "ordered cs \<longleftrightarrow> sorted_wrt (\<lambda>c d. fst c + snd c \<le> fst d) cs \<and> (\<forall>c\<in>set cs. 0 < snd c)"

lemma owned_simps [simp]: "owned [] = {}" "owned (c # cs) = bytes c \<union> owned cs" "owned (cs @ ds) = owned cs \<union> owned ds"
  by (auto simp: owned_def)

lemma ordered_append [simp]: "ordered (cs @ ds) \<longleftrightarrow> ordered cs \<and> ordered ds \<and> (\<forall>c\<in>set cs. \<forall>d\<in>set ds. fst c + snd c \<le> fst d)"
  by (auto simp: ordered_def sorted_wrt_append)

lemma ordered_Cons [simp]: "ordered (c # ds) \<longleftrightarrow> 0 < snd c \<and> ordered ds \<and> (\<forall>d\<in>set ds. fst c + snd c \<le> fst d)"
  by (auto simp: ordered_def)

lemma ordered_Nil [simp]: "ordered []"
  by (simp add: ordered_def)

lemma owned_below: "\<forall>c\<in>set cs. fst c + snd c \<le> k \<Longrightarrow> x \<in> owned cs \<Longrightarrow> x < k"
  by (auto simp: owned_def bytes_def)

lemma owned_above: "\<forall>c\<in>set cs. k \<le> fst c \<Longrightarrow> x \<in> owned cs \<Longrightarrow> k \<le> x"
  by (auto simp: owned_def bytes_def)

lemma cut_owned:
  assumes "ordered (ps @ c # ds)" "contains c b" "0 < snd b"
  shows "owned (ps @ cut c b @ ds) = owned (ps @ c # ds) - bytes b" "ordered (ps @ cut c b @ ds)"
proof -
  have below: "x < fst b" if "x \<in> owned ps" for x
    using owned_below [of ps "fst c" x] that assms by (auto simp: contains_def)
  have above: "fst b + snd b \<le> x" if "x \<in> owned ds" for x
    using owned_above [of ds "fst c + snd c" x] that assms by (auto simp: contains_def)
  have "owned (cut c b) = bytes c - bytes b" using assms(2) by (auto simp: cut_def owned_def bytes_def contains_def)
  then show "owned (ps @ cut c b @ ds) = owned (ps @ c # ds) - bytes b"
    using below above by (auto simp: bytes_def) (meson leD less_le_trans)+
  show "ordered (ps @ cut c b @ ds)" using assms by (auto simp: cut_def contains_def)
qed

lemma join_before_owned:
  assumes o: "ordered (ps @ c # ds)" and n: "0 < snd n" "fst n + snd n \<le> fst c"
    and p: "ps \<noteq> [] \<Longrightarrow> fst (last ps) + snd (last ps) \<le> fst n"
  shows "owned (join_before ps n c @ ds) = owned (ps @ c # ds) \<union> bytes n" "ordered (join_before ps n c @ ds)"
proof -
  have below: "\<forall>d\<in>set ps. fst d + snd d \<le> fst n"
  proof (cases ps rule: rev_cases)
    case (snoc qs q)
    then have "fst q + snd q \<le> fst n" "\<forall>d\<in>set qs. fst d + snd d \<le> fst q" using o p by auto
    then show ?thesis using snoc by auto
  qed simp
  show "owned (join_before ps n c @ ds) = owned (ps @ c # ds) \<union> bytes n"
    using n by (cases ps rule: rev_cases) (auto simp: join_before_def Let_def bytes_def)
  show "ordered (join_before ps n c @ ds)"
    using o n below by (cases ps rule: rev_cases) (auto simp: join_before_def Let_def, (fastforce+)?)
qed

end
