(* ===== verification/Loopback_Queue.thy ===== *)
theory Loopback_Queue
  imports Queue_Interface
begin

text \<open>
  The loopback backend, \<open>lib/libcleanq/src/backends/loopback/loopback_queue.c\<close>: a ring of 256
  buffer descriptors that is its own other end.

  Contents: the operations; the ring as the list of its elements, oldest first; the interpretation
  of the backend contract; that a loopback queue is a bounded FIFO queue; that destroying one reads
  freed memory.
\<close>

section \<open>State and operations\<close>

definition LOOPBACK_QUEUE_SIZE :: nat where
  "LOOPBACK_QUEUE_SIZE = 256"

record loopback_queue = cleanq +
  lq_queue :: "cleanq_buf list"
  lq_head :: nat
  lq_tail :: nat
  num_ele :: nat

definition loopback_enqueue :: "loopback_queue \<Rightarrow> cleanq_buf \<Rightarrow> (errval \<times> loopback_queue) cres" where
  "loopback_enqueue lq b =
     (if num_ele lq = LOOPBACK_QUEUE_SIZE then Inr (CLEANQ_ERR_QUEUE_FULL, lq)
      else bindc (arr_set (lq_queue lq) (lq_head lq) b) (\<lambda>queue.
             Inr (SYS_ERR_OK, lq\<lparr>lq_queue := queue,
                                lq_head := (lq_head lq + 1) mod LOOPBACK_QUEUE_SIZE,
                                num_ele := num_ele lq + 1\<rparr>)))"

definition loopback_dequeue ::
  "loopback_queue \<Rightarrow> cleanq_buf \<Rightarrow> (errval \<times> cleanq_buf \<times> loopback_queue) cres" where
  "loopback_dequeue lq b =
     (if num_ele lq = 0 then Inr (CLEANQ_ERR_QUEUE_EMPTY, b, lq)
      else bindc (arr_get (lq_queue lq) (lq_tail lq)) (\<lambda>b'.
             Inr (SYS_ERR_OK, b', lq\<lparr>lq_tail := (lq_tail lq + 1) mod LOOPBACK_QUEUE_SIZE,
                                    num_ele := num_ele lq - 1\<rparr>)))"

definition loopback_notify :: "loopback_queue \<Rightarrow> (errval \<times> loopback_queue) cres" where
  "loopback_notify lq = Inr (SYS_ERR_OK, lq)"

definition loopback_register ::
  "loopback_queue \<Rightarrow> capref \<Rightarrow> regionid \<Rightarrow> (errval \<times> loopback_queue) cres" where
  "loopback_register lq cap rid = Inr (SYS_ERR_OK, lq)"

definition loopback_deregister :: "loopback_queue \<Rightarrow> regionid \<Rightarrow> (errval \<times> loopback_queue) cres" where
  "loopback_deregister lq rid = Inr (SYS_ERR_OK, lq)"

definition loopback_control ::
  "loopback_queue \<Rightarrow> u64 \<Rightarrow> u64 \<Rightarrow> u64 \<Rightarrow> (errval \<times> u64 \<times> loopback_queue) cres" where
  "loopback_control lq request value result = Inr (SYS_ERR_OK, result, lq)"

text \<open>\<open>free\<close> leaves nothing of the queue.\<close>

definition loopback_destroy :: "loopback_queue \<Rightarrow> (errval \<times> loopback_queue option) cres" where
  "loopback_destroy lq = Inr (SYS_ERR_OK, None)"

definition loopback_f :: "loopback_queue cleanq_func_pointer" where
  "loopback_f =
     \<lparr>f_reg = Some loopback_register, f_dereg = Some loopback_deregister,
      f_ctrl = Some loopback_control, f_notify = Some loopback_notify,
      f_enq = Some loopback_enqueue, f_deq = Some loopback_dequeue,
      f_destroy = Some loopback_destroy\<rparr>"

text \<open>The first \<open>calloc\<close> is that of the queue, which zeroes it, the others those of \<open>cleanq_init\<close>.
  The result is the queue stored in \<open>*q\<close>, if any; its function pointers are \<open>loopback_f\<close>.\<close>

definition loopback_queue_create ::
  "bool \<Rightarrow> bool \<Rightarrow> bool \<Rightarrow> u32 \<Rightarrow> errval \<times> loopback_queue option" where
  "loopback_queue_create calloc0 calloc1 calloc2 rnd =
     (if \<not> calloc0 then (CLEANQ_ERR_MALLOC_FAIL, None)
      else case cleanq_init calloc1 calloc2 rnd of
             (err, None) \<Rightarrow> (err, None)
           | (err, Some p) \<Rightarrow>
               if err_is_fail err then (err, None)
               else (SYS_ERR_OK, Some
                 \<lparr>cq_pool = p, cq_state = 0, lq_queue = replicate LOOPBACK_QUEUE_SIZE empty_buf,
                  lq_head = 0, lq_tail = 0, num_ele = 0\<rparr>))"

section \<open>The ring as a list\<close>

definition lq_contents :: "loopback_queue \<Rightarrow> cleanq_buf list" where
  "lq_contents lq = ring_contents (lq_queue lq) (lq_tail lq) (num_ele lq)"

definition lq_inv :: "loopback_queue \<Rightarrow> bool" where
  "lq_inv lq \<longleftrightarrow>
     length (lq_queue lq) = LOOPBACK_QUEUE_SIZE \<and> lq_tail lq < LOOPBACK_QUEUE_SIZE \<and>
     num_ele lq \<le> LOOPBACK_QUEUE_SIZE \<and>
     lq_head lq = (lq_tail lq + num_ele lq) mod LOOPBACK_QUEUE_SIZE \<and>
     pool_inv (cq_pool lq) \<and> (\<forall>b\<in>set (lq_contents lq). in_bounds (cq_pool lq) b)"

section \<open>The contract\<close>

lemma loopback_enqueue_spec:
  assumes inv: "lq_inv lq" and b: "in_bounds (cq_pool lq) b"
  shows "\<exists>err lq'. loopback_enqueue lq b = Inr (err, lq') \<and>
    (if num_ele lq = LOOPBACK_QUEUE_SIZE then err = CLEANQ_ERR_QUEUE_FULL \<and> lq' = lq
     else err = CLEANQ_ERR_OK \<and> lq_inv lq' \<and> cq_pool lq' = cq_pool lq \<and>
          lq_contents lq' = lq_contents lq @ [b])"
proof (cases "num_ele lq = LOOPBACK_QUEUE_SIZE")
  case True
  then show ?thesis by (simp add: loopback_enqueue_def)
next
  case False
  let ?lq' = "lq\<lparr>lq_queue := (lq_queue lq)[lq_head lq := b],
      lq_head := (lq_head lq + 1) mod LOOPBACK_QUEUE_SIZE, num_ele := num_ele lq + 1\<rparr>"
  have lt: "num_ele lq < length (lq_queue lq)" using False inv by (simp add: lq_inv_def)
  have hd: "lq_head lq = (lq_tail lq + num_ele lq) mod length (lq_queue lq)"
    "lq_head lq < length (lq_queue lq)"
    using inv by (simp_all add: lq_inv_def LOOPBACK_QUEUE_SIZE_def)
  have c: "lq_contents ?lq' = lq_contents lq @ [b]"
    using ring_push [OF lt, of "lq_tail lq" b] hd(1) by (simp add: lq_contents_def)
  have "lq_inv ?lq'"
    unfolding lq_inv_def c using inv b lt by (auto simp: lq_inv_def mod_simps)
  moreover have "loopback_enqueue lq b = Inr (SYS_ERR_OK, ?lq')"
    using False hd(2) by (simp add: loopback_enqueue_def)
  ultimately show ?thesis using False c by simp
qed

lemma loopback_dequeue_spec:
  assumes inv: "lq_inv lq"
  shows "\<exists>err b' lq'. loopback_dequeue lq b = Inr (err, b', lq') \<and>
    (if num_ele lq \<noteq> 0
     then err = CLEANQ_ERR_OK \<and> lq_inv lq' \<and> cq_pool lq' = cq_pool lq \<and>
          lq_contents lq = b' # lq_contents lq' \<and> in_bounds (cq_pool lq) b'
     else err = CLEANQ_ERR_QUEUE_EMPTY \<and> b' = b \<and> lq' = lq)"
proof (cases "num_ele lq = 0")
  case True
  then show ?thesis by (simp add: loopback_dequeue_def)
next
  case False
  let ?b = "lq_queue lq ! lq_tail lq"
  let ?lq' = "lq\<lparr>lq_tail := (lq_tail lq + 1) mod LOOPBACK_QUEUE_SIZE, num_ele := num_ele lq - 1\<rparr>"
  have len: "length (lq_queue lq) = LOOPBACK_QUEUE_SIZE" "lq_tail lq < length (lq_queue lq)"
    using inv by (simp_all add: lq_inv_def)
  have c: "lq_contents lq = ?b # lq_contents ?lq'"
    using ring_pop [OF _ len(2), of "num_ele lq"] False len(1) by (simp add: lq_contents_def)
  have "lq_inv ?lq'"
    using inv False c ring_pos_step [of "num_ele lq" "lq_tail lq" LOOPBACK_QUEUE_SIZE]
    unfolding lq_inv_def by (auto simp: LOOPBACK_QUEUE_SIZE_def)
  moreover have "loopback_dequeue lq b = Inr (SYS_ERR_OK, ?b, ?lq')"
    using False len(2) by (simp add: loopback_dequeue_def)
  moreover have "in_bounds (cq_pool lq) ?b" using inv c by (auto simp: lq_inv_def)
  ultimately show ?thesis using False c by auto
qed

interpretation lq: cleanq_fifo loopback_f lq_inv lq_contents "\<lambda>p b. b" "\<lambda>q b. True"
  "\<lambda>lq. num_ele lq \<noteq> 0" "\<lambda>lq. num_ele lq = LOOPBACK_QUEUE_SIZE"
proof unfold_locales
  fix q :: loopback_queue and b assume "lq_inv q"
  from loopback_dequeue_spec [OF this, of b]
  show "\<exists>err b' q'. fcall (f_deq loopback_f) (\<lambda>deq. deq q b) = Inr (err, b', q') \<and>
      (if num_ele q \<noteq> 0
       then err = CLEANQ_ERR_OK \<and> lq_inv q' \<and> cq_pool q' = cq_pool q \<and>
            lq_contents q = b' # lq_contents q' \<and> in_bounds (cq_pool q) b'
       else err = CLEANQ_ERR_QUEUE_EMPTY \<and> b' = b \<and> q' = q)"
    by (simp add: loopback_f_def)
next
  fix q :: loopback_queue and b assume "lq_inv q" "in_bounds (cq_pool q) b"
  from loopback_enqueue_spec [OF this]
  show "\<exists>err q'. fcall (f_enq loopback_f) (\<lambda>enq. enq q b) = Inr (err, q') \<and>
      (if num_ele q = LOOPBACK_QUEUE_SIZE then err = CLEANQ_ERR_QUEUE_FULL \<and> q' = q
       else err = CLEANQ_ERR_OK \<and> lq_inv q' \<and> cq_pool q' = cq_pool q \<and>
            lq_contents q' = lq_contents q @ [b])"
    by (simp add: loopback_f_def)
qed (simp_all add: lq_inv_def)

section \<open>Creating and registering\<close>

lemma loopback_plain_reg: "plain_reg loopback_f"
  by (simp add: plain_reg_def loopback_f_def loopback_register_def loopback_deregister_def)

lemma loopback_create_inv:
  assumes "loopback_queue_create c0 c1 c2 rnd = (err, Some lq)"
  shows "err = CLEANQ_ERR_OK \<and> lq_inv lq \<and> lq_contents lq = [] \<and>
    pool_inv_at 4 (cq_pool lq) \<and> pool_map (cq_pool lq) = Map.empty \<and> num_regions (cq_pool lq) = 0"
proof -
  obtain p where p: "region_pool_init c1 c2 rnd = (CLEANQ_ERR_OK, Some p)" and err: "err = CLEANQ_ERR_OK"
    and lq: "lq = \<lparr>cq_pool = p, cq_state = 0, lq_queue = replicate LOOPBACK_QUEUE_SIZE empty_buf,
                  lq_head = 0, lq_tail = 0, num_ele = 0\<rparr>"
    using assms by (auto simp: loopback_queue_create_def cleanq_init_def err_is_fail_def
        split: if_splits prod.splits option.splits)
  have "lq_inv lq" using region_pool_init_inv [OF p]
    by (auto simp: lq lq_inv_def lq_contents_def pool_inv_def LOOPBACK_QUEUE_SIZE_def)
  then show ?thesis using region_pool_init_inv [OF p] err by (simp add: lq lq_contents_def)
qed

lemma loopback_register_empty:
  assumes "lq_inv lq" "num_ele lq = 0" "pool_inv p"
  shows "lq_inv (lq\<lparr>cq_pool := p\<rparr>)" "lq_contents (lq\<lparr>cq_pool := p\<rparr>) = []"
  using assms by (simp_all add: lq_inv_def lq_contents_def)

text \<open>A queue with one region of 16 KiB and two buffers in it.\<close>

definition demo_lq :: loopback_queue where
  "demo_lq = \<lparr>cq_pool = demo_pool, cq_state = 0, lq_queue = replicate LOOPBACK_QUEUE_SIZE empty_buf,
              lq_head = 0, lq_tail = 0, num_ele = 0\<rparr>"

lemma demo_lq_inv: "lq_inv demo_lq" "lq_contents demo_lq = []"
  using demo_pool_inv by (auto simp: demo_lq_def lq_inv_def lq_contents_def LOOPBACK_QUEUE_SIZE_def)

lemma demo_lq_register:
  obtains id lq where
    "cleanq_register demo_env loopback_f demo_lq demo_cap 0 = Inr (CLEANQ_ERR_OK, id, lq)"
    "lq_inv lq" "lq_contents lq = []" "in_bounds (cq_pool lq) (demo_buf id)"
proof -
  obtain id p where a: "region_pool_add_region demo_env demo_pool demo_cap 0 = Inr (CLEANQ_ERR_OK, id, p)"
    "pool_inv p" "pool_map p = [id \<mapsto> new_region id demo_cap]"
    by (rule demo_pool_add)
  obtain k where k: "pool_inv_at k p" using a(2) by (auto simp: pool_inv_def)
  let ?lq = "demo_lq\<lparr>cq_pool := p\<rparr>"
  have "cleanq_register demo_env loopback_f demo_lq demo_cap 0 = Inr (CLEANQ_ERR_OK, id, ?lq)"
    using cleanq_register_plain [OF loopback_plain_reg, of demo_env demo_lq] a(1)
    by (simp add: demo_lq_def)
  moreover have "in_bounds p (demo_buf id)"
    using check_bounds_in_region [OF k, of "demo_buf id"] a(3)
    by (simp add: demo_buf_def buf_no_wrap_def buf_in_region_def new_region_def demo_cap_def)
  ultimately show thesis
    using that loopback_register_empty [OF demo_lq_inv(1) _ a(2)] by (simp add: demo_lq_def)
qed

section \<open>Properties\<close>

text \<open>Property C12: the loopback queue is a FIFO queue. Any sequence of enqueue and dequeue calls
  through the interface returns, and the buffers accepted (after what was already inside) are
  exactly the buffers delivered followed by the buffers still inside, in this order: nothing is
  lost, duplicated, reordered or altered, and every delivered buffer is in bounds.\<close>

theorem loopback_fifo:
  assumes "lq_inv lq"
  shows "\<exists>ins outs lq'. run_ops loopback_f lq ops = Inr (ins, outs, lq') \<and> lq_inv lq' \<and>
    lq_contents lq @ ins = outs @ lq_contents lq' \<and> (\<forall>b\<in>set outs. in_bounds (cq_pool lq) b)"
  using lq.run_ops_fifo [OF assms, of ops] by auto

theorem loopback_fifo_witness:
  "\<exists>id lq ins outs lq'. cleanq_register demo_env loopback_f demo_lq demo_cap 0 = Inr (CLEANQ_ERR_OK, id, lq) \<and>
     lq_inv lq \<and> run_ops loopback_f lq [Enq (demo_buf id), Deq, Deq] = Inr (ins, outs, lq') \<and>
     ins = outs @ lq_contents lq'"
proof -
  obtain id lq where r: "cleanq_register demo_env loopback_f demo_lq demo_cap 0 = Inr (CLEANQ_ERR_OK, id, lq)"
    "lq_inv lq" "lq_contents lq = []"
    by (rule demo_lq_register)
  then show ?thesis using loopback_fifo [OF r(2), of "[Enq (demo_buf id), Deq, Deq]"] by auto
qed

text \<open>The outcome of an enqueue is determined. A buffer out of bounds is refused and the
  queue is untouched; with 256 elements inside the queue is full and untouched; otherwise the
  buffer becomes the newest element.\<close>

theorem loopback_enqueue_outcome:
  assumes "lq_inv lq"
  shows "\<exists>lq'. cleanq_enqueue loopback_f lq b =
      Inr (if \<not> in_bounds (cq_pool lq) b then CLEANQ_ERR_INVALID_BUFFER_ARGS
           else if length (lq_contents lq) = 256 then CLEANQ_ERR_QUEUE_FULL else CLEANQ_ERR_OK, lq') \<and>
    (if in_bounds (cq_pool lq) b \<and> length (lq_contents lq) < 256
     then lq_inv lq' \<and> lq_contents lq' = lq_contents lq @ [b] else lq' = lq)"
proof -
  have n: "length (lq_contents lq) = num_ele lq" "num_ele lq \<le> 256"
    using assms by (simp_all add: lq_contents_def lq_inv_def LOOPBACK_QUEUE_SIZE_def)
  show ?thesis
    by (rule lq.enqueue_spec [OF assms, of b]) (use n in \<open>auto simp: LOOPBACK_QUEUE_SIZE_def\<close>)
qed

theorem loopback_enqueue_outcome_witness:
  "\<exists>id lq lq'. cleanq_register demo_env loopback_f demo_lq demo_cap 0 = Inr (CLEANQ_ERR_OK, id, lq) \<and>
     cleanq_enqueue loopback_f lq (demo_buf id) = Inr (CLEANQ_ERR_OK, lq') \<and>
     lq_contents lq' = [demo_buf id]"
proof -
  obtain id lq where r: "cleanq_register demo_env loopback_f demo_lq demo_cap 0 = Inr (CLEANQ_ERR_OK, id, lq)"
    "lq_inv lq" "lq_contents lq = []" "in_bounds (cq_pool lq) (demo_buf id)"
    by (rule demo_lq_register)
  then show ?thesis using loopback_enqueue_outcome [OF r(2), of "demo_buf id"] by auto
qed

text \<open>Destroying a loopback queue through the interface always reads freed memory,
  because the backend frees the queue before the interface looks up its pool.\<close>

theorem loopback_destroy_uses_freed_queue:
  "cleanq_destroy loopback_f lq cap = Inl Bad_Memory"
  by (simp add: cleanq_destroy_def loopback_f_def loopback_destroy_def err_is_fail_def)

text \<open>Registering and deregistering a region through the interface is a round trip. On a
  backend whose own registration does nothing, the region added by \<open>cleanq_register\<close> is given back
  by \<open>cleanq_deregister\<close> with its capability, and the registered regions are those before.\<close>

theorem register_deregister_roundtrip:
  assumes "plain_reg f" "pool_inv (cq_pool q)" "num_regions (cq_pool q) < 32768"
    and "malloc_ok (region_alloc (cq_pool q)) (malloc_ret env)"
    and "cleanq_register env f q cap rid = Inr (CLEANQ_ERR_OK, nid, q')"
  shows "\<exists>q''. cleanq_deregister f q' nid c = Inr (CLEANQ_ERR_OK, cap, q'') \<and>
    pool_map (cq_pool q'') = pool_map (cq_pool q)"
proof -
  obtain k where inv: "pool_inv_at k (cq_pool q)" using assms(2) by (auto simp: pool_inv_def)
  have room: "unat (num_regions (cq_pool q)) < 32768" using assms(3) by (simp add: unat_32768)
  obtain p where p: "region_pool_add_region env (cq_pool q) cap rid = Inr (CLEANQ_ERR_OK, nid, p)"
    and q': "q' = q\<lparr>cq_pool := p\<rparr>"
    using assms(1,5) by (auto simp: cleanq_register_def bindc_eq_Inr Let_def plain_reg_def
        err_is_fail_def split: if_splits)
  obtain k' where k': "pool_inv_at k' p" "pool_map (cq_pool q) nid = None"
    "pool_map p = (pool_map (cq_pool q))(nid \<mapsto> new_region nid cap)"
    by (rule region_pool_add_region_spec [OF inv room assms(4), of cap rid]) (use p in auto)
  then have "pool_map p nid = Some (new_region nid cap)" by simp
  from region_pool_remove_region_spec [OF k'(1) this, of c] obtain p' where
    "region_pool_remove_region p nid c = Inr (CLEANQ_ERR_OK, cap, p')"
    "pool_map p' = (pool_map p)(nid := None)"
    by (metis new_region_def region.select_convs(3))
  moreover have "(pool_map p)(nid := None) = pool_map (cq_pool q)" using k' by (auto simp: fun_eq_iff)
  ultimately show ?thesis
    using cleanq_deregister_plain [OF assms(1), of q' nid c] q' by auto
qed

theorem register_deregister_roundtrip_witness:
  "\<exists>id lq lq'. cleanq_register demo_env loopback_f demo_lq demo_cap 0 = Inr (CLEANQ_ERR_OK, id, lq) \<and>
     cleanq_deregister loopback_f lq id demo_cap = Inr (CLEANQ_ERR_OK, demo_cap, lq') \<and>
     pool_map (cq_pool lq') = Map.empty"
proof -
  obtain id lq where r: "cleanq_register demo_env loopback_f demo_lq demo_cap 0 = Inr (CLEANQ_ERR_OK, id, lq)"
    by (rule demo_lq_register)
  have d: "cq_pool demo_lq = demo_pool" by (simp add: demo_lq_def)
  show ?thesis
    using register_deregister_roundtrip [OF loopback_plain_reg _ _ _ r, of demo_cap] r
      demo_pool_inv demo_pool_malloc demo_pool_ok by (auto simp: d)
qed

end
