(* ===== verification/Debug_Queue.thy ===== *)
theory Debug_Queue
  imports Debug_Chunks Loopback_Queue
begin

text \<open>
  The debugging queue, \<open>lib/libcleanq/src/backends/debug/cleanq_debug_module.c\<close>. It is stacked on another
  queue and tracks, for every region, which bytes its client owns: a buffer may only be enqueued when
  the client owns it, and a dequeued buffer is owned again.

  The list of regions is a list of records in the order of the list of the code; the chunk list of a
  region is in the store of \<open>Debug_Chunks\<close>. \<open>g\<close> is the table of function pointers of the queue below and
  \<open>dq_q\<close> its state. The history, which is switched off, and printing are left out.

  Contents: the operations; the view of the state as chunk lists; that enqueueing is refused for bytes
  the client does not own and otherwise takes exactly these bytes, that a second enqueue of a buffer
  is caught, also after other calls, that dequeueing gives the bytes back; where the code falls short.
\<close>

section \<open>State\<close>

record memory_list =
  ml_addr :: addr
  ml_rid :: regionid
  ml_length :: u64
  not_consistent :: bool
  ml_buffers :: addr

record 's debug_q = cleanq +
  dq_q :: 's
  dq_regions :: "memory_list list"
  dq_mem :: chunk_mem
  alloc_list :: slab_allocator

definition sizeof_memory_ele :: nat where "sizeof_memory_ele = 32"
definition sizeof_memory_list :: nat where "sizeof_memory_list = 40"

text \<open>What \<open>malloc\<close> answers when the two allocators ask for memory.\<close>

record debug_libc =
  list_mem :: addr
  ele_mem :: addr

section \<open>Operations\<close>

fun region_index :: "memory_list list \<Rightarrow> regionid \<Rightarrow> nat option" where
  "region_index [] rid = None"
| "region_index (r # rs) rid = (if ml_rid r = rid then Some 0 else map_option Suc (region_index rs rid))"

definition find_region :: "'s debug_q \<Rightarrow> regionid \<Rightarrow> errval \<times> nat" where
  "find_region que rid =
     (case region_index (dq_regions que) rid of
        None \<Rightarrow> (CLEANQ_ERR_INVALID_REGION_ID, 0)
      | Some i \<Rightarrow> (SYS_ERR_OK, i))"

text \<open>Appending a region whose whole memory is one chunk.\<close>

definition append_region ::
  "debug_libc \<Rightarrow> 's debug_q \<Rightarrow> addr \<Rightarrow> regionid \<Rightarrow> u64 \<Rightarrow> bool \<Rightarrow> 's debug_q cres" where
  "append_region env que p rid len nc =
     bindc (ele_new (dq_mem que) (ele_mem env) \<lparr>me_offset = 0, me_length = len, me_next = 0, me_prev = 0\<rparr>) (\<lambda>(b, m).
     Inr (que\<lparr>dq_mem := m, dq_regions := dq_regions que @
       [\<lparr>ml_addr = p, ml_rid = rid, ml_length = len, not_consistent = nc, ml_buffers = b\<rparr>]\<rparr>))"

definition list_new :: "debug_libc \<Rightarrow> 's debug_q \<Rightarrow> (addr \<times> 's debug_q) cres" where
  "list_new env que =
     bindc (slab_alloc (alloc_list que) (list_mem env)) (\<lambda>(p, a).
       if \<not> p \<noteq> 0 then Inl Assert_Failed else Inr (p, que\<lparr>alloc_list := a\<rparr>))"

text \<open>The two branches of the code, for the first region and for a further one, do the same.\<close>

definition debug_register ::
  "debug_libc \<Rightarrow> 's cleanq_func_pointer \<Rightarrow> 's debug_q \<Rightarrow> capref \<Rightarrow> regionid \<Rightarrow> (errval \<times> 's debug_q) cres" where
  "debug_register env g que cap rid =
     bindc (fcall (f_reg g) (\<lambda>reg. reg (dq_q que) cap rid)) (\<lambda>(err, l).
       let que1 = que\<lparr>dq_q := l\<rparr> in
       if err_is_fail err then Inr (err, que1)
       else bindc (list_new env que1) (\<lambda>(p, que2).
            bindc (append_region env que2 p rid (cap_len cap) False) (\<lambda>que3. Inr (SYS_ERR_OK, que3))))"

definition debug_deregister ::
  "'s cleanq_func_pointer \<Rightarrow> 's debug_q \<Rightarrow> regionid \<Rightarrow> (errval \<times> 's debug_q) cres" where
  "debug_deregister g que rid =
     (case region_index (dq_regions que) rid of
        None \<Rightarrow> Inr (CLEANQ_ERR_INVALID_REGION_ID, que)
      | Some i \<Rightarrow>
          let r = dq_regions que ! i in
          bindc (rd (dq_mem que) (ml_buffers r)) (\<lambda>b.
          if me_offset b = 0 \<and> me_length b = ml_length r \<and> me_next b = 0 then
            bindc (fcall (f_dereg g) (\<lambda>dereg. dereg (dq_q que) rid)) (\<lambda>(err, l).
            let que1 = que\<lparr>dq_q := l\<rparr> in
            if err_is_fail err then Inr (err, que1)
            else bindc (ele_free (dq_mem que1) (ml_buffers r)) (\<lambda>m.
                 bindc (slab_free (alloc_list que1) (ml_addr r)) (\<lambda>a.
                 Inr (SYS_ERR_OK, que1\<lparr>dq_mem := m, alloc_list := a,
                   dq_regions := take i (dq_regions que1) @ drop (Suc i) (dq_regions que1)\<rparr>))))
          else Inr (CLEANQ_ERR_REGION_DESTROY, que)))"

definition debug_control ::
  "'s cleanq_func_pointer \<Rightarrow> 's debug_q \<Rightarrow> u64 \<Rightarrow> u64 \<Rightarrow> u64 \<Rightarrow> (errval \<times> u64 \<times> 's debug_q) cres" where
  "debug_control g que cmd value result =
     bindc (fcall (f_ctrl g) (\<lambda>ctrl. ctrl (dq_q que) cmd value result)) (\<lambda>(err, r, l). Inr (err, r, que\<lparr>dq_q := l\<rparr>))"

definition debug_notify :: "'s cleanq_func_pointer \<Rightarrow> 's debug_q \<Rightarrow> (errval \<times> 's debug_q) cres" where
  "debug_notify g que =
     bindc (fcall (f_notify g) (\<lambda>notify. notify (dq_q que))) (\<lambda>(err, l). Inr (err, que\<lparr>dq_q := l\<rparr>))"

text \<open>The loop over the chunks of a region: the first that contains the buffer, or NULL.\<close>

partial_function (option) find_chunk :: "chunk_mem \<Rightarrow> u64 \<Rightarrow> u64 \<Rightarrow> addr \<Rightarrow> addr cres option" where
  "find_chunk m off len buffer =
     (if buffer = 0 then Some (Inr 0)
      else case eles m buffer of
             None \<Rightarrow> Some (Inl Bad_Memory)
           | Some e \<Rightarrow> if buffer_in_bounds off len (me_offset e) (me_length e) then Some (Inr buffer)
                       else find_chunk m off len (me_next e))"

definition set_buffers :: "'s debug_q \<Rightarrow> nat \<Rightarrow> addr \<Rightarrow> chunk_mem \<Rightarrow> 's debug_q" where
  "set_buffers que i head m =
     que\<lparr>dq_mem := m, dq_regions := (dq_regions que)[i := (dq_regions que ! i)\<lparr>ml_buffers := head\<rparr>]\<rparr>"

text \<open>Enqueueing a buffer that lies in the chunk \<open>buffer\<close>.\<close>

definition enqueue_from ::
  "debug_libc \<Rightarrow> 's cleanq_func_pointer \<Rightarrow> 's debug_q \<Rightarrow> nat \<Rightarrow> addr \<Rightarrow> cleanq_buf \<Rightarrow> (errval \<times> 's debug_q) cres" where
  "enqueue_from env g que i buffer b =
     bindc (fcall (f_enq g) (\<lambda>enq. enq (dq_q que) b)) (\<lambda>(err, l).
       let que1 = que\<lparr>dq_q := l\<rparr> in
       if err_is_fail err then Inr (err, que1)
       else bindc (remove_split_buffer (dq_mem que1) (ml_buffers (dq_regions que1 ! i)) buffer (b_offset b) (b_length b) (ele_mem env))
              (\<lambda>(head, m). Inr (SYS_ERR_OK, set_buffers que1 i head m)))"

definition debug_enqueue ::
  "debug_libc \<Rightarrow> 's cleanq_func_pointer \<Rightarrow> 's debug_q \<Rightarrow> cleanq_buf \<Rightarrow> (errval \<times> 's debug_q) cres" where
  "debug_enqueue env g que b =
     (if \<not> 0 < b_length b then Inl Assert_Failed
      else case find_region que (b_rid b) of (err, i) \<Rightarrow>
        if err_is_fail err then Inr (err, que)
        else let buffer = ml_buffers (dq_regions que ! i) in
          if buffer = 0 then Inr (CLEANQ_ERR_BUFFER_ALREADY_IN_USE, que)
          else bindc (rd (dq_mem que) buffer) (\<lambda>e.
            if me_next e = 0 then
              if buffer_in_bounds (b_offset b) (b_length b) (me_offset e) (me_length e)
              then enqueue_from env g que i buffer b
              else Inr (CLEANQ_ERR_INVALID_BUFFER_ARGS, que)
            else bindc (run_loop (find_chunk (dq_mem que) (b_offset b) (b_length b) buffer)) (\<lambda>found.
              if found \<noteq> 0 then enqueue_from env g que i found b
              else Inr (CLEANQ_ERR_INVALID_BUFFER_ARGS, que))))"

text \<open>The loop of \<open>debug_dequeue\<close>: the first chunk that starts behind the offset, or the last.\<close>

partial_function (option) find_place :: "chunk_mem \<Rightarrow> u64 \<Rightarrow> addr \<Rightarrow> addr cres option" where
  "find_place m off buffer =
     (case eles m buffer of
        None \<Rightarrow> Some (Inl Bad_Memory)
      | Some e \<Rightarrow> if me_next e \<noteq> 0 \<and> me_offset e \<le> off then find_place m off (me_next e) else Some (Inr buffer))"

text \<open>A region the queue does not know. For a second region the code clears the first eight bytes of
  the first chunk of the first region, which hold its offset.\<close>

definition dequeue_unknown :: "debug_libc \<Rightarrow> 's debug_q \<Rightarrow> cleanq_buf \<Rightarrow> 's debug_q cres" where
  "dequeue_unknown env que b =
     bindc (list_new env que) (\<lambda>(p, que1).
     bindc (case dq_regions que1 of
              [] \<Rightarrow> Inr que1
            | r # _ \<Rightarrow> bindc (wr (dq_mem que1) (ml_buffers r) (\<lambda>e. e\<lparr>me_offset := 0\<rparr>)) (\<lambda>m. Inr (que1\<lparr>dq_mem := m\<rparr>))) (\<lambda>que2.
     append_region env que2 p (b_rid b) (b_offset b + b_length b) True))"

text \<open>A region that another endpoint registered is at least as long as the buffer reaches.\<close>

definition extend_region :: "'s debug_q \<Rightarrow> nat \<Rightarrow> cleanq_buf \<Rightarrow> 's debug_q" where
  "extend_region que i b =
     (let r = dq_regions que ! i in
      if not_consistent r \<and> ml_length r < b_offset b + b_length b
      then que\<lparr>dq_regions := (dq_regions que)[i := r\<lparr>ml_length := b_offset b + b_length b\<rparr>]\<rparr>
      else que)"

definition dequeue_into ::
  "debug_libc \<Rightarrow> 's debug_q \<Rightarrow> nat \<Rightarrow> cleanq_buf \<Rightarrow> (errval \<times> 's debug_q) cres" where
  "dequeue_into env que i b =
     (let buffers = ml_buffers (dq_regions que ! i); off = b_offset b; len = b_length b in
      if buffers = 0 then
        bindc (ele_new (dq_mem que) (ele_mem env) \<lparr>me_offset = off, me_length = len, me_next = 0, me_prev = 0\<rparr>) (\<lambda>(p, m).
        Inr (SYS_ERR_OK, set_buffers que i p m))
      else
        bindc (run_loop (find_place (dq_mem que) off buffers)) (\<lambda>buffer.
        bindc (rd (dq_mem que) buffer) (\<lambda>e.
        if \<not> buffer_in_bounds off len (me_offset e) (me_length e)
        then bindc (insert_merge_buffer (dq_mem que) buffers buffer off len (ele_mem env)) (\<lambda>(head, m).
             Inr (SYS_ERR_OK, set_buffers que i head m))
        else Inr (CLEANQ_ERR_BUFFER_NOT_IN_USE, que))))"

definition debug_dequeue ::
  "debug_libc \<Rightarrow> 's cleanq_func_pointer \<Rightarrow> 's debug_q \<Rightarrow> cleanq_buf \<Rightarrow> (errval \<times> cleanq_buf \<times> 's debug_q) cres" where
  "debug_dequeue env g que b0 =
     (if f_deq g = None then Inl Assert_Failed
      else bindc (fcall (f_deq g) (\<lambda>deq. deq (dq_q que) b0)) (\<lambda>(err, b, l).
        let que1 = que\<lparr>dq_q := l\<rparr> in
        if err_is_fail err then Inr (err, b, que1)
        else case find_region que1 (b_rid b) of (err', i) \<Rightarrow>
          if err_is_fail err'
          then bindc (dequeue_unknown env que1 b) (\<lambda>que2. Inr (SYS_ERR_OK, b, que2))
          else bindc (dequeue_into env (extend_region que1 i b) i b) (\<lambda>(err'', que2). Inr (err'', b, que2))))"

definition debug_destroy :: "'s debug_q \<Rightarrow> (errval \<times> 's debug_q option) cres" where
  "debug_destroy que = Inr (SYS_ERR_OK, Some que)"

definition debug_f :: "debug_libc \<Rightarrow> 's cleanq_func_pointer \<Rightarrow> 's debug_q cleanq_func_pointer" where
  "debug_f env g =
     \<lparr>f_reg = Some (debug_register env g), f_dereg = Some (debug_deregister g),
      f_ctrl = Some (debug_control g), f_notify = Some (debug_notify g),
      f_enq = Some (debug_enqueue env g), f_deq = Some (debug_dequeue env g),
      f_destroy = Some debug_destroy\<rparr>"

text \<open>\<open>calloc0\<close> is the allocation of the queue, the others are those of \<open>cleanq_init\<close>.\<close>

definition debug_create ::
  "bool \<Rightarrow> bool \<Rightarrow> bool \<Rightarrow> u32 \<Rightarrow> 's \<Rightarrow> (errval \<times> 's debug_q option) cres" where
  "debug_create calloc0 calloc1 calloc2 rnd other_q =
     (if \<not> calloc0 then Inl Assert_Failed
      else case cleanq_init calloc1 calloc2 rnd of
             (err, None) \<Rightarrow> Inr (err, None)
           | (err, Some p) \<Rightarrow>
               if err_is_fail err then Inr (err, None)
               else Inr (SYS_ERR_OK, Some
                 \<lparr>cq_pool = p, cq_state = 0, dq_q = other_q, dq_regions = [],
                  dq_mem = \<lparr>eles = Map.empty, ele_alloc = slab_init sizeof_memory_ele Default_Refill\<rparr>,
                  alloc_list = slab_init sizeof_memory_list Default_Refill\<rparr>))"

definition debug_add_region ::
  "libc \<Rightarrow> 's debug_q \<Rightarrow> capref \<Rightarrow> regionid \<Rightarrow> (errval \<times> 's debug_q) cres" where
  "debug_add_region env q cap rid = cleanq_add_region env q cap rid"

definition debug_remove_region :: "'s debug_q \<Rightarrow> regionid \<Rightarrow> capref \<Rightarrow> (errval \<times> 's debug_q) cres" where
  "debug_remove_region q rid cap = cleanq_remove_region q rid cap"

section \<open>The state as chunk lists\<close>

definition dbg_nodes :: "'s debug_q \<Rightarrow> addr list list \<Rightarrow> bool" where
  "dbg_nodes que nss \<longleftrightarrow> length nss = length (dq_regions que) \<and>
     (\<forall>i < length nss. list_ok (dq_mem que) (ml_buffers (dq_regions que ! i)) (nss ! i)) \<and>
     (\<forall>i < length nss. \<forall>j < length nss. i \<noteq> j \<longrightarrow> set (nss ! i) \<inter> set (nss ! j) = {})"

definition chunks_ok :: "(nat \<times> nat) list \<Rightarrow> bool" where
  "chunks_ok cs \<longleftrightarrow> ordered cs \<and> (\<forall>c\<in>set cs. fst c + snd c < 2 ^ 64)"

text \<open>\<open>css\<close> are the chunks of the regions, in the order of the list of regions.\<close>

definition dbg_view :: "'s debug_q \<Rightarrow> (nat \<times> nat) list list \<Rightarrow> bool" where
  "dbg_view que css \<longleftrightarrow>
     (\<exists>nss. dbg_nodes que nss \<and> css = map (map (chunk (eles (dq_mem que)))) nss) \<and> (\<forall>cs\<in>set css. chunks_ok cs)"

definition buf_range :: "cleanq_buf \<Rightarrow> nat \<times> nat" where
  "buf_range b = (unat (b_offset b), unat (b_length b))"

definition range_ok :: "cleanq_buf \<Rightarrow> bool" where
  "range_ok b \<longleftrightarrow> 0 < b_length b \<and> unat (b_offset b) + unat (b_length b) < 2 ^ 64"

lemma dbg_view_lower [simp]: "dbg_view (que\<lparr>dq_q := l\<rparr>) css = dbg_view que css"
  by (simp add: dbg_view_def dbg_nodes_def)

lemma dbg_viewE:
  assumes "dbg_view que css" "i < length css"
  obtains nss where "dbg_nodes que nss" "css = map (map (chunk (eles (dq_mem que)))) nss" "length nss = length css"
    "length nss = length (dq_regions que)"
    "list_ok (dq_mem que) (ml_buffers (dq_regions que ! i)) (nss ! i)" "css ! i = map (chunk (eles (dq_mem que))) (nss ! i)"
    "ordered (css ! i)" "\<forall>c\<in>set (css ! i). fst c + snd c < 2 ^ 64"
proof -
  obtain nss where n: "dbg_nodes que nss" "css = map (map (chunk (eles (dq_mem que)))) nss"
    using assms(1) by (auto simp: dbg_view_def)
  have l: "length nss = length css" using n(2) by simp
  have "chunks_ok (css ! i)" using assms nth_mem [of i css] unfolding dbg_view_def by blast
  then have o: "ordered (css ! i)" "\<forall>c\<in>set (css ! i). fst c + snd c < 2 ^ 64" by (simp_all add: chunks_ok_def)
  have "length nss = length (dq_regions que)" "list_ok (dq_mem que) (ml_buffers (dq_regions que ! i)) (nss ! i)"
    using n(1) assms(2) l by (simp_all add: dbg_nodes_def)
  moreover have "css ! i = map (chunk (eles (dq_mem que))) (nss ! i)" using n(2) assms(2) by simp
  ultimately show thesis by (rule that [OF n l _ _ _ o])
qed

text \<open>Changing the list of one region leaves those of the others.\<close>

lemma list_ok_other:
  assumes ok: "list_ok m h ns" "list_ok m h' ns'" and b: "becomes m ns cs head m'" and d: "set ns' \<inter> set ns = {}"
  shows "list_ok m' h' ns'" "map (chunk (eles m')) ns' = map (chunk (eles m)) ns'"
proof -
  have k: "x \<in> live (ele_alloc m') \<and> eles m' x = eles m x" if "x \<in> set ns'" for x
    using b that ok(2) d by (auto simp: becomes_def list_ok_def)
  then have "dls (eles m') 0 ns' 0 = dls (eles m) 0 ns' 0" by (intro dls_cong) simp
  then show "list_ok m' h' ns'" using ok(2) b k by (auto simp: becomes_def list_ok_def)
  show "map (chunk (eles m')) ns' = map (chunk (eles m)) ns'" using k by (simp add: chunk_def)
qed

lemma view_update:
  assumes n: "dbg_nodes que nss" and v: "dbg_view que (map (map (chunk (eles (dq_mem que)))) nss)" and i: "i < length nss"
    and b: "becomes (dq_mem que) (nss ! i) cs head m" and cs: "chunks_ok cs"
  shows "dbg_view (set_buffers que i head m) ((map (map (chunk (eles (dq_mem que)))) nss)[i := cs])"
proof -
  let ?m = "dq_mem que"
  obtain ns where ns: "list_ok m head ns" "map (chunk (eles m)) ns = cs" "set ns \<inter> (live (ele_alloc ?m) - set (nss ! i)) = {}"
    using b by (auto simp: becomes_def)
  have oki: "list_ok ?m (ml_buffers (dq_regions que ! i)) (nss ! i)" using n i by (simp add: dbg_nodes_def)
  have other: "list_ok m (ml_buffers (dq_regions que ! j)) (nss ! j) \<and>
      map (chunk (eles m)) (nss ! j) = map (chunk (eles ?m)) (nss ! j) \<and> set ns \<inter> set (nss ! j) = {}"
    if "j < length nss" "j \<noteq> i" for j
  proof -
    have j: "list_ok ?m (ml_buffers (dq_regions que ! j)) (nss ! j)" "set (nss ! j) \<inter> set (nss ! i) = {}"
      using n that i by (auto simp: dbg_nodes_def)
    then have "set (nss ! j) \<subseteq> live (ele_alloc ?m) - set (nss ! i)" by (auto simp: list_ok_def)
    then show ?thesis using list_ok_other [OF oki j(1) b j(2)] ns(3) by blast
  qed
  have "dbg_nodes (set_buffers que i head m) (nss[i := ns])"
    unfolding dbg_nodes_def using n i ns(1) other
    by (auto simp: dbg_nodes_def set_buffers_def nth_list_update Int_commute)
  moreover have "(map (map (chunk (eles ?m))) nss)[i := cs] = map (map (chunk (eles m))) (nss[i := ns])"
    using other ns(2) i by (intro nth_equalityI) (auto simp: nth_list_update)
  moreover have "\<forall>c\<in>set ((map (map (chunk (eles ?m))) nss)[i := cs]). chunks_ok c"
  proof -
    have "\<forall>c\<in>set (map (map (chunk (eles ?m))) nss). chunks_ok c" using v unfolding dbg_view_def by blast
    then show ?thesis using cs set_update_subset_insert [of "map (map (chunk (eles ?m))) nss" i cs] by blast
  qed
  ultimately show ?thesis unfolding dbg_view_def by (auto simp: set_buffers_def)
qed

section \<open>The loops\<close>

lemma in_bounds_contains:
  assumes "unat off + unat len < 2 ^ 64" "unat bo + unat bl < 2 ^ 64"
  shows "buffer_in_bounds off len bo bl \<longleftrightarrow> contains (unat bo, unat bl) (unat off, unat len)"
  using assms by (auto simp: buffer_in_bounds_def contains_def word_le_nat_alt unat_add_less)

lemma find_chunk_spec:
  assumes r: "unat off + unat len < 2 ^ 64"
  shows "dls (eles m) p ns 0 \<Longrightarrow> 0 \<notin> set ns \<Longrightarrow> \<forall>c\<in>set (map (chunk (eles m)) ns). fst c + snd c < 2 ^ 64 \<Longrightarrow>
    (\<exists>xs b ys. ns = xs @ b # ys \<and> find_chunk m off len (first ns 0) = Some (Inr b) \<and>
       contains (chunk (eles m) b) (unat off, unat len)) \<or>
    find_chunk m off len (first ns 0) = Some (Inr 0) \<and> (\<forall>c\<in>set (map (chunk (eles m)) ns). \<not> contains c (unat off, unat len))"
proof (induction ns arbitrary: p)
  case Nil
  then show ?case by (simp add: find_chunk.simps)
next
  case (Cons x ns)
  obtain e where e: "eles m x = Some e" "me_next e = first ns 0" "x \<noteq> 0" using Cons.prems by auto
  have c: "chunk (eles m) x = (unat (me_offset e), unat (me_length e))" using e by (simp add: chunk_def)
  have ib: "buffer_in_bounds off len (me_offset e) (me_length e) \<longleftrightarrow> contains (chunk (eles m) x) (unat off, unat len)"
    using in_bounds_contains [OF r, of "me_offset e" "me_length e"] Cons.prems(3) c by simp
  have step: "find_chunk m off len x = (if contains (chunk (eles m) x) (unat off, unat len) then Some (Inr x)
      else find_chunk m off len (first ns 0))"
    using e ib by (subst find_chunk.simps) simp
  show ?case
  proof (cases "contains (chunk (eles m) x) (unat off, unat len)")
    case True
    then show ?thesis using step by (intro disjI1 exI [of _ "[]"] exI [of _ x] exI [of _ ns]) simp
  next
    case False
    have "dls (eles m) x ns 0" "0 \<notin> set ns" "\<forall>c\<in>set (map (chunk (eles m)) ns). fst c + snd c < 2 ^ 64"
      using Cons.prems by auto
    from Cons.IH [OF this] show ?thesis
    proof
      assume "\<exists>xs b ys. ns = xs @ b # ys \<and> find_chunk m off len (first ns 0) = Some (Inr b) \<and>
        contains (chunk (eles m) b) (unat off, unat len)"
      then obtain xs b ys where "ns = xs @ b # ys" "find_chunk m off len (first ns 0) = Some (Inr b)"
        "contains (chunk (eles m) b) (unat off, unat len)" by blast
      then show ?thesis using step False by (intro disjI1 exI [of _ "x # xs"] exI [of _ b] exI [of _ ys]) simp
    qed (use step False in simp)
  qed
qed

lemma find_place_spec:
  "dls (eles m) p ns 0 \<Longrightarrow> 0 \<notin> set ns \<Longrightarrow> ns \<noteq> [] \<Longrightarrow>
    \<exists>xs b ys. ns = xs @ b # ys \<and> find_place m off (first ns 0) = Some (Inr b) \<and>
      (\<forall>x\<in>set xs. fst (chunk (eles m) x) \<le> unat off) \<and> (unat off < fst (chunk (eles m) b) \<or> ys = [])"
proof (induction ns arbitrary: p)
  case (Cons x ns)
  obtain e where e: "eles m x = Some e" "me_next e = first ns 0" using Cons.prems by auto
  have c: "fst (chunk (eles m) x) = unat (me_offset e)" using e by (simp add: chunk_def)
  have z: "first ns 0 = 0 \<longleftrightarrow> ns = []" using first_zero [of ns] Cons.prems by simp
  show ?case
  proof (cases "ns \<noteq> [] \<and> me_offset e \<le> off")
    case False
    then have "find_place m off x = Some (Inr x)" using e z by (subst find_place.simps) auto
    then show ?thesis using False c by (intro exI [of _ "[]"] exI [of _ x] exI [of _ ns]) (auto simp: word_le_nat_alt)
  next
    case True
    then have step: "find_place m off x = find_place m off (first ns 0)" using e z by (subst find_place.simps) simp
    have "dls (eles m) x ns 0" "0 \<notin> set ns" "ns \<noteq> []" using Cons.prems True by auto
    from Cons.IH [OF this] obtain xs b ys where "ns = xs @ b # ys" "find_place m off (first ns 0) = Some (Inr b)"
      "\<forall>x\<in>set xs. fst (chunk (eles m) x) \<le> unat off" "unat off < fst (chunk (eles m) b) \<or> ys = []" by blast
    then show ?thesis using step True c
      by (intro exI [of _ "x # xs"] exI [of _ b] exI [of _ ys]) (auto simp: word_le_nat_alt)
  qed
qed simp

section \<open>Enqueueing\<close>

lemma region_index_bound: "region_index rs rid = Some i \<Longrightarrow> i < length rs \<and> ml_rid (rs ! i) = rid"
  by (induction rs arbitrary: i) (auto split: if_splits)

lemma region_index_update: "ml_rid r = ml_rid (rs ! i) \<Longrightarrow> region_index (rs[i := r]) rid = region_index rs rid"
  by (induction rs arbitrary: i) (auto split: nat.splits)

lemma region_index_set_buffers [simp]: "region_index (dq_regions (set_buffers que i h m)) rid = region_index (dq_regions que) rid"
  by (simp add: set_buffers_def region_index_update)

definition env_ok :: "debug_libc \<Rightarrow> 's debug_q \<Rightarrow> bool" where
  "env_ok env que \<longleftrightarrow> malloc_ok (ele_alloc (dq_mem que)) (ele_mem env) \<and> ele_mem env \<noteq> 0"

lemma cut_in: "contains c b \<Longrightarrow> d \<in> set (cut c b) \<Longrightarrow> fst d + snd d \<le> fst c + snd c"
  by (auto simp: cut_def contains_def split: if_splits)

text \<open>What a successful enqueue of \<open>b\<close> from region \<open>i\<close> has done.\<close>

definition taken :: "'s debug_q \<Rightarrow> (nat \<times> nat) list list \<Rightarrow> nat \<Rightarrow> cleanq_buf \<Rightarrow> 's \<Rightarrow> 's debug_q \<Rightarrow> bool" where
  "taken que css i b l que' \<longleftrightarrow>
     (\<exists>cs. dbg_view que' (css[i := cs]) \<and> owned cs = owned (css ! i) - bytes (buf_range b)) \<and> dq_q que' = l \<and>
     (\<forall>rid. region_index (dq_regions que') rid = region_index (dq_regions que) rid)"

lemma enqueue_from_spec:
  assumes v: "dbg_view que css" and n: "dbg_nodes que nss" "css = map (map (chunk (eles (dq_mem que)))) nss"
    and i: "i < length css" "nss ! i = xs @ p # ys" and c: "contains (chunk (eles (dq_mem que)) p) (buf_range b)"
    and r: "range_ok b" and env: "env_ok env que" and low: "fcall (f_enq g) (\<lambda>enq. enq (dq_q que) b) = Inr (err, l)"
  shows "if err_is_fail err then enqueue_from env g que i p b = Inr (err, que\<lparr>dq_q := l\<rparr>)
    else \<exists>que'. enqueue_from env g que i p b = Inr (CLEANQ_ERR_OK, que') \<and> taken que css i b l que'"
proof (cases "err_is_fail err")
  case True
  then show ?thesis using low by (simp add: enqueue_from_def)
next
  case False
  let ?E = "eles (dq_mem que)"
  have len: "i < length nss" using i n(2) by simp
  have ok: "list_ok (dq_mem que) (ml_buffers (dq_regions que ! i)) (xs @ p # ys)" using n(1) len i(2) by (auto simp: dbg_nodes_def)
  have csi: "css ! i = map (chunk ?E) xs @ chunk ?E p # map (chunk ?E) ys" using n(2) i(2) len by simp
  have "chunks_ok (css ! i)" using v i(1) nth_mem [of i css] unfolding dbg_view_def by blast
  then have o: "ordered (map (chunk ?E) xs @ chunk ?E p # map (chunk ?E) ys)" "\<forall>c\<in>set (css ! i). fst c + snd c < 2 ^ 64"
    by (simp_all add: chunks_ok_def csi [symmetric])
  have b: "0 < unat (b_length b)" "0 < snd (buf_range b)" using r by (simp_all add: range_ok_def buf_range_def word_less_nat_alt)
  define cs where "cs = map (chunk ?E) xs @ cut (chunk ?E p) (buf_range b) @ map (chunk ?E) ys"
  obtain head m where rs: "remove_split_buffer (dq_mem que) (ml_buffers (dq_regions que ! i)) p (b_offset b) (b_length b) (ele_mem env) = Inr (head, m)"
    "becomes (dq_mem que) (xs @ p # ys) cs head m"
    using remove_split_buffer_spec [OF ok, of "ele_mem env" "b_offset b" "b_length b"] env c b o(2)
    by (auto simp: env_ok_def buf_range_def csi cs_def)
  have ow: "owned cs = owned (css ! i) - bytes (buf_range b)" "ordered cs"
    using cut_owned [OF o(1) c b(2)] by (simp_all add: cs_def csi)
  have "chunks_ok cs" using ow(2) o(2) cut_in [OF c] by (fastforce simp: chunks_ok_def cs_def csi)
  from view_update [OF n(1) v [unfolded n(2)] len rs(2) [folded i(2)] this]
  have "dbg_view (set_buffers que i head m) (css[i := cs])" by (simp add: n(2))
  then have "taken que css i b l (set_buffers (que\<lparr>dq_q := l\<rparr>) i head m)"
    using ow(1) by (auto simp: taken_def set_buffers_def dbg_view_def dbg_nodes_def region_index_update)
  then show ?thesis using False low rs(1) by (simp add: enqueue_from_def)
qed

lemma debug_enqueue_refused:
  assumes v: "dbg_view que css" and i: "region_index (dq_regions que) (b_rid b) = Some i"
    and r: "range_ok b" and no: "\<forall>c\<in>set (css ! i). \<not> contains c (buf_range b)"
  shows "debug_enqueue env g que b =
    Inr (if css ! i = [] then CLEANQ_ERR_BUFFER_ALREADY_IN_USE else CLEANQ_ERR_INVALID_BUFFER_ARGS, que)"
    and "i < length css"
proof -
  have "length css = length (dq_regions que)" using v by (auto simp: dbg_view_def dbg_nodes_def)
  then show len: "i < length css" using region_index_bound [OF i] by simp
  obtain nss where ok: "list_ok (dq_mem que) (ml_buffers (dq_regions que ! i)) (nss ! i)"
    "css ! i = map (chunk (eles (dq_mem que))) (nss ! i)" "\<forall>c\<in>set (css ! i). fst c + snd c < 2 ^ 64"
    using dbg_viewE [OF v len] by metis
  have d: "dls (eles (dq_mem que)) 0 (nss ! i) 0" "0 \<notin> set (nss ! i)" "ml_buffers (dq_regions que ! i) = first (nss ! i) 0"
    using ok(1) by (simp_all add: list_ok_def)
  have fr: "find_region que (b_rid b) = (SYS_ERR_OK, i)" using i by (simp add: find_region_def)
  have rr: "unat (b_offset b) + unat (b_length b) < 2 ^ 64" "0 < b_length b" using r by (simp_all add: range_ok_def)
  have "find_chunk (dq_mem que) (b_offset b) (b_length b) (first (nss ! i) 0) = Some (Inr 0)"
    using find_chunk_spec [OF rr(1) d(1,2) ok(3) [unfolded ok(2)]] no ok(2) by (auto simp: buf_range_def)
  moreover have "\<not> buffer_in_bounds (b_offset b) (b_length b) (me_offset e) (me_length e)"
    if "nss ! i = x # ns" "eles (dq_mem que) x = Some e" for x ns e
  proof -
    have "chunk (eles (dq_mem que)) x = (unat (me_offset e), unat (me_length e))" using that(2) by (simp add: chunk_def)
    then show ?thesis using in_bounds_contains [OF rr(1), of "me_offset e" "me_length e"] ok(2,3) no that(1)
      by (auto simp: buf_range_def)
  qed
  ultimately show "debug_enqueue env g que b =
      Inr (if css ! i = [] then CLEANQ_ERR_BUFFER_ALREADY_IN_USE else CLEANQ_ERR_INVALID_BUFFER_ARGS, que)"
    using fr rr(2) d ok(2) by (cases "nss ! i") (auto simp: debug_enqueue_def err_is_fail_def Let_def rd_def)
qed

lemma debug_enqueue_accepted:
  assumes v: "dbg_view que css" and i: "region_index (dq_regions que) (b_rid b) = Some i"
    and r: "range_ok b" and yes: "\<exists>c\<in>set (css ! i). contains c (buf_range b)" and env: "env_ok env que"
    and low: "fcall (f_enq g) (\<lambda>enq. enq (dq_q que) b) = Inr (err, l)"
  shows "if err_is_fail err then debug_enqueue env g que b = Inr (err, que\<lparr>dq_q := l\<rparr>)
    else \<exists>que'. debug_enqueue env g que b = Inr (CLEANQ_ERR_OK, que') \<and> taken que css i b l que'"
proof -
  have "length css = length (dq_regions que)" using v by (auto simp: dbg_view_def dbg_nodes_def)
  then have len: "i < length css" using region_index_bound [OF i] by simp
  obtain nss where n: "dbg_nodes que nss" "css = map (map (chunk (eles (dq_mem que)))) nss"
    and ok: "list_ok (dq_mem que) (ml_buffers (dq_regions que ! i)) (nss ! i)"
    "css ! i = map (chunk (eles (dq_mem que))) (nss ! i)" "\<forall>c\<in>set (css ! i). fst c + snd c < 2 ^ 64"
    using dbg_viewE [OF v len] by metis
  have d: "dls (eles (dq_mem que)) 0 (nss ! i) 0" "0 \<notin> set (nss ! i)" "ml_buffers (dq_regions que ! i) = first (nss ! i) 0"
    using ok(1) by (simp_all add: list_ok_def)
  have rr: "unat (b_offset b) + unat (b_length b) < 2 ^ 64" "0 < b_length b" using r by (simp_all add: range_ok_def)
  obtain xs p ys where f: "nss ! i = xs @ p # ys"
    "find_chunk (dq_mem que) (b_offset b) (b_length b) (first (nss ! i) 0) = Some (Inr p)"
    "contains (chunk (eles (dq_mem que)) p) (buf_range b)"
    using find_chunk_spec [OF rr(1) d(1,2) ok(3) [unfolded ok(2)]] yes ok(2) by (auto simp: buf_range_def)
  obtain x ns where xn: "nss ! i = x # ns" using f(1) by (metis append_is_Nil_conv neq_Nil_conv)
  then obtain e where x: "nss ! i = x # ns" "eles (dq_mem que) x = Some e" "me_next e = first ns 0" "x \<noteq> 0"
    using d(1,2) by auto
  have "p \<noteq> 0" using f(1) d(2) by auto
  have only: "xs = []" "p = x" if "ns = []" using that x(1) f(1) by (simp_all add: append_eq_Cons_conv)
  have ib: "buffer_in_bounds (b_offset b) (b_length b) (me_offset e) (me_length e)" if "ns = []"
    using in_bounds_contains [OF rr(1), of "me_offset e" "me_length e"] only [OF that] f(3) x(1,2) ok(2,3)
    by (simp add: chunk_def buf_range_def)
  have "debug_enqueue env g que b = enqueue_from env g que i p b"
    using i rr(2) d(3) x f(2) ib only \<open>p \<noteq> 0\<close> d(2) first_zero [of ns]
    by (auto simp: debug_enqueue_def find_region_def err_is_fail_def Let_def rd_def)
  then show ?thesis using enqueue_from_spec [OF v n len f(1,3) r env low] by simp
qed

section \<open>Dequeueing\<close>

lemma chunks_ok_owned: "chunks_ok cs \<longleftrightarrow> ordered cs \<and> owned cs \<subseteq> {..<2 ^ 64 - 1}"
proof
  assume a: "ordered cs \<and> owned cs \<subseteq> {..<2 ^ 64 - 1}"
  have "fst c + snd c < 2 ^ 64" if "c \<in> set cs" for c
  proof -
    have "0 < snd c" using a that by (simp add: ordered_def)
    then have "fst c + snd c - 1 \<in> owned cs" using that by (auto simp: owned_def bytes_def intro!: bexI [of _ c])
    then show ?thesis using a by force
  qed
  then show "chunks_ok cs" using a by (simp add: chunks_ok_def)
qed (fastforce simp: chunks_ok_def owned_def bytes_def)

text \<open>The last chunk does not start exactly one buffer length before the buffer unless it is as long as
  the buffer: then the wrong test of the lower boundary does no harm. This holds when all buffers of a
  region have the same size.\<close>

definition lower_test_right :: "(nat \<times> nat) list \<Rightarrow> nat \<times> nat \<Rightarrow> bool" where
  "lower_test_right cs n \<longleftrightarrow> (cs \<noteq> [] \<longrightarrow> fst (last cs) + snd n = fst n \<longrightarrow> snd (last cs) = snd n)"

lemma join_last_owned:
  assumes "ordered (ps @ [c])" "0 < snd n" "fst c + snd c \<le> fst n"
    and cs: "cs = ps @ (if fst c + snd c = fst n then [(fst c, snd c + snd n)] else [c, n])"
  shows "ordered cs" "owned cs = owned (ps @ [c]) \<union> bytes n"
proof -
  have below: "fst d + snd d \<le> fst c" if "d \<in> set ps" for d using assms(1) that by auto
  then have "fst d + snd d \<le> fst n" if "d \<in> set ps" for d using that assms(3) by (meson le_add1 le_trans)
  then show "ordered cs" using assms below by auto
  show "owned cs = owned (ps @ [c]) \<union> bytes n" using assms(2,3) by (auto simp: cs bytes_def)
qed

lemma insert_merge_last:
  assumes ok: "list_ok m head (xs @ [p])" and env: "malloc_ok (ele_alloc m) mret" "mret \<noteq> 0"
    and o: "ordered (map (chunk (eles m)) (xs @ [p]))" and n: "0 < unat len" "unat off + unat len < 2 ^ 64"
    and after: "fst (chunk (eles m) p) + snd (chunk (eles m) p) \<le> unat off"
    and t: "lower_test_right (map (chunk (eles m)) (xs @ [p])) (unat off, unat len)"
  shows "\<exists>head' m' cs. insert_merge_buffer m head p off len mret = Inr (head', m') \<and> becomes m (xs @ [p]) cs head' m' \<and>
    ordered cs \<and> owned cs = owned (map (chunk (eles m)) (xs @ [p])) \<union> bytes (unat off, unat len)"
proof -
  obtain e where e: "eles m p = Some e" "p \<noteq> 0" using ok by (auto simp: list_ok_def)
  have c: "chunk (eles m) p = (unat (me_offset e), unat (me_length e))" using e by (simp add: chunk_def)
  have u: "unat (me_offset e + me_length e) = unat (me_offset e) + unat (me_length e)"
    using after c unat_u64_bound [of off] by (intro unat_add_less) simp
  have "me_length e = len" if "unat (me_offset e) + unat len = unat off"
    using t that c by (simp add: lower_test_right_def word_unat_eq_iff)
  from insert_last_spec [OF ok e(1) env, of off len, OF _ n(2) this] obtain head' m' where
    i: "insert_after m head p e off len mret = Inr (head', m')"
    "becomes m (xs @ [p]) (map (chunk (eles m)) xs @
      (if unat (me_offset e) + unat (me_length e) = unat off then [(unat (me_offset e), unat (me_length e) + unat len)]
       else [chunk (eles m) p, (unat off, unat len)])) head' m'"
    using after c by auto
  have "insert_merge_buffer m head p off len mret = Inr (head', m')"
    using i(1) e after c u by (simp add: insert_merge_buffer_def rd_def word_le_nat_alt)
  moreover define cs where "cs = map (chunk (eles m)) xs @
      (if fst (chunk (eles m) p) + snd (chunk (eles m) p) = fst (unat off, unat len)
       then [(fst (chunk (eles m) p), snd (chunk (eles m) p) + snd (unat off, unat len))] else [chunk (eles m) p, (unat off, unat len)])"
  have "ordered (map (chunk (eles m)) xs @ [chunk (eles m) p])" using o by simp
  from join_last_owned [OF this _ _ cs_def] have
    "ordered cs" "owned cs = owned (map (chunk (eles m)) (xs @ [p])) \<union> bytes (unat off, unat len)"
    using n(1) after by simp_all
  moreover have "becomes m (xs @ [p]) cs head' m'" using i(2) c by (auto simp: cs_def split: if_splits)
  ultimately show ?thesis by blast
qed

lemma insert_merge_inside:
  assumes ok: "list_ok m head (xs @ p # ys)" and env: "malloc_ok (ele_alloc m) mret" "mret \<noteq> 0"
    and o: "ordered (map (chunk (eles m)) (xs @ p # ys))" "fst (chunk (eles m) p) + snd (chunk (eles m) p) < 2 ^ 64"
    and n: "0 < unat len" "unat off + unat len \<le> fst (chunk (eles m) p)"
    and prev: "xs \<noteq> [] \<Longrightarrow> fst (chunk (eles m) (last xs)) + snd (chunk (eles m) (last xs)) \<le> unat off"
  shows "\<exists>head' m' cs. insert_merge_buffer m head p off len mret = Inr (head', m') \<and> becomes m (xs @ p # ys) cs head' m' \<and>
    ordered cs \<and> owned cs = owned (map (chunk (eles m)) (xs @ p # ys)) \<union> bytes (unat off, unat len)"
proof -
  obtain e where e: "eles m p = Some e" "p \<noteq> 0" using ok by (auto simp: list_ok_def)
  have c: "chunk (eles m) p = (unat (me_offset e), unat (me_length e))" using e by (simp add: chunk_def)
  have "unat (me_offset e + me_length e) = unat (me_offset e) + unat (me_length e)" using o(2) c by (simp add: unat_add_less)
  then have "\<not> me_offset e + me_length e \<le> off" using n c by (simp add: word_le_nat_alt)
  moreover have b: "unat off + unat len \<le> unat (me_offset e)" "unat (me_offset e) + unat (me_length e) < 2 ^ 64"
    using n(2) o(2) c by simp_all
  obtain head' m' where
    i: "insert_before m head p e off len mret = Inr (head', m')"
    "becomes m (xs @ p # ys) (join_before (map (chunk (eles m)) xs) (unat off, unat len) (chunk (eles m) p) @ map (chunk (eles m)) ys) head' m'"
    using insert_before_spec [OF ok e(1) env n(1) b prev] by blast
  ultimately have "insert_merge_buffer m head p off len mret = Inr (head', m')"
    using e by (simp add: insert_merge_buffer_def rd_def)
  moreover have "ordered (map (chunk (eles m)) xs @ chunk (eles m) p # map (chunk (eles m)) ys)" using o(1) by simp
  from join_before_owned [OF this, of "(unat off, unat len)"] have
    "ordered (join_before (map (chunk (eles m)) xs) (unat off, unat len) (chunk (eles m) p) @ map (chunk (eles m)) ys)"
    "owned (join_before (map (chunk (eles m)) xs) (unat off, unat len) (chunk (eles m) p) @ map (chunk (eles m)) ys) =
      owned (map (chunk (eles m)) (xs @ p # ys)) \<union> bytes (unat off, unat len)"
    using n prev by (simp_all add: last_map)
  ultimately show ?thesis using i(2) by blast
qed

lemma dbg_view_region:
  assumes "dbg_view que css" "ml_buffers r = ml_buffers (dq_regions que ! i)"
  shows "dbg_view (que\<lparr>dq_regions := (dq_regions que)[i := r]\<rparr>) css"
  using assms by (auto simp: dbg_view_def dbg_nodes_def nth_list_update)
    (metis (no_types, lifting) nth_list_update_eq nth_list_update_neq list_update_beyond not_less)

text \<open>What putting the buffer \<open>b\<close> back into region \<open>i\<close> has done.\<close>

definition given_back :: "'s debug_q \<Rightarrow> (nat \<times> nat) list list \<Rightarrow> nat \<Rightarrow> cleanq_buf \<Rightarrow> 's debug_q \<Rightarrow> bool" where
  "given_back que css i b que' \<longleftrightarrow>
     (\<exists>cs. dbg_view que' (css[i := cs]) \<and> owned cs = owned (css ! i) \<union> bytes (buf_range b)) \<and> dq_q que' = dq_q que \<and>
     (\<forall>rid. region_index (dq_regions que') rid = region_index (dq_regions que) rid)"

lemma given_back_update:
  assumes v: "dbg_view que css" and n: "dbg_nodes que nss" "css = map (map (chunk (eles (dq_mem que)))) nss" and i: "i < length css"
    and r: "range_ok b" and bc: "becomes (dq_mem que) (nss ! i) cs head m" "ordered cs" "owned cs = owned (css ! i) \<union> bytes (buf_range b)"
  shows "given_back que css i b (set_buffers que i head m)"
proof -
  have len: "i < length nss" using i n(2) by simp
  have "chunks_ok (css ! i)" using v i nth_mem [of i css] unfolding dbg_view_def by blast
  then have "chunks_ok cs" using bc(2,3) r by (auto simp: chunks_ok_owned range_ok_def buf_range_def bytes_def)
  from view_update [OF n(1) v [unfolded n(2)] len bc(1) this] have "dbg_view (set_buffers que i head m) (css[i := cs])"
    by (simp add: n(2))
  then show ?thesis using bc(3) by (auto simp: given_back_def set_buffers_def region_index_update)
qed

text \<open>The place found for a buffer none of whose bytes is owned: it fits in front of that chunk, or
  behind it if it is the last.\<close>

lemma place_fits:
  assumes o: "ordered (ps @ c # ds)" and n: "0 < snd n" "bytes n \<inter> owned (ps @ c # ds) = {}"
    and before: "\<forall>d\<in>set ps. fst d \<le> fst n" and stop: "fst n < fst c \<or> ds = []"
  shows "fst n + snd n \<le> fst c \<and> (ps \<noteq> [] \<longrightarrow> fst (last ps) + snd (last ps) \<le> fst n) \<or>
    ds = [] \<and> fst c + snd c \<le> fst n"
proof -
  have apart: "fst n + snd n \<le> fst d \<or> fst d + snd d \<le> fst n" if d: "d \<in> set (ps @ c # ds)" for d
  proof -
    have "bytes n \<inter> bytes d = {}" using n(2) d by (auto simp: owned_def)
    moreover have "0 < snd d" using o d by (auto simp: ordered_def)
    ultimately show ?thesis using n(1) by (auto simp: bytes_def)
  qed
  have "fst (last ps) + snd (last ps) \<le> fst n" if "ps \<noteq> []"
  proof -
    have l: "last ps \<in> set ps" using that by simp
    then have "fst (last ps) \<le> fst n" using before by blast
    then show ?thesis using apart [of "last ps"] l n(1) by auto
  qed
  then show ?thesis using apart [of c] stop n(1) by auto
qed

lemma place_not_owned:
  assumes "ordered (ps @ c # ds)" "0 < snd n" "bytes n \<inter> owned (ps @ c # ds) = {}"
  shows "\<not> contains c n"
proof
  assume "contains c n"
  then have "fst n \<in> bytes n \<inter> owned (ps @ c # ds)" using assms(2) by (auto simp: contains_def bytes_def)
  then show False using assms(3) by blast
qed

lemma insert_at_place:
  assumes v: "dbg_view que css" and i: "i < length css" and r: "range_ok b" and env: "env_ok env que"
    and ne: "ml_buffers (dq_regions que ! i) \<noteq> 0" and d: "bytes (buf_range b) \<inter> owned (css ! i) = {}"
    and t: "lower_test_right (css ! i) (buf_range b)"
  shows "\<exists>p e head m. run_loop (find_place (dq_mem que) (b_offset b) (ml_buffers (dq_regions que ! i))) = Inr p \<and>
    rd (dq_mem que) p = Inr e \<and> \<not> buffer_in_bounds (b_offset b) (b_length b) (me_offset e) (me_length e) \<and>
    insert_merge_buffer (dq_mem que) (ml_buffers (dq_regions que ! i)) p (b_offset b) (b_length b) (ele_mem env) = Inr (head, m) \<and>
    given_back que css i b (set_buffers que i head m)"
proof -
  let ?m = "dq_mem que" and ?off = "b_offset b" and ?len = "b_length b"
  obtain nss where n: "dbg_nodes que nss" "css = map (map (chunk (eles ?m))) nss"
    and ok: "list_ok ?m (ml_buffers (dq_regions que ! i)) (nss ! i)" "css ! i = map (chunk (eles ?m)) (nss ! i)"
    "ordered (css ! i)" "\<forall>c\<in>set (css ! i). fst c + snd c < 2 ^ 64"
    using dbg_viewE [OF v i] by metis
  have l: "dls (eles ?m) 0 (nss ! i) 0" "0 \<notin> set (nss ! i)" "nss ! i \<noteq> []" "ml_buffers (dq_regions que ! i) = first (nss ! i) 0"
    using ok(1) ne by (auto simp: list_ok_def)
  obtain xs p ys where p: "nss ! i = xs @ p # ys" "find_place ?m ?off (first (nss ! i) 0) = Some (Inr p)"
    "\<forall>x\<in>set xs. fst (chunk (eles ?m) x) \<le> unat ?off" "unat ?off < fst (chunk (eles ?m) p) \<or> ys = []"
    using find_place_spec [OF l(1-3), of ?off] by blast
  obtain e where e: "eles ?m p = Some e" using l(1) p(1) by auto
  let ?C = "map (chunk (eles ?m))"
  have o: "ordered (?C xs @ chunk (eles ?m) p # ?C ys)" "fst (chunk (eles ?m) p) + snd (chunk (eles ?m) p) < 2 ^ 64"
    using ok p(1) by simp_all
  have b: "0 < unat ?len" "0 < snd (buf_range b)" "unat ?off + unat ?len < 2 ^ 64"
    using r by (simp_all add: range_ok_def buf_range_def word_less_nat_alt)
  have d': "bytes (buf_range b) \<inter> owned (?C xs @ chunk (eles ?m) p # ?C ys) = {}" using d ok(2) p(1) by simp
  have nb: "\<not> buffer_in_bounds ?off ?len (me_offset e) (me_length e)"
    using in_bounds_contains [OF b(3), of "me_offset e" "me_length e"] place_not_owned [OF o(1) b(2) d'] o(2) e
    by (simp add: chunk_def buf_range_def)
  have mem: "malloc_ok (ele_alloc ?m) (ele_mem env)" "ele_mem env \<noteq> 0" using env by (simp_all add: env_ok_def)
  note fits = place_fits [OF o(1) b(2) d', unfolded buf_range_def fst_conv snd_conv]
  have "\<exists>head m cs. insert_merge_buffer ?m (ml_buffers (dq_regions que ! i)) p ?off ?len (ele_mem env) = Inr (head, m) \<and>
      becomes ?m (xs @ p # ys) cs head m \<and> ordered cs \<and> owned cs = owned (?C (xs @ p # ys)) \<union> bytes (unat ?off, unat ?len)"
  proof (cases "unat ?off + unat ?len \<le> fst (chunk (eles ?m) p) \<and>
      (xs \<noteq> [] \<longrightarrow> fst (chunk (eles ?m) (last xs)) + snd (chunk (eles ?m) (last xs)) \<le> unat ?off)")
    case True
    then show ?thesis using insert_merge_inside [OF ok(1) [unfolded p(1)] mem _ o(2) b(1), of ?off] o(1) by simp
  next
    case False
    then have "ys = []" "fst (chunk (eles ?m) p) + snd (chunk (eles ?m) p) \<le> unat ?off"
      using fits p(3,4) by (auto simp: last_map)
    then show ?thesis using insert_merge_last [OF _ mem _ b(1,3), of _ xs p] ok(1) o(1) p(1) t ok(2)
      by (simp add: buf_range_def)
  qed
  then obtain head m cs where im: "insert_merge_buffer ?m (ml_buffers (dq_regions que ! i)) p ?off ?len (ele_mem env) = Inr (head, m)"
    "becomes ?m (nss ! i) cs head m" "ordered cs" "owned cs = owned (css ! i) \<union> bytes (buf_range b)"
    using p(1) ok(2) by (auto simp: buf_range_def)
  from given_back_update [OF v n i r im(2-4)] show ?thesis
    using im(1) nb p(2) l(4) e by (auto simp: rd_def)
qed

lemma dequeue_into_spec:
  assumes v: "dbg_view que css" and i: "i < length css" and r: "range_ok b" and env: "env_ok env que"
    and d: "bytes (buf_range b) \<inter> owned (css ! i) = {}" and t: "lower_test_right (css ! i) (buf_range b)"
  shows "\<exists>que'. dequeue_into env que i b = Inr (CLEANQ_ERR_OK, que') \<and> given_back que css i b que'"
proof (cases "ml_buffers (dq_regions que ! i) = 0")
  case False
  from insert_at_place [OF v i r env False d t] show ?thesis using False by (auto simp: dequeue_into_def Let_def)
next
  case True
  let ?m = "dq_mem que" and ?e = "\<lparr>me_offset = b_offset b, me_length = b_length b, me_next = 0, me_prev = 0\<rparr>"
  obtain nss where n: "dbg_nodes que nss" "css = map (map (chunk (eles ?m))) nss"
    and ok: "list_ok ?m (ml_buffers (dq_regions que ! i)) (nss ! i)" "css ! i = map (chunk (eles ?m)) (nss ! i)"
    using dbg_viewE [OF v i] by metis
  have nil: "nss ! i = []" using ok(1) True first_zero [of "nss ! i"] by (auto simp: list_ok_def)
  have wf: "slab_wf (ele_alloc ?m)" "refill_func (ele_alloc ?m) = Default_Refill" using ok(1) by (auto simp: list_ok_def)
  have mem: "malloc_ok (ele_alloc ?m) (ele_mem env)" "ele_mem env \<noteq> 0" using env by (simp_all add: env_ok_def)
  obtain c a where new: "slab_alloc (ele_alloc ?m) (ele_mem env) = Inr (c, a)" "c \<noteq> 0" "c \<notin> live (ele_alloc ?m)"
    "\<forall>e. ele_new ?m (ele_mem env) e = Inr (c, ?m\<lparr>ele_alloc := a, eles := (eles ?m)(c \<mapsto> e)\<rparr>)"
    by (rule ele_new_spec [OF wf mem])
  have "list_ok ?m 0 ([] @ [])" using ok(1) nil True by simp
  from becomes_link [OF this new(1,2) mem(1), of ?e]
  have bc: "becomes ?m (nss ! i) [buf_range b] c (?m\<lparr>ele_alloc := a, eles := (eles ?m)(c \<mapsto> ?e)\<rparr>)"
    by (simp add: nil buf_range_def)
  have "ordered [buf_range b]" "owned [buf_range b] = owned (css ! i) \<union> bytes (buf_range b)"
    using r ok(2) nil by (simp_all add: range_ok_def buf_range_def word_less_nat_alt)
  from given_back_update [OF v n i r bc this] show ?thesis using True new(4) by (simp add: dequeue_into_def Let_def)
qed

lemma extend_region_view:
  assumes "dbg_view que css"
  shows "dbg_view (extend_region que i b) css" "dq_mem (extend_region que i b) = dq_mem que"
    "dq_q (extend_region que i b) = dq_q que"
    "region_index (dq_regions (extend_region que i b)) rid = region_index (dq_regions que) rid"
  using dbg_view_region [OF assms, of "(dq_regions que ! i)\<lparr>ml_length := b_offset b + b_length b\<rparr>" i] assms
  by (simp_all add: extend_region_def Let_def region_index_update)

lemma debug_dequeue_known:
  assumes low: "f_deq g = Some deq" "deq (dq_q que) b0 = Inr (CLEANQ_ERR_OK, b, l)"
    and i: "region_index (dq_regions que) (b_rid b) = Some i"
  shows "debug_dequeue env g que b0 =
    bindc (dequeue_into env (extend_region (que\<lparr>dq_q := l\<rparr>) i b) i b) (\<lambda>(err, que'). Inr (err, b, que'))"
  using assms by (simp add: debug_dequeue_def find_region_def err_is_fail_def Let_def)

section \<open>Between two enqueues\<close>

text \<open>When the queue below faults, the debugging queue has not accepted anything.\<close>

lemma enqueue_lower_fault:
  assumes "fcall (f_enq g) (\<lambda>enq. enq (dq_q que) b) = Inl f" "debug_enqueue env g que b = Inr (err, que')"
  shows "err_is_fail err" "que' = que"
proof -
  have no: "enqueue_from env g que i p b = Inl f" for i p using assms(1) by (simp add: enqueue_from_def)
  show "err_is_fail err" "que' = que" using assms(2)
    by (auto simp: debug_enqueue_def find_region_def no bindc_eq_Inr Let_def err_is_fail_def split: if_splits option.splits)
qed

text \<open>No operation between \<open>que\<close> and \<open>que'\<close> has changed the regions or given back a byte of \<open>ns\<close> in region \<open>i\<close>.\<close>

definition keeps_out :: "nat \<Rightarrow> nat set \<Rightarrow> 's debug_q \<Rightarrow> (nat \<times> nat) list list \<Rightarrow> 's debug_q \<Rightarrow> bool" where
  "keeps_out i ns que css que' \<longleftrightarrow>
     (\<exists>css'. dbg_view que' css' \<and> owned (css' ! i) \<inter> ns \<subseteq> owned (css ! i)) \<and>
     (\<forall>rid. region_index (dq_regions que') rid = region_index (dq_regions que) rid)"

lemma view_length: "dbg_view que css \<Longrightarrow> region_index (dq_regions que) rid = Some i \<Longrightarrow> i < length css"
  using region_index_bound [of "dq_regions que" rid i] by (auto simp: dbg_view_def dbg_nodes_def)

lemma keeps_out_lower: "dbg_view que css \<Longrightarrow> keeps_out i ns que css (que\<lparr>dq_q := l\<rparr>)"
  unfolding keeps_out_def by (intro conjI exI [of _ css]) auto

lemma keeps_out_same: "dbg_view que css \<Longrightarrow> keeps_out i ns que css que"
  unfolding keeps_out_def by (intro conjI exI [of _ css]) auto

lemma enqueue_keeps_out:
  assumes v: "dbg_view que css" and r: "range_ok b" and env: "env_ok env que"
    and e: "debug_enqueue env g que b = Inr (err, que')"
  shows "keeps_out i ns que css que'"
proof (cases "region_index (dq_regions que) (b_rid b)")
  case None
  then have "que' = que" using e r
    by (simp add: debug_enqueue_def find_region_def range_ok_def err_is_fail_def)
  then show ?thesis using keeps_out_same [OF v] by simp
next
  case (Some j)
  show ?thesis
  proof (cases "\<exists>c\<in>set (css ! j). contains c (buf_range b)")
    case False
    then have "que' = que" using debug_enqueue_refused(1) [OF v Some r, of env g] e by auto
    then show ?thesis using keeps_out_same [OF v] by simp
  next
    case yes: True
    show ?thesis
    proof (cases "fcall (f_enq g) (\<lambda>enq. enq (dq_q que) b)")
      case (Inl f)
      then show ?thesis using enqueue_lower_fault(2) [OF _ e] keeps_out_same [OF v] by simp
    next
      case (Inr x)
      obtain err' l where x: "x = (err', l)" by force
      note a = debug_enqueue_accepted [OF v Some r yes env Inr [unfolded x]]
      show ?thesis
      proof (cases "err_is_fail err'")
        case True
        then show ?thesis using a e keeps_out_lower [OF v] by simp
      next
        case False
        then have "taken que css j b l que'" using a e by auto
        then obtain cs where "dbg_view que' (css[j := cs])" "owned cs \<subseteq> owned (css ! j)"
          "\<forall>rid. region_index (dq_regions que') rid = region_index (dq_regions que) rid"
          by (auto simp: taken_def)
        then show ?thesis using view_length [OF v Some] unfolding keeps_out_def
          by (intro conjI exI [of _ "css[j := cs]"]) (auto simp: nth_list_update)
      qed
    qed
  qed
qed

text \<open>A dequeue that the queue keeps the books of: the queue below fails, or it delivers a buffer of a known region
  none of whose bytes the client owns, for which the test of the lower boundary does no harm.\<close>

definition dequeue_tracked :: "'s cleanq_func_pointer \<Rightarrow> 's debug_q \<Rightarrow> cleanq_buf \<Rightarrow> cleanq_buf \<Rightarrow> bool" where
  "dequeue_tracked g que b0 x \<longleftrightarrow>
     (\<exists>deq err l. f_deq g = Some deq \<and> deq (dq_q que) b0 = Inr (err, x, l) \<and>
        (err_is_fail err \<or> range_ok x \<and>
         (\<exists>i. region_index (dq_regions que) (b_rid x) = Some i \<and>
           (\<forall>css. dbg_view que css \<longrightarrow> bytes (buf_range x) \<inter> owned (css ! i) = {} \<and> lower_test_right (css ! i) (buf_range x)))))"

lemma dequeue_keeps_out:
  assumes v: "dbg_view que css" and env: "env_ok env que" and t: "dequeue_tracked g que b0 x"
    and e: "debug_dequeue env g que b0 = Inr (err, x', que')"
    and i: "region_index (dq_regions que) rid = Some i" and d: "b_rid x = rid \<Longrightarrow> bytes (buf_range x) \<inter> ns = {}"
  shows "keeps_out i ns que css que'"
proof -
  obtain deq err' l where low: "f_deq g = Some deq" "deq (dq_q que) b0 = Inr (err', x, l)"
    and cases: "err_is_fail err' \<or> range_ok x \<and>
         (\<exists>i. region_index (dq_regions que) (b_rid x) = Some i \<and>
           (\<forall>css. dbg_view que css \<longrightarrow> bytes (buf_range x) \<inter> owned (css ! i) = {} \<and> lower_test_right (css ! i) (buf_range x)))"
    using t by (auto simp: dequeue_tracked_def)
  show ?thesis
  proof (cases "err_is_fail err'")
    case True
    then have "que' = que\<lparr>dq_q := l\<rparr>" using e low by (simp add: debug_dequeue_def Let_def)
    then show ?thesis using keeps_out_lower [OF v] by simp
  next
    case False
    then obtain j where r: "range_ok x" and j: "region_index (dq_regions que) (b_rid x) = Some j"
      and o: "bytes (buf_range x) \<inter> owned (css ! j) = {}" "lower_test_right (css ! j) (buf_range x)" using cases v by blast
    have ok: "err' = CLEANQ_ERR_OK" using False by (simp add: err_is_fail_def)
    let ?q = "extend_region (que\<lparr>dq_q := l\<rparr>) j x"
    have v1: "dbg_view (que\<lparr>dq_q := l\<rparr>) css" using v by simp
    note ex = extend_region_view [OF v1, of j x]
    have "env_ok env ?q" using env ex(2) by (simp add: env_ok_def)
    from dequeue_into_spec [OF ex(1) view_length [OF v j] r this o] obtain q' where
      q': "dequeue_into env ?q j x = Inr (CLEANQ_ERR_OK, q')" "given_back ?q css j x q'" by blast
    have "que' = q'" using e debug_dequeue_known [OF low(1) low(2) [unfolded ok] j, of env] q'(1) by simp
    then obtain cs where "dbg_view que' (css[j := cs])" "owned cs = owned (css ! j) \<union> bytes (buf_range x)"
      "\<forall>rid. region_index (dq_regions que') rid = region_index (dq_regions que) rid"
      using q'(2) ex(4) by (auto simp: given_back_def)
    moreover have "b_rid x = rid" if "j = i" using region_index_bound [OF j] region_index_bound [OF i] that by simp
    ultimately show ?thesis using view_length [OF v j] d unfolding keeps_out_def
      by (intro conjI exI [of _ "css[j := cs]"]) (auto simp: nth_list_update)
  qed
qed

text \<open>Any number of calls between the enqueue of a buffer \<open>b\<close> and its return: enqueues of buffers that do not wrap
  around, accepted or not, dequeues that deliver nothing or other bytes of the region of \<open>b\<close>, notifications and
  control calls.\<close>

inductive dbg_calls :: "'s cleanq_func_pointer \<Rightarrow> cleanq_buf \<Rightarrow> 's debug_q \<Rightarrow> 's debug_q \<Rightarrow> bool"
  for g :: "'s cleanq_func_pointer" and b :: cleanq_buf and q0 :: "'s debug_q" where
  start: "dbg_calls g b q0 q0"
| enqueue: "dbg_calls g b q0 q \<Longrightarrow> range_ok x \<Longrightarrow> env_ok env q \<Longrightarrow> debug_enqueue env g q x = Inr (err, q') \<Longrightarrow> dbg_calls g b q0 q'"
| dequeue: "dbg_calls g b q0 q \<Longrightarrow> env_ok env q \<Longrightarrow> dequeue_tracked g q b0 x \<Longrightarrow>
    (b_rid x = b_rid b \<Longrightarrow> bytes (buf_range x) \<inter> bytes (buf_range b) = {}) \<Longrightarrow>
    debug_dequeue env g q b0 = Inr (err, x', q') \<Longrightarrow> dbg_calls g b q0 q'"
| control: "dbg_calls g b q0 q \<Longrightarrow> debug_control g q cmd v r = Inr (err, r', q') \<Longrightarrow> dbg_calls g b q0 q'"
| notify: "dbg_calls g b q0 q \<Longrightarrow> debug_notify g q = Inr (err, q') \<Longrightarrow> dbg_calls g b q0 q'"

lemma dbg_calls_keep_out:
  assumes "dbg_calls g b q0 q" "region_index (dq_regions q0) (b_rid b) = Some i"
    and "dbg_view q0 css0" "bytes (buf_range b) \<inter> owned (css0 ! i) = {}"
  shows "\<exists>css. dbg_view q css \<and> region_index (dq_regions q) (b_rid b) = Some i \<and> bytes (buf_range b) \<inter> owned (css ! i) = {}"
  using assms(1)
proof (induction rule: dbg_calls.induct)
  case start
  then show ?case using assms(2-4) by blast
next
  case (enqueue q x env err q')
  then obtain css where c: "dbg_view q css" "region_index (dq_regions q) (b_rid b) = Some i" "bytes (buf_range b) \<inter> owned (css ! i) = {}" by blast
  from enqueue_keeps_out [OF c(1) enqueue.hyps(2-4), of i "bytes (buf_range b)"] show ?case
    using c(2,3) by (fastforce simp: keeps_out_def)
next
  case (dequeue q env b0 x err x' q')
  then obtain css where c: "dbg_view q css" "region_index (dq_regions q) (b_rid b) = Some i" "bytes (buf_range b) \<inter> owned (css ! i) = {}" by blast
  from dequeue_keeps_out [OF c(1) dequeue.hyps(2,3,5) c(2) dequeue.hyps(4)] show ?case
    using c(2,3) by (fastforce simp: keeps_out_def)
next
  case (control q cmd v r err r' q')
  then show ?case by (auto simp: debug_control_def bindc_eq_Inr)
next
  case (notify q err q')
  then show ?case by (auto simp: debug_notify_def bindc_eq_Inr)
qed

section \<open>A queue over a loopback queue\<close>

lemma fresh_memory_exists:
  assumes "slab_wf s"
  obtains buf where "malloc_ok s buf" "buf \<noteq> 0"
proof -
  obtain as where as: "set as = dom (slab_heads s)" using assms by (auto simp: slab_wf_def slab_inv_def)
  define U where "U = (\<Union>a\<in>dom (slab_heads s). slab_range (blocksize s) a (the (slab_heads s a)))"
  have "finite U" unfolding U_def as [symmetric] by (simp add: slab_range_def)
  then obtain k where k: "\<forall>x\<in>U. x < k" by (meson finite_nat_set_iff_bounded)
  have "slab_range (blocksize s) a h \<inter> {Suc k ..< Suc k + PAGE_SIZE} = {}" if "slab_heads s a = Some h" for a h
  proof -
    have "slab_range (blocksize s) a h \<subseteq> U" using that by (force simp: U_def)
    then show ?thesis using k by fastforce
  qed
  then have "fresh_memory s (Suc k) PAGE_SIZE" by (simp add: fresh_memory_def)
  then show thesis using that [of "Suc k"] by (simp add: malloc_ok_def)
qed

section \<open>Properties\<close>

text \<open>Property C6: the debugging queue decides enqueueing by what the client owns, in a state whose lists match a
  list of ordered, disjoint chunks per region, for a buffer of a known region whose range does not wrap around, and with an
  allocator that delivers. A buffer that lies in one owned chunk is passed to the queue below; when that accepts it, exactly its
  bytes stop being owned, and when it refuses, its error is returned. Any other buffer is refused and
  nothing changes. (The test of the code is done in 64 bits, so a buffer that wraps around may pass it:
  \<open>buffer_in_bounds_wraps\<close>.)\<close>

theorem debug_enqueue_checks_ownership:
  assumes "dbg_view que css" "region_index (dq_regions que) (b_rid b) = Some i" "range_ok b" "env_ok env que"
    and "fcall (f_enq g) (\<lambda>enq. enq (dq_q que) b) = Inr (err, l)"
  shows "if \<exists>c\<in>set (css ! i). contains c (buf_range b)
    then (if err_is_fail err then debug_enqueue env g que b = Inr (err, que\<lparr>dq_q := l\<rparr>)
          else \<exists>que' cs. debug_enqueue env g que b = Inr (CLEANQ_ERR_OK, que') \<and> dq_q que' = l \<and>
                 dbg_view que' (css[i := cs]) \<and> owned cs = owned (css ! i) - bytes (buf_range b))
    else debug_enqueue env g que b =
      Inr (if css ! i = [] then CLEANQ_ERR_BUFFER_ALREADY_IN_USE else CLEANQ_ERR_INVALID_BUFFER_ARGS, que)"
proof (cases "\<exists>c\<in>set (css ! i). contains c (buf_range b)")
  case True
  from debug_enqueue_accepted [OF assms(1-3) this assms(4,5)] show ?thesis
    using True by (cases "err_is_fail err") (simp_all add: taken_def, blast)
next
  case False
  then show ?thesis using debug_enqueue_refused(1) [OF assms(1-3), of env g] by auto
qed

text \<open>The last byte of the address space and the first lie in any chunk that starts at 0 and is long enough, as the test sees it.\<close>

theorem buffer_in_bounds_wraps: "buffer_in_bounds 0xffffffffffffffff 2 0 0x4000"
  by (simp add: buffer_in_bounds_def)

text \<open>A region of 16 KiB with a chunk that is the whole region.\<close>

definition demo_dbgq :: "addr \<Rightarrow> slab_allocator \<Rightarrow> loopback_queue debug_q" where
  "demo_dbgq p a =
     \<lparr>cq_pool = demo_pool, cq_state = 0, dq_q = demo_lq,
      dq_regions = [\<lparr>ml_addr = 4096, ml_rid = 7, ml_length = 0x4000, not_consistent = False, ml_buffers = p\<rparr>],
      dq_mem = \<lparr>eles = [p \<mapsto> \<lparr>me_offset = 0, me_length = 0x4000, me_next = 0, me_prev = 0\<rparr>], ele_alloc = a\<rparr>,
      alloc_list = slab_init sizeof_memory_list Default_Refill\<rparr>"

lemma demo_dbgq_view:
  obtains p a env where "dbg_view (demo_dbgq p a) [[(0, 0x4000)]]" "env_ok env (demo_dbgq p a)"
    "region_index (dq_regions (demo_dbgq p a)) 7 = Some 0"
proof -
  let ?s = "slab_init sizeof_memory_ele Default_Refill"
  have wf: "slab_wf ?s"
    by (rule slab_wf_init) (simp add: sizeof_memory_ele_def sizeof_slab_head_def PAGE_SIZE_def)
  obtain m where m: "malloc_ok ?s m" "m \<noteq> 0" by (rule fresh_memory_exists [OF wf])
  obtain p a where a: "slab_alloc ?s m = Inr (p, a)" "slab_wf a" "p \<noteq> 0" "live a = insert p (live ?s)"
    using slab_alloc_spec [OF wf m(1)] m(2) by (auto simp: slab_init_def)
  obtain m' where m': "malloc_ok a m'" "m' \<noteq> 0" by (rule fresh_memory_exists [OF a(2)])
  have rf: "refill_func a = Default_Refill" using slab_alloc_refill_func [OF a(1)] by (simp add: slab_init_def)
  have "dbg_nodes (demo_dbgq p a) [[p]]"
    using a rf by (simp add: dbg_nodes_def demo_dbgq_def list_ok_def)
  then have "dbg_view (demo_dbgq p a) [[(0, 0x4000)]]" unfolding dbg_view_def
    by (intro conjI exI [of _ "[[p]]"]) (simp_all add: chunk_def demo_dbgq_def chunks_ok_def)
  moreover have "env_ok \<lparr>list_mem = 0, ele_mem = m'\<rparr> (demo_dbgq p a)"
    using m' by (simp add: env_ok_def demo_dbgq_def)
  moreover have "region_index (dq_regions (demo_dbgq p a)) 7 = Some 0" by (simp add: demo_dbgq_def)
  ultimately show thesis using that by blast
qed

lemma demo_dbgq_lower:
  obtains l where "fcall (f_enq loopback_f) (\<lambda>enq. enq (dq_q (demo_dbgq p a)) b) = Inr (CLEANQ_ERR_OK, l)"
  by (simp add: loopback_f_def loopback_enqueue_def demo_dbgq_def demo_lq_def LOOPBACK_QUEUE_SIZE_def)

lemma demo_buf_range: "range_ok (demo_buf 7)" "contains (0, 0x4000) (buf_range (demo_buf 7))" "b_rid (demo_buf 7) = 7"
  by (simp_all add: range_ok_def demo_buf_def contains_def buf_range_def)

theorem debug_enqueue_checks_ownership_witness:
  "\<exists>p a env que' cs. dbg_view (demo_dbgq p a) [[(0, 0x4000)]] \<and>
     debug_enqueue env loopback_f (demo_dbgq p a) (demo_buf 7) = Inr (CLEANQ_ERR_OK, que') \<and>
     dbg_view que' [cs] \<and> owned cs = {0..<2048} \<union> {4096..<0x4000}"
proof -
  obtain p a env where d: "dbg_view (demo_dbgq p a) [[(0, 0x4000)]]" "env_ok env (demo_dbgq p a)"
    "region_index (dq_regions (demo_dbgq p a)) (b_rid (demo_buf 7)) = Some 0"
    by (rule demo_dbgq_view) (simp add: demo_buf_range)
  obtain l where l: "fcall (f_enq loopback_f) (\<lambda>enq. enq (dq_q (demo_dbgq p a)) (demo_buf 7)) = Inr (CLEANQ_ERR_OK, l)"
    by (rule demo_dbgq_lower)
  have "owned [(0, 0x4000)] - bytes (buf_range (demo_buf 7)) = {0..<2048} \<union> {4096..<0x4000}"
    by (auto simp: bytes_def buf_range_def demo_buf_def)
  then show ?thesis
    using debug_enqueue_checks_ownership [OF d(1,3) demo_buf_range(1) d(2) l] demo_buf_range(2) d(1)
    by (fastforce simp: err_is_fail_def)
qed

text \<open>Property C37: a double enqueue is caught. After a buffer of a known region, whose range does not wrap around, has
  been enqueued, and until it is dequeued, enqueueing a buffer that shares a byte with it fails, whatever the
  queue below would say, and changes nothing. In between there may be any number of calls (\<open>dbg_calls\<close>): enqueues of buffers that do
  not wrap around, notifications, control calls, and dequeues, as long as each delivers nothing or a buffer of a known region whose
  bytes were out, which shares no byte with the first buffer, and which does not hit the wrong test of the lower boundary
  (then \<open>debug_dequeue_claims_foreign_bytes\<close> applies). The allocator delivers.\<close>

theorem debug_catches_double_enqueue:
  assumes "dbg_view que css" "region_index (dq_regions que) (b_rid b) = Some i" "range_ok b" "env_ok env que"
    and e: "debug_enqueue env g que b = Inr (CLEANQ_ERR_OK, que1)"
    and run: "dbg_calls g b que1 que2"
    and x: "range_ok x" "b_rid x = b_rid b" "bytes (buf_range x) \<inter> bytes (buf_range b) \<noteq> {}"
  shows "\<exists>err. debug_enqueue env' g' que2 x = Inr (err, que2) \<and> err_is_fail err"
proof -
  have yes: "\<exists>c\<in>set (css ! i). contains c (buf_range b)"
  proof (rule ccontr)
    assume "\<not> ?thesis"
    then show False using debug_enqueue_refused(1) [OF assms(1-3), of env g] e by (auto split: if_splits)
  qed
  obtain err l where low: "fcall (f_enq g) (\<lambda>enq. enq (dq_q que) b) = Inr (err, l)"
    using enqueue_lower_fault(1) [OF _ e] by (cases "fcall (f_enq g) (\<lambda>enq. enq (dq_q que) b)") (auto simp: err_is_fail_def)
  have "taken que css i b l que1"
    using debug_enqueue_accepted [OF assms(1-3) yes assms(4) low] e by (auto split: if_splits simp: err_is_fail_def)
  then obtain cs where t: "dbg_view que1 (css[i := cs])" "owned cs = owned (css ! i) - bytes (buf_range b)"
    "region_index (dq_regions que1) (b_rid b) = Some i"
    using assms(2) by (auto simp: taken_def)
  have "bytes (buf_range b) \<inter> owned (css[i := cs] ! i) = {}" using t(2) view_length [OF assms(1,2)] by auto
  from dbg_calls_keep_out [OF run t(3,1) this] obtain css2 where
    v: "dbg_view que2 css2" "region_index (dq_regions que2) (b_rid x) = Some i" "bytes (buf_range b) \<inter> owned (css2 ! i) = {}"
    using x(2) by auto
  have "\<not> contains c (buf_range x)" if "c \<in> set (css2 ! i)" for c
  proof
    assume "contains c (buf_range x)"
    then have "bytes (buf_range x) \<subseteq> bytes c" by (auto simp: contains_def bytes_def)
    also have "\<dots> \<subseteq> owned (css2 ! i)" using that by (auto simp: owned_def)
    finally show False using v(3) x(3) by blast
  qed
  then show ?thesis using debug_enqueue_refused(1) [OF v(1,2) x(1), of env' g'] by (auto simp: err_is_fail_def)
qed

text \<open>Some answer of the allocator lets an enqueue of a buffer return.\<close>

lemma view_env:
  assumes "dbg_view que css" "region_index (dq_regions que) rid = Some i"
  obtains env where "env_ok env que"
proof -
  have "slab_wf (ele_alloc (dq_mem que))" using dbg_viewE [OF assms(1) view_length [OF assms]] by (auto simp: list_ok_def)
  then obtain m where "malloc_ok (ele_alloc (dq_mem que)) m" "m \<noteq> 0" by (rule fresh_memory_exists)
  then show thesis using that [of "\<lparr>list_mem = 0, ele_mem = m\<rparr>"] by (simp add: env_ok_def)
qed

lemma debug_enqueue_returns:
  assumes "dbg_view que css" "region_index (dq_regions que) (b_rid b) = Some i" "range_ok b" "env_ok env que"
    and low: "fcall (f_enq g) (\<lambda>enq. enq (dq_q que) b) = Inr (err, l)"
  shows "\<exists>err que'. debug_enqueue env g que b = Inr (err, que')"
  using debug_enqueue_refused(1) [OF assms(1-3), of env g] debug_enqueue_accepted [OF assms(1-3) _ assms(4) low]
  by (cases "\<exists>c\<in>set (css ! i). contains c (buf_range b)"; cases "err_is_fail err") auto

theorem debug_catches_double_enqueue_witness:
  "\<exists>p a env que1 env1 err1 que2 err. debug_enqueue env loopback_f (demo_dbgq p a) (demo_buf 7) = Inr (CLEANQ_ERR_OK, que1) \<and>
     debug_enqueue env1 loopback_f que1 ((demo_buf 7)\<lparr>b_offset := 0x2000\<rparr>) = Inr (err1, que2) \<and>
     debug_enqueue env loopback_f que2 ((demo_buf 7)\<lparr>b_offset := 0\<rparr>\<lparr>b_length := 2049\<rparr>) = Inr (err, que2) \<and> err_is_fail err"
proof -
  let ?x = "(demo_buf 7)\<lparr>b_offset := 0x2000\<rparr>" and ?y = "(demo_buf 7)\<lparr>b_offset := 0\<rparr>\<lparr>b_length := 2049\<rparr>"
  obtain p a env where d: "dbg_view (demo_dbgq p a) [[(0, 0x4000)]]" "env_ok env (demo_dbgq p a)"
    "region_index (dq_regions (demo_dbgq p a)) (b_rid (demo_buf 7)) = Some 0"
    by (rule demo_dbgq_view) (simp add: demo_buf_range)
  obtain l where l: "fcall (f_enq loopback_f) (\<lambda>enq. enq (dq_q (demo_dbgq p a)) (demo_buf 7)) = Inr (CLEANQ_ERR_OK, l)"
    "fcall (f_enq loopback_f) (\<lambda>enq. enq l ?x) = Inr (CLEANQ_ERR_OK, snd (projr (loopback_enqueue l ?x)))"
    by (simp add: loopback_f_def loopback_enqueue_def demo_dbgq_def demo_lq_def LOOPBACK_QUEUE_SIZE_def)
  obtain que1 where q: "debug_enqueue env loopback_f (demo_dbgq p a) (demo_buf 7) = Inr (CLEANQ_ERR_OK, que1)"
    and "taken (demo_dbgq p a) [[(0, 0x4000)]] 0 (demo_buf 7) l que1"
    using debug_enqueue_accepted [OF d(1,3) demo_buf_range(1) _ d(2) l(1)] demo_buf_range(2) by (auto simp: err_is_fail_def)
  then obtain cs where t: "dbg_view que1 ([[(0, 0x4000)]][0 := cs])" "region_index (dq_regions que1) (b_rid ?x) = Some 0" "dq_q que1 = l"
    using d(3) by (auto simp: taken_def demo_buf_def)
  obtain env1 where e1: "env_ok env1 que1" by (rule view_env [OF t(1,2)])
  have x: "range_ok ?x" "range_ok ?y" "b_rid ?y = b_rid (demo_buf 7)" by (simp_all add: range_ok_def demo_buf_def)
  have "2048 \<in> bytes (buf_range ?y) \<inter> bytes (buf_range (demo_buf 7))" by (simp add: bytes_def buf_range_def demo_buf_def)
  then have y: "bytes (buf_range ?y) \<inter> bytes (buf_range (demo_buf 7)) \<noteq> {}" by blast
  obtain err1 que2 where q2: "debug_enqueue env1 loopback_f que1 ?x = Inr (err1, que2)"
    using debug_enqueue_returns [OF t(1,2) x(1) e1] l(2) t(3) by blast
  have "dbg_calls loopback_f (demo_buf 7) que1 que2" by (rule dbg_calls.enqueue [OF dbg_calls.start x(1) e1 q2])
  from debug_catches_double_enqueue [OF d(1,3) demo_buf_range(1) d(2) q this x(2,3) y] q q2 show ?thesis by blast
qed

text \<open>Dequeueing gives the bytes back. When the queue below delivers a buffer none of whose
  bytes the client owns, dequeueing succeeds, delivers that buffer and makes exactly its bytes owned,
  provided the last chunk does not start one buffer length before the buffer without being as long as
  the buffer (which the next property is about).\<close>

theorem debug_dequeue_gives_back:
  assumes v: "dbg_view que css" and low: "f_deq g = Some deq" "deq (dq_q que) b0 = Inr (CLEANQ_ERR_OK, b, l)"
    and i: "region_index (dq_regions que) (b_rid b) = Some i" and r: "range_ok b" and env: "env_ok env que"
    and d: "bytes (buf_range b) \<inter> owned (css ! i) = {}" and t: "lower_test_right (css ! i) (buf_range b)"
  shows "\<exists>que' cs. debug_dequeue env g que b0 = Inr (CLEANQ_ERR_OK, b, que') \<and> dq_q que' = l \<and>
    dbg_view que' (css[i := cs]) \<and> owned cs = owned (css ! i) \<union> bytes (buf_range b)"
proof -
  have len: "i < length css" using v region_index_bound [OF i] by (auto simp: dbg_view_def dbg_nodes_def)
  let ?q = "extend_region (que\<lparr>dq_q := l\<rparr>) i b"
  have v1: "dbg_view (que\<lparr>dq_q := l\<rparr>) css" using v by simp
  note x = extend_region_view [OF v1, of i b]
  have "env_ok env ?q" using env x(2) by (simp add: env_ok_def)
  from dequeue_into_spec [OF x(1) len r this d t] obtain que' where
    q: "dequeue_into env ?q i b = Inr (CLEANQ_ERR_OK, que')" "given_back ?q css i b que'" by blast
  moreover have "dq_q que' = l" using q(2) x(3) by (simp add: given_back_def)
  ultimately show ?thesis using debug_dequeue_known [OF low i] by (auto simp: given_back_def)
qed

text \<open>A loopback queue with the buffer in it, and what is left of the region.\<close>

definition demo_full_lq :: loopback_queue where
  "demo_full_lq = demo_lq\<lparr>lq_queue := (lq_queue demo_lq)[0 := demo_buf 7], lq_head := 1, num_ele := 1\<rparr>"

definition demo_dbgq_out :: "u64 \<Rightarrow> addr \<Rightarrow> slab_allocator \<Rightarrow> loopback_queue debug_q" where
  "demo_dbgq_out o1 p a = (demo_dbgq p a)\<lparr>dq_q := demo_full_lq,
     dq_mem := \<lparr>eles = [p \<mapsto> \<lparr>me_offset = o1, me_length = 512, me_next = 0, me_prev = 0\<rparr>], ele_alloc = a\<rparr>\<rparr>"

lemma demo_dbgq_out_view:
  assumes "o1 < 1024"
  obtains p a env where "dbg_view (demo_dbgq_out o1 p a) [[(unat o1, 512)]]" "env_ok env (demo_dbgq_out o1 p a)"
    "region_index (dq_regions (demo_dbgq_out o1 p a)) 7 = Some 0"
proof -
  obtain p a env where d: "dbg_view (demo_dbgq p a) [[(0, 0x4000)]]" "env_ok env (demo_dbgq p a)" by (rule demo_dbgq_view)
  then obtain nss where n: "dbg_nodes (demo_dbgq p a) nss" "[[(0, 0x4000)]] = map (map (chunk (eles (dq_mem (demo_dbgq p a))))) nss"
    by (auto simp: dbg_view_def)
  then obtain y where y: "nss = [[y]]" by auto
  have "list_ok (dq_mem (demo_dbgq p a)) p [y]" using n(1) y by (auto simp: dbg_nodes_def demo_dbgq_def)
  then have "dbg_nodes (demo_dbgq_out o1 p a) [[p]]" by (auto simp: dbg_nodes_def demo_dbgq_out_def demo_dbgq_def list_ok_def)
  moreover have "unat o1 < 1024" using assms by (simp add: word_less_nat_alt)
  ultimately have "dbg_view (demo_dbgq_out o1 p a) [[(unat o1, 512)]]" unfolding dbg_view_def
    by (intro conjI exI [of _ "[[p]]"]) (simp_all add: chunk_def demo_dbgq_out_def chunks_ok_def)
  moreover have "env_ok env (demo_dbgq_out o1 p a)" using d(2) by (simp add: env_ok_def demo_dbgq_out_def demo_dbgq_def)
  moreover have "region_index (dq_regions (demo_dbgq_out o1 p a)) 7 = Some 0" by (simp add: demo_dbgq_out_def demo_dbgq_def)
  ultimately show thesis using that by blast
qed

lemma demo_full_lq_deq: "\<exists>l. loopback_dequeue demo_full_lq b0 = Inr (CLEANQ_ERR_OK, demo_buf 7, l)"
  by (simp add: loopback_dequeue_def demo_full_lq_def demo_lq_def LOOPBACK_QUEUE_SIZE_def)

theorem debug_dequeue_gives_back_witness:
  "\<exists>p a env que' cs. debug_dequeue env loopback_f (demo_dbgq_out 512 p a) empty_buf = Inr (CLEANQ_ERR_OK, demo_buf 7, que') \<and>
     dbg_view que' [cs] \<and> owned cs = {512..<1024} \<union> {2048..<4096}"
proof -
  obtain p a env where d: "dbg_view (demo_dbgq_out 512 p a) [[(512, 512)]]" "env_ok env (demo_dbgq_out 512 p a)"
    "region_index (dq_regions (demo_dbgq_out 512 p a)) (b_rid (demo_buf 7)) = Some 0"
    by (rule demo_dbgq_out_view [of 512]) (simp_all add: demo_buf_range)
  obtain l where "loopback_dequeue demo_full_lq empty_buf = Inr (CLEANQ_ERR_OK, demo_buf 7, l)" using demo_full_lq_deq by blast
  then have low: "f_deq loopback_f = Some loopback_dequeue"
    "loopback_dequeue (dq_q (demo_dbgq_out 512 p a)) empty_buf = Inr (CLEANQ_ERR_OK, demo_buf 7, l)"
    by (simp_all add: loopback_f_def demo_dbgq_out_def)
  have b: "bytes (buf_range (demo_buf 7)) = {2048..<4096}" "owned [(512, 512)] = {512..<1024}"
    by (auto simp: bytes_def buf_range_def demo_buf_def)
  have "bytes (buf_range (demo_buf 7)) \<inter> owned ([[(512, 512)]] ! 0) = {}" unfolding b(1) using b(2) by auto
  moreover have "lower_test_right ([[(512, 512)]] ! 0) (buf_range (demo_buf 7))"
    by (simp add: lower_test_right_def buf_range_def demo_buf_def)
  ultimately show ?thesis
    using debug_dequeue_gives_back [OF d(1) low d(3) demo_buf_range(1) d(2)] b by fastforce
qed

text \<open>A list of one chunk that starts one buffer length before the buffer and is shorter: it is extended.\<close>

lemma insert_merge_wrong:
  assumes ok: "list_ok m p [p]" and e: "eles m p = Some e"
    and b: "unat (me_offset e) + unat len = unat off" "unat (me_length e) < unat len" "unat off + unat len < 2 ^ 64"
  obtains m' where "find_place m off p = Some (Inr p)" "\<not> buffer_in_bounds off len (me_offset e) (me_length e)"
    "insert_merge_buffer m p p off len mret = Inr (p, m')"
    "becomes m [p] [(unat (me_offset e), unat (me_length e) + unat len)] p m'"
proof -
  have l: "me_next e = 0" "p \<noteq> 0" using ok e by (auto simp: list_ok_def)
  have "unat (me_offset e + len) = unat off" using b by (subst unat_add_less) linarith+
  then have eq: "me_offset e + len = off" by (simp add: word_unat_eq_iff)
  have "unat (me_offset e + me_length e) = unat (me_offset e) + unat (me_length e)" using b by (intro unat_add_less) linarith
  then have le: "me_offset e + me_length e \<le> off" using b(1,2) by (simp add: word_le_nat_alt)
  have u: "unat (me_length e + len) = unat (me_length e) + unat len" using b by (intro unat_add_less) linarith
  let ?e = "e\<lparr>me_length := me_length e + len\<rparr>"
  have "find_place m off p = Some (Inr p)" using e l by (subst find_place.simps) simp
  moreover have "\<not> buffer_in_bounds off len (me_offset e) (me_length e)" using b(2) by (simp add: buffer_in_bounds_def word_le_nat_alt)
  moreover have "insert_merge_buffer m p p off len mret = Inr (p, m\<lparr>eles := (eles m)(p \<mapsto> ?e)\<rparr>)"
    using e l eq le by (simp add: insert_merge_buffer_def insert_after_def rd_def wr_def)
  moreover have "becomes m [p] [(unat (me_offset e), unat (me_length e) + unat len)] p (m\<lparr>eles := (eles m)(p \<mapsto> ?e)\<rparr>)"
    using becomes_modify [of m p "[]" p "[]" e ?e] ok e u by simp
  ultimately show thesis by (rule that)
qed

text \<open>The test of the lower boundary is wrong. When the only chunk of a region starts exactly
  one buffer length before a dequeued buffer but is shorter than the buffer, the chunk is extended
  although the two do not touch: the client then owns bytes it was never given.\<close>

theorem debug_dequeue_claims_foreign_bytes:
  assumes v: "dbg_view que css" and low: "f_deq g = Some deq" "deq (dq_q que) b0 = Inr (CLEANQ_ERR_OK, b, l)"
    and i: "region_index (dq_regions que) (b_rid b) = Some i" and r: "range_ok b"
    and c: "css ! i = [(co, cl)]" "co + unat (b_length b) = unat (b_offset b)" "cl < unat (b_length b)"
  shows "\<exists>que'. debug_dequeue env g que b0 = Inr (CLEANQ_ERR_OK, b, que') \<and>
    dbg_view que' (css[i := [(co, cl + unat (b_length b))]]) \<and>
    co + cl \<in> owned [(co, cl + unat (b_length b))] \<and> co + cl \<notin> owned (css ! i) \<union> bytes (buf_range b)"
proof -
  have len: "i < length css" using v region_index_bound [OF i] by (auto simp: dbg_view_def dbg_nodes_def)
  define q where "q = extend_region (que\<lparr>dq_q := l\<rparr>) i b"
  have v1: "dbg_view (que\<lparr>dq_q := l\<rparr>) css" using v by simp
  have vq: "dbg_view q css" unfolding q_def by (rule extend_region_view(1) [OF v1])
  obtain nss where n: "dbg_nodes q nss" "css = map (map (chunk (eles (dq_mem q)))) nss" "length nss = length css"
    and ok: "list_ok (dq_mem q) (ml_buffers (dq_regions q ! i)) (nss ! i)" "css ! i = map (chunk (eles (dq_mem q))) (nss ! i)"
    using dbg_viewE [OF vq len] by metis
  obtain p where p: "nss ! i = [p]" using ok(2) c(1) by auto
  then obtain e where e: "eles (dq_mem q) p = Some e" "p \<noteq> 0" "ml_buffers (dq_regions q ! i) = p" "list_ok (dq_mem q) p [p]"
    using ok(1) by (auto simp: list_ok_def)
  have ch: "co = unat (me_offset e)" "cl = unat (me_length e)" using ok(2) c(1) p e(1) by (simp_all add: chunk_def)
  have b: "unat (b_offset b) + unat (b_length b) < 2 ^ 64" using r by (simp add: range_ok_def)
  obtain m' where m': "find_place (dq_mem q) (b_offset b) p = Some (Inr p)"
    "\<not> buffer_in_bounds (b_offset b) (b_length b) (me_offset e) (me_length e)"
    "insert_merge_buffer (dq_mem q) p p (b_offset b) (b_length b) (ele_mem env) = Inr (p, m')"
    "becomes (dq_mem q) [p] [(co, cl + unat (b_length b))] p m'"
    using insert_merge_wrong [OF e(4,1) _ _ b] c(2,3) unfolding ch by metis
  have d: "dequeue_into env q i b = Inr (CLEANQ_ERR_OK, set_buffers q i p m')"
    using e(1-3) m'(1-3) by (simp add: dequeue_into_def Let_def rd_def)
  have "chunks_ok [(co, cl + unat (b_length b))]" using b c(2,3) by (simp add: chunks_ok_def)
  from view_update [OF n(1) vq [unfolded n(2)] _ m'(4) [folded p] this]
  have "dbg_view (set_buffers q i p m') (css[i := [(co, cl + unat (b_length b))]])" unfolding n(2) [symmetric] using n(3) len by simp
  moreover have "co + cl \<in> owned [(co, cl + unat (b_length b))]" "co + cl \<notin> owned (css ! i) \<union> bytes (buf_range b)"
    using c by (simp_all add: bytes_def buf_range_def)
  moreover have "debug_dequeue env g que b0 = Inr (CLEANQ_ERR_OK, b, set_buffers q i p m')"
    using debug_dequeue_known [OF low i, of env] d by (simp add: q_def)
  ultimately show ?thesis by blast
qed

theorem debug_dequeue_claims_foreign_bytes_witness:
  "\<exists>p a que'. debug_dequeue \<lparr>list_mem = 0, ele_mem = 0\<rparr> loopback_f (demo_dbgq_out 0 p a) empty_buf =
       Inr (CLEANQ_ERR_OK, demo_buf 7, que') \<and> dbg_view que' [[(0, 2560)]]"
proof -
  obtain p a env where d: "dbg_view (demo_dbgq_out 0 p a) [[(unat (0 :: u64), 512)]]" "env_ok env (demo_dbgq_out 0 p a)"
    "region_index (dq_regions (demo_dbgq_out 0 p a)) (b_rid (demo_buf 7)) = Some 0"
    by (rule demo_dbgq_out_view [of 0]) (simp_all add: demo_buf_range)
  obtain l where "loopback_dequeue demo_full_lq empty_buf = Inr (CLEANQ_ERR_OK, demo_buf 7, l)" using demo_full_lq_deq by blast
  then have low: "f_deq loopback_f = Some loopback_dequeue"
    "loopback_dequeue (dq_q (demo_dbgq_out 0 p a)) empty_buf = Inr (CLEANQ_ERR_OK, demo_buf 7, l)"
    by (simp_all add: loopback_f_def demo_dbgq_out_def)
  from debug_dequeue_claims_foreign_bytes [OF d(1) low d(3) demo_buf_range(1), of 0 512 "\<lparr>list_mem = 0, ele_mem = 0\<rparr>"]
  show ?thesis by (fastforce simp: demo_buf_def)
qed

text \<open>Deregistering a region all of whose memory is in use does not report that, as it should:
  it follows the pointer to the first chunk, which is NULL.\<close>

theorem debug_deregister_all_in_use:
  assumes "dbg_view que css" "region_index (dq_regions que) rid = Some i" "css ! i = []" "eles (dq_mem que) 0 = None"
  shows "debug_deregister g que rid = Inl Bad_Memory"
proof -
  have len: "i < length css" using assms(1) region_index_bound [OF assms(2)] by (auto simp: dbg_view_def dbg_nodes_def)
  obtain nss where "list_ok (dq_mem que) (ml_buffers (dq_regions que ! i)) (nss ! i)" "css ! i = map (chunk (eles (dq_mem que))) (nss ! i)"
    using dbg_viewE [OF assms(1) len] by metis
  then have "ml_buffers (dq_regions que ! i) = 0" using assms(3) by (simp add: list_ok_def)
  then show ?thesis using assms(2,4) by (simp add: debug_deregister_def Let_def rd_def)
qed

theorem debug_deregister_all_in_use_witness:
  "\<exists>a. debug_deregister loopback_f ((demo_dbgq 0 a)\<lparr>dq_mem := \<lparr>eles = Map.empty, ele_alloc = a\<rparr>\<rparr>) 7 = Inl Bad_Memory"
proof -
  let ?s = "slab_init sizeof_memory_ele Default_Refill"
  let ?q = "(demo_dbgq 0 ?s)\<lparr>dq_mem := \<lparr>eles = Map.empty, ele_alloc = ?s\<rparr>\<rparr>"
  have "slab_wf ?s" by (rule slab_wf_init) (simp add: sizeof_memory_ele_def sizeof_slab_head_def PAGE_SIZE_def)
  then have "dbg_nodes ?q [[]]" by (simp add: dbg_nodes_def list_ok_def demo_dbgq_def slab_init_def)
  then have "dbg_view ?q [[]]" by (auto simp: dbg_view_def chunks_ok_def)
  from debug_deregister_all_in_use [OF this, of 7 0 loopback_f] show ?thesis by (auto simp: demo_dbgq_def)
qed

end
