(* ===== verification/Ip_Queue.thy ===== *)
theory Ip_Queue
  imports Packet_Headers Loopback_Queue
begin

text \<open>
  The IP module, \<open>lib/libcleanq_udp/src/cleanq_module_ip.c\<close>: a queue on top of a receive queue and a
  transmit queue. Enqueueing a packet to send writes the Ethernet and IP headers into the packet
  and passes the buffer to the transmit queue; dequeueing takes a buffer from the receive queue or
  else from the transmit queue and gives received packets back to the receive queue when their
  checksum, sender or protocol is wrong.

  The two queues below are their states \<open>iq_rx\<close> and \<open>iq_tx\<close> with the tables of function pointers
  \<open>gr\<close> and \<open>gt\<close>. The memory the packets lie in is the component \<open>iq_mem\<close>. The benchmarking code
  (\<open>BENCH\<close>) and printing are not compiled in and left out, as is the member \<open>name\<close>, which nothing
  uses.

  Contents: the operations; what \<open>ip_enqueue\<close> writes; what \<open>ip_dequeue\<close> decides; that a packet sent
  by one queue is accepted by its peer, that a damaged header is not; that a dropped packet's buffer
  goes back to the receive queue.
\<close>

section \<open>State\<close>

record pkt_ip_headers =
  ph_eth :: eth_hdr
  ph_ip :: ip_hdr

record ('r, 't) ip_q = cleanq +
  iq_rx :: 'r
  iq_tx :: 't
  iq_header :: pkt_ip_headers
  iq_regions :: "region_vaddr list"
  iq_hdr_len :: u16
  iq_proto :: u8
  iq_pkt_id :: u64
  iq_mem :: pkt_mem

definition hdr_bytes :: "pkt_ip_headers \<Rightarrow> u8 list" where
  "hdr_bytes h = eth_bytes (ph_eth h) @ ip_bytes (ph_ip h)"

lemma length_hdr_bytes [simp]: "length (hdr_bytes h) = 34"
  by (simp add: hdr_bytes_def)

section \<open>Operations\<close>

definition ip_register ::
  "'t cleanq_func_pointer \<Rightarrow> ('r, 't) ip_q \<Rightarrow> capref \<Rightarrow> regionid \<Rightarrow> (errval \<times> ('r, 't) ip_q) cres" where
  "ip_register gt que cap rid =
     (let que1 = que\<lparr>iq_regions := (iq_regions que)[vaddr_slot rid := \<lparr>rv_va = cap_vaddr cap, rv_rid = rid\<rparr>]\<rparr> in
      bindc (fcall (f_reg gt) (\<lambda>reg. reg (iq_tx que1) cap rid)) (\<lambda>(err, t). Inr (err, que1\<lparr>iq_tx := t\<rparr>)))"

text \<open>\<open>cap0\<close> is the uninitialised capability \<open>cleanq_remove_region\<close> has on its stack.\<close>

definition ip_deregister ::
  "'t cleanq_func_pointer \<Rightarrow> capref \<Rightarrow> ('a cleanq_scheme, 't) ip_q \<Rightarrow> regionid \<Rightarrow>
   (errval \<times> ('a cleanq_scheme, 't) ip_q) cres" where
  "ip_deregister gt cap0 que rid =
     (let que1 = que\<lparr>iq_regions := (iq_regions que)[vaddr_slot rid := \<lparr>rv_va = 0, rv_rid = 0\<rparr>]\<rparr> in
      bindc (fcall (f_dereg gt) (\<lambda>dereg. dereg (iq_tx que1) rid)) (\<lambda>(err, t).
        let que2 = que1\<lparr>iq_tx := t\<rparr> in
        if err_is_fail err then Inr (err, que2)
        else bindc (cleanq_remove_region (iq_rx que2) rid cap0) (\<lambda>(err', r). Inr (err', que2\<lparr>iq_rx := r\<rparr>))))"

definition ip_control ::
  "'r cleanq_func_pointer \<Rightarrow> ('r, 't) ip_q \<Rightarrow> u64 \<Rightarrow> u64 \<Rightarrow> u64 \<Rightarrow> (errval \<times> u64 \<times> ('r, 't) ip_q) cres" where
  "ip_control gr que cmd value result =
     bindc (fcall (f_ctrl gr) (\<lambda>ctrl. ctrl (iq_rx que) cmd value result)) (\<lambda>(err, res, r). Inr (err, res, que\<lparr>iq_rx := r\<rparr>))"

definition ip_notify :: "'r cleanq_func_pointer \<Rightarrow> ('r, 't) ip_q \<Rightarrow> (errval \<times> ('r, 't) ip_q) cres" where
  "ip_notify gr que = bindc (fcall (f_notify gr) (\<lambda>notify. notify (iq_rx que))) (\<lambda>(err, r). Inr (err, que\<lparr>iq_rx := r\<rparr>))"

text \<open>The header of the next packet: length, identification and checksum are filled in.\<close>

definition next_header :: "pkt_ip_headers \<Rightarrow> u64 \<Rightarrow> u64 \<Rightarrow> pkt_ip_headers" where
  "next_header h valid_length pkt_id =
     (let ip1 = (ph_ip h)\<lparr>ip_len := htons (ucast (valid_length - ETH_HLEN)), ip_id := htons (ucast pkt_id), ip_chksum := 0\<rparr>
      in h\<lparr>ph_ip := ip1\<lparr>ip_chksum := rte_ipv4_cksum (ip_bytes ip1)\<rparr>\<rparr>)"

definition ip_enqueue ::
  "'r cleanq_func_pointer \<Rightarrow> 't cleanq_func_pointer \<Rightarrow> ('r, 't) ip_q \<Rightarrow> cleanq_buf \<Rightarrow> (errval \<times> ('r, 't) ip_q) cres" where
  "ip_enqueue gr gt que b =
     (if b_flags b AND NETIF_TXFLAG \<noteq> 0 then
        let que1 = que\<lparr>iq_pkt_id := iq_pkt_id que + 1,
                       iq_header := next_header (iq_header que) (b_valid_length b) (iq_pkt_id que + 1)\<rparr> in
        if \<not> rv_va (iq_regions que1 ! vaddr_slot (b_rid b)) \<noteq> 0 then Inl Assert_Failed
        else bindc (mem_write (iq_mem que1) (frame_addr (iq_regions que1) b) (hdr_bytes (iq_header que1))) (\<lambda>m.
             bindc (fcall (f_enq gt) (\<lambda>enq. enq (iq_tx que1) b)) (\<lambda>(err, t). Inr (err, que1\<lparr>iq_mem := m, iq_tx := t\<rparr>)))
      else if b_flags b AND NETIF_RXFLAG \<noteq> 0 then
        if \<not> b_valid_length b \<le> 2048 then Inl Assert_Failed
        else bindc (fcall (f_enq gr) (\<lambda>enq. enq (iq_rx que) b)) (\<lambda>(err, r). Inr (err, que\<lparr>iq_rx := r\<rparr>))
      else Inr (CLEANQ_ERR_UNKNOWN_FLAG, que))"

text \<open>A dropped packet goes back to the receive queue; whether that succeeds is ignored.\<close>

definition ip_drop ::
  "'r cleanq_func_pointer \<Rightarrow> ('r, 't) ip_q \<Rightarrow> cleanq_buf \<Rightarrow> errval \<Rightarrow> (errval \<times> cleanq_buf \<times> ('r, 't) ip_q) cres" where
  "ip_drop gr que b err =
     bindc (fcall (f_enq gr) (\<lambda>enq. enq (iq_rx que) (b\<lparr>b_flags := NETIF_RXFLAG\<rparr>))) (\<lambda>(_, r). Inr (err, b, que\<lparr>iq_rx := r\<rparr>))"

text \<open>The checks on a received packet. In the frame the IP header starts at byte 14, the protocol
  is byte 23, the checksum bytes 24 and 25, the sender bytes 26 to 29.\<close>

definition ip_check ::
  "'r cleanq_func_pointer \<Rightarrow> ('r, 't) ip_q \<Rightarrow> cleanq_buf \<Rightarrow> (errval \<times> cleanq_buf \<times> ('r, 't) ip_q) cres" where
  "ip_check gr que b =
     (let header = frame_addr (iq_regions que) b in
      bindc (mem_read (iq_mem que) (header + 24) 2) (\<lambda>chksum.
      bindc (mem_write (iq_mem que) (header + 24) [0, 0]) (\<lambda>m1.
      bindc (mem_read m1 (header + 14) 20) (\<lambda>ip.
      let computed = rte_ipv4_cksum ip in
      bindc (mem_write m1 (header + 24) (st16 computed)) (\<lambda>m2.
      let que1 = que\<lparr>iq_mem := m2\<rparr> in
      if computed \<noteq> rd16 chksum then ip_drop gr que1 b CLEANQ_ERR_IP_CHKSUM
      else bindc (mem_read m2 (header + 26) 4) (\<lambda>src.
      if rd32 src \<noteq> ip_dest (ph_ip (iq_header que1)) then ip_drop gr que1 b CLEANQ_ERR_IP_WRONG_IP
      else bindc (mem_read m2 (header + 23) 1) (\<lambda>proto.
      if proto ! 0 \<noteq> iq_proto que1 then ip_drop gr que1 b CLEANQ_ERR_IP_WRONG_PROTO
      else Inr (CLEANQ_ERR_OK, b, que1))))))))"

definition ip_dequeue ::
  "'r cleanq_func_pointer \<Rightarrow> 't cleanq_func_pointer \<Rightarrow> ('r, 't) ip_q \<Rightarrow> cleanq_buf \<Rightarrow>
   (errval \<times> cleanq_buf \<times> ('r, 't) ip_q) cres" where
  "ip_dequeue gr gt que b0 =
     bindc (fcall (f_deq gr) (\<lambda>deq. deq (iq_rx que) b0)) (\<lambda>(err, b, r).
     let que1 = que\<lparr>iq_rx := r\<rparr> in
     bindc (if err_is_fail err
            then bindc (fcall (f_deq gt) (\<lambda>deq. deq (iq_tx que1) b)) (\<lambda>(err', b', t).
                   Inr (err', if err_is_fail err' then b' else b'\<lparr>b_flags := b_flags b' OR NETIF_TXFLAG\<rparr>, que1\<lparr>iq_tx := t\<rparr>))
            else Inr (err, b\<lparr>b_flags := b_flags b OR NETIF_RXFLAG\<rparr>, que1)) (\<lambda>(err2, b2, que2).
     if err_is_fail err2 then Inr (err2, b2, que2)
     else if b_flags b2 AND NETIF_RXFLAG \<noteq> 0 then ip_check gr que2 b2
     else Inr (CLEANQ_ERR_OK, b2, que2)))"

definition ip_f ::
  "capref \<Rightarrow> 'a cleanq_scheme cleanq_func_pointer \<Rightarrow> 't cleanq_func_pointer \<Rightarrow> ('a cleanq_scheme, 't) ip_q cleanq_func_pointer" where
  "ip_f cap0 gr gt =
     \<lparr>f_reg = Some (ip_register gt), f_dereg = Some (ip_deregister gt cap0), f_ctrl = Some (ip_control gr),
      f_notify = Some (ip_notify gr), f_enq = Some (ip_enqueue gr gt), f_deq = Some (ip_dequeue gr gt), f_destroy = None\<rparr>"

text \<open>The header that is reused for every packet, with the protocol to be filled in.\<close>

definition init_header :: "eth_addr \<Rightarrow> eth_addr \<Rightarrow> u32 \<Rightarrow> u32 \<Rightarrow> u8 \<Rightarrow> pkt_ip_headers" where
  "init_header src_mac dst_mac src_ip dst_ip proto =
     \<lparr>ph_eth = \<lparr>eth_dest = dst_mac, eth_src = src_mac, eth_type = htons ETHTYPE_IP\<rparr>,
      ph_ip = \<lparr>ip_v_hl = 69, ip_tos = 0, ip_len = 0, ip_id = htons 3, ip_offset = htons IP_DF, ip_ttl = 0x40,
               ip_proto = proto, ip_chksum = 0, ip_src = src_ip, ip_dest = dst_ip\<rparr>\<rparr>"

definition ip_create ::
  "bool \<Rightarrow> bool \<Rightarrow> bool \<Rightarrow> u32 \<Rightarrow> pkt_mem \<Rightarrow> 'r \<Rightarrow> 't \<Rightarrow> u8 \<Rightarrow> u32 \<Rightarrow> u32 \<Rightarrow> eth_addr \<Rightarrow> eth_addr \<Rightarrow>
   (errval \<times> ('r, 't) ip_q option) cres" where
  "ip_create calloc0 calloc1 calloc2 rnd mem nic_rx nic_tx prot src_ip dst_ip src_mac dst_mac =
     (if \<not> calloc0 then Inl Assert_Failed
      else case cleanq_init calloc1 calloc2 rnd of
             (err, None) \<Rightarrow> Inr (err, None)
           | (err, Some p) \<Rightarrow>
               if err_is_fail err then Inr (err, None)
               else let que = \<lparr>cq_pool = p, cq_state = 0, iq_rx = nic_rx, iq_tx = nic_tx,
                      iq_header = init_header src_mac dst_mac src_ip dst_ip 0,
                      iq_regions = replicate MAX_NUM_REGIONS \<lparr>rv_va = 0, rv_rid = 0\<rparr>,
                      iq_hdr_len = 0, iq_proto = 0, iq_pkt_id = 3, iq_mem = mem\<rparr> in
                 if prot = UDP_PROT then
                   Inr (CLEANQ_ERR_OK, Some (que\<lparr>iq_hdr_len := 28, iq_proto := IP_PROTO_UDP,
                     iq_header := init_header src_mac dst_mac src_ip dst_ip IP_PROTO_UDP\<rparr>))
                 else if prot = TCP_PROT then Inr (CLEANQ_ERR_OK, Some que)
                 else Inr (CLEANQ_ERR_INIT_QUEUE, Some que))"

text \<open>\<open>free\<close> leaves nothing of the queue.\<close>

definition ip_destroy :: "('r, 't) ip_q \<Rightarrow> (errval \<times> ('r, 't) ip_q option) cres" where
  "ip_destroy que = Inr (CLEANQ_ERR_OK, None)"

section \<open>What the checks decide\<close>

text \<open>The IP header with its checksum field cleared, the checksum the code expects, and the verdict on the
  20 bytes of a header.\<close>

definition zeroed :: "u8 list \<Rightarrow> u8 list" where
  "zeroed h = take 10 h @ 0 # 0 # drop 12 h"

definition verdict :: "u8 list \<Rightarrow> u32 \<Rightarrow> u8 \<Rightarrow> errval" where
  "verdict h peer proto =
     (if rte_ipv4_cksum (zeroed h) \<noteq> rd16 (take 2 (drop 10 h)) then CLEANQ_ERR_IP_CHKSUM
      else if rd32 (take 4 (drop 12 h)) \<noteq> peer then CLEANQ_ERR_IP_WRONG_IP
      else if h ! 9 \<noteq> proto then CLEANQ_ERR_IP_WRONG_PROTO
      else CLEANQ_ERR_OK)"

text \<open>The IP header of a buffer.\<close>

definition ip_part :: "('r, 't) ip_q \<Rightarrow> cleanq_buf \<Rightarrow> u8 list" where
  "ip_part que b = bytes_at (iq_mem que) (frame_addr (iq_regions que) b + 14) 20"

lemma st16_rd16: "length bs = 2 \<Longrightarrow> st16 (rd16 bs) = bs"
proof -
  assume "length bs = 2"
  then obtain x y where bs: "bs = [x, y]" by (auto simp: numeral_2_eq_2 length_Suc_conv)
  obtain u v where uv: "st16 (ld16 x y) = [u, v]" by (simp add: st16_def)
  then have "ld16 u v = ld16 x y" by (simp add: st16_def) (metis ld16_st16)
  then have "u = x \<and> v = y" by (rule ld16_inj)
  then show ?thesis using uv by (simp add: bs rd16_def)
qed

lemma ip_check_spec:
  fixes que :: "('r, 't) ip_q" and b
  defines "a \<equiv> frame_addr (iq_regions que) b"
  defines "v \<equiv> verdict (ip_part que b) (ip_dest (ph_ip (iq_header que))) (iq_proto que)"
  assumes m: "mapped (iq_mem que) (a + 14) 20"
  shows "ip_check gr que b =
    (if v = CLEANQ_ERR_OK then Inr (CLEANQ_ERR_OK, b, que)
     else ip_drop gr (que\<lparr>iq_mem := put (iq_mem que) (a + 24) (st16 (rte_ipv4_cksum (zeroed (ip_part que b))))\<rparr>) b v)"
proof -
  let ?h = "ip_part que b" and ?m = "iq_mem que"
  let ?c = "rte_ipv4_cksum (zeroed ?h)"
  let ?m2 = "put ?m (a + 24) (st16 ?c)"
  have h: "bytes_at ?m (a + 14) 20 = ?h" by (simp add: ip_part_def a_def)
  have addr: "a + 24 = (a + 14) + of_nat 10" "a + 26 = (a + 14) + of_nat 12" "a + 23 = (a + 14) + of_nat 9"
    by (simp_all add: add.assoc)
  have mp: "mapped ?m (a + 24) 2" "mapped ?m (a + 26) 4" "mapped ?m (a + 23) 1"
    unfolding addr by (rule mapped_sub [OF m]; simp)+
  have b1: "bytes_at ?m (a + 24) 2 = take 2 (drop 10 ?h)"
    unfolding addr(1) h [symmetric] by (rule bytes_at_sub) simp
  have r1: "mem_read ?m (a + 24) 2 = Inr (take 2 (drop 10 ?h))"
    by (simp only: mem_read_mapped [OF mp(1)] b1)
  have w1: "mem_write ?m (a + 24) [0, 0] = Inr (put ?m (a + 24) [0, 0])"
    using mp(1) by (intro mem_write_mapped) (simp_all flip: numeral_2_eq_2)
  have "bytes_at (put ?m (a + 24) [0, 0]) (a + 14) 20 = zeroed ?h"
    unfolding addr(1) by (subst bytes_at_put_mid) (simp_all add: h zeroed_def)
  then have r2: "mem_read (put ?m (a + 24) [0, 0]) (a + 14) 20 = Inr (zeroed ?h)"
    by (simp add: mem_read_mapped [OF mapped_put [OF m]])
  have w2: "mem_write (put ?m (a + 24) [0, 0]) (a + 24) (st16 ?c) = Inr ?m2"
    using mapped_put [OF mp(1)] by (subst mem_write_mapped) (simp_all add: put_put_same)
  have f: "bytes_at ?m2 (a + 14) 20 = take 10 ?h @ st16 ?c @ drop 12 ?h"
    unfolding addr(1) by (subst bytes_at_put_mid) (simp_all add: h)
  have l: "length ?h = 20" by (simp add: ip_part_def)
  have "bytes_at ?m2 (a + 26) 4 = take 4 (drop 12 ?h)" "bytes_at ?m2 (a + 23) 1 = take 1 (drop 9 ?h)"
    unfolding addr(2,3) by (subst bytes_at_sub [where n = 20], simp, simp add: f l drop_take)+
  then have r3: "mem_read ?m2 (a + 26) 4 = Inr (take 4 (drop 12 ?h))" "mem_read ?m2 (a + 23) 1 = Inr (take 1 (drop 9 ?h))"
    using mp(2,3) by (simp_all only: mem_read_mapped mapped_put)
  have keep: "?m2 = ?m" if "?c = rd16 (take 2 (drop 10 ?h))"
  proof -
    have "st16 ?c = bytes_at ?m (a + 24) 2"
      unfolding that b1 using l by (intro st16_rd16) simp
    then show ?thesis using put_bytes_at [OF mp(1)] by simp
  qed
  have p: "take 1 (drop 9 ?h) ! 0 = ?h ! 9" using l by simp
  show ?thesis
    unfolding ip_check_def Let_def a_def [symmetric] r1 w1 r2 w2 r3 bindc_Inr p v_def verdict_def
    using keep by auto
qed

section \<open>The headers the queue writes\<close>

lemma ip_bytes_parts:
  "ip_bytes h = ([ip_v_hl h, ip_tos h] @ st16 (ip_len h) @ st16 (ip_id h) @ st16 (ip_offset h) @ [ip_ttl h, ip_proto h]) @
     ucast (ip_chksum h) # ucast (drop_bit 8 (ip_chksum h)) # st32 (ip_src h) @ st32 (ip_dest h)"
  by (simp add: ip_bytes_def st16_def)

lemma zeroed_ip_bytes: "zeroed (ip_bytes h) = ip_bytes (h\<lparr>ip_chksum := 0\<rparr>)"
  by (simp add: zeroed_def ip_bytes_def st16_def)

lemma ip_bytes_fields:
  "take 2 (drop 10 (ip_bytes h)) = st16 (ip_chksum h)" "take 4 (drop 12 (ip_bytes h)) = st32 (ip_src h)"
  "ip_bytes h ! 9 = ip_proto h"
  by (simp_all add: ip_bytes_def st16_def)

text \<open>A header whose checksum field is right.\<close>

definition sealed :: "ip_hdr \<Rightarrow> bool" where
  "sealed h \<longleftrightarrow> ip_chksum h = rte_ipv4_cksum (ip_bytes (h\<lparr>ip_chksum := 0\<rparr>))"

lemma sealed_next_header: "sealed (ph_ip (next_header h vl n))"
  by (simp add: sealed_def next_header_def Let_def)

lemma sealed_sum: "sealed h \<Longrightarrow> rte_raw_cksum (ip_bytes h) = 0xffff"
  using ip_bytes_parts [of "h\<lparr>ip_chksum := 0\<rparr>"] unfolding ip_bytes_parts [of h] sealed_def
  by (intro rte_ipv4_cksum_verifies) (simp_all add: st16_def)

lemma verdict_sealed:
  "sealed h \<Longrightarrow> verdict (ip_bytes h) peer proto =
     (if ip_src h \<noteq> peer then CLEANQ_ERR_IP_WRONG_IP
      else if ip_proto h \<noteq> proto then CLEANQ_ERR_IP_WRONG_PROTO else CLEANQ_ERR_OK)"
  by (simp add: verdict_def sealed_def zeroed_ip_bytes ip_bytes_fields)

text \<open>One word of a header replaced by another.\<close>

lemma zeroed_word:
  assumes "length xs + 2 \<le> 10 \<or> 12 \<le> length xs" "even (length xs)" "length (xs @ c0 # c1 # ys) = 20"
  obtains us ws where "\<And>d0 d1. zeroed (xs @ d0 # d1 # ys) = us @ d0 # d1 # ws" "even (length us)" "length us + length ws = 18"
    "\<And>d0 d1. take 2 (drop 10 (xs @ d0 # d1 # ys)) = take 2 (drop 10 (xs @ c0 # c1 # ys))"
proof (cases "length xs + 2 \<le> 10")
  case True
  define k where "k = 8 - length xs"
  have k: "10 - length xs = Suc (Suc k)" "12 - length xs = Suc (Suc (k + 2))" "k + 2 \<le> length ys" "length xs + k = 8"
    using True assms(3) by (simp_all add: k_def)
  show thesis
  proof (rule that [of xs "take k ys @ 0 # 0 # drop (k + 2) ys"])
    show "zeroed (xs @ d0 # d1 # ys) = xs @ d0 # d1 # take k ys @ 0 # 0 # drop (k + 2) ys" for d0 d1
      using k True by (simp add: zeroed_def)
    show "take 2 (drop 10 (xs @ d0 # d1 # ys)) = take 2 (drop 10 (xs @ c0 # c1 # ys))" for d0 d1
      using k True by simp
  qed (use k assms in simp_all)
next
  case False
  then have l: "12 \<le> length xs" using assms(1) by simp
  show thesis
  proof (rule that [of "take 10 xs @ 0 # 0 # drop 12 xs" ys])
    show "zeroed (xs @ d0 # d1 # ys) = (take 10 xs @ 0 # 0 # drop 12 xs) @ d0 # d1 # ys" for d0 d1
      using l by (simp add: zeroed_def)
    show "take 2 (drop 10 (xs @ d0 # d1 # ys)) = take 2 (drop 10 (xs @ c0 # c1 # ys))" for d0 d1
      using l by simp
  qed (use l assms in simp_all)
qed

lemma verdict_damaged:
  assumes h: "sealed h" "ip_bytes h = xs @ c0 # c1 # ys" and e: "even (length xs)" and d: "(c0, c1) \<noteq> (d0, d1)"
    and z: "{ld16 c0 c1, ld16 d0 d1} \<noteq> {0, 0xffff}"
  shows "verdict (xs @ d0 # d1 # ys) peer proto = CLEANQ_ERR_IP_CHKSUM"
proof -
  let ?h = "xs @ d0 # d1 # ys"
  have l: "length (xs @ c0 # c1 # ys) = 20" using length_ip_bytes [of h] h(2) by simp
  have s: "rte_ipv4_cksum (zeroed (xs @ c0 # c1 # ys)) = rd16 (take 2 (drop 10 (xs @ c0 # c1 # ys)))"
    using h(1) unfolding h(2) [symmetric] by (simp add: sealed_def zeroed_ip_bytes ip_bytes_fields)
  have "rte_ipv4_cksum (zeroed ?h) \<noteq> rd16 (take 2 (drop 10 ?h))"
  proof (cases "length xs = 10")
    case True
    then have "rd16 (take 2 (drop 10 ?h)) \<noteq> rd16 (take 2 (drop 10 (xs @ c0 # c1 # ys)))"
      using ld16_inj [of d0 d1 c0 c1] d by (auto simp: rd16_def)
    moreover have "zeroed ?h = zeroed (xs @ c0 # c1 # ys)" using True by (simp add: zeroed_def)
    ultimately show ?thesis using s by simp
  next
    case False
    then have "length xs + 2 \<le> 10 \<or> 12 \<le> length xs" using e by presburger
    from zeroed_word [OF this e l] obtain us ws
      where w: "\<And>d0 d1. zeroed (xs @ d0 # d1 # ys) = us @ d0 # d1 # ws" "even (length us)" "length us + length ws = 18"
      "\<And>d0 d1. take 2 (drop 10 (xs @ d0 # d1 # ys)) = take 2 (drop 10 (xs @ c0 # c1 # ys))" by blast
    have "rte_ipv4_cksum (us @ c0 # c1 # ws) \<noteq> rte_ipv4_cksum (us @ d0 # d1 # ws)"
      using w(3) by (intro rte_ipv4_cksum_detects [OF w(2) _ d z]) simp
    then show ?thesis using s w(1,4) by metis
  qed
  then show ?thesis by (simp add: verdict_def)
qed

section \<open>Sending and receiving\<close>

lemma or_and_absorb: "(x OR y) AND y = y" for x y :: u64
  by (rule bit_word_eqI) (auto simp: bit_simps)

lemma RXFLAG_nonzero [simp]: "NETIF_RXFLAG \<noteq> 0"
  by (simp add: NETIF_RXFLAG_def)

lemma frame_addr_flags [simp]: "frame_addr rs (b\<lparr>b_flags := fl\<rparr>) = frame_addr rs b"
  by (simp add: frame_addr_def)

text \<open>The queue after a packet has been sent.\<close>

definition sent :: "('r, 't) ip_q \<Rightarrow> cleanq_buf \<Rightarrow> 't \<Rightarrow> ('r, 't) ip_q" where
  "sent que b t =
     (let h = next_header (iq_header que) (b_valid_length b) (iq_pkt_id que + 1) in
      que\<lparr>iq_pkt_id := iq_pkt_id que + 1, iq_header := h,
          iq_mem := put (iq_mem que) (frame_addr (iq_regions que) b) (hdr_bytes h), iq_tx := t\<rparr>)"

definition can_send :: "('r, 't) ip_q \<Rightarrow> cleanq_buf \<Rightarrow> bool" where
  "can_send que b \<longleftrightarrow> b_flags b AND NETIF_TXFLAG \<noteq> 0 \<and> rv_va (iq_regions que ! vaddr_slot (b_rid b)) \<noteq> 0 \<and>
     mapped (iq_mem que) (frame_addr (iq_regions que) b) 34"

lemma ip_enqueue_tx:
  assumes "can_send que b" "fcall (f_enq gt) (\<lambda>enq. enq (iq_tx que) b) = Inr (err, t)"
  shows "ip_enqueue gr gt que b = Inr (err, sent que b t)"
proof -
  let ?h = "next_header (iq_header que) (b_valid_length b) (iq_pkt_id que + 1)"
  have "mem_write (iq_mem que) (frame_addr (iq_regions que) b) (hdr_bytes ?h) =
    Inr (put (iq_mem que) (frame_addr (iq_regions que) b) (hdr_bytes ?h))"
    using assms(1) by (intro mem_write_mapped) (simp_all add: can_send_def)
  then show ?thesis using assms by (simp add: ip_enqueue_def can_send_def sent_def Let_def)
qed

lemma sent_frame: "bytes_at (iq_mem (sent que b t)) (frame_addr (iq_regions que) b) 34 = hdr_bytes (iq_header (sent que b t))"
  using bytes_at_put_same [of "hdr_bytes (iq_header (sent que b t))"] by (simp add: sent_def Let_def)

lemma htons_htons [simp]: "htons (htons x) = x"
proof -
  have "swap16 (swap16 (unat x)) = unat x"
  proof -
    have d: "unat x div 256 < 256" using unat_u16_bound [of x] by (simp add: div_less_iff_less_mult)
    have "(unat x mod 256 * 256 + unat x div 256) mod 256 = unat x div 256"
      "(unat x mod 256 * 256 + unat x div 256) div 256 = unat x mod 256" using d by simp_all
    then show ?thesis unfolding swap16_def by (simp only: div_mult_mod_eq)
  qed
  then show ?thesis by (simp only: word_unat_eq_iff unat_htons)
qed

lemma ip_dequeue_rx:
  assumes "fcall (f_deq gr) (\<lambda>deq. deq (iq_rx que) b0) = Inr (CLEANQ_ERR_OK, b, r)"
  shows "ip_dequeue gr gt que b0 = ip_check gr (que\<lparr>iq_rx := r\<rparr>) (b\<lparr>b_flags := b_flags b OR NETIF_RXFLAG\<rparr>)"
  by (simp add: ip_dequeue_def assms err_is_fail_def or_and_absorb Let_def)

text \<open>Receiving from any queue, in terms of the verdict.\<close>

lemma ip_receive:
  assumes low: "fcall (f_deq gr) (\<lambda>deq. deq (iq_rx que) b0) = Inr (CLEANQ_ERR_OK, b, r)"
    and m: "mapped (iq_mem que) (frame_addr (iq_regions que) b + 14) 20"
    and v: "v = verdict (ip_part que b) (ip_dest (ph_ip (iq_header que))) (iq_proto que)"
  shows "ip_dequeue gr gt que b0 =
    (if v = CLEANQ_ERR_OK then Inr (CLEANQ_ERR_OK, b\<lparr>b_flags := b_flags b OR NETIF_RXFLAG\<rparr>, que\<lparr>iq_rx := r\<rparr>)
     else ip_drop gr (que\<lparr>iq_rx := r, iq_mem := put (iq_mem que) (frame_addr (iq_regions que) b + 24)
            (st16 (rte_ipv4_cksum (zeroed (ip_part que b))))\<rparr>) (b\<lparr>b_flags := b_flags b OR NETIF_RXFLAG\<rparr>) v)"
  using ip_check_spec [of "que\<lparr>iq_rx := r\<rparr>" "b\<lparr>b_flags := b_flags b OR NETIF_RXFLAG\<rparr>" gr] m
  unfolding ip_dequeue_rx [OF low] v by (simp add: ip_part_def)

text \<open>A frame with a right checksum from the expected sender is accepted.\<close>

lemma ip_accepts:
  assumes low: "fcall (f_deq gr) (\<lambda>deq. deq (iq_rx que) b0) = Inr (CLEANQ_ERR_OK, b, r)"
    and m: "mapped (iq_mem que) (frame_addr (iq_regions que) b) 34"
    and f: "bytes_at (iq_mem que) (frame_addr (iq_regions que) b) 34 = hdr_bytes h" "sealed (ph_ip h)"
    and peer: "ip_src (ph_ip h) = ip_dest (ph_ip (iq_header que))" "ip_proto (ph_ip h) = iq_proto que"
  shows "ip_dequeue gr gt que b0 = Inr (CLEANQ_ERR_OK, b\<lparr>b_flags := b_flags b OR NETIF_RXFLAG\<rparr>, que\<lparr>iq_rx := r\<rparr>)"
proof -
  have "ip_part que b = take 20 (drop 14 (bytes_at (iq_mem que) (frame_addr (iq_regions que) b) 34))"
    unfolding ip_part_def using bytes_at_sub [of 14 20 34] by simp
  then have i: "ip_part que b = ip_bytes (ph_ip h)" unfolding f(1) by (simp add: hdr_bytes_def)
  have "verdict (ip_part que b) (ip_dest (ph_ip (iq_header que))) (iq_proto que) = CLEANQ_ERR_OK"
    unfolding i verdict_sealed [OF f(2)] by (simp add: peer)
  moreover have "mapped (iq_mem que) (frame_addr (iq_regions que) b + 14) 20" using mapped_sub [OF m, of 14 20] by simp
  ultimately show ?thesis using ip_receive [OF low _ refl, of gt] by simp
qed

lemma in_bounds_flags [simp]: "in_bounds p (b\<lparr>b_flags := fl\<rparr>) = in_bounds p b"
  by (simp add: region_pool_buffer_check_bounds_def cong: if_cong)

section \<open>Well-formed queues\<close>

text \<open>What every operation keeps: the shape of the table of regions, in which an entry belongs to its
  slot, and the fields of the header that are set once.\<close>

definition ip_wf :: "('r, 't) ip_q \<Rightarrow> bool" where
  "ip_wf que \<longleftrightarrow> length (iq_regions que) = MAX_NUM_REGIONS \<and>
     (\<forall>i<MAX_NUM_REGIONS. rv_va (iq_regions que ! i) \<noteq> 0 \<longrightarrow> vaddr_slot (rv_rid (iq_regions que ! i)) = i) \<and>
     eth_type (ph_eth (iq_header que)) = htons ETHTYPE_IP \<and> ip_v_hl (ph_ip (iq_header que)) = 69 \<and>
     ip_offset (ph_ip (iq_header que)) = htons IP_DF \<and> ip_ttl (ph_ip (iq_header que)) = 64 \<and>
     ip_proto (ph_ip (iq_header que)) = iq_proto que"

text \<open>The states a queue can be in: those reached from \<open>q0\<close> by operations that return.\<close>

inductive ip_reach ::
  "capref \<Rightarrow> 'a cleanq_scheme cleanq_func_pointer \<Rightarrow> 't cleanq_func_pointer \<Rightarrow> ('a cleanq_scheme, 't) ip_q \<Rightarrow> ('a cleanq_scheme, 't) ip_q \<Rightarrow> bool"
  for cap0 gr gt q0 where
  start: "ip_reach cap0 gr gt q0 q0"
| reg: "ip_reach cap0 gr gt q0 q \<Longrightarrow> ip_register gt q cap rid = Inr (err, q') \<Longrightarrow> ip_reach cap0 gr gt q0 q'"
| dereg: "ip_reach cap0 gr gt q0 q \<Longrightarrow> ip_deregister gt cap0 q rid = Inr (err, q') \<Longrightarrow> ip_reach cap0 gr gt q0 q'"
| ctrl: "ip_reach cap0 gr gt q0 q \<Longrightarrow> ip_control gr q cmd v res = Inr (err, res', q') \<Longrightarrow> ip_reach cap0 gr gt q0 q'"
| notify: "ip_reach cap0 gr gt q0 q \<Longrightarrow> ip_notify gr q = Inr (err, q') \<Longrightarrow> ip_reach cap0 gr gt q0 q'"
| enq: "ip_reach cap0 gr gt q0 q \<Longrightarrow> ip_enqueue gr gt q b = Inr (err, q') \<Longrightarrow> ip_reach cap0 gr gt q0 q'"
| deq: "ip_reach cap0 gr gt q0 q \<Longrightarrow> ip_dequeue gr gt q b = Inr (err, b', q') \<Longrightarrow> ip_reach cap0 gr gt q0 q'"

definition same_ends :: "('r, 't) ip_q \<Rightarrow> ('r, 't) ip_q \<Rightarrow> bool" where
  "same_ends q q' \<longleftrightarrow> iq_proto q' = iq_proto q \<and> ip_src (ph_ip (iq_header q')) = ip_src (ph_ip (iq_header q)) \<and>
     ip_dest (ph_ip (iq_header q')) = ip_dest (ph_ip (iq_header q)) \<and> ph_eth (iq_header q') = ph_eth (iq_header q)"

text \<open>Operations on the queues below and on memory do not matter.\<close>

lemma ip_wf_below [simp]:
  "ip_wf (que\<lparr>iq_rx := r\<rparr>) = ip_wf que" "ip_wf (que\<lparr>iq_tx := t\<rparr>) = ip_wf que" "ip_wf (que\<lparr>iq_mem := m\<rparr>) = ip_wf que"
  by (simp_all add: ip_wf_def)

lemma same_ends_below [simp]:
  "same_ends q (que\<lparr>iq_rx := r\<rparr>) = same_ends q que" "same_ends q (que\<lparr>iq_tx := t\<rparr>) = same_ends q que"
  "same_ends q (que\<lparr>iq_mem := m\<rparr>) = same_ends q que" "same_ends q (que\<lparr>iq_regions := rs\<rparr>) = same_ends q que"
  by (simp_all add: same_ends_def)

lemma ip_wf_region:
  "ip_wf que \<Longrightarrow> rv_va e \<noteq> 0 \<longrightarrow> vaddr_slot (rv_rid e) = vaddr_slot rid \<Longrightarrow>
     ip_wf (que\<lparr>iq_regions := (iq_regions que)[vaddr_slot rid := e]\<rparr>)"
  by (auto simp: ip_wf_def nth_list_update)

lemma ip_wf_sent:
  "ip_wf que \<Longrightarrow> ip_wf (que\<lparr>iq_pkt_id := n, iq_header := next_header (iq_header que) l k\<rparr>)"
  "same_ends q que \<Longrightarrow> same_ends q (que\<lparr>iq_pkt_id := n, iq_header := next_header (iq_header que) l k\<rparr>)"
  by (simp_all add: ip_wf_def same_ends_def next_header_def Let_def)

text \<open>What holds of every result a function returns.\<close>

definition yields :: "'a cres \<Rightarrow> ('a \<Rightarrow> bool) \<Rightarrow> bool" where
  "yields r P \<longleftrightarrow> (\<forall>x. r = Inr x \<longrightarrow> P x)"

lemma yields_bindI: "(\<And>x. yields (k x) P) \<Longrightarrow> yields (bindc r k) P"
  by (auto simp: yields_def bindc_eq_Inr)

lemma yields_bindI2: "yields r Q \<Longrightarrow> (\<And>x. Q x \<Longrightarrow> yields (k x) P) \<Longrightarrow> yields (bindc r k) P"
  by (auto simp: yields_def bindc_eq_Inr)

lemma yields_Inr [simp]: "yields (Inr x) P \<longleftrightarrow> P x" "yields (Inl e) P"
  by (simp_all add: yields_def)

lemma yields_if: "(c \<Longrightarrow> yields r P) \<Longrightarrow> (\<not> c \<Longrightarrow> yields s P) \<Longrightarrow> yields (if c then r else s) P"
  by simp

lemma yieldsD: "r = Inr x \<Longrightarrow> yields r P \<Longrightarrow> P x"
  by (simp add: yields_def)

lemmas yields_intros = yields_bindI yields_if

lemma ip_enqueue_keeps:
  assumes "ip_wf q" "same_ends q0 q"
  shows "yields (ip_enqueue gr gt q b) (\<lambda>(_, q'). ip_wf q' \<and> same_ends q0 q')"
  unfolding ip_enqueue_def Let_def using assms
  by (intro yields_intros; simp add: ip_wf_sent split: prod.split)

lemma ip_drop_keeps:
  assumes "ip_wf q" "same_ends q0 q"
  shows "yields (ip_drop gr q b e) (\<lambda>(_, _, q'). ip_wf q' \<and> same_ends q0 q')"
  unfolding ip_drop_def using assms by (intro yields_intros) (simp split: prod.split)

lemma ip_check_keeps:
  assumes "ip_wf q" "same_ends q0 q"
  shows "yields (ip_check gr q b) (\<lambda>(_, _, q'). ip_wf q' \<and> same_ends q0 q')"
  unfolding ip_check_def Let_def using assms by (intro yields_intros ip_drop_keeps; simp)

lemma ip_dequeue_keeps:
  assumes "ip_wf q" "same_ends q0 q"
  shows "yields (ip_dequeue gr gt q b) (\<lambda>(_, _, q'). ip_wf q' \<and> same_ends q0 q')"
  unfolding ip_dequeue_def
proof (rule yields_bindI, goal_cases)
  case (1 x)
  obtain err b r where x: "x = (err, b, r)" by (cases x)
  show ?case unfolding x Let_def prod.case
    by (rule yields_bindI2 [where Q = "\<lambda>(_, _, q'). ip_wf q' \<and> same_ends q0 q'"];
        auto simp: ip_check_keeps assms intro!: yields_intros split: prod.split)
qed

lemma ip_reach_wf:
  "ip_reach cap0 gr gt q0 q \<Longrightarrow> ip_wf q0 \<Longrightarrow> ip_wf q \<and> same_ends q0 q"
proof (induction rule: ip_reach.induct)
  case start
  then show ?case by (simp add: same_ends_def)
next
  case (reg q cap rid err q')
  then show ?case using ip_wf_region [of q "\<lparr>rv_va = cap_vaddr cap, rv_rid = rid\<rparr>" rid]
    by (auto simp: ip_register_def bindc_eq_Inr Let_def)
next
  case (dereg q rid err q')
  then show ?case using ip_wf_region [of q "\<lparr>rv_va = 0, rv_rid = 0\<rparr>" rid]
    by (auto simp: ip_deregister_def bindc_eq_Inr Let_def split: if_splits)
next
  case (enq q b err q')
  then show ?case using yieldsD [OF enq.hyps(2) ip_enqueue_keeps [of q q0]] by simp
next
  case (deq q b err b' q')
  then show ?case using yieldsD [OF deq.hyps(2) ip_dequeue_keeps [of q q0]] by simp
qed (auto simp: ip_control_def ip_notify_def bindc_eq_Inr)

lemma ip_create_wf:
  assumes "ip_create c0 c1 c2 rnd mem rx tx prot src_ip dst_ip src_mac dst_mac = Inr (CLEANQ_ERR_OK, Some q)"
  shows "ip_wf q \<and> ip_src (ph_ip (iq_header q)) = src_ip \<and> ip_dest (ph_ip (iq_header q)) = dst_ip \<and>
    ph_eth (iq_header q) = \<lparr>eth_dest = dst_mac, eth_src = src_mac, eth_type = htons ETHTYPE_IP\<rparr> \<and>
    iq_rx q = rx \<and> iq_tx q = tx \<and> iq_mem q = mem"
  using assms by (auto simp: ip_create_def ip_wf_def init_header_def Let_def split: if_splits prod.splits option.splits)

section \<open>A pair of queues to try the properties on\<close>

definition demo_mem :: pkt_mem where
  "demo_mem = (\<lambda>a. Some 0)"

definition demo_mac :: eth_addr where
  "demo_mac = Eth_Addr 2 0 0 0 0 1"

definition demo_ipq :: "u32 \<Rightarrow> u32 \<Rightarrow> pkt_mem \<Rightarrow> loopback_queue \<Rightarrow> (loopback_queue, loopback_queue) ip_q" where
  "demo_ipq src dst mem rx =
     \<lparr>cq_pool = demo_pool, cq_state = 0, iq_rx = rx, iq_tx = demo_lq,
      iq_header = init_header demo_mac demo_mac src dst IP_PROTO_UDP,
      iq_regions = replicate MAX_NUM_REGIONS \<lparr>rv_va = 0x10000, rv_rid = 0\<rparr>,
      iq_hdr_len = 28, iq_proto = IP_PROTO_UDP, iq_pkt_id = 3, iq_mem = mem\<rparr>"

definition demo_pkt :: "regionid \<Rightarrow> cleanq_buf" where
  "demo_pkt rid = \<lparr>b_offset = 2048, b_length = 2048, b_valid_data = 0, b_valid_length = 74, b_flags = NETIF_TXFLAG, b_rid = rid\<rparr>"

lemma TXFLAG_nonzero [simp]: "NETIF_TXFLAG \<noteq> 0"
  by (simp add: NETIF_TXFLAG_def)

lemma demo_mapped [simp]: "mapped demo_mem a n" "mapped (put demo_mem a bs) c k"
  by (simp_all add: mapped_def demo_mem_def put_def)

lemma demo_can_send: "can_send (demo_ipq src dst demo_mem rx) (demo_pkt rid)"
  by (simp add: can_send_def demo_ipq_def demo_pkt_def)

lemma demo_enq: "\<exists>t. fcall (f_enq loopback_f) (\<lambda>enq. enq demo_lq b) = Inr (CLEANQ_ERR_OK, t)"
  by (simp add: loopback_f_def loopback_enqueue_def demo_lq_def LOOPBACK_QUEUE_SIZE_def)

text \<open>A loopback queue that holds one buffer.\<close>

definition demo_one :: "cleanq_buf \<Rightarrow> loopback_queue" where
  "demo_one b = demo_lq\<lparr>lq_queue := (replicate LOOPBACK_QUEUE_SIZE empty_buf)[0 := b], lq_head := 1, num_ele := 1\<rparr>"

lemma demo_one_deq:
  "\<exists>r. fcall (f_deq loopback_f) (\<lambda>deq. deq (demo_one b) b0) = Inr (CLEANQ_ERR_OK, b, r) \<and>
     (\<exists>r'. fcall (f_enq loopback_f) (\<lambda>enq. enq r b') = Inr (CLEANQ_ERR_OK, r'))"
  by (simp add: loopback_f_def loopback_dequeue_def loopback_enqueue_def demo_one_def demo_lq_def LOOPBACK_QUEUE_SIZE_def)

lemma ip_q_upd_comm: "que\<lparr>iq_mem := m, iq_rx := r\<rparr> = que\<lparr>iq_rx := r, iq_mem := m\<rparr>" for que :: "('r, 't) ip_q"
  by (cases que) simp

lemma rte_ipv4_cksum_nonzero: "rte_ipv4_cksum data \<noteq> 0"
proof
  let ?c = "rte_raw_cksum (take 20 data)"
  assume z: "rte_ipv4_cksum data = 0"
  then have "?c \<noteq> 0xffff" by (auto simp: rte_ipv4_cksum_def)
  then have "NOT ?c = 0" using z by (simp add: rte_ipv4_cksum_def)
  then have "NOT (NOT ?c) = NOT 0" by (simp only:)
  then show False using \<open>?c \<noteq> 0xffff\<close> by simp
qed

section \<open>Properties\<close>

text \<open>Property C36: a created queue stays well formed. Whatever operations run on it and whatever the queues
  below do, the table of regions keeps its size and every entry stays in its slot, and the header it
  sends keeps saying IPv4 without options, do not fragment, the protocol and the addresses the queue
  was created with.\<close>

theorem ip_queue_wellformed:
  assumes "ip_create c0 c1 c2 rnd mem rx tx prot src_ip dst_ip src_mac dst_mac = Inr (CLEANQ_ERR_OK, Some q0)"
    and "ip_reach cap0 gr gt q0 q"
  shows "ip_wf q \<and> ip_src (ph_ip (iq_header q)) = src_ip \<and> ip_dest (ph_ip (iq_header q)) = dst_ip \<and>
    eth_dest (ph_eth (iq_header q)) = dst_mac \<and> eth_src (ph_eth (iq_header q)) = src_mac"
  using ip_create_wf [OF assms(1)] ip_reach_wf [OF assms(2)] by (simp add: same_ends_def)

theorem ip_queue_wellformed_witness:
  "\<exists>q0 q. ip_create True True True 20480 demo_mem demo_lq demo_lq UDP_PROT 1 2 demo_mac demo_mac = Inr (CLEANQ_ERR_OK, Some q0) \<and>
     ip_register loopback_f q0 demo_cap 70 = Inr (CLEANQ_ERR_OK, q) \<and> ip_wf q \<and> ip_dest (ph_ip (iq_header q)) = 2"
proof -
  obtain q0 where q0: "ip_create True True True 20480 demo_mem demo_lq demo_lq UDP_PROT 1 2 demo_mac demo_mac = Inr (CLEANQ_ERR_OK, Some q0)"
    by (simp add: ip_create_def cleanq_init_def region_pool_init_def err_is_fail_def Let_def)
  obtain q where q: "ip_register loopback_f q0 demo_cap 70 = Inr (CLEANQ_ERR_OK, q)"
    by (simp add: ip_register_def loopback_f_def loopback_register_def Let_def)
  have "ip_reach demo_cap loopback_f loopback_f q0 q" by (rule ip_reach.reg [OF ip_reach.start q])
  from ip_queue_wellformed [OF q0 this] q0 q show ?thesis by blast
qed

text \<open>Sending writes a correct frame. The 34 bytes at the start of the frame become the
  Ethernet and IP headers; the IP header adds up to all ones, carries the packet's length and the
  next identification in network order and the addresses of the queue; no other byte of memory
  changes, and the buffer goes to the transmit queue, whose answer is returned.\<close>

theorem ip_sends_correct_frame:
  assumes "can_send que b" "fcall (f_enq gt) (\<lambda>enq. enq (iq_tx que) b) = Inr (err, t)"
  shows "\<exists>que' h. ip_enqueue gr gt que b = Inr (err, que') \<and> iq_tx que' = t \<and> iq_rx que' = iq_rx que \<and>
    bytes_at (iq_mem que') (frame_addr (iq_regions que) b) 34 = eth_bytes (ph_eth (iq_header que)) @ ip_bytes h \<and>
    rte_raw_cksum (ip_bytes h) = 0xffff \<and>
    htons (ip_len h) = ucast (b_valid_length b - 14) \<and> htons (ip_id h) = ucast (iq_pkt_id que + 1) \<and>
    ip_src h = ip_src (ph_ip (iq_header que)) \<and> ip_dest h = ip_dest (ph_ip (iq_header que)) \<and>
    (\<forall>a. 34 \<le> unat (a - frame_addr (iq_regions que) b) \<longrightarrow> iq_mem que' a = iq_mem que a)"
proof (intro exI conjI allI impI)
  let ?h = "next_header (iq_header que) (b_valid_length b) (iq_pkt_id que + 1)"
  show "ip_enqueue gr gt que b = Inr (err, sent que b t)" by (rule ip_enqueue_tx [OF assms])
  show "bytes_at (iq_mem (sent que b t)) (frame_addr (iq_regions que) b) 34 =
    eth_bytes (ph_eth (iq_header que)) @ ip_bytes (ph_ip ?h)"
    unfolding sent_frame by (simp add: sent_def hdr_bytes_def next_header_def Let_def)
  show "rte_raw_cksum (ip_bytes (ph_ip ?h)) = 0xffff" by (rule sealed_sum [OF sealed_next_header])
  show "iq_mem (sent que b t) a = iq_mem que a" if "34 \<le> unat (a - frame_addr (iq_regions que) b)" for a
    using that by (simp add: sent_def Let_def put_apart)
qed (simp_all add: sent_def next_header_def Let_def)

theorem ip_sends_correct_frame_witness:
  "\<exists>que' h. ip_enqueue loopback_f loopback_f (demo_ipq 1 2 demo_mem demo_lq) (demo_pkt 5) = Inr (CLEANQ_ERR_OK, que') \<and>
     rte_raw_cksum (ip_bytes h) = 0xffff \<and> htons (ip_len h) = 60 \<and> htons (ip_id h) = 4"
proof -
  have f: "iq_tx (demo_ipq 1 2 demo_mem demo_lq) = demo_lq" by (simp add: demo_ipq_def)
  obtain t where t: "fcall (f_enq loopback_f) (\<lambda>enq. enq (iq_tx (demo_ipq 1 2 demo_mem demo_lq)) (demo_pkt 5)) = Inr (CLEANQ_ERR_OK, t)"
    using demo_enq unfolding f by blast
  from ip_sends_correct_frame [OF demo_can_send t, of loopback_f] show ?thesis
    by (auto simp: demo_pkt_def demo_ipq_def)
qed

text \<open>Property C34: a packet sent by one queue is accepted by its peer. When the receive queue delivers a
  buffer whose frame holds the headers the sender wrote, the peer accepts it, provided it expects
  packets from the sender's address and of its protocol; the packet stays as it is and the buffer
  is marked as received.\<close>

theorem ip_peer_accepts:
  assumes "can_send A b" "fcall (f_enq gt) (\<lambda>enq. enq (iq_tx A) b) = Inr (err, t)"
    and A': "ip_enqueue gr gt A b = Inr (err', A')"
    and low: "fcall (f_deq gr') (\<lambda>deq. deq (iq_rx B) b0) = Inr (CLEANQ_ERR_OK, b', r)"
    and m: "mapped (iq_mem B) (frame_addr (iq_regions B) b') 34"
    and same: "bytes_at (iq_mem B) (frame_addr (iq_regions B) b') 34 = bytes_at (iq_mem A') (frame_addr (iq_regions A) b) 34"
    and peer: "ip_dest (ph_ip (iq_header B)) = ip_src (ph_ip (iq_header A))" "iq_proto B = ip_proto (ph_ip (iq_header A))"
  shows "ip_dequeue gr' gt' B b0 = Inr (CLEANQ_ERR_OK, b'\<lparr>b_flags := b_flags b' OR NETIF_RXFLAG\<rparr>, B\<lparr>iq_rx := r\<rparr>)"
proof -
  let ?h = "next_header (iq_header A) (b_valid_length b) (iq_pkt_id A + 1)"
  have "A' = sent A b t" using ip_enqueue_tx [OF assms(1,2), of gr] A' by simp
  then have "bytes_at (iq_mem B) (frame_addr (iq_regions B) b') 34 = hdr_bytes ?h"
    using same sent_frame [of A b t] by (simp add: sent_def Let_def)
  from ip_accepts [OF low m this sealed_next_header] show ?thesis
    by (simp add: peer next_header_def Let_def)
qed

theorem ip_peer_accepts_witness:
  "\<exists>A' B'. ip_enqueue loopback_f loopback_f (demo_ipq 1 2 demo_mem demo_lq) (demo_pkt 5) = Inr (CLEANQ_ERR_OK, A') \<and>
     ip_dequeue loopback_f loopback_f (demo_ipq 2 1 (iq_mem A') (demo_one (demo_pkt 5))) empty_buf =
       Inr (CLEANQ_ERR_OK, demo_pkt 5\<lparr>b_flags := NETIF_TXFLAG OR NETIF_RXFLAG\<rparr>, B')"
proof -
  let ?A = "demo_ipq 1 2 demo_mem demo_lq"
  have f: "iq_tx ?A = demo_lq" by (simp add: demo_ipq_def)
  obtain t where t: "fcall (f_enq loopback_f) (\<lambda>enq. enq (iq_tx ?A) (demo_pkt 5)) = Inr (CLEANQ_ERR_OK, t)"
    using demo_enq unfolding f by blast
  note e = ip_enqueue_tx [OF demo_can_send t, of loopback_f]
  let ?B = "demo_ipq 2 1 (iq_mem (sent ?A (demo_pkt 5) t)) (demo_one (demo_pkt 5))"
  have g: "iq_rx ?B = demo_one (demo_pkt 5)" by (simp add: demo_ipq_def)
  obtain r where r: "fcall (f_deq loopback_f) (\<lambda>deq. deq (iq_rx ?B) empty_buf) = Inr (CLEANQ_ERR_OK, demo_pkt 5, r)"
    using demo_one_deq unfolding g by blast
  have "mapped (iq_mem ?B) (frame_addr (iq_regions ?B) (demo_pkt 5)) 34"
    by (simp add: demo_ipq_def sent_def Let_def)
  from ip_peer_accepts [OF demo_can_send t e r this, of loopback_f] e show ?thesis
    by (simp add: demo_ipq_def init_header_def) (simp add: demo_pkt_def)
qed

text \<open>Property C35: a damaged IP header is noticed. When one 16-bit word of the header differs from what the
  sender wrote (and is not a swap of the two zeros of one's complement, 0x0000 and 0xffff), the
  packet is dropped with the checksum error.\<close>

theorem ip_detects_damage:
  assumes "can_send A b" "fcall (f_enq gt) (\<lambda>enq. enq (iq_tx A) b) = Inr (err, t)"
    and A': "ip_enqueue gr gt A b = Inr (err', A')"
    and h: "bytes_at (iq_mem A') (frame_addr (iq_regions A) b + 14) 20 = xs @ c0 # c1 # ys" and e: "even (length xs)"
    and d: "(c0, c1) \<noteq> (d0, d1)" and z: "{ld16 c0 c1, ld16 d0 d1} \<noteq> {0, 0xffff}"
    and low: "fcall (f_deq gr') (\<lambda>deq. deq (iq_rx B) b0) = Inr (CLEANQ_ERR_OK, b', r)"
    and m: "mapped (iq_mem B) (frame_addr (iq_regions B) b' + 14) 20"
    and got: "bytes_at (iq_mem B) (frame_addr (iq_regions B) b' + 14) 20 = xs @ d0 # d1 # ys"
    and rb: "fcall (f_enq gr') (\<lambda>enq. enq r (b'\<lparr>b_flags := NETIF_RXFLAG\<rparr>)) = Inr (err2, r2)"
  shows "\<exists>b'' B'. ip_dequeue gr' gt' B b0 = Inr (CLEANQ_ERR_IP_CHKSUM, b'', B') \<and> iq_rx B' = r2"
proof -
  let ?h = "next_header (iq_header A) (b_valid_length b) (iq_pkt_id A + 1)"
  have "A' = sent A b t" using ip_enqueue_tx [OF assms(1,2), of gr] A' by simp
  then have "bytes_at (iq_mem A') (frame_addr (iq_regions A) b) 34 = hdr_bytes ?h"
    using sent_frame [of A b t] by (simp add: sent_def Let_def)
  then have "ip_bytes (ph_ip ?h) = xs @ c0 # c1 # ys"
    using h bytes_at_sub [of 14 20 34 "iq_mem A'" "frame_addr (iq_regions A) b"] by (simp add: hdr_bytes_def)
  from verdict_damaged [OF sealed_next_header this e d z] got
  have "verdict (ip_part B b') (ip_dest (ph_ip (iq_header B))) (iq_proto B) = CLEANQ_ERR_IP_CHKSUM"
    by (simp add: ip_part_def)
  then show ?thesis using ip_receive [OF low m refl, of gt'] rb by (simp add: ip_drop_def)
qed

theorem ip_detects_damage_witness:
  "\<exists>A' B' b'. ip_enqueue loopback_f loopback_f (demo_ipq 1 2 demo_mem demo_lq) (demo_pkt 5) = Inr (CLEANQ_ERR_OK, A') \<and>
     ip_dequeue loopback_f loopback_f
       (demo_ipq 2 1 (put (iq_mem A') (0x10000 + 2048 + 142) [70, 0]) (demo_one (demo_pkt 5))) empty_buf =
       Inr (CLEANQ_ERR_IP_CHKSUM, b', B')"
proof -
  let ?A = "demo_ipq 1 2 demo_mem demo_lq" and ?b = "demo_pkt 5"
  have f: "iq_tx ?A = demo_lq" by (simp add: demo_ipq_def)
  obtain t where t: "fcall (f_enq loopback_f) (\<lambda>enq. enq (iq_tx ?A) ?b) = Inr (CLEANQ_ERR_OK, t)"
    using demo_enq unfolding f by blast
  note e = ip_enqueue_tx [OF demo_can_send t, of loopback_f]
  let ?A' = "sent ?A ?b t" and ?a = "frame_addr (iq_regions ?A) ?b"
  have a: "?a + 14 = 0x10000 + 2048 + 142" by (simp add: demo_ipq_def demo_pkt_def frame_addr_def)
  have fr: "bytes_at (iq_mem ?A') ?a 34 = hdr_bytes (iq_header ?A')" by (rule sent_frame)
  have "bytes_at (iq_mem ?A') (?a + 14) 20 = take 20 (drop 14 (bytes_at (iq_mem ?A') ?a 34))"
    using bytes_at_sub [of 14 20 34] by simp
  then have "bytes_at (iq_mem ?A') (?a + 14) 20 = ip_bytes (ph_ip (iq_header ?A'))"
    unfolding fr by (simp add: hdr_bytes_def)
  moreover have "\<exists>ys. ip_bytes (ph_ip (iq_header ?A')) = 69 # 0 # ys"
    by (simp add: ip_bytes_def sent_def demo_ipq_def init_header_def next_header_def Let_def)
  ultimately obtain ys where ys: "bytes_at (iq_mem ?A') (?a + 14) 20 = [] @ 69 # 0 # ys" by auto
  let ?B = "demo_ipq 2 1 (put (iq_mem ?A') (?a + 14) [70, 0]) (demo_one ?b)"
  have g: "iq_rx ?B = demo_one ?b" by (simp add: demo_ipq_def)
  obtain r r2 where r: "fcall (f_deq loopback_f) (\<lambda>deq. deq (iq_rx ?B) empty_buf) = Inr (CLEANQ_ERR_OK, ?b, r)"
    and r2: "fcall (f_enq loopback_f) (\<lambda>enq. enq r (?b\<lparr>b_flags := NETIF_RXFLAG\<rparr>)) = Inr (CLEANQ_ERR_OK, r2)"
    using demo_one_deq unfolding g by blast
  have fa: "frame_addr (iq_regions ?B) ?b = ?a" by (simp add: demo_ipq_def)
  have m: "mapped (iq_mem ?B) (frame_addr (iq_regions ?B) ?b + 14) 20"
    by (simp add: demo_ipq_def sent_def Let_def mapped_put)
  have "bytes_at (put (iq_mem ?A') (?a + 14) [70, 0]) (?a + 14) 20 = [] @ 70 # 0 # ys"
    using bytes_at_put_mid [of 0 "[70, 0]" 20 "iq_mem ?A'" "?a + 14"] ys by simp
  then have "bytes_at (iq_mem ?B) (frame_addr (iq_regions ?B) ?b + 14) 20 = [] @ 70 # 0 # ys"
    unfolding fa by (simp add: demo_ipq_def)
  moreover have "{ld16 69 0, ld16 70 0} \<noteq> {0, 0xffff :: u16}" by (simp add: ld16_def doubleton_eq_iff)
  ultimately have "\<exists>b'' B'. ip_dequeue loopback_f loopback_f ?B empty_buf = Inr (CLEANQ_ERR_IP_CHKSUM, b'', B') \<and> iq_rx B' = r2"
    using ip_detects_damage [OF demo_can_send t e ys _ _ _ r m _ r2, of 70 0] by simp
  then show ?thesis using e unfolding a by blast
qed

text \<open>No buffer gets lost when a packet is dropped. With a loopback queue as receive queue,
  dequeueing hands out the oldest buffer if its packet passes the checks; otherwise it reports which
  check failed (the checksum before the sender before the protocol) and the buffer is the newest
  element of the receive queue again. The only bytes that may change are the two of the checksum.\<close>

theorem ip_drop_returns_buffer:
  assumes inv: "lq_inv (iq_rx que)" and c: "lq_contents (iq_rx que) = b # bs"
    and m: "mapped (iq_mem que) (frame_addr (iq_regions que) b + 14) 20"
    and v: "v = verdict (ip_part que b) (ip_dest (ph_ip (iq_header que))) (iq_proto que)"
  shows "\<exists>r m'. ip_dequeue loopback_f gt que b0 =
      Inr (v, b\<lparr>b_flags := b_flags b OR NETIF_RXFLAG\<rparr>, que\<lparr>iq_rx := r, iq_mem := m'\<rparr>) \<and> lq_inv r \<and>
    lq_contents r = bs @ (if v = CLEANQ_ERR_OK then [] else [b\<lparr>b_flags := NETIF_RXFLAG\<rparr>]) \<and>
    (\<forall>a. 2 \<le> unat (a - (frame_addr (iq_regions que) b + 24)) \<longrightarrow> m' a = iq_mem que a)"
proof -
  have "num_ele (iq_rx que) \<noteq> 0" using c by (metis length_ring_contents length_greater_0_conv list.simps(3) lq_contents_def not_gr0)
  with lq.deq_law [OF inv, of b0] obtain r where r: "lq_inv r" "cq_pool r = cq_pool (iq_rx que)" "lq_contents r = bs"
    and low: "fcall (f_deq loopback_f) (\<lambda>deq. deq (iq_rx que) b0) = Inr (CLEANQ_ERR_OK, b, r)"
    and ib: "in_bounds (cq_pool r) b" using c by auto
  note d = ip_receive [OF low m v, of gt]
  show ?thesis
  proof (cases "v = CLEANQ_ERR_OK")
    case True
    then show ?thesis using d r by (intro exI [of _ r] exI [of _ "iq_mem que"]) simp
  next
    case False
    let ?m = "put (iq_mem que) (frame_addr (iq_regions que) b + 24) (st16 (rte_ipv4_cksum (zeroed (ip_part que b))))"
    have "length bs < LOOPBACK_QUEUE_SIZE"
      using inv c by (metis lq_contents_def lq_inv_def length_ring_contents length_Cons Suc_le_lessD)
    then have "num_ele r \<noteq> LOOPBACK_QUEUE_SIZE" using r(3) by (auto simp: lq_contents_def)
    with lq.enq_law [OF r(1), of "b\<lparr>b_flags := NETIF_RXFLAG\<rparr>"] ib obtain r' where
      "fcall (f_enq loopback_f) (\<lambda>enq. enq r (b\<lparr>b_flags := NETIF_RXFLAG\<rparr>)) = Inr (CLEANQ_ERR_OK, r')"
      "lq_inv r'" "lq_contents r' = bs @ [b\<lparr>b_flags := NETIF_RXFLAG\<rparr>]" using r(3) by auto
    then show ?thesis using d False
      by (intro exI [of _ r'] exI [of _ ?m]) (simp add: ip_drop_def put_apart ip_q_upd_comm)
  qed
qed

theorem ip_drop_returns_buffer_witness:
  "\<exists>id lq lq1 r m'. cleanq_register demo_env loopback_f demo_lq demo_cap 0 = Inr (CLEANQ_ERR_OK, id, lq) \<and>
     cleanq_enqueue loopback_f lq (demo_buf id) = Inr (CLEANQ_ERR_OK, lq1) \<and>
     ip_dequeue loopback_f loopback_f (demo_ipq 2 1 demo_mem lq1) empty_buf =
       Inr (CLEANQ_ERR_IP_CHKSUM, demo_buf id\<lparr>b_flags := b_flags (demo_buf id) OR NETIF_RXFLAG\<rparr>,
         (demo_ipq 2 1 demo_mem lq1)\<lparr>iq_rx := r, iq_mem := m'\<rparr>) \<and>
     lq_contents r = [demo_buf id\<lparr>b_flags := NETIF_RXFLAG\<rparr>]"
proof -
  obtain id lq where l: "cleanq_register demo_env loopback_f demo_lq demo_cap 0 = Inr (CLEANQ_ERR_OK, id, lq)"
    "lq_inv lq" "lq_contents lq = []" "in_bounds (cq_pool lq) (demo_buf id)"
    by (rule demo_lq_register)
  have "num_ele lq = 0" using l(3) by (metis length_ring_contents list.size(3) lq_contents_def)
  then have "num_ele lq \<noteq> LOOPBACK_QUEUE_SIZE" by (simp add: LOOPBACK_QUEUE_SIZE_def)
  with lq.enqueue_spec [OF l(2), of "demo_buf id"] obtain lq1 where
    q: "cleanq_enqueue loopback_f lq (demo_buf id) = Inr (CLEANQ_ERR_OK, lq1)" "lq_inv lq1" "lq_contents lq1 = [demo_buf id]"
    using l(3,4) by (metis append_Nil)
  let ?que = "demo_ipq 2 1 demo_mem lq1"
  have h: "ip_part ?que (demo_buf id) = replicate 20 0"
    by (simp add: ip_part_def demo_ipq_def bytes_at_def demo_mem_def map_replicate_const)
  have "zeroed (replicate 20 0) = replicate 20 0" by (simp add: zeroed_def numeral_eq_Suc)
  then have "verdict (replicate 20 0) 1 IP_PROTO_UDP = CLEANQ_ERR_IP_CHKSUM"
    by (simp add: verdict_def rd16_def ld16_def rte_ipv4_cksum_nonzero)
  then have v: "CLEANQ_ERR_IP_CHKSUM = verdict (ip_part ?que (demo_buf id)) (ip_dest (ph_ip (iq_header ?que))) (iq_proto ?que)"
    unfolding h by (simp add: demo_ipq_def init_header_def)
  have "lq_inv (iq_rx ?que)" "lq_contents (iq_rx ?que) = [demo_buf id]" using q by (simp_all add: demo_ipq_def)
  from ip_drop_returns_buffer [OF this _ v, of loopback_f empty_buf] l(1) q(1) show ?thesis
    by (simp add: demo_ipq_def) blast
qed

end
