(* ===== verification/Udp_Queue.thy ===== *)
theory Udp_Queue
  imports Ip_Queue
begin

text \<open>
  The UDP module, \<open>lib/libcleanq_udp/src/cleanq_module_udp.c\<close>: a queue on top of an IP queue. Sending
  writes the UDP header behind the IP header and passes the buffer to the IP queue; receiving gives
  packets for another port back. \<open>g\<close> is the table of function pointers of the IP queue below, whose
  packet memory the module writes to.

  Contents: the operations; the frame a UDP queue sends; that its peer receives it; that packets for
  another port go back to the receive queue.
\<close>

section \<open>State and operations\<close>

record ('r, 't) udp_q = cleanq +
  uq_q :: "('r, 't) ip_q"
  uq_header :: udp_hdr
  uq_dst_port :: u16
  uq_src_port :: u16
  uq_regions :: "region_vaddr list"

definition udp_register ::
  "('r, 't) ip_q cleanq_func_pointer \<Rightarrow> ('r, 't) udp_q \<Rightarrow> capref \<Rightarrow> regionid \<Rightarrow> (errval \<times> ('r, 't) udp_q) cres" where
  "udp_register g que cap rid =
     (let que1 = que\<lparr>uq_regions := (uq_regions que)[vaddr_slot rid := \<lparr>rv_va = cap_vaddr cap, rv_rid = rid\<rparr>]\<rparr> in
      bindc (fcall (f_reg g) (\<lambda>reg. reg (uq_q que1) cap rid)) (\<lambda>(err, q). Inr (err, que1\<lparr>uq_q := q\<rparr>)))"

definition udp_deregister ::
  "('r, 't) ip_q cleanq_func_pointer \<Rightarrow> ('r, 't) udp_q \<Rightarrow> regionid \<Rightarrow> (errval \<times> ('r, 't) udp_q) cres" where
  "udp_deregister g que rid =
     (let que1 = que\<lparr>uq_regions := (uq_regions que)[vaddr_slot rid := \<lparr>rv_va = 0, rv_rid = 0\<rparr>]\<rparr> in
      bindc (fcall (f_dereg g) (\<lambda>dereg. dereg (uq_q que1) rid)) (\<lambda>(err, q). Inr (err, que1\<lparr>uq_q := q\<rparr>)))"

definition udp_control ::
  "('r, 't) ip_q cleanq_func_pointer \<Rightarrow> ('r, 't) udp_q \<Rightarrow> u64 \<Rightarrow> u64 \<Rightarrow> u64 \<Rightarrow> (errval \<times> u64 \<times> ('r, 't) udp_q) cres" where
  "udp_control g que cmd value result =
     bindc (fcall (f_ctrl g) (\<lambda>ctrl. ctrl (uq_q que) cmd value result)) (\<lambda>(err, res, q). Inr (err, res, que\<lparr>uq_q := q\<rparr>))"

definition udp_notify :: "('r, 't) ip_q cleanq_func_pointer \<Rightarrow> ('r, 't) udp_q \<Rightarrow> (errval \<times> ('r, 't) udp_q) cres" where
  "udp_notify g que = bindc (fcall (f_notify g) (\<lambda>notify. notify (uq_q que))) (\<lambda>(err, q). Inr (err, que\<lparr>uq_q := q\<rparr>))"

text \<open>The UDP header starts at byte 34 of the frame.\<close>

definition udp_enqueue ::
  "('r, 't) ip_q cleanq_func_pointer \<Rightarrow> ('r, 't) udp_q \<Rightarrow> cleanq_buf \<Rightarrow> (errval \<times> ('r, 't) udp_q) cres" where
  "udp_enqueue g que b =
     (if b_flags b AND NETIF_TXFLAG \<noteq> 0 then
        let que1 = que\<lparr>uq_header := (uq_header que)\<lparr>udp_len := htons (ucast (b_valid_length b - IP_HLEN - ETH_HLEN)),
                                                  udp_dest := ucast (b_flags b AND 0xffff)\<rparr>\<rparr> in
        if \<not> rv_va (uq_regions que1 ! vaddr_slot (b_rid b)) \<noteq> 0 then Inl Assert_Failed
        else bindc (mem_write (iq_mem (uq_q que1)) (frame_addr (uq_regions que1) b + 34) (udp_bytes (uq_header que1))) (\<lambda>m.
             bindc (fcall (f_enq g) (\<lambda>enq. enq ((uq_q que1)\<lparr>iq_mem := m\<rparr>) b)) (\<lambda>(err, q). Inr (err, que1\<lparr>uq_q := q\<rparr>)))
      else if b_flags b AND NETIF_RXFLAG \<noteq> 0 then
        if \<not> b_valid_length b \<le> 2048 then Inl Assert_Failed
        else bindc (fcall (f_enq g) (\<lambda>enq. enq (uq_q que) b)) (\<lambda>(err, q). Inr (err, que\<lparr>uq_q := q\<rparr>))
      else Inr (Errval_Int (- 1), que))"

definition udp_dequeue ::
  "('r, 't) ip_q cleanq_func_pointer \<Rightarrow> ('r, 't) udp_q \<Rightarrow> cleanq_buf \<Rightarrow> (errval \<times> cleanq_buf \<times> ('r, 't) udp_q) cres" where
  "udp_dequeue g que b0 =
     bindc (fcall (f_deq g) (\<lambda>deq. deq (uq_q que) b0)) (\<lambda>(err, b, q).
     let que1 = que\<lparr>uq_q := q\<rparr> in
     if err_is_fail err then Inr (err, b, que1)
     else if b_flags b AND NETIF_RXFLAG \<noteq> 0 then
       let header = frame_addr (uq_regions que1) b + 34 in
       bindc (mem_read (iq_mem q) (header + 2) 2) (\<lambda>dest.
       if rd16 dest \<noteq> htons (uq_dst_port que1) then
         bindc (fcall (f_enq g) (\<lambda>enq. enq q (b\<lparr>b_flags := NETIF_RXFLAG\<rparr>))) (\<lambda>(_, q').
         Inr (CLEANQ_ERR_UDP_WRONG_PORT, b, que1\<lparr>uq_q := q'\<rparr>))
       else bindc (mem_read (iq_mem q) header 2) (\<lambda>src.
         Inr (CLEANQ_ERR_OK, b\<lparr>b_flags := b_flags b OR ucast (rd16 src)\<rparr>, que1)))
     else Inr (CLEANQ_ERR_OK, b, que1))"

definition udp_f :: "('r, 't) ip_q cleanq_func_pointer \<Rightarrow> ('r, 't) udp_q cleanq_func_pointer" where
  "udp_f g =
     \<lparr>f_reg = Some (udp_register g), f_dereg = Some (udp_deregister g), f_ctrl = Some (udp_control g),
      f_notify = Some (udp_notify g), f_enq = Some (udp_enqueue g), f_deq = Some (udp_dequeue g), f_destroy = None\<rparr>"

text \<open>\<open>c\<close> and \<open>rnd\<close> are the allocations and the random number of the UDP queue, \<open>d\<close> and \<open>rnd'\<close> those of the IP queue.\<close>

definition udp_create ::
  "bool \<times> bool \<times> bool \<Rightarrow> u32 \<Rightarrow> bool \<times> bool \<times> bool \<Rightarrow> u32 \<Rightarrow> pkt_mem \<Rightarrow> 'r \<Rightarrow> 't \<Rightarrow> u16 \<Rightarrow> u16 \<Rightarrow> u32 \<Rightarrow> u32 \<Rightarrow>
   eth_addr \<Rightarrow> eth_addr \<Rightarrow> (errval \<times> ('r, 't) udp_q option) cres" where
  "udp_create c rnd d rnd' mem nic_rx nic_tx src_port dst_port src_ip dst_ip src_mac dst_mac =
     (case (c, d) of ((c0, c1, c2), (d0, d1, d2)) \<Rightarrow>
      if \<not> c0 then Inl Assert_Failed
      else bindc (ip_create d0 d1 d2 rnd' mem nic_rx nic_tx UDP_PROT src_ip dst_ip src_mac dst_mac) (\<lambda>(err, q).
        if err_is_fail err then Inr (err, None)
        else case (q, cleanq_init c1 c2 rnd) of
               (Some q', (err', Some p)) \<Rightarrow>
                 if err_is_fail err' then Inr (err', None)
                 else Inr (CLEANQ_ERR_OK, Some
                   \<lparr>cq_pool = p, cq_state = 0, uq_q = q',
                    uq_header = \<lparr>udp_src = htons src_port, udp_dest = htons dst_port, udp_len = 0, udp_chksum = 0\<rparr>,
                    uq_dst_port = dst_port, uq_src_port = src_port,
                    uq_regions = replicate MAX_NUM_REGIONS \<lparr>rv_va = 0, rv_rid = 0\<rparr>\<rparr>)
             | (_, (err', _)) \<Rightarrow> Inr (err', None)))"

definition udp_destroy :: "('r, 't) udp_q \<Rightarrow> (errval \<times> ('r, 't) udp_q option) cres" where
  "udp_destroy que = Inr (CLEANQ_ERR_OK, None)"

text \<open>The 42 bytes in front of the data are the three headers.\<close>

definition udp_write_buffer :: "('r, 't) udp_q \<Rightarrow> regionid \<Rightarrow> u64 \<Rightarrow> u8 list \<Rightarrow> (errval \<times> ('r, 't) udp_q) cres" where
  "udp_write_buffer que rid off data =
     (if \<not> length data \<le> 1500 then Inl Assert_Failed
      else let va = rv_va (uq_regions que ! vaddr_slot rid) in
        if va \<noteq> 0 then bindc (mem_write (iq_mem (uq_q que)) (va + off + 42) data) (\<lambda>m.
          Inr (CLEANQ_ERR_OK, que\<lparr>uq_q := (uq_q que)\<lparr>iq_mem := m\<rparr>\<rparr>))
        else Inr (CLEANQ_ERR_INVALID_REGION_ARGS, que))"

section \<open>Frames\<close>

text \<open>The UDP header of the next packet. The low 16 bits of the flags are the destination port, in
  network order.\<close>

definition next_udp :: "('r, 't) udp_q \<Rightarrow> cleanq_buf \<Rightarrow> udp_hdr" where
  "next_udp que b = (uq_header que)\<lparr>udp_len := htons (ucast (b_valid_length b - IP_HLEN - ETH_HLEN)),
     udp_dest := ucast (b_flags b AND 0xffff)\<rparr>"

text \<open>Both modules have the region of the buffer at the same address and the 42 bytes of headers are mapped.\<close>

definition udp_can_send :: "('r, 't) udp_q \<Rightarrow> cleanq_buf \<Rightarrow> bool" where
  "udp_can_send que b \<longleftrightarrow> b_flags b AND NETIF_TXFLAG \<noteq> 0 \<and> rv_va (uq_regions que ! vaddr_slot (b_rid b)) \<noteq> 0 \<and>
     rv_va (iq_regions (uq_q que) ! vaddr_slot (b_rid b)) = rv_va (uq_regions que ! vaddr_slot (b_rid b)) \<and>
     mapped (iq_mem (uq_q que)) (frame_addr (uq_regions que) b) 42"

definition udp_sent :: "('r, 't) udp_q \<Rightarrow> cleanq_buf \<Rightarrow> 't \<Rightarrow> ('r, 't) udp_q" where
  "udp_sent que b t = que\<lparr>uq_header := next_udp que b,
     uq_q := sent ((uq_q que)\<lparr>iq_mem := put (iq_mem (uq_q que)) (frame_addr (uq_regions que) b + 34) (udp_bytes (next_udp que b))\<rparr>) b t\<rparr>"

lemma udp_frame_addr: "udp_can_send que b \<Longrightarrow> frame_addr (iq_regions (uq_q que)) b = frame_addr (uq_regions que) b"
  by (simp add: udp_can_send_def frame_addr_def)

lemma udp_enqueue_tx:
  assumes s: "udp_can_send que b" and low: "fcall (f_enq gt) (\<lambda>enq. enq (iq_tx (uq_q que)) b) = Inr (err, t)"
  shows "udp_enqueue (ip_f cap0 gr gt) que b = Inr (err, udp_sent que b t)"
proof -
  let ?a = "frame_addr (uq_regions que) b" and ?m = "iq_mem (uq_q que)"
  let ?q = "(uq_q que)\<lparr>iq_mem := put ?m (?a + 34) (udp_bytes (next_udp que b))\<rparr>"
  have m: "mapped ?m (?a + of_nat 34) 8" "mapped ?m (?a + of_nat 0) 34"
    using s by (auto simp only: udp_can_send_def intro!: mapped_sub [of ?m ?a 42])
  then have w: "mem_write ?m (?a + 34) (udp_bytes (next_udp que b)) = Inr (put ?m (?a + 34) (udp_bytes (next_udp que b)))"
    by (intro mem_write_mapped) simp_all
  have "can_send ?q b"
    using s m(2) by (simp add: can_send_def udp_can_send_def udp_frame_addr [OF s] mapped_put)
  from ip_enqueue_tx [OF this, of gt err t gr] low
  have "ip_enqueue gr gt ?q b = Inr (err, sent ?q b t)" by simp
  then show ?thesis using s w
    by (simp add: udp_enqueue_def udp_can_send_def udp_sent_def next_udp_def ip_f_def Let_def)
qed

lemma udp_sent_frame:
  assumes "udp_can_send que b"
  shows "bytes_at (iq_mem (uq_q (udp_sent que b t))) (frame_addr (uq_regions que) b) 42 =
    hdr_bytes (next_header (iq_header (uq_q que)) (b_valid_length b) (iq_pkt_id (uq_q que) + 1)) @ udp_bytes (next_udp que b)"
proof -
  let ?a = "frame_addr (uq_regions que) b" and ?m = "iq_mem (uq_q que)"
  let ?h = "hdr_bytes (next_header (iq_header (uq_q que)) (b_valid_length b) (iq_pkt_id (uq_q que) + 1))"
  let ?u = "udp_bytes (next_udp que b)"
  have "bytes_at (put ?m (?a + of_nat 34) ?u) ?a 42 = take 34 (bytes_at ?m ?a 42) @ ?u"
    by (subst bytes_at_put_mid) simp_all
  then have "bytes_at (put (put ?m (?a + 34) ?u) (?a + of_nat 0) ?h) ?a 42 = ?h @ ?u"
    by (subst bytes_at_put_mid) simp_all
  then show ?thesis by (simp add: udp_sent_def sent_def Let_def udp_frame_addr [OF assms])
qed

lemma udp_bytes_fields: "take 2 (udp_bytes h) = st16 (udp_src h)" "take 2 (drop 2 (udp_bytes h)) = st16 (udp_dest h)"
  by (simp_all add: udp_bytes_def)

text \<open>Receiving, once the IP queue below has accepted the packet.\<close>

lemma udp_receive:
  assumes low: "fcall (f_deq g) (\<lambda>deq. deq (uq_q que) b0) = Inr (CLEANQ_ERR_OK, b, q)" and rx: "b_flags b AND NETIF_RXFLAG \<noteq> 0"
    and m: "mapped (iq_mem q) (frame_addr (uq_regions que) b + 34) 8"
    and h: "bytes_at (iq_mem q) (frame_addr (uq_regions que) b + 34) 8 = udp_bytes h"
  shows "udp_dequeue g que b0 =
    (if udp_dest h = htons (uq_dst_port que)
     then Inr (CLEANQ_ERR_OK, b\<lparr>b_flags := b_flags b OR ucast (udp_src h)\<rparr>, que\<lparr>uq_q := q\<rparr>)
     else bindc (fcall (f_enq g) (\<lambda>enq. enq q (b\<lparr>b_flags := NETIF_RXFLAG\<rparr>))) (\<lambda>(_, q').
       Inr (CLEANQ_ERR_UDP_WRONG_PORT, b, que\<lparr>uq_q := q'\<rparr>)))"
proof -
  let ?a = "frame_addr (uq_regions que) b + 34"
  have "mapped (iq_mem q) (?a + of_nat 2) 2" "mapped (iq_mem q) (?a + of_nat 0) 2" by (rule mapped_sub [OF m]; simp)+
  moreover have "bytes_at (iq_mem q) (?a + of_nat 2) 2 = st16 (udp_dest h)" "bytes_at (iq_mem q) (?a + of_nat 0) 2 = st16 (udp_src h)"
    by (subst bytes_at_sub [where n = 8]; simp add: h udp_bytes_fields)+
  ultimately have "mem_read (iq_mem q) (?a + 2) 2 = Inr (st16 (udp_dest h))" "mem_read (iq_mem q) ?a 2 = Inr (st16 (udp_src h))"
    by (simp_all add: mem_read_mapped)
  then show ?thesis by (simp add: udp_dequeue_def low err_is_fail_def rx Let_def)
qed

lemma RX_not_TX: "NETIF_RXFLAG AND NETIF_TXFLAG = 0"
  by (simp add: NETIF_RXFLAG_def NETIF_TXFLAG_def)

lemma ip_enqueue_back:
  assumes "fcall (f_enq gr) (\<lambda>enq. enq (iq_rx q) (b\<lparr>b_flags := NETIF_RXFLAG\<rparr>)) = Inr (err, r)"
  shows "ip_enqueue gr gt q (b\<lparr>b_flags := NETIF_RXFLAG\<rparr>) =
    (if b_valid_length b \<le> 2048 then Inr (err, q\<lparr>iq_rx := r\<rparr>) else Inl Assert_Failed)"
  using assms by (simp add: ip_enqueue_def RX_not_TX)

section \<open>Properties\<close>

text \<open>Property C7: UDP over IP, end to end. When the receive queue delivers a buffer whose frame holds the 42
  header bytes that a peer wrote, the UDP queue hands it to the client if the destination port is
  the queue's, marks it as received and puts the sender's port into the flags. Otherwise the buffer
  goes back to the receive queue and the wrong port is reported, except that a packet of more than
  2048 bytes for another port fails an assertion.\<close>

theorem udp_delivery:
  assumes s: "udp_can_send A b" and tx: "fcall (f_enq gt) (\<lambda>enq. enq (iq_tx (uq_q A)) b) = Inr (err, t)"
    and A': "udp_enqueue (ip_f c gr gt) A b = Inr (err', A')"
    and rx: "fcall (f_deq gr') (\<lambda>deq. deq (iq_rx (uq_q B)) b0) = Inr (CLEANQ_ERR_OK, b', r)"
    and va: "rv_va (iq_regions (uq_q B) ! vaddr_slot (b_rid b')) = rv_va (uq_regions B ! vaddr_slot (b_rid b'))"
    and m: "mapped (iq_mem (uq_q B)) (frame_addr (uq_regions B) b') 42"
    and same: "bytes_at (iq_mem (uq_q B)) (frame_addr (uq_regions B) b') 42 =
      bytes_at (iq_mem (uq_q A')) (frame_addr (uq_regions A) b) 42"
    and peer: "ip_dest (ph_ip (iq_header (uq_q B))) = ip_src (ph_ip (iq_header (uq_q A)))"
      "iq_proto (uq_q B) = ip_proto (ph_ip (iq_header (uq_q A)))"
    and rb: "fcall (f_enq gr') (\<lambda>enq. enq r (b'\<lparr>b_flags := NETIF_RXFLAG\<rparr>)) = Inr (err2, r2)"
  shows "udp_dequeue (ip_f c' gr' gt') B b0 =
    (if ucast (b_flags b AND 0xffff) = htons (uq_dst_port B)
     then Inr (CLEANQ_ERR_OK, b'\<lparr>b_flags := b_flags b' OR NETIF_RXFLAG OR ucast (udp_src (uq_header A))\<rparr>,
            B\<lparr>uq_q := (uq_q B)\<lparr>iq_rx := r\<rparr>\<rparr>)
     else if b_valid_length b' \<le> 2048
     then Inr (CLEANQ_ERR_UDP_WRONG_PORT, b'\<lparr>b_flags := b_flags b' OR NETIF_RXFLAG\<rparr>, B\<lparr>uq_q := (uq_q B)\<lparr>iq_rx := r2\<rparr>\<rparr>)
     else Inl Assert_Failed)"
proof -
  let ?a = "frame_addr (uq_regions B) b'" and ?m = "iq_mem (uq_q B)"
  let ?h = "next_header (iq_header (uq_q A)) (b_valid_length b) (iq_pkt_id (uq_q A) + 1)"
  let ?b = "b'\<lparr>b_flags := b_flags b' OR NETIF_RXFLAG\<rparr>"
  have "A' = udp_sent A b t" using udp_enqueue_tx [OF s tx, of c gr] A' by simp
  then have f: "bytes_at ?m ?a 42 = hdr_bytes ?h @ udp_bytes (next_udp A b)" using same udp_sent_frame [OF s] by simp
  have fa: "frame_addr (iq_regions (uq_q B)) b' = ?a" using va by (simp add: frame_addr_def)
  have "bytes_at ?m (?a + of_nat 0) 34 = hdr_bytes ?h" "bytes_at ?m (?a + of_nat 34) 8 = udp_bytes (next_udp A b)"
    by (subst bytes_at_sub [where n = 42]; simp add: f)+
  then have parts: "bytes_at ?m ?a 34 = hdr_bytes ?h" "bytes_at ?m (?a + 34) 8 = udp_bytes (next_udp A b)" by simp_all
  have mp: "mapped ?m ?a 34" "mapped ?m (?a + 34) 8" using mapped_sub [OF m, of 0 34] mapped_sub [OF m, of 34 8] by simp_all
  have "ip_dequeue gr' gt' (uq_q B) b0 = Inr (CLEANQ_ERR_OK, ?b, (uq_q B)\<lparr>iq_rx := r\<rparr>)"
    by (rule ip_accepts [OF rx, of ?h]) (use mp parts peer sealed_next_header in \<open>simp_all add: fa next_header_def Let_def\<close>)
  then have low: "fcall (f_deq (ip_f c' gr' gt')) (\<lambda>deq. deq (uq_q B) b0) = Inr (CLEANQ_ERR_OK, ?b, (uq_q B)\<lparr>iq_rx := r\<rparr>)"
    by (simp add: ip_f_def)
  have "b_flags ?b AND NETIF_RXFLAG \<noteq> 0" by (simp add: or_and_absorb)
  from udp_receive [OF low this, of "next_udp A b"] mp(2) parts(2)
  show ?thesis using ip_enqueue_back [of gr' "(uq_q B)\<lparr>iq_rx := r\<rparr>" b' err2 r2 gt'] rb
    by (simp add: ip_f_def next_udp_def or.assoc)
qed

definition demo_udpq :: "u32 \<Rightarrow> u32 \<Rightarrow> u16 \<Rightarrow> pkt_mem \<Rightarrow> loopback_queue \<Rightarrow> (loopback_queue, loopback_queue) udp_q" where
  "demo_udpq src dst port mem rx =
     \<lparr>cq_pool = demo_pool, cq_state = 0, uq_q = demo_ipq src dst mem rx,
      uq_header = \<lparr>udp_src = htons 7000, udp_dest = 0, udp_len = 0, udp_chksum = 0\<rparr>,
      uq_dst_port = port, uq_src_port = 7000,
      uq_regions = replicate MAX_NUM_REGIONS \<lparr>rv_va = 0x10000, rv_rid = 0\<rparr>\<rparr>"

text \<open>A packet for port 1234 that its peer accepts and a queue for port 4321 gives back.\<close>

theorem udp_delivery_witness:
  "\<exists>A' B1 B2 b. b = demo_pkt 5\<lparr>b_flags := NETIF_TXFLAG OR ucast (htons 1234)\<rparr> \<and>
     udp_enqueue (ip_f demo_cap loopback_f loopback_f) (demo_udpq 1 2 9 demo_mem demo_lq) b = Inr (CLEANQ_ERR_OK, A') \<and>
     udp_dequeue (ip_f demo_cap loopback_f loopback_f) (demo_udpq 2 1 1234 (iq_mem (uq_q A')) (demo_one b)) empty_buf =
       Inr (CLEANQ_ERR_OK, b\<lparr>b_flags := b_flags b OR NETIF_RXFLAG OR ucast (htons 7000)\<rparr>, B1) \<and>
     udp_dequeue (ip_f demo_cap loopback_f loopback_f) (demo_udpq 2 1 4321 (iq_mem (uq_q A')) (demo_one b)) empty_buf =
       Inr (CLEANQ_ERR_UDP_WRONG_PORT, b\<lparr>b_flags := b_flags b OR NETIF_RXFLAG\<rparr>, B2)"
proof -
  let ?f = "ip_f demo_cap loopback_f loopback_f" and ?A = "demo_udpq 1 2 9 demo_mem demo_lq"
  define b where "b = demo_pkt 5\<lparr>b_flags := NETIF_TXFLAG OR ucast (htons 1234)\<rparr>"
  have p: "(ucast (b_flags b AND 0xffff) :: u16) = htons 1234"
    by (simp add: b_def demo_pkt_def NETIF_TXFLAG_def htons_def)
  have s: "udp_can_send ?A b"
    by (simp add: udp_can_send_def demo_udpq_def demo_ipq_def b_def demo_pkt_def NETIF_TXFLAG_def htons_def)
  have i: "iq_tx (uq_q ?A) = demo_lq" by (simp add: demo_udpq_def demo_ipq_def)
  obtain t where t: "fcall (f_enq loopback_f) (\<lambda>enq. enq (iq_tx (uq_q ?A)) b) = Inr (CLEANQ_ERR_OK, t)"
    using demo_enq unfolding i by blast
  note e = udp_enqueue_tx [OF s t, of demo_cap loopback_f]
  let ?B = "\<lambda>port. demo_udpq 2 1 port (iq_mem (uq_q (udp_sent ?A b t))) (demo_one b)"
  have g: "iq_rx (uq_q (?B port)) = demo_one b" for port by (simp add: demo_udpq_def demo_ipq_def)
  obtain r r2 where r: "fcall (f_deq loopback_f) (\<lambda>deq. deq (demo_one b) empty_buf) = Inr (CLEANQ_ERR_OK, b, r)"
    and r2: "fcall (f_enq loopback_f) (\<lambda>enq. enq r (b\<lparr>b_flags := NETIF_RXFLAG\<rparr>)) = Inr (CLEANQ_ERR_OK, r2)"
    using demo_one_deq by blast
  have m: "mapped (iq_mem (uq_q (?B port))) (frame_addr (uq_regions (?B port)) b) 42" for port
    by (simp add: demo_udpq_def demo_ipq_def udp_sent_def sent_def Let_def mapped_put)
  have rB: "fcall (f_deq loopback_f) (\<lambda>deq. deq (iq_rx (uq_q (?B port))) empty_buf) = Inr (CLEANQ_ERR_OK, b, r)" for port
    unfolding g by (rule r)
  note w = udp_delivery [OF s t e rB _ m _ _ _ r2, of _ demo_cap loopback_f]
  have side: "htons 1234 \<noteq> htons 4321" "b_valid_length b \<le> 2048" by (simp_all add: htons_def b_def demo_pkt_def)
  have d: "udp_dequeue ?f (?B port) empty_buf =
    (if htons 1234 = htons port
     then Inr (CLEANQ_ERR_OK, b\<lparr>b_flags := b_flags b OR NETIF_RXFLAG OR ucast (htons 7000)\<rparr>, (?B port)\<lparr>uq_q := (uq_q (?B port))\<lparr>iq_rx := r\<rparr>\<rparr>)
     else Inr (CLEANQ_ERR_UDP_WRONG_PORT, b\<lparr>b_flags := b_flags b OR NETIF_RXFLAG\<rparr>, (?B port)\<lparr>uq_q := (uq_q (?B port))\<lparr>iq_rx := r2\<rparr>\<rparr>))" for port
    by (subst w) (use side(2) in \<open>simp_all add: p\<close>, simp_all add: demo_udpq_def demo_ipq_def init_header_def)
  obtain B1 where "udp_dequeue ?f (?B 1234) empty_buf =
      Inr (CLEANQ_ERR_OK, b\<lparr>b_flags := b_flags b OR NETIF_RXFLAG OR ucast (htons 7000)\<rparr>, B1)"
    using d [of 1234] by simp
  moreover obtain B2 where "udp_dequeue ?f (?B 4321) empty_buf =
      Inr (CLEANQ_ERR_UDP_WRONG_PORT, b\<lparr>b_flags := b_flags b OR NETIF_RXFLAG\<rparr>, B2)"
    using d [of 4321] side(1) by simp
  ultimately show ?thesis using e b_def by blast
qed

text \<open>Where \<open>udp_write_buffer\<close> puts the data: behind 42 bytes from the start of the buffer, while the headers
  of a packet start 128 bytes behind the valid data. Data of up to 128 bytes do not reach the
  packet's payload, which starts 170 bytes into the buffer.\<close>

lemma udp_write_buffer_misses_payload:
  assumes "rv_va (uq_regions que ! vaddr_slot rid) \<noteq> 0" "length data \<le> 128"
    and m: "mapped (iq_mem (uq_q que)) (rv_va (uq_regions que ! vaddr_slot rid) + off + 42) (length data)"
    and b: "b_rid b = rid" "b_offset b = off" "b_valid_data b = 0" and n: "n \<le> 65536"
  shows "\<exists>que'. udp_write_buffer que rid off data = Inr (CLEANQ_ERR_OK, que') \<and>
    bytes_at (iq_mem (uq_q que')) (frame_addr (uq_regions que) b + 42) n = bytes_at (iq_mem (uq_q que)) (frame_addr (uq_regions que) b + 42) n"
proof -
  let ?va = "rv_va (uq_regions que ! vaddr_slot rid)"
  have "apart (?va + off + 42) (length data) (frame_addr (uq_regions que) b + 42) n"
    unfolding apart_def
  proof (intro allI impI)
    fix i assume i: "i < n"
    have e: "frame_addr (uq_regions que) b + 42 + of_nat i - (?va + off + 42) = of_nat (128 + i)"
      using b by (simp add: frame_addr_def)
    have "unat (of_nat (128 + i) :: u64) = 128 + i" using i n by (simp add: unat_of_nat del: of_nat_add)
    then show "length data \<le> unat (frame_addr (uq_regions que) b + 42 + of_nat i - (?va + off + 42))"
      unfolding e using assms(2) by simp
  qed
  moreover have "mem_write (iq_mem (uq_q que)) (?va + off + 42) data = Inr (put (iq_mem (uq_q que)) (?va + off + 42) data)"
    using m assms(2) by (intro mem_write_mapped) simp_all
  ultimately show ?thesis using assms(1,2) by (simp add: udp_write_buffer_def Let_def bytes_at_put_apart)
qed

text \<open>Registering a region enters its address in the tables of both modules, which is what sending relies on.\<close>

lemma udp_register_agrees:
  assumes "udp_register (ip_f cap0 gr gt) que cap rid = Inr (err, que')"
    and "length (uq_regions que) = MAX_NUM_REGIONS" "ip_wf (uq_q que)"
  shows "rv_va (uq_regions que' ! vaddr_slot rid) = cap_vaddr cap \<and>
    rv_va (iq_regions (uq_q que') ! vaddr_slot rid) = cap_vaddr cap \<and> iq_mem (uq_q que') = iq_mem (uq_q que)"
  using assms by (auto simp: udp_register_def ip_register_def ip_f_def ip_wf_def bindc_eq_Inr Let_def)

end
