(* ===== verification/Udp_Bench.thy ===== *)
theory Udp_Bench
  imports Udp_Queue Echo_Server
begin

text \<open>
  The UDP benchmark, \<open>benchmark_cleanq_udp/main.c\<close>, as it is compiled (\<open>CLEANQ_STACK\<close>): a UDP queue on top
  of the receive and the transmit ring of a port. The program fills the receive ring with mbufs through
  the UDP queue and then, in rounds, takes up to 32 buffers from it: packets are sent back, buffers
  whose packet was sent are supplied to the receive ring again.

  All mbufs are one memory, which the model keeps in the state of both rings. The transmit functions
  only read it, so after every operation the transmit ring gets what the receive ring has.

  Contents: the operations; that the stack of modules and rings moves an mbuf where it should in every
  case of a dequeue or enqueue; that the program loses no mbuf in any run; that a round answers the packets it accepts; that filling works when the
  queues gave the mempool the same identifier, and puts nothing into the ring when they did not.
\<close>

section \<open>The stack\<close>

type_synonym udp_port = "(ixgbe_rx_queue, ixgbe_tx_queue) udp_q"

abbreviation nic_rx :: "udp_port \<Rightarrow> ixgbe_rx_queue" where "nic_rx que \<equiv> iq_rx (uq_q que)"
abbreviation nic_tx :: "udp_port \<Rightarrow> ixgbe_tx_queue" where "nic_tx que \<equiv> iq_tx (uq_q que)"
abbreviation pkts_mem :: "udp_port \<Rightarrow> pkt_mem" where "pkts_mem que \<equiv> iq_mem (uq_q que)"

lemma udp_q_pool [simp]:
  "cq_pool (que\<lparr>uq_q := x\<rparr>) = cq_pool que" "cq_pool (que\<lparr>uq_header := h\<rparr>) = cq_pool que"
  by (cases que; simp)+

definition share_mbufs :: "udp_port \<Rightarrow> udp_port" where
  "share_mbufs que = que\<lparr>uq_q := (uq_q que)\<lparr>iq_tx := (nic_tx que)\<lparr>mbufs := mbufs (nic_rx que)\<rparr>\<rparr>\<rparr>"

text \<open>\<open>cap0\<close> is the capability only deregistering reads.\<close>

definition stack_f :: "capref \<Rightarrow> udp_port cleanq_func_pointer" where
  "stack_f cap0 = udp_f (ip_f cap0 ixgbe_rx_f ixgbe_tx_f)"

definition stack_enqueue :: "capref \<Rightarrow> udp_port \<Rightarrow> cleanq_buf \<Rightarrow> (errval \<times> udp_port) cres" where
  "stack_enqueue cap0 que b = bindc (cleanq_enqueue (stack_f cap0) que b) (\<lambda>(err, que'). Inr (err, share_mbufs que'))"

definition stack_dequeue :: "capref \<Rightarrow> udp_port \<Rightarrow> cleanq_buf \<Rightarrow> (errval \<times> cleanq_buf \<times> udp_port) cres" where
  "stack_dequeue cap0 que b = bindc (cleanq_dequeue (stack_f cap0) que b) (\<lambda>(err, b', que'). Inr (err, b', share_mbufs que'))"

text \<open>The UDP queue as the conversion of mbufs sees it: its own pool and the mbufs of the port.\<close>

definition udp_view :: "udp_port \<Rightarrow> dpdk_queue" where
  "udp_view que = \<lparr>cq_pool = cq_pool que, cq_state = cq_state que, mempools = mempools (nic_rx que), mbufs = mbufs (nic_rx que)\<rparr>"

section \<open>Operations\<close>

text \<open>Receiving: up to \<open>n\<close> buffers, with \<open>b0\<close> what \<open>cqbuf\<close> holds. Every packet comes with its flags. A
  buffer that was sent is supplied to the receive ring with a length of 2176; the outcome is not looked at.\<close>

fun bench_recv :: "capref \<Rightarrow> nat \<Rightarrow> udp_port \<Rightarrow> cleanq_buf \<Rightarrow> ((u64 \<times> u64) list \<times> udp_port) cres" where
  "bench_recv cap0 0 que b0 = Inr ([], que)"
| "bench_recv cap0 (Suc n) que b0 =
     bindc (stack_dequeue cap0 que b0) (\<lambda>(err, cqbuf, que1).
     if err_is_fail err then Inr ([], que1)
     else if b_flags cqbuf AND NETIF_RXFLAG \<noteq> 0 then
       bindc (cleanq_buf_to_mbuf (nic_rx que1) cqbuf) (\<lambda>mb.
       bindc (bench_recv cap0 n que1 cqbuf) (\<lambda>(pkts, que2). Inr ((mb, b_flags cqbuf) # pkts, que2)))
     else
       let cqbuf1 = cqbuf\<lparr>b_flags := NETIF_RXFLAG\<rparr> in
       bindc (stack_enqueue cap0 que1 (cqbuf1\<lparr>b_length := 2176\<rparr>)) (\<lambda>(_, que2). bench_recv cap0 n que2 cqbuf1))"

text \<open>Sending the packets back. The result lists the mbufs that are freed because the queue refused one.\<close>

fun bench_send :: "capref \<Rightarrow> (u64 \<times> u64) list \<Rightarrow> udp_port \<Rightarrow> (u64 list \<times> udp_port) cres" where
  "bench_send cap0 [] que = Inr ([], que)"
| "bench_send cap0 ((mb, fl) # pkts) que =
     bindc (mbuf_to_cleanq_buf (udp_view que) mb) (\<lambda>cqbuf.
     bindc (stack_enqueue cap0 que (cqbuf\<lparr>b_flags := (fl AND 0xFFFF) OR NETIF_TXFLAG\<rparr>)) (\<lambda>(err, que1).
     if err_is_fail err then Inr (mb # map fst pkts, que1)
     else bench_send cap0 pkts que1))"

text \<open>One round for the port: the mbufs freed, the number of packets so far and the queue.\<close>

definition bench_round :: "capref \<Rightarrow> cleanq_buf \<Rightarrow> u64 \<Rightarrow> udp_port \<Rightarrow> (u64 list \<times> u64 \<times> udp_port) cres" where
  "bench_round cap0 b0 num_pkt que =
     bindc (bench_recv cap0 (unat BURST_SIZE) que b0) (\<lambda>(pkts, que1).
     if pkts = [] then Inr ([], num_pkt, que1)
     else bindc (bench_send cap0 pkts que1) (\<lambda>(freed, que2). Inr (freed, num_pkt + of_nat (length pkts), que2)))"

definition RX_RING_SIZE :: nat where "RX_RING_SIZE = 1024"

text \<open>Filling the receive ring. \<open>allocs\<close> are the answers of the mempool; \<open>None\<close>, or no answer left, is NULL. The
  result: the mbufs freed, whether an allocation failed, and the queue.\<close>

fun bench_fill :: "capref \<Rightarrow> nat \<Rightarrow> u64 option list \<Rightarrow> udp_port \<Rightarrow> (u64 list \<times> bool \<times> udp_port) cres" where
  "bench_fill cap0 0 allocs que = Inr ([], False, que)"
| "bench_fill cap0 (Suc n) (Some mb # allocs) que =
     bindc (mbuf_to_cleanq_buf (nic_rx que) mb) (\<lambda>cqbuf.
     bindc (stack_enqueue cap0 que (cqbuf\<lparr>b_flags := b_flags cqbuf OR NETIF_RXFLAG\<rparr>)) (\<lambda>(err, que1).
     if err_is_fail err then Inr ([mb], False, que1)
     else bench_fill cap0 n allocs que1))"
| "bench_fill cap0 (Suc n) _ que = Inr ([], True, que)"

definition SRC_PORT :: u16 where "SRC_PORT = 2000"
definition DST_PORT :: u16 where "DST_PORT = 2000"

text \<open>The part of \<open>port_init\<close> that builds the stack on a started port. \<open>c\<close>, \<open>rnd\<close>, \<open>d\<close> and \<open>rnd'\<close> are the
  allocations and random numbers of \<open>udp_create\<close>, \<open>env\<close> those of the registration, \<open>rid0\<close> its
  uninitialised local.\<close>

definition bench_port_init ::
  "bool \<times> bool \<times> bool \<Rightarrow> u32 \<Rightarrow> bool \<times> bool \<times> bool \<Rightarrow> u32 \<Rightarrow> libc \<Rightarrow> regionid \<Rightarrow> capref \<Rightarrow> u64 option list \<Rightarrow> pkt_mem \<Rightarrow>
   ixgbe_rx_queue \<Rightarrow> ixgbe_tx_queue \<Rightarrow> u32 \<Rightarrow> u32 \<Rightarrow> eth_addr \<Rightarrow> eth_addr \<Rightarrow> rte_mempool \<Rightarrow>
   (errval \<times> u64 list \<times> udp_port option) cres" where
  "bench_port_init c rnd d rnd' env rid0 cap0 allocs mem rx tx src_ip dst_ip src_mac dst_mac mbuf_pool =
     bindc (udp_create c rnd d rnd' mem rx tx SRC_PORT DST_PORT src_ip dst_ip src_mac dst_mac) (\<lambda>(err, quo).
     if err_is_fail err then Inr (err, [], quo)
     else case quo of None \<Rightarrow> Inl Bad_Memory
     | Some que \<Rightarrow>
       bindc (cleanq_register_mempool env (stack_f cap0) que mbuf_pool rid0) (\<lambda>(err', que1).
       if err_is_fail err' then Inr (err', [], Some que1)
       else bindc (bench_fill cap0 (RX_RING_SIZE - 1) allocs que1) (\<lambda>(freed, _, que2). Inr (CLEANQ_ERR_OK, freed, Some que2))))"

section \<open>The port's mbufs\<close>

text \<open>An mbuf of the mempool whose memory is region \<open>r\<close>, as the program keeps it everywhere: the default
  size, the data behind the head room and inside the buffer. \<open>bench_mbuf\<close> says that the store has one there,
  \<open>bench_frame\<close> that its first 42 bytes of data are memory.\<close>

definition mbuf_std :: "(addr \<rightharpoonup> rte_mempool) \<Rightarrow> region \<Rightarrow> u64 \<Rightarrow> rte_mbuf \<Rightarrow> bool" where
  "mbuf_std mps r a m \<longleftrightarrow>
     (\<exists>mp c cs. mps (mb_pool m) = Some mp \<and> mem_list mp = c # cs \<and> mh_addr c = r_base_addr r) \<and>
     buf_len m = 2176 \<and> data_off m = RTE_PKTMBUF_HEADROOM \<and> unat (data_len m) \<le> 2048 \<and>
     unat (a - r_base_addr r) + 2176 \<le> unat (r_len r)"

definition bench_mbuf :: "'a dpdk_queue_scheme \<Rightarrow> region \<Rightarrow> u64 \<Rightarrow> bool" where
  "bench_mbuf q r a \<longleftrightarrow> (\<exists>m. mbufs q a = Some m \<and> mbuf_std (mempools q) r a m)"

definition bench_frame :: "pkt_mem \<Rightarrow> u64 \<Rightarrow> bool" where
  "bench_frame mem a \<longleftrightarrow> mapped mem (a + 256) 42"

definition knows_region :: "region_pool \<Rightarrow> region \<Rightarrow> bool" where
  "knows_region p r \<longleftrightarrow> pool_inv p \<and> regions_apart p \<and> pool_map p (r_id r) = Some r"

lemma HEADROOM_128: "RTE_PKTMBUF_HEADROOM = 128"
  by (simp add: RTE_PKTMBUF_HEADROOM_def)

lemma mbuf_std_of_region:
  assumes "knows_region (cq_pool q) r" "mbufs q a = Some m" "mbuf_std (mempools q) r a m"
  shows "mbuf_of_region q a m r"
  using assms by (auto simp: knows_region_def mbuf_std_def mbuf_of_region_def)

lemma mbuf_std_sizes:
  assumes "mbuf_std mps r a m"
  shows "unat (a - r_base_addr r) + unat (buf_len m) \<le> unat (r_len r)"
    "unat (data_off m) + unat (data_len m) \<le> unat (buf_len m)"
  using assms by (simp_all add: mbuf_std_def HEADROOM_128)

lemma bench_mbuf_good:
  assumes "knows_region (cq_pool q) r" "bench_mbuf q r a"
  shows "mbuf_good q a"
proof -
  obtain m where m: "mbufs q a = Some m" "mbuf_std (mempools q) r a m" using assms(2) by (auto simp: bench_mbuf_def)
  show ?thesis unfolding mbuf_good_def
    using mbuf_std_of_region [OF assms(1) m] mbuf_std_sizes [OF m(2)] by blast
qed

text \<open>The buffer of such an mbuf, with any flags: every pool that knows the region accepts it, every queue
  that has the mbuf turns it back.\<close>

definition std_buf :: "u64 \<Rightarrow> rte_mbuf \<Rightarrow> region \<Rightarrow> u64 \<Rightarrow> cleanq_buf" where
  "std_buf a m r fl = (mbuf_buf a m r)\<lparr>b_flags := fl\<rparr>"

lemma std_buf_simps [simp]:
  "(std_buf a m r fl)\<lparr>b_flags := fl'\<rparr> = std_buf a m r fl'" "b_flags (std_buf a m r fl) = fl" "b_rid (std_buf a m r fl) = r_id r"
  "b_offset (std_buf a m r fl) = a - r_base_addr r" "b_valid_length (std_buf a m r fl) = ucast (data_len m)"
  "b_valid_data (std_buf a m r fl) = ucast (data_off m)" "b_length (std_buf a m r fl) = ucast (buf_len m)"
  by (simp_all add: std_buf_def mbuf_buf_def)

lemma mbuf_buf_std: "mbuf_buf a m r = std_buf a m r 0"
  by (simp add: std_buf_def mbuf_buf_def)

lemma std_buf_length: "mbuf_std mps r a m \<Longrightarrow> (std_buf a m r fl)\<lparr>b_length := 2176\<rparr> = std_buf a m r fl"
  by (simp add: std_buf_def mbuf_buf_def mbuf_std_def)

lemma std_buf_in_bounds:
  assumes k: "knows_region p r" and m: "mbuf_std mps r a m"
  shows "in_bounds p (std_buf a m r fl)"
proof -
  obtain k where k': "pool_inv_at k p" using k by (auto simp: knows_region_def pool_inv_def)
  have r: "pool_map p (b_rid (std_buf a m r fl)) = Some r" using k by (simp add: knows_region_def)
  have u: "unat (ucast (x :: u16) :: u64) = unat x" for x by (simp add: unat_ucast_widen)
  have "buf_no_wrap (std_buf a m r fl)" "buf_in_region (std_buf a m r fl) (r_len r)"
    using mbuf_std_sizes [OF m] unat_u16_bound [of "data_off m"] unat_u16_bound [of "data_len m"] unat_u64_bound [of "r_len r"]
    by (simp_all add: buf_no_wrap_def buf_in_region_def u)
  then show ?thesis using check_bounds_in_region [OF k' r] by simp
qed

lemma std_buf_to_mbuf:
  assumes k: "knows_region (cq_pool q) r" and m: "mbufs q a = Some m" "mbuf_std (mempools q) r a m"
  shows "cleanq_buf_to_mbuf q (std_buf a m r fl) = Inr a"
proof -
  have "cleanq_buf_to_mbuf q (std_buf a m r fl) = cleanq_buf_to_mbuf q (mbuf_buf a m r)"
    by (simp add: cleanq_buf_to_mbuf_def std_buf_def Let_def cong: if_cong)
  then show ?thesis using cleanq_buf_to_mbuf_eq [OF _ mbuf_std_of_region [OF assms]] k by (simp add: knows_region_def)
qed

lemma mbuf_to_std_buf:
  assumes k: "knows_region (cq_pool q) r" and m: "mbufs q a = Some m" "mbuf_std (mempools q) r a m"
  shows "mbuf_to_cleanq_buf q a = Inr (std_buf a m r 0)"
  using mbuf_to_cleanq_buf_apart [OF _ _ mbuf_std_of_region [OF assms]] k by (simp add: knows_region_def mbuf_buf_std)

lemma std_buf_addr:
  assumes "knows_region (cq_pool q) r" "mbufs q a = Some m" "mbuf_std (mempools q) r a m"
  shows "buf_addr (cq_pool q) (std_buf a m r fl) = a"
  using cleanq_buf_to_mbuf_addr [OF std_buf_to_mbuf [OF assms]] .

text \<open>The frame of an mbuf starts 256 bytes behind it.\<close>

lemma std_frame_addr:
  assumes "mbuf_std mps r a m" "rv_va (rs ! vaddr_slot (r_id r)) = r_base_addr r"
  shows "frame_addr rs (std_buf a m r fl) = a + 256"
proof -
  have "(ucast (data_off m) :: u64) = 128" using assms(1) by (simp add: mbuf_std_def HEADROOM_128)
  then show ?thesis using assms(2) by (simp add: frame_addr_def)
qed

section \<open>The rings under the stack\<close>

text \<open>What an operation on the receive ring leaves of it.\<close>

definition ring_kept :: "region \<Rightarrow> ixgbe_rx_queue \<Rightarrow> ixgbe_rx_queue \<Rightarrow> bool" where
  "ring_kept r q q' \<longleftrightarrow> cq_pool q' = cq_pool q \<and> mempools q' = mempools q \<and> nb_rx_desc q' = nb_rx_desc q \<and>
     (\<forall>x. bench_mbuf q r x \<longrightarrow> bench_mbuf q' r x)"

lemma bench_mbuf_update:
  assumes "mempools q' = mempools q" "mbufs q' = (mbufs q)(a \<mapsto> m')" "mbuf_std (mempools q) r a m'" "bench_mbuf q r x"
  shows "bench_mbuf q' r x"
  using assms by (cases "x = a") (auto simp: bench_mbuf_def)

lemma rx_room:
  assumes "rx_inv q" "length (rx_contents q) + 1 < unat (nb_rx_desc q)"
  shows "\<not> rx_full q" "\<not> wrap_gap (nb_rx_desc q) (rx_recl q) (rx_tail q)"
  using in_flight_full [OF rx_invD(1) [OF assms(1)]] assms(2) by (auto simp: rx_full_def rx_contents_def)

lemma rx_enqueue_std:
  assumes inv: "rx_inv q" and k: "knows_region (cq_pool q) r" and m: "mbufs q a = Some m" "mbuf_std (mempools q) r a m"
    and room: "length (rx_contents q) + 1 < unat (nb_rx_desc q)"
  obtains q' where "ixgbe_rx_cleanq_enqueue q (std_buf a m r fl) = Inr (CLEANQ_ERR_OK, q')" "rx_inv q'"
    "rx_contents q' = rx_contents q @ [a]" "ring_kept r q q'"
proof -
  let ?b = "std_buf a m r fl"
  have "mbuf_good q a" using bench_mbuf_good [OF k] m by (auto simp: bench_mbuf_def)
  then have pre: "rx_pre q ?b" using std_buf_to_mbuf [OF k m] rx_room(2) [OF inv room] by (auto simp: rx_pre_def)
  obtain q' where q': "ixgbe_rx_cleanq_enqueue q ?b = Inr (CLEANQ_ERR_OK, q')" "rx_inv q'"
    "rx_contents q' = rx_contents q @ [a]"
    using ixgbe_rx_enqueue_spec [OF inv pre rx_room(1) [OF inv room]] std_buf_addr [OF k m, of fl] by metis
  let ?m = "m\<lparr>mb_port := port_id q, refcnt := 1, data_off := RTE_PKTMBUF_HEADROOM\<rparr>"
  have f: "cq_pool q' = cq_pool q" "mempools q' = mempools q" "nb_rx_desc q' = nb_rx_desc q" "mbufs q' = (mbufs q)(a \<mapsto> ?m)"
    using q'(1) m(1) by (auto simp: ixgbe_rx_cleanq_enqueue_def std_buf_to_mbuf [OF k m] bindc_eq_Inr Let_def split: if_splits)
  have "mbuf_std (mempools q) r a ?m" using m(2) by (simp add: mbuf_std_def)
  then have "ring_kept r q q'" using f bench_mbuf_update [OF f(2,4)] by (simp add: ring_kept_def)
  then show thesis using that q' by blast
qed

lemma rx_dequeue_std:
  assumes inv: "rx_inv q" and k: "knows_region (cq_pool q) r" and rd: "rx_ready q" and c: "\<forall>x\<in>set (rx_contents q). bench_mbuf q r x"
  obtains a m q' where "ixgbe_rx_cleanq_dequeue q b = Inr (CLEANQ_ERR_OK, std_buf a m r 0, q')" "rx_inv q'"
    "rx_contents q = a # rx_contents q'" "ring_kept r q q'" "mbufs q' a = Some m" "mbuf_std (mempools q') r a m"
    "mbufs q' = (mbufs q)(a \<mapsto> m)"
proof -
  obtain b' q' where q': "ixgbe_rx_cleanq_dequeue q b = Inr (CLEANQ_ERR_OK, b', q')" "rx_inv q'"
    "rx_contents q = buf_addr (cq_pool q) b' # rx_contents q'" "in_bounds (cq_pool q) b'"
    "cleanq_buf_to_mbuf q' b' = Inr (buf_addr (cq_pool q) b')" "cq_pool q' = cq_pool q"
    using ixgbe_rx_dequeue_spec [OF inv rd, of b] by metis
  let ?i = "unat (rx_recl q)"
  define a where "a = rx_sw_ring q ! ?i"
  define d where "d = rx_ring q ! ?i"
  note iv = rx_invD [OF inv]
  have "rx_recl q \<noteq> rx_tail q" using rd by (simp add: rx_ready_def)
  then have pos: "0 < in_flight (nb_rx_desc q) (rx_recl q) (rx_tail q)" using in_flight_0 [OF iv(1)] by simp
  then have "rx_contents q ! 0 = a" using iv(3,5) by (simp add: rx_contents_def ring_contents_def a_def)
  then have a: "rx_contents q = a # rx_contents q'" using q'(3) by simp
  then have "bench_mbuf q r a" using c by simp
  then obtain m0 where m0: "mbufs q a = Some m0" "mbuf_std (mempools q) r a m0" by (auto simp: bench_mbuf_def)
  obtain m where m: "rx_fill_mbuf q d m0 = Inr m" "data_len m = wb_length d - ucast (crc_len q)"
    "mb_pool m = mb_pool m0" "buf_len m = buf_len m0" "data_off m = data_off m0"
    using rx_fill_mbuf_spec by metis
  have f: "mempools q' = mempools q" "nb_rx_desc q' = nb_rx_desc q" "mbufs q' = (mbufs q)(a \<mapsto> m)" "mbuf_to_cleanq_buf q' a = Inr b'"
    using q'(1) iv(2,3,5) m0(1) m(1) rd
    by (auto simp: ixgbe_rx_cleanq_dequeue_def bindc_eq_Inr Let_def rx_ready_def a_def d_def split: if_splits)
  have "rx_slot_ok q (rx_pos q 0)" using inv pos by (simp add: rx_inv_def)
  moreover have "rx_pos q 0 = ?i" using iv(5) by (simp add: rx_pos_def)
  ultimately have "rx_len_ok q d a" using rd by (simp add: rx_slot_ok_def rx_desc_ok_def a_def d_def rx_ready_def)
  then have s: "mbuf_std (mempools q) r a m" using m0 m by (simp add: rx_len_ok_def mbuf_std_def HEADROOM_128)
  have "b' = std_buf a m r 0" using mbuf_to_std_buf [of q' r a m] k s f q'(6) by simp
  moreover have "ring_kept r q q'" using bench_mbuf_update [OF f(1,3) s] f q'(6) by (simp add: ring_kept_def)
  ultimately show thesis using that q'(1,2) a f s by simp
qed

lemma tx_room:
  assumes "tx_inv q" "length (tx_contents q) + 1 < unat (nb_tx_desc q)"
  shows "\<not> tx_full q" "\<not> wrap_gap (nb_tx_desc q) (tx_recl q) (tx_tail q)"
  using in_flight_full [OF tx_invD(1) [OF assms(1)]] assms(2) by (auto simp: tx_full_def tx_contents_def)

lemma tx_enqueue_std:
  assumes inv: "tx_inv q" and k: "knows_region (cq_pool q) r" and m: "mbufs q a = Some m" "mbuf_std (mempools q) r a m"
    and room: "length (tx_contents q) + 1 < unat (nb_tx_desc q)"
  obtains q' where "ixgbe_tx_cleanq_enqueue q (std_buf a m r fl) = Inr (CLEANQ_ERR_OK, q')" "tx_inv q'"
    "tx_contents q' = tx_contents q @ [a]" "cq_pool q' = cq_pool q" "mempools q' = mempools q" "mbufs q' = mbufs q"
    "nb_tx_desc q' = nb_tx_desc q"
proof -
  let ?b = "std_buf a m r fl"
  have "mbuf_good q a" using bench_mbuf_good [OF k] m by (auto simp: bench_mbuf_def)
  then have pre: "tx_pre q ?b" using std_buf_to_mbuf [OF k m] tx_room(2) [OF inv room] by (auto simp: tx_pre_def)
  show thesis
    by (rule ixgbe_tx_enqueue_spec [OF inv pre tx_room(1) [OF inv room]]) (use that std_buf_addr [OF k m, of fl] in simp)
qed

lemma tx_dequeue_std:
  assumes inv: "tx_inv q" and k: "knows_region (cq_pool q) r" and rd: "tx_ready q" and c: "\<forall>x\<in>set (tx_contents q). bench_mbuf q r x"
  obtains a m q' where "ixgbe_tx_cleanq_dequeue q b = Inr (CLEANQ_ERR_OK, std_buf a m r 0, q')" "tx_inv q'"
    "tx_contents q = a # tx_contents q'" "cq_pool q' = cq_pool q" "mempools q' = mempools q" "mbufs q' = mbufs q"
    "nb_tx_desc q' = nb_tx_desc q" "mbufs q a = Some m" "mbuf_std (mempools q) r a m"
proof -
  obtain b' q' where q': "ixgbe_tx_cleanq_dequeue q b = Inr (CLEANQ_ERR_OK, b', q')" "tx_inv q'" "cq_pool q' = cq_pool q"
    "tx_contents q = buf_addr (cq_pool q) b' # tx_contents q'" "mempools q' = mempools q" "mbufs q' = mbufs q" "nb_tx_desc q' = nb_tx_desc q"
    using ixgbe_tx_dequeue_spec [OF inv rd, of b] by metis
  let ?i = "unat (tx_recl q)"
  define a where "a = te_mbuf (tx_sw_ring q ! ?i)"
  note iv = tx_invD [OF inv]
  have "tx_recl q \<noteq> tx_tail q" using rd by (simp add: tx_ready_def)
  then have pos: "0 < in_flight (nb_tx_desc q) (tx_recl q) (tx_tail q)" using in_flight_0 [OF iv(1)] by simp
  then have "tx_contents q ! 0 = a" using iv(3,5) by (simp add: tx_contents_def ring_contents_def a_def)
  then have a: "tx_contents q = a # tx_contents q'" using q'(4) by simp
  then obtain m where m: "mbufs q a = Some m" "mbuf_std (mempools q) r a m" using c by (auto simp: bench_mbuf_def)
  have "mbuf_to_cleanq_buf q' a = Inr b'"
    using q'(1) iv(2,3,5,6) rd
    by (auto simp: ixgbe_tx_cleanq_dequeue_def bindc_eq_Inr Let_def tx_ready_def a_def split: if_splits)
  then have "b' = std_buf a m r 0" using mbuf_to_std_buf [of q' r a m] k m q'(3,5,6) by simp
  then show thesis using that q' a m by simp
qed

section \<open>The invariant\<close>

text \<open>\<open>M\<close> are all mbufs of the port and \<open>H\<close> those the program holds. There are fewer mbufs than descriptors in either
  ring, and the three queues gave the mempool's memory the same identifier.\<close>

definition stack_ok :: "region \<Rightarrow> udp_port \<Rightarrow> bool" where
  "stack_ok r que \<longleftrightarrow>
     knows_region (cq_pool que) r \<and> knows_region (cq_pool (nic_rx que)) r \<and> knows_region (cq_pool (nic_tx que)) r \<and>
     r_base_addr r \<noteq> 0 \<and> rv_va (uq_regions que ! vaddr_slot (r_id r)) = r_base_addr r \<and>
     rv_va (iq_regions (uq_q que) ! vaddr_slot (r_id r)) = r_base_addr r"

definition bench_inv :: "region \<Rightarrow> u64 multiset \<Rightarrow> u64 multiset \<Rightarrow> udp_port \<Rightarrow> bool" where
  "bench_inv r M H que \<longleftrightarrow>
     stack_ok r que \<and> rx_inv (nic_rx que) \<and> tx_inv (nic_tx que) \<and>
     mbufs (nic_tx que) = mbufs (nic_rx que) \<and> mempools (nic_tx que) = mempools (nic_rx que) \<and>
     mset (rx_contents (nic_rx que)) + mset (tx_contents (nic_tx que)) + H = M \<and>
     size M < unat (nb_rx_desc (nic_rx que)) \<and> size M < unat (nb_tx_desc (nic_tx que)) \<and>
     (\<forall>a. a \<in># M \<longrightarrow> bench_mbuf (nic_rx que) r a \<and> bench_frame (pkts_mem que) a)"

text \<open>Giving the transmit ring the receive ring's mbufs keeps it well-formed, because they are all mbufs as
  the program keeps them.\<close>

lemma tx_inv_share:
  assumes "tx_inv q" "knows_region (cq_pool q) r" "mempools q = mps"
    and "\<forall>a\<in>set (tx_contents q). \<exists>m. mbs a = Some m \<and> mbuf_std mps r a m"
  shows "tx_inv (q\<lparr>mbufs := mbs\<rparr>)"
proof -
  let ?q = "q\<lparr>mbufs := mbs\<rparr>"
  have c: "tx_contents ?q = tx_contents q" by (simp add: tx_contents_def)
  have "\<forall>a\<in>set (tx_contents ?q). mbuf_good ?q a"
    unfolding c using assms by (auto intro!: bench_mbuf_good [of _ r] simp: bench_mbuf_def)
  then show ?thesis using assms(1) by (simp add: tx_inv_def)
qed

lemma bench_inv_share:
  assumes "stack_ok r que" "rx_inv (nic_rx que)" "tx_inv (nic_tx que)" "mempools (nic_tx que) = mempools (nic_rx que)"
    and "mset (rx_contents (nic_rx que)) + mset (tx_contents (nic_tx que)) + H = M"
    and "size M < unat (nb_rx_desc (nic_rx que))" "size M < unat (nb_tx_desc (nic_tx que))"
    and all: "\<And>a. a \<in># M \<Longrightarrow> bench_mbuf (nic_rx que) r a \<and> bench_frame (pkts_mem que) a"
  shows "bench_inv r M H (share_mbufs que)"
proof -
  have "bench_mbuf (nic_rx que) r a" if "a \<in> set (tx_contents (nic_tx que))" for a using all that assms(5) by auto
  then have "tx_inv ((nic_tx que)\<lparr>mbufs := mbufs (nic_rx que)\<rparr>)"
    using assms(1,3,4) by (intro tx_inv_share [where r = r]) (auto simp: stack_ok_def bench_mbuf_def)
  moreover have "tx_contents ((nic_tx que)\<lparr>mbufs := x\<rparr>) = tx_contents (nic_tx que)" for x by (simp add: tx_contents_def)
  ultimately show ?thesis using assms by (simp add: bench_inv_def share_mbufs_def stack_ok_def)
qed

lemma bench_invD:
  assumes "bench_inv r M H que"
  shows "stack_ok r que" "rx_inv (nic_rx que)" "tx_inv (nic_tx que)" "mbufs (nic_tx que) = mbufs (nic_rx que)"
    "mempools (nic_tx que) = mempools (nic_rx que)" "mset (rx_contents (nic_rx que)) + mset (tx_contents (nic_tx que)) + H = M"
    "size M < unat (nb_rx_desc (nic_rx que))" "size M < unat (nb_tx_desc (nic_tx que))"
    "a \<in># M \<Longrightarrow> bench_mbuf (nic_rx que) r a" "a \<in># M \<Longrightarrow> bench_frame (pkts_mem que) a"
  using assms unfolding bench_inv_def by blast+

lemma stack_okD:
  assumes "stack_ok r que"
  shows "knows_region (cq_pool que) r" "knows_region (cq_pool (nic_rx que)) r" "knows_region (cq_pool (nic_tx que)) r"
    "r_base_addr r \<noteq> 0" "rv_va (uq_regions que ! vaddr_slot (r_id r)) = r_base_addr r"
    "rv_va (iq_regions (uq_q que) ! vaddr_slot (r_id r)) = r_base_addr r"
  using assms by (simp_all add: stack_ok_def)

text \<open>The invariant after an operation that moved mbufs between the rings and the program.\<close>

lemma bench_inv_step:
  assumes inv: "bench_inv r M H que"
    and same: "cq_pool que' = cq_pool que" "uq_regions que' = uq_regions que" "iq_regions (uq_q que') = iq_regions (uq_q que)"
    and rx: "rx_inv (nic_rx que')" "ring_kept r (nic_rx que) (nic_rx que')"
    and tx: "tx_inv (nic_tx que')" "cq_pool (nic_tx que') = cq_pool (nic_tx que)" "mempools (nic_tx que') = mempools (nic_tx que)"
      "nb_tx_desc (nic_tx que') = nb_tx_desc (nic_tx que)"
    and mem: "\<And>a. bench_frame (pkts_mem que) a \<Longrightarrow> bench_frame (pkts_mem que') a"
    and m: "mset (rx_contents (nic_rx que')) + mset (tx_contents (nic_tx que')) + H' =
      mset (rx_contents (nic_rx que)) + mset (tx_contents (nic_tx que)) + H"
  shows "bench_inv r M H' (share_mbufs que')"
proof (rule bench_inv_share [OF _ rx(1) tx(1)])
  note d = bench_invD [OF inv]
  show "stack_ok r que'" using d(1) same rx(2) tx(2) by (simp add: stack_ok_def ring_kept_def)
  show "mempools (nic_tx que') = mempools (nic_rx que')" using d(5) rx(2) tx(3) by (simp add: ring_kept_def)
  show "mset (rx_contents (nic_rx que')) + mset (tx_contents (nic_tx que')) + H' = M" using d(6) m by simp
  show "size M < unat (nb_rx_desc (nic_rx que'))" "size M < unat (nb_tx_desc (nic_tx que'))"
    using d(7,8) rx(2) tx(4) by (simp_all add: ring_kept_def)
  show "bench_mbuf (nic_rx que') r a \<and> bench_frame (pkts_mem que') a" if "a \<in># M" for a
    using d(9,10) [OF that] rx(2) mem by (simp add: ring_kept_def)
qed

lemma ring_kept_refl [simp]: "ring_kept r q q"
  by (simp add: ring_kept_def)

lemma ring_kept_trans: "ring_kept r q q' \<Longrightarrow> ring_kept r q' q'' \<Longrightarrow> ring_kept r q q''"
  by (simp add: ring_kept_def)

lemma bench_frame_put: "bench_frame mem a \<Longrightarrow> bench_frame (put mem x bs) a"
  by (simp add: bench_frame_def mapped_put)

section \<open>The stack moves mbufs\<close>

text \<open>There is always room for an mbuf the program holds.\<close>

lemma bench_rooms:
  assumes "bench_inv r M (add_mset a H) que"
  shows "length (rx_contents (nic_rx que)) + 1 < unat (nb_rx_desc (nic_rx que))"
    "length (tx_contents (nic_tx que)) + 1 < unat (nb_tx_desc (nic_tx que))"
proof -
  note d = bench_invD [OF assms]
  have "size M = length (rx_contents (nic_rx que)) + length (tx_contents (nic_tx que)) + Suc (size H)"
    using arg_cong [OF d(6), of size] by simp
  then show "length (rx_contents (nic_rx que)) + 1 < unat (nb_rx_desc (nic_rx que))"
    "length (tx_contents (nic_tx que)) + 1 < unat (nb_tx_desc (nic_tx que))" using d(7,8) by linarith+
qed

lemma std_valid_length: "mbuf_std mps r a m \<Longrightarrow> b_valid_length (std_buf a m r fl) \<le> 2048"
  by (simp add: mbuf_std_def word_le_nat_alt unat_ucast_widen)

text \<open>Supplying an mbuf to the receive ring.\<close>

lemma stack_supply:
  assumes inv: "bench_inv r M (add_mset a H) que" and m: "mbufs (nic_rx que) a = Some m" "mbuf_std (mempools (nic_rx que)) r a m"
  obtains que' where "stack_enqueue cap0 que (std_buf a m r NETIF_RXFLAG) = Inr (CLEANQ_ERR_OK, que')" "bench_inv r M H que'"
    "rx_contents (nic_rx que') = rx_contents (nic_rx que) @ [a]" "tx_contents (nic_tx que') = tx_contents (nic_tx que)"
    "ring_kept r (nic_rx que) (nic_rx que')" "pkts_mem que' = pkts_mem que" "nb_tx_desc (nic_tx que') = nb_tx_desc (nic_tx que)"
proof -
  note d = bench_invD [OF inv] and s = stack_okD [OF bench_invD(1) [OF inv]]
  let ?b = "std_buf a m r NETIF_RXFLAG"
  obtain q' where q': "ixgbe_rx_cleanq_enqueue (nic_rx que) ?b = Inr (CLEANQ_ERR_OK, q')" "rx_inv q'"
    "rx_contents q' = rx_contents (nic_rx que) @ [a]" "ring_kept r (nic_rx que) q'"
    by (rule rx_enqueue_std [OF d(2) s(2) m bench_rooms(1) [OF inv], of NETIF_RXFLAG])
  let ?que = "que\<lparr>uq_q := (uq_q que)\<lparr>iq_rx := q'\<rparr>\<rparr>"
  have "ip_enqueue ixgbe_rx_f ixgbe_tx_f (uq_q que) ?b = Inr (CLEANQ_ERR_OK, (uq_q que)\<lparr>iq_rx := q'\<rparr>)"
    using q'(1) std_valid_length [OF m(2)] by (simp add: ip_enqueue_def RX_not_TX ixgbe_rx_f_def)
  then have "udp_enqueue (ip_f cap0 ixgbe_rx_f ixgbe_tx_f) que ?b = Inr (CLEANQ_ERR_OK, ?que)"
    using std_valid_length [OF m(2)] by (simp add: udp_enqueue_def RX_not_TX ip_f_def)
  then have e: "stack_enqueue cap0 que ?b = Inr (CLEANQ_ERR_OK, share_mbufs ?que)"
    using std_buf_in_bounds [OF s(1) m(2)] by (simp add: stack_enqueue_def cleanq_enqueue_def stack_f_def udp_f_def)
  have "bench_inv r M H (share_mbufs ?que)"
    by (rule bench_inv_step [OF inv]) (use q' d(3) in simp_all)
  then show thesis using that e q'(3,4) by (simp add: share_mbufs_def tx_contents_def)
qed

text \<open>Sending a packet.\<close>

lemma stack_send:
  assumes inv: "bench_inv r M (add_mset a H) que" and m: "mbufs (nic_rx que) a = Some m" "mbuf_std (mempools (nic_rx que)) r a m"
    and fl: "fl AND NETIF_TXFLAG \<noteq> 0"
  obtains que' t where "stack_enqueue cap0 que (std_buf a m r fl) = Inr (CLEANQ_ERR_OK, que')" "bench_inv r M H que'"
    "que' = share_mbufs (udp_sent que (std_buf a m r fl) t)" "tx_contents t = tx_contents (nic_tx que) @ [a]"
    "udp_can_send que (std_buf a m r fl)"
proof -
  note d = bench_invD [OF inv] and s = stack_okD [OF bench_invD(1) [OF inv]]
  let ?b = "std_buf a m r fl"
  have mt: "mbufs (nic_tx que) a = Some m" "mbuf_std (mempools (nic_tx que)) r a m" using m d(4,5) by simp_all
  obtain t where t: "ixgbe_tx_cleanq_enqueue (nic_tx que) ?b = Inr (CLEANQ_ERR_OK, t)" "tx_inv t"
    "tx_contents t = tx_contents (nic_tx que) @ [a]" "cq_pool t = cq_pool (nic_tx que)" "mempools t = mempools (nic_tx que)"
    "nb_tx_desc t = nb_tx_desc (nic_tx que)"
    by (rule tx_enqueue_std [OF d(3) s(3) mt bench_rooms(2) [OF inv], of fl])
  have "a \<in># M" using d(6) by auto
  then have "bench_frame (pkts_mem que) a" by (rule d(10))
  then have c: "udp_can_send que ?b"
    using fl s(4-6) std_frame_addr [OF m(2) s(5)] by (simp add: udp_can_send_def bench_frame_def)
  have "udp_enqueue (ip_f cap0 ixgbe_rx_f ixgbe_tx_f) que ?b = Inr (CLEANQ_ERR_OK, udp_sent que ?b t)"
    by (rule udp_enqueue_tx [OF c]) (simp add: ixgbe_tx_f_def t(1))
  then have e: "stack_enqueue cap0 que ?b = Inr (CLEANQ_ERR_OK, share_mbufs (udp_sent que ?b t))"
    using std_buf_in_bounds [OF s(1) m(2)] by (simp add: stack_enqueue_def cleanq_enqueue_def stack_f_def udp_f_def)
  have "bench_inv r M H (share_mbufs (udp_sent que ?b t))"
    by (rule bench_inv_step [OF inv]) (use t d(2) in \<open>simp_all add: udp_sent_def Ip_Queue.sent_def Let_def bench_frame_put\<close>)
  then show thesis using that e t(3) c by blast
qed

text \<open>What a call of the UDP queue below the interface gives: an error and the mbufs where they were, or the
  buffer of an mbuf, which the program now holds.\<close>

definition dequeued :: "region \<Rightarrow> u64 multiset \<Rightarrow> u64 multiset \<Rightarrow> errval \<times> cleanq_buf \<times> udp_port \<Rightarrow> bool" where
  "dequeued r M H = (\<lambda>(err, b, que).
     if err_is_fail err then bench_inv r M H (share_mbufs que)
     else err = CLEANQ_ERR_OK \<and>
       (\<exists>a m fl. b = std_buf a m r fl \<and> (fl AND NETIF_RXFLAG = 0 \<longrightarrow> fl = NETIF_TXFLAG) \<and> bench_inv r M (add_mset a H) (share_mbufs que) \<and>
          mbufs (nic_rx que) a = Some m \<and> mbuf_std (mempools (nic_rx que)) r a m))"

text \<open>No packet received: the transmit ring is asked.\<close>

lemma udp_dequeue_empty:
  assumes "bench_inv r M H que" "\<not> rx_ready (nic_rx que)" "\<not> tx_ready (nic_tx que)"
  shows "udp_dequeue (ip_f cap0 ixgbe_rx_f ixgbe_tx_f) que b0 = Inr (CLEANQ_ERR_QUEUE_EMPTY, b0, que)"
proof -
  note e = ixgbe_rx_dequeue_empty [OF bench_invD(2) [OF assms(1)] assms(2)] ixgbe_tx_dequeue_empty [OF bench_invD(3) [OF assms(1)] assms(3)]
  have "ip_dequeue ixgbe_rx_f ixgbe_tx_f (uq_q que) b0 = Inr (CLEANQ_ERR_QUEUE_EMPTY, b0, uq_q que)"
    using e by (simp add: ip_dequeue_def ixgbe_rx_f_def ixgbe_tx_f_def err_is_fail_def Let_def)
  then show ?thesis by (simp add: udp_dequeue_def ip_f_def err_is_fail_def Let_def)
qed

lemma udp_dequeue_sent:
  assumes inv: "bench_inv r M H que" and nr: "\<not> rx_ready (nic_rx que)" and rd: "tx_ready (nic_tx que)"
  obtains a m tx where
    "udp_dequeue (ip_f cap0 ixgbe_rx_f ixgbe_tx_f) que b0 =
       Inr (CLEANQ_ERR_OK, std_buf a m r NETIF_TXFLAG, que\<lparr>uq_q := (uq_q que)\<lparr>iq_tx := tx\<rparr>\<rparr>)"
    "tx_contents (nic_tx que) = a # tx_contents tx"
    "bench_inv r M (add_mset a H) (share_mbufs (que\<lparr>uq_q := (uq_q que)\<lparr>iq_tx := tx\<rparr>\<rparr>))"
    "mbufs (nic_rx que) a = Some m" "mbuf_std (mempools (nic_rx que)) r a m"
proof -
  note d = bench_invD [OF inv] and s = stack_okD [OF bench_invD(1) [OF inv]]
  have e: "ixgbe_rx_cleanq_dequeue (nic_rx que) b0 = Inr (CLEANQ_ERR_QUEUE_EMPTY, b0, nic_rx que)"
    by (rule ixgbe_rx_dequeue_empty [OF d(2) nr])
  have "\<forall>x\<in>set (tx_contents (nic_tx que)). bench_mbuf (nic_tx que) r x"
    using d(4-6,9) by (auto simp: bench_mbuf_def)
  then obtain a m t where t: "ixgbe_tx_cleanq_dequeue (nic_tx que) b0 = Inr (CLEANQ_ERR_OK, std_buf a m r 0, t)" "tx_inv t"
    "tx_contents (nic_tx que) = a # tx_contents t" "cq_pool t = cq_pool (nic_tx que)" "mempools t = mempools (nic_tx que)"
    "nb_tx_desc t = nb_tx_desc (nic_tx que)" "mbufs (nic_tx que) a = Some m" "mbuf_std (mempools (nic_tx que)) r a m"
    using tx_dequeue_std [OF d(3) s(3) rd, of b0] by metis
  let ?que = "que\<lparr>uq_q := (uq_q que)\<lparr>iq_tx := t\<rparr>\<rparr>"
  have "ip_dequeue ixgbe_rx_f ixgbe_tx_f (uq_q que) b0 = Inr (CLEANQ_ERR_OK, std_buf a m r NETIF_TXFLAG, (uq_q que)\<lparr>iq_tx := t\<rparr>)"
    using e t(1) by (simp add: ip_dequeue_def ixgbe_rx_f_def ixgbe_tx_f_def err_is_fail_def Let_def)
      (simp add: NETIF_RXFLAG_def NETIF_TXFLAG_def)
  then have "udp_dequeue (ip_f cap0 ixgbe_rx_f ixgbe_tx_f) que b0 = Inr (CLEANQ_ERR_OK, std_buf a m r NETIF_TXFLAG, ?que)"
    by (simp add: udp_dequeue_def ip_f_def err_is_fail_def Let_def) (simp add: NETIF_RXFLAG_def NETIF_TXFLAG_def)
  moreover have "bench_inv r M (add_mset a H) (share_mbufs ?que)"
    by (rule bench_inv_step [OF inv]) (use t d(2) in simp_all)
  moreover have "mbufs (nic_rx que) a = Some m" "mbuf_std (mempools (nic_rx que)) r a m" using t(7,8) d(4,5) by simp_all
  ultimately show thesis using that t(3) by blast
qed

lemma udp_dequeue_idle:
  assumes inv: "bench_inv r M H que" and nr: "\<not> rx_ready (nic_rx que)"
  obtains x where "udp_dequeue (ip_f cap0 ixgbe_rx_f ixgbe_tx_f) que b0 = Inr x" "dequeued r M H x"
proof (cases "tx_ready (nic_tx que)")
  case True
  show thesis
    by (rule udp_dequeue_sent [OF inv nr True, of cap0 b0]) (use that in \<open>auto simp: dequeued_def err_is_fail_def\<close>)
next
  case False
  have "bench_inv r M H (share_mbufs que)"
    by (rule bench_inv_step [OF inv]) (use bench_invD(2,3) [OF inv] in simp_all)
  then show thesis using that udp_dequeue_empty [OF inv nr False] by (simp add: dequeued_def err_is_fail_def)
qed

text \<open>A packet was received: \<open>q\<close> is the receive ring without it, \<open>q'\<close> the ring when the packet is dropped and its
  mbuf goes back.\<close>

definition taken :: "region \<Rightarrow> udp_port \<Rightarrow> cleanq_buf \<Rightarrow> u64 \<Rightarrow> rte_mbuf \<Rightarrow> ixgbe_rx_queue \<Rightarrow> ixgbe_rx_queue \<Rightarrow> bool" where
  "taken r que b0 a m q q' \<longleftrightarrow>
     ixgbe_rx_cleanq_dequeue (nic_rx que) b0 = Inr (CLEANQ_ERR_OK, std_buf a m r 0, q) \<and> rx_inv q \<and>
     rx_contents (nic_rx que) = a # rx_contents q \<and> ring_kept r (nic_rx que) q \<and> mbufs q a = Some m \<and> mbuf_std (mempools q) r a m \<and>
     ixgbe_rx_cleanq_enqueue q (std_buf a m r NETIF_RXFLAG) = Inr (CLEANQ_ERR_OK, q') \<and> rx_inv q' \<and>
     rx_contents q' = rx_contents q @ [a] \<and> ring_kept r q q' \<and> mbufs q = (mbufs (nic_rx que))(a \<mapsto> m)"

lemma takenD:
  assumes "taken r que b0 a m q q'"
  shows "ixgbe_rx_cleanq_dequeue (nic_rx que) b0 = Inr (CLEANQ_ERR_OK, std_buf a m r 0, q)" "rx_inv q"
    "rx_contents (nic_rx que) = a # rx_contents q" "ring_kept r (nic_rx que) q" "mbufs q a = Some m" "mbuf_std (mempools q) r a m"
    "ixgbe_rx_cleanq_enqueue q (std_buf a m r NETIF_RXFLAG) = Inr (CLEANQ_ERR_OK, q')" "rx_inv q'"
    "rx_contents q' = rx_contents q @ [a]" "ring_kept r q q'" "mbufs q = (mbufs (nic_rx que))(a \<mapsto> m)"
  using assms by (simp_all add: taken_def)

lemma bench_take:
  assumes inv: "bench_inv r M H que" and rd: "rx_ready (nic_rx que)"
  obtains a m q q' where "taken r que b0 a m q q'"
proof -
  note d = bench_invD [OF inv] and s = stack_okD [OF bench_invD(1) [OF inv]]
  have "\<forall>x\<in>set (rx_contents (nic_rx que)). bench_mbuf (nic_rx que) r x" using d(6,9) by auto
  then obtain a m q where q: "ixgbe_rx_cleanq_dequeue (nic_rx que) b0 = Inr (CLEANQ_ERR_OK, std_buf a m r 0, q)" "rx_inv q"
    "rx_contents (nic_rx que) = a # rx_contents q" "ring_kept r (nic_rx que) q" "mbufs q a = Some m" "mbuf_std (mempools q) r a m"
    "mbufs q = (mbufs (nic_rx que))(a \<mapsto> m)"
    using rx_dequeue_std [OF d(2) s(2) rd, of b0] by metis
  have "knows_region (cq_pool q) r" using s(2) q(4) by (simp add: ring_kept_def)
  moreover have "length (rx_contents q) + 1 < unat (nb_rx_desc q)"
    using arg_cong [OF d(6), of size] d(7) q(3,4) by (simp add: ring_kept_def)
  ultimately obtain q' where "ixgbe_rx_cleanq_enqueue q (std_buf a m r NETIF_RXFLAG) = Inr (CLEANQ_ERR_OK, q')" "rx_inv q'"
    "rx_contents q' = rx_contents q @ [a]" "ring_kept r q q'"
    using rx_enqueue_std [OF q(2) _ q(5,6), of NETIF_RXFLAG] by metis
  then show thesis using that q by (simp add: taken_def)
qed

text \<open>What the modules make of it: the verdict of the IP module, then the port.\<close>

definition ip_verdict :: "udp_port \<Rightarrow> cleanq_buf \<Rightarrow> errval" where
  "ip_verdict que b = verdict (ip_part (uq_q que) b) (ip_dest (ph_ip (iq_header (uq_q que)))) (iq_proto (uq_q que))"

definition udp_word :: "udp_port \<Rightarrow> u64 \<Rightarrow> u64 \<Rightarrow> u16" where
  "udp_word que a i = rd16 (bytes_at (pkts_mem que) (a + 256 + 34 + i) 2)"

lemma udp_dequeue_packet:
  assumes inv: "bench_inv r M H que" and tk: "taken r que b0 a m q q'"
  defines "b \<equiv> std_buf a m r NETIF_RXFLAG" and "v \<equiv> ip_verdict que (std_buf a m r 0)"
  shows "udp_dequeue (ip_f cap0 ixgbe_rx_f ixgbe_tx_f) que b0 =
    (if v \<noteq> CLEANQ_ERR_OK then Inr (v, b, que\<lparr>uq_q := (uq_q que)\<lparr>iq_mem := put (pkts_mem que) (a + 256 + 24)
         (st16 (rte_ipv4_cksum (zeroed (ip_part (uq_q que) (std_buf a m r 0))))), iq_rx := q'\<rparr>\<rparr>)
     else if udp_word que a 2 \<noteq> htons (uq_dst_port que) then Inr (CLEANQ_ERR_UDP_WRONG_PORT, b, que\<lparr>uq_q := (uq_q que)\<lparr>iq_rx := q'\<rparr>\<rparr>)
     else Inr (CLEANQ_ERR_OK, std_buf a m r (NETIF_RXFLAG OR ucast (udp_word que a 0)), que\<lparr>uq_q := (uq_q que)\<lparr>iq_rx := q\<rparr>\<rparr>))"
proof -
  note d = bench_invD [OF inv] and s = stack_okD [OF bench_invD(1) [OF inv]] and q = takenD [OF tk]
  let ?q = "(uq_q que)\<lparr>iq_rx := q\<rparr>"
  have "a \<in># M" using d(6) q(3) by auto
  then have mp: "mapped (pkts_mem que) (a + 256) 42" using d(10) by (simp add: bench_frame_def)
  have fa: "frame_addr (iq_regions (uq_q que)) (std_buf a m r fl) = a + 256" "frame_addr (uq_regions que) (std_buf a m r fl) = a + 256" for fl
    using std_frame_addr [OF q(6)] s(5,6) by simp_all
  have "fcall (f_deq ixgbe_rx_f) (\<lambda>deq. deq (nic_rx que) b0) = Inr (CLEANQ_ERR_OK, std_buf a m r 0, q)"
    using q(1) by (simp add: ixgbe_rx_f_def)
  note ipr = ip_receive [OF this _ refl, of ixgbe_tx_f, unfolded fa, folded ip_verdict_def, folded v_def]
  have "mapped (pkts_mem que) (a + 256 + 14) 20" using mapped_sub [OF mp, of 14 20] by simp
  note ipr = ipr [OF this]
  have "mem_read (pkts_mem que) (a + 256 + 34 + 2) 2 = Inr (bytes_at (pkts_mem que) (a + 256 + 34 + 2) 2)"
    "mem_read (pkts_mem que) (a + 256 + 34) 2 = Inr (bytes_at (pkts_mem que) (a + 256 + 34 + 0) 2)"
    using mapped_sub [OF mp, of 36 2] mapped_sub [OF mp, of 34 2] by (simp_all add: mem_read_mapped add.assoc)
  moreover have "ip_enqueue ixgbe_rx_f ixgbe_tx_f ?q b = Inr (CLEANQ_ERR_OK, ?q\<lparr>iq_rx := q'\<rparr>)"
    using q(7) std_valid_length [OF q(6)] by (simp add: ip_enqueue_def RX_not_TX ixgbe_rx_f_def b_def)
  ultimately show ?thesis
    using ipr q(7) by (auto simp: udp_dequeue_def ip_f_def ip_drop_def ixgbe_rx_f_def err_is_fail_def Let_def fa b_def udp_word_def)
qed

lemma taken_returned:
  assumes inv: "bench_inv r M H que" and tk: "taken r que b0 a m q q'"
    and "iq_rx x = q'" "iq_tx x = nic_tx que" "iq_regions x = iq_regions (uq_q que)"
      "\<And>y. bench_frame (pkts_mem que) y \<Longrightarrow> bench_frame (iq_mem x) y"
  shows "bench_inv r M H (share_mbufs (que\<lparr>uq_q := x\<rparr>))"
  by (rule bench_inv_step [OF inv])
    (use assms(3-) takenD [OF tk] bench_invD(3) [OF inv] ring_kept_trans [OF takenD(4,10) [OF tk]] in simp_all)

lemma taken_held:
  assumes inv: "bench_inv r M H que" and tk: "taken r que b0 a m q q'"
  shows "bench_inv r M (add_mset a H) (share_mbufs (que\<lparr>uq_q := (uq_q que)\<lparr>iq_rx := q\<rparr>\<rparr>))"
  by (rule bench_inv_step [OF inv]) (use takenD [OF tk] bench_invD(3) [OF inv] in simp_all)

lemma RXFLAG_kept: "(NETIF_RXFLAG OR fl) AND NETIF_RXFLAG \<noteq> 0"
  using or_and_absorb [of fl NETIF_RXFLAG] by (simp add: or.commute)

lemma udp_dequeue_busy:
  assumes inv: "bench_inv r M H que" and rd: "rx_ready (nic_rx que)"
  obtains x where "udp_dequeue (ip_f cap0 ixgbe_rx_f ixgbe_tx_f) que b0 = Inr x" "dequeued r M H x"
proof -
  obtain a m q q' where tk: "taken r que b0 a m q q'" by (rule bench_take [OF inv rd])
  note e = udp_dequeue_packet [OF inv tk, of cap0] and given = taken_returned [OF inv tk]
  let ?v = "ip_verdict que (std_buf a m r 0)"
  consider (bad) "?v \<noteq> CLEANQ_ERR_OK" | (port) "?v = CLEANQ_ERR_OK" "udp_word que a 2 \<noteq> htons (uq_dst_port que)"
    | (good) "?v = CLEANQ_ERR_OK" "udp_word que a 2 = htons (uq_dst_port que)" by blast
  then show thesis
  proof cases
    case bad
    then show thesis using that e given bench_frame_put by (simp add: dequeued_def err_is_fail_def)
  next
    case port
    then show thesis using that e given by (simp add: dequeued_def err_is_fail_def)
  next
    case good
    let ?x = "(CLEANQ_ERR_OK, std_buf a m r (NETIF_RXFLAG OR ucast (udp_word que a 0)), que\<lparr>uq_q := (uq_q que)\<lparr>iq_rx := q\<rparr>\<rparr>)"
    have "dequeued r M H ?x"
      using taken_held [OF inv tk] takenD(5,6) [OF tk] RXFLAG_kept unfolding dequeued_def err_is_fail_def by fastforce
    then show thesis using that e good by simp
  qed
qed

lemma share_mbufs_rx [simp]: "nic_rx (share_mbufs que) = nic_rx que" "cq_pool (share_mbufs que) = cq_pool que"
  by (simp_all add: share_mbufs_def)

text \<open>Dequeueing through the interface fails and leaves the mbufs in the rings, or gives the program a sent or a
  received one.\<close>

lemma stack_dequeue_cases:
  assumes inv: "bench_inv r M H que"
  obtains err b que' where "stack_dequeue cap0 que b0 = Inr (err, b, que')" "err_is_fail err" "bench_inv r M H que'"
  | a m fl que' where "stack_dequeue cap0 que b0 = Inr (CLEANQ_ERR_OK, std_buf a m r fl, que')"
      "fl AND NETIF_RXFLAG = 0 \<Longrightarrow> fl = NETIF_TXFLAG" "bench_inv r M (add_mset a H) que'"
      "mbufs (nic_rx que') a = Some m" "mbuf_std (mempools (nic_rx que')) r a m"
proof -
  obtain err b que1 where x: "udp_dequeue (ip_f cap0 ixgbe_rx_f ixgbe_tx_f) que b0 = Inr (err, b, que1)" "dequeued r M H (err, b, que1)"
    using udp_dequeue_idle [OF inv, of cap0 b0] udp_dequeue_busy [OF inv, of cap0 b0] by (metis prod_cases3)
  show thesis
  proof (cases "err_is_fail err")
    case True
    then have "stack_dequeue cap0 que b0 = Inr (err, b, share_mbufs que1)"
      using x(1) by (simp add: stack_dequeue_def cleanq_dequeue_def stack_f_def udp_f_def)
    then show thesis using that(1) x(2) True by (simp add: dequeued_def)
  next
    case False
    then obtain a m fl where b: "err = CLEANQ_ERR_OK" "b = std_buf a m r fl" "fl AND NETIF_RXFLAG = 0 \<longrightarrow> fl = NETIF_TXFLAG"
      "bench_inv r M (add_mset a H) (share_mbufs que1)" "mbufs (nic_rx que1) a = Some m" "mbuf_std (mempools (nic_rx que1)) r a m"
      using x(2) by (auto simp: dequeued_def)
    have "knows_region (cq_pool que1) r" using stack_okD(1) [OF bench_invD(1) [OF b(4)]] by simp
    then have "stack_dequeue cap0 que b0 = Inr (CLEANQ_ERR_OK, b, share_mbufs que1)"
      using x(1) b(1,2) std_buf_in_bounds [OF _ b(6)] by (simp add: stack_dequeue_def cleanq_dequeue_def stack_f_def udp_f_def err_is_fail_def)
    then show thesis using that(2) b by simp
  qed
qed

section \<open>The program\<close>

text \<open>Receiving returns at most \<open>n\<close> packets, whose mbufs the program then holds.\<close>

lemma bench_recv_spec:
  "bench_inv r M H que \<Longrightarrow>
   \<exists>pkts que'. bench_recv cap0 n que b0 = Inr (pkts, que') \<and> length pkts \<le> n \<and> bench_inv r M (mset (map fst pkts) + H) que'"
proof (induction n arbitrary: H que b0)
  case (Suc n)
  show ?case
  proof (rule stack_dequeue_cases [OF Suc.prems, of cap0 b0])
    fix err b que' assume "stack_dequeue cap0 que b0 = Inr (err, b, que')" "err_is_fail err" "bench_inv r M H que'"
    then show ?thesis by simp
  next
    fix a m fl que' assume e: "stack_dequeue cap0 que b0 = Inr (CLEANQ_ERR_OK, std_buf a m r fl, que')"
      and fl: "fl AND NETIF_RXFLAG = 0 \<Longrightarrow> fl = NETIF_TXFLAG" and inv: "bench_inv r M (add_mset a H) que'"
      and m: "mbufs (nic_rx que') a = Some m" "mbuf_std (mempools (nic_rx que')) r a m"
    show ?thesis
    proof (cases "fl AND NETIF_RXFLAG = 0")
      case True
      obtain que2 where "stack_enqueue cap0 que' (std_buf a m r NETIF_RXFLAG) = Inr (CLEANQ_ERR_OK, que2)" "bench_inv r M H que2"
        by (rule stack_supply [OF inv m])
      then show ?thesis using e True Suc.IH [of H que2 "std_buf a m r NETIF_RXFLAG"] std_buf_length [OF m(2), of NETIF_RXFLAG]
        by (fastforce simp: err_is_fail_def Let_def)
    next
      case False
      have "cleanq_buf_to_mbuf (nic_rx que') (std_buf a m r fl) = Inr a"
        by (rule std_buf_to_mbuf [OF stack_okD(2) [OF bench_invD(1) [OF inv]] m])
      then show ?thesis using e False Suc.IH [OF inv, of "std_buf a m r fl"] by (fastforce simp: err_is_fail_def)
    qed
  qed
qed simp

text \<open>Sending takes all of them; none has to be freed.\<close>

lemma bench_send_spec:
  "bench_inv r M (mset (map fst pkts) + H) que \<Longrightarrow> \<exists>que'. bench_send cap0 pkts que = Inr ([], que') \<and> bench_inv r M H que'"
proof (induction pkts arbitrary: que)
  case (Cons p pkts)
  obtain a fl where p: "p = (a, fl)" by (cases p)
  have inv: "bench_inv r M (add_mset a (mset (map fst pkts) + H)) que" using Cons.prems p by simp
  note s = stack_okD [OF bench_invD(1) [OF inv]]
  have "a \<in># M" using bench_invD(6) [OF inv] by auto
  then obtain m where m: "mbufs (nic_rx que) a = Some m" "mbuf_std (mempools (nic_rx que)) r a m"
    using bench_invD(9) [OF inv] by (auto simp: bench_mbuf_def)
  have "mbuf_to_cleanq_buf (udp_view que) a = Inr (std_buf a m r 0)"
    by (rule mbuf_to_std_buf) (use s(1) m in \<open>simp_all add: udp_view_def\<close>)
  moreover have "((fl AND 0xFFFF) OR NETIF_TXFLAG) AND NETIF_TXFLAG \<noteq> 0"
    unfolding or_and_absorb by (simp add: NETIF_TXFLAG_def)
  then obtain que1 where "stack_enqueue cap0 que (std_buf a m r ((fl AND 0xFFFF) OR NETIF_TXFLAG)) = Inr (CLEANQ_ERR_OK, que1)"
    "bench_inv r M (mset (map fst pkts) + H) que1"
    using stack_send [OF inv m] by metis
  ultimately show ?case using Cons.IH [of que1] p by (auto simp: err_is_fail_def)
qed simp

lemma bench_round_spec:
  assumes "bench_inv r M {#} que"
  shows "\<exists>num' que'. bench_round cap0 b0 num que = Inr ([], num', que') \<and> bench_inv r M {#} que'"
proof -
  obtain pkts que1 where r: "bench_recv cap0 (unat BURST_SIZE) que b0 = Inr (pkts, que1)" "bench_inv r M (mset (map fst pkts) + {#}) que1"
    using bench_recv_spec [OF assms] by metis
  show ?thesis using r bench_send_spec [OF r(2), of cap0] by (auto simp: bench_round_def)
qed

section \<open>Runs\<close>

text \<open>The program runs rounds, with any contents of its uninitialised buffer. Between them the card writes back
  descriptors of both rings and writes packets to memory. \<open>freed\<close> are the mbufs the program has freed.\<close>

inductive bench_run :: "capref \<Rightarrow> udp_port \<Rightarrow> udp_port \<Rightarrow> u64 \<Rightarrow> u64 list \<Rightarrow> bool" for cap0 que0 where
  start: "bench_run cap0 que0 que0 0 []"
| round: "bench_run cap0 que0 que num freed \<Longrightarrow> bench_round cap0 b0 num que = Inr (fr, num', que') \<Longrightarrow>
    bench_run cap0 que0 que' num' (freed @ fr)"
| rx_card: "bench_run cap0 que0 que num freed \<Longrightarrow> i < unat (nb_rx_desc (nic_rx que)) \<Longrightarrow>
    rx_len_ok (nic_rx que) d (rx_sw_ring (nic_rx que) ! i) \<Longrightarrow>
    bench_run cap0 que0 (que\<lparr>uq_q := (uq_q que)\<lparr>iq_rx := rx_hw_write (nic_rx que) i d\<rparr>\<rparr>) num freed"
| tx_card: "bench_run cap0 que0 que num freed \<Longrightarrow>
    bench_run cap0 que0 (que\<lparr>uq_q := (uq_q que)\<lparr>iq_tx := tx_hw_write (nic_tx que) i e\<rparr>\<rparr>) num freed"
| dma: "bench_run cap0 que0 que num freed \<Longrightarrow>
    bench_run cap0 que0 (que\<lparr>uq_q := (uq_q que)\<lparr>iq_mem := put (pkts_mem que) x bs\<rparr>\<rparr>) num freed"

text \<open>Sharing changes nothing where both rings have the same mbufs.\<close>

lemma bench_inv_unshare:
  assumes "bench_inv r M H (share_mbufs que)" "mbufs (nic_tx que) = mbufs (nic_rx que)"
  shows "bench_inv r M H que"
proof -
  have "(nic_tx que)\<lparr>mbufs := mbufs (nic_rx que)\<rparr> = nic_tx que" using assms(2) by (cases "nic_tx que") simp
  then have "share_mbufs que = que" by (cases que; cases "uq_q que") (simp add: share_mbufs_def)
  then show ?thesis using assms(1) by simp
qed

lemma bench_inv_rx_card:
  assumes inv: "bench_inv r M H que" and w: "i < unat (nb_rx_desc (nic_rx que))" "rx_len_ok (nic_rx que) d (rx_sw_ring (nic_rx que) ! i)"
  shows "bench_inv r M H (que\<lparr>uq_q := (uq_q que)\<lparr>iq_rx := rx_hw_write (nic_rx que) i d\<rparr>\<rparr>)"
proof (rule bench_inv_unshare)
  note iv = bench_invD [OF inv] and v = rx_hw_write_inv [OF bench_invD(2) [OF inv] w]
  let ?q = "rx_hw_write (nic_rx que) i d"
  have "ring_kept r (nic_rx que) ?q" by (simp add: ring_kept_def bench_mbuf_def rx_hw_write_def)
  then show "bench_inv r M H (share_mbufs (que\<lparr>uq_q := (uq_q que)\<lparr>iq_rx := ?q\<rparr>\<rparr>))"
    by - (rule bench_inv_step [OF inv]; use v iv(3) in simp)
  show "mbufs (nic_tx (que\<lparr>uq_q := (uq_q que)\<lparr>iq_rx := ?q\<rparr>\<rparr>)) = mbufs (nic_rx (que\<lparr>uq_q := (uq_q que)\<lparr>iq_rx := ?q\<rparr>\<rparr>))"
    using iv(4) by (simp add: rx_hw_write_def)
qed

lemma bench_inv_tx_card:
  assumes inv: "bench_inv r M H que"
  shows "bench_inv r M H (que\<lparr>uq_q := (uq_q que)\<lparr>iq_tx := tx_hw_write (nic_tx que) i e\<rparr>\<rparr>)"
proof (rule bench_inv_unshare)
  note iv = bench_invD [OF inv] and v = tx_hw_write_inv(1) [OF bench_invD(3) [OF inv]] tx_hw_write_inv(2,3)
  let ?q = "tx_hw_write (nic_tx que) i e"
  have "mempools ?q = mempools (nic_tx que)" "nb_tx_desc ?q = nb_tx_desc (nic_tx que)" by (simp_all add: tx_hw_write_def)
  then show "bench_inv r M H (share_mbufs (que\<lparr>uq_q := (uq_q que)\<lparr>iq_tx := ?q\<rparr>\<rparr>))"
    by - (rule bench_inv_step [OF inv]; use v iv(2) in simp)
  show "mbufs (nic_tx (que\<lparr>uq_q := (uq_q que)\<lparr>iq_tx := ?q\<rparr>\<rparr>)) = mbufs (nic_rx (que\<lparr>uq_q := (uq_q que)\<lparr>iq_tx := ?q\<rparr>\<rparr>))"
    using iv(4) by (simp add: tx_hw_write_def)
qed

lemma bench_inv_dma:
  assumes inv: "bench_inv r M H que"
  shows "bench_inv r M H (que\<lparr>uq_q := (uq_q que)\<lparr>iq_mem := put (pkts_mem que) x bs\<rparr>\<rparr>)"
proof (rule bench_inv_unshare)
  note iv = bench_invD [OF inv]
  show "bench_inv r M H (share_mbufs (que\<lparr>uq_q := (uq_q que)\<lparr>iq_mem := put (pkts_mem que) x bs\<rparr>\<rparr>))"
    by (rule bench_inv_step [OF inv]; use iv(2,3) in \<open>simp add: bench_frame_put\<close>)
qed (use bench_invD(4) [OF inv] in simp)

lemma bench_run_inv:
  assumes "bench_run cap0 que0 que num freed" "bench_inv r M {#} que0"
  shows "bench_inv r M {#} que \<and> freed = []"
  using assms
proof (induction rule: bench_run.induct)
  case (round que num freed b0 fr num' que')
  then have inv: "bench_inv r M {#} que" and f: "freed = []" by simp_all
  from bench_round_spec [OF inv, of cap0 b0 num] round.hyps(2) f show ?case by auto
qed (simp_all add: bench_inv_rx_card bench_inv_tx_card bench_inv_dma)

section \<open>Filling the receive ring\<close>

text \<open>The mbufs a mempool supplies for \<open>n\<close> allocations, up to the first that fails.\<close>

definition supplied :: "nat \<Rightarrow> u64 option list \<Rightarrow> u64 list" where
  "supplied n allocs = take n (map the (takeWhile (\<lambda>x. x \<noteq> None) allocs))"

lemma supplied_simps [simp]:
  "supplied 0 allocs = []" "supplied n [] = []" "supplied n (None # allocs) = []"
  "supplied (Suc n) (Some a # allocs) = a # supplied n allocs"
  by (simp_all add: supplied_def)

lemma bench_inv_more:
  assumes "bench_inv r M H que" "bench_mbuf (nic_rx que) r a" "bench_frame (pkts_mem que) a"
    and "size M + 1 < unat (nb_rx_desc (nic_rx que))" "size M + 1 < unat (nb_tx_desc (nic_tx que))"
  shows "bench_inv r (add_mset a M) (add_mset a H) que"
  using assms by (auto simp: bench_inv_def)

lemma bench_fill_spec:
  assumes "bench_inv r M {#} que"
    and "size M + length (supplied n allocs) < unat (nb_rx_desc (nic_rx que))"
      "size M + length (supplied n allocs) < unat (nb_tx_desc (nic_tx que))"
    and "\<forall>a\<in>set (supplied n allocs). bench_mbuf (nic_rx que) r a \<and> bench_frame (pkts_mem que) a"
  shows "\<exists>que'. bench_fill cap0 n allocs que = Inr ([], length (supplied n allocs) < n, que') \<and>
    bench_inv r (mset (supplied n allocs) + M) {#} que' \<and>
    rx_contents (nic_rx que') = rx_contents (nic_rx que) @ supplied n allocs \<and> tx_contents (nic_tx que') = tx_contents (nic_tx que)"
  using assms
proof (induction cap0 n allocs que arbitrary: M rule: bench_fill.induct)
  case (2 cap0 n a allocs que)
  note p = "2.prems"
  have more: "bench_inv r (add_mset a M) {#a#} que" by (rule bench_inv_more [OF p(1)]) (use p in simp_all)
  obtain m where m: "mbufs (nic_rx que) a = Some m" "mbuf_std (mempools (nic_rx que)) r a m" using p(4) by (auto simp: bench_mbuf_def)
  obtain que1 where s: "stack_enqueue cap0 que (std_buf a m r NETIF_RXFLAG) = Inr (CLEANQ_ERR_OK, que1)"
    "bench_inv r (add_mset a M) {#} que1" "rx_contents (nic_rx que1) = rx_contents (nic_rx que) @ [a]"
    "tx_contents (nic_tx que1) = tx_contents (nic_tx que)" "ring_kept r (nic_rx que) (nic_rx que1)" "pkts_mem que1 = pkts_mem que"
    "nb_tx_desc (nic_tx que1) = nb_tx_desc (nic_tx que)"
    using stack_supply [OF more m] by metis
  have c: "mbuf_to_cleanq_buf (nic_rx que) a = Inr (std_buf a m r 0)"
    by (rule mbuf_to_std_buf [OF stack_okD(2) [OF bench_invD(1) [OF p(1)]] m])
  have "\<exists>que'. bench_fill cap0 n allocs que1 = Inr ([], length (supplied n allocs) < n, que') \<and>
    bench_inv r (mset (supplied n allocs) + add_mset a M) {#} que' \<and>
    rx_contents (nic_rx que') = rx_contents (nic_rx que1) @ supplied n allocs \<and> tx_contents (nic_tx que') = tx_contents (nic_tx que1)"
    by (rule "2.IH" [OF _ s(2)]) (use s p in \<open>auto simp: err_is_fail_def ring_kept_def\<close>)
  then show ?case using c s(1,3,4) by (auto simp: err_is_fail_def)
qed simp_all

text \<open>When the UDP queue has no region in the slot of the receive queue's identifier, the first mbuf is refused and freed.\<close>

lemma bench_fill_refused:
  assumes k: "knows_region (cq_pool (nic_rx que)) r" and m: "bench_mbuf (nic_rx que) r a"
    and p: "pool_inv (cq_pool que)" "rp_pool (cq_pool que) ! region_slot (cq_pool que) (r_id r) = 0"
  shows "bench_fill cap0 (Suc n) (Some a # allocs) que = Inr ([a], False, share_mbufs que)"
proof -
  obtain m where m: "mbufs (nic_rx que) a = Some m" "mbuf_std (mempools (nic_rx que)) r a m" using m by (auto simp: bench_mbuf_def)
  obtain j where j: "pool_inv_at j (cq_pool que)" using p(1) by (auto simp: pool_inv_def)
  have "region_pool_buffer_check_bounds (cq_pool que) (std_buf a m r NETIF_RXFLAG) = Inr False"
    using region_slot_bound [OF j, of "r_id r"] pool_inv_atD(4) [OF j] p(2) by (simp add: region_pool_buffer_check_bounds_def)
  then have "stack_enqueue cap0 que (std_buf a m r NETIF_RXFLAG) = Inr (CLEANQ_ERR_INVALID_BUFFER_ARGS, share_mbufs que)"
    by (simp add: stack_enqueue_def cleanq_enqueue_def)
  then show ?thesis using mbuf_to_std_buf [OF k m] by (simp add: err_is_fail_def)
qed

text \<open>The identifier a new pool gives to its first region.\<close>

definition first_id :: "u32 \<Rightarrow> regionid" where
  "first_id rnd = ucast (ucast (drop_bit 12 rnd) + 1 :: u64)"

lemma first_region:
  assumes "malloc_ret env \<noteq> 0"
  obtains p p' where "region_pool_init True True rnd = (CLEANQ_ERR_OK, Some p)"
    "region_pool_add_region env p cap rid = Inr (CLEANQ_ERR_OK, first_id rnd, p')" "pool_inv p'"
    "pool_map p' = [first_id rnd \<mapsto> new_region (first_id rnd) cap]" "rp_size p' = 16"
proof -
  obtain p where p: "region_pool_init True True rnd = (CLEANQ_ERR_OK, Some p)" by (simp add: region_pool_init_def)
  note i = region_pool_init_inv [OF p]
  have f: "rp_size p = 16" "num_regions p = 0" "last_offset p = 0" "region_offset p = ucast (drop_bit 12 rnd)"
    "rp_pool p = replicate 16 0"
    using p by (auto simp: region_pool_init_def INIT_POOL_SIZE_def)
  have ok: "malloc_ok (region_alloc p) x" for x
    using p by (auto simp: region_pool_init_def slab_init_def malloc_ok_def fresh_memory_def)
  obtain k id p' where a: "region_pool_add_region env p cap rid = Inr (CLEANQ_ERR_OK, id, p')" "pool_inv_at k p'"
    "pool_map p' = (pool_map p)(id \<mapsto> new_region id cap)"
    by (rule region_pool_add_region_spec [OF conjunct1 [OF conjunct2 [OF i]], of env cap rid])
      (use i ok assms f in auto)
  let ?p = "p\<lparr>num_regions := 1\<rparr>"
  have "unat (slot_index ?p 0) < 16" using slot_index_eq [of ?p 4 0] f by simp
  then have "find_slot ?p 0 = Some (Inr 0)" using f by (subst find_slot.simps) (simp add: f)
  then have "id = first_id rnd" "rp_size p' = 16"
    using a(1) f by (auto simp: region_pool_add_region_def bindc_eq_Inr grow_if_full_def Let_def run_loop_def first_id_def err_is_fail_def split: if_splits)
  then show thesis using that p a i by (auto simp: pool_inv_def)
qed

text \<open>A slot in which the only region of a pool is not.\<close>

lemma other_slot_empty:
  assumes "pool_inv p" "pool_map p = [rid \<mapsto> r']" "r_id r' = rid" "rp_size p = 16" "unat rid mod 16 \<noteq> unat x mod 16"
  shows "rp_pool p ! region_slot p x = 0"
proof (rule ccontr)
  assume n: "rp_pool p ! region_slot p x \<noteq> 0"
  obtain k where k: "pool_inv_at k p" using assms(1) by (auto simp: pool_inv_def)
  obtain s where "pool_map p (r_id s) = Some s" "region_slot p (r_id s) = region_slot p x"
    by (rule pool_map_slot [OF k region_slot_bound [OF k] n])
  moreover have "region_slot p y = unat y mod 2 ^ 4" for y by (rule region_slot_eq) (simp add: assms(4))
  ultimately show False using assms(2,3,5) by (auto split: if_splits)
qed

text \<open>A stack with nothing in its rings, on a started port.\<close>

definition port_ready :: "region \<Rightarrow> u64 list \<Rightarrow> pkt_mem \<Rightarrow> ixgbe_rx_queue \<Rightarrow> ixgbe_tx_queue \<Rightarrow> bool" where
  "port_ready r as mem rx tx \<longleftrightarrow>
     knows_region (cq_pool rx) r \<and> knows_region (cq_pool tx) r \<and> r_base_addr r \<noteq> 0 \<and>
     rx_inv rx \<and> tx_inv tx \<and> rx_contents rx = [] \<and> tx_contents tx = [] \<and> mbufs tx = mbufs rx \<and> mempools tx = mempools rx \<and>
     length as < unat (nb_rx_desc rx) \<and> length as < unat (nb_tx_desc tx) \<and>
     (\<forall>a\<in>set as. bench_mbuf rx r a \<and> bench_frame mem a)"

text \<open>Creating the queues and registering the mempool.\<close>

lemma bench_port_init_eq:
  assumes cap: "mempool_to_cap mbuf_pool = Inr cap" and "malloc_ret env \<noteq> 0"
  obtains que where "nic_rx que = rx" "nic_tx que = tx" "pkts_mem que = mem" "pool_inv (cq_pool que)" "rp_size (cq_pool que) = 16"
    "pool_map (cq_pool que) = [first_id rnd \<mapsto> new_region (first_id rnd) cap]"
    "rv_va (uq_regions que ! vaddr_slot (first_id rnd)) = cap_vaddr cap"
    "rv_va (iq_regions (uq_q que) ! vaddr_slot (first_id rnd)) = cap_vaddr cap"
    "bench_port_init (True, True, True) rnd (True, True, True) rnd' env rid0 cap0 allocs mem rx tx src_ip dst_ip src_mac dst_mac mbuf_pool =
       bindc (bench_fill cap0 (RX_RING_SIZE - 1) allocs que) (\<lambda>(freed, _, que'). Inr (CLEANQ_ERR_OK, freed, Some que'))"
proof -
  obtain p p' where p: "region_pool_init True True rnd = (CLEANQ_ERR_OK, Some p)"
    "region_pool_add_region env p cap rid0 = Inr (CLEANQ_ERR_OK, first_id rnd, p')" "pool_inv p'"
    "pool_map p' = [first_id rnd \<mapsto> new_region (first_id rnd) cap]" "rp_size p' = 16"
    by (rule first_region [OF assms(2)])
  obtain p2 where p2: "region_pool_init True True rnd' = (CLEANQ_ERR_OK, Some p2)" by (simp add: region_pool_init_def)
  obtain q where q: "ip_create True True True rnd' mem rx tx UDP_PROT src_ip dst_ip src_mac dst_mac = Inr (CLEANQ_ERR_OK, Some q)"
    "iq_rx q = rx" "iq_tx q = tx" "iq_mem q = mem" "length (iq_regions q) = MAX_NUM_REGIONS"
    using p2 by (simp add: ip_create_def cleanq_init_def err_is_fail_def Let_def)
  obtain que0 where u: "udp_create (True, True, True) rnd (True, True, True) rnd' mem rx tx SRC_PORT DST_PORT src_ip dst_ip src_mac dst_mac =
      Inr (CLEANQ_ERR_OK, Some que0)" "uq_q que0 = q" "cq_pool que0 = p" "length (uq_regions que0) = MAX_NUM_REGIONS"
    using p(1) q(1) by (simp add: udp_create_def cleanq_init_def err_is_fail_def)
  let ?que = "que0\<lparr>cq_pool := p'\<rparr>"
  obtain que where r: "udp_register (ip_f cap0 ixgbe_rx_f ixgbe_tx_f) ?que cap (first_id rnd) = Inr (CLEANQ_ERR_OK, que)"
    "nic_rx que = rx" "nic_tx que = tx" "pkts_mem que = mem" "cq_pool que = p'"
    "rv_va (uq_regions que ! vaddr_slot (first_id rnd)) = cap_vaddr cap"
    "rv_va (iq_regions (uq_q que) ! vaddr_slot (first_id rnd)) = cap_vaddr cap"
    using q(2-5) u(2-4)
    by (cases que0) (simp add: udp_register_def ip_f_def ip_register_def ixgbe_tx_f_def ixgbe_cleanq_register_def Let_def)
  have "cleanq_register_mempool env (stack_f cap0) que0 mbuf_pool rid0 = Inr (CLEANQ_ERR_OK, que)"
    using cap p(2) u(3) r(1) by (simp add: cleanq_register_mempool_def cleanq_register_def stack_f_def udp_f_def err_is_fail_def Let_def)
  then show thesis using that r p u(1) by (simp add: bench_port_init_def err_is_fail_def)
qed

section \<open>Properties\<close>

text \<open>Property C9: the UDP benchmark loses no mbuf. Take a port whose three pools (of the UDP queue and of the two rings) gave the
  mempool the same identifier, with mbufs of the default size, fewer of them than descriptors in either ring. Then in any run of rounds, in which the card
  writes back descriptors, with lengths that fit the mbufs, and packets of any content at any time, every mbuf stays in one of the rings, none
  is freed, and the next round returns: no assertion fails, no memory is accessed that must not be, and
  packets that are damaged or for others go back to the receive ring.\<close>

theorem udp_bench_conserves:
  assumes "bench_inv r M {#} que0" "bench_run cap0 que0 que num freed"
  shows "freed = [] \<and> mset (rx_contents (nic_rx que)) + mset (tx_contents (nic_tx que)) =
      mset (rx_contents (nic_rx que0)) + mset (tx_contents (nic_tx que0)) \<and>
    (\<exists>num' que'. bench_round cap0 b0 num que = Inr ([], num', que'))"
proof -
  have "bench_inv r M {#} que" "freed = []" using bench_run_inv [OF assms(2,1)] by auto
  then show ?thesis using bench_round_spec [of r M que cap0 b0 num] bench_invD(6) [of r M "{#}"] assms(1) by fastforce
qed

text \<open>A well-formed port for the witnesses: one mbuf, all memory mapped.\<close>

definition demo_que :: "region_pool \<Rightarrow> ixgbe_rx_queue \<Rightarrow> ixgbe_tx_queue \<Rightarrow> udp_port" where
  "demo_que p rx tx =
     \<lparr>cq_pool = p, cq_state = 0,
      uq_q = \<lparr>cq_pool = demo_pool, cq_state = 0, iq_rx = rx, iq_tx = tx, iq_header = init_header demo_mac demo_mac 1 2 IP_PROTO_UDP,
              iq_regions = replicate MAX_NUM_REGIONS \<lparr>rv_va = 0x10000, rv_rid = 0\<rparr>, iq_hdr_len = 28, iq_proto = IP_PROTO_UDP,
              iq_pkt_id = 3, iq_mem = demo_mem\<rparr>,
      uq_header = \<lparr>udp_src = 0, udp_dest = 0, udp_len = 0, udp_chksum = 0\<rparr>, uq_dst_port = 2000, uq_src_port = 2000,
      uq_regions = replicate MAX_NUM_REGIONS \<lparr>rv_va = 0x10000, rv_rid = 0\<rparr>\<rparr>"

lemma demo_bench_mbuf:
  assumes "mempools q = [1 \<mapsto> demo_mempool]" "mbufs q = [0x10800 \<mapsto> demo_mbuf]"
  shows "bench_mbuf q (new_region nid demo_cap) 0x10800"
  using assms by (simp add: bench_mbuf_def mbuf_std_def demo_mbuf_def demo_mempool_def new_region_def demo_cap_def HEADROOM_128)

lemma demo_knows: "pool_inv p \<Longrightarrow> pool_map p = [nid \<mapsto> new_region nid demo_cap] \<Longrightarrow> knows_region p (new_region nid demo_cap)"
  using demo_apart by (auto simp: knows_region_def new_region_def)

lemma demo_bench:
  obtains r que where "bench_inv r {#0x10800#} {#} que" "rx_contents (nic_rx que) = [0x10800]" "tx_contents (nic_tx que) = []"
    "ip_dest (ph_ip (iq_header (uq_q que))) = 2" "iq_proto (uq_q que) = IP_PROTO_UDP" "uq_dst_port que = 2000" "rx_ready (nic_rx que)"
proof -
  obtain nid p where a: "pool_inv p" "pool_map p = [nid \<mapsto> new_region nid demo_cap]" by (rule demo_pool_add)
  obtain tx where "ixgbe_reset_tx_queue (demo_txq p) = Inr tx" by (simp add: ixgbe_reset_tx_queue_def demo_txq_def)
  then have t: "tx_inv tx" "tx_contents tx = []" "cq_pool tx = p"
    "mempools tx = [1 \<mapsto> demo_mempool]" "mbufs tx = [0x10800 \<mapsto> demo_mbuf]" "nb_tx_desc tx = 4"
    using reset_tx_inv [of "demo_txq p" tx] a(1) demo_apart [OF a(2)] by (simp_all add: demo_txq_def)
  note d = demo_rxq_inv [OF a]
  let ?r = "new_region nid demo_cap" and ?que = "demo_que p (demo_rxq p) tx"
  have f: "mempools (demo_rxq p) = [1 \<mapsto> demo_mempool]" "mbufs (demo_rxq p) = [0x10800 \<mapsto> demo_mbuf]" "cq_pool (demo_rxq p) = p"
    "nb_rx_desc (demo_rxq p) = 4" by (simp_all add: demo_rxq_def)
  have q: "nic_rx ?que = demo_rxq p" "nic_tx ?que = tx" "pkts_mem ?que = demo_mem" "cq_pool ?que = p"
    "uq_regions ?que = replicate MAX_NUM_REGIONS \<lparr>rv_va = 0x10000, rv_rid = 0\<rparr>"
    "iq_regions (uq_q ?que) = replicate MAX_NUM_REGIONS \<lparr>rv_va = 0x10000, rv_rid = 0\<rparr>" by (simp_all add: demo_que_def)
  have "stack_ok ?r ?que" unfolding stack_ok_def q f t
    using demo_knows [OF a] by (simp add: new_region_def demo_cap_def)
  then have "bench_inv ?r {#0x10800#} {#} ?que" unfolding bench_inv_def q
    using d t f demo_bench_mbuf [OF f(1,2), of nid] by (simp add: bench_frame_def mapped_def demo_mem_def)
  moreover have "ip_dest (ph_ip (iq_header (uq_q ?que))) = 2" "iq_proto (uq_q ?que) = IP_PROTO_UDP" "uq_dst_port ?que = 2000"
    by (simp_all add: demo_que_def init_header_def)
  ultimately show thesis using that q d t by metis
qed

theorem udp_bench_conserves_witness:
  "\<exists>que0 que num. rx_contents (nic_rx que0) = [0x10800] \<and> bench_run demo_cap que0 que num [] \<and>
     mset (rx_contents (nic_rx que)) + mset (tx_contents (nic_tx que)) = {#0x10800#} \<and>
     (\<exists>num' que'. bench_round demo_cap empty_buf num que = Inr ([], num', que'))"
proof -
  obtain r que0 where d: "bench_inv r {#0x10800#} {#} que0" "rx_contents (nic_rx que0) = [0x10800]" "tx_contents (nic_tx que0) = []"
    by (rule demo_bench)
  obtain num que where s: "bench_round demo_cap empty_buf 0 que0 = Inr ([], num, que)"
    using udp_bench_conserves [OF d(1) bench_run.start, of demo_cap empty_buf] by auto
  have run: "bench_run demo_cap que0 que num []" using bench_run.round [OF bench_run.start s] by simp
  have "mset (rx_contents (nic_rx que)) + mset (tx_contents (nic_tx que)) = {#0x10800#} \<and>
     (\<exists>num' que'. bench_round demo_cap empty_buf num que = Inr ([], num', que'))"
    using udp_bench_conserves [OF d(1) run, of empty_buf] d(2,3) by simp
  then show ?thesis using run d(2) by blast
qed

text \<open>The stack after the registration is as the program needs it when the identifiers agree, and refuses the first mbuf when
  their slots differ.\<close>

lemma bench_inv_opened:
  assumes cap: "mempool_to_cap mbuf_pool = Inr cap" and ready: "port_ready (new_region nid cap) as mem (nic_rx que) (nic_tx que)"
    and q: "pkts_mem que = mem" "pool_inv (cq_pool que)" "pool_map (cq_pool que) = [nid \<mapsto> new_region nid cap]"
      "rv_va (uq_regions que ! vaddr_slot nid) = cap_vaddr cap" "rv_va (iq_regions (uq_q que) ! vaddr_slot nid) = cap_vaddr cap"
  shows "bench_inv (new_region nid cap) {#} {#} que"
proof -
  let ?r = "new_region nid cap"
  have "knows_region (cq_pool (nic_rx que)) ?r" using ready by (simp add: port_ready_def)
  then have "knows_region (cq_pool que) ?r" using q(2,3)
    by (auto simp: knows_region_def regions_apart_def new_region_def ran_def split: if_splits)
  moreover have "cap_vaddr cap = r_base_addr ?r" using cap by (auto simp: mempool_to_cap_def bindc_eq_Inr new_region_def)
  ultimately have "stack_ok ?r que" using ready q(4,5) by (simp add: stack_ok_def port_ready_def new_region_def)
  then show ?thesis using ready q(1) by (auto simp: bench_inv_def port_ready_def)
qed

lemma bench_fill_none:
  assumes ready: "port_ready r (supplied (Suc n) allocs) mem (nic_rx que) tx"
    and p: "pool_inv (cq_pool que)" "rp_pool (cq_pool que) ! region_slot (cq_pool que) (r_id r) = 0"
  shows "\<exists>failed que'. bench_fill cap0 (Suc n) allocs que = Inr (take 1 (supplied (Suc n) allocs), failed, que') \<and>
    nic_rx que' = nic_rx que"
proof (cases "\<exists>a rest. allocs = Some a # rest")
  case True
  then obtain a rest where c: "allocs = Some a # rest" by blast
  have "bench_fill cap0 (Suc n) (Some a # rest) que = Inr ([a], False, share_mbufs que)"
    by (rule bench_fill_refused [where r = r]) (use ready p c in \<open>simp_all add: port_ready_def\<close>)
  then show ?thesis using c by auto
next
  case False
  then have "allocs = [] \<or> (\<exists>rest. allocs = None # rest)" by (cases allocs; cases "hd allocs") auto
  then show ?thesis by auto
qed

text \<open>Property C33: opening the port. The UDP queue gives the mempool an identifier made from a random number of its
  own. When that is the identifier the rings have, every mbuf the mempool supplies goes into the receive ring, in order,
  and the port is as the benchmark needs it. When the two differ in their last four bits, the receive ring stays
  empty, the first mbuf is freed, and opening the port still reports success.\<close>

theorem bench_port_init_outcome:
  assumes "mempool_to_cap mbuf_pool = Inr cap" "malloc_ret env \<noteq> 0" "as = supplied (RX_RING_SIZE - 1) allocs"
    and ready: "port_ready (new_region nid cap) as mem rx tx"
    and opened: "opened = bench_port_init (True, True, True) rnd (True, True, True) rnd' env rid0 cap0 allocs mem rx tx src_ip dst_ip
    src_mac dst_mac mbuf_pool"
  shows "(first_id rnd = nid \<longrightarrow> (\<exists>que. opened = Inr (CLEANQ_ERR_OK, [], Some que) \<and> rx_contents (nic_rx que) = as \<and>
      bench_inv (new_region nid cap) (mset as) {#} que)) \<and>
    (unat (first_id rnd) mod 16 \<noteq> unat nid mod 16 \<longrightarrow>
      (\<exists>que. opened = Inr (CLEANQ_ERR_OK, take 1 as, Some que) \<and> rx_contents (nic_rx que) = []))"
proof -
  let ?r = "new_region nid cap"
  obtain que where q: "nic_rx que = rx" "nic_tx que = tx" "pkts_mem que = mem" "pool_inv (cq_pool que)" "rp_size (cq_pool que) = 16"
    "pool_map (cq_pool que) = [first_id rnd \<mapsto> new_region (first_id rnd) cap]"
    "rv_va (uq_regions que ! vaddr_slot (first_id rnd)) = cap_vaddr cap"
    "rv_va (iq_regions (uq_q que) ! vaddr_slot (first_id rnd)) = cap_vaddr cap"
    "opened = bindc (bench_fill cap0 (RX_RING_SIZE - 1) allocs que) (\<lambda>(freed, _, que'). Inr (CLEANQ_ERR_OK, freed, Some que'))"
    unfolding opened by (rule bench_port_init_eq [OF assms(1,2), of rx tx mem])
  have p: "rx_contents rx = []" "\<forall>a\<in>set as. bench_mbuf rx ?r a \<and> bench_frame mem a"
    "length as < unat (nb_rx_desc rx)" "length as < unat (nb_tx_desc tx)"
    using ready by (simp_all add: port_ready_def)
  show ?thesis
  proof (intro conjI impI)
    assume same: "first_id rnd = nid"
    have "bench_inv ?r {#} {#} que" by (rule bench_inv_opened [OF assms(1)]) (use ready q same in simp_all)
    then show "\<exists>que. opened = Inr (CLEANQ_ERR_OK, [], Some que) \<and> rx_contents (nic_rx que) = as \<and> bench_inv ?r (mset as) {#} que"
      using bench_fill_spec [of ?r "{#}" que "RX_RING_SIZE - 1" allocs cap0] p q(1-3,9) assms(3) by auto
  next
    assume slot: "unat (first_id rnd) mod 16 \<noteq> unat nid mod 16"
    have s: "rp_pool (cq_pool que) ! region_slot (cq_pool que) (r_id ?r) = 0"
      by (rule other_slot_empty [OF q(4,6) _ q(5)]) (use slot in \<open>simp_all add: new_region_def\<close>)
    have n: "RX_RING_SIZE - 1 = Suc 1022" by (simp add: RX_RING_SIZE_def)
    obtain failed que' where "bench_fill cap0 (Suc 1022) allocs que = Inr (take 1 as, failed, que')" "nic_rx que' = rx"
      using bench_fill_none [of ?r 1022 allocs mem que tx cap0] ready s q(1,4) assms(3) unfolding n by auto
    then show "\<exists>que. opened = Inr (CLEANQ_ERR_OK, take 1 as, Some que) \<and> rx_contents (nic_rx que) = []"
      using q(9) p(1) unfolding n by auto
  qed
qed

lemma demo_port_ready:
  obtains rx tx where "port_ready (new_region (first_id 20480) demo_cap) [0x10800] demo_mem rx tx"
proof -
  obtain p where a: "pool_inv p" "pool_map p = [first_id 20480 \<mapsto> new_region (first_id 20480) demo_cap]"
    by (rule first_region [of demo_env 20480 demo_cap 0]) (simp_all add: demo_env_def)
  obtain tx where "ixgbe_reset_tx_queue (demo_txq p) = Inr tx" by (simp add: ixgbe_reset_tx_queue_def demo_txq_def)
  then have t: "tx_inv tx" "tx_contents tx = []" "cq_pool tx = p"
    "mempools tx = [1 \<mapsto> demo_mempool]" "mbufs tx = [0x10800 \<mapsto> demo_mbuf]" "nb_tx_desc tx = 4"
    using reset_tx_inv [of "demo_txq p" tx] a(1) demo_apart [OF a(2)] by (simp_all add: demo_txq_def)
  let ?rx = "(demo_rxq p)\<lparr>rx_tail := 0\<rparr>"
  have f: "mempools ?rx = [1 \<mapsto> demo_mempool]" "mbufs ?rx = [0x10800 \<mapsto> demo_mbuf]" "cq_pool ?rx = p" "nb_rx_desc ?rx = 4"
    "in_flight (nb_rx_desc ?rx) (rx_recl ?rx) (rx_tail ?rx) = 0"
    by (simp_all add: demo_rxq_def in_flight_def)
  have c: "rx_contents ?rx = []" unfolding rx_contents_def f(5) by simp
  have "rx_inv ?rx" unfolding rx_inv_def c f(5)
    using a(1) demo_apart [OF a(2)] by (simp add: demo_rxq_def ring_ok_def)
  then have "port_ready (new_region (first_id 20480) demo_cap) [0x10800] demo_mem ?rx tx"
    using c t f demo_knows [OF a] demo_bench_mbuf [OF f(1,2), of "first_id 20480"] unfolding port_ready_def
    by (simp add: bench_frame_def mapped_def demo_mem_def) (simp add: new_region_def demo_cap_def)
  then show thesis by (rule that)
qed

theorem bench_port_init_outcome_witness:
  "\<exists>rx tx que que'. bench_port_init (True, True, True) 20480 (True, True, True) 0 demo_env 0 demo_cap [Some 0x10800] demo_mem rx tx 1 2
       demo_mac demo_mac demo_mempool = Inr (CLEANQ_ERR_OK, [], Some que) \<and> rx_contents (nic_rx que) = [0x10800] \<and>
     bench_port_init (True, True, True) 0 (True, True, True) 0 demo_env 0 demo_cap [Some 0x10800] demo_mem rx tx 1 2
       demo_mac demo_mac demo_mempool = Inr (CLEANQ_ERR_OK, [0x10800], Some que') \<and> rx_contents (nic_rx que') = []"
proof -
  have c: "mempool_to_cap demo_mempool = Inr demo_cap" "malloc_ret demo_env \<noteq> 0"
    by (simp_all add: mempool_to_cap_def mempool_base_addr_def demo_mempool_def mempool_length_def demo_cap_def demo_env_def)
  have s: "[0x10800] = supplied (RX_RING_SIZE - 1) [Some 0x10800]" by (simp add: supplied_def RX_RING_SIZE_def)
  obtain rx tx where r: "port_ready (new_region (first_id 20480) demo_cap) [0x10800] demo_mem rx tx" by (rule demo_port_ready)
  have "unat (first_id 0) mod 16 \<noteq> unat (first_id 20480) mod 16" by (simp add: first_id_def)
  then show ?thesis
    using bench_port_init_outcome [OF c s r refl, of 20480 0 0 demo_cap 1 2 demo_mac demo_mac]
      bench_port_init_outcome [OF c s r refl, of 0 0 0 demo_cap 1 2 demo_mac demo_mac] by auto
qed

section \<open>Replies\<close>

lemma share_mbufs_twice [simp]: "share_mbufs (share_mbufs que) = share_mbufs que"
  by (simp add: share_mbufs_def)

lemma tx_ready_share: "tx_ready (nic_tx (share_mbufs que)) = tx_ready (nic_tx que)"
  by (simp add: share_mbufs_def tx_ready_def)


















text \<open>Sending one packet back writes its own frame and nothing else.\<close>

lemma next_header_twice [simp]: "next_header (next_header h l i) l' i' = next_header h l' i'"
  by (simp add: next_header_def Let_def)









end
