(* ===== verification/Bench.thy ===== *)
theory Bench
  imports CleanQ_Prelude "HOL-Library.Multiset"
begin

text \<open>
  The benchmarking library: \<open>lib/libcleanq/src/bench/bench.c\<close> and \<open>bench_ctl.c\<close>. Timestamps are
  arguments, an array with its length is a list, and what a function prints is its result: the
  integers, in the order of the columns (the same numbers converted to microseconds in floating
  point are left out). The position of a percentile is computed in doubles, with their rounding.

  Contents: time differences and statistics; the record of the runs, the counting in bins, the
  sorting; that the report gives the order statistics of what was recorded, and that bins count
  every value once if the range is a multiple of their number.
\<close>

section \<open>Statistics (bench.c)\<close>

definition BENCH_IGNORE_WATERMARK :: u64 where
  "BENCH_IGNORE_WATERMARK = 0xDEADBEEF"

record bench_state =
  tsc_overhead :: u64
  bench_is_initialized :: bool

text \<open>\<open>tsc i\<close> is the \<open>i\<close>th reading of the counter.\<close>

definition measure_tsc :: "(nat \<Rightarrow> u64) \<Rightarrow> bench_state \<Rightarrow> bench_state" where
  "measure_tsc tsc s = s\<lparr>tsc_overhead := (tsc 1000 - tsc 0) div 1000\<rparr>"

definition bench_init :: "(nat \<Rightarrow> u64) \<Rightarrow> bench_state \<Rightarrow> bench_state" where
  "bench_init tsc s = (if bench_is_initialized s then s else (measure_tsc tsc s)\<lparr>bench_is_initialized := True\<rparr>)"

text \<open>\<open>None\<close>: the process exits because the library is not initialised.\<close>

definition bench_tscoverhead :: "bench_state \<Rightarrow> u64 option" where
  "bench_tscoverhead s = (if \<not> bench_is_initialized s then None else Some (tsc_overhead s))"

definition LONG_MAX :: u64 where
  "LONG_MAX = 2 ^ 63 - 1"

definition bench_time_diff :: "bench_state \<Rightarrow> u64 \<Rightarrow> u64 \<Rightarrow> u64 option" where
  "bench_time_diff s tsc_start tsc_end =
     (case bench_tscoverhead s of
        None \<Rightarrow> None
      | Some ov \<Rightarrow> if tsc_end < tsc_start then Some ((LONG_MAX - tsc_start) + tsc_end - ov)
                  else Some (tsc_end - tsc_start - ov))"


definition sum_count :: "(u64 \<Rightarrow> u64) \<Rightarrow> u64 list \<Rightarrow> u64 \<times> u64" where
  "sum_count f array =
     fold (\<lambda>x (sm, cnt). if x \<noteq> BENCH_IGNORE_WATERMARK then (sm + f x, cnt + 1) else (sm, cnt))
       (drop (length array div 8) array) (0, 0)"

definition divc :: "u64 \<Rightarrow> u64 \<Rightarrow> u64 cres" where
  "divc x y = (if y = 0 then Inl Div_By_Zero else Inr (x div y))"

definition bench_avg :: "u64 list \<Rightarrow> u64 cres" where
  "bench_avg array = (case sum_count (\<lambda>x. x) array of (sm, cnt) \<Rightarrow> divc sm cnt)"

definition bench_variance :: "u64 list \<Rightarrow> u64 cres" where
  "bench_variance array =
     bindc (bench_avg array) (\<lambda>avg.
     case sum_count (\<lambda>x. x * x) array of (sm, cnt) \<Rightarrow> bindc (divc sm cnt) (\<lambda>d. Inr (d - avg * avg)))"


definition bench_min :: "u64 list \<Rightarrow> u64" where
  "bench_min array =
     fold (\<lambda>x mn. if x \<noteq> BENCH_IGNORE_WATERMARK \<and> x < mn then x else mn) (drop (length array div 8) array) (- 1)"

definition bench_max :: "u64 list \<Rightarrow> u64" where
  "bench_max array =
     fold (\<lambda>x mx. if x \<noteq> BENCH_IGNORE_WATERMARK \<and> mx < x then x else mx) (drop (length array div 8) array) 0"

section \<open>Recording runs (bench\_ctl.c)\<close>

datatype bench_ctl_mode = BENCH_MODE_FIXEDRUNS

record bench_ctl =
  bc_mode :: bench_ctl_mode
  result_dimensions :: nat
  min_runs :: nat
  dry_runs :: nat
  result_count :: nat
  bc_data :: "u64 list"

text \<open>The results of the two allocations are arguments; nothing checks them. Of an array that could not be
  allocated no element can be accessed.\<close>

definition bench_ctl_init :: "bool \<Rightarrow> bool \<Rightarrow> bench_ctl_mode \<Rightarrow> nat \<Rightarrow> nat \<Rightarrow> bench_ctl cres" where
  "bench_ctl_init calloc1 calloc2 mode dimensions runs =
     (if \<not> calloc1 then Inl Bad_Memory
      else Inr \<lparr>bc_mode = mode, result_dimensions = dimensions, min_runs = runs, dry_runs = 0, result_count = 0,
                bc_data = (if calloc2 then replicate (runs * dimensions) 0 else [])\<rparr>)"

text \<open>Both arrays are freed: nothing is left of the handle.\<close>

definition bench_ctl_destroy :: "bench_ctl \<Rightarrow> bench_ctl option" where
  "bench_ctl_destroy ctl = None"

definition bench_ctl_dry_runs :: "bench_ctl \<Rightarrow> nat \<Rightarrow> bench_ctl" where
  "bench_ctl_dry_runs ctl n = ctl\<lparr>dry_runs := n\<rparr>"

text \<open>\<open>memcpy\<close> of \<open>n\<close> elements to position \<open>k\<close>.\<close>

definition copy_to :: "'a list \<Rightarrow> nat \<Rightarrow> 'a list \<Rightarrow> nat \<Rightarrow> 'a list cres" where
  "copy_to dst k src n =
     (if n \<le> length src \<and> k + n \<le> length dst then Inr (take k dst @ take n src @ drop (k + n) dst)
      else Inl Bad_Memory)"

definition bench_ctl_add_run :: "bench_ctl \<Rightarrow> u64 list \<Rightarrow> (bool \<times> bench_ctl) cres" where
  "bench_ctl_add_run ctl result =
     (if result_count ctl = min_runs ctl then Inr (True, ctl)
      else bindc (copy_to (bc_data ctl) (result_count ctl * result_dimensions ctl) result (result_dimensions ctl)) (\<lambda>data.
           let ctl' = ctl\<lparr>bc_data := data, result_count := result_count ctl + 1\<rparr>
           in Inr (result_count ctl' = min_runs ctl', ctl')))"

text \<open>\<open>bench_ctl_dump_csv\<close> prints the values of every run.\<close>

fun map_c :: "('a \<Rightarrow> 'b cres) \<Rightarrow> 'a list \<Rightarrow> 'b list cres" where
  "map_c f [] = Inr []"
| "map_c f (x # xs) = bindc (f x) (\<lambda>y. bindc (map_c f xs) (\<lambda>ys. Inr (y # ys)))"

definition bench_ctl_dump_csv :: "bench_ctl \<Rightarrow> u64 list list cres" where
  "bench_ctl_dump_csv ctl =
     map_c (\<lambda>i. map_c (\<lambda>j. arr_get (bc_data ctl) (i * result_dimensions ctl + j)) [0..<result_dimensions ctl])
       [0..<result_count ctl]"


section \<open>Bins\<close>

definition val2bin :: "u64 \<Rightarrow> u64 \<Rightarrow> u64 \<Rightarrow> u64 \<Rightarrow> u64 cres" where
  "val2bin bin_count mn mx v =
     bindc (divc (mx - mn) bin_count) (\<lambda>bin_width.
     if v < mn then Inr bin_count
     else if mx \<le> v then Inr (bin_count + 1)
     else divc (v - mn) bin_width)"

definition bin2val :: "u64 \<Rightarrow> u64 \<Rightarrow> u64 \<Rightarrow> u64 \<Rightarrow> u64 cres" where
  "bin2val bin_count mn mx idx = bindc (divc (mx - mn) bin_count) (\<lambda>bin_width. Inr (mn + idx * bin_width))"

fun count_bins :: "u64 \<Rightarrow> u64 \<Rightarrow> u64 \<Rightarrow> u64 list \<Rightarrow> u64 list \<Rightarrow> u64 list cres" where
  "count_bins bin_count mn mx [] bins = Inr bins"
| "count_bins bin_count mn mx (v # vs) bins =
     bindc (val2bin bin_count mn mx v) (\<lambda>k.
     bindc (arr_get bins (unat k)) (\<lambda>c.
     bindc (arr_set bins (unat k) (c + 1)) (\<lambda>bins'. count_bins bin_count mn mx vs bins')))"

definition do_bincounting :: "bool \<Rightarrow> bench_ctl \<Rightarrow> nat \<Rightarrow> u64 \<Rightarrow> u64 \<Rightarrow> u64 \<Rightarrow> u64 list cres" where
  "do_bincounting calloc_ok ctl dimension bin_count mn mx =
     bindc (map_c (\<lambda>i. arr_get (bc_data ctl) (result_dimensions ctl * i + dimension)) [0..<result_count ctl]) (\<lambda>vs.
     count_bins bin_count mn mx vs (if calloc_ok then replicate (unat (bin_count + 2)) 0 else []))"

text \<open>What \<open>bench_ctl_dump_csv_bincounting\<close> prints: the values below, the values above, and for each bin
  that is not empty its lower end and its count.\<close>

definition bench_ctl_dump_csv_bincounting ::
  "bool \<Rightarrow> bench_ctl \<Rightarrow> nat \<Rightarrow> u64 \<Rightarrow> u64 \<Rightarrow> u64 \<Rightarrow> (u64 \<times> u64 \<times> (u64 \<times> u64) list) cres" where
  "bench_ctl_dump_csv_bincounting calloc_ok ctl dimension bin_count mn mx =
     bindc (do_bincounting calloc_ok ctl dimension bin_count mn mx) (\<lambda>bins.
     bindc (arr_get bins (unat bin_count)) (\<lambda>below.
     bindc (arr_get bins (unat (bin_count + 1))) (\<lambda>above.
     bindc (map_c (\<lambda>i. bindc (arr_get bins i) (\<lambda>c. bindc (bin2val bin_count mn mx (of_nat i)) (\<lambda>v. Inr (v, c))))
              (filter (\<lambda>i. i < length bins \<and> 0 < bins ! i) [0..<unat bin_count])) (\<lambda>rows.
     Inr (below, above, rows)))))"

section \<open>Sorting and the report\<close>

text \<open>The body of the inner loop and the two loops of \<open>do_sorting\<close>.\<close>

definition exchange :: "nat \<Rightarrow> nat \<Rightarrow> u64 list \<Rightarrow> u64 list" where
  "exchange i j a = (if a ! j < a ! i then a[i := a ! j, j := a ! i] else a)"










section \<open>The position of the 99th percentile\<close>










section \<open>Sorting\<close>

lemma length_exchange [simp]: "length (exchange i j a) = length a"
  by (simp add: exchange_def)






section \<open>Runs\<close>

lemma map_c_Inr: "(\<And>x. x \<in> set xs \<Longrightarrow> f x = Inr (g x)) \<Longrightarrow> map_c f xs = Inr (map g xs)"
  by (induction xs) auto

fun add_runs :: "bench_ctl \<Rightarrow> u64 list list \<Rightarrow> bench_ctl cres" where
  "add_runs ctl [] = Inr ctl"
| "add_runs ctl (r # rs) = bindc (bench_ctl_add_run ctl r) (\<lambda>(_, ctl'). add_runs ctl' rs)"

text \<open>\<open>ctl\<close> has recorded the runs \<open>rs\<close>.\<close>

definition recorded :: "bench_ctl \<Rightarrow> u64 list list \<Rightarrow> bool" where
  "recorded ctl rs \<longleftrightarrow> result_count ctl = length rs \<and> length rs \<le> min_runs ctl \<and>
     length (bc_data ctl) = min_runs ctl * result_dimensions ctl \<and>
     (\<forall>r\<in>set rs. length r = result_dimensions ctl) \<and>
     take (length rs * result_dimensions ctl) (bc_data ctl) = concat rs"

lemma add_run_recorded:
  assumes "recorded ctl rs" "length r = result_dimensions ctl"
  shows "\<exists>fin ctl'. bench_ctl_add_run ctl r = Inr (fin, ctl') \<and>
    recorded ctl' (if length rs < min_runs ctl then rs @ [r] else rs) \<and>
    min_runs ctl' = min_runs ctl \<and> result_dimensions ctl' = result_dimensions ctl \<and>
    (fin \<longleftrightarrow> result_count ctl' = min_runs ctl')"
proof (cases "length rs = min_runs ctl")
  case True
  then show ?thesis using assms by (auto simp: bench_ctl_add_run_def recorded_def)
next
  case False
  let ?d = "result_dimensions ctl" and ?n = "length rs"
  have lt: "?n < min_runs ctl" using False assms by (simp add: recorded_def)
  then have "Suc ?n * ?d \<le> min_runs ctl * ?d" by (intro mult_le_mono1) simp
  then have fit: "?n * ?d + ?d \<le> length (bc_data ctl)" using assms by (simp add: recorded_def)
  have "concat rs = take (?n * ?d) (bc_data ctl)" using assms(1) by (simp add: recorded_def)
  then have lc: "length (concat rs) = ?n * ?d" using fit by simp
  let ?data = "take (?n * ?d) (bc_data ctl) @ r @ drop (?n * ?d + ?d) (bc_data ctl)"
  have "bench_ctl_add_run ctl r = Inr (Suc ?n = min_runs ctl, ctl\<lparr>bc_data := ?data, result_count := Suc ?n\<rparr>)"
    using assms fit False by (simp add: bench_ctl_add_run_def recorded_def copy_to_def)
  moreover have "recorded (ctl\<lparr>bc_data := ?data, result_count := Suc ?n\<rparr>) (rs @ [r])"
    using assms fit lt lc by (simp add: recorded_def)
  ultimately show ?thesis using lt by simp
qed

lemma add_runs_recorded:
  assumes "recorded ctl rs" "\<forall>r\<in>set rs'. length r = result_dimensions ctl"
  shows "\<exists>ctl'. add_runs ctl rs' = Inr ctl' \<and> recorded ctl' (take (min_runs ctl) (rs @ rs')) \<and>
    result_dimensions ctl' = result_dimensions ctl"
  using assms
proof (induction rs' arbitrary: ctl rs)
  case Nil
  then show ?case by (simp add: recorded_def)
next
  case (Cons r rs')
  then obtain fin ctl' where c: "bench_ctl_add_run ctl r = Inr (fin, ctl')"
    "recorded ctl' (if length rs < min_runs ctl then rs @ [r] else rs)" "min_runs ctl' = min_runs ctl"
    "result_dimensions ctl' = result_dimensions ctl"
    using add_run_recorded [of ctl rs r] by auto
  have "length rs \<le> min_runs ctl" using Cons.prems by (simp add: recorded_def)
  then have "take (min_runs ctl) ((if length rs < min_runs ctl then rs @ [r] else rs) @ rs') = take (min_runs ctl) (rs @ r # rs')"
    by (auto simp: take_Cons')
  then show ?case using Cons.IH [OF c(2)] Cons.prems(2) c by auto
qed

lemma recorded_init: "bench_ctl_init c1 True md d n = Inr ctl \<Longrightarrow> recorded ctl [] \<and> min_runs ctl = n \<and> result_dimensions ctl = d"
  by (auto simp: bench_ctl_init_def recorded_def split: if_splits)

lemma nth_concat_uniform:
  "\<forall>r\<in>set rs. length r = d \<Longrightarrow> i < length rs \<Longrightarrow> j < d \<Longrightarrow> concat rs ! (d * i + j) = rs ! i ! j"
proof (induction rs arbitrary: i)
  case (Cons r rs)
  show ?case
  proof (cases i)
    case 0
    then show ?thesis using Cons.prems by (simp add: nth_append)
  next
    case (Suc k)
    have "concat (r # rs) ! (d * i + j) = concat rs ! (d * k + j)"
      using Cons.prems(1) by (simp add: Suc nth_append add.assoc)
    also have "\<dots> = rs ! k ! j" using Cons.prems Suc by (intro Cons.IH) simp_all
    finally show ?thesis by (simp add: Suc)
  qed
qed simp

lemma recorded_read:
  assumes "recorded ctl rs" "dim < result_dimensions ctl" "i < length rs"
  shows "arr_get (bc_data ctl) (result_dimensions ctl * i + dim) = Inr (rs ! i ! dim)"
proof -
  let ?d = "result_dimensions ctl"
  have "Suc i * ?d \<le> length rs * ?d" using assms(3) by (intro mult_le_mono1) simp
  then have lt: "?d * i + dim < length rs * ?d" using assms(2) by (simp add: mult.commute)
  moreover have "length rs * ?d \<le> length (bc_data ctl)" using assms(1) by (simp add: recorded_def)
  ultimately have "arr_get (bc_data ctl) (?d * i + dim) = Inr (bc_data ctl ! (?d * i + dim))"
    by (intro arr_get_in) linarith
  also have "bc_data ctl ! (?d * i + dim) = take (length rs * ?d) (bc_data ctl) ! (?d * i + dim)"
    by (rule nth_take [OF lt, symmetric])
  also have "take (length rs * ?d) (bc_data ctl) = concat rs" using assms(1) by (simp add: recorded_def)
  also have "concat rs ! (?d * i + dim) = rs ! i ! dim"
    using assms by (intro nth_concat_uniform) (simp_all add: recorded_def)
  finally show ?thesis .
qed

lemma recorded_values:
  assumes "recorded ctl rs" "dim < result_dimensions ctl"
  shows "map_c (\<lambda>i. arr_get (bc_data ctl) (result_dimensions ctl * i + dim)) [0..<result_count ctl] = Inr (map (\<lambda>r. r ! dim) rs)"
proof -
  have "map_c (\<lambda>i. arr_get (bc_data ctl) (result_dimensions ctl * i + dim)) [0..<length rs] = Inr (map (\<lambda>i. rs ! i ! dim) [0..<length rs])"
    by (rule map_c_Inr) (simp add: recorded_read [OF assms])
  moreover have "map (\<lambda>i. rs ! i ! dim) [0..<length rs] = map (\<lambda>r. r ! dim) rs" by (rule nth_equalityI) simp_all
  ultimately show ?thesis using assms(1) by (simp add: recorded_def)
qed

section \<open>Statistics\<close>







section \<open>Counting in bins\<close>

lemma count_bins_spec:
  assumes "\<forall>v\<in>set vs. \<exists>k. val2bin n mn mx v = Inr k \<and> unat k < length bins" and "length bins \<le> 2 ^ 64"
  shows "\<exists>bins'. count_bins n mn mx vs bins = Inr bins' \<and> length bins' = length bins \<and>
    (\<forall>k<length bins. bins' ! k = bins ! k + of_nat (length (filter (\<lambda>v. val2bin n mn mx v = Inr (of_nat k)) vs)))"
  using assms
proof (induction vs arbitrary: bins)
  case (Cons v vs)
  obtain k where k: "val2bin n mn mx v = Inr k" "unat k < length bins" using Cons.prems by auto
  let ?b = "bins[unat k := bins ! unat k + 1]"
  have "\<forall>v\<in>set vs. \<exists>k. val2bin n mn mx v = Inr k \<and> unat k < length ?b" "length ?b \<le> 2 ^ 64" using Cons.prems by simp_all
  from Cons.IH [OF this] obtain bins' where b: "count_bins n mn mx vs ?b = Inr bins'" "length bins' = length bins"
    "\<forall>j<length bins. bins' ! j = ?b ! j + of_nat (length (filter (\<lambda>v. val2bin n mn mx v = Inr (of_nat j)) vs))" by auto
  have "bins' ! j = bins ! j + of_nat (length (filter (\<lambda>v. val2bin n mn mx v = Inr (of_nat j)) (v # vs)))" if j: "j < length bins" for j
  proof (cases "j = unat k")
    case True
    then show ?thesis using b(3) j k by (simp add: ac_simps)
  next
    case False
    have "unat (of_nat j :: u64) = j" using j Cons.prems(2) by (simp add: unat_of_nat)
    then have "k \<noteq> of_nat j" using False by auto
    then show ?thesis using b(3) j k False by simp
  qed
  then show ?case using b k by simp
qed simp

text \<open>The bin of a value when the range divides evenly into bins of width \<open>w\<close>.\<close>

definition even_bins :: "u64 \<Rightarrow> u64 \<Rightarrow> u64 \<Rightarrow> nat \<Rightarrow> bool" where
  "even_bins n mn mx w \<longleftrightarrow> mn < mx \<and> 0 < w \<and> unat mx = unat mn + unat n * w \<and> unat n + 2 \<le> 2 ^ 64 - 1"

lemma val2bin_even:
  assumes e: "even_bins n mn mx w"
  shows "val2bin n mn mx v = Inr (of_nat (if v < mn then unat n else if mx \<le> v then unat n + 1 else (unat v - unat mn) div w))"
proof -
  have n0: "n \<noteq> 0" using e by (auto simp: even_bins_def word_less_nat_alt)
  have le: "mn \<le> mx" "unat (mx - mn) = unat n * w" using e by (simp_all add: even_bins_def unat_sub word_le_nat_alt)
  have "unat ((mx - mn) div n) = unat n * w div unat n" by (simp add: unat_div le)
  also have "\<dots> = w" using n0 by (simp add: unat_eq_0)
  finally have w: "unat ((mx - mn) div n) = w" .
  then have w0: "(mx - mn) div n \<noteq> 0" using e by (auto simp: even_bins_def)
  have "(v - mn) div ((mx - mn) div n) = of_nat ((unat v - unat mn) div w)" if "\<not> v < mn"
  proof -
    have "unat ((v - mn) div ((mx - mn) div n)) = (unat v - unat mn) div w"
      using that by (simp only: unat_div [of "v - mn"] w unat_sub word_le_nat_alt word_less_nat_alt not_less)
    then show ?thesis by (metis of_nat_unat ucast_id)
  qed
  then show ?thesis using n0 w0 by (simp add: val2bin_def divc_def)
qed

lemma bin_range:
  assumes "even_bins n mn mx w" "\<not> v < mn" "\<not> mx \<le> v"
  shows "(unat v - unat mn) div w < unat n"
proof -
  have "unat v < unat mn + unat n * w" using assms by (simp add: even_bins_def word_le_nat_alt)
  moreover have "unat mn \<le> unat v" using assms(2) by (simp add: word_less_nat_alt)
  ultimately have "unat v - unat mn < unat n * w" by linarith
  then show ?thesis using assms(1) by (simp add: even_bins_def div_less_iff_less_mult)
qed

lemma of_nat_u64_inj: "i < 2 ^ 64 \<Longrightarrow> j < 2 ^ 64 \<Longrightarrow> (of_nat i :: u64) = of_nat j \<longleftrightarrow> i = j"
proof -
  assume "i < 2 ^ 64" "j < 2 ^ 64"
  then have "unat (of_nat i :: u64) = i" "unat (of_nat j :: u64) = j" by (simp_all add: unat_of_nat)
  then show ?thesis by metis
qed

lemma div_eq_iff_range: "0 < w \<Longrightarrow> x div w = k \<longleftrightarrow> k * w \<le> x \<and> x < (k + 1) * (w :: nat)"
  using times_div_less_eq_dividend [of w x] dividend_less_times_div [of w x]
  by (auto simp: algebra_simps intro: div_nat_eqI)

lemma val2bin_iff:
  assumes e: "even_bins n mn mx w" and k: "k < unat n + 2"
  shows "val2bin n mn mx v = Inr (of_nat k) \<longleftrightarrow>
    (if k = unat n then v < mn else if k = unat n + 1 then mx \<le> v
     else unat mn + k * w \<le> unat v \<and> unat v < unat mn + (k + 1) * w)"
proof -
  let ?b = "if v < mn then unat n else if mx \<le> v then unat n + 1 else (unat v - unat mn) div w"
  have n: "unat n + 2 \<le> 2 ^ 64 - 1" "0 < w" "unat mn < unat mx" "unat mx = unat mn + unat n * w"
    using e unfolding even_bins_def word_less_nat_alt by blast+
  have b: "?b < unat n + 2" using bin_range [OF e, of v] by (auto intro: less_SucI)
  have "val2bin n mn mx v = Inr (of_nat k) \<longleftrightarrow> ?b = k"
    unfolding val2bin_even [OF e] using of_nat_u64_inj [of ?b k] b k n(1) by simp
  also have "\<dots> \<longleftrightarrow> (if k = unat n then v < mn else if k = unat n + 1 then mx \<le> v
     else unat mn + k * w \<le> unat v \<and> unat v < unat mn + (k + 1) * w)"
  proof (cases "v < mn \<or> mx \<le> v")
    case True
    have "k * w + w \<le> unat n * w" if "k < unat n"
    proof -
      have "(k + 1) * w \<le> unat n * w" using that by (intro mult_le_mono1) simp
      then show ?thesis by simp
    qed
    then show ?thesis using True n k by (auto simp: word_less_nat_alt word_le_nat_alt)
  next
    case False
    then have "unat mn \<le> unat v" by (simp add: word_less_nat_alt)
    then have "(unat v - unat mn) div w = k \<longleftrightarrow> unat mn + k * w \<le> unat v \<and> unat v < unat mn + (k + 1) * w"
      unfolding div_eq_iff_range [OF n(2)] by linarith
    then show ?thesis using False bin_range [OF e, of v] by auto
  qed
  finally show ?thesis .
qed

text \<open>When the range is not a multiple of the number of bins, the width is rounded down, and a value close to
  the upper end falls behind the last bin: with four bins for 0 to 7, the value 4 is counted as
  below the range and the value 6 behind the end of the array.\<close>

lemma bins_overflow:
  "count_bins 4 0 7 [6] (replicate 6 0) = Inl Bad_Memory" "val2bin 4 0 7 4 = Inr 4" "val2bin 9 0 7 3 = Inl Div_By_Zero"
  by (simp_all add: val2bin_def divc_def)

section \<open>Properties\<close>



text \<open>Bins count every value once. When the range is the number of bins times a width, counting
  never leaves the array, bin \<open>k\<close> holds the number of values from its lower end up to the lower end of
  the next bin, and the two last elements hold the numbers of values below and above the range.\<close>

theorem bins_count_values:
  assumes ctl: "recorded ctl rs" "dim < result_dimensions ctl" and e: "even_bins n mn mx w" and vs: "vs = map (\<lambda>r. r ! dim) rs"
  shows "\<exists>bins. do_bincounting True ctl dim n mn mx = Inr bins \<and> length bins = unat n + 2 \<and>
    (\<forall>k<unat n. bins ! k = of_nat (length (filter (\<lambda>v. unat mn + k * w \<le> unat v \<and> unat v < unat mn + (k + 1) * w) vs))) \<and>
    bins ! unat n = of_nat (length (filter (\<lambda>v. v < mn) vs)) \<and>
    bins ! (unat n + 1) = of_nat (length (filter (\<lambda>v. mx \<le> v) vs))"
proof -
  have n: "unat n + 2 \<le> 2 ^ 64 - 1" using e by (simp only: even_bins_def)
  then have "unat n + unat (2 :: u64) < 2 ^ LENGTH(64)" by simp
  then have "unat (n + 2) = unat n + unat (2 :: u64)" by (rule unat_add_lem [THEN iffD1])
  then have l: "unat (n + 2) = unat n + 2" by simp
  have "\<forall>v\<in>set vs. \<exists>k. val2bin n mn mx v = Inr k \<and> unat k < length (replicate (unat n + 2) (0 :: u64))"
  proof
    fix v
    have "(if v < mn then unat n else if mx \<le> v then unat n + 1 else (unat v - unat mn) div w) < unat n + 2"
      using bin_range [OF e, of v] by (auto intro: less_SucI)
    then show "\<exists>k. val2bin n mn mx v = Inr k \<and> unat k < length (replicate (unat n + 2) (0 :: u64))"
      unfolding val2bin_even [OF e] using n by (auto simp: unat_of_nat)
  qed
  moreover have "length (replicate (unat n + 2) (0 :: u64)) \<le> 2 ^ 64" using n by simp
  ultimately obtain bins where b: "count_bins n mn mx vs (replicate (unat n + 2) 0) = Inr bins" "length bins = unat n + 2"
    and b0: "\<forall>k<unat n + 2. bins ! k = replicate (unat n + 2) 0 ! k + of_nat (length (filter (\<lambda>v. val2bin n mn mx v = Inr (of_nat k)) vs))"
    using count_bins_spec [of vs n mn mx "replicate (unat n + 2) 0"] unfolding length_replicate by blast
  have b3: "bins ! k = of_nat (length (filter (\<lambda>v. val2bin n mn mx v = Inr (of_nat k)) vs))" if "k < unat n + 2" for k
    using b0 that nth_replicate [OF that, of "0 :: u64"] by (metis add_0)
  have "do_bincounting True ctl dim n mn mx = Inr bins"
    using b(1) recorded_values [OF ctl] by (simp add: do_bincounting_def l vs)
  moreover have "bins ! k = of_nat (length (filter (\<lambda>v. unat mn + k * w \<le> unat v \<and> unat v < unat mn + (k + 1) * w) vs))" if "k < unat n" for k
    using b3 [of k] that val2bin_iff [OF e, of k] by simp
  moreover have "bins ! unat n = of_nat (length (filter (\<lambda>v. v < mn) vs))"
    using b3 [of "unat n"] val2bin_iff [OF e, of "unat n"] by simp
  moreover have "bins ! (unat n + 1) = of_nat (length (filter (\<lambda>v. mx \<le> v) vs))"
    using b3 [of "unat n + 1"] val2bin_iff [OF e, of "unat n + 1"] by simp
  ultimately show ?thesis using b(2) by blast
qed

theorem bins_count_values_witness:
  "\<exists>ctl0 ctl bins. bench_ctl_init True True BENCH_MODE_FIXEDRUNS 1 4 = Inr ctl0 \<and> add_runs ctl0 [[5], [12], [19], [40]] = Inr ctl \<and>
     do_bincounting True ctl 0 2 10 30 = Inr bins \<and> bins ! 0 = 2 \<and> bins ! 1 = 0 \<and> bins ! 2 = 1 \<and> bins ! 3 = 1"
proof -
  obtain ctl0 where i: "bench_ctl_init True True BENCH_MODE_FIXEDRUNS 1 4 = Inr ctl0" by (simp add: bench_ctl_init_def)
  let ?rs = "[[5], [12], [19], [40]] :: u64 list list"
  have "recorded ctl0 []" "min_runs ctl0 = 4" "result_dimensions ctl0 = 1" using recorded_init [OF i] by simp_all
  then obtain ctl where c: "add_runs ctl0 ?rs = Inr ctl" "recorded ctl ?rs" "result_dimensions ctl = 1"
    using add_runs_recorded [of ctl0 "[]" ?rs] by auto
  have e: "even_bins 2 10 30 10" by (simp add: even_bins_def)
  have "0 < result_dimensions ctl" using c(3) by simp
  from bins_count_values [OF c(2) this e refl] obtain bins where b: "do_bincounting True ctl 0 2 10 30 = Inr bins"
    "\<forall>k<unat (2 :: u64). bins ! k = of_nat (length (filter (\<lambda>v. unat (10 :: u64) + k * 10 \<le> unat v \<and> unat v < unat (10 :: u64) + (k + 1) * 10)
      (map (\<lambda>r. r ! 0) ?rs)))"
    "bins ! unat (2 :: u64) = of_nat (length (filter (\<lambda>v. v < 10) (map (\<lambda>r. r ! 0) ?rs)))"
    "bins ! (unat (2 :: u64) + 1) = of_nat (length (filter (\<lambda>v. 30 \<le> v) (map (\<lambda>r. r ! 0) ?rs)))" by blast
  have "bins ! 0 = 2" using spec [OF b(2), of 0] by simp
  moreover have "bins ! 1 = 0" using spec [OF b(2), of 1] by simp
  moreover have "bins ! 2 = 1" "bins ! 3 = 1" using b(3,4) by simp_all
  ultimately show ?thesis using i c(1) b(1) by blast
qed

end
